(* ===== verification/Cpp_Prelude.thy ===== *)
theory Cpp_Prelude
  imports Main "HOL-Library.Word" "HOL-Library.Multiset"
begin

text \<open>
  What every component of the development shares: the machine types and errors of the C++
  programs, the text that \<open>operator<<\<close> writes for integers, and generic lemmas on lists and
  words.

  \<^item> \<open>size_t\<close> is a 64-bit word, as on the platforms the repository builds on.
  \<^item> \<open>cpp_exn\<close> lists what the programs throw (with the text passed to the exception where the
    program passes one) and \<open>Undefined_Behaviour\<close> for an operation the language gives no
    meaning to (dereferencing an empty \<open>std::optional\<close>, a null or a dangling pointer). A
    theorem whose result is never \<open>Inl Undefined_Behaviour\<close> says that the code never gets there.
  \<^item> \<open>'a result\<close> is the outcome of an operation that may throw.
  \<^item> Signed \<open>int\<close> values are HOL \<open>int\<close>s where the code only copies or compares them; where
    arithmetic on them can leave the range, the component says how it is treated.
\<close>

section \<open>Collections\<close>

named_theorems op_defs \<open>unfolding rules of a component's operations\<close>
named_theorems inv_intros \<open>an operation keeps a component's invariant\<close>
named_theorems abs_simps \<open>what an operation does to the abstract value\<close>

section \<open>Types and errors\<close>

type_synonym size_t = "64 word"

datatype cpp_exn =
    Invalid_Argument string
  | Out_Of_Range string
  | Length_Error string
  | Runtime_Error string
  | Empty_Stack
  | Undefined_Behaviour

type_synonym 'a result = "cpp_exn + 'a"

fun bind_result :: "'e + 'a \<Rightarrow> ('a \<Rightarrow> 'e + 'b) \<Rightarrow> 'e + 'b" where
  "bind_result (Inl e) f = Inl e"
| "bind_result (Inr x) f = f x"

lemma bind_result_Inr: "bind_result m f = Inr y \<longleftrightarrow> (\<exists>x. m = Inr x \<and> f x = Inr y)"
  by (cases m) auto

lemma bind_result_Inl: "bind_result m f = Inl e \<longleftrightarrow> m = Inl e \<or> (\<exists>x. m = Inr x \<and> f x = Inl e)"
  by (cases m) auto

text \<open>\<open>*p\<close> for a \<open>std::optional\<close>: no meaning when it is empty.\<close>

definition deref_optional :: "'a option \<Rightarrow> 'a result" where
  "deref_optional p = (case p of None \<Rightarrow> Inl Undefined_Behaviour | Some x \<Rightarrow> Inr x)"

section \<open>Integers as text\<close>

definition digit_char :: "nat \<Rightarrow> char" where
  "digit_char d = char_of (48 + d)"

fun show_nat :: "nat \<Rightarrow> string" where
  "show_nat n = (if n < 10 then [digit_char n] else show_nat (n div 10) @ [digit_char (n mod 10)])"

declare show_nat.simps [simp del]

definition show_int :: "int \<Rightarrow> string" where
  "show_int i = (if i < 0 then ''-'' @ show_nat (nat (- i)) else show_nat (nat i))"

text \<open>
  Character 10, written \<open>'\n'\<close> in the source.
\<close>

definition newline :: string where
  "newline = [CHR 0x0A]"

text \<open>Printing a numeral: the simplifier computes it with these.\<close>

lemma digit_chars:
  "digit_char 0 = CHR ''0''"
  "digit_char (Suc 0) = CHR ''1''"
  "digit_char 2 = CHR ''2''"
  "digit_char 3 = CHR ''3''"
  "digit_char 4 = CHR ''4''"
  "digit_char 5 = CHR ''5''"
  "digit_char 6 = CHR ''6''"
  "digit_char 7 = CHR ''7''"
  "digit_char 8 = CHR ''8''"
  "digit_char 9 = CHR ''9''"
  by code_simp+

lemmas show_simps = show_int_def show_nat.simps digit_chars

lemma show_nat_nonempty: "show_nat n \<noteq> []"
  by (subst show_nat.simps) simp

section \<open>Words as indices\<close>

lemma unat_size_t_less: "unat (w :: size_t) < 2 ^ 64"
proof -
  have "unat w < 2 ^ LENGTH(64)" by (rule unsigned_less)
  then show ?thesis by simp
qed

lemma unat_Suc_size_t: "unat (i :: size_t) < n \<Longrightarrow> n < 2 ^ 64 \<Longrightarrow> unat (i + 1) = Suc (unat i)"
proof -
  assume a: "unat i < n" "n < 2 ^ 64"
  then have "Suc (unat i) < 2 ^ 64" by linarith
  then show ?thesis by (simp add: unat_word_ariths)
qed

lemma unat_of_nat_size_t: "n < 2 ^ 64 \<Longrightarrow> unat (of_nat n :: size_t) = n"
  by (simp add: unat_of_nat)

lemma eq_of_nat_size_t: "n < 2 ^ 64 \<Longrightarrow> (w :: size_t) = of_nat n \<longleftrightarrow> unat w = n"
  by (auto simp: unat_of_nat_size_t)

lemma unat_pred_size_t: "(i :: size_t) \<noteq> 0 \<Longrightarrow> unat (i - 1) = unat i - 1"
  by (simp add: unat_minus_one)

lemma unat_mod_size_t: "unat ((i :: size_t) mod j) = unat i mod unat j"
  by (rule unat_mod)

section \<open>Lists\<close>

lemma map_upt_Suc_tl: "map f [0..<Suc n] = f 0 # map (\<lambda>i. f (Suc i)) [0..<n]"
  by (induction n) auto

lemma hd_map_upt: "0 < n \<Longrightarrow> hd (map f [0..<n]) = f 0"
  by (cases n) (auto simp del: upt_Suc simp: map_upt_Suc_tl)

lemma tl_map_upt: "tl (map f [0..<n]) = map (\<lambda>i. f (Suc i)) [0..<n - 1]"
  by (cases n) (auto simp del: upt_Suc simp: map_upt_Suc_tl)

definition latest :: "nat \<Rightarrow> 'a list \<Rightarrow> 'a list" where
  "latest n xs = drop (length xs - n) xs"

lemma length_latest [simp]: "length (latest n xs) = min n (length xs)"
  by (simp add: latest_def)

lemma latest_all: "length xs \<le> n \<Longrightarrow> latest n xs = xs"
  by (simp add: latest_def)

lemma latest_snoc:
  assumes "0 < n"
  shows "latest n (xs @ [x]) = (if n \<le> length xs then tl (latest n xs) else latest n xs) @ [x]"
proof (cases "n \<le> length xs")
  case True
  then have "length (xs @ [x]) - n = Suc (length xs - n)" by simp
  with True assms show ?thesis by (simp add: latest_def tl_drop drop_Suc)
next
  case False
  then show ?thesis by (simp add: latest_def)
qed

lemma mod_add_inj:
  fixes h :: nat
  assumes "a < n" and "b < n"
  shows "(h + a) mod n = (h + b) mod n \<longleftrightarrow> a = b"
proof
  assume "(h + a) mod n = (h + b) mod n"
  then have "a mod n = b mod n"
    by (auto simp: nat_mod_eq_iff add.assoc)
  with assms show "a = b" by simp
qed simp

lemma sum_list_map_update:
  fixes f :: "'a \<Rightarrow> 'b :: comm_monoid_add"
  shows "i < length xs \<Longrightarrow> sum_list (map f (xs[i := y])) + f (xs ! i) = sum_list (map f xs) + f y"
proof (induction xs arbitrary: i)
  case Nil
  then show ?case by simp
next
  case (Cons x xs)
  show ?case
  proof (cases i)
    case 0
    then show ?thesis by (simp add: add_ac)
  next
    case (Suc j)
    with Cons have "sum_list (map f (xs[j := y])) + f (xs ! j) = sum_list (map f xs) + f y" by simp
    with Suc show ?thesis by (simp add: add.assoc)
  qed
qed

lemma set_list_update_subset: "x \<in> set (xs[i := y]) \<Longrightarrow> x = y \<or> x \<in> set xs"
  using set_update_subset_insert [of xs i y] by blast

section \<open>Output\<close>

text \<open>What \<open>std::cout << ... << '\n'\<close> appends to the output.\<close>

definition line_out :: "string \<Rightarrow> string" where
  "line_out s = s @ newline"

section \<open>Threads\<close>

text \<open>
  \<open>interleaving xss ys\<close>: threads run the atomic operations \<open>xss\<close>, each in its own order, and
  \<open>ys\<close> is the order in which they took effect.
\<close>

inductive interleaving :: "'a list list \<Rightarrow> 'a list \<Rightarrow> bool" where
  all_done: "\<forall>xs\<in>set xss. xs = [] \<Longrightarrow> interleaving xss []"
| thread_step: "i < length xss \<Longrightarrow> xss ! i = x # xs \<Longrightarrow> interleaving (xss[i := xs]) ys \<Longrightarrow>
    interleaving xss (x # ys)"

lemma concat_empty: "\<forall>xs\<in>set xss. xs = [] \<Longrightarrow> concat xss = []"
  by (induction xss) auto

lemma interleaving_mset: "interleaving xss ys \<Longrightarrow> mset ys = sum_list (map mset xss)"
proof (induction rule: interleaving.induct)
  case (all_done xss)
  then show ?case by (induction xss) auto
next
  case (thread_step i xss x xs ys)
  have "sum_list (map mset (xss[i := xs])) + mset (xss ! i) = sum_list (map mset xss) + mset xs"
    using thread_step.hyps(1) by (rule sum_list_map_update)
  then have "(mset ys + {#x#}) + mset xs = sum_list (map mset xss) + mset xs"
    using thread_step.IH thread_step.hyps(2) by (simp add: add_ac)
  then have "mset ys + {#x#} = sum_list (map mset xss)" by (rule add_right_imp_eq)
  then show ?case by simp
qed

text \<open>A program in which the threads run one after the other is one of them.\<close>

lemma interleaving_concat: "interleaving xss (concat xss)"
proof (induction "length (concat xss)" arbitrary: xss)
  case 0
  then have "\<forall>xs\<in>set xss. xs = []" by simp
  then show ?case by (simp only: concat_empty interleaving.all_done)
next
  case (Suc n)
  obtain as x bs cs where s: "xss = as @ (x # bs) # cs" and as: "\<forall>a\<in>set as. a = []"
  proof -
    have "\<exists>xs\<in>set xss. xs \<noteq> []" using Suc.hyps(2) concat_empty [of xss] by fastforce
    from split_list_first_prop [OF this] show ?thesis using that by (metis list.exhaust)
  qed
  have i: "length as < length xss" "xss ! length as = x # bs" "xss[length as := bs] = as @ bs # cs"
    using s by (simp_all add: nth_append list_update_append)
  have c: "concat as = []" using as by (rule concat_empty)
  have "interleaving (as @ bs # cs) (concat (as @ bs # cs))"
    using Suc.hyps(2) s by (intro Suc.hyps(1)) simp
  then have "interleaving xss (x # concat (as @ bs # cs))"
    using interleaving.thread_step [OF i(1,2)] i(3) by simp
  then show ?case by (simp only: s concat_append concat.simps c append_Nil append_Cons)
qed

text \<open>The actions of one kind are in program order when one thread has them all.\<close>

lemma interleaving_filter_one:
  "interleaving xss ys \<Longrightarrow> i < length xss \<Longrightarrow>
    \<forall>j<length xss. j \<noteq> i \<longrightarrow> filter P (xss ! j) = [] \<Longrightarrow> filter P ys = filter P (xss ! i)"
proof (induction rule: interleaving.induct)
  case (all_done xss)
  then have "xss ! i = []" using nth_mem by blast
  then show ?case by simp
next
  case (thread_step k xss x xs ys)
  have others: "\<forall>j<length (xss[k := xs]). j \<noteq> i \<longrightarrow> filter P (xss[k := xs] ! j) = []"
  proof (intro allI impI)
    fix j assume j: "j < length (xss[k := xs])" "j \<noteq> i"
    then have "filter P (xss ! j) = []" using thread_step.prems(2) by simp
    then show "filter P (xss[k := xs] ! j) = []"
      using thread_step.hyps(2) j by (cases "j = k") (auto split: if_splits)
  qed
  have IH: "filter P ys = filter P (xss[k := xs] ! i)"
    using thread_step.IH others thread_step.prems(1) by simp
  show ?case
  proof (cases "k = i")
    case True
    then show ?thesis using IH thread_step.hyps(1,2) by simp
  next
    case False
    then have "filter P (x # xs) = []" using thread_step.prems(2) thread_step.hyps(1,2) by metis
    then show ?thesis using IH False by (auto split: if_splits)
  qed
qed

end
