(* ===== verification/Cpp_Interfaces.thy ===== *)
theory Cpp_Interfaces
  imports Cpp_Prelude
begin

text \<open>
  The interfaces the containers of the repository provide and their clients use, as locales: a
  queue from which elements leave in the order they entered, a stack, and a keyed store. Each
  locale fixes the operations the client calls and an abstraction to lists or maps, and assumes
  the laws the provider promises; the lemmas inside are the client's, proved once. The theories
  of the containers interpret them on their own operations.
\<close>

section \<open>Client loops over a container\<close>

text \<open>
  The loop \<open>while (auto v = q.pop()) use(*v);\<close> of the examples. The first argument is the
  operation \<open>pop\<close>; the loop gives up (\<open>None\<close>) when its fuel is spent.
\<close>

fun drain :: "('s \<Rightarrow> 'a option \<times> 's) \<Rightarrow> nat \<Rightarrow> 's \<Rightarrow> ('a list \<times> 's) option" where
  "drain pop 0 s = None"
| "drain pop (Suc fuel) s =
     (case pop s of
        (None, s') \<Rightarrow> Some ([], s')
      | (Some x, s') \<Rightarrow>
          (case drain pop fuel s' of None \<Rightarrow> None | Some (xs, s'') \<Rightarrow> Some (x # xs, s'')))"

datatype 'a queue_op = Push 'a | Pop

text \<open>
  A client that pushes and pops in any order. The result lists the values the queue accepted, in
  order, the values it gave back, in order, and the final queue.
\<close>

fun queue_run ::
  "('a \<Rightarrow> 's \<Rightarrow> bool \<times> 's) \<Rightarrow> ('s \<Rightarrow> 'a option \<times> 's) \<Rightarrow> 'a queue_op list \<Rightarrow> 's \<Rightarrow>
    'a list \<times> 'a list \<times> 's" where
  "queue_run push pop [] s = ([], [], s)"
| "queue_run push pop (Push x # os) s =
     (let (ok, s') = push x s; (ins, outs, s'') = queue_run push pop os s'
      in (if ok then x # ins else ins, outs, s''))"
| "queue_run push pop (Pop # os) s =
     (let (r, s') = pop s; (ins, outs, s'') = queue_run push pop os s'
      in (ins, case r of None \<Rightarrow> outs | Some x \<Rightarrow> x # outs, s''))"

text \<open>
  The loop \<open>while (!s.empty()) use(s.pop());\<close> over a stack whose \<open>pop\<close> throws when empty.
\<close>

fun stack_drain ::
  "('s \<Rightarrow> bool) \<Rightarrow> ('s \<Rightarrow> 'e + 'a \<times> 's) \<Rightarrow> nat \<Rightarrow> 's \<Rightarrow> ('e + 'a list \<times> 's) option" where
  "stack_drain is_empty pop 0 s = None"
| "stack_drain is_empty pop (Suc fuel) s =
     (if is_empty s then Some (Inr ([], s))
      else case pop s of
          Inl e \<Rightarrow> Some (Inl e)
        | Inr (x, s') \<Rightarrow>
            (case stack_drain is_empty pop fuel s' of
               Some (Inr (xs, s'')) \<Rightarrow> Some (Inr (x # xs, s''))
             | other \<Rightarrow> other))"

section \<open>Queues\<close>

locale fifo_pop =
  fixes qabs :: "'s \<Rightarrow> 'a list"
    and qinv :: "'s \<Rightarrow> bool"
    and qpop :: "'s \<Rightarrow> 'a option \<times> 's"
  assumes pop_nil: "qinv s \<Longrightarrow> qabs s = [] \<Longrightarrow> qpop s = (None, s)"
    and pop_cons: "qinv s \<Longrightarrow> qabs s = x # xs \<Longrightarrow>
      fst (qpop s) = Some x \<and> qabs (snd (qpop s)) = xs \<and> qinv (snd (qpop s))"
begin

lemma pop_hd: "qinv s \<Longrightarrow> fst (qpop s) = (if qabs s = [] then None else Some (hd (qabs s)))"
  by (cases "qabs s") (auto simp: pop_nil pop_cons)

lemma pop_tl: "qinv s \<Longrightarrow> qabs (snd (qpop s)) = tl (qabs s)"
  by (cases "qabs s") (auto simp: pop_nil pop_cons)

lemma pop_inv: "qinv s \<Longrightarrow> qinv (snd (qpop s))"
  by (cases "qabs s") (auto simp: pop_nil pop_cons)

lemma drain_all:
  "qinv s \<Longrightarrow> length (qabs s) < fuel \<Longrightarrow>
    \<exists>s'. drain qpop fuel s = Some (qabs s, s') \<and> qinv s' \<and> qabs s' = []"
proof (induction fuel arbitrary: s)
  case 0
  then show ?case by simp
next
  case (Suc fuel)
  show ?case
  proof (cases "qabs s")
    case Nil
    with Suc.prems show ?thesis by (simp add: pop_nil)
  next
    case (Cons x xs)
    obtain r s1 where p: "qpop s = (r, s1)" by (cases "qpop s")
    from pop_cons [OF Suc.prems(1) Cons] p
    have r: "r = Some x" and s1: "qabs s1 = xs" "qinv s1" by auto
    from Suc.IH [OF s1(2)] s1 Cons Suc.prems(2) obtain s' where
      "drain qpop fuel s1 = Some (xs, s')" "qinv s'" "qabs s' = []" by auto
    with p r Cons show ?thesis by simp
  qed
qed

end

locale fifo_queue = fifo_pop qabs qinv qpop
  for qabs :: "'s \<Rightarrow> 'a list" and qinv :: "'s \<Rightarrow> bool" and qpop :: "'s \<Rightarrow> 'a option \<times> 's" +
  fixes qroom :: "'s \<Rightarrow> bool"
    and qpush :: "'a \<Rightarrow> 's \<Rightarrow> bool \<times> 's"
  assumes push_room: "qinv s \<Longrightarrow> qroom s \<Longrightarrow>
      fst (qpush x s) \<and> qabs (snd (qpush x s)) = qabs s @ [x] \<and> qinv (snd (qpush x s))"
    and push_refused: "qinv s \<Longrightarrow> \<not> qroom s \<Longrightarrow> qpush x s = (False, s)"
begin

lemma push_inv: "qinv s \<Longrightarrow> qinv (snd (qpush x s))"
  by (cases "qroom s") (auto simp: push_room push_refused)

lemma push_abs:
  "qinv s \<Longrightarrow> qabs (snd (qpush x s)) = (if fst (qpush x s) then qabs s @ [x] else qabs s)"
  by (cases "qroom s") (auto simp: push_room push_refused)

lemma pop_abs:
  "qinv s \<Longrightarrow> qabs s = (case fst (qpop s) of None \<Rightarrow> qabs (snd (qpop s))
     | Some x \<Rightarrow> x # qabs (snd (qpop s)))"
  by (cases "qabs s") (auto simp: pop_nil pop_cons)

text \<open>Whatever the interleaving, what comes out is what went in, in order.\<close>

lemma run_fifo:
  "qinv s \<Longrightarrow> queue_run qpush qpop os s = (ins, outs, s') \<Longrightarrow>
    qabs s @ ins = outs @ qabs s' \<and> qinv s'"
proof (induction os arbitrary: s ins outs s')
  case Nil
  then show ?case by simp
next
  case (Cons c os)
  show ?case
  proof (cases c)
    case (Push x)
    obtain ok s1 where p: "qpush x s = (ok, s1)" by (cases "qpush x s")
    obtain ins1 outs1 s2 where r: "queue_run qpush qpop os s1 = (ins1, outs1, s2)"
      by (cases "queue_run qpush qpop os s1")
    from Cons.prems(1) p have "qinv s1" using push_inv [of s x] by simp
    from Cons.IH [OF this r] have "qabs s1 @ ins1 = outs1 @ qabs s2" and "qinv s2" by auto
    moreover from push_abs [OF Cons.prems(1), of x] p
    have "qabs s1 = (if ok then qabs s @ [x] else qabs s)" by simp
    ultimately show ?thesis using Cons.prems(2) Push p r by (auto split: if_splits)
  next
    case Pop
    obtain v s1 where p: "qpop s = (v, s1)" by (cases "qpop s")
    obtain ins1 outs1 s2 where r: "queue_run qpush qpop os s1 = (ins1, outs1, s2)"
      by (cases "queue_run qpush qpop os s1")
    from Cons.prems(1) p have "qinv s1" using pop_inv [of s] by simp
    from Cons.IH [OF this r] have "qabs s1 @ ins1 = outs1 @ qabs s2" and "qinv s2" by auto
    moreover from pop_abs [OF Cons.prems(1)] p
    have "qabs s = (case v of None \<Rightarrow> qabs s1 | Some x \<Rightarrow> x # qabs s1)"
      by (cases v) simp_all
    ultimately show ?thesis using Cons.prems(2) Pop p r by (cases v) auto
  qed
qed

end

section \<open>Stacks\<close>

locale lifo_stack =
  fixes sabs :: "'s \<Rightarrow> 'a list"
    and sinv :: "'s \<Rightarrow> bool"
    and sempty :: "'s \<Rightarrow> bool"
    and spush :: "'a \<Rightarrow> 's \<Rightarrow> 's"
    and spop :: "'s \<Rightarrow> 'e + 'a \<times> 's"
  assumes stk_empty: "sinv s \<Longrightarrow> sempty s \<longleftrightarrow> sabs s = []"
    and stk_push: "sinv s \<Longrightarrow> sabs (spush x s) = x # sabs s"
    and stk_push_inv: "sinv s \<Longrightarrow> sinv (spush x s)"
    and stk_pop_nil: "sinv s \<Longrightarrow> sabs s = [] \<Longrightarrow> \<exists>e. spop s = Inl e"
    and stk_pop_cons: "sinv s \<Longrightarrow> sabs s = x # xs \<Longrightarrow>
      \<exists>s'. spop s = Inr (x, s') \<and> sabs s' = xs \<and> sinv s'"
begin

lemma pop_push: "sinv s \<Longrightarrow> \<exists>s'. spop (spush x s) = Inr (x, s') \<and> sabs s' = sabs s \<and> sinv s'"
  using stk_pop_cons [OF stk_push_inv stk_push] by blast

lemma push_all:
  "sinv s \<Longrightarrow> sabs (fold spush xs s) = rev xs @ sabs s \<and> sinv (fold spush xs s)"
  by (induction xs arbitrary: s) (auto simp: stk_push stk_push_inv)

lemma drain_all:
  "sinv s \<Longrightarrow> length (sabs s) < fuel \<Longrightarrow>
    \<exists>s'. stack_drain sempty spop fuel s = Some (Inr (sabs s, s')) \<and> sabs s' = [] \<and> sinv s'"
proof (induction fuel arbitrary: s)
  case 0
  then show ?case by simp
next
  case (Suc fuel)
  show ?case
  proof (cases "sabs s")
    case Nil
    with Suc.prems show ?thesis by (auto simp: stk_empty)
  next
    case (Cons x xs)
    from stk_pop_cons [OF Suc.prems(1) Cons] obtain s1 where
      p: "spop s = Inr (x, s1)" and s1: "sabs s1 = xs" "sinv s1" by blast
    from Suc.IH [OF s1(2)] s1 Cons Suc.prems(2) obtain s' where
      "stack_drain sempty spop fuel s1 = Some (Inr (xs, s'))" "sabs s' = []" "sinv s'" by auto
    with p Cons Suc.prems show ?thesis by (simp add: stk_empty)
  qed
qed

lemma push_drain:
  "sinv s \<Longrightarrow> sabs s = [] \<Longrightarrow> length xs < fuel \<Longrightarrow>
    \<exists>s'. stack_drain sempty spop fuel (fold spush xs s) = Some (Inr (rev xs, s'))"
  using drain_all [of "fold spush xs s" fuel] push_all [of s xs] by auto

end

section \<open>Keyed stores\<close>

locale keyed_store =
  fixes klookup :: "'s \<Rightarrow> 'k \<Rightarrow> 'v option"
    and kinv :: "'s \<Rightarrow> bool"
    and kupdate :: "'k \<Rightarrow> 'v \<Rightarrow> 's \<Rightarrow> 's"
  assumes lookup_update: "kinv s \<Longrightarrow> klookup (kupdate k v s) = (klookup s)(k \<mapsto> v)"
    and update_inv: "kinv s \<Longrightarrow> kinv (kupdate k v s)"
begin

lemma lookup_update_all:
  "kinv s \<Longrightarrow> klookup (fold (\<lambda>(k, v). kupdate k v) kvs s) = klookup s ++ map_of (rev kvs) \<and>
    kinv (fold (\<lambda>(k, v). kupdate k v) kvs s)"
  by (induction kvs arbitrary: s) (auto simp: lookup_update update_inv map_add_def fun_eq_iff split: option.splits)

text \<open>Writers of different keys may come in any order.\<close>

lemma update_commute:
  "kinv s \<Longrightarrow> j \<noteq> k \<Longrightarrow>
    klookup (kupdate j v (kupdate k w s)) = klookup (kupdate k w (kupdate j v s))"
  by (auto simp: lookup_update update_inv fun_upd_twist)

end

locale removable_store = keyed_store klookup kinv kupdate
  for klookup :: "'s \<Rightarrow> 'k \<Rightarrow> 'v option" and kinv :: "'s \<Rightarrow> bool"
    and kupdate :: "'k \<Rightarrow> 'v \<Rightarrow> 's \<Rightarrow> 's" +
  fixes kremove :: "'k \<Rightarrow> 's \<Rightarrow> 's"
  assumes lookup_remove: "kinv s \<Longrightarrow> klookup (kremove k s) = (klookup s)(k := None)"
    and remove_inv: "kinv s \<Longrightarrow> kinv (kremove k s)"
begin

lemma remove_update: "kinv s \<Longrightarrow> klookup (kremove k (kupdate k v s)) = (klookup s)(k := None)"
  by (simp add: lookup_remove lookup_update update_inv)

lemma update_remove: "kinv s \<Longrightarrow> klookup (kupdate k v (kremove k s)) = klookup (kupdate k v s)"
  by (simp add: lookup_remove lookup_update remove_inv)

end

end
