(* ===== verification/Circular_Buffer.thy ===== *)
theory Circular_Buffer
  imports Cpp_Interfaces
begin

text \<open>
  \<open>impl/circular_buffer.cpp\<close>: a FIFO queue of fixed capacity in a circular array. The record has
  the four members of the class (prefixed \<open>cb_\<close>: the vector of \<open>std::optional<T>\<close> slots and the 64-bit indices);
  the invariant is the one the class comment lists, the abstract value is the logical order from
  \<open>cb_head\<close>, and every operation refines the list operation the comment promises. The demo of
  \<open>main\<close> is evaluated. Allocation failure in the constructor is not modelled.
\<close>

section \<open>The class\<close>

record 'a circular_buffer =
  cb_buffer :: "'a option list"
  cb_head :: size_t
  cb_tail :: size_t
  cb_size :: size_t

definition CircularBuffer :: "size_t \<Rightarrow> 'a circular_buffer result" where
  "CircularBuffer capacity =
     (if capacity = 0 then Inl (Invalid_Argument ''capacity must be greater than 0'')
      else Inr \<lparr>cb_buffer = replicate (unat capacity) None, cb_head = 0, cb_tail = 0, cb_size = 0\<rparr>)"

definition cb_capacity :: "'a circular_buffer \<Rightarrow> size_t" where
  "cb_capacity b = of_nat (length (cb_buffer b))"

definition cb_full :: "'a circular_buffer \<Rightarrow> bool" where
  "cb_full b \<longleftrightarrow> cb_size b = of_nat (length (cb_buffer b))"

definition cb_empty :: "'a circular_buffer \<Rightarrow> bool" where
  "cb_empty b \<longleftrightarrow> cb_size b = 0"

definition get_next_idx :: "'a circular_buffer \<Rightarrow> size_t \<Rightarrow> size_t" where
  "get_next_idx b index = (index + 1) mod of_nat (length (cb_buffer b))"

definition cb_push :: "'a \<Rightarrow> 'a circular_buffer \<Rightarrow> bool \<times> 'a circular_buffer" where
  "cb_push v b =
     (if cb_full b then (False, b)
      else (True, b\<lparr>cb_buffer := (cb_buffer b)[unat (cb_tail b) := Some v],
                    cb_tail := get_next_idx b (cb_tail b),
                    cb_size := cb_size b + 1\<rparr>))"

definition cb_push_overwrite :: "'a \<Rightarrow> 'a circular_buffer \<Rightarrow> 'a circular_buffer" where
  "cb_push_overwrite v b =
     (let b1 = b\<lparr>cb_buffer := (cb_buffer b)[unat (cb_tail b) := Some v]\<rparr>;
          b2 = (if cb_full b1 then b1\<lparr>cb_head := get_next_idx b1 (cb_head b1)\<rparr>
                else b1\<lparr>cb_size := cb_size b1 + 1\<rparr>)
      in b2\<lparr>cb_tail := get_next_idx b2 (cb_tail b2)\<rparr>)"

definition cb_pop :: "'a circular_buffer \<Rightarrow> 'a option \<times> 'a circular_buffer" where
  "cb_pop b =
     (if cb_empty b then (None, b)
      else (cb_buffer b ! unat (cb_head b),
            b\<lparr>cb_buffer := (cb_buffer b)[unat (cb_head b) := None],
              cb_head := get_next_idx b (cb_head b),
              cb_size := cb_size b - 1\<rparr>))"

definition cb_front :: "'a circular_buffer \<Rightarrow> 'a result" where
  "cb_front b =
     (if cb_empty b then Inl (Out_Of_Range ''CB is empty.'')
      else deref_optional (cb_buffer b ! unat (cb_head b)))"

text \<open>
  \<open>print_state\<close>: the physical slots, then \<open>cb_size\<close> elements from \<open>cb_head\<close>; \<open>shw\<close> is the element's
  \<open>operator<<\<close>. \<open>cb_logical\<close> is its second loop: \<open>n\<close> more elements from \<open>index\<close>.
\<close>

fun cb_logical :: "'a circular_buffer \<Rightarrow> size_t \<Rightarrow> nat \<Rightarrow> 'a list result" where
  "cb_logical b index 0 = Inr []"
| "cb_logical b index (Suc n) =
     bind_result (deref_optional (cb_buffer b ! unat index))
       (\<lambda>x. bind_result (cb_logical b (get_next_idx b index) n) (\<lambda>xs. Inr (x # xs)))"

definition cb_print_state :: "('a \<Rightarrow> string) \<Rightarrow> 'a circular_buffer \<Rightarrow> string result" where
  "cb_print_state shw b =
     bind_result (cb_logical b (cb_head b) (unat (cb_size b)))
       (\<lambda>xs. Inr (''Physical array: [ ''
          @ concat (map (\<lambda>slot. case slot of Some x \<Rightarrow> shw x @ '' '' | None \<Rightarrow> ''_ '') (cb_buffer b))
          @ '']'' @ newline
          @ ''Logical order: [ '' @ concat (map (\<lambda>x. shw x @ '' '') xs) @ '']'' @ newline
          @ ''head = '' @ show_nat (unat (cb_head b)) @ '', tail = '' @ show_nat (unat (cb_tail b))
          @ '', size = '' @ show_nat (unat (cb_size b)) @ newline @ newline))"

lemmas cb_defs [op_defs] =
  cb_full_def cb_empty_def get_next_idx_def cb_push_def cb_push_overwrite_def cb_pop_def
  cb_front_def cb_capacity_def

section \<open>Invariant and logical order\<close>

definition cb_inv :: "'a circular_buffer \<Rightarrow> bool" where
  "cb_inv b \<longleftrightarrow>
     (let n = length (cb_buffer b); h = unat (cb_head b); k = unat (cb_size b)
      in 0 < n \<and> n < 2 ^ 64 \<and> h < n \<and> k \<le> n \<and> unat (cb_tail b) = (h + k) mod n \<and>
         (\<forall>i < n. cb_buffer b ! ((h + i) mod n) \<noteq> None \<longleftrightarrow> i < k))"

definition cb_list :: "'a circular_buffer \<Rightarrow> 'a list" where
  "cb_list b =
     map (\<lambda>i. the (cb_buffer b ! ((unat (cb_head b) + i) mod length (cb_buffer b)))) [0..<unat (cb_size b)]"

lemma cb_invD:
  assumes "cb_inv b"
  shows "0 < length (cb_buffer b)" "length (cb_buffer b) < 2 ^ 64"
    "unat (cb_head b) < length (cb_buffer b)" "unat (cb_size b) \<le> length (cb_buffer b)"
    "unat (cb_tail b) = (unat (cb_head b) + unat (cb_size b)) mod length (cb_buffer b)"
    "unat (cb_tail b) < length (cb_buffer b)"
    "\<And>i. i < length (cb_buffer b) \<Longrightarrow>
      cb_buffer b ! ((unat (cb_head b) + i) mod length (cb_buffer b)) \<noteq> None \<longleftrightarrow> i < unat (cb_size b)"
  using assms by (auto simp: cb_inv_def Let_def)

lemma cb_inv_memb:
  "cb_inv b \<Longrightarrow> i < unat (cb_size b) \<Longrightarrow>
    cb_buffer b ! ((unat (cb_head b) + i) mod length (cb_buffer b)) = Some (cb_list b ! i)"
  using cb_invD(7) [of b i] cb_invD(4) [of b] by (auto simp: cb_list_def)

lemma length_cb_list [simp]: "length (cb_list b) = unat (cb_size b)"
  by (simp add: cb_list_def)

lemma unat_next_idx:
  assumes "unat i < length (cb_buffer b)" and "length (cb_buffer b) < 2 ^ 64"
  shows "unat (get_next_idx b i) = (unat i + 1) mod length (cb_buffer b)"
  using assms by (simp add: get_next_idx_def unat_mod_size_t unat_Suc_size_t unat_of_nat_size_t)

lemma cb_full_iff: "cb_inv b \<Longrightarrow> cb_full b \<longleftrightarrow> unat (cb_size b) = length (cb_buffer b)"
  using cb_invD(2) [of b] by (simp add: cb_full_def eq_of_nat_size_t)

lemma cb_empty_iff: "cb_empty b \<longleftrightarrow> unat (cb_size b) = 0"
  by (simp add: cb_empty_def unat_eq_0)

lemma cb_empty_list: "cb_empty b \<longleftrightarrow> cb_list b = []"
  by (simp add: cb_empty_iff flip: length_0_conv)

section \<open>The operations keep the invariant and refine list operations\<close>

lemma CircularBuffer_ok:
  assumes "CircularBuffer c = Inr b"
  shows "cb_inv b" "cb_list b = []" "length (cb_buffer b) = unat c"
proof -
  from assms have c: "c \<noteq> 0"
    and b: "b = \<lparr>cb_buffer = replicate (unat c) None, cb_head = 0, cb_tail = 0, cb_size = 0\<rparr>"
    by (auto simp: CircularBuffer_def split: if_splits)
  from c have "0 < unat c" by (simp add: unat_gt_0)
  moreover have "unat c < 2 ^ 64" by (rule unat_size_t_less)
  ultimately show "cb_inv b" by (auto simp: cb_inv_def b Let_def)
  show "cb_list b = []" "length (cb_buffer b) = unat c" by (simp_all add: b cb_list_def)
qed

lemma cb_slot_update:
  assumes "i < n" "j < n" "n = length xs"
  shows "xs[(h + j) mod n := v] ! ((h + i) mod n) = (if i = j then v else xs ! ((h + i) mod n))"
proof -
  from assms(1) have "0 < n" by linarith
  then have "(h + j) mod n < length xs" "(h + i) mod n < length xs"
    by (simp_all flip: assms(3))
  then show ?thesis using mod_add_inj [OF assms(1,2), of h] by (auto simp: nth_list_update)
qed

text \<open>Writing at \<open>cb_tail\<close> when there is room, the common part of the two pushes.\<close>

definition cb_append :: "'a \<Rightarrow> 'a circular_buffer \<Rightarrow> 'a circular_buffer" where
  "cb_append v b =
     b\<lparr>cb_buffer := (cb_buffer b)[unat (cb_tail b) := Some v],
       cb_tail := get_next_idx b (cb_tail b), cb_size := cb_size b + 1\<rparr>"

lemma cb_append_ok:
  assumes I: "cb_inv b" and room: "unat (cb_size b) < length (cb_buffer b)"
  shows "cb_inv (cb_append v b) \<and> cb_list (cb_append v b) = cb_list b @ [v] \<and>
    length (cb_buffer (cb_append v b)) = length (cb_buffer b)"
proof -
  note D = cb_invD [OF I]
  let ?n = "length (cb_buffer b)" and ?h = "unat (cb_head b)" and ?k = "unat (cb_size b)"
  have size: "unat (cb_size b + 1) = Suc ?k" by (rule unat_Suc_size_t [OF room D(2)])
  have tail: "unat (get_next_idx b (cb_tail b)) = (?h + Suc ?k) mod ?n"
    using unat_next_idx [OF D(6,2)] D(5) by (simp add: mod_Suc_eq)
  have slot: "(cb_buffer b)[unat (cb_tail b) := Some v] ! ((?h + i) mod ?n) =
      (if i = ?k then Some v else cb_buffer b ! ((?h + i) mod ?n))" if "i < ?n" for i
    using cb_slot_update [OF that room refl] D(5) by simp
  have "cb_inv (cb_append v b)"
    using D slot room size tail by (auto simp: cb_inv_def cb_append_def Let_def less_Suc_eq)
  moreover have "cb_list (cb_append v b) = cb_list b @ [v]"
    using slot room size by (auto simp: cb_list_def cb_append_def)
  ultimately show ?thesis by (simp add: cb_append_def)
qed

lemma cb_push_append: "cb_push v b = (if cb_full b then (False, b) else (True, cb_append v b))"
  by (simp add: cb_push_def cb_append_def)

lemma cb_push_ok:
  assumes "cb_inv b"
  shows "cb_push v b =
      (if length (cb_list b) = length (cb_buffer b) then (False, b) else (True, cb_append v b))"
  using cb_full_iff [OF assms] by (simp add: cb_push_append)

lemma cb_push_inv [inv_intros]: "cb_inv b \<Longrightarrow> cb_inv (snd (cb_push v b))"
  using cb_append_ok [of b v] cb_invD(4) [of b] by (auto simp: cb_push_ok)

text \<open>Overwriting in a full buffer: the oldest element goes, the new one is last.\<close>

lemma cb_overwrite_full:
  assumes I: "cb_inv b" and full: "unat (cb_size b) = length (cb_buffer b)"
  shows "cb_inv (cb_push_overwrite v b) \<and>
    cb_list (cb_push_overwrite v b) = tl (cb_list b) @ [v] \<and>
    length (cb_buffer (cb_push_overwrite v b)) = length (cb_buffer b)"
proof -
  note D = cb_invD [OF I]
  let ?n = "length (cb_buffer b)" and ?h = "unat (cb_head b)"
  let ?b = "cb_push_overwrite v b"
  have tail: "cb_tail b = cb_head b" using D(3,5) full by (simp add: word_unat_eq_iff)
  have nxt: "unat (get_next_idx b i) = (unat i + 1) mod ?n" if "unat i < ?n" for i
    using that D(2) by (rule unat_next_idx)
  have nidx: "get_next_idx (b\<lparr>cb_buffer := (cb_buffer b)[j := x]\<rparr>) i = get_next_idx b i"
    "get_next_idx (b\<lparr>cb_buffer := (cb_buffer b)[j := x], cb_head := hd\<rparr>) i = get_next_idx b i"
    for j x i hd by (simp_all add: get_next_idx_def)
  have full': "cb_full (b\<lparr>cb_buffer := (cb_buffer b)[j := x]\<rparr>)" for j x
    using full cb_full_iff [OF I] by (simp add: cb_full_def)
  have b: "?b = b\<lparr>cb_buffer := (cb_buffer b)[?h := Some v],
      cb_head := get_next_idx b (cb_head b), cb_tail := get_next_idx b (cb_tail b)\<rparr>"
    using tail full' by (simp add: cb_push_overwrite_def nidx)
  have hd: "unat (cb_head ?b) = (?h + 1) mod ?n" using nxt [OF D(3)] by (simp add: b)
  have slot: "cb_buffer ?b ! (((?h + 1) mod ?n + i) mod ?n) =
      (if i = ?n - 1 then Some v else cb_buffer b ! ((?h + (i + 1)) mod ?n))" if "i < ?n" for i
  proof (cases "i = ?n - 1")
    case True
    with D(1) have e: "?h + 1 + i = ?h + ?n" by simp
    have "((?h + 1) mod ?n + i) mod ?n = (?h + 1 + i) mod ?n" by (rule mod_add_left_eq)
    also have "\<dots> = ?h" using D(3) unfolding e by simp
    finally have "((?h + 1) mod ?n + i) mod ?n = ?h" .
    with True D(3) show ?thesis by (simp add: b)
  next
    case False
    with that have "i + 1 < ?n" by simp
    then have "(cb_buffer b)[(?h + 0) mod ?n := Some v] ! ((?h + (i + 1)) mod ?n) =
        cb_buffer b ! ((?h + (i + 1)) mod ?n)"
      using cb_slot_update [of "i + 1" ?n 0 "cb_buffer b" ?h "Some v"] D(1) by simp
    moreover have "((?h + 1) mod ?n + i) mod ?n = (?h + (i + 1)) mod ?n"
      by (simp add: mod_add_left_eq add.assoc)
    ultimately show ?thesis using False D(3) by (simp add: b)
  qed
  have mem: "cb_buffer b ! ((?h + (i + 1)) mod ?n) = Some (cb_list b ! (i + 1))" if "i + 1 < ?n" for i
    using cb_inv_memb [OF I, of "i + 1"] that full by simp
  have "cb_inv ?b"
    unfolding cb_inv_def Let_def
    using D(1-4) full tail hd nxt [OF D(3)] slot mem
    by (auto simp: b)
  moreover have "cb_list ?b = tl (cb_list b) @ [v]"
  proof (rule nth_equalityI)
    show "length (cb_list ?b) = length (tl (cb_list b) @ [v])" using D(1) full by (simp add: b)
  next
    fix i assume i: "i < length (cb_list ?b)"
    then have "i < ?n" using full by (simp add: b)
    moreover have "cb_list ?b ! i = the (cb_buffer ?b ! (((?h + 1) mod ?n + i) mod ?n))"
      using i hd by (simp add: cb_list_def b)
    ultimately show "cb_list ?b ! i = (tl (cb_list b) @ [v]) ! i"
      using slot [of i] mem [of i] full by (auto simp: nth_append nth_tl)
  qed
  ultimately show ?thesis by (simp add: b)
qed

lemma cb_pop_ok:
  assumes I: "cb_inv b" and ne: "cb_list b \<noteq> []"
  shows "fst (cb_pop b) = Some (hd (cb_list b)) \<and> cb_inv (snd (cb_pop b)) \<and>
    cb_list (snd (cb_pop b)) = tl (cb_list b) \<and>
    length (cb_buffer (snd (cb_pop b))) = length (cb_buffer b)"
proof -
  note D = cb_invD [OF I]
  let ?n = "length (cb_buffer b)" and ?h = "unat (cb_head b)" and ?k = "unat (cb_size b)"
  let ?b = "snd (cb_pop b)"
  have e: "\<not> cb_empty b" using ne by (simp add: cb_empty_list)
  then have kw: "cb_size b \<noteq> 0" by (simp add: cb_empty_def)
  then have k: "0 < ?k" by (simp add: unat_gt_0)
  have b: "?b = b\<lparr>cb_buffer := (cb_buffer b)[?h := None], cb_head := get_next_idx b (cb_head b),
      cb_size := cb_size b - 1\<rparr>"
    using e by (simp add: cb_pop_def)
  have hd: "unat (cb_head ?b) = (?h + 1) mod ?n" using unat_next_idx [OF D(3,2)] by (simp add: b)
  have size: "unat (cb_size ?b) = ?k - 1" using kw by (simp add: b unat_pred_size_t)
  have shift: "((?h + 1) mod ?n + i) mod ?n = (?h + (i + 1)) mod ?n" for i
    by (simp add: mod_add_left_eq add.assoc)
  have slot: "cb_buffer ?b ! (((?h + 1) mod ?n + i) mod ?n) =
      (if i + 1 = ?n then None else cb_buffer b ! ((?h + (i + 1)) mod ?n))" if "i < ?n" for i
  proof (cases "i + 1 = ?n")
    case True
    have "(?h + (i + 1)) mod ?n = ?h" using D(3) unfolding True by simp
    with True D(3) show ?thesis unfolding shift by (simp add: b)
  next
    case False
    with that have "i + 1 < ?n" by simp
    then have "(cb_buffer b)[(?h + 0) mod ?n := None] ! ((?h + (i + 1)) mod ?n) =
        cb_buffer b ! ((?h + (i + 1)) mod ?n)"
      using cb_slot_update [of "i + 1" ?n 0 "cb_buffer b" ?h None] D(1) by simp
    with False D(3) show ?thesis unfolding shift by (simp add: b)
  qed
  have first: "cb_buffer b ! ?h = Some (cb_list b ! 0)" using cb_inv_memb [OF I k] D(3) by simp
  have tail: "unat (cb_tail b) = ((?h + 1) mod ?n + (?k - 1)) mod ?n"
    unfolding shift using D(5) k by simp
  have live: "cb_buffer b ! ((?h + (i + 1)) mod ?n) \<noteq> None \<longleftrightarrow> i + 1 < ?k" if "i + 1 < ?n" for i
    using D(7) [OF that] .
  have live': "cb_buffer ?b ! (((?h + 1) mod ?n + i) mod ?n) \<noteq> None \<longleftrightarrow> i < ?k - 1"
    if "i < ?n" for i
    using slot [OF that] live [of i] that D(4) by (cases "i + 1 = ?n") auto
  have "cb_inv ?b"
    unfolding cb_inv_def Let_def hd size
    using D(1-4) tail live' by (auto simp: b)
  moreover have "cb_list ?b = tl (cb_list b)"
  proof (rule nth_equalityI)
    show "length (cb_list ?b) = length (tl (cb_list b))" using size by simp
  next
    fix i assume "i < length (cb_list ?b)"
    then have i: "i < ?k - 1" using size by simp
    with D(4) have "i + 1 < ?n" by linarith
    then have "cb_list ?b ! i = the (cb_buffer b ! ((?h + (i + 1)) mod ?n))"
      using i size hd slot [of i] by (simp add: cb_list_def b)
    also have "\<dots> = cb_list b ! (i + 1)" using cb_inv_memb [OF I, of "i + 1"] i by simp
    finally show "cb_list ?b ! i = tl (cb_list b) ! i" using i by (simp add: nth_tl)
  qed
  moreover have "fst (cb_pop b) = Some (hd (cb_list b))"
    using e first ne by (simp add: cb_pop_def hd_conv_nth)
  ultimately show ?thesis by (simp add: b)
qed

lemma cb_pop_empty: "cb_list b = [] \<Longrightarrow> cb_pop b = (None, b)"
  by (simp add: cb_pop_def cb_empty_list)

lemma cb_pop_inv [inv_intros]: "cb_inv b \<Longrightarrow> cb_inv (snd (cb_pop b))"
  using cb_pop_ok [of b] cb_pop_empty [of b] by (cases "cb_list b = []") auto

lemma cb_push_overwrite_room: "\<not> cb_full b \<Longrightarrow> cb_push_overwrite v b = cb_append v b"
  by (simp add: cb_push_overwrite_def cb_append_def cb_full_def get_next_idx_def Let_def)

lemma cb_push_overwrite_ok:
  assumes "cb_inv b"
  shows "cb_inv (cb_push_overwrite v b) \<and>
    cb_list (cb_push_overwrite v b) =
      (if length (cb_list b) = length (cb_buffer b) then tl (cb_list b) else cb_list b) @ [v] \<and>
    length (cb_buffer (cb_push_overwrite v b)) = length (cb_buffer b)"
proof (cases "cb_full b")
  case True
  then show ?thesis using cb_overwrite_full [OF assms, of v] cb_full_iff [OF assms] by simp
next
  case False
  then show ?thesis
    using cb_append_ok [OF assms, of v] cb_full_iff [OF assms] cb_invD(4) [OF assms]
    by (simp add: cb_push_overwrite_room)
qed

lemma cb_logical_ok:
  assumes I: "cb_inv b" and "i + m = unat (cb_size b)"
    and "unat idx = (unat (cb_head b) + i) mod length (cb_buffer b)"
  shows "cb_logical b idx m = Inr (drop i (cb_list b))"
  using assms(2,3)
proof (induction m arbitrary: i idx)
  case 0
  then show ?case by simp
next
  case (Suc m)
  note D = cb_invD [OF I]
  have i: "i < unat (cb_size b)" using Suc.prems(1) by simp
  have "unat idx < length (cb_buffer b)" using D(1) Suc.prems(2) by simp
  from unat_next_idx [OF this D(2)] Suc.prems(2)
  have "unat (get_next_idx b idx) = (unat (cb_head b) + (i + 1)) mod length (cb_buffer b)"
    by (simp add: mod_Suc_eq)
  with Suc.IH [of "i + 1"] Suc.prems(1)
  have "cb_logical b (get_next_idx b idx) m = Inr (drop (i + 1) (cb_list b))" by simp
  moreover have "cb_buffer b ! unat idx = Some (cb_list b ! i)"
    using cb_inv_memb [OF I i] Suc.prems(2) by simp
  ultimately show ?case using i by (simp add: deref_optional_def Cons_nth_drop_Suc)
qed

section \<open>The queue interface\<close>

text \<open>The invariant together with a capacity, which no operation changes.\<close>

definition cb_inv_cap :: "nat \<Rightarrow> 'a circular_buffer \<Rightarrow> bool" where
  "cb_inv_cap n b \<longleftrightarrow> cb_inv b \<and> length (cb_buffer b) = n"

lemma cb_inv_cap_length: "cb_inv_cap n b \<Longrightarrow> length (cb_list b) \<le> n"
  using cb_invD(4) [of b] by (auto simp: cb_inv_cap_def)

interpretation cbq: fifo_queue cb_list "cb_inv_cap n" cb_pop "\<lambda>b. \<not> cb_full b" cb_push
  for n
proof unfold_locales
  fix s :: "'a circular_buffer" and x xs
  assume "cb_inv_cap n s"
  then have I: "cb_inv s" and n: "length (cb_buffer s) = n" by (simp_all add: cb_inv_cap_def)
  show "cb_list s = [] \<Longrightarrow> cb_pop s = (None, s)" by (rule cb_pop_empty)
  show "cb_list s = x # xs \<Longrightarrow>
      fst (cb_pop s) = Some x \<and> cb_list (snd (cb_pop s)) = xs \<and> cb_inv_cap n (snd (cb_pop s))"
    using cb_pop_ok [OF I] n by (simp add: cb_inv_cap_def)
  show "\<not> cb_full s \<Longrightarrow> fst (cb_push x s) \<and> cb_list (snd (cb_push x s)) = cb_list s @ [x] \<and>
      cb_inv_cap n (snd (cb_push x s))"
    using cb_append_ok [OF I, of x] cb_full_iff [OF I] cb_invD(4) [OF I] n
    by (simp add: cb_push_append cb_inv_cap_def)
  show "\<not> \<not> cb_full s \<Longrightarrow> cb_push x s = (False, s)" by (simp add: cb_push_append)
qed

lemma CircularBuffer_inv_cap: "CircularBuffer c = Inr b \<Longrightarrow> cb_inv_cap (unat c) b"
  using CircularBuffer_ok [of c b] by (simp add: cb_inv_cap_def)

section \<open>The demo\<close>

text \<open>
  \<open>*buf.pop()\<close>, and \<open>main\<close>: what the program writes to standard output. The two loops that pop
  everything get fuel 4, one more than the capacity; \<open>None\<close> would mean that a loop did not end.
\<close>

definition cb_pop_deref :: "'a circular_buffer \<Rightarrow> ('a \<times> 'a circular_buffer) result" where
  "cb_pop_deref b = (case cb_pop b of (r, b') \<Rightarrow> bind_result (deref_optional r) (\<lambda>x. Inr (x, b')))"

fun cb_demo_pushes ::
  "(string \<times> int) list \<Rightarrow> int circular_buffer \<Rightarrow> (string \<times> int circular_buffer) result" where
  "cb_demo_pushes [] b = Inr ([], b)"
| "cb_demo_pushes ((msg, v) # rest) b =
     (let b' = cb_push_overwrite v b
      in bind_result (cb_print_state show_int b')
           (\<lambda>out. bind_result (cb_demo_pushes rest b')
             (\<lambda>(outs, b''). Inr (msg @ newline @ out @ outs, b''))))"

definition cb_main_fifo :: "string result option" where
  "cb_main_fifo =
     (case CircularBuffer 3 of
        Inl e \<Rightarrow> Some (Inl e)
      | Inr buf0 \<Rightarrow>
          (let buf3 = snd (cb_push 30 (snd (cb_push 20 (snd (cb_push 10 buf0)))));
               (ok, buf4) = cb_push 40 buf3
           in case (cb_front buf3, cb_pop_deref buf4) of
                (Inr f, Inr (p, buf5)) \<Rightarrow>
                  (case stack_drain cb_empty cb_pop_deref 4 (snd (cb_push 40 buf5)) of
                     None \<Rightarrow> None
                   | Some (Inl e) \<Rightarrow> Some (Inl e)
                   | Some (Inr (xs, _)) \<Rightarrow>
                       Some (Inr (show_int f @ newline
                         @ (if \<not> ok then ''Buffer is full'' @ newline else [])
                         @ show_int p @ newline @ concat (map (\<lambda>x. show_int x @ '' '') xs))))
              | (Inl e, _) \<Rightarrow> Some (Inl e)
              | (_, Inl e) \<Rightarrow> Some (Inl e)))"

definition cb_main_overwrite :: "string result option" where
  "cb_main_overwrite =
     (case bind_result (CircularBuffer 3) (\<lambda>b. bind_result (cb_print_state show_int b)
         (\<lambda>out. bind_result (cb_demo_pushes
            [(''Push 10'', 10), (''Push 20'', 20), (''Push 30'', 30),
             (''Push 40: overwrites 10'', 40), (''Push 50: overwrites 20'', 50)] b)
           (\<lambda>(outs, b'). Inr (''Initial state'' @ newline @ out @ outs, b')))) of
        Inl e \<Rightarrow> Some (Inl e)
      | Inr (out, b) \<Rightarrow>
          (case drain cb_pop 4 b of
             None \<Rightarrow> None
           | Some (xs, _) \<Rightarrow> Some (Inr (out @ ''Pop all values'' @ newline
               @ concat (map (\<lambda>x. ''Popped: '' @ show_int x @ newline) xs)))))"

text \<open>The output of \<open>main\<close>, as the comments of the file announce it.\<close>

lemma cb_main_fifo_output:
  "cb_main_fifo = Some (Inr (''10'' @ newline @ ''Buffer is full'' @ newline @ ''10'' @ newline
     @ ''20 30 40 ''))"
  by code_simp

definition cb_state_text :: "string \<Rightarrow> string \<Rightarrow> string \<Rightarrow> string \<Rightarrow> string \<Rightarrow> string" where
  "cb_state_text phys logical h t k =
     ''Physical array: [ '' @ phys @ '']'' @ newline @ ''Logical order: [ '' @ logical @ '']''
     @ newline @ ''head = '' @ h @ '', tail = '' @ t @ '', size = '' @ k @ newline @ newline"

lemma cb_demo_steps:
  "cb_push_overwrite 10 \<lparr>cb_buffer = [None, None, None], cb_head = 0, cb_tail = 0, cb_size = 0\<rparr>
     = \<lparr>cb_buffer = [Some (10 :: int), None, None], cb_head = 0, cb_tail = 1, cb_size = 1\<rparr>"
  "cb_push_overwrite 20 \<lparr>cb_buffer = [Some 10, None, None], cb_head = 0, cb_tail = 1, cb_size = 1\<rparr>
     = \<lparr>cb_buffer = [Some (10 :: int), Some 20, None], cb_head = 0, cb_tail = 2, cb_size = 2\<rparr>"
  "cb_push_overwrite 30 \<lparr>cb_buffer = [Some 10, Some 20, None], cb_head = 0, cb_tail = 2, cb_size = 2\<rparr>
     = \<lparr>cb_buffer = [Some (10 :: int), Some 20, Some 30], cb_head = 0, cb_tail = 0, cb_size = 3\<rparr>"
  "cb_push_overwrite 40 \<lparr>cb_buffer = [Some 10, Some 20, Some 30], cb_head = 0, cb_tail = 0, cb_size = 3\<rparr>
     = \<lparr>cb_buffer = [Some (40 :: int), Some 20, Some 30], cb_head = 1, cb_tail = 1, cb_size = 3\<rparr>"
  "cb_push_overwrite 50 \<lparr>cb_buffer = [Some 40, Some 20, Some 30], cb_head = 1, cb_tail = 1, cb_size = 3\<rparr>
     = \<lparr>cb_buffer = [Some 40, Some (50 :: int), Some 30], cb_head = 2, cb_tail = 2, cb_size = 3\<rparr>"
  by code_simp+

lemma cb_demo_prints:
  "\<not> isl (cb_print_state show_int \<lparr>cb_buffer = [None, None, None], cb_head = 0, cb_tail = 0, cb_size = 0\<rparr>)"
  "\<not> isl (cb_print_state show_int \<lparr>cb_buffer = [Some 10, None, None], cb_head = 0, cb_tail = 1, cb_size = 1\<rparr>)"
  "\<not> isl (cb_print_state show_int \<lparr>cb_buffer = [Some 10, Some 20, None], cb_head = 0, cb_tail = 2, cb_size = 2\<rparr>)"
  "\<not> isl (cb_print_state show_int \<lparr>cb_buffer = [Some 10, Some 20, Some 30], cb_head = 0, cb_tail = 0, cb_size = 3\<rparr>)"
  "\<not> isl (cb_print_state show_int \<lparr>cb_buffer = [Some 40, Some 20, Some 30], cb_head = 1, cb_tail = 1, cb_size = 3\<rparr>)"
  "\<not> isl (cb_print_state show_int \<lparr>cb_buffer = [Some 40, Some 50, Some 30], cb_head = 2, cb_tail = 2, cb_size = 3\<rparr>)"
  by code_simp+

text \<open>The final loop of \<open>main\<close>: 10 and 20 have been overwritten, the rest comes out in order.\<close>

lemma cb_main_overwrite_output:
  "\<exists>out. cb_main_overwrite = Some (Inr (out @ ''Pop all values'' @ newline
     @ ''Popped: 30'' @ newline @ ''Popped: 40'' @ newline @ ''Popped: 50'' @ newline))"
proof -
  have new: "CircularBuffer 3 =
      Inr \<lparr>cb_buffer = [None, None, None :: int option], cb_head = 0, cb_tail = 0, cb_size = 0\<rparr>"
    by code_simp
  have "drain cb_pop 4 \<lparr>cb_buffer = [Some 40, Some (50 :: int), Some 30], cb_head = 2, cb_tail = 2,
      cb_size = 3\<rparr> = Some ([30, 40, 50],
      \<lparr>cb_buffer = [None, None, None], cb_head = 2, cb_tail = 2, cb_size = 0\<rparr>)"
    by code_simp
  moreover have "show_int 30 = ''30''" "show_int 40 = ''40''" "show_int 50 = ''50''" by code_simp+
  moreover have "\<exists>out. r = Inr out" if "\<not> isl r" for r :: "string result"
    using that by (cases r) auto
  note this [OF cb_demo_prints(1)] this [OF cb_demo_prints(2)] this [OF cb_demo_prints(3)]
    this [OF cb_demo_prints(4)] this [OF cb_demo_prints(5)] this [OF cb_demo_prints(6)]
  ultimately show ?thesis
    by (auto simp: cb_main_overwrite_def new cb_demo_steps)
qed

section \<open>Properties\<close>

text \<open>
  C11: FIFO order and boundedness. However a client interleaves \<open>push\<close> and \<open>pop\<close> on a new buffer
  of capacity \<open>c\<close>, the values \<open>pop\<close> returned followed by the values still stored are exactly the
  values \<open>push\<close> accepted, in order, and at most \<open>c\<close> values are stored.
\<close>

theorem cb_run_fifo:
  assumes "CircularBuffer c = Inr b" and "queue_run cb_push cb_pop os b = (ins, outs, b')"
  shows "ins = outs @ cb_list b' \<and> length (cb_list b') \<le> unat c"
  using cbq.run_fifo [OF CircularBuffer_inv_cap [OF assms(1)] assms(2)]
    CircularBuffer_ok(2) [OF assms(1)] cb_inv_cap_length by auto

theorem cb_run_fifo_witness:
  "[1, 2 :: int] = [1] @ cb_list \<lparr>cb_buffer = [None, Some 2], cb_head = 1, cb_tail = 0, cb_size = 1\<rparr> \<and>
   length (cb_list \<lparr>cb_buffer = [None, Some (2 :: int)], cb_head = 1, cb_tail = 0, cb_size = 1\<rparr>)
     \<le> unat (2 :: size_t)"
  by (rule cb_run_fifo
    [where b = "\<lparr>cb_buffer = [None, None], cb_head = 0, cb_tail = 0, cb_size = 0\<rparr>"
      and os = "[Push 1, Push 2, Push 3, Pop]"]; code_simp)

text \<open>
  Overwriting keeps the newest values. After any number of \<open>push_overwrite\<close> calls the buffer
  holds, in logical order, the last \<open>capacity()\<close> of all the values it held and was given, and
  still satisfies the invariant of the class.
\<close>

theorem cb_overwrite_keeps_latest:
  assumes "cb_inv b"
  shows "cb_inv (fold cb_push_overwrite vs b) \<and>
    cb_list (fold cb_push_overwrite vs b) = latest (length (cb_buffer b)) (cb_list b @ vs)"
proof -
  have "cb_inv (fold cb_push_overwrite vs b) \<and>
    length (cb_buffer (fold cb_push_overwrite vs b)) = length (cb_buffer b) \<and>
    cb_list (fold cb_push_overwrite vs b) = latest (length (cb_buffer b)) (cb_list b @ vs)"
  proof (induction vs rule: rev_induct)
    case Nil
    then show ?case using assms cb_invD(4) [OF assms] by (simp add: latest_all)
  next
    case (snoc v vs)
    let ?b = "fold cb_push_overwrite vs b"
    let ?n = "length (cb_buffer b)"
    from snoc have I: "cb_inv ?b" and n: "length (cb_buffer ?b) = ?n"
      and l: "cb_list ?b = latest ?n (cb_list b @ vs)" by auto
    have "length (cb_list ?b) = ?n \<longleftrightarrow> ?n \<le> length (cb_list b @ vs)" unfolding l by auto
    with cb_push_overwrite_ok [OF I, of v] n l latest_snoc [of ?n "cb_list b @ vs" v]
      cb_invD(1) [OF assms]
    show ?case by simp
  qed
  then show ?thesis by simp
qed

theorem cb_overwrite_keeps_latest_witness:
  "cb_list (fold cb_push_overwrite [10, 20, 30, 40 :: int]
     \<lparr>cb_buffer = [None, None, None], cb_head = 0, cb_tail = 0, cb_size = 0\<rparr>) = [20, 30, 40]"
proof -
  let ?b = "\<lparr>cb_buffer = [None, None, None :: int option], cb_head = 0, cb_tail = 0, cb_size = 0\<rparr>"
  have "cb_inv ?b" by (rule CircularBuffer_ok(1) [of 3]) code_simp
  from cb_overwrite_keeps_latest [OF this, of "[10, 20, 30, 40]"] show ?thesis
    by (simp add: cb_list_def latest_def)
qed

text \<open>
  \<open>front\<close> and \<open>print_state\<close> never dereference an empty slot. Under the invariant \<open>front\<close>
  throws exactly when the buffer is empty and otherwise returns the oldest element, and the second
  loop of \<open>print_state\<close> visits the stored elements in logical order.
\<close>

theorem cb_reads_defined:
  assumes "cb_inv b"
  shows "cb_front b = (if cb_list b = [] then Inl (Out_Of_Range ''CB is empty.'')
           else Inr (hd (cb_list b))) \<and>
    cb_logical b (cb_head b) (unat (cb_size b)) = Inr (cb_list b)"
proof
  show "cb_front b = (if cb_list b = [] then Inl (Out_Of_Range ''CB is empty.'')
           else Inr (hd (cb_list b)))"
  proof (cases "cb_list b = []")
    case False
    then have "0 < unat (cb_size b)" by (simp flip: length_cb_list)
    from cb_inv_memb [OF assms this] False cb_invD(3) [OF assms] show ?thesis
      by (simp add: cb_front_def cb_empty_list deref_optional_def hd_conv_nth)
  qed (simp add: cb_front_def cb_empty_list)
  show "cb_logical b (cb_head b) (unat (cb_size b)) = Inr (cb_list b)"
    using cb_logical_ok [OF assms, of 0] cb_invD(3) [OF assms] by simp
qed

theorem cb_reads_defined_witness:
  "cb_front \<lparr>cb_buffer = [Some (7 :: int), None], cb_head = 0, cb_tail = 1, cb_size = 1\<rparr> = Inr 7"
proof -
  have "cb_inv \<lparr>cb_buffer = [Some (7 :: int), None], cb_head = 0, cb_tail = 1, cb_size = 1\<rparr>"
    by (auto simp: cb_inv_def less_Suc_eq eval_nat_numeral(3) [of Num.One] nth_Cons')
  from cb_reads_defined [OF this] show ?thesis by (simp add: cb_list_def)
qed

end
