(* ===== verification/Conflating_Queue.thy ===== *)
theory Conflating_Queue
  imports Cpp_Interfaces
begin

text \<open>
  \<open>impl/conflating_queue.cpp\<close>: a bounded FIFO queue with at most one pending entry per key. The
  \<open>std::list\<close> is a list of nodes, each with its identity, so that an iterator is the identity of a
  node and stays valid when other nodes come and go; \<open>pending_\<close> maps a key to such an iterator. The
  invariant says that the two containers describe the same entries, and programs of the operations refine
  programs of the association-list operations of the class comment.
\<close>

section \<open>The class\<close>

record ('k, 'v) conflating_queue =
  cq_capacity :: size_t
  cq_queue :: "(nat \<times> 'k \<times> 'v) list"
  cq_pending :: "'k \<rightharpoonup> nat"
  cq_fresh :: nat \<comment> \<open>identity of the next node \<open>std::list\<close> allocates\<close>

definition ConflatingQueue :: "size_t \<Rightarrow> ('k, 'v) conflating_queue result" where
  "ConflatingQueue capacity =
     (if capacity = 0 then Inl (Invalid_Argument ''capacity cant be zero.'')
      else Inr \<lparr>cq_capacity = capacity, cq_queue = [], cq_pending = Map.empty, cq_fresh = 0\<rparr>)"

definition cq_empty :: "('k, 'v) conflating_queue \<Rightarrow> bool" where
  "cq_empty q \<longleftrightarrow> cq_queue q = []"

definition cq_size :: "('k, 'v) conflating_queue \<Rightarrow> size_t" where
  "cq_size q = of_nat (length (cq_queue q))"

definition cq_full :: "('k, 'v) conflating_queue \<Rightarrow> bool" where
  "cq_full q \<longleftrightarrow> cq_size q = cq_capacity q"

text \<open>\<open>it->second = v\<close> for an iterator into the list: no meaning if the node is gone.\<close>

definition list_assign_value ::
  "nat \<Rightarrow> 'v \<Rightarrow> (nat \<times> 'k \<times> 'v) list \<Rightarrow> (nat \<times> 'k \<times> 'v) list result" where
  "list_assign_value it v nodes =
     (if it \<in> fst ` set nodes
      then Inr (map (\<lambda>(i, k, w). if i = it then (i, k, v) else (i, k, w)) nodes)
      else Inl Undefined_Behaviour)"

text \<open>Evicting the oldest entry: \<open>pending_.erase(oldest->first); queue_.erase(oldest);\<close>.\<close>

definition cq_evict :: "('k, 'v) conflating_queue \<Rightarrow> ('k, 'v) conflating_queue result" where
  "cq_evict q =
     (case cq_queue q of
        [] \<Rightarrow> Inl Undefined_Behaviour
      | (i, k, v) # rest \<Rightarrow>
          Inr (q\<lparr>cq_pending := (cq_pending q)(k := None), cq_queue := rest\<rparr>))"

text \<open>\<open>queue_.emplace_back\<close>, then \<open>pending_.emplace\<close>, which keeps an entry that is already there.\<close>

definition cq_append :: "'k \<Rightarrow> 'v \<Rightarrow> ('k, 'v) conflating_queue \<Rightarrow> ('k, 'v) conflating_queue" where
  "cq_append k v q =
     q\<lparr>cq_queue := cq_queue q @ [(cq_fresh q, k, v)],
       cq_fresh := Suc (cq_fresh q),
       cq_pending := (case cq_pending q k of None \<Rightarrow> (cq_pending q)(k \<mapsto> cq_fresh q)
                      | Some _ \<Rightarrow> cq_pending q)\<rparr>"

definition cq_push_overwrite ::
  "'k \<Rightarrow> 'v \<Rightarrow> ('k, 'v) conflating_queue \<Rightarrow> ('k, 'v) conflating_queue result" where
  "cq_push_overwrite k v q =
     (case cq_pending q k of
        Some it \<Rightarrow>
          bind_result (list_assign_value it v (cq_queue q)) (\<lambda>nodes. Inr (q\<lparr>cq_queue := nodes\<rparr>))
      | None \<Rightarrow>
          bind_result (if cq_full q then cq_evict q else Inr q) (\<lambda>q'. Inr (cq_append k v q')))"

definition cq_pop ::
  "('k, 'v) conflating_queue \<Rightarrow> ('k \<times> 'v) option \<times> ('k, 'v) conflating_queue" where
  "cq_pop q =
     (case cq_queue q of
        [] \<Rightarrow> (None, q)
      | (i, k, v) # rest \<Rightarrow>
          (Some (k, v), q\<lparr>cq_pending := (cq_pending q)(k := None), cq_queue := rest\<rparr>))"

definition cq_print_state ::
  "('k \<Rightarrow> string) \<Rightarrow> ('v \<Rightarrow> string) \<Rightarrow> ('k, 'v) conflating_queue \<Rightarrow> string" where
  "cq_print_state showk showv q =
     ''Queue: [ ''
     @ concat (map (\<lambda>(i, k, v). ''('' @ showk k @ '', '' @ showv v @ '') '') (cq_queue q))
     @ '']'' @ newline
     @ ''size = '' @ show_nat (unat (cq_size q))
     @ '', capacity = '' @ show_nat (unat (cq_capacity q)) @ newline @ newline"

section \<open>Invariant and abstraction\<close>

definition cq_inv :: "('k, 'v) conflating_queue \<Rightarrow> bool" where
  "cq_inv q \<longleftrightarrow>
     cq_capacity q \<noteq> 0 \<and> length (cq_queue q) \<le> unat (cq_capacity q) \<and>
     distinct (map (fst \<circ> snd) (cq_queue q)) \<and> distinct (map fst (cq_queue q)) \<and>
     (\<forall>i \<in> fst ` set (cq_queue q). i < cq_fresh q) \<and>
     (\<forall>k it. cq_pending q k = Some it \<longleftrightarrow> (\<exists>v. (it, k, v) \<in> set (cq_queue q)))"

definition cq_entries :: "('k, 'v) conflating_queue \<Rightarrow> ('k \<times> 'v) list" where
  "cq_entries q = map snd (cq_queue q)"

text \<open>The specification: an association list in insertion order.\<close>

definition conflate :: "nat \<Rightarrow> 'k \<Rightarrow> 'v \<Rightarrow> ('k \<times> 'v) list \<Rightarrow> ('k \<times> 'v) list" where
  "conflate cap k v es =
     (if k \<in> fst ` set es then map (\<lambda>(j, w). if j = k then (j, v) else (j, w)) es
      else (if length es = cap then tl es else es) @ [(k, v)])"

lemma cq_invD:
  assumes "cq_inv q"
  shows "0 < unat (cq_capacity q)" "length (cq_queue q) \<le> unat (cq_capacity q)"
    "distinct (map (fst \<circ> snd) (cq_queue q))" "distinct (map fst (cq_queue q))"
    "\<And>i k v. (i, k, v) \<in> set (cq_queue q) \<Longrightarrow> i < cq_fresh q"
    "\<And>k it. cq_pending q k = Some it \<longleftrightarrow> (\<exists>v. (it, k, v) \<in> set (cq_queue q))"
proof -
  show "0 < unat (cq_capacity q)" "length (cq_queue q) \<le> unat (cq_capacity q)"
    "distinct (map (fst \<circ> snd) (cq_queue q))" "distinct (map fst (cq_queue q))"
    using assms by (simp_all add: cq_inv_def unat_gt_0)
  show "\<And>i k v. (i, k, v) \<in> set (cq_queue q) \<Longrightarrow> i < cq_fresh q"
    using assms unfolding cq_inv_def by (metis fst_conv imageI)
  show "\<And>k it. cq_pending q k = Some it \<longleftrightarrow> (\<exists>v. (it, k, v) \<in> set (cq_queue q))"
    using assms unfolding cq_inv_def by blast
qed

lemma cq_entries_keys: "fst ` set (cq_entries q) = (fst \<circ> snd) ` set (cq_queue q)"
  by (simp add: cq_entries_def image_comp)

lemma cq_pending_dom:
  assumes "cq_inv q"
  shows "k \<in> fst ` set (cq_entries q) \<longleftrightarrow> cq_pending q k \<noteq> None"
  using cq_invD(6) [OF assms, of k] by (force simp: cq_entries_keys)

lemma cq_full_iff:
  assumes "cq_inv q"
  shows "cq_full q \<longleftrightarrow> length (cq_entries q) = unat (cq_capacity q)"
proof -
  have "length (cq_queue q) < 2 ^ 64"
    using cq_invD(2) [OF assms] unat_size_t_less [of "cq_capacity q"] by linarith
  then have "cq_capacity q = of_nat (length (cq_queue q)) \<longleftrightarrow>
      unat (cq_capacity q) = length (cq_queue q)"
    by (rule eq_of_nat_size_t)
  then show ?thesis unfolding cq_full_def cq_size_def cq_entries_def length_map by metis
qed

text \<open>Removing the first node, the common part of eviction and \<open>pop\<close>.\<close>

lemma cq_drop_first:
  assumes I: "cq_inv q" and q: "cq_queue q = (i, k, v) # rest"
  shows "cq_inv (q\<lparr>cq_pending := (cq_pending q)(k := None), cq_queue := rest\<rparr>)"
proof -
  note D = cq_invD [OF I, unfolded q]
  let ?q = "q\<lparr>cq_pending := (cq_pending q)(k := None), cq_queue := rest\<rparr>"
  have k: "(it, k, w) \<notin> set rest" for it w using D(3) by force
  have "cq_pending ?q j = Some it \<longleftrightarrow> (\<exists>w. (it, j, w) \<in> set (cq_queue ?q))" for j it
    using D(6) [of j it] k [of it] by (cases "j = k") auto
  moreover have "j < cq_fresh ?q" if "j \<in> fst ` set (cq_queue ?q)" for j
    using that D(5) by force
  ultimately show ?thesis using D(1-4) by (auto simp: cq_inv_def)
qed

lemma cq_append_inv:
  assumes I: "cq_inv q" and k: "k \<notin> fst ` set (cq_entries q)"
    and room: "length (cq_queue q) < unat (cq_capacity q)"
  shows "cq_inv (cq_append k v q)"
proof -
  from k cq_pending_dom [OF I] have n: "cq_pending q k = None" by blast
  from k have k': "(i, k, w) \<notin> set (cq_queue q)" for i w
    by (force simp: cq_entries_keys)
  note D = cq_invD [OF I]
  show ?thesis
    using I room n k' D(5,6) by (force simp: cq_inv_def cq_append_def)
qed

lemma cq_node_unique:
  assumes "cq_inv q" and "(i, j, u) \<in> set (cq_queue q)" and "(it, k, w) \<in> set (cq_queue q)"
  shows "i = it \<longleftrightarrow> j = k"
proof -
  from cq_invD(3,4) [OF assms(1)]
  have "inj_on fst (set (cq_queue q))" "inj_on (fst \<circ> snd) (set (cq_queue q))"
    by (simp_all add: distinct_map)
  from inj_onD [OF this(1) _ assms(2,3)] inj_onD [OF this(2) _ assms(2,3)]
  show ?thesis by auto
qed

lemma cq_assign_inv:
  fixes q :: "('k, 'v) conflating_queue" and v :: 'v
  assumes I: "cq_inv q" and it: "(it, k, w) \<in> set (cq_queue q)"
  defines "nodes \<equiv> map (\<lambda>(i, j, u). if i = it then (i, j, v) else (i, j, u)) (cq_queue q)"
  shows "cq_inv (q\<lparr>cq_queue := nodes\<rparr>) \<and>
    map snd nodes = map (\<lambda>(j, u). if j = k then (j, v) else (j, u)) (map snd (cq_queue q))"
proof
  have ids: "map fst nodes = map fst (cq_queue q)" "length nodes = length (cq_queue q)"
    "map (fst \<circ> snd) nodes = map (fst \<circ> snd) (cq_queue q)"
    by (auto simp: nodes_def)
  have mem: "(\<exists>u. (i, j, u) \<in> set nodes) \<longleftrightarrow> (\<exists>u. (i, j, u) \<in> set (cq_queue q))" for i j
  proof -
    have "(\<exists>u. (i, j, u) \<in> set xs) \<longleftrightarrow> (i, j) \<in> (\<lambda>(a, b, c). (a, b)) ` set xs"
      for xs :: "(nat \<times> 'k \<times> 'v) list" by force
    moreover have "(\<lambda>(a, b, c). (a, b)) ` set nodes = (\<lambda>(a, b, c). (a, b)) ` set (cq_queue q)"
      unfolding nodes_def set_map image_image by (rule image_cong) auto
    ultimately show ?thesis by simp
  qed
  have fsts: "fst ` set nodes = fst ` set (cq_queue q)"
    using ids(1) by (metis list.set_map)
  show "cq_inv (q\<lparr>cq_queue := nodes\<rparr>)"
    using I by (simp add: cq_inv_def ids mem fsts)
  show "map snd nodes = map (\<lambda>(j, u). if j = k then (j, v) else (j, u)) (map snd (cq_queue q))"
    using cq_node_unique [OF I _ it] by (auto simp: nodes_def)
qed

lemma cq_push_overwrite_ok:
  assumes I: "cq_inv q"
  shows "\<exists>q'. cq_push_overwrite k v q = Inr q' \<and> cq_inv q' \<and>
    cq_capacity q' = cq_capacity q \<and>
    cq_entries q' = conflate (unat (cq_capacity q)) k v (cq_entries q)"
proof (cases "cq_pending q k")
  case (Some it)
  note D = cq_invD [OF I]
  from Some D(6) obtain w where w: "(it, k, w) \<in> set (cq_queue q)" by blast
  then have "it \<in> fst ` set (cq_queue q)" by force
  moreover have "k \<in> fst ` set (cq_entries q)" using Some cq_pending_dom [OF I] by auto
  ultimately show ?thesis
    using cq_assign_inv [OF I w, of v] Some
    by (simp add: cq_push_overwrite_def list_assign_value_def cq_entries_def conflate_def)
next
  case None
  note D = cq_invD [OF I]
  have k: "k \<notin> fst ` set (cq_entries q)" using None cq_pending_dom [OF I] by auto
  show ?thesis
  proof (cases "cq_full q")
    case False
    with cq_full_iff [OF I] D(2) have "length (cq_queue q) < unat (cq_capacity q)"
      by (simp add: cq_entries_def)
    from cq_append_inv [OF I k this] None False k cq_full_iff [OF I] show ?thesis
      by (simp add: cq_push_overwrite_def conflate_def cq_append_def cq_entries_def)
  next
    case True
    with cq_full_iff [OF I] D(1) obtain i j u rest where q: "cq_queue q = (i, j, u) # rest"
      by (cases "cq_queue q") (auto simp: cq_entries_def)
    let ?q = "q\<lparr>cq_pending := (cq_pending q)(j := None), cq_queue := rest\<rparr>"
    have I': "cq_inv ?q" by (rule cq_drop_first [OF I q])
    have k': "k \<notin> fst ` set (cq_entries ?q)" using k q by (auto simp: cq_entries_def)
    have room: "length (cq_queue ?q) < unat (cq_capacity ?q)" using D(2) q by simp
    from cq_append_inv [OF I' k' room] None True k cq_full_iff [OF I] q show ?thesis
      by (simp add: cq_push_overwrite_def cq_evict_def conflate_def cq_append_def cq_entries_def)
  qed
qed

lemma cq_pop_ok:
  assumes "cq_inv q" and "cq_entries q = e # es"
  shows "fst (cq_pop q) = Some e \<and> cq_entries (snd (cq_pop q)) = es \<and> cq_inv (snd (cq_pop q))"
proof -
  from assms(2) obtain i k v rest where q: "cq_queue q = (i, k, v) # rest" and "e = (k, v)"
    "es = map snd rest"
    by (cases "cq_queue q") (auto simp: cq_entries_def)
  with cq_drop_first [OF assms(1) q] show ?thesis by (simp add: cq_pop_def cq_entries_def)
qed

interpretation cqq: fifo_pop cq_entries cq_inv cq_pop
  by unfold_locales (simp_all add: cq_pop_ok, simp add: cq_pop_def cq_entries_def)

section \<open>Sequences of updates\<close>

text \<open>A client that pushes a list of updates; the first error would stop it.\<close>

fun cq_push_all ::
  "('k \<times> 'v) list \<Rightarrow> ('k, 'v) conflating_queue \<Rightarrow> ('k, 'v) conflating_queue result" where
  "cq_push_all [] q = Inr q"
| "cq_push_all ((k, v) # kvs) q = bind_result (cq_push_overwrite k v q) (cq_push_all kvs)"

lemma cq_push_all_ok:
  "cq_inv q \<Longrightarrow> \<exists>q'. cq_push_all kvs q = Inr q' \<and> cq_inv q' \<and> cq_capacity q' = cq_capacity q \<and>
    cq_entries q' = fold (\<lambda>(k, v). conflate (unat (cq_capacity q)) k v) kvs (cq_entries q)"
proof (induction kvs arbitrary: q)
  case Nil
  then show ?case by simp
next
  case (Cons kv kvs)
  obtain k v where kv: "kv = (k, v)" by (cases kv)
  from cq_push_overwrite_ok [OF Cons.prems, of k v] obtain q1 where
    "cq_push_overwrite k v q = Inr q1" "cq_inv q1" "cq_capacity q1 = cq_capacity q"
    "cq_entries q1 = conflate (unat (cq_capacity q)) k v (cq_entries q)" by blast
  with Cons.IH [of q1] show ?case by (simp add: kv)
qed

lemma map_of_replace:
  "map_of (map (\<lambda>(j, w). if j = k then (j, v) else (j, w)) es) =
    (if k \<in> fst ` set es then (map_of es)(k \<mapsto> v) else map_of es)"
  by (induction es) (auto simp: fun_eq_iff)

lemma map_of_conflate:
  assumes "length es \<noteq> cap \<or> k \<in> fst ` set es"
  shows "map_of (conflate cap k v es) = (map_of es)(k \<mapsto> v)"
proof (cases "k \<in> fst ` set es")
  case True
  then show ?thesis by (simp add: conflate_def map_of_replace)
next
  case False
  then have "map_of es k = None" by (simp add: map_of_eq_None_iff)
  with False assms show ?thesis by (auto simp: conflate_def fun_eq_iff map_add_def split: option.splits)
qed

section \<open>Programs\<close>

datatype ('k, 'v) cq_op = CQ_Push 'k 'v | CQ_Pop | CQ_Empty | CQ_Full | CQ_Size | CQ_Capacity

datatype ('k, 'v) cq_value = CQ_Done | CQ_Popped "('k \<times> 'v) option" | CQ_Truth bool | CQ_Number nat

fun cq_do :: "('k, 'v) cq_op \<Rightarrow> ('k, 'v) conflating_queue \<Rightarrow> (('k, 'v) cq_value \<times> ('k, 'v) conflating_queue) result" where
  "cq_do (CQ_Push k v) q = bind_result (cq_push_overwrite k v q) (\<lambda>q'. Inr (CQ_Done, q'))"
| "cq_do CQ_Pop q = (case cq_pop q of (r, q') \<Rightarrow> Inr (CQ_Popped r, q'))"
| "cq_do CQ_Empty q = Inr (CQ_Truth (cq_empty q), q)"
| "cq_do CQ_Full q = Inr (CQ_Truth (cq_full q), q)"
| "cq_do CQ_Size q = Inr (CQ_Number (unat (cq_size q)), q)"
| "cq_do CQ_Capacity q = Inr (CQ_Number (unat (cq_capacity q)), q)"

fun cq_run :: "('k, 'v) cq_op list \<Rightarrow> ('k, 'v) conflating_queue \<Rightarrow> (('k, 'v) cq_value list \<times> ('k, 'v) conflating_queue) result" where
  "cq_run [] q = Inr ([], q)"
| "cq_run (op # ops) q = bind_result (cq_do op q) (\<lambda>(r, q').
     bind_result (cq_run ops q') (\<lambda>(rs, q''). Inr (r # rs, q'')))"

text \<open>The same operations on the association list of a queue with room for \<open>cap\<close> keys.\<close>

fun conflate_do :: "nat \<Rightarrow> ('k, 'v) cq_op \<Rightarrow> ('k \<times> 'v) list \<Rightarrow> ('k, 'v) cq_value \<times> ('k \<times> 'v) list" where
  "conflate_do cap (CQ_Push k v) es = (CQ_Done, conflate cap k v es)"
| "conflate_do cap CQ_Pop es = (CQ_Popped (case es of [] \<Rightarrow> None | e # _ \<Rightarrow> Some e), tl es)"
| "conflate_do cap CQ_Empty es = (CQ_Truth (es = []), es)"
| "conflate_do cap CQ_Full es = (CQ_Truth (length es = cap), es)"
| "conflate_do cap CQ_Size es = (CQ_Number (length es), es)"
| "conflate_do cap CQ_Capacity es = (CQ_Number cap, es)"

fun conflate_run :: "nat \<Rightarrow> ('k, 'v) cq_op list \<Rightarrow> ('k \<times> 'v) list \<Rightarrow> ('k, 'v) cq_value list \<times> ('k \<times> 'v) list" where
  "conflate_run cap [] es = ([], es)"
| "conflate_run cap (op # ops) es = (case conflate_do cap op es of (r, es') \<Rightarrow>
     case conflate_run cap ops es' of (rs, es'') \<Rightarrow> (r # rs, es''))"

lemma cq_size_entries: "cq_inv q \<Longrightarrow> unat (cq_size q) = length (cq_entries q)"
proof -
  assume I: "cq_inv q"
  have "length (cq_queue q) < 2 ^ 64" using cq_invD(2) [OF I] unat_size_t_less [of "cq_capacity q"] by linarith
  then show ?thesis by (simp add: cq_size_def cq_entries_def unat_of_nat take_bit_nat_eq_self)
qed

lemma cq_pop_capacity: "cq_capacity (snd (cq_pop q)) = cq_capacity q"
  by (auto simp: cq_pop_def split: list.splits)

lemma cq_do_refines:
  assumes I: "cq_inv q"
  shows "\<exists>r q'. cq_do op q = Inr (r, q') \<and> cq_inv q' \<and> cq_capacity q' = cq_capacity q \<and>
    conflate_do (unat (cq_capacity q)) op (cq_entries q) = (r, cq_entries q')"
proof (cases op)
  case (CQ_Push k v)
  then show ?thesis using cq_push_overwrite_ok [OF I, of k v] by auto
next
  case CQ_Pop
  show ?thesis
  proof (cases "cq_entries q")
    case Nil
    then show ?thesis using CQ_Pop I cqq.pop_nil [OF I Nil] by simp
  next
    case (Cons e es)
    then show ?thesis using CQ_Pop cq_pop_ok [OF I Cons] cq_pop_capacity [of q] by (auto split: prod.splits)
  qed
next
  case CQ_Empty
  then show ?thesis using I by (simp add: cq_empty_def cq_entries_def)
next
  case CQ_Full
  then show ?thesis using I cq_full_iff [OF I] by simp
next
  case CQ_Size
  then show ?thesis using I cq_size_entries [OF I] by simp
qed (use I in simp)

lemma cq_run_refines:
  "cq_inv q \<Longrightarrow> \<exists>rs q'. cq_run ops q = Inr (rs, q') \<and> cq_inv q' \<and> cq_capacity q' = cq_capacity q \<and>
    conflate_run (unat (cq_capacity q)) ops (cq_entries q) = (rs, cq_entries q')"
proof (induction ops arbitrary: q)
  case (Cons op ops)
  obtain r q1 where q1: "cq_do op q = Inr (r, q1)" "cq_inv q1" "cq_capacity q1 = cq_capacity q"
    "conflate_do (unat (cq_capacity q)) op (cq_entries q) = (r, cq_entries q1)"
    using cq_do_refines [OF Cons.prems] by blast
  from Cons.IH [OF q1(2)] show ?case using q1 by auto
qed simp

text \<open>The demo of \<open>main\<close>: six updates, then everything is popped.\<close>

definition cq_main :: "((string \<times> int) list) result option" where
  "cq_main =
     (case bind_result (ConflatingQueue 3)
        (cq_push_all [(''A'', 10), (''B'', 20), (''C'', 30), (''B'', 200), (''D'', 40), (''C'', 300)]) of
        Inl e \<Rightarrow> Some (Inl e)
      | Inr q \<Rightarrow>
          (case drain cq_pop 4 q of None \<Rightarrow> None | Some (es, _) \<Rightarrow> Some (Inr es)))"

lemma cq_main_output: "cq_main = Some (Inr [(''B'', 200), (''C'', 300), (''D'', 40)])"
  by code_simp


lemma ConflatingQueue_ok:
  "ConflatingQueue c = Inr q \<Longrightarrow> cq_inv q \<and> cq_entries q = [] \<and> cq_capacity q = c"
  by (auto simp: ConflatingQueue_def cq_inv_def cq_entries_def split: if_splits)

lemma cq_inv_entries:
  "cq_inv q \<Longrightarrow> distinct (map fst (cq_entries q)) \<and> length (cq_entries q) \<le> unat (cq_capacity q)"
  by (simp add: cq_inv_def cq_entries_def)

lemma map_of_conflate_full:
  assumes "distinct (map fst es)" and "length es = cap" and "k \<notin> fst ` set es" and "es = (j, w) # rest"
  shows "map_of (conflate cap k v es) = (map_of es)(j := None, k \<mapsto> v)"
proof -
  from assms have "map_of rest j = None" "map_of rest k = None"
    by (auto simp: map_of_eq_None_iff)
  with assms show ?thesis
    by (auto simp: conflate_def fun_eq_iff map_add_def split: option.splits)
qed

section \<open>Properties\<close>

text \<open>
  C14: The queue refines conflation on an association list. Any sequence of \<open>push_overwrite\<close>, \<open>pop\<close> and the observers
  on a new queue succeeds without touching a dead iterator, also where a key that was popped is pushed again; the results and
  the entries are those of the
  association-list specification (a known key keeps its place and gets the new value, a new key
  goes to the back, the oldest entry leaves a full queue, the oldest is popped), keys stay unique, and the capacity is
  respected.
\<close>

theorem cq_programs_refine:
  assumes "ConflatingQueue c = Inr q"
  shows "\<exists>rs q'. cq_run ops q = Inr (rs, q') \<and> conflate_run (unat c) ops [] = (rs, cq_entries q') \<and>
    distinct (map fst (cq_entries q')) \<and> length (cq_entries q') \<le> unat c"
proof -
  have q: "cq_inv q" "cq_entries q = []" "cq_capacity q = c" using ConflatingQueue_ok [OF assms] by auto
  from cq_run_refines [OF q(1), of ops] obtain rs q' where
    run: "cq_run ops q = Inr (rs, q')" "cq_inv q'" "cq_capacity q' = c" "conflate_run (unat c) ops [] = (rs, cq_entries q')"
    unfolding q(2,3) by blast
  then show ?thesis using cq_inv_entries [OF run(2)] by auto
qed

theorem cq_programs_refine_witness:
  "\<exists>q'. cq_run [CQ_Push 1 ''a'', CQ_Push 2 ''b'', CQ_Push 1 ''c'', CQ_Pop, CQ_Push 1 ''d'', CQ_Push 3 ''e'', CQ_Size]
      \<lparr>cq_capacity = 2, cq_queue = [], cq_pending = Map.empty, cq_fresh = 0\<rparr> =
      Inr ([CQ_Done, CQ_Done, CQ_Done, CQ_Popped (Some (1, ''c'')), CQ_Done, CQ_Done, CQ_Number 2], q') \<and>
    cq_entries q' = [(1 :: int, ''d''), (3, ''e'')]"
proof -
  have "ConflatingQueue 2 = Inr \<lparr>cq_capacity = 2, cq_queue = [] :: (nat \<times> int \<times> string) list,
      cq_pending = Map.empty, cq_fresh = 0\<rparr>"
    by (simp add: ConflatingQueue_def)
  from cq_programs_refine [OF this, of "[CQ_Push 1 ''a'', CQ_Push 2 ''b'', CQ_Push 1 ''c'', CQ_Pop, CQ_Push 1 ''d'', CQ_Push 3 ''e'', CQ_Size]"]
  show ?thesis by (auto simp: conflate_def simp del: cq_run.simps)
qed

text \<open>
  Only the newest value of a key is pending. After \<open>push_overwrite(k, v)\<close> the value found
  under \<open>k\<close> is \<open>v\<close>; every other key keeps its value, except the oldest key of a full queue when
  \<open>k\<close> is new, which is gone.
\<close>

theorem cq_push_overwrite_lookup:
  assumes "cq_inv q"
  shows "\<exists>q'. cq_push_overwrite k v q = Inr q' \<and> cq_inv q' \<and>
    map_of (cq_entries q') =
      (if cq_full q \<and> k \<notin> fst ` set (cq_entries q)
       then (map_of (cq_entries q))(fst (hd (cq_entries q)) := None, k \<mapsto> v)
       else (map_of (cq_entries q))(k \<mapsto> v))"
proof -
  let ?es = "cq_entries q" and ?c = "unat (cq_capacity q)"
  from cq_push_overwrite_ok [OF assms, of k v] obtain q' where
    q': "cq_push_overwrite k v q = Inr q'" "cq_inv q'" "cq_entries q' = conflate ?c k v ?es"
    by blast
  have "map_of (conflate ?c k v ?es) = (if cq_full q \<and> k \<notin> fst ` set ?es
       then (map_of ?es)(fst (hd ?es) := None, k \<mapsto> v) else (map_of ?es)(k \<mapsto> v))"
  proof (cases "cq_full q \<and> k \<notin> fst ` set ?es")
    case True
    then have len: "length ?es = ?c" using cq_full_iff [OF assms] by simp
    with cq_invD(1) [OF assms] obtain j w rest where es: "?es = (j, w) # rest"
      by (cases ?es) auto
    have "distinct (map fst ?es)" using cq_inv_entries [OF assms] by simp
    from map_of_conflate_full [OF this len _ es, of k v] True es show ?thesis by simp
  next
    case False
    then have "length ?es \<noteq> ?c \<or> k \<in> fst ` set ?es" using cq_full_iff [OF assms] by auto
    from map_of_conflate [OF this, of v] False show ?thesis by auto
  qed
  with q' show ?thesis by simp
qed

theorem cq_push_overwrite_lookup_witness:
  "\<exists>q'. cq_push_overwrite ''A'' (10 :: int)
      \<lparr>cq_capacity = 1, cq_queue = [], cq_pending = Map.empty, cq_fresh = 0\<rparr> = Inr q' \<and>
    map_of (cq_entries q') ''A'' = Some 10"
proof -
  have "cq_inv \<lparr>cq_capacity = 1, cq_queue = [] :: (nat \<times> string \<times> int) list,
      cq_pending = Map.empty, cq_fresh = 0\<rparr>"
    by (simp add: cq_inv_def)
  from cq_push_overwrite_lookup [OF this, of "''A''" 10] show ?thesis by auto
qed

end
