(* ===== verification/Vector_Model.thy ===== *)
theory Vector_Model
  imports Cpp_Prelude "HOL-Library.Multiset"
begin

text \<open>
  \<open>containers/vector.hpp\<close>: \<open>learning::Vector<T>\<close>, a growing array that constructs elements in raw
  storage and promises not to lose one when a constructor throws. The allocation is a list of slots,
  \<open>None\<close> for raw storage; \<open>env\<close> holds the world the element's special member functions act on, a
  log of allocations and element lifetimes, and a flag that is raised by any access the language
  gives no meaning to (destroying raw storage, constructing over a live element).

  The element type is a parameter: \<open>elem\<close> gives its relocation (\<open>construct\<close> from
  \<open>std::move_if_noexcept\<close> of an old element, which may throw and may change the old element), its
  destructor, and what the allocator does. A constructor call of \<open>emplace_back\<close> is a function of
  the stored elements (its arguments may refer to them, and may move from them) and the world.
\<close>

section \<open>Elements, allocator, log\<close>

datatype 'a vec_event =
    Allocated size_t
  | Deallocated size_t
  | Constructed 'a
  | Destroyed 'a

datatype 'e vec_exn =
    Vec_Length_Error string
  | Vec_Out_Of_Range string
  | Vec_Bad_Alloc
  | Vec_Thrown 'e

record ('a, 'w, 'e) elem =
  el_relocate :: "'a \<Rightarrow> 'w \<Rightarrow> ('e + 'a) \<times> 'a \<times> 'w" \<comment> \<open>new element or exception, old element, world\<close>
  el_copy :: "'a \<Rightarrow> 'w \<Rightarrow> ('e + 'a) \<times> 'w" \<comment> \<open>copy constructor\<close>
  el_destroy :: "'a \<Rightarrow> 'w \<Rightarrow> 'w"
  el_growable :: bool \<comment> \<open>move or copy constructible\<close>
  el_max_size :: size_t
  el_alloc_fails :: "size_t \<Rightarrow> 'w \<Rightarrow> bool"

type_synonym ('a, 'w, 'e) ctor = "'a list \<Rightarrow> 'w \<Rightarrow> ('e + 'a) \<times> 'a list \<times> 'w"

record ('a, 'w) env =
  e_world :: 'w
  e_log :: "'a vec_event list"
  e_ub :: bool

record ('a, 'w) vec =
  v_data :: "'a option list option" \<comment> \<open>\<open>data_\<close>: \<open>nullptr\<close> or the slots of the allocation\<close>
  v_size :: size_t
  v_capacity :: size_t
  v_env :: "('a, 'w) env"

definition v_slots :: "('a, 'w) vec \<Rightarrow> 'a option list" where
  "v_slots v = (case v_data v of None \<Rightarrow> [] | Some xs \<Rightarrow> xs)"

definition v_elems :: "('a, 'w) vec \<Rightarrow> 'a list" where
  "v_elems v = map the (take (unat (v_size v)) (v_slots v))"

definition emit :: "'a vec_event \<Rightarrow> ('a, 'w) env \<Rightarrow> ('a, 'w) env" where
  "emit ev m = m\<lparr>e_log := e_log m @ [ev]\<rparr>"

text \<open>\<open>allocator_traits::construct\<close> and \<open>destroy\<close> on slot \<open>i\<close> of an allocation.\<close>

definition construct_at ::
  "nat \<Rightarrow> 'a \<Rightarrow> 'a option list \<Rightarrow> ('a, 'w) env \<Rightarrow> 'a option list \<times> ('a, 'w) env" where
  "construct_at i y xs m =
     (if i < length xs \<and> xs ! i = None then (xs[i := Some y], emit (Constructed y) m)
      else (xs, m\<lparr>e_ub := True\<rparr>))"

definition destroy_at ::
  "('a, 'w, 'e) elem \<Rightarrow> nat \<Rightarrow> 'a option list \<Rightarrow> ('a, 'w) env \<Rightarrow> 'a option list \<times> ('a, 'w) env" where
  "destroy_at E i xs m =
     (if i < length xs
      then case xs ! i of
          None \<Rightarrow> (xs, m\<lparr>e_ub := True\<rparr>)
        | Some x \<Rightarrow> (xs[i := None], emit (Destroyed x) (m\<lparr>e_world := el_destroy E x (e_world m)\<rparr>))
      else (xs, m\<lparr>e_ub := True\<rparr>))"

text \<open>\<open>while (k != 0) { --k; destroy(new_data + k); }\<close>\<close>

fun destroy_down ::
  "('a, 'w, 'e) elem \<Rightarrow> nat \<Rightarrow> 'a option list \<Rightarrow> ('a, 'w) env \<Rightarrow> 'a option list \<times> ('a, 'w) env" where
  "destroy_down E 0 xs m = (xs, m)"
| "destroy_down E (Suc k) xs m = (case destroy_at E k xs m of (xs', m') \<Rightarrow> destroy_down E k xs' m')"

text \<open>
  The loop that constructs \<open>new_data[i..]\<close> from \<open>move_if_noexcept(data_[i])\<close>, for \<open>k\<close> more elements.
  The result is the exception that stopped it or \<open>Inr ()\<close>, with the number of elements relocated,
  the old and the new slots.
\<close>

fun relocate_loop ::
  "('a, 'w, 'e) elem \<Rightarrow> nat \<Rightarrow> nat \<Rightarrow> 'a option list \<Rightarrow> 'a option list \<Rightarrow> ('a, 'w) env \<Rightarrow>
    ('e + unit) \<times> nat \<times> 'a option list \<times> 'a option list \<times> ('a, 'w) env" where
  "relocate_loop E i 0 old new m = (Inr (), i, old, new, m)"
| "relocate_loop E i (Suc k) old new m =
     (case old ! i of
        None \<Rightarrow> (Inr (), i, old, new, m\<lparr>e_ub := True\<rparr>)
      | Some x \<Rightarrow>
          (case el_relocate E x (e_world m) of
             (Inl e, x', w) \<Rightarrow> (Inl e, i, old[i := Some x'], new, m\<lparr>e_world := w\<rparr>)
           | (Inr y, x', w) \<Rightarrow>
               (case construct_at i y new (m\<lparr>e_world := w\<rparr>) of
                  (new', m') \<Rightarrow> relocate_loop E (Suc i) k (old[i := Some x']) new' m')))"

section \<open>The class\<close>

definition vec_default :: "('a, 'w) env \<Rightarrow> ('a, 'w) vec" where
  "vec_default m = \<lparr>v_data = None, v_size = 0, v_capacity = 0, v_env = m\<rparr>"

text \<open>
  \<open>std::allocator::allocate\<close> throws \<open>std::bad_array_new_length\<close> above \<open>max_size\<close> and
  \<open>std::bad_alloc\<close> when there is no memory; both are \<open>Vec_Bad_Alloc\<close>.
\<close>

definition alloc_throws :: "('a, 'w, 'e) elem \<Rightarrow> size_t \<Rightarrow> 'w \<Rightarrow> bool" where
  "alloc_throws E n w \<longleftrightarrow> el_max_size E < n \<or> el_alloc_fails E n w"

definition vec_new :: "('a, 'w, 'e) elem \<Rightarrow> size_t \<Rightarrow> ('a, 'w) env \<Rightarrow> 'e vec_exn + ('a, 'w) vec" where
  "vec_new E n m =
     (if n = 0 then Inr (vec_default m)
      else if alloc_throws E n (e_world m) then Inl Vec_Bad_Alloc
      else Inr \<lparr>v_data = Some (replicate (unat n) None), v_size = 0, v_capacity = n,
                v_env = emit (Allocated n) m\<rparr>)"

definition vec_empty :: "('a, 'w) vec \<Rightarrow> bool" where
  "vec_empty v \<longleftrightarrow> v_size v = 0"

definition vec_at :: "('a, 'w) vec \<Rightarrow> size_t \<Rightarrow> 'a result" where
  "vec_at v i =
     (if unat i < length (v_slots v) then deref_optional (v_slots v ! unat i)
      else Inl Undefined_Behaviour)"

definition vec_pop_back ::
  "('a, 'w, 'e) elem \<Rightarrow> ('a, 'w) vec \<Rightarrow> ('e vec_exn + unit) \<times> ('a, 'w) vec" where
  "vec_pop_back E v =
     (if vec_empty v then (Inl (Vec_Out_Of_Range ''Cannot pop_back an empty Vector''), v)
      else case destroy_at E (unat (v_size v - 1)) (v_slots v) (v_env v) of
          (xs, m) \<Rightarrow> (Inr (), v\<lparr>v_size := v_size v - 1, v_data := map_option (\<lambda>_. xs) (v_data v), v_env := m\<rparr>))"

text \<open>\<open>clear\<close>: \<open>while (!empty()) pop_back();\<close>, whose number of rounds is \<open>size_\<close>.\<close>

fun pop_times :: "('a, 'w, 'e) elem \<Rightarrow> nat \<Rightarrow> ('a, 'w) vec \<Rightarrow> ('a, 'w) vec" where
  "pop_times E 0 v = v"
| "pop_times E (Suc k) v = (if vec_empty v then v else pop_times E k (snd (vec_pop_back E v)))"

definition vec_clear :: "('a, 'w, 'e) elem \<Rightarrow> ('a, 'w) vec \<Rightarrow> ('a, 'w) vec" where
  "vec_clear E v = pop_times E (unat (v_size v)) v"

definition vec_dealloc :: "('a, 'w) vec \<Rightarrow> ('a, 'w) env" where
  "vec_dealloc v =
     (if v_data v = None then v_env v else emit (Deallocated (v_capacity v)) (v_env v))"

definition vec_destruct :: "('a, 'w, 'e) elem \<Rightarrow> ('a, 'w) vec \<Rightarrow> ('a, 'w) env" where
  "vec_destruct E v = vec_dealloc (vec_clear E v)"

text \<open>Installing the new allocation after every relocation succeeded.\<close>

definition vec_commit ::
  "('a, 'w, 'e) elem \<Rightarrow> 'a option list \<Rightarrow> 'a option list \<Rightarrow> size_t \<Rightarrow> size_t \<Rightarrow> ('a, 'w) env \<Rightarrow>
    ('a, 'w) vec \<Rightarrow> ('a, 'w) vec" where
  "vec_commit E old new sz cap m v =
     (let v' = vec_clear E (v\<lparr>v_data := map_option (\<lambda>_. old) (v_data v), v_env := m\<rparr>)
      in \<lparr>v_data = Some new, v_size = sz, v_capacity = cap, v_env = vec_dealloc v'\<rparr>)"

definition vec_reserve ::
  "('a, 'w, 'e) elem \<Rightarrow> size_t \<Rightarrow> ('a, 'w) vec \<Rightarrow> ('e vec_exn + unit) \<times> ('a, 'w) vec" where
  "vec_reserve E n v =
     (if n \<le> v_capacity v then (Inr (), v)
      else if el_max_size E < n
      then (Inl (Vec_Length_Error ''Vector capacity exceeds allocator limit''), v)
      else if alloc_throws E n (e_world (v_env v)) then (Inl Vec_Bad_Alloc, v)
      else case relocate_loop E 0 (unat (v_size v)) (v_slots v) (replicate (unat n) None)
              (emit (Allocated n) (v_env v)) of
          (Inl e, i, old, new, m) \<Rightarrow>
            (Inl (Vec_Thrown e),
             v\<lparr>v_data := map_option (\<lambda>_. old) (v_data v),
               v_env := emit (Deallocated n) (snd (destroy_down E i new m))\<rparr>)
        | (Inr _, i, old, new, m) \<Rightarrow> (Inr (), vec_commit E old new (of_nat i) n m v))"

text \<open>The capacity \<open>grow_and_emplace\<close> asks for.\<close>

definition grown_capacity :: "size_t \<Rightarrow> size_t \<Rightarrow> size_t" where
  "grown_capacity limit cap = (if cap = 0 then 1 else if limit div 2 < cap then limit else cap * 2)"

definition write_elems :: "'a list \<Rightarrow> 'a option list \<Rightarrow> 'a option list" where
  "write_elems ys xs = map Some ys @ drop (length ys) xs"

definition grow_and_emplace ::
  "('a, 'w, 'e) elem \<Rightarrow> ('a, 'w, 'e) ctor \<Rightarrow> ('a, 'w) vec \<Rightarrow> ('e vec_exn + unit) \<times> ('a, 'w) vec" where
  "grow_and_emplace E f v =
     (let cap = grown_capacity (el_max_size E) (v_capacity v); n = unat (v_size v) in
      if v_capacity v = el_max_size E
      then (Inl (Vec_Length_Error ''Vector capacity exceeds allocator limit''), v)
      else if alloc_throws E cap (e_world (v_env v)) then (Inl Vec_Bad_Alloc, v)
      else case f (v_elems v) (e_world (v_env v)) of
          (Inl e, ys, w) \<Rightarrow>
            (Inl (Vec_Thrown e),
             v\<lparr>v_data := map_option (write_elems ys) (v_data v),
               v_env := emit (Deallocated cap) ((emit (Allocated cap) (v_env v))\<lparr>e_world := w\<rparr>)\<rparr>)
        | (Inr y, ys, w) \<Rightarrow>
            (case construct_at n y (replicate (unat cap) None)
                ((emit (Allocated cap) (v_env v))\<lparr>e_world := w\<rparr>) of
               (new, m) \<Rightarrow>
                 (case relocate_loop E 0 n (write_elems ys (v_slots v)) new m of
                    (Inl e, i, old, new', m') \<Rightarrow>
                      (case destroy_down E i new' m' of
                         (new'', m'') \<Rightarrow>
                           (Inl (Vec_Thrown e),
                            v\<lparr>v_data := map_option (\<lambda>_. old) (v_data v),
                              v_env := emit (Deallocated cap) (snd (destroy_at E n new'' m''))\<rparr>))
                  | (Inr _, i, old, new', m') \<Rightarrow>
                      (Inr (), vec_commit E old new' (v_size v + 1) cap m' v))))"

definition vec_emplace_back ::
  "('a, 'w, 'e) elem \<Rightarrow> ('a, 'w, 'e) ctor \<Rightarrow> ('a, 'w) vec \<Rightarrow> ('e vec_exn + unit) \<times> ('a, 'w) vec" where
  "vec_emplace_back E f v =
     (if v_size v = v_capacity v
      then if el_growable E then grow_and_emplace E f v
           else (Inl (Vec_Length_Error ''Vector growth requires movable or copyable elements''), v)
      else case f (v_elems v) (e_world (v_env v)) of
          (Inl e, ys, w) \<Rightarrow>
            (Inl (Vec_Thrown e),
             v\<lparr>v_data := map_option (write_elems ys) (v_data v), v_env := (v_env v)\<lparr>e_world := w\<rparr>\<rparr>)
        | (Inr y, ys, w) \<Rightarrow>
            (case construct_at (unat (v_size v)) y (write_elems ys (v_slots v))
                ((v_env v)\<lparr>e_world := w\<rparr>) of
               (xs, m) \<Rightarrow>
                 (Inr (), v\<lparr>v_data := map_option (\<lambda>_. xs) (v_data v), v_size := v_size v + 1,
                           v_env := m\<rparr>)))"

text \<open>\<open>push_back(const T&)\<close>: the constructor copies \<open>x\<close>, and the stored elements stay as they are.\<close>

definition copy_ctor :: "('a, 'w, 'e) elem \<Rightarrow> 'a \<Rightarrow> ('a, 'w, 'e) ctor" where
  "copy_ctor E x = (\<lambda>xs w. case el_copy E x w of (r, w') \<Rightarrow> (r, xs, w'))"

definition vec_push_back ::
  "('a, 'w, 'e) elem \<Rightarrow> 'a \<Rightarrow> ('a, 'w) vec \<Rightarrow> ('e vec_exn + unit) \<times> ('a, 'w) vec" where
  "vec_push_back E x = vec_emplace_back E (copy_ctor E x)"

section \<open>Lifetimes in the log\<close>

fun constructed_in :: "'a vec_event list \<Rightarrow> 'a list" where
  "constructed_in [] = []"
| "constructed_in (Constructed x # l) = x # constructed_in l"
| "constructed_in (_ # l) = constructed_in l"

fun destroyed_in :: "'a vec_event list \<Rightarrow> 'a list" where
  "destroyed_in [] = []"
| "destroyed_in (Destroyed x # l) = x # destroyed_in l"
| "destroyed_in (_ # l) = destroyed_in l"

fun allocated_in :: "'a vec_event list \<Rightarrow> size_t list" where
  "allocated_in [] = []"
| "allocated_in (Allocated n # l) = n # allocated_in l"
| "allocated_in (_ # l) = allocated_in l"

fun deallocated_in :: "'a vec_event list \<Rightarrow> size_t list" where
  "deallocated_in [] = []"
| "deallocated_in (Deallocated n # l) = n # deallocated_in l"
| "deallocated_in (_ # l) = deallocated_in l"

lemma constructed_in_append [simp]: "constructed_in (l @ l') = constructed_in l @ constructed_in l'"
  by (induction l rule: constructed_in.induct) auto

lemma destroyed_in_append [simp]: "destroyed_in (l @ l') = destroyed_in l @ destroyed_in l'"
  by (induction l rule: destroyed_in.induct) auto

lemma allocated_in_append [simp]: "allocated_in (l @ l') = allocated_in l @ allocated_in l'"
  by (induction l rule: allocated_in.induct) auto

lemma deallocated_in_append [simp]: "deallocated_in (l @ l') = deallocated_in l @ deallocated_in l'"
  by (induction l rule: deallocated_in.induct) auto

text \<open>
  \<open>k\<close> elements are alive, the allocations of \<open>cs\<close> are held, nothing meaningless was done. The
  elements alive are counted: a relocation may leave a different value behind in the old element.
\<close>

definition balanced :: "('a, 'w) env \<Rightarrow> nat \<Rightarrow> size_t multiset \<Rightarrow> bool" where
  "balanced m k cs \<longleftrightarrow> \<not> e_ub m \<and>
     length (constructed_in (e_log m)) = length (destroyed_in (e_log m)) + k \<and>
     mset (allocated_in (e_log m)) = mset (deallocated_in (e_log m)) + cs"

lemma balanced_world [simp]: "balanced (m\<lparr>e_world := w\<rparr>) k cs = balanced m k cs"
  by (simp add: balanced_def)

lemma balanced_construct: "balanced m k cs \<Longrightarrow> balanced (emit (Constructed y) m) (Suc k) cs"
  by (simp add: balanced_def emit_def)

lemma balanced_destroy: "balanced m (Suc k) cs \<Longrightarrow> balanced (emit (Destroyed y) m) k cs"
  by (simp add: balanced_def emit_def)

lemma balanced_allocate: "balanced m k cs \<Longrightarrow> balanced (emit (Allocated n) m) k (add_mset n cs)"
  by (simp add: balanced_def emit_def)

lemma balanced_deallocate: "balanced m k (add_mset n cs) \<Longrightarrow> balanced (emit (Deallocated n) m) k cs"
  by (simp add: balanced_def emit_def)

section \<open>The loops over slots\<close>

lemma construct_at_raw:
  "i = length ys \<Longrightarrow> construct_at i y (map Some ys @ None # rest) m =
    (map Some (ys @ [y]) @ rest, emit (Constructed y) m)"
  by (simp add: construct_at_def nth_append list_update_append)

lemma destroy_at_live:
  "i = length ys \<Longrightarrow> destroy_at E i (map Some ys @ Some y # rest) m =
    (map Some ys @ None # rest, emit (Destroyed y) (m\<lparr>e_world := el_destroy E y (e_world m)\<rparr>))"
  by (simp add: destroy_at_def nth_append list_update_append)

lemma destroy_down_spec:
  "length ys = k \<Longrightarrow> balanced m (k + j) cs \<Longrightarrow>
    \<exists>m'. destroy_down E k (map Some ys @ rest) m = (replicate k None @ rest, m') \<and> balanced m' j cs"
proof (induction k arbitrary: ys rest m)
  case 0
  then show ?case by simp
next
  case (Suc k)
  then obtain zs z where ys: "ys = zs @ [z]" and zs: "length zs = k"
    by (metis length_Suc_conv_rev)
  let ?m = "emit (Destroyed z) (m\<lparr>e_world := el_destroy E z (e_world m)\<rparr>)"
  have "balanced ?m (k + j) cs" using Suc.prems(2) by (simp add: balanced_destroy)
  from Suc.IH [OF zs this, of "None # rest"] show ?case
    using destroy_at_live [of k zs E z rest m] zs
    by (simp add: ys replicate_app_Cons_same)
qed

text \<open>
  What is known of an element type's relocation: the new element has the old one's value; the old
  element keeps its value (a copy); it never throws (a \<open>noexcept\<close> move).
\<close>

definition relocates_equal :: "('a, 'w, 'e) elem \<Rightarrow> bool" where
  "relocates_equal E \<longleftrightarrow> (\<forall>x w y. fst (el_relocate E x w) = Inr y \<longrightarrow> y = x)"

definition relocates_by_copy :: "('a, 'w, 'e) elem \<Rightarrow> bool" where
  "relocates_by_copy E \<longleftrightarrow> (\<forall>x w. fst (snd (el_relocate E x w)) = x)"

definition relocates_nothrow :: "('a, 'w, 'e) elem \<Rightarrow> bool" where
  "relocates_nothrow E \<longleftrightarrow> (\<forall>x w. isl (fst (el_relocate E x w)) = False)"

lemma relocate_loop_spec:
  assumes "length zs = i + k" and "length ys = i" and "balanced m (j + i) cs"
  shows "\<exists>r i' zs' ys' m'.
     relocate_loop E i k (map Some zs @ rest) (map Some ys @ replicate k None @ spare) m =
       (r, i', map Some zs' @ rest, map Some ys' @ replicate (i + k - i') None @ spare, m') \<and>
     length zs' = length zs \<and> length ys' = i' \<and> i' \<le> i + k \<and> balanced m' (j + i') cs \<and>
     (isl r \<or> i' = i + k) \<and> (relocates_nothrow E \<longrightarrow> \<not> isl r) \<and>
     (relocates_equal E \<longrightarrow> ys' = ys @ take (i' - i) (drop i zs)) \<and>
     (relocates_by_copy E \<longrightarrow> zs' = zs)"
  using assms
proof (induction k arbitrary: i zs ys m)
  case 0
  then show ?case by simp
next
  case (Suc k)
  then have z: "zs ! i = zs ! i" "(map Some zs @ rest) ! i = Some (zs ! i)" by (simp_all add: nth_append)
  obtain r x' w where reloc: "el_relocate E (zs ! i) (e_world m) = (r, x', w)"
    by (cases "el_relocate E (zs ! i) (e_world m)") auto
  have upd: "(map Some zs @ rest)[i := Some x'] = map Some (zs[i := x']) @ rest"
    using Suc.prems by (simp add: list_update_append map_update)
  have keep: "relocates_by_copy E \<Longrightarrow> x' = zs ! i"
    using reloc by (auto simp: relocates_by_copy_def dest: spec2 [of _ "zs ! i" "e_world m"])
  show ?case
  proof (cases r)
    case (Inl e)
    have "\<not> relocates_nothrow E"
      unfolding relocates_nothrow_def using reloc Inl
      by (metis fst_conv sum.disc(1))
    moreover have "relocates_by_copy E \<longrightarrow> zs[i := x'] = zs" using keep by auto
    ultimately show ?thesis
      using Suc.prems reloc Inl z upd by (intro exI [of _ "Inl e"] exI [of _ i] exI [of _ "zs[i := x']"] exI [of _ ys]) simp
  next
    case (Inr y)
    have eq: "relocates_equal E \<Longrightarrow> y = zs ! i"
      unfolding relocates_equal_def using reloc Inr by (metis fst_conv)
    have c: "construct_at i y (map Some ys @ replicate (Suc k) None @ spare) (m\<lparr>e_world := w\<rparr>) =
        (map Some (ys @ [y]) @ replicate k None @ spare, emit (Constructed y) (m\<lparr>e_world := w\<rparr>))"
      using construct_at_raw [of i ys y "replicate k None @ spare"] Suc.prems(2) by simp
    have "balanced (emit (Constructed y) (m\<lparr>e_world := w\<rparr>)) (j + Suc i) cs"
      using Suc.prems(3) by (simp add: balanced_construct)
    from Suc.IH [of "zs[i := x']" "Suc i" "ys @ [y]", OF _ _ this] Suc.prems
    obtain r' i' zs' ys' m' where
      l: "relocate_loop E (Suc i) k (map Some (zs[i := x']) @ rest)
            (map Some (ys @ [y]) @ replicate k None @ spare) (emit (Constructed y) (m\<lparr>e_world := w\<rparr>)) =
          (r', i', map Some zs' @ rest, map Some ys' @ replicate (Suc i + k - i') None @ spare, m')"
      and len: "length zs' = length zs" "length ys' = i'" "i' \<le> Suc i + k" "balanced m' (j + i') cs"
      and r': "isl r' \<or> i' = Suc i + k" "relocates_nothrow E \<longrightarrow> \<not> isl r'"
      and vals: "relocates_equal E \<longrightarrow> ys' = (ys @ [y]) @ take (i' - Suc i) (drop (Suc i) (zs[i := x']))"
        "relocates_by_copy E \<longrightarrow> zs' = zs[i := x']" by auto
    have "relocates_equal E \<longrightarrow> Suc i \<le> i' \<longrightarrow> ys' = ys @ take (i' - i) (drop i zs)"
      using vals(1) eq Suc.prems
      by (auto simp: take_Cons' Cons_nth_drop_Suc [symmetric])
    moreover have "relocates_equal E \<longrightarrow> Suc i \<le> i'"
      using vals(1) len(2) Suc.prems by (auto dest: arg_cong [where f = length])
    moreover have "relocates_by_copy E \<longrightarrow> zs' = zs" using vals(2) keep by auto
    moreover have "relocate_loop E i (Suc k) (map Some zs @ rest)
        (map Some ys @ replicate (Suc k) None @ spare) m =
      (r', i', map Some zs' @ rest, map Some ys' @ replicate (i + Suc k - i') None @ spare, m')"
      using z reloc Inr c upd l by simp
    ultimately show ?thesis using len r' by (intro exI conjI) auto
  qed
qed


section \<open>The class invariant\<close>

definition held :: "('a, 'w) vec \<Rightarrow> size_t multiset" where
  "held v = (if v_data v = None then {#} else {#v_capacity v#})"

text \<open>The slots of a vector with elements \<open>ys\<close> (the member \<open>allocator_\<close> has no state).\<close>

definition vec_slots_ok :: "('a, 'w) vec \<Rightarrow> 'a list \<Rightarrow> bool" where
  "vec_slots_ok v ys \<longleftrightarrow>
     v_slots v = map Some ys @ replicate (unat (v_capacity v) - length ys) None \<and>
     length ys = unat (v_size v) \<and> v_size v \<le> v_capacity v \<and> (v_data v = None \<longrightarrow> v_capacity v = 0)"

definition vec_ok :: "('a, 'w, 'e) elem \<Rightarrow> ('a, 'w) vec \<Rightarrow> bool" where
  "vec_ok E v \<longleftrightarrow> vec_slots_ok v (v_elems v) \<and> v_capacity v \<le> el_max_size E \<and>
     balanced (v_env v) (unat (v_size v)) (held v)"

lemma v_elems_slots: "vec_slots_ok v ys \<Longrightarrow> v_elems v = ys"
  by (simp add: vec_slots_ok_def v_elems_def)

lemma vec_ok_slots: "vec_ok E v \<Longrightarrow> vec_slots_ok v (v_elems v)"
  by (simp add: vec_ok_def)

lemma vec_okI:
  "vec_slots_ok v ys \<Longrightarrow> v_capacity v \<le> el_max_size E \<Longrightarrow>
    balanced (v_env v) (unat (v_size v)) (held v) \<Longrightarrow> vec_ok E v \<and> v_elems v = ys"
  by (simp add: vec_ok_def v_elems_slots)

lemma vec_slots_ok_data:
  "vec_slots_ok v ys \<Longrightarrow> ys \<noteq> [] \<Longrightarrow> v_data v = Some (v_slots v)"
  by (cases "v_data v") (auto simp: vec_slots_ok_def v_slots_def)

lemma pop_back_spec:
  assumes "vec_slots_ok v ys" and "balanced (v_env v) (j + length ys) cs" and "ys \<noteq> []"
  shows "\<exists>v'. vec_pop_back E v = (Inr (), v') \<and> vec_slots_ok v' (butlast ys) \<and>
    balanced (v_env v') (j + length (butlast ys)) cs \<and> v_capacity v' = v_capacity v \<and>
    (v_data v' = None) = (v_data v = None)"
proof -
  from assms(3) obtain zs z where ys: "ys = zs @ [z]" by (metis append_butlast_last_id)
  let ?c = "unat (v_capacity v)"
  have ne: "v_size v \<noteq> 0" using assms(1) ys by (auto simp: vec_slots_ok_def)
  have len: "unat (v_size v - 1) = length zs"
  proof -
    have "unat (v_size v) = Suc (length zs)" using assms(1) ys by (simp add: vec_slots_ok_def)
    then show ?thesis by (simp add: unat_pred_size_t [OF ne])
  qed
  have c: "length zs < ?c"
    using assms(1) ys by (auto simp: vec_slots_ok_def word_le_nat_alt)
  have sl: "v_slots v = map Some zs @ Some z # replicate (?c - Suc (length zs)) None"
    using assms(1) ys by (simp add: vec_slots_ok_def)
  have b: "balanced (emit (Destroyed z) ((v_env v)\<lparr>e_world := el_destroy E z (e_world (v_env v))\<rparr>))
      (j + length zs) cs"
    using assms(2) ys by (intro balanced_destroy) simp
  have "v_data v = Some (v_slots v)" using vec_slots_ok_data assms(1,3) by blast
  with ne len destroy_at_live [OF len, of E z "replicate (?c - Suc (length zs)) None" "v_env v"] sl
  have "vec_pop_back E v = (Inr (), v\<lparr>v_size := v_size v - 1,
      v_data := Some (map Some zs @ None # replicate (?c - Suc (length zs)) None),
      v_env := emit (Destroyed z) ((v_env v)\<lparr>e_world := el_destroy E z (e_world (v_env v))\<rparr>)\<rparr>)"
    by (simp add: vec_pop_back_def vec_empty_def)
  moreover have "v_size v - 1 \<le> v_capacity v"
    using c len by (simp add: word_le_nat_alt)
  moreover have "None # replicate (?c - Suc (length zs)) None = replicate (?c - length zs) None"
    using c by (metis Suc_diff_Suc replicate_Suc)
  ultimately show ?thesis
    using assms(1) ys len \<open>v_data v = Some (v_slots v)\<close> b
    by (auto simp: vec_slots_ok_def v_slots_def [of "v\<lparr>v_size := s, v_data := d, v_env := e\<rparr>" for s d e])
qed

lemma pop_times_spec:
  "vec_slots_ok v ys \<Longrightarrow> balanced (v_env v) (j + length ys) cs \<Longrightarrow> length ys = k \<Longrightarrow>
    vec_slots_ok (pop_times E k v) [] \<and> balanced (v_env (pop_times E k v)) j cs \<and>
    v_capacity (pop_times E k v) = v_capacity v \<and>
    (v_data (pop_times E k v) = None) = (v_data v = None)"
proof (induction k arbitrary: v ys)
  case 0
  then show ?case by simp
next
  case (Suc k)
  then have ne: "ys \<noteq> []" "\<not> vec_empty v" by (auto simp: vec_empty_def vec_slots_ok_def)
  from pop_back_spec [OF Suc.prems(1,2) ne(1), of E] obtain v' where
    p: "vec_pop_back E v = (Inr (), v')" and v': "vec_slots_ok v' (butlast ys)"
      "balanced (v_env v') (j + length (butlast ys)) cs" "v_capacity v' = v_capacity v"
      "(v_data v' = None) = (v_data v = None)" by (elim exE conjE) (rule that, assumption+)
  have "pop_times E (Suc k) v = pop_times E k v'" using p ne by simp
  moreover have "length (butlast ys) = k" using Suc.prems(3) by simp
  note Suc.IH [OF v'(1,2) this]
  ultimately show ?case by (simp only: v'(3,4))
qed

lemma clear_spec:
  "vec_slots_ok v ys \<Longrightarrow> balanced (v_env v) (j + length ys) cs \<Longrightarrow>
    vec_slots_ok (vec_clear E v) [] \<and> balanced (v_env (vec_clear E v)) j cs \<and>
    v_capacity (vec_clear E v) = v_capacity v \<and> (v_data (vec_clear E v) = None) = (v_data v = None)"
  unfolding vec_clear_def by (rule pop_times_spec) (auto simp: vec_slots_ok_def unat_eq_0)

lemma dealloc_spec:
  "balanced (v_env v) j (cs + held v) \<Longrightarrow> balanced (vec_dealloc v) j cs"
  by (auto simp: vec_dealloc_def held_def intro: balanced_deallocate)

lemma held_cong: "(v_data v' = None) = (v_data v = None) \<Longrightarrow> v_capacity v' = v_capacity v \<Longrightarrow> held v' = held v"
  by (simp add: held_def)

text \<open>The destructor of a vector in its invariant leaves nothing behind.\<close>

lemma destruct_spec: "vec_ok E v \<Longrightarrow> balanced (vec_destruct E v) 0 {#}"
proof -
  assume ok: "vec_ok E v"
  then have "balanced (v_env v) (0 + length (v_elems v)) (held v)"
    by (simp add: vec_ok_def vec_slots_ok_def)
  from clear_spec [OF vec_ok_slots [OF ok] this, of E] show ?thesis
    unfolding vec_destruct_def using held_cong dealloc_spec by (metis add_0)
qed

lemma commit_spec:
  assumes "vec_slots_ok v ys" and "balanced m (j + length ys) (add_mset cap (held v))"
    and "length old = length (v_slots v)" and "old = map Some xs @ replicate (unat (v_capacity v) - length ys) None"
    and "length xs = length ys" and "new = map Some zs @ replicate (unat cap - length zs) None"
    and "length zs = j" and "unat sz = j" and "sz \<le> cap" and "cap \<le> el_max_size E"
  shows "vec_ok E (vec_commit E old new sz cap m v) \<and>
    v_elems (vec_commit E old new sz cap m v) = zs \<and>
    v_capacity (vec_commit E old new sz cap m v) = cap"
proof -
  let ?v = "v\<lparr>v_data := map_option (\<lambda>_. old) (v_data v), v_env := m\<rparr>"
  have ys: "length ys = unat (v_size v)" "v_data v = None \<longrightarrow> v_capacity v = 0"
    "v_size v \<le> v_capacity v"
    using assms(1) by (auto simp: vec_slots_ok_def)
  then have "v_data v = None \<longrightarrow> v_size v = 0" 
    by (auto simp: word_le_nat_alt unat_eq_0)
  then have none: "v_data v = None \<longrightarrow> old = []" using assms(4,5) ys by (cases "v_data v") auto
  then have "vec_slots_ok ?v xs"
    using assms(4,5) ys by (cases "v_data v") (auto simp: vec_slots_ok_def v_slots_def unat_eq_0)
  from clear_spec [OF this, of j "add_mset cap (held v)" E] assms(2,5)
  have c: "vec_slots_ok (vec_clear E ?v) []" "balanced (v_env (vec_clear E ?v)) j (add_mset cap (held v))"
    "held (vec_clear E ?v) = held v" by (auto simp: held_def)
  then have b: "balanced (vec_dealloc (vec_clear E ?v)) j {#cap#}"
    using dealloc_spec [of "vec_clear E ?v" j "{#cap#}"] by simp
  have "vec_slots_ok (vec_commit E old new sz cap m v) zs"
    using assms by (simp add: vec_slots_ok_def vec_commit_def v_slots_def)
  from vec_okI [OF this, of E] b assms show ?thesis
    by (simp add: vec_commit_def held_def)
qed

section \<open>The operations\<close>

lemma unat_div2: "unat ((w :: size_t) div 2) = unat w div 2"
  by (simp add: unat_div)

lemma grown_capacity_bounds:
  assumes "cap < limit"
  shows "cap < grown_capacity limit cap" and "grown_capacity limit cap \<le> limit"
proof -
  have u: "unat cap < unat limit" using assms by (simp add: word_less_nat_alt)
  have "limit < 2 ^ 64 \<or> True" by simp
  have dbl: "unat (cap * 2) = unat cap * 2" if "\<not> limit div 2 < cap"
  proof -
    have "unat cap \<le> unat limit div 2" using that by (simp add: not_less word_le_nat_alt unat_div2)
    then have "unat cap * 2 < 2 ^ 64" using unat_size_t_less [of limit] by linarith
    then show ?thesis by (simp add: unat_word_ariths)
  qed
  have le: "unat cap * 2 \<le> unat limit" if "\<not> limit div 2 < cap"
    using that by (simp add: not_less word_le_nat_alt unat_div2)
  show "cap < grown_capacity limit cap"
    using u dbl by (auto simp: grown_capacity_def word_less_nat_alt unat_gt_0 unat_eq_0)
  show "grown_capacity limit cap \<le> limit"
    using u dbl le by (auto simp: grown_capacity_def word_le_nat_alt)
qed

text \<open>
  What one operation promises: the class invariant again, the elements \<open>good\<close> when it returns
  (if relocations keep values), and, when it throws, the vector as it was with elements \<open>bad\<close>
  (if a relocation that throws leaves its source alone).
\<close>

definition relocates_safely :: "('a, 'w, 'e) elem \<Rightarrow> bool" where
  "relocates_safely E \<longleftrightarrow> relocates_nothrow E \<or> relocates_by_copy E"

definition op_outcome ::
  "('a, 'w, 'e) elem \<Rightarrow> ('a, 'w) vec \<Rightarrow> 'a list \<Rightarrow> 'a list \<Rightarrow> size_t \<Rightarrow>
    ('e vec_exn + unit) \<times> ('a, 'w) vec \<Rightarrow> bool" where
  "op_outcome E v bad good cap out \<longleftrightarrow> (case out of (res, v') \<Rightarrow>
     vec_ok E v' \<and>
     (\<not> isl res \<longrightarrow> v_capacity v' = cap \<and> length good = unat (v_size v') \<and>
        (relocates_equal E \<longrightarrow> v_elems v' = good)) \<and>
     (isl res \<longrightarrow> v_size v' = v_size v \<and> v_capacity v' = v_capacity v \<and>
        (relocates_safely E \<longrightarrow> v_elems v' = bad)))"

lemma op_outcome_iff:
  "op_outcome E v bad good cap out \<longleftrightarrow> vec_ok E (snd out) \<and>
     (\<not> isl (fst out) \<longrightarrow> v_capacity (snd out) = cap \<and> length good = unat (v_size (snd out)) \<and>
        (relocates_equal E \<longrightarrow> v_elems (snd out) = good)) \<and>
     (isl (fst out) \<longrightarrow> v_size (snd out) = v_size v \<and> v_capacity (snd out) = v_capacity v \<and>
        (relocates_safely E \<longrightarrow> v_elems (snd out) = bad))"
  by (simp add: op_outcome_def split: prod.splits)

text \<open>The vector keeps its allocation, its elements become \<open>zs\<close>.\<close>

lemma same_slots:
  assumes "vec_slots_ok v ys" and "length zs = length ys" and "v_capacity v \<le> el_max_size E"
    and "balanced m (length ys) (held v)"
  shows "vec_ok E (v\<lparr>v_data := map_option (\<lambda>_. map Some zs @ replicate (unat (v_capacity v) - length ys) None)
      (v_data v), v_env := m\<rparr>) \<and>
    v_elems (v\<lparr>v_data := map_option (\<lambda>_. map Some zs @ replicate (unat (v_capacity v) - length ys) None)
      (v_data v), v_env := m\<rparr>) = zs" (is "vec_ok E ?v \<and> _")
proof (rule vec_okI)
  have none: "v_data v = None \<longrightarrow> zs = []"
    using assms(1,2) by (auto simp: vec_slots_ok_def word_le_nat_alt)
  show "vec_slots_ok ?v zs"
    using assms(1,2) none by (cases "v_data v") (auto simp: vec_slots_ok_def v_slots_def)
  show "v_capacity ?v \<le> el_max_size E" using assms(3) by simp
  have "held ?v = held v" by (cases "v_data v") (auto simp: held_def)
  then show "balanced (v_env ?v) (unat (v_size ?v)) (held ?v)"
    using assms(1,4) by (simp add: vec_slots_ok_def)
qed

lemma reserve_spec:
  assumes "vec_ok E v"
  shows "op_outcome E v (v_elems v) (v_elems v) (max n (v_capacity v)) (vec_reserve E n v)"
proof -
  define ys where "ys = v_elems v"
  have sl: "vec_slots_ok v ys" and cap: "v_capacity v \<le> el_max_size E"
    and bal: "balanced (v_env v) (length ys) (held v)"
    using assms by (auto simp: vec_ok_def ys_def vec_slots_ok_def)
  have len: "length ys = unat (v_size v)" using sl by (simp add: vec_slots_ok_def)
  let ?c = "unat (v_capacity v)"
  have unchanged: "op_outcome E v ys ys (max n (v_capacity v)) (r, v)"
    if "isl r \<or> n \<le> v_capacity v" for r
    using assms that len by (auto simp: op_outcome_def ys_def max_def)
  show ?thesis
  proof (cases "n \<le> v_capacity v \<or> el_max_size E < n \<or> el_alloc_fails E n (e_world (v_env v))")
    case True
    then show ?thesis using unchanged by (auto simp: vec_reserve_def alloc_throws_def ys_def)
  next
    case False
    let ?m = "emit (Allocated n) (v_env v)"
    have n: "unat (v_size v) \<le> unat n" "n \<le> el_max_size E" "max n (v_capacity v) = n"
      using False sl by (auto simp: vec_slots_ok_def word_le_nat_alt max_def not_less)
    have b0: "balanced ?m (length ys + 0) (add_mset n (held v))"
      using bal by (simp add: balanced_allocate)
    have slots: "v_slots v = map Some ys @ replicate (?c - length ys) None"
      using sl by (simp add: vec_slots_ok_def)
    have new: "replicate (unat n) None = replicate (length ys) None @ replicate (unat n - length ys) None"
      using n len by (simp flip: replicate_add)
    from relocate_loop_spec [of ys 0 "length ys" "[]" ?m "length ys" "add_mset n (held v)" E
        "replicate (?c - length ys) None" "replicate (unat n - length ys) None"] b0
    obtain r i old' new' m' where
      loop: "relocate_loop E 0 (length ys) (v_slots v) (replicate (unat n) None) ?m =
        (r, i, map Some old' @ replicate (?c - length ys) None,
         map Some new' @ replicate (length ys - i) None @ replicate (unat n - length ys) None, m')"
      and old: "length old' = length ys" "length new' = i" "i \<le> length ys"
        "balanced m' (length ys + i) (add_mset n (held v))" "isl r \<or> i = length ys"
        "relocates_nothrow E \<longrightarrow> \<not> isl r" "relocates_equal E \<longrightarrow> new' = take i ys"
        "relocates_by_copy E \<longrightarrow> old' = ys"
      unfolding slots new by auto
    show ?thesis
    proof (cases r)
      case (Inl e)
      let ?new = "replicate (length ys - i) None @ replicate (unat n - length ys) None"
      have "balanced m' (i + length ys) (add_mset n (held v))" using old(4) by (simp add: add.commute)
      from destroy_down_spec [OF old(2) this, of E ?new] obtain m'' where
        d: "destroy_down E i (map Some new' @ ?new) m' = (replicate i None @ ?new, m'')"
        and b'': "balanced m'' (length ys) (add_mset n (held v))" by blast
      have "vec_reserve E n v = (Inl (Vec_Thrown e),
          v\<lparr>v_data := map_option (\<lambda>_. map Some old' @ replicate (?c - length ys) None) (v_data v),
            v_env := emit (Deallocated n) m''\<rparr>)"
        using False loop Inl d by (simp add: vec_reserve_def alloc_throws_def len)
      moreover have "relocates_safely E \<longrightarrow> old' = ys"
        using old(6,8) Inl by (auto simp: relocates_safely_def)
      ultimately show ?thesis
        using same_slots [OF sl old(1) cap balanced_deallocate [OF b'']] ys_def
        by (auto simp: op_outcome_def)
    next
      case (Inr u)
      then have i: "i = length ys" using old(5) by simp
      let ?v = "vec_commit E (map Some old' @ replicate (?c - length ys) None)
          (map Some new' @ replicate (unat n - length new') None) (of_nat i) n m' v"
      have "vec_ok E ?v \<and> v_elems ?v = new' \<and> v_capacity ?v = n"
      proof (rule commit_spec [OF sl, where xs = old'])
        show "balanced m' (i + length ys) (add_mset n (held v))"
          using old(4) i by simp
        show "unat (of_nat i :: size_t) = i" using i len by simp
        show "of_nat i \<le> n" using i len n by (simp add: word_le_nat_alt)
      qed (use old i n slots in auto)
      moreover have "vec_reserve E n v = (Inr (), ?v)"
        using False loop Inr old(2) i by (simp add: vec_reserve_def alloc_throws_def len)
      moreover have "v_size ?v = v_size v" using i len by (simp add: vec_commit_def)
      moreover have "relocates_equal E \<longrightarrow> new' = ys" using old(7) i by simp
      ultimately show ?thesis using n len ys_def by (auto simp: op_outcome_def)
    qed
  qed
qed

lemma write_elems_slots:
  "length zs = length ys \<Longrightarrow> write_elems zs (map Some ys @ rest) = map Some zs @ rest"
  by (simp add: write_elems_def)

lemma op_outcome_throw:
  assumes "vec_ok E v" and "length good = length (v_elems v)" and "bad = v_elems v"
  shows "op_outcome E v bad good cap (Inl e, v)"
  using assms by (auto simp: op_outcome_def)

lemma grow_spec:
  assumes ok: "vec_ok E v" and full: "v_size v = v_capacity v"
    and f: "f (v_elems v) (e_world (v_env v)) = (r, zs, w)" and zs: "length zs = length (v_elems v)"
  shows "vec_ok E (snd (grow_and_emplace E f v)) \<and>
    (case fst (grow_and_emplace E f v) of
       Inl e \<Rightarrow> v_size (snd (grow_and_emplace E f v)) = v_size v \<and>
         v_capacity (snd (grow_and_emplace E f v)) = v_capacity v \<and>
         (relocates_safely E \<longrightarrow> v_elems (snd (grow_and_emplace E f v)) \<in> {v_elems v, zs})
     | Inr _ \<Rightarrow> v_capacity (snd (grow_and_emplace E f v)) = grown_capacity (el_max_size E) (v_capacity v) \<and>
         v_size (snd (grow_and_emplace E f v)) = v_size v + 1 \<and>
         (relocates_equal E \<longrightarrow> (\<exists>y. r = Inr y \<and> v_elems (snd (grow_and_emplace E f v)) = zs @ [y])))"
proof -
  define ys where "ys = v_elems v"
  let ?c = "unat (v_capacity v)"
  let ?cap = "grown_capacity (el_max_size E) (v_capacity v)"
  have sl: "vec_slots_ok v ys" and cap: "v_capacity v \<le> el_max_size E"
    and bal: "balanced (v_env v) (length ys) (held v)"
    using ok by (auto simp: vec_ok_def ys_def vec_slots_ok_def)
  have len: "length ys = unat (v_size v)" using sl by (simp add: vec_slots_ok_def)
  have zlen: "length zs = length ys" using zs ys_def by simp
  have slots: "v_slots v = map Some ys @ replicate (?c - length ys) None"
    using sl by (simp add: vec_slots_ok_def)
  show ?thesis
  proof (cases "v_capacity v = el_max_size E \<or> alloc_throws E ?cap (e_world (v_env v))")
    case True
    then show ?thesis using ok by (auto simp: grow_and_emplace_def Let_def)
  next
    case False
    let ?m = "(emit (Allocated ?cap) (v_env v))\<lparr>e_world := w\<rparr>"
    have lt: "v_capacity v < el_max_size E" using False cap by auto
    have n: "length ys < unat ?cap" and capmax: "?cap \<le> el_max_size E"
      using grown_capacity_bounds [OF lt] len full by (simp_all add: word_less_nat_alt)
    have len': "unat (v_size v + 1) = Suc (length ys)"
      using len full lt unat_Suc_size_t [of "v_size v" "unat (el_max_size E)"] unat_size_t_less [of "el_max_size E"]
      by (simp add: word_less_nat_alt)
    have b0: "balanced ?m (length ys) (add_mset ?cap (held v))"
      using bal by (simp add: balanced_allocate)
    show ?thesis
    proof (cases r)
      case (Inl e)
      have "write_elems zs (v_slots v) = map Some zs @ replicate (?c - length ys) None"
        using slots zlen by (simp add: write_elems_slots)
      then have "grow_and_emplace E f v = (Inl (Vec_Thrown e),
          v\<lparr>v_data := map_option (\<lambda>_. map Some zs @ replicate (?c - length ys) None) (v_data v),
            v_env := emit (Deallocated ?cap) ?m\<rparr>)"
        using False f Inl by (cases "v_data v") (simp_all add: grow_and_emplace_def Let_def v_slots_def)
      then show ?thesis
        using same_slots [OF sl zlen cap balanced_deallocate [OF b0]] by simp
    next
      case (Inr y)
      let ?tail = "Some y # replicate (unat ?cap - Suc (length ys)) None"
      have split: "replicate (unat ?cap) (None :: 'a option) =
          replicate (length ys) None @ None # replicate (unat ?cap - Suc (length ys)) None"
        using n by (simp flip: replicate_Suc replicate_add)
      have con: "construct_at (length ys) y (replicate (unat ?cap) None) ?m =
          (replicate (length ys) None @ ?tail, emit (Constructed y) ?m)"
        unfolding split by (simp add: construct_at_def nth_append list_update_append)
      have b1: "balanced (emit (Constructed y) ?m) (Suc (length ys) + 0) (add_mset ?cap (held v))"
        using b0 by (simp add: balanced_construct)
      have wr: "write_elems zs (v_slots v) = map Some zs @ replicate (?c - length ys) None"
        using slots zlen by (simp add: write_elems_slots)
      from relocate_loop_spec [of zs 0 "length ys" "[]" "emit (Constructed y) ?m" "Suc (length ys)"
          "add_mset ?cap (held v)" E "replicate (?c - length ys) None" ?tail] b1 zlen
      obtain r2 i old' new' m' where
        loop: "relocate_loop E 0 (length ys) (map Some zs @ replicate (?c - length ys) None)
            (replicate (length ys) None @ ?tail) (emit (Constructed y) ?m) =
          (r2, i, map Some old' @ replicate (?c - length ys) None,
           map Some new' @ replicate (length ys - i) None @ ?tail, m')"
        and old: "length old' = length zs" "length new' = i" "i \<le> length ys"
          "balanced m' (Suc (length ys) + i) (add_mset ?cap (held v))" "isl r2 \<or> i = length ys"
          "relocates_nothrow E \<longrightarrow> \<not> isl r2" "relocates_equal E \<longrightarrow> new' = take i zs"
          "relocates_by_copy E \<longrightarrow> old' = zs" by auto
      show ?thesis
      proof (cases r2)
        case (Inl e)
        let ?new = "replicate (length ys - i) None @ ?tail"
        have "balanced m' (i + Suc (length ys)) (add_mset ?cap (held v))" using old(4) by (simp add: add.commute)
        from destroy_down_spec [OF old(2) this, of E ?new] obtain m1 where
          d: "destroy_down E i (map Some new' @ ?new) m' = (replicate i None @ ?new, m1)"
          and b2: "balanced m1 (Suc (length ys)) (add_mset ?cap (held v))" by blast
        have nth: "replicate i None @ ?new = replicate (length ys) None @ ?tail"
          using old(3) by (simp flip: append_assoc replicate_add)
        let ?m2 = "emit (Destroyed y) (m1\<lparr>e_world := el_destroy E y (e_world m1)\<rparr>)"
        have da: "snd (destroy_at E (length ys) (replicate (length ys) None @ ?tail) m1) = ?m2"
          by (simp add: destroy_at_def nth_append)
        have b3: "balanced ?m2 (length ys) (add_mset ?cap (held v))"
          using b2 by (simp add: balanced_destroy)
        have "grow_and_emplace E f v = (Inl (Vec_Thrown e),
            v\<lparr>v_data := map_option (\<lambda>_. map Some old' @ replicate (?c - length ys) None) (v_data v),
              v_env := emit (Deallocated ?cap) ?m2\<rparr>)"
          using False f Inr Inl con wr loop d [unfolded nth] da
          by (simp add: grow_and_emplace_def Let_def len)
        moreover have "relocates_safely E \<longrightarrow> old' = zs"
          using old(6,8) Inl by (auto simp: relocates_safely_def)
        moreover have "length old' = length ys" using old(1) zlen by simp
        ultimately show ?thesis
          using same_slots [OF sl _ cap balanced_deallocate [OF b3], of old'] by auto
      next
        case r2: (Inr u)
        then have i: "i = length ys" using old(5) by simp
        have new: "map Some new' @ replicate (length ys - i) None @ ?tail =
            map Some (new' @ [y]) @ replicate (unat ?cap - length (new' @ [y])) None"
          using i old(2) by simp
        let ?v = "vec_commit E (map Some old' @ replicate (?c - length ys) None)
            (map Some (new' @ [y]) @ replicate (unat ?cap - length (new' @ [y])) None) (v_size v + 1) ?cap m' v"
        have "vec_ok E ?v \<and> v_elems ?v = new' @ [y] \<and> v_capacity ?v = ?cap"
        proof (rule commit_spec [OF sl, where xs = old'])
          show "balanced m' (Suc i + length ys) (add_mset ?cap (held v))"
            using old(4) i by simp
          show "v_size v + 1 \<le> ?cap" using n len' by (simp add: word_le_nat_alt)
        qed (use old i zlen slots len' capmax in auto)
        moreover have "grow_and_emplace E f v = (Inr (), ?v)"
          using False f Inr r2 con wr loop new by (simp add: grow_and_emplace_def Let_def len)
        moreover have "relocates_equal E \<longrightarrow> new' = zs" using old(7) i zlen by simp
        moreover have "v_size ?v = v_size v + 1" by (simp add: vec_commit_def)
        ultimately show ?thesis using Inr by auto
      qed
    qed
  qed
qed

lemma emplace_spec:
  assumes ok: "vec_ok E v"
    and f: "f (v_elems v) (e_world (v_env v)) = (r, zs, w)" and zs: "length zs = length (v_elems v)"
  shows "vec_ok E (snd (vec_emplace_back E f v)) \<and>
    (case fst (vec_emplace_back E f v) of
       Inl e \<Rightarrow> v_size (snd (vec_emplace_back E f v)) = v_size v \<and>
         v_capacity (snd (vec_emplace_back E f v)) = v_capacity v \<and>
         (relocates_safely E \<longrightarrow> v_elems (snd (vec_emplace_back E f v)) \<in> {v_elems v, zs})
     | Inr _ \<Rightarrow>
         v_capacity (snd (vec_emplace_back E f v)) =
           (if v_size v = v_capacity v then grown_capacity (el_max_size E) (v_capacity v)
            else v_capacity v) \<and>
         v_size (snd (vec_emplace_back E f v)) = v_size v + 1 \<and>
         (relocates_equal E \<longrightarrow> (\<exists>y. r = Inr y \<and> v_elems (snd (vec_emplace_back E f v)) = zs @ [y])))"
proof (cases "v_size v = v_capacity v")
  case True
  show ?thesis
  proof (cases "el_growable E")
    case grow: True
    with True have "vec_emplace_back E f v = grow_and_emplace E f v" by (simp add: vec_emplace_back_def)
    then show ?thesis using grow_spec [where f = f, OF ok True f zs] True by (simp split: sum.splits)
  next
    case False
    with True ok show ?thesis by (simp add: vec_emplace_back_def)
  qed
next
  case False
  define ys where "ys = v_elems v"
  let ?c = "unat (v_capacity v)"
  have sl: "vec_slots_ok v ys" and cap: "v_capacity v \<le> el_max_size E"
    and bal: "balanced (v_env v) (length ys) (held v)"
    using ok by (auto simp: vec_ok_def ys_def vec_slots_ok_def)
  have len: "length ys = unat (v_size v)" and zlen: "length zs = length ys"
    using sl zs by (simp_all add: vec_slots_ok_def ys_def)
  have lt: "unat (v_size v) < ?c"
    using sl False by (simp add: vec_slots_ok_def word_le_nat_alt le_less word_unat_eq_iff)
  then have data: "v_data v = Some (v_slots v)"
    using sl by (cases "v_data v") (auto simp: vec_slots_ok_def v_slots_def)
  have wr: "write_elems zs (v_slots v) = map Some zs @ replicate (?c - length ys) None"
    using sl zlen by (simp add: vec_slots_ok_def write_elems_slots)
  show ?thesis
  proof (cases r)
    case (Inl e)
    have "vec_emplace_back E f v = (Inl (Vec_Thrown e),
        v\<lparr>v_data := map_option (\<lambda>_. map Some zs @ replicate (?c - length ys) None) (v_data v),
          v_env := (v_env v)\<lparr>e_world := w\<rparr>\<rparr>)"
      using False f Inl wr data by (simp add: vec_emplace_back_def)
    then show ?thesis
      using same_slots [OF sl zlen cap, of "(v_env v)\<lparr>e_world := w\<rparr>"] bal by simp
  next
    case (Inr y)
    have rest: "replicate (?c - length ys) (None :: 'a option) = None # replicate (?c - Suc (length ys)) None"
      using lt len by (metis Suc_diff_Suc replicate_Suc)
    let ?v = "v\<lparr>v_data := Some (map Some (zs @ [y]) @ replicate (?c - Suc (length ys)) None),
        v_size := v_size v + 1, v_env := emit (Constructed y) ((v_env v)\<lparr>e_world := w\<rparr>)\<rparr>"
    have e: "vec_emplace_back E f v = (Inr (), ?v)"
      using False f Inr wr data rest
        construct_at_raw [of "length ys" zs y "replicate (?c - Suc (length ys)) None" "(v_env v)\<lparr>e_world := w\<rparr>"] zlen
      by (simp add: vec_emplace_back_def len [symmetric])
    have len': "unat (v_size v + 1) = Suc (length ys)"
      using lt len unat_Suc_size_t unat_size_t_less by metis
    have "vec_slots_ok ?v (zs @ [y])"
      using sl zlen len' lt len by (simp add: vec_slots_ok_def v_slots_def word_le_nat_alt)
    moreover have "balanced (v_env ?v) (unat (v_size ?v)) (held ?v)"
      using bal len' data by (simp add: balanced_construct held_def)
    ultimately have "vec_ok E ?v \<and> v_elems ?v = zs @ [y]" using cap vec_okI [of ?v] by simp
    then show ?thesis using e Inr False by simp
  qed
qed

lemma pop_back_ok:
  assumes "vec_ok E v"
  shows "op_outcome E v (v_elems v) (butlast (v_elems v)) (v_capacity v) (vec_pop_back E v)"
proof (cases "v_elems v = []")
  case True
  then have "vec_empty v"
    using assms by (simp add: vec_empty_def vec_ok_def vec_slots_ok_def unat_eq_0)
  then show ?thesis using assms by (simp add: vec_pop_back_def op_outcome_def)
next
  case False
  let ?ys = "v_elems v"
  have "balanced (v_env v) (0 + length ?ys) (held v)"
    using assms by (simp add: vec_ok_def vec_slots_ok_def)
  from pop_back_spec [OF vec_ok_slots [OF assms] this False, of E] obtain v' where
    p: "vec_pop_back E v = (Inr (), v')" and v': "vec_slots_ok v' (butlast ?ys)"
      "balanced (v_env v') (0 + length (butlast ?ys)) (held v)" "v_capacity v' = v_capacity v"
      "(v_data v' = None) = (v_data v = None)" by (elim exE conjE) (rule that, assumption+)
  have len: "length (butlast ?ys) = unat (v_size v')" using v'(1) by (simp only: vec_slots_ok_def)
  have "held v' = held v" using v'(3,4) by (simp add: held_def)
  with v'(2) len have "balanced (v_env v') (unat (v_size v')) (held v')" by simp
  from vec_okI [OF v'(1) _ this, of E] v'(3) assms p len show ?thesis
    by (simp add: op_outcome_def vec_ok_def [of E v])
qed

lemma clear_ok:
  assumes "vec_ok E v"
  shows "vec_ok E (vec_clear E v) \<and> v_elems (vec_clear E v) = [] \<and>
    v_capacity (vec_clear E v) = v_capacity v"
proof -
  have "balanced (v_env v) (0 + length (v_elems v)) (held v)"
    using assms by (simp add: vec_ok_def vec_slots_ok_def)
  note c = clear_spec [OF vec_ok_slots [OF assms] this, of E]
  then have "held (vec_clear E v) = held v" "v_size (vec_clear E v) = 0"
    by (simp_all add: held_def vec_slots_ok_def unat_eq_0)
  with c vec_okI [of "vec_clear E v" "[]" E] assms show ?thesis by (simp add: vec_ok_def)
qed

lemma new_ok:
  assumes "vec_new E n \<lparr>e_world = w, e_log = [], e_ub = False\<rparr> = Inr v"
  shows "vec_ok E v \<and> v_elems v = [] \<and> v_capacity v = n"
proof -
  have "vec_slots_ok v [] \<and> v_capacity v = n \<and> n \<le> el_max_size E \<and> v_size v = 0 \<and>
      balanced (v_env v) 0 (held v)"
    using assms
    by (auto simp: vec_new_def alloc_throws_def vec_default_def vec_slots_ok_def v_slots_def
        balanced_def held_def emit_def split: if_splits)
  then show ?thesis using vec_okI [of v "[]" E] by simp
qed

section \<open>Clients\<close>

datatype ('a, 'w, 'e) vec_op =
    V_Push 'a
  | V_Emplace "('a, 'w, 'e) ctor"
  | V_Pop
  | V_Clear
  | V_Reserve size_t

fun vec_step ::
  "('a, 'w, 'e) elem \<Rightarrow> ('a, 'w, 'e) vec_op \<Rightarrow> ('a, 'w) vec \<Rightarrow> ('e vec_exn + unit) \<times> ('a, 'w) vec" where
  "vec_step E (V_Push x) v = vec_push_back E x v"
| "vec_step E (V_Emplace f) v = vec_emplace_back E f v"
| "vec_step E V_Pop v = vec_pop_back E v"
| "vec_step E V_Clear v = (Inr (), vec_clear E v)"
| "vec_step E (V_Reserve n) v = vec_reserve E n v"

text \<open>A client that catches what an operation throws and goes on.\<close>

fun vec_run ::
  "('a, 'w, 'e) elem \<Rightarrow> ('a, 'w, 'e) vec_op list \<Rightarrow> ('a, 'w) vec \<Rightarrow>
    ('e vec_exn + unit) list \<times> ('a, 'w) vec" where
  "vec_run E [] v = ([], v)"
| "vec_run E (op # ops) v =
     (case vec_step E op v of (r, v') \<Rightarrow> case vec_run E ops v' of (rs, v'') \<Rightarrow> (r # rs, v''))"

text \<open>A constructor call may change elements but not their number.\<close>

definition ctor_ok :: "('a, 'w, 'e) ctor \<Rightarrow> bool" where
  "ctor_ok f \<longleftrightarrow> (\<forall>xs w. length (fst (snd (f xs w))) = length xs)"

definition op_ok :: "('a, 'w, 'e) vec_op \<Rightarrow> bool" where
  "op_ok op \<longleftrightarrow> (case op of V_Emplace f \<Rightarrow> ctor_ok f | _ \<Rightarrow> True)"

lemma emplace_ok: "vec_ok E v \<Longrightarrow> ctor_ok f \<Longrightarrow> vec_ok E (snd (vec_emplace_back E f v))"
  by (cases "f (v_elems v) (e_world (v_env v))")
     (use emplace_spec in \<open>fastforce simp: ctor_ok_def dest: spec2 [of _ "v_elems v" "e_world (v_env v)"]\<close>)

lemma ctor_ok_copy: "ctor_ok (copy_ctor E x)"
  by (auto simp: ctor_ok_def copy_ctor_def split: prod.splits)

lemma step_ok: "vec_ok E v \<Longrightarrow> op_ok op \<Longrightarrow> vec_ok E (snd (vec_step E op v))"
  using pop_back_ok [of E v] reserve_spec [of E v]
  by (cases op)
     (simp_all add: vec_push_back_def emplace_ok ctor_ok_copy op_ok_def clear_ok op_outcome_iff)

lemma snd_vec_run_Cons: "snd (vec_run E (op # ops) v) = snd (vec_run E ops (snd (vec_step E op v)))"
  by (simp split: prod.splits)

lemma run_ok: "vec_ok E v \<Longrightarrow> \<forall>op\<in>set ops. op_ok op \<Longrightarrow> vec_ok E (snd (vec_run E ops v))"
  by (induction ops arbitrary: v) (simp_all add: snd_vec_run_Cons step_ok del: vec_run.simps(2))

section \<open>The contract\<close>

text \<open>
  A vector is a list of elements and a capacity. An operation that throws changes neither; \<open>pop_back\<close> throws
  exactly on an empty vector, \<open>clear\<close> never, \<open>reserve\<close> only if it has to grow. A vector grows when it is full.
\<close>

definition next_capacity :: "('a, 'w, 'e) elem \<Rightarrow> 'a list \<Rightarrow> size_t \<Rightarrow> size_t" where
  "next_capacity E ys c = (if length ys = unat c then grown_capacity (el_max_size E) c else c)"

fun vec_spec :: "('a, 'w, 'e) elem \<Rightarrow> ('a, 'w, 'e) vec_op \<Rightarrow> 'e vec_exn + unit \<Rightarrow> 'a list \<times> size_t \<Rightarrow> 'a list \<times> size_t \<Rightarrow> bool" where
  "vec_spec E (V_Push x) r (ys, c) t \<longleftrightarrow> (if isl r then t = (ys, c) else t = (ys @ [x], next_capacity E ys c))"
| "vec_spec E (V_Emplace f) r (ys, c) t \<longleftrightarrow>
     (if isl r then t = (ys, c) else \<exists>y w. fst (f ys w) = Inr y \<and> t = (ys @ [y], next_capacity E ys c))"
| "vec_spec E V_Pop r (ys, c) t \<longleftrightarrow>
     (if ys = [] then r = Inl (Vec_Out_Of_Range ''Cannot pop_back an empty Vector'') \<and> t = (ys, c)
      else r = Inr () \<and> t = (butlast ys, c))"
| "vec_spec E V_Clear r (ys, c) t \<longleftrightarrow> r = Inr () \<and> t = ([], c)"
| "vec_spec E (V_Reserve n) r (ys, c) t \<longleftrightarrow> (if isl r then c < n \<and> t = (ys, c) else t = (ys, max n c))"

fun vec_trace :: "('a, 'w, 'e) elem \<Rightarrow> ('a, 'w, 'e) vec_op list \<Rightarrow> ('e vec_exn + unit) list \<Rightarrow> 'a list \<times> size_t \<Rightarrow> 'a list \<times> size_t \<Rightarrow> bool" where
  "vec_trace E [] rs s t \<longleftrightarrow> rs = [] \<and> t = s"
| "vec_trace E (op # ops) [] s t \<longleftrightarrow> False"
| "vec_trace E (op # ops) (r # rs) s t \<longleftrightarrow> (\<exists>s'. vec_spec E op r s s' \<and> vec_trace E ops rs s' t)"

definition copies_equal :: "('a, 'w, 'e) elem \<Rightarrow> bool" where
  "copies_equal E \<longleftrightarrow> (\<forall>x w y. fst (el_copy E x w) = Inr y \<longrightarrow> y = x)"

text \<open>The arguments of \<open>emplace_back\<close> are not elements of the vector that the constructor moves from.\<close>

fun leaves_elems :: "('a, 'w, 'e) vec_op \<Rightarrow> bool" where
  "leaves_elems (V_Emplace f) \<longleftrightarrow> (\<forall>xs w. fst (snd (f xs w)) = xs)"
| "leaves_elems _ \<longleftrightarrow> True"

lemma leaves_op_ok: "leaves_elems op \<Longrightarrow> op_ok op"
  by (cases op) (simp_all add: op_ok_def ctor_ok_def)

lemma emplace_contract:
  assumes ok: "vec_ok E v" and f: "\<forall>xs w. fst (snd (f xs w)) = xs" and E: "relocates_equal E" "relocates_safely E"
  shows "vec_spec E (V_Emplace f) (fst (vec_emplace_back E f v)) (v_elems v, v_capacity v)
    (v_elems (snd (vec_emplace_back E f v)), v_capacity (snd (vec_emplace_back E f v)))"
proof -
  obtain r zs w where call: "f (v_elems v) (e_world (v_env v)) = (r, zs, w)"
    by (cases "f (v_elems v) (e_world (v_env v))") auto
  then have zs: "zs = v_elems v" using f by (metis fst_conv snd_conv)
  have size: "length (v_elems v) = unat (v_size v)" using vec_ok_slots [OF ok] by (simp add: vec_slots_ok_def)
  have full: "length (v_elems v) = unat (v_capacity v) \<longleftrightarrow> v_size v = v_capacity v"
    unfolding size by (simp add: word_unat_eq_iff)
  have call': "fst (f (v_elems v) (e_world (v_env v))) = r" using call by simp
  show ?thesis
    using emplace_spec [where f = f, OF ok call] zs E call'
    by (auto simp: next_capacity_def full split: sum.splits)
qed

lemma push_contract:
  assumes ok: "vec_ok E v" and E: "relocates_equal E" "relocates_safely E" "copies_equal E"
  shows "vec_spec E (V_Push x) (fst (vec_push_back E x v)) (v_elems v, v_capacity v)
    (v_elems (snd (vec_push_back E x v)), v_capacity (snd (vec_push_back E x v)))"
proof -
  have "\<forall>xs w. fst (snd (copy_ctor E x xs w)) = xs" by (auto simp: copy_ctor_def split: prod.splits)
  from emplace_contract [where f = "copy_ctor E x", OF ok this E(1,2)]
  have spec: "vec_spec E (V_Emplace (copy_ctor E x)) (fst (vec_push_back E x v)) (v_elems v, v_capacity v)
      (v_elems (snd (vec_push_back E x v)), v_capacity (snd (vec_push_back E x v)))" by (simp only: vec_push_back_def)
  have "y = x" if "fst (copy_ctor E x ys w) = Inr y" for y ys w
  proof -
    have "fst (el_copy E x w) = Inr y" using that by (simp add: copy_ctor_def split: prod.splits)
    then show ?thesis using E(3) unfolding copies_equal_def by blast
  qed
  then show ?thesis using spec by (auto split: if_splits)
qed

lemma pop_contract:
  assumes ok: "vec_ok E v"
  shows "vec_spec E V_Pop (fst (vec_pop_back E v)) (v_elems v, v_capacity v)
    (v_elems (snd (vec_pop_back E v)), v_capacity (snd (vec_pop_back E v)))"
proof (cases "v_elems v = []")
  case True
  then have "vec_empty v" using ok by (simp add: vec_empty_def vec_ok_def vec_slots_ok_def unat_eq_0)
  then show ?thesis using True by (simp add: vec_pop_back_def)
next
  case False
  let ?ys = "v_elems v"
  have "balanced (v_env v) (0 + length ?ys) (held v)" using ok by (simp add: vec_ok_def vec_slots_ok_def)
  from pop_back_spec [OF vec_ok_slots [OF ok] this False, of E] obtain v' where
    "vec_pop_back E v = (Inr (), v')" "vec_slots_ok v' (butlast ?ys)" "v_capacity v' = v_capacity v"
    by (elim exE conjE) (rule that, assumption+)
  then show ?thesis using False v_elems_slots by fastforce
qed

lemma step_contract:
  assumes ok: "vec_ok E v" and E: "relocates_equal E" "relocates_safely E" "copies_equal E" and op: "leaves_elems op"
  shows "vec_spec E op (fst (vec_step E op v)) (v_elems v, v_capacity v)
    (v_elems (snd (vec_step E op v)), v_capacity (snd (vec_step E op v)))"
proof (cases op)
  case (V_Push x)
  then show ?thesis using push_contract [OF ok E] by (simp del: vec_spec.simps)
next
  case (V_Emplace f)
  then show ?thesis using emplace_contract [OF ok _ E(1,2), of f] op by (simp del: vec_spec.simps)
next
  case V_Pop
  then show ?thesis using pop_contract [OF ok] by (simp del: vec_spec.simps)
next
  case V_Clear
  then show ?thesis using clear_ok [OF ok] by simp
next
  case (V_Reserve n)
  have "isl (fst (vec_reserve E n v)) \<Longrightarrow> v_capacity v < n" by (auto simp: vec_reserve_def split: if_splits)
  then show ?thesis using V_Reserve reserve_spec [OF ok, of n] E by (auto simp: op_outcome_iff)
qed

lemma run_contract:
  assumes E: "relocates_equal E" "relocates_safely E" "copies_equal E"
  shows "vec_ok E v \<Longrightarrow> \<forall>op\<in>set ops. leaves_elems op \<Longrightarrow>
    vec_trace E ops (fst (vec_run E ops v)) (v_elems v, v_capacity v)
      (v_elems (snd (vec_run E ops v)), v_capacity (snd (vec_run E ops v)))"
proof (induction ops arbitrary: v)
  case (Cons op ops)
  let ?v' = "snd (vec_step E op v)"
  have "vec_ok E ?v'" by (rule step_ok [OF Cons.prems(1) leaves_op_ok]) (use Cons.prems(2) in simp)
  from Cons.IH [OF this] have rest: "vec_trace E ops (fst (vec_run E ops ?v')) (v_elems ?v', v_capacity ?v')
      (v_elems (snd (vec_run E ops ?v')), v_capacity (snd (vec_run E ops ?v')))" using Cons.prems(2) by simp
  have "vec_spec E op (fst (vec_step E op v)) (v_elems v, v_capacity v) (v_elems ?v', v_capacity ?v')"
    using step_contract [OF Cons.prems(1) E] Cons.prems(2) by simp
  moreover have "fst (vec_run E (op # ops) v) = fst (vec_step E op v) # fst (vec_run E ops ?v')"
    "snd (vec_run E (op # ops) v) = snd (vec_run E ops ?v')" by (simp_all split: prod.splits)
  ultimately show ?case using rest by (auto simp del: vec_run.simps vec_step.simps)
qed simp

section \<open>The cost of growing\<close>

definition constructions :: "('a, 'w) vec \<Rightarrow> nat" where
  "constructions v = length (constructed_in (e_log (v_env v)))"

definition env_constructions :: "('a, 'w) env \<Rightarrow> nat" where
  "env_constructions m = length (constructed_in (e_log m))"

lemma env_constructions_emit [simp]:
  "env_constructions (emit (Allocated n) m) = env_constructions m"
  "env_constructions (emit (Deallocated n) m) = env_constructions m"
  "env_constructions (emit (Destroyed x) m) = env_constructions m"
  "env_constructions (emit (Constructed x) m) = Suc (env_constructions m)"
  "env_constructions (m\<lparr>e_world := w\<rparr>) = env_constructions m"
  "env_constructions (m\<lparr>e_ub := b\<rparr>) = env_constructions m"
  by (simp_all add: env_constructions_def emit_def)

lemma destroy_at_constructions: "env_constructions (snd (destroy_at E i xs m)) = env_constructions m"
  by (simp add: destroy_at_def split: option.splits)

lemma construct_at_constructions:
  "env_constructions (snd (construct_at i y xs m)) \<le> Suc (env_constructions m)"
  by (simp add: construct_at_def)

lemma pop_back_constructions: "env_constructions (v_env (snd (vec_pop_back E v))) = env_constructions (v_env v)"
  using destroy_at_constructions [of E "unat (v_size v - 1)" "v_slots v" "v_env v"]
  by (auto simp: vec_pop_back_def split: prod.splits)

lemma pop_times_constructions: "env_constructions (v_env (pop_times E k v)) = env_constructions (v_env v)"
  by (induction k arbitrary: v) (auto simp: pop_back_constructions)

lemma relocate_loop_constructions:
  "relocate_loop E i k old new m = (r, i', old', new', m') \<Longrightarrow> env_constructions m' \<le> env_constructions m + k"
proof (induction k arbitrary: i old new m)
  case 0
  then show ?case by simp
next
  case (Suc k)
  show ?case
  proof (cases "old ! i")
    case None
    with Suc.prems show ?thesis by auto
  next
    case (Some x)
    obtain q x' w where q: "el_relocate E x (e_world m) = (q, x', w)"
      by (cases "el_relocate E x (e_world m)") auto
    show ?thesis
    proof (cases q)
      case (Inl e)
      with Suc.prems Some q show ?thesis by auto
    next
      case (Inr y)
      obtain n1 m1 where c: "construct_at i y new (m\<lparr>e_world := w\<rparr>) = (n1, m1)" by fastforce
      with Suc.prems Some q Inr have "relocate_loop E (Suc i) k (old[i := Some x']) n1 m1 = (r, i', old', new', m')"
        by simp
      from Suc.IH [OF this] construct_at_constructions [of i y new "m\<lparr>e_world := w\<rparr>"] c
      show ?thesis by simp
    qed
  qed
qed

lemma commit_constructions: "env_constructions (v_env (vec_commit E old new sz cap m v)) = env_constructions m"
  by (simp add: vec_commit_def vec_dealloc_def vec_clear_def Let_def pop_times_constructions)

lemma emplace_constructions:
  assumes "vec_emplace_back E f v = (Inr u, v')"
  shows "env_constructions (v_env v') \<le> env_constructions (v_env v) +
    (if v_size v = v_capacity v then Suc (unat (v_size v)) else 1)"
proof -
  obtain r zs w where f: "f (v_elems v) (e_world (v_env v)) = (r, zs, w)"
    by (cases "f (v_elems v) (e_world (v_env v))") auto
  show ?thesis
  proof (cases "v_size v = v_capacity v")
    case False
    obtain y where r: "r = Inr y" using assms False f by (cases r) (auto simp: vec_emplace_back_def)
    obtain xs m where c: "construct_at (unat (v_size v)) y (write_elems zs (v_slots v))
        ((v_env v)\<lparr>e_world := w\<rparr>) = (xs, m)" by fastforce
    have "v_env v' = m" using assms False f r c by (auto simp: vec_emplace_back_def)
    then show ?thesis
      using construct_at_constructions [of "unat (v_size v)" y "write_elems zs (v_slots v)"
          "(v_env v)\<lparr>e_world := w\<rparr>"] c False by simp
  next
    case True
    let ?cap = "grown_capacity (el_max_size E) (v_capacity v)"
    let ?m = "(emit (Allocated ?cap) (v_env v))\<lparr>e_world := w\<rparr>"
    have g: "grow_and_emplace E f v = (Inr u, v')"
      using assms True by (simp add: vec_emplace_back_def split: if_splits)
    then obtain y where r: "r = Inr y" using f by (cases r) (auto simp: grow_and_emplace_def Let_def split: if_splits)
    obtain new m where c: "construct_at (unat (v_size v)) y (replicate (unat ?cap) None) ?m = (new, m)" by fastforce
    obtain q i old new' m' where l:
      "relocate_loop E 0 (unat (v_size v)) (write_elems zs (v_slots v)) new m = (q, i, old, new', m')"
      by (metis prod_cases5)
    obtain q' where q: "q = Inr q'"
      using g f r c l by (cases q) (auto simp: grow_and_emplace_def Let_def split: if_splits prod.splits)
    have "v' = vec_commit E old new' (v_size v + 1) ?cap m' v"
      using g f r c l q by (auto simp: grow_and_emplace_def Let_def split: if_splits)
    then show ?thesis
      using relocate_loop_constructions [OF l] True
        construct_at_constructions [of "unat (v_size v)" y "replicate (unat ?cap) None" ?m] c
      by (simp add: commit_constructions)
  qed
qed

lemma push_back_cost:
  assumes "vec_ok E v" and "vec_push_back E x v = (Inr u, v')"
  shows "vec_ok E v' \<and> v_size v' = v_size v + 1 \<and>
    v_capacity v' = (if v_size v = v_capacity v then grown_capacity (el_max_size E) (v_capacity v)
      else v_capacity v) \<and>
    env_constructions (v_env v') \<le> env_constructions (v_env v) +
      (if v_size v = v_capacity v then Suc (unat (v_size v)) else 1)"
proof -
  obtain r w where c: "el_copy E x (e_world (v_env v)) = (r, w)" by fastforce
  then have f: "copy_ctor E x (v_elems v) (e_world (v_env v)) = (r, v_elems v, w)"
    by (simp add: copy_ctor_def)
  have e: "vec_emplace_back E (copy_ctor E x) v = (Inr u, v')"
    using assms(2) by (simp add: vec_push_back_def)
  show ?thesis
    using emplace_spec [where f = "copy_ctor E x", OF assms(1) f] emplace_constructions [OF e]
    unfolding e by simp
qed

lemma pushes_cost:
  "vec_ok E v \<Longrightarrow> unat (v_size v) = n \<Longrightarrow> env_constructions (v_env v) \<le> n + unat (v_capacity v) \<Longrightarrow>
    unat (v_capacity v) \<le> 2 * n \<Longrightarrow> 2 * (n + length xs) \<le> unat (el_max_size E) \<Longrightarrow>
    vec_run E (map V_Push xs) v = (rs, v') \<Longrightarrow> \<forall>r\<in>set rs. \<not> isl r \<Longrightarrow>
    env_constructions (v_env v') \<le> n + length xs + unat (v_capacity v') \<and>
    unat (v_capacity v') \<le> 2 * (n + length xs)"
proof (induction xs arbitrary: v n rs)
  case Nil
  then show ?case by simp
next
  case (Cons x xs)
  obtain r v1 where st: "vec_push_back E x v = (r, v1)" by fastforce
  obtain rs' where rs: "rs = r # rs'" and run: "vec_run E (map V_Push xs) v1 = (rs', v')"
    using Cons.prems(6) st by (auto split: prod.splits)
  obtain u where "r = Inr u" using Cons.prems(7) rs by (cases r) auto
  note one = push_back_cost [OF Cons.prems(1) st [unfolded this]]
  have max: "unat (el_max_size E) < 2 ^ 64" by (rule unat_size_t_less)
  have n1: "unat (v_size v1) = Suc n"
    using one Cons.prems(2,5) max unat_Suc_size_t [of "v_size v" "unat (el_max_size E)"] by simp
  have grown: "v_size v = v_capacity v \<Longrightarrow> unat (v_capacity v1) = (if n = 0 then 1 else 2 * n)"
  proof -
    assume full: "v_size v = v_capacity v"
    have "unat (v_capacity v) = n" using full Cons.prems(2) by simp
    moreover have "\<not> el_max_size E div 2 < v_capacity v"
      using calculation Cons.prems(5) by (simp add: word_less_nat_alt unat_div2)
    moreover have "unat (v_capacity v * 2) = n * 2"
      using calculation(1) Cons.prems(5) max by (simp add: unat_word_ariths)
    ultimately show ?thesis using one full by (auto simp: grown_capacity_def unat_eq_0 unat_gt_0)
  qed
  have "env_constructions (v_env v1) \<le> Suc n + unat (v_capacity v1) \<and> unat (v_capacity v1) \<le> 2 * Suc n"
  proof (cases "v_size v = v_capacity v")
    case True
    then have "unat (v_capacity v) = n" using Cons.prems(2) by simp
    then show ?thesis using True one grown Cons.prems(2-4) by (auto split: if_splits)
  next
    case False
    then show ?thesis using one Cons.prems(3,4) by simp
  qed
  with Cons.IH [of v1 "Suc n" rs'] one n1 Cons.prems(5,7) run rs show ?case by simp
qed

section \<open>Properties\<close>

text \<open>
  C6: Nothing leaks and nothing is destroyed twice, whatever throws. A vector is created, any
  sequence of \<open>push_back\<close>, \<open>emplace_back\<close>, \<open>pop_back\<close>, \<open>clear\<close> and \<open>reserve\<close> is run on it, each of
  them possibly ending in an exception from the allocator, from a relocation or from the element's
  constructor, and the destructor runs. Then no access was undefined, as many elements were
  destroyed as were constructed, and the deallocations are exactly the allocations, with their
  capacities.
\<close>

theorem vec_no_leak:
  assumes "vec_new E n \<lparr>e_world = w, e_log = [], e_ub = False\<rparr> = Inr v"
    and "\<forall>op\<in>set ops. op_ok op"
  shows "let m = vec_destruct E (snd (vec_run E ops v)) in
    \<not> e_ub m \<and> length (constructed_in (e_log m)) = length (destroyed_in (e_log m)) \<and>
    mset (allocated_in (e_log m)) = mset (deallocated_in (e_log m))"
  using destruct_spec [OF run_ok [OF conjunct1 [OF new_ok [OF assms(1)]] assms(2)]]
  by (simp add: balanced_def Let_def)

text \<open>An element type whose copies fail when a budget is spent: its world is the budget left.\<close>

definition budget_elem :: "(int, nat, string) elem" where
  "budget_elem = \<lparr>el_relocate = \<lambda>x b. (if b = 0 then Inl ''copy'' else Inr x, x, b - 1),
     el_copy = \<lambda>x b. (if b = 0 then Inl ''copy'' else Inr x, b - 1),
     el_destroy = \<lambda>x b. b, el_growable = True, el_max_size = 100, el_alloc_fails = \<lambda>n b. False\<rparr>"

definition budget_env :: "nat \<Rightarrow> (int, nat) env" where
  "budget_env b = \<lparr>e_world = b, e_log = [], e_ub = False\<rparr>"

theorem vec_no_leak_witness:
  "let m = vec_destruct budget_elem (snd (vec_run budget_elem
      [V_Push 1, V_Push 2, V_Push 3, V_Reserve 4, V_Pop, V_Emplace (\<lambda>xs w. (Inr 7, map uminus xs, w))]
      (vec_default (budget_env 4)))) in
    \<not> e_ub m \<and> length (constructed_in (e_log m)) = length (destroyed_in (e_log m)) \<and>
    mset (allocated_in (e_log m)) = mset (deallocated_in (e_log m))"
proof (rule vec_no_leak [where n = 0 and w = 4])
  show "vec_new budget_elem 0 \<lparr>e_world = 4, e_log = [], e_ub = False\<rparr> = Inr (vec_default (budget_env 4))"
    by (simp add: vec_new_def budget_env_def)
qed (auto simp: op_ok_def ctor_ok_def)

text \<open>
  C7: The strong exception guarantee and the list behaviour. Copying and relocating keep values,
  a relocation either cannot throw or leaves its source alone (what \<open>std::move_if_noexcept\<close>
  chooses for every type that can be copied), and the constructors called by \<open>emplace_back\<close> do not move from the elements
  of the vector. Then in any run of \<open>push_back\<close>, \<open>emplace_back\<close>, \<open>pop_back\<close>, \<open>clear\<close> and \<open>reserve\<close> an operation that
  throws leaves the elements and the capacity as they were, and one that returns does what the list operation does,
  with the capacity of the growth policy.
\<close>

theorem vec_strong_guarantee:
  assumes "vec_new E n \<lparr>e_world = w, e_log = [], e_ub = False\<rparr> = Inr v"
    and "relocates_equal E" and "relocates_safely E" and "copies_equal E"
    and "\<forall>op\<in>set ops. leaves_elems op"
  shows "vec_trace E ops (fst (vec_run E ops v)) ([], n)
    (v_elems (snd (vec_run E ops v)), v_capacity (snd (vec_run E ops v)))"
  using run_contract [OF assms(2-4), of v ops] new_ok [OF assms(1)] assms(5) by simp

definition budget_ops :: "(int, nat, string) vec_op list" where
  "budget_ops = [V_Push 1, V_Emplace (\<lambda>xs w. (Inr 7, xs, w)), V_Push 3, V_Reserve 8, V_Pop]"

theorem vec_strong_guarantee_witness:
  "vec_trace budget_elem budget_ops (fst (vec_run budget_elem budget_ops (vec_default (budget_env 4)))) ([], 0)
    (v_elems (snd (vec_run budget_elem budget_ops (vec_default (budget_env 4)))),
     v_capacity (snd (vec_run budget_elem budget_ops (vec_default (budget_env 4)))))"
proof (rule vec_strong_guarantee [where w = 4])
  show "vec_new budget_elem 0 \<lparr>e_world = 4, e_log = [], e_ub = False\<rparr> = Inr (vec_default (budget_env 4))"
    by (simp add: vec_new_def budget_env_def)
qed (auto simp: relocates_equal_def relocates_safely_def relocates_by_copy_def copies_equal_def
       budget_elem_def budget_ops_def split: if_splits)

text \<open>
  C26: Appending is amortized constant: \<open>N\<close> calls of \<open>push_back\<close> that all succeed, on an empty
  vector without an allocation, construct at most \<open>3 N\<close> elements, relocations included, and leave
  a capacity of at most \<open>2 N\<close> (while \<open>2 N\<close> elements are within the allocator's limit).
\<close>

theorem vec_push_amortized:
  assumes "vec_run E (map V_Push xs) (vec_default \<lparr>e_world = w, e_log = [], e_ub = False\<rparr>) = (rs, v)"
    and "\<forall>r\<in>set rs. \<not> isl r" and "2 * length xs \<le> unat (el_max_size E)"
  shows "constructions v \<le> 3 * length xs \<and> unat (v_capacity v) \<le> 2 * length xs"
proof -
  let ?v = "vec_default \<lparr>e_world = w, e_log = [], e_ub = False\<rparr>"
  have "vec_ok E ?v" using new_ok [of E 0 w ?v] by (simp add: vec_new_def)
  from pushes_cost [OF this, of 0 xs rs v] assms
  have "env_constructions (v_env v) \<le> length xs + unat (v_capacity v) \<and> unat (v_capacity v) \<le> 2 * length xs"
    by (simp add: vec_default_def env_constructions_def)
  then show ?thesis by (simp add: constructions_def env_constructions_def)
qed

theorem vec_push_amortized_witness:
  "constructions (snd (vec_run budget_elem (map V_Push [1, 2, 3]) (vec_default (budget_env 9)))) \<le> 9 \<and>
    unat (v_capacity (snd (vec_run budget_elem (map V_Push [1, 2, 3]) (vec_default (budget_env 9))))) \<le> 6"
proof -
  let ?r = "vec_run budget_elem (map V_Push [1, 2, 3]) (vec_default (budget_env 9))"
  have "vec_run budget_elem (map V_Push [1, 2, 3]) (vec_default \<lparr>e_world = 9, e_log = [], e_ub = False\<rparr>) =
      (fst ?r, snd ?r)" by (simp add: budget_env_def del: vec_run.simps)
  moreover have "\<forall>r\<in>set (fst ?r). \<not> isl r" by code_simp
  ultimately show ?thesis
    using vec_push_amortized [of budget_elem "[1, 2, 3]" 9 "fst ?r" "snd ?r"]
    by (simp add: budget_elem_def del: vec_run.simps)
qed

end
