(* ===== verification/Threadsafe_Stack.thy ===== *)
theory Threadsafe_Stack
  imports Cpp_Interfaces
begin

text \<open>
  \<open>concurrency/my_stack.cpp\<close> and \<open>concurrency/lock_base_stack.cpp\<close>: a stack whose operations each
  hold the stack's mutex, with \<open>empty\<close>, \<open>top\<close> and \<open>pop\<close> combined so that no caller sees a state
  between them. Each operation is one atomic step here (\<open>std::lock_guard\<close> spans its body); threads
  are sequences of operations, and the programs are run under every \<open>interleaving\<close> of them.

  \<open>std::stack<T>\<close> is the list of its \<open>std::deque\<close>, top last.
\<close>

section \<open>\<open>ThreadSafe_Stack\<close>\<close>

record 'a ts_stack =
  ts_data :: "'a list"

definition ThreadSafe_Stack :: "'a ts_stack" where
  "ThreadSafe_Stack = \<lparr>ts_data = []\<rparr>"

definition ts_copy :: "'a ts_stack \<Rightarrow> 'a ts_stack" where
  "ts_copy other = ThreadSafe_Stack\<lparr>ts_data := ts_data other\<rparr>"

definition ts_push :: "'a \<Rightarrow> 'a ts_stack \<Rightarrow> 'a ts_stack" where
  "ts_push x s = s\<lparr>ts_data := ts_data s @ [x]\<rparr>"

text \<open>\<open>std::shared_ptr<T> pop()\<close>: the value in the shared object and the stack left behind.\<close>

definition ts_pop :: "'a ts_stack \<Rightarrow> cpp_exn + 'a \<times> 'a ts_stack" where
  "ts_pop s =
     (if ts_data s = [] then Inl Empty_Stack
      else Inr (last (ts_data s), s\<lparr>ts_data := butlast (ts_data s)\<rparr>))"

text \<open>\<open>void pop(T& val)\<close>: the outcome, the caller's variable and the stack.\<close>

definition ts_pop_ref :: "'a \<Rightarrow> 'a ts_stack \<Rightarrow> (cpp_exn + unit) \<times> 'a \<times> 'a ts_stack" where
  "ts_pop_ref val s =
     (if ts_data s = [] then (Inl Empty_Stack, val, s)
      else (Inr (), last (ts_data s), s\<lparr>ts_data := butlast (ts_data s)\<rparr>))"

definition ts_empty :: "'a ts_stack \<Rightarrow> bool" where
  "ts_empty s \<longleftrightarrow> ts_data s = []"

interpretation tss: lifo_stack "\<lambda>s. rev (ts_data s)" "\<lambda>s. True" ts_empty ts_push ts_pop
proof (unfold_locales, goal_cases)
  case (5 s x xs)
  then have "ts_data s = rev xs @ [x]" by (metis rev.simps(2) rev_rev_ident)
  then show ?case by (simp add: ts_pop_def)
qed (auto simp: ts_empty_def ts_push_def ts_pop_def)

lemma ts_pop_ref_pop:
  "ts_pop_ref val s = (case ts_pop s of Inl e \<Rightarrow> (Inl e, val, s) | Inr (x, s') \<Rightarrow> (Inr (), x, s'))"
  by (simp add: ts_pop_ref_def ts_pop_def)

lemma ts_data_push_all: "ts_data (fold ts_push xs s) = ts_data s @ xs"
  by (induction xs arbitrary: s) (auto simp: ts_push_def)

section \<open>\<open>threadsafe_stack\<close> of \<open>lock_base_stack.cpp\<close>\<close>

text \<open>
  This version moves the top element out before it pops it. \<open>mv\<close> is the state an element is left
  in when it is moved from, a parameter of the element type.
\<close>

record 'a lb_stack =
  lb_data :: "'a list"

definition lb_copy :: "'a lb_stack \<Rightarrow> 'a lb_stack" where
  "lb_copy other = \<lparr>lb_data = lb_data other\<rparr>"

definition lb_push :: "'a \<Rightarrow> 'a lb_stack \<Rightarrow> 'a lb_stack" where
  "lb_push x s = s\<lparr>lb_data := lb_data s @ [x]\<rparr>"

text \<open>\<open>std::move(data.top())\<close>: the value taken, and the stack with the moved-from top.\<close>

definition lb_take_top :: "('a \<Rightarrow> 'a) \<Rightarrow> 'a lb_stack \<Rightarrow> 'a \<times> 'a lb_stack" where
  "lb_take_top mv s =
     (let x = last (lb_data s) in (x, s\<lparr>lb_data := (lb_data s)[length (lb_data s) - 1 := mv x]\<rparr>))"

definition lb_pop :: "('a \<Rightarrow> 'a) \<Rightarrow> 'a lb_stack \<Rightarrow> cpp_exn + 'a \<times> 'a lb_stack" where
  "lb_pop mv s =
     (if lb_data s = [] then Inl Empty_Stack
      else let (res, s') = lb_take_top mv s in Inr (res, s'\<lparr>lb_data := butlast (lb_data s')\<rparr>))"

definition lb_pop_ref ::
  "('a \<Rightarrow> 'a) \<Rightarrow> 'a \<Rightarrow> 'a lb_stack \<Rightarrow> (cpp_exn + unit) \<times> 'a \<times> 'a lb_stack" where
  "lb_pop_ref mv val s =
     (if lb_data s = [] then (Inl Empty_Stack, val, s)
      else let (v, s') = lb_take_top mv s in (Inr (), v, s'\<lparr>lb_data := butlast (lb_data s')\<rparr>))"

definition lb_empty :: "'a lb_stack \<Rightarrow> bool" where
  "lb_empty s \<longleftrightarrow> lb_data s = []"

lemma lb_take_top_butlast:
  "lb_data s \<noteq> [] \<Longrightarrow> butlast (lb_data (snd (lb_take_top mv s))) = butlast (lb_data s)"
  by (simp add: lb_take_top_def Let_def butlast_list_update)

text \<open>Whatever is left in a moved-from element, nobody sees it: the stack behaves as a stack.\<close>

lemma lb_pop_eq:
  "lb_pop mv s = (if lb_data s = [] then Inl Empty_Stack
    else Inr (last (lb_data s), s\<lparr>lb_data := butlast (lb_data s)\<rparr>))"
  using lb_take_top_butlast [of s mv] by (simp add: lb_pop_def lb_take_top_def Let_def)

interpretation lbs: lifo_stack "\<lambda>s. rev (lb_data s)" "\<lambda>s. True" lb_empty lb_push "lb_pop mv"
proof (unfold_locales, goal_cases)
  case (5 s x xs)
  then have "lb_data s = rev xs @ [x]" by (metis rev.simps(2) rev_rev_ident)
  then show ?case by (simp add: lb_pop_eq)
qed (auto simp: lb_empty_def lb_push_def lb_pop_eq)

section \<open>The examples and tests\<close>

text \<open>The program text writes to \<open>std::cout\<close>: an example returns what it printed, or what it threw.\<close>

definition require :: "bool \<Rightarrow> string \<Rightarrow> cpp_exn + unit" where
  "require condition message = (if condition then Inr () else Inl (Runtime_Error message))"

definition example_basic_usage :: "string result" where
  "example_basic_usage =
     (let numbers = ts_push (30::int) (ts_push 20 (ts_push 10 ThreadSafe_Stack)) in
      bind_result (ts_pop numbers) (\<lambda>(latest, numbers).
      case ts_pop_ref 0 numbers of (r, next_value, numbers) \<Rightarrow>
      bind_result r (\<lambda>_.
      case ts_pop_ref 0 numbers of (r, last_value, numbers) \<Rightarrow>
      bind_result r (\<lambda>_.
        Inr (line_out ''Example 1: basic LIFO usage'' @
             line_out (''pop() returned shared_ptr holding: '' @ show_int latest) @
             line_out (''pop(value) copied out: '' @ show_int next_value) @
             line_out (''remaining value: '' @ show_int last_value @ newline))))))"

definition empty_stack_what :: string where
  "empty_stack_what = ''ThreadSafe_Stack is empty''"

text \<open>Another exception than \<open>empty_stack\<close> would pass the handler.\<close>

definition example_exception_handling :: "string result" where
  "example_exception_handling =
     (case ts_pop (ThreadSafe_Stack :: string ts_stack) of
        Inr _ \<Rightarrow> Inr (line_out ''Example 2: handling an empty stack'')
      | Inl Empty_Stack \<Rightarrow>
          Inr (line_out ''Example 2: handling an empty stack'' @
               line_out (''caught empty_stack: '' @ empty_stack_what @ newline))
      | Inl e \<Rightarrow> Inl e)"

text \<open>The values producer \<open>p\<close> pushes, in order.\<close>

definition producer_values :: "nat \<Rightarrow> nat \<Rightarrow> int list" where
  "producer_values per p = (let start = int p * int per + 1 in map (\<lambda>v. start + int v) [0..<per])"

definition producers :: "nat \<Rightarrow> nat \<Rightarrow> int list list" where
  "producers workers per = map (producer_values per) [0..<workers]"

text \<open>
  \<open>while (!values.empty()) { total += *values.pop(); ++count; }\<close> after the joins, for the order
  \<open>sched\<close> in which the pushes took effect. The sums stay far below \<open>2 ^ 31\<close>.
\<close>

definition drain_totals :: "nat \<Rightarrow> int list \<Rightarrow> (int \<times> int) result option" where
  "drain_totals fuel sched =
     (case stack_drain ts_empty ts_pop fuel (fold ts_push sched ThreadSafe_Stack) of
        None \<Rightarrow> None
      | Some (Inl e) \<Rightarrow> Some (Inl e)
      | Some (Inr (vs, _)) \<Rightarrow> Some (Inr (int (length vs), sum_list vs)))"

definition example_multiple_producers :: "int list \<Rightarrow> string result option" where
  "example_multiple_producers sched =
     (case drain_totals 101 sched of
        None \<Rightarrow> None
      | Some (Inl e) \<Rightarrow> Some (Inl e)
      | Some (Inr (cnt, tot)) \<Rightarrow>
          Some (Inr (line_out ''Example 3: multiple threads pushing work items'' @
            line_out (''items pushed: '' @ show_int cnt) @
            line_out (''sum of pushed values: '' @ show_int tot @ newline))))"

definition test_pop_returns_lifo_order :: "unit result" where
  "test_pop_returns_lifo_order =
     (let values = ts_push (3::int) (ts_push 2 (ts_push 1 ThreadSafe_Stack)) in
      bind_result (ts_pop values) (\<lambda>(v, values).
      bind_result (require (v = 3) ''pop() should remove the most recent value'') (\<lambda>_.
      case ts_pop_ref 0 values of (r, nxt, values) \<Rightarrow>
      bind_result r (\<lambda>_.
      bind_result (require (nxt = 2) ''pop(T&) should return the next most recent value'') (\<lambda>_.
      case ts_pop_ref 0 values of (r, final_value, values) \<Rightarrow>
      bind_result r (\<lambda>_.
      bind_result (require (final_value = 1) ''final value should be the oldest pushed item'') (\<lambda>_.
      require (ts_empty values) ''stack should be empty after removing every item'')))))))"

definition test_pop_throws_on_empty :: "unit result" where
  "test_pop_throws_on_empty =
     (case ts_pop (ThreadSafe_Stack :: int ts_stack) of
        Inr _ \<Rightarrow> require False ''pop() should throw empty_stack when the stack is empty''
      | Inl Empty_Stack \<Rightarrow> require True ''pop() should throw empty_stack when the stack is empty''
      | Inl e \<Rightarrow> Inl e)"

definition test_multiple_producers_keep_all_values :: "int list \<Rightarrow> unit result option" where
  "test_multiple_producers_keep_all_values sched =
     (let expected_count = 4 * 100 :: int;
          expected_total = expected_count * (expected_count + 1) div 2 in
      case drain_totals 401 sched of
        None \<Rightarrow> None
      | Some (Inl e) \<Rightarrow> Some (Inl e)
      | Some (Inr (cnt, tot)) \<Rightarrow>
          Some (bind_result (require (cnt = expected_count) ''concurrent pushes should keep every item'') (\<lambda>_.
            require (tot = expected_total) ''concurrent pushes should preserve all values'')))"

definition run_tests :: "int list \<Rightarrow> string result option" where
  "run_tests sched =
     (case bind_result test_pop_returns_lifo_order (\<lambda>_. test_pop_throws_on_empty) of
        Inl e \<Rightarrow> Some (Inl e)
      | Inr _ \<Rightarrow>
          (case test_multiple_producers_keep_all_values sched of
             None \<Rightarrow> None
           | Some (Inl e) \<Rightarrow> Some (Inl e)
           | Some (Inr _) \<Rightarrow> Some (Inr (line_out ''Tests passed: 3/3''))))"

text \<open>
  \<open>main\<close>: what it prints on \<open>std::cout\<close> with its exit code 0, or the exception that makes it 1.
  \<open>sched1\<close> and \<open>sched2\<close> are the orders of the pushes of the example and of the test.
\<close>

definition my_stack_main :: "int list \<Rightarrow> int list \<Rightarrow> string result option" where
  "my_stack_main sched1 sched2 =
     (case bind_result example_basic_usage (\<lambda>a. bind_result example_exception_handling (\<lambda>b. Inr (a @ b))) of
        Inl e \<Rightarrow> Some (Inl e)
      | Inr out \<Rightarrow>
          (case example_multiple_producers sched1 of
             None \<Rightarrow> None
           | Some (Inl e) \<Rightarrow> Some (Inl e)
           | Some (Inr out3) \<Rightarrow>
               (case run_tests sched2 of
                  None \<Rightarrow> None
                | Some (Inl e) \<Rightarrow> Some (Inl e)
                | Some (Inr out4) \<Rightarrow> Some (Inr (out @ out3 @ out4)))))"

section \<open>Producers under any interleaving\<close>

lemma drain_totals_eq:
  assumes "length sched < fuel"
  shows "drain_totals fuel sched = Some (Inr (int (length sched), sum_list sched))"
proof -
  from tss.push_drain [of ThreadSafe_Stack sched fuel] assms obtain s' where
    "stack_drain ts_empty ts_pop fuel (fold ts_push sched ThreadSafe_Stack) = Some (Inr (rev sched, s'))"
    by (auto simp: ThreadSafe_Stack_def)
  then show ?thesis by (simp add: drain_totals_def)
qed

lemma mset_sum_list: "mset xs = mset ys \<Longrightarrow> sum_list xs = sum_list (ys :: int list)"
  by (metis sum_mset_sum_list)

lemma interleaving_totals:
  assumes "interleaving (producers workers per) sched"
  shows "length sched = length (concat (producers workers per)) \<and>
    sum_list sched = sum_list (concat (producers workers per))"
proof -
  have "mset sched = mset (concat (producers workers per))"
    using interleaving_mset [OF assms] interleaving_mset [OF interleaving_concat] by metis
  then show ?thesis using mset_sum_list size_mset by metis
qed

lemma producer_values_block:
  "producer_values per p = map int [p * per + 1..<Suc p * per + 1]"
  by (rule nth_equalityI) (auto simp: producer_values_def Let_def algebra_simps simp del: upt_Suc)

lemma concat_producers: "concat (producers workers per) = map int [1..<workers * per + 1]"
proof (induction workers)
  case 0
  then show ?case by (simp add: producers_def)
next
  case (Suc workers)
  have "[1..<Suc workers * per + 1] = [1..<workers * per + 1] @ [workers * per + 1..<Suc workers * per + 1]"
    using upt_add_eq_append [of 1 "workers * per + 1" per] by (simp add: add_ac del: upt_Suc)
  with Suc show ?case by (simp add: producers_def producer_values_block)
qed

lemma sum_list_upto: "2 * sum_list (map int [1..<n + 1]) = int n * (int n + 1)"
  by (induction n) (auto simp: algebra_simps)
section \<open>Properties\<close>

lemma producers_keep_all_values_totals:
  assumes "interleaving (producers w k) sched" and "w * k < fuel"
  shows "drain_totals fuel sched = Some (Inr (int (w * k), int (w * k) * (int (w * k) + 1) div 2))"
proof -
  have len: "length sched = w * k" and "sum_list sched = sum_list (map int [1..<w * k + 1])"
    using interleaving_totals [OF assms(1)] by (simp_all only: concat_producers) (simp del: upt_Suc)
  then have "2 * sum_list sched = int (w * k) * (int (w * k) + 1)"
    using sum_list_upto [of "w * k"] by simp
  then have "sum_list sched = int (w * k) * (int (w * k) + 1) div 2" by simp
  then show ?thesis using drain_totals_eq [of sched fuel] len assms(2) by simp
qed

text \<open>
  No value is lost or invented, whatever the schedule: if \<open>w\<close> producers each push their \<open>k\<close>
  consecutive integers in any interleaving, then popping until the stack is empty never throws, ends,
  and counts \<open>w * k\<close> items whose sum is that of \<open>1, ..., w * k\<close>.
\<close>

theorem producers_keep_all_values:
  assumes "interleaving (producers w k) sched" and "w * k < fuel"
  shows "drain_totals fuel sched = Some (Inr (int (w * k), int (w * k) * (int (w * k) + 1) div 2))"
  using assms by (rule producers_keep_all_values_totals)

theorem producers_keep_all_values_witness:
  "drain_totals 7 (concat (producers 2 3)) = Some (Inr (6, 21))"
  using producers_keep_all_values [OF interleaving_concat [of "producers 2 3"], of 7] by simp

lemma my_stack_fixed_parts:
  "\<exists>out. bind_result example_basic_usage (\<lambda>a. bind_result example_exception_handling (\<lambda>b. Inr (a @ b))) =
      (Inr out :: string result) \<and>
    bind_result test_pop_returns_lifo_order (\<lambda>_. test_pop_throws_on_empty) = Inr ()"
  by (simp add: example_basic_usage_def example_exception_handling_def test_pop_returns_lifo_order_def
      test_pop_throws_on_empty_def require_def ts_pop_def ts_pop_ref_def ts_push_def ts_empty_def
      ThreadSafe_Stack_def Let_def)

text \<open>
  The program \<open>my_stack\<close> always succeeds: for every order in which the threads of the example
  (4 producers of 25 values) and of the test (4 of 100) run, \<open>main\<close> ends without an exception, with
  the test line last: no \<open>require\<close> fails and no \<open>empty_stack\<close> escapes.
\<close>

theorem my_stack_main_succeeds:
  assumes "interleaving (producers 4 25) sched1" and "interleaving (producers 4 100) sched2"
  shows "\<exists>out. my_stack_main sched1 sched2 = Some (Inr (out @
    line_out ''Example 3: multiple threads pushing work items'' @ line_out ''items pushed: 100'' @
    line_out (''sum of pushed values: 5050'' @ newline) @ line_out ''Tests passed: 3/3''))"
proof -
  obtain out where o: "bind_result example_basic_usage (\<lambda>a. bind_result example_exception_handling
      (\<lambda>b. Inr (a @ b))) = (Inr out :: string result)"
    and t: "bind_result test_pop_returns_lifo_order (\<lambda>_. test_pop_throws_on_empty) = Inr ()"
    using my_stack_fixed_parts by blast
  have "drain_totals 101 sched1 = Some (Inr (100, 5050))"
    using producers_keep_all_values_totals [OF assms(1), of 101] by simp
  moreover have "drain_totals 401 sched2 = Some (Inr (400, 80200))"
    using producers_keep_all_values_totals [OF assms(2), of 401] by simp
  moreover have "show_int 100 = ''100''" "show_int 5050 = ''5050''"
    by (simp_all add: show_simps)
  ultimately show ?thesis
    using o t by (simp add: my_stack_main_def example_multiple_producers_def run_tests_def
        test_multiple_producers_keep_all_values_def Let_def require_def)
qed

theorem my_stack_main_succeeds_witness:
  "\<exists>out. my_stack_main (concat (producers 4 25)) (concat (producers 4 100)) = Some (Inr (out @
    line_out ''Example 3: multiple threads pushing work items'' @ line_out ''items pushed: 100'' @
    line_out (''sum of pushed values: 5050'' @ newline) @ line_out ''Tests passed: 3/3''))"
  by (rule my_stack_main_succeeds) (rule interleaving_concat)+

end
