(* ===== verification/Worker_Pool.thy ===== *)
theory Worker_Pool
  imports Cpp_Prelude
begin

text \<open>
  The programs \<open>concurrency/thread_queue.cpp\<close> and \<open>concurrency/dns.cpp\<close> have the same shape: one
  producer thread pushes jobs into a queue and closes it, several workers run
  \<open>while (auto job = queue.wait_and_pop()) { ... }\<close>. This theory models that shape as a step
  relation over the program counters of the threads, with the condition variable: a worker that
  finds the predicate false goes to sleep in the same step (\<open>wait\<close> releases the mutex and blocks
  atomically), \<open>notify_one\<close> comes after the unlock as a step of its own and wakes one sleeper of
  the scheduler's choice, \<open>notify_all\<close> wakes them all, and a worker may also wake for no reason.

  The queue is an interface: \<open>queue_ops\<close> holds its operations and the locale \<open>blocking_queue\<close> the
  laws they keep. What the threads do with a job is \<open>pool_work\<close>, functions on shared data.
\<close>

section \<open>The interface of the queue\<close>

record ('q, 'a) queue_ops =
  qo_push :: "'a \<Rightarrow> 'q \<Rightarrow> cpp_exn + 'q"
  qo_wait_pop :: "'q \<Rightarrow> ('a option \<times> 'q) option" \<comment> \<open>\<open>None\<close>: the predicate is false, the caller sleeps\<close>
  qo_close :: "'q \<Rightarrow> 'q"

section \<open>Threads\<close>

record ('a, 's) pool_work =
  pw_announce :: "'a \<Rightarrow> 's \<Rightarrow> 's" \<comment> \<open>what the producer does before it pushes a job\<close>
  pw_begin :: "nat \<Rightarrow> 'a \<Rightarrow> 's \<Rightarrow> 's" \<comment> \<open>a worker's first action on a job it took\<close>
  pw_finish :: "nat \<Rightarrow> 'a \<Rightarrow> 's \<Rightarrow> 's" \<comment> \<open>and its last\<close>
  pw_stop :: "nat \<Rightarrow> 's \<Rightarrow> 's" \<comment> \<open>after the loop\<close>

datatype 'a producer_pc =
    P_Next
  | P_Push 'a
  | P_Notify
  | P_Notify_All
  | P_Done
  | P_Threw cpp_exn

datatype 'a worker_pc =
    W_Check
  | W_Asleep
  | W_Got 'a
  | W_Working 'a
  | W_Leaving
  | W_Stopped

record ('q, 'a, 's) pool =
  pl_queue :: 'q
  pl_todo :: "'a list"
  pl_producer :: "'a producer_pc"
  pl_workers :: "'a worker_pc list"
  pl_sink :: 's
  pl_done :: "(nat \<times> 'a) list" \<comment> \<open>history: who finished which job\<close>

definition pool_init :: "'q \<Rightarrow> 'a list \<Rightarrow> nat \<Rightarrow> 's \<Rightarrow> ('q, 'a, 's) pool" where
  "pool_init q jobs n sink = \<lparr>pl_queue = q, pl_todo = jobs, pl_producer = P_Next,
     pl_workers = replicate n W_Check, pl_sink = sink, pl_done = []\<rparr>"

text \<open>The next step of worker \<open>i\<close>; \<open>None\<close> when it cannot run.\<close>

definition worker_next ::
  "('q, 'a) queue_ops \<Rightarrow> ('a, 's) pool_work \<Rightarrow> nat \<Rightarrow> ('q, 'a, 's) pool \<Rightarrow> ('q, 'a, 's) pool option" where
  "worker_next Q W i s =
     (case pl_workers s ! i of
        W_Check \<Rightarrow>
          (case qo_wait_pop Q (pl_queue s) of
             None \<Rightarrow> Some (s\<lparr>pl_workers := (pl_workers s)[i := W_Asleep]\<rparr>)
           | Some (None, q) \<Rightarrow> Some (s\<lparr>pl_queue := q, pl_workers := (pl_workers s)[i := W_Leaving]\<rparr>)
           | Some (Some x, q) \<Rightarrow> Some (s\<lparr>pl_queue := q, pl_workers := (pl_workers s)[i := W_Got x]\<rparr>))
      | W_Asleep \<Rightarrow> None
      | W_Got x \<Rightarrow> Some (s\<lparr>pl_sink := pw_begin W i x (pl_sink s),
          pl_workers := (pl_workers s)[i := W_Working x]\<rparr>)
      | W_Working x \<Rightarrow> Some (s\<lparr>pl_sink := pw_finish W i x (pl_sink s),
          pl_done := pl_done s @ [(i, x)], pl_workers := (pl_workers s)[i := W_Check]\<rparr>)
      | W_Leaving \<Rightarrow> Some (s\<lparr>pl_sink := pw_stop W i (pl_sink s),
          pl_workers := (pl_workers s)[i := W_Stopped]\<rparr>)
      | W_Stopped \<Rightarrow> None)"

text \<open>The next step of the producer, but for the notifications, which involve the workers.\<close>

definition producer_next ::
  "('q, 'a) queue_ops \<Rightarrow> ('a, 's) pool_work \<Rightarrow> ('q, 'a, 's) pool \<Rightarrow> ('q, 'a, 's) pool option" where
  "producer_next Q W s =
     (case pl_producer s of
        P_Next \<Rightarrow>
          (case pl_todo s of
             x # xs \<Rightarrow> Some (s\<lparr>pl_todo := xs, pl_producer := P_Push x, pl_sink := pw_announce W x (pl_sink s)\<rparr>)
           | [] \<Rightarrow> Some (s\<lparr>pl_queue := qo_close Q (pl_queue s), pl_producer := P_Notify_All\<rparr>))
      | P_Push x \<Rightarrow>
          (case qo_push Q x (pl_queue s) of
             Inl e \<Rightarrow> Some (s\<lparr>pl_producer := P_Threw e\<rparr>)
           | Inr q \<Rightarrow> Some (s\<lparr>pl_queue := q, pl_producer := P_Notify\<rparr>))
      | P_Notify_All \<Rightarrow> Some (s\<lparr>pl_producer := P_Done,
          pl_workers := map (\<lambda>pc. if pc = W_Asleep then W_Check else pc) (pl_workers s)\<rparr>)
      | _ \<Rightarrow> None)"

inductive pool_step ::
  "('q, 'a) queue_ops \<Rightarrow> ('a, 's) pool_work \<Rightarrow> ('q, 'a, 's) pool \<Rightarrow> ('q, 'a, 's) pool \<Rightarrow> bool"
  for Q W where
  worker: "i < length (pl_workers s) \<Longrightarrow> worker_next Q W i s = Some s' \<Longrightarrow> pool_step Q W s s'"
| producer: "producer_next Q W s = Some s' \<Longrightarrow> pool_step Q W s s'"
| notify_sleeper: "pl_producer s = P_Notify \<Longrightarrow> i < length (pl_workers s) \<Longrightarrow>
    pl_workers s ! i = W_Asleep \<Longrightarrow>
    pool_step Q W s (s\<lparr>pl_workers := (pl_workers s)[i := W_Check], pl_producer := P_Next\<rparr>)"
| notify_nobody: "pl_producer s = P_Notify \<Longrightarrow> W_Asleep \<notin> set (pl_workers s) \<Longrightarrow>
    pool_step Q W s (s\<lparr>pl_producer := P_Next\<rparr>)"

inductive spurious_wakeup :: "('q, 'a, 's) pool \<Rightarrow> ('q, 'a, 's) pool \<Rightarrow> bool" where
  "i < length (pl_workers s) \<Longrightarrow> pl_workers s ! i = W_Asleep \<Longrightarrow>
    spurious_wakeup s (s\<lparr>pl_workers := (pl_workers s)[i := W_Check]\<rparr>)"

inductive pool_reach ::
  "('q, 'a) queue_ops \<Rightarrow> ('a, 's) pool_work \<Rightarrow> ('q, 'a, 's) pool \<Rightarrow> ('q, 'a, 's) pool \<Rightarrow> bool"
  for Q W s0 where
  start: "pool_reach Q W s0 s0"
| step: "pool_reach Q W s0 s \<Longrightarrow> pool_step Q W s s' \<Longrightarrow> pool_reach Q W s0 s'"
| wakeup: "pool_reach Q W s0 s \<Longrightarrow> spurious_wakeup s s' \<Longrightarrow> pool_reach Q W s0 s'"

text \<open>\<open>pool_run Q W n s s'\<close>: \<open>n\<close> steps, none of them a spurious wake-up.\<close>

inductive pool_run ::
  "('q, 'a) queue_ops \<Rightarrow> ('a, 's) pool_work \<Rightarrow> nat \<Rightarrow> ('q, 'a, 's) pool \<Rightarrow> ('q, 'a, 's) pool \<Rightarrow> bool"
  for Q W where
  run_nil: "pool_run Q W 0 s s"
| run_step: "pool_step Q W s s' \<Longrightarrow> pool_run Q W n s' s'' \<Longrightarrow> pool_run Q W (Suc n) s s''"

text \<open>A scheduler: 0 is the producer, \<open>i + 1\<close> is worker \<open>i\<close>; a notification wakes the first sleeper.\<close>

fun first_asleep :: "'a worker_pc list \<Rightarrow> nat option" where
  "first_asleep [] = None"
| "first_asleep (pc # pcs) = (case pc of W_Asleep \<Rightarrow> Some 0 | _ \<Rightarrow> map_option Suc (first_asleep pcs))"

definition sched_step ::
  "('q, 'a) queue_ops \<Rightarrow> ('a, 's) pool_work \<Rightarrow> nat \<Rightarrow> ('q, 'a, 's) pool \<Rightarrow> ('q, 'a, 's) pool option" where
  "sched_step Q W t s =
     (case t of
        Suc i \<Rightarrow> if i < length (pl_workers s) then worker_next Q W i s else None
      | 0 \<Rightarrow>
          (case pl_producer s of
             P_Notify \<Rightarrow>
               (case first_asleep (pl_workers s) of
                  None \<Rightarrow> Some (s\<lparr>pl_producer := P_Next\<rparr>)
                | Some i \<Rightarrow> Some (s\<lparr>pl_workers := (pl_workers s)[i := W_Check], pl_producer := P_Next\<rparr>))
           | _ \<Rightarrow> producer_next Q W s))"

fun pool_sched ::
  "('q, 'a) queue_ops \<Rightarrow> ('a, 's) pool_work \<Rightarrow> nat list \<Rightarrow> ('q, 'a, 's) pool \<Rightarrow> ('q, 'a, 's) pool option" where
  "pool_sched Q W [] s = Some s"
| "pool_sched Q W (t # ts) s = (case sched_step Q W t s of None \<Rightarrow> None | Some s' \<Rightarrow> pool_sched Q W ts s')"

lemma first_asleep_Some: "first_asleep ws = Some i \<Longrightarrow> i < length ws \<and> ws ! i = W_Asleep"
  by (induction ws arbitrary: i) (auto split: worker_pc.splits)

lemma first_asleep_None: "first_asleep ws = None \<Longrightarrow> W_Asleep \<notin> set ws"
  by (induction ws) (auto split: worker_pc.splits)

lemma sched_step_sound:
  assumes "sched_step Q W t s = Some s'"
  shows "pool_step Q W s s'"
proof (cases t)
  case (Suc i)
  then show ?thesis using assms by (auto simp: sched_step_def intro: pool_step.worker split: if_splits)
next
  case 0
  show ?thesis
  proof (cases "pl_producer s = P_Notify")
    case True
    then show ?thesis using assms 0
      by (auto simp: sched_step_def dest: first_asleep_Some first_asleep_None split: option.splits
          intro: pool_step.notify_sleeper pool_step.notify_nobody)
  next
    case False
    then have "producer_next Q W s = Some s'"
      using assms 0 by (auto simp: sched_step_def split: producer_pc.splits)
    then show ?thesis by (rule pool_step.producer)
  qed
qed

lemma pool_sched_run: "pool_sched Q W ts s = Some s' \<Longrightarrow> pool_run Q W (length ts) s s'"
  by (induction ts arbitrary: s)
     (auto intro: pool_run.intros sched_step_sound split: option.splits)

definition pool_final :: "'a list \<Rightarrow> ('q, 'a, 's) pool \<Rightarrow> bool" where
  "pool_final jobs s \<longleftrightarrow> pl_producer s = P_Done \<and> (\<forall>pc\<in>set (pl_workers s). pc = W_Stopped) \<and>
     mset (map snd (pl_done s)) = mset jobs"

text \<open>The jobs in a thread's hands, and the weights that bound the steps still to come.\<close>

definition worker_hand :: "'a worker_pc \<Rightarrow> 'a multiset" where
  "worker_hand pc = (case pc of W_Got x \<Rightarrow> {#x#} | W_Working x \<Rightarrow> {#x#} | _ \<Rightarrow> {#})"

definition producer_hand :: "'a producer_pc \<Rightarrow> 'a multiset" where
  "producer_hand pc = (case pc of P_Push x \<Rightarrow> {#x#} | _ \<Rightarrow> {#})"

definition worker_weight :: "'a worker_pc \<Rightarrow> nat" where
  "worker_weight pc =
     (case pc of W_Check \<Rightarrow> 3 | W_Asleep \<Rightarrow> 2 | W_Got _ \<Rightarrow> 5 | W_Working _ \<Rightarrow> 4 | W_Leaving \<Rightarrow> 1 | W_Stopped \<Rightarrow> 0)"

definition producer_weight :: "nat \<Rightarrow> 'a producer_pc \<Rightarrow> nat" where
  "producer_weight n pc =
     (case pc of P_Next \<Rightarrow> n + 2 | P_Push _ \<Rightarrow> n + 8 | P_Notify \<Rightarrow> n + 4 | P_Notify_All \<Rightarrow> n + 1
      | P_Done \<Rightarrow> 0 | P_Threw _ \<Rightarrow> 0)"

lemmas pool_weights = worker_hand_def producer_hand_def worker_weight_def producer_weight_def

section \<open>What the interface gives\<close>

locale blocking_queue =
  fixes Q :: "('q, 'a) queue_ops"
    and babs :: "'q \<Rightarrow> 'a list"
    and bclosed :: "'q \<Rightarrow> bool"
  assumes push_open: "\<not> bclosed q \<Longrightarrow>
      \<exists>q'. qo_push Q x q = Inr q' \<and> babs q' = babs q @ [x] \<and> \<not> bclosed q'"
    and wait_cons: "babs q = x # xs \<Longrightarrow>
      \<exists>q'. qo_wait_pop Q q = Some (Some x, q') \<and> babs q' = xs \<and> bclosed q' = bclosed q"
    and wait_closed: "babs q = [] \<Longrightarrow> bclosed q \<Longrightarrow> qo_wait_pop Q q = Some (None, q)"
    and wait_open: "babs q = [] \<Longrightarrow> \<not> bclosed q \<Longrightarrow> qo_wait_pop Q q = None"
    and close_abs: "babs (qo_close Q q) = babs q"
    and close_closed: "bclosed (qo_close Q q)"
begin

definition jobs_in :: "('q, 'a, 's) pool \<Rightarrow> 'a multiset" where
  "jobs_in s = mset (pl_todo s) + producer_hand (pl_producer s) + mset (babs (pl_queue s)) +
     sum_list (map worker_hand (pl_workers s)) + mset (map snd (pl_done s))"

definition weight :: "('q, 'a, 's) pool \<Rightarrow> nat" where
  "weight s = sum_list (map worker_weight (pl_workers s)) + 3 * length (babs (pl_queue s)) +
     7 * length (pl_todo s) + producer_weight (length (pl_workers s)) (pl_producer s)"

text \<open>
  The invariant: every job is somewhere, exactly once; the queue is closed by the producer at its
  end and nowhere else; workers leave only a closed and empty queue; nobody sleeps after
  \<open>notify_all\<close>; and if a job is queued with no notification under way, a worker is awake.
\<close>

definition pool_inv :: "'a list \<Rightarrow> ('q, 'a, 's) pool \<Rightarrow> bool" where
  "pool_inv jobs s \<longleftrightarrow>
     jobs_in s = mset jobs \<and> pl_workers s \<noteq> [] \<and> (\<forall>e. pl_producer s \<noteq> P_Threw e) \<and>
     (bclosed (pl_queue s) \<longleftrightarrow> pl_producer s = P_Notify_All \<or> pl_producer s = P_Done) \<and>
     (bclosed (pl_queue s) \<longrightarrow> pl_todo s = []) \<and>
     (W_Leaving \<in> set (pl_workers s) \<or> W_Stopped \<in> set (pl_workers s) \<longrightarrow>
        bclosed (pl_queue s) \<and> babs (pl_queue s) = []) \<and>
     (pl_producer s = P_Done \<longrightarrow> W_Asleep \<notin> set (pl_workers s)) \<and>
     (babs (pl_queue s) \<noteq> [] \<longrightarrow> pl_producer s \<noteq> P_Notify \<longrightarrow> pl_producer s \<noteq> P_Notify_All \<longrightarrow>
        (\<exists>pc\<in>set (pl_workers s). pc \<noteq> W_Asleep))"

lemma no_hands: "sum_list (map worker_hand (replicate n W_Check)) = {#}"
  by (induction n) (auto simp: worker_hand_def)

lemma no_hands_stopped: "\<forall>pc\<in>set ws. pc = W_Stopped \<Longrightarrow> sum_list (map worker_hand ws) = {#}"
  by (induction ws) (auto simp: worker_hand_def)

lemma init_inv:
  "babs q = [] \<Longrightarrow> \<not> bclosed q \<Longrightarrow> 0 < n \<Longrightarrow> pool_inv jobs (pool_init q jobs n sink)"
  using no_hands by (auto simp: pool_inv_def pool_init_def jobs_in_def producer_hand_def simp del: map_replicate)

lemma wait_pop_cases:
  obtains (take) x xs q' where "babs q = x # xs" "qo_wait_pop Q q = Some (Some x, q')"
      "babs q' = xs" "bclosed q' = bclosed q"
    | (leave) "babs q = []" "bclosed q" "qo_wait_pop Q q = Some (None, q)"
    | (sleep) "babs q = []" "\<not> bclosed q" "qo_wait_pop Q q = None"
proof (cases "babs q")
  case Nil
  show thesis
  proof (cases "bclosed q")
    case True
    then show thesis using leave [OF Nil] wait_closed [OF Nil] by simp
  next
    case False
    then show thesis using sleep [OF Nil] wait_open [OF Nil] by simp
  qed
next
  case (Cons x xs)
  from wait_cons [OF this] show thesis by (elim exE conjE) (rule take [OF Cons], assumption+)
qed

text \<open>Moving worker \<open>i\<close> to the program counter \<open>pc\<close>: what it does to the two sums.\<close>

lemma hand_update:
  "i < length ws \<Longrightarrow> sum_list (map worker_hand (ws[i := pc])) + worker_hand (ws ! i) =
    sum_list (map worker_hand ws) + worker_hand pc"
  by (rule sum_list_map_update)

lemma weight_update:
  "i < length ws \<Longrightarrow> sum_list (map worker_weight (ws[i := pc])) + worker_weight (ws ! i) =
    sum_list (map worker_weight ws) + worker_weight pc"
  by (rule sum_list_map_update)

lemma worker_keeps:
  assumes inv: "pool_inv jobs s" and i: "i < length (pl_workers s)" and n: "worker_next Q W i s = Some s'"
  shows "pool_inv jobs s'"
proof -
  let ?ws = "pl_workers s"
  have old: "W_Leaving \<in> set ?ws \<or> W_Stopped \<in> set ?ws \<Longrightarrow> bclosed (pl_queue s) \<and> babs (pl_queue s) = []"
    using inv unfolding pool_inv_def by blast
  have mem: "pc \<in> set (?ws[i := pc])" for pc using i by (rule set_update_memI)
  have sub: "x \<in> set (?ws[i := pc]) \<Longrightarrow> x = pc \<or> x \<in> set ?ws" for x pc by (rule set_list_update_subset)
  have nth: "?ws ! i \<in> set ?ws" using i by simp
  show ?thesis
  proof (cases "?ws ! i")
    case W_Check
    show ?thesis
    proof (cases rule: wait_pop_cases [of "pl_queue s"])
      case (take x xs q')
      have s': "s' = s\<lparr>pl_queue := q', pl_workers := ?ws[i := W_Got x]\<rparr>"
        using n W_Check take by (simp add: worker_next_def)
      have "jobs_in s' = jobs_in s"
        using hand_update [OF i, of "W_Got x"] W_Check take by (simp add: s' jobs_in_def pool_weights)
      then show ?thesis using inv take old sub mem [of "W_Got x"] i
        by (fastforce simp: s' pool_inv_def)
    next
      case leave
      have s': "s' = s\<lparr>pl_workers := ?ws[i := W_Leaving]\<rparr>"
        using n W_Check leave by (simp add: worker_next_def)
      have "jobs_in s' = jobs_in s"
        using hand_update [OF i, of W_Leaving] W_Check by (simp add: s' jobs_in_def pool_weights)
      then show ?thesis using inv leave sub by (fastforce simp: s' pool_inv_def)
    next
      case sleep
      have s': "s' = s\<lparr>pl_workers := ?ws[i := W_Asleep]\<rparr>"
        using n W_Check sleep by (simp add: worker_next_def)
      have "jobs_in s' = jobs_in s"
        using hand_update [OF i, of W_Asleep] W_Check by (simp add: s' jobs_in_def pool_weights)
      then show ?thesis using inv sleep sub by (fastforce simp: s' pool_inv_def)
    qed
  next
    case (W_Got x)
    have s': "s' = s\<lparr>pl_sink := pw_begin W i x (pl_sink s), pl_workers := ?ws[i := W_Working x]\<rparr>"
      using n W_Got by (simp add: worker_next_def)
    have "jobs_in s' = jobs_in s"
      using hand_update [OF i, of "W_Working x"] W_Got by (simp add: s' jobs_in_def pool_weights)
    then show ?thesis using inv sub mem [of "W_Working x"] by (fastforce simp: s' pool_inv_def)
  next
    case (W_Working x)
    have s': "s' = s\<lparr>pl_sink := pw_finish W i x (pl_sink s), pl_done := pl_done s @ [(i, x)],
        pl_workers := ?ws[i := W_Check]\<rparr>"
      using n W_Working by (simp add: worker_next_def)
    have "jobs_in s' = jobs_in s"
      using hand_update [OF i, of W_Check] W_Working by (simp add: s' jobs_in_def pool_weights add_ac)
    then show ?thesis using inv sub mem [of W_Check] by (fastforce simp: s' pool_inv_def)
  next
    case W_Leaving
    have s': "s' = s\<lparr>pl_sink := pw_stop W i (pl_sink s), pl_workers := ?ws[i := W_Stopped]\<rparr>"
      using n W_Leaving by (simp add: worker_next_def)
    have "jobs_in s' = jobs_in s"
      using hand_update [OF i, of W_Stopped] W_Leaving by (simp add: s' jobs_in_def pool_weights)
    then show ?thesis using inv sub old nth W_Leaving by (fastforce simp: s' pool_inv_def)
  qed (use n in \<open>simp_all add: worker_next_def\<close>)
qed

lemma sum_wake:
  "sum_list (map worker_hand (map (\<lambda>pc. if pc = W_Asleep then W_Check else pc) ws)) = sum_list (map worker_hand ws)"
  by (induction ws) (auto simp: pool_weights)

lemma weight_wake:
  "sum_list (map worker_weight (map (\<lambda>pc. if pc = W_Asleep then W_Check else pc) ws)) \<le>
    sum_list (map worker_weight ws) + length ws"
proof (induction ws)
  case Nil
  then show ?case by simp
next
  case (Cons pc ws)
  have "worker_weight (if pc = W_Asleep then W_Check else pc) \<le> worker_weight pc + 1"
    by (simp add: worker_weight_def)
  with Cons show ?case by (simp del: map_map)
qed

lemma notify_all_keeps:
  assumes "pool_inv jobs s" and "pl_producer s = P_Notify_All"
    and "s' = s\<lparr>pl_producer := P_Done, pl_workers := ws\<rparr>" and "jobs_in s' = jobs_in s"
    and "\<exists>pc\<in>set ws. pc \<noteq> W_Asleep" and "W_Asleep \<notin> set ws"
    and "W_Leaving \<in> set ws \<Longrightarrow> W_Leaving \<in> set (pl_workers s)"
    and "W_Stopped \<in> set ws \<Longrightarrow> W_Stopped \<in> set (pl_workers s)"
  shows "pool_inv jobs s'"
  using assms by (auto simp: pool_inv_def)

lemma producer_keeps:
  assumes inv: "pool_inv jobs s" and n: "producer_next Q W s = Some s'"
  shows "pool_inv jobs s'"
proof (cases "pl_producer s")
  case P_Next
  show ?thesis
  proof (cases "pl_todo s")
    case Nil
    then show ?thesis using inv n P_Next
      by (auto simp: producer_next_def pool_inv_def jobs_in_def pool_weights close_abs close_closed)
  next
    case (Cons x xs)
    then show ?thesis using inv n P_Next
      by (auto simp: producer_next_def pool_inv_def jobs_in_def pool_weights)
  qed
next
  case (P_Push x)
  then have "\<not> bclosed (pl_queue s)" using inv by (simp add: pool_inv_def)
  from push_open [OF this, of x] obtain q' where
    q': "qo_push Q x (pl_queue s) = Inr q'" "babs q' = babs (pl_queue s) @ [x]" "\<not> bclosed q'" by blast
  then show ?thesis using inv n P_Push
    by (auto simp: producer_next_def pool_inv_def jobs_in_def pool_weights)
next
  case P_Notify_All
  let ?wake = "map (\<lambda>pc. if pc = W_Asleep then W_Check else pc) (pl_workers s)"
  have s': "s' = s\<lparr>pl_producer := P_Done, pl_workers := ?wake\<rparr>"
    using n P_Notify_All by (simp add: producer_next_def)
  have "pl_workers s \<noteq> []" using inv by (simp add: pool_inv_def)
  then have "\<exists>pc\<in>set ?wake. pc \<noteq> W_Asleep" by (cases "pl_workers s") auto
  moreover have "jobs_in s' = jobs_in s"
    using P_Notify_All sum_wake [of "pl_workers s"] by (simp add: s' jobs_in_def producer_hand_def del: map_map)
  moreover have "W_Asleep \<notin> set ?wake" "W_Leaving \<in> set ?wake \<Longrightarrow> W_Leaving \<in> set (pl_workers s)"
    "W_Stopped \<in> set ?wake \<Longrightarrow> W_Stopped \<in> set (pl_workers s)"
    by (auto split: if_splits)
  ultimately show ?thesis using notify_all_keeps [OF inv P_Notify_All s'] by blast
qed (use n in \<open>simp_all add: producer_next_def\<close>)

lemma wake_keeps:
  assumes "pool_inv jobs s" and "i < length (pl_workers s)" and "pl_workers s ! i = W_Asleep"
  shows "pool_inv jobs (s\<lparr>pl_workers := (pl_workers s)[i := W_Check]\<rparr>)"
proof -
  have "jobs_in (s\<lparr>pl_workers := (pl_workers s)[i := W_Check]\<rparr>) = jobs_in s"
    using hand_update [OF assms(2), of W_Check] assms(3) by (simp add: jobs_in_def pool_weights)
  then show ?thesis
    using assms set_update_memI [OF assms(2), of W_Check] set_list_update_subset [of _ "pl_workers s" i W_Check]
    by (fastforce simp: pool_inv_def)
qed

lemma notify_keeps:
  assumes "pool_inv jobs s" and "pl_producer s = P_Notify"
    and "babs (pl_queue s) \<noteq> [] \<longrightarrow> (\<exists>pc\<in>set (pl_workers s). pc \<noteq> W_Asleep)"
  shows "pool_inv jobs (s\<lparr>pl_producer := P_Next\<rparr>)"
  using assms by (auto simp: pool_inv_def jobs_in_def pool_weights)

lemma step_keeps:
  assumes "pool_step Q W s s'" and inv: "pool_inv jobs s"
  shows "pool_inv jobs s'"
  using assms(1)
proof cases
  case (worker i)
  then show ?thesis using inv worker_keeps by blast
next
  case producer
  then show ?thesis using inv producer_keeps by blast
next
  case (notify_sleeper i)
  let ?s = "s\<lparr>pl_workers := (pl_workers s)[i := W_Check]\<rparr>"
  have "W_Check \<in> set (pl_workers ?s)" using notify_sleeper by (simp add: set_update_memI)
  then have "\<exists>pc\<in>set (pl_workers ?s). pc \<noteq> W_Asleep" by blast
  with notify_keeps [of jobs ?s] wake_keeps [OF inv notify_sleeper(3,4)] notify_sleeper
  show ?thesis by simp
next
  case notify_nobody
  have "pl_workers s \<noteq> []" using inv by (simp add: pool_inv_def)
  then have "\<exists>pc\<in>set (pl_workers s). pc \<noteq> W_Asleep"
    using notify_nobody(3) by (metis last_in_set)
  with notify_keeps [OF inv notify_nobody(2)] notify_nobody show ?thesis by simp
qed

lemma reach_inv:
  "pool_reach Q W (pool_init q jobs n sink) s \<Longrightarrow> babs q = [] \<Longrightarrow> \<not> bclosed q \<Longrightarrow> 0 < n \<Longrightarrow> pool_inv jobs s"
proof (induction rule: pool_reach.induct)
  case start
  then show ?case by (rule init_inv)
next
  case (step s s')
  then show ?case using step_keeps by blast
next
  case (wakeup s s')
  then have "pool_inv jobs s" by blast
  with wakeup.hyps(2) show ?case by (auto elim!: spurious_wakeup.cases intro: wake_keeps)
qed

text \<open>Every step costs weight, so a run without spurious wake-ups ends.\<close>

lemma worker_costs:
  assumes i: "i < length (pl_workers s)" and n: "worker_next Q W i s = Some s'"
  shows "weight s' < weight s"
proof (cases "pl_workers s ! i")
  case W_Check
  show ?thesis
  proof (cases rule: wait_pop_cases [of "pl_queue s"])
    case (take x xs q')
    then show ?thesis using n W_Check weight_update [OF i, of "W_Got x"]
      by (auto simp: worker_next_def weight_def worker_weight_def)
  next
    case leave
    then show ?thesis using n W_Check weight_update [OF i, of W_Leaving]
      by (auto simp: worker_next_def weight_def worker_weight_def)
  next
    case sleep
    then show ?thesis using n W_Check weight_update [OF i, of W_Asleep]
      by (auto simp: worker_next_def weight_def worker_weight_def)
  qed
next
  case (W_Got x)
  then show ?thesis using n weight_update [OF i, of "W_Working x"]
    by (auto simp: worker_next_def weight_def worker_weight_def)
next
  case (W_Working x)
  then show ?thesis using n weight_update [OF i, of W_Check]
    by (auto simp: worker_next_def weight_def worker_weight_def)
next
  case W_Leaving
  then show ?thesis using n weight_update [OF i, of W_Stopped]
    by (auto simp: worker_next_def weight_def worker_weight_def)
qed (use n in \<open>simp_all add: worker_next_def\<close>)

lemma producer_costs:
  assumes inv: "pool_inv jobs s" and n: "producer_next Q W s = Some s'"
  shows "weight s' < weight s"
proof (cases "pl_producer s")
  case P_Next
  then show ?thesis using n
    by (auto simp: producer_next_def weight_def producer_weight_def close_abs split: list.splits)
next
  case (P_Push x)
  then have "\<not> bclosed (pl_queue s)" using inv by (simp add: pool_inv_def)
  from push_open [OF this, of x] obtain q' where
    "qo_push Q x (pl_queue s) = Inr q'" "babs q' = babs (pl_queue s) @ [x]" by blast
  then show ?thesis using n P_Push by (auto simp: producer_next_def weight_def producer_weight_def)
next
  case P_Notify_All
  have "s' = s\<lparr>pl_producer := P_Done,
      pl_workers := map (\<lambda>pc. if pc = W_Asleep then W_Check else pc) (pl_workers s)\<rparr>"
    using n P_Notify_All by (simp add: producer_next_def)
  then show ?thesis using P_Notify_All weight_wake [of "pl_workers s"]
    by (simp add: weight_def producer_weight_def)
qed (use n in \<open>simp_all add: producer_next_def\<close>)

lemma step_costs: "pool_step Q W s s' \<Longrightarrow> pool_inv jobs s \<Longrightarrow> weight s' < weight s"
proof (induction rule: pool_step.induct)
  case (worker i s s')
  then show ?case using worker_costs by blast
next
  case (producer s s')
  then show ?case using producer_costs by blast
next
  case (notify_sleeper s i)
  then show ?case using weight_update [OF notify_sleeper(2), of W_Check]
    by (simp add: weight_def pool_weights)
next
  case (notify_nobody s)
  then show ?case by (simp add: weight_def pool_weights)
qed

lemma run_inv: "pool_run Q W k s s' \<Longrightarrow> pool_inv jobs s \<Longrightarrow> pool_inv jobs s' \<and> k + weight s' \<le> weight s"
proof (induction rule: pool_run.induct)
  case (run_nil s)
  then show ?case by simp
next
  case (run_step s s' n s'')
  from step_keeps [OF run_step.hyps(1) run_step.prems] step_costs [OF run_step.hyps(1) run_step.prems]
    run_step.IH show ?case by simp
qed

lemma init_weight: "babs q = [] \<Longrightarrow> weight (pool_init q jobs n sink) = 4 * n + 7 * length jobs + 2"
  by (simp add: weight_def pool_init_def pool_weights sum_list_replicate)

text \<open>A state without a step is a final one: there is no deadlock.\<close>

lemma stuck_final:
  assumes inv: "pool_inv jobs s" and stuck: "\<nexists>s'. pool_step Q W s s'"
  shows "pool_final jobs s \<and> babs (pl_queue s) = []"
proof -
  have prod: "pl_producer s = P_Done"
  proof (cases "pl_producer s")
    case P_Next
    then have "\<exists>s'. producer_next Q W s = Some s'" by (simp add: producer_next_def split: list.splits)
    then show ?thesis using stuck pool_step.producer by blast
  next
    case (P_Push x)
    then have "\<exists>s'. producer_next Q W s = Some s'" by (simp add: producer_next_def split: sum.splits)
    then show ?thesis using stuck pool_step.producer by blast
  next
    case P_Notify
    then show ?thesis
      using stuck pool_step.notify_sleeper pool_step.notify_nobody by (metis in_set_conv_nth)
  next
    case P_Notify_All
    then have "\<exists>s'. producer_next Q W s = Some s'" by (simp add: producer_next_def)
    then show ?thesis using stuck pool_step.producer by blast
  qed (use inv in \<open>auto simp: pool_inv_def\<close>)
  have stopped: "pc = W_Stopped" if mem: "pc \<in> set (pl_workers s)" for pc
  proof -
    obtain i where i: "i < length (pl_workers s)" "pl_workers s ! i = pc"
      using mem by (auto simp: in_set_conv_nth)
    have "worker_next Q W i s = None" using stuck pool_step.worker [OF i(1)] by (metis option.exhaust)
    then have "pc = W_Asleep \<or> pc = W_Stopped"
      using i by (auto simp: worker_next_def split: worker_pc.splits option.splits prod.splits)
    then show ?thesis using inv prod mem by (auto simp: pool_inv_def)
  qed
  have "pl_workers s \<noteq> []" using inv by (simp add: pool_inv_def)
  then have "W_Stopped \<in> set (pl_workers s)" using stopped by (metis last_in_set)
  then have empty: "babs (pl_queue s) = []" and "bclosed (pl_queue s)" using inv by (auto simp: pool_inv_def)
  then have todo: "pl_todo s = []" using inv by (simp add: pool_inv_def)
  have "sum_list (map worker_hand (pl_workers s)) = {#}"
    by (rule no_hands_stopped) (use stopped in blast)
  then have "mset (map snd (pl_done s)) = mset jobs"
    using inv prod empty todo by (simp add: pool_inv_def jobs_in_def producer_hand_def)
  then show ?thesis using prod stopped empty by (simp add: pool_final_def)
qed

text \<open>Together: a run from the start has a bounded number of steps, and where it cannot go on, all is done.\<close>

lemma run_ends:
  assumes "babs q = []" and "\<not> bclosed q" and "0 < n"
    and "pool_run Q W k (pool_init q jobs n sink) s"
  shows "k \<le> 4 * n + 7 * length jobs + 2 \<and>
    ((\<nexists>s'. pool_step Q W s s') \<longrightarrow> pool_final jobs s \<and> babs (pl_queue s) = [])"
  using run_inv [OF assms(4) init_inv [OF assms(1-3)]] init_weight [OF assms(1), of jobs n sink] stuck_final
  by auto

end

end
