(* ===== verification/Threadsafe_Queue.thy ===== *)
theory Threadsafe_Queue
  imports Cpp_Interfaces Worker_Pool Threadsafe_Stack
begin

text \<open>
  \<open>concurrency/thread_queue.cpp\<close>: \<open>threadsafe_queue<T>\<close>, a queue with a \<open>closed\<close> flag guarded by one
  mutex and a condition variable, and the print-shop program around it. Each member function holds
  the mutex for its whole effect and is one step here; \<open>wait_and_pop\<close> returns \<open>None\<close> when its
  predicate is false, that is when the caller goes to sleep. The threads of the example are the
  step relation of \<open>Worker_Pool\<close>, with the queue of this theory.
\<close>

section \<open>The queue\<close>

record 'a ts_queue =
  tq_data :: "'a list" \<comment> \<open>\<open>data_queue\<close>, front first\<close>
  tq_closed :: bool

definition threadsafe_queue :: "'a ts_queue" where
  "threadsafe_queue = \<lparr>tq_data = [], tq_closed = False\<rparr>"

definition tq_push :: "'a \<Rightarrow> 'a ts_queue \<Rightarrow> cpp_exn + 'a ts_queue" where
  "tq_push value q =
     (if tq_closed q then Inl (Runtime_Error ''cannot push to a closed queue'')
      else Inr (q\<lparr>tq_data := tq_data q @ [value]\<rparr>))"

definition tq_try_pop :: "'a ts_queue \<Rightarrow> 'a option \<times> 'a ts_queue" where
  "tq_try_pop q =
     (case tq_data q of [] \<Rightarrow> (None, q) | value # rest \<Rightarrow> (Some value, q\<lparr>tq_data := rest\<rparr>))"

definition tq_wait_and_pop :: "'a ts_queue \<Rightarrow> ('a option \<times> 'a ts_queue) option" where
  "tq_wait_and_pop q =
     (if tq_closed q \<or> tq_data q \<noteq> []
      then Some (case tq_data q of [] \<Rightarrow> (None, q) | value # rest \<Rightarrow> (Some value, q\<lparr>tq_data := rest\<rparr>))
      else None)"

definition tq_close :: "'a ts_queue \<Rightarrow> 'a ts_queue" where
  "tq_close q = q\<lparr>tq_closed := True\<rparr>"

definition tq_empty :: "'a ts_queue \<Rightarrow> bool" where
  "tq_empty q \<longleftrightarrow> tq_data q = []"

definition tq_size :: "'a ts_queue \<Rightarrow> nat" where
  "tq_size q = length (tq_data q)"

text \<open>A caller of \<open>push\<close> that learns whether it threw.\<close>

definition tq_offer :: "'a \<Rightarrow> 'a ts_queue \<Rightarrow> bool \<times> 'a ts_queue" where
  "tq_offer x q = (case tq_push x q of Inl _ \<Rightarrow> (False, q) | Inr q' \<Rightarrow> (True, q'))"

interpretation tqq: fifo_queue tq_data "\<lambda>q. True" tq_try_pop "\<lambda>q. \<not> tq_closed q" tq_offer
  by unfold_locales (auto simp: tq_try_pop_def tq_offer_def tq_push_def)

definition tq_ops :: "('a ts_queue, 'a) queue_ops" where
  "tq_ops = \<lparr>qo_push = tq_push, qo_wait_pop = tq_wait_and_pop, qo_close = tq_close\<rparr>"

interpretation tqb: blocking_queue tq_ops tq_data tq_closed
  by unfold_locales (auto simp: tq_ops_def tq_push_def tq_wait_and_pop_def tq_close_def)

section \<open>The print shop\<close>

record print_job =
  pj_id :: int
  pj_document :: string
  pj_pages :: int

record processed_job =
  pr_job_id :: int
  pr_worker_id :: int
  pr_pages :: int

definition build_jobs :: "print_job list" where
  "build_jobs =
     [\<lparr>pj_id = 1, pj_document = ''quarterly-report.pdf'', pj_pages = 8\<rparr>,
      \<lparr>pj_id = 2, pj_document = ''shipping-labels.pdf'', pj_pages = 3\<rparr>,
      \<lparr>pj_id = 3, pj_document = ''team-roadmap.pdf'', pj_pages = 5\<rparr>,
      \<lparr>pj_id = 4, pj_document = ''invoice-1042.pdf'', pj_pages = 2\<rparr>,
      \<lparr>pj_id = 5, pj_document = ''training-handout.pdf'', pj_pages = 6\<rparr>,
      \<lparr>pj_id = 6, pj_document = ''release-checklist.pdf'', pj_pages = 4\<rparr>]"

definition example_try_pop :: "string result" where
  "example_try_pop =
     (case tq_try_pop (threadsafe_queue :: int ts_queue) of (v, numbers) \<Rightarrow>
      bind_result (require (v = None) ''empty queue should not produce a value'') (\<lambda>_.
      bind_result (tq_push 10 numbers) (\<lambda>numbers.
      bind_result (tq_push 20 numbers) (\<lambda>numbers.
      case tq_try_pop numbers of (a, numbers) \<Rightarrow>
      case tq_try_pop numbers of (b, numbers) \<Rightarrow>
      case tq_try_pop numbers of (c, numbers) \<Rightarrow>
      bind_result (require (a = Some 10) ''first pop should return the first pushed value'') (\<lambda>_.
      bind_result (require (b = Some 20) ''second pop should return the second pushed value'') (\<lambda>_.
      bind_result (require (c = None) ''queue should be empty after two pops'') (\<lambda>_.
      bind_result (deref_optional a) (\<lambda>x. bind_result (deref_optional b) (\<lambda>y.
        Inr (line_out ''Example 1: try_pop does not block'' @
          line_out (''popped values: '' @ show_int x @ '', '' @ show_int y @ newline)))))))))))"

text \<open>The data the threads share: the lines \<open>safe_printer\<close> wrote, and \<open>processed\<close>.\<close>

record print_shop =
  ps_printed :: "string list"
  ps_processed :: "processed_job list"

definition shop_print :: "string \<Rightarrow> print_shop \<Rightarrow> print_shop" where
  "shop_print message s = s\<lparr>ps_printed := ps_printed s @ [line_out message]\<rparr>"

definition shop_process :: "nat \<Rightarrow> print_job \<Rightarrow> print_shop \<Rightarrow> print_shop" where
  "shop_process i job s = s\<lparr>ps_processed := ps_processed s @
     [\<lparr>pr_job_id = pj_id job, pr_worker_id = int i + 1, pr_pages = pj_pages job\<rparr>]\<rparr>"

text \<open>The body of \<open>worker_loop\<close> and of the producer's loop; worker \<open>i\<close> has the id \<open>i + 1\<close>.\<close>

definition shop_work :: "(print_job, print_shop) pool_work" where
  "shop_work = \<lparr>pw_announce = \<lambda>job. shop_print (''producer queued '' @ pj_document job),
     pw_begin = \<lambda>i job. shop_print (''worker '' @ show_int (int i + 1) @ '' printing '' @ pj_document job),
     pw_finish = shop_process,
     pw_stop = \<lambda>i. shop_print (''worker '' @ show_int (int i + 1) @ '' stopped'')\<rparr>"

definition shop_init :: "print_job list \<Rightarrow> nat \<Rightarrow> (print_job ts_queue, print_job, print_shop) pool" where
  "shop_init jobs n = pool_init threadsafe_queue jobs n \<lparr>ps_printed = [], ps_processed = []\<rparr>"

text \<open>
  What \<open>example_producer_consumer\<close> does after the joins. Job ids are distinct, so there is one order
  sorted by them and \<open>std::sort\<close> finds it; \<open>total_pages\<close> stays small.
\<close>

definition shop_line :: "processed_job \<Rightarrow> string" where
  "shop_line job = line_out (''  job '' @ show_int (pr_job_id job) @ '' printed by worker '' @
     show_int (pr_worker_id job) @ '' ('' @ show_int (pr_pages job) @ '' pages)'')"

definition shop_report :: "print_shop \<Rightarrow> print_job ts_queue \<Rightarrow> string result" where
  "shop_report s q =
     (let processed = sort_key pr_job_id (ps_processed s);
          total_pages = foldl (\<lambda>total job. total + pr_pages job) 0 processed in
      bind_result (require (length processed = length build_jobs) ''every job should be processed'') (\<lambda>_.
      bind_result (require (total_pages = 28) ''processed jobs should include every page'') (\<lambda>_.
      bind_result (require (tq_empty q) ''queue should be empty after all workers stop'') (\<lambda>_.
        Inr (newline @ line_out ''Processed jobs:'' @ concat (map shop_line processed) @
          line_out (''total pages printed: '' @ show_int total_pages @ newline))))))"

text \<open>\<open>example_close_wakes_waiter\<close>: one waiter on an empty queue that is then closed.\<close>

definition waiter_init :: "(int ts_queue, int, bool) pool" where
  "waiter_init = pool_init threadsafe_queue [] 1 False"

definition waiter_work :: "(int, bool) pool_work" where
  "waiter_work = \<lparr>pw_announce = \<lambda>_ s. s, pw_begin = \<lambda>_ _ s. s, pw_finish = \<lambda>_ _ s. s,
     pw_stop = \<lambda>_ saw_closed_queue. True\<rparr>"

section \<open>The processed jobs\<close>

text \<open>The vector \<open>processed\<close> is the history of finished jobs.\<close>

definition processed_of :: "nat \<times> print_job \<Rightarrow> processed_job" where
  "processed_of p = \<lparr>pr_job_id = pj_id (snd p), pr_worker_id = int (fst p) + 1, pr_pages = pj_pages (snd p)\<rparr>"

lemma shop_processed_step:
  assumes "pool_step Q shop_work s s'" and "ps_processed (pl_sink s) = map processed_of (pl_done s)"
  shows "ps_processed (pl_sink s') = map processed_of (pl_done s')"
  using assms(1)
proof cases
  case (worker i)
  then show ?thesis using assms(2)
    by (auto simp: worker_next_def shop_work_def shop_print_def shop_process_def processed_of_def
        split: worker_pc.splits option.splits prod.splits)
next
  case producer
  then show ?thesis using assms(2)
    by (auto simp: producer_next_def shop_work_def shop_print_def
        split: producer_pc.splits list.splits sum.splits)
qed (use assms(2) in simp_all)

lemma shop_processed_run:
  "pool_run Q shop_work k s s' \<Longrightarrow> ps_processed (pl_sink s) = map processed_of (pl_done s) \<Longrightarrow>
    ps_processed (pl_sink s') = map processed_of (pl_done s')"
  by (induction rule: pool_run.induct) (auto dest: shop_processed_step)

lemma shop_processed_reach:
  "pool_reach Q shop_work s0 s \<Longrightarrow> ps_processed (pl_sink s0) = map processed_of (pl_done s0) \<Longrightarrow>
    ps_processed (pl_sink s) = map processed_of (pl_done s)"
  by (induction rule: pool_reach.induct) (auto dest: shop_processed_step elim: spurious_wakeup.cases)

lemma shop_processed_init: "ps_processed (pl_sink (shop_init jobs n)) = map processed_of (pl_done (shop_init jobs n))"
  by (simp add: shop_init_def pool_init_def)

section \<open>The report\<close>

definition job_key :: "processed_job \<Rightarrow> int \<times> int" where
  "job_key p = (pr_job_id p, pr_pages p)"

definition expected_keys :: "(int \<times> int) list" where
  "expected_keys = map (\<lambda>j. (pj_id j, pj_pages j)) build_jobs"

lemma expected_keys_eq: "expected_keys = [(1, 8), (2, 3), (3, 5), (4, 2), (5, 6), (6, 4)]"
  by (simp add: expected_keys_def build_jobs_def)

lemma sorted_processed:
  assumes "mset (map snd done) = mset build_jobs"
  shows "map job_key (sort_key pr_job_id (map processed_of done)) = expected_keys"
proof -
  let ?ks = "map job_key (sort_key pr_job_id (map processed_of done))"
  have "mset ?ks = image_mset (\<lambda>j. (pj_id j, pj_pages j)) (mset (map snd done))"
    by (simp add: job_key_def processed_of_def multiset.map_comp comp_def)
  then have m: "mset ?ks = mset expected_keys" unfolding assms by (simp add: expected_keys_def)
  have "map fst ?ks = map pr_job_id (sort_key pr_job_id (map processed_of done))"
    by (simp add: job_key_def)
  then have s: "sorted (map fst ?ks)" by (metis sorted_sort_key)
  have "inj_on fst (set ?ks)"
    unfolding mset_eq_setD [OF m] by (simp add: expected_keys_eq)
  then have "sort_key fst expected_keys = ?ks"
    using sort_key_inj_key_eq [OF m [symmetric] _ s] mset_eq_setD [OF m] by simp
  moreover have "sort_key fst expected_keys = expected_keys" by (simp add: expected_keys_eq)
  ultimately show ?thesis by simp
qed

lemma pages_foldl: "foldl (\<lambda>total job. total + pr_pages job) t ps = t + sum_list (map pr_pages ps)"
  by (induction ps arbitrary: t) auto

lemma report_ok:
  assumes "mset (map snd (pl_done s)) = mset build_jobs" and "tq_data (pl_queue s) = []"
    and "ps_processed (pl_sink s) = map processed_of (pl_done s)"
  shows "\<exists>ps. map job_key ps = [(1, 8), (2, 3), (3, 5), (4, 2), (5, 6), (6, 4)] \<and>
    shop_report (pl_sink s) (pl_queue s) = Inr (newline @ line_out ''Processed jobs:'' @
      concat (map shop_line ps) @ line_out (''total pages printed: 28'' @ newline))"
proof -
  let ?ps = "sort_key pr_job_id (ps_processed (pl_sink s))"
  have keys: "map job_key ?ps = expected_keys" using sorted_processed [OF assms(1)] assms(3) by simp
  then have "length ?ps = 6" 
    using arg_cong [OF keys, of length] unfolding length_map expected_keys_eq by simp
  moreover have "map pr_pages ?ps = map snd (map job_key ?ps)" by (simp add: job_key_def)
  then have "sum_list (map pr_pages ?ps) = 28" by (simp add: keys expected_keys_eq del: map_map)
  moreover have "show_int 28 = ''28''" by (simp add: show_simps)
  ultimately show ?thesis
    using assms(2) keys expected_keys_eq
    by (intro exI [of _ ?ps]) (simp add: shop_report_def pages_foldl require_def tq_empty_def build_jobs_def Let_def)
qed

section \<open>The two small examples\<close>

lemma example_try_pop_succeeds: "\<not> isl example_try_pop"
  by code_simp

lemma waiter_step:
  assumes "pool_step Q waiter_work s s'" and "W_Stopped \<in> set (pl_workers s) \<longrightarrow> pl_sink s"
  shows "W_Stopped \<in> set (pl_workers s') \<longrightarrow> pl_sink s'"
  using assms(1)
proof cases
  case (worker i)
  then show ?thesis using assms(2)
    by (auto simp: worker_next_def waiter_work_def dest: set_list_update_subset
        split: worker_pc.splits option.splits prod.splits)
next
  case producer
  then show ?thesis using assms(2)
    by (auto simp: producer_next_def waiter_work_def split: producer_pc.splits list.splits sum.splits if_splits)
qed (use assms(2) in \<open>auto dest: set_list_update_subset\<close>)

lemma waiter_run:
  "pool_run Q waiter_work k s s' \<Longrightarrow> W_Stopped \<in> set (pl_workers s) \<longrightarrow> pl_sink s \<Longrightarrow>
    W_Stopped \<in> set (pl_workers s') \<longrightarrow> pl_sink s'"
  by (induction rule: pool_run.induct) (auto dest: waiter_step)

lemma pool_run_workers: "pool_run Q W k s s' \<Longrightarrow> length (pl_workers s') = length (pl_workers s)"
proof (induction rule: pool_run.induct)
  case (run_step s s' n s'')
  have "length (pl_workers s') = length (pl_workers s)"
    using run_step.hyps(1)
  proof cases
    case (worker i)
    then show ?thesis by (auto simp: worker_next_def split: worker_pc.splits option.splits prod.splits)
  next
    case producer
    then show ?thesis by (auto simp: producer_next_def split: producer_pc.splits list.splits sum.splits)
  qed simp_all
  then show ?case using run_step.IH by simp
qed simp

text \<open>\<open>close\<close> reaches the waiter: where the program cannot go on, \<open>saw_closed_queue\<close> is true.\<close>

lemma waiter_wakes:
  assumes "pool_run tq_ops waiter_work k waiter_init s" and "\<nexists>s'. pool_step tq_ops waiter_work s s'"
  shows "pl_sink s \<and> k \<le> 6"
proof -
  have k: "k \<le> 6" and fin: "pool_final [] s"
    using tqb.run_ends [of threadsafe_queue 1 waiter_work k "[]" False s] assms
    by (simp_all add: waiter_init_def threadsafe_queue_def)
  have "length (pl_workers s) = 1"
    using pool_run_workers [OF assms(1)] by (simp add: waiter_init_def pool_init_def)
  then have "W_Stopped \<in> set (pl_workers s)"
    using fin by (cases "pl_workers s") (auto simp: pool_final_def)
  then show ?thesis
    using waiter_run [OF assms(1)] k by (simp add: waiter_init_def pool_init_def)
qed

section \<open>Properties\<close>

lemma closed_pop: "tq_closed (snd (tq_try_pop q)) = tq_closed q"
  by (simp add: tq_try_pop_def split: list.splits)

lemma closed_run: "tq_closed q \<Longrightarrow> queue_run tq_offer tq_try_pop os q = (ins, outs, q') \<Longrightarrow> ins = []"
proof (induction os arbitrary: q ins outs q')
  case Nil
  then show ?case by simp
next
  case (Cons op os)
  show ?case
  proof (cases op)
    case (Push x)
    have "tq_offer x q = (False, q)" using Cons.prems(1) by (simp add: tq_offer_def tq_push_def)
    then show ?thesis using Cons Push by (auto split: prod.splits)
  next
    case Pop
    have "tq_closed (snd (tq_try_pop q))" using Cons.prems(1) by (simp add: closed_pop)
    then show ?thesis using Cons Pop by (auto split: prod.splits)
  qed
qed

text \<open>
  First in, first out: whatever a client does with a queue (pushes that may be refused because
  it is closed, \<open>try_pop\<close>s that may find nothing), the values it gets are the queued and accepted
  ones in order, and the rest is what the queue still holds.
\<close>

theorem tq_run_fifo:
  assumes "queue_run tq_offer tq_try_pop os q = (ins, outs, q')"
  shows "tq_data q @ ins = outs @ tq_data q' \<and> (tq_closed q \<longrightarrow> ins = [])"
  using tqq.run_fifo [OF TrueI assms] closed_run [of q os ins outs q'] assms by blast

theorem tq_run_fifo_witness:
  "tq_data \<lparr>tq_data = [1::int], tq_closed = False\<rparr> @ [2, 3] =
     [1, 2] @ tq_data \<lparr>tq_data = [3::int], tq_closed = False\<rparr>"
  by (rule tq_run_fifo [where os = "[Push 2, Pop, Pop, Push 3]", THEN conjunct1])
     (simp add: tq_offer_def tq_push_def tq_try_pop_def)

text \<open>
  C12: In every reachable state of the print shop, for any jobs and any number of workers, under any
  schedule and any spurious wake-ups: each job is exactly once with the producer, in the queue, in a
  worker's hands or finished; \<open>push\<close> has not thrown; the vector \<open>processed\<close> is the history of
  finished jobs; and no wake-up is lost: while a job is queued and no notification is on its way,
  some worker is awake.
\<close>

theorem shop_reach_safe:
  assumes "pool_reach tq_ops shop_work (shop_init jobs n) s" and "0 < n"
  shows "mset (pl_todo s) + producer_hand (pl_producer s) + mset (tq_data (pl_queue s)) +
      sum_list (map worker_hand (pl_workers s)) + mset (map snd (pl_done s)) = mset jobs \<and>
    (\<forall>e. pl_producer s \<noteq> P_Threw e) \<and> ps_processed (pl_sink s) = map processed_of (pl_done s) \<and>
    (tq_data (pl_queue s) \<noteq> [] \<longrightarrow> pl_producer s \<noteq> P_Notify \<longrightarrow> pl_producer s \<noteq> P_Notify_All \<longrightarrow>
       (\<exists>pc\<in>set (pl_workers s). pc \<noteq> W_Asleep))"
proof -
  have "tqb.pool_inv jobs s"
    using tqb.reach_inv [OF assms(1) [unfolded shop_init_def]] assms(2) by (simp add: threadsafe_queue_def)
  moreover have "ps_processed (pl_sink s) = map processed_of (pl_done s)"
    using shop_processed_reach [OF assms(1)] shop_processed_init by blast
  ultimately show ?thesis unfolding tqb.pool_inv_def tqb.jobs_in_def by blast
qed

lemma pool_run_reach: "pool_run Q W k s s' \<Longrightarrow> pool_reach Q W s0 s \<Longrightarrow> pool_reach Q W s0 s'"
  by (induction rule: pool_run.induct) (auto intro: pool_reach.step)

definition shop_demo_state :: "(print_job ts_queue, print_job, print_shop) pool" where
  "shop_demo_state =
     the (pool_sched tq_ops shop_work [1, 2, 0, 0, 0, 1, 1, 0, 0, 1, 3] (shop_init (take 2 build_jobs) 3))"

lemma shop_demo_reach: "pool_reach tq_ops shop_work (shop_init (take 2 build_jobs) 3) shop_demo_state"
proof -
  have "\<not> Option.is_none (pool_sched tq_ops shop_work [1, 2, 0, 0, 0, 1, 1, 0, 0, 1, 3]
      (shop_init (take 2 build_jobs) 3))" by code_simp
  then have "pool_sched tq_ops shop_work [1, 2, 0, 0, 0, 1, 1, 0, 0, 1, 3] (shop_init (take 2 build_jobs) 3) =
      Some shop_demo_state" by (simp add: shop_demo_state_def Option.is_none_def)
  from pool_run_reach [OF pool_sched_run [OF this] pool_reach.start] show ?thesis .
qed

theorem shop_reach_safe_witness:
  "(\<forall>e. pl_producer shop_demo_state \<noteq> P_Threw e) \<and> pl_producer shop_demo_state \<noteq> P_Next \<and>
    mset (pl_todo shop_demo_state) + producer_hand (pl_producer shop_demo_state) +
      mset (tq_data (pl_queue shop_demo_state)) + sum_list (map worker_hand (pl_workers shop_demo_state)) +
      mset (map snd (pl_done shop_demo_state)) = mset (take 2 build_jobs)"
proof -
  have "(case pl_producer shop_demo_state of P_Notify \<Rightarrow> True | _ \<Rightarrow> False)" by code_simp
  then have "pl_producer shop_demo_state \<noteq> P_Next" by auto
  then show ?thesis using shop_reach_safe [OF shop_demo_reach] by simp
qed

text \<open>
  C13: The print shop finishes: with at least one worker, a run without spurious wake-ups takes at
  most \<open>4 n + 44\<close> steps, there is no deadlock (a state without a next step is one in which the
  producer and every worker ended), and then the report succeeds: no \<open>require\<close> throws, it lists the
  six jobs in order with their pages, and the total is 28.
\<close>

theorem shop_finishes:
  assumes "pool_run tq_ops shop_work k (shop_init build_jobs n) s" and "0 < n"
  shows "k \<le> 4 * n + 44 \<and>
    ((\<exists>s'. pool_step tq_ops shop_work s s') \<or>
     pl_producer s = P_Done \<and> (\<forall>pc\<in>set (pl_workers s). pc = W_Stopped) \<and>
     (\<exists>ps. map job_key ps = [(1, 8), (2, 3), (3, 5), (4, 2), (5, 6), (6, 4)] \<and>
       shop_report (pl_sink s) (pl_queue s) = Inr (newline @ line_out ''Processed jobs:'' @
         concat (map shop_line ps) @ line_out (''total pages printed: 28'' @ newline))))"
proof -
  have k: "k \<le> 4 * n + 44"
    and fin: "(\<nexists>s'. pool_step tq_ops shop_work s s') \<longrightarrow> pool_final build_jobs s \<and> tq_data (pl_queue s) = []"
    using tqb.run_ends [OF _ _ assms(2) assms(1) [unfolded shop_init_def]]
    by (simp_all add: threadsafe_queue_def build_jobs_def)
  have "ps_processed (pl_sink s) = map processed_of (pl_done s)"
    using shop_processed_run [OF assms(1) shop_processed_init] .
  then show ?thesis using k fin report_ok [of s] by (auto simp: pool_final_def)
qed

definition shop_schedule :: "nat list" where
  "shop_schedule = [1, 0, 0, 0, 1, 1, 1, 0, 0, 0, 1, 1, 1, 0, 0, 0, 1, 1, 1, 0, 0, 0, 1, 1, 1, 0, 0, 0, 1, 1, 1,
     0, 0, 0, 1, 1, 1, 0, 0, 1, 1]"

definition shop_end :: "(print_job ts_queue, print_job, print_shop) pool" where
  "shop_end = the (pool_sched tq_ops shop_work shop_schedule (shop_init build_jobs 1))"

theorem shop_finishes_witness:
  "pool_run tq_ops shop_work (length shop_schedule) (shop_init build_jobs 1) shop_end \<and>
    length shop_schedule \<le> 4 * 1 + 44"
proof -
  have "\<not> Option.is_none (pool_sched tq_ops shop_work shop_schedule (shop_init build_jobs 1))" by code_simp
  then have "pool_sched tq_ops shop_work shop_schedule (shop_init build_jobs 1) = Some shop_end"
    by (simp add: shop_end_def Option.is_none_def)
  from pool_sched_run [OF this]
  have r: "pool_run tq_ops shop_work (length shop_schedule) (shop_init build_jobs 1) shop_end" .
  show ?thesis using r shop_finishes [OF r] by simp
qed

end
