(* ===== verification/Std_Map.thy ===== *)
theory Std_Map
  imports Cpp_Interfaces "HOL-Library.Char_ord" "HOL-Library.List_Lexorder"
begin

text \<open>
  \<open>std::map<K, V>\<close> as the programs use it: the list of its pairs in increasing order of keys, which
  is the order of iteration. Strings are ordered by \<open>List_Lexorder\<close> over \<open>Char_ord\<close>, which is
  \<open>std::string\<close>'s comparison of unsigned characters.
\<close>

type_synonym ('k, 'v) std_map = "('k \<times> 'v) list"

definition om_ok :: "('k :: linorder, 'v) std_map \<Rightarrow> bool" where
  "om_ok m \<longleftrightarrow> sorted_wrt (<) (map fst m)"

text \<open>\<open>m[k] = v\<close>.\<close>

fun om_put :: "'k :: linorder \<Rightarrow> 'v \<Rightarrow> ('k, 'v) std_map \<Rightarrow> ('k, 'v) std_map" where
  "om_put k v [] = [(k, v)]"
| "om_put k v ((j, w) # m) =
     (if k < j then (k, v) # (j, w) # m else if k = j then (k, v) # m else (j, w) # om_put k v m)"

fun om_erase :: "'k :: linorder \<Rightarrow> ('k, 'v) std_map \<Rightarrow> ('k, 'v) std_map" where
  "om_erase k [] = []"
| "om_erase k ((j, w) # m) = (if k = j then m else (j, w) # om_erase k m)"

lemma om_put_keys: "set (map fst (om_put k v m)) = insert k (set (map fst m))"
proof (induction m)
  case (Cons a m)
  then show ?case by (cases a) (simp add: insert_commute split: if_split)
qed simp

lemma om_put_ok: "om_ok m \<Longrightarrow> om_ok (om_put k v m)"
proof (induction m)
  case Nil
  then show ?case by (simp add: om_ok_def)
next
  case (Cons a m)
  obtain j w where a: "a = (j, w)" by (cases a)
  have "\<forall>x\<in>set (map fst (om_put k v m)). x = k \<or> x \<in> set (map fst m)" by (simp only: om_put_keys) blast
  with Cons show ?case by (force simp: a om_ok_def)
qed

lemma om_get_put: "om_ok m \<Longrightarrow> map_of (om_put k v m) = (map_of m)(k \<mapsto> v)"
proof (induction m)
  case Nil
  then show ?case by simp
next
  case (Cons a m)
  obtain j w where a: "a = (j, w)" by (cases a)
  have "om_ok m" using Cons.prems by (simp add: om_ok_def)
  then show ?case using Cons.IH by (auto simp: a fun_eq_iff)
qed

text \<open>Two maps with the same lookups are the same list.\<close>

lemma om_ok_distinct: "om_ok m \<Longrightarrow> distinct (map fst m)"
  by (simp add: om_ok_def strict_sorted_iff)

lemma om_as_map: "om_ok m \<Longrightarrow> map (\<lambda>k. (k, the (map_of m k))) (map fst m) = m"
  by (simp add: comp_def) (rule map_idI, auto simp: om_ok_distinct)

lemma om_eqI:
  assumes "om_ok m" and "om_ok n" and "map_of m = map_of n"
  shows "m = n"
proof -
  have "set (map fst m) = set (map fst n)"
    using assms(3) dom_map_of_conv_image_fst by (metis list.set_map)
  then have "map fst m = map fst n"
    using assms(1,2) strict_sorted_equal unfolding om_ok_def by metis
  then show ?thesis using om_as_map [OF assms(1)] om_as_map [OF assms(2)] assms(3) by metis
qed

text \<open>
  \<open>std::map\<close> as a keyed store.
\<close>

interpretation om: keyed_store map_of om_ok om_put
  by unfold_locales (auto simp: om_get_put om_put_ok)

end
