(* ===== verification/Dns.thy ===== *)
theory Dns
  imports Std_Map Worker_Pool
begin

text \<open>
  \<open>concurrency/dns.cpp\<close>: a cache of domain names behind a \<open>std::shared_mutex\<close>, a work queue with a
  \<open>stopped\<close> flag, and three programs: readers and one writer, futures, and workers fed by a condition
  variable. Members that hold a lock for their whole effect are one step each. The program's threads
  share the cache and the lines \<open>safe_printer\<close> wrote.
\<close>

section \<open>The cache\<close>

record dns_entry =
  ip_address :: string
  ttl_seconds :: int

type_synonym dns_cache = "(string, dns_entry) std_map"

definition show_dns_entry :: "dns_entry \<Rightarrow> string" where
  "show_dns_entry e = ip_address e @ '' (ttl '' @ show_int (ttl_seconds e) @ ''s)''"

definition find_entry :: "dns_cache \<Rightarrow> string \<Rightarrow> dns_entry option" where
  "find_entry entries domain = map_of entries domain"

definition update_or_add_entry :: "string \<Rightarrow> dns_entry \<Rightarrow> dns_cache \<Rightarrow> dns_cache" where
  "update_or_add_entry domain details entries = om_put domain details entries"

definition snapshot :: "dns_cache \<Rightarrow> (string \<times> dns_entry) list" where
  "snapshot entries = entries"

interpretation dnsc: keyed_store find_entry om_ok update_or_add_entry
  unfolding find_entry_def update_or_add_entry_def by (rule om.keyed_store_axioms)

definition fake_dns_lookup :: "string \<Rightarrow> dns_entry" where
  "fake_dns_lookup domain =
     (if domain = ''example.com'' then \<lparr>ip_address = ''93.184.216.34'', ttl_seconds = 300\<rparr>
      else if domain = ''cppreference.com'' then \<lparr>ip_address = ''151.101.193.69'', ttl_seconds = 180\<rparr>
      else if domain = ''openai.com'' then \<lparr>ip_address = ''172.64.154.211'', ttl_seconds = 120\<rparr>
      else if domain = ''ietf.org'' then \<lparr>ip_address = ''104.16.45.99'', ttl_seconds = 240\<rparr>
      else \<lparr>ip_address = ''203.0.113.'' @ show_nat (length domain), ttl_seconds = 60\<rparr>)"

text \<open>The lines written by \<open>print_cache\<close>.\<close>

definition print_cache :: "dns_cache \<Rightarrow> string list" where
  "print_cache cache = line_out ''Cache snapshot:'' #
     map (\<lambda>(domain, e). line_out (''  '' @ domain @ '' -> '' @ show_dns_entry e)) (snapshot cache)"

section \<open>Readers and a writer\<close>

text \<open>
  The atomic actions of \<open>example_shared_mutex\<close>: a lookup into a local variable of the reader, the
  print of its line, an update, a print of the writer.
\<close>

datatype dns_action =
    Lookup nat string
  | Say_Result nat string
  | Update string dns_entry
  | Say string

record dns_demo =
  dd_cache :: dns_cache
  dd_local :: "nat \<Rightarrow> dns_entry option" \<comment> \<open>\<open>result\<close> of each reader\<close>
  dd_lines :: "string list"

definition reader_line :: "nat \<Rightarrow> string \<Rightarrow> dns_entry option \<Rightarrow> string" where
  "reader_line i domain r = line_out (''reader '' @ show_nat i @ '' looked up '' @ domain @ '': '' @
     (case r of Some e \<Rightarrow> show_dns_entry e | None \<Rightarrow> ''not cached''))"

fun dns_act :: "dns_action \<Rightarrow> dns_demo \<Rightarrow> dns_demo" where
  "dns_act (Lookup i domain) s = s\<lparr>dd_local := (dd_local s)(i := find_entry (dd_cache s) domain)\<rparr>"
| "dns_act (Say_Result i domain) s =
     s\<lparr>dd_lines := dd_lines s @ [reader_line i domain (dd_local s i)]\<rparr>"
| "dns_act (Update domain e) s = s\<lparr>dd_cache := update_or_add_entry domain e (dd_cache s)\<rparr>"
| "dns_act (Say m) s = s\<lparr>dd_lines := dd_lines s @ [line_out m]\<rparr>"

definition mutex_domains :: "string list" where
  "mutex_domains = [''example.com'', ''cppreference.com'', ''openai.com'']"

definition reader_actions :: "nat \<Rightarrow> dns_action list" where
  "reader_actions i = concat (map (\<lambda>round.
     let domain = mutex_domains ! ((i + round) mod length mutex_domains)
     in [Lookup i domain, Say_Result i domain]) [0..<5])"

definition writer_actions :: "dns_action list" where
  "writer_actions =
     [Say ''writer refreshing openai.com'',
      Update ''openai.com'' (fake_dns_lookup ''openai.com''),
      Say ''writer changing example.com ttl'',
      Update ''example.com'' \<lparr>ip_address = ''93.184.216.34'', ttl_seconds = 60\<rparr>]"

definition mutex_start :: dns_demo where
  "mutex_start = \<lparr>dd_cache = update_or_add_entry ''cppreference.com'' \<lparr>ip_address = ''151.101.193.69'', ttl_seconds = 180\<rparr>
       (update_or_add_entry ''example.com'' \<lparr>ip_address = ''93.184.216.34'', ttl_seconds = 300\<rparr> []),
     dd_local = (\<lambda>i. None),
     dd_lines = [line_out (newline @ ''Example 1: shared_mutex allows many readers or one writer'')]\<rparr>"

definition mutex_threads :: "dns_action list list" where
  "mutex_threads = writer_actions # map reader_actions [0..<3]"

text \<open>The program for the order \<open>sched\<close> in which the threads' actions happened.\<close>

definition example_shared_mutex :: "dns_action list \<Rightarrow> string list" where
  "example_shared_mutex sched =
     (let s = fold dns_act sched mutex_start in dd_lines s @ print_cache (dd_cache s))"

section \<open>Futures\<close>

text \<open>
  \<open>std::async\<close> runs the pure lookup; \<open>get\<close> is called in the order of the domains.
\<close>

definition future_result :: "string \<Rightarrow> string \<times> dns_entry" where
  "future_result domain = (domain, fake_dns_lookup domain)"

definition collect_futures :: "string list \<Rightarrow> dns_cache \<Rightarrow> dns_cache" where
  "collect_futures domains cache =
     fold (\<lambda>(domain, e). update_or_add_entry domain e) (map future_result domains) cache"

definition cached_line :: "string \<times> dns_entry \<Rightarrow> string" where
  "cached_line p = line_out (''cached '' @ fst p @ '' -> '' @ show_dns_entry (snd p))"

definition futures_domains :: "string list" where
  "futures_domains = [''example.com'', ''cppreference.com'', ''openai.com'', ''ietf.org'']"

definition example_futures :: "string list" where
  "example_futures =
     line_out (newline @ ''Example 2: futures collect results from background work'') #
     map (\<lambda>d. cached_line (future_result d)) futures_domains @
     print_cache (collect_futures futures_domains [])"

section \<open>The work queue\<close>

record dns_work_queue =
  dq_domains :: "string list"
  dq_stopped :: bool

definition dns_queue :: dns_work_queue where
  "dns_queue = \<lparr>dq_domains = [], dq_stopped = False\<rparr>"

text \<open>Unlike \<open>threadsafe_queue\<close>, this \<open>push\<close> does not look at the flag.\<close>

definition dq_push :: "string \<Rightarrow> dns_work_queue \<Rightarrow> dns_work_queue" where
  "dq_push domain q = q\<lparr>dq_domains := dq_domains q @ [domain]\<rparr>"

definition dq_pop :: "dns_work_queue \<Rightarrow> (string option \<times> dns_work_queue) option" where
  "dq_pop q =
     (if dq_stopped q \<or> dq_domains q \<noteq> []
      then Some (case dq_domains q of [] \<Rightarrow> (None, q) | domain # rest \<Rightarrow> (Some domain, q\<lparr>dq_domains := rest\<rparr>))
      else None)"

definition dq_stop :: "dns_work_queue \<Rightarrow> dns_work_queue" where
  "dq_stop q = q\<lparr>dq_stopped := True\<rparr>"

definition dq_ops :: "(dns_work_queue, string) queue_ops" where
  "dq_ops = \<lparr>qo_push = \<lambda>domain q. Inr (dq_push domain q), qo_wait_pop = dq_pop, qo_close = dq_stop\<rparr>"

interpretation dqb: blocking_queue dq_ops dq_domains dq_stopped
  by unfold_locales (auto simp: dq_ops_def dq_push_def dq_pop_def dq_stop_def)

record dns_shop =
  ds_cache :: dns_cache
  ds_lines :: "string list"

definition dns_worker_begin :: "nat \<Rightarrow> string \<Rightarrow> dns_shop \<Rightarrow> dns_shop" where
  "dns_worker_begin i domain s =
     s\<lparr>ds_cache := update_or_add_entry domain (fake_dns_lookup domain) (ds_cache s)\<rparr>"

definition dns_worker_finish :: "nat \<Rightarrow> string \<Rightarrow> dns_shop \<Rightarrow> dns_shop" where
  "dns_worker_finish i domain s = s\<lparr>ds_lines := ds_lines s @
     [line_out (''worker '' @ show_nat (i + 1) @ '' resolved '' @ domain @ '' -> '' @
        show_dns_entry (fake_dns_lookup domain))]\<rparr>"

definition dns_worker_stop :: "nat \<Rightarrow> dns_shop \<Rightarrow> dns_shop" where
  "dns_worker_stop i s = s\<lparr>ds_lines := ds_lines s @ [line_out (''worker '' @ show_nat (i + 1) @ '' stopping'')]\<rparr>"

definition dns_work :: "(string, dns_shop) pool_work" where
  "dns_work = \<lparr>pw_announce = \<lambda>_ s. s, pw_begin = dns_worker_begin, pw_finish = dns_worker_finish,
     pw_stop = dns_worker_stop\<rparr>"

definition dns_domains :: "string list" where
  "dns_domains = [''example.com'', ''cppreference.com'', ''openai.com'', ''ietf.org'', ''learning-concurrency.local'']"

definition dns_pool_init :: "string list \<Rightarrow> nat \<Rightarrow> (dns_work_queue, string, dns_shop) pool" where
  "dns_pool_init domains n = pool_init dns_queue domains n
     \<lparr>ds_cache = [], ds_lines = [line_out (newline @ ''Example 3: condition_variable wakes worker threads'')]\<rparr>"

section \<open>Lookups are cached\<close>

lemma find_collect_futures:
  "om_ok cache \<Longrightarrow> om_ok (collect_futures ds cache) \<and>
    find_entry (collect_futures ds cache) d =
      (if d \<in> set ds then Some (fake_dns_lookup d) else find_entry cache d)"
  unfolding collect_futures_def
  by (induction ds arbitrary: cache)
     (auto simp: future_result_def dnsc.lookup_update dnsc.update_inv)

text \<open>The domains a worker has put into the cache without having finished them.\<close>

definition in_cache_hand :: "string worker_pc \<Rightarrow> string set" where
  "in_cache_hand pc = (case pc of W_Working d \<Rightarrow> {d} | _ \<Rightarrow> {})"

definition dns_inv :: "(dns_work_queue, string, dns_shop) pool \<Rightarrow> bool" where
  "dns_inv s \<longleftrightarrow> om_ok (ds_cache (pl_sink s)) \<and>
     (\<forall>d e. find_entry (ds_cache (pl_sink s)) d = Some e \<longrightarrow> e = fake_dns_lookup d) \<and>
     dom (find_entry (ds_cache (pl_sink s))) =
       set (map snd (pl_done s)) \<union> \<Union> (in_cache_hand ` set (pl_workers s))"


lemma union_update:
  "i < length ws \<Longrightarrow>
    (\<Union>pc\<in>set (ws[i := pc']). f pc) \<union> f (ws ! i) = (\<Union>pc\<in>set ws. f pc) \<union> f pc'"
proof (induction ws arbitrary: i)
  case (Cons pc ws)
  then show ?case by (cases i) (auto split: nat.splits)
qed simp

lemma in_cache_hand_simps [simp]:
  "in_cache_hand W_Check = {}" "in_cache_hand W_Asleep = {}" "in_cache_hand (W_Got d) = {}"
  "in_cache_hand (W_Working d) = {d}" "in_cache_hand W_Leaving = {}" "in_cache_hand W_Stopped = {}"
  by (simp_all add: in_cache_hand_def)

lemma union_keep:
  "i < length ws \<Longrightarrow> f (ws ! i) = {} \<Longrightarrow> f pc' = {} \<Longrightarrow>
    (\<Union>pc\<in>set (ws[i := pc']). f pc) = (\<Union>pc\<in>set ws. f pc)"
  using union_update [of i ws f pc'] by simp

lemma dns_inv_step:
  assumes "pool_step Q dns_work s s'" and inv: "dns_inv s"
  shows "dns_inv s'"
  using assms(1)
proof cases
  case (worker i)
  note upd = union_update [OF worker(1), where f = in_cache_hand]
  show ?thesis
  proof (cases "pl_workers s ! i")
    case W_Check
    then obtain q pc where s': "s' = s\<lparr>pl_queue := q, pl_workers := (pl_workers s)[i := pc]\<rparr>"
      and "in_cache_hand pc = {}"
    proof (cases "qo_wait_pop Q (pl_queue s)")
      case None
      then show thesis using that [of W_Asleep "pl_queue s"] worker(2) W_Check by (simp add: worker_next_def)
    next
      case (Some r)
      then show thesis using that [of "case fst r of None \<Rightarrow> W_Leaving | Some x \<Rightarrow> W_Got x" "snd r"] worker(2) W_Check
        by (auto simp: worker_next_def split: prod.splits option.splits)
    qed
    then show ?thesis using worker(1) W_Check inv by (simp add: dns_inv_def union_keep)
  next
    case (W_Got d)
    have s': "s' = s\<lparr>pl_sink := dns_worker_begin i d (pl_sink s), pl_workers := (pl_workers s)[i := W_Working d]\<rparr>"
      using worker(2) W_Got by (simp add: worker_next_def dns_work_def)
    have "(\<Union>pc\<in>set ((pl_workers s)[i := W_Working d]). in_cache_hand pc) =
        (\<Union>pc\<in>set (pl_workers s). in_cache_hand pc) \<union> {d}"
      using upd [of "W_Working d"] W_Got by (simp add: in_cache_hand_def)
    then show ?thesis using inv
      by (auto simp: s' dns_inv_def dns_worker_begin_def dnsc.lookup_update dnsc.update_inv split: if_splits)
  next
    case (W_Working d)
    have s': "s' = s\<lparr>pl_sink := dns_worker_finish i d (pl_sink s), pl_done := pl_done s @ [(i, d)],
        pl_workers := (pl_workers s)[i := W_Check]\<rparr>"
      using worker(2) W_Working by (simp add: worker_next_def dns_work_def)
    have "(\<Union>pc\<in>set ((pl_workers s)[i := W_Check]). in_cache_hand pc) \<union> {d} =
        (\<Union>pc\<in>set (pl_workers s). in_cache_hand pc)"
      using upd [of W_Check] W_Working by (simp add: in_cache_hand_def)
    then show ?thesis using inv by (auto simp: s' dns_inv_def dns_worker_finish_def)
  next
    case W_Leaving
    have "s' = s\<lparr>pl_sink := dns_worker_stop i (pl_sink s), pl_workers := (pl_workers s)[i := W_Stopped]\<rparr>"
      using worker(2) W_Leaving by (simp add: worker_next_def dns_work_def)
    then show ?thesis using worker(1) W_Leaving inv by (simp add: dns_inv_def union_keep dns_worker_stop_def)
  qed (use worker(2) in \<open>simp_all add: worker_next_def\<close>)
next
  case producer
  have wake: "\<Union> (in_cache_hand ` set (map (\<lambda>pc. if pc = W_Asleep then W_Check else pc) ws)) =
      \<Union> (in_cache_hand ` set ws)" for ws
    by (induction ws) auto
  have "pl_sink s' = pl_sink s \<and> pl_done s' = pl_done s"
    using producer by (auto simp: producer_next_def dns_work_def split: producer_pc.splits list.splits sum.splits)
  moreover have "pl_workers s' = pl_workers s \<or>
      pl_workers s' = map (\<lambda>pc. if pc = W_Asleep then W_Check else pc) (pl_workers s)"
    using producer by (auto simp: producer_next_def split: producer_pc.splits list.splits sum.splits)
  then have "\<Union> (in_cache_hand ` set (pl_workers s')) = \<Union> (in_cache_hand ` set (pl_workers s))"
    by (elim disjE) (simp_all only: wake)
  ultimately show ?thesis using inv unfolding dns_inv_def by simp
next
  case (notify_sleeper i)
  then show ?thesis using inv by (simp add: dns_inv_def union_keep)
next
  case notify_nobody
  then show ?thesis using inv by (simp add: dns_inv_def)
qed

lemma dns_inv_run: "pool_run Q dns_work k s s' \<Longrightarrow> dns_inv s \<Longrightarrow> dns_inv s'"
  by (induction rule: pool_run.induct) (auto dest: dns_inv_step)

lemma dns_inv_init: "dns_inv (dns_pool_init ds n)"
  by (auto simp: dns_inv_def dns_pool_init_def pool_init_def om_ok_def find_entry_def in_cache_hand_def)

lemma dns_cache_final:
  assumes inv: "dns_inv s" and fin: "pool_final ds s"
  shows "ds_cache (pl_sink s) = collect_futures ds []"
proof (rule om_eqI)
  let ?c = "ds_cache (pl_sink s)"
  show "om_ok ?c" using inv by (simp add: dns_inv_def)
  have cf: "om_ok (collect_futures ds []) \<and>
      find_entry (collect_futures ds []) d = (if d \<in> set ds then Some (fake_dns_lookup d) else None)" for d
    using find_collect_futures [of "[]" ds d] by (simp add: om_ok_def find_entry_def)
  then show "om_ok (collect_futures ds [])" by blast
  have "\<Union> (in_cache_hand ` set (pl_workers s)) = {}"
    using fin by (auto simp: pool_final_def in_cache_hand_def)
  moreover have "set (map snd (pl_done s)) = set ds"
    using fin unfolding pool_final_def by (metis set_mset_mset)
  ultimately have d: "dom (find_entry ?c) = set ds" using inv by (simp add: dns_inv_def)
  have "find_entry ?c k = find_entry (collect_futures ds []) k" for k
  proof (cases "k \<in> set ds")
    case True
    then obtain e where "find_entry ?c k = Some e" using d by blast
    then show ?thesis using inv cf True by (auto simp: dns_inv_def)
  next
    case False
    then have "find_entry ?c k = None" using d by blast
    then show ?thesis using cf False by simp
  qed
  then show "map_of ?c = map_of (collect_futures ds [])" by (auto simp: find_entry_def)
qed

section \<open>The cache the writer leaves\<close>

fun updates_of :: "dns_action list \<Rightarrow> (string \<times> dns_entry) list" where
  "updates_of [] = []"
| "updates_of (Update d e # as) = (d, e) # updates_of as"
| "updates_of (_ # as) = updates_of as"

lemma fold_dns_act_cache:
  "dd_cache (fold dns_act as s) = fold (\<lambda>(d, e). update_or_add_entry d e) (updates_of as) (dd_cache s)"
  by (induction as arbitrary: s rule: updates_of.induct) auto

lemma updates_of_append: "updates_of (as @ bs) = updates_of as @ updates_of bs"
  by (induction as rule: updates_of.induct) auto

lemma mset_updates_of: "mset as = mset bs \<Longrightarrow> mset (updates_of as) = mset (updates_of bs)"
proof -
  have f: "mset (updates_of as) = (\<Sum>a\<in>#mset as. case a of Update d e \<Rightarrow> {#(d, e)#} | _ \<Rightarrow> {#})" for as
    by (induction as rule: updates_of.induct) auto
  assume "mset as = mset bs"
  then show ?thesis unfolding f by simp
qed

lemma map_of_mset: "mset xs = mset ys \<Longrightarrow> distinct (map fst xs) \<Longrightarrow> map_of xs = map_of ys"
  by (metis map_of_inject_set mset_eq_imp_distinct_iff mset_map set_mset_mset)

lemma writer_cache:
  assumes "interleaving mutex_threads sched"
  shows "dd_cache (fold dns_act sched mutex_start) =
    fold (\<lambda>(d, e). update_or_add_entry d e) (updates_of writer_actions) (dd_cache mutex_start)" (is "?l = ?r")
proof (rule om_eqI)
  have ok: "om_ok (dd_cache mutex_start)" by (simp add: mutex_start_def update_or_add_entry_def om_put_ok om_ok_def)
  have l: "?l = fold (\<lambda>(d, e). update_or_add_entry d e) (updates_of sched) (dd_cache mutex_start)"
    by (rule fold_dns_act_cache)
  show "om_ok ?l" unfolding l using dnsc.lookup_update_all [OF ok] by blast
  show "om_ok ?r" using dnsc.lookup_update_all [OF ok] by blast
  have "mset sched = mset (concat mutex_threads)"
    using interleaving_mset [OF assms] interleaving_mset [OF interleaving_concat] by metis
  then have "mset (updates_of sched) = mset (updates_of (concat mutex_threads))" by (rule mset_updates_of)
  moreover have "updates_of (concat mutex_threads) = updates_of writer_actions" by code_simp
  ultimately have m: "mset (updates_of writer_actions) = mset (updates_of sched)" by simp
  have "distinct (map fst (rev (updates_of writer_actions)))" by (simp add: writer_actions_def)
  from map_of_mset [of "rev (updates_of writer_actions)" "rev (updates_of sched)", OF _ this] m
  have "map_of (rev (updates_of writer_actions)) = map_of (rev (updates_of sched))" by simp
  then have "find_entry ?l = find_entry ?r" unfolding l using dnsc.lookup_update_all [OF ok] by metis
  then show "map_of ?l = map_of ?r" by (simp add: find_entry_def fun_eq_iff)
qed

section \<open>Properties\<close>

text \<open>
  C19: Concurrent resolution gives the cache of the sequential program. For any domains and any
  number of workers, a run of the worker program without spurious wake-ups is bounded, and where no
  thread can take a step, the producer and the workers have ended and the cache is the one that
  looking the domains up one after the other builds: each domain with its lookup, in order.
\<close>

theorem dns_workers_cache:
  assumes "pool_run dq_ops dns_work k (dns_pool_init ds n) s" and "0 < n"
  shows "k \<le> 4 * n + 7 * length ds + 2 \<and>
    ((\<exists>s'. pool_step dq_ops dns_work s s') \<or>
     pl_producer s = P_Done \<and> (\<forall>pc\<in>set (pl_workers s). pc = W_Stopped) \<and>
     print_cache (ds_cache (pl_sink s)) = print_cache (collect_futures ds []) \<and>
     (\<forall>d. find_entry (ds_cache (pl_sink s)) d = (if d \<in> set ds then Some (fake_dns_lookup d) else None)))"
proof -
  have k: "k \<le> 4 * n + 7 * length ds + 2"
    and fin: "(\<nexists>s'. pool_step dq_ops dns_work s s') \<longrightarrow> pool_final ds s"
    using dqb.run_ends [OF _ _ assms(2) assms(1) [unfolded dns_pool_init_def]] by (simp_all add: dns_queue_def)
  have inv: "dns_inv s" using dns_inv_run [OF assms(1) dns_inv_init] .
  have "find_entry (collect_futures ds []) d = (if d \<in> set ds then Some (fake_dns_lookup d) else None)" for d
    using find_collect_futures [of "[]" ds d] by (simp add: om_ok_def find_entry_def)
  then show ?thesis using k fin dns_cache_final [OF inv] by (auto simp: pool_final_def)
qed

definition dns_schedule :: "nat list" where
  "dns_schedule = [1, 2, 0, 0, 0, 0, 0, 0, 1, 2, 1, 1, 2, 2, 0, 0, 1, 2, 1, 2]"

definition dns_end :: "(dns_work_queue, string, dns_shop) pool" where
  "dns_end = the (pool_sched dq_ops dns_work dns_schedule (dns_pool_init (take 2 dns_domains) 2))"

theorem dns_workers_cache_witness:
  "pool_run dq_ops dns_work 20 (dns_pool_init (take 2 dns_domains) 2) dns_end \<and> 20 \<le> 4 * 2 + 7 * (2 :: nat) + 2"
proof -
  have "\<not> Option.is_none (pool_sched dq_ops dns_work dns_schedule (dns_pool_init (take 2 dns_domains) 2))"
    by code_simp
  then have "pool_sched dq_ops dns_work dns_schedule (dns_pool_init (take 2 dns_domains) 2) = Some dns_end"
    by (simp add: dns_end_def Option.is_none_def)
  from pool_sched_run [OF this]
  have "pool_run dq_ops dns_work (length dns_schedule) (dns_pool_init (take 2 dns_domains) 2) dns_end" .
  moreover have "length dns_schedule = 20" by code_simp
  ultimately have r: "pool_run dq_ops dns_work 20 (dns_pool_init (take 2 dns_domains) 2) dns_end" by simp
  show ?thesis using r dns_workers_cache [OF r] by simp
qed

lemma writer_snapshot:
  "print_cache (fold (\<lambda>(d, e). update_or_add_entry d e) (updates_of writer_actions) (dd_cache mutex_start)) =
    [line_out ''Cache snapshot:'',
     line_out ''  cppreference.com -> 151.101.193.69 (ttl 180s)'',
     line_out ''  example.com -> 93.184.216.34 (ttl 60s)'',
     line_out ''  openai.com -> 172.64.154.211 (ttl 120s)'']"
proof -
  have "fold (\<lambda>(d, e). update_or_add_entry d e) (updates_of writer_actions) (dd_cache mutex_start) =
      [(''cppreference.com'', \<lparr>ip_address = ''151.101.193.69'', ttl_seconds = 180\<rparr>),
       (''example.com'', \<lparr>ip_address = ''93.184.216.34'', ttl_seconds = 60\<rparr>),
       (''openai.com'', \<lparr>ip_address = ''172.64.154.211'', ttl_seconds = 120\<rparr>)]" by code_simp
  moreover have "show_int 180 = ''180''" "show_int 60 = ''60''" "show_int 120 = ''120''"
    by (simp_all add: show_simps)
  ultimately show ?thesis by (simp add: print_cache_def snapshot_def show_dns_entry_def)
qed

text \<open>
  Whatever the interleaving of the three readers and the writer of \<open>example_shared_mutex\<close>, the
  snapshot printed after the joins is the same: the writer's entry for \<open>openai.com\<close>, the changed
  \<open>ttl\<close> of \<open>example.com\<close>, in the order of the domains' names.
\<close>

theorem shared_mutex_snapshot:
  assumes "interleaving mutex_threads sched"
  shows "\<exists>lines. example_shared_mutex sched = lines @
    [line_out ''Cache snapshot:'',
     line_out ''  cppreference.com -> 151.101.193.69 (ttl 180s)'',
     line_out ''  example.com -> 93.184.216.34 (ttl 60s)'',
     line_out ''  openai.com -> 172.64.154.211 (ttl 120s)'']"
  unfolding example_shared_mutex_def Let_def writer_cache [OF assms] writer_snapshot by blast

theorem shared_mutex_snapshot_witness:
  "\<exists>lines. example_shared_mutex (concat mutex_threads) = lines @
    [line_out ''Cache snapshot:'',
     line_out ''  cppreference.com -> 151.101.193.69 (ttl 180s)'',
     line_out ''  example.com -> 93.184.216.34 (ttl 60s)'',
     line_out ''  openai.com -> 172.64.154.211 (ttl 120s)'']"
  by (rule shared_mutex_snapshot) (rule interleaving_concat)

end
