(* ===== verification/Lookup_Table.thy ===== *)
theory Lookup_Table
  imports Cpp_Interfaces
begin

text \<open>
  \<open>concurrency/threadsafe_lookup_table.cpp\<close>: a hash table with a fixed vector of buckets, each a
  linked list of pairs behind a \<open>boost::shared_mutex\<close> of its own. An operation works on one bucket
  under that bucket's lock and is one step here; the vector itself never changes after construction.
  The hash function (\<open>std::hash\<close> by default) is a field of the table, any function to \<open>std::size_t\<close>.
\<close>

section \<open>Buckets\<close>

type_synonym ('k, 'v) bucket = "('k \<times> 'v) list"

text \<open>\<open>find_entry_for\<close>: the position of the first pair with the key, \<open>end()\<close> when there is none.\<close>

fun find_entry_for :: "'k \<Rightarrow> ('k, 'v) bucket \<Rightarrow> nat" where
  "find_entry_for key [] = 0"
| "find_entry_for key (item # data) = (if fst item = key then 0 else Suc (find_entry_for key data))"

definition bucket_value_for :: "'k \<Rightarrow> 'v \<Rightarrow> ('k, 'v) bucket \<Rightarrow> 'v" where
  "bucket_value_for key default_value data =
     (let found = find_entry_for key data
      in if found = length data then default_value else snd (data ! found))"

definition bucket_add_or_update :: "'k \<Rightarrow> 'v \<Rightarrow> ('k, 'v) bucket \<Rightarrow> ('k, 'v) bucket" where
  "bucket_add_or_update key v data =
     (let found = find_entry_for key data
      in if found = length data then data @ [(key, v)]
         else data[found := (fst (data ! found), v)])"

definition bucket_remove :: "'k \<Rightarrow> ('k, 'v) bucket \<Rightarrow> ('k, 'v) bucket" where
  "bucket_remove key data =
     (let found = find_entry_for key data
      in if found \<noteq> length data then take found data @ drop (Suc found) data else data)"

section \<open>The table\<close>

record ('k, 'v) lookup_table =
  lt_buckets :: "('k, 'v) bucket list"
  lt_hasher :: "'k \<Rightarrow> size_t"

definition threadsafe_lookup_table :: "32 word \<Rightarrow> ('k \<Rightarrow> size_t) \<Rightarrow> ('k, 'v) lookup_table result" where
  "threadsafe_lookup_table num_buckets hash =
     (if num_buckets = 0 then Inl (Invalid_Argument ''Number of buckets cannot be zero'')
      else Inr \<lparr>lt_buckets = replicate (unat num_buckets) [], lt_hasher = hash\<rparr>)"

definition bucket_index :: "'k \<Rightarrow> ('k, 'v) lookup_table \<Rightarrow> nat" where
  "bucket_index key t = unat (lt_hasher t key mod of_nat (length (lt_buckets t)))"

definition get_bucket :: "'k \<Rightarrow> ('k, 'v) lookup_table \<Rightarrow> ('k, 'v) bucket" where
  "get_bucket key t = lt_buckets t ! bucket_index key t"

definition set_bucket :: "'k \<Rightarrow> ('k, 'v) bucket \<Rightarrow> ('k, 'v) lookup_table \<Rightarrow> ('k, 'v) lookup_table" where
  "set_bucket key b t = t\<lparr>lt_buckets := (lt_buckets t)[bucket_index key t := b]\<rparr>"

definition value_for :: "'k \<Rightarrow> 'v \<Rightarrow> ('k, 'v) lookup_table \<Rightarrow> 'v" where
  "value_for key default_value t = bucket_value_for key default_value (get_bucket key t)"

definition add_or_update_mapping :: "'k \<Rightarrow> 'v \<Rightarrow> ('k, 'v) lookup_table \<Rightarrow> ('k, 'v) lookup_table" where
  "add_or_update_mapping key v t = set_bucket key (bucket_add_or_update key v (get_bucket key t)) t"

definition remove_mapping :: "'k \<Rightarrow> ('k, 'v) lookup_table \<Rightarrow> ('k, 'v) lookup_table" where
  "remove_mapping key t = set_bucket key (bucket_remove key (get_bucket key t)) t"

section \<open>The program\<close>

text \<open>
  The atomic actions of \<open>main\<close>'s threads: reader \<open>i\<close> calls \<open>value_for("server", "unknown")\<close>, the
  writer stores a status. What the readers saw is recorded in the order of the calls; how their
  lines mix on \<open>std::cout\<close>, which has no lock here, is not modelled.
\<close>

datatype status_action = Read_Status nat | Write_Status string

record status_demo =
  sd_table :: "(string, string) lookup_table"
  sd_seen :: "(nat \<times> string) list"

fun status_act :: "status_action \<Rightarrow> status_demo \<Rightarrow> status_demo" where
  "status_act (Read_Status i) s = s\<lparr>sd_seen := sd_seen s @ [(i, value_for ''server'' ''unknown'' (sd_table s))]\<rparr>"
| "status_act (Write_Status st) s = s\<lparr>sd_table := add_or_update_mapping ''server'' st (sd_table s)\<rparr>"

definition status_threads :: "status_action list list" where
  "status_threads =
     [replicate 5 (Read_Status 1), replicate 5 (Read_Status 2), [Write_Status ''running'', Write_Status ''healthy'']]"

text \<open>\<open>main\<close> for a hash function and a schedule: what was seen, and the final line.\<close>

definition status_main ::
  "(string \<Rightarrow> size_t) \<Rightarrow> status_action list \<Rightarrow> ((nat \<times> string) list \<times> string) result" where
  "status_main hash sched =
     bind_result (threadsafe_lookup_table 19 hash) (\<lambda>t.
       let s = fold status_act sched \<lparr>sd_table = add_or_update_mapping ''server'' ''starting'' t, sd_seen = []\<rparr>
       in Inr (sd_seen s, line_out (''Final status: '' @ value_for ''server'' ''unknown'' (sd_table s))))"

section \<open>Buckets are maps\<close>

lemma find_entry_for_le: "find_entry_for key data \<le> length data"
  by (induction data) auto

lemma find_entry_for_found: "find_entry_for key data \<noteq> length data \<longleftrightarrow> key \<in> fst ` set data"
proof (induction data)
  case (Cons a data)
  then show ?case using find_entry_for_le [of key data] by auto
qed simp

lemma bucket_value_for_map:
  "bucket_value_for key d data = (case map_of data key of None \<Rightarrow> d | Some v \<Rightarrow> v)"
  by (induction data) (auto simp: bucket_value_for_def Let_def)

lemma bucket_add_Cons:
  "bucket_add_or_update key v (item # data) =
    (if fst item = key then (fst item, v) # data else item # bucket_add_or_update key v data)"
  by (simp add: bucket_add_or_update_def Let_def)

lemma bucket_remove_Cons:
  "bucket_remove key (item # data) = (if fst item = key then data else item # bucket_remove key data)"
  by (simp add: bucket_remove_def Let_def)

lemma bucket_add_map: "map_of (bucket_add_or_update key v data) = (map_of data)(key \<mapsto> v)"
  by (induction data) (auto simp: bucket_add_Cons fun_eq_iff, auto simp: bucket_add_or_update_def)

lemma bucket_add_keys: "fst ` set (bucket_add_or_update key v data) = insert key (fst ` set data)"
proof (induction data)
  case (Cons a data)
  then show ?case by (auto simp: bucket_add_Cons)
qed (simp add: bucket_add_or_update_def)

lemma bucket_add_distinct:
  "distinct (map fst data) \<Longrightarrow> distinct (map fst (bucket_add_or_update key v data))"
proof (induction data)
  case (Cons a data)
  then show ?case using bucket_add_keys [of key v data] by (auto simp: bucket_add_Cons)
qed (simp add: bucket_add_or_update_def)

lemma bucket_remove_keys: "fst ` set (bucket_remove key data) \<subseteq> fst ` set data"
  by (induction data) (auto simp: bucket_remove_Cons, auto simp: bucket_remove_def)

lemma bucket_remove_distinct: "distinct (map fst data) \<Longrightarrow> distinct (map fst (bucket_remove key data))"
proof (induction data)
  case (Cons a data)
  then show ?case using bucket_remove_keys [of key data] by (auto simp: bucket_remove_Cons)
qed (simp add: bucket_remove_def)

lemma bucket_remove_map:
  "distinct (map fst data) \<Longrightarrow> map_of (bucket_remove key data) = (map_of data)(key := None)"
proof (induction data)
  case (Cons a data)
  then show ?case
    by (auto simp: bucket_remove_Cons fun_eq_iff map_of_eq_None_iff image_iff)
qed (simp add: bucket_remove_def)

section \<open>The table is a map\<close>

definition lt_ok :: "('k, 'v) lookup_table \<Rightarrow> bool" where
  "lt_ok t \<longleftrightarrow> 0 < length (lt_buckets t) \<and> length (lt_buckets t) < 2 ^ 64 \<and>
     (\<forall>b\<in>set (lt_buckets t). distinct (map fst b))"

definition lt_lookup :: "('k, 'v) lookup_table \<Rightarrow> 'k \<Rightarrow> 'v option" where
  "lt_lookup t key = map_of (get_bucket key t) key"

lemma bucket_index_less: "lt_ok t \<Longrightarrow> bucket_index key t < length (lt_buckets t)"
  by (simp add: lt_ok_def bucket_index_def unat_mod_size_t unat_of_nat_size_t)

lemma get_set_bucket:
  assumes "lt_ok t"
  shows "get_bucket j (set_bucket k b t) = (if bucket_index j t = bucket_index k t then b else get_bucket j t)"
  using bucket_index_less [OF assms, of k] by (auto simp: get_bucket_def set_bucket_def bucket_index_def)

lemma set_bucket_ok: "lt_ok t \<Longrightarrow> distinct (map fst b) \<Longrightarrow> lt_ok (set_bucket k b t)"
  by (auto simp: lt_ok_def set_bucket_def dest: set_list_update_subset)

lemma get_bucket_distinct: "lt_ok t \<Longrightarrow> distinct (map fst (get_bucket k t))"
  using bucket_index_less [of t k] by (simp add: lt_ok_def get_bucket_def)

lemma same_key_bucket: "bucket_index j t \<noteq> bucket_index k t \<Longrightarrow> j \<noteq> k"
  by blast

interpretation ltm: removable_store lt_lookup lt_ok add_or_update_mapping remove_mapping
proof (unfold_locales, goal_cases)
  case (1 t k v)
  then show ?case
    by (auto simp: fun_eq_iff lt_lookup_def add_or_update_mapping_def get_set_bucket bucket_add_map)
       (auto simp: get_bucket_def)
next
  case (2 t k v)
  then show ?case
    by (simp add: add_or_update_mapping_def set_bucket_ok bucket_add_distinct get_bucket_distinct)
next
  case (3 t k)
  then show ?case
    by (auto simp: fun_eq_iff lt_lookup_def remove_mapping_def get_set_bucket bucket_remove_map get_bucket_distinct)
       (auto simp: get_bucket_def)
next
  case (4 t k)
  then show ?case
    by (simp add: remove_mapping_def set_bucket_ok bucket_remove_distinct get_bucket_distinct)
qed

lemma value_for_lookup: "value_for k d t = (case lt_lookup t k of None \<Rightarrow> d | Some v \<Rightarrow> v)"
  by (simp add: value_for_def lt_lookup_def bucket_value_for_map)

lemma new_table_ok:
  assumes "threadsafe_lookup_table n hash = Inr t"
  shows "lt_ok t \<and> lt_lookup t = (\<lambda>_. None)"
proof -
  have t: "t = \<lparr>lt_buckets = replicate (unat n) [], lt_hasher = hash\<rparr>" and n: "n \<noteq> 0"
    using assms by (auto simp: threadsafe_lookup_table_def split: if_splits)
  have "unat n < 2 ^ LENGTH(32)" by (rule unsigned_less)
  then have "unat n < 2 ^ 64" by simp
  then have ok: "lt_ok t" using n by (auto simp: t lt_ok_def unat_gt_0)
  have "get_bucket k t = []" for k using bucket_index_less [OF ok, of k] by (simp add: get_bucket_def t)
  then show ?thesis using ok by (simp add: lt_lookup_def fun_eq_iff)
qed

section \<open>Clients\<close>

datatype ('k, 'v) table_op = T_Put 'k 'v | T_Remove 'k

fun table_act :: "('k, 'v) table_op \<Rightarrow> ('k, 'v) lookup_table \<Rightarrow> ('k, 'v) lookup_table" where
  "table_act (T_Put k v) t = add_or_update_mapping k v t"
| "table_act (T_Remove k) t = remove_mapping k t"

fun map_act :: "('k, 'v) table_op \<Rightarrow> ('k \<Rightarrow> 'v option) \<Rightarrow> ('k \<Rightarrow> 'v option)" where
  "map_act (T_Put k v) m = m(k \<mapsto> v)"
| "map_act (T_Remove k) m = m(k := None)"

lemma table_run:
  "lt_ok t \<Longrightarrow> lt_ok (fold table_act ops t) \<and> lt_lookup (fold table_act ops t) = fold map_act ops (lt_lookup t)"
proof (induction ops arbitrary: t)
  case (Cons op ops)
  have "lt_ok (table_act op t) \<and> lt_lookup (table_act op t) = map_act op (lt_lookup t)"
    using Cons.prems
    by (cases op) (simp_all add: ltm.lookup_update ltm.update_inv ltm.lookup_remove ltm.remove_inv)
  with Cons.IH [of "table_act op t"] show ?case by simp
qed simp

text \<open>The statuses the readers see: the writes split the schedule into segments.\<close>

definition is_write :: "status_action \<Rightarrow> bool" where
  "is_write a = (case a of Write_Status _ \<Rightarrow> True | Read_Status _ \<Rightarrow> False)"

fun readers_of :: "status_action list \<Rightarrow> nat list" where
  "readers_of [] = []"
| "readers_of (Read_Status i # as) = i # readers_of as"
| "readers_of (Write_Status _ # as) = readers_of as"

lemma readers_of_append [simp]: "readers_of (as @ bs) = readers_of as @ readers_of bs"
  by (induction as rule: readers_of.induct) auto

lemma mset_readers_of: "mset (readers_of as) = (\<Sum>a\<in>#mset as. case a of Read_Status i \<Rightarrow> {#i#} | _ \<Rightarrow> {#})"
  by (induction as rule: readers_of.induct) auto

lemma reads_only:
  "filter is_write as = [] \<Longrightarrow> lt_lookup (sd_table s) ''server'' = Some st \<Longrightarrow>
    fold status_act as s = s\<lparr>sd_seen := sd_seen s @ map (\<lambda>i. (i, st)) (readers_of as)\<rparr>"
proof (induction as arbitrary: s rule: readers_of.induct)
  case (2 i as)
  then show ?case by (simp add: value_for_lookup is_write_def)
qed (auto simp: is_write_def)

lemma filter_two:
  assumes "filter P zs = [x, y]"
  shows "\<exists>as bs cs. zs = as @ x # bs @ y # cs \<and> filter P as = [] \<and> filter P bs = [] \<and> filter P cs = []"
proof -
  from assms [unfolded filter_eq_Cons_iff] obtain as ds where
    z: "zs = as @ x # ds" and as: "filter P as = []" and d: "[y] = filter P ds" by auto
  from d [symmetric, unfolded filter_eq_Cons_iff] obtain bs cs where
    "ds = bs @ y # cs" "filter P bs = []" "filter P cs = []" by auto
  with z as show ?thesis by blast
qed

lemma status_run:
  assumes "lt_ok t" and "lt_lookup t ''server'' = Some ''starting''"
    and "filter is_write sched = [Write_Status ''running'', Write_Status ''healthy'']"
  shows "\<exists>as bs cs. readers_of sched = as @ bs @ cs \<and>
    sd_seen (fold status_act sched \<lparr>sd_table = t, sd_seen = []\<rparr>) =
      map (\<lambda>i. (i, ''starting'')) as @ map (\<lambda>i. (i, ''running'')) bs @ map (\<lambda>i. (i, ''healthy'')) cs \<and>
    value_for ''server'' ''unknown'' (sd_table (fold status_act sched \<lparr>sd_table = t, sd_seen = []\<rparr>)) = ''healthy''"
proof -
  obtain as bs cs where s: "sched = as @ Write_Status ''running'' # bs @ Write_Status ''healthy'' # cs"
    and f: "filter is_write as = []" "filter is_write bs = []" "filter is_write cs = []"
    using filter_two [OF assms(3)] by blast
  let ?t1 = "add_or_update_mapping ''server'' ''running'' t"
  let ?t2 = "add_or_update_mapping ''server'' ''healthy'' ?t1"
  have l1: "lt_lookup ?t1 ''server'' = Some ''running''" and ok1: "lt_ok ?t1"
    using assms(1) by (simp_all add: ltm.lookup_update ltm.update_inv)
  have l2: "lt_lookup ?t2 ''server'' = Some ''healthy''"
    using ok1 by (simp add: ltm.lookup_update)
  have run: "fold status_act sched \<lparr>sd_table = t, sd_seen = []\<rparr> =
      \<lparr>sd_table = ?t2, sd_seen = map (\<lambda>i. (i, ''starting'')) (readers_of as) @
        map (\<lambda>i. (i, ''running'')) (readers_of bs) @ map (\<lambda>i. (i, ''healthy'')) (readers_of cs)\<rparr>"
    using reads_only [OF f(1), of "\<lparr>sd_table = t, sd_seen = []\<rparr>"] assms(2)
      reads_only [OF f(2)] l1 reads_only [OF f(3)] l2 by (simp add: s)
  have "readers_of sched = readers_of as @ readers_of bs @ readers_of cs" by (simp add: s)
  then show ?thesis unfolding run using l2 by (auto simp: value_for_lookup)
qed

section \<open>Properties\<close>

text \<open>
  C24: The table is a map, whatever the hash function and the number of buckets: after any sequence
  of \<open>add_or_update_mapping\<close> and \<open>remove_mapping\<close>, \<open>value_for\<close> returns the last value stored and not
  removed since, or the caller's default.
\<close>

theorem table_is_map:
  assumes "threadsafe_lookup_table n hash = Inr t"
  shows "value_for k d (fold table_act ops t) =
    (case fold map_act ops (\<lambda>_. None) k of None \<Rightarrow> d | Some v \<Rightarrow> v)"
  using table_run new_table_ok [OF assms] by (metis value_for_lookup)

theorem table_is_map_witness:
  "value_for (5 :: nat) ''none'' (fold table_act [T_Put 5 ''a'', T_Put 8 ''b'', T_Put 5 ''c'', T_Remove 8]
     \<lparr>lt_buckets = [[], [], []], lt_hasher = of_nat\<rparr>) = ''c''"
proof -
  have "threadsafe_lookup_table 3 (of_nat :: nat \<Rightarrow> size_t) =
      Inr (\<lparr>lt_buckets = [[], [], []], lt_hasher = of_nat\<rparr> :: (nat, string) lookup_table)"
    by (simp add: threadsafe_lookup_table_def) (simp add: numeral_eq_Suc)
  from table_is_map [OF this, of 5 "''none''" "[T_Put 5 ''a'', T_Put 8 ''b'', T_Put 5 ''c'', T_Remove 8]"]
  show ?thesis by simp
qed

text \<open>
  The status program, under every interleaving of its two readers and its writer and for every
  hash function: the ten reads see \<open>starting\<close>, then \<open>running\<close>, then \<open>healthy\<close>, never an older status
  after a newer one and never \<open>unknown\<close>; each reader has its five reads; the last line is
  \<open>Final status: healthy\<close>.
\<close>

theorem status_main_monotone:
  assumes "interleaving status_threads sched"
  shows "\<exists>as bs cs. status_main hash sched =
      Inr (map (\<lambda>i. (i, ''starting'')) as @ map (\<lambda>i. (i, ''running'')) bs @ map (\<lambda>i. (i, ''healthy'')) cs,
           line_out ''Final status: healthy'') \<and>
    mset (as @ bs @ cs) = replicate_mset 5 1 + replicate_mset 5 2"
proof -
  obtain t :: "(string, string) lookup_table" where t: "threadsafe_lookup_table 19 hash = Inr t" by (simp add: threadsafe_lookup_table_def)
  let ?t = "add_or_update_mapping ''server'' ''starting'' t"
  have ok: "lt_ok ?t" "lt_lookup ?t ''server'' = Some ''starting''"
    using new_table_ok [OF t] by (simp_all add: ltm.lookup_update ltm.update_inv)
  have "filter is_write sched = filter is_write (status_threads ! 2)"
    by (rule interleaving_filter_one [OF assms])
       (auto simp: status_threads_def is_write_def less_Suc_eq numeral_eq_Suc)
  then have "filter is_write sched = [Write_Status ''running'', Write_Status ''healthy'']"
    by (simp add: status_threads_def is_write_def)
  from status_run [OF ok this] obtain as bs cs where
    r: "readers_of sched = as @ bs @ cs" and seen: "sd_seen (fold status_act sched \<lparr>sd_table = ?t, sd_seen = []\<rparr>) =
      map (\<lambda>i. (i, ''starting'')) as @ map (\<lambda>i. (i, ''running'')) bs @ map (\<lambda>i. (i, ''healthy'')) cs"
    and v: "value_for ''server'' ''unknown'' (sd_table (fold status_act sched \<lparr>sd_table = ?t, sd_seen = []\<rparr>)) = ''healthy''"
    by blast
  have "mset (readers_of sched) = replicate_mset 5 1 + replicate_mset 5 2"
    unfolding mset_readers_of interleaving_mset [OF assms] by (simp add: status_threads_def numeral_eq_Suc)
  then show ?thesis using r seen v t by (auto simp: status_main_def Let_def)
qed

theorem status_main_monotone_witness:
  "\<exists>as bs cs. status_main (\<lambda>_. 7) (concat status_threads) =
      Inr (map (\<lambda>i. (i, ''starting'')) as @ map (\<lambda>i. (i, ''running'')) bs @ map (\<lambda>i. (i, ''healthy'')) cs,
           line_out ''Final status: healthy'') \<and>
    mset (as @ bs @ cs) = replicate_mset 5 1 + replicate_mset 5 2"
  by (rule status_main_monotone) (rule interleaving_concat)

end
