(* ===== verification/Chat_Protocol.thy ===== *)
theory Chat_Protocol
  imports Cpp_Prelude
begin

text \<open>
  \<open>runboost/chat_protocol.hpp\<close>: the line format of the chat programs, and the reader's side of it,
  \<open>async_read_until(..., '\n')\<close> followed by \<open>std::getline\<close>. \<open>boost::algorithm::trim_right_if\<close>
  removes every trailing character its predicate holds of, \<open>trim\<close> white space at both ends.
\<close>

definition max_line_size :: nat where
  "max_line_size = 4096"

definition line_end :: "char \<Rightarrow> bool" where
  "line_end c \<longleftrightarrow> c = CHR 0x0D \<or> c = CHR 0x0A"

definition trim_right_if :: "(char \<Rightarrow> bool) \<Rightarrow> string \<Rightarrow> string" where
  "trim_right_if p s = rev (dropWhile p (rev s))"

definition is_space :: "char \<Rightarrow> bool" where
  "is_space c \<longleftrightarrow> c \<in> {CHR '' '', CHR 0x09, CHR 0x0A, CHR 0x0B, CHR 0x0C, CHR 0x0D}"

definition trim_spaces :: "string \<Rightarrow> string" where
  "trim_spaces s = dropWhile is_space (trim_right_if is_space s)"

definition trim_wire_line :: "string \<Rightarrow> string" where
  "trim_wire_line line = trim_right_if line_end line"

definition to_wire_line :: "string \<Rightarrow> string" where
  "to_wire_line line = trim_wire_line line @ newline"

definition server_line :: "string \<Rightarrow> string" where
  "server_line line = to_wire_line (''[server] '' @ line)"

section \<open>Reading lines from the stream\<close>

text \<open>
  The stream as the reader sees it: each element is what one \<open>getline\<close> returns, the text up to a
  newline; the part after the last newline stays in the buffer.
\<close>

fun split_lines :: "string \<Rightarrow> string list \<times> string" where
  "split_lines [] = ([], [])"
| "split_lines (c # cs) =
     (case split_lines cs of
        (ls, rest) \<Rightarrow>
          if c = CHR 0x0A then ([] # ls, rest)
          else (case ls of [] \<Rightarrow> ([], c # rest) | l # ls' \<Rightarrow> ((c # l) # ls', rest)))"

definition no_newline :: "string \<Rightarrow> bool" where
  "no_newline s \<longleftrightarrow> CHR 0x0A \<notin> set s"

lemma trim_right_if_append:
  "\<exists>t. s = trim_right_if p s @ t \<and> (\<forall>c\<in>set t. p c)"
proof -
  have "rev s = takeWhile p (rev s) @ dropWhile p (rev s)" by simp
  then have "s = trim_right_if p s @ rev (takeWhile p (rev s))"
    unfolding trim_right_if_def by (metis rev_append rev_rev_ident)
  then show ?thesis using set_takeWhileD by fastforce
qed

lemma set_trim_right_if: "set (trim_right_if p s) \<subseteq> set s"
  using trim_right_if_append [of s p] by (metis Un_upper1 set_append)

lemma trim_right_if_twice [simp]: "trim_right_if p (trim_right_if p s) = trim_right_if p s"
  by (simp add: trim_right_if_def dropWhile_idem)

lemma trim_right_if_end: "p c \<Longrightarrow> trim_right_if p (s @ [c]) = trim_right_if p s"
  by (simp add: trim_right_if_def)

text \<open>The format is a normal form: writing a written line again changes nothing.\<close>

lemma to_wire_line_idem: "to_wire_line (to_wire_line s) = to_wire_line s"
  by (simp add: to_wire_line_def trim_wire_line_def newline_def trim_right_if_end line_end_def)

lemma trim_to_wire_line: "trim_wire_line (to_wire_line s) = trim_wire_line s"
  by (simp add: to_wire_line_def trim_wire_line_def newline_def trim_right_if_end line_end_def)

lemma no_newline_trim: "no_newline s \<Longrightarrow> no_newline (trim_wire_line s)"
  using set_trim_right_if [of line_end s] by (auto simp: no_newline_def trim_wire_line_def)

lemma split_lines_one:
  "no_newline s \<Longrightarrow> split_lines (s @ newline @ rest) = (s # fst (split_lines rest), snd (split_lines rest))"
  by (induction s) (auto simp: newline_def no_newline_def split: prod.splits)

lemma split_lines_none: "no_newline s \<Longrightarrow> split_lines s = ([], s)"
  by (induction s) (auto simp: no_newline_def)

lemma split_wire_lines:
  "\<forall>s\<in>set ss. no_newline s \<Longrightarrow> no_newline rest \<Longrightarrow>
    split_lines (concat (map to_wire_line ss) @ rest) = (map trim_wire_line ss, rest)"
proof (induction ss)
  case Nil
  then show ?case by (simp add: split_lines_none)
next
  case (Cons s ss)
  then show ?case
    using split_lines_one [OF no_newline_trim [of s], of "concat (map to_wire_line ss) @ rest"]
    by (simp add: to_wire_line_def [of s])
qed

section \<open>Trimming\<close>

text \<open>\<open>p\<close> is \<open>l\<close> without the carriage returns and newlines at its end.\<close>

definition stripped :: "string \<Rightarrow> string \<Rightarrow> bool" where
  "stripped l p \<longleftrightarrow> (\<exists>t. l = p @ t \<and> (\<forall>c\<in>set t. line_end c)) \<and> (p \<noteq> [] \<longrightarrow> \<not> line_end (last p))"

lemma trim_stripped: "trim_wire_line l = p \<longleftrightarrow> stripped l p"
proof
  assume p: "trim_wire_line l = p"
  have "\<exists>t. l = p @ t \<and> (\<forall>c\<in>set t. line_end c)"
    using trim_right_if_append [of l line_end] p by (simp add: trim_wire_line_def)
  moreover have "\<not> line_end (last p)" if "p \<noteq> []"
  proof -
    have "dropWhile line_end (rev l) \<noteq> []" "last p = hd (dropWhile line_end (rev l))"
      using p that by (auto simp: trim_wire_line_def trim_right_if_def last_rev)
    then show ?thesis using hd_dropWhile [of line_end "rev l"] by simp
  qed
  ultimately show "stripped l p" by (simp add: stripped_def)
next
  assume "stripped l p"
  then obtain t where t: "l = p @ t" "\<forall>c\<in>set t. line_end c" and last: "p \<noteq> [] \<longrightarrow> \<not> line_end (last p)" by (auto simp: stripped_def)
  have "dropWhile line_end (rev l) = dropWhile line_end (rev p)" using t dropWhile_append2 [of "rev t" line_end "rev p"] by simp
  also have "\<dots> = rev p" using last by (cases p rule: rev_cases) simp_all
  finally show "trim_wire_line l = p" by (simp add: trim_wire_line_def trim_right_if_def)
qed

lemma stripped_self: "p \<noteq> [] \<Longrightarrow> \<not> line_end (last p) \<Longrightarrow> trim_wire_line p = p"
  unfolding trim_stripped stripped_def by (intro conjI exI [of _ "[]"]) simp_all

end
