(* ===== verification/Chat_Server.thy ===== *)
theory Chat_Server
  imports Chat_Protocol
begin

text \<open>
  \<open>runboost/chat_server.cpp\<close>: sessions, the room, and what \<open>do_accept\<close> starts. Boost.Asio is not in
  the repository; the model uses what its documentation promises. A handler posted to a strand runs
  later, after the handlers posted to the same strand before it and never at the same time as
  another handler of that strand; the completion handlers of a session's reads and writes are bound
  to its strand and run at any time after the operation was started. So the program is a sequence of
  events, each running one handler to its end: \<open>chat_do\<close> executes one, and is \<open>None\<close> when the event
  cannot happen in that state. A completion may carry success or an error whenever an operation is
  pending, also after \<open>stop\<close> closed the socket (the operation may have ended before).

  Sessions are numbered by the order of \<open>accept\<close>; the random part of a guest name and the printed
  remote endpoint come with the event. The fields \<open>se_calls\<close>,
  \<open>sv_history\<close> and \<open>sv_joined\<close> record history for the theorems and influence nothing.
\<close>

section \<open>Sessions\<close>

record session =
  se_name :: string
  se_outbox :: "string list"
  se_stopped :: bool
  se_reading :: bool \<comment> \<open>an \<open>async_read_until\<close> is pending\<close>
  se_writing :: "string option" \<comment> \<open>the buffer of the pending \<open>async_write\<close>\<close>
  se_overlap :: bool \<comment> \<open>an \<open>async_write\<close> was started while another was pending\<close>
  se_tasks :: "string list" \<comment> \<open>posted \<open>deliver\<close> handlers\<close>
  se_sent :: "string list" \<comment> \<open>messages written to the peer\<close>
  se_calls :: "string list" \<comment> \<open>history: arguments of \<open>deliver\<close>\<close>

datatype room_task = Join nat string | Leave nat string | Broadcast string

definition new_session :: "string \<Rightarrow> session" where
  "new_session guest = \<lparr>se_name = ''guest-'' @ take 8 guest, se_outbox = [], se_stopped = False,
     se_reading = False, se_writing = None, se_overlap = False, se_tasks = [], se_sent = [],
     se_calls = []\<rparr>"

definition deliver :: "string \<Rightarrow> session \<Rightarrow> session" where
  "deliver message s = s\<lparr>se_tasks := se_tasks s @ [message], se_calls := se_calls s @ [message]\<rparr>"

definition do_write :: "session \<Rightarrow> session" where
  "do_write s =
     (case se_writing s of
        Some _ \<Rightarrow> s\<lparr>se_overlap := True\<rparr>
      | None \<Rightarrow> s\<lparr>se_writing := Some (hd (se_outbox s))\<rparr>)"

text \<open>The posted part of \<open>deliver\<close>.\<close>

definition run_deliver :: "string \<Rightarrow> session \<Rightarrow> session" where
  "run_deliver message s =
     (if se_stopped s then s
      else let write_in_progress = se_outbox s \<noteq> []; s' = s\<lparr>se_outbox := se_outbox s @ [message]\<rparr>
           in if write_in_progress then s' else do_write s')"

definition do_read :: "session \<Rightarrow> session" where
  "do_read s = s\<lparr>se_reading := True\<rparr>"

text \<open>\<open>stop\<close>, with what it posts to the room (closing the socket shows in the events to come).\<close>

definition stop_session :: "nat \<Rightarrow> string \<Rightarrow> session \<Rightarrow> session \<times> room_task list" where
  "stop_session i announcement s =
     (if se_stopped s then (s, []) else (s\<lparr>se_stopped := True\<rparr>, [Leave i announcement]))"

definition name_command :: string where
  "name_command = ''/name ''"

text \<open>\<open>on_read\<close> with an error, and with a line of \<open>length line + 1\<close> bytes.\<close>

definition on_read_error :: "nat \<Rightarrow> session \<Rightarrow> session \<times> room_task list" where
  "on_read_error i s = stop_session i (server_line (se_name s @ '' left'')) s"

definition on_read_line :: "nat \<Rightarrow> string \<Rightarrow> session \<Rightarrow> session \<times> room_task list" where
  "on_read_line i text s =
     (if length text + 1 > max_line_size
      then stop_session i (server_line (se_name s @ '' was disconnected after sending an oversized message''))
             (deliver (server_line ''message too large; closing connection'') s)
      else let line = trim_wire_line text in
        if line = [] then (do_read s, [])
        else if line = ''/quit'' then stop_session i (server_line (se_name s @ '' left'')) s
        else if take (length name_command) line = name_command
        then let new_name = trim_spaces (drop (length name_command) line) in
          if new_name \<noteq> []
          then (do_read (s\<lparr>se_name := new_name\<rparr>),
                [Broadcast (server_line (se_name s @ '' is now '' @ new_name))])
          else (do_read s, [])
        else (do_read s, [Broadcast (to_wire_line (se_name s @ '': '' @ line))]))"

definition on_write_error :: "nat \<Rightarrow> session \<Rightarrow> session \<times> room_task list" where
  "on_write_error i s = stop_session i (server_line (se_name s @ '' left'')) s"

definition on_write_done :: "session \<Rightarrow> session" where
  "on_write_done s =
     (let s' = s\<lparr>se_outbox := tl (se_outbox s)\<rparr>
      in if se_outbox s' \<noteq> [] then do_write s' else s')"

section \<open>The room and the server\<close>

record server =
  sv_sessions :: "nat \<Rightarrow> session option"
  sv_count :: nat \<comment> \<open>sessions accepted so far\<close>
  sv_starting :: "nat list" \<comment> \<open>accepted, \<open>start\<close> not finished\<close>
  sv_members :: "nat list" \<comment> \<open>\<open>sessions_\<close>, in its order\<close>
  sv_posts :: "room_task list" \<comment> \<open>posted to the room's strand\<close>
  sv_log :: "string list"
  sv_history :: "string list" \<comment> \<open>history: arguments of \<open>broadcast_now\<close>\<close>
  sv_joined :: "nat \<Rightarrow> nat" \<comment> \<open>history: its length when a session became a member\<close>

definition server_start :: server where
  "server_start = \<lparr>sv_sessions = (\<lambda>i. None), sv_count = 0, sv_starting = [], sv_members = [],
     sv_posts = [], sv_log = [], sv_history = [], sv_joined = (\<lambda>i. 0)\<rparr>"

text \<open>\<open>for (const auto& session : sessions_) session->deliver(message);\<close>\<close>

definition deliver_all :: "nat list \<Rightarrow> string \<Rightarrow> (nat \<Rightarrow> session option) \<Rightarrow> (nat \<Rightarrow> session option)" where
  "deliver_all members message ss =
     (\<lambda>i. if i \<in> set members then map_option (deliver message) (ss i) else ss i)"

definition broadcast_now :: "string \<Rightarrow> server \<Rightarrow> server" where
  "broadcast_now message sv =
     (let log_line = trim_wire_line message in
      sv\<lparr>sv_log := (if log_line \<noteq> [] then sv_log sv @ [line_out log_line] else sv_log sv),
        sv_sessions := deliver_all (sv_members sv) message (sv_sessions sv),
        sv_history := sv_history sv @ [message]\<rparr>)"

fun run_room_task :: "room_task \<Rightarrow> server \<Rightarrow> server" where
  "run_room_task (Join i announcement) sv =
     broadcast_now announcement
       (sv\<lparr>sv_members := List.insert i (sv_members sv), sv_joined := (sv_joined sv)(i := length (sv_history sv))\<rparr>)"
| "run_room_task (Leave i announcement) sv =
     (let sv' = sv\<lparr>sv_members := removeAll i (sv_members sv)\<rparr> in
      if i \<in> set (sv_members sv) \<and> announcement \<noteq> [] then broadcast_now announcement sv' else sv')"
| "run_room_task (Broadcast message) sv = broadcast_now message sv"

section \<open>Events\<close>

datatype chat_event =
    Accept string string \<comment> \<open>text of the UUID, printed remote endpoint\<close>
  | Greet nat
  | Room_Task
  | Deliver_Task nat
  | Read_Line nat string
  | Read_Error nat
  | Write_Done nat
  | Write_Error nat

definition update_session :: "nat \<Rightarrow> session \<times> room_task list \<Rightarrow> server \<Rightarrow> server" where
  "update_session i r sv = sv\<lparr>sv_sessions := (sv_sessions sv)(i \<mapsto> fst r), sv_posts := sv_posts sv @ snd r\<rparr>"

text \<open>
  \<open>start\<close> runs outside the strands: between \<open>room_.join\<close> (in \<open>Accept\<close>) and \<open>deliver\<close> and \<open>do_read\<close>
  (in \<open>Greet\<close>) the room may run.
\<close>

fun chat_do :: "chat_event \<Rightarrow> server \<Rightarrow> server option" where
  "chat_do (Accept guest remote) sv =
     (let i = sv_count sv; s = new_session guest in
      Some (update_session i (s, [Join i (server_line (se_name s @ '' joined from '' @ remote))])
        (sv\<lparr>sv_count := Suc i, sv_starting := sv_starting sv @ [i]\<rparr>)))"
| "chat_do (Greet i) sv =
     (case sv_sessions sv i of
        Some s \<Rightarrow>
          if i \<in> set (sv_starting sv)
          then Some (update_session i (do_read (deliver (server_line
                 (''connected as '' @ se_name s @ ''. Commands: /name <name>, /quit'')) s), [])
                 (sv\<lparr>sv_starting := remove1 i (sv_starting sv)\<rparr>))
          else None
      | None \<Rightarrow> None)"
| "chat_do Room_Task sv =
     (case sv_posts sv of [] \<Rightarrow> None | t # ts \<Rightarrow> Some (run_room_task t (sv\<lparr>sv_posts := ts\<rparr>)))"
| "chat_do (Deliver_Task i) sv =
     (case sv_sessions sv i of
        Some s \<Rightarrow>
          (case se_tasks s of
             [] \<Rightarrow> None
           | m # ms \<Rightarrow> Some (update_session i (run_deliver m (s\<lparr>se_tasks := ms\<rparr>), []) sv))
      | None \<Rightarrow> None)"
| "chat_do (Read_Line i text) sv =
     (case sv_sessions sv i of
        Some s \<Rightarrow>
          if se_reading s then Some (update_session i (on_read_line i text (s\<lparr>se_reading := False\<rparr>)) sv)
          else None
      | None \<Rightarrow> None)"
| "chat_do (Read_Error i) sv =
     (case sv_sessions sv i of
        Some s \<Rightarrow>
          if se_reading s then Some (update_session i (on_read_error i (s\<lparr>se_reading := False\<rparr>)) sv) else None
      | None \<Rightarrow> None)"
| "chat_do (Write_Done i) sv =
     (case sv_sessions sv i of
        Some s \<Rightarrow>
          (case se_writing s of
             None \<Rightarrow> None
           | Some m \<Rightarrow> Some (update_session i
               (on_write_done (s\<lparr>se_writing := None, se_sent := se_sent s @ [m]\<rparr>), []) sv))
      | None \<Rightarrow> None)"
| "chat_do (Write_Error i) sv =
     (case sv_sessions sv i of
        Some s \<Rightarrow>
          (case se_writing s of
             None \<Rightarrow> None
           | Some m \<Rightarrow> Some (update_session i (on_write_error i (s\<lparr>se_writing := None\<rparr>)) sv))
      | None \<Rightarrow> None)"

fun chat_run :: "chat_event list \<Rightarrow> server \<Rightarrow> server option" where
  "chat_run [] sv = Some sv"
| "chat_run (e # es) sv = (case chat_do e sv of None \<Rightarrow> None | Some sv' \<Rightarrow> chat_run es sv')"

section \<open>What an event does to one session\<close>

inductive session_move :: "session \<Rightarrow> session \<Rightarrow> bool" where
  stay: "session_move s s"
| hears: "session_move s (deliver m s)"
| greeted: "session_move s (do_read (deliver m s))"
| task: "se_tasks s = m # ms \<Longrightarrow> session_move s (run_deliver m (s\<lparr>se_tasks := ms\<rparr>))"
| line_read: "session_move s (fst (on_read_line i t (s\<lparr>se_reading := False\<rparr>)))"
| read_failed: "session_move s (fst (on_read_error i (s\<lparr>se_reading := False\<rparr>)))"
| written: "se_writing s = Some m \<Longrightarrow>
    session_move s (on_write_done (s\<lparr>se_writing := None, se_sent := se_sent s @ [m]\<rparr>))"
| write_failed: "se_writing s = Some m \<Longrightarrow> session_move s (fst (on_write_error i (s\<lparr>se_writing := None\<rparr>)))"

lemma broadcast_sessions:
  "sv_sessions (broadcast_now m sv) j =
    (if j \<in> set (sv_members sv) then map_option (deliver m) (sv_sessions sv j) else sv_sessions sv j)"
  by (simp add: broadcast_now_def Let_def deliver_all_def)

lemma broadcast_fields [simp]:
  "sv_count (broadcast_now m sv) = sv_count sv" "sv_starting (broadcast_now m sv) = sv_starting sv"
  "sv_members (broadcast_now m sv) = sv_members sv" "sv_posts (broadcast_now m sv) = sv_posts sv"
  "sv_history (broadcast_now m sv) = sv_history sv @ [m]" "sv_joined (broadcast_now m sv) = sv_joined sv"
  by (simp_all add: broadcast_now_def Let_def)

lemma broadcast_moves:
  "sv_sessions (broadcast_now m sv) j = Some s' \<Longrightarrow> \<exists>s. sv_sessions sv j = Some s \<and> session_move s s'"
  by (auto simp: broadcast_sessions intro: session_move.intros split: if_splits)

lemma room_task_moves:
  "sv_sessions (run_room_task t sv) j = Some s' \<Longrightarrow> \<exists>s. sv_sessions sv j = Some s \<and> session_move s s'"
  by (cases t) (auto simp: Let_def dest!: broadcast_moves intro: session_move.stay split: if_splits)

lemma chat_do_moves:
  assumes "chat_do e sv = Some sv'" and "sv_sessions sv' j = Some s'"
  shows "(\<exists>guest. s' = new_session guest) \<or> (\<exists>s. sv_sessions sv j = Some s \<and> session_move s s')"
proof (cases e)
  case Room_Task
  then obtain t ts where "sv_posts sv = t # ts" "sv' = run_room_task t (sv\<lparr>sv_posts := ts\<rparr>)"
    using assms(1) by (auto split: list.splits)
  then show ?thesis using room_task_moves [of t "sv\<lparr>sv_posts := ts\<rparr>" j s'] assms(2) by simp
qed (use assms in \<open>auto simp: update_session_def Let_def intro: session_move.intros
       split: option.splits if_splits list.splits\<close>)

section \<open>One session\<close>

text \<open>
  At most one write is in flight, it writes the front of the outbox, it exists whenever the outbox
  is not empty and the session runs; what was sent, what waits in the outbox and what waits in the
  strand are the messages \<open>deliver\<close> was called with, in that order.
\<close>

definition session_ok :: "session \<Rightarrow> bool" where
  "session_ok s \<longleftrightarrow> \<not> se_overlap s \<and>
     (\<forall>m. se_writing s = Some m \<longrightarrow> se_outbox s \<noteq> [] \<and> hd (se_outbox s) = m) \<and>
     (\<not> se_stopped s \<longrightarrow> se_outbox s \<noteq> [] \<longrightarrow> se_writing s \<noteq> None) \<and>
     (\<exists>r. se_calls s = se_sent s @ se_outbox s @ r \<and> (\<not> se_stopped s \<longrightarrow> r = se_tasks s))"

lemma new_session_ok: "session_ok (new_session guest)"
  by (simp add: session_ok_def new_session_def)

lemma deliver_ok: "session_ok s \<Longrightarrow> session_ok (deliver m s)"
  by (auto simp: session_ok_def deliver_def)

lemma stop_session_ok: "session_ok s \<Longrightarrow> session_ok (fst (stop_session i a s))"
  by (auto simp: session_ok_def stop_session_def)

lemma reading_ok: "session_ok (s\<lparr>se_reading := b\<rparr>) = session_ok s"
  by (simp add: session_ok_def)

lemma name_ok: "session_ok (s\<lparr>se_name := n\<rparr>) = session_ok s"
  by (simp add: session_ok_def)

lemma do_read_ok: "session_ok (do_read s) = session_ok s"
  by (simp add: session_ok_def do_read_def)

lemma run_deliver_ok: "session_ok s \<Longrightarrow> se_tasks s = m # ms \<Longrightarrow> session_ok (run_deliver m (s\<lparr>se_tasks := ms\<rparr>))"
  by (auto simp: session_ok_def run_deliver_def do_write_def Let_def split: option.splits)

lemma on_write_done_ok:
  "session_ok s \<Longrightarrow> se_writing s = Some m \<Longrightarrow>
    session_ok (on_write_done (s\<lparr>se_writing := None, se_sent := se_sent s @ [m]\<rparr>))"
  by (cases "se_outbox s") (auto simp: session_ok_def on_write_done_def do_write_def Let_def)

lemma on_write_error_ok:
  "session_ok s \<Longrightarrow> session_ok (fst (on_write_error i (s\<lparr>se_writing := None\<rparr>)))"
  by (auto simp: session_ok_def on_write_error_def stop_session_def)

lemma on_read_line_ok: "session_ok s \<Longrightarrow> session_ok (fst (on_read_line i t s))"
  by (auto simp: on_read_line_def Let_def do_read_ok name_ok intro!: stop_session_ok deliver_ok)

lemma move_ok: "session_move s s' \<Longrightarrow> session_ok s \<Longrightarrow> session_ok s'"
  by (induction rule: session_move.induct)
     (auto simp: do_read_ok reading_ok on_read_error_def
       intro: deliver_ok run_deliver_ok on_read_line_ok stop_session_ok on_write_done_ok on_write_error_ok)

text \<open>A stopped session writes no new message.\<close>

definition frozen :: "string list \<Rightarrow> session \<Rightarrow> bool" where
  "frozen ms s \<longleftrightarrow> se_stopped s \<and> se_sent s @ se_outbox s = ms"

lemma move_frozen: "session_move s s' \<Longrightarrow> session_ok s \<Longrightarrow> frozen ms s \<Longrightarrow> frozen ms s'"
proof (induction rule: session_move.induct)
  case (written s m)
  then show ?case
    by (cases "se_outbox s") (auto simp: session_ok_def frozen_def on_write_done_def do_write_def Let_def)
qed (auto simp: frozen_def deliver_def do_read_def run_deliver_def on_read_line_def
       on_read_error_def on_write_error_def stop_session_def Let_def)

section \<open>The room\<close>

fun join_ids :: "room_task list \<Rightarrow> nat list" where
  "join_ids [] = []"
| "join_ids (Join i _ # ts) = i # join_ids ts"
| "join_ids (_ # ts) = join_ids ts"

lemma join_ids_append [simp]: "join_ids (ts @ us) = join_ids ts @ join_ids us"
  by (induction ts rule: join_ids.induct) auto

text \<open>The members once the posted tasks have run.\<close>

fun members_after :: "room_task list \<Rightarrow> nat set \<Rightarrow> nat set" where
  "members_after [] M = M"
| "members_after (Join i _ # ts) M = members_after ts (insert i M)"
| "members_after (Leave i _ # ts) M = members_after ts (M - {i})"
| "members_after (Broadcast _ # ts) M = members_after ts M"

lemma members_after_append: "members_after (ts @ us) M = members_after us (members_after ts M)"
  by (induction ts M rule: members_after.induct) auto

definition live :: "server \<Rightarrow> nat set" where
  "live sv = {i. \<exists>s. sv_sessions sv i = Some s \<and> \<not> se_stopped s}"

text \<open>
  What a running session was given: the broadcasts since it joined, with the greeting somewhere among them once
  \<open>start\<close> has come to it.
\<close>

definition greeting :: "string \<Rightarrow> string" where
  "greeting name = server_line (''connected as '' @ name @ ''. Commands: /name <name>, /quit'')"

definition broadcasts_to :: "server \<Rightarrow> nat \<Rightarrow> string list" where
  "broadcasts_to sv i = (if i \<in> set (sv_members sv) then drop (sv_joined sv i) (sv_history sv) else [])"

definition calls_ok :: "server \<Rightarrow> nat \<Rightarrow> session \<Rightarrow> bool" where
  "calls_ok sv i s \<longleftrightarrow> se_stopped s \<or> (\<exists>before greet after. se_calls s = before @ greet @ after \<and>
     before @ after = broadcasts_to sv i \<and> (if i \<in> set (sv_starting sv) then greet = [] else \<exists>name. greet = [greeting name]))"

definition server_inv :: "server \<Rightarrow> bool" where
  "server_inv sv \<longleftrightarrow>
     (\<forall>i s. sv_sessions sv i = Some s \<longrightarrow> session_ok s \<and> i < sv_count sv \<and> calls_ok sv i s) \<and>
     members_after (sv_posts sv) (set (sv_members sv)) = live sv \<and>
     distinct (join_ids (sv_posts sv)) \<and>
     (\<forall>i\<in>set (join_ids (sv_posts sv)). i < sv_count sv \<and> i \<notin> set (sv_members sv)) \<and>
     (\<forall>i\<in>set (sv_members sv). i < sv_count sv \<and> sv_joined sv i \<le> length (sv_history sv)) \<and>
     distinct (sv_starting sv) \<and> (\<forall>i\<in>set (sv_starting sv). i < sv_count sv)"

text \<open>A handler of session \<open>i\<close>: it posts broadcasts, or it stops the session and posts its \<open>Leave\<close>.\<close>

definition handler_posts :: "nat \<Rightarrow> session \<Rightarrow> session \<times> room_task list \<Rightarrow> bool" where
  "handler_posts i s r \<longleftrightarrow> (\<not> se_stopped (fst r) \<longrightarrow> se_calls (fst r) = se_calls s) \<and>
     ((se_stopped (fst r) = se_stopped s \<and> (\<forall>t\<in>set (snd r). \<exists>m. t = Broadcast m)) \<or>
      (\<not> se_stopped s \<and> se_stopped (fst r) \<and> (\<exists>a. snd r = [Leave i a])))"

lemma broadcasts_only:
  "\<forall>t\<in>set ts. \<exists>m. t = Broadcast m \<Longrightarrow> join_ids ts = [] \<and> members_after ts M = M"
  by (induction ts) auto

lemma stop_session_posts: "se_calls s' = se_calls s \<Longrightarrow> se_stopped s' = se_stopped s \<Longrightarrow>
    handler_posts i s (stop_session i a s')"
  by (auto simp: handler_posts_def stop_session_def)

lemma on_read_line_posts: "handler_posts i s (on_read_line i t (s\<lparr>se_reading := b\<rparr>))"
  unfolding on_read_line_def Let_def
  by (auto simp: handler_posts_def do_read_def deliver_def stop_session_def)

lemma quiet_handler: "se_calls s' = se_calls s \<Longrightarrow> se_stopped s' = se_stopped s \<Longrightarrow> handler_posts i s (s', [])"
  by (simp add: handler_posts_def)

lemma server_invD:
  assumes "server_inv sv"
  shows "sv_sessions sv i = Some s \<Longrightarrow> session_ok s" "sv_sessions sv i = Some s \<Longrightarrow> i < sv_count sv"
    "sv_sessions sv i = Some s \<Longrightarrow> calls_ok sv i s"
    "members_after (sv_posts sv) (set (sv_members sv)) = live sv"
    "distinct (join_ids (sv_posts sv))"
    "i \<in> set (join_ids (sv_posts sv)) \<Longrightarrow> i < sv_count sv \<and> i \<notin> set (sv_members sv)"
    "i \<in> set (sv_members sv) \<Longrightarrow> i < sv_count sv \<and> sv_joined sv i \<le> length (sv_history sv)"
    "distinct (sv_starting sv)" "i \<in> set (sv_starting sv) \<Longrightarrow> i < sv_count sv"
  using assms by (auto simp: server_inv_def)

lemma server_invI:
  assumes "\<And>i s. sv_sessions sv i = Some s \<Longrightarrow> session_ok s \<and> i < sv_count sv \<and> calls_ok sv i s"
    and "members_after (sv_posts sv) (set (sv_members sv)) = live sv"
    and "distinct (join_ids (sv_posts sv))"
    and "\<And>i. i \<in> set (join_ids (sv_posts sv)) \<Longrightarrow> i < sv_count sv \<and> i \<notin> set (sv_members sv)"
    and "\<And>i. i \<in> set (sv_members sv) \<Longrightarrow> i < sv_count sv \<and> sv_joined sv i \<le> length (sv_history sv)"
    and "distinct (sv_starting sv)" "\<And>i. i \<in> set (sv_starting sv) \<Longrightarrow> i < sv_count sv"
  shows "server_inv sv"
  using assms by (auto simp: server_inv_def)

lemma calls_ok_cong:
  assumes "calls_ok sv i s" "\<not> se_stopped s' \<Longrightarrow> \<not> se_stopped s \<and> se_calls s' = se_calls s"
    and "broadcasts_to sv' i = broadcasts_to sv i" "i \<in> set (sv_starting sv') \<longleftrightarrow> i \<in> set (sv_starting sv)"
  shows "calls_ok sv' i s'"
proof (cases "se_stopped s'")
  case False
  then show ?thesis using assms by (simp add: calls_ok_def)
qed (simp add: calls_ok_def)

lemma calls_okI:
  "se_calls s = before @ greet @ after \<Longrightarrow> before @ after = broadcasts_to sv i \<Longrightarrow>
    (if i \<in> set (sv_starting sv) then greet = [] else \<exists>name. greet = [greeting name]) \<Longrightarrow> calls_ok sv i s"
  unfolding calls_ok_def by blast

text \<open>A handler changes one session and posts to the room; \<open>st\<close> is what remains of the sessions that start.\<close>

lemma update_inv:
  assumes inv: "server_inv sv" and s: "sv_sessions sv i = Some s" and ok: "session_ok (fst r)"
    and posts: "handler_posts i s r"
  shows "server_inv (update_session i r sv)"
proof -
  let ?sv = "update_session i r sv"
  note D = server_invD [OF inv]
  have after: "join_ids (snd r) = [] \<and> members_after (snd r) (live sv) = live ?sv"
  proof (cases "se_stopped (fst r) = se_stopped s")
    case True
    then have b: "\<forall>t\<in>set (snd r). \<exists>m. t = Broadcast m" using posts by (auto simp: handler_posts_def)
    have "live ?sv = live sv" using True s by (auto simp: live_def update_session_def split: if_splits)
    then show ?thesis using broadcasts_only [OF b] by simp
  next
    case False
    then obtain a where "\<not> se_stopped s" "se_stopped (fst r)" "snd r = [Leave i a]"
      using posts by (auto simp: handler_posts_def)
    then show ?thesis by (auto simp: live_def update_session_def split: if_splits)
  qed
  have calls: "calls_ok ?sv j s'" if s': "sv_sessions ?sv j = Some s'" for j s'
  proof (cases "j = i")
    case True
    have "calls_ok sv i s" using D(3) s by blast
    then show ?thesis unfolding True
      by (rule calls_ok_cong) (use posts s' True in \<open>auto simp: handler_posts_def update_session_def broadcasts_to_def\<close>)
  next
    case False
    then have "calls_ok sv j s'" using D(3) s' by (simp add: update_session_def)
    then show ?thesis by (rule calls_ok_cong) (simp_all add: update_session_def broadcasts_to_def)
  qed
  show ?thesis
  proof (rule server_invI)
    fix j s' assume j: "sv_sessions ?sv j = Some s'"
    show "session_ok s' \<and> j < sv_count ?sv \<and> calls_ok ?sv j s'"
      using calls [OF j] j ok D(1,2) s by (auto simp: update_session_def split: if_splits)
  qed (use after D in \<open>auto simp: update_session_def members_after_append\<close>)
qed

lemma greet_inv:
  assumes inv: "server_inv sv" and s: "sv_sessions sv i = Some s" and i: "i \<in> set (sv_starting sv)"
  shows "server_inv (update_session i (do_read (deliver (greeting name) s), []) (sv\<lparr>sv_starting := remove1 i (sv_starting sv)\<rparr>))"
    (is "server_inv ?sv")
proof -
  note D = server_invD [OF inv]
  have live: "live ?sv = live sv" using s by (auto simp: live_def update_session_def do_read_def deliver_def split: if_splits)
  have starting: "j \<in> set (sv_starting ?sv) \<longleftrightarrow> j \<noteq> i \<and> j \<in> set (sv_starting sv)" for j
    using D(8) by (auto simp: update_session_def)
  have calls: "calls_ok ?sv j s'" if s': "sv_sessions ?sv j = Some s'" for j s'
  proof (cases "j = i")
    case True
    then have s'_def: "s' = do_read (deliver (greeting name) s)" using s' by (simp add: update_session_def)
    have same: "broadcasts_to ?sv i = broadcasts_to sv i" by (simp add: broadcasts_to_def update_session_def)
    have old: "se_stopped s \<or> se_calls s = broadcasts_to sv i" using D(3) [OF s] i by (auto simp: calls_ok_def)
    show ?thesis
    proof (cases "se_stopped s")
      case False
      then have "se_calls s' = broadcasts_to ?sv i @ [greeting name] @ []"
        using old s'_def same by (simp add: do_read_def deliver_def)
      then show ?thesis unfolding True
        by (rule calls_okI) (use starting [of i] in auto)
    qed (simp add: calls_ok_def s'_def do_read_def deliver_def)
  next
    case False
    then have "calls_ok sv j s'" using D(3) s' by (simp add: update_session_def)
    then show ?thesis by (rule calls_ok_cong) (use starting False in \<open>simp_all add: update_session_def broadcasts_to_def\<close>)
  qed
  show ?thesis
  proof (rule server_invI)
    fix j s' assume j: "sv_sessions ?sv j = Some s'"
    show "session_ok s' \<and> j < sv_count ?sv \<and> calls_ok ?sv j s'"
      using calls [OF j] j D(1,2) s by (auto simp: update_session_def do_read_ok deliver_ok split: if_splits)
  qed (use D live starting in \<open>auto simp: update_session_def\<close>)
qed

lemma accept_inv:
  assumes inv: "server_inv sv"
  shows "server_inv (update_session (sv_count sv) (new_session guest, [Join (sv_count sv) a])
    (sv\<lparr>sv_count := Suc (sv_count sv), sv_starting := sv_starting sv @ [sv_count sv]\<rparr>))" (is "server_inv ?sv")
proof -
  let ?i = "sv_count sv"
  note D = server_invD [OF inv]
  have none: "sv_sessions sv ?i = None" using D(2) by (metis less_irrefl not_None_eq)
  have fresh: "?i \<notin> set (join_ids (sv_posts sv))" "?i \<notin> set (sv_members sv)" "?i \<notin> set (sv_starting sv)"
    using D(6,7,9) by blast+
  have live: "live ?sv = insert ?i (live sv)"
    using none by (auto simp: live_def update_session_def new_session_def)
  have "calls_ok ?sv j s'" if s': "sv_sessions ?sv j = Some s'" for j s'
  proof (cases "j = ?i")
    case True
    then show ?thesis using s' fresh by (auto simp: calls_ok_def update_session_def new_session_def broadcasts_to_def)
  next
    case False
    then have "calls_ok sv j s'" using D(3) s' by (simp add: update_session_def)
    then show ?thesis by (rule calls_ok_cong) (use False in \<open>simp_all add: update_session_def broadcasts_to_def\<close>)
  qed
  then have "session_ok s' \<and> j < sv_count ?sv \<and> calls_ok ?sv j s'" if "sv_sessions ?sv j = Some s'" for j s'
    using that D(1,2) new_session_ok [of guest] by (auto simp: update_session_def less_Suc_eq split: if_splits)
  then show ?thesis
    by (rule server_invI)
      (use D fresh live in \<open>auto simp: update_session_def members_after_append less_Suc_eq\<close>)
qed

lemma live_broadcast: "live (broadcast_now m sv) = live sv"
  by (auto simp: live_def broadcast_sessions deliver_def split: if_splits)

lemma broadcast_inv:
  assumes inv: "server_inv sv"
  shows "server_inv (broadcast_now m sv)" (is "server_inv ?sv")
proof -
  note D = server_invD [OF inv]
  have calls: "calls_ok ?sv j s'" if s': "sv_sessions ?sv j = Some s'" for j s'
  proof (cases "j \<in> set (sv_members sv)")
    case False
    then have "calls_ok sv j s'" using D(3) s' by (simp add: broadcast_sessions)
    then show ?thesis by (rule calls_ok_cong) (use False in \<open>simp_all add: broadcasts_to_def\<close>)
  next
    case True
    then obtain s where s: "sv_sessions sv j = Some s" "s' = deliver m s" using s' by (auto simp: broadcast_sessions)
    have b: "broadcasts_to ?sv j = broadcasts_to sv j @ [m]" using True D(7) by (simp add: broadcasts_to_def)
    show ?thesis
    proof (cases "se_stopped s")
      case False
      then obtain before greet after where g: "se_calls s = before @ greet @ after" "before @ after = broadcasts_to sv j"
        "if j \<in> set (sv_starting sv) then greet = [] else \<exists>name. greet = [greeting name]"
        using D(3) [OF s(1)] by (auto simp: calls_ok_def)
      have "se_calls s' = before @ greet @ (after @ [m])" "before @ (after @ [m]) = broadcasts_to ?sv j"
        using g(1,2) s(2) b by (simp_all add: deliver_def)
      then show ?thesis using g(3) unfolding calls_ok_def broadcast_fields by blast
    qed (simp add: s(2) calls_ok_def deliver_def)
  qed
  show ?thesis
  proof (rule server_invI)
    fix j s' assume j: "sv_sessions ?sv j = Some s'"
    show "session_ok s' \<and> j < sv_count ?sv \<and> calls_ok ?sv j s'"
      using calls [OF j] j D(1,2) by (auto simp: broadcast_sessions deliver_ok split: if_splits)
  qed (use D in \<open>auto simp: live_broadcast intro: le_SucI\<close>)
qed

lemma not_after: "i \<notin> M \<Longrightarrow> i \<notin> set (join_ids ts) \<Longrightarrow> i \<notin> members_after ts M"
  by (induction ts M rule: members_after.induct) auto

lemma room_task_inv:
  assumes inv: "server_inv sv" and p: "sv_posts sv = t # ts"
  shows "server_inv (run_room_task t (sv\<lparr>sv_posts := ts\<rparr>))"
proof (cases t)
  case (Join i a)
  note D = server_invD [OF inv, unfolded p Join]
  let ?sv = "sv\<lparr>sv_posts := ts, sv_members := List.insert i (sv_members sv), sv_joined := (sv_joined sv)(i := length (sv_history sv))\<rparr>"
  have fresh: "i \<notin> set (sv_members sv)" "i < sv_count sv" "i \<notin> set (join_ids ts)" using D(5,6) by auto
  have "broadcasts_to ?sv j = broadcasts_to sv j" for j using fresh by (auto simp: broadcasts_to_def)
  then have calls: "calls_ok ?sv j s" if "calls_ok sv j s" for j s using that by (simp add: calls_ok_def)
  have live: "live ?sv = live sv" by (simp add: live_def)
  have "server_inv ?sv" by (rule server_invI) (use D calls fresh live in auto)
  then have "server_inv (broadcast_now a ?sv)" by (rule broadcast_inv)
  then show ?thesis using Join by simp
next
  case (Leave i a)
  note D = server_invD [OF inv, unfolded p Leave]
  let ?sv = "sv\<lparr>sv_posts := ts, sv_members := removeAll i (sv_members sv)\<rparr>"
  have live: "live ?sv = live sv" by (simp add: live_def)
  have stopped: "i \<notin> set (sv_members sv) \<or> i \<notin> live sv"
    using D(4,6) not_after [of i "set (sv_members sv) - {i}" ts] by auto
  have calls: "calls_ok ?sv j s" if s: "sv_sessions sv j = Some s" for j s
  proof (cases "j = i \<and> i \<in> set (sv_members sv)")
    case True
    then have "se_stopped s" using stopped s by (auto simp: live_def)
    then show ?thesis by (simp add: calls_ok_def)
  next
    case False
    then have "broadcasts_to ?sv j = broadcasts_to sv j" by (auto simp: broadcasts_to_def)
    then show ?thesis using D(3) [OF s] by (simp add: calls_ok_def)
  qed
  have "server_inv ?sv" by (rule server_invI) (use D calls live in auto)
  then show ?thesis using Leave broadcast_inv by (simp add: Let_def)
next
  case (Broadcast m)
  note D = server_invD [OF inv, unfolded p Broadcast]
  have calls: "calls_ok (sv\<lparr>sv_posts := ts\<rparr>) j s" if "calls_ok sv j s" for j s
    by (rule calls_ok_cong [OF that]) (simp_all add: broadcasts_to_def)
  have live: "live (sv\<lparr>sv_posts := ts\<rparr>) = live sv" by (simp add: live_def)
  have "server_inv (sv\<lparr>sv_posts := ts\<rparr>)" by (rule server_invI) (use D calls live in auto)
  then show ?thesis using Broadcast broadcast_inv by simp
qed

lemma chat_do_inv:
  assumes inv: "server_inv sv" and e: "chat_do e sv = Some sv'"
  shows "server_inv sv'"
proof -
  have ok: "sv_sessions sv i = Some s \<Longrightarrow> session_ok s" for i s using inv by (auto simp: server_inv_def)
  note upd = update_inv [OF inv]
  show ?thesis
  proof (cases e)
    case (Accept guest remote)
    then show ?thesis using e accept_inv [OF inv] by (auto simp: Let_def)
  next
    case (Greet i)
    then obtain s where s: "sv_sessions sv i = Some s" and sv': "sv' = update_session i
        (do_read (deliver (server_line (''connected as '' @ se_name s @ ''. Commands: /name <name>, /quit'')) s), [])
        (sv\<lparr>sv_starting := remove1 i (sv_starting sv)\<rparr>)"
      using e by (auto split: option.splits if_splits)
    have "i \<in> set (sv_starting sv)" using e Greet s by (auto split: if_splits)
    then show ?thesis unfolding sv' using greet_inv [OF inv s] by (simp add: greeting_def)
  next
    case Room_Task
    then show ?thesis using e inv room_task_inv by (auto split: list.splits)
  next
    case (Deliver_Task i)
    then obtain s m ms where s: "sv_sessions sv i = Some s" "se_tasks s = m # ms"
      and sv': "sv' = update_session i (run_deliver m (s\<lparr>se_tasks := ms\<rparr>), []) sv"
      using e by (auto split: option.splits list.splits)
    have "handler_posts i s (run_deliver m (s\<lparr>se_tasks := ms\<rparr>), [])"
      by (rule quiet_handler) (auto simp: run_deliver_def do_write_def Let_def split: option.splits)
    then show ?thesis unfolding sv' using run_deliver_ok [OF ok [OF s(1)] s(2)] by (intro upd [OF s(1)]) simp_all
  next
    case (Read_Line i line)
    then obtain s where s: "sv_sessions sv i = Some s"
      and sv': "sv' = update_session i (on_read_line i line (s\<lparr>se_reading := False\<rparr>)) sv"
      using e by (auto split: option.splits if_splits)
    show ?thesis unfolding sv'
      using ok [OF s] by (intro upd [OF s] on_read_line_ok on_read_line_posts) (simp add: reading_ok)
  next
    case (Read_Error i)
    then obtain s where s: "sv_sessions sv i = Some s"
      and sv': "sv' = update_session i (on_read_error i (s\<lparr>se_reading := False\<rparr>)) sv"
      using e by (auto split: option.splits if_splits)
    show ?thesis unfolding sv' on_read_error_def
      using ok [OF s] by (intro upd [OF s] stop_session_ok stop_session_posts) (simp_all add: reading_ok)
  next
    case (Write_Done i)
    then obtain s m where s: "sv_sessions sv i = Some s" "se_writing s = Some m"
      and sv': "sv' = update_session i (on_write_done (s\<lparr>se_writing := None, se_sent := se_sent s @ [m]\<rparr>), []) sv"
      using e by (auto split: option.splits)
    have "handler_posts i s (on_write_done (s\<lparr>se_writing := None, se_sent := se_sent s @ [m]\<rparr>), [])"
      by (rule quiet_handler) (simp_all add: on_write_done_def do_write_def Let_def)
    then show ?thesis unfolding sv' using on_write_done_ok [OF ok [OF s(1)] s(2)] by (intro upd [OF s(1)]) simp_all
  next
    case (Write_Error i)
    then obtain s m where s: "sv_sessions sv i = Some s" "se_writing s = Some m"
      and sv': "sv' = update_session i (on_write_error i (s\<lparr>se_writing := None\<rparr>)) sv"
      using e by (auto split: option.splits)
    have "handler_posts i s (on_write_error i (s\<lparr>se_writing := None\<rparr>))"
      unfolding on_write_error_def by (rule stop_session_posts) simp_all
    then show ?thesis unfolding sv' using on_write_error_ok [OF ok [OF s(1)]] by (intro upd [OF s(1)])
  qed
qed

lemma start_inv: "server_inv server_start"
  by (simp add: server_inv_def server_start_def live_def)

lemma chat_run_inv: "chat_run es sv = Some sv' \<Longrightarrow> server_inv sv \<Longrightarrow> server_inv sv'"
  by (induction es arbitrary: sv) (auto dest: chat_do_inv split: option.splits)

lemma chat_run_append:
  "chat_run (es @ fs) sv = (case chat_run es sv of None \<Rightarrow> None | Some sv' \<Rightarrow> chat_run fs sv')"
  by (induction es arbitrary: sv) (auto split: option.splits)

section \<open>The history of the room\<close>

definition join_line :: "string \<Rightarrow> string \<Rightarrow> string" where
  "join_line guest remote = server_line (''guest-'' @ take 8 guest @ '' joined from '' @ remote)"

text \<open>The history has the lines of the log, and where a member joined, its announcement.\<close>

definition history_ok :: "server \<Rightarrow> bool" where
  "history_ok sv \<longleftrightarrow>
     sv_log sv = map (\<lambda>m. line_out (trim_wire_line m)) (filter (\<lambda>m. trim_wire_line m \<noteq> []) (sv_history sv)) \<and>
     (\<forall>i\<in>set (sv_members sv). sv_joined sv i < length (sv_history sv) \<and>
        (\<exists>guest remote. sv_history sv ! sv_joined sv i = join_line guest remote)) \<and>
     (\<forall>i a. Join i a \<in> set (sv_posts sv) \<longrightarrow> (\<exists>guest remote. a = join_line guest remote))"

lemma broadcast_log: "sv_log (broadcast_now m sv) = sv_log sv @ (if trim_wire_line m \<noteq> [] then [line_out (trim_wire_line m)] else [])"
  by (simp add: broadcast_now_def Let_def)

lemma history_ok_broadcast: "history_ok sv \<Longrightarrow> history_ok (broadcast_now m sv)"
  by (auto simp: history_ok_def broadcast_log nth_append less_Suc_eq)

lemma history_ok_posts:
  assumes "history_ok sv" "\<And>i a. Join i a \<in> set ts \<Longrightarrow> \<exists>guest remote. a = join_line guest remote"
    and "sv_log sv' = sv_log sv" "sv_history sv' = sv_history sv" "sv_joined sv' = sv_joined sv"
      "set (sv_members sv') \<subseteq> set (sv_members sv)" "set (sv_posts sv') \<subseteq> set (sv_posts sv) \<union> set ts"
  shows "history_ok sv'"
proof -
  have "\<exists>guest remote. a = join_line guest remote" if "Join i a \<in> set (sv_posts sv')" for i a
  proof -
    have "Join i a \<in> set (sv_posts sv) \<or> Join i a \<in> set ts" using that assms(7) by blast
    then show ?thesis using assms(1,2) by (auto simp: history_ok_def)
  qed
  then show ?thesis using assms(1,3-6) by (auto simp: history_ok_def)
qed

lemma room_task_history:
  assumes ok: "history_ok sv" and p: "sv_posts sv = t # ts"
  shows "history_ok (run_room_task t (sv\<lparr>sv_posts := ts\<rparr>))"
proof (cases t)
  case (Join i a)
  let ?sv = "sv\<lparr>sv_posts := ts, sv_members := List.insert i (sv_members sv), sv_joined := (sv_joined sv)(i := length (sv_history sv))\<rparr>"
  have "\<exists>guest remote. a = join_line guest remote" using ok p Join by (auto simp: history_ok_def)
  then have "history_ok (broadcast_now a ?sv)"
    using ok p by (auto simp: history_ok_def broadcast_log nth_append less_Suc_eq)
  then show ?thesis using Join by simp
next
  case (Leave i a)
  have "history_ok (sv\<lparr>sv_posts := ts, sv_members := removeAll i (sv_members sv)\<rparr>)"
    by (rule history_ok_posts [OF ok, of "[]"]) (use p in auto)
  then show ?thesis using Leave history_ok_broadcast by (simp add: Let_def)
next
  case (Broadcast m)
  have "history_ok (sv\<lparr>sv_posts := ts\<rparr>)" by (rule history_ok_posts [OF ok, of "[]"]) (use p in auto)
  then show ?thesis using Broadcast history_ok_broadcast by simp
qed

lemma handlers_post_no_join:
  "Join j a \<notin> set (snd (on_read_line i t s))" "Join j a \<notin> set (snd (on_read_error i s))" "Join j a \<notin> set (snd (on_write_error i s))"
  by (auto simp: on_read_line_def on_read_error_def on_write_error_def stop_session_def Let_def)

lemma update_history: "history_ok sv \<Longrightarrow> (\<And>j a. Join j a \<notin> set (snd r)) \<Longrightarrow> history_ok (update_session i r sv)"
  by (rule history_ok_posts [where ts = "snd r"]) (auto simp: update_session_def)

lemma chat_do_history:
  assumes ok: "history_ok sv" and e: "chat_do e sv = Some sv'"
  shows "history_ok sv'"
proof (cases e)
  case (Accept guest remote)
  have "history_ok (update_session i (s, [Join i (join_line guest remote)]) (sv\<lparr>sv_count := c, sv_starting := st\<rparr>))" for i s c st
    by (rule history_ok_posts [OF ok, where ts = "[Join i (join_line guest remote)]"]) (auto simp: update_session_def)
  then show ?thesis using e Accept by (auto simp: Let_def join_line_def new_session_def)
next
  case (Greet i)
  have "history_ok (update_session i (s, []) (sv\<lparr>sv_starting := st\<rparr>))" for s st
    by (rule history_ok_posts [OF ok, of "[]"]) (simp_all add: update_session_def)
  then show ?thesis using e Greet by (auto split: option.splits if_splits)
next
  case Room_Task
  then show ?thesis using e room_task_history [OF ok] by (auto split: list.splits)
next
  case (Deliver_Task i)
  then show ?thesis using e update_history [OF ok, of "(s, [])" for s] by (auto split: option.splits list.splits)
next
  case (Read_Line i t)
  then obtain s where "sv' = update_session i (on_read_line i t s) sv" using e by (auto split: option.splits if_splits)
  then show ?thesis using update_history [OF ok] handlers_post_no_join(1) by blast
next
  case (Read_Error i)
  then obtain s where "sv' = update_session i (on_read_error i s) sv" using e by (auto split: option.splits if_splits)
  then show ?thesis using update_history [OF ok] handlers_post_no_join(2) by blast
next
  case (Write_Done i)
  then show ?thesis using e update_history [OF ok, of "(s, [])" for s] by (auto split: option.splits)
next
  case (Write_Error i)
  then obtain s where "sv' = update_session i (on_write_error i s) sv" using e by (auto split: option.splits)
  then show ?thesis using update_history [OF ok] handlers_post_no_join(3) by blast
qed

lemma start_history: "history_ok server_start"
  by (simp add: history_ok_def server_start_def)

lemma chat_run_history: "chat_run es sv = Some sv' \<Longrightarrow> history_ok sv \<Longrightarrow> history_ok sv'"
  by (induction es arbitrary: sv) (auto dest: chat_do_history split: option.splits)

section \<open>After the end of a session\<close>

lemma chat_do_frozen:
  assumes "server_inv sv" and "chat_do e sv = Some sv'" and "sv_sessions sv i = Some s" and "frozen ms s"
  shows "\<exists>s'. sv_sessions sv' i = Some s' \<and> frozen ms s'"
proof -
  have i: "i < sv_count sv" using assms(1,3) by (auto simp: server_inv_def)
  have ok: "session_ok s" using assms(1,3) by (auto simp: server_inv_def)
  have "sv_sessions (run_room_task t x) i \<noteq> None" if "sv_sessions x i \<noteq> None" for t x
    using that by (cases t) (auto simp: Let_def broadcast_sessions)
  then have "sv_sessions sv' i \<noteq> None"
    using assms(2,3) i by (cases e) (auto simp: update_session_def Let_def split: option.splits if_splits list.splits)
  then obtain s' where s': "sv_sessions sv' i = Some s'" by blast
  have "session_move s s'"
  proof (cases e)
    case (Accept guest remote)
    then have "s' = s" using assms(2,3) s' i by (auto simp: update_session_def Let_def split: if_splits)
    then show ?thesis by (simp add: session_move.stay)
  next
    case Room_Task
    then obtain t ts where "sv_posts sv = t # ts" "sv' = run_room_task t (sv\<lparr>sv_posts := ts\<rparr>)"
      using assms(2) by (auto split: list.splits)
    then show ?thesis using room_task_moves [of t "sv\<lparr>sv_posts := ts\<rparr>" i s'] s' assms(3) by simp
  qed (use assms(2,3) s' in \<open>auto simp: update_session_def Let_def intro: session_move.intros
         split: option.splits if_splits list.splits\<close>)
  then show ?thesis using s' move_frozen ok assms(4) by blast
qed

lemma chat_run_frozen:
  "chat_run es sv = Some sv' \<Longrightarrow> server_inv sv \<Longrightarrow> sv_sessions sv i = Some s \<Longrightarrow> frozen ms s \<Longrightarrow>
    \<exists>s'. sv_sessions sv' i = Some s' \<and> frozen ms s'"
proof (induction es arbitrary: sv s)
  case (Cons e es)
  obtain sv1 where e: "chat_do e sv = Some sv1" and es: "chat_run es sv1 = Some sv'"
    using Cons.prems(1) by (auto split: option.splits)
  from chat_do_frozen [OF Cons.prems(2) e Cons.prems(3,4)] obtain s1 where
    "sv_sessions sv1 i = Some s1" "frozen ms s1" by blast
  then show ?case using Cons.IH [OF es chat_do_inv [OF Cons.prems(2) e]] by blast
qed auto

section \<open>Properties\<close>

text \<open>
  C17: One write at a time, nothing lost or reordered. In every state the server can reach, no session
  ever started a write while another was pending (what \<open>async_write\<close> requires); a running session
  with messages in its outbox is writing the first of them, so it cannot stall; and the messages
  written to the peer, followed by the outbox, are a prefix of the messages \<open>deliver\<close> was called with,
  the rest being those still posted to the strand as long as the session runs.
\<close>

theorem chat_session_writes:
  assumes "chat_run es server_start = Some sv" and "sv_sessions sv i = Some s"
  shows "\<not> se_overlap s \<and>
    (\<not> se_stopped s \<longrightarrow> se_outbox s \<noteq> [] \<longrightarrow> se_writing s = Some (hd (se_outbox s))) \<and>
    (\<exists>r. se_calls s = se_sent s @ se_outbox s @ r \<and> (\<not> se_stopped s \<longrightarrow> r = se_tasks s))"
proof -
  have "session_ok s" using chat_run_inv [OF assms(1) start_inv] assms(2) by (simp add: server_inv_def)
  then show ?thesis by (auto simp: session_ok_def)
qed

definition chat_demo :: "chat_event list" where
  "chat_demo =
     [Accept ''01234567-89ab'' ''127.0.0.1:4000'', Greet 0, Room_Task, Deliver_Task 0, Write_Done 0,
      Accept ''fedcba98-7654'' ''127.0.0.1:4001'', Room_Task, Greet 1, Deliver_Task 0, Deliver_Task 0,
      Read_Line 0 ''hello'', Deliver_Task 1, Room_Task, Deliver_Task 1, Deliver_Task 1, Write_Done 1]"

definition chat_demo_state :: server where
  "chat_demo_state = the (chat_run chat_demo server_start)"

lemma chat_demo_run: "chat_run chat_demo server_start = Some chat_demo_state"
proof -
  have "\<not> Option.is_none (chat_run chat_demo server_start)" by code_simp
  then show ?thesis by (auto simp: chat_demo_state_def Option.is_none_def)
qed

lemma chat_demo_sessions: "\<exists>s. sv_sessions chat_demo_state 1 = Some s" "\<exists>s. sv_sessions chat_demo_state 0 = Some s"
proof -
  have "\<not> Option.is_none (sv_sessions chat_demo_state 1)" "\<not> Option.is_none (sv_sessions chat_demo_state 0)"
    by code_simp+
  then show "\<exists>s. sv_sessions chat_demo_state 1 = Some s" "\<exists>s. sv_sessions chat_demo_state 0 = Some s"
    by (auto simp: Option.is_none_def)
qed

theorem chat_session_writes_witness:
  "\<exists>s. sv_sessions chat_demo_state 1 = Some s \<and> \<not> se_overlap s \<and>
    (\<exists>r. se_calls s = se_sent s @ se_outbox s @ r)"
  using chat_demo_sessions(1) chat_session_writes [OF chat_demo_run] by blast

text \<open>
  C18: Everyone hears the same conversation. In every reachable state there is one sequence of broadcasts, in the order
  of the room, whose non-empty lines are what the server has logged. It has the line with which a member joined, and what
  was written to a running member, waits in its outbox or is posted to its strand is that sequence from there on,
  nothing missing, doubled or reordered, with one greeting among it unless \<open>start\<close> has not come to it yet.
\<close>

theorem chat_members_agree:
  assumes "chat_run es server_start = Some sv"
    and "i \<in> set (sv_members sv)" and "sv_sessions sv i = Some s" and "\<not> se_stopped s"
  shows "sv_log sv = map (\<lambda>m. line_out (trim_wire_line m)) (filter (\<lambda>m. trim_wire_line m \<noteq> []) (sv_history sv)) \<and>
    sv_joined sv i < length (sv_history sv) \<and> (\<exists>guest remote. sv_history sv ! sv_joined sv i = join_line guest remote) \<and>
    (\<exists>before greet after. se_sent s @ se_outbox s @ se_tasks s = before @ greet @ after \<and>
      before @ after = drop (sv_joined sv i) (sv_history sv) \<and>
      (if i \<in> set (sv_starting sv) then greet = [] else \<exists>name. greet = [greeting name]))"
proof -
  have inv: "server_inv sv" using chat_run_inv [OF assms(1) start_inv] .
  have "se_sent s @ se_outbox s @ se_tasks s = se_calls s"
    using server_invD(1) [OF inv assms(3)] assms(4) by (auto simp: session_ok_def)
  moreover have "calls_ok sv i s" using server_invD(3) [OF inv assms(3)] .
  moreover have "history_ok sv" using chat_run_history [OF assms(1) start_history] .
  ultimately show ?thesis using assms(2,4) by (simp add: calls_ok_def broadcasts_to_def history_ok_def)
qed

theorem chat_members_agree_witness:
  "\<exists>s. sv_sessions chat_demo_state 0 = Some s \<and> (\<exists>before greet after. se_sent s @ se_outbox s @ se_tasks s = before @ greet @ after \<and>
      before @ after = drop (sv_joined chat_demo_state 0) (sv_history chat_demo_state) \<and> (\<exists>name. greet = [greeting name]))"
proof -
  have "List.member (sv_members chat_demo_state) 0" "\<not> List.member (sv_starting chat_demo_state) 0" by code_simp+
  then have mem: "0 \<in> set (sv_members chat_demo_state)" "0 \<notin> set (sv_starting chat_demo_state)" by (simp_all add: List.member_iff)
  obtain s where s: "sv_sessions chat_demo_state 0 = Some s" using chat_demo_sessions(2) by blast
  have "map_option se_stopped (sv_sessions chat_demo_state 0) = Some False" by code_simp
  then have "\<not> se_stopped s" using s by simp
  then show ?thesis using chat_members_agree [OF chat_demo_run mem(1) s] s mem(2) by simp
qed

text \<open>
  The room follows the sessions: once the tasks posted to the room have run, its members are
  exactly the sessions that have not stopped.
\<close>

theorem chat_room_members:
  assumes "chat_run es server_start = Some sv" and "sv_posts sv = []"
  shows "i \<in> set (sv_members sv) \<longleftrightarrow> (\<exists>s. sv_sessions sv i = Some s \<and> \<not> se_stopped s)"
  using chat_run_inv [OF assms(1) start_inv] assms(2) by (auto simp: server_inv_def live_def)

theorem chat_room_members_witness:
  "0 \<in> set (sv_members chat_demo_state) \<longleftrightarrow>
    (\<exists>s. sv_sessions chat_demo_state 0 = Some s \<and> \<not> se_stopped s)"
proof -
  have "List.null (sv_posts chat_demo_state)" by code_simp
  then have "sv_posts chat_demo_state = []" by (simp add: List.null_iff)
  from chat_room_members [OF chat_demo_run this] show ?thesis .
qed

text \<open>
  The oversized-message notice is never sent. When a session reads a line of more than
  \<open>max_line_size\<close> bytes, \<open>on_read\<close> posts the notice with \<open>deliver\<close> and then calls \<open>stop\<close>; the posted
  handler finds the session stopped. So nothing is added to what the session sends: whatever happens
  afterwards, the messages sent and in the outbox are those there were before the line was read.
\<close>

theorem chat_oversize_notice_dropped:
  assumes "chat_run es server_start = Some sv" and "sv_sessions sv i = Some s"
    and "chat_run (Read_Line i line # fs) sv = Some sv'" and "max_line_size < length line + 1"
  shows "\<exists>s'. sv_sessions sv' i = Some s' \<and> se_stopped s' \<and>
    se_sent s' @ se_outbox s' = se_sent s @ se_outbox s"
proof -
  have inv: "server_inv sv" using chat_run_inv [OF assms(1) start_inv] .
  obtain sv1 where e: "chat_do (Read_Line i line) sv = Some sv1" and fs: "chat_run fs sv1 = Some sv'"
    using assms(3) by (auto split: option.splits simp del: chat_do.simps)
  let ?s1 = "fst (on_read_line i line (s\<lparr>se_reading := False\<rparr>))"
  have s1: "sv_sessions sv1 i = Some ?s1" using e assms(2) by (auto simp: update_session_def split: if_splits)
  have "frozen (se_sent s @ se_outbox s) ?s1"
    using assms(4) by (auto simp: frozen_def on_read_line_def stop_session_def deliver_def)
  from chat_run_frozen [OF fs chat_do_inv [OF inv e] s1 this] show ?thesis by (auto simp: frozen_def)
qed

definition long_line :: string where
  "long_line = replicate 4096 (CHR ''x'')"

theorem chat_oversize_notice_dropped_witness:
  "\<exists>sv s s'. chat_run [Read_Line 1 long_line] chat_demo_state = Some sv \<and>
    sv_sessions chat_demo_state 1 = Some s \<and> sv_sessions sv 1 = Some s' \<and> se_stopped s' \<and>
    se_sent s' @ se_outbox s' = se_sent s @ se_outbox s"
proof -
  obtain s where s: "sv_sessions chat_demo_state 1 = Some s" using chat_demo_sessions(1) by blast
  have "map_option se_reading (sv_sessions chat_demo_state 1) = Some True" by code_simp
  then have "se_reading s" using s by simp
  then obtain sv where sv: "chat_run [Read_Line 1 long_line] chat_demo_state = Some sv" using s by simp
  have "max_line_size < length long_line + 1" by (simp add: max_line_size_def long_line_def)
  from chat_oversize_notice_dropped [OF chat_demo_run s sv this] sv s show ?thesis by blast
qed

end
