(* ===== verification/Chat_Client.thy ===== *)
theory Chat_Client
  imports Chat_Protocol
begin

text \<open>
  \<open>runboost/chat_client.cpp\<close>: \<open>chat_client\<close>, whose handlers all run on one strand, and the input
  thread that feeds it. As in \<open>Chat_Server\<close>, an event runs one handler to its end: the posted part of
  \<open>write\<close>, \<open>write_and_close\<close> and \<open>close\<close> in the order they were posted, and completions of the
  connect, read and write operations. \<open>io_.stop()\<close> ends the only thread that runs handlers, so no
  event follows it. \<open>cl_queued\<close> records history.
\<close>

datatype client_task = Task_Write string | Task_Write_Close string | Task_Close

record client =
  cl_name :: string
  cl_outbox :: "string list"
  cl_closed :: bool
  cl_connected :: bool
  cl_close_after_write :: bool
  cl_reading :: bool
  cl_writing :: "string option"
  cl_overlap :: bool
  cl_io_stopped :: bool
  cl_connecting :: bool
  cl_tasks :: "client_task list"
  cl_sent :: "string list"
  cl_printed :: "string list"
  cl_queued :: "string list" \<comment> \<open>history: messages put into the outbox, in sending order\<close>

definition chat_client :: "string \<Rightarrow> client" where
  "chat_client name = \<lparr>cl_name = name, cl_outbox = [], cl_closed = False, cl_connected = False,
     cl_close_after_write = False, cl_reading = False, cl_writing = None, cl_overlap = False,
     cl_io_stopped = False, cl_connecting = False, cl_tasks = [], cl_sent = [], cl_printed = [],
     cl_queued = []\<rparr>"

text \<open>\<open>start\<close>: resolving and connecting, whose outcome is one event.\<close>

definition client_start :: "client \<Rightarrow> client" where
  "client_start c = c\<lparr>cl_connecting := True\<rparr>"

definition client_write :: "string \<Rightarrow> client \<Rightarrow> client" where
  "client_write line c = c\<lparr>cl_tasks := cl_tasks c @ [Task_Write (to_wire_line line)]\<rparr>"

definition client_write_and_close :: "string \<Rightarrow> client \<Rightarrow> client" where
  "client_write_and_close line c = c\<lparr>cl_tasks := cl_tasks c @ [Task_Write_Close (to_wire_line line)]\<rparr>"

definition client_close :: "client \<Rightarrow> client" where
  "client_close c = c\<lparr>cl_tasks := cl_tasks c @ [Task_Close]\<rparr>"

definition client_do_write :: "client \<Rightarrow> client" where
  "client_do_write c =
     (case cl_writing c of
        Some _ \<Rightarrow> c\<lparr>cl_overlap := True\<rparr>
      | None \<Rightarrow> c\<lparr>cl_writing := Some (hd (cl_outbox c))\<rparr>)"

definition close_now :: "client \<Rightarrow> client" where
  "close_now c = (if cl_closed c then c else c\<lparr>cl_closed := True, cl_io_stopped := True\<rparr>)"

definition enqueue_write :: "string \<Rightarrow> client \<Rightarrow> client" where
  "enqueue_write message c =
     (if cl_closed c then c
      else let write_in_progress = cl_outbox c \<noteq> [];
               c' = c\<lparr>cl_outbox := cl_outbox c @ [message], cl_queued := cl_queued c @ [message]\<rparr>
           in if cl_connected c' \<and> \<not> write_in_progress then client_do_write c' else c')"

definition on_connect :: "bool \<Rightarrow> client \<Rightarrow> client" where
  "on_connect ok c =
     (if \<not> ok then c\<lparr>cl_io_stopped := True\<rparr>
      else let c1 = c\<lparr>cl_connected := True\<rparr>;
               hello = to_wire_line (''/name '' @ cl_name c);
               c2 = (if cl_name c1 \<noteq> []
                     then c1\<lparr>cl_outbox := hello # cl_outbox c1, cl_queued := hello # cl_queued c1\<rparr> else c1);
               c3 = c2\<lparr>cl_reading := True\<rparr>
           in if cl_outbox c3 \<noteq> [] then client_do_write c3 else c3)"

definition client_on_line :: "string \<Rightarrow> client \<Rightarrow> client" where
  "client_on_line line c =
     c\<lparr>cl_printed := cl_printed c @ [line_out (trim_wire_line line)], cl_reading := True\<rparr>"

definition client_on_written :: "client \<Rightarrow> client" where
  "client_on_written c =
     (let c' = c\<lparr>cl_outbox := tl (cl_outbox c)\<rparr> in
      if cl_outbox c' \<noteq> [] then client_do_write c'
      else if cl_close_after_write c' then close_now c' else c')"

fun run_client_task :: "client_task \<Rightarrow> client \<Rightarrow> client" where
  "run_client_task (Task_Write m) c = enqueue_write m c"
| "run_client_task (Task_Write_Close m) c = enqueue_write m (c\<lparr>cl_close_after_write := True\<rparr>)"
| "run_client_task Task_Close c = close_now c"

datatype client_event =
    Input_Line string \<comment> \<open>the input thread read a line other than \<open>/quit\<close>\<close>
  | Input_Quit
  | Input_End
  | Run_Task
  | Connected bool
  | Line_Read string
  | Read_Failed
  | Written
  | Write_Failed

text \<open>
  One event. The three input events are calls from the other thread and may come at any time; the
  others run on the strand and need the \<open>io_context\<close> to run.
\<close>

fun client_do :: "client_event \<Rightarrow> client \<Rightarrow> client option" where
  "client_do (Input_Line line) c = Some (client_write line c)"
| "client_do Input_Quit c = Some (client_write_and_close ''/quit'' c)"
| "client_do Input_End c = Some (client_close c)"
| "client_do Run_Task c =
     (case cl_tasks c of
        t # ts \<Rightarrow> if cl_io_stopped c then None else Some (run_client_task t (c\<lparr>cl_tasks := ts\<rparr>))
      | [] \<Rightarrow> None)"
| "client_do (Connected ok) c =
     (if cl_io_stopped c \<or> \<not> cl_connecting c then None else Some (on_connect ok (c\<lparr>cl_connecting := False\<rparr>)))"
| "client_do (Line_Read line) c =
     (if cl_io_stopped c \<or> \<not> cl_reading c then None else Some (client_on_line line (c\<lparr>cl_reading := False\<rparr>)))"
| "client_do Read_Failed c =
     (if cl_io_stopped c \<or> \<not> cl_reading c then None else Some (close_now (c\<lparr>cl_reading := False\<rparr>)))"
| "client_do Written c =
     (case cl_writing c of
        Some m \<Rightarrow> if cl_io_stopped c then None
          else Some (client_on_written (c\<lparr>cl_writing := None, cl_sent := cl_sent c @ [m]\<rparr>))
      | None \<Rightarrow> None)"
| "client_do Write_Failed c =
     (case cl_writing c of
        Some m \<Rightarrow> if cl_io_stopped c then None else Some (close_now (c\<lparr>cl_writing := None\<rparr>))
      | None \<Rightarrow> None)"

fun client_run :: "client_event list \<Rightarrow> client \<Rightarrow> client option" where
  "client_run [] c = Some c"
| "client_run (e # es) c = (case client_do e c of None \<Rightarrow> None | Some c' \<Rightarrow> client_run es c')"

section \<open>The client's invariant\<close>

definition client_inv :: "client \<Rightarrow> bool" where
  "client_inv c \<longleftrightarrow> \<not> cl_overlap c \<and>
     (\<forall>m. cl_writing c = Some m \<longrightarrow> cl_connected c \<and> cl_outbox c \<noteq> [] \<and> hd (cl_outbox c) = m) \<and>
     (cl_connected c \<longrightarrow> \<not> cl_closed c \<longrightarrow> cl_outbox c \<noteq> [] \<longrightarrow> cl_writing c \<noteq> None) \<and>
     (cl_closed c \<longrightarrow> cl_io_stopped c) \<and>
     (cl_connected c \<longrightarrow> \<not> cl_connecting c) \<and> (\<not> cl_connected c \<longrightarrow> cl_sent c = []) \<and>
     cl_queued c = cl_sent c @ cl_outbox c"

lemma client_inv_fields [simp]:
  "client_inv (c\<lparr>cl_tasks := ts\<rparr>) = client_inv c" "client_inv (c\<lparr>cl_reading := b\<rparr>) = client_inv c"
  "client_inv (c\<lparr>cl_printed := ps\<rparr>) = client_inv c" "client_inv (c\<lparr>cl_close_after_write := b\<rparr>) = client_inv c"
  by (simp_all add: client_inv_def)

lemma close_now_inv: "client_inv c \<Longrightarrow> client_inv (close_now c)"
  by (auto simp: client_inv_def close_now_def)

lemma enqueue_write_inv: "client_inv c \<Longrightarrow> client_inv (enqueue_write m c)"
  by (auto simp: client_inv_def enqueue_write_def client_do_write_def Let_def split: option.splits)

lemma on_connect_inv:
  "client_inv c \<Longrightarrow> cl_connecting c \<Longrightarrow> \<not> cl_io_stopped c \<Longrightarrow> client_inv (on_connect ok (c\<lparr>cl_connecting := False\<rparr>))"
  by (cases "cl_writing c")
     (auto simp: client_inv_def on_connect_def client_do_write_def Let_def)

lemma written_inv:
  "client_inv c \<Longrightarrow> cl_writing c = Some m \<Longrightarrow>
    client_inv (client_on_written (c\<lparr>cl_writing := None, cl_sent := cl_sent c @ [m]\<rparr>))"
  by (cases "cl_outbox c")
     (auto simp: client_inv_def client_on_written_def client_do_write_def close_now_def Let_def)

lemma client_do_inv:
  assumes "client_inv c" and "client_do e c = Some c'"
  shows "client_inv c'"
proof (cases e)
  case Run_Task
  then obtain t ts where t: "cl_tasks c = t # ts" "c' = run_client_task t (c\<lparr>cl_tasks := ts\<rparr>)"
    using assms(2) by (auto split: list.splits if_splits)
  then show ?thesis using assms(1) by (cases t) (simp_all add: enqueue_write_inv close_now_inv)
next
  case (Connected ok)
  then show ?thesis using assms on_connect_inv by (auto split: if_splits)
next
  case Read_Failed
  then show ?thesis using assms by (auto intro: close_now_inv split: if_splits)
next
  case Written
  then show ?thesis using assms written_inv by (auto split: option.splits if_splits)
next
  case Write_Failed
  then show ?thesis using assms
    by (auto simp: client_inv_def close_now_def split: option.splits if_splits)
qed (use assms in \<open>auto simp: client_write_def client_write_and_close_def client_close_def
       client_on_line_def split: if_splits\<close>)

lemma client_run_inv: "client_run es c = Some c' \<Longrightarrow> client_inv c \<Longrightarrow> client_inv c'"
  by (induction es arbitrary: c) (auto dest: client_do_inv split: option.splits)

lemma client_start_inv: "client_inv (client_start (chat_client name))"
  by (simp add: client_inv_def client_start_def chat_client_def)

text \<open>The input thread's lines reach the outbox in order: what is queued and what is still posted.\<close>

fun task_message :: "client_task \<Rightarrow> string list" where
  "task_message (Task_Write m) = [m]"
| "task_message (Task_Write_Close m) = [m]"
| "task_message Task_Close = []"

fun input_message :: "client_event \<Rightarrow> string list" where
  "input_message (Input_Line line) = [to_wire_line line]"
| "input_message Input_Quit = [to_wire_line ''/quit'']"
| "input_message _ = []"

definition greeting :: "client \<Rightarrow> string list" where
  "greeting c = (if cl_connected c \<and> cl_name c \<noteq> [] then [to_wire_line (''/name '' @ cl_name c)] else [])"

definition input_inv :: "string list \<Rightarrow> client \<Rightarrow> bool" where
  "input_inv ms c \<longleftrightarrow> (\<exists>typed. cl_queued c = greeting c @ typed \<and>
     typed @ concat (map task_message (cl_tasks c)) = ms)"

lemma client_do_input:
  assumes "client_inv c" and "client_do e c = Some c'" and "input_inv ms c"
  shows "input_inv (ms @ input_message e) c'"
proof (cases e)
  case Run_Task
  then obtain t ts where t: "cl_tasks c = t # ts" "c' = run_client_task t (c\<lparr>cl_tasks := ts\<rparr>)"
      "\<not> cl_io_stopped c"
    using assms(2) by (auto split: list.splits if_splits)
  then have "\<not> cl_closed c" using assms(1) by (auto simp: client_inv_def)
  then show ?thesis using t assms(3) Run_Task
    by (cases t) (auto simp: input_inv_def enqueue_write_def client_do_write_def close_now_def greeting_def
        Let_def split: option.splits)
next
  case (Connected ok)
  then show ?thesis using assms
    by (auto simp: client_inv_def input_inv_def on_connect_def client_do_write_def greeting_def Let_def
        split: option.splits if_splits)
qed (use assms in \<open>auto simp: input_inv_def client_write_def client_write_and_close_def client_close_def
       client_on_line_def client_on_written_def client_do_write_def close_now_def greeting_def Let_def
       split: option.splits if_splits\<close>)

lemma client_run_input:
  "client_run es c = Some c' \<Longrightarrow> client_inv c \<Longrightarrow> input_inv ms c \<Longrightarrow>
    input_inv (ms @ concat (map input_message es)) c'"
proof (induction es arbitrary: c ms)
  case (Cons e es)
  obtain c1 where e: "client_do e c = Some c1" and es: "client_run es c1 = Some c'"
    using Cons.prems(1) by (auto split: option.splits)
  from Cons.IH [OF es client_do_inv [OF Cons.prems(2) e] client_do_input [OF Cons.prems(2) e Cons.prems(3)]]
  show ?case by simp
qed simp

section \<open>Properties\<close>

text \<open>
  The client's writes. In every state the client can reach from \<open>start\<close>, it never had two
  writes in flight; once connected and not closed it is writing the first message of its outbox
  whenever there is one; and what it sent, then its outbox, is the \<open>/name\<close> line (if it has a name and
  the connection is up) followed by the lines typed so far, in order, up to those still posted.
\<close>

theorem client_writes_in_order:
  assumes "client_run es (client_start (chat_client name)) = Some c"
  shows "\<not> cl_overlap c \<and>
    (cl_connected c \<longrightarrow> \<not> cl_closed c \<longrightarrow> cl_outbox c \<noteq> [] \<longrightarrow> cl_writing c = Some (hd (cl_outbox c))) \<and>
    (\<exists>typed. cl_sent c @ cl_outbox c = greeting c @ typed \<and>
       typed @ concat (map task_message (cl_tasks c)) = concat (map input_message es))"
proof -
  have inv: "client_inv c" using client_run_inv [OF assms client_start_inv] .
  have "input_inv ([] @ concat (map input_message es)) c"
    by (rule client_run_input [OF assms client_start_inv])
       (simp add: input_inv_def client_start_def chat_client_def greeting_def)
  then show ?thesis using inv by (auto simp: input_inv_def client_inv_def)
qed

definition client_demo :: "client_event list" where
  "client_demo = [Input_Line ''hi'', Run_Task, Connected True, Input_Quit, Written, Run_Task, Written]"

definition client_demo_state :: client where
  "client_demo_state = the (client_run client_demo (client_start (chat_client ''ann'')))"

lemma client_demo_run: "client_run client_demo (client_start (chat_client ''ann'')) = Some client_demo_state"
proof -
  have "\<not> Option.is_none (client_run client_demo (client_start (chat_client ''ann'')))" by code_simp
  then show ?thesis by (auto simp: client_demo_state_def Option.is_none_def)
qed

theorem client_writes_in_order_witness:
  "\<not> cl_overlap client_demo_state \<and>
    (\<exists>typed. cl_sent client_demo_state @ cl_outbox client_demo_state = greeting client_demo_state @ typed \<and>
       typed @ concat (map task_message (cl_tasks client_demo_state)) =
         [to_wire_line ''hi'', to_wire_line ''/quit''])"
  using client_writes_in_order [OF client_demo_run] by (auto simp: client_demo_def)

text \<open>
  \<open>/quit\<close> flushes. When a successful write makes the client close itself, everything that had
  been put into the outbox has been sent, the connection was up, and \<open>/quit\<close> had been processed.
\<close>

theorem client_quit_flushes:
  assumes "client_run es (client_start (chat_client name)) = Some c"
    and "client_do Written c = Some c'" and "\<not> cl_closed c" and "cl_closed c'"
  shows "cl_sent c' = cl_queued c' \<and> cl_outbox c' = [] \<and> cl_connected c' \<and> cl_close_after_write c'"
proof -
  have inv: "client_inv c" using client_run_inv [OF assms(1) client_start_inv] .
  have inv': "client_inv c'" using client_do_inv [OF inv assms(2)] .
  from assms(2-4) inv have "cl_outbox c' = [] \<and> cl_connected c' \<and> cl_close_after_write c'"
    by (auto simp: client_inv_def client_on_written_def client_do_write_def close_now_def Let_def
        split: option.splits if_splits)
  then show ?thesis using inv' by (simp add: client_inv_def)
qed

theorem client_quit_flushes_witness:
  "\<exists>c'. client_do Written client_demo_state = Some c' \<and> cl_sent c' = cl_queued c' \<and> cl_outbox c' = []"
proof -
  have w: "Option.is_none (cl_writing client_demo_state) = False" "cl_io_stopped client_demo_state = False"
    "cl_closed client_demo_state = False" by code_simp+
  then obtain c' where c': "client_do Written client_demo_state = Some c'"
    by (auto simp: Option.is_none_def)
  have "cl_closed (the (client_do Written client_demo_state))" by code_simp
  then have "cl_closed c'" unfolding c' by (simp del: client_do.simps)
  with client_quit_flushes [OF client_demo_run c'] w c' show ?thesis by auto
qed

end
