(* ===== verification/Chat_Lines.thy ===== *)
theory Chat_Lines
  imports Chat_Server Chat_Client
begin

text \<open>
  The way of a line through both chat programs: typed at a client, written to the socket, read and broadcast by the
  session, written to another client, read and printed there. What lies between a write and the line that the other side gets
  from \<open>async_read_until\<close> and \<open>getline\<close> is not in the repository: it is the argument \<open>rd\<close>, from the pieces
  in which the bytes arrive to the lines, and \<open>reads_lines rd\<close> is what the documentation promises: the text before each
  newline is a line, however the bytes were cut. \<open>arrive\<close> is one such function.
\<close>

definition reads_lines :: "(string list \<Rightarrow> string list) \<Rightarrow> bool" where
  "reads_lines rd \<longleftrightarrow> (\<forall>pieces ls. (\<forall>l\<in>set ls. no_newline l) \<longrightarrow> concat pieces = concat (map (\<lambda>l. l @ newline) ls) \<longrightarrow> rd pieces = ls)"

text \<open>A buffer to which each piece is added and from which the complete lines are then taken.\<close>

fun arrive :: "string \<Rightarrow> string list \<Rightarrow> string list" where
  "arrive buffer [] = []"
| "arrive buffer (piece # pieces) = (case split_lines (buffer @ piece) of (ls, rest) \<Rightarrow> ls @ arrive rest pieces)"

section \<open>The three programs along the way\<close>

text \<open>The messages that a client writes for typed lines (\<open>write\<close>).\<close>

definition typed_messages :: "string list \<Rightarrow> client \<Rightarrow> string list" where
  "typed_messages typed c = concat (map (\<lambda>t. case t of Task_Write m \<Rightarrow> [m] | _ \<Rightarrow> []) (cl_tasks (fold client_write typed (c\<lparr>cl_tasks := []\<rparr>))))"

text \<open>The session reads lines one after the other, each time an \<open>async_read_until\<close> is pending.\<close>

fun session_reads :: "nat \<Rightarrow> string list \<Rightarrow> session \<Rightarrow> session \<times> room_task list" where
  "session_reads i [] s = (s, [])"
| "session_reads i (l # ls) s = (case on_read_line i l (s\<lparr>se_reading := False\<rparr>) of (s', posts) \<Rightarrow>
     case session_reads i ls s' of (s'', posts') \<Rightarrow> (s'', posts @ posts'))"

definition broadcasts :: "room_task list \<Rightarrow> string list" where
  "broadcasts ts = concat (map (\<lambda>t. case t of Broadcast m \<Rightarrow> [m] | _ \<Rightarrow> []) ts)"

text \<open>A line of text: not empty, not a command, and short enough.\<close>

definition plain_text :: "string \<Rightarrow> bool" where
  "plain_text p \<longleftrightarrow> no_newline p \<and> p \<noteq> [] \<and> p \<noteq> ''/quit'' \<and> take (length name_command) p \<noteq> name_command \<and> length p + 1 \<le> max_line_size"

section \<open>Each step\<close>

lemma split_lines_append: "split_lines (xs @ ys) =
    (case split_lines xs of (ls, rest) \<Rightarrow> case split_lines (rest @ ys) of (ls', rest') \<Rightarrow> (ls @ ls', rest'))"
proof (induction xs)
  case (Cons c xs)
  obtain ls rest where xs: "split_lines xs = (ls, rest)" by fastforce
  obtain ls' rest' where ys: "split_lines (rest @ ys) = (ls', rest')" by fastforce
  have IH: "split_lines (xs @ ys) = (ls @ ls', rest')" using Cons.IH xs ys by simp
  show ?case
  proof (cases "c = CHR 0x0A \<or> ls \<noteq> []")
    case True
    then show ?thesis using IH xs ys by (cases ls) auto
  next
    case False
    then show ?thesis using IH xs ys by simp
  qed
qed (simp split: prod.splits)

lemma arrive_lines: "arrive buffer pieces = fst (split_lines (buffer @ concat pieces))" if "no_newline buffer"
  using that
proof (induction pieces arbitrary: buffer)
  case Nil
  then show ?case by (simp add: split_lines_none)
next
  case (Cons piece pieces)
  obtain ls rest where p: "split_lines (buffer @ piece) = (ls, rest)" by fastforce
  have rest: "no_newline r" if "split_lines xs = (ls, r)" for xs ls r
    using that
  proof (induction xs arbitrary: ls r)
    case (Cons c xs)
    then show ?case by (auto simp: no_newline_def split: prod.splits if_splits list.splits)
  qed (simp add: no_newline_def)
  have "arrive rest pieces = fst (split_lines (rest @ concat pieces))" by (rule Cons.IH [OF rest [OF p]])
  then show ?case using p split_lines_append [of "buffer @ piece" "concat pieces"] by (simp split: prod.splits)
qed

lemma arrive_reads_lines: "reads_lines (arrive [])"
proof -
  have "fst (split_lines (concat (map (\<lambda>l. l @ newline) ls))) = ls" if "\<forall>l\<in>set ls. no_newline l" for ls
    using that by (induction ls) (simp_all add: split_lines_one)
  then show ?thesis by (simp add: reads_lines_def arrive_lines no_newline_def)
qed

lemma fold_write_tasks: "cl_tasks (fold client_write typed c) = cl_tasks c @ map (\<lambda>l. Task_Write (to_wire_line l)) typed"
  by (induction typed arbitrary: c) (simp_all add: client_write_def)

lemma typed_messages_wire: "typed_messages typed c = map to_wire_line typed"
  by (simp add: typed_messages_def fold_write_tasks comp_def concat_map_singleton)

lemma read_plain:
  assumes "plain_text p" "trim_wire_line p = p"
  shows "on_read_line i p s = (do_read s, [Broadcast (to_wire_line (se_name s @ '': '' @ p))])"
  using assms by (auto simp: on_read_line_def plain_text_def Let_def)

lemma session_reads_plain:
  "\<forall>p\<in>set ps. plain_text p \<and> trim_wire_line p = p \<Longrightarrow> se_name s = name \<Longrightarrow>
    snd (session_reads i ps s) = map (\<lambda>p. Broadcast (to_wire_line (name @ '': '' @ p))) ps"
proof (induction ps arbitrary: s)
  case (Cons p ps)
  have "se_name (do_read (s\<lparr>se_reading := False\<rparr>)) = name" using Cons.prems(2) by (simp add: do_read_def)
  with Cons.IH [OF _ this] show ?case using Cons.prems read_plain [of p i "s\<lparr>se_reading := False\<rparr>"] by (simp add: split_beta)
qed simp

lemma broadcast_plain:
  assumes "plain_text p" "trim_wire_line p = p"
  shows "trim_wire_line (name @ '': '' @ p) = name @ '': '' @ p"
proof -
  have "p \<noteq> []" "\<not> line_end (last p)" using assms trim_stripped [of p p] by (auto simp: plain_text_def stripped_def)
  then show ?thesis by (intro stripped_self) simp_all
qed

lemma fold_print: "cl_printed (fold client_on_line ls c) = cl_printed c @ map (\<lambda>l. line_out (trim_wire_line l)) ls"
  by (induction ls arbitrary: c) (simp_all add: client_on_line_def)

lemma wire_lines: "concat (map to_wire_line ls) = concat (map (\<lambda>l. l @ newline) (map trim_wire_line ls))"
  by (induction ls) (simp_all add: to_wire_line_def)

section \<open>The property\<close>

text \<open>
  C27: A line that is typed is the line that is printed. Lines are typed at a client, possibly ending in carriage returns and newlines;
  without these they are plain text. However the bytes of the client's writes are cut on
  their way to the session, and those of its broadcasts on their way to another client, that client prints, in order and
  once each, the name of the session and the typed text without the characters that were stripped.
\<close>

theorem chat_lines_round_trip:
  assumes "list_all2 stripped typed texts" and "\<forall>p\<in>set texts. plain_text p" and "no_newline (se_name s)"
    and "reads_lines rd"
    and "concat pieces = concat (typed_messages typed c)"
    and "concat pieces' = concat (broadcasts (snd (session_reads i (rd pieces) s)))"
  shows "cl_printed (fold client_on_line (rd pieces') d) = cl_printed d @ map (\<lambda>p. line_out (se_name s @ '': '' @ p)) texts"
proof -
  let ?lines = "map (\<lambda>p. se_name s @ '': '' @ p) texts"
  have trims: "map trim_wire_line typed = texts"
    using assms(1) by (induction rule: list_all2_induct) (simp_all add: trim_stripped)
  have plain: "plain_text p \<and> trim_wire_line p = p" if "p \<in> set texts" for p
  proof -
    have "p \<in> trim_wire_line ` set typed" using that trims by (metis set_map)
    then obtain l where "p = trim_wire_line l" by (rule imageE)
    then show ?thesis using assms(2) that by (simp add: trim_wire_line_def)
  qed
  have "concat pieces = concat (map (\<lambda>l. l @ newline) texts)"
    unfolding assms(5) typed_messages_wire wire_lines trims ..
  moreover have "\<forall>l\<in>set texts. no_newline l" using assms(2) by (simp add: plain_text_def)
  ultimately have "rd pieces = texts" using assms(4) by (simp add: reads_lines_def)
  then have "snd (session_reads i (rd pieces) s) = map (\<lambda>p. Broadcast (to_wire_line (se_name s @ '': '' @ p))) texts"
    using session_reads_plain [of texts s "se_name s"] plain by simp
  then have "broadcasts (snd (session_reads i (rd pieces) s)) = map to_wire_line ?lines"
    by (simp add: broadcasts_def comp_def concat_map_singleton)
  moreover have "map trim_wire_line ?lines = ?lines" using plain broadcast_plain by (simp add: comp_def)
  ultimately have "concat pieces' = concat (map (\<lambda>l. l @ newline) ?lines)" using assms(6) wire_lines [of ?lines] by metis
  moreover have "\<forall>l\<in>set ?lines. no_newline l" using assms(2,3) by (auto simp: plain_text_def no_newline_def)
  ultimately have "rd pieces' = ?lines" using assms(4) by (simp add: reads_lines_def)
  then show ?thesis using plain broadcast_plain by (simp add: fold_print)
qed

theorem chat_lines_round_trip_witness:
  "cl_printed (fold client_on_line (arrive [] [''guest-a: hi'' @ newline @ ''guest-a: y'', ''o'' @ newline]) (chat_client ''d'')) =
    [line_out ''guest-a: hi'', line_out ''guest-a: yo'']"
proof -
  let ?typed = "[''hi'' @ [CHR 0x0D, CHR 0x0A], ''yo'']" and ?pieces = "[''h'', ''i'' @ newline @ ''yo'', newline]"
  let ?pieces' = "[''guest-a: hi'' @ newline @ ''guest-a: y'', ''o'' @ newline]"
  have typed: "list_all2 stripped ?typed [''hi'', ''yo'']" by (simp add: trim_stripped [symmetric], code_simp)
  have plain: "\<forall>p\<in>set [''hi'', ''yo'']. plain_text p" "no_newline (se_name (new_session ''a''))" by code_simp+
  have pieces: "concat ?pieces = concat (typed_messages ?typed (chat_client ''c''))" by code_simp
  have pieces': "concat ?pieces' = concat (broadcasts (snd (session_reads 0 (arrive [] ?pieces) (new_session ''a''))))" by code_simp
  have name: "se_name (new_session ''a'') = ''guest-a''" and printed: "cl_printed (chat_client ''d'') = []" by code_simp+
  show ?thesis
    using chat_lines_round_trip [OF typed plain arrive_reads_lines pieces pieces', of "chat_client ''d''"] unfolding name printed by simp
qed

end
