(* ===== verification/Accumulate.thy ===== *)
theory Accumulate
  imports Cpp_Prelude
begin

text \<open>
  \<open>concurrency/accumulate.cpp\<close>: a sum split into blocks, one thread each. The range is a list, the
  iterators are positions in it; \<open>T\<close> is any type with \<open>+\<close> and a default value \<open>0\<close> (of class
  \<open>monoid_add\<close>: integers, machine words, and strings with concatenation, none of which needs
  commutativity). Thread \<open>i\<close> reads its block and writes \<open>results[i]\<close> only, so a run is an order in
  which the blocks are done. Lengths are natural numbers: \<open>length + min_per_thread - 1\<close> stays below
  \<open>2 ^ 64\<close> for any vector that fits in memory. \<open>std::thread::hardware_concurrency()\<close> is a parameter.
\<close>

section \<open>The algorithm\<close>

text \<open>\<open>std::accumulate(first, last, result)\<close>.\<close>

definition accumulate :: "'a::monoid_add list \<Rightarrow> 'a \<Rightarrow> 'a" where
  "accumulate xs result = foldl (+) result xs"

definition min_per_thread :: nat where
  "min_per_thread = 25"

definition num_threads :: "nat \<Rightarrow> nat \<Rightarrow> nat" where
  "num_threads hardware_threads len =
     (let max_threads = (len + min_per_thread - 1) div min_per_thread
      in min (if hardware_threads \<noteq> 0 then hardware_threads else 2) max_threads)"

text \<open>The blocks: threads \<open>0 ..< n - 1\<close> have \<open>block_size\<close> elements, the calling thread takes the rest.\<close>

definition block :: "'a list \<Rightarrow> nat \<Rightarrow> nat \<Rightarrow> 'a list" where
  "block xs n i =
     (let block_size = length xs div n
      in if i < n - 1 then take block_size (drop (i * block_size) xs) else drop ((n - 1) * block_size) xs)"

text \<open>\<open>accumulate_block()(block_start, block_end, results[i])\<close>.\<close>

definition accumulate_block :: "'a::monoid_add list \<Rightarrow> nat \<Rightarrow> nat \<Rightarrow> 'a list \<Rightarrow> 'a list" where
  "accumulate_block xs n i results = results[i := accumulate (block xs n i) (results ! i)]"

definition parallel_accumulate :: "nat \<Rightarrow> nat list \<Rightarrow> 'a::monoid_add list \<Rightarrow> 'a \<Rightarrow> 'a" where
  "parallel_accumulate hardware_threads order xs init =
     (if xs = [] then init
      else let n = num_threads hardware_threads (length xs);
               results = fold (accumulate_block xs n) order (replicate n 0)
           in accumulate results init)"

text \<open>An order in which the \<open>n\<close> blocks may be done: each once.\<close>

definition block_order :: "nat \<Rightarrow> nat \<Rightarrow> nat list \<Rightarrow> bool" where
  "block_order hardware_threads len order \<longleftrightarrow> mset order = mset [0..<num_threads hardware_threads len]"

section \<open>The examples\<close>

text \<open>
  What \<open>print_example\<close> prints, for the order the threads ran in. The sums of \<open>main\<close> are within \<open>int\<close>.
\<close>

definition print_example ::
  "nat \<Rightarrow> nat list \<Rightarrow> ('a::monoid_add \<Rightarrow> string) \<Rightarrow> string \<Rightarrow> 'a list \<Rightarrow> 'a \<Rightarrow> string" where
  "print_example hw order shw label xs init =
     line_out label @ line_out (''parallel_accumulate: '' @ shw (parallel_accumulate hw order xs init)) @
     line_out (''std::accumulate:     '' @ shw (accumulate xs init) @ newline)"

text \<open>\<open>std::string\<close> with concatenation.\<close>

datatype text_value = Text (chars: string)

instantiation text_value :: monoid_add
begin

definition zero_text_value :: text_value where
  "zero_text_value = Text []"

definition plus_text_value :: "text_value \<Rightarrow> text_value \<Rightarrow> text_value" where
  "plus_text_value a b = Text (chars a @ chars b)"

instance
  by intro_classes (simp_all add: zero_text_value_def plus_text_value_def)

end

definition example_words :: "text_value list" where
  "example_words = map Text [''parallel'', '' '', ''accumulate'', '' '', ''works'']"

definition accumulate_main :: "nat \<Rightarrow> (nat \<Rightarrow> nat list) \<Rightarrow> string" where
  "accumulate_main hw order =
     (let numbers = map int [1..<101] in
      print_example hw (order 0) show_int ''Example 1: sum 1..100 with init = 0'' numbers 0 @
      print_example hw (order 1) show_int ''Example 2: sum 1..100 with init = 100'' numbers 100 @
      print_example hw (order 2) chars (''Example 3: concatenate strings with init = '' @ [CHR 0x22, CHR 0x22])
        example_words (Text []))"

section \<open>Blocks\<close>

lemma accumulate_sum: "accumulate xs a = a + sum_list xs"
  unfolding accumulate_def by (induction xs arbitrary: a) (auto simp: add.assoc)

lemma num_threads_pos: "0 < len \<Longrightarrow> 0 < num_threads hw len"
  by (auto simp: num_threads_def min_per_thread_def Let_def)

lemma blocks_prefix:
  "m \<le> n - 1 \<Longrightarrow> concat (map (block xs n) [0..<m]) = take (m * (length xs div n)) xs"
proof (induction m)
  case 0
  then show ?case by simp
next
  case (Suc m)
  then show ?case by (simp add: block_def Let_def take_add [symmetric] add.commute)
qed

lemma blocks_cover: "0 < n \<Longrightarrow> concat (map (block xs n) [0..<n]) = xs"
proof -
  assume "0 < n"
  then have "[0..<n] = [0..<n - 1] @ [n - 1]" by (metis Suc_pred' upt_Suc_append zero_le)
  then have "concat (map (block xs n) [0..<n]) =
      take ((n - 1) * (length xs div n)) xs @ drop ((n - 1) * (length xs div n)) xs"
    using blocks_prefix [of "n - 1" n xs] by (simp add: block_def Let_def)
  then show ?thesis by simp
qed

lemma sum_list_concat: "sum_list (concat xss) = sum_list (map sum_list xss)" for xss :: "'a::monoid_add list list"
  by (induction xss) auto

text \<open>Each slot is written by one thread: what the fold leaves does not depend on the order.\<close>

lemma accumulate_block_length: "length (accumulate_block xs n j rs) = length rs"
  by (simp add: accumulate_block_def)

lemma accumulate_block_nth:
  "i < length rs \<Longrightarrow>
    accumulate_block xs n j rs ! i = (if i = j then accumulate (block xs n i) (rs ! i) else rs ! i)"
  by (simp add: accumulate_block_def nth_list_update)

lemma fold_blocks_length: "length (fold (accumulate_block xs n) order rs) = length rs"
  by (induction order arbitrary: rs) (auto simp: accumulate_block_def)

lemma fold_blocks_nth:
  "distinct order \<Longrightarrow> i < length rs \<Longrightarrow>
    fold (accumulate_block xs n) order rs ! i =
      (if i \<in> set order then accumulate (block xs n i) (rs ! i) else rs ! i)"
proof (induction order arbitrary: rs)
  case (Cons j order)
  then have "fold (accumulate_block xs n) (j # order) rs ! i =
      (if i \<in> set order then accumulate (block xs n i) (accumulate_block xs n j rs ! i)
       else accumulate_block xs n j rs ! i)"
    using Cons.IH [of "accumulate_block xs n j rs"] accumulate_block_length [of xs n j rs] by simp
  then show ?case using Cons.prems accumulate_block_nth [of i rs xs n j] by auto
qed simp

lemma fold_blocks:
  assumes "mset order = mset [0..<n]"
  shows "fold (accumulate_block xs n) order (replicate n 0) = map (\<lambda>i. sum_list (block xs n i)) [0..<n]"
proof (rule nth_equalityI)
  have d: "distinct order" using assms mset_eq_imp_distinct_iff distinct_upt by blast
  have s: "set order = {0..<n}" using mset_eq_setD [OF assms] by simp
  fix i assume "i < length (fold (accumulate_block xs n) order (replicate n 0))"
  then have "i < n" by (simp add: fold_blocks_length)
  then show "fold (accumulate_block xs n) order (replicate n 0) ! i =
      map (\<lambda>i. sum_list (block xs n i)) [0..<n] ! i"
    using fold_blocks_nth [OF d, of i "replicate n 0" xs n] s by (simp add: accumulate_sum)
qed (simp add: fold_blocks_length)

lemma parallel_is_sequential:
  assumes "block_order hw (length xs) order"
  shows "parallel_accumulate hw order xs init = accumulate xs init"
proof (cases "xs = []")
  case True
  then show ?thesis by (simp add: parallel_accumulate_def accumulate_def)
next
  case False
  let ?n = "num_threads hw (length xs)"
  have "sum_list (map (\<lambda>i. sum_list (block xs ?n i)) [0..<?n]) = sum_list (concat (map (block xs ?n) [0..<?n]))"
    by (simp add: sum_list_concat comp_def)
  then have "sum_list (map (\<lambda>i. sum_list (block xs ?n i)) [0..<?n]) = sum_list xs"
    using blocks_cover [OF num_threads_pos] False by (metis length_greater_0_conv)
  then show ?thesis
    using fold_blocks [OF assms [unfolded block_order_def], of xs] False
    by (simp add: parallel_accumulate_def accumulate_sum Let_def)
qed

section \<open>Properties\<close>

text \<open>
  C25: The parallel sum is the sequential one, for every type whose \<open>+\<close> is associative with \<open>T()\<close> as
  neutral element (commutative or not), any number of hardware threads (0 included) and any order in
  which the blocks are done. So each example of the program prints the same value on both lines.
\<close>

theorem parallel_accumulate_correct:
  fixes xs :: "'a::monoid_add list"
  assumes "block_order hw (length xs) order"
  shows "parallel_accumulate hw order xs init = accumulate xs init \<and>
    print_example hw order shw label xs init =
      line_out label @ line_out (''parallel_accumulate: '' @ shw (init + sum_list xs)) @
      line_out (''std::accumulate:     '' @ shw (init + sum_list xs) @ newline)"
  using parallel_is_sequential [OF assms] by (simp add: print_example_def accumulate_sum)

theorem parallel_accumulate_correct_witness:
  "parallel_accumulate 3 [2, 0, 1] (map int [1..<101]) 7 = accumulate (map int [1..<101]) 7 \<and>
    print_example 3 [2, 0, 1] show_int ''x'' (map int [1..<101]) 7 =
      line_out ''x'' @ line_out (''parallel_accumulate: '' @ show_int (7 + sum_list (map int [1..<101]))) @
      line_out (''std::accumulate:     '' @ show_int (7 + sum_list (map int [1..<101])) @ newline)"
proof (rule parallel_accumulate_correct)
  show "block_order 3 (length (map int [1..<101])) [2, 0, 1]"
    by (simp add: block_order_def num_threads_def min_per_thread_def Let_def numeral_3_eq_3)
qed

end
