(* ===== verification/Cpp_Heap.thy ===== *)
theory Cpp_Heap
  imports Cpp_Prelude
begin

text \<open>
  The heap of the components that handle raw pointers (\<open>Unique_Ptr\<close>, \<open>Doubly_Linked\<close>,
  \<open>Linked_List\<close>): a map from addresses to objects of one type, with the record of what was
  created, deleted and printed. \<open>new\<close> takes the next address, never used before: the programs only
  copy and compare addresses of live objects, so the allocator's choice is not visible to them.
  A null or dangling pointer that is dereferenced or deleted raises \<open>h_ub\<close>.
\<close>

section \<open>The heap\<close>

datatype 'a heap_event = Object_Created nat 'a | Object_Deleted nat 'a | Printed string

record 'a heap =
  h_next :: nat
  h_objects :: "nat \<Rightarrow> 'a option"
  h_events :: "'a heap_event list"
  h_ub :: bool

definition empty_heap :: "'a heap" where
  "empty_heap = \<lparr>h_next = 0, h_objects = (\<lambda>a. None), h_events = [], h_ub = False\<rparr>"

definition new_object :: "'a \<Rightarrow> 'a heap \<Rightarrow> nat \<times> 'a heap" where
  "new_object x h = (h_next h, h\<lparr>h_next := Suc (h_next h), h_objects := (h_objects h)(h_next h \<mapsto> x),
     h_events := h_events h @ [Object_Created (h_next h) x]\<rparr>)"

text \<open>\<open>delete p\<close>: nothing for \<open>nullptr\<close>.\<close>

definition delete_ptr :: "nat option \<Rightarrow> 'a heap \<Rightarrow> 'a heap" where
  "delete_ptr p h =
     (case p of
        None \<Rightarrow> h
      | Some a \<Rightarrow>
          (case h_objects h a of
             None \<Rightarrow> h\<lparr>h_ub := True\<rparr>
           | Some x \<Rightarrow> h\<lparr>h_objects := (h_objects h)(a := None), h_events := h_events h @ [Object_Deleted a x]\<rparr>))"

definition read_object :: "nat option \<Rightarrow> 'a heap \<Rightarrow> 'a result" where
  "read_object p h =
     (case p of
        None \<Rightarrow> Inl Undefined_Behaviour
      | Some a \<Rightarrow> (case h_objects h a of None \<Rightarrow> Inl Undefined_Behaviour | Some x \<Rightarrow> Inr x))"

definition write_object :: "nat option \<Rightarrow> 'a \<Rightarrow> 'a heap \<Rightarrow> 'a heap" where
  "write_object p x h =
     (case p of
        None \<Rightarrow> h\<lparr>h_ub := True\<rparr>
      | Some a \<Rightarrow>
          (case h_objects h a of None \<Rightarrow> h\<lparr>h_ub := True\<rparr> | Some _ \<Rightarrow> h\<lparr>h_objects := (h_objects h)(a \<mapsto> x)\<rparr>))"

section \<open>The record of creations and deletions\<close>

fun created :: "'a heap_event list \<Rightarrow> nat list" where
  "created [] = []"
| "created (Object_Created a x # es) = a # created es"
| "created (_ # es) = created es"

fun deleted :: "'a heap_event list \<Rightarrow> nat list" where
  "deleted [] = []"
| "deleted (Object_Deleted a x # es) = a # deleted es"
| "deleted (_ # es) = deleted es"

lemma created_append [simp]: "created (es @ fs) = created es @ created fs"
  by (induction es rule: created.induct) auto

lemma deleted_append [simp]: "deleted (es @ fs) = deleted es @ deleted fs"
  by (induction es rule: deleted.induct) auto

definition heap_log_ok :: "'a heap \<Rightarrow> bool" where
  "heap_log_ok h \<longleftrightarrow> created (h_events h) = [0..<h_next h] \<and> distinct (deleted (h_events h)) \<and>
     set (deleted (h_events h)) = {a. a < h_next h \<and> h_objects h a = None} \<and>
     (\<forall>a\<ge>h_next h. h_objects h a = None)"

lemma new_log: "heap_log_ok h \<Longrightarrow> heap_log_ok (snd (new_object x h))"
  by (auto simp: heap_log_ok_def new_object_def less_Suc_eq)

lemma delete_log: "heap_log_ok h \<Longrightarrow> heap_log_ok (delete_ptr p h)"
proof (cases p)
  case (Some a)
  assume ok: "heap_log_ok h"
  show ?thesis
  proof (cases "h_objects h a")
    case None
    then show ?thesis using ok Some by (simp add: delete_ptr_def heap_log_ok_def)
  next
    case (Some x)
    then have "a < h_next h" using ok unfolding heap_log_ok_def by (metis not_less option.distinct(1))
    then show ?thesis using ok Some \<open>p = Some a\<close> by (auto simp: delete_ptr_def heap_log_ok_def)
  qed
qed (simp add: delete_ptr_def)

section \<open>Operations that stop at undefined behaviour\<close>

text \<open>
  \<open>update_object p f h\<close> is an assignment through \<open>p\<close> and \<open>free_object p h\<close> is \<open>delete p\<close>; both are
  \<open>Inl Undefined_Behaviour\<close> where \<open>write_object\<close> and \<open>delete_ptr\<close> raise \<open>h_ub\<close>.
\<close>

definition update_object :: "nat option \<Rightarrow> ('a \<Rightarrow> 'a) \<Rightarrow> 'a heap \<Rightarrow> 'a heap result" where
  "update_object p f h = bind_result (read_object p h) (\<lambda>x. Inr (write_object p (f x) h))"

definition free_object :: "nat option \<Rightarrow> 'a heap \<Rightarrow> 'a heap result" where
  "free_object p h =
     (if p = None then Inr h else bind_result (read_object p h) (\<lambda>_. Inr (delete_ptr p h)))"

lemma read_object_Some [simp]: "h_objects h a = Some x \<Longrightarrow> read_object (Some a) h = Inr x"
  by (simp add: read_object_def)

lemma update_object_Some [simp]:
  "h_objects h a = Some x \<Longrightarrow>
    update_object (Some a) f h = Inr (h\<lparr>h_objects := (h_objects h)(a \<mapsto> f x)\<rparr>)"
  by (simp add: update_object_def write_object_def)

lemma free_object_Some [simp]:
  "h_objects h a = Some x \<Longrightarrow> free_object (Some a) h = Inr (delete_ptr (Some a) h)"
  by (simp add: free_object_def)

lemma free_objects [simp]: "h_objects (delete_ptr (Some a) h) = (h_objects h)(a := None)"
  by (auto simp: delete_ptr_def split: option.splits)

lemma update_log: "heap_log_ok h \<Longrightarrow> h_objects h a = Some x \<Longrightarrow>
    heap_log_ok (h\<lparr>h_objects := (h_objects h)(a \<mapsto> y)\<rparr>)"
  by (auto simp: heap_log_ok_def)

lemma log_fresh: "heap_log_ok h \<Longrightarrow> h_objects h (h_next h) = None"
  by (simp add: heap_log_ok_def)

lemma log_all_deleted:
  assumes "heap_log_ok h" and "h_objects h = (\<lambda>a. None)"
  shows "distinct (deleted (h_events h)) \<and> set (deleted (h_events h)) = set (created (h_events h))"
proof -
  have gone: "set (deleted (h_events h)) = {a. a < h_next h \<and> h_objects h a = None}"
    and made: "created (h_events h) = [0..<h_next h]" and d: "distinct (deleted (h_events h))"
    using assms(1) unfolding heap_log_ok_def by blast+
  have "set (deleted (h_events h)) = set [0..<h_next h]"
    unfolding gone using assms(2) by (simp add: set_eq_iff)
  then show ?thesis unfolding made using d by blast
qed

lemma empty_log [simp]: "heap_log_ok empty_heap"
  by (simp add: heap_log_ok_def empty_heap_def)

section \<open>Output\<close>

definition print_text :: "string \<Rightarrow> 'a heap \<Rightarrow> 'a heap" where
  "print_text t h = h\<lparr>h_events := h_events h @ [Printed t]\<rparr>"

end
