(* ===== verification/Unique_Ptr.thy ===== *)
theory Unique_Ptr
  imports Cpp_Heap
begin

text \<open>
  \<open>containers/unique_ptr.hpp\<close> (\<open>UniquePtr\<close>, which cannot give its object away) and
  \<open>impl/simple_unique_ptr.cpp\<close> (\<open>SimpleUniquePtr\<close>, with move construction, \<open>release\<close>, \<open>reset\<close> and
  \<open>swap\<close>), over the heap of \<open>Cpp_Heap\<close>. Pointer variables are numbered; \<open>None\<close> in a variable
  that exists is \<open>nullptr\<close>.

  \<open>SimpleUniquePtr::operator=(SimpleUniquePtr&&)\<close> compares \<open>this\<close> with the object \<open>o\<close> and cannot be
  instantiated; it is not modelled.
\<close>

section \<open>\<open>SimpleUniquePtr\<close>\<close>

text \<open>
  A member works on the value of \<open>ptr_\<close>; the member functions that also touch another pointer take
  and return both.
\<close>

definition up_default :: "nat option" where
  "up_default = None"

definition up_get :: "nat option \<Rightarrow> nat option" where
  "up_get p = p"

definition up_bool :: "nat option \<Rightarrow> bool" where
  "up_bool p \<longleftrightarrow> p \<noteq> None"

definition up_destroy :: "nat option \<Rightarrow> 'a heap \<Rightarrow> 'a heap" where
  "up_destroy p h = delete_ptr p h"

text \<open>\<open>release\<close>: what it returns, and the new \<open>ptr_\<close>.\<close>

definition up_release :: "nat option \<Rightarrow> nat option \<times> nat option" where
  "up_release p = (p, None)"

text \<open>\<open>SimpleUniquePtr(SimpleUniquePtr&& o)\<close>: the new pointer's and \<open>o\<close>'s \<open>ptr_\<close>.\<close>

definition up_move :: "nat option \<Rightarrow> nat option \<times> nat option" where
  "up_move other = up_release other"

definition up_reset :: "nat option \<Rightarrow> nat option \<Rightarrow> 'a heap \<Rightarrow> nat option \<times> 'a heap" where
  "up_reset new_ptr p h = (if p = new_ptr then (p, h) else (new_ptr, delete_ptr p h))"

definition up_swap :: "nat option \<Rightarrow> nat option \<Rightarrow> nat option \<times> nat option" where
  "up_swap p q = (q, p)"

definition make_simple_unique :: "'a \<Rightarrow> 'a heap \<Rightarrow> nat option \<times> 'a heap" where
  "make_simple_unique x h = (case new_object x h of (a, h') \<Rightarrow> (Some a, h'))"

section \<open>Programs over pointer variables\<close>

text \<open>
  What a program may do: \<open>vars\<close> are the pointer objects alive (a variable that does not exist is
  outside the domain), \<open>raw\<close> the raw pointers it got from \<open>release\<close> and owes a \<open>delete\<close>.
\<close>

datatype 'a up_op =
    Declare nat
  | Make nat 'a
  | Move_Construct nat nat
  | Reset nat
  | Reset_New nat 'a
  | Release nat
  | Delete_Raw
  | Swap nat nat
  | Leave_Scope nat

record 'a up_state =
  us_vars :: "(nat \<times> nat option) list"
  us_raw :: "nat option list"
  us_heap :: "'a heap"

definition set_var :: "nat \<Rightarrow> nat option \<Rightarrow> (nat \<times> nat option) list \<Rightarrow> (nat \<times> nat option) list" where
  "set_var v p vs = map (\<lambda>(w, q). if w = v then (v, p) else (w, q)) vs"

definition remove_var :: "nat \<Rightarrow> (nat \<times> nat option) list \<Rightarrow> (nat \<times> nat option) list" where
  "remove_var v vs = filter (\<lambda>(w, q). w \<noteq> v) vs"

fun up_do :: "'a up_op \<Rightarrow> 'a up_state \<Rightarrow> 'a up_state" where
  "up_do (Declare v) s =
     (if map_of (us_vars s) v = None then s\<lparr>us_vars := (v, up_default) # us_vars s\<rparr> else s)"
| "up_do (Make v x) s =
     (if map_of (us_vars s) v = None
      then case make_simple_unique x (us_heap s) of
          (p, h) \<Rightarrow> s\<lparr>us_vars := (v, p) # us_vars s, us_heap := h\<rparr>
      else s)"
| "up_do (Move_Construct v w) s =
     (case (map_of (us_vars s) v, map_of (us_vars s) w) of
        (None, Some q) \<Rightarrow> (case up_move q of (p, q') \<Rightarrow> s\<lparr>us_vars := (v, p) # set_var w q' (us_vars s)\<rparr>)
      | _ \<Rightarrow> s)"
| "up_do (Reset v) s =
     (case map_of (us_vars s) v of
        Some p \<Rightarrow> (case up_reset None p (us_heap s) of
            (p', h) \<Rightarrow> s\<lparr>us_vars := set_var v p' (us_vars s), us_heap := h\<rparr>)
      | None \<Rightarrow> s)"
| "up_do (Reset_New v x) s =
     (case map_of (us_vars s) v of
        Some p \<Rightarrow> (case new_object x (us_heap s) of
            (a, h) \<Rightarrow> (case up_reset (Some a) p h of
              (p', h') \<Rightarrow> s\<lparr>us_vars := set_var v p' (us_vars s), us_heap := h'\<rparr>))
      | None \<Rightarrow> s)"
| "up_do (Release v) s =
     (case map_of (us_vars s) v of
        Some p \<Rightarrow> (case up_release p of
            (r, p') \<Rightarrow> s\<lparr>us_vars := set_var v p' (us_vars s), us_raw := r # us_raw s\<rparr>)
      | None \<Rightarrow> s)"
| "up_do Delete_Raw s =
     (case us_raw s of
        r # rs \<Rightarrow> s\<lparr>us_raw := rs, us_heap := delete_ptr r (us_heap s)\<rparr>
      | [] \<Rightarrow> s)"
| "up_do (Swap v w) s =
     (case (map_of (us_vars s) v, map_of (us_vars s) w) of
        (Some p, Some q) \<Rightarrow>
          (case up_swap p q of (p', q') \<Rightarrow> s\<lparr>us_vars := set_var w q' (set_var v p' (us_vars s))\<rparr>)
      | _ \<Rightarrow> s)"
| "up_do (Leave_Scope v) s =
     (case map_of (us_vars s) v of
        Some p \<Rightarrow> s\<lparr>us_vars := remove_var v (us_vars s), us_heap := up_destroy p (us_heap s)\<rparr>
      | None \<Rightarrow> s)"

definition up_start :: "'a up_state" where
  "up_start = \<lparr>us_vars = [], us_raw = [], us_heap = empty_heap\<rparr>"

text \<open>The end of the program: the owed deletes, then the destructors of the variables.\<close>

definition up_finish :: "'a up_state \<Rightarrow> 'a heap" where
  "up_finish s = fold (\<lambda>(v, p). up_destroy p) (us_vars s) (fold delete_ptr (us_raw s) (us_heap s))"

section \<open>Ownership\<close>

text \<open>The pointers that own something: a multiset, so that an object with two owners shows.\<close>

definition ptr_addr :: "nat option \<Rightarrow> nat multiset" where
  "ptr_addr p = (case p of None \<Rightarrow> {#} | Some a \<Rightarrow> {#a#})"

definition owners :: "'a up_state \<Rightarrow> nat multiset" where
  "owners s = sum_list (map (\<lambda>(v, p). ptr_addr p) (us_vars s)) + sum_list (map ptr_addr (us_raw s))"

definition heap_owned :: "nat multiset \<Rightarrow> 'a heap \<Rightarrow> bool" where
  "heap_owned os h \<longleftrightarrow> \<not> h_ub h \<and> (\<forall>a. count os a = (if h_objects h a = None then 0 else 1)) \<and>
     (\<forall>a\<ge>h_next h. h_objects h a = None)"

definition up_inv :: "'a up_state \<Rightarrow> bool" where
  "up_inv s \<longleftrightarrow> distinct (map fst (us_vars s)) \<and> heap_owned (owners s) (us_heap s)"

lemma ptr_addr_simps [simp]: "ptr_addr None = {#}" "ptr_addr (Some a) = {#a#}"
  by (simp_all add: ptr_addr_def)

lemma owned_new:
  assumes "heap_owned os h"
  shows "heap_owned (add_mset (h_next h) os) (snd (new_object x h))"
  using assms by (auto simp: heap_owned_def new_object_def)

lemma owned_delete:
  assumes "heap_owned (os + ptr_addr p) h"
  shows "heap_owned os (delete_ptr p h)"
proof (cases p)
  case None
  then show ?thesis using assms by (simp add: delete_ptr_def)
next
  case (Some a)
  have c: "count os b + (if b = a then 1 else 0) = (if h_objects h b = None then 0 else 1)" for b
  proof -
    have "count (os + {#a#}) b = (if h_objects h b = None then 0 else 1)"
      using assms Some by (simp add: heap_owned_def)
    then show ?thesis by (simp split: if_splits)
  qed
  obtain x where x: "h_objects h a = Some x" using c [of a] by (auto split: if_splits)
  have "count os b = (if b = a \<or> h_objects h b = None then 0 else 1)" for b
    using c [of b] x by (auto split: if_splits)
  then show ?thesis using assms x Some by (auto simp: heap_owned_def delete_ptr_def)
qed

text \<open>Overwriting a variable's pointer exchanges one owner for another.\<close>

lemma set_var_fst [simp]: "map fst (set_var v p vs) = map fst vs"
  by (induction vs) (auto simp: set_var_def)

lemma set_var_notin: "v \<notin> fst ` set vs \<Longrightarrow> set_var v p vs = vs"
  by (induction vs) (auto simp: set_var_def)

lemma set_var_owners:
  "distinct (map fst vs) \<Longrightarrow> map_of vs v = Some p \<Longrightarrow>
    sum_list (map (\<lambda>(v, p). ptr_addr p) (set_var v p' vs)) + ptr_addr p =
    sum_list (map (\<lambda>(v, p). ptr_addr p) vs) + ptr_addr p'"
proof (induction vs)
  case (Cons wq vs)
  obtain w q where wq: "wq = (w, q)" by (cases wq)
  have step: "set_var v p' (wq # vs) = (if w = v then (v, p') # set_var v p' vs else (w, q) # set_var v p' vs)"
    by (simp add: set_var_def wq)
  show ?case
  proof (cases "w = v")
    case True
    then have "set_var v p' vs = vs" using Cons.prems wq by (intro set_var_notin) auto
    then show ?thesis using True Cons.prems step by (simp add: wq add_ac)
  next
    case False
    then show ?thesis using Cons step by (simp add: wq add_ac)
  qed
qed simp

lemma remove_var_notin: "v \<notin> fst ` set vs \<Longrightarrow> remove_var v vs = vs"
  by (induction vs) (auto simp: remove_var_def)

lemma remove_var_owners:
  "distinct (map fst vs) \<Longrightarrow> map_of vs v = Some p \<Longrightarrow>
    sum_list (map (\<lambda>(v, p). ptr_addr p) (remove_var v vs)) + ptr_addr p =
    sum_list (map (\<lambda>(v, p). ptr_addr p) vs)"
proof (induction vs)
  case (Cons wq vs)
  obtain w q where wq: "wq = (w, q)" by (cases wq)
  show ?case
  proof (cases "w = v")
    case True
    then have "remove_var v vs = vs" using Cons.prems wq by (intro remove_var_notin) auto
    then show ?thesis using True Cons.prems by (simp add: wq add_ac remove_var_def)
  next
    case False
    then show ?thesis using Cons by (simp add: wq add_ac remove_var_def)
  qed
qed simp

lemma remove_var_distinct: "distinct (map fst vs) \<Longrightarrow> distinct (map fst (remove_var v vs))"
  unfolding remove_var_def by (induction vs) auto

lemma map_of_set_var: "map_of (set_var v p vs) w =
    (if w = v then (case map_of vs v of None \<Rightarrow> None | Some _ \<Rightarrow> Some p) else map_of vs w)"
  by (induction vs) (auto simp: set_var_def split: option.splits)


lemma up_do_inv:
  assumes "up_inv s"
  shows "up_inv (up_do op s)"
proof (cases op)
  case (Declare v)
  then show ?thesis using assms
    by (auto simp: up_inv_def owners_def up_default_def map_of_eq_None_iff)
next
  case (Make v x)
  then show ?thesis using assms owned_new [of "owners s" "us_heap s" x]
    by (auto simp: up_inv_def owners_def make_simple_unique_def new_object_def map_of_eq_None_iff)
next
  case (Move_Construct v w)
  show ?thesis
  proof (cases "map_of (us_vars s) v = None \<and> map_of (us_vars s) w \<noteq> None")
    case True
    then obtain q where q: "map_of (us_vars s) w = Some q" by auto
    have "v \<notin> fst ` set (set_var w None (us_vars s))"
      using True set_var_fst [of w None "us_vars s"] by (metis list.set_map map_of_eq_None_iff)
    then show ?thesis using True q assms set_var_owners [OF _ q, of None] Move_Construct
      by (auto simp: up_inv_def owners_def up_move_def up_release_def add_ac)
  next
    case False
    then show ?thesis using assms Move_Construct by (auto split: option.splits)
  qed
next
  case (Reset v)
  show ?thesis
  proof (cases "map_of (us_vars s) v")
    case (Some p)
    have own: "sum_list (map (\<lambda>(v, p). ptr_addr p) (set_var v None (us_vars s))) + ptr_addr p =
        sum_list (map (\<lambda>(v, p). ptr_addr p) (us_vars s))"
      using assms Some set_var_owners [of "us_vars s" v p None] by (simp add: up_inv_def)
    let ?rest = "sum_list (map (\<lambda>(v, p). ptr_addr p) (set_var v None (us_vars s))) +
        sum_list (map ptr_addr (us_raw s))"
    have "owners s = ?rest + ptr_addr p" unfolding owners_def own [symmetric] by (simp add: add_ac)
    then have "heap_owned ?rest (delete_ptr p (us_heap s))"
      using assms by (intro owned_delete) (simp add: up_inv_def)
    then show ?thesis using Some Reset assms
      by (cases p) (auto simp: up_inv_def owners_def up_reset_def delete_ptr_def)
  qed (use Reset assms in simp)
next
  case (Reset_New v x)
  show ?thesis
  proof (cases "map_of (us_vars s) v")
    case (Some p)
    let ?h = "us_heap s"
    have fresh: "p \<noteq> Some (h_next ?h)"
    proof
      assume p: "p = Some (h_next ?h)"
      have "ptr_addr p \<subseteq># owners s"
        using set_var_owners [OF _ Some, of None] assms unfolding up_inv_def owners_def
        by (metis add.right_neutral mset_subset_eq_add_right ptr_addr_simps(1) subset_mset.add_increasing2 subset_mset.zero_le)
      then have "count (owners s) (h_next ?h) > 0" using p by (simp add: mset_subset_eq_single)
      then show False using assms unfolding up_inv_def heap_owned_def by (metis le_refl less_irrefl)
    qed
    have own: "sum_list (map (\<lambda>(v, p). ptr_addr p) (set_var v (Some (h_next ?h)) (us_vars s))) + ptr_addr p =
        sum_list (map (\<lambda>(v, p). ptr_addr p) (us_vars s)) + {#h_next ?h#}"
      using assms Some set_var_owners [of "us_vars s" v p "Some (h_next ?h)"] by (simp add: up_inv_def)
    let ?rest = "sum_list (map (\<lambda>(v, p). ptr_addr p) (set_var v (Some (h_next ?h)) (us_vars s))) +
        sum_list (map ptr_addr (us_raw s))"
    have "add_mset (h_next ?h) (owners s) = ?rest + ptr_addr p"
      using own by (simp add: owners_def add_ac)
    then have "heap_owned ?rest (delete_ptr p (snd (new_object x ?h)))"
      using assms owned_new [of "owners s" ?h x] by (intro owned_delete) (simp add: up_inv_def)
    then show ?thesis using Some Reset_New assms fresh
      by (auto simp: up_inv_def owners_def up_reset_def new_object_def)
  qed (use Reset_New assms in simp)
next
  case (Release v)
  show ?thesis
  proof (cases "map_of (us_vars s) v")
    case (Some p)
    have "sum_list (map (\<lambda>(v, p). ptr_addr p) (set_var v None (us_vars s))) + ptr_addr p =
        sum_list (map (\<lambda>(v, p). ptr_addr p) (us_vars s))"
      using assms Some set_var_owners [of "us_vars s" v p None] by (simp add: up_inv_def)
    then have "owners (up_do op s) = owners s"
      using Some Release by (simp add: owners_def up_release_def add_ac)
    then show ?thesis using assms Some Release by (simp add: up_inv_def up_release_def)
  qed (use Release assms in simp)
next
  case Delete_Raw
  show ?thesis
  proof (cases "us_raw s")
    case (Cons r rs)
    have "heap_owned (sum_list (map (\<lambda>(v, p). ptr_addr p) (us_vars s)) + sum_list (map ptr_addr rs))
        (delete_ptr r (us_heap s))"
      using assms Cons by (intro owned_delete) (simp add: up_inv_def owners_def add_ac)
    then show ?thesis using assms Cons Delete_Raw by (simp add: up_inv_def owners_def)
  qed (use Delete_Raw assms in simp)
next
  case (Swap v w)
  show ?thesis
  proof (cases "map_of (us_vars s) v \<noteq> None \<and> map_of (us_vars s) w \<noteq> None")
    case True
    then obtain p q where pq: "map_of (us_vars s) v = Some p" "map_of (us_vars s) w = Some q" by auto
    have d: "distinct (map fst (us_vars s))" using assms by (simp add: up_inv_def)
    have "map_of (set_var v q (us_vars s)) w = Some (if w = v then q else q)"
      using pq by (simp add: map_of_set_var)
    then have "sum_list (map (\<lambda>(v, p). ptr_addr p) (set_var w p (set_var v q (us_vars s)))) =
        sum_list (map (\<lambda>(v, p). ptr_addr p) (us_vars s))"
      using set_var_owners [of "set_var v q (us_vars s)" w q p] set_var_owners [OF d pq(1), of q] d
      by (simp add: add_ac)
    then show ?thesis using pq Swap assms by (simp add: up_inv_def owners_def up_swap_def)
  next
    case False
    then show ?thesis using assms Swap by (auto split: option.splits)
  qed
next
  case (Leave_Scope v)
  show ?thesis
  proof (cases "map_of (us_vars s) v")
    case (Some p)
    let ?rest = "sum_list (map (\<lambda>(v, p). ptr_addr p) (remove_var v (us_vars s))) +
        sum_list (map ptr_addr (us_raw s))"
    have "sum_list (map (\<lambda>(v, p). ptr_addr p) (us_vars s)) =
        sum_list (map (\<lambda>(v, p). ptr_addr p) (remove_var v (us_vars s))) + ptr_addr p"
      using assms remove_var_owners [of "us_vars s" v p] Some by (simp add: up_inv_def)
    then have "owners s = ?rest + ptr_addr p" by (simp add: owners_def add_ac)
    then have "heap_owned ?rest (delete_ptr p (us_heap s))"
      using assms by (intro owned_delete) (simp add: up_inv_def)
    then show ?thesis using assms Some Leave_Scope remove_var_distinct
      by (auto simp: up_inv_def owners_def up_destroy_def)
  qed (use Leave_Scope assms in simp)
qed

section \<open>Every operation keeps the record of the heap\<close>

lemma reset_log: "heap_log_ok h \<Longrightarrow> heap_log_ok (snd (up_reset q p h))"
  by (simp add: up_reset_def delete_log)

lemma up_do_log: "heap_log_ok (us_heap s) \<Longrightarrow> heap_log_ok (us_heap (up_do op s))"
  by (cases op)
     (auto simp: make_simple_unique_def up_destroy_def split_def intro: new_log delete_log reset_log
       split: option.splits list.splits)

lemma up_run: "up_inv s \<and> heap_log_ok (us_heap s) \<Longrightarrow>
    up_inv (fold up_do ops s) \<and> heap_log_ok (us_heap (fold up_do ops s))"
  by (induction ops arbitrary: s) (auto simp: up_do_inv up_do_log)

lemma up_start_ok: "up_inv up_start \<and> heap_log_ok (us_heap up_start)"
  by (simp add: up_inv_def up_start_def empty_heap_def owners_def heap_owned_def heap_log_ok_def)

lemma fold_delete:
  "heap_owned (sum_list (map ptr_addr ps) + os) h \<Longrightarrow> heap_log_ok h \<Longrightarrow>
    heap_owned os (fold delete_ptr ps h) \<and> heap_log_ok (fold delete_ptr ps h)"
proof (induction ps arbitrary: h)
  case (Cons p ps)
  have "heap_owned (sum_list (map ptr_addr ps) + os) (delete_ptr p h)"
    using Cons.prems(1) by (intro owned_delete) (simp add: add_ac)
  then show ?case using Cons.IH delete_log [OF Cons.prems(2)] by simp
qed simp

lemma up_destroy_eq: "up_destroy = delete_ptr"
  by (simp add: fun_eq_iff up_destroy_def)

lemma finish_ok:
  assumes "up_inv s" and "heap_log_ok (us_heap s)"
  shows "heap_owned {#} (up_finish s) \<and> heap_log_ok (up_finish s)"
proof -
  let ?vs = "map snd (us_vars s)"
  have vars: "sum_list (map (\<lambda>(v, p). ptr_addr p) (us_vars s)) = sum_list (map ptr_addr ?vs)"
    by (simp add: comp_def split_def)
  have "heap_owned (sum_list (map ptr_addr ?vs) + {#}) (fold delete_ptr (us_raw s) (us_heap s)) \<and>
      heap_log_ok (fold delete_ptr (us_raw s) (us_heap s))"
    using assms by (intro fold_delete) (simp_all add: up_inv_def owners_def vars add_ac)
  then have "heap_owned {#} (fold delete_ptr ?vs (fold delete_ptr (us_raw s) (us_heap s))) \<and>
      heap_log_ok (fold delete_ptr ?vs (fold delete_ptr (us_raw s) (us_heap s)))"
    by (intro fold_delete) auto
  then show ?thesis by (simp add: up_finish_def fold_map comp_def split_def up_destroy_eq)
qed

section \<open>The example programs\<close>

text \<open>What the constructors and destructors of \<open>Widget\<close> and \<open>Item\<close> print, and the program's own lines.\<close>

fun widget_output :: "string heap_event list \<Rightarrow> string" where
  "widget_output [] = []"
| "widget_output (Object_Created a name # es) = line_out (''Constructing '' @ name) @ widget_output es"
| "widget_output (Object_Deleted a name # es) = line_out (''Destroying '' @ name) @ widget_output es"
| "widget_output (Printed t # es) = t @ widget_output es"

definition widget_greet :: "nat option \<Rightarrow> string heap \<Rightarrow> string heap result" where
  "widget_greet p h = bind_result (read_object p h) (\<lambda>name. Inr (print_text (line_out (''Hello from '' @ name)) h))"

definition show_bool :: "bool \<Rightarrow> string" where
  "show_bool b = (if b then ''true'' else ''false'')"

definition simple_unique_main :: "string heap result" where
  "simple_unique_main =
     (let h = print_text (line_out ''Create first pointer'') empty_heap in
      case make_simple_unique ''first'' h of (first, h) \<Rightarrow>
      bind_result (widget_greet first h) (\<lambda>h.
      let h = print_text (line_out (newline @ ''Move first into second'')) h in
      case up_move first of (second, first) \<Rightarrow>
      let h = print_text (line_out (''first owns an object: '' @ show_bool (up_bool first))) h;
          h = print_text (line_out (''second owns an object: '' @ show_bool (up_bool second))) h in
      bind_result (widget_greet second h) (\<lambda>h.
      let h = print_text (line_out (newline @ ''Reset second with a new object'')) h in
      case new_object ''replacement'' h of (a, h) \<Rightarrow>
      case up_reset (Some a) second h of (second, h) \<Rightarrow>
      bind_result (widget_greet second h) (\<lambda>h.
      let h = print_text (line_out (newline @ ''Release ownership'')) h in
      case up_release second of (raw, second) \<Rightarrow>
      let h = print_text (line_out (''second owns an object: '' @ show_bool (up_bool second))) h;
          h = delete_ptr raw h;
          h = print_text (line_out (newline @ ''End of main'')) h in
      Inr (up_destroy first (up_destroy second h))))))"

section \<open>\<open>UniquePtr\<close>\<close>

definition uq_construct :: "nat option \<Rightarrow> nat option" where
  "uq_construct ptr = ptr"

definition uq_destroy :: "nat option \<Rightarrow> 'a heap \<Rightarrow> 'a heap" where
  "uq_destroy ptr h = delete_ptr ptr h"

definition uq_get :: "nat option \<Rightarrow> nat option" where
  "uq_get ptr = ptr"

definition uq_bool :: "nat option \<Rightarrow> bool" where
  "uq_bool ptr \<longleftrightarrow> ptr \<noteq> None"

text \<open>\<open>operator*\<close> and \<open>operator->\<close>, read and written through.\<close>

definition uq_deref :: "nat option \<Rightarrow> 'a heap \<Rightarrow> 'a result" where
  "uq_deref ptr h = read_object ptr h"

definition uq_assign :: "nat option \<Rightarrow> 'a \<Rightarrow> 'a heap \<Rightarrow> 'a heap" where
  "uq_assign ptr x h = write_object ptr x h"

fun item_output :: "int heap_event list \<Rightarrow> string" where
  "item_output [] = []"
| "item_output (Object_Created a n # es) = line_out (''Item constructed: '' @ show_int n) @ item_output es"
| "item_output (Object_Deleted a n # es) = line_out (''Item destroyed: '' @ show_int n) @ item_output es"
| "item_output (Printed t # es) = t @ item_output es"

definition unique_ptr_example :: "int heap result" where
  "unique_ptr_example =
     (let empty_ptr = uq_construct None;
          h = print_text (line_out (''empty owns an object: '' @ show_bool (uq_bool empty_ptr))) empty_heap in
      case new_object 42 h of (a, h) \<Rightarrow>
      let owner = uq_construct (Some a) in
      bind_result
        (if uq_bool owner
         then bind_result (uq_deref owner h) (\<lambda>v.
           Inr (uq_assign owner 43 (print_text (line_out (''owned value: '' @ show_int v)) h)))
         else Inr h) (\<lambda>h.
      let h = uq_destroy owner h; h = print_text (line_out ''owner scope finished'') h in
      Inr (uq_destroy empty_ptr h)))"

section \<open>Properties\<close>

text \<open>
  C20: Exclusive ownership. Whatever a program does with \<open>SimpleUniquePtr\<close> variables (make, move
  construct, \<open>reset\<close>, \<open>release\<close>, \<open>swap\<close>, leave a scope, self-moves and self-swaps included), if it
  deletes what it released, then at its end nothing undefined happened and every object created was
  deleted exactly once, and no other address was.
\<close>

theorem unique_ptr_no_leak:
  "let h = up_finish (fold up_do ops up_start) in
    \<not> h_ub h \<and> distinct (created (h_events h)) \<and> distinct (deleted (h_events h)) \<and>
    set (deleted (h_events h)) = set (created (h_events h))"
proof -
  let ?h = "up_finish (fold up_do ops up_start)"
  have "heap_owned {#} ?h \<and> heap_log_ok ?h" using finish_ok up_run [OF up_start_ok] by blast
  then show ?thesis by (auto simp: heap_owned_def heap_log_ok_def Let_def split: if_splits)
qed

text \<open>
  In every state of such a program an object has exactly one owner: each live object is held by
  one pointer variable or one released raw pointer, and no pointer dangles.
\<close>

theorem unique_ptr_single_owner:
  "let s = fold up_do ops up_start in
    \<not> h_ub (us_heap s) \<and> count (owners s) a = (if h_objects (us_heap s) a = None then 0 else 1)"
  using up_run [OF up_start_ok, of ops] by (simp add: up_inv_def heap_owned_def Let_def)

text \<open>
  The two example programs run without undefined behaviour, leave no object behind, and print
  what their destructors promise: the moved-from pointer is empty, \<open>reset\<close> destroys the first widget
  after the replacement is constructed, the released one is destroyed by the explicit \<open>delete\<close>; the
  item is destroyed at the end of its owner's scope with the value written through the pointer.
\<close>

theorem unique_ptr_examples:
  "(\<exists>h. simple_unique_main = Inr h \<and> \<not> h_ub h \<and> h_objects h 0 = None \<and> h_objects h 1 = None \<and>
     widget_output (h_events h) =
       line_out ''Create first pointer'' @ line_out ''Constructing first'' @ line_out ''Hello from first'' @
       line_out (newline @ ''Move first into second'') @ line_out ''first owns an object: false'' @
       line_out ''second owns an object: true'' @ line_out ''Hello from first'' @
       line_out (newline @ ''Reset second with a new object'') @ line_out ''Constructing replacement'' @
       line_out ''Destroying first'' @ line_out ''Hello from replacement'' @
       line_out (newline @ ''Release ownership'') @ line_out ''second owns an object: false'' @
       line_out ''Destroying replacement'' @ line_out (newline @ ''End of main'')) \<and>
   (\<exists>h. unique_ptr_example = Inr h \<and> \<not> h_ub h \<and> h_objects h 0 = None \<and>
     item_output (h_events h) =
       line_out ''empty owns an object: false'' @ line_out ''Item constructed: 42'' @
       line_out ''owned value: 42'' @ line_out ''Item destroyed: 43'' @ line_out ''owner scope finished'')"
proof -
  have "show_int 42 = ''42''" "show_int 43 = ''43''" by (simp_all add: show_simps)
  then show ?thesis
    by (simp add: simple_unique_main_def unique_ptr_example_def make_simple_unique_def new_object_def
        widget_greet_def read_object_def print_text_def up_move_def up_release_def up_reset_def up_bool_def
        delete_ptr_def up_destroy_def empty_heap_def show_bool_def uq_construct_def uq_destroy_def
        uq_bool_def uq_deref_def uq_assign_def write_object_def Let_def)
qed

end
