(* ===== verification/Trees.thy ===== *)
theory Trees
  imports Cpp_Prelude
begin

text \<open>
  \<open>algorithms/trees/trees.cpp\<close>: binary trees and classic questions about them. A \<open>tree_node*\<close> is
  \<open>Null\<close> or a node with its address, its \<open>data\<close> and its children (the programs build trees without
  sharing); \<open>right_next\<close>, which only \<open>connect_nodes\<close> writes, is a separate map from addresses. The
  sums are mathematical integers: the functions say nothing about sums outside \<open>int\<close>, which are
  undefined in C++. A \<open>std::queue\<close> is a list, front first; the queues only ever hold nodes, and the
  branch for \<open>Null\<close> in their loops is never taken. \<open>sum_of_distances_in_tree\<close>, which is about general
  graphs, is in \<open>Tree_Distances\<close>.
\<close>

section \<open>Trees\<close>

datatype tree_node = Null | Tree_Node (addr: nat) (data: int) (left: tree_node) (right: tree_node)

fun height_recursion :: "tree_node \<Rightarrow> int" where
  "height_recursion Null = - 1"
| "height_recursion (Tree_Node a d l r) = 1 + max (height_recursion l) (height_recursion r)"

definition push_child :: "tree_node \<Rightarrow> tree_node list" where
  "push_child t = (if t = Null then [] else [t])"

text \<open>The inner loop over one level: \<open>k\<close> nodes leave the front, their children enter at the back.\<close>

fun scan_level :: "nat \<Rightarrow> tree_node list \<Rightarrow> tree_node list" where
  "scan_level 0 q = q"
| "scan_level (Suc k) (Tree_Node a d l r # q) = scan_level k (q @ push_child l @ push_child r)"
| "scan_level (Suc k) (Null # q) = scan_level k q"
| "scan_level (Suc k) [] = []"

fun weight :: "tree_node \<Rightarrow> nat" where
  "weight Null = 1"
| "weight (Tree_Node a d l r) = Suc (weight l + weight r)"

definition queue_weight :: "tree_node list \<Rightarrow> nat" where
  "queue_weight q = sum_list (map weight q)"

lemma queue_weight_simps [simp]:
  "queue_weight [] = 0" "queue_weight (t # q) = weight t + queue_weight q"
  "queue_weight (p @ q) = queue_weight p + queue_weight q"
  by (simp_all add: queue_weight_def)

lemma queue_weight_push: "queue_weight (push_child t) \<le> weight t"
  by (simp add: push_child_def)

lemma weight_pos: "0 < weight t"
  by (cases t) auto

lemma scan_level_weight: "queue_weight (scan_level k q) + min k (length q) \<le> queue_weight q"
proof (induction k q rule: scan_level.induct)
  case (2 k a d l r q)
  then show ?case using queue_weight_push [of l] queue_weight_push [of r] by (auto simp: min_def split: if_splits)
qed auto

lemma scan_level_less: "q \<noteq> [] \<Longrightarrow> queue_weight (scan_level (length q) q) < queue_weight q"
  using scan_level_weight [of "length q" q] by (cases q) auto

function level_loop :: "tree_node list \<Rightarrow> int \<Rightarrow> int" where
  "level_loop q depth = (if q = [] then depth else level_loop (scan_level (length q) q) (depth + 1))"
  by auto
termination
proof (relation "measure (\<lambda>(q, d). queue_weight q)")
  fix q :: "tree_node list" and d :: int
  assume "q \<noteq> []"
  then show "((scan_level (length q) q, d + 1), q, d) \<in> measure (\<lambda>(q, d). queue_weight q)"
    using scan_level_less [of q] by simp
qed simp

declare level_loop.simps [simp del]

definition height_levelorder :: "tree_node \<Rightarrow> int" where
  "height_levelorder root = (if root = Null then 0 else level_loop [root] 0 - 1)"

fun child_data :: "tree_node \<Rightarrow> int" where
  "child_data Null = 0"
| "child_data (Tree_Node a d l r) = d"

fun children_sum_recursion :: "tree_node \<Rightarrow> bool" where
  "children_sum_recursion Null = True"
| "children_sum_recursion (Tree_Node a d l r) =
     (if l = Null \<and> r = Null then True
      else child_data l + child_data r = d \<and> children_sum_recursion l \<and> children_sum_recursion r)"

function children_sum_loop :: "tree_node list \<Rightarrow> bool" where
  "children_sum_loop [] = True"
| "children_sum_loop (Null # q) = children_sum_loop q"
| "children_sum_loop (Tree_Node a d l r # q) =
     (if l = Null \<and> r = Null then children_sum_loop q
      else if child_data l + child_data r \<noteq> d then False
      else children_sum_loop (q @ push_child l @ push_child r))"
  by pat_completeness auto
termination
proof (relation "measure queue_weight")
  fix a d l r q
  show "(q @ push_child l @ push_child r, Tree_Node a d l r # q) \<in> measure queue_weight"
    using queue_weight_push [of l] queue_weight_push [of r] by simp
qed (simp_all add: weight_pos)

definition children_sum_queue :: "tree_node \<Rightarrow> bool" where
  "children_sum_queue root = (if root = Null then True else children_sum_loop [root])"

text \<open>
  \<open>connect_nodes\<close>: the inner loop with \<open>k\<close> nodes to go links each node to the new front of the queue,
  the last of the level to \<open>nullptr\<close>.
\<close>

fun connect_level ::
  "nat \<Rightarrow> tree_node list \<Rightarrow> (nat \<Rightarrow> nat option) \<Rightarrow> tree_node list \<times> (nat \<Rightarrow> nat option)" where
  "connect_level 0 q m = (q, m)"
| "connect_level (Suc k) (Tree_Node a d l r # q) m =
     connect_level k (q @ push_child l @ push_child r) (m(a := (if k = 0 then None else Some (addr (hd q)))))"
| "connect_level (Suc k) (Null # q) m = connect_level k q m"
| "connect_level (Suc k) [] m = ([], m)"

lemma connect_level_queue: "fst (connect_level k q m) = scan_level k q"
  by (induction k q arbitrary: m rule: scan_level.induct) simp_all

function connect_loop :: "tree_node list \<Rightarrow> (nat \<Rightarrow> nat option) \<Rightarrow> (nat \<Rightarrow> nat option)" where
  "connect_loop q m =
     (if q = [] then m
      else case connect_level (length q) q m of (q', m') \<Rightarrow> connect_loop q' m')"
  by auto
termination
proof (relation "measure (\<lambda>(q, m). queue_weight q)", goal_cases)
  case (2 q m q' m')
  then have "q' = scan_level (length q) q" using connect_level_queue [of "length q" q m] by (metis fst_conv)
  then show ?case using scan_level_less [of q] 2(1) by simp
qed simp

declare connect_loop.simps [simp del]

definition connect_nodes :: "tree_node \<Rightarrow> (nat \<Rightarrow> nat option) \<Rightarrow> (nat \<Rightarrow> nat option)" where
  "connect_nodes root m = (if root = Null then m else connect_loop [root] m)"

fun lca :: "tree_node \<Rightarrow> nat \<Rightarrow> nat \<Rightarrow> nat option" where
  "lca Null t1 t2 = None"
| "lca (Tree_Node a d l r) t1 t2 =
     (if a = t1 \<or> a = t2 then Some a
      else case (lca l t1 t2, lca r t1 t2) of
          (Some _, Some _) \<Rightarrow> Some a
        | (Some x, None) \<Rightarrow> Some x
        | (None, y) \<Rightarrow> y)"

text \<open>\<open>mx_path\<close> starts at \<open>-1e9\<close>.\<close>

definition minus_inf :: int where
  "minus_inf = - 1000000000"

fun max_path_visit :: "tree_node \<Rightarrow> int \<Rightarrow> int \<Rightarrow> int" where
  "max_path_visit Null s mx_path = mx_path"
| "max_path_visit (Tree_Node a d l r) s mx_path =
     (let s' = s + d;
          mx1 = (if l = Null \<and> r = Null then max mx_path s' else mx_path)
      in max_path_visit r s' (max_path_visit l s' mx1))"

definition max_path_sum :: "tree_node \<Rightarrow> int" where
  "max_path_sum root = max_path_visit root 0 minus_inf"

text \<open>\<open>count_all_paths\<close>: \<open>pref\<close> is the \<open>unordered_map\<close>, 0 where it has no entry.\<close>

fun count_visit :: "int \<Rightarrow> tree_node \<Rightarrow> int \<Rightarrow> (int \<Rightarrow> int) \<Rightarrow> int \<times> (int \<Rightarrow> int)" where
  "count_visit k Null s pref = (0, pref)"
| "count_visit k (Tree_Node a d l r) s pref =
     (let s' = s + d;
          path = (if s' = k then 1 else 0) + pref (s' - k);
          pref1 = pref(s' := pref s' + 1);
          (pl, pref2) = count_visit k l s' pref1;
          (pr, pref3) = count_visit k r s' pref2
      in (path + pl + pr, pref3(s' := pref3 s' - 1)))"

definition count_all_paths :: "tree_node \<Rightarrow> int \<Rightarrow> int" where
  "count_all_paths root k = fst (count_visit k root 0 (\<lambda>x. 0))"

fun two_nodes_visit :: "tree_node \<Rightarrow> int \<Rightarrow> int \<times> int" where
  "two_nodes_visit Null mx = (0, mx)"
| "two_nodes_visit (Tree_Node a d l r) mx =
     (let (vl, mx1) = two_nodes_visit l mx; (vr, mx2) = two_nodes_visit r mx1
      in if l \<noteq> Null \<and> r \<noteq> Null then (d + max vl vr, max mx2 (vl + vr + d))
         else (d + (if vl \<noteq> 0 then vl else vr), mx2))"

definition max_path_sum_two_nodes :: "tree_node \<Rightarrow> int" where
  "max_path_sum_two_nodes root = snd (two_nodes_visit root minus_inf)"

section \<open>\<open>main\<close>\<close>

datatype TREE_PROBLEMS =
    MAX_HEIGHT_BT | CHILDREN_SUM | CONNECT_NODES | LCA_BT | MAXIMUM_SUM_LEAF | K_SUM_PATHS
  | MAX_PATH_SUM_TWO_NODES | SUM_OF_DISTANCES

definition leaf :: "nat \<Rightarrow> int \<Rightarrow> tree_node" where
  "leaf a d = Tree_Node a d Null Null"

fun data_at :: "tree_node \<Rightarrow> nat \<Rightarrow> int option" where
  "data_at Null b = None"
| "data_at (Tree_Node a d l r) b =
     (if a = b then Some d else case data_at l b of Some x \<Rightarrow> Some x | None \<Rightarrow> data_at r b)"

definition deref_data :: "tree_node \<Rightarrow> nat option \<Rightarrow> int result" where
  "deref_data root p = (case p of None \<Rightarrow> Inl Undefined_Behaviour | Some a \<Rightarrow> deref_optional (data_at root a))"

fun tree_problem :: "TREE_PROBLEMS \<Rightarrow> string result" where
  "tree_problem MAX_HEIGHT_BT =
     (let root = Tree_Node 0 12 (Tree_Node 1 8 (leaf 3 5) (leaf 4 11)) (leaf 2 18)
      in Inr (line_out (show_int (height_levelorder root))))"
| "tree_problem CHILDREN_SUM =
     (let root = Tree_Node 0 35 (Tree_Node 1 20 (leaf 3 15) (leaf 4 5)) (Tree_Node 2 15 (leaf 5 10) (leaf 6 5))
      in Inr (line_out (if children_sum_queue root then ''1'' else ''0'')))"
| "tree_problem CONNECT_NODES =
     (let root = Tree_Node 0 10 (Tree_Node 1 8 (leaf 3 3) Null) (Tree_Node 2 2 (leaf 4 4) Null);
          m = connect_nodes root (\<lambda>a. None)
      in bind_result (deref_data root (m 1)) (\<lambda>x. bind_result (deref_data root (m 3)) (\<lambda>y.
           Inr (line_out (''Next Right of 8 is '' @ show_int x) @ line_out (''Next Right of 3 is '' @ show_int y)))))"
| "tree_problem LCA_BT =
     (let root = Tree_Node 0 1 (leaf 1 2) (Tree_Node 2 3 (Tree_Node 3 6 (leaf 5 8) Null) (leaf 4 7))
      in bind_result (deref_data root (lca root 4 5)) (\<lambda>x. Inr (line_out (show_int x))))"
| "tree_problem MAXIMUM_SUM_LEAF =
     (let root = Tree_Node 0 10 (Tree_Node 1 (- 2) (leaf 3 8) (leaf 4 (- 4))) (leaf 2 7)
      in Inr (line_out (show_int (max_path_sum root))))"
| "tree_problem K_SUM_PATHS =
     (let root = Tree_Node 0 8
            (Tree_Node 1 4 (Tree_Node 3 3 (leaf 6 3) (leaf 7 (- 2))) (Tree_Node 4 2 Null (leaf 8 1)))
            (Tree_Node 2 5 Null (leaf 5 2))
      in Inr (line_out (show_int (count_all_paths root 7))))"
| "tree_problem MAX_PATH_SUM_TWO_NODES =
     (let root = Tree_Node 0 1 (Tree_Node 1 (- 2) (leaf 3 8) (leaf 4 (- 1))) (Tree_Node 2 3 (leaf 5 4) (leaf 6 (- 5)))
      in Inr (line_out (show_int (max_path_sum_two_nodes root))))"
| "tree_problem SUM_OF_DISTANCES = Inr []"

definition trees_main :: "string result" where
  "trees_main = tree_problem MAX_PATH_SUM_TWO_NODES"

section \<open>Levels\<close>

text \<open>The nodes of a queue, and what one round of the level loops leaves in it.\<close>

definition kids :: "tree_node \<Rightarrow> tree_node list" where
  "kids t = (case t of Null \<Rightarrow> [] | Tree_Node a d l r \<Rightarrow> push_child l @ push_child r)"

lemma kids_Node: "kids (Tree_Node a d l r) = push_child l @ push_child r"
  by (simp add: kids_def)

definition nodes_only :: "tree_node list \<Rightarrow> bool" where
  "nodes_only q \<longleftrightarrow> Null \<notin> set q"

lemma nodes_only_simps [simp]:
  "nodes_only []" "nodes_only (t # q) \<longleftrightarrow> t \<noteq> Null \<and> nodes_only q"
  "nodes_only (p @ q) \<longleftrightarrow> nodes_only p \<and> nodes_only q" "nodes_only (push_child t)"
  by (auto simp: nodes_only_def push_child_def)

lemma nodes_only_kids [simp]: "nodes_only (kids t)"
  by (cases t) (simp_all add: kids_def)

lemma nodes_only_all_kids [simp]: "nodes_only (concat (map kids q))"
  by (induction q) auto

lemma scan_level_kids:
  "nodes_only p \<Longrightarrow> scan_level (length p) (p @ q) = q @ concat (map kids p)"
proof (induction p arbitrary: q)
  case (Cons t p)
  then obtain a d l r where t: "t = Tree_Node a d l r" by (cases t) auto
  have "scan_level (length (t # p)) ((t # p) @ q) = scan_level (length p) (p @ (q @ push_child l @ push_child r))"
    by (simp add: t)
  also have "\<dots> = (q @ push_child l @ push_child r) @ concat (map kids p)"
    using Cons by (intro Cons.IH) simp
  finally show ?case by (simp add: t kids_Node)
qed simp

lemma scan_whole_level: "nodes_only q \<Longrightarrow> scan_level (length q) q = concat (map kids q)"
  using scan_level_kids [of q "[]"] by simp

text \<open>Height as a natural number of levels, and the deepest of a list.\<close>

definition depth :: "tree_node \<Rightarrow> int" where
  "depth t = height_recursion t + 1"

lemma height_recursion_ge: "- 1 \<le> height_recursion t"
  by (induction t) auto

definition max_depth :: "tree_node list \<Rightarrow> int" where
  "max_depth q = foldr (\<lambda>t m. max (depth t) m) q 0"

lemma max_depth_simps [simp]: "max_depth [] = 0" "max_depth (t # q) = max (depth t) (max_depth q)"
  by (simp_all add: max_depth_def)

lemma max_depth_nonneg: "0 \<le> max_depth q"
  by (induction q) auto

lemma max_depth_append: "max_depth (p @ q) = max (max_depth p) (max_depth q)"
  by (induction p) (auto simp: max_depth_nonneg max.absorb2)

lemma max_depth_push: "max_depth (push_child t) = depth t"
  using height_recursion_ge [of t] by (cases t) (simp_all add: push_child_def depth_def)

lemma max_depth_kids: "t \<noteq> Null \<Longrightarrow> depth t = 1 + max_depth (kids t)"
  by (cases t) (simp_all add: kids_Node max_depth_append max_depth_push, simp add: depth_def)

lemma max_depth_next:
  "nodes_only q \<Longrightarrow> q \<noteq> [] \<Longrightarrow> max_depth q = 1 + max_depth (concat (map kids q))"
proof (induction q)
  case (Cons t q)
  then show ?case
    using max_depth_kids [of t] max_depth_nonneg [of "kids t"]
    by (cases "q = []") (auto simp: max_depth_append)
qed simp

lemma level_loop_depth: "nodes_only q \<Longrightarrow> level_loop q d = d + max_depth q"
proof (induction q d rule: level_loop.induct)
  case (1 q d)
  show ?case
  proof (cases "q = []")
    case True
    then show ?thesis by (simp add: level_loop.simps [of "[]"])
  next
    case False
    then have "level_loop q d = level_loop (concat (map kids q)) (d + 1)"
      using scan_whole_level [OF "1.prems"] by (simp add: level_loop.simps [of q])
    also have "\<dots> = d + 1 + max_depth (concat (map kids q))"
      using "1.IH" [OF False] scan_whole_level [OF "1.prems"] by simp
    finally show ?thesis using max_depth_next [OF "1.prems" False] by simp
  qed
qed

lemma children_sum_loop_all: "nodes_only q \<Longrightarrow> children_sum_loop q = list_all children_sum_recursion q"
proof (induction q rule: children_sum_loop.induct)
  case (3 a d l r q)
  have p: "list_all children_sum_recursion (push_child t) = children_sum_recursion t" for t
    by (cases t) (simp_all add: push_child_def)
  from 3 show ?case by (auto simp: p)
qed auto

section \<open>Links\<close>

text \<open>The addresses on level \<open>n\<close>, from left to right.\<close>

fun level_addrs :: "nat \<Rightarrow> tree_node \<Rightarrow> nat list" where
  "level_addrs n Null = []"
| "level_addrs 0 (Tree_Node a d l r) = [a]"
| "level_addrs (Suc n) (Tree_Node a d l r) = level_addrs n l @ level_addrs n r"

fun tree_addrs :: "tree_node \<Rightarrow> nat list" where
  "tree_addrs Null = []"
| "tree_addrs (Tree_Node a d l r) = a # tree_addrs l @ tree_addrs r"

definition queue_level :: "nat \<Rightarrow> tree_node list \<Rightarrow> nat list" where
  "queue_level n q = concat (map (level_addrs n) q)"

lemma level_addrs_push: "concat (map (level_addrs n) (push_child t)) = level_addrs n t"
  by (cases t) (simp_all add: push_child_def)

lemma level_addrs_kids: "concat (map (level_addrs n) (kids t)) = level_addrs (Suc n) t"
  by (cases t) (simp_all add: kids_def level_addrs_push)

lemma queue_level_kids: "queue_level n (concat (map kids q)) = queue_level (Suc n) q"
  unfolding queue_level_def by (induction q) (simp_all add: level_addrs_kids)

lemma queue_level_0: "nodes_only q \<Longrightarrow> queue_level 0 q = map addr q"
proof (induction q)
  case (Cons t q)
  then show ?case by (cases t) (simp_all add: queue_level_def)
qed (simp add: queue_level_def)

lemma set_level_addrs: "set (level_addrs n t) \<subseteq> set (tree_addrs t)"
  by (induction n t rule: level_addrs.induct) auto

text \<open>One level: each node is linked to the next, the last to nothing, other nodes stay.\<close>

fun link_list :: "nat list \<Rightarrow> (nat \<Rightarrow> nat option) \<Rightarrow> (nat \<Rightarrow> nat option)" where
  "link_list [] m = m"
| "link_list (a # as) m = link_list as (m(a := (case as of [] \<Rightarrow> None | b # bs \<Rightarrow> Some b)))"

lemma connect_level_links:
  "nodes_only p \<Longrightarrow> nodes_only q \<Longrightarrow> snd (connect_level (length p) (p @ q) m) = link_list (map addr p) m"
proof (induction p arbitrary: q m)
  case (Cons t p)
  then obtain a d l r where t: "t = Tree_Node a d l r" by (cases t) auto
  have "hd (p @ q @ push_child l @ push_child r) = hd p" if "p \<noteq> []" using that by simp
  then show ?case
    using Cons.IH [of "q @ push_child l @ push_child r"] Cons.prems
    by (cases p) (simp_all add: t)
qed simp

lemma link_list_other: "b \<notin> set as \<Longrightarrow> link_list as m b = m b"
  by (induction as arbitrary: m) auto

lemma link_list_nth:
  "distinct as \<Longrightarrow> j < length as \<Longrightarrow>
    link_list as m (as ! j) = (if Suc j < length as then Some (as ! Suc j) else None)"
proof (induction as arbitrary: m j)
  case (Cons a as)
  show ?case
  proof (cases j)
    case 0
    then show ?thesis using Cons.prems link_list_other [of a as] by (cases as) auto
  next
    case (Suc i)
    then show ?thesis using Cons by simp
  qed
qed simp

definition queue_addrs :: "tree_node list \<Rightarrow> nat list" where
  "queue_addrs q = concat (map tree_addrs q)"

lemma queue_addrs_kids:
  "nodes_only q \<Longrightarrow> mset (queue_addrs q) = mset (map addr q) + mset (queue_addrs (concat (map kids q)))"
proof (induction q)
  case (Cons t q)
  then obtain a d l r where t: "t = Tree_Node a d l r" by (cases t) auto
  have "concat (map tree_addrs (push_child s)) = tree_addrs s" for s by (cases s) (simp_all add: push_child_def)
  then show ?case using Cons by (simp add: t queue_addrs_def kids_def)
qed (simp add: queue_addrs_def)

lemma connect_loop_other:
  "nodes_only q \<Longrightarrow> b \<notin> set (queue_addrs q) \<Longrightarrow> connect_loop q m b = m b"
proof (induction q m rule: connect_loop.induct)
  case (1 q m)
  show ?case
  proof (cases "q = []")
    case True
    then show ?thesis by (simp add: connect_loop.simps [of "[]"])
  next
    case False
    obtain q' m' where c: "connect_level (length q) q m = (q', m')" by fastforce
    have q': "q' = concat (map kids q)" and m': "m' = link_list (map addr q) m"
      using connect_level_queue [of "length q" q m] connect_level_links [of q "[]" m] c "1.prems"(1)
      by (simp_all add: scan_whole_level)
    have "set (queue_addrs q) = set (map addr q) \<union> set (queue_addrs q')"
      using mset_eq_setD [of "queue_addrs q" "map addr q @ queue_addrs q'"] queue_addrs_kids [OF "1.prems"(1)] q'
      by simp
    then have "b \<notin> set (map addr q)" "b \<notin> set (queue_addrs q')" using "1.prems"(2) by auto
    then show ?thesis
      using "1.IH" [OF False c [symmetric]] False c q' m' link_list_other
      by (simp add: connect_loop.simps [of q])
  qed
qed

lemma connect_loop_links:
  "nodes_only q \<Longrightarrow> distinct (queue_addrs q) \<Longrightarrow> j < length (queue_level n q) \<Longrightarrow>
    connect_loop q m (queue_level n q ! j) =
      (if Suc j < length (queue_level n q) then Some (queue_level n q ! Suc j) else None)"
proof (induction q m arbitrary: n rule: connect_loop.induct)
  case (1 q m)
  then have False: "q \<noteq> []" by (auto simp: queue_level_def)
  obtain q' m' where c: "connect_level (length q) q m = (q', m')" by fastforce
  have q': "q' = concat (map kids q)" and m': "m' = link_list (map addr q) m"
    using connect_level_queue [of "length q" q m] connect_level_links [of q "[]" m] c "1.prems"(1)
    by (simp_all add: scan_whole_level)
  have "mset (queue_addrs q) = mset (map addr q @ queue_addrs q')"
    using queue_addrs_kids [OF "1.prems"(1)] q' by simp
  then have "distinct (map addr q @ queue_addrs q')" using "1.prems"(2) mset_eq_imp_distinct_iff by blast
  then have d: "distinct (map addr q)" "distinct (queue_addrs q')" "set (map addr q) \<inter> set (queue_addrs q') = {}"
    by auto
  have step: "connect_loop q m = connect_loop q' m'" using False c by (simp add: connect_loop.simps [of q])
  show ?case
  proof (cases n)
    case 0
    then have lv: "queue_level n q = map addr q" using queue_level_0 [OF "1.prems"(1)] by simp
    then have "queue_level n q ! j \<in> set (map addr q)" using "1.prems"(3) by (metis nth_mem)
    then have "queue_level n q ! j \<notin> set (queue_addrs q')" using d(3) by blast
    then have "connect_loop q m (queue_level n q ! j) = m' (queue_level n q ! j)"
      unfolding step using q' by (intro connect_loop_other) simp_all
    then show ?thesis using link_list_nth [OF d(1), of j m] "1.prems"(3) lv m' by simp
  next
    case (Suc i)
    then have "queue_level n q = queue_level i q'" using q' by (simp add: queue_level_kids)
    then show ?thesis using "1.IH" [OF False c [symmetric], of i] d(2) "1.prems"(3) q' step by simp
  qed
qed

section \<open>Lowest common ancestor\<close>

fun subtree_at :: "tree_node \<Rightarrow> nat \<Rightarrow> tree_node option" where
  "subtree_at Null b = None"
| "subtree_at (Tree_Node a d l r) b =
     (if a = b then Some (Tree_Node a d l r)
      else case subtree_at l b of Some t \<Rightarrow> Some t | None \<Rightarrow> subtree_at r b)"

lemma subtree_at_mem: "subtree_at t b = None \<longleftrightarrow> b \<notin> set (tree_addrs t)"
  by (induction t) (auto split: option.splits)

lemma lca_cases:
  "distinct (tree_addrs t) \<Longrightarrow>
    (x \<notin> set (tree_addrs t) \<longrightarrow> y \<notin> set (tree_addrs t) \<longrightarrow> lca t x y = None) \<and>
    (x \<in> set (tree_addrs t) \<longrightarrow> y \<notin> set (tree_addrs t) \<longrightarrow> lca t x y = Some x) \<and>
    (x \<notin> set (tree_addrs t) \<longrightarrow> y \<in> set (tree_addrs t) \<longrightarrow> lca t x y = Some y)"
proof (induction t)
  case (Tree_Node a d l r)
  then have "lca l x y = (if x \<in> set (tree_addrs l) \<and> y \<notin> set (tree_addrs l) then Some x
      else if x \<notin> set (tree_addrs l) \<and> y \<in> set (tree_addrs l) then Some y
      else if x \<notin> set (tree_addrs l) then None else lca l x y)"
    "lca r x y = (if x \<in> set (tree_addrs r) \<and> y \<notin> set (tree_addrs r) then Some x
      else if x \<notin> set (tree_addrs r) \<and> y \<in> set (tree_addrs r) then Some y
      else if x \<notin> set (tree_addrs r) then None else lca r x y)"
    by simp_all
  moreover have "set (tree_addrs l) \<inter> set (tree_addrs r) = {}" using Tree_Node.prems by auto
  ultimately show ?case using Tree_Node.prems
    by (cases "x \<in> set (tree_addrs l)"; cases "x \<in> set (tree_addrs r)"; cases "y \<in> set (tree_addrs l)";
        cases "y \<in> set (tree_addrs r)") auto
qed simp

definition lowest_common :: "tree_node \<Rightarrow> nat \<Rightarrow> nat \<Rightarrow> nat \<Rightarrow> bool" where
  "lowest_common t x y c \<longleftrightarrow> (\<exists>d l r. subtree_at t c = Some (Tree_Node c d l r) \<and>
     {x, y} \<subseteq> set (tree_addrs (Tree_Node c d l r)) \<and>
     \<not> {x, y} \<subseteq> set (tree_addrs l) \<and> \<not> {x, y} \<subseteq> set (tree_addrs r))"

lemma subtree_left:
  "distinct (tree_addrs (Tree_Node a d l r)) \<Longrightarrow> subtree_at l c = Some s \<Longrightarrow>
    subtree_at (Tree_Node a d l r) c = Some s"
proof -
  assume d: "distinct (tree_addrs (Tree_Node a d l r))" and s: "subtree_at l c = Some s"
  then have "c \<in> set (tree_addrs l)" using subtree_at_mem [of l c] by auto
  then have "c \<noteq> a" using d by auto
  then show ?thesis using s by simp
qed

lemma subtree_right:
  "distinct (tree_addrs (Tree_Node a d l r)) \<Longrightarrow> subtree_at r c = Some s \<Longrightarrow>
    subtree_at (Tree_Node a d l r) c = Some s"
proof -
  assume d: "distinct (tree_addrs (Tree_Node a d l r))" and s: "subtree_at r c = Some s"
  then have "c \<in> set (tree_addrs r)" using subtree_at_mem [of r c] by auto
  then have "c \<noteq> a" "subtree_at l c = None" using d by (auto simp: subtree_at_mem)
  then show ?thesis using s by simp
qed

lemma lowest_common_child:
  assumes "distinct (tree_addrs (Tree_Node a d l r))" and "t = l \<or> t = r" and "lowest_common t x y c"
  shows "lowest_common (Tree_Node a d l r) x y c"
  using assms subtree_left [OF assms(1)] subtree_right [OF assms(1)] unfolding lowest_common_def by metis

lemma lca_lowest:
  "distinct (tree_addrs t) \<Longrightarrow> x \<in> set (tree_addrs t) \<Longrightarrow> y \<in> set (tree_addrs t) \<Longrightarrow>
    \<exists>c. lca t x y = Some c \<and> lowest_common t x y c"
proof (induction t)
  case (Tree_Node a d l r)
  have dl: "distinct (tree_addrs l)" "distinct (tree_addrs r)"
    "set (tree_addrs l) \<inter> set (tree_addrs r) = {}" "a \<notin> set (tree_addrs l)" "a \<notin> set (tree_addrs r)"
    using Tree_Node.prems(1) by auto
  have here: "lowest_common (Tree_Node a d l r) x y a"
    if "\<not> {x, y} \<subseteq> set (tree_addrs l)" "\<not> {x, y} \<subseteq> set (tree_addrs r)"
    using that Tree_Node.prems(2,3) unfolding lowest_common_def by auto
  show ?case
  proof (cases "a = x \<or> a = y")
    case True
    then show ?thesis using here dl by auto
  next
    case False
    then have mem: "x \<in> set (tree_addrs l) \<or> x \<in> set (tree_addrs r)" "y \<in> set (tree_addrs l) \<or> y \<in> set (tree_addrs r)"
      using Tree_Node.prems by auto
    consider "x \<in> set (tree_addrs l)" "y \<in> set (tree_addrs l)" | "x \<in> set (tree_addrs r)" "y \<in> set (tree_addrs r)"
      | "x \<in> set (tree_addrs l)" "y \<in> set (tree_addrs r)" | "x \<in> set (tree_addrs r)" "y \<in> set (tree_addrs l)"
      using mem by blast
    then show ?thesis
    proof cases
      case 1
      then obtain c where c: "lca l x y = Some c" "lowest_common l x y c" using Tree_Node.IH(1) dl by blast
      have "lca r x y = None" using lca_cases [OF dl(2), of x y] 1 dl(3) by blast
      then show ?thesis using c False lowest_common_child [OF Tree_Node.prems(1), of l] by simp
    next
      case 2
      then obtain c where c: "lca r x y = Some c" "lowest_common r x y c" using Tree_Node.IH(2) dl by blast
      have "lca l x y = None" using lca_cases [OF dl(1), of x y] 2 dl(3) by blast
      then show ?thesis using c False lowest_common_child [OF Tree_Node.prems(1), of r] by simp
    next
      case 3
      have "lca l x y = Some x" "lca r x y = Some y"
        using lca_cases [OF dl(1), of x y] lca_cases [OF dl(2), of x y] 3 dl(3) by blast+
      then show ?thesis using False here 3 dl(3) by auto
    next
      case 4
      have "lca l x y = Some y" "lca r x y = Some x"
        using lca_cases [OF dl(1), of x y] lca_cases [OF dl(2), of x y] 4 dl(3) by blast+
      then show ?thesis using False here 4 dl(3) by auto
    qed
  qed
qed simp

section \<open>Sums along paths\<close>

text \<open>Sums from the root to each leaf, and of all downward paths that start at the root.\<close>

fun leaf_sums :: "tree_node \<Rightarrow> int list" where
  "leaf_sums Null = []"
| "leaf_sums (Tree_Node a d l r) =
     (if l = Null \<and> r = Null then [d] else map ((+) d) (leaf_sums l @ leaf_sums r))"

fun sums_from :: "tree_node \<Rightarrow> int list" where
  "sums_from Null = []"
| "sums_from (Tree_Node a d l r) = d # map ((+) d) (sums_from l @ sums_from r)"

text \<open>All downward paths, by their top node.\<close>

fun path_sums :: "tree_node \<Rightarrow> int list" where
  "path_sums Null = []"
| "path_sums (Tree_Node a d l r) = sums_from (Tree_Node a d l r) @ path_sums l @ path_sums r"

text \<open>All paths from one leaf up to a node with two children and down to another leaf.\<close>

fun leaf_to_leaf_sums :: "tree_node \<Rightarrow> int list" where
  "leaf_to_leaf_sums Null = []"
| "leaf_to_leaf_sums (Tree_Node a d l r) =
     concat (map (\<lambda>x. map (\<lambda>y. x + y + d) (leaf_sums r)) (leaf_sums l)) @
     leaf_to_leaf_sums l @ leaf_to_leaf_sums r"

lemma leaf_sums_nonempty: "t \<noteq> Null \<Longrightarrow> leaf_sums t \<noteq> []"
proof (induction t)
  case (Tree_Node a d l r)
  then show ?case by (cases "l = Null") auto
qed simp

lemma Max_insert_assoc: "finite A \<Longrightarrow> finite B \<Longrightarrow>
    Max (insert (Max (insert m A)) B) = Max (insert m (A \<union> B))" for m :: int
proof -
  assume "finite A" "finite B"
  then have "Max (insert m A \<union> insert (Max (insert m A)) B) = Max (insert m (A \<union> B))"
    using Max_Un [of "insert m (A \<union> B)" "{Max (insert m A)}"] Max_in [of "insert m A"]
    by (auto simp: insert_absorb Un_insert_right intro!: arg_cong [where f = Max])
  moreover have "Max (insert m A \<union> insert (Max (insert m A)) B) =
      max (Max (insert m A)) (Max (insert (Max (insert m A)) B))"
    using \<open>finite A\<close> \<open>finite B\<close> by (intro Max_Un) auto
  moreover have "Max (insert m A) \<le> Max (insert (Max (insert m A)) B)"
    using \<open>finite B\<close> by (intro Max_ge) auto
  ultimately show ?thesis by simp
qed

lemma max_path_visit_eq:
  "max_path_visit t s m = Max (insert m (set (map ((+) s) (leaf_sums t))))"
proof (induction t arbitrary: s m)
  case (Tree_Node a d l r)
  show ?case
  proof (cases "l = Null \<and> r = Null")
    case True
    then show ?thesis by (simp add: max.commute)
  next
    case False
    have "max_path_visit (Tree_Node a d l r) s m =
        Max (insert (Max (insert m (set (map ((+) (s + d)) (leaf_sums l))))) (set (map ((+) (s + d)) (leaf_sums r))))"
      by (simp only: max_path_visit.simps Let_def False if_False Tree_Node.IH)
    also have "\<dots> = Max (insert m (set (map ((+) (s + d)) (leaf_sums l)) \<union> set (map ((+) (s + d)) (leaf_sums r))))"
      by (rule Max_insert_assoc) auto
    also have "set (map ((+) (s + d)) (leaf_sums l)) \<union> set (map ((+) (s + d)) (leaf_sums r)) =
        set (map ((+) s) (leaf_sums (Tree_Node a d l r)))"
      using False by (auto simp: image_Un image_image add.assoc)
    finally show ?thesis .
  qed
qed simp

text \<open>The prefix-sum count: \<open>anc\<close> holds the prefix sums of the ancestors, without the root's 0.\<close>

definition count_of :: "int list \<Rightarrow> int \<Rightarrow> int" where
  "count_of xs x = int (count_list xs x)"

fun below :: "int \<Rightarrow> tree_node \<Rightarrow> int" where
  "below k Null = 0"
| "below k (Tree_Node a d l r) = count_of (path_sums l) k + count_of (path_sums r) k"

definition hits :: "int \<Rightarrow> tree_node \<Rightarrow> int \<Rightarrow> int list \<Rightarrow> int" where
  "hits k t s as = sum_list (map (\<lambda>b. count_of (sums_from t) (k + b - s)) as)"

lemma count_of_append: "count_of (xs @ ys) x = count_of xs x + count_of ys x"
  by (simp add: count_of_def)

lemma count_of_shift: "count_of (map ((+) d) xs) x = count_of xs (x - d)"
  by (induction xs) (auto simp: count_of_def)

lemma path_sums_split: "count_of (path_sums t) k = count_of (sums_from t) k + below k t"
  by (cases t) (simp_all add: count_of_append count_of_def)

lemma hits_node:
  "hits k (Tree_Node a d l r) s as = count_of as (s + d - k) + hits k l (s + d) as + hits k r (s + d) as"
proof (induction as)
  case Nil
  then show ?case by (simp add: hits_def count_of_def)
next
  case (Cons b as)
  have "count_of (sums_from (Tree_Node a d l r)) (k + b - s) =
      (if s + d - k = b then 1 else 0) + count_of (sums_from l) (k + b - (s + d)) + count_of (sums_from r) (k + b - (s + d))"
    by (simp add: count_of_append count_of_shift count_of_def [of "d # _"] count_of_def [symmetric])
       (auto simp: algebra_simps count_of_def)
  then show ?case using Cons by (simp add: hits_def count_of_def)
qed

lemma count_visit_eq:
  "(\<And>x. pref x = count_of anc x) \<Longrightarrow>
    count_visit k t s pref = (hits k t s (0 # anc) + below k t, pref)"
proof (induction t arbitrary: s pref anc)
  case (Tree_Node a d l r)
  let ?s = "s + d"
  let ?pref = "pref(?s := pref ?s + 1)"
  have p: "?pref x = count_of (?s # anc) x" for x using Tree_Node.prems by (simp add: count_of_def)
  have l: "count_visit k l ?s ?pref = (hits k l ?s (0 # ?s # anc) + below k l, ?pref)"
    by (rule Tree_Node.IH(1)) (rule p)
  have r: "count_visit k r ?s ?pref = (hits k r ?s (0 # ?s # anc) + below k r, ?pref)"
    by (rule Tree_Node.IH(2)) (rule p)
  have swap: "hits k t ?s (0 # ?s # anc) + below k t = hits k t ?s (0 # anc) + count_of (path_sums t) k" for t
    by (simp add: hits_def path_sums_split)
  have undo: "?pref(?s := ?pref ?s - 1) = pref" by auto
  have "count_visit k (Tree_Node a d l r) s pref =
      ((if ?s = k then 1 else 0) + pref (?s - k) + (hits k l ?s (0 # anc) + count_of (path_sums l) k) +
        (hits k r ?s (0 # anc) + count_of (path_sums r) k), pref)"
    by (simp only: count_visit.simps Let_def l r split_conv swap undo)
  also have "(if ?s = k then 1 else 0) + pref (?s - k) = count_of (0 # anc) (?s - k)"
    using Tree_Node.prems by (auto simp: count_of_def)
  finally show ?case by (simp add: hits_node)
qed (simp add: hits_def count_of_def)

text \<open>The best path from a node down to a leaf.\<close>

lemma two_nodes_visit_eq:
  "two_nodes_visit t m = (if t = Null then 0 else Max (set (leaf_sums t)), Max (insert m (set (leaf_to_leaf_sums t))))"
proof (induction t arbitrary: m)
  case (Tree_Node a d l r)
  let ?L = "set (leaf_sums l)" and ?R = "set (leaf_sums r)"
  let ?LL = "set (leaf_to_leaf_sums l)" and ?RR = "set (leaf_to_leaf_sums r)"
  have both: "Max (insert (Max (insert m ?LL)) ?RR) = Max (insert m (?LL \<union> ?RR))"
    by (rule Max_insert_assoc) auto
  have shift: "Max ((+) d ` A) = d + Max A" if "finite A" "A \<noteq> {}" for A :: "int set"
    using that by (intro mono_Max_commute [symmetric]) (auto simp: mono_def)
  show ?case
  proof (cases "l \<noteq> Null \<and> r \<noteq> Null")
    case True
    then have ne: "?L \<noteq> {}" "?R \<noteq> {}" using leaf_sums_nonempty by auto
    have cross: "(\<Union>x\<in>?L. (\<lambda>y. x + y + d) ` ?R) \<noteq> {}" using ne by auto
    have best: "Max (\<Union>x\<in>?L. (\<lambda>y. x + y + d) ` ?R) = Max ?L + Max ?R + d"
    proof (rule Max_eqI)
      show "Max ?L + Max ?R + d \<in> (\<Union>x\<in>?L. (\<lambda>y. x + y + d) ` ?R)" using ne by (auto intro: Max_in)
    qed (auto simp: add_mono)
    have "Max (insert m (set (leaf_to_leaf_sums (Tree_Node a d l r)))) =
        Max (insert m (?LL \<union> ?RR) \<union> (\<Union>x\<in>?L. (\<lambda>y. x + y + d) ` ?R))"
      by (auto intro!: arg_cong [where f = Max])
    also have "\<dots> = max (Max (insert m (?LL \<union> ?RR))) (Max ?L + Max ?R + d)"
      unfolding best [symmetric] using cross by (intro Max_Un) auto
    finally have mx: "Max (insert m (set (leaf_to_leaf_sums (Tree_Node a d l r)))) =
        max (Max (insert m (?LL \<union> ?RR))) (Max ?L + Max ?R + d)" .
    have ret: "Max (set (leaf_sums (Tree_Node a d l r))) = d + max (Max ?L) (Max ?R)"
      using True ne shift [of ?L] shift [of ?R] by (simp add: Max_Un image_Un max_add_distrib_right)
    show ?thesis using True 
      by (simp add: Tree_Node.IH both ret mx del: leaf_sums.simps leaf_to_leaf_sums.simps)
  next
    case False
    then have "leaf_to_leaf_sums (Tree_Node a d l r) = leaf_to_leaf_sums l @ leaf_to_leaf_sums r" by auto
    moreover have "Max (set (leaf_sums (Tree_Node a d l r))) =
        d + (if (if l = Null then 0 else Max ?L) \<noteq> 0 then (if l = Null then 0 else Max ?L)
             else (if r = Null then 0 else Max ?R))"
      using False leaf_sums_nonempty [of l] leaf_sums_nonempty [of r] shift [of ?L] shift [of ?R] by auto
    ultimately show ?thesis using False
      by (cases "l = Null"; cases "r = Null")
         (simp_all add: Tree_Node.IH both del: leaf_sums.simps(2) leaf_to_leaf_sums.simps(2))
  qed
qed simp

section \<open>Properties\<close>

text \<open>
  The level-order versions agree with the recursive ones: on every tree with a node the number
  of rounds of the level loop gives \<open>height_recursion\<close> (on the empty tree they differ, 0 and -1), and
  the queue version of the children-sum check gives the recursive one.
\<close>

theorem level_order_agrees:
  "(root \<noteq> Null \<longrightarrow> height_levelorder root = height_recursion root) \<and>
   height_levelorder Null = 0 \<and> height_recursion Null = - 1 \<and>
   children_sum_queue root = children_sum_recursion root"
  using level_loop_depth [of "[root]" 0] children_sum_loop_all [of "[root]"] height_recursion_ge [of root]
  by (auto simp: height_levelorder_def children_sum_queue_def depth_def)

theorem level_order_agrees_witness:
  "height_levelorder (Tree_Node 0 3 (leaf 1 1) (leaf 2 2)) = height_recursion (Tree_Node 0 3 (leaf 1 1) (leaf 2 2))"
  using level_order_agrees [of "Tree_Node 0 3 (leaf 1 1) (leaf 2 2)"] by simp

text \<open>
  \<open>connect_nodes\<close> links every level from left to right: in a tree without sharing, the \<open>j\<close>-th node
  of a level points to the \<open>j + 1\<close>-th, the last one to \<open>nullptr\<close>, and no other node is written.
\<close>

theorem connect_nodes_links:
  assumes "distinct (tree_addrs root)"
  shows "(j < length (level_addrs n root) \<longrightarrow> connect_nodes root m (level_addrs n root ! j) =
      (if Suc j < length (level_addrs n root) then Some (level_addrs n root ! Suc j) else None)) \<and>
    (b \<notin> set (tree_addrs root) \<longrightarrow> connect_nodes root m b = m b)"
proof (cases "root = Null")
  case True
  then show ?thesis by (simp add: connect_nodes_def)
next
  case False
  then have q: "nodes_only [root]" by simp
  have l: "queue_level n [root] = level_addrs n root" and a: "queue_addrs [root] = tree_addrs root"
    by (simp_all add: queue_level_def queue_addrs_def)
  show ?thesis
    using connect_loop_links [OF q, of j n m] connect_loop_other [OF q, of b m] assms False
    unfolding l a connect_nodes_def by simp
qed

theorem connect_nodes_links_witness:
  "connect_nodes (Tree_Node 0 10 (Tree_Node 1 8 (leaf 3 3) Null) (Tree_Node 2 2 (leaf 4 4) Null)) (\<lambda>a. None) 3 = Some 4"
  using connect_nodes_links [of "Tree_Node 0 10 (Tree_Node 1 8 (leaf 3 3) Null) (Tree_Node 2 2 (leaf 4 4) Null)" 0 2]
  by (simp add: leaf_def numeral_2_eq_2)

text \<open>
  \<open>lca\<close> finds the lowest common ancestor: for two nodes of a tree without sharing, it returns a
  node whose subtree contains both while neither of its children's subtrees does.
\<close>

theorem lca_is_lowest_common:
  assumes "distinct (tree_addrs root)" and "t1 \<in> set (tree_addrs root)" and "t2 \<in> set (tree_addrs root)"
  shows "\<exists>c d l r. lca root t1 t2 = Some c \<and> subtree_at root c = Some (Tree_Node c d l r) \<and>
    {t1, t2} \<subseteq> set (tree_addrs (Tree_Node c d l r)) \<and>
    \<not> {t1, t2} \<subseteq> set (tree_addrs l) \<and> \<not> {t1, t2} \<subseteq> set (tree_addrs r)"
  using lca_lowest [OF assms] unfolding lowest_common_def by blast

definition lca_tree :: tree_node where
  "lca_tree = Tree_Node 0 1 (leaf 1 2) (Tree_Node 2 3 (Tree_Node 3 6 (leaf 5 8) Null) (leaf 4 7))"

theorem lca_is_lowest_common_witness:
  "\<exists>c d l r. lca lca_tree 4 5 = Some c \<and> subtree_at lca_tree c = Some (Tree_Node c d l r) \<and>
    {4, 5} \<subseteq> set (tree_addrs (Tree_Node c d l r)) \<and>
    \<not> {4, 5} \<subseteq> set (tree_addrs l) \<and> \<not> {4, 5} \<subseteq> set (tree_addrs r)"
  by (rule lca_is_lowest_common) (simp_all add: lca_tree_def leaf_def)

text \<open>
  The one-pass path algorithms compute what they are for. \<open>count_all_paths\<close> with its prefix-sum
  table counts the downward paths (from any node) whose sum is \<open>k\<close>; \<open>max_path_sum\<close> is the largest
  root-to-leaf sum and \<open>max_path_sum_two_nodes\<close> the largest sum of a path between two leaves, each
  not below the start value -1000000000, which they return when there is no such path.
\<close>

theorem path_sums_correct:
  "count_all_paths root k = int (count_list (path_sums root) k) \<and>
   max_path_sum root = Max (insert minus_inf (set (leaf_sums root))) \<and>
   max_path_sum_two_nodes root = Max (insert minus_inf (set (leaf_to_leaf_sums root)))"
proof -
  have "count_visit k root 0 (\<lambda>x. 0) = (hits k root 0 [0] + below k root, \<lambda>x. 0)"
    by (rule count_visit_eq [where anc = "[]"]) (simp add: count_of_def)
  then have "count_all_paths root k = count_of (path_sums root) k"
    by (simp add: count_all_paths_def hits_def path_sums_split)
  then show ?thesis
    by (simp add: count_of_def max_path_sum_def max_path_visit_eq max_path_sum_two_nodes_def two_nodes_visit_eq)
qed

lemma trees_main_prints: "trees_main = Inr (line_out ''14'')"
  by (simp add: trees_main_def leaf_def max_path_sum_two_nodes_def minus_inf_def show_simps)

end
