(* ===== verification/Tree_Distances.thy ===== *)
theory Tree_Distances
  imports Cpp_Prelude
begin

text \<open>
  \<open>algorithms/trees/trees.cpp\<close>: \<open>sum_of_distances_in_tree\<close>. Two depth-first searches compute for every node of a tree the
  sum of its distances to all nodes: the first one sizes the subtrees and sums the depths, the second one moves the root along each edge.
  The searches are recursive lambdas; the model is the loop of a call over its neighbours, which makes the
  recursive calls. Sums are unbounded integers. \<open>None\<close> is an access outside of a vector or a search that does not end.
\<close>

section \<open>The function\<close>

definition add_neighbour :: "nat \<Rightarrow> nat \<Rightarrow> nat list list option \<Rightarrow> nat list list option" where
  "add_neighbour a b g = Option.bind g (\<lambda>g. if a < length g then Some (g[a := g ! a @ [b]]) else None)"

definition tree_graph :: "nat \<Rightarrow> (nat \<times> nat) list \<Rightarrow> nat list list option" where
  "tree_graph n edges = fold (\<lambda>(a, b) g. add_neighbour b a (add_neighbour a b g)) edges (Some (replicate n []))"

text \<open>\<open>dfs1\<close>: the first statements of a call, and its loop, on \<open>ans\<close> and \<open>size\<close>.\<close>

definition enter1 :: "nat \<Rightarrow> int \<Rightarrow> int list \<times> int list \<Rightarrow> int list \<times> int list" where
  "enter1 i d s = (case s of (ans, sz) \<Rightarrow> (ans[0 := ans ! 0 + d], sz[i := 1]))"

definition add_size :: "nat \<Rightarrow> nat \<Rightarrow> int list \<times> int list \<Rightarrow> int list \<times> int list" where
  "add_size i j s = (case s of (ans, sz) \<Rightarrow> (ans, sz[i := sz ! i + sz ! j]))"

partial_function (option) dfs1_loop :: "nat list list \<Rightarrow> nat \<Rightarrow> int \<Rightarrow> int \<Rightarrow> nat list \<Rightarrow> int list \<times> int list \<Rightarrow> (int list \<times> int list) option" where
  "dfs1_loop g i fa d js s = (case js of
     [] \<Rightarrow> Some s
   | j # js \<Rightarrow>
       if int j \<noteq> fa then
         (if j < length g then
            Option.bind (dfs1_loop g j (int i) (d + 1) (g ! j) (enter1 j (d + 1) s)) (\<lambda>s. dfs1_loop g i fa d js (add_size i j s))
          else None)
       else dfs1_loop g i fa d js s)"

definition dfs1 :: "nat list list \<Rightarrow> nat \<Rightarrow> int \<Rightarrow> int \<Rightarrow> int list \<times> int list \<Rightarrow> (int list \<times> int list) option" where
  "dfs1 g i fa d s = (if i < length g then dfs1_loop g i fa d (g ! i) (enter1 i d s) else None)"

partial_function (option) dfs2_loop :: "nat list list \<Rightarrow> int \<Rightarrow> int list \<Rightarrow> nat \<Rightarrow> int \<Rightarrow> int \<Rightarrow> nat list \<Rightarrow> int list \<Rightarrow> int list option" where
  "dfs2_loop g n sz i fa t js ans = (case js of
     [] \<Rightarrow> Some ans
   | j # js \<Rightarrow>
       if int j \<noteq> fa then
         (if j < length g then
            (let u = t - sz ! j + n - sz ! j in
             Option.bind (dfs2_loop g n sz j (int i) u (g ! j) (ans[j := u])) (\<lambda>ans. dfs2_loop g n sz i fa t js ans))
          else None)
       else dfs2_loop g n sz i fa t js ans)"

definition dfs2 :: "nat list list \<Rightarrow> int \<Rightarrow> int list \<Rightarrow> nat \<Rightarrow> int \<Rightarrow> int \<Rightarrow> int list \<Rightarrow> int list option" where
  "dfs2 g n sz i fa t ans = (if i < length g then dfs2_loop g n sz i fa t (g ! i) (ans[i := t]) else None)"

definition sum_of_distances_in_tree :: "nat \<Rightarrow> (nat \<times> nat) list \<Rightarrow> int list option" where
  "sum_of_distances_in_tree n edges =
     Option.bind (tree_graph n edges) (\<lambda>g.
     Option.bind (dfs1 g 0 (- 1) 0 (replicate n 0, replicate n 0)) (\<lambda>(ans, sz).
     dfs2 g (int n) sz 0 (- 1) (ans ! 0) ans))"

declare dfs1_loop.simps [code] dfs2_loop.simps [code]

lemma sum_of_distances_sample: "sum_of_distances_in_tree 6 [(0,1),(0,2),(2,3),(2,4),(2,5)] = Some [8,12,6,10,10,10]"
  by code_simp

section \<open>Trees and distances\<close>

definition adjacent :: "(nat \<times> nat) list \<Rightarrow> (nat \<times> nat) set" where
  "adjacent edges = set edges \<union> (set edges)\<inverse>"

definition distance :: "(nat \<times> nat) set \<Rightarrow> nat \<Rightarrow> nat \<Rightarrow> nat" where
  "distance E i j = (LEAST k. (i, j) \<in> E ^^ k)"

text \<open>\<open>n\<close> nodes that are connected by \<open>n - 1\<close> edges.\<close>

definition is_tree :: "nat \<Rightarrow> (nat \<times> nat) list \<Rightarrow> bool" where
  "is_tree n edges \<longleftrightarrow> 0 < n \<and> length edges = n - 1 \<and> (\<forall>(a, b) \<in> set edges. a < n \<and> b < n) \<and> (\<forall>i<n. (0, i) \<in> (adjacent edges)\<^sup>*)"

text \<open>The same with a root: every node but 0 has a parent, and the edges lead to the parents.\<close>

definition rooted :: "nat \<Rightarrow> (nat \<Rightarrow> nat) \<Rightarrow> (nat \<Rightarrow> nat) \<Rightarrow> (nat \<times> nat) set \<Rightarrow> bool" where
  "rooted n par dep E \<longleftrightarrow> 0 < n \<and> dep 0 = 0 \<and> (\<forall>i. 0 < i \<and> i < n \<longrightarrow> par i < n \<and> dep i = Suc (dep (par i))) \<and>
     E = (\<Union>i\<in>{1..<n}. {(i, par i), (par i, i)})"

definition parent_rel :: "nat \<Rightarrow> (nat \<Rightarrow> nat) \<Rightarrow> (nat \<times> nat) set" where
  "parent_rel n par = {(i, par i) |i. 0 < i \<and> i < n}"

definition subtree :: "nat \<Rightarrow> (nat \<Rightarrow> nat) \<Rightarrow> nat \<Rightarrow> nat set" where
  "subtree n par i = {x. x < n \<and> (x, i) \<in> (parent_rel n par)\<^sup>*}"

lemma rootedD:
  assumes "rooted n par dep E"
  shows "0 < n" "dep 0 = 0" "0 < i \<Longrightarrow> i < n \<Longrightarrow> par i < n" "0 < i \<Longrightarrow> i < n \<Longrightarrow> dep i = Suc (dep (par i))"
    "(a, b) \<in> E \<longleftrightarrow> (0 < a \<and> a < n \<and> b = par a) \<or> (0 < b \<and> b < n \<and> a = par b)"
  using assms unfolding rooted_def by auto

lemma subtree_finite [simp]: "finite (subtree n par i)"
  by (rule finite_subset [of _ "{..<n}"]) (auto simp: subtree_def)

lemma subtree_self: "i < n \<Longrightarrow> i \<in> subtree n par i"
  by (simp add: subtree_def)

lemma subtree_lt: "x \<in> subtree n par i \<Longrightarrow> x < n"
  by (simp add: subtree_def)

lemma subtree_dep:
  assumes "rooted n par dep E" and "x \<in> subtree n par i"
  shows "dep i \<le> dep x" "dep x = dep i \<Longrightarrow> x = i"
proof -
  have "(x, i) \<in> (parent_rel n par)\<^sup>*" using assms(2) by (simp add: subtree_def)
  then have "dep i \<le> dep x \<and> (dep x = dep i \<longrightarrow> x = i)"
    by (induction rule: converse_rtrancl_induct) (auto simp: parent_rel_def rootedD(4) [OF assms(1)])
  then show "dep i \<le> dep x" "dep x = dep i \<Longrightarrow> x = i" by auto
qed

text \<open>A subtree is its root and the subtrees of the children of the root.\<close>

definition kids :: "nat \<Rightarrow> (nat \<Rightarrow> nat) \<Rightarrow> nat \<Rightarrow> nat set" where
  "kids n par i = {j. 0 < j \<and> j < n \<and> par j = i}"

lemma subtree_kids:
  assumes "i < n"
  shows "subtree n par i = insert i (\<Union>j\<in>kids n par i. subtree n par j)"
proof -
  have "(x, i) \<in> (parent_rel n par)\<^sup>* \<longleftrightarrow> x = i \<or> (\<exists>j\<in>kids n par i. (x, j) \<in> (parent_rel n par)\<^sup>*)" for x
  proof
    show "(x, i) \<in> (parent_rel n par)\<^sup>* \<Longrightarrow> x = i \<or> (\<exists>j\<in>kids n par i. (x, j) \<in> (parent_rel n par)\<^sup>*)"
      by (erule rtranclE) (auto simp: parent_rel_def kids_def)
    have "(j, i) \<in> parent_rel n par" if "j \<in> kids n par i" for j using that by (auto simp: parent_rel_def kids_def)
    then show "x = i \<or> (\<exists>j\<in>kids n par i. (x, j) \<in> (parent_rel n par)\<^sup>*) \<Longrightarrow> (x, i) \<in> (parent_rel n par)\<^sup>*"
      by (blast intro: rtrancl_into_rtrancl)
  qed
  then have "x \<in> subtree n par i \<longleftrightarrow> x \<in> insert i (\<Union>j\<in>kids n par i. subtree n par j)" for x
    using assms unfolding subtree_def by blast
  then show ?thesis by blast
qed

lemma kids_disjoint:
  assumes "rooted n par dep E" "j \<in> kids n par i" "k \<in> kids n par i" "x \<in> subtree n par j" "x \<in> subtree n par k"
  shows "j = k"
proof -
  have "single_valued (parent_rel n par)" by (auto simp: single_valued_def parent_rel_def)
  then have "(j, k) \<in> (parent_rel n par)\<^sup>* \<or> (k, j) \<in> (parent_rel n par)\<^sup>*"
    by (rule single_valued_confluent) (use assms(4,5) in \<open>auto simp: subtree_def\<close>)
  then have "j \<in> subtree n par k \<or> k \<in> subtree n par j" using assms(2,3) by (auto simp: subtree_def kids_def)
  moreover have "dep j = dep k" using rootedD(4) [OF assms(1)] assms(2,3) by (simp add: kids_def)
  ultimately show ?thesis using subtree_dep(2) [OF assms(1)] by metis
qed

lemma kid_smaller:
  assumes "rooted n par dep E" "j \<in> kids n par i"
  shows "i < n" "i \<notin> subtree n par j" "subtree n par j \<subset> subtree n par i" "card (subtree n par j) < card (subtree n par i)"
proof -
  show i: "i < n" using assms(2) rootedD(3) [OF assms(1), of j] by (auto simp: kids_def)
  have "dep i < dep j" using rootedD(4) [OF assms(1), of j] assms(2) by (simp add: kids_def)
  then show "i \<notin> subtree n par j" using subtree_dep(1) [OF assms(1), of i j] by auto
  then show "subtree n par j \<subset> subtree n par i" using subtree_kids [OF i, of par] assms(2) by auto
  then show "card (subtree n par j) < card (subtree n par i)" by (simp add: psubset_card_mono)
qed


section \<open>Distances in a rooted tree\<close>

lemma rooted_sym: "rooted n par dep E \<Longrightarrow> (a, b) \<in> E \<longleftrightarrow> (b, a) \<in> E"
  by (auto simp: rootedD(5))

lemma relpow_sym: "(\<And>a b. (a, b) \<in> E \<Longrightarrow> (b, a) \<in> E) \<Longrightarrow> (x, y) \<in> E ^^ k \<Longrightarrow> (y, x) \<in> E ^^ k"
proof (induction k arbitrary: y)
  case (Suc k)
  then obtain z where "(x, z) \<in> E ^^ k" "(z, y) \<in> E" by (elim relpow_Suc_E)
  then show ?case using Suc by (blast intro: relpow_Suc_I2)
qed simp

lemma distance_sym:
  assumes "rooted n par dep E" shows "distance E x y = distance E y x"
proof -
  have "(x, y) \<in> E ^^ k \<longleftrightarrow> (y, x) \<in> E ^^ k" for k using relpow_sym rooted_sym [OF assms] by metis
  then show ?thesis by (simp add: distance_def)
qed

lemma rooted_connected:
  assumes "rooted n par dep E" "x < n" "y < n" shows "\<exists>k. (x, y) \<in> E ^^ k"
proof -
  have root: "\<exists>k. (x, 0) \<in> E ^^ k" if "x < n" for x
    using that
  proof (induction "dep x" arbitrary: x rule: less_induct)
    case less
    show ?case
    proof (cases "x = 0")
      case True
      then show ?thesis by (intro exI [of _ 0]) simp
    next
      case False
      then have par: "par x < n" "dep (par x) < dep x" "(x, par x) \<in> E" using rootedD [OF assms(1)] less.prems by auto
      then obtain k where "(par x, 0) \<in> E ^^ k" using less.hyps by blast
      then show ?thesis using par(3) relpow_Suc_I2 by metis
    qed
  qed
  obtain k l where "(x, 0) \<in> E ^^ k" "(y, 0) \<in> E ^^ l" using root assms(2,3) by metis
  then have "(x, y) \<in> E ^^ (k + l)" using relpow_sym [of E y 0 l] rooted_sym [OF assms(1)] by (auto simp: relpow_add)
  then show ?thesis ..
qed

lemma distance_path: "(x, y) \<in> E ^^ k \<Longrightarrow> (x, y) \<in> E ^^ distance E x y"
  unfolding distance_def by (rule LeastI)

lemma distance_le: "(x, y) \<in> E ^^ k \<Longrightarrow> distance E x y \<le> k"
  unfolding distance_def by (rule Least_le)

text \<open>A subtree is left only from its root to the parent of the root.\<close>

lemma leave_subtree:
  assumes "rooted n par dep E" "(x, y) \<in> E" "x \<in> subtree n par j" "y \<notin> subtree n par j"
  shows "x = j \<and> y = par j"
proof -
  consider "0 < x" "x < n" "y = par x" | "0 < y" "y < n" "x = par y" using rootedD(5) [OF assms(1)] assms(2) by blast
  then show ?thesis
  proof cases
    case 1
    have "(x, j) \<in> (parent_rel n par)\<^sup>*" using assms(3) by (simp add: subtree_def)
    then show ?thesis
    proof (cases rule: converse_rtranclE)
      case (step z)
      then have "z = y" using 1 by (auto simp: parent_rel_def)
      then show ?thesis using step assms(4) rootedD(3) [OF assms(1), of x] 1 by (auto simp: subtree_def)
    qed (use 1 in simp)
  next
    case 2
    then have "(y, x) \<in> parent_rel n par" by (auto simp: parent_rel_def)
    then have "y \<in> subtree n par j" using assms(3) 2 by (auto simp: subtree_def intro: converse_rtrancl_into_rtrancl)
    then show ?thesis using assms(4) by blast
  qed
qed

lemma leave_path:
  assumes "rooted n par dep E"
  shows "(x, y) \<in> E ^^ k \<Longrightarrow> x \<in> subtree n par j \<Longrightarrow> y \<notin> subtree n par j \<Longrightarrow>
    \<exists>a b. k = a + 1 + b \<and> (x, j) \<in> E ^^ a \<and> (par j, y) \<in> E ^^ b"
proof (induction k arbitrary: x)
  case (Suc k)
  then obtain z where z: "(x, z) \<in> E" "(z, y) \<in> E ^^ k" by (elim relpow_Suc_E2)
  show ?case
  proof (cases "z \<in> subtree n par j")
    case True
    then obtain a b where "k = a + 1 + b" "(z, j) \<in> E ^^ a" "(par j, y) \<in> E ^^ b" using Suc z by blast
    moreover from this have "Suc k = Suc a + 1 + b" "(x, j) \<in> E ^^ Suc a" using relpow_Suc_I2 [OF z(1)] by simp_all
    ultimately show ?thesis by blast
  next
    case False
    then have "x = j" "z = par j" using leave_subtree [OF assms z(1)] Suc.prems(2) by auto
    then show ?thesis using z(2) by (intro exI [of _ 0] exI [of _ k]) simp
  qed
qed auto

text \<open>So a step from the parent of \<open>j\<close> to \<open>j\<close> comes nearer to the subtree of \<open>j\<close> and moves away from the rest.\<close>

lemma distance_outside:
  assumes "rooted n par dep E" "0 < j" "j < n" "y < n" "y \<notin> subtree n par j"
  shows "distance E j y = Suc (distance E (par j) y)"
proof (rule antisym)
  have E: "(j, par j) \<in> E" using rootedD(5) [OF assms(1)] assms(2,3) by blast
  obtain k where "(par j, y) \<in> E ^^ k" using rooted_connected [OF assms(1) _ assms(4)] rootedD(3) [OF assms(1-3)] by blast
  then show "distance E j y \<le> Suc (distance E (par j) y)" using E distance_path by (metis distance_le relpow_Suc_I2)
next
  obtain k where "(j, y) \<in> E ^^ k" using rooted_connected [OF assms(1,3,4)] ..
  from leave_path [OF assms(1) distance_path [OF this] subtree_self [OF assms(3)] assms(5)]
  show "Suc (distance E (par j) y) \<le> distance E j y" using distance_le [of "par j" y _ E] by force
qed

lemma distance_inside:
  assumes "rooted n par dep E" "0 < j" "j < n" "y \<in> subtree n par j"
  shows "distance E (par j) y = Suc (distance E j y)"
proof (rule antisym)
  have par: "par j < n" "(par j, j) \<in> E" using rootedD [OF assms(1)] assms(2,3) by auto
  have y: "y < n" using assms(4) by (rule subtree_lt)
  obtain k where "(j, y) \<in> E ^^ k" using rooted_connected [OF assms(1,3) y] ..
  then show "distance E (par j) y \<le> Suc (distance E j y)" using par distance_path by (metis distance_le relpow_Suc_I2)
  obtain l where "(y, par j) \<in> E ^^ l" using rooted_connected [OF assms(1) y par(1)] ..
  moreover have "par j \<notin> subtree n par j" using kid_smaller(2) [OF assms(1), of j "par j"] assms(2,3) by (simp add: kids_def)
  ultimately obtain a b where "distance E y (par j) = a + 1 + b" "(y, j) \<in> E ^^ a"
    using leave_path [OF assms(1) distance_path assms(4)] by blast
  then show "Suc (distance E j y) \<le> distance E (par j) y"
    using distance_le [of y j a E] distance_sym [OF assms(1), of j y] distance_sym [OF assms(1), of "par j" y] by simp
qed

definition total :: "nat \<Rightarrow> (nat \<times> nat) set \<Rightarrow> nat \<Rightarrow> int" where
  "total n E i = (\<Sum>y<n. int (distance E i y))"

lemma total_kid:
  assumes "rooted n par dep E" "0 < j" "j < n"
  shows "total n E j = total n E (par j) - int (card (subtree n par j)) + int n - int (card (subtree n par j))"
proof -
  let ?S = "subtree n par j"
  have "?S \<subseteq> {..<n}" using subtree_lt by auto
  then have split: "(\<Sum>y<n. f y) = (\<Sum>y\<in>?S. f y) + (\<Sum>y\<in>{..<n} - ?S. f y)" for f :: "nat \<Rightarrow> int"
    by (metis finite_lessThan sum.subset_diff add.commute)
  have card: "int (card ({..<n} - ?S)) = int n - int (card ?S)"
    using card_mono [OF finite_lessThan \<open>?S \<subseteq> {..<n}\<close>] by (simp add: card_Diff_subset \<open>?S \<subseteq> {..<n}\<close>)
  have "(\<Sum>y\<in>?S. int (distance E (par j) y)) = (\<Sum>y\<in>?S. int (distance E j y) + 1)"
    by (rule sum.cong) (simp_all add: distance_inside [OF assms])
  moreover have "(\<Sum>y\<in>{..<n} - ?S. int (distance E j y)) = (\<Sum>y\<in>{..<n} - ?S. int (distance E (par j) y) + 1)"
    by (rule sum.cong) (simp_all add: distance_outside [OF assms])
  ultimately show ?thesis unfolding total_def split by (simp add: sum.distrib card)
qed


section \<open>Every tree is rooted\<close>

abbreviation ends :: "nat \<times> nat \<Rightarrow> nat set" where
  "ends \<equiv> \<lambda>(a, b). {a, b}"

lemma adjacent_ends: "(a, b) \<in> adjacent edges \<longleftrightarrow> {a, b} \<in> ends ` set edges"
  by (force simp: adjacent_def doubleton_eq_iff)

lemma previous_node:
  assumes "is_tree n edges" "0 < i" "i < n"
  shows "\<exists>p<n. (p, i) \<in> adjacent edges \<and> distance (adjacent edges) 0 i = Suc (distance (adjacent edges) 0 p)"
proof -
  let ?E = "adjacent edges"
  obtain k where "(0, i) \<in> ?E ^^ k" using assms by (auto simp: is_tree_def rtrancl_power)
  then have path: "(0, i) \<in> ?E ^^ distance ?E 0 i" by (rule distance_path)
  obtain m where m: "distance ?E 0 i = Suc m" using path assms(2) by (cases "distance ?E 0 i") auto
  then obtain p where p: "(0, p) \<in> ?E ^^ m" "(p, i) \<in> ?E" using path by (auto elim: relpow_Suc_E)
  have "distance ?E 0 i \<le> Suc (distance ?E 0 p)"
    using distance_path [OF p(1)] p(2) by (intro distance_le) (rule relpow_Suc_I)
  moreover have "distance ?E 0 p \<le> m" by (rule distance_le [OF p(1)])
  moreover have "p < n" using p(2) assms(1) by (auto simp: adjacent_def is_tree_def)
  ultimately show ?thesis using m p(2) by (intro exI [of _ p]) simp
qed

text \<open>The edges to the parents are \<open>n - 1\<close> different ones, so there are no others.\<close>

lemma tree_is_rooted:
  assumes "is_tree n edges"
  shows "\<exists>par. rooted n par (distance (adjacent edges) 0) (adjacent edges) \<and> distinct (map ends edges)"
proof -
  let ?E = "adjacent edges" and ?dep = "distance (adjacent edges) 0"
  define par where "par i = (SOME p. p < n \<and> (p, i) \<in> ?E \<and> ?dep i = Suc (?dep p))" for i
  have par: "par i < n \<and> (par i, i) \<in> ?E \<and> ?dep i = Suc (?dep (par i))" if "0 < i" "i < n" for i
    unfolding par_def by (rule someI_ex) (use previous_node [OF assms that] in blast)
  let ?f = "\<lambda>i. {i, par i}"
  have "inj_on ?f {1..<n}"
  proof (rule inj_onI)
    fix i j assume "i \<in> {1..<n}" "j \<in> {1..<n}" "?f i = ?f j"
    then show "i = j" using par [of i] par [of j] by (auto simp: doubleton_eq_iff)
  qed
  then have "card (?f ` {1..<n}) = length edges" using assms by (simp add: card_image is_tree_def)
  moreover have sub: "?f ` {1..<n} \<subseteq> ends ` set edges"
    using par adjacent_ends [of _ _ edges] by (fastforce simp: insert_commute)
  moreover have "card (ends ` set edges) \<le> length edges" using card_image_le [of "set edges" ends] card_length [of edges] by simp
  ultimately have eq: "?f ` {1..<n} = ends ` set edges" by (intro card_seteq) auto
  then have "card (set (map ends edges)) = length (map ends edges)" using \<open>card (?f ` {1..<n}) = length edges\<close> by simp
  then have "distinct (map ends edges)" by (rule card_distinct)
  moreover have "?E = (\<Union>i\<in>{1..<n}. {(i, par i), (par i, i)})"
  proof -
    have "(a, b) \<in> ?E \<longleftrightarrow> (\<exists>i\<in>{1..<n}. {a, b} = ?f i)" for a b unfolding adjacent_ends eq [symmetric] by blast
    then show ?thesis by (auto simp: doubleton_eq_iff)
  qed
  moreover have "?dep 0 = 0" by (simp add: distance_def)
  ultimately show ?thesis using par assms by (intro exI [of _ par]) (auto simp: rooted_def is_tree_def)
qed

text \<open>The lists that \<open>g\<close> holds.\<close>

definition neighbours :: "(nat \<times> nat) list \<Rightarrow> nat \<Rightarrow> nat list" where
  "neighbours edges i = concat (map (\<lambda>(a, b). (if a = i then [b] else []) @ (if b = i then [a] else [])) edges)"

lemma tree_graph_neighbours:
  assumes "\<forall>(a, b) \<in> set edges. a < n \<and> b < n"
  shows "tree_graph n edges = Some (map (neighbours edges) [0..<n])"
  using assms
proof (induction edges rule: rev_induct)
  case Nil
  then show ?case by (simp add: tree_graph_def neighbours_def map_replicate_const)
next
  case (snoc e edges)
  obtain a b where e: "e = (a, b)" "a < n" "b < n" using snoc.prems by auto
  have IH: "tree_graph n edges = Some (map (neighbours edges) [0..<n])" using snoc by auto
  have "tree_graph n (edges @ [e]) = add_neighbour b a (add_neighbour a b (tree_graph n edges))"
    by (simp add: tree_graph_def e)
  also have "\<dots> = Some (map (neighbours (edges @ [e])) [0..<n])"
    unfolding IH add_neighbour_def using e by (auto simp: neighbours_def nth_list_update intro!: nth_equalityI)
  finally show ?case .
qed

lemma set_neighbours: "set (neighbours edges i) = {j. (i, j) \<in> adjacent edges}"
  by (force simp: neighbours_def adjacent_def)

lemma distinct_neighbours: "distinct (map ends edges) \<Longrightarrow> \<forall>(a, b) \<in> set edges. a \<noteq> b \<Longrightarrow> distinct (neighbours edges i)"
proof (induction edges)
  case (Cons e edges)
  obtain a b where e: "e = (a, b)" "a \<noteq> b" using Cons.prems(2) by auto
  have "(a, b) \<notin> adjacent edges" "(b, a) \<notin> adjacent edges" using Cons.prems(1) e by (auto simp: adjacent_ends insert_commute)
  then have "b \<notin> set (neighbours edges a)" "a \<notin> set (neighbours edges b)" unfolding set_neighbours by auto
  moreover have "neighbours (e # edges) i = (if a = i then [b] else []) @ (if b = i then [a] else []) @ neighbours edges i"
    by (simp add: neighbours_def e)
  moreover have "distinct (neighbours edges i)" using Cons by auto
  ultimately show ?case using e(2) by auto
qed (simp add: neighbours_def)


section \<open>The two searches\<close>

definition rooted_graph :: "nat \<Rightarrow> (nat \<Rightarrow> nat) \<Rightarrow> nat list list \<Rightarrow> bool" where
  "rooted_graph n par g \<longleftrightarrow> length g = n \<and> (\<forall>i<n. distinct (g ! i) \<and> set (g ! i) = kids n par i \<union> (if i = 0 then {} else {par i}))"

lemma graph_is_rooted:
  assumes "rooted n par dep (adjacent edges)" "distinct (map ends edges)"
  shows "rooted_graph n par (map (neighbours edges) [0..<n])"
proof -
  have "a \<noteq> b" if "(a, b) \<in> set edges" for a b
  proof -
    have "(a, b) \<in> adjacent edges" using that by (simp add: adjacent_def)
    then show ?thesis using rootedD(4,5) [OF assms(1)] by (metis n_not_Suc_n)
  qed
  then have "distinct (neighbours edges i)" for i using distinct_neighbours [OF assms(2)] by blast
  moreover have "set (neighbours edges i) = kids n par i \<union> (if i = 0 then {} else {par i})" if "i < n" for i
    using that unfolding set_neighbours rootedD(5) [OF assms(1)] kids_def by auto
  ultimately show ?thesis by (simp add: rooted_graph_def)
qed

text \<open>The argument \<open>fa\<close> of a call for \<open>i\<close>, and the nodes that the rest of its loop visits.\<close>

definition up :: "(nat \<Rightarrow> nat) \<Rightarrow> nat \<Rightarrow> int" where
  "up par i = (if i = 0 then - 1 else int (par i))"

definition covered :: "nat \<Rightarrow> (nat \<Rightarrow> nat) \<Rightarrow> nat \<Rightarrow> nat list \<Rightarrow> nat set" where
  "covered n par i js = (\<Union>j\<in>{j \<in> set js. int j \<noteq> up par i}. subtree n par j)"

lemma covered_simps [simp]:
  "covered n par i [] = {}"
  "covered n par i (j # js) = (if int j = up par i then covered n par i js else subtree n par j \<union> covered n par i js)"
  by (auto simp: covered_def)

lemma covered_finite [simp]: "finite (covered n par i js)"
  by (simp add: covered_def)

lemma covered_lt: "x \<in> covered n par i js \<Longrightarrow> x < n"
  by (auto simp: covered_def subtree_def)

lemma next_kid:
  assumes "rooted_graph n par g" "i < n" "j \<in> set (g ! i)" "int j \<noteq> up par i"
  shows "j \<in> kids n par i" "up par j = int i" "0 < j" "j < n" "par j = i" "j < length g"
proof -
  show "j \<in> kids n par i" using assms by (auto simp: rooted_graph_def up_def split: if_splits)
  then show "up par j = int i" "0 < j" "j < n" "par j = i" "j < length g" using assms(1) by (auto simp: up_def kids_def rooted_graph_def)
qed

lemma covered_kids:
  assumes "rooted n par dep E" "rooted_graph n par g" "i < n"
  shows "subtree n par i = insert i (covered n par i (g ! i))" "set js \<subseteq> set (g ! i) \<Longrightarrow> i \<notin> covered n par i js"
proof -
  have "int j \<noteq> up par i" if "j \<in> kids n par i" for j
    using that rootedD(4) [OF assms(1), of i] rootedD(4) [OF assms(1), of j] assms(3) by (auto simp: up_def kids_def)
  moreover have "kids n par i \<subseteq> set (g ! i)" using assms(2,3) by (auto simp: rooted_graph_def)
  ultimately have "{j \<in> set (g ! i). int j \<noteq> up par i} = kids n par i" using next_kid(1) [OF assms(2,3)] by blast
  then show "subtree n par i = insert i (covered n par i (g ! i))" by (simp add: covered_def subtree_kids [OF assms(3)])
  assume "set js \<subseteq> set (g ! i)"
  then show "i \<notin> covered n par i js"
    using next_kid(1) [OF assms(2,3)] kid_smaller(2) [OF assms(1)] by (fastforce simp: covered_def)
qed

lemma covered_disjoint:
  assumes "rooted n par dep E" "rooted_graph n par g" "i < n" "distinct (j # js)" "set (j # js) \<subseteq> set (g ! i)" "int j \<noteq> up par i"
  shows "subtree n par j \<inter> covered n par i js = {}"
  using next_kid(1) [OF assms(2,3)] kids_disjoint [OF assms(1)] assms(4-6) by (fastforce simp: covered_def)

text \<open>What visiting the nodes \<open>A\<close> does in the first search.\<close>

definition result1 :: "nat \<Rightarrow> (nat \<Rightarrow> nat) \<Rightarrow> (nat \<Rightarrow> nat) \<Rightarrow> nat set \<Rightarrow> int list \<Rightarrow> int list \<Rightarrow> int list \<times> int list" where
  "result1 n par dep A ans sz = (ans[0 := ans ! 0 + (\<Sum>x\<in>A. int (dep x))],
     map (\<lambda>x. if x \<in> A then int (card (subtree n par x)) else sz ! x) [0..<n])"

definition loop1_ok :: "nat \<Rightarrow> (nat \<Rightarrow> nat) \<Rightarrow> (nat \<Rightarrow> nat) \<Rightarrow> nat list list \<Rightarrow> nat \<Rightarrow> nat list \<Rightarrow> bool" where
  "loop1_ok n par dep g i js \<longleftrightarrow> (\<forall>ans sz. length ans = n \<longrightarrow> length sz = n \<longrightarrow>
     dfs1_loop g i (up par i) (int (dep i)) js (ans, sz) =
       Some (result1 n par dep (covered n par i js) ans (sz[i := sz ! i + int (card (covered n par i js))])))"

lemma call1:
  assumes r: "rooted n par dep E" "rooted_graph n par g" and j: "j < n" and ok: "loop1_ok n par dep g j (g ! j)"
    and l: "length ans = n" "length sz = n"
  shows "dfs1_loop g j (up par j) (int (dep j)) (g ! j) (enter1 j (int (dep j)) (ans, sz)) = Some (result1 n par dep (subtree n par j) ans sz)"
proof -
  let ?A = "covered n par j (g ! j)"
  have sub: "subtree n par j = insert j ?A" "j \<notin> ?A" using covered_kids [OF r j] by auto
  have "ans \<noteq> []" using l(1) j by auto
  then show ?thesis using ok l j unfolding loop1_ok_def enter1_def result1_def
    by (auto simp: sub add.assoc nth_list_update intro!: nth_equalityI)
qed

lemma loop1_step:
  assumes r: "rooted n par dep E" "rooted_graph n par g" and i: "i < n" and js: "distinct (j # js)" "set (j # js) \<subseteq> set (g ! i)"
    and j: "int j \<noteq> up par i" and ok: "loop1_ok n par dep g j (g ! j)" and rest: "loop1_ok n par dep g i js"
  shows "loop1_ok n par dep g i (j # js)"
  unfolding loop1_ok_def
proof (intro allI impI)
  fix ans sz :: "int list" assume l: "length ans = n" "length sz = n"
  let ?S = "subtree n par j" and ?C = "covered n par i js"
  have kid: "j \<in> kids n par i" "up par j = int i" "0 < j" "j < n" "par j = i" "j < length g"
    using next_kid [OF r(2) i _ j] js(2) by auto
  have dep: "dep j = Suc (dep i)" using rootedD(4) [OF r(1) kid(3,4)] kid(5) by simp
  have disj: "?S \<inter> ?C = {}" by (rule covered_disjoint [OF r i js j])
  have notin: "i \<notin> ?S" "i \<notin> ?C" using kid_smaller(2) [OF r(1) kid(1)] covered_kids(2) [OF r i, of js] js(2) by auto
  have "ans \<noteq> []" using l(1) i by auto
  have call: "dfs1_loop g j (int i) (int (dep i) + 1) (g ! j) (enter1 j (int (dep i) + 1) (ans, sz)) = Some (result1 n par dep ?S ans sz)"
    using call1 [OF r kid(4) ok l] by (simp add: kid(2) dep add.commute)
  have add: "add_size i j (result1 n par dep ?S ans sz) =
      (fst (result1 n par dep ?S ans sz), (snd (result1 n par dep ?S ans sz))[i := sz ! i + int (card ?S)])"
    using kid(4) i notin(1) subtree_self [OF kid(4)] by (simp add: add_size_def result1_def)
  have "dfs1_loop g i (up par i) (int (dep i)) (j # js) (ans, sz) =
      dfs1_loop g i (up par i) (int (dep i)) js (add_size i j (result1 n par dep ?S ans sz))"
    using j kid(6) call by (subst dfs1_loop.simps) simp
  also have "\<dots> = Some (result1 n par dep (?S \<union> ?C) ans (sz[i := sz ! i + int (card (?S \<union> ?C))]))"
    using rest l i notin \<open>ans \<noteq> []\<close> unfolding loop1_ok_def add
    by (auto simp: result1_def card_Un_disjoint [OF _ _ disj] sum.union_disjoint [OF _ _ disj] nth_list_update add.assoc intro!: nth_equalityI)
  finally show "dfs1_loop g i (up par i) (int (dep i)) (j # js) (ans, sz) =
      Some (result1 n par dep (covered n par i (j # js)) ans (sz[i := sz ! i + int (card (covered n par i (j # js)))]))"
    using j by simp
qed

lemma loop1_all:
  assumes r: "rooted n par dep E" "rooted_graph n par g"
  shows "i < n \<Longrightarrow> distinct js \<Longrightarrow> set js \<subseteq> set (g ! i) \<Longrightarrow> loop1_ok n par dep g i js"
proof (induction "card (subtree n par i)" arbitrary: i js rule: less_induct)
  case less
  show ?case using less.prems
  proof (induction js)
    case Nil
    have "map (\<lambda>x. sz ! x) [0..<n] = sz" if "length sz = n" for sz :: "int list" using that map_nth by metis
    then show ?case by (simp add: loop1_ok_def result1_def dfs1_loop.simps)
  next
    case (Cons j js)
    then have IH: "loop1_ok n par dep g i js" by simp
    show ?case
    proof (cases "int j = up par i")
      case True
      then show ?thesis using IH by (simp add: loop1_ok_def dfs1_loop.simps [of _ _ _ _ "j # js"])
    next
      case False
      then have kid: "j \<in> kids n par i" "j < n" using next_kid [OF r(2) Cons.prems(1) _ False] Cons.prems(3) by auto
      have "loop1_ok n par dep g j (g ! j)"
        using less.hyps [OF kid_smaller(4) [OF r(1) kid(1)] kid(2)] r(2) kid(2) by (simp add: rooted_graph_def)
      then show ?thesis by (rule loop1_step [OF r Cons.prems False _ IH])
    qed
  qed
qed


text \<open>The second search, which starts with the sizes of the subtrees.\<close>

definition sizes :: "nat \<Rightarrow> (nat \<Rightarrow> nat) \<Rightarrow> int list" where
  "sizes n par = map (\<lambda>x. int (card (subtree n par x))) [0..<n]"

definition result2 :: "nat \<Rightarrow> (nat \<times> nat) set \<Rightarrow> nat set \<Rightarrow> int list \<Rightarrow> int list" where
  "result2 n E A ans = map (\<lambda>x. if x \<in> A then total n E x else ans ! x) [0..<n]"

definition loop2_ok :: "nat \<Rightarrow> (nat \<Rightarrow> nat) \<Rightarrow> (nat \<times> nat) set \<Rightarrow> nat list list \<Rightarrow> nat \<Rightarrow> nat list \<Rightarrow> bool" where
  "loop2_ok n par E g i js \<longleftrightarrow> (\<forall>ans. length ans = n \<longrightarrow>
     dfs2_loop g (int n) (sizes n par) i (up par i) (total n E i) js ans = Some (result2 n E (covered n par i js) ans))"

lemma call2:
  assumes r: "rooted n par dep E" "rooted_graph n par g" and j: "j < n" and ok: "loop2_ok n par E g j (g ! j)" and l: "length ans = n"
  shows "dfs2_loop g (int n) (sizes n par) j (up par j) (total n E j) (g ! j) (ans[j := total n E j]) = Some (result2 n E (subtree n par j) ans)"
  using ok l j covered_kids [OF r j] unfolding loop2_ok_def
  by (auto simp: result2_def nth_list_update intro!: nth_equalityI)

lemma loop2_all:
  assumes r: "rooted n par dep E" "rooted_graph n par g"
  shows "i < n \<Longrightarrow> distinct js \<Longrightarrow> set js \<subseteq> set (g ! i) \<Longrightarrow> loop2_ok n par E g i js"
proof (induction "card (subtree n par i)" arbitrary: i js rule: less_induct)
  case less
  show ?case using less.prems
  proof (induction js)
    case Nil
    have "map (\<lambda>x. ans ! x) [0..<n] = ans" if "length ans = n" for ans :: "int list" using that map_nth by metis
    then show ?case by (simp add: loop2_ok_def result2_def dfs2_loop.simps)
  next
    case (Cons j js)
    then have IH: "loop2_ok n par E g i js" by simp
    show ?case
    proof (cases "int j = up par i")
      case True
      then show ?thesis using IH by (simp add: loop2_ok_def dfs2_loop.simps [of _ _ _ _ _ _ "j # js"])
    next
      case False
      have kid: "j \<in> kids n par i" "up par j = int i" "0 < j" "j < n" "par j = i" "j < length g"
        using next_kid [OF r(2) Cons.prems(1) _ False] Cons.prems(3) by auto
      have ok: "loop2_ok n par E g j (g ! j)"
        using less.hyps [OF kid_smaller(4) [OF r(1) kid(1)] kid(4)] r(2) kid(4) by (simp add: rooted_graph_def)
      have "total n E i - sizes n par ! j + int n - sizes n par ! j = total n E j"
        using total_kid [OF r(1) kid(3,4)] kid(4,5) by (simp add: sizes_def)
      then have "dfs2_loop g (int n) (sizes n par) i (up par i) (total n E i) (j # js) ans =
          Some (result2 n E (covered n par i js) (result2 n E (subtree n par j) ans))" if "length ans = n" for ans
        using call2 [OF r kid(4) ok that] IH kid(2,6) False by (simp add: dfs2_loop.simps [of _ _ _ _ _ _ "j # js"] loop2_ok_def result2_def)
      then show ?thesis using False by (auto simp: loop2_ok_def result2_def)
    qed
  qed
qed

section \<open>The result\<close>

lemma rooted_distances:
  assumes r: "rooted n par (distance E 0) E" "rooted_graph n par g"
  shows "dfs1 g 0 (- 1) 0 (replicate n 0, replicate n 0) = Some ((replicate n 0)[0 := total n E 0], sizes n par)"
    "dfs2 g (int n) (sizes n par) 0 (- 1) (total n E 0) ((replicate n 0)[0 := total n E 0]) = Some (map (total n E) [0..<n])"
proof -
  have n: "0 < n" "length g = n" and g: "distinct (g ! 0)" using r by (auto simp: rooted_def rooted_graph_def)
  have "x \<in> subtree n par 0" if "x < n" for x
    using that
  proof (induction "distance E 0 x" arbitrary: x rule: less_induct)
    case less
    show ?case
    proof (cases "x = 0")
      case False
      then have "par x \<in> subtree n par 0" using less rootedD(3,4) [OF r(1), of x] by simp
      moreover have "(x, par x) \<in> parent_rel n par" using False less.prems by (auto simp: parent_rel_def)
      ultimately show ?thesis using less.prems by (auto simp: subtree_def intro: converse_rtrancl_into_rtrancl)
    qed (use n in \<open>simp add: subtree_self\<close>)
  qed
  then have all: "subtree n par 0 = {..<n}" using subtree_lt by auto
  have "up par 0 = - 1" "distance E 0 0 = 0" using rootedD(2) [OF r(1)] by (simp_all add: up_def)
  note top = this
  show "dfs1 g 0 (- 1) 0 (replicate n 0, replicate n 0) = Some ((replicate n 0)[0 := total n E 0], sizes n par)"
    using call1 [OF r n(1) loop1_all [OF r n(1) g], of "replicate n 0" "replicate n 0"] n
    by (simp add: dfs1_def top all result1_def total_def sizes_def)
  show "dfs2 g (int n) (sizes n par) 0 (- 1) (total n E 0) ((replicate n 0)[0 := total n E 0]) = Some (map (total n E) [0..<n])"
    using call2 [OF r n(1) loop2_all [OF r n(1) g], of "(replicate n 0)[0 := total n E 0]"] n
    by (simp add: dfs2_def top all result2_def)
qed

text \<open>
  C21: on every tree, that is \<open>n\<close> connected nodes with \<open>n - 1\<close> edges in any order and direction, the function ends inside
  of its vectors and returns for every node the sum of the lengths of the shortest paths to all nodes.
\<close>
theorem sum_of_distances_correct:
  assumes "is_tree n edges"
  shows "sum_of_distances_in_tree n edges = Some (map (\<lambda>i. \<Sum>j<n. int (distance (adjacent edges) i j)) [0..<n])"
proof -
  let ?E = "adjacent edges" and ?g = "map (neighbours edges) [0..<n]"
  obtain par where par: "rooted n par (distance ?E 0) ?E" "distinct (map ends edges)" using tree_is_rooted [OF assms] by blast
  note r = par(1) graph_is_rooted [OF par]
  have "tree_graph n edges = Some ?g" using assms by (intro tree_graph_neighbours) (simp add: is_tree_def)
  moreover have "n \<noteq> 0" using assms by (simp add: is_tree_def)
  ultimately show ?thesis
    using rooted_distances [OF r] by (simp add: sum_of_distances_in_tree_def total_def [abs_def])
qed

lemma sum_of_distances_correct_witness:
  "sum_of_distances_in_tree 3 [(0, 1), (2, 0)] =
    Some (map (\<lambda>i. \<Sum>j<3. int (distance (adjacent [(0, 1), (2, 0)]) i j)) [0..<3])"
proof (rule sum_of_distances_correct)
  have "(0, 1) \<in> adjacent [(0, 1), (2, 0)]" "(0, 2) \<in> adjacent [(0, 1), (2, 0)]" by (auto simp: adjacent_def)
  then have "(0, i) \<in> (adjacent [(0, 1), (2, 0)])\<^sup>*" if "i < 3" for i
    using that by (auto simp: less_Suc_eq numeral_3_eq_3 numeral_2_eq_2)
  then show "is_tree 3 [(0, 1), (2, 0)]" by (simp add: is_tree_def)
qed

end
