(* ===== verification/Doubly_Linked.thy ===== *)
theory Doubly_Linked
  imports Cpp_Heap
begin

text \<open>
  \<open>algorithms/linked_list/doubly.cpp\<close>: the class \<open>DoublyLinkedList\<close> over an explicit heap of nodes,
  and its program. A member returns \<open>Inl Undefined_Behaviour\<close> where it would dereference a null or
  dangling pointer or delete a node twice. The loops that follow the links (\<open>find\<close>, \<open>clear\<close> and the
  two printers) are \<open>partial_function\<close>s, whose value is \<open>None\<close> if they never end.

  The node pointers a caller holds are the addresses in the heap; \<open>None\<close> is \<open>nullptr\<close>. \<open>sz\<close> counts
  nodes in memory and stays far below the largest \<open>int\<close>.
\<close>

section \<open>The class\<close>

record node =
  nd_val :: int
  nd_prev :: "nat option"
  nd_next :: "nat option"

record dll =
  dl_head :: "nat option"
  dl_tail :: "nat option"
  dl_sz :: int
  dl_heap :: "node heap"

definition new_node :: "int \<Rightarrow> node heap \<Rightarrow> nat \<times> node heap" where
  "new_node v h = new_object \<lparr>nd_val = v, nd_prev = None, nd_next = None\<rparr> h"

definition set_prev :: "nat option \<Rightarrow> nat option \<Rightarrow> node heap \<Rightarrow> node heap result" where
  "set_prev p q h = update_object p (\<lambda>x. x\<lparr>nd_prev := q\<rparr>) h"

definition set_next :: "nat option \<Rightarrow> nat option \<Rightarrow> node heap \<Rightarrow> node heap result" where
  "set_next p q h = update_object p (\<lambda>x. x\<lparr>nd_next := q\<rparr>) h"

definition DoublyLinkedList :: "node heap \<Rightarrow> dll" where
  "DoublyLinkedList h = \<lparr>dl_head = None, dl_tail = None, dl_sz = 0, dl_heap = h\<rparr>"

definition dl_size :: "dll \<Rightarrow> int" where
  "dl_size l = dl_sz l"

definition dl_empty :: "dll \<Rightarrow> bool" where
  "dl_empty l \<longleftrightarrow> dl_sz l = 0"

definition dl_front :: "dll \<Rightarrow> int result" where
  "dl_front l =
     (if dl_empty l then Inl (Runtime_Error ''List is empty'')
      else bind_result (read_object (dl_head l) (dl_heap l)) (\<lambda>x. Inr (nd_val x)))"

definition dl_back :: "dll \<Rightarrow> int result" where
  "dl_back l =
     (if dl_empty l then Inl (Runtime_Error ''List is empty'')
      else bind_result (read_object (dl_tail l) (dl_heap l)) (\<lambda>x. Inr (nd_val x)))"

definition dl_push_front :: "int \<Rightarrow> dll \<Rightarrow> (nat option \<times> dll) result" where
  "dl_push_front v l =
     (case new_node v (dl_heap l) of (a, h) \<Rightarrow>
        if dl_empty l
        then Inr (Some a, l\<lparr>dl_head := Some a, dl_tail := Some a, dl_sz := dl_sz l + 1, dl_heap := h\<rparr>)
        else
          bind_result (set_next (Some a) (dl_head l) h) (\<lambda>h.
          bind_result (set_prev (dl_head l) (Some a) h) (\<lambda>h.
            Inr (Some a, l\<lparr>dl_head := Some a, dl_sz := dl_sz l + 1, dl_heap := h\<rparr>))))"

definition dl_push_back :: "int \<Rightarrow> dll \<Rightarrow> (nat option \<times> dll) result" where
  "dl_push_back v l =
     (case new_node v (dl_heap l) of (a, h) \<Rightarrow>
        if dl_empty l
        then Inr (Some a, l\<lparr>dl_head := Some a, dl_tail := Some a, dl_sz := dl_sz l + 1, dl_heap := h\<rparr>)
        else
          bind_result (set_next (dl_tail l) (Some a) h) (\<lambda>h.
          bind_result (set_prev (Some a) (dl_tail l) h) (\<lambda>h.
            Inr (Some a, l\<lparr>dl_tail := Some a, dl_sz := dl_sz l + 1, dl_heap := h\<rparr>))))"

definition dl_pop_front :: "dll \<Rightarrow> dll result" where
  "dl_pop_front l =
     (if dl_empty l then Inr l
      else
        bind_result
          (if dl_head l = dl_tail l then Inr (l\<lparr>dl_head := None, dl_tail := None\<rparr>)
           else
             bind_result (read_object (dl_head l) (dl_heap l)) (\<lambda>x.
             bind_result (set_prev (nd_next x) None (dl_heap l)) (\<lambda>h.
               Inr (l\<lparr>dl_head := nd_next x, dl_heap := h\<rparr>))))
          (\<lambda>l'. bind_result (free_object (dl_head l) (dl_heap l')) (\<lambda>h.
            Inr (l'\<lparr>dl_sz := dl_sz l' - 1, dl_heap := h\<rparr>))))"

definition dl_pop_back :: "dll \<Rightarrow> dll result" where
  "dl_pop_back l =
     (if dl_empty l then Inr l
      else
        bind_result
          (if dl_head l = dl_tail l then Inr (l\<lparr>dl_head := None, dl_tail := None\<rparr>)
           else
             bind_result (read_object (dl_tail l) (dl_heap l)) (\<lambda>x.
             bind_result (set_next (nd_prev x) None (dl_heap l)) (\<lambda>h.
               Inr (l\<lparr>dl_tail := nd_prev x, dl_heap := h\<rparr>))))
          (\<lambda>l'. bind_result (free_object (dl_tail l) (dl_heap l')) (\<lambda>h.
            Inr (l'\<lparr>dl_sz := dl_sz l' - 1, dl_heap := h\<rparr>))))"

definition dl_insert_after :: "nat option \<Rightarrow> int \<Rightarrow> dll \<Rightarrow> (nat option \<times> dll) result" where
  "dl_insert_after pos v l =
     (if pos = None then dl_push_front v l
      else if pos = dl_tail l then dl_push_back v l
      else
        case new_node v (dl_heap l) of (a, h) \<Rightarrow>
          bind_result (read_object pos h) (\<lambda>x.
          bind_result (set_prev (Some a) pos h) (\<lambda>h.
          bind_result (set_next (Some a) (nd_next x) h) (\<lambda>h.
          bind_result (set_next pos (Some a) h) (\<lambda>h.
          bind_result (set_prev (nd_next x) (Some a) h) (\<lambda>h.
            Inr (Some a, l\<lparr>dl_sz := dl_sz l + 1, dl_heap := h\<rparr>)))))))"

definition dl_insert_before :: "nat option \<Rightarrow> int \<Rightarrow> dll \<Rightarrow> (nat option \<times> dll) result" where
  "dl_insert_before pos v l =
     (if pos = None then dl_push_back v l
      else if pos = dl_head l then dl_push_front v l
      else
        case new_node v (dl_heap l) of (a, h) \<Rightarrow>
          bind_result (read_object pos h) (\<lambda>x.
          bind_result (set_prev (Some a) (nd_prev x) h) (\<lambda>h.
          bind_result (set_next (Some a) pos h) (\<lambda>h.
          bind_result (set_next (nd_prev x) (Some a) h) (\<lambda>h.
          bind_result (set_prev pos (Some a) h) (\<lambda>h.
            Inr (Some a, l\<lparr>dl_sz := dl_sz l + 1, dl_heap := h\<rparr>)))))))"

definition dl_erase :: "nat option \<Rightarrow> dll \<Rightarrow> dll result" where
  "dl_erase p l =
     (if p = None then Inr l
      else if p = dl_head l then dl_pop_front l
      else if p = dl_tail l then dl_pop_back l
      else
        bind_result (read_object p (dl_heap l)) (\<lambda>x.
        bind_result (set_next (nd_prev x) (nd_next x) (dl_heap l)) (\<lambda>h.
        bind_result (set_prev (nd_next x) (nd_prev x) h) (\<lambda>h.
        bind_result (free_object p h) (\<lambda>h.
          Inr (l\<lparr>dl_sz := dl_sz l - 1, dl_heap := h\<rparr>))))))"

text \<open>The loops. The heap in the state is the one the loop reads or changes.\<close>

partial_function (option) dl_find_from :: "int \<Rightarrow> nat option \<Rightarrow> node heap \<Rightarrow> nat option result option" where
  "dl_find_from v p h =
     (if p = None then Some (Inr None)
      else case read_object p h of
          Inl e \<Rightarrow> Some (Inl e)
        | Inr x \<Rightarrow> if nd_val x = v then Some (Inr p) else dl_find_from v (nd_next x) h)"

definition dl_find :: "int \<Rightarrow> dll \<Rightarrow> nat option result option" where
  "dl_find v l = dl_find_from v (dl_head l) (dl_heap l)"

definition dl_contains :: "int \<Rightarrow> dll \<Rightarrow> bool result option" where
  "dl_contains v l = map_option (\<lambda>r. bind_result r (\<lambda>p. Inr (p \<noteq> None))) (dl_find v l)"

partial_function (option) dl_clear_from :: "nat option \<Rightarrow> node heap \<Rightarrow> node heap result option" where
  "dl_clear_from p h =
     (if p = None then Some (Inr h)
      else case read_object p h of
          Inl e \<Rightarrow> Some (Inl e)
        | Inr x \<Rightarrow>
            (case free_object p h of Inl e \<Rightarrow> Some (Inl e) | Inr h' \<Rightarrow> dl_clear_from (nd_next x) h'))"

definition dl_clear :: "dll \<Rightarrow> dll result option" where
  "dl_clear l =
     map_option (\<lambda>r. bind_result r (\<lambda>h. Inr \<lparr>dl_head = None, dl_tail = None, dl_sz = 0, dl_heap = h\<rparr>))
       (dl_clear_from (dl_head l) (dl_heap l))"

partial_function (option) dl_print_from ::
  "(node \<Rightarrow> nat option) \<Rightarrow> nat option \<Rightarrow> node heap \<Rightarrow> string \<Rightarrow> string result option" where
  "dl_print_from link p h out =
     (if p = None then Some (Inr (out @ newline))
      else case read_object p h of
          Inl e \<Rightarrow> Some (Inl e)
        | Inr x \<Rightarrow> dl_print_from link (link x) h (out @ show_int (nd_val x) @ '' ''))"

definition dl_print_forward :: "dll \<Rightarrow> string result option" where
  "dl_print_forward l = dl_print_from nd_next (dl_head l) (dl_heap l) []"

definition dl_print_backward :: "dll \<Rightarrow> string result option" where
  "dl_print_backward l = dl_print_from nd_prev (dl_tail l) (dl_heap l) []"

section \<open>The list a heap holds\<close>

text \<open>
  \<open>dseg m p xs r\<close>: in the memory \<open>m\<close> the nodes of \<open>xs\<close> (address and value) form a doubly linked
  segment that is entered from \<open>p\<close> and leads to \<open>r\<close>.
\<close>

definition first_of :: "nat option \<Rightarrow> (nat \<times> int) list \<Rightarrow> nat option" where
  "first_of r xs = (case xs of [] \<Rightarrow> r | x # _ \<Rightarrow> Some (fst x))"

definition last_of :: "nat option \<Rightarrow> (nat \<times> int) list \<Rightarrow> nat option" where
  "last_of p xs = (if xs = [] then p else Some (fst (last xs)))"

fun dseg :: "(nat \<Rightarrow> node option) \<Rightarrow> nat option \<Rightarrow> (nat \<times> int) list \<Rightarrow> nat option \<Rightarrow> bool" where
  "dseg m p [] r \<longleftrightarrow> True"
| "dseg m p ((a, v) # xs) r \<longleftrightarrow>
     m a = Some \<lparr>nd_val = v, nd_prev = p, nd_next = first_of r xs\<rparr> \<and> dseg m (Some a) xs r"

definition dl_shape :: "dll \<Rightarrow> (nat \<times> int) list \<Rightarrow> bool" where
  "dl_shape l xs \<longleftrightarrow>
     dl_head l = first_of None xs \<and> dl_tail l = last_of None xs \<and> dl_sz l = int (length xs) \<and>
     dseg (h_objects (dl_heap l)) None xs None \<and> distinct (map fst xs) \<and>
     dom (h_objects (dl_heap l)) = fst ` set xs"

definition dl_rep :: "dll \<Rightarrow> (nat \<times> int) list \<Rightarrow> bool" where
  "dl_rep l xs \<longleftrightarrow> dl_shape l xs \<and> heap_log_ok (dl_heap l)"

lemma first_of_simps [simp]:
  "first_of r [] = r"
  "first_of r (x # xs) = Some (fst x)"
  "first_of r (xs @ ys) = first_of (first_of r ys) xs"
  by (simp_all add: first_of_def split: list.split)

lemma last_of_simps [simp]:
  "last_of p [] = p"
  "last_of p (xs @ ys) = last_of (last_of p xs) ys"
  "last_of p (x # xs) = last_of (Some (fst x)) xs"
  by (auto simp: last_of_def)

lemma dseg_append [simp]:
  "dseg m p (xs @ ys) r \<longleftrightarrow> dseg m p xs (first_of r ys) \<and> dseg m (last_of p xs) ys r"
proof (induction xs arbitrary: p)
  case (Cons x xs)
  then show ?case by (cases x) simp
qed simp

lemma dseg_frame [simp]: "a \<notin> fst ` set xs \<Longrightarrow> dseg (m(a := y)) p xs r \<longleftrightarrow> dseg m p xs r"
proof (induction xs arbitrary: p)
  case (Cons x xs)
  then show ?case by (cases x) simp
qed simp

lemma shape_empty: "dl_shape l xs \<Longrightarrow> dl_empty l \<longleftrightarrow> xs = []"
  by (simp add: dl_shape_def dl_empty_def)

lemma shape_fresh: "dl_shape l xs \<Longrightarrow> h_objects (dl_heap l) a = None \<Longrightarrow> a \<notin> fst ` set xs"
  unfolding dl_shape_def by (metis domIff)

lemma rep_new: "dl_rep (DoublyLinkedList empty_heap) []"
  by (simp add: dl_rep_def dl_shape_def DoublyLinkedList_def empty_heap_def heap_log_ok_def)

lemma pair_cases: "(\<And>a v ys. xs = (a, v) # ys \<Longrightarrow> P) \<Longrightarrow> (xs = [] \<Longrightarrow> P) \<Longrightarrow> P"
  by (cases xs) auto

lemma pair_rev_cases: "(\<And>a v ys. xs = ys @ [(a, v)] \<Longrightarrow> P) \<Longrightarrow> (xs = [] \<Longrightarrow> P) \<Longrightarrow> P"
  by (cases xs rule: rev_cases) auto

lemma in_list_split: "a \<in> fst ` set xs \<Longrightarrow> \<exists>ys v zs. xs = ys @ (a, v) # zs"
proof -
  assume "a \<in> fst ` set xs"
  then obtain v where "(a, v) \<in> set xs" by auto
  then show ?thesis by (metis split_list)
qed

lemma first_of_not [simp]:
  "a \<notin> fst ` set xs \<Longrightarrow> r \<noteq> Some a \<Longrightarrow> first_of r xs \<noteq> Some a"
  "a \<notin> fst ` set xs \<Longrightarrow> r \<noteq> Some a \<Longrightarrow> Some a \<noteq> first_of r xs"
  by (cases xs; auto)+

lemma last_of_not [simp]:
  "a \<notin> fst ` set xs \<Longrightarrow> p \<noteq> Some a \<Longrightarrow> last_of p xs \<noteq> Some a"
  "a \<notin> fst ` set xs \<Longrightarrow> p \<noteq> Some a \<Longrightarrow> Some a \<noteq> last_of p xs"
  by (auto simp: last_of_def split: if_splits)

lemma single_dom [simp]: "dom m = {a} \<Longrightarrow> m(a := None) = (\<lambda>x. None)"
  by (auto simp: fun_eq_iff dom_def set_eq_iff)

lemmas dl_shape_simps = new_node_def new_object_def dl_shape_def dl_empty_def set_next_def set_prev_def

section \<open>The operations on the list\<close>

lemma push_front_shape:
  assumes "dl_shape l xs" and "h_objects (dl_heap l) (h_next (dl_heap l)) = None"
  shows "\<exists>l'. dl_push_front v l = Inr (Some (h_next (dl_heap l)), l') \<and>
    dl_shape l' ((h_next (dl_heap l), v) # xs)"
  using assms shape_fresh [OF assms]
  by (cases rule: pair_cases [of xs]) (auto simp: dl_push_front_def dl_shape_simps)

lemma push_back_shape:
  assumes "dl_shape l xs" and "h_objects (dl_heap l) (h_next (dl_heap l)) = None"
  shows "\<exists>l'. dl_push_back v l = Inr (Some (h_next (dl_heap l)), l') \<and>
    dl_shape l' (xs @ [(h_next (dl_heap l), v)])"
  using assms shape_fresh [OF assms]
  by (cases rule: pair_rev_cases [of xs]) (auto simp: dl_push_back_def dl_shape_simps)

lemma pop_front_shape:
  assumes "dl_shape l xs"
  shows "\<exists>l'. dl_pop_front l = Inr l' \<and> dl_shape l' (tl xs)"
proof (cases rule: pair_cases [of xs])
  case (1 a v ys)
  then show ?thesis using assms
    by (cases rule: pair_cases [of ys]) (auto simp: dl_pop_front_def dl_shape_simps)
qed (use assms in \<open>simp add: dl_pop_front_def shape_empty\<close>)

lemma pop_back_shape:
  assumes "dl_shape l xs"
  shows "\<exists>l'. dl_pop_back l = Inr l' \<and> dl_shape l' (butlast xs)"
proof (cases rule: pair_rev_cases [of xs])
  case (1 a v ys)
  then show ?thesis using assms
    by (cases rule: pair_rev_cases [of ys]) (auto simp: dl_pop_back_def dl_shape_simps butlast_append)
qed (use assms in \<open>simp add: dl_pop_back_def shape_empty\<close>)

text \<open>Where \<open>insert_after\<close> and \<open>insert_before\<close> put the new node, and what \<open>erase\<close> leaves.\<close>

fun list_insert_after :: "nat \<Rightarrow> nat \<times> int \<Rightarrow> (nat \<times> int) list \<Rightarrow> (nat \<times> int) list" where
  "list_insert_after a x [] = []"
| "list_insert_after a x (y # ys) = (if fst y = a then y # x # ys else y # list_insert_after a x ys)"

fun list_insert_before :: "nat \<Rightarrow> nat \<times> int \<Rightarrow> (nat \<times> int) list \<Rightarrow> (nat \<times> int) list" where
  "list_insert_before a x [] = []"
| "list_insert_before a x (y # ys) = (if fst y = a then x # y # ys else y # list_insert_before a x ys)"

lemma list_inserts [simp]:
  "a \<notin> fst ` set ys \<Longrightarrow> list_insert_after a x (ys @ (a, v) # zs) = ys @ (a, v) # x # zs"
  "a \<notin> fst ` set ys \<Longrightarrow> list_insert_before a x (ys @ (a, v) # zs) = ys @ x # (a, v) # zs"
  by (induction ys) auto

lemma insert_after_shape:
  assumes "dl_shape l xs" and "h_objects (dl_heap l) (h_next (dl_heap l)) = None" and "a \<in> fst ` set xs"
  shows "\<exists>l'. dl_insert_after (Some a) v l = Inr (Some (h_next (dl_heap l)), l') \<and>
    dl_shape l' (list_insert_after a (h_next (dl_heap l), v) xs)"
proof -
  obtain ys w zs where xs: "xs = ys @ (a, w) # zs" using in_list_split [OF assms(3)] by blast
  have a: "a \<notin> fst ` set ys" "a \<notin> fst ` set zs" using assms(1) xs by (auto simp: dl_shape_def)
  show ?thesis
  proof (cases rule: pair_cases [of zs])
    case 2
    then have "dl_insert_after (Some a) v l = dl_push_back v l"
      using assms(1) xs by (simp add: dl_insert_after_def dl_shape_def)
    then show ?thesis using push_back_shape [OF assms(1,2), of v] xs a 2 by simp
  next
    case (1 b u us)
    have "list_insert_after a (h_next (dl_heap l), v) xs =
        ys @ (a, w) # (h_next (dl_heap l), v) # (b, u) # us"
      using a xs 1 by simp
    then show ?thesis using assms shape_fresh [OF assms(1,2)] xs 1 a
      by (simp add: dl_insert_after_def dl_shape_simps insert_commute image_Un)
  qed
qed

lemma insert_before_shape:
  assumes "dl_shape l xs" and "h_objects (dl_heap l) (h_next (dl_heap l)) = None" and "a \<in> fst ` set xs"
  shows "\<exists>l'. dl_insert_before (Some a) v l = Inr (Some (h_next (dl_heap l)), l') \<and>
    dl_shape l' (list_insert_before a (h_next (dl_heap l), v) xs)"
proof -
  obtain ys w zs where xs: "xs = ys @ (a, w) # zs" using in_list_split [OF assms(3)] by blast
  have a: "a \<notin> fst ` set ys" "a \<notin> fst ` set zs" using assms(1) xs by (auto simp: dl_shape_def)
  show ?thesis
  proof (cases rule: pair_rev_cases [of ys])
    case 2
    then have "dl_insert_before (Some a) v l = dl_push_front v l"
      using assms(1) xs by (simp add: dl_insert_before_def dl_shape_def)
    then show ?thesis using push_front_shape [OF assms(1,2), of v] xs a 2 by simp
  next
    case (1 b u us)
    have "list_insert_before a (h_next (dl_heap l), v) xs =
        us @ (b, u) # (h_next (dl_heap l), v) # (a, w) # zs"
      using list_inserts(2) [OF a(1), of "(h_next (dl_heap l), v)" w zs] xs 1 by simp
    then show ?thesis using assms shape_fresh [OF assms(1,2)] xs 1 a
      by (simp add: dl_insert_before_def dl_shape_simps insert_commute image_Un)
  qed
qed

lemma filter_not [simp]: "a \<notin> fst ` set xs \<Longrightarrow> filter (\<lambda>x. fst x \<noteq> a) xs = xs"
  by (auto simp: filter_id_conv)

lemma erase_shape:
  assumes "dl_shape l xs" and "a \<in> fst ` set xs"
  shows "\<exists>l'. dl_erase (Some a) l = Inr l' \<and> dl_shape l' (filter (\<lambda>x. fst x \<noteq> a) xs)"
proof -
  obtain ys w zs where xs: "xs = ys @ (a, w) # zs" using in_list_split [OF assms(2)] by blast
  have a: "a \<notin> fst ` set ys" "a \<notin> fst ` set zs" using assms(1) xs by (auto simp: dl_shape_def)
  show ?thesis
  proof (cases rule: pair_rev_cases [of ys])
    case 2
    then have "dl_erase (Some a) l = dl_pop_front l"
      using assms(1) xs by (simp add: dl_erase_def dl_shape_def)
    then show ?thesis using pop_front_shape [OF assms(1)] xs a 2 by simp
  next
    case (1 b u us)
    then have head: "dl_head l \<noteq> Some a" using a xs assms(1) by (simp add: dl_shape_def)
    show ?thesis
    proof (cases rule: pair_cases [of zs])
      case 2
      then have "dl_erase (Some a) l = dl_pop_back l"
        using head assms(1) xs by (simp add: dl_erase_def dl_shape_def)
      then show ?thesis using pop_back_shape [OF assms(1)] xs a 2 by (simp add: butlast_append)
    next
      case (1 c t ts)
      then show ?thesis using assms xs \<open>ys = us @ [(b, u)]\<close> head a
        by (auto simp: dl_erase_def dl_shape_simps)
    qed
  qed
qed

section \<open>The record of the heap\<close>

lemma set_link_log:
  "set_prev p q h = Inr h' \<Longrightarrow> heap_log_ok h \<Longrightarrow> heap_log_ok h'"
  "set_next p q h = Inr h' \<Longrightarrow> heap_log_ok h \<Longrightarrow> heap_log_ok h'"
  by (auto simp: set_prev_def set_next_def update_object_def bind_result_Inr read_object_def
      write_object_def update_log split: option.splits)

lemma free_log: "free_object p h = Inr h' \<Longrightarrow> heap_log_ok h \<Longrightarrow> heap_log_ok h'"
  by (auto simp: free_object_def bind_result_Inr delete_log split: if_splits)

lemma new_node_log: "heap_log_ok h \<Longrightarrow> new_node v h = (a, h') \<Longrightarrow> heap_log_ok h'"
  using new_log [of h] by (metis new_node_def snd_conv)

lemmas log_rules = set_link_log free_log new_node_log

lemma push_log:
  "dl_push_front v l = Inr (p, l') \<Longrightarrow> heap_log_ok (dl_heap l) \<Longrightarrow> heap_log_ok (dl_heap l')"
  "dl_push_back v l = Inr (p, l') \<Longrightarrow> heap_log_ok (dl_heap l) \<Longrightarrow> heap_log_ok (dl_heap l')"
  by (auto simp: dl_push_front_def dl_push_back_def bind_result_Inr split: prod.splits if_splits)
    (metis log_rules)+

lemma pop_log:
  "dl_pop_front l = Inr l' \<Longrightarrow> heap_log_ok (dl_heap l) \<Longrightarrow> heap_log_ok (dl_heap l')"
  "dl_pop_back l = Inr l' \<Longrightarrow> heap_log_ok (dl_heap l) \<Longrightarrow> heap_log_ok (dl_heap l')"
  by (auto simp: dl_pop_front_def dl_pop_back_def bind_result_Inr split: if_splits) (metis log_rules)+

lemma insert_log:
  "dl_insert_after pos v l = Inr (p, l') \<Longrightarrow> heap_log_ok (dl_heap l) \<Longrightarrow> heap_log_ok (dl_heap l')"
  "dl_insert_before pos v l = Inr (p, l') \<Longrightarrow> heap_log_ok (dl_heap l) \<Longrightarrow> heap_log_ok (dl_heap l')"
  by (auto simp: dl_insert_after_def dl_insert_before_def bind_result_Inr
      split: prod.splits if_splits) (metis log_rules push_log)+

lemma erase_log: "dl_erase p l = Inr l' \<Longrightarrow> heap_log_ok (dl_heap l) \<Longrightarrow> heap_log_ok (dl_heap l')"
  by (auto simp: dl_erase_def bind_result_Inr split: if_splits) (metis log_rules pop_log)+

text \<open>How many nodes each operation created.\<close>

lemma link_next:
  "set_prev p q h = Inr h' \<Longrightarrow> h_next h' = h_next h"
  "set_next p q h = Inr h' \<Longrightarrow> h_next h' = h_next h"
  "free_object p h = Inr h' \<Longrightarrow> h_next h' = h_next h"
  "new_node v h = (a, h') \<Longrightarrow> h_next h' = Suc (h_next h)"
  by (auto simp: set_prev_def set_next_def update_object_def bind_result_Inr read_object_def
      write_object_def free_object_def delete_ptr_def new_node_def new_object_def
      split: option.splits if_splits)

lemma push_next:
  "dl_push_front v l = Inr (p, l') \<Longrightarrow> h_next (dl_heap l') = Suc (h_next (dl_heap l))"
  "dl_push_back v l = Inr (p, l') \<Longrightarrow> h_next (dl_heap l') = Suc (h_next (dl_heap l))"
  by (auto simp: dl_push_front_def dl_push_back_def bind_result_Inr split: prod.splits if_splits
      dest!: link_next)

lemma pop_next:
  "dl_pop_front l = Inr l' \<Longrightarrow> h_next (dl_heap l') = h_next (dl_heap l)"
  "dl_pop_back l = Inr l' \<Longrightarrow> h_next (dl_heap l') = h_next (dl_heap l)"
  by (auto simp: dl_pop_front_def dl_pop_back_def bind_result_Inr split: if_splits dest!: link_next)

lemma insert_next:
  "dl_insert_after pos v l = Inr (p, l') \<Longrightarrow> h_next (dl_heap l') = Suc (h_next (dl_heap l))"
  "dl_insert_before pos v l = Inr (p, l') \<Longrightarrow> h_next (dl_heap l') = Suc (h_next (dl_heap l))"
  by (auto simp: dl_insert_after_def dl_insert_before_def bind_result_Inr
      split: prod.splits if_splits dest!: link_next push_next)

lemma erase_next: "dl_erase p l = Inr l' \<Longrightarrow> h_next (dl_heap l') = h_next (dl_heap l)"
  by (auto simp: dl_erase_def bind_result_Inr split: if_splits dest!: link_next pop_next)

section \<open>The loops\<close>

declare dl_find_from.simps [code] dl_clear_from.simps [code] dl_print_from.simps [code]

lemma clear_from_rep:
  "dseg (h_objects h) p xs None \<Longrightarrow> distinct (map fst xs) \<Longrightarrow> heap_log_ok h \<Longrightarrow>
    \<exists>h'. dl_clear_from (first_of None xs) h = Some (Inr h') \<and> heap_log_ok h' \<and>
      h_objects h' = h_objects h |` (- (fst ` set xs)) \<and> h_next h' = h_next h"
proof (induction xs arbitrary: p h)
  case Nil
  then show ?case by (simp add: dl_clear_from.simps)
next
  case (Cons x xs)
  obtain a v where x: "x = (a, v)" by (cases x)
  let ?h = "delete_ptr (Some a) h"
  have m: "h_objects h a = Some \<lparr>nd_val = v, nd_prev = p, nd_next = first_of None xs\<rparr>"
    and seg: "dseg (h_objects ?h) (Some a) xs None" and d: "distinct (map fst xs)" "a \<notin> fst ` set xs"
    using Cons.prems x by auto
  obtain h' where h': "dl_clear_from (first_of None xs) ?h = Some (Inr h')" "heap_log_ok h'"
      "h_objects h' = h_objects ?h |` (- (fst ` set xs))" "h_next h' = h_next ?h"
    using Cons.IH [OF seg d(1) delete_log [OF Cons.prems(3)]] by blast
  have "h_objects h' = h_objects h |` (- (fst ` set (x # xs)))"
    using h'(3) x by (auto simp: restrict_map_def fun_eq_iff)
  moreover have "h_next ?h = h_next h" using m by (simp add: delete_ptr_def)
  ultimately show ?case using h' m x by (simp add: dl_clear_from.simps [of "Some a"])
qed

lemma find_from_rep:
  "dseg (h_objects h) p xs None \<Longrightarrow>
    dl_find_from v (first_of None xs) h = Some (Inr (map_option fst (find (\<lambda>x. snd x = v) xs)))"
proof (induction xs arbitrary: p)
  case Nil
  then show ?case by (simp add: dl_find_from.simps)
next
  case (Cons x xs)
  obtain a b where "x = (a, b)" by (cases x)
  with Cons.prems Cons.IH [of "Some a"] show ?case by (simp add: dl_find_from.simps [of _ "Some a"])
qed

definition print_values :: "int list \<Rightarrow> string" where
  "print_values vs = concat (map (\<lambda>v. show_int v @ '' '') vs) @ newline"

lemma print_forward_rep:
  "dseg (h_objects h) p xs None \<Longrightarrow>
    dl_print_from nd_next (first_of None xs) h out = Some (Inr (out @ print_values (map snd xs)))"
proof (induction xs arbitrary: p out)
  case Nil
  then show ?case by (simp add: dl_print_from.simps print_values_def)
next
  case (Cons x xs)
  obtain a b where "x = (a, b)" by (cases x)
  with Cons.prems Cons.IH [of "Some a"] show ?case by (simp add: dl_print_from.simps [of _ "Some a"] print_values_def comp_def)
qed

lemma print_backward_rep:
  "dseg (h_objects h) None xs r \<Longrightarrow>
    dl_print_from nd_prev (last_of None xs) h out = Some (Inr (out @ print_values (rev (map snd xs))))"
proof (induction xs arbitrary: r out rule: rev_induct)
  case Nil
  then show ?case by (simp add: dl_print_from.simps print_values_def)
next
  case (snoc x xs)
  obtain a b where "x = (a, b)" by (cases x)
  with snoc.prems snoc.IH [of "Some a"] show ?case by (simp add: dl_print_from.simps [of _ "Some a"] print_values_def)
qed

section \<open>Programs over a list\<close>

text \<open>
  What a client may do; the node pointers it passes are addresses it got from an earlier operation.
  The nodes are numbered as they are created, so the \<open>k\<close>-th created node is \<open>Some k\<close>.
\<close>

datatype dl_op =
    Push_Front int
  | Push_Back int
  | Pop_Front
  | Pop_Back
  | Insert_After "nat option" int
  | Insert_Before "nat option" int
  | Erase "nat option"
  | Clear

fun dl_do :: "dl_op \<Rightarrow> dll \<Rightarrow> dll result option" where
  "dl_do (Push_Front v) l = Some (bind_result (dl_push_front v l) (\<lambda>(p, l'). Inr l'))"
| "dl_do (Push_Back v) l = Some (bind_result (dl_push_back v l) (\<lambda>(p, l'). Inr l'))"
| "dl_do Pop_Front l = Some (dl_pop_front l)"
| "dl_do Pop_Back l = Some (dl_pop_back l)"
| "dl_do (Insert_After pos v) l = Some (bind_result (dl_insert_after pos v l) (\<lambda>(p, l'). Inr l'))"
| "dl_do (Insert_Before pos v) l = Some (bind_result (dl_insert_before pos v l) (\<lambda>(p, l'). Inr l'))"
| "dl_do (Erase p) l = Some (dl_erase p l)"
| "dl_do Clear l = dl_clear l"

fun dl_run :: "dl_op list \<Rightarrow> dll \<Rightarrow> dll result option" where
  "dl_run [] l = Some (Inr l)"
| "dl_run (op # ops) l =
     (case dl_do op l of None \<Rightarrow> None | Some (Inl e) \<Rightarrow> Some (Inl e) | Some (Inr l') \<Rightarrow> dl_run ops l')"

text \<open>The same program on lists of nodes; \<open>n\<close> is the number of the next node to be created.\<close>

fun list_do :: "nat \<Rightarrow> dl_op \<Rightarrow> (nat \<times> int) list \<Rightarrow> (nat \<times> int) list" where
  "list_do n (Push_Front v) xs = (n, v) # xs"
| "list_do n (Push_Back v) xs = xs @ [(n, v)]"
| "list_do n Pop_Front xs = tl xs"
| "list_do n Pop_Back xs = butlast xs"
| "list_do n (Insert_After None v) xs = (n, v) # xs"
| "list_do n (Insert_After (Some a) v) xs = list_insert_after a (n, v) xs"
| "list_do n (Insert_Before None v) xs = xs @ [(n, v)]"
| "list_do n (Insert_Before (Some a) v) xs = list_insert_before a (n, v) xs"
| "list_do n (Erase None) xs = xs"
| "list_do n (Erase (Some a)) xs = filter (\<lambda>x. fst x \<noteq> a) xs"
| "list_do n Clear xs = []"

fun creates_node :: "dl_op \<Rightarrow> bool" where
  "creates_node (Push_Front v) \<longleftrightarrow> True"
| "creates_node (Push_Back v) \<longleftrightarrow> True"
| "creates_node (Insert_After pos v) \<longleftrightarrow> True"
| "creates_node (Insert_Before pos v) \<longleftrightarrow> True"
| "creates_node _ \<longleftrightarrow> False"

fun position :: "dl_op \<Rightarrow> nat option" where
  "position (Insert_After pos v) = pos"
| "position (Insert_Before pos v) = pos"
| "position (Erase p) = p"
| "position _ = None"

fun list_run :: "nat \<Rightarrow> dl_op list \<Rightarrow> (nat \<times> int) list \<Rightarrow> (nat \<times> int) list" where
  "list_run n [] xs = xs"
| "list_run n (op # ops) xs =
     list_run (if creates_node op then Suc n else n) ops (list_do n op xs)"

text \<open>Every pointer the program passes is \<open>nullptr\<close> or a node of the list at that moment.\<close>

definition pos_ok :: "dl_op \<Rightarrow> (nat \<times> int) list \<Rightarrow> bool" where
  "pos_ok op xs \<longleftrightarrow> (case position op of None \<Rightarrow> True | Some a \<Rightarrow> a \<in> fst ` set xs)"

fun run_ok :: "nat \<Rightarrow> dl_op list \<Rightarrow> (nat \<times> int) list \<Rightarrow> bool" where
  "run_ok n [] xs \<longleftrightarrow> True"
| "run_ok n (op # ops) xs \<longleftrightarrow>
     pos_ok op xs \<and> run_ok (if creates_node op then Suc n else n) ops (list_do n op xs)"

lemma clear_rep:
  assumes "dl_rep l xs"
  shows "\<exists>l'. dl_clear l = Some (Inr l') \<and> dl_rep l' [] \<and> h_objects (dl_heap l') = (\<lambda>a. None) \<and>
    h_next (dl_heap l') = h_next (dl_heap l)"
proof -
  have seg: "dseg (h_objects (dl_heap l)) None xs None" "distinct (map fst xs)" "heap_log_ok (dl_heap l)"
    and dom: "dom (h_objects (dl_heap l)) = fst ` set xs" and head: "dl_head l = first_of None xs"
    using assms unfolding dl_rep_def dl_shape_def by blast+
  obtain h' where h': "dl_clear_from (first_of None xs) (dl_heap l) = Some (Inr h')" "heap_log_ok h'"
      "h_objects h' = h_objects (dl_heap l) |` (- (fst ` set xs))" "h_next h' = h_next (dl_heap l)"
    using clear_from_rep [OF seg] by blast
  have "h_objects h' = (\<lambda>a. None)"
    using h'(3) dom by (metis Compl_disjoint2 dom_eq_empty_conv dom_restrict inf_commute)
  then show ?thesis using h' head by (simp add: dl_clear_def dl_rep_def dl_shape_def)
qed

lemma do_rep:
  assumes rep: "dl_rep l xs" and pos: "pos_ok op xs"
  shows "\<exists>l'. dl_do op l = Some (Inr l') \<and> dl_rep l' (list_do (h_next (dl_heap l)) op xs) \<and>
    h_next (dl_heap l') = (if creates_node op then Suc (h_next (dl_heap l)) else h_next (dl_heap l))"
proof -
  note shape = rep [unfolded dl_rep_def, THEN conjunct1] and log = rep [unfolded dl_rep_def, THEN conjunct2]
  note fresh = log_fresh [OF log]
  show ?thesis
  proof (cases op)
    case (Push_Front v)
    then show ?thesis using push_front_shape [OF shape fresh, of v] push_log(1) [OF _ log] push_next(1)
      by (auto simp: dl_rep_def)
  next
    case (Push_Back v)
    then show ?thesis using push_back_shape [OF shape fresh, of v] push_log(2) [OF _ log] push_next(2)
      by (auto simp: dl_rep_def)
  next
    case Pop_Front
    then show ?thesis using pop_front_shape [OF shape] pop_log(1) [OF _ log] pop_next(1)
      by (auto simp: dl_rep_def)
  next
    case Pop_Back
    then show ?thesis using pop_back_shape [OF shape] pop_log(2) [OF _ log] pop_next(2)
      by (auto simp: dl_rep_def)
  next
    case (Insert_After p v)
    then show ?thesis
      using pos push_front_shape [OF shape fresh, of v] insert_after_shape [OF shape fresh, of _ v]
        insert_log(1) [OF _ log, of p v] insert_next(1) [of p v]
      by (cases p) (force simp: dl_rep_def pos_ok_def dl_insert_after_def [of None])+
  next
    case (Insert_Before p v)
    then show ?thesis
      using pos push_back_shape [OF shape fresh, of v] insert_before_shape [OF shape fresh, of _ v]
        insert_log(2) [OF _ log, of p v] insert_next(2) [of p v]
      by (cases p) (force simp: dl_rep_def pos_ok_def dl_insert_before_def [of None])+
  next
    case (Erase p)
    then show ?thesis
      using pos rep erase_shape [OF shape] erase_log [OF _ log, of p] erase_next [of p]
      by (cases p) (force simp: dl_rep_def pos_ok_def dl_erase_def [of None])+
  next
    case Clear
    then show ?thesis using clear_rep [OF rep] by auto
  qed
qed

lemma run_rep:
  "dl_rep l xs \<Longrightarrow> run_ok (h_next (dl_heap l)) ops xs \<Longrightarrow>
    \<exists>l'. dl_run ops l = Some (Inr l') \<and> dl_rep l' (list_run (h_next (dl_heap l)) ops xs)"
proof (induction ops arbitrary: l xs)
  case (Cons op ops)
  then obtain l' where "dl_do op l = Some (Inr l')" "dl_rep l' (list_do (h_next (dl_heap l)) op xs)"
      "h_next (dl_heap l') = (if creates_node op then Suc (h_next (dl_heap l)) else h_next (dl_heap l))"
    using do_rep [of l xs op] by auto
  with Cons.IH [of l'] Cons.prems(2) show ?case by auto
qed auto

section \<open>The program\<close>

definition bind_run :: "'a result option \<Rightarrow> ('a \<Rightarrow> 'b result option) \<Rightarrow> 'b result option" where
  "bind_run m f = (case m of None \<Rightarrow> None | Some (Inl e) \<Rightarrow> Some (Inl e) | Some (Inr x) \<Rightarrow> f x)"

text \<open>\<open>main\<close>: its output, and the heap after the list went out of scope.\<close>

definition dl_main :: "(string \<times> node heap) result option" where
  "dl_main =
     bind_run (Some (dl_push_back 10 (DoublyLinkedList empty_heap))) (\<lambda>(n1, l).
     bind_run (Some (dl_push_back 20 l)) (\<lambda>(n2, l).
     bind_run (Some (dl_push_back 30 l)) (\<lambda>(n3, l).
     bind_run (Some (dl_push_front 5 l)) (\<lambda>(n4, l).
     bind_run (dl_print_forward l) (\<lambda>out1.
     bind_run (dl_print_backward l) (\<lambda>out2.
     bind_run (Some (dl_insert_after n2 25 l)) (\<lambda>(n5, l).
     bind_run (dl_print_forward l) (\<lambda>out3.
     bind_run (Some (dl_insert_before n1 7 l)) (\<lambda>(n6, l).
     bind_run (dl_print_forward l) (\<lambda>out4.
     bind_run (Some (dl_erase n2 l)) (\<lambda>l.
     bind_run (dl_print_forward l) (\<lambda>out5.
     bind_run (Some (dl_pop_front l)) (\<lambda>l.
     bind_run (Some (dl_pop_back l)) (\<lambda>l.
     bind_run (dl_print_forward l) (\<lambda>out6.
     bind_run (dl_clear l) (\<lambda>l'.
       Some (Inr (out1 @ out2 @ out3 @ out4 @ out5 @ out6 @
         line_out (''Size: '' @ show_int (dl_size l)), dl_heap l'))))))))))))))))))"

lemma dl_main_prints:
  "map_option (map_sum id fst) dl_main =
     Some (Inr (line_out ''5 10 20 30 '' @ line_out ''30 20 10 5 '' @ line_out ''5 10 20 25 30 '' @
       line_out ''5 7 10 20 25 30 '' @ line_out ''5 7 10 25 30 '' @ line_out ''7 10 25 '' @
       line_out ''Size: 3''))"
  by code_simp

text \<open>
  C28: The linked list is a list, and it owns its nodes. For every program of insertions, removals
  and \<open>clear\<close> on a new list that passes only positions of the list, no operation dereferences a
  null or dangling pointer; afterwards \<open>size\<close> and the two printers, following \<open>next\<close> from the head and
  \<open>prev\<close> from the tail, agree with the same program run on lists, and the destructor's loop ends
  with no node left, every node ever created having been deleted exactly once.
\<close>

theorem dll_refines_list:
  assumes "run_ok 0 ops []"
  shows "\<exists>l l'. dl_run ops (DoublyLinkedList empty_heap) = Some (Inr l) \<and>
    dl_size l = int (length (list_run 0 ops [])) \<and>
    dl_print_forward l = Some (Inr (print_values (map snd (list_run 0 ops [])))) \<and>
    dl_print_backward l = Some (Inr (print_values (rev (map snd (list_run 0 ops []))))) \<and>
    dl_clear l = Some (Inr l') \<and> h_objects (dl_heap l') = (\<lambda>a. None) \<and>
    distinct (deleted (h_events (dl_heap l'))) \<and>
    set (deleted (h_events (dl_heap l'))) = set (created (h_events (dl_heap l')))"
proof -
  let ?xs = "list_run 0 ops []"
  have "h_next (dl_heap (DoublyLinkedList empty_heap)) = 0"
    by (simp add: DoublyLinkedList_def empty_heap_def)
  with run_rep [OF rep_new, of ops] assms
  obtain l where l: "dl_run ops (DoublyLinkedList empty_heap) = Some (Inr l)"
      "dl_rep l (list_run 0 ops [])" by auto
  then have shape: "dl_shape l (list_run 0 ops [])" by (simp add: dl_rep_def)
  obtain l' where "dl_clear l = Some (Inr l')" "dl_rep l' []" "h_objects (dl_heap l') = (\<lambda>a. None)"
    using clear_rep [OF l(2)] by blast
  moreover have "distinct (deleted (h_events (dl_heap l')))"
      "set (deleted (h_events (dl_heap l'))) = set (created (h_events (dl_heap l')))"
    using log_all_deleted [of "dl_heap l'"] calculation(2,3) by (simp_all add: dl_rep_def)
  moreover have "dl_size l = int (length ?xs)" using shape by (simp add: dl_shape_def dl_size_def)
  moreover have "dl_print_forward l = Some (Inr (print_values (map snd ?xs)))"
      "dl_print_backward l = Some (Inr (print_values (rev (map snd ?xs))))"
    using shape print_forward_rep [of "dl_heap l" None ?xs "[]"] print_backward_rep [of "dl_heap l" ?xs None "[]"]
    by (simp_all add: dl_shape_def dl_print_forward_def dl_print_backward_def)
  ultimately show ?thesis using l(1) by blast
qed

theorem dll_refines_list_witness:
  "\<exists>l l'. dl_run [Push_Back 1, Push_Back 2, Insert_Before (Some 1) 3, Erase (Some 0)]
      (DoublyLinkedList empty_heap) = Some (Inr l) \<and> dl_size l = 2 \<and>
    dl_print_forward l = Some (Inr (print_values [3, 2])) \<and>
    dl_print_backward l = Some (Inr (print_values [2, 3])) \<and>
    dl_clear l = Some (Inr l') \<and> h_objects (dl_heap l') = (\<lambda>a. None) \<and>
    distinct (deleted (h_events (dl_heap l'))) \<and>
    set (deleted (h_events (dl_heap l'))) = set (created (h_events (dl_heap l')))"
  using dll_refines_list [of "[Push_Back 1, Push_Back 2, Insert_Before (Some 1) 3, Erase (Some 0)]"]
  by (simp add: pos_ok_def)

text \<open>
  Looking into the list. After such a program \<open>find\<close> returns the first node with the value (or
  \<open>nullptr\<close>) and \<open>contains\<close> whether there is one; \<open>front\<close> and \<open>back\<close> return the first and the last
  value and throw exactly on the empty list.
\<close>

theorem dll_observers:
  assumes "run_ok 0 ops []"
  shows "\<exists>l. dl_run ops (DoublyLinkedList empty_heap) = Some (Inr l) \<and>
    dl_find v l = Some (Inr (map_option fst (find (\<lambda>x. snd x = v) (list_run 0 ops [])))) \<and>
    dl_contains v l = Some (Inr (v \<in> snd ` set (list_run 0 ops []))) \<and>
    dl_front l = (if list_run 0 ops [] = [] then Inl (Runtime_Error ''List is empty'')
      else Inr (snd (hd (list_run 0 ops [])))) \<and>
    dl_back l = (if list_run 0 ops [] = [] then Inl (Runtime_Error ''List is empty'')
      else Inr (snd (last (list_run 0 ops []))))"
proof -
  let ?xs = "list_run 0 ops []"
  have "h_next (dl_heap (DoublyLinkedList empty_heap)) = 0"
    by (simp add: DoublyLinkedList_def empty_heap_def)
  with run_rep [OF rep_new, of ops] assms
  obtain l where l: "dl_run ops (DoublyLinkedList empty_heap) = Some (Inr l)"
      and shape: "dl_shape l ?xs" by (auto simp: dl_rep_def)
  have find: "dl_find v l = Some (Inr (map_option fst (find (\<lambda>x. snd x = v) ?xs)))"
    using shape find_from_rep [of "dl_heap l" None ?xs v] by (simp add: dl_find_def dl_shape_def)
  have "find (\<lambda>x. snd x = v) ?xs \<noteq> None \<longleftrightarrow> v \<in> snd ` set ?xs"
    by (force simp: find_None_iff)
  then have "dl_contains v l = Some (Inr (v \<in> snd ` set ?xs))"
    using find by (simp add: dl_contains_def)
  moreover have "dl_front l = (if ?xs = [] then Inl (Runtime_Error ''List is empty'') else Inr (snd (hd ?xs)))"
    using shape by (cases rule: pair_cases [of ?xs]) (auto simp: dl_front_def dl_shape_def dl_empty_def)
  moreover have "dl_back l = (if ?xs = [] then Inl (Runtime_Error ''List is empty'') else Inr (snd (last ?xs)))"
    using shape by (cases rule: pair_rev_cases [of ?xs]) (auto simp: dl_back_def dl_shape_def dl_empty_def)
  ultimately show ?thesis using l find by blast
qed

theorem dll_observers_witness:
  "\<exists>l. dl_run [Push_Back 4, Push_Front 9, Push_Back 4] (DoublyLinkedList empty_heap) = Some (Inr l) \<and>
    dl_find 4 l = Some (Inr (Some 0)) \<and> dl_contains 4 l = Some (Inr True) \<and>
    dl_front l = Inr 9 \<and> dl_back l = Inr 4"
  using dll_observers [of "[Push_Back 4, Push_Front 9, Push_Back 4]" 4] by (simp add: pos_ok_def)

end
