(* ===== verification/Linked_List.thy ===== *)
theory Linked_List
  imports Cpp_Heap Cpp_Interfaces
begin

text \<open>
  \<open>algorithms/linked_list/linked_list.cpp\<close> over an explicit heap: the list problems (pairwise swap,
  counting, Floyd's cycle detection and cycle length), the pointer stack \<open>MyStack\<close> and the two
  conversions of a binary tree into a doubly linked list, with the program.

  The loops follow pointers and are \<open>partial_function\<close>s: \<open>None\<close> is a loop that never ends and
  \<open>Some (Inl Undefined_Behaviour)\<close> a null or dangling pointer that is dereferenced. Counters stay
  below the number of nodes in memory and are mathematical integers.
\<close>

section \<open>Nodes\<close>

datatype LINKED_PROBLEMS =
    SWAP_ELEMENTS | COUNT_ELEMENT | STACK | DETECT_CYCLE | LENGTH_OF_CYCLE | BT_TO_DLL

record lnode =
  ln_data :: int
  ln_next :: "nat option"
  ln_prev :: "nat option"

record tnode =
  tn_data :: int
  tn_left :: "nat option"
  tn_right :: "nat option"

definition new_lnode :: "int \<Rightarrow> lnode heap \<Rightarrow> nat \<times> lnode heap" where
  "new_lnode v h = new_object \<lparr>ln_data = v, ln_next = None, ln_prev = None\<rparr> h"

definition new_tnode :: "int \<Rightarrow> tnode heap \<Rightarrow> nat \<times> tnode heap" where
  "new_tnode x h = new_object \<lparr>tn_data = x, tn_left = None, tn_right = None\<rparr> h"

text \<open>Sequencing of runs that may throw or never end, and a run that only may throw.\<close>

definition and_then :: "'a result option \<Rightarrow> ('a \<Rightarrow> 'b result option) \<Rightarrow> 'b result option" where
  "and_then m f = (case m of None \<Rightarrow> None | Some (Inl e) \<Rightarrow> Some (Inl e) | Some (Inr x) \<Rightarrow> f x)"

section \<open>Lists\<close>

partial_function (option) print_list_from :: "nat option \<Rightarrow> lnode heap \<Rightarrow> string \<Rightarrow> string result option" where
  "print_list_from cur h out =
     (if cur = None then Some (Inr (out @ newline))
      else case read_object cur h of
          Inl e \<Rightarrow> Some (Inl e)
        | Inr x \<Rightarrow>
            print_list_from (ln_next x) h
              (out @ show_int (ln_data x) @ '' '' @ (if ln_next x \<noteq> None then ''-> '' else [])))"

definition print_list :: "nat option \<Rightarrow> lnode heap \<Rightarrow> string result option" where
  "print_list head h = print_list_from head h []"

partial_function (option) print_tree_list_from ::
  "nat option \<Rightarrow> tnode heap \<Rightarrow> string \<Rightarrow> string result option" where
  "print_tree_list_from nd h out =
     (if nd = None then Some (Inr out)
      else case read_object nd h of
          Inl e \<Rightarrow> Some (Inl e)
        | Inr x \<Rightarrow> print_tree_list_from (tn_right x) h (out @ show_int (tn_data x) @ '' ''))"

definition print_tree_list :: "nat option \<Rightarrow> tnode heap \<Rightarrow> string result option" where
  "print_tree_list root h = print_tree_list_from root h []"

definition set_ldata :: "nat option \<Rightarrow> int \<Rightarrow> lnode heap \<Rightarrow> lnode heap" where
  "set_ldata p v h = (case read_object p h of Inl e \<Rightarrow> h | Inr x \<Rightarrow> write_object p (x\<lparr>ln_data := v\<rparr>) h)"

partial_function (option) pair_wise_swap :: "nat option \<Rightarrow> lnode heap \<Rightarrow> lnode heap result option" where
  "pair_wise_swap cur h =
     (if cur = None then Some (Inr h)
      else case read_object cur h of
          Inl e \<Rightarrow> Some (Inl e)
        | Inr x \<Rightarrow>
            if ln_next x = None then Some (Inr h)
            else case read_object (ln_next x) h of
                Inl e \<Rightarrow> Some (Inl e)
              | Inr y \<Rightarrow>
                  pair_wise_swap (ln_next y)
                    (set_ldata (ln_next x) (ln_data x) (set_ldata cur (ln_data y) h)))"

partial_function (option) count_from :: "nat option \<Rightarrow> int \<Rightarrow> lnode heap \<Rightarrow> int \<Rightarrow> int result option" where
  "count_from cur k h cnt =
     (if cur = None then Some (Inr cnt)
      else case read_object cur h of
          Inl e \<Rightarrow> Some (Inl e)
        | Inr x \<Rightarrow> count_from (ln_next x) k h (if ln_data x = k then cnt + 1 else cnt))"

definition count_element :: "nat option \<Rightarrow> int \<Rightarrow> lnode heap \<Rightarrow> int result option" where
  "count_element head k h = count_from head k h 0"

section \<open>\<open>MyStack\<close>\<close>

text \<open>The class has no destructor: nodes still on the stack are not deleted with it.\<close>

record my_stack =
  ms_top :: "nat option"
  ms_cnt :: int
  ms_heap :: "lnode heap"

definition MyStack :: "lnode heap \<Rightarrow> my_stack" where
  "MyStack h = \<lparr>ms_top = None, ms_cnt = 0, ms_heap = h\<rparr>"

definition ms_empty :: "my_stack \<Rightarrow> bool" where
  "ms_empty s \<longleftrightarrow> ms_top s = None"

definition ms_size :: "my_stack \<Rightarrow> int" where
  "ms_size s = ms_cnt s"

definition ms_push :: "int \<Rightarrow> my_stack \<Rightarrow> my_stack" where
  "ms_push x s =
     (case new_lnode x (ms_heap s) of (a, h) \<Rightarrow>
        \<lparr>ms_top = Some a, ms_cnt = ms_cnt s + 1,
         ms_heap = write_object (Some a) \<lparr>ln_data = x, ln_next = ms_top s, ln_prev = None\<rparr> h\<rparr>)"

definition ms_pop :: "my_stack \<Rightarrow> (int \<times> my_stack) result" where
  "ms_pop s =
     (if ms_empty s then Inl (Runtime_Error ''empty stack'')
      else
        bind_result (read_object (ms_top s) (ms_heap s)) (\<lambda>tmp.
        bind_result (free_object (ms_top s) (ms_heap s)) (\<lambda>h.
          Inr (ln_data tmp, \<lparr>ms_top = ln_next tmp, ms_cnt = ms_cnt s - 1, ms_heap = h\<rparr>))))"

definition ms_peek :: "my_stack \<Rightarrow> int result" where
  "ms_peek s =
     (if ms_empty s then Inl (Runtime_Error ''stack empty'')
      else bind_result (read_object (ms_top s) (ms_heap s)) (\<lambda>x. Inr (ln_data x)))"

section \<open>Cycles\<close>

text \<open>
  One round of the two loops of Floyd's algorithm: \<open>None\<close> when the loop condition fails, otherwise
  the new \<open>slow\<close> and \<open>fast\<close>.
\<close>

definition floyd_round ::
  "nat option \<Rightarrow> nat option \<Rightarrow> lnode heap \<Rightarrow> (nat option \<times> nat option) option result" where
  "floyd_round slow fast h =
     (if slow = None \<or> fast = None then Inr None
      else
        bind_result (read_object fast h) (\<lambda>f.
          if ln_next f = None then Inr None
          else
            bind_result (read_object slow h) (\<lambda>s.
            bind_result (read_object (ln_next f) h) (\<lambda>g. Inr (Some (ln_next s, ln_next g))))))"

partial_function (option) detect_from :: "nat option \<Rightarrow> nat option \<Rightarrow> lnode heap \<Rightarrow> bool result option" where
  "detect_from slow fast h =
     (case floyd_round slow fast h of
        Inl e \<Rightarrow> Some (Inl e)
      | Inr None \<Rightarrow> Some (Inr False)
      | Inr (Some (slow', fast')) \<Rightarrow>
          if slow' = fast' then Some (Inr True) else detect_from slow' fast' h)"

definition detect_cycle :: "nat option \<Rightarrow> lnode heap \<Rightarrow> bool result option" where
  "detect_cycle head h = detect_from head head h"

partial_function (option) count_nodes_from ::
  "nat option \<Rightarrow> nat option \<Rightarrow> lnode heap \<Rightarrow> int \<Rightarrow> int result option" where
  "count_nodes_from nd cur h cnt =
     (case read_object cur h of
        Inl e \<Rightarrow> Some (Inl e)
      | Inr x \<Rightarrow> if ln_next x = nd then Some (Inr cnt) else count_nodes_from nd (ln_next x) h (cnt + 1))"

definition count_nodes :: "nat option \<Rightarrow> lnode heap \<Rightarrow> int result option" where
  "count_nodes nd h = count_nodes_from nd nd h 1"

partial_function (option) loop_length_from ::
  "nat option \<Rightarrow> nat option \<Rightarrow> lnode heap \<Rightarrow> int result option" where
  "loop_length_from slow fast h =
     (case floyd_round slow fast h of
        Inl e \<Rightarrow> Some (Inl e)
      | Inr None \<Rightarrow> Some (Inr 0)
      | Inr (Some (slow', fast')) \<Rightarrow>
          if slow' = fast' then count_nodes slow' h else loop_length_from slow' fast' h)"

definition length_of_loop :: "nat option \<Rightarrow> lnode heap \<Rightarrow> int result option" where
  "length_of_loop head h = loop_length_from head head h"

section \<open>A binary tree as a doubly linked list\<close>

definition set_tleft :: "nat option \<Rightarrow> nat option \<Rightarrow> tnode heap \<Rightarrow> tnode heap result" where
  "set_tleft p q h = update_object p (\<lambda>x. x\<lparr>tn_left := q\<rparr>) h"

definition set_tright :: "nat option \<Rightarrow> nat option \<Rightarrow> tnode heap \<Rightarrow> tnode heap result" where
  "set_tright p q h = update_object p (\<lambda>x. x\<lparr>tn_right := q\<rparr>) h"

text \<open>
  \<open>b_to_dll_stack\<close>: the locals \<open>head\<close>, \<open>prev\<close> and \<open>flag\<close>, and one round of the loop on the popped
  frame; the local \<open>res\<close> is never used. The stack is a list whose first element is its top.
\<close>

record dll_state =
  ds_head :: "nat option"
  ds_prev :: "nat option"
  ds_flag :: bool
  ds_heap :: "tnode heap"

definition visit_node :: "nat option \<Rightarrow> dll_state \<Rightarrow> dll_state result" where
  "visit_node t s =
     bind_result (if ds_prev s \<noteq> None then set_tright (ds_prev s) t (ds_heap s) else Inr (ds_heap s)) (\<lambda>h.
     bind_result (set_tleft t (ds_prev s) h) (\<lambda>h.
       Inr (if ds_flag s then \<lparr>ds_head = t, ds_prev = t, ds_flag = False, ds_heap = h\<rparr>
            else s\<lparr>ds_prev := t, ds_heap := h\<rparr>)))"

definition dll_round :: "nat option \<times> nat \<Rightarrow> (nat option \<times> nat) list \<Rightarrow> dll_state \<Rightarrow>
    ((nat option \<times> nat) list \<times> dll_state) result" where
  "dll_round p st s =
     (case p of (t, state) \<Rightarrow>
        if state = 3 \<or> t = None then Inr (st, s)
        else if state = 0 then
          bind_result (read_object t (ds_heap s)) (\<lambda>x. Inr ((tn_left x, 0) # (t, state + 1) # st, s))
        else if state = 1 then bind_result (visit_node t s) (\<lambda>s'. Inr ((t, state + 1) # st, s'))
        else if state = 2 then
          bind_result (read_object t (ds_heap s)) (\<lambda>x. Inr ((tn_right x, 0) # (t, state + 1) # st, s))
        else Inr ((t, state + 1) # st, s))"

partial_function (option) dll_loop :: "(nat option \<times> nat) list \<Rightarrow> dll_state \<Rightarrow> dll_state result option" where
  "dll_loop st s =
     (case st of
        [] \<Rightarrow> Some (Inr s)
      | p # st' \<Rightarrow>
          (case dll_round p st' s of Inl e \<Rightarrow> Some (Inl e) | Inr (st'', s') \<Rightarrow> dll_loop st'' s'))"

definition b_to_dll_stack :: "nat option \<Rightarrow> tnode heap \<Rightarrow> (nat option \<times> tnode heap) result option" where
  "b_to_dll_stack root h =
     and_then (dll_loop [(root, 0)] \<lparr>ds_head = None, ds_prev = None, ds_flag = True, ds_heap = h\<rparr>)
       (\<lambda>s. Some (Inr (ds_head s, ds_heap s)))"

text \<open>
  \<open>bt_to_dll_morris\<close>: \<open>find_pre\<close> is the inner loop, which starts at \<open>cur->left\<close> and follows \<open>right\<close>
  until it is null or leads back to \<open>cur\<close>.
\<close>

partial_function (option) find_pre ::
  "nat option \<Rightarrow> nat option \<Rightarrow> tnode heap \<Rightarrow> (nat option \<times> tnode) result option" where
  "find_pre pre cur h =
     (case read_object pre h of
        Inl e \<Rightarrow> Some (Inl e)
      | Inr x \<Rightarrow>
          if tn_right x \<noteq> None \<and> tn_right x \<noteq> cur then find_pre (tn_right x) cur h
          else Some (Inr (pre, x)))"

definition link_nodes :: "nat option \<Rightarrow> nat option \<Rightarrow> tnode heap \<Rightarrow> tnode heap result" where
  "link_nodes prev cur h = bind_result (set_tright prev cur h) (set_tleft cur prev)"

text \<open>One round of the outer loop: the new \<open>cur\<close>, \<open>prev\<close> and \<open>head\<close>.\<close>

definition morris_round :: "nat option \<Rightarrow> nat option \<Rightarrow> nat option \<Rightarrow> tnode heap \<Rightarrow>
    (nat option \<times> nat option \<times> nat option \<times> tnode heap) result option" where
  "morris_round cur prev head h =
     and_then (Some (read_object cur h)) (\<lambda>c.
       if tn_left c = None then
         and_then (Some (if head = None then Inr h else link_nodes prev cur h)) (\<lambda>h.
         and_then (Some (read_object cur h)) (\<lambda>c.
           Some (Inr (tn_right c, cur, if head = None then cur else head, h))))
       else
         and_then (find_pre (tn_left c) cur h) (\<lambda>(pre, x).
           if tn_right x = None then
             and_then (Some (set_tright pre cur h)) (\<lambda>h. Some (Inr (tn_left c, prev, head, h)))
           else
             and_then (Some (read_object prev h)) (\<lambda>p.
             and_then (Some (link_nodes prev (tn_right p) h)) (\<lambda>h.
             and_then (Some (read_object (tn_right p) h)) (\<lambda>c.
               Some (Inr (tn_right c, tn_right p, head, h)))))))"

partial_function (option) morris_loop :: "nat option \<Rightarrow> nat option \<Rightarrow> nat option \<Rightarrow> tnode heap \<Rightarrow>
    (nat option \<times> tnode heap) result option" where
  "morris_loop cur prev head h =
     (if cur = None then Some (Inr (head, h))
      else case morris_round cur prev head h of
          None \<Rightarrow> None
        | Some (Inl e) \<Rightarrow> Some (Inl e)
        | Some (Inr (cur', prev', head', h')) \<Rightarrow> morris_loop cur' prev' head' h')"

definition bt_to_dll_morris :: "nat option \<Rightarrow> tnode heap \<Rightarrow> (nat option \<times> tnode heap) result option" where
  "bt_to_dll_morris root h = morris_loop root None None h"

section \<open>The program\<close>

text \<open>Lists made by \<open>head->next->...->next = new Node(v)\<close>, and \<open>p->next->...->next\<close>.\<close>

definition set_lnext :: "nat option \<Rightarrow> nat option \<Rightarrow> lnode heap \<Rightarrow> lnode heap result" where
  "set_lnext p q h = update_object p (\<lambda>x. x\<lparr>ln_next := q\<rparr>) h"

fun nth_next :: "nat \<Rightarrow> nat option \<Rightarrow> lnode heap \<Rightarrow> nat option result" where
  "nth_next 0 p h = Inr p"
| "nth_next (Suc k) p h = bind_result (read_object p h) (\<lambda>x. nth_next k (ln_next x) h)"

fun append_nodes :: "nat option \<Rightarrow> int list \<Rightarrow> lnode heap \<Rightarrow> lnode heap result" where
  "append_nodes p [] h = Inr h"
| "append_nodes p (v # vs) h =
     (case new_lnode v h of (a, h') \<Rightarrow>
        bind_result (set_lnext p (Some a) h') (append_nodes (Some a) vs))"

definition make_list :: "int \<Rightarrow> int list \<Rightarrow> (nat option \<times> lnode heap) result" where
  "make_list v vs =
     (case new_lnode v empty_heap of (a, h) \<Rightarrow>
        bind_result (append_nodes (Some a) vs h) (\<lambda>h. Inr (Some a, h)))"

text \<open>The node \<open>i\<close> steps from \<open>head\<close> is linked back to the one \<open>j\<close> steps from it.\<close>

definition close_cycle :: "nat \<Rightarrow> nat \<Rightarrow> nat option \<times> lnode heap \<Rightarrow> (nat option \<times> lnode heap) result" where
  "close_cycle i j l =
     (case l of (head, h) \<Rightarrow>
        bind_result (nth_next j head h) (\<lambda>q. bind_result (nth_next i head h) (\<lambda>p.
        bind_result (set_lnext p q h) (\<lambda>h. Inr (head, h)))))"

definition swap_example :: "string result option" where
  "swap_example =
     and_then (Some (make_list 1 [2, 3, 4, 5, 6])) (\<lambda>(head, h).
     and_then (pair_wise_swap head h) (print_list head))"

definition count_example :: "string result option" where
  "count_example =
     and_then (Some (make_list 1 [2, 1, 2, 1])) (\<lambda>(head, h).
     and_then (count_element head 1 h) (\<lambda>n. Some (Inr (line_out (show_int n)))))"

definition stack_example :: "string result" where
  "stack_example =
     bind_result (ms_pop (fold ms_push [1, 2, 3, 4] (MyStack empty_heap))) (\<lambda>(v, st).
     bind_result (ms_peek st) (\<lambda>w.
       Inr (line_out (''Popped: '' @ show_int v) @ line_out (''Top element: '' @ show_int w) @
         line_out (''Is stack empty: '' @ (if ms_empty st then ''Yes'' else ''No'')) @
         line_out (''Current size: '' @ show_int (ms_size st)))))"

definition cycle_example :: "string result option" where
  "cycle_example =
     and_then (Some (bind_result (make_list 1 [3, 4]) (close_cycle 2 1))) (\<lambda>(head, h).
     and_then (detect_cycle head h) (\<lambda>b. Some (Inr (if b then ''true'' else ''false''))))"

definition loop_example :: "string result option" where
  "loop_example =
     and_then (Some (bind_result (make_list 25 [14, 19, 33, 10]) (close_cycle 4 2))) (\<lambda>(head, h).
     and_then (length_of_loop head h) (\<lambda>n. Some (Inr (line_out (show_int n)))))"

text \<open>\<open>p->left = new tree_node(v)\<close> and \<open>p->right = new tree_node(v)\<close>.\<close>

definition add_left :: "nat option \<Rightarrow> int \<Rightarrow> tnode heap \<Rightarrow> (nat option \<times> tnode heap) result" where
  "add_left p v h =
     (case new_tnode v h of (a, h) \<Rightarrow> bind_result (set_tleft p (Some a) h) (\<lambda>h. Inr (Some a, h)))"

definition add_right :: "nat option \<Rightarrow> int \<Rightarrow> tnode heap \<Rightarrow> (nat option \<times> tnode heap) result" where
  "add_right p v h =
     (case new_tnode v h of (a, h) \<Rightarrow> bind_result (set_tright p (Some a) h) (\<lambda>h. Inr (Some a, h)))"

definition tree_example :: "(nat option \<times> tnode heap) result" where
  "tree_example =
     (case new_tnode 10 empty_heap of (root, h) \<Rightarrow>
        bind_result (add_left (Some root) 12 h) (\<lambda>(l, h).
        bind_result (add_right (Some root) 15 h) (\<lambda>(r, h).
        bind_result (add_left l 25 h) (\<lambda>(_, h).
        bind_result (add_right l 30 h) (\<lambda>(_, h).
        bind_result (add_left r 36 h) (\<lambda>(_, h). Inr (Some root, h)))))))"

definition dll_example :: "string result option" where
  "dll_example =
     and_then (Some tree_example) (\<lambda>(root, h).
     and_then (bt_to_dll_morris root h) (\<lambda>(head, h). print_tree_list head h))"

fun linked_problem :: "LINKED_PROBLEMS \<Rightarrow> string result option" where
  "linked_problem SWAP_ELEMENTS = swap_example"
| "linked_problem COUNT_ELEMENT = count_example"
| "linked_problem STACK = Some stack_example"
| "linked_problem DETECT_CYCLE = cycle_example"
| "linked_problem LENGTH_OF_CYCLE = loop_example"
| "linked_problem BT_TO_DLL = dll_example"

definition linked_main :: "string result option" where
  "linked_main = linked_problem BT_TO_DLL"

declare print_list_from.simps [code] print_tree_list_from.simps [code] pair_wise_swap.simps [code]
  count_from.simps [code] detect_from.simps [code] count_nodes_from.simps [code]
  loop_length_from.simps [code] dll_loop.simps [code] find_pre.simps [code] morris_loop.simps [code]

section \<open>Paths in a heap\<close>

text \<open>
  \<open>lpath m p as r\<close>: from \<open>p\<close> the \<open>next\<close> pointers lead through the nodes \<open>as\<close> and then to \<open>r\<close>.
\<close>

fun lpath :: "(nat \<Rightarrow> lnode option) \<Rightarrow> nat option \<Rightarrow> nat list \<Rightarrow> nat option \<Rightarrow> bool" where
  "lpath m p [] r \<longleftrightarrow> p = r"
| "lpath m p (a # as) r \<longleftrightarrow>
     p = Some a \<and> (case m a of None \<Rightarrow> False | Some x \<Rightarrow> lpath m (ln_next x) as r)"

lemma lpath_append [simp]: "lpath m p (as @ bs) r \<longleftrightarrow> (\<exists>q. lpath m p as q \<and> lpath m q bs r)"
  by (induction as arbitrary: p) (auto split: option.splits)

lemma lpath_nth:
  "lpath m p as r \<Longrightarrow> i < length as \<Longrightarrow>
    \<exists>x. m (as ! i) = Some x \<and> ln_next x = (if Suc i < length as then Some (as ! Suc i) else r)"
proof (induction as arbitrary: p i)
  case (Cons a as)
  then obtain x where x: "m a = Some x" "lpath m (ln_next x) as r" by (auto split: option.splits)
  show ?case
  proof (cases i)
    case 0
    then show ?thesis using x by (cases as) auto
  next
    case (Suc j)
    then show ?thesis using Cons.IH [OF x(2), of j] Cons.prems(2) by auto
  qed
qed simp

lemma lpath_start: "lpath m p as r \<Longrightarrow> p = (if as = [] then r else Some (hd as))"
  by (cases as) auto

section \<open>Floyd's algorithm\<close>

text \<open>
  A list is a path \<open>xs\<close> that either ends in \<open>nullptr\<close> (\<open>ys = []\<close>) or leads into the cycle \<open>ys\<close>.
  \<open>place xs ys i\<close> is the pointer after \<open>i\<close> steps.
\<close>

definition rho :: "(nat \<Rightarrow> lnode option) \<Rightarrow> nat option \<Rightarrow> nat list \<Rightarrow> nat list \<Rightarrow> bool" where
  "rho m p xs ys \<longleftrightarrow>
     lpath m p (xs @ ys) (if ys = [] then None else Some (hd ys)) \<and> distinct (xs @ ys)"

definition place :: "nat list \<Rightarrow> nat list \<Rightarrow> nat \<Rightarrow> nat option" where
  "place xs ys i =
     (if i < length xs then Some (xs ! i)
      else if ys = [] then None else Some (ys ! ((i - length xs) mod length ys)))"

lemma place_0: "rho m p xs ys \<Longrightarrow> place xs ys 0 = p"
  by (cases xs; cases ys) (auto simp: rho_def place_def split: option.splits)

lemma place_next:
  assumes "rho m p xs ys" and "place xs ys i = Some a"
  shows "\<exists>x. m a = Some x \<and> ln_next x = place xs ys (Suc i)"
proof -
  let ?zs = "xs @ ys" and ?r = "if ys = [] then None else Some (hd ys)"
  define j where "j = (if i < length xs then i else length xs + (i - length xs) mod length ys)"
  have j: "j < length ?zs" "a = ?zs ! j"
    using assms(2) by (auto simp: j_def place_def nth_append split: if_splits)
  have path: "lpath m p ?zs ?r" using assms(1) unfolding rho_def by blast
  obtain x where x: "m a = Some x" "ln_next x = (if Suc j < length ?zs then Some (?zs ! Suc j) else ?r)"
    using lpath_nth [OF path j(1)] j(2) by blast
  have "(if Suc j < length ?zs then Some (?zs ! Suc j) else ?r) = place xs ys (Suc i)"
  proof (cases "i < length xs")
    case True
    then show ?thesis by (auto simp: j_def place_def nth_append hd_conv_nth)
  next
    case False
    then obtain d where i: "i = length xs + d" by (metis le_add_diff_inverse not_less)
    have ys: "ys \<noteq> []" using assms(2) False by (auto simp: place_def split: if_splits)
    define q where "q = d mod length ys"
    have q: "q < length ys" "Suc d mod length ys = (if Suc q = length ys then 0 else Suc q)"
      using ys by (simp_all add: q_def mod_Suc)
    have j: "j = length xs + q" using i by (simp add: j_def q_def)
    show ?thesis using q ys i j
      by (cases "Suc q = length ys") (simp_all add: place_def nth_append hd_conv_nth)
  qed
  with x show ?thesis by simp
qed

lemma floyd_round_place:
  assumes "rho m p xs ys" and "h_objects h = m"
  shows "floyd_round (place xs ys k) (place xs ys (2 * k)) h =
    (if place xs ys (2 * k) = None \<or> place xs ys (Suc (2 * k)) = None then Inr None
     else Inr (Some (place xs ys (Suc k), place xs ys (2 * Suc k))))"
proof (cases "place xs ys (2 * k)")
  case None
  then show ?thesis by (simp add: floyd_round_def)
next
  case (Some b)
  then have "place xs ys k \<noteq> None" by (auto simp: place_def split: if_splits)
  then obtain a where a: "place xs ys k = Some a" by blast
  obtain x where x: "m a = Some x" "ln_next x = place xs ys (Suc k)" using place_next [OF assms(1) a] by blast
  obtain y where y: "m b = Some y" "ln_next y = place xs ys (Suc (2 * k))"
    using place_next [OF assms(1) Some] by blast
  show ?thesis
  proof (cases "place xs ys (Suc (2 * k))")
    case None
    then show ?thesis using a Some x y assms(2) by (simp add: floyd_round_def)
  next
    case (Some c)
    then obtain z where "m c = Some z" "ln_next z = place xs ys (Suc (Suc (2 * k)))"
      using place_next [OF assms(1) Some] by blast
    then show ?thesis using a \<open>place xs ys (2 * k) = Some b\<close> Some x y assms(2) by (simp add: floyd_round_def)
  qed
qed

lemma no_meeting:
  assumes "rho m p xs []" and "h_objects h = m"
  shows "detect_from (place xs [] k) (place xs [] (2 * k)) h = Some (Inr False) \<and>
    loop_length_from (place xs [] k) (place xs [] (2 * k)) h = Some (Inr 0)"
proof (induction "length xs - k" arbitrary: k rule: less_induct)
  case less
  note round = floyd_round_place [OF assms, of k]
  note unfold = detect_from.simps [of "place xs [] k"] loop_length_from.simps [of "place xs [] k"]
  show ?case
  proof (cases "Suc (2 * k) < length xs")
    case True
    have d: "distinct xs" using assms(1) by (simp add: rho_def)
    have apart: "place xs [] (Suc k) \<noteq> place xs [] (2 * Suc k)"
      using True d by (auto simp: place_def nth_eq_iff_index_eq)
    have "floyd_round (place xs [] k) (place xs [] (2 * k)) h =
        Inr (Some (place xs [] (Suc k), place xs [] (2 * Suc k)))"
      unfolding round using True by (simp add: place_def)
    moreover have "length xs - Suc k < length xs - k" using True by simp
    ultimately show ?thesis using less [of "Suc k"] apart by (simp add: unfold)
  next
    case False
    then have "floyd_round (place xs [] k) (place xs [] (2 * k)) h = Inr None"
      unfolding round by (simp add: place_def)
    then show ?thesis by (simp add: unfold)
  qed
qed

lemma meeting:
  assumes "rho m p xs ys" and "h_objects h = m" and "ys \<noteq> []"
    and "k < K" and "place xs ys K = place xs ys (2 * K)"
  shows "\<exists>j>k. place xs ys j = place xs ys (2 * j) \<and>
    detect_from (place xs ys k) (place xs ys (2 * k)) h = Some (Inr True) \<and>
    loop_length_from (place xs ys k) (place xs ys (2 * k)) h = count_nodes (place xs ys j) h"
  using assms(4)
proof (induction "K - k" arbitrary: k rule: less_induct)
  case less
  have some: "place xs ys i \<noteq> None" for i using assms(3) by (simp add: place_def)
  have round: "floyd_round (place xs ys k) (place xs ys (2 * k)) h =
      Inr (Some (place xs ys (Suc k), place xs ys (2 * Suc k)))"
    using floyd_round_place [OF assms(1,2), of k] some by simp
  note unfold = detect_from.simps [of "place xs ys k"] loop_length_from.simps [of "place xs ys k"]
  show ?case
  proof (cases "place xs ys (Suc k) = place xs ys (2 * Suc k)")
    case True
    then show ?thesis using round by (intro exI [of _ "Suc k"]) (simp add: unfold)
  next
    case False
    then have "Suc k < K" using less.prems assms(5) by (cases "Suc k = K") auto
    moreover have "K - Suc k < K - k" using less.prems by simp
    ultimately have "\<exists>j>Suc k. place xs ys j = place xs ys (2 * j) \<and>
        detect_from (place xs ys (Suc k)) (place xs ys (2 * Suc k)) h = Some (Inr True) \<and>
        loop_length_from (place xs ys (Suc k)) (place xs ys (2 * Suc k)) h = count_nodes (place xs ys j) h"
      using less.hyps [of "Suc k"] by blast
    then obtain j where j: "j > Suc k" "place xs ys j = place xs ys (2 * j)"
        "detect_from (place xs ys (Suc k)) (place xs ys (2 * Suc k)) h = Some (Inr True)"
        "loop_length_from (place xs ys (Suc k)) (place xs ys (2 * Suc k)) h = count_nodes (place xs ys j) h"
      by blast
    have "detect_from (place xs ys k) (place xs ys (2 * k)) h =
        detect_from (place xs ys (Suc k)) (place xs ys (2 * Suc k)) h"
      "loop_length_from (place xs ys k) (place xs ys (2 * k)) h =
        loop_length_from (place xs ys (Suc k)) (place xs ys (2 * Suc k)) h"
      using False round unfolding unfold by simp_all
    then show ?thesis using j by (metis Suc_lessD)
  qed
qed

lemma place_far: "ys \<noteq> [] \<Longrightarrow> place xs ys (length xs + i) = Some (ys ! (i mod length ys))"
  by (simp add: place_def)

lemma cycle_apart:
  assumes "rho m p xs ys" and "length xs \<le> k" and "0 < t" and "t < length ys"
  shows "place xs ys (k + t) \<noteq> place xs ys k"
proof -
  have d: "distinct ys" and ys: "ys \<noteq> []" using assms by (auto simp: rho_def)
  obtain i where k: "k = length xs + i" using assms(2) by (metis le_add_diff_inverse)
  have "(i + t) mod length ys \<noteq> (i + 0) mod length ys"
    using mod_add_inj [of t "length ys" 0 i] assms ys by simp
  then have "ys ! ((i + t) mod length ys) \<noteq> ys ! (i mod length ys)"
    using nth_eq_iff_index_eq [OF d] ys by simp
  then show ?thesis using place_far [OF ys, of xs] by (simp add: k add.assoc)
qed

lemma cycle_again:
  assumes "length xs \<le> k"
  shows "place xs ys (k + t * length ys) = place xs ys k"
proof (cases "ys = []")
  case False
  obtain i where k: "k = length xs + i" using assms by (metis le_add_diff_inverse)
  show ?thesis using place_far [OF False, of xs] by (simp add: k add.assoc)
qed simp

lemma meet_on_cycle:
  assumes "rho m p xs ys" and "0 < j" and "ys \<noteq> []" and "place xs ys j = place xs ys (2 * j)"
  shows "length xs \<le> j"
proof (rule ccontr)
  assume j: "\<not> length xs \<le> j"
  have d: "distinct (xs @ ys)" using assms(1) by (simp add: rho_def)
  show False
  proof (cases "2 * j < length xs")
    case True
    then show False using j assms d by (simp add: place_def nth_eq_iff_index_eq)
  next
    case False
    then have "place xs ys (2 * j) \<in> Some ` set ys" using assms(3) by (simp add: place_def)
    moreover have "place xs ys j \<in> Some ` set xs" using j by (simp add: place_def)
    ultimately show False using d assms(4) by auto
  qed
qed

lemma count_cycle:
  assumes "rho m p xs ys" and "h_objects h = m" and "length xs \<le> k" and "ys \<noteq> []"
  shows "t < length ys \<Longrightarrow>
    count_nodes_from (place xs ys k) (place xs ys (k + t)) h (int t + 1) = Some (Inr (int (length ys)))"
proof (induction "length ys - t" arbitrary: t rule: less_induct)
  case less
  obtain a where a: "place xs ys (k + t) = Some a"
    using assms(4) by (cases "place xs ys (k + t)") (simp_all add: place_def split: if_splits)
  obtain x where x: "m a = Some x" "ln_next x = place xs ys (Suc (k + t))"
    using place_next [OF assms(1) a] by blast
  note unfold = count_nodes_from.simps [of _ "Some a"]
  show ?case
  proof (cases "Suc t = length ys")
    case True
    then have "place xs ys (Suc (k + t)) = place xs ys k" using cycle_again [OF assms(3), of ys 1] by (simp flip: True)
    then show ?thesis using a x assms(2) True by (simp add: unfold)
  next
    case False
    then have "place xs ys (k + Suc t) \<noteq> place xs ys k"
      using cycle_apart [OF assms(1,3), of "Suc t"] less.prems by simp
    moreover have "count_nodes_from (place xs ys k) (place xs ys (k + Suc t)) h (int (Suc t) + 1) =
        Some (Inr (int (length ys)))"
      using less.hyps [of "Suc t"] less.prems False by simp
    ultimately show ?thesis using a x assms(2) by (simp add: unfold add.commute)
  qed
qed

text \<open>A heap whose \<open>next\<close> pointers never dangle holds, from each node, a list of this shape.\<close>

lemma list_is_rho:
  assumes "finite (dom m)" and "\<forall>a x b. m a = Some x \<longrightarrow> ln_next x = Some b \<longrightarrow> m b \<noteq> None"
    and "\<forall>a. p = Some a \<longrightarrow> m a \<noteq> None"
  shows "\<exists>xs ys. rho m p xs ys"
proof -
  have "\<exists>xs ys. rho m p xs ys" if "lpath m p as q" "distinct as" "set as \<subseteq> dom m"
      "\<forall>a. q = Some a \<longrightarrow> m a \<noteq> None" for as q
    using that
  proof (induction "card (dom m) - length as" arbitrary: as q rule: less_induct)
    case less
    show ?case
    proof (cases q)
      case None
      then show ?thesis using less.prems by (intro exI [of _ as] exI [of _ "[]"]) (simp add: rho_def)
    next
      case (Some a)
      show ?thesis
      proof (cases "a \<in> set as")
        case True
        then obtain xs zs where "as = xs @ a # zs" by (metis split_list)
        then show ?thesis using less.prems Some
          by (intro exI [of _ xs] exI [of _ "a # zs"]) (auto simp: rho_def)
      next
        case False
        obtain x where x: "m a = Some x" using less.prems(4) Some by blast
        have "card (set (as @ [a])) \<le> card (dom m)"
          using less.prems(3) x assms(1) by (intro card_mono) auto
        then have "length (as @ [a]) \<le> card (dom m)" using less.prems(2) False
          by (metis distinct_append distinct_card distinct_singleton Int_insert_right disjoint_insert(1)
              empty_set inf_bot_right list.simps(15))
        moreover have "lpath m p (as @ [a]) (ln_next x)" using less.prems(1) Some x by simp
        moreover have "distinct (as @ [a])" "set (as @ [a]) \<subseteq> dom m"
          using less.prems(2,3) False x by auto
        ultimately show ?thesis using less.hyps [of "as @ [a]" "ln_next x"] x assms(2) by simp
      qed
    qed
  qed
  from this [of "[]" p] assms(3) show ?thesis by simp
qed

text \<open>
  C29: Floyd's cycle detection is right. Whatever the list (a path of nodes that ends in \<open>nullptr\<close>, or
  one that leads into a cycle), both loops end without touching a dead node: \<open>detect_cycle\<close> tells
  whether there is a cycle and \<open>length_of_loop\<close> returns its number of nodes, 0 if there is none.
\<close>

theorem floyd_correct:
  assumes "rho (h_objects h) head xs ys"
  shows "detect_cycle head h = Some (Inr (ys \<noteq> [])) \<and>
    length_of_loop head h = Some (Inr (int (length ys)))"
proof (cases "ys = []")
  case True
  then show ?thesis using assms no_meeting [of "h_objects h" head xs h 0] place_0 [OF assms]
    by (simp add: detect_cycle_def length_of_loop_def)
next
  case False
  let ?K = "Suc (length xs) * length ys"
  have K: "0 < ?K" "length xs \<le> ?K" using False by (cases ys; simp)+
  have "place xs ys ?K = place xs ys (2 * ?K)"
    unfolding mult_2 using cycle_again [OF K(2), of ys "Suc (length xs)"] by (rule sym)
  from meeting [OF assms refl False K(1) this] obtain j where
    j: "0 < j" "place xs ys j = place xs ys (2 * j)"
      "detect_from head head h = Some (Inr True)"
      "loop_length_from head head h = count_nodes (place xs ys j) h"
    using place_0 [OF assms] by auto
  have "count_nodes (place xs ys j) h = Some (Inr (int (length ys)))"
    using count_cycle [OF assms refl meet_on_cycle [OF assms j(1) False j(2)] False, of 0] False
    by (simp add: count_nodes_def)
  then show ?thesis using j False by (simp add: detect_cycle_def length_of_loop_def)
qed

theorem floyd_correct_witness:
  "detect_cycle (Some 0) \<lparr>h_next = 3,
      h_objects = [0 \<mapsto> \<lparr>ln_data = 1, ln_next = Some 1, ln_prev = None\<rparr>,
                   1 \<mapsto> \<lparr>ln_data = 3, ln_next = Some 2, ln_prev = None\<rparr>,
                   2 \<mapsto> \<lparr>ln_data = 4, ln_next = Some 1, ln_prev = None\<rparr>],
      h_events = [], h_ub = False\<rparr> = Some (Inr True)"
  by (rule floyd_correct [where xs = "[0]" and ys = "[1, 2]", THEN conjunct1, simplified])
    (simp add: rho_def)

section \<open>\<open>MyStack\<close> is a stack\<close>

fun chain :: "nat \<Rightarrow> nat option \<Rightarrow> (nat \<Rightarrow> lnode option) \<Rightarrow> int list" where
  "chain 0 p m = []"
| "chain (Suc k) p m =
     (case p of
        None \<Rightarrow> []
      | Some a \<Rightarrow> (case m a of None \<Rightarrow> [] | Some x \<Rightarrow> ln_data x # chain k (ln_next x) m))"

definition ms_list :: "my_stack \<Rightarrow> int list" where
  "ms_list s = chain (nat (ms_cnt s)) (ms_top s) (h_objects (ms_heap s))"

definition ms_inv :: "my_stack \<Rightarrow> bool" where
  "ms_inv s \<longleftrightarrow> (\<exists>as. lpath (h_objects (ms_heap s)) (ms_top s) as None \<and> distinct as \<and>
     ms_cnt s = int (length as)) \<and> heap_log_ok (ms_heap s)"

lemma lpath_frame [simp]: "a \<notin> set as \<Longrightarrow> lpath (m(a := y)) p as r \<longleftrightarrow> lpath m p as r"
  by (induction as arbitrary: p) (auto split: option.splits)

lemma lpath_live: "lpath m p as r \<Longrightarrow> a \<in> set as \<Longrightarrow> m a \<noteq> None"
  by (induction as arbitrary: p) (auto split: option.splits)

lemma chain_path: "lpath m p as None \<Longrightarrow> chain (length as) p m = map (\<lambda>a. ln_data (the (m a))) as"
  by (induction as arbitrary: p) (auto split: option.splits)

lemma ms_list_path:
  "lpath (h_objects (ms_heap s)) (ms_top s) as None \<Longrightarrow> ms_cnt s = int (length as) \<Longrightarrow>
    ms_list s = map (\<lambda>a. ln_data (the (h_objects (ms_heap s) a))) as"
  by (simp add: ms_list_def chain_path)

lemma ms_push_path:
  assumes "lpath (h_objects (ms_heap s)) (ms_top s) as None" and "distinct as"
    and "ms_cnt s = int (length as)" and "heap_log_ok (ms_heap s)"
  shows "lpath (h_objects (ms_heap (ms_push v s))) (ms_top (ms_push v s)) (h_next (ms_heap s) # as) None \<and>
    distinct (h_next (ms_heap s) # as) \<and> ms_cnt (ms_push v s) = int (length (h_next (ms_heap s) # as)) \<and>
    heap_log_ok (ms_heap (ms_push v s)) \<and> ms_list (ms_push v s) = v # ms_list s"
proof -
  let ?a = "h_next (ms_heap s)"
  have fresh: "?a \<notin> set as" using lpath_live [OF assms(1)] log_fresh [OF assms(4)] by metis
  have objs: "h_objects (ms_heap (ms_push v s)) =
      (h_objects (ms_heap s))(?a \<mapsto> \<lparr>ln_data = v, ln_next = ms_top s, ln_prev = None\<rparr>)"
    and top: "ms_top (ms_push v s) = Some ?a" and cnt: "ms_cnt (ms_push v s) = ms_cnt s + 1"
    by (simp_all add: ms_push_def new_lnode_def new_object_def write_object_def)
  have path: "lpath (h_objects (ms_heap (ms_push v s))) (ms_top (ms_push v s)) (?a # as) None"
    unfolding objs top using fresh assms(1) by simp
  moreover have "heap_log_ok (ms_heap (ms_push v s))"
    using update_log [OF new_log [OF assms(4), of "\<lparr>ln_data = v, ln_next = None, ln_prev = None\<rparr>"],
        where a = ?a and y = "\<lparr>ln_data = v, ln_next = ms_top s, ln_prev = None\<rparr>"]
    by (simp add: ms_push_def new_lnode_def new_object_def write_object_def)
  moreover have "ms_list (ms_push v s) = v # ms_list s"
    using ms_list_path [OF path] ms_list_path [OF assms(1,3)] cnt assms(3) fresh
    by (simp add: objs)
  ultimately show ?thesis using fresh assms(2,3) cnt by simp
qed

lemma ms_pop_path:
  assumes "lpath (h_objects (ms_heap s)) (ms_top s) (a # as) None" and "distinct (a # as)"
    and "ms_cnt s = int (length (a # as))" and "heap_log_ok (ms_heap s)"
  shows "\<exists>v s'. ms_pop s = Inr (v, s') \<and> ms_list s = v # ms_list s' \<and>
    lpath (h_objects (ms_heap s')) (ms_top s') as None \<and> ms_cnt s' = int (length as) \<and>
    heap_log_ok (ms_heap s')"
proof -
  obtain x where x: "ms_top s = Some a" "h_objects (ms_heap s) a = Some x"
      "lpath (h_objects (ms_heap s)) (ln_next x) as None"
    using assms(1) by (auto split: option.splits)
  let ?s = "\<lparr>ms_top = ln_next x, ms_cnt = ms_cnt s - 1, ms_heap = delete_ptr (Some a) (ms_heap s)\<rparr>"
  have pop: "ms_pop s = Inr (ln_data x, ?s)" using x by (simp add: ms_pop_def ms_empty_def)
  have path: "lpath (h_objects (ms_heap ?s)) (ms_top ?s) as None" using x(3) assms(2) by simp
  have cnt: "ms_cnt ?s = int (length as)" using assms(3) by simp
  have "ms_list s = ln_data x # ms_list ?s"
    using ms_list_path [OF path cnt] ms_list_path [OF assms(1,3)] x(2) assms(2)
    by (auto intro!: map_cong)
  then show ?thesis using pop path cnt delete_log [OF assms(4)] by fastforce
qed

interpretation ms: lifo_stack ms_list ms_inv ms_empty ms_push ms_pop
proof unfold_locales
  fix s v and ws
  assume inv: "ms_inv s"
  then obtain as where as: "lpath (h_objects (ms_heap s)) (ms_top s) as None" "distinct as"
      "ms_cnt s = int (length as)" and log: "heap_log_ok (ms_heap s)" unfolding ms_inv_def by blast
  note list = ms_list_path [OF as(1,3)]
  show "ms_empty s \<longleftrightarrow> ms_list s = []"
    using as(1) list by (cases as) (auto simp: ms_empty_def)
  show "ms_list (ms_push v s) = v # ms_list s" "ms_inv (ms_push v s)"
    using ms_push_path [OF as log, of v] unfolding ms_inv_def by blast+
  show "\<exists>e. ms_pop s = Inl e" if "ms_list s = []"
    using that as(1) list by (cases as) (auto simp: ms_empty_def ms_pop_def)
  show "\<exists>s'. ms_pop s = Inr (v, s') \<and> ms_list s' = ws \<and> ms_inv s'" if "ms_list s = v # ws"
  proof (cases as)
    case (Cons a bs)
    obtain w s' where "ms_pop s = Inr (w, s')" "ms_list s = w # ms_list s'"
        "lpath (h_objects (ms_heap s')) (ms_top s') bs None" "ms_cnt s' = int (length bs)"
        "heap_log_ok (ms_heap s')"
      using ms_pop_path [of s a bs] as log Cons by blast
    then show ?thesis using that as(2) Cons unfolding ms_inv_def by auto
  qed (use that list in simp)
qed

section \<open>The other list problems\<close>

definition data_of :: "lnode heap \<Rightarrow> nat list \<Rightarrow> int list" where
  "data_of h as = map (\<lambda>a. ln_data (the (h_objects h a))) as"

lemma data_of_simps [simp]:
  "data_of h [] = []"
  "data_of h (a # as) = ln_data (the (h_objects h a)) # data_of h as"
  by (simp_all add: data_of_def)

fun swap_pairs :: "'a list \<Rightarrow> 'a list" where
  "swap_pairs (x # y # zs) = y # x # swap_pairs zs"
| "swap_pairs xs = xs"

lemma count_from_path:
  "lpath (h_objects h) p as None \<Longrightarrow>
    count_from p k h n = Some (Inr (n + int (length (filter (\<lambda>v. v = k) (data_of h as)))))"
proof (induction as arbitrary: p n)
  case Nil
  then show ?case by (simp add: count_from.simps)
next
  case (Cons a as)
  then obtain x where "p = Some a" "h_objects h a = Some x" "lpath (h_objects h) (ln_next x) as None"
    by (auto split: option.splits)
  with Cons.IH show ?case by (auto simp: count_from.simps [of "Some a"])
qed

fun show_list :: "int list \<Rightarrow> string" where
  "show_list [] = newline"
| "show_list (v # vs) = show_int v @ '' '' @ (if vs = [] then [] else ''-> '') @ show_list vs"

lemma data_of_Nil [simp]: "data_of h as = [] \<longleftrightarrow> as = []"
  by (simp add: data_of_def)

lemma print_list_path:
  "lpath (h_objects h) p as None \<Longrightarrow>
    print_list_from p h out = Some (Inr (out @ show_list (data_of h as)))"
proof (induction as arbitrary: p out)
  case Nil
  then show ?case by (simp add: print_list_from.simps)
next
  case (Cons a as)
  then obtain x where x: "p = Some a" "h_objects h a = Some x" "lpath (h_objects h) (ln_next x) as None"
    by (auto split: option.splits)
  moreover have "ln_next x = None \<longleftrightarrow> as = []" using x(3) by (cases as) auto
  ultimately show ?case using Cons.IH by (auto simp: print_list_from.simps [of "Some a"])
qed

lemma set_ldata_eq:
  "h_objects h a = Some x \<Longrightarrow>
    set_ldata (Some a) v h = h\<lparr>h_objects := (h_objects h)(a \<mapsto> x\<lparr>ln_data := v\<rparr>)\<rparr>"
  by (simp add: set_ldata_def write_object_def)

lemma swap_path:
  "lpath (h_objects h) p as None \<Longrightarrow> distinct as \<Longrightarrow>
    \<exists>h'. pair_wise_swap p h = Some (Inr h') \<and> lpath (h_objects h') p as None \<and>
      data_of h' as = swap_pairs (data_of h as) \<and> (\<forall>c. c \<notin> set as \<longrightarrow> h_objects h' c = h_objects h c)"
proof (induction as arbitrary: p h rule: swap_pairs.induct)
  case (1 a b as)
  obtain x y where xy: "p = Some a" "h_objects h a = Some x" "ln_next x = Some b" "h_objects h b = Some y"
      "lpath (h_objects h) (ln_next y) as None"
    using "1.prems"(1) by (auto split: option.splits)
  have d: "a \<noteq> b" "a \<notin> set as" "b \<notin> set as" "distinct as" using "1.prems"(2) by auto
  let ?h = "h\<lparr>h_objects := (h_objects h)(a \<mapsto> x\<lparr>ln_data := ln_data y\<rparr>, b \<mapsto> y\<lparr>ln_data := ln_data x\<rparr>)\<rparr>"
  have "pair_wise_swap p h = pair_wise_swap (ln_next y) ?h"
    using xy d(1) by (simp add: pair_wise_swap.simps [of "Some a"] set_ldata_eq)
  moreover obtain h' where h': "pair_wise_swap (ln_next y) ?h = Some (Inr h')"
      "lpath (h_objects h') (ln_next y) as None" "data_of h' as = swap_pairs (data_of ?h as)"
      "\<forall>c. c \<notin> set as \<longrightarrow> h_objects h' c = h_objects ?h c"
  proof -
    have "lpath (h_objects ?h) (ln_next y) as None" using xy(5) d by simp
    from "1.IH" [OF this d(4)] show ?thesis using that by blast
  qed
  moreover have "data_of ?h as = data_of h as" using d by (auto simp: data_of_def)
  moreover have "h_objects h' a = Some (x\<lparr>ln_data := ln_data y\<rparr>)"
      "h_objects h' b = Some (y\<lparr>ln_data := ln_data x\<rparr>)" using h'(4) d by auto
  ultimately show ?case using xy by auto
next
  case "2_1"
  then show ?case by (simp add: pair_wise_swap.simps)
next
  case "2_2"
  then show ?case by (auto simp: pair_wise_swap.simps split: option.splits)
qed

text \<open>
  The list problems. On every list that ends in \<open>nullptr\<close>, \<open>count_element\<close> returns how often the
  key occurs, and after \<open>pair_wise_swap\<close> the same nodes hold the data with each pair exchanged (a last
  odd one stays), which is what \<open>print_list\<close> then prints.
\<close>

theorem list_problems_correct:
  assumes "rho (h_objects h) head as []"
  shows "count_element head k h = Some (Inr (int (length (filter (\<lambda>v. v = k) (data_of h as))))) \<and>
    (\<exists>h'. pair_wise_swap head h = Some (Inr h') \<and>
      print_list head h' = Some (Inr (show_list (swap_pairs (data_of h as)))))"
proof -
  have path: "lpath (h_objects h) head as None" and d: "distinct as"
    using assms by (simp_all add: rho_def)
  obtain h' where "pair_wise_swap head h = Some (Inr h')" "lpath (h_objects h') head as None"
      "data_of h' as = swap_pairs (data_of h as)"
    using swap_path [OF path d] by blast
  then show ?thesis using count_from_path [OF path] print_list_path [of h' head as "[]"]
    by (simp add: count_element_def print_list_def)
qed

definition sample_list :: "lnode heap" where
  "sample_list = \<lparr>h_next = 3,
     h_objects = [0 \<mapsto> \<lparr>ln_data = 7, ln_next = Some 1, ln_prev = None\<rparr>,
                  1 \<mapsto> \<lparr>ln_data = 3, ln_next = Some 2, ln_prev = None\<rparr>,
                  2 \<mapsto> \<lparr>ln_data = 7, ln_next = None, ln_prev = None\<rparr>],
     h_events = [], h_ub = False\<rparr>"

theorem list_problems_correct_witness:
  "count_element (Some 0) 7 sample_list = Some (Inr 2) \<and>
    (\<exists>h'. pair_wise_swap (Some 0) sample_list = Some (Inr h') \<and>
      print_list (Some 0) h' = Some (Inr (show_list [3, 7, 7])))"
proof -
  have "rho (h_objects sample_list) (Some 0) [0, 1, 2] []" by (simp add: rho_def sample_list_def)
  from list_problems_correct [OF this, of 7] show ?thesis by (simp add: sample_list_def)
qed

end
