(* ===== verification/Tree_Lists.thy ===== *)
theory Tree_Lists
  imports Linked_List "HOL-Library.Tree"
begin

text \<open>
  The two conversions of a binary tree into a doubly linked list of \<open>linked_list.cpp\<close> (modelled in
  \<open>Linked_List\<close>) make the same list, the inorder sequence. The shape of the tree is a library tree of
  addresses; \<open>link_all\<close> is the effect on the memory of visiting nodes in order, and each loop is
  shown, by induction on the tree, to visit the inorder sequence.
\<close>

section \<open>The tree in the heap and the list made of it\<close>

fun tree_at :: "(nat \<Rightarrow> tnode option) \<Rightarrow> nat option \<Rightarrow> nat tree \<Rightarrow> nat option \<Rightarrow> bool" where
  "tree_at m p \<langle>\<rangle> r \<longleftrightarrow> p = r"
| "tree_at m p \<langle>l, a, u\<rangle> r \<longleftrightarrow>
     p = Some a \<and>
     (case m a of None \<Rightarrow> False | Some x \<Rightarrow> tree_at m (tn_left x) l None \<and> tree_at m (tn_right x) u r)"

text \<open>Visiting the node \<open>a\<close> after \<open>q\<close>, and visiting the nodes \<open>as\<close> in order.\<close>

definition link_one :: "nat option \<Rightarrow> nat \<Rightarrow> (nat \<Rightarrow> tnode option) \<Rightarrow> nat \<Rightarrow> tnode option" where
  "link_one q a m =
     (\<lambda>c. if c = a then map_option (\<lambda>x. x\<lparr>tn_left := q\<rparr>) (m c)
          else if q = Some c then map_option (\<lambda>x. x\<lparr>tn_right := Some a\<rparr>) (m c) else m c)"

fun link_all :: "nat option \<Rightarrow> nat list \<Rightarrow> (nat \<Rightarrow> tnode option) \<Rightarrow> nat \<Rightarrow> tnode option" where
  "link_all q [] m = m"
| "link_all q (a # as) m = link_all (Some a) as (link_one q a m)"

definition end_of :: "nat option \<Rightarrow> nat list \<Rightarrow> nat option" where
  "end_of q as = (if as = [] then q else Some (last as))"

lemma end_of_simps [simp]:
  "end_of q [] = q"
  "end_of q (as @ bs) = end_of (end_of q as) bs"
  "end_of q (a # as) = end_of (Some a) as"
  by (auto simp: end_of_def)

lemma link_all_append [simp]: "link_all q (as @ bs) m = link_all (end_of q as) bs (link_all q as m)"
  by (induction as arbitrary: q m) auto

lemma link_frame: "c \<notin> set as \<Longrightarrow> q \<noteq> Some c \<Longrightarrow> link_all q as m c = m c"
  by (induction as arbitrary: q m) (auto simp: link_one_def)

lemma link_all_live: "(link_all q as m c = None) = (m c = None)"
  by (induction as arbitrary: q m) (auto simp: link_one_def)

lemma tree_frame: "\<forall>c\<in>set_tree t. m' c = m c \<Longrightarrow> tree_at m' p t r = tree_at m p t r"
  by (induction t arbitrary: p r) (auto split: option.splits)

lemma tree_live: "tree_at m p t r \<Longrightarrow> c \<in> set_tree t \<Longrightarrow> m c \<noteq> None"
  by (induction t arbitrary: p r) (auto split: option.splits)

section \<open>\<open>b_to_dll_stack\<close>\<close>

definition visit_one :: "nat \<Rightarrow> dll_state \<Rightarrow> dll_state" where
  "visit_one a s =
     \<lparr>ds_head = (if ds_flag s then Some a else ds_head s), ds_prev = Some a, ds_flag = False,
      ds_heap = (ds_heap s)\<lparr>h_objects := link_one (ds_prev s) a (h_objects (ds_heap s))\<rparr>\<rparr>"

lemma visit_node_one:
  assumes "h_objects (ds_heap s) a = Some x" and "ds_prev s \<noteq> Some a"
    and "\<forall>b. ds_prev s = Some b \<longrightarrow> h_objects (ds_heap s) b \<noteq> None"
  shows "visit_node (Some a) s = Inr (visit_one a s)"
proof (cases "ds_prev s")
  case None
  have "(h_objects (ds_heap s))(a \<mapsto> x\<lparr>tn_left := None\<rparr>) = link_one None a (h_objects (ds_heap s))"
    using assms(1) by (auto simp: link_one_def fun_eq_iff)
  then show ?thesis using None assms(1)
    by (cases s) (simp add: visit_node_def visit_one_def set_tleft_def)
next
  case (Some b)
  then obtain y where y: "h_objects (ds_heap s) b = Some y" using assms(3) by blast
  have ab: "b \<noteq> a" using Some assms(2) by simp
  have "(h_objects (ds_heap s))(b \<mapsto> y\<lparr>tn_right := Some a\<rparr>, a \<mapsto> x\<lparr>tn_left := Some b\<rparr>) =
      link_one (Some b) a (h_objects (ds_heap s))"
    using ab y assms(1) by (auto simp: link_one_def fun_eq_iff)
  then show ?thesis using Some y ab assms(1)
    by (cases s) (simp add: visit_node_def visit_one_def set_tleft_def set_tright_def)
qed

lemma visits_heap:
  "h_objects (ds_heap (fold visit_one as s)) = link_all (ds_prev s) as (h_objects (ds_heap s))"
  "ds_prev (fold visit_one as s) = end_of (ds_prev s) as"
  "ds_heap (fold visit_one as s) =
    (ds_heap s)\<lparr>h_objects := link_all (ds_prev s) as (h_objects (ds_heap s))\<rparr>"
  by (induction as arbitrary: s) (auto simp: visit_one_def)

lemma stack_visits:
  assumes "tree_at (h_objects (ds_heap s)) p t None" and "distinct (inorder t)"
    and "\<forall>b. ds_prev s = Some b \<longrightarrow> b \<notin> set_tree t \<and> h_objects (ds_heap s) b \<noteq> None"
  shows "dll_loop ((p, 0) # st) s = dll_loop st (fold visit_one (inorder t) s)"
  using assms
proof (induction t arbitrary: p st s)
  case Leaf
  then show ?case by (simp add: dll_loop.simps [of "(None, 0) # st"] dll_round_def)
next
  case (Node l a u)
  let ?m = "h_objects (ds_heap s)" and ?s1 = "fold visit_one (inorder l) s"
  let ?s2 = "visit_one a ?s1"
  obtain x where x: "p = Some a" "?m a = Some x" "tree_at ?m (tn_left x) l None"
      "tree_at ?m (tn_right x) u None"
    using Node.prems(1) by (auto split: option.splits)
  have d: "distinct (inorder l)" "distinct (inorder u)" "a \<notin> set_tree l" "a \<notin> set_tree u"
      "set_tree l \<inter> set_tree u = {}"
    using Node.prems(2) by auto
  have prev: "\<forall>b. ds_prev s = Some b \<longrightarrow> b \<notin> set_tree l \<and> b \<noteq> a \<and> b \<notin> set_tree u \<and> ?m b \<noteq> None"
    using Node.prems(3) by auto
  have m1: "h_objects (ds_heap ?s1) = link_all (ds_prev s) (inorder l) ?m"
    and p1: "ds_prev ?s1 = end_of (ds_prev s) (inorder l)" by (simp_all add: visits_heap)
  have a1: "h_objects (ds_heap ?s1) a = Some x"
    using x(2) d(3) prev link_frame [of a "inorder l" "ds_prev s" ?m] by (auto simp: m1)
  have prev1: "\<forall>b. ds_prev ?s1 = Some b \<longrightarrow> b \<noteq> a \<and> h_objects (ds_heap ?s1) b \<noteq> None \<and> b \<notin> set_tree u"
  proof (intro allI impI)
    fix b assume b: "ds_prev ?s1 = Some b"
    show "b \<noteq> a \<and> h_objects (ds_heap ?s1) b \<noteq> None \<and> b \<notin> set_tree u"
    proof (cases "inorder l = []")
      case True
      then show ?thesis using b prev by (simp add: p1 m1 end_of_def)
    next
      case False
      then have "b \<in> set_tree l" using b last_in_set [OF False] by (auto simp: p1 end_of_def)
      then show ?thesis using d tree_live [OF x(3)] by (auto simp: m1 link_all_live)
    qed
  qed
  have visit: "visit_node (Some a) ?s1 = Inr ?s2"
    using a1 prev1 by (intro visit_node_one) auto
  have m2: "h_objects (ds_heap ?s2) = link_one (ds_prev ?s1) a (h_objects (ds_heap ?s1))"
    by (simp add: visit_one_def)
  have a2: "\<exists>y. h_objects (ds_heap ?s2) a = Some y \<and> tn_right y = tn_right x"
    unfolding m2 using a1 by (simp add: link_one_def)
  have "tree_at (h_objects (ds_heap ?s2)) (tn_right x) u None"
  proof -
    have "\<forall>c\<in>set_tree u. h_objects (ds_heap ?s2) c = ?m c"
    proof
      fix c assume c: "c \<in> set_tree u"
      have away: "c \<notin> set (inorder l)" "ds_prev s \<noteq> Some c" using c d prev by auto
      have ca: "c \<noteq> a" and cp: "ds_prev ?s1 \<noteq> Some c" using c d prev1 by auto
      have "h_objects (ds_heap ?s2) c = h_objects (ds_heap ?s1) c"
        unfolding m2 by (simp only: link_one_def ca cp if_False)
      also have "\<dots> = ?m c" unfolding m1 by (rule link_frame [OF away])
      finally show "h_objects (ds_heap ?s2) c = ?m c" .
    qed
    from tree_frame [OF this] x(4) show ?thesis by blast
  qed
  then have right: "dll_loop ((tn_right x, 0) # (Some a, 3) # st) ?s2 =
      dll_loop ((Some a, 3) # st) (fold visit_one (inorder u) ?s2)"
    using d a2 by (intro Node.IH(2)) (auto simp: visit_one_def [of a])
  have left: "dll_loop ((tn_left x, 0) # (Some a, Suc 0) # st) s = dll_loop ((Some a, Suc 0) # st) ?s1"
    using x(3) d(1) prev by (intro Node.IH(1)) auto
  have "dll_loop ((p, 0) # st) s = dll_loop ((tn_left x, 0) # (Some a, Suc 0) # st) s"
    using x by (simp add: dll_loop.simps [of "(Some a, 0) # st"] dll_round_def)
  also have "\<dots> = dll_loop ((Some a, 2) # st) ?s2"
    using visit by (simp add: left dll_loop.simps [of "(Some a, Suc 0) # st"] dll_round_def numeral_2_eq_2)
  also have "\<dots> = dll_loop ((tn_right x, 0) # (Some a, 3) # st) ?s2"
    using a2 by (auto simp: dll_loop.simps [of "(Some a, 2) # st"] dll_round_def)
  also have "\<dots> = dll_loop st (fold visit_one (inorder u) ?s2)"
    unfolding right by (simp add: dll_loop.simps [of "(Some a, 3) # st"] dll_round_def)
  finally show ?case by simp
qed

section \<open>\<open>bt_to_dll_morris\<close>\<close>

text \<open>The list from a node on, as the inner loop of the Morris traversal walks it.\<close>

fun right_path :: "(nat \<Rightarrow> tnode option) \<Rightarrow> nat option \<Rightarrow> nat list \<Rightarrow> nat option \<Rightarrow> bool" where
  "right_path m p [] r \<longleftrightarrow> p = r"
| "right_path m p (a # as) r \<longleftrightarrow>
     p = Some a \<and> (case m a of None \<Rightarrow> False | Some x \<Rightarrow> right_path m (tn_right x) as r)"

lemma right_path_append [simp]:
  "right_path m p (as @ bs) r \<longleftrightarrow> (\<exists>q. right_path m p as q \<and> right_path m q bs r)"
  by (induction as arbitrary: p) (auto split: option.splits)

lemma find_pre_path:
  "right_path (h_objects h) p as r \<Longrightarrow> as \<noteq> [] \<Longrightarrow> c \<notin> set as \<Longrightarrow> r = None \<or> r = Some c \<Longrightarrow>
    \<exists>x. h_objects h (last as) = Some x \<and> tn_right x = r \<and>
      find_pre p (Some c) h = Some (Inr (Some (last as), x))"
proof (induction as arbitrary: p)
  case (Cons a as)
  obtain x where x: "p = Some a" "h_objects h a = Some x" "right_path (h_objects h) (tn_right x) as r"
    using Cons.prems(1) by (auto split: option.splits)
  show ?case
  proof (cases as)
    case Nil
    then have "tn_right x = r" using x(3) by simp
    then show ?thesis using x Nil Cons.prems(4) by (auto simp: find_pre.simps [of "Some a"])
  next
    case (Cons b bs)
    then have "tn_right x = Some b" "b \<noteq> c" using x(3) Cons.prems(3) by auto
    then show ?thesis using Cons.IH [OF x(3)] Cons.prems Cons x
      by (auto simp: find_pre.simps [of "Some a"])
  qed
qed simp

definition set_right :: "nat \<Rightarrow> nat option \<Rightarrow> (nat \<Rightarrow> tnode option) \<Rightarrow> nat \<Rightarrow> tnode option" where
  "set_right e v m = m(e := map_option (\<lambda>x. x\<lparr>tn_right := v\<rparr>) (m e))"

lemma set_right_simps [simp]:
  "set_right e v m e = map_option (\<lambda>x. x\<lparr>tn_right := v\<rparr>) (m e)"
  "c \<noteq> e \<Longrightarrow> set_right e v m c = m c"
  "(set_right e v m c = None) = (m c = None)"
  by (simp_all add: set_right_def)

lemma set_tright_eq:
  "h_objects h e \<noteq> None \<Longrightarrow> set_tright (Some e) v h = Inr (h\<lparr>h_objects := set_right e v (h_objects h)\<rparr>)"
  by (auto simp: set_tright_def set_right_def)

lemma link_nodes_eq:
  assumes "h_objects h e \<noteq> None" and "h_objects h a \<noteq> None" and "e \<noteq> a"
  shows "link_nodes (Some e) (Some a) h = Inr (h\<lparr>h_objects := link_one (Some e) a (h_objects h)\<rparr>)"
proof -
  obtain x y where xy: "h_objects h e = Some x" "h_objects h a = Some y" using assms by blast
  have "(h_objects h)(e \<mapsto> x\<lparr>tn_right := Some a\<rparr>, a \<mapsto> y\<lparr>tn_left := Some e\<rparr>) =
      link_one (Some e) a (h_objects h)"
    using xy assms(3) by (auto simp: link_one_def fun_eq_iff)
  then show ?thesis using xy assms(3) by (simp add: link_nodes_def set_tright_def set_tleft_def)
qed

lemma link_set_right:
  "e \<notin> set (butlast as) \<Longrightarrow> q \<noteq> Some e \<Longrightarrow> link_all q as (set_right e v m) = set_right e v (link_all q as m)"
proof (induction as arbitrary: q m)
  case (Cons a as)
  have "link_one q a (set_right e v m) = set_right e v (link_one q a m)"
    using Cons.prems(2) by (auto simp: fun_eq_iff link_one_def set_right_def map_option_case split: option.splits)
  moreover have "as = [] \<or> a \<noteq> e" "e \<notin> set (butlast as)" using Cons.prems(1) by (auto split: if_splits)
  ultimately show ?case using Cons.IH [of "Some a"] by auto
qed simp

lemma link_one_set_right: "a \<noteq> e \<Longrightarrow> link_one (Some e) a (set_right e v m) = link_one (Some e) a m"
  by (auto simp: fun_eq_iff link_one_def set_right_def map_option_case split: option.splits)

lemma tree_spine:
  "tree_at m p t r \<Longrightarrow> \<exists>as. right_path m p as r \<and> set as \<subseteq> set_tree t \<and>
    (t \<noteq> \<langle>\<rangle> \<longrightarrow> as \<noteq> [] \<and> last as = last (inorder t))"
proof (induction t arbitrary: p)
  case Leaf
  then show ?case by (intro exI [of _ "[]"]) simp
next
  case (Node l a u)
  then obtain x where x: "p = Some a" "m a = Some x" "tree_at m (tn_right x) u r"
    by (auto split: option.splits)
  from Node.IH(2) [OF x(3)] obtain as where as: "right_path m (tn_right x) as r" "set as \<subseteq> set_tree u"
      "u \<noteq> \<langle>\<rangle> \<longrightarrow> as \<noteq> [] \<and> last as = last (inorder u)" by blast
  show ?case
  proof (cases "u = \<langle>\<rangle>")
    case True
    then show ?thesis using x as by (intro exI [of _ "[a]"]) simp
  next
    case False
    then have "inorder u \<noteq> []" by (cases u) auto
    then show ?thesis using x as False by (intro exI [of _ "a # as"]) auto
  qed
qed

lemma tree_thread:
  "tree_at m p t r \<Longrightarrow> t \<noteq> \<langle>\<rangle> \<Longrightarrow> distinct (inorder t) \<Longrightarrow>
    tree_at (set_right (last (inorder t)) v m) p t v"
proof (induction t arbitrary: p)
  case (Node l a u)
  then obtain x where x: "p = Some a" "m a = Some x" "tree_at m (tn_left x) l None" "tree_at m (tn_right x) u r"
    by (auto split: option.splits)
  let ?e = "last (inorder \<langle>l, a, u\<rangle>)"
  show ?case
  proof (cases "u = \<langle>\<rangle>")
    case True
    then have "tree_at (set_right a v m) (tn_left x) l None"
    proof -
      have "\<forall>c\<in>set_tree l. c \<noteq> a" using Node.prems(3) by auto
      then have "\<forall>c\<in>set_tree l. set_right a v m c = m c" by simp
      from tree_frame [OF this] x(3) show ?thesis by blast
    qed
    then show ?thesis using x True by simp
  next
    case False
    then have ne: "inorder u \<noteq> []" by (cases u) auto
    then have e: "?e = last (inorder u)" "?e \<in> set_tree u" using last_in_set [OF ne] by auto
    then have "?e \<noteq> a" "?e \<notin> set_tree l" using Node.prems(3) by auto
    then have same: "\<forall>c\<in>set_tree l. set_right ?e v m c = m c" and "set_right ?e v m a = Some x"
      using x(2) by (metis set_right_simps(2))+
    moreover have "tree_at (set_right ?e v m) (tn_left x) l None" using tree_frame [OF same] x(3) by blast
    moreover have "tree_at (set_right ?e v m) (tn_right x) u v"
      unfolding e(1) using Node.IH(2) [OF x(4) False] Node.prems(3) by simp
    ultimately show ?thesis using x(1) by simp
  qed
qed simp

lemma link_right_path:
  "distinct zs \<Longrightarrow> \<forall>c\<in>set zs. m c \<noteq> None \<Longrightarrow> zs \<noteq> [] \<Longrightarrow> \<forall>b. q = Some b \<longrightarrow> b \<notin> set zs \<Longrightarrow>
    right_path (link_all q zs m) (Some (hd zs)) zs (tn_right (the (m (last zs))))"
proof (induction zs arbitrary: q m)
  case (Cons a as)
  obtain x where x: "m a = Some x" using Cons.prems(2) by auto
  have one: "link_one q a m a = Some (x\<lparr>tn_left := q\<rparr>)" using x by (simp add: link_one_def)
  show ?case
  proof (cases as)
    case Nil
    then show ?thesis using one x by simp
  next
    case (Cons b bs)
    have live: "\<forall>c\<in>set as. link_one q a m c \<noteq> None" and l: "m (last as) \<noteq> None" "last as \<in> set as" "last as \<noteq> a"
      using Cons.prems(1,2) Cons by (auto simp: link_one_def)
    have "q \<noteq> Some (last as)" using Cons.prems(4) l(2) by auto
    then have keep: "tn_right (the (link_one q a m (last as))) = tn_right (the (m (last as)))"
      using l by (simp add: link_one_def)
    have "right_path (link_all (Some a) as (link_one q a m)) (Some (hd as)) as (tn_right (the (m (last as))))"
    proof -
      have "as \<noteq> []" using Cons by simp
      then show ?thesis using Cons.IH [OF _ live, of "Some a"] Cons.prems(1) keep by simp
    qed
    moreover have "link_all (Some a) as (link_one q a m) a = Some (x\<lparr>tn_left := q, tn_right := Some b\<rparr>)"
    proof -
      have "link_all (Some a) as (link_one q a m) a = link_one (Some a) b (link_one q a m) a"
        using link_frame [of a bs "Some b"] Cons.prems(1) Cons by auto
      also have "\<dots> = map_option (\<lambda>x. x\<lparr>tn_right := Some b\<rparr>) (link_one q a m a)"
        using Cons.prems(1) Cons by (simp add: link_one_def [of "Some a"])
      finally show ?thesis unfolding one by simp
    qed
    moreover have "hd as = b" "as \<noteq> []" using Cons by simp_all
    ultimately show ?thesis by simp
  qed
qed simp

lemma morris_tree:
  "tree_at (h_objects h) p t r \<Longrightarrow> distinct (inorder t) \<Longrightarrow> (\<forall>c. r = Some c \<longrightarrow> c \<notin> set_tree t) \<Longrightarrow>
    (head = None \<longleftrightarrow> q = None) \<Longrightarrow> (\<forall>b. q = Some b \<longrightarrow> b \<notin> set_tree t \<and> h_objects h b \<noteq> None) \<Longrightarrow>
    morris_loop p q head h =
      morris_loop r (end_of q (inorder t)) (if head = None \<and> t \<noteq> \<langle>\<rangle> then Some (hd (inorder t)) else head)
        (h\<lparr>h_objects := link_all q (inorder t) (h_objects h)\<rparr>)"
proof (induction t arbitrary: p r q head h)
  case Leaf
  then show ?case by simp
next
  case (Node l a u)
  let ?m = "h_objects h"
  obtain x where x: "p = Some a" "?m a = Some x" "tree_at ?m (tn_left x) l None" "tree_at ?m (tn_right x) u r"
    using Node.prems(1) by (auto split: option.splits)
  have d: "distinct (inorder l)" "distinct (inorder u)" "a \<notin> set_tree l" "a \<notin> set_tree u"
      "set_tree l \<inter> set_tree u = {}" using Node.prems(2) by auto
  have q: "\<forall>b. q = Some b \<longrightarrow> b \<notin> set_tree l \<and> b \<noteq> a \<and> b \<notin> set_tree u \<and> ?m b \<noteq> None"
    using Node.prems(5) by auto
  have r: "\<forall>c. r = Some c \<longrightarrow> c \<notin> set_tree u" using Node.prems(3) by auto
  show ?case
  proof (cases "l = \<langle>\<rangle>")
    case True
    then have left: "tn_left x = None" using x(3) by simp
    let ?h = "h\<lparr>h_objects := link_one q a ?m\<rparr>" and ?head = "if head = None then Some a else head"
    have link: "(if head = None then Inr h else link_nodes q (Some a) h) = Inr ?h"
    proof (cases q)
      case None
      have "x\<lparr>tn_left := None\<rparr> = x" using left by simp
      then have "link_one None a ?m = ?m" using x(2) by (auto simp: link_one_def fun_eq_iff)
      then show ?thesis using None Node.prems(4) by simp
    next
      case (Some b)
      then obtain z where "head = Some z" using Node.prems(4) by auto
      then show ?thesis using Some q x(2) by (simp add: link_nodes_eq)
    qed
    have round: "morris_round (Some a) q head h = Some (Inr (tn_right x, Some a, ?head, ?h))"
      using x(2) left q unfolding morris_round_def link
      by (auto simp: and_then_def link_one_def)
    have same: "\<forall>c\<in>set_tree u. h_objects ?h c = ?m c"
      using d q by (auto simp: link_one_def)
    have "morris_loop (tn_right x) (Some a) ?head ?h =
        morris_loop r (end_of (Some a) (inorder u)) ?head (?h\<lparr>h_objects := link_all (Some a) (inorder u) (h_objects ?h)\<rparr>)"
      using Node.IH(2) [of ?h "tn_right x" r ?head "Some a"] tree_frame [OF same] x(2,4) d r
      by (auto simp: link_one_def)
    then show ?thesis using x(1) round True by (simp add: morris_loop.simps [of "Some a"])
  next
    case False
    define e where "e = last (inorder l)"
    have ne: "inorder l \<noteq> []" using False by (cases l) auto
    have e: "e \<in> set_tree l" "e \<noteq> a" "e \<notin> set_tree u" "?m e \<noteq> None"
      using last_in_set [OF ne] d tree_live [OF x(3)] unfolding e_def by auto
    obtain lx where left: "tn_left x = Some lx" using x(3) False by (cases l) auto
    obtain as where as: "right_path ?m (tn_left x) as None" "set as \<subseteq> set_tree l" "as \<noteq> []" "last as = e"
      using tree_spine [OF x(3)] False unfolding e_def by blast
    obtain y where y: "?m e = Some y" "tn_right y = None" "find_pre (tn_left x) (Some a) h = Some (Inr (Some e, y))"
      using find_pre_path [OF as(1,3), of a] as(2,4) d(3) by blast
    let ?h1 = "h\<lparr>h_objects := set_right e (Some a) ?m\<rparr>"
    have round1: "morris_round (Some a) q head h = Some (Inr (tn_left x, q, head, ?h1))"
      using x(2) left y by (simp add: morris_round_def and_then_def set_tright_eq)
    let ?m2 = "link_all q (inorder l) (h_objects ?h1)"
    let ?h2 = "h\<lparr>h_objects := ?m2\<rparr>"
    let ?head = "if head = None then Some (hd (inorder l)) else head"
    have "tree_at (h_objects ?h1) (tn_left x) l (Some a)"
      using tree_thread [OF x(3) False d(1)] by (simp add: e_def)
    then have sub: "morris_loop (tn_left x) q head ?h1 = morris_loop (Some a) (Some e) ?head ?h2"
      using Node.IH(1) [of ?h1 "tn_left x" "Some a" head q] d Node.prems(4) q False ne
      by (auto simp: end_of_def e_def)
    have e_butlast: "e \<notin> set (butlast (inorder l))"
      using d(1) ne unfolding e_def by (metis append_butlast_last_id distinct_butlast not_distinct_conv_prefix distinct.simps(2) distinct1_rotate rotate1.simps(2))
    have m2: "?m2 = set_right e (Some a) (link_all q (inorder l) ?m)"
      using link_set_right [OF e_butlast] q e(1) by auto
    have a2: "?m2 a = Some x"
      using link_frame [of a "inorder l" q "h_objects ?h1"] d(3) q x(2) e(2) by auto
    have live2: "?m2 e \<noteq> None" using e(4) by (simp add: link_all_live y)
    obtain ys zs where split: "inorder l = ys @ zs" and zs: "zs \<noteq> []" "Some (hd zs) = tn_left x"
    proof -
      obtain b where b: "tn_left x = Some b" "b \<in> set (inorder l)"
        using x(3) False by (cases l) auto
      then obtain ys zs where "inorder l = ys @ b # zs" by (metis split_list)
      then show ?thesis using that [of ys "b # zs"] b by simp
    qed
    have last_zs: "last zs = e" using split zs(1) by (simp add: e_def)
    have "right_path ?m2 (tn_left x) zs (Some a)"
    proof -
      let ?n = "link_all q ys (h_objects ?h1)"
      have "e \<notin> set ys" using d(1) split last_zs last_in_set [OF zs(1)] by auto
      then have keep: "?n e = h_objects ?h1 e" using q e(1) by (intro link_frame) auto
      have "\<forall>c\<in>set zs. ?n c \<noteq> None"
        using tree_live [OF x(3)] split by (auto simp: link_all_live)
          (metis Un_iff option.distinct(1) set_append set_inorder)+
      moreover have "\<forall>b. end_of q ys = Some b \<longrightarrow> b \<notin> set zs"
      proof (intro allI impI)
        fix b assume b: "end_of q ys = Some b"
        show "b \<notin> set zs"
        proof (cases "ys = []")
          case True
          then have "b \<notin> set_tree l" using b q by (simp add: end_of_def)
          then show ?thesis using split by (metis Un_iff set_append set_inorder)
        next
          case False
          then have "b \<in> set ys" using b by (auto simp: end_of_def)
          then show ?thesis using d(1) split by auto
        qed
      qed
      ultimately have "right_path (link_all (end_of q ys) zs ?n) (Some (hd zs)) zs (tn_right (the (?n (last zs))))"
        using d(1) split zs(1) by (intro link_right_path) auto
      then show ?thesis using keep y by (simp add: split last_zs zs(2))
    qed
    then obtain z where z: "?m2 e = Some z" "tn_right z = Some a"
        "find_pre (tn_left x) (Some a) ?h2 = Some (Inr (Some e, z))"
    proof -
      have "a \<notin> set (inorder l)" using d(3) by simp
      then have "a \<notin> set zs" unfolding split by simp
      then show ?thesis
        using find_pre_path [of ?h2 "tn_left x" zs "Some a" a] zs(1) last_zs \<open>right_path ?m2 _ zs _\<close> that by auto
    qed
    let ?h3 = "h\<lparr>h_objects := link_one (Some e) a ?m2\<rparr>"
    have round2: "morris_round (Some a) (Some e) ?head ?h2 = Some (Inr (tn_right x, Some a, ?head, ?h3))"
      using a2 left z e(2) by (simp add: morris_round_def and_then_def link_nodes_eq) (simp add: link_one_def)
    have same: "\<forall>c\<in>set_tree u. h_objects ?h3 c = ?m c"
    proof
      fix c assume c: "c \<in> set_tree u"
      then have c': "c \<noteq> a" "c \<noteq> e" "c \<notin> set (inorder l)" "q \<noteq> Some c" using d q e(3) by auto
      have "?m2 c = h_objects ?h1 c" by (rule link_frame [OF c'(3,4)])
      then show "h_objects ?h3 c = ?m c" using c' by (simp add: link_one_def)
    qed
    have h3: "link_one (Some e) a ?m2 = link_one (Some e) a (link_all q (inorder l) ?m)"
      unfolding m2 using e(2) by (intro link_one_set_right) simp
    have "?head \<noteq> None" by simp
    then have right: "morris_loop (tn_right x) (Some a) ?head ?h3 =
        morris_loop r (end_of (Some a) (inorder u)) ?head
          (?h3\<lparr>h_objects := link_all (Some a) (inorder u) (h_objects ?h3)\<rparr>)"
      using Node.IH(2) [of ?h3 "tn_right x" r ?head "Some a"] tree_frame [OF same] x(4) d r a2
      by (auto simp: link_one_def)
    have "morris_loop p q head h = morris_loop (tn_left x) q head ?h1"
      using x(1) round1 by (simp add: morris_loop.simps [of "Some a"])
    also have "\<dots> = morris_loop (tn_right x) (Some a) ?head ?h3"
      unfolding sub using round2 by (simp add: morris_loop.simps [of "Some a"])
    also have "\<dots> = morris_loop r (end_of (Some a) (inorder u)) ?head
          (h\<lparr>h_objects := link_all (Some a) (inorder u) (link_one (Some e) a (link_all q (inorder l) ?m))\<rparr>)"
      unfolding right by (simp add: h3 [simplified])
    finally show ?thesis using ne False by (simp add: end_of_def e_def [symmetric])
  qed
qed

section \<open>The list both conversions make\<close>

text \<open>\<open>tseg m p as r\<close>: the nodes \<open>as\<close> are linked both ways, after \<open>p\<close> and before \<open>r\<close>.\<close>

fun tseg :: "(nat \<Rightarrow> tnode option) \<Rightarrow> nat option \<Rightarrow> nat list \<Rightarrow> nat option \<Rightarrow> bool" where
  "tseg m p [] r \<longleftrightarrow> True"
| "tseg m p (a # as) r \<longleftrightarrow>
     (case m a of
        None \<Rightarrow> False
      | Some x \<Rightarrow>
          tn_left x = p \<and> tn_right x = (case as of [] \<Rightarrow> r | b # _ \<Rightarrow> Some b) \<and> tseg m (Some a) as r)"

lemma right_path_last:
  "right_path m p as r \<Longrightarrow> as \<noteq> [] \<Longrightarrow> tn_right (the (m (last as))) = r"
  by (induction as arbitrary: p) (auto split: option.splits if_splits)

lemma link_left:
  "distinct zs \<Longrightarrow> \<forall>c\<in>set zs. m c \<noteq> None \<Longrightarrow> \<forall>b. q = Some b \<longrightarrow> b \<notin> set zs \<Longrightarrow>
    right_path (link_all q zs m) p zs r \<Longrightarrow> tseg (link_all q zs m) q zs r"
proof (induction zs arbitrary: q m p)
  case (Cons a as)
  let ?m = "link_all q (a # as) m"
  obtain y where y: "?m a = Some y" "right_path ?m (tn_right y) as r"
    using Cons.prems(4) by (auto split: option.splits)
  obtain x where x: "m a = Some x" using Cons.prems(2) by auto
  have one: "link_one q a m a = Some (x\<lparr>tn_left := q\<rparr>)" using x by (simp add: link_one_def)
  have "tn_left y = q"
  proof (cases as)
    case Nil
    then show ?thesis using y(1) one by auto
  next
    case (Cons b bs)
    have "?m a = link_one (Some a) b (link_one q a m) a"
      using link_frame [of a bs "Some b"] Cons.prems(1) Cons by auto
    then show ?thesis using y(1) one Cons.prems(1) Cons by (auto simp: link_one_def [of "Some a"])
  qed
  moreover have "tn_right y = (case as of [] \<Rightarrow> r | b # _ \<Rightarrow> Some b)"
    using y(2) by (cases as) auto
  moreover have "tseg ?m (Some a) as r"
    using Cons.IH [of "link_one q a m" "Some a"] Cons.prems(1,2) y(2) by (auto simp: link_one_def)
  ultimately show ?case using y(1) by simp
qed simp

lemma link_data: "map_option tn_data (link_all q as m c) = map_option tn_data (m c)"
  by (induction as arbitrary: q m) (auto simp: link_one_def option.map_comp comp_def)

lemma print_right_path:
  "right_path (h_objects h) p as None \<Longrightarrow>
    print_tree_list_from p h out =
      Some (Inr (out @ concat (map (\<lambda>a. show_int (tn_data (the (h_objects h a))) @ '' '') as)))"
proof (induction as arbitrary: p out)
  case Nil
  then show ?case by (simp add: print_tree_list_from.simps)
next
  case (Cons a as)
  then obtain x where "p = Some a" "h_objects h a = Some x" "right_path (h_objects h) (tn_right x) as None"
    by (auto split: option.splits)
  with Cons.IH show ?case by (simp add: print_tree_list_from.simps [of "Some a"])
qed

lemma visits_head:
  "ds_head (fold visit_one as s) = (if as \<noteq> [] \<and> ds_flag s then Some (hd as) else ds_head s)"
  by (induction as arbitrary: s) (auto simp: visit_one_def)

text \<open>
  Both conversions make the sorted doubly linked list of the tree, and the same one. For every
  tree without sharing, \<open>b_to_dll_stack\<close> (an explicit stack of states) and \<open>bt_to_dll_morris\<close>
  (threading the right pointers, no stack) end without touching a dead node in the same heap, in
  which the nodes in inorder are linked left and right with null ends and keep their data;
  \<open>print_tree_list\<close> prints them in that order.
\<close>

theorem tree_to_dll:
  assumes "tree_at (h_objects h) root t None" and "distinct (inorder t)"
  shows "\<exists>first h'. first = (if t = \<langle>\<rangle> then None else Some (hd (inorder t))) \<and>
    b_to_dll_stack root h = Some (Inr (first, h')) \<and> bt_to_dll_morris root h = Some (Inr (first, h')) \<and>
    tseg (h_objects h') None (inorder t) None \<and>
    (\<forall>c. map_option tn_data (h_objects h' c) = map_option tn_data (h_objects h c)) \<and>
    print_tree_list first h' =
      Some (Inr (concat (map (\<lambda>a. show_int (tn_data (the (h_objects h a))) @ '' '') (inorder t))))"
proof -
  let ?as = "inorder t" and ?first = "if t = \<langle>\<rangle> then None else Some (hd (inorder t))"
  let ?m = "link_all None ?as (h_objects h)"
  let ?h = "h\<lparr>h_objects := ?m\<rparr>" and ?s = "\<lparr>ds_head = None, ds_prev = None, ds_flag = True, ds_heap = h\<rparr>"
  have leaf: "t = \<langle>\<rangle> \<longleftrightarrow> ?as = []" by (cases t) auto
  have "dll_loop [(root, 0)] ?s = dll_loop [] (fold visit_one ?as ?s)"
    using assms by (intro stack_visits) auto
  then have stack: "b_to_dll_stack root h = Some (Inr (?first, ?h))"
    using leaf by (simp add: b_to_dll_stack_def and_then_def dll_loop.simps [of "[]"] visits_head visits_heap)
  have "morris_loop root None None h = morris_loop None (end_of None ?as) ?first ?h"
    using morris_tree [OF assms(1,2)] by auto
  then have morris: "bt_to_dll_morris root h = Some (Inr (?first, ?h))"
    by (simp add: bt_to_dll_morris_def morris_loop.simps [of None])
  have live: "\<forall>c\<in>set ?as. h_objects h c \<noteq> None" using tree_live [OF assms(1)] by simp
  have path: "right_path ?m ?first ?as None"
  proof (cases "t = \<langle>\<rangle>")
    case False
    obtain bs where "right_path (h_objects h) root bs None" "bs \<noteq> []" "last bs = last ?as"
      using tree_spine [OF assms(1)] False by blast
    then have "tn_right (the (h_objects h (last ?as))) = None" using right_path_last by metis
    moreover have "right_path ?m (Some (hd ?as)) ?as (tn_right (the (h_objects h (last ?as))))"
    proof (rule link_right_path [OF assms(2) live])
      show "?as \<noteq> []" using False leaf by blast
    qed simp
    ultimately show ?thesis using False by simp
  qed simp
  have "tseg ?m None ?as None"
    by (rule link_left [OF assms(2) live _ path]) simp
  moreover have data: "map_option tn_data (?m c) = map_option tn_data (h_objects h c)" for c
    by (rule link_data)
  moreover have "print_tree_list ?first ?h =
      Some (Inr (concat (map (\<lambda>a. show_int (tn_data (the (h_objects h a))) @ '' '') ?as)))"
  proof -
    have "tn_data (the (?m a)) = tn_data (the (h_objects h a))" if "a \<in> set ?as" for a
      using data [of a] tree_live [OF assms(1), of a] that by auto
    then have same: "map (\<lambda>a. show_int (tn_data (the (?m a))) @ '' '') ?as =
        map (\<lambda>a. show_int (tn_data (the (h_objects h a))) @ '' '') ?as"
      by (intro map_cong) simp_all
    show ?thesis unfolding same [symmetric] print_tree_list_def
      using print_right_path [of ?h ?first ?as "[]"] path by simp
  qed
  ultimately show ?thesis using stack morris by (intro exI [of _ ?first] exI [of _ ?h]) simp
qed

definition sample_tree :: "tnode heap" where
  "sample_tree = \<lparr>h_next = 3,
     h_objects = [0 \<mapsto> \<lparr>tn_data = 10, tn_left = Some 1, tn_right = Some 2\<rparr>,
                  1 \<mapsto> \<lparr>tn_data = 12, tn_left = None, tn_right = None\<rparr>,
                  2 \<mapsto> \<lparr>tn_data = 15, tn_left = None, tn_right = None\<rparr>],
     h_events = [], h_ub = False\<rparr>"

theorem tree_to_dll_witness:
  "\<exists>h'. b_to_dll_stack (Some 0) sample_tree = Some (Inr (Some 1, h')) \<and>
    bt_to_dll_morris (Some 0) sample_tree = Some (Inr (Some 1, h')) \<and>
    tseg (h_objects h') None [1, 0, 2] None"
proof -
  let ?t = "\<langle>\<langle>\<langle>\<rangle>, 1 :: nat, \<langle>\<rangle>\<rangle>, 0, \<langle>\<langle>\<rangle>, 2, \<langle>\<rangle>\<rangle>\<rangle>"
  have "tree_at (h_objects sample_tree) (Some 0) ?t None" by (simp add: sample_tree_def)
  moreover have "distinct (inorder ?t)" and "inorder ?t = [1, 0, 2]" by simp_all
  ultimately show ?thesis using tree_to_dll [of sample_tree "Some 0" ?t] by fastforce
qed

end
