(* ===== verification/Tables.thy ===== *)
theory Tables
  imports Cpp_Prelude
begin

text \<open>
  The tables of the dynamic programs (\<open>std::vector<int>\<close> and \<open>std::vector<std::vector<int>>\<close>) and the
  loops that fill them, shared by \<open>Dp\<close> and \<open>String_Problems\<close>. A loop that fills a table is a fold
  over the index range of the \<open>for\<close> statement; \<open>fill_row\<close> and \<open>fill_table\<close> say that it computes
  the recursive function \<open>f\<close> that each assignment follows.
\<close>

section \<open>Two-dimensional tables\<close>

type_synonym 'a table = "'a list list"

definition new_table :: "nat \<Rightarrow> nat \<Rightarrow> 'a \<Rightarrow> 'a table" where
  "new_table m n x = replicate m (replicate n x)"

definition tab_get :: "'a table \<Rightarrow> nat \<Rightarrow> nat \<Rightarrow> 'a" where
  "tab_get dp i j = dp ! i ! j"

definition tab_set :: "nat \<Rightarrow> nat \<Rightarrow> 'a \<Rightarrow> 'a table \<Rightarrow> 'a table" where
  "tab_set i j x dp = dp[i := (dp ! i)[j := x]]"

definition tab_dim :: "nat \<Rightarrow> nat \<Rightarrow> 'a table \<Rightarrow> bool" where
  "tab_dim m n dp \<longleftrightarrow> length dp = m \<and> (\<forall>i<m. length (dp ! i) = n)"

lemma tab_dim_new [simp]: "tab_dim m n (new_table m n x)"
  by (simp add: tab_dim_def new_table_def)

lemma tab_dim_set [simp]: "tab_dim m n dp \<Longrightarrow> tab_dim m n (tab_set i j x dp)"
  by (cases "i < m") (auto simp: tab_dim_def tab_set_def nth_list_update)

lemma tab_get_new [simp]: "i < m \<Longrightarrow> j < n \<Longrightarrow> tab_get (new_table m n x) i j = x"
  by (simp add: tab_get_def new_table_def)

lemma tab_get_set [simp]:
  "tab_dim m n dp \<Longrightarrow> i < m \<Longrightarrow> j < n \<Longrightarrow>
    tab_get (tab_set i j x dp) k l = (if k = i \<and> l = j then x else tab_get dp k l)"
  by (auto simp: tab_dim_def tab_get_def tab_set_def nth_list_update)

text \<open>A read outside a vector has no meaning.\<close>

definition elem_at :: "'a list \<Rightarrow> nat \<Rightarrow> 'a option" where
  "elem_at xs i = (if i < length xs then Some (xs ! i) else None)"

definition elem_at_int :: "'a list \<Rightarrow> int \<Rightarrow> 'a option" where
  "elem_at_int xs i = (if 0 \<le> i then elem_at xs (nat i) else None)"

section \<open>Loops\<close>

text \<open>
  The loops \<open>for (i = a; i < b; i++)\<close> and \<open>for (i = b - 1; i >= a; i--)\<close> with an invariant.
\<close>

lemma loop_up:
  assumes "P a s" and "\<And>i s. a \<le> i \<Longrightarrow> i < b \<Longrightarrow> P i s \<Longrightarrow> P (Suc i) (g i s)" and "a \<le> b"
  shows "P b (fold g [a..<b] s)"
proof -
  have "P c (fold g [a..<c] s)" if "a \<le> c" "c \<le> b" for c
    using that by (induction c rule: dec_induct) (auto simp: assms)
  then show ?thesis using assms(3) by simp
qed

lemma loop_down:
  assumes "P b s" and "\<And>i s. a \<le> i \<Longrightarrow> i < b \<Longrightarrow> P (Suc i) s \<Longrightarrow> P i (g i s)" and "a \<le> b"
  shows "P a (fold g (rev [a..<b]) s)"
proof -
  have "P c (fold g (rev [c..<b]) s)" if "c \<le> b" "a \<le> c" for c
    using that
  proof (induction c rule: inc_induct)
    case base
    then show ?case using assms(1) by simp
  next
    case (step c)
    then have "[c..<b] = c # [Suc c..<b]" by (simp add: upt_conv_Cons)
    then show ?case using step assms(2) by simp
  qed
  then show ?thesis using assms(3) by simp
qed

section \<open>Filling\<close>

lemma fill_row:
  assumes "\<And>dp i. a \<le> i \<Longrightarrow> i < b \<Longrightarrow> length dp = n \<Longrightarrow> \<forall>k<i. dp ! k = f k \<Longrightarrow> g i dp = dp[i := f i]"
    and "length dp = n" and "b \<le> n" and "\<forall>k<a. dp ! k = f k" and "a \<le> b"
  shows "length (fold g [a..<b] dp) = n \<and> (\<forall>k<b. fold g [a..<b] dp ! k = f k)"
proof (rule loop_up [where P = "\<lambda>i dp. length dp = n \<and> (\<forall>k<i. dp ! k = f k)"])
  fix i dp
  assume "a \<le> i" "i < b" and "length dp = n \<and> (\<forall>k<i. dp ! k = f k)"
  then show "length (g i dp) = n \<and> (\<forall>k<Suc i. g i dp ! k = f k)"
    using assms(1) [of i dp] assms(3) by (auto simp: less_Suc_eq)
qed (use assms in auto)

definition filled :: "nat \<Rightarrow> (nat \<Rightarrow> nat \<Rightarrow> 'a) \<Rightarrow> nat \<Rightarrow> nat \<Rightarrow> 'a table \<Rightarrow> bool" where
  "filled n f i j dp \<longleftrightarrow> (\<forall>k<i. \<forall>l<n. tab_get dp k l = f k l) \<and> (\<forall>l<j. tab_get dp i l = f i l)"

text \<open>Column 0 to \<open>c - 1\<close> may have been set before the loops.\<close>

lemma fill_table:
  assumes step: "\<And>dp i j. a \<le> i \<Longrightarrow> i < m \<Longrightarrow> c \<le> j \<Longrightarrow> j < n \<Longrightarrow> tab_dim m n dp \<Longrightarrow>
      filled n f i j dp \<Longrightarrow> g i j dp = tab_set i j (f i j) dp"
    and dim: "tab_dim m n dp" and rows: "\<forall>k<a. \<forall>l<n. tab_get dp k l = f k l"
    and cols: "\<forall>k<m. \<forall>l<c. tab_get dp k l = f k l" and "a \<le> m" and "c \<le> n"
  shows "tab_dim m n (fold (\<lambda>i. fold (g i) [c..<n]) [a..<m] dp) \<and>
    (\<forall>k<m. \<forall>l<n. tab_get (fold (\<lambda>i. fold (g i) [c..<n]) [a..<m] dp) k l = f k l)"
proof -
  let ?P = "\<lambda>i dp. tab_dim m n dp \<and> (\<forall>k<i. \<forall>l<n. tab_get dp k l = f k l) \<and>
    (\<forall>k<m. \<forall>l<c. tab_get dp k l = f k l)"
  have "?P m (fold (\<lambda>i. fold (g i) [c..<n]) [a..<m] dp)"
  proof (rule loop_up [where P = ?P])
    fix i dp
    assume i: "a \<le> i" "i < m" and P: "?P i dp"
    let ?R = "\<lambda>j dp. ?P i dp \<and> (\<forall>l<j. tab_get dp i l = f i l)"
    have "?R n (fold (g i) [c..<n] dp)"
    proof (rule loop_up [where P = ?R])
      fix j dp
      assume j: "c \<le> j" "j < n" and R: "?R j dp"
      then have "g i j dp = tab_set i j (f i j) dp"
        using step [OF i j, of dp] by (auto simp: filled_def)
      then show "?R (Suc j) (g i j dp)" using R i j by (auto simp: less_Suc_eq)
    qed (use P i assms in auto)
    then show "?P (Suc i) (fold (g i) [c..<n] dp)" by (auto simp: less_Suc_eq)
  qed (use dim rows cols assms in auto)
  then show ?thesis by blast
qed

section \<open>Borders\<close>

text \<open>The loops that set one row or one column.\<close>

lemma fill_one_row:
  assumes step: "\<And>dp j. a \<le> j \<Longrightarrow> j < n \<Longrightarrow> tab_dim m n dp \<Longrightarrow> \<forall>l<j. tab_get dp i l = f l \<Longrightarrow>
      g j dp = tab_set i j (f j) dp"
    and "tab_dim m n dp" and "i < m" and "\<forall>l<a. tab_get dp i l = f l" and "a \<le> n"
  shows "tab_dim m n (fold g [a..<n] dp) \<and> (\<forall>l<n. tab_get (fold g [a..<n] dp) i l = f l) \<and>
    (\<forall>k l. k \<noteq> i \<longrightarrow> tab_get (fold g [a..<n] dp) k l = tab_get dp k l)"
proof (rule loop_up [where P = "\<lambda>j dp'. tab_dim m n dp' \<and> (\<forall>l<j. tab_get dp' i l = f l) \<and>
    (\<forall>k l. k \<noteq> i \<longrightarrow> tab_get dp' k l = tab_get dp k l)"])
  fix j dp'
  assume j: "a \<le> j" "j < n" and P: "tab_dim m n dp' \<and> (\<forall>l<j. tab_get dp' i l = f l) \<and>
    (\<forall>k l. k \<noteq> i \<longrightarrow> tab_get dp' k l = tab_get dp k l)"
  then have "g j dp' = tab_set i j (f j) dp'" using step by blast
  then show "tab_dim m n (g j dp') \<and> (\<forall>l<Suc j. tab_get (g j dp') i l = f l) \<and>
    (\<forall>k l. k \<noteq> i \<longrightarrow> tab_get (g j dp') k l = tab_get dp k l)"
    using P j assms(3) by (auto simp: less_Suc_eq)
qed (use assms in auto)

lemma fill_one_column:
  assumes step: "\<And>dp i. a \<le> i \<Longrightarrow> i < m \<Longrightarrow> tab_dim m n dp \<Longrightarrow> \<forall>k<i. tab_get dp k j = f k \<Longrightarrow>
      g i dp = tab_set i j (f i) dp"
    and "tab_dim m n dp" and "j < n" and "\<forall>k<a. tab_get dp k j = f k" and "a \<le> m"
  shows "tab_dim m n (fold g [a..<m] dp) \<and> (\<forall>k<m. tab_get (fold g [a..<m] dp) k j = f k) \<and>
    (\<forall>k l. l \<noteq> j \<longrightarrow> tab_get (fold g [a..<m] dp) k l = tab_get dp k l)"
proof (rule loop_up [where P = "\<lambda>i dp'. tab_dim m n dp' \<and> (\<forall>k<i. tab_get dp' k j = f k) \<and>
    (\<forall>k l. l \<noteq> j \<longrightarrow> tab_get dp' k l = tab_get dp k l)"])
  fix i dp'
  assume i: "a \<le> i" "i < m" and P: "tab_dim m n dp' \<and> (\<forall>k<i. tab_get dp' k j = f k) \<and>
    (\<forall>k l. l \<noteq> j \<longrightarrow> tab_get dp' k l = tab_get dp k l)"
  then have "g i dp' = tab_set i j (f i) dp'" using step by blast
  then show "tab_dim m n (g i dp') \<and> (\<forall>k<Suc i. tab_get (g i dp') k j = f k) \<and>
    (\<forall>k l. l \<noteq> j \<longrightarrow> tab_get (g i dp') k l = tab_get dp k l)"
    using P i assms(3) by (auto simp: less_Suc_eq)
qed (use assms in auto)

end
