(* ===== verification/Subsequences.thy ===== *)
theory Subsequences
  imports Tables "HOL-Library.Sublist"
begin

text \<open>
  Common subsequences and supersequences of two lists, the specification of the edit programs in
  \<open>Dp\<close> (\<open>min_operations_strings\<close>) and \<open>String_Problems\<close> (\<open>shortest_common_subseq\<close>), with the
  recursion both tables follow.
\<close>

section \<open>Reversal\<close>

lemma subseq_rev_mono: "subseq xs ys \<Longrightarrow> subseq (rev xs) (rev ys)"
  by (induction rule: list_emb.induct) (auto intro: subseq_rev_drop_many)

lemma subseq_rev: "subseq (rev xs) (rev ys) \<longleftrightarrow> subseq xs ys"
  using subseq_rev_mono [of xs ys] subseq_rev_mono [of "rev xs" "rev ys"] by auto

lemma rev_take_Suc: "i < length xs \<Longrightarrow> rev (take (Suc i) xs) = xs ! i # rev (take i xs)"
  by (simp add: take_Suc_conv_app_nth)

section \<open>The longest common subsequence\<close>

fun lcs_length :: "'a list \<Rightarrow> 'a list \<Rightarrow> int" where
  "lcs_length [] ys = 0"
| "lcs_length xs [] = 0"
| "lcs_length (x # xs) (y # ys) =
     (if x = y then 1 + lcs_length xs ys else max (lcs_length xs (y # ys)) (lcs_length (x # xs) ys))"

lemma lcs_attained: "\<exists>us. subseq us xs \<and> subseq us ys \<and> int (length us) = lcs_length xs ys"
proof (induction xs ys rule: lcs_length.induct)
  case (3 x xs y ys)
  show ?case
  proof (cases "x = y")
    case True
    then obtain us where "subseq us xs" "subseq us ys" "int (length us) = lcs_length xs ys"
      using "3.IH"(1) by blast
    then show ?thesis using True by (intro exI [of _ "x # us"]) simp
  next
    case False
    then obtain us vs where "subseq us xs" "subseq us (y # ys)" "int (length us) = lcs_length xs (y # ys)"
        "subseq vs (x # xs)" "subseq vs ys" "int (length vs) = lcs_length (x # xs) ys"
      using "3.IH"(2,3) by blast
    then show ?thesis using False by (auto simp: max_def intro: list_emb_Cons)
  qed
qed (auto intro: exI [of _ "[]"])

lemma lcs_upper: "subseq us xs \<Longrightarrow> subseq us ys \<Longrightarrow> int (length us) \<le> lcs_length xs ys"
proof (induction xs ys arbitrary: us rule: lcs_length.induct)
  case (3 x xs y ys)
  show ?case
  proof (cases us)
    case Nil
    have "0 \<le> lcs_length (x # xs) (y # ys)" using lcs_attained [of "x # xs" "y # ys"] by fastforce
    then show ?thesis using Nil by simp
  next
    case (Cons u vs)
    show ?thesis
    proof (cases "x = y")
      case True
      have "subseq vs xs" "subseq vs ys" using "3.prems" Cons by (auto dest: subseq_Cons' split: if_splits)
      from "3.IH"(1) [OF True this] show ?thesis using Cons True by simp
    next
      case False
      then show ?thesis
        using "3.IH"(2,3) [OF False, of us] "3.prems" Cons by (cases "u = x") (auto simp: le_max_iff_disj)
    qed
  qed
qed auto

definition longest_common :: "'a list \<Rightarrow> 'a list \<Rightarrow> int" where
  "longest_common xs ys = Max (int ` length ` (set (subseqs xs) \<inter> set (subseqs ys)))"

lemma longest_common_lcs: "longest_common xs ys = lcs_length xs ys"
  unfolding longest_common_def
proof (rule Max_eqI)
  show "lcs_length xs ys \<in> int ` length ` (set (subseqs xs) \<inter> set (subseqs ys))"
    using lcs_attained [of xs ys] by (metis IntI image_eqI in_set_subseqs)
qed (auto intro: lcs_upper)

lemma longest_common_rev: "longest_common (rev xs) (rev ys) = longest_common xs ys"
proof -
  have set: "set (subseqs (rev zs)) = rev ` set (subseqs zs)" for zs :: "'a list"
  proof (intro set_eqI iffI)
    fix us assume "us \<in> set (subseqs (rev zs))"
    then have "rev us \<in> set (subseqs zs)" using subseq_rev [of "rev us" zs] by simp
    then show "us \<in> rev ` set (subseqs zs)" by (metis image_eqI rev_rev_ident)
  qed (auto simp: subseq_rev)
  have "rev ` A \<inter> rev ` B = rev ` (A \<inter> B)" for A B :: "'a list set" by (auto simp: image_iff)
  then show ?thesis unfolding longest_common_def set by (simp add: image_image)
qed

section \<open>The shortest common supersequence\<close>

lemma supersequence_lower:
  "subseq xs us \<Longrightarrow> subseq ys us \<Longrightarrow> int (length xs) + int (length ys) - lcs_length xs ys \<le> int (length us)"
proof (induction us arbitrary: xs ys)
  case (Cons u us)
  show ?case
  proof (cases xs)
    case Nil
    then show ?thesis using Cons.prems(2) list_emb_length by fastforce
  next
    case xs: (Cons x xs')
    show ?thesis
    proof (cases ys)
      case Nil
      then have "lcs_length xs ys = 0" by (cases xs) auto
      then show ?thesis using Cons.prems(1) Nil list_emb_length by fastforce
    next
      case ys: (Cons y ys')
      have skip: "lcs_length xs' ys \<le> lcs_length xs ys" "lcs_length xs ys' \<le> lcs_length xs ys"
        using lcs_attained [of xs' ys] lcs_attained [of xs ys'] lcs_upper [of _ xs ys] xs ys
        by (metis list_emb_Cons)+
      show ?thesis
      proof (cases "u = x")
        case True
        then have x: "subseq xs' us" using Cons.prems(1) xs by simp
        show ?thesis
        proof (cases "u = y")
          case True
          then have "subseq ys' us" using Cons.prems(2) ys by simp
          from Cons.IH [OF x this] show ?thesis using xs ys True \<open>u = x\<close> by simp
        next
          case False
          then have "subseq ys us" using Cons.prems(2) ys by simp
          from Cons.IH [OF x this] show ?thesis using xs skip by simp
        qed
      next
        case False
        then have x: "subseq xs us" using Cons.prems(1) xs by simp
        show ?thesis
        proof (cases "u = y")
          case True
          then have "subseq ys' us" using Cons.prems(2) ys by simp
          from Cons.IH [OF x this] show ?thesis using ys skip by simp
        next
          case False
          then have "subseq ys us" using Cons.prems(2) ys by simp
          from Cons.IH [OF x this] show ?thesis by simp
        qed
      qed
    qed
  qed
next
  case Nil
  then have "xs = []" "ys = []" by (simp_all add: list_emb_Nil2)
  then show ?case by simp
qed

lemma supersequence_attained:
  "\<exists>us. subseq xs us \<and> subseq ys us \<and>
    int (length us) = int (length xs) + int (length ys) - lcs_length xs ys"
proof (induction xs ys rule: lcs_length.induct)
  case (3 x xs y ys)
  show ?case
  proof (cases "x = y")
    case True
    then obtain us where "subseq xs us" "subseq ys us"
        "int (length us) = int (length xs) + int (length ys) - lcs_length xs ys" using "3.IH"(1) by blast
    then show ?thesis using True by (intro exI [of _ "x # us"]) simp
  next
    case False
    then obtain us vs where
      "subseq xs us" "subseq (y # ys) us"
      "int (length us) = int (length xs) + int (length (y # ys)) - lcs_length xs (y # ys)"
      "subseq (x # xs) vs" "subseq ys vs"
      "int (length vs) = int (length (x # xs)) + int (length ys) - lcs_length (x # xs) ys"
      using "3.IH"(2,3) by blast
    then show ?thesis using False
      by (cases "lcs_length xs (y # ys) \<ge> lcs_length (x # xs) ys")
        (force intro: exI [of _ "x # us"] exI [of _ "y # vs"] list_emb_Cons)+
  qed
next
  case (1 ys)
  show ?case by (intro exI [of _ ys]) simp
next
  case (2 x xs)
  show ?case by (intro exI [of _ "x # xs"]) simp
qed

text \<open>Both recursions on the prefixes that the tables are indexed by.\<close>

definition lcs_prefix :: "'a list \<Rightarrow> 'a list \<Rightarrow> nat \<Rightarrow> nat \<Rightarrow> int" where
  "lcs_prefix s t i j = lcs_length (rev (take i s)) (rev (take j t))"

lemma lcs_length_Nil [simp]: "lcs_length xs [] = 0"
  by (cases xs) auto

lemma lcs_prefix_0 [simp]: "lcs_prefix s t 0 j = 0" "lcs_prefix s t i 0 = 0"
  by (simp_all add: lcs_prefix_def)

lemma lcs_prefix_Suc:
  "i < length s \<Longrightarrow> j < length t \<Longrightarrow> lcs_prefix s t (Suc i) (Suc j) =
    (if s ! i = t ! j then 1 + lcs_prefix s t i j
     else max (lcs_prefix s t i (Suc j)) (lcs_prefix s t (Suc i) j))"
  by (simp add: lcs_prefix_def rev_take_Suc)

lemma lcs_prefix_all: "lcs_prefix s t (length s) (length t) = longest_common s t"
  by (simp add: lcs_prefix_def longest_common_lcs [symmetric] longest_common_rev)

end
