(* ===== verification/Dp.thy ===== *)
theory Dp
  imports Subsequences "HOL-Library.Product_Lexorder" "HOL-Library.Signed_Division"
begin

text \<open>
  \<open>algorithms/dp/dp.cpp\<close>: the dynamic programs and their program. Every array is a list filled by
  the source's loops. Sizes, capacities and weights are natural numbers (a negative one makes the
  source allocate or index out of range), values are integers: the model agrees with the code while
  no intermediate value leaves the range of \<open>int\<close> (\<open>int64_t\<close> in \<open>number_blast\<close> and \<open>max_taxi_earnings\<close>).
  An input on which the source reads or writes outside an array has the result
  \<open>Inl Undefined_Behaviour\<close>.
\<close>

section \<open>The problems\<close>

datatype DP_PROBELMS =
    MINIMIZE_TO_REACH_K | TRANSFORM_STRINGS | KNAPSACK01 | NUMBER_BLAST | PERFECR_SQAURE
  | LONGEST_PALINDROMIC_SUBSTRING | MAXIMUM_EARNINGS_TAXI | MIN_ARRAY_SUM
  | PARTITION_SET | MAXIMUM_PROFIT_JOB_SCHEDULING | MAX_EVENTS_ATTEND_II | MIN_FALLING_PATH_SUM_II

definition min_operations_reach_k :: "nat \<Rightarrow> int" where
  "min_operations_reach_k k =
     fold (\<lambda>i dp.
       let dp = dp[i := dp ! (i - 1) + 1] in
       if i mod 2 = 0 then dp[i := min (dp ! i) (dp ! (i div 2) + 1)] else dp)
     [1..<k + 1] (replicate (k + 1) 0) ! k"

definition lcs_step :: "string \<Rightarrow> string \<Rightarrow> nat \<Rightarrow> nat \<Rightarrow> int table \<Rightarrow> int table" where
  "lcs_step sv1 sv2 i j dp =
     (if sv1 ! (i - 1) = sv2 ! (j - 1) then tab_set i j (1 + tab_get dp (i - 1) (j - 1)) dp
      else tab_set i j (max (tab_get dp (i - 1) j) (tab_get dp i (j - 1))) dp)"

definition lcs :: "string \<Rightarrow> string \<Rightarrow> int" where
  "lcs sv1 sv2 =
     (let m = length sv1; n = length sv2 in
      tab_get (fold (\<lambda>i. fold (lcs_step sv1 sv2 i) [1..<n + 1]) [1..<m + 1]
        (new_table (m + 1) (n + 1) 0)) m n)"

definition min_operations_strings :: "string \<Rightarrow> string \<Rightarrow> int" where
  "min_operations_strings s t =
     (let len = lcs s t; del = int (length s) - len; ins = int (length t) - len in del + ins)"

text \<open>The knapsacks read \<open>v[i - 1]\<close> for every weight: \<open>v\<close> must be at least as long as \<open>wt\<close>.\<close>

definition knapsack_step :: "int list \<Rightarrow> nat list \<Rightarrow> nat \<Rightarrow> nat \<Rightarrow> int table \<Rightarrow> int table" where
  "knapsack_step v wt i j dp =
     (if i = 0 \<or> j = 0 then tab_set i j 0 dp
      else
        let take = (if wt ! (i - 1) \<le> j then tab_get dp (i - 1) (j - wt ! (i - 1)) + v ! (i - 1) else 0);
            pass = tab_get dp (i - 1) j
        in tab_set i j (max take pass) dp)"

definition knapsack_2d :: "nat \<Rightarrow> int list \<Rightarrow> nat list \<Rightarrow> int result" where
  "knapsack_2d W v wt =
     (let n = length wt in
      if length v < n then Inl Undefined_Behaviour
      else Inr (tab_get (fold (\<lambda>i. fold (knapsack_step v wt i) [0..<W + 1]) [0..<n + 1]
        (new_table (n + 1) (W + 1) 0)) n W))"

definition knapsack_opt :: "nat \<Rightarrow> int list \<Rightarrow> nat list \<Rightarrow> int result" where
  "knapsack_opt W v wt =
     (if length v < length wt then Inl Undefined_Behaviour
      else Inr (fold (\<lambda>i. fold (\<lambda>j dp. dp[j := max (dp ! j) (dp ! (j - wt ! (i - 1)) + v ! (i - 1))])
        (rev [wt ! (i - 1)..<W + 1])) [1..<length wt + 1] (replicate (W + 1) 0) ! W))"

definition number_blast_prefix :: "int list \<Rightarrow> int" where
  "number_blast_prefix A =
     (let n = length A in
      fold (\<lambda>i dp.
        fold (\<lambda>j dp. dp[i := max (dp ! i) (dp ! (j - 1) + A ! (j - 1) * A ! (i - 1))]) [1..<i]
          (dp[i := dp ! (i - 1)]))
      [1..<n + 1] (replicate (n + 1) 0) ! n)"

definition number_blast_suffix :: "int list \<Rightarrow> int" where
  "number_blast_suffix A =
     (let n = length A in
      fold (\<lambda>i dp.
        let best = fold (\<lambda>j best. max best (dp ! (j + 1) + A ! i * A ! j)) [i + 1..<n] 0;
            best =
              (if i + 1 < n
               then fold (\<lambda>j best. max best (A ! (i + 1) * A ! j + dp ! (j + 1))) [i + 2..<n] best
               else best)
        in dp[i := best])
      (rev [0..<n]) (replicate (n + 1) 0) ! 0)"

text \<open>\<open>for (int x=1;x*x<=i;x++)\<close> runs over the \<open>x\<close> up to the integer root.\<close>

definition roots :: "nat \<Rightarrow> nat list" where
  "roots i = takeWhile (\<lambda>x. x * x \<le> i) [1..<i + 1]"

definition min_square_step :: "nat \<Rightarrow> int list \<Rightarrow> int list" where
  "min_square_step i dp =
     fold (\<lambda>x dp. dp[i := min (dp ! i) (dp ! (i - x * x) + 1)]) (roots i) (dp[i := int i])"

text \<open>\<open>dp[1]=1\<close> is outside the array for \<open>n = 0\<close>.\<close>

definition min_square :: "nat \<Rightarrow> int result" where
  "min_square n =
     (if n = 0 then Inl Undefined_Behaviour
      else Inr (fold min_square_step [2..<n + 1] ((replicate (n + 1) 0)[0 := 0, 1 := 1]) ! n))"

definition square_push :: "nat \<Rightarrow> int \<Rightarrow> nat \<Rightarrow> (nat \<times> int) list \<times> bool list \<Rightarrow> (nat \<times> int) list \<times> bool list" where
  "square_push v step x = (\<lambda>(q, vis).
     let y = v - x * x in if \<not> vis ! y then (q @ [(y, step + 1)], vis[y := True]) else (q, vis))"

partial_function (option) square_loop :: "(nat \<times> int) list \<Rightarrow> bool list \<Rightarrow> int option" where
  "square_loop q vis =
     (case q of
        [] \<Rightarrow> Some (- 1)
      | (v, step) # q' \<Rightarrow>
          if v = 0 then Some step
          else case fold (square_push v step) (roots v) (q', vis) of (q'', vis') \<Rightarrow> square_loop q'' vis')"

definition min_square_bfs :: "nat \<Rightarrow> int option" where
  "min_square_bfs n = square_loop [(n, 0)] ((replicate (n + 1) False)[n := True])"

section \<open>Palindromes\<close>

text \<open>\<open>s.substr(pos, count)\<close> for a position inside the string; \<open>p\<close> is the pair of start and length.\<close>

definition substr :: "string \<Rightarrow> nat \<Rightarrow> nat \<Rightarrow> string" where
  "substr s pos cnt = take cnt (drop pos s)"

definition pal_pairs :: "string \<Rightarrow> nat \<Rightarrow> bool table \<times> nat \<times> nat \<Rightarrow> bool table \<times> nat \<times> nat" where
  "pal_pairs s i = (\<lambda>(dp, p).
     if s ! i = s ! (i + 1)
     then (tab_set i (i + 1) True dp, if snd p = 1 then (i, 2) else p) else (dp, p))"

definition pal_step :: "string \<Rightarrow> nat \<Rightarrow> nat \<Rightarrow> bool table \<times> nat \<times> nat \<Rightarrow> bool table \<times> nat \<times> nat" where
  "pal_step s len i = (\<lambda>(dp, p).
     let j = i + len - 1 in
     if s ! i = s ! j \<and> tab_get dp (i + 1) (j - 1)
     then (tab_set i j True dp, if len > snd p then (i, len) else p) else (dp, p))"

definition longest_pal_subs_dp :: "string \<Rightarrow> string" where
  "longest_pal_subs_dp s =
     (let n = length s;
          dp = fold (\<lambda>i dp. tab_set i i True dp) [0..<n] (new_table n n False);
          st = fold (pal_pairs s) [0..<n - 1] (dp, 0, 1);
          st = fold (\<lambda>len. fold (pal_step s len) [0..<n - len + 1]) [3..<n + 1] st
      in substr s (fst (snd st)) (snd (snd st)))"

function pal_expand :: "string \<Rightarrow> int \<Rightarrow> int \<Rightarrow> int \<times> int \<Rightarrow> int \<times> int" where
  "pal_expand s l h p =
     (if 0 \<le> l \<and> h < int (length s) \<and> s ! nat l = s ! nat h
      then let len = h - l + 1 in pal_expand s (l - 1) (h + 1) (if snd p < len then (l, len) else p)
      else p)"
  by pat_completeness auto
termination by (relation "measure (\<lambda>(s, l, h, p). nat (l + 1))") auto

declare pal_expand.simps [simp del]

definition longest_pal_subs_center :: "string \<Rightarrow> string" where
  "longest_pal_subs_center s =
     (let p = fold (\<lambda>i. fold (\<lambda>j p. pal_expand s (int i) (int i + int j) p) [0..<2]) [0..<length s] (0, 1)
      in substr s (nat (fst p)) (nat (snd p)))"

section \<open>Partition, scheduling and grids\<close>

text \<open>
  \<open>partition_set\<close>: the sum is the size of the table, the elements are not negative (a negative one
  indexes outside the table).
\<close>

definition partition_set :: "nat list \<Rightarrow> int" where
  "partition_set arr =
     (let S = sum_list arr;
          dp = fold (\<lambda>x. fold (\<lambda>sum dp. dp[sum := dp ! sum \<or> dp ! (sum - x)]) (rev [x..<S + 1]))
                 arr ((replicate (S + 1) False)[0 := True])
      in fold (\<lambda>sum mn. if dp ! sum then min mn (\<bar>int S - int sum\<bar> - int sum) else mn)
           [0..<S div 2 + 1] (int S))"

text \<open>
  The schedulers sort triples lexicographically and look up with \<open>std::lower_bound\<close> and
  \<open>std::upper_bound\<close>, which on a range sorted by the compared component return its first position
  that does not satisfy the predicate. They read \<open>startTime\<close> and \<open>endTime\<close> for every profit.
\<close>

type_synonym job = "int \<times> int \<times> int"

definition partition_point :: "('a \<Rightarrow> bool) \<Rightarrow> 'a list \<Rightarrow> nat" where
  "partition_point P xs = length (takeWhile P xs)"

definition zip_jobs :: "int list \<Rightarrow> int list \<Rightarrow> int list \<Rightarrow> job list" where
  "zip_jobs xs ys zs = map (\<lambda>i. (xs ! i, ys ! i, zs ! i)) [0..<length zs]"

function job_dfs :: "job list \<Rightarrow> nat \<Rightarrow> int list \<Rightarrow> int \<times> int list" where
  "job_dfs jobs i f =
     (if length jobs \<le> i then (0, f)
      else if f ! i \<noteq> 0 then (f ! i, f)
      else case jobs ! i of (_, e, p) \<Rightarrow>
        let j = i + 1 + partition_point (\<lambda>l. fst l < e) (drop (i + 1) jobs) in
        case job_dfs jobs (i + 1) f of (a, f) \<Rightarrow>
        case job_dfs jobs j f of (b, f) \<Rightarrow>
          let ans = max a (p + b) in (ans, f[i := ans]))"
  by pat_completeness auto
termination by (relation "measure (\<lambda>(jobs, i, f). length jobs - i)") auto

definition job_scheduling_v1 :: "int list \<Rightarrow> int list \<Rightarrow> int list \<Rightarrow> int result" where
  "job_scheduling_v1 startTime endTime profit =
     (let n = length profit in
      if length startTime < n \<or> length endTime < n then Inl Undefined_Behaviour
      else Inr (fst (job_dfs (sort (zip_jobs startTime endTime profit)) 0 (replicate n 0))))"

definition job_scheduling_v2 :: "int list \<Rightarrow> int list \<Rightarrow> int list \<Rightarrow> int result" where
  "job_scheduling_v2 startTime endTime profit =
     (let n = length profit in
      if length startTime < n \<or> length endTime < n then Inl Undefined_Behaviour
      else
        let jobs = sort (zip_jobs endTime startTime profit) in
        Inr (fold (\<lambda>i dp.
          case jobs ! i of (_, s, p) \<Rightarrow>
            let j = partition_point (\<lambda>q. fst q \<le> s) (take i jobs)
            in dp[i + 1 := max (dp ! i) (p + dp ! j)])
        [0..<n] (replicate (n + 1) 0) ! n))"

text \<open>A ride is \<open>[from, to, tip]\<close>; \<open>max_taxi_earnings\<close> overwrites its parameter \<open>n\<close>.\<close>

definition triple_of :: "int list \<Rightarrow> job result" where
  "triple_of r = (case r of a # b # c # _ \<Rightarrow> Inr (b, a, c) | _ \<Rightarrow> Inl Undefined_Behaviour)"

fun all_triples :: "int list list \<Rightarrow> job list result" where
  "all_triples [] = Inr []"
| "all_triples (r # rs) =
     bind_result (triple_of r) (\<lambda>t. bind_result (all_triples rs) (\<lambda>ts. Inr (t # ts)))"

definition max_taxi_earnings :: "nat \<Rightarrow> int list list \<Rightarrow> int result" where
  "max_taxi_earnings n rides =
     bind_result (all_triples rides) (\<lambda>e.
       let n = length rides; e = sort e in
       Inr (fold (\<lambda>i dp.
         case e ! i of (en, s, v) \<Rightarrow>
           let j = partition_point (\<lambda>p. fst p \<le> s) (take i e)
           in dp[i + 1 := max (dp ! i) (en - s + v + dp ! j)])
       [0..<n] (replicate (n + 1) 0) ! n))"

definition max_events2 :: "int list list \<Rightarrow> nat \<Rightarrow> int result" where
  "max_events2 events k =
     bind_result (all_triples events) (\<lambda>e.
       let n = length events; e = sort e in
       Inr (tab_get (fold (\<lambda>i dp.
         case e ! i of (en, s, v) \<Rightarrow>
           let p = partition_point (\<lambda>q. fst q < s) (take i e)
           in fold (\<lambda>j dp. tab_set (i + 1) (j + 1)
                (max (tab_get dp i (j + 1)) (v + tab_get dp p j)) dp) [0..<k] dp)
       [0..<n] (new_table (n + 1) (k + 1) 0)) n k))"

text \<open>
  \<open>min_falling_path_sum\<close> takes a square grid; a row shorter than the grid is high is read outside,
  and the minimum of an empty grid does not exist.
\<close>

definition falling_row :: "nat \<Rightarrow> int list \<Rightarrow> int list \<Rightarrow> int list" where
  "falling_row n row f =
     fold (\<lambda>i g.
       let t = fold (\<lambda>j t. if j \<noteq> i then min t (f ! j) else t) [0..<n] (2 ^ 30)
       in g[i := g ! i + (if t = 2 ^ 30 then 0 else t)]) [0..<n] row"

definition min_falling_path_sum :: "int list list \<Rightarrow> int result" where
  "min_falling_path_sum grid =
     (let n = length grid in
      if n = 0 \<or> (\<exists>row\<in>set grid. length row < n) then Inl Undefined_Behaviour
      else Inr (case fold (falling_row n) grid (replicate n 0) of x # xs \<Rightarrow> fold min xs x))"

text \<open>
  \<open>min_array_sum\<close>: \<open>f[i][j][k]\<close> is the entry \<open>i\<close> of a list of tables; \<open>memset\<close> fills with
  \<open>0x3f3f3f3f\<close>. Division by 2 truncates towards zero.
\<close>

definition array_sum_cell ::
  "int list \<Rightarrow> int \<Rightarrow> nat \<Rightarrow> nat \<Rightarrow> nat \<Rightarrow> int table list \<Rightarrow> int table list" where
  "array_sum_cell a d i j k f =
     (let x = a ! (i - 1); prev = tab_get (f ! (i - 1));
          c = prev j k + x;
          c = (if j > 0 then min c (prev (j - 1) k + (x + 1) sdiv 2) else c);
          c = (if k > 0 \<and> x \<ge> d then min c (prev j (k - 1) + (x - d)) else c);
          y = (x + 1) sdiv 2;
          c = (if j > 0 \<and> k > 0 \<and> y \<ge> d then min c (prev (j - 1) (k - 1) + (y - d)) else c);
          c = (if j > 0 \<and> k > 0 \<and> x \<ge> d then min c (prev (j - 1) (k - 1) + (x - d + 1) sdiv 2) else c)
      in f[i := tab_set j k c (f ! i)])"

definition min_array_sum :: "int list \<Rightarrow> int \<Rightarrow> nat \<Rightarrow> nat \<Rightarrow> int" where
  "min_array_sum a d op1 op2 =
     (let n = length a;
          f = replicate (n + 1) (new_table (op1 + 1) (op2 + 1) 0x3f3f3f3f);
          f = f[0 := tab_set 0 0 0 (f ! 0)];
          f = fold (\<lambda>i. fold (\<lambda>j. fold (array_sum_cell a d i j) [0..<op2 + 1]) [0..<op1 + 1]) [1..<n + 1] f
      in fold (\<lambda>j. fold (\<lambda>k ans. min ans (tab_get (f ! n) j k)) [0..<op2 + 1]) [0..<op1 + 1] 1000000000)"

section \<open>The program\<close>

fun dp_problem :: "DP_PROBELMS \<Rightarrow> string result option" where
  "dp_problem TRANSFORM_STRINGS =
     Some (Inr (show_int (min_operations_strings ''AGGTAB'' ''GXTXAYB'')))"
| "dp_problem MINIMIZE_TO_REACH_K = Some (Inr (line_out (show_int (min_operations_reach_k 12))))"
| "dp_problem KNAPSACK01 =
     Some (bind_result (knapsack_opt 4 [1, 2, 3] [4, 5, 1]) (\<lambda>n. Inr (line_out (show_int n))))"
| "dp_problem NUMBER_BLAST =
     Some (Inr (line_out (show_int (number_blast_suffix [4, 2, 3, 1, 5, 9, 3, 7, 3, 4, 8, 2]))))"
| "dp_problem PERFECR_SQAURE = map_option (\<lambda>n. Inr (line_out (show_int n))) (min_square_bfs 6)"
| "dp_problem LONGEST_PALINDROMIC_SUBSTRING =
     Some (Inr (line_out (longest_pal_subs_center
       ''HYTBCABADEFGHABCDEDCBAGHTFYW1234567887654321ZWETYGDE'')))"
| "dp_problem PARTITION_SET = Some (Inr (line_out (show_int (partition_set [1, 6, 11, 5]))))"
| "dp_problem _ = Some (Inr [])"

definition dp_main :: "string result option" where
  "dp_main = dp_problem PARTITION_SET"

declare square_loop.simps [code]

section \<open>Knapsack\<close>

text \<open>The largest value of a set of the first \<open>n\<close> items whose weights fit into \<open>W\<close>.\<close>

definition knapsack_optimum :: "int list \<Rightarrow> nat list \<Rightarrow> nat \<Rightarrow> nat \<Rightarrow> int" where
  "knapsack_optimum v wt n W = Max {\<Sum>i\<in>S. v ! i | S. S \<subseteq> {..<n} \<and> (\<Sum>i\<in>S. wt ! i) \<le> W}"

fun knapsack_rec :: "int list \<Rightarrow> nat list \<Rightarrow> nat \<Rightarrow> nat \<Rightarrow> int" where
  "knapsack_rec v wt 0 j = 0"
| "knapsack_rec v wt (Suc i) j =
     (if wt ! i \<le> j then max (knapsack_rec v wt i j) (knapsack_rec v wt i (j - wt ! i) + v ! i)
      else knapsack_rec v wt i j)"

lemma knapsack_rec_nonneg: "0 \<le> knapsack_rec v wt i j"
  by (induction i arbitrary: j) (auto simp: le_max_iff_disj)

lemma knapsack_rec_attained:
  "\<exists>S\<subseteq>{..<n}. (\<Sum>i\<in>S. wt ! i) \<le> W \<and> (\<Sum>i\<in>S. v ! i) = knapsack_rec v wt n W"
proof (induction n arbitrary: W)
  case (Suc n)
  obtain S where S: "S \<subseteq> {..<n}" "(\<Sum>i\<in>S. wt ! i) \<le> W" "(\<Sum>i\<in>S. v ! i) = knapsack_rec v wt n W"
    using Suc.IH [of W] by blast
  obtain T where T: "T \<subseteq> {..<n}" "(\<Sum>i\<in>T. wt ! i) \<le> W - wt ! n"
      "(\<Sum>i\<in>T. v ! i) = knapsack_rec v wt n (W - wt ! n)"
    using Suc.IH [of "W - wt ! n"] by blast
  show ?case
  proof (cases "wt ! n \<le> W \<and> knapsack_rec v wt n W \<le> knapsack_rec v wt n (W - wt ! n) + v ! n")
    case True
    have "finite T" "n \<notin> T" using T(1) finite_subset [of T "{..<n}"] by auto
    then show ?thesis using T True
      by (intro exI [of _ "insert n T"]) (auto simp: max_def lessThan_Suc)
  next
    case False
    then show ?thesis using S by (intro exI [of _ S]) (auto simp: max_def)
  qed
qed (intro exI [of _ "{}"], simp)

lemma knapsack_rec_upper:
  "S \<subseteq> {..<n} \<Longrightarrow> (\<Sum>i\<in>S. wt ! i) \<le> W \<Longrightarrow> (\<Sum>i\<in>S. v ! i) \<le> knapsack_rec v wt n W"
proof (induction n arbitrary: S W)
  case (Suc n)
  show ?case
  proof (cases "n \<in> S")
    case False
    then have "S \<subseteq> {..<n}" using Suc.prems(1) by (auto simp: lessThan_Suc)
    from Suc.IH [OF this Suc.prems(2)] show ?thesis by (simp add: max_def)
  next
    case True
    let ?T = "S - {n}"
    have fin: "finite S" using Suc.prems(1) finite_subset by blast
    have T: "?T \<subseteq> {..<n}" using Suc.prems(1) by (auto simp: lessThan_Suc)
    have w: "(\<Sum>i\<in>S. wt ! i) = wt ! n + (\<Sum>i\<in>?T. wt ! i)" and
      v: "(\<Sum>i\<in>S. v ! i) = v ! n + (\<Sum>i\<in>?T. v ! i)"
      using fin True by (simp_all add: sum.remove)
    have "(\<Sum>i\<in>?T. wt ! i) \<le> W - wt ! n" using Suc.prems(2) w by simp
    from Suc.IH [OF T this] show ?thesis using v w Suc.prems(2) by (simp add: max_def)
  qed
qed simp

lemma knapsack_rec_optimum: "knapsack_optimum v wt n W = knapsack_rec v wt n W"
  unfolding knapsack_optimum_def
proof (rule Max_eqI)
  have "{\<Sum>i\<in>S. v ! i | S. S \<subseteq> {..<n} \<and> (\<Sum>i\<in>S. wt ! i) \<le> W} \<subseteq> (\<lambda>S. \<Sum>i\<in>S. v ! i) ` Pow {..<n}" by auto
  then show "finite {\<Sum>i\<in>S. v ! i | S. S \<subseteq> {..<n} \<and> (\<Sum>i\<in>S. wt ! i) \<le> W}"
    by (rule finite_subset) simp
  show "knapsack_rec v wt n W \<in> {\<Sum>i\<in>S. v ! i | S. S \<subseteq> {..<n} \<and> (\<Sum>i\<in>S. wt ! i) \<le> W}"
  proof -
    obtain S where "S \<subseteq> {..<n}" "(\<Sum>i\<in>S. wt ! i) \<le> W" "(\<Sum>i\<in>S. v ! i) = knapsack_rec v wt n W"
      using knapsack_rec_attained [of n wt W v] by blast
    then show ?thesis by (intro CollectI exI [of _ S]) simp
  qed
qed (use knapsack_rec_upper in blast)

text \<open>Both tables hold \<open>knapsack_rec\<close>; the two-dimensional one needs positive weights.\<close>

lemma knapsack_2d_rec:
  assumes "length wt \<le> length v" and "0 \<notin> set wt"
  shows "knapsack_2d W v wt = Inr (knapsack_rec v wt (length wt) W)"
proof -
  let ?n = "length wt" and ?f = "knapsack_rec v wt"
  have zero: "?f i 0 = 0" if "i \<le> ?n" for i
    using that
  proof (induction i)
    case (Suc i)
    then have "wt ! i \<noteq> 0" using assms(2) by (metis Suc_le_lessD nth_mem)
    then show ?case using Suc by simp
  qed simp
  have "\<forall>k<?n + 1. \<forall>l<W + 1. tab_get (fold (\<lambda>i. fold (knapsack_step v wt i) [0..<W + 1]) [0..<?n + 1]
      (new_table (?n + 1) (W + 1) 0)) k l = ?f k l"
  proof (rule conjunct2 [OF fill_table])
    fix dp i j
    assume i: "i < ?n + 1" and j: "j < W + 1" and dp: "filled (W + 1) ?f i j dp"
    show "knapsack_step v wt i j dp = tab_set i j (?f i j) dp"
    proof (cases "i = 0 \<or> j = 0")
      case True
      then show ?thesis using zero [of i] i by (auto simp: knapsack_step_def)
    next
      case False
      then obtain k where k: "i = Suc k" by (cases i) auto
      have "tab_get dp k l = ?f k l" if "l < W + 1" for l
        using dp that unfolding filled_def k by blast
      then show ?thesis using False j k knapsack_rec_nonneg [of v wt k j]
        by (simp add: knapsack_step_def max.commute max_def)
    qed
  qed (auto simp: filled_def)
  then show ?thesis using assms(1) by (simp add: knapsack_2d_def Let_def)
qed

lemma knapsack_opt_rec:
  assumes "length wt \<le> length v"
  shows "knapsack_opt W v wt = Inr (knapsack_rec v wt (length wt) W)"
proof -
  let ?f = "knapsack_rec v wt"
  let ?g = "\<lambda>i j dp. dp[j := max (dp ! j) (dp ! (j - wt ! (i - 1)) + v ! (i - 1))]"
  let ?P = "\<lambda>i dp. length dp = W + 1 \<and> (\<forall>l\<le>W. dp ! l = ?f (i - 1) l)"
  have "?P (length wt + 1) (fold (\<lambda>i. fold (?g i) (rev [wt ! (i - 1)..<W + 1])) [1..<length wt + 1]
      (replicate (W + 1) 0))"
  proof (rule loop_up [where P = ?P])
    fix i dp
    assume i: "1 \<le> i" "i < length wt + 1" and P: "?P i dp"
    obtain k where k: "i = Suc k" using i by (cases i) auto
    show "?P (Suc i) (fold (?g i) (rev [wt ! (i - 1)..<W + 1]) dp)"
    proof (cases "wt ! k \<le> W")
      case False
      then show ?thesis using P k by auto
    next
      case True
      let ?Q = "\<lambda>j dp. length dp = W + 1 \<and> (\<forall>l\<le>W. dp ! l = (if j \<le> l then ?f i l else ?f k l))"
      have "?Q (wt ! k) (fold (?g i) (rev [wt ! k..<W + 1]) dp)"
      proof (rule loop_down [where P = ?Q])
        show "?Q (W + 1) dp" using P k by auto
      next
        fix j dp
        assume j: "wt ! k \<le> j" "j < W + 1" and Q: "?Q (Suc j) dp"
        then show "?Q j (?g i j dp)" using k by (auto simp: nth_list_update)
      qed (use True in simp)
      then show ?thesis using k by auto
    qed
  qed (auto simp del: replicate_Suc)
  then show ?thesis using assms by (simp add: knapsack_opt_def)
qed

text \<open>
  C31: Both knapsacks compute the optimum. \<open>knapsack_opt\<close>, whose one row is updated from the right,
  returns the largest value of a set of items that fits; \<open>knapsack_2d\<close> returns the same if no item
  has weight 0 (it sets the entries of capacity 0 to 0, so that a weightless item is lost).
\<close>

theorem knapsack_correct:
  assumes "length wt \<le> length v"
  shows "knapsack_opt W v wt = Inr (knapsack_optimum v wt (length wt) W) \<and>
    (0 \<notin> set wt \<longrightarrow> knapsack_2d W v wt = Inr (knapsack_optimum v wt (length wt) W))"
  using knapsack_opt_rec [OF assms] knapsack_2d_rec [OF assms]
  by (simp add: knapsack_rec_optimum)

theorem knapsack_correct_witness:
  "knapsack_2d 4 [1, 2, 3] [4, 5, 1] = knapsack_opt 4 [1, 2, 3] [4, 5, 1]"
  using knapsack_correct [of "[4, 5, 1]" "[1, 2, 3]" 4] by simp

lemma knapsack_weightless:
  "knapsack_opt 0 [5] [0] = Inr 5 \<and> knapsack_2d 0 [5] [0] = Inr 0"
  by code_simp

section \<open>Editing strings\<close>

lemma lcs_correct: "lcs s t = longest_common s t"
proof -
  let ?m = "length s" and ?n = "length t"
  have "\<forall>k<?m + 1. \<forall>l<?n + 1. tab_get (fold (\<lambda>i. fold (lcs_step s t i) [1..<?n + 1]) [1..<?m + 1]
      (new_table (?m + 1) (?n + 1) 0)) k l = lcs_prefix s t k l"
  proof (rule conjunct2 [OF fill_table])
    fix dp i j
    assume i: "1 \<le> i" "i < ?m + 1" and j: "1 \<le> j" "j < ?n + 1"
      and dp: "filled (?n + 1) (lcs_prefix s t) i j dp"
    obtain k l where kl: "i = Suc k" "j = Suc l" using i j by (cases i; cases j) auto
    have "tab_get dp k l = lcs_prefix s t k l" "tab_get dp k j = lcs_prefix s t k j"
        "tab_get dp i l = lcs_prefix s t i l"
      using dp i j kl by (auto simp: filled_def)
    then show "lcs_step s t i j dp = tab_set i j (lcs_prefix s t i j) dp"
      using lcs_prefix_Suc [of k s l t] i j kl by (simp add: lcs_step_def)
  qed auto
  then show ?thesis by (simp add: lcs_def Let_def lcs_prefix_all)
qed

text \<open>
  \<open>min_operations_strings\<close> keeps a longest common subsequence: it returns the number of
  characters of \<open>s\<close> that are deleted and of \<open>t\<close> that are inserted around it, over all common
  subsequences of the two strings the smallest such number.
\<close>

theorem min_operations_strings_correct:
  "min_operations_strings s t = int (length s) + int (length t) - 2 * longest_common s t \<and>
    min_operations_strings s t =
      Min ((\<lambda>us. (int (length s) - int (length us)) + (int (length t) - int (length us))) `
        (set (subseqs s) \<inter> set (subseqs t)))"
proof -
  let ?A = "set (subseqs s) \<inter> set (subseqs t)"
  let ?c = "\<lambda>us. (int (length s) - int (length us)) + (int (length t) - int (length us))"
  have val: "min_operations_strings s t = int (length s) + int (length t) - 2 * longest_common s t"
    by (simp add: min_operations_strings_def lcs_correct)
  have "Min (?c ` ?A) = int (length s) + int (length t) - 2 * longest_common s t"
  proof (rule Min_eqI)
    show "int (length s) + int (length t) - 2 * longest_common s t \<in> ?c ` ?A"
      using lcs_attained [of s t] unfolding longest_common_lcs by (force simp: image_iff)
    show "int (length s) + int (length t) - 2 * longest_common s t \<le> y" if "y \<in> ?c ` ?A" for y
      using that lcs_upper [of _ s t] unfolding longest_common_lcs by fastforce
  qed simp
  then show ?thesis using val by simp
qed

section \<open>Partition\<close>

fun add_sums :: "nat set \<Rightarrow> nat list \<Rightarrow> nat set" where
  "add_sums A [] = A"
| "add_sums A (x # xs) = add_sums (A \<union> (+) x ` A) xs"

lemma add_sums_subseqs: "add_sums A xs = {s. \<exists>a\<in>A. \<exists>ys\<in>set (subseqs xs). s = a + sum_list ys}"
proof (induction xs arbitrary: A)
  case (Cons x xs)
  have subs: "set (subseqs (x # xs)) = (#) x ` set (subseqs xs) \<union> set (subseqs xs)"
    by (simp add: Let_def)
  have "(\<exists>a\<in>A \<union> (+) x ` A. \<exists>ys\<in>set (subseqs xs). s = a + sum_list ys) \<longleftrightarrow>
      (\<exists>a\<in>A. \<exists>ys\<in>set (subseqs (x # xs)). s = a + sum_list ys)" for s
    unfolding subs bex_Un image_iff by (simp add: bex_simps ac_simps) blast
  then show ?case using Cons.IH by simp
qed simp

lemma partition_row:
  assumes "length dp = S + 1" and "\<forall>s\<le>S. dp ! s \<longleftrightarrow> s \<in> A"
  shows "length (fold (\<lambda>sum dp. dp[sum := dp ! sum \<or> dp ! (sum - x)]) (rev [x..<S + 1]) dp) = S + 1 \<and>
    (\<forall>s\<le>S. fold (\<lambda>sum dp. dp[sum := dp ! sum \<or> dp ! (sum - x)]) (rev [x..<S + 1]) dp ! s \<longleftrightarrow>
      s \<in> A \<union> (+) x ` A)"
proof (cases "x \<le> S")
  case True
  have mem: "s \<in> A \<union> (+) x ` A \<longleftrightarrow> s \<in> A \<or> x \<le> s \<and> s - x \<in> A" for s
    by (force simp: image_iff)
  let ?P = "\<lambda>j dp. length dp = S + 1 \<and>
    (\<forall>s\<le>S. dp ! s \<longleftrightarrow> (if j \<le> s then s \<in> A \<union> (+) x ` A else s \<in> A))"
  have "?P x (fold (\<lambda>sum dp. dp[sum := dp ! sum \<or> dp ! (sum - x)]) (rev [x..<S + 1]) dp)"
  proof (rule loop_down [where P = ?P])
    fix j dp
    assume j: "x \<le> j" "j < S + 1" and P: "?P (Suc j) dp"
    have "dp ! j \<longleftrightarrow> j \<in> A" using P j by auto
    moreover have "dp ! (j - x) \<longleftrightarrow> j - x \<in> A" using P j by auto
    ultimately show "?P j (dp[j := dp ! j \<or> dp ! (j - x)])"
      using P j by (auto simp: nth_list_update mem le_less_Suc_eq simp del: Un_iff)
  qed (use assms True in auto)
  then show ?thesis using mem by (auto simp del: Un_iff)
next
  case False
  then show ?thesis using assms by auto
qed

lemma partition_table:
  assumes "length dp = S + 1" and "\<forall>s\<le>S. dp ! s \<longleftrightarrow> s \<in> A"
  shows "\<forall>s\<le>S. fold (\<lambda>x. fold (\<lambda>sum dp. dp[sum := dp ! sum \<or> dp ! (sum - x)]) (rev [x..<S + 1])) arr dp ! s
    \<longleftrightarrow> s \<in> add_sums A arr"
  using assms
proof (induction arr arbitrary: dp A)
  case (Cons x arr)
  from partition_row [OF Cons.prems, of x] Cons.IH show ?case by simp
qed simp

lemma fold_min_if:
  "fold (\<lambda>s m. if P s then min m (F s) else m) [0..<b] m = Min (insert (m :: int) (F ` {s. s < b \<and> P s}))"
proof (induction b)
  case (Suc b)
  let ?X = "F ` {s. s < b \<and> P s}"
  have "{s. s < Suc b \<and> P s} = (if P b then insert b {s. s < b \<and> P s} else {s. s < b \<and> P s})"
    by (auto simp: less_Suc_eq)
  moreover have "min (Min (insert m ?X)) (F b) = Min (insert m (insert (F b) ?X))"
    by (subst insert_commute, subst (2) Min_insert) (simp_all only: finite_insert finite_imageI finite_Collect_conjI
        finite_Collect_less_nat insert_not_empty min.commute simp_thms)
  ultimately show ?case using Suc by simp
qed simp

lemma subseq_complement:
  "subseq ys xs \<Longrightarrow> \<exists>zs. subseq zs xs \<and> sum_list ys + sum_list zs = (sum_list xs :: nat)"
proof (induction rule: list_emb.induct)
  case (list_emb_Nil xs)
  then show ?case by auto
next
  case (list_emb_Cons xs ys y)
  then obtain zs where "subseq zs ys" "sum_list xs + sum_list zs = sum_list ys" by blast
  then show ?case by (intro exI [of _ "y # zs"]) simp
next
  case (list_emb_Cons2 x y xs ys)
  then show ?case by (auto intro: list_emb.list_emb_Cons)
qed

text \<open>The sums below the half give the same differences as all subsequences.\<close>

lemma half_sums:
  fixes arr :: "nat list"
  defines "A \<equiv> add_sums {0} arr"
  shows "insert (int (sum_list arr)) ((\<lambda>s. \<bar>int (sum_list arr) - int s\<bar> - int s) ` {s \<in> A. 2 * s \<le> sum_list arr}) =
    (\<lambda>ys. \<bar>int (sum_list arr) - 2 * int (sum_list ys)\<bar>) ` set (subseqs arr)"
proof -
  let ?S = "sum_list arr"
  have sums: "s \<in> A \<longleftrightarrow> (\<exists>ys\<in>set (subseqs arr). s = sum_list ys)" for s
    by (simp add: A_def add_sums_subseqs)
  show ?thesis
  proof (intro set_eqI iffI)
    fix d
    assume "d \<in> insert (int ?S) ((\<lambda>s. \<bar>int ?S - int s\<bar> - int s) ` {s \<in> A. 2 * s \<le> ?S})"
    then obtain s where s: "s \<in> A" "2 * s \<le> ?S" "d = \<bar>int ?S - int s\<bar> - int s"
    proof
      assume "d = int ?S"
      moreover have "0 \<in> A" unfolding sums by (intro bexI [of _ "[]"]) auto
      ultimately show thesis using that [of 0] by simp
    qed auto
    then obtain ys where "ys \<in> set (subseqs arr)" "s = sum_list ys" using sums by blast
    then show "d \<in> (\<lambda>ys. \<bar>int ?S - 2 * int (sum_list ys)\<bar>) ` set (subseqs arr)"
      using s by (intro image_eqI [of _ _ ys]) auto
  next
    fix d
    assume "d \<in> (\<lambda>ys. \<bar>int ?S - 2 * int (sum_list ys)\<bar>) ` set (subseqs arr)"
    then obtain ys where ys: "subseq ys arr" "d = \<bar>int ?S - 2 * int (sum_list ys)\<bar>" by auto
    obtain zs where zs: "subseq zs arr" "sum_list ys + sum_list zs = ?S"
      using subseq_complement [OF ys(1)] by blast
    have in_A: "sum_list ys \<in> A" "sum_list zs \<in> A" using ys zs sums by auto
    show "d \<in> insert (int ?S) ((\<lambda>s. \<bar>int ?S - int s\<bar> - int s) ` {s \<in> A. 2 * s \<le> ?S})"
    proof (cases "2 * sum_list ys \<le> ?S")
      case True
      then show ?thesis using in_A ys(2) zs(2) by (intro insertI2 image_eqI [of _ _ "sum_list ys"]) auto
    next
      case False
      then show ?thesis using in_A ys(2) zs(2) by (intro insertI2 image_eqI [of _ _ "sum_list zs"]) auto
    qed
  qed
qed

text \<open>
  \<open>partition_set\<close> returns the smallest difference between the sums of the two parts, over all
  ways to split the array in two.
\<close>

theorem partition_set_correct:
  "partition_set arr =
    Min ((\<lambda>ys. \<bar>int (sum_list arr) - 2 * int (sum_list ys)\<bar>) ` set (subseqs arr))"
proof -
  let ?S = "sum_list arr" and ?A = "add_sums {0} arr"
  define dp where "dp = fold (\<lambda>x. fold (\<lambda>sum dp. dp[sum := dp ! sum \<or> dp ! (sum - x)]) (rev [x..<?S + 1]))
      arr ((replicate (?S + 1) False)[0 := True])"
  have dp: "dp ! s \<longleftrightarrow> s \<in> ?A" if "s \<le> ?S" for s
    using partition_table [of "(replicate (?S + 1) False)[0 := True]" ?S "{0}" arr] that
    unfolding dp_def by (auto simp: nth_list_update simp del: replicate_Suc)
  have half: "{s. s < ?S div 2 + 1 \<and> dp ! s} = {s \<in> ?A. 2 * s \<le> ?S}"
    using dp by auto
  have "partition_set arr = Min (insert (int ?S) ((\<lambda>s. \<bar>int ?S - int s\<bar> - int s) ` {s \<in> ?A. 2 * s \<le> ?S}))"
    unfolding partition_set_def Let_def dp_def [symmetric] fold_min_if half ..
  also have "\<dots> = Min ((\<lambda>ys. \<bar>int ?S - 2 * int (sum_list ys)\<bar>) ` set (subseqs arr))"
    by (simp only: half_sums)
  finally show ?thesis .
qed


end
