(* ===== verification/String_Search.thy ===== *)
theory String_Search
  imports Tables
begin

text \<open>
  \<open>search_for_pat\<close> of \<open>algorithms/strings/strings.cpp\<close>, the Knuth-Morris-Pratt search: the failure
  table (the lambda \<open>LPS\<close>) and the scan of the text. Both loops jump back, so they are
  \<open>partial_function\<close>s: \<open>None\<close> is a loop that does not end or a read outside a string or a vector,
  and the theorems show that the result is never \<open>None\<close>.
\<close>

section \<open>The search\<close>

text \<open>\<open>s[i]\<close> of a \<open>const std::string\<close>: the position after the last character holds \<open>'\0'\<close>.\<close>

definition char_at :: "string \<Rightarrow> nat \<Rightarrow> char option" where
  "char_at s i = (if i < length s then Some (s ! i) else if i = length s then Some CHR 0x00 else None)"

partial_function (option) lps_loop :: "string \<Rightarrow> nat list \<Rightarrow> nat \<Rightarrow> nat \<Rightarrow> nat list option" where
  "lps_loop s lps len i =
     (if i < length s then
        (case char_at s len of
           None \<Rightarrow> None
         | Some c \<Rightarrow>
             if s ! i = c then lps_loop s (lps[i := len + 1]) (len + 1) (i + 1)
             else if len \<noteq> 0 then
               (case elem_at lps (len - 1) of None \<Rightarrow> None | Some k \<Rightarrow> lps_loop s lps k i)
             else lps_loop s (lps[i := 0]) len (i + 1))
      else Some lps)"

definition LPS :: "string \<Rightarrow> nat list option" where
  "LPS s = lps_loop s (replicate (length s) 0) 0 1"

partial_function (option) search_loop ::
  "string \<Rightarrow> string \<Rightarrow> nat list \<Rightarrow> nat \<Rightarrow> nat \<Rightarrow> nat list \<Rightarrow> nat list option" where
  "search_loop pat txt lps i j res =
     (if i < length txt then
        (case char_at pat j of
           None \<Rightarrow> None
         | Some c \<Rightarrow>
             if txt ! i = c then
               (if j + 1 = length pat then
                  (case elem_at lps j of
                     None \<Rightarrow> None
                   | Some k \<Rightarrow> search_loop pat txt lps (i + 1) k (res @ [i - j]))
                else search_loop pat txt lps (i + 1) (j + 1) res)
             else if j \<noteq> 0 then
               (case elem_at lps (j - 1) of None \<Rightarrow> None | Some k \<Rightarrow> search_loop pat txt lps i k res)
             else search_loop pat txt lps (i + 1) j res)
      else Some res)"

definition search_for_pat :: "string \<Rightarrow> string \<Rightarrow> nat list option" where
  "search_for_pat pat txt =
     (case LPS pat of None \<Rightarrow> None | Some lps \<Rightarrow> search_loop pat txt lps 0 0 [])"

declare lps_loop.simps [code] search_loop.simps [code]

section \<open>Prefixes of the pattern that end at a position\<close>

text \<open>\<open>ends_at p t i j\<close>: the first \<open>j\<close> characters of \<open>p\<close> are the last \<open>j\<close> of the first \<open>i\<close> of \<open>t\<close>.\<close>

definition ends_at :: "'a list \<Rightarrow> 'a list \<Rightarrow> nat \<Rightarrow> nat \<Rightarrow> bool" where
  "ends_at p t i j \<longleftrightarrow> j \<le> i \<and> j \<le> length p \<and> i \<le> length t \<and> (\<forall>x<j. p ! x = t ! (i - j + x))"

lemma ends_at_0 [simp]: "ends_at p t i 0 \<longleftrightarrow> i \<le> length t"
  by (simp add: ends_at_def)

lemma ends_at_Suc:
  "ends_at p t (Suc i) (Suc j) \<longleftrightarrow> ends_at p t i j \<and> j < length p \<and> i < length t \<and> p ! j = t ! i"
proof -
  have "(\<forall>x<Suc j. p ! x = t ! (Suc i - Suc j + x)) \<longleftrightarrow>
      (\<forall>x<j. p ! x = t ! (i - j + x)) \<and> p ! j = t ! i" if "j \<le> i"
    using that by (auto simp: less_Suc_eq)
  then show ?thesis by (auto simp: ends_at_def)
qed

lemma ends_at_trans: "ends_at p t i j \<Longrightarrow> ends_at p p j l \<Longrightarrow> ends_at p t i l"
proof -
  assume a: "ends_at p t i j" "ends_at p p j l"
  have "p ! x = t ! (i - l + x)" if "x < l" for x
  proof -
    have "p ! x = p ! (j - l + x)" "p ! (j - l + x) = t ! (i - j + (j - l + x))"
      using a that by (auto simp: ends_at_def)
    moreover have "i - j + (j - l + x) = i - l + x" using a by (auto simp: ends_at_def)
    ultimately show ?thesis by simp
  qed
  then show ?thesis using a by (auto simp: ends_at_def)
qed

lemma ends_at_shorter: "ends_at p t i j \<Longrightarrow> ends_at p t i l \<Longrightarrow> l \<le> j \<Longrightarrow> ends_at p p j l"
proof -
  assume a: "ends_at p t i j" "ends_at p t i l" "l \<le> j"
  have "p ! x = p ! (j - l + x)" if "x < l" for x
  proof -
    have "p ! x = t ! (i - l + x)" "p ! (j - l + x) = t ! (i - j + (j - l + x))"
      using a that by (auto simp: ends_at_def)
    moreover have "i - j + (j - l + x) = i - l + x" using a by (auto simp: ends_at_def)
    ultimately show ?thesis by simp
  qed
  then show ?thesis using a by (auto simp: ends_at_def)
qed

section \<open>The failure table\<close>

text \<open>\<open>b\<close> is the longest border of the first \<open>i\<close> characters.\<close>

definition longest_border :: "'a list \<Rightarrow> nat \<Rightarrow> nat \<Rightarrow> bool" where
  "longest_border p i b \<longleftrightarrow> b < i \<and> ends_at p p i b \<and> (\<forall>l<i. ends_at p p i l \<longrightarrow> l \<le> b)"

definition lps_ok :: "'a list \<Rightarrow> nat list \<Rightarrow> nat \<Rightarrow> bool" where
  "lps_ok p lps i \<longleftrightarrow> length lps = length p \<and> (\<forall>q<i. longest_border p (Suc q) (lps ! q))"

lemma lps_ok_extend:
  "lps_ok p lps i \<Longrightarrow> i < length p \<Longrightarrow> longest_border p (Suc i) b \<Longrightarrow> lps_ok p (lps[i := b]) (Suc i)"
  by (auto simp: lps_ok_def less_Suc_eq)

text \<open>Extending a border by the next character.\<close>

lemma border_match:
  assumes "ends_at p p i len" "len < i" "i < length p" "p ! i = p ! len"
    and "\<forall>l<i. ends_at p p i l \<and> len < l \<longrightarrow> p ! l \<noteq> p ! i"
  shows "longest_border p (Suc i) (Suc len)"
  unfolding longest_border_def
proof (intro conjI allI impI)
  show "ends_at p p (Suc i) (Suc len)" using assms by (auto simp: ends_at_Suc)
  fix l assume l: "l < Suc i" "ends_at p p (Suc i) l"
  show "l \<le> Suc len"
  proof (cases l)
    case (Suc k)
    then have "ends_at p p i k" "p ! k = p ! i" "k < i" using l by (auto simp: ends_at_Suc)
    then show ?thesis using assms(5) Suc by (meson Suc_leI not_le le_imp_less_Suc less_Suc_eq_le)
  qed simp
qed (use assms in simp)

lemma border_none:
  assumes "i < length p" "p ! i \<noteq> p ! 0" "0 < i"
    and "\<forall>l<i. ends_at p p i l \<and> 0 < l \<longrightarrow> p ! l \<noteq> p ! i"
  shows "longest_border p (Suc i) 0"
  unfolding longest_border_def
proof (intro conjI allI impI)
  show "ends_at p p (Suc i) 0" using assms by (auto simp: ends_at_def)
  fix l assume l: "l < Suc i" "ends_at p p (Suc i) l"
  show "l \<le> 0"
  proof (cases l)
    case (Suc k)
    then have "ends_at p p i k" "p ! k = p ! i" "k < i" using l by (auto simp: ends_at_Suc)
    then show ?thesis using assms by (cases k) auto
  qed simp
qed simp

lemma lps_loop_ok:
  assumes "lps_ok s lps i" "0 < i" "i \<le> length s" "len < i" "ends_at s s i len"
    and "i < length s \<Longrightarrow> \<forall>l<i. ends_at s s i l \<and> len < l \<longrightarrow> s ! l \<noteq> s ! i"
  shows "\<exists>lps'. lps_loop s lps len i = Some lps' \<and> lps_ok s lps' (length s)"
  using assms
proof (induction "2 * (length s - i) + len" arbitrary: lps len i rule: less_induct)
  case less
  show ?case
  proof (cases "i < length s")
    case False
    then have "i = length s" using less.prems by simp
    then show ?thesis using less.prems(1) by (subst lps_loop.simps) simp
  next
    case i: True
    have at: "char_at s len = Some (s ! len)" using less.prems i by (simp add: char_at_def)
    show ?thesis
    proof (cases "s ! i = s ! len")
      case True
      have b: "longest_border s (Suc i) (Suc len)"
        using border_match [OF less.prems(5,4) i True] less.prems(6) [OF i] by blast
      have "\<exists>lps'. lps_loop s (lps[i := Suc len]) (Suc len) (Suc i) = Some lps' \<and> lps_ok s lps' (length s)"
      proof (rule less.hyps)
        show "lps_ok s (lps[i := Suc len]) (Suc i)" by (rule lps_ok_extend [OF less.prems(1) i b])
        show "\<forall>l<Suc i. ends_at s s (Suc i) l \<and> Suc len < l \<longrightarrow> s ! l \<noteq> s ! Suc i"
          using b by (auto simp: longest_border_def dest: leD)
      qed (use less.prems i b in \<open>auto simp: longest_border_def\<close>)
      then show ?thesis using i at True by (subst lps_loop.simps) simp
    next
      case mismatch: False
      show ?thesis
      proof (cases "len = 0")
        case True
        have b: "longest_border s (Suc i) 0"
          using border_none [OF i] mismatch less.prems(2,6) i True by auto
        have "\<exists>lps'. lps_loop s (lps[i := 0]) 0 (Suc i) = Some lps' \<and> lps_ok s lps' (length s)"
        proof (rule less.hyps)
          show "lps_ok s (lps[i := 0]) (Suc i)" by (rule lps_ok_extend [OF less.prems(1) i b])
          show "\<forall>l<Suc i. ends_at s s (Suc i) l \<and> 0 < l \<longrightarrow> s ! l \<noteq> s ! Suc i"
            using b by (auto simp: longest_border_def dest: leD)
        qed (use less.prems i b True in \<open>auto simp: longest_border_def\<close>)
        then show ?thesis using i at mismatch True by (subst lps_loop.simps) simp
      next
        case False
        let ?k = "lps ! (len - 1)"
        have k: "longest_border s len ?k"
          using less.prems(1,4) False unfolding lps_ok_def by (metis Suc_pred' less_imp_diff_less neq0_conv)
        have get: "elem_at lps (len - 1) = Some ?k"
          using less.prems(1,3,4) by (auto simp: elem_at_def lps_ok_def)
        have "\<exists>lps'. lps_loop s lps ?k i = Some lps' \<and> lps_ok s lps' (length s)"
        proof (rule less.hyps)
          show "ends_at s s i ?k" using ends_at_trans less.prems(5) k by (auto simp: longest_border_def)
          show "\<forall>l<i. ends_at s s i l \<and> ?k < l \<longrightarrow> s ! l \<noteq> s ! i"
          proof (intro allI impI, elim conjE)
            fix l assume l: "l < i" "ends_at s s i l" "?k < l"
            show "s ! l \<noteq> s ! i"
            proof (cases "l \<le> len")
              case True
              then have "l < len \<Longrightarrow> ends_at s s len l" using ends_at_shorter less.prems(5) l by blast
              then have "l = len" using True k l(3) by (metis longest_border_def leD le_neq_implies_less)
              then show ?thesis using mismatch by simp
            qed (use less.prems(6) i l in simp)
          qed
        qed (use less.prems k in \<open>auto simp: longest_border_def\<close>)
        then show ?thesis using i at mismatch False get by (subst lps_loop.simps) simp
      qed
    qed
  qed
qed

lemma LPS_ok: "\<exists>lps. LPS s = Some lps \<and> lps_ok s lps (length s)"
proof (cases "s = []")
  case True
  then show ?thesis unfolding LPS_def by (subst lps_loop.simps) (simp add: lps_ok_def)
next
  case False
  then have len: "Suc 0 \<le> length s" by (cases s) auto
  show ?thesis unfolding LPS_def
  proof (rule lps_loop_ok)
    show "lps_ok s (replicate (length s) 0) 1"
      using False by (cases s) (auto simp: lps_ok_def longest_border_def)
  qed (use len in auto)
qed

section \<open>The scan\<close>

definition occurrences :: "'a list \<Rightarrow> 'a list \<Rightarrow> nat list" where
  "occurrences pat txt = filter (\<lambda>i. take (length pat) (drop i txt) = pat) [0..<length txt]"

definition found_to :: "'a list \<Rightarrow> 'a list \<Rightarrow> nat \<Rightarrow> nat list" where
  "found_to pat txt i =
     filter (\<lambda>k. ends_at pat txt (k + length pat) (length pat)) [0..<Suc i - length pat]"

lemma found_to_Suc:
  "i < length txt \<Longrightarrow> pat \<noteq> [] \<Longrightarrow> found_to pat txt (Suc i) = found_to pat txt i @
    (if ends_at pat txt (Suc i) (length pat) then [Suc i - length pat] else [])"
  by (cases "length pat \<le> Suc i") (auto simp: found_to_def Suc_diff_le ends_at_def)

lemma ends_at_occurrence:
  "ends_at pat txt (k + length pat) (length pat) \<longleftrightarrow>
    k + length pat \<le> length txt \<and> take (length pat) (drop k txt) = pat"
  by (auto simp: ends_at_def list_eq_iff_nth_eq)

lemma found_to_all:
  assumes "pat \<noteq> []"
  shows "found_to pat txt (length txt) = occurrences pat txt"
proof -
  have "[0..<length txt] = [0..<Suc (length txt) - length pat] @ [Suc (length txt) - length pat..<length txt]"
  proof -
    obtain d where "length txt = Suc (length txt) - length pat + d"
      using assms le_Suc_ex [of "Suc (length txt) - length pat" "length txt"] by (cases pat) auto
    then show ?thesis using upt_add_eq_append [of 0 "Suc (length txt) - length pat" d] by simp
  qed
  moreover have "filter (\<lambda>i. take (length pat) (drop i txt) = pat)
      [Suc (length txt) - length pat..<length txt] = []"
    by (auto simp: filter_empty_conv dest!: arg_cong [where f = length])
  moreover have "filter (\<lambda>i. take (length pat) (drop i txt) = pat) [0..<Suc (length txt) - length pat] =
      found_to pat txt (length txt)"
    unfolding found_to_def by (rule filter_cong) (auto simp: ends_at_occurrence)
  ultimately show ?thesis by (simp add: occurrences_def)
qed

lemma search_loop_ok:
  assumes lps: "lps_ok pat lps (length pat)" and "pat \<noteq> []"
    and "i \<le> length txt" "ends_at pat txt i j" "j < length pat" "res = found_to pat txt i"
    and "i < length txt \<Longrightarrow> \<forall>l<length pat. ends_at pat txt i l \<and> j < l \<longrightarrow> pat ! l \<noteq> txt ! i"
  shows "search_loop pat txt lps i j res = Some (occurrences pat txt)"
  using assms(3-)
proof (induction "2 * (length txt - i) + j" arbitrary: i j res rule: less_induct)
  case less
  let ?m = "length pat"
  have border: "longest_border pat (Suc q) (lps ! q)" if "q < ?m" for q
    using lps that by (simp add: lps_ok_def)
  have get: "elem_at lps q = Some (lps ! q)" if "q < ?m" for q
    using lps that by (simp add: lps_ok_def elem_at_def)
  show ?case
  proof (cases "i < length txt")
    case False
    then have "i = length txt" using less.prems by simp
    then show ?thesis using less.prems found_to_all [OF assms(2)] by (subst search_loop.simps) simp
  next
    case i: True
    have at: "char_at pat j = Some (pat ! j)" using less.prems by (simp add: char_at_def)
    show ?thesis
    proof (cases "txt ! i = pat ! j")
      case eq: True
      have step: "ends_at pat txt (Suc i) (Suc j)" using less.prems i eq by (auto simp: ends_at_Suc)
      have longer: "l \<le> Suc j" if "ends_at pat txt (Suc i) l" for l
        using that less.prems(5) [OF i] by (cases l) (auto simp: ends_at_Suc not_le)
      show ?thesis
      proof (cases "Suc j = ?m")
        case True
        let ?k = "lps ! j"
        have k: "longest_border pat ?m ?k" using border [of j] less.prems(3) True by simp
        have full: "ends_at pat txt (Suc i) ?m" using step True by simp
        have "search_loop pat txt lps (Suc i) ?k (found_to pat txt (Suc i)) = Some (occurrences pat txt)"
        proof (rule less.hyps)
          show "ends_at pat txt (Suc i) ?k"
            using ends_at_trans [OF full] k by (auto simp: longest_border_def)
          show "\<forall>l<?m. ends_at pat txt (Suc i) l \<and> ?k < l \<longrightarrow> pat ! l \<noteq> txt ! Suc i"
            using ends_at_shorter [OF full] k by (meson leD less_imp_le longest_border_def)
        qed (use i k True in \<open>auto simp: longest_border_def\<close>)
        moreover have "found_to pat txt (Suc i) = found_to pat txt i @ [i - j]"
          unfolding found_to_Suc [OF i assms(2)] using full True by (metis diff_Suc_Suc)
        moreover have "search_loop pat txt lps i j res = search_loop pat txt lps (Suc i) ?k (res @ [i - j])"
          using i at eq True get [OF less.prems(3)] by (subst search_loop.simps) simp
        ultimately show ?thesis using less.prems(4) by argo
      next
        case False
        have "search_loop pat txt lps (Suc i) (Suc j) (found_to pat txt (Suc i)) = Some (occurrences pat txt)"
        proof (rule less.hyps)
          show "\<forall>l<?m. ends_at pat txt (Suc i) l \<and> Suc j < l \<longrightarrow> pat ! l \<noteq> txt ! Suc i"
            using longer by (meson leD)
          show "ends_at pat txt (Suc i) (Suc j)" by (rule step)
          show "2 * (length txt - Suc i) + Suc j < 2 * (length txt - i) + j" using i by linarith
        qed (use i False less.prems(3) in simp_all)
        moreover have "\<not> ends_at pat txt (Suc i) ?m" using longer [of ?m] less.prems(3) False by auto
        then have "found_to pat txt (Suc i) = found_to pat txt i"
          using found_to_Suc [OF i assms(2)] by simp
        ultimately show ?thesis using i at eq False less.prems(4) by (subst search_loop.simps) simp
      qed
    next
      case mismatch: False
      show ?thesis
      proof (cases "j = 0")
        case True
        have none: "\<not> ends_at pat txt (Suc i) l" if "0 < l" "l \<le> ?m" for l
          using that less.prems(5) [OF i] mismatch True by (cases l; cases "l = 1") (auto simp: ends_at_Suc)
        have "search_loop pat txt lps (Suc i) 0 (found_to pat txt (Suc i)) = Some (occurrences pat txt)"
        proof (rule less.hyps)
          show "\<forall>l<?m. ends_at pat txt (Suc i) l \<and> 0 < l \<longrightarrow> pat ! l \<noteq> txt ! Suc i"
            using none by auto
        qed (use i True assms(2) in simp_all)
        moreover have "found_to pat txt (Suc i) = found_to pat txt i"
          using found_to_Suc [OF i assms(2)] none [of ?m] assms(2) by simp
        ultimately show ?thesis using i at mismatch True less.prems(4) by (subst search_loop.simps) simp
      next
        case False
        let ?k = "lps ! (j - 1)"
        have k: "longest_border pat j ?k" using border [of "j - 1"] less.prems(3) False by simp
        have "search_loop pat txt lps i ?k (found_to pat txt i) = Some (occurrences pat txt)"
        proof (rule less.hyps)
          show "ends_at pat txt i ?k"
            using ends_at_trans [OF less.prems(2)] k by (auto simp: longest_border_def)
          show "\<forall>l<?m. ends_at pat txt i l \<and> ?k < l \<longrightarrow> pat ! l \<noteq> txt ! i"
          proof (intro allI impI, elim conjE)
            fix l assume l: "l < ?m" "ends_at pat txt i l" "?k < l"
            consider "l < j" | "l = j" | "j < l" by linarith
            then show "pat ! l \<noteq> txt ! i"
            proof cases
              case 1
              then have "ends_at pat pat j l" using ends_at_shorter [OF less.prems(2)] l by simp
              then show ?thesis using k 1 l(3) by (meson leD longest_border_def)
            qed (use mismatch less.prems(5) [OF i] l in auto)
          qed
        qed (use less.prems k in \<open>auto simp: longest_border_def\<close>)
        then show ?thesis using i at mismatch False less.prems(3,4) get [of "j - 1"]
          by (subst search_loop.simps) simp
      qed
    qed
  qed
qed

text \<open>
  C30: \<open>search_for_pat\<close> ends and returns the positions of all occurrences of the pattern in the
  text, overlapping ones included, in increasing order.
\<close>

theorem search_for_pat_correct:
  assumes "pat \<noteq> []"
  shows "search_for_pat pat txt =
    Some (filter (\<lambda>i. take (length pat) (drop i txt) = pat) [0..<length txt])"
proof -
  obtain lps where lps: "LPS pat = Some lps" "lps_ok pat lps (length pat)" using LPS_ok by blast
  have "search_loop pat txt lps 0 0 [] = Some (occurrences pat txt)"
    by (rule search_loop_ok [OF lps(2) assms])
      (use assms in \<open>auto simp: found_to_def Suc_leI ends_at_def\<close>)
  then show ?thesis using lps(1) by (simp add: search_for_pat_def occurrences_def)
qed

theorem search_for_pat_correct_witness: "search_for_pat ''aa'' ''baaab'' = Some [1, 2]"
  using search_for_pat_correct [of "''aa''" "''baaab''"] by (simp add: upt_rec)

lemma search_for_empty_pat:
  assumes "CHR 0x00 \<notin> set txt"
  shows "search_for_pat [] txt = Some []"
proof -
  have "search_loop [] txt lps i 0 [] = Some []" for lps i
  proof (induction "length txt - i" arbitrary: i)
    case 0
    then show ?case by (subst search_loop.simps) simp
  next
    case (Suc n)
    then have "txt ! i \<noteq> CHR 0x00" using assms by (metis nth_mem zero_less_Suc zero_less_diff)
    moreover have "search_loop [] txt lps (Suc i) 0 [] = Some []" using Suc by simp
    ultimately show ?case by (subst search_loop.simps) (simp add: char_at_def)
  qed
  then show ?thesis using LPS_ok [of "[]"] by (auto simp: search_for_pat_def)
qed

end
