(* ===== verification/String_Problems.thy ===== *)
theory String_Problems
  imports Subsequences String_Search "HOL-Library.Char_ord" "HOL-Library.List_Lexorder"
begin

text \<open>
  \<open>algorithms/strings/strings.cpp\<close>, all but the search for a pattern (\<open>String_Search\<close>), and its
  program. Strings are character lists; \<open>Inl Undefined_Behaviour\<close> is the outcome where the source
  indexes an array with a character outside the alphabet it is made for, shifts by a negative or
  too large amount, or reads past the end of a string. The elements of an \<open>unordered_map\<close> or
  \<open>unordered_set\<close> are kept in the order of their insertion, and the order in which the container is
  traversed is a parameter \<open>visit\<close>, of which the theorems only ask that it is a permutation.
  Counts and positions are numbers: the model agrees with the code while they are in the range of
  \<open>int\<close>.
\<close>

section \<open>Substrings and interleavings\<close>

datatype Problem =
    INTERLEAVE | GROUP_ANAGRAMS | REMOVE_K_CONSECUTIVE_INDETICAL_CHARS | KMP
  | SHORTEST_COMMON_SUBSEQUENCE | LONGEST_SUBSTRING_REARRANGED_PALINDROME
  | COUNT_DISTINCT_SUBSEQUENCES | LONGEST_SUBSTRING_DISTINCT | REGULAR_EXPRESSION_MATHCING
  | REMOVE_INAVLID_PARENTHESES

definition find_substrings :: "string \<Rightarrow> string list" where
  "find_substrings s =
     (let n = length s in
      fold (\<lambda>i. fold (\<lambda>j res. res @ [take (j - i + 1) (drop i s)]) [i..<n]) [0..<n] [])"

definition is_interleave :: "string \<Rightarrow> string \<Rightarrow> string \<Rightarrow> bool" where
  "is_interleave s1 s2 s3 =
     (let m = length s1; n = length s2 in
      if m + n \<noteq> length s3 then False
      else
        let dp = new_table (m + 1) (n + 1) False;
            dp = tab_set 0 0 True dp;
            dp = fold (\<lambda>j dp. tab_set 0 j (s2 ! (j - 1) = s3 ! (j - 1) \<and> tab_get dp 0 (j - 1)) dp)
                   [1..<n + 1] dp;
            dp = fold (\<lambda>i dp. tab_set i 0 (s1 ! (i - 1) = s3 ! (i - 1) \<and> tab_get dp (i - 1) 0) dp)
                   [1..<m + 1] dp;
            dp = fold (\<lambda>i. fold (\<lambda>j dp.
                   let k = i + j - 1 in
                   tab_set i j (s1 ! (i - 1) = s3 ! k \<and> tab_get dp (i - 1) j \<or>
                     s2 ! (j - 1) = s3 ! k \<and> tab_get dp i (j - 1)) dp)
                   [1..<n + 1]) [1..<m + 1] dp
        in tab_get dp m n)"

section \<open>Anagrams\<close>

text \<open>\<open>gg[k].push_back(s)\<close>, which inserts an empty vector for a new key first.\<close>

fun group_push :: "string \<Rightarrow> string \<Rightarrow> (string \<times> string list) list \<Rightarrow> (string \<times> string list) list" where
  "group_push k s [] = [(k, [s])]"
| "group_push k s ((j, v) # gg) = (if j = k then (j, v @ [s]) # gg else (j, v) # group_push k s gg)"

definition group_anagrams ::
  "((string \<times> string list) list \<Rightarrow> (string \<times> string list) list) \<Rightarrow> string list \<Rightarrow> string list list" where
  "group_anagrams visit ana =
     (let gg = fold (\<lambda>s gg. let tmp = sort s in group_push tmp s gg) ana []
      in map snd (visit gg))"

section \<open>Removing equal neighbours\<close>

text \<open>The stack of pairs of a character and its count; the head of the list is the top.\<close>

definition k_chars_push :: "int \<Rightarrow> char \<Rightarrow> (char \<times> int) list \<Rightarrow> (char \<times> int) list" where
  "k_chars_push k c st =
     (case st of
        [] \<Rightarrow> [(c, 1)]
      | (ch, cnt) # st' \<Rightarrow>
          if ch = c then (let cnt = cnt + 1 in if cnt < k then (c, cnt) # st' else st')
          else (c, 1) # st)"

fun k_chars_unwind :: "(char \<times> int) list \<Rightarrow> string \<Rightarrow> string" where
  "k_chars_unwind [] res = res"
| "k_chars_unwind ((ch, cnt) # st) res =
     k_chars_unwind st (if cnt > 1 then res @ replicate (nat cnt) ch else res @ [ch])"

definition remove_k_chars :: "int \<Rightarrow> string \<Rightarrow> string" where
  "remove_k_chars k s =
     (if k = 1 then [] else rev (k_chars_unwind (fold (k_chars_push k) s []) []))"

section \<open>Tables over two strings\<close>

definition shortest_common_subseq :: "string \<Rightarrow> string \<Rightarrow> int" where
  "shortest_common_subseq s t =
     (let m = length s; n = length t;
          dp = new_table (m + 1) (n + 1) 0;
          dp = fold (\<lambda>i. tab_set i 0 (int i)) [0..<m + 1] dp;
          dp = fold (\<lambda>j. tab_set 0 j (int j)) [0..<n + 1] dp;
          dp = fold (\<lambda>i. fold (\<lambda>j dp.
                 if s ! (i - 1) = t ! (j - 1) then tab_set i j (1 + tab_get dp (i - 1) (j - 1)) dp
                 else tab_set i j (1 + min (tab_get dp (i - 1) j) (tab_get dp i (j - 1))) dp)
                 [1..<n + 1]) [1..<m + 1] dp
      in tab_get dp m n)"

text \<open>
  \<open>longest_substring\<close>: the mask is an \<open>int\<close>, whose 32 bits are toggled; \<open>index\<close> is the
  \<open>unordered_map\<close> from masks to positions. \<open>1 << temp\<close> has no meaning unless \<open>temp\<close> is between 0
  and 31, and a \<open>char\<close> of code 128 or more is negative.
\<close>

definition palin_step ::
  "string \<Rightarrow> nat \<Rightarrow> (32 word \<Rightarrow> int option) \<times> int \<times> 32 word \<Rightarrow> (32 word \<Rightarrow> int option) \<times> int \<times> 32 word" where
  "palin_step s i = (\<lambda>(index, answer, mask).
     let temp = of_char (s ! i) - 97;
         mask = xor mask (push_bit temp 1);
         (index, answer) =
           (case index mask of
              Some p \<Rightarrow> (index, max answer (int i - p))
            | None \<Rightarrow> (index(mask \<mapsto> int i), answer));
         answer = fold (\<lambda>j answer.
           let mask2 = xor mask (push_bit j 1) in
           case index mask2 of Some p \<Rightarrow> max answer (int i - p) | None \<Rightarrow> answer) [0..<26] answer
     in (index, answer, mask))"

definition longest_substring :: "string \<Rightarrow> nat \<Rightarrow> int result" where
  "longest_substring s n =
     (if length s < n \<or> (\<exists>c\<in>set (take n s). of_char c < (97 :: nat) \<or> 128 \<le> (of_char c :: nat))
      then Inl Undefined_Behaviour
      else Inr (fst (snd (fold (palin_step s) [0..<n] (Map.empty(0 \<mapsto> - 1), 0, 0)))))"

definition is_lower :: "char \<Rightarrow> bool" where
  "is_lower c \<longleftrightarrow> 97 \<le> (of_char c :: nat) \<and> (of_char c :: nat) < 123"

text \<open>\<open>last[c - 'a']\<close> is outside the array of 26 unless \<open>c\<close> is a lower case letter.\<close>

definition distinct_step :: "string \<Rightarrow> nat \<Rightarrow> int list \<times> int list \<Rightarrow> int list \<times> int list" where
  "distinct_step s i = (\<lambda>(dp, last).
     let dp = dp[i := 2 * dp ! (i - 1)];
         c = of_char (s ! (i - 1)) - 97;
         dp = (if last ! c \<noteq> - 1 then dp[i := dp ! i - dp ! nat (last ! c)] else dp)
     in (dp, last[c := int (i - 1)]))"

definition count_distinct_subseq :: "string \<Rightarrow> int result" where
  "count_distinct_subseq s =
     (if \<exists>c\<in>set s. \<not> is_lower c then Inl Undefined_Behaviour
      else
        let n = length s; dp = (replicate (n + 1) 0)[0 := 1]; last = replicate 26 (- 1)
        in Inr (fst (fold (distinct_step s) [1..<n + 1] (dp, last)) ! n))"

section \<open>The longest substring without a repetition\<close>

text \<open>\<open>while (cnt[s[r]] > 1) --cnt[s[l++]];\<close> for the character \<open>c\<close> at \<open>r\<close>.\<close>

function unique_shrink :: "string \<Rightarrow> char \<Rightarrow> int list \<Rightarrow> nat \<Rightarrow> (int list \<times> nat) result" where
  "unique_shrink s c cnt l =
     (if cnt ! of_char c > 1 then
        (case char_at s l of
           None \<Rightarrow> Inl Undefined_Behaviour
         | Some d \<Rightarrow> unique_shrink s c (cnt[of_char d := cnt ! of_char d - 1]) (l + 1))
      else Inr (cnt, l))"
  by pat_completeness auto
termination
  by (relation "measure (\<lambda>(s, c, cnt, l). length s + 1 - l)") (auto simp: char_at_def split: if_splits)

declare unique_shrink.simps [simp del]

definition unique_step :: "string \<Rightarrow> nat \<Rightarrow> (int list \<times> nat \<times> int) result \<Rightarrow> (int list \<times> nat \<times> int) result" where
  "unique_step s r st =
     bind_result st (\<lambda>(cnt, l, ans).
       let cnt = cnt[of_char (s ! r) := cnt ! of_char (s ! r) + 1] in
       bind_result (unique_shrink s (s ! r) cnt l) (\<lambda>(cnt, l).
         Inr (cnt, l, max ans (int r - int l + 1))))"

definition longest_unique_substring :: "string \<Rightarrow> int result" where
  "longest_unique_substring s =
     (if \<exists>c\<in>set s. 128 \<le> (of_char c :: nat) then Inl Undefined_Behaviour
      else bind_result (fold (unique_step s) [0..<length s] (Inr (replicate 128 0, 0, 0)))
        (\<lambda>(cnt, l, ans). Inr ans))"

section \<open>Regular expressions\<close>

text \<open>
  \<open>is_match\<close>: the memo \<open>f\<close> holds 1 for a match, -1 for none and 0 for unknown. The branch that
  returns early leaves the memo as it is.
\<close>

definition char_fits :: "string \<Rightarrow> string \<Rightarrow> nat \<Rightarrow> nat \<Rightarrow> bool" where
  "char_fits s p i j \<longleftrightarrow> i < length s \<and> (s ! i = p ! j \<or> p ! j = CHR ''.'')"

function match_dfs :: "string \<Rightarrow> string \<Rightarrow> nat \<Rightarrow> nat \<Rightarrow> int table \<Rightarrow> bool \<times> int table" where
  "match_dfs s p i j f =
     (if length p \<le> j then (i = length s, f)
      else if tab_get f i j \<noteq> 0 then (tab_get f i j = 1, f)
      else if j + 1 < length p \<and> p ! (j + 1) = CHR ''*'' then
        (case match_dfs s p i (j + 2) f of (a, f) \<Rightarrow>
         case (if a then (True, f) else if char_fits s p i j then match_dfs s p (i + 1) j f else (False, f)) of
           (b, f) \<Rightarrow> (b, tab_set i j (if b then 1 else - 1) f))
      else
        (case (if char_fits s p i j then match_dfs s p (i + 1) (j + 1) f else (False, f)) of
           (b, f) \<Rightarrow> if b then (True, f) else (False, tab_set i j (- 1) f)))"
  by pat_completeness auto
termination
  by (relation "measure (\<lambda>(s, p, i, j, f). (length s - i) + (length p - j))") (auto simp: char_fits_def)

declare match_dfs.simps [simp del]

definition is_match :: "string \<Rightarrow> string \<Rightarrow> bool" where
  "is_match s p = fst (match_dfs s p 0 0 (new_table (length s + 1) (length p + 1) 0))"

section \<open>Parentheses\<close>

text \<open>
  \<open>remove_invalid_parentheses\<close>: the first pass counts the opening parentheses that stay open (\<open>l\<close>)
  and the closing ones that close nothing (\<open>r\<close>). The recursion runs over the rest of the string,
  the characters from \<open>s[i]\<close> on, so \<open>n - i\<close> is its length. \<open>lcnt\<close> and \<open>rcnt\<close> are passed on
  unchanged, and the locals \<open>x\<close> and \<open>y\<close> of the source are not used.
\<close>

definition paren_count :: "char \<Rightarrow> nat \<times> nat \<Rightarrow> nat \<times> nat" where
  "paren_count c = (\<lambda>(l, r).
     if c = CHR ''('' then (l + 1, r)
     else if c = CHR '')'' then (if l \<noteq> 0 then (l - 1, r) else (l, r + 1))
     else (l, r))"

definition insert_new :: "'a \<Rightarrow> 'a list \<Rightarrow> 'a list" where
  "insert_new x xs = (if x \<in> set xs then xs else xs @ [x])"

fun paren_dfs :: "string \<Rightarrow> nat \<Rightarrow> nat \<Rightarrow> nat \<Rightarrow> nat \<Rightarrow> string \<Rightarrow> string list \<Rightarrow> string list" where
  "paren_dfs [] l r lcnt rcnt t ans = (if l = 0 \<and> r = 0 then insert_new t ans else ans)"
| "paren_dfs (c # rest) l r lcnt rcnt t ans =
     (if length (c # rest) < l + r \<or> lcnt < rcnt then ans
      else
        let ans = (if c = CHR ''('' \<and> l \<noteq> 0 then paren_dfs rest (l - 1) r lcnt rcnt t ans else ans);
            ans = (if c = CHR '')'' \<and> r \<noteq> 0 then paren_dfs rest l (r - 1) lcnt rcnt t ans else ans)
        in paren_dfs rest l r lcnt rcnt (t @ [c]) ans)"

definition remove_invalid_parentheses :: "(string list \<Rightarrow> string list) \<Rightarrow> string \<Rightarrow> string list" where
  "remove_invalid_parentheses visit s =
     (case fold paren_count s (0, 0) of (l, r) \<Rightarrow> visit (paren_dfs s l r 0 0 [] []))"

section \<open>The program\<close>

text \<open>
  \<open>main\<close> solves one of the problems; its \<open>switch\<close> has no case for the last two. The case before
  \<open>default\<close> has no \<open>break\<close>, which changes nothing.
\<close>

fun strings_problem ::
  "((string \<times> string list) list \<Rightarrow> (string \<times> string list) list) \<Rightarrow> Problem \<Rightarrow> string result" where
  "strings_problem visit INTERLEAVE =
     Inr (line_out (if is_interleave ''AAB'' ''AAC'' ''AAAABC'' then ''1'' else ''0''))"
| "strings_problem visit GROUP_ANAGRAMS =
     Inr (concat (map (\<lambda>f. line_out (concat (map (\<lambda>s. s @ '' '') f)))
       (group_anagrams visit [''act'', ''god'', ''cat'', ''dog'', ''tac''])))"
| "strings_problem visit REMOVE_K_CONSECUTIVE_INDETICAL_CHARS =
     Inr (line_out (remove_k_chars 2 ''geeksforgeeks''))"
| "strings_problem visit KMP =
     (case search_for_pat ''aaba'' ''aabaacaadaabaaba'' of
        None \<Rightarrow> Inl Undefined_Behaviour
      | Some res \<Rightarrow> Inr (concat (map (\<lambda>i. show_nat i @ '' '') res)))"
| "strings_problem visit SHORTEST_COMMON_SUBSEQUENCE =
     Inr (line_out (show_int (shortest_common_subseq ''AGGTAB'' ''GXTXAYB'')))"
| "strings_problem visit LONGEST_SUBSTRING_REARRANGED_PALINDROME =
     bind_result (longest_substring ''adbabd'' (length ''adbabd'')) (\<lambda>n. Inr (line_out (show_int n)))"
| "strings_problem visit COUNT_DISTINCT_SUBSEQUENCES =
     bind_result (count_distinct_subseq ''gfg'') (\<lambda>n. Inr (line_out (show_int n)))"
| "strings_problem visit LONGEST_SUBSTRING_DISTINCT =
     bind_result (longest_unique_substring ''alggorithmss'') (\<lambda>n. Inr (line_out (show_int n)))"
| "strings_problem visit _ = Inr []"

definition strings_main ::
  "((string \<times> string list) list \<Rightarrow> (string \<times> string list) list) \<Rightarrow> string result" where
  "strings_main visit = strings_problem visit LONGEST_SUBSTRING_DISTINCT"

section \<open>Interleavings\<close>

lemma shuffles_snocI:
  "zs \<in> shuffles xs ys \<Longrightarrow> zs @ [x] \<in> shuffles (xs @ [x]) ys \<and> zs @ [x] \<in> shuffles xs (ys @ [x])"
proof (induction zs arbitrary: xs ys)
  case Nil
  then show ?case by simp
next
  case (Cons z zs)
  then show ?case by (fastforce simp: Cons_in_shuffles_iff hd_append tl_append2)
qed

lemma shuffles_rev_mono: "zs \<in> shuffles xs ys \<Longrightarrow> rev zs \<in> shuffles (rev xs) (rev ys)"
proof (induction zs arbitrary: xs ys)
  case Nil
  then show ?case by simp
next
  case (Cons z zs)
  from Cons.prems have "xs \<noteq> [] \<and> hd xs = z \<and> zs \<in> shuffles (tl xs) ys \<or>
      ys \<noteq> [] \<and> hd ys = z \<and> zs \<in> shuffles xs (tl ys)" by (simp add: Cons_in_shuffles_iff)
  then show ?case
  proof
    assume a: "xs \<noteq> [] \<and> hd xs = z \<and> zs \<in> shuffles (tl xs) ys"
    then have "rev xs = rev (tl xs) @ [z]" by (cases xs) auto
    then show ?thesis using shuffles_snocI [OF Cons.IH [of "tl xs" ys], of z] a by simp
  next
    assume a: "ys \<noteq> [] \<and> hd ys = z \<and> zs \<in> shuffles xs (tl ys)"
    then have "rev ys = rev (tl ys) @ [z]" by (cases ys) auto
    then show ?thesis using shuffles_snocI [OF Cons.IH [of xs "tl ys"], of z] a by simp
  qed
qed

lemma shuffles_rev: "rev zs \<in> shuffles (rev xs) (rev ys) \<longleftrightarrow> zs \<in> shuffles xs ys"
  using shuffles_rev_mono [of zs xs ys] shuffles_rev_mono [of "rev zs" "rev xs" "rev ys"] by auto

lemma shuffles_snoc:
  "zs @ [z] \<in> shuffles (xs @ [x]) (ys @ [y]) \<longleftrightarrow>
    z = x \<and> zs \<in> shuffles xs (ys @ [y]) \<or> z = y \<and> zs \<in> shuffles (xs @ [x]) ys"
  using shuffles_rev [of "zs @ [z]" "xs @ [x]" "ys @ [y]"] shuffles_rev [of zs xs "ys @ [y]"]
    shuffles_rev [of zs "xs @ [x]" ys] by (auto simp: Cons_in_shuffles_iff)

definition interleaved :: "string \<Rightarrow> string \<Rightarrow> string \<Rightarrow> nat \<Rightarrow> nat \<Rightarrow> bool" where
  "interleaved s1 s2 s3 i j \<longleftrightarrow> take (i + j) s3 \<in> shuffles (take i s1) (take j s2)"

lemma interleaved_Suc:
  assumes "length s3 = length s1 + length s2" "i < length s1" "j < length s2"
  shows "interleaved s1 s2 s3 (Suc i) (Suc j) \<longleftrightarrow>
    s1 ! i = s3 ! (Suc (i + j)) \<and> interleaved s1 s2 s3 i (Suc j) \<or>
    s2 ! j = s3 ! (Suc (i + j)) \<and> interleaved s1 s2 s3 (Suc i) j"
proof -
  have t: "take (Suc i + Suc j) s3 = take (Suc (i + j)) s3 @ [s3 ! Suc (i + j)]"
    using assms by (simp add: take_Suc_conv_app_nth)
  show ?thesis
    unfolding interleaved_def t take_Suc_conv_app_nth [OF assms(2)] take_Suc_conv_app_nth [OF assms(3)]
      shuffles_snoc by auto
qed

lemma interleaved_edge:
  "i \<le> length s1 \<Longrightarrow> length s3 = length s1 + length s2 \<Longrightarrow>
    interleaved s1 s2 s3 i 0 \<longleftrightarrow> take i s3 = take i s1"
  "j \<le> length s2 \<Longrightarrow> length s3 = length s1 + length s2 \<Longrightarrow>
    interleaved s1 s2 s3 0 j \<longleftrightarrow> take j s3 = take j s2"
  by (auto simp: interleaved_def)

lemma take_Suc_eq_iff:
  "i < length xs \<Longrightarrow> i < length ys \<Longrightarrow>
    take (Suc i) xs = take (Suc i) ys \<longleftrightarrow> ys ! i = xs ! i \<and> take i xs = take i ys"
  by (auto simp: take_Suc_conv_app_nth)

text \<open>The first row and column, then the rest of the table.\<close>

lemma interleave_row:
  assumes "length s3 = length s1 + length s2" and "tab_dim (length s1 + 1) (length s2 + 1) dp0"
    and "tab_get dp0 0 0"
  defines "dp1 \<equiv> fold (\<lambda>j dp. tab_set 0 j (s2 ! (j - 1) = s3 ! (j - 1) \<and> tab_get dp 0 (j - 1)) dp)
    [1..<length s2 + 1] dp0"
  shows "tab_dim (length s1 + 1) (length s2 + 1) dp1 \<and>
    (\<forall>l<length s2 + 1. tab_get dp1 0 l = interleaved s1 s2 s3 0 l)"
proof -
  have "tab_dim (length s1 + 1) (length s2 + 1) dp1 \<and>
      (\<forall>l<length s2 + 1. tab_get dp1 0 l = interleaved s1 s2 s3 0 l) \<and>
      (\<forall>k l. k \<noteq> 0 \<longrightarrow> tab_get dp1 k l = tab_get dp0 k l)"
    unfolding dp1_def
  proof (rule fill_one_row)
    fix dp j
    assume "1 \<le> j" "j < length s2 + 1" and dp: "\<forall>l<j. tab_get dp 0 l = interleaved s1 s2 s3 0 l"
    then obtain l where "j = Suc l" "l < length s2" by (cases j) auto
    then show "tab_set 0 j (s2 ! (j - 1) = s3 ! (j - 1) \<and> tab_get dp 0 (j - 1)) dp =
        tab_set 0 j (interleaved s1 s2 s3 0 j) dp"
      using dp assms(1) by (simp add: interleaved_edge take_Suc_eq_iff)
  qed (use assms(2,3) in \<open>auto simp: interleaved_def\<close>)
  then show ?thesis by blast
qed

lemma interleave_column:
  assumes "length s3 = length s1 + length s2" and "tab_dim (length s1 + 1) (length s2 + 1) dp1"
    and "\<forall>l<length s2 + 1. tab_get dp1 0 l = interleaved s1 s2 s3 0 l"
  defines "dp2 \<equiv> fold (\<lambda>i dp. tab_set i 0 (s1 ! (i - 1) = s3 ! (i - 1) \<and> tab_get dp (i - 1) 0) dp)
    [1..<length s1 + 1] dp1"
  shows "tab_dim (length s1 + 1) (length s2 + 1) dp2 \<and>
    (\<forall>k<length s1 + 1. tab_get dp2 k 0 = interleaved s1 s2 s3 k 0) \<and>
    (\<forall>l<length s2 + 1. tab_get dp2 0 l = interleaved s1 s2 s3 0 l)"
proof -
  have dp2: "tab_dim (length s1 + 1) (length s2 + 1) dp2 \<and>
      (\<forall>k<length s1 + 1. tab_get dp2 k 0 = interleaved s1 s2 s3 k 0) \<and>
      (\<forall>k l. l \<noteq> 0 \<longrightarrow> tab_get dp2 k l = tab_get dp1 k l)"
    unfolding dp2_def
  proof (rule fill_one_column)
    fix dp i
    assume "1 \<le> i" "i < length s1 + 1" and dp: "\<forall>k<i. tab_get dp k 0 = interleaved s1 s2 s3 k 0"
    then obtain k where "i = Suc k" "k < length s1" by (cases i) auto
    then show "tab_set i 0 (s1 ! (i - 1) = s3 ! (i - 1) \<and> tab_get dp (i - 1) 0) dp =
        tab_set i 0 (interleaved s1 s2 s3 i 0) dp"
      using dp assms(1) by (simp add: interleaved_edge take_Suc_eq_iff)
  qed (use assms(2,3) in auto)
  have "tab_get dp2 0 l = interleaved s1 s2 s3 0 l" if "l < length s2 + 1" for l
    using assms(3) dp2 that by (cases "l = 0") auto
  then show ?thesis using dp2 by blast
qed

text \<open>
  \<open>is_interleave\<close> decides whether the third string is an interleaving of the first two.
\<close>

theorem is_interleave_correct: "is_interleave s1 s2 s3 \<longleftrightarrow> s3 \<in> shuffles s1 s2"
proof (cases "length s3 = length s1 + length s2")
  case False
  then show ?thesis by (auto simp: is_interleave_def Let_def length_shuffles)
next
  case len: True
  let ?m = "length s1" and ?n = "length s2" and ?f = "interleaved s1 s2 s3"
  define dp0 where "dp0 = tab_set 0 0 True (new_table (?m + 1) (?n + 1) False)"
  define dp1 where "dp1 = fold (\<lambda>j dp. tab_set 0 j (s2 ! (j - 1) = s3 ! (j - 1) \<and> tab_get dp 0 (j - 1)) dp)
      [1..<?n + 1] dp0"
  define dp2 where "dp2 = fold (\<lambda>i dp. tab_set i 0 (s1 ! (i - 1) = s3 ! (i - 1) \<and> tab_get dp (i - 1) 0) dp)
      [1..<?m + 1] dp1"
  define dp3 where "dp3 = fold (\<lambda>i. fold (\<lambda>j dp. let k = i + j - 1 in
      tab_set i j (s1 ! (i - 1) = s3 ! k \<and> tab_get dp (i - 1) j \<or> s2 ! (j - 1) = s3 ! k \<and> tab_get dp i (j - 1)) dp)
      [1..<?n + 1]) [1..<?m + 1] dp2"
  have "tab_dim (?m + 1) (?n + 1) dp0 \<and> tab_get dp0 0 0"
    using tab_get_set [of "?m + 1" "?n + 1" "new_table (?m + 1) (?n + 1) False" 0 0 True 0 0]
    by (simp add: dp0_def)
  then have dp2: "tab_dim (?m + 1) (?n + 1) dp2 \<and> (\<forall>k<?m + 1. tab_get dp2 k 0 = ?f k 0) \<and>
      (\<forall>l<?n + 1. tab_get dp2 0 l = ?f 0 l)"
    unfolding dp2_def dp1_def using interleave_row [OF len] interleave_column [OF len] by simp
  have "\<forall>k<?m + 1. \<forall>l<?n + 1. tab_get dp3 k l = ?f k l"
    unfolding dp3_def
  proof (rule conjunct2 [OF fill_table])
    fix dp i j
    assume i: "1 \<le> i" "i < ?m + 1" and j: "1 \<le> j" "j < ?n + 1" and dp: "filled (?n + 1) ?f i j dp"
    obtain k l where kl: "i = Suc k" "j = Suc l" using i j by (cases i; cases j) auto
    have "tab_get dp k j = ?f k j" "tab_get dp i l = ?f i l" using dp i j kl by (auto simp: filled_def)
    then show "(let k = i + j - 1 in tab_set i j (s1 ! (i - 1) = s3 ! k \<and> tab_get dp (i - 1) j \<or>
        s2 ! (j - 1) = s3 ! k \<and> tab_get dp i (j - 1)) dp) = tab_set i j (?f i j) dp"
      using interleaved_Suc [OF len, of k l] i j kl by (simp add: Let_def)
  qed (use dp2 in auto)
  then have "tab_get dp3 ?m ?n = ?f ?m ?n" by simp
  then show ?thesis
    using len by (simp add: is_interleave_def Let_def dp0_def dp1_def dp2_def dp3_def interleaved_def)
qed

section \<open>The shortest common supersequence\<close>

lemma shortest_common_table:
  "shortest_common_subseq s t = int (length s) + int (length t) - lcs_prefix s t (length s) (length t)"
proof -
  let ?m = "length s" and ?n = "length t"
  let ?f = "\<lambda>i j. int i + int j - lcs_prefix s t i j"
  define dp1 where "dp1 = fold (\<lambda>i. tab_set i 0 (int i)) [0..<?m + 1] (new_table (?m + 1) (?n + 1) (0 :: int))"
  define dp2 where "dp2 = fold (\<lambda>j. tab_set 0 j (int j)) [0..<?n + 1] dp1"
  have dp1: "tab_dim (?m + 1) (?n + 1) dp1 \<and> (\<forall>k<?m + 1. tab_get dp1 k 0 = ?f k 0) \<and>
      (\<forall>k l. l \<noteq> 0 \<longrightarrow> tab_get dp1 k l = tab_get (new_table (?m + 1) (?n + 1) 0) k l)"
    unfolding dp1_def by (rule fill_one_column) auto
  have dp2: "tab_dim (?m + 1) (?n + 1) dp2 \<and> (\<forall>l<?n + 1. tab_get dp2 0 l = ?f 0 l) \<and>
      (\<forall>k l. k \<noteq> 0 \<longrightarrow> tab_get dp2 k l = tab_get dp1 k l)"
    unfolding dp2_def by (rule fill_one_row) (use dp1 in auto)
  have col0: "tab_get dp2 k 0 = ?f k 0" if "k < ?m + 1" for k
    using dp1 dp2 that by (cases "k = 0") auto
  define dp3 where "dp3 = fold (\<lambda>i. fold (\<lambda>j dp.
      if s ! (i - 1) = t ! (j - 1) then tab_set i j (1 + tab_get dp (i - 1) (j - 1)) dp
      else tab_set i j (1 + min (tab_get dp (i - 1) j) (tab_get dp i (j - 1))) dp)
      [1..<?n + 1]) [1..<?m + 1] dp2"
  have "\<forall>k<?m + 1. \<forall>l<?n + 1. tab_get dp3 k l = ?f k l"
    unfolding dp3_def
  proof (rule conjunct2 [OF fill_table])
    fix dp i j
    assume i: "1 \<le> i" "i < ?m + 1" and j: "1 \<le> j" "j < ?n + 1" and dp: "filled (?n + 1) ?f i j dp"
    obtain k l where kl: "i = Suc k" "j = Suc l" using i j by (cases i; cases j) auto
    have "tab_get dp k l = ?f k l" "tab_get dp k j = ?f k j" "tab_get dp i l = ?f i l"
      using dp i j kl by (auto simp: filled_def)
    moreover have "?f i j = (if s ! k = t ! l then 1 + ?f k l else 1 + min (?f k j) (?f i l))"
      using lcs_prefix_Suc [of k s l t] i j kl by (simp add: min_def max_def)
    ultimately show "(if s ! (i - 1) = t ! (j - 1) then tab_set i j (1 + tab_get dp (i - 1) (j - 1)) dp
        else tab_set i j (1 + min (tab_get dp (i - 1) j) (tab_get dp i (j - 1))) dp) = tab_set i j (?f i j) dp"
      using kl by (simp only: diff_Suc_1 split: if_split) simp
  qed (use dp2 col0 in auto)
  then have "tab_get dp3 ?m ?n = ?f ?m ?n" by simp
  then show ?thesis by (simp add: shortest_common_subseq_def Let_def dp1_def dp2_def dp3_def)
qed

text \<open>
  \<open>shortest_common_subseq\<close> returns the least length of a string that has both strings as
  subsequences.
\<close>

theorem shortest_common_subseq_correct:
  "shortest_common_subseq s t = int (LEAST k. \<exists>us. length us = k \<and> subseq s us \<and> subseq t us)"
proof -
  obtain us where us: "subseq s us" "subseq t us"
      "int (length us) = int (length s) + int (length t) - lcs_length s t"
    using supersequence_attained by blast
  have "(LEAST k. \<exists>us. length us = k \<and> subseq s us \<and> subseq t us) = length us"
    by (rule Least_equality) (use us supersequence_lower [of s _ t] in fastforce)+
  then show ?thesis using us(3) by (simp add: shortest_common_table lcs_prefix_all longest_common_lcs)
qed


section \<open>Regular expressions\<close>

text \<open>
  What a pattern means: a character, or \<open>.\<close>, with or without a star after it. A star that follows
  nothing stands for itself.
\<close>

fun re_tokens :: "string \<Rightarrow> (char \<times> bool) list" where
  "re_tokens [] = []"
| "re_tokens [c] = [(c, False)]"
| "re_tokens (c # d # p) =
     (if d = CHR ''*'' then (c, True) # re_tokens p else (c, False) # re_tokens (d # p))"

definition re_fits :: "char \<Rightarrow> char \<Rightarrow> bool" where
  "re_fits c x \<longleftrightarrow> x = c \<or> c = CHR ''.''"

fun re_lang :: "(char \<times> bool) list \<Rightarrow> string set" where
  "re_lang [] = {[]}"
| "re_lang ((c, False) # ts) = {x # v |x v. re_fits c x \<and> v \<in> re_lang ts}"
| "re_lang ((c, True) # ts) = {u @ v |u v. (\<forall>x\<in>set u. re_fits c x) \<and> v \<in> re_lang ts}"

lemma re_star_unfold:
  "s \<in> re_lang ((c, True) # ts) \<longleftrightarrow>
    s \<in> re_lang ts \<or> (\<exists>x v. s = x # v \<and> re_fits c x \<and> v \<in> re_lang ((c, True) # ts))" (is "?l \<longleftrightarrow> ?r")
proof
  assume ?l
  then obtain u v where uv: "s = u @ v" "\<forall>x\<in>set u. re_fits c x" "v \<in> re_lang ts" by auto
  then show ?r by (cases u) auto
next
  assume ?r
  then show ?l
  proof
    assume "s \<in> re_lang ts"
    then show ?thesis by (force intro: exI [of _ "[]"])
  next
    assume "\<exists>x v. s = x # v \<and> re_fits c x \<and> v \<in> re_lang ((c, True) # ts)"
    then obtain x u v where "s = (x # u) @ v" "\<forall>y\<in>set (x # u). re_fits c y" "v \<in> re_lang ts" by auto
    then show ?thesis unfolding re_lang.simps by blast
  qed
qed

definition re_match :: "string \<Rightarrow> string \<Rightarrow> nat \<Rightarrow> nat \<Rightarrow> bool" where
  "re_match s p i j \<longleftrightarrow> drop i s \<in> re_lang (re_tokens (drop j p))"

lemma re_tokens_drop:
  assumes "j < length p"
  shows "re_tokens (drop j p) =
    (if j + 1 < length p \<and> p ! (j + 1) = CHR ''*'' then (p ! j, True) # re_tokens (drop (j + 2) p)
     else (p ! j, False) # re_tokens (drop (j + 1) p))"
proof (cases "j + 1 < length p")
  case True
  then have "drop j p = p ! j # p ! (j + 1) # drop (j + 2) p"
    using assms by (simp add: Cons_nth_drop_Suc numeral_2_eq_2)
  moreover have "drop (j + 1) p = p ! (j + 1) # drop (j + 2) p"
    using True by (simp add: Cons_nth_drop_Suc numeral_2_eq_2)
  ultimately show ?thesis using True by simp
next
  case False
  then have "drop j p = [p ! j]" "drop (j + 1) p = []" using assms by (simp_all add: Cons_nth_drop_Suc [symmetric])
  then show ?thesis using False by simp
qed

lemma drop_eq_Cons: "drop i s = x # v \<longleftrightarrow> i < length s \<and> x = s ! i \<and> v = drop (Suc i) s"
proof (cases "i < length s")
  case True
  then show ?thesis using Cons_nth_drop_Suc [OF True] by auto
qed simp

lemma re_match_star:
  "j + 1 < length p \<Longrightarrow> p ! (j + 1) = CHR ''*'' \<Longrightarrow>
    re_match s p i j \<longleftrightarrow> re_match s p i (j + 2) \<or> char_fits s p i j \<and> re_match s p (i + 1) j"
proof -
  assume a: "j + 1 < length p" "p ! (j + 1) = CHR ''*''"
  then have t: "re_tokens (drop j p) = (p ! j, True) # re_tokens (drop (j + 2) p)"
    using re_tokens_drop [of j p] by simp
  show ?thesis
    unfolding re_match_def t re_star_unfold [of "drop i s"]
    by (auto simp: drop_eq_Cons char_fits_def re_fits_def simp del: re_lang.simps)
qed

lemma re_match_char:
  "j < length p \<Longrightarrow> \<not> (j + 1 < length p \<and> p ! (j + 1) = CHR ''*'') \<Longrightarrow>
    re_match s p i j \<longleftrightarrow> char_fits s p i j \<and> re_match s p (i + 1) (j + 1)"
  unfolding re_match_def re_tokens_drop [of j p]
  by (auto simp: drop_eq_Cons char_fits_def re_fits_def)

lemma re_match_end: "length p \<le> j \<Longrightarrow> i \<le> length s \<Longrightarrow> re_match s p i j \<longleftrightarrow> i = length s"
  by (auto simp: re_match_def)

definition memo_ok :: "string \<Rightarrow> string \<Rightarrow> int table \<Rightarrow> bool" where
  "memo_ok s p f \<longleftrightarrow> tab_dim (length s + 1) (length p + 1) f \<and>
     (\<forall>i\<le>length s. \<forall>j\<le>length p. tab_get f i j \<noteq> 0 \<longrightarrow> (tab_get f i j = 1 \<longleftrightarrow> re_match s p i j))"

lemma memo_ok_set:
  "memo_ok s p f \<Longrightarrow> i \<le> length s \<Longrightarrow> j \<le> length p \<Longrightarrow> b = re_match s p i j \<Longrightarrow>
    memo_ok s p (tab_set i j (if b then 1 else - 1) f)"
proof -
  assume a: "memo_ok s p f" "i \<le> length s" "j \<le> length p" "b = re_match s p i j"
  let ?g = "tab_set i j (if b then 1 else - 1) f"
  have "tab_get ?g k l \<noteq> 0 \<longrightarrow> (tab_get ?g k l = 1 \<longleftrightarrow> re_match s p k l)"
    if "k \<le> length s" "l \<le> length p" for k l
  proof (cases "k = i \<and> l = j")
    case False
    then have "tab_get ?g k l = tab_get f k l" using a by (auto simp: memo_ok_def)
    then show ?thesis using a(1) that by (simp add: memo_ok_def)
  qed (use a in \<open>auto simp: memo_ok_def\<close>)
  then show ?thesis using a(1) by (simp add: memo_ok_def)
qed

lemma match_dfs_ok:
  "memo_ok s p f \<Longrightarrow> i \<le> length s \<Longrightarrow> j \<le> length p \<Longrightarrow>
    fst (match_dfs s p i j f) = re_match s p i j \<and> memo_ok s p (snd (match_dfs s p i j f))"
proof (induction s p i j f rule: match_dfs.induct)
  case (1 s p i j f)
  show ?case
  proof (cases "length p \<le> j \<or> tab_get f i j \<noteq> 0")
    case True
    then show ?thesis using "1.prems" re_match_end [of p j i s]
      by (subst (1 2) match_dfs.simps) (auto simp: memo_ok_def)
  next
    case False
    then have j: "\<not> length p \<le> j" "\<not> tab_get f i j \<noteq> 0" by simp_all
    show ?thesis
    proof (cases "j + 1 < length p \<and> p ! (j + 1) = CHR ''*''")
      case star: True
      obtain a f1 where a: "match_dfs s p i (j + 2) f = (a, f1)" by fastforce
      have A: "a = re_match s p i (j + 2)" "memo_ok s p f1"
        using "1.IH"(1) [OF j star "1.prems"(1,2)] star a by auto
      have "\<exists>b f2. (if a then (True, f1) else if char_fits s p i j then match_dfs s p (i + 1) j f1 else (False, f1)) =
          (b, f2) \<and> b = re_match s p i j \<and> memo_ok s p f2"
      proof (cases "\<not> a \<and> char_fits s p i j")
        case True
        then have "Suc i \<le> length s" by (simp add: char_fits_def)
        then show ?thesis
          using "1.IH"(2) [OF j star a [symmetric]] A True "1.prems" re_match_star [of j p s i] star
          by (cases "match_dfs s p (i + 1) j f1") auto
      next
        case False
        then show ?thesis using A re_match_star [of j p s i] star by auto
      qed
      then obtain b f2 where
        "(if a then (True, f1) else if char_fits s p i j then match_dfs s p (i + 1) j f1 else (False, f1)) = (b, f2)"
        "b = re_match s p i j" "memo_ok s p f2" by blast
      then have "match_dfs s p i j f = (b, tab_set i j (if b then 1 else - 1) f2)"
        using j star a by (subst match_dfs.simps) simp
      then show ?thesis using memo_ok_set [OF \<open>memo_ok s p f2\<close> "1.prems"(2,3)] \<open>b = re_match s p i j\<close> by simp
    next
      case char: False
      have R: "re_match s p i j \<longleftrightarrow> char_fits s p i j \<and> re_match s p (i + 1) (j + 1)"
        using re_match_char [of j p s i] char j by simp
      have "\<exists>b f2. (if char_fits s p i j then match_dfs s p (i + 1) (j + 1) f else (False, f)) = (b, f2) \<and>
          b = re_match s p i j \<and> memo_ok s p f2"
      proof (cases "char_fits s p i j")
        case True
        then have "Suc i \<le> length s" by (simp add: char_fits_def)
        then show ?thesis using "1.IH"(3) [OF j char True "1.prems"(1)] j R True
          by (cases "match_dfs s p (i + 1) (j + 1) f") auto
      next
        case False
        then show ?thesis using R "1.prems"(1) by (intro exI [of _ False] exI [of _ f]) simp
      qed
      then obtain b f2 where
        "(if char_fits s p i j then match_dfs s p (i + 1) (j + 1) f else (False, f)) = (b, f2)"
        "b = re_match s p i j" "memo_ok s p f2" by blast
      then have "match_dfs s p i j f = (if b then (True, f2) else (False, tab_set i j (- 1) f2))"
        unfolding match_dfs.simps [of s p i j f] if_not_P [OF j(1)] if_not_P [OF j(2)] if_not_P [OF char]
        by simp
      then show ?thesis using memo_ok_set [OF \<open>memo_ok s p f2\<close> "1.prems"(2,3)] \<open>b = re_match s p i j\<close>
        \<open>memo_ok s p f2\<close> by (simp split: if_splits)
    qed
  qed
qed

text \<open>
  C35: \<open>is_match\<close> decides whether the whole string is in the language of the pattern; the memo never
  changes an answer.
\<close>

theorem is_match_correct: "is_match s p \<longleftrightarrow> s \<in> re_lang (re_tokens p)"
proof -
  have "memo_ok s p (new_table (length s + 1) (length p + 1) 0)" by (simp add: memo_ok_def)
  from match_dfs_ok [OF this, of 0 0] show ?thesis by (simp add: is_match_def re_match_def)
qed


section \<open>Groups\<close>

definition groups_ok :: "string list \<Rightarrow> (string \<times> string list) list \<Rightarrow> bool" where
  "groups_ok ana gg \<longleftrightarrow> distinct (map fst gg) \<and> fst ` set gg = sort ` set ana \<and>
     (\<forall>(k, v)\<in>set gg. v = filter (\<lambda>s. sort s = k) ana)"

lemma group_push_keys: "fst ` set (group_push k s gg) = insert k (fst ` set gg)"
  by (induction k s gg rule: group_push.induct) auto

lemma group_push_distinct: "distinct (map fst gg) \<Longrightarrow> distinct (map fst (group_push k s gg))"
proof (induction k s gg rule: group_push.induct)
  case (2 k s j v gg)
  have "set (map fst (group_push k s gg)) = insert k (set (map fst gg))"
    using group_push_keys [of k s gg] by simp
  then show ?case using 2 by auto
qed simp

lemma group_push_entries:
  "distinct (map fst gg) \<Longrightarrow> (j, v) \<in> set (group_push k s gg) \<longleftrightarrow>
    (if j = k then (\<exists>w. (k, w) \<in> set gg \<and> v = w @ [s]) \<or> k \<notin> fst ` set gg \<and> v = [s] else (j, v) \<in> set gg)"
  by (induction k s gg rule: group_push.induct) (force split: if_splits)+

lemma groups_ok_push: "groups_ok ana gg \<Longrightarrow> groups_ok (ana @ [s]) (group_push (sort s) s gg)"
proof -
  assume a: "groups_ok ana gg"
  then have d: "distinct (map fst gg)" by (simp add: groups_ok_def)
  have none: "filter (\<lambda>t. sort t = sort s) ana = []" if "sort s \<notin> fst ` set gg"
    using a that unfolding groups_ok_def filter_empty_conv by (metis imageI)
  show ?thesis unfolding groups_ok_def
  proof (intro conjI ballI)
    show "fst ` set (group_push (sort s) s gg) = sort ` set (ana @ [s])"
      using a by (simp add: group_push_keys groups_ok_def)
    fix e assume e: "e \<in> set (group_push (sort s) s gg)"
    obtain k v where kv: "e = (k, v)" by (cases e)
    have old: "w = filter (\<lambda>t. sort t = j) ana" if "(j, w) \<in> set gg" for j w
      using a that by (auto simp: groups_ok_def)
    have "v = filter (\<lambda>t. sort t = k) (ana @ [s])"
    proof (cases "k = sort s")
      case True
      then consider w where "(sort s, w) \<in> set gg" "v = w @ [s]" | "sort s \<notin> fst ` set gg" "v = [s]"
        using e unfolding kv group_push_entries [OF d] by auto
      then show ?thesis by cases (use old none True in simp_all)
    next
      case False
      then have "(k, v) \<in> set gg" using e unfolding kv group_push_entries [OF d] by simp
      then show ?thesis using old False by simp
    qed
    then show "case e of (k, v) \<Rightarrow> v = filter (\<lambda>t. sort t = k) (ana @ [s])" by (simp add: kv)
  qed (rule group_push_distinct [OF d])
qed

text \<open>
  \<open>group_anagrams\<close> returns, in the order the map is traversed, one group for each class of strings
  with the same letters; a group holds the strings of its class in the order they came.
\<close>

lemma group_anagrams_correct:
  assumes "\<And>gg. mset (visit gg) = mset gg"
  shows "mset (group_anagrams visit ana) =
    image_mset (\<lambda>k. filter (\<lambda>s. sort s = k) ana) (mset_set (sort ` set ana))"
proof -
  define gg where "gg = fold (\<lambda>s. group_push (sort s) s) ana []"
  have "groups_ok ana gg"
    unfolding gg_def by (induction ana rule: rev_induct) (simp_all add: groups_ok_push groups_ok_def [of "[]"])
  then have ok: "distinct (map fst gg)" "fst ` set gg = sort ` set ana"
      "\<forall>e\<in>set gg. snd e = filter (\<lambda>s. sort s = fst e) ana"
    by (auto simp: groups_ok_def)
  have "mset (group_anagrams visit ana) = image_mset snd (mset gg)"
    by (simp add: group_anagrams_def Let_def gg_def assms)
  also have "\<dots> = image_mset (\<lambda>e. filter (\<lambda>s. sort s = fst e) ana) (mset gg)"
    using ok(3) by (intro image_mset_cong) simp
  also have "\<dots> = image_mset (\<lambda>k. filter (\<lambda>s. sort s = k) ana) (mset (map fst gg))"
    by (simp add: multiset.map_comp comp_def)
  also have "mset (map fst gg) = mset_set (sort ` set ana)"
    using ok(1,2) mset_set_set [OF ok(1)] by simp
  finally show ?thesis .
qed

lemma same_group: "sort (s :: string) = sort t \<longleftrightarrow> mset s = mset t"
  by (metis mset_sort properties_for_sort sorted_sort)

section \<open>Removing parentheses\<close>

definition other_chars :: "string \<Rightarrow> string" where
  "other_chars = filter (\<lambda>c. c \<noteq> CHR ''('' \<and> c \<noteq> CHR '')'')"

text \<open>The strings that arise from \<open>s\<close> when \<open>l\<close> opening and \<open>r\<close> closing parentheses are removed.\<close>

definition removals :: "string \<Rightarrow> nat \<Rightarrow> nat \<Rightarrow> string set" where
  "removals s l r = {t. subseq t s \<and> other_chars t = other_chars s \<and>
     count_list t CHR ''('' + l = count_list s CHR ''('' \<and> count_list t CHR '')'' + r = count_list s CHR '')''}"

lemma subseq_filter_length: "subseq t s \<Longrightarrow> length (filter P t) \<le> length (filter P s)"
  by (rule list_emb_length) (rule subseq_filter)

lemma subseq_count_list: "subseq t s \<Longrightarrow> count_list t c \<le> count_list s c"
  using subseq_filter_length [of t s "(=) c"] by (simp add: count_list_eq_length_filter)

lemma subseq_other: "subseq t s \<Longrightarrow> length (other_chars t) \<le> length (other_chars s)"
  unfolding other_chars_def by (rule subseq_filter_length)

lemma removals_Nil: "removals [] l r = (if l = 0 \<and> r = 0 then {[]} else {})"
  by (auto simp: removals_def other_chars_def)

lemma subseq_Cons_iff: "subseq t (c # s) \<longleftrightarrow> subseq t s \<or> (\<exists>u. t = c # u \<and> subseq u s)"
  by (cases t) (auto dest: subseq_Cons')

lemma removals_Cons:
  "removals (c # s) l r =
    (if c = CHR ''('' \<and> l \<noteq> 0 then removals s (l - 1) r else {}) \<union>
    (if c = CHR '')'' \<and> r \<noteq> 0 then removals s l (r - 1) else {}) \<union> (#) c ` removals s l r" (is "_ = ?R")
proof (intro set_eqI)
  fix t
  have "t \<in> removals (c # s) l r \<and> subseq t s \<longleftrightarrow>
      t \<in> (if c = CHR ''('' \<and> l \<noteq> 0 then removals s (l - 1) r else {}) \<union>
        (if c = CHR '')'' \<and> r \<noteq> 0 then removals s l (r - 1) else {})" (is "?l \<longleftrightarrow> ?r")
  proof
    assume ?l
    then show ?r
      using subseq_count_list [of t s "CHR ''(''"] subseq_count_list [of t s "CHR '')''"] subseq_other [of t s]
      by (auto simp: removals_def other_chars_def split: if_splits)
  next
    assume ?r
    then show ?l by (auto simp: removals_def other_chars_def split: if_splits)
  qed
  moreover have "t \<in> removals (c # s) l r \<and> (\<exists>u. t = c # u \<and> subseq u s) \<longleftrightarrow> t \<in> (#) c ` removals s l r"
    by (auto simp: removals_def other_chars_def)
  moreover have "t \<in> removals (c # s) l r \<Longrightarrow> subseq t s \<or> (\<exists>u. t = c # u \<and> subseq u s)"
    by (simp add: removals_def subseq_Cons_iff)
  ultimately show "t \<in> removals (c # s) l r \<longleftrightarrow> t \<in> ?R" by blast
qed

lemma removals_length: "t \<in> removals s l r \<Longrightarrow> l + r \<le> length s"
proof -
  assume a: "t \<in> removals s l r"
  have "count_list s CHR ''('' + count_list s CHR '')'' \<le> length s" by (induction s) auto
  then show ?thesis using a by (simp add: removals_def)
qed

lemma paren_dfs_set:
  "distinct ans \<Longrightarrow> distinct (paren_dfs s l r 0 0 t ans) \<and>
    set (paren_dfs s l r 0 0 t ans) = set ans \<union> (@) t ` removals s l r"
proof (induction s arbitrary: l r t ans)
  case Nil
  then show ?case by (auto simp: insert_new_def removals_Nil)
next
  case (Cons c s)
  show ?case
  proof (cases "length (c # s) < l + r")
    case True
    then have "removals (c # s) l r = {}" using removals_length by fastforce
    then show ?thesis using True Cons.prems by simp
  next
    case False
    define a1 where "a1 = (if c = CHR ''('' \<and> l \<noteq> 0 then paren_dfs s (l - 1) r 0 0 t ans else ans)"
    define a2 where "a2 = (if c = CHR '')'' \<and> r \<noteq> 0 then paren_dfs s l (r - 1) 0 0 t a1 else a1)"
    have a1: "distinct a1"
        "set a1 = set ans \<union> (@) t ` (if c = CHR ''('' \<and> l \<noteq> 0 then removals s (l - 1) r else {})"
      using Cons.IH [OF Cons.prems, of "l - 1" r t] Cons.prems by (simp_all add: a1_def)
    have a2: "distinct a2"
        "set a2 = set a1 \<union> (@) t ` (if c = CHR '')'' \<and> r \<noteq> 0 then removals s l (r - 1) else {})"
      using Cons.IH [OF a1(1), of l "r - 1" t] a1(1) by (simp_all add: a2_def)
    have "paren_dfs (c # s) l r 0 0 t ans = paren_dfs s l r 0 0 (t @ [c]) a2"
      using False by (simp add: Let_def a1_def a2_def)
    moreover have "(@) (t @ [c]) ` removals s l r = (@) t ` (#) c ` removals s l r" by (simp add: image_image)
    ultimately show ?thesis
      using Cons.IH [OF a2(1), of l r "t @ [c]"] a1(2) a2(2) unfolding removals_Cons image_Un by auto
  qed
qed

text \<open>
  \<open>remove_invalid_parentheses\<close> returns, each once, exactly the strings that arise by removing
  as many opening parentheses as stay open and as many closing ones as close nothing. It does not
  check that the rest is balanced.
\<close>

theorem remove_invalid_parentheses_removals:
  assumes "\<And>xs. mset (visit xs) = mset xs" and "fold paren_count s (0, 0) = (l, r)"
  shows "distinct (remove_invalid_parentheses visit s) \<and>
    set (remove_invalid_parentheses visit s) = removals s l r"
proof -
  let ?a = "paren_dfs s l r 0 0 [] []"
  have "distinct ?a" "set ?a = removals s l r" using paren_dfs_set [of "[]" s l r "[]"] by simp_all
  moreover have "distinct (visit ?a) = distinct ?a" "set (visit ?a) = set ?a"
    using assms(1) [of ?a] mset_eq_setD mset_eq_imp_distinct_iff by blast+
  ultimately show ?thesis using assms(2) by (simp add: remove_invalid_parentheses_def)
qed

theorem remove_invalid_parentheses_removals_witness:
  "distinct (remove_invalid_parentheses rev ''())'') \<and>
    set (remove_invalid_parentheses rev ''())'') = removals ''())'' 0 1"
  by (rule remove_invalid_parentheses_removals) (simp_all add: paren_count_def)

text \<open>An unbalanced result.\<close>

lemma remove_invalid_parentheses_unbalanced: "remove_invalid_parentheses id '')()'' = [''()'', '')('']"
  by (simp add: remove_invalid_parentheses_def paren_count_def insert_new_def)


end
