(* ===== verification/Substrings.thy ===== *)
theory Substrings
  imports String_Problems
begin

text \<open>
  The programs of \<open>strings.cpp\<close> that look for a longest substring or count subsequences, against
  their specifications: windows of a string, the scan that keeps the best window seen so far
  (\<open>best_to\<close>), and its instances for windows without a repetition and for windows whose characters
  can be rearranged to a palindrome.
\<close>

section \<open>Windows\<close>

text \<open>\<open>window s i j\<close>: the characters from position \<open>i\<close> up to, but not at, position \<open>j\<close>.\<close>

definition window :: "'a list \<Rightarrow> nat \<Rightarrow> nat \<Rightarrow> 'a list" where
  "window s i j = take (j - i) (drop i s)"

lemma length_window [simp]: "j \<le> length s \<Longrightarrow> length (window s i j) = j - i"
  by (simp add: window_def)

lemma window_empty [simp]: "window s i i = []"
  by (simp add: window_def)

lemma window_snoc: "i \<le> j \<Longrightarrow> j < length s \<Longrightarrow> window s i (Suc j) = window s i j @ [s ! j]"
  by (simp add: window_def Suc_diff_le take_Suc_conv_app_nth)

lemma window_Cons: "i < j \<Longrightarrow> j \<le> length s \<Longrightarrow> window s i j = s ! i # window s (Suc i) j"
proof -
  assume a: "i < j" "j \<le> length s"
  then obtain k where "j = Suc (i + k)" using less_imp_Suc_add by blast
  moreover have "drop i s = s ! i # drop (Suc i) s" using a by (simp add: Cons_nth_drop_Suc)
  ultimately show ?thesis by (simp add: window_def)
qed

lemma sublist_window: "sublist u s \<longleftrightarrow> (\<exists>i j. i \<le> j \<and> j \<le> length s \<and> u = window s i j)"
proof
  assume "sublist u s"
  then obtain ps ss where "s = ps @ u @ ss" by (auto simp: sublist_def)
  then show "\<exists>i j. i \<le> j \<and> j \<le> length s \<and> u = window s i j"
    by (intro exI [of _ "length ps"] exI [of _ "length ps + length u"]) (simp add: window_def)
next
  assume "\<exists>i j. i \<le> j \<and> j \<le> length s \<and> u = window s i j"
  then show "sublist u s" by (auto simp: window_def intro: sublist_order.order_trans)
qed

text \<open>The longest substring with a property, and how a scan over the end positions maintains it.\<close>

definition longest_with :: "('a list \<Rightarrow> bool) \<Rightarrow> 'a list \<Rightarrow> int" where
  "longest_with P s = Max (int ` length ` {u. sublist u s \<and> P u})"

definition best_to :: "('a list \<Rightarrow> bool) \<Rightarrow> 'a list \<Rightarrow> nat \<Rightarrow> int \<Rightarrow> bool" where
  "best_to P s r a \<longleftrightarrow> (\<exists>i j. i \<le> j \<and> j \<le> r \<and> P (window s i j) \<and> a = int j - int i) \<and>
     (\<forall>i j. i \<le> j \<and> j \<le> r \<and> P (window s i j) \<longrightarrow> int j - int i \<le> a)"

lemma best_to_0: "P [] \<Longrightarrow> best_to P s 0 0"
  by (auto simp: best_to_def)

lemma best_to_all: "best_to P s (length s) a \<Longrightarrow> longest_with P s = a"
  unfolding longest_with_def
proof (rule Max_eqI)
  assume b: "best_to P s (length s) a"
  show "a \<in> int ` length ` {u. sublist u s \<and> P u}"
    using b unfolding best_to_def sublist_window by (force simp: image_iff)
  show "y \<le> a" if "y \<in> int ` length ` {u. sublist u s \<and> P u}" for y
    using that b unfolding best_to_def sublist_window by (force simp: image_iff)
  have "{u. sublist u s \<and> P u} \<subseteq> set (sublists s)" by auto
  then show "finite (int ` length ` {u. sublist u s \<and> P u})" by (meson List.finite_set finite_imageI finite_subset)
qed

text \<open>\<open>l\<close> is the first start of a window that ends at \<open>r + 1\<close>.\<close>

lemma best_to_Suc:
  assumes "best_to P s r a" and "l \<le> Suc r" and "P (window s l (Suc r))"
    and "\<And>i. i < l \<Longrightarrow> \<not> P (window s i (Suc r))"
  shows "best_to P s (Suc r) (max a (int r - int l + 1))"
  unfolding best_to_def
proof (intro conjI allI impI)
  show "\<exists>i j. i \<le> j \<and> j \<le> Suc r \<and> P (window s i j) \<and> max a (int r - int l + 1) = int j - int i"
  proof (cases "int r - int l + 1 \<le> a")
    case True
    then show ?thesis using assms(1) unfolding best_to_def by (metis le_SucI max_absorb1)
  next
    case False
    then show ?thesis using assms(2,3) by (intro exI [of _ l] exI [of _ "Suc r"]) auto
  qed
  fix i j
  assume ij: "i \<le> j \<and> j \<le> Suc r \<and> P (window s i j)"
  show "int j - int i \<le> max a (int r - int l + 1)"
  proof (cases "j = Suc r")
    case True
    then have "l \<le> i" using assms(4) ij by (meson not_le)
    then show ?thesis using True by simp
  next
    case False
    then have "j \<le> r" using ij by simp
    then show ?thesis using assms(1) ij unfolding best_to_def by (meson le_max_iff_disj)
  qed
qed

text \<open>No window at all ends at \<open>r + 1\<close>.\<close>

lemma best_to_skip:
  assumes "best_to P s r a" and "\<And>i. i \<le> r \<Longrightarrow> \<not> P (window s i (Suc r))" and "P []"
  shows "best_to P s (Suc r) a"
proof -
  have "best_to P s (Suc r) (max a (int r - int (Suc r) + 1))"
    by (rule best_to_Suc [OF assms(1)]) (use assms in auto)
  moreover have "0 \<le> a" using assms(1,3) unfolding best_to_def by (metis diff_self le0 of_nat_0 order_refl window_empty)
  ultimately show ?thesis by simp
qed

section \<open>Substrings without a repetition\<close>

definition counts :: "string \<Rightarrow> int list \<Rightarrow> bool" where
  "counts u cnt \<longleftrightarrow> length cnt = 128 \<and> (\<forall>k<128. cnt ! k = int (count_list u (char_of k)))"

lemma counts_get: "counts u cnt \<Longrightarrow> (of_char c :: nat) < 128 \<Longrightarrow> cnt ! of_char c = int (count_list u c)"
  by (simp add: counts_def)

lemma of_char_inj: "(of_char c :: nat) = k \<Longrightarrow> char_of k = c"
  by auto

lemma counts_snoc:
  "counts u cnt \<Longrightarrow> (of_char c :: nat) < 128 \<Longrightarrow> counts (u @ [c]) (cnt[of_char c := cnt ! of_char c + 1])"
  by (auto simp: counts_def nth_list_update)

lemma counts_Cons:
  "counts (c # u) cnt \<Longrightarrow> (of_char c :: nat) < 128 \<Longrightarrow> counts u (cnt[of_char c := cnt ! of_char c - 1])"
  by (auto simp: counts_def nth_list_update split: if_splits)

lemma unique_shrink_ok:
  assumes "\<forall>c\<in>set s. (of_char c :: nat) < 128" and "r < length s"
    and "counts (window s l (Suc r)) cnt" and "l \<le> r" and "distinct (window s l r)"
    and "\<forall>i<l. \<not> distinct (window s i (Suc r))"
  shows "\<exists>cnt' l'. unique_shrink s (s ! r) cnt l = Inr (cnt', l') \<and> l' \<le> r \<and>
    counts (window s l' (Suc r)) cnt' \<and> distinct (window s l' (Suc r)) \<and>
    (\<forall>i<l'. \<not> distinct (window s i (Suc r)))"
  using assms(3-)
proof (induction "r - l" arbitrary: l cnt rule: less_induct)
  case less
  let ?c = "s ! r"
  have small: "(of_char (s ! i) :: nat) < 128" if "i < length s" for i using assms(1) that by simp
  have w: "window s l (Suc r) = window s l r @ [?c]" using less.prems(2) assms(2) by (simp add: window_snoc)
  have cnt: "cnt ! of_char ?c = int (count_list (window s l r) ?c) + 1"
    using counts_get [OF less.prems(1) small [OF assms(2)]] by (simp add: w)
  show ?case
  proof (cases "?c \<in> set (window s l r)")
    case False
    then have "cnt ! of_char ?c = 1" using cnt count_list_0_iff [of "window s l r" ?c] by simp
    moreover have "distinct (window s l (Suc r))" using False less.prems(3) by (simp add: w)
    ultimately show ?thesis using less.prems by (subst unique_shrink.simps) simp
  next
    case True
    then have lr: "l < r" using less.prems(2) by (cases "l = r") auto
    have "cnt ! of_char ?c > 1"
      using cnt True count_list_0_iff [of "window s l r" ?c] by (metis add.commute add_strict_left_mono
          add.right_neutral neq0_conv of_nat_0_less_iff)
    moreover have "char_at s l = Some (s ! l)" using lr assms(2) by (simp add: char_at_def)
    ultimately have step: "unique_shrink s ?c cnt l =
        unique_shrink s ?c (cnt[of_char (s ! l) := cnt ! of_char (s ! l) - 1]) (Suc l)"
      by (subst unique_shrink.simps) simp
    have c1: "window s l (Suc r) = s ! l # window s (Suc l) (Suc r)"
      using lr assms(2) by (simp add: window_Cons)
    have c2: "window s l r = s ! l # window s (Suc l) r" using lr assms(2) by (simp add: window_Cons)
    show ?thesis unfolding step
    proof (rule less.hyps)
      show "counts (window s (Suc l) (Suc r)) (cnt[of_char (s ! l) := cnt ! of_char (s ! l) - 1])"
        using counts_Cons less.prems(1) small [of l] lr assms(2) by (simp add: c1)
      show "\<forall>i<Suc l. \<not> distinct (window s i (Suc r))"
        using less.prems(4) True w by (auto simp: less_Suc_eq)
    qed (use lr less.prems(3) c2 in auto)
  qed
qed

definition unique_inv :: "string \<Rightarrow> nat \<Rightarrow> (int list \<times> nat \<times> int) result \<Rightarrow> bool" where
  "unique_inv s r st \<longleftrightarrow> (\<exists>cnt l ans. st = Inr (cnt, l, ans) \<and> l \<le> r \<and> counts (window s l r) cnt \<and>
     distinct (window s l r) \<and> (\<forall>i<l. \<not> distinct (window s i r)) \<and> best_to distinct s r ans)"

lemma unique_step_ok:
  assumes "\<forall>c\<in>set s. (of_char c :: nat) < 128" and "r < length s" and "unique_inv s r st"
  shows "unique_inv s (Suc r) (unique_step s r st)"
proof -
  obtain cnt l ans where st: "st = Inr (cnt, l, ans)" "l \<le> r" "counts (window s l r) cnt"
      "distinct (window s l r)" "\<forall>i<l. \<not> distinct (window s i r)" "best_to distinct s r ans"
    using assms(3) by (auto simp: unique_inv_def)
  have small: "(of_char (s ! r) :: nat) < 128" using assms(1,2) by simp
  let ?cnt = "cnt[of_char (s ! r) := cnt ! of_char (s ! r) + 1]"
  have "\<exists>cnt' l'. unique_shrink s (s ! r) ?cnt l = Inr (cnt', l') \<and> l' \<le> r \<and>
    counts (window s l' (Suc r)) cnt' \<and> distinct (window s l' (Suc r)) \<and>
    (\<forall>i<l'. \<not> distinct (window s i (Suc r)))"
  proof (rule unique_shrink_ok [OF assms(1,2)])
    show "counts (window s l (Suc r)) ?cnt"
      using counts_snoc [OF st(3) small] st(2) assms(2) by (simp add: window_snoc)
    show "\<forall>i<l. \<not> distinct (window s i (Suc r))" using st(2,5) assms(2) by (simp add: window_snoc)
  qed (use st in auto)
  then obtain cnt' l' where sh: "unique_shrink s (s ! r) ?cnt l = Inr (cnt', l')" "l' \<le> r"
      "counts (window s l' (Suc r)) cnt'" "distinct (window s l' (Suc r))"
      "\<forall>i<l'. \<not> distinct (window s i (Suc r))" by blast
  have "best_to distinct s (Suc r) (max ans (int r - int l' + 1))"
    by (rule best_to_Suc [OF st(6)]) (use sh in auto)
  then show ?thesis using sh by (simp add: unique_inv_def unique_step_def st(1))
qed

text \<open>
  \<open>longest_unique_substring\<close>, which the program runs, returns the length of the longest
  substring without a repeated character; the inner loop never runs past the end.
\<close>

theorem longest_unique_substring_correct:
  assumes "\<forall>c\<in>set s. (of_char c :: nat) < 128"
  shows "longest_unique_substring s = Inr (Max (int ` length ` {u. sublist u s \<and> distinct u}))"
proof -
  have "unique_inv s (length s) (fold (unique_step s) [0..<length s] (Inr (replicate 128 0, 0, 0)))"
  proof (rule loop_up)
    show "unique_inv s 0 (Inr (replicate 128 0, 0, 0))"
      by (simp add: unique_inv_def counts_def best_to_0)
  qed (use assms unique_step_ok in auto)
  then show ?thesis using assms best_to_all [of distinct s]
    by (auto simp: unique_inv_def longest_unique_substring_def longest_with_def not_le dest!: bspec)
qed

theorem longest_unique_substring_correct_witness:
  "longest_unique_substring ''abca'' = Inr (Max (int ` length ` {u. sublist u ''abca'' \<and> distinct u}))"
  by (rule longest_unique_substring_correct) simp

section \<open>Rearranging to a palindrome\<close>

definition palindromic :: "'a list \<Rightarrow> bool" where
  "palindromic u \<longleftrightarrow> (\<exists>v. mset v = mset u \<and> rev v = v)"

definition odd_letters :: "'a list \<Rightarrow> 'a set" where
  "odd_letters u = {c. odd (count_list u c)}"

lemma odd_letters_set: "odd_letters u \<subseteq> set u"
  using count_list_0_iff [of u] by (force simp: odd_letters_def)

lemma finite_odd_letters [simp]: "finite (odd_letters u)"
  by (rule finite_subset [OF odd_letters_set]) simp

lemma odd_letters_mset: "mset u = mset v \<Longrightarrow> odd_letters u = odd_letters v"
  by (simp add: odd_letters_def flip: count_mset)

lemma odd_letters_wrap [simp]: "odd_letters (c # u @ [c]) = odd_letters u"
  by (auto simp: odd_letters_def)

lemma palindrome_odd: "rev v = v \<Longrightarrow> card (odd_letters v) \<le> 1"
proof (induction v rule: length_induct)
  case (1 v)
  show ?case
  proof (cases v)
    case Nil
    then show ?thesis by (simp add: odd_letters_def)
  next
    case (Cons c w)
    show ?thesis
    proof (cases w rule: rev_cases)
      case Nil
      then have "odd_letters v \<subseteq> {c}" using Cons odd_letters_set [of v] by simp
      then show ?thesis using card_mono [of "{c}" "odd_letters v"] by simp
    next
      case (snoc u d)
      have "rev (c # u @ [d]) = c # u @ [d]" using "1.prems" unfolding Cons snoc .
      then have "d # rev u @ [c] = c # u @ [d]"
        by (simp only: rev.simps rev_append append.simps append_assoc)
      then have cd: "c = d" "rev u = u" by (blast dest: list.inject [THEN iffD1] append1_eq_conv [THEN iffD1])+
      have "card (odd_letters u) \<le> 1"
        using "1.IH" [rule_format, of u] cd(2) unfolding Cons snoc by simp
      then show ?thesis unfolding Cons snoc cd(1) by simp
    qed
  qed
qed

lemma odd_palindromic: "card (odd_letters u) \<le> 1 \<Longrightarrow> palindromic u"
proof (induction u rule: length_induct)
  case (1 u)
  show ?case
  proof (cases "\<exists>c. 2 \<le> count (mset u) c")
    case True
    then obtain c where c: "2 \<le> count (mset u) c" by blast
    then have "{#c, c#} \<subseteq># mset u" by (auto simp: subseteq_mset_def)
    moreover obtain w where w: "mset w = mset u - {#c, c#}" using ex_mset by blast
    ultimately have u: "mset (c # w @ [c]) = mset u" 
      using subset_mset.diff_add [of "{#c, c#}" "mset u"] by simp
    have "length u = length (c # w @ [c])" using mset_eq_length [OF u] by simp
    moreover have "odd_letters u = odd_letters w" using odd_letters_mset [OF u] by simp
    ultimately have "palindromic w" using "1.IH" [rule_format, of w] "1.prems" by simp
    then obtain v where "mset v = mset w" "rev v = v" by (auto simp: palindromic_def)
    then have "mset (c # v @ [c]) = mset u" "rev (c # v @ [c]) = c # v @ [c]" using u by simp_all
    then show ?thesis unfolding palindromic_def by blast
  next
    case False
    then have one: "count (mset u) c \<le> 1" for c by (metis not_less_eq_eq numeral_2_eq_2 One_nat_def)
    have d: "distinct u"
      unfolding distinct_count_atmost_1 using one count_greater_zero_iff [of "mset u"]
      by (metis One_nat_def count_eq_zero_iff le_SucE le_zero_eq set_mset_mset)
    have "odd (count_list u c)" if "c \<in> set u" for c
    proof -
      have "count (mset u) c = 1" using one [of c] that by (metis One_nat_def count_eq_zero_iff le_SucE
          le_zero_eq set_mset_mset)
      then show ?thesis by (simp flip: count_mset)
    qed
    then have "odd_letters u = set u" using odd_letters_set [of u] by (auto simp: odd_letters_def)
    then have "length u \<le> 1" using "1.prems" distinct_card [OF d] by simp
    then have "rev u = u" by (cases u) auto
    then show ?thesis unfolding palindromic_def by blast
  qed
qed

lemma palindromic_iff: "palindromic u \<longleftrightarrow> card (odd_letters u) \<le> 1"
  using odd_palindromic palindrome_odd odd_letters_mset by (metis palindromic_def)


section \<open>Prefix masks\<close>

definition letter :: "nat \<Rightarrow> char" where
  "letter n = char_of (97 + n)"

definition toggle :: "32 word \<Rightarrow> char \<Rightarrow> 32 word" where
  "toggle msk c = xor msk (push_bit (of_char c - 97) 1)"

definition prefix_mask :: "string \<Rightarrow> nat \<Rightarrow> 32 word" where
  "prefix_mask s i = fold (\<lambda>k msk. toggle msk (s ! k)) [0..<i] 0"

lemma prefix_mask_0 [simp]: "prefix_mask s 0 = 0"
  by (simp add: prefix_mask_def)

lemma prefix_mask_Suc: "prefix_mask s (Suc i) = toggle (prefix_mask s i) (s ! i)"
  by (simp add: prefix_mask_def)

lemma is_lower_letter: "is_lower c \<longleftrightarrow> (\<exists>n<26. c = letter n)"
proof
  assume "is_lower c"
  then have "of_char c - 97 < (26 :: nat)" "c = letter (of_char c - 97)" by (auto simp: is_lower_def letter_def)
  then show "\<exists>n<26. c = letter n" by blast
qed (auto simp: is_lower_def letter_def of_char_of)

lemma letter_eq: "is_lower c \<Longrightarrow> n < 32 \<Longrightarrow> c = letter n \<longleftrightarrow> of_char c - 97 = n"
  by (auto simp: is_lower_def letter_def of_char_of)

lemma bit_toggle:
  "is_lower c \<Longrightarrow> n < 32 \<Longrightarrow> bit (toggle msk c) n \<longleftrightarrow> (bit msk n \<noteq> (c = letter n))"
  by (auto simp: toggle_def bit_xor_iff bit_exp_iff letter_eq)

lemma bit_flip:
  "j < 26 \<Longrightarrow> n < 32 \<Longrightarrow> bit (xor msk (push_bit j 1) :: 32 word) n \<longleftrightarrow> (bit msk n \<noteq> (j = n))"
  by (auto simp: bit_xor_iff bit_exp_iff)

lemma bit_prefix_mask:
  assumes "\<forall>c\<in>set s. is_lower c" and "i \<le> length s" and "n < 32"
  shows "bit (prefix_mask s i) n \<longleftrightarrow> odd (count_list (take i s) (letter n))"
  using assms(2)
proof (induction i)
  case (Suc i)
  then have "is_lower (s ! i)" using assms(1) by simp
  then show ?case using Suc assms(3) by (simp add: prefix_mask_Suc bit_toggle take_Suc_conv_app_nth)
qed simp

lemma word32_eq_iff: "(a :: 32 word) = b \<longleftrightarrow> (\<forall>n<32. bit a n \<longleftrightarrow> bit b n)"
  by (auto simp: bit_eq_iff intro: bit_imp_le_length)

lemma take_window: "i \<le> j \<Longrightarrow> take j s = take i s @ window s i j"
  by (simp add: window_def flip: take_add)

lemma odd_letters_window:
  assumes "\<forall>c\<in>set s. is_lower c" and "i \<le> j" and "j \<le> length s" and "n < 32"
  shows "letter n \<in> odd_letters (window s i j) \<longleftrightarrow> bit (prefix_mask s i) n \<noteq> bit (prefix_mask s j) n"
  using bit_prefix_mask [OF assms(1) _ assms(4), of i] bit_prefix_mask [OF assms(1,3,4)] assms(2,3)
    take_window [OF assms(2), of s] by (auto simp: odd_letters_def)

lemma odd_letters_lower:
  assumes "\<forall>c\<in>set s. is_lower c" and "c \<in> odd_letters (window s i j)"
  obtains n where "n < 26" "c = letter n"
proof -
  have "set (window s i j) \<subseteq> set s" unfolding window_def by (meson order_trans set_drop_subset set_take_subset)
  then have "is_lower c" using assms odd_letters_set [of "window s i j"] by blast
  then show thesis using that is_lower_letter by blast
qed

lemma letter_inj: "m < 32 \<Longrightarrow> n < 32 \<Longrightarrow> letter m = letter n \<longleftrightarrow> m = n"
proof
  assume "m < 32" "n < 32" "letter m = letter n"
  then have "(of_char (letter m) :: nat) = of_char (letter n)" by simp
  then show "m = n" using \<open>m < 32\<close> \<open>n < 32\<close> by (simp add: letter_def of_char_of)
qed simp

text \<open>Which earlier masks the program looks up.\<close>

definition matching :: "32 word \<Rightarrow> 32 word \<Rightarrow> bool" where
  "matching a b \<longleftrightarrow> a = b \<or> (\<exists>j<26. a = xor b (push_bit j 1))"

lemma palindromic_window:
  assumes low: "\<forall>c\<in>set s. is_lower c" and "i \<le> j" and "j \<le> length s"
  shows "palindromic (window s i j) \<longleftrightarrow> matching (prefix_mask s i) (prefix_mask s j)"
proof -
  let ?o = "odd_letters (window s i j)"
  note bits = odd_letters_window [OF assms]
  have "?o = {} \<longleftrightarrow> prefix_mask s i = prefix_mask s j"
  proof
    assume "?o = {}"
    then show "prefix_mask s i = prefix_mask s j" using bits by (auto simp: word32_eq_iff)
  next
    assume eq: "prefix_mask s i = prefix_mask s j"
    have "c \<notin> ?o" for c
    proof
      assume "c \<in> ?o"
      moreover obtain n where "n < 26" "c = letter n" using odd_letters_lower [OF low \<open>c \<in> ?o\<close>] by blast
      ultimately show False using bits [of n] eq by simp
    qed
    then show "?o = {}" by blast
  qed
  moreover have "?o = {letter k} \<longleftrightarrow> prefix_mask s i = xor (prefix_mask s j) (push_bit k 1)" if k: "k < 26" for k
  proof
    assume o: "?o = {letter k}"
    show "prefix_mask s i = xor (prefix_mask s j) (push_bit k 1)"
      unfolding word32_eq_iff
    proof (intro allI impI)
      fix n :: nat assume n: "n < 32"
      show "bit (prefix_mask s i) n = bit (xor (prefix_mask s j) (push_bit k 1)) n"
        unfolding bit_flip [OF k n] using bits [OF n] o k letter_inj [of n k] n by auto
    qed
  next
    assume eq: "prefix_mask s i = xor (prefix_mask s j) (push_bit k 1)"
    have flip: "letter n \<in> ?o \<longleftrightarrow> k = n" if "n < 32" for n
      using bits [OF that] unfolding eq bit_flip [OF k that] by auto
    show "?o = {letter k}"
    proof (intro set_eqI iffI)
      fix c assume c: "c \<in> ?o"
      then obtain n where "n < 26" "c = letter n" using odd_letters_lower [OF low c] by blast
      then show "c \<in> {letter k}" using flip [of n] c by simp
    next
      fix c assume "c \<in> {letter k}"
      then show "c \<in> ?o" using flip [of k] k by simp
    qed
  qed
  moreover have "card ?o \<le> 1 \<longleftrightarrow> ?o = {} \<or> (\<exists>k<26. ?o = {letter k})"
  proof
    assume "card ?o \<le> 1"
    then consider "card ?o = 0" | "card ?o = 1" by linarith
    then show "?o = {} \<or> (\<exists>k<26. ?o = {letter k})"
    proof cases
      case 2
      then obtain c where c: "?o = {c}" by (auto simp: card_1_singleton_iff)
      then obtain n where "n < 26" "c = letter n" using odd_letters_lower [OF low, of c i j] by blast
      then show ?thesis using c by blast
    qed simp
  qed auto
  ultimately show ?thesis by (auto simp: palindromic_iff matching_def)
qed

section \<open>The longest rearrangeable substring\<close>

text \<open>The inner loop takes the maximum over the positions it finds.\<close>

lemma fold_max_found:
  fixes c a :: int and g :: "'a \<Rightarrow> int option"
  defines "R \<equiv> \<lambda>xs. fold (\<lambda>j a. case g j of Some p \<Rightarrow> max a (c - p) | None \<Rightarrow> a) xs a"
  shows "a \<le> R xs \<and> (\<forall>j\<in>set xs. \<forall>p. g j = Some p \<longrightarrow> c - p \<le> R xs) \<and>
    (R xs = a \<or> (\<exists>j\<in>set xs. \<exists>p. g j = Some p \<and> R xs = c - p))"
proof (induction xs rule: rev_induct)
  case (snoc x xs)
  have "R (xs @ [x]) = (case g x of Some p \<Rightarrow> max (R xs) (c - p) | None \<Rightarrow> R xs)"
    unfolding R_def fold_append comp_apply by simp
  then show ?case using snoc by (cases "g x") (force simp: max_def)+
qed (simp add: R_def)

definition mask_index :: "string \<Rightarrow> nat \<Rightarrow> 32 word \<Rightarrow> int option" where
  "mask_index s i m =
     (if \<exists>k\<le>i. prefix_mask s k = m then Some (int (LEAST k. prefix_mask s k = m) - 1) else None)"

lemma mask_index_Some:
  assumes "mask_index s i m = Some p"
  obtains k where "k \<le> i" "prefix_mask s k = m" "p = int k - 1"
proof -
  obtain k where k: "k \<le> i" "prefix_mask s k = m" "p = int (LEAST k. prefix_mask s k = m) - 1"
    using assms by (auto simp: mask_index_def split: if_splits)
  have "(LEAST k. prefix_mask s k = m) \<le> k" "prefix_mask s (LEAST k. prefix_mask s k = m) = m"
    using k(2) by (auto intro: Least_le LeastI)
  then show thesis using that k(1,3) le_trans by blast
qed

lemma mask_index_found: "k \<le> i \<Longrightarrow> \<exists>p. mask_index s i (prefix_mask s k) = Some p \<and> p \<le> int k - 1"
proof -
  assume "k \<le> i"
  moreover have "(LEAST l. prefix_mask s l = prefix_mask s k) \<le> k" by (rule Least_le) simp
  ultimately show ?thesis by (auto simp: mask_index_def)
qed

lemma mask_index_Suc:
  "mask_index s (Suc i) =
    (case mask_index s i (prefix_mask s (Suc i)) of
       Some p \<Rightarrow> mask_index s i | None \<Rightarrow> (mask_index s i)(prefix_mask s (Suc i) \<mapsto> int i))"
proof (cases "\<exists>k\<le>i. prefix_mask s k = prefix_mask s (Suc i)")
  case True
  then have "(\<exists>k\<le>Suc i. prefix_mask s k = m) \<longleftrightarrow> (\<exists>k\<le>i. prefix_mask s k = m)" for m
    by (metis le_Suc_eq)
  then show ?thesis using True by (simp add: mask_index_def fun_eq_iff)
next
  case False
  have "(LEAST k. prefix_mask s k = prefix_mask s (Suc i)) = Suc i"
    using False by (intro Least_equality) (auto simp: not_less_eq_eq)
  then show ?thesis using False by (auto simp: mask_index_def fun_eq_iff le_Suc_eq)
qed

definition palin_inv :: "string \<Rightarrow> nat \<Rightarrow> (32 word \<Rightarrow> int option) \<times> int \<times> 32 word \<Rightarrow> bool" where
  "palin_inv s i st \<longleftrightarrow> fst st = mask_index s i \<and> snd (snd st) = prefix_mask s i \<and>
     best_to palindromic s i (fst (snd st))"

lemma palindromic_Nil [simp]: "palindromic []"
  by (simp add: palindromic_def)

lemma palin_step_ok:
  assumes low: "\<forall>c\<in>set s. is_lower c" and i: "i < length s" and inv: "palin_inv s i st"
  shows "palin_inv s (Suc i) (palin_step s i st)"
proof -
  obtain idx a m where st: "st = (idx, a, m)" by (cases st)
  have best: "best_to palindromic s i a" and idx: "idx = mask_index s i" and m: "m = prefix_mask s i"
    using inv by (simp_all add: palin_inv_def st)
  let ?m = "prefix_mask s (Suc i)" and ?idx = "mask_index s (Suc i)"
  define a1 where "a1 = (case mask_index s i ?m of Some p \<Rightarrow> max a (int i - p) | None \<Rightarrow> a)"
  define a2 where "a2 = fold (\<lambda>j a. case ?idx (xor ?m (push_bit j 1)) of
      Some p \<Rightarrow> max a (int i - p) | None \<Rightarrow> a) [0..<26] a1"
  have step: "palin_step s i st = (?idx, a2, ?m)"
  proof -
    have "xor (prefix_mask s i) (push_bit (of_char (s ! i) - 97) 1) = ?m"
      by (simp add: prefix_mask_Suc toggle_def)
    then show ?thesis
      by (cases "mask_index s i ?m")
        (simp_all add: palin_step_def st idx m a2_def a1_def mask_index_Suc Let_def del: push_bit_of_1)
  qed
  have a2: "a1 \<le> a2" "\<And>j p. j < 26 \<Longrightarrow> ?idx (xor ?m (push_bit j 1)) = Some p \<Longrightarrow> int i - p \<le> a2"
      "a2 = a1 \<or> (\<exists>j<26. \<exists>p. ?idx (xor ?m (push_bit j 1)) = Some p \<and> a2 = int i - p)"
    using fold_max_found [where a = a1 and xs = "[0..<26]" and c = "int i"
        and g = "\<lambda>j. ?idx (xor ?m (push_bit j 1))"]
    unfolding a2_def by (auto simp del: push_bit_of_1)
  have pal: "palindromic (window s k (Suc i)) \<longleftrightarrow> matching (prefix_mask s k) ?m" if "k \<le> Suc i" for k
    using palindromic_window [OF low that] i by simp
  have "best_to palindromic s (Suc i) a2"
    unfolding best_to_def
  proof (intro conjI allI impI)
    let ?E = "\<exists>k j. k \<le> j \<and> j \<le> Suc i \<and> palindromic (window s k j) \<and> a2 = int j - int k"
    have new: ?E if E: "?idx x = Some p" "matching x ?m" "a2 = int i - p" for x p
    proof -
      obtain k where "k \<le> Suc i" "prefix_mask s k = x" "p = int k - 1" by (rule mask_index_Some [OF E(1)])
      then show ?thesis using E pal by (intro exI [of _ k] exI [of _ "Suc i"]) auto
    qed
    show ?E
    proof (cases "a2 = a")
      case True
      obtain k j where "k \<le> j" "j \<le> i" "palindromic (window s k j)" "a = int j - int k"
        using best unfolding best_to_def by blast
      then show ?thesis using True by (intro exI [of _ k] exI [of _ j]) simp
    next
      case False
      from a2(3) show ?thesis
      proof
        assume "a2 = a1"
        then have "\<exists>p. mask_index s i ?m = Some p \<and> a2 = int i - p"
          using False by (auto simp: a1_def max_def split: option.splits if_splits)
        then show ?thesis using new [of ?m] by (auto simp: mask_index_Suc matching_def)
      next
        assume "\<exists>j<26. \<exists>p. ?idx (xor ?m (push_bit j 1)) = Some p \<and> a2 = int i - p"
        then obtain j p where j: "j < 26" "?idx (xor ?m (push_bit j 1)) = Some p" "a2 = int i - p" by blast
        moreover have "matching (xor ?m (push_bit j 1)) ?m" unfolding matching_def using j(1) by blast
        ultimately show ?thesis using new by blast
      qed
    qed
    fix k j
    assume kj: "k \<le> j \<and> j \<le> Suc i \<and> palindromic (window s k j)"
    have a1: "a \<le> a1" by (auto simp: a1_def split: option.splits)
    show "int j - int k \<le> a2"
    proof (cases "j = Suc i")
      case False
      then have "int j - int k \<le> a" using best kj unfolding best_to_def by (meson le_SucE)
      then show ?thesis using a1 a2(1) by simp
    next
      case True
      then have "matching (prefix_mask s k) ?m" using pal [of k] kj by blast
      then show ?thesis unfolding matching_def
      proof
        assume eq: "prefix_mask s k = ?m"
        show ?thesis
        proof (cases "k = Suc i")
          case True
          have "0 \<le> a" using best unfolding best_to_def by (metis diff_self le0 order_refl palindromic_Nil window_empty)
          then show ?thesis using True \<open>j = Suc i\<close> a1 a2(1) by simp
        next
          case False
          then obtain p where "mask_index s i ?m = Some p" "p \<le> int k - 1"
            using mask_index_found [of k i s] eq kj True by auto
          then show ?thesis using a2(1) True by (simp add: a1_def)
        qed
      next
        assume "\<exists>j<26. prefix_mask s k = xor ?m (push_bit j 1)"
        then obtain b where b: "b < 26" "prefix_mask s k = xor ?m (push_bit b 1)" by blast
        obtain p where "?idx (prefix_mask s k) = Some p" "p \<le> int k - 1"
          using mask_index_found [of k "Suc i" s] kj True by auto
        then show ?thesis using a2(2) [OF b(1), of p] b(2) True by simp
      qed
    qed
  qed
  then show ?thesis by (simp add: palin_inv_def step)
qed

text \<open>
  On a string of lower case letters \<open>longest_substring\<close> returns the length of the longest
  substring whose characters can be rearranged to form a palindrome.
\<close>

theorem longest_substring_correct:
  assumes "\<forall>c\<in>set s. is_lower c"
  shows "longest_substring s (length s) = Inr (Max (int ` length `
    {u. sublist u s \<and> (\<exists>v. mset v = mset u \<and> rev v = v)}))"
proof -
  have "palin_inv s (length s) (fold (palin_step s) [0..<length s] (Map.empty(0 \<mapsto> - 1), 0, 0))"
  proof (rule loop_up)
    have "(LEAST k. prefix_mask s k = 0) = 0" by (rule Least_eq_0) simp
    then show "palin_inv s 0 (Map.empty(0 \<mapsto> - 1), 0, 0)"
      by (auto simp: palin_inv_def mask_index_def fun_eq_iff best_to_0)
  qed (use assms palin_step_ok in auto)
  moreover have "\<not> (\<exists>c\<in>set s. of_char c < (97 :: nat) \<or> 128 \<le> (of_char c :: nat))"
    using assms by (fastforce simp: is_lower_def)
  ultimately show ?thesis using best_to_all [of palindromic s]
    by (auto simp: longest_substring_def palin_inv_def longest_with_def palindromic_def [symmetric])
qed

theorem longest_substring_correct_witness:
  "longest_substring ''abcb'' 4 = Inr (Max (int ` length `
    {u. sublist u ''abcb'' \<and> (\<exists>v. mset v = mset u \<and> rev v = v)}))"
  using longest_substring_correct [of "''abcb''"] by (simp add: is_lower_def eval_nat_numeral)


section \<open>Counting subsequences\<close>

lemma subseq_snoc:
  "subseq u (xs @ [x]) \<longleftrightarrow> subseq u xs \<or> (\<exists>v. u = v @ [x] \<and> subseq v xs)"
proof -
  have "subseq u (xs @ [x]) \<longleftrightarrow> subseq (rev u) (x # rev xs)" using subseq_rev [of u "xs @ [x]"] by simp
  also have "\<dots> \<longleftrightarrow> subseq (rev u) (rev xs) \<or> (\<exists>v. rev u = x # rev v \<and> subseq (rev v) (rev xs))"
    by (cases "rev u") (auto simp: rev_swap dest: subseq_Cons' intro: exI [of _ "rev ys" for ys])
  also have "\<dots> \<longleftrightarrow> subseq u xs \<or> (\<exists>v. u = v @ [x] \<and> subseq v xs)"
    by (simp add: subseq_rev rev_swap)
  finally show ?thesis .
qed

lemma subseq_snoc_last:
  "x \<notin> set zs \<Longrightarrow> subseq (v @ [x]) (ys @ x # zs) \<longleftrightarrow> subseq v ys"
proof (induction zs rule: rev_induct)
  case Nil
  show ?case
  proof
    assume "subseq (v @ [x]) (ys @ [x])"
    then show "subseq v ys" using subseq_rev [of "v @ [x]" "ys @ [x]"] subseq_rev [of v ys] by simp
  qed simp
next
  case (snoc z zs)
  then show ?case using subseq_snoc [of "v @ [x]" "ys @ x # zs" z] by simp
qed

lemma subseq_snoc_notin: "x \<notin> set xs \<Longrightarrow> \<not> subseq (v @ [x]) xs"
  using list_emb_set [of "(=)" "v @ [x]" xs x] by auto

abbreviation subseq_count :: "'a list \<Rightarrow> int" where
  "subseq_count xs \<equiv> int (card (set (subseqs xs)))"

lemma set_subseqs_snoc:
  "set (subseqs (xs @ [x])) = set (subseqs xs) \<union> (\<lambda>v. v @ [x]) ` set (subseqs xs)"
  by (auto simp: subseq_snoc)

lemma subseq_count_new: "x \<notin> set xs \<Longrightarrow> subseq_count (xs @ [x]) = 2 * subseq_count xs"
proof -
  assume "x \<notin> set xs"
  then have "set (subseqs xs) \<inter> (\<lambda>v. v @ [x]) ` set (subseqs xs) = {}" by (auto simp: subseq_snoc_notin)
  then show ?thesis by (simp add: set_subseqs_snoc card_Un_disjoint card_image inj_on_def)
qed

lemma subseq_count_again:
  assumes "x \<notin> set zs" and "xs = ys @ x # zs"
  shows "subseq_count (xs @ [x]) = 2 * subseq_count xs - subseq_count ys"
proof -
  let ?A = "set (subseqs xs)" and ?B = "(\<lambda>v. v @ [x]) ` set (subseqs xs)"
  have "subseq v xs" if "subseq v ys" for v
    using list_emb_append_mono [OF that, of "[]" "x # zs"] assms(2) by simp
  then have "?A \<inter> ?B = (\<lambda>v. v @ [x]) ` set (subseqs ys)"
    using assms by (auto simp: subseq_snoc_last)
  then have "card (?A \<inter> ?B) = card (set (subseqs ys))" by (simp add: card_image inj_on_def)
  moreover have "card ?B = card ?A" by (simp add: card_image inj_on_def)
  ultimately show ?thesis using card_Un_Int [of ?A ?B] by (simp add: set_subseqs_snoc)
qed

definition distinct_inv :: "string \<Rightarrow> nat \<Rightarrow> int list \<times> int list \<Rightarrow> bool" where
  "distinct_inv s i = (\<lambda>(dp, last).
     length dp = length s + 1 \<and> length last = 26 \<and> (\<forall>k<i. dp ! k = subseq_count (take k s)) \<and>
     (\<forall>n<26. last ! n = - 1 \<and> letter n \<notin> set (take (i - 1) s) \<or>
       (\<exists>k zs. last ! n = int k \<and> take (i - 1) s = take k s @ letter n # zs \<and> k < i - 1 \<and> letter n \<notin> set zs)))"

lemma distinct_step_ok:
  assumes low: "\<forall>c\<in>set s. is_lower c" and i: "1 \<le> i" "i < length s + 1" and inv: "distinct_inv s i st"
  shows "distinct_inv s (Suc i) (distinct_step s i st)"
proof -
  obtain dp last where st: "st = (dp, last)" by (cases st)
  obtain q where q: "i = Suc q" "q < length s" using i by (cases i) auto
  let ?c = "s ! q"
  obtain n where n: "n < 26" "?c = letter n" using low q(2) is_lower_letter nth_mem by blast
  have "is_lower ?c" using low q(2) by simp
  then have code: "of_char ?c - 97 = n" using letter_eq [of ?c n] n by simp
  have t: "take (Suc q) s = take q s @ [?c]" using q(2) by (simp add: take_Suc_conv_app_nth)
  have len: "length dp = length s + 1" "length last = 26" and
    dp: "\<And>k. k < i \<Longrightarrow> dp ! k = subseq_count (take k s)" and
    last: "\<And>m. m < 26 \<Longrightarrow> last ! m = - 1 \<and> letter m \<notin> set (take q s) \<or>
      (\<exists>k zs. last ! m = int k \<and> take q s = take k s @ letter m # zs \<and> k < q \<and> letter m \<notin> set zs)"
    using inv q(1) by (auto simp: distinct_inv_def st)
  define dp' where "dp' = fst (distinct_step s i st)"
  have step: "distinct_step s i st = (dp', last[n := int q])"
    by (simp add: dp'_def distinct_step_def st q(1) code Let_def)
  have dp'_eq: "dp' = dp[i := subseq_count (take i s)]"
  proof -
    have "dp' = dp[i := (if last ! n \<noteq> - 1 then 2 * dp ! q - dp ! nat (last ! n) else 2 * dp ! q)]"
      if "\<And>k. last ! n = int k \<Longrightarrow> k < i"
    proof (cases "last ! n = - 1")
      case False
      have "nat (last ! n) \<noteq> i" using that False last [OF n(1)] by (metis nat_int less_irrefl)
      then show ?thesis using False len q
        by (simp add: dp'_def distinct_step_def st code Let_def)
    qed (simp add: dp'_def distinct_step_def st q(1) code Let_def)
    moreover have "k < i" if "last ! n = int k" for k using last [OF n(1)] that q(1) by auto
    moreover have "(if last ! n \<noteq> - 1 then 2 * dp ! q - dp ! nat (last ! n) else 2 * dp ! q) = subseq_count (take i s)"
      using last [OF n(1)]
    proof
      assume "last ! n = - 1 \<and> letter n \<notin> set (take q s)"
      then show ?thesis using dp [of q] q(1) t subseq_count_new [of ?c "take q s"] n(2) by simp
    next
      assume "\<exists>k zs. last ! n = int k \<and> take q s = take k s @ letter n # zs \<and> k < q \<and> letter n \<notin> set zs"
      then obtain k zs where k: "last ! n = int k" "take q s = take k s @ letter n # zs" "k < q"
          "letter n \<notin> set zs" by blast
      have "subseq_count (take q s @ [?c]) = 2 * subseq_count (take q s) - subseq_count (take k s)"
        by (rule subseq_count_again) (use k n in auto)
      then show ?thesis using dp [of q] dp [of k] k q(1) t by simp
    qed
    ultimately show ?thesis by simp
  qed
  have "last[n := int q] ! m = - 1 \<and> letter m \<notin> set (take i s) \<or>
      (\<exists>k zs. last[n := int q] ! m = int k \<and> take i s = take k s @ letter m # zs \<and> k < i \<and> letter m \<notin> set zs)"
    if "m < 26" for m
  proof (cases "m = n")
    case True
    then show ?thesis using t n len q(1) by (intro disjI2 exI [of _ q] exI [of _ "[]"]) simp
  next
    case False
    then have ne: "letter m \<noteq> ?c" using n that letter_inj [of m n] by simp
    from last [OF that] show ?thesis
    proof
      assume "last ! m = - 1 \<and> letter m \<notin> set (take q s)"
      then show ?thesis using False ne t q(1) by simp
    next
      assume "\<exists>k zs. last ! m = int k \<and> take q s = take k s @ letter m # zs \<and> k < q \<and> letter m \<notin> set zs"
      then obtain k zs where "last ! m = int k" "take q s = take k s @ letter m # zs" "k < q"
          "letter m \<notin> set zs" by blast
      then show ?thesis using False ne t q(1) by (intro disjI2 exI [of _ k] exI [of _ "zs @ [?c]"]) simp
    qed
  qed
  then show ?thesis using len dp i by (auto simp: step distinct_inv_def dp'_eq less_Suc_eq)
qed

text \<open>
  On a string of lower case letters \<open>count_distinct_subseq\<close> returns the number of distinct
  subsequences, the empty one included.
\<close>

theorem count_distinct_subseq_correct:
  assumes "\<forall>c\<in>set s. is_lower c"
  shows "count_distinct_subseq s = Inr (int (card {u. subseq u s}))"
proof -
  let ?init = "((replicate (length s + 1) 0)[0 := 1], replicate 26 (- 1))"
  have "distinct_inv s (length s + 1) (fold (distinct_step s) [1..<length s + 1] ?init)"
  proof (rule loop_up)
    show "distinct_inv s 1 ?init" by (simp add: distinct_inv_def)
  qed (use assms distinct_step_ok in auto)
  moreover have "{u. subseq u s} = set (subseqs s)" by auto
  ultimately show ?thesis using assms
    by (auto simp: distinct_inv_def count_distinct_subseq_def Let_def split: prod.splits)
qed

theorem count_distinct_subseq_correct_witness: "count_distinct_subseq ''gfg'' = Inr (int (card {u. subseq u ''gfg''}))"
  by (rule count_distinct_subseq_correct) (simp add: is_lower_def)

section \<open>Removing runs\<close>

text \<open>One removal of \<open>k\<close> equal neighbours.\<close>

inductive remove_run :: "nat \<Rightarrow> 'a list \<Rightarrow> 'a list \<Rightarrow> bool" for k where
  "remove_run k (xs @ replicate k c @ ys) (xs @ ys)"

lemma remove_run_append: "remove_run k s t \<Longrightarrow> remove_run k (s @ u) (t @ u)"
  by (erule remove_run.cases) (metis append.assoc remove_run.intros)

lemma remove_runs_append: "(remove_run k)\<^sup>*\<^sup>* s t \<Longrightarrow> (remove_run k)\<^sup>*\<^sup>* (s @ u) (t @ u)"
  by (induction rule: rtranclp_induct) (auto intro: remove_run_append rtranclp.rtrancl_into_rtrancl)

definition irreducible :: "nat \<Rightarrow> 'a list \<Rightarrow> bool" where
  "irreducible k t \<longleftrightarrow> \<not> (\<exists>t'. remove_run k t t')"

lemma irreducible_iff: "irreducible k t \<longleftrightarrow> (\<forall>c. \<not> sublist (replicate k c) t)"
  by (auto simp: irreducible_def sublist_def remove_run.simps)

text \<open>The text on the stack, and the stack as the program keeps it: neighbours differ, counts are below \<open>k\<close>.\<close>

fun stack_text :: "(char \<times> int) list \<Rightarrow> string" where
  "stack_text [] = []"
| "stack_text ((c, n) # st) = stack_text st @ replicate (nat n) c"

fun stack_ok :: "int \<Rightarrow> (char \<times> int) list \<Rightarrow> bool" where
  "stack_ok k [] \<longleftrightarrow> True"
| "stack_ok k ((c, n) # st) \<longleftrightarrow> 1 \<le> n \<and> n < k \<and> stack_ok k st \<and> (st \<noteq> [] \<longrightarrow> fst (hd st) \<noteq> c)"

lemma stack_text_last: "stack_ok k st \<Longrightarrow> st \<noteq> [] \<Longrightarrow> stack_text st \<noteq> [] \<and> last (stack_text st) = fst (hd st)"
  by (cases st rule: stack_text.cases) auto

lemma unwind_text: "stack_ok k st \<Longrightarrow> rev (k_chars_unwind st res) = stack_text st @ rev res"
proof (induction st arbitrary: res rule: stack_text.induct)
  case (2 c n st)
  have "rev (if n > 1 then res @ replicate (nat n) c else res @ [c]) = replicate (nat n) c @ rev res"
  proof (cases "n > 1")
    case False
    then have "n = 1" using "2.prems" by simp
    then show ?thesis by simp
  qed simp
  then show ?case using "2.IH" "2.prems" by simp
qed simp

lemma push_ok: "2 \<le> k \<Longrightarrow> stack_ok k st \<Longrightarrow> stack_ok k (k_chars_push k c st)"
  by (cases st rule: stack_text.cases) (auto simp: k_chars_push_def Let_def)

lemma push_removes:
  assumes "2 \<le> k" and "stack_ok k st"
  shows "(remove_run (nat k))\<^sup>*\<^sup>* (stack_text st @ [c]) (stack_text (k_chars_push k c st))"
proof (cases st rule: stack_text.cases)
  case 1
  then show ?thesis by (simp add: k_chars_push_def)
next
  case (2 d n st')
  have n: "1 \<le> n" "n < k" using assms(2) 2 by auto
  have snoc: "replicate (nat n) c @ [c] = replicate (nat (n + 1)) c"
    using n by (simp add: nat_add_distrib replicate_append_same)
  show ?thesis
  proof (cases "d = c \<and> n + 1 = k")
    case True
    have "remove_run (nat k) (stack_text st' @ replicate (nat k) c @ []) (stack_text st' @ [])"
      by (rule remove_run.intros)
    then show ?thesis using 2 True snoc by (auto simp: k_chars_push_def)
  next
    case False
    then show ?thesis using 2 n snoc by (auto simp: k_chars_push_def Let_def)
  qed
qed

lemma replicate_suffix:
  assumes "u @ replicate k c = v @ replicate n d" and "n < k" and "0 < n" and "v \<noteq> []"
  shows "last v = d"
proof -
  have "replicate n d = drop (length u + k - n) (u @ replicate k c)"
    using assms(1) by (metis append_eq_conv_conj diff_diff_cancel length_append length_replicate add_diff_cancel_right')
  moreover have "\<dots> = replicate n c" using assms(2) by simp
  ultimately have cd: "c = d" using assms(3) by (metis replicate_eq_replicate less_numeral_extra(3))
  have "replicate k c = replicate (k - n) c @ replicate n c" using assms(2) by (simp flip: replicate_add)
  then have "(u @ replicate (k - n) c) @ replicate n c = v @ replicate n c" using assms(1) cd by simp
  then have "v = u @ replicate (k - n) c" by simp
  then show ?thesis using cd assms(2) by simp
qed

lemma stack_irreducible: "2 \<le> k \<Longrightarrow> stack_ok k st \<Longrightarrow> irreducible (nat k) (stack_text st)"
proof (induction st rule: stack_text.induct)
  case 1
  then show ?case by (auto simp: irreducible_iff)
next
  case (2 c n st)
  let ?t = "stack_text st" and ?k = "nat k"
  have IH: "\<not> sublist (replicate ?k d) ?t" for d using "2.IH" "2.prems" by (simp add: irreducible_iff)
  have n: "nat n < ?k" "0 < nat n" using "2.prems" by auto
  have "m \<le> nat n \<Longrightarrow> \<not> sublist (replicate ?k d) (?t @ replicate m c)" for m d
  proof (induction m)
    case (Suc m)
    show ?case
    proof
      assume "sublist (replicate ?k d) (?t @ replicate (Suc m) c)"
      then obtain ps ss where e: "?t @ replicate (Suc m) c = ps @ replicate ?k d @ ss"
        by (auto simp: sublist_def)
      show False
      proof (cases ss rule: rev_cases)
        case Nil
        have "ps @ replicate ?k d = ?t @ replicate (Suc m) c" using e Nil by simp
        then show False
        proof (cases "?t = []")
          case True
          then have "?k \<le> Suc m" using arg_cong [OF e, of length] by simp
          then show False using Suc.prems n by simp
        next
          case False
          then have "last ?t = c"
            using replicate_suffix [of ps ?k d ?t "Suc m" c] e Nil Suc.prems n by simp
          moreover have "st \<noteq> []" using False by auto
          ultimately show False using stack_text_last [of k st] "2.prems" by simp
        qed
      next
        case (snoc ss' x)
        then have "?t @ replicate m c = ps @ replicate ?k d @ ss'"
          using e by (simp add: replicate_append_same [symmetric] del: replicate_append_same replicate_Suc)
            (metis append.assoc append1_eq_conv replicate_Suc replicate_append_same)
        then have "sublist (replicate ?k d) (?t @ replicate m c)" by (auto simp: sublist_def)
        then show False using Suc by simp
      qed
    qed
  qed (simp add: IH)
  then show ?case by (simp add: irreducible_iff)
qed

text \<open>
  \<open>remove_k_chars\<close> removes runs of \<open>k\<close> equal neighbours until none is left: its result is
  reached from the string by such removals and has no run of \<open>k\<close> equal characters.
\<close>

theorem remove_k_chars_reduces:
  assumes "1 \<le> k"
  shows "(remove_run (nat k))\<^sup>*\<^sup>* s (remove_k_chars k s) \<and> irreducible (nat k) (remove_k_chars k s)"
proof (cases "k = 1")
  case True
  have "(remove_run 1)\<^sup>*\<^sup>* s []"
  proof (induction s)
    case (Cons c s)
    have "remove_run 1 ([] @ replicate 1 c @ s) ([] @ s)" by (rule remove_run.intros)
    then show ?case using Cons by (simp add: converse_rtranclp_into_rtranclp)
  qed simp
  then show ?thesis using True by (auto simp: remove_k_chars_def irreducible_iff)
next
  case False
  then have k: "2 \<le> k" using assms by simp
  let ?st = "\<lambda>i. fold (k_chars_push k) (take i s) []"
  have inv: "stack_ok k (?st i) \<and> (remove_run (nat k))\<^sup>*\<^sup>* (take i s) (stack_text (?st i))" if "i \<le> length s" for i
    using that
  proof (induction i)
    case (Suc i)
    have t: "take (Suc i) s = take i s @ [s ! i]" using Suc.prems by (simp add: take_Suc_conv_app_nth)
    have st: "?st (Suc i) = k_chars_push k (s ! i) (?st i)" by (simp add: t)
    from Suc have IH: "stack_ok k (?st i)" "(remove_run (nat k))\<^sup>*\<^sup>* (take i s) (stack_text (?st i))"
      by simp_all
    have "(remove_run (nat k))\<^sup>*\<^sup>* (take i s @ [s ! i]) (stack_text (?st (Suc i)))"
      unfolding st using remove_runs_append [OF IH(2)] push_removes [OF k IH(1)] by (rule rtranclp_trans)
    moreover have "stack_ok k (?st (Suc i))" unfolding st using push_ok [OF k IH(1)] .
    ultimately show ?case unfolding t [symmetric] by blast
  qed simp
  from inv [of "length s"] have "stack_ok k (fold (k_chars_push k) s [])"
      "(remove_run (nat k))\<^sup>*\<^sup>* s (stack_text (fold (k_chars_push k) s []))" by simp_all
  then show ?thesis using False unwind_text [of k _ "[]"] stack_irreducible [OF k]
    by (simp add: remove_k_chars_def)
qed

theorem remove_k_chars_reduces_witness:
  "(remove_run 2)\<^sup>*\<^sup>* ''abba'' (remove_k_chars 2 ''abba'') \<and> irreducible 2 (remove_k_chars 2 ''abba'')"
  using remove_k_chars_reduces [of 2 "''abba''"] by simp


end
