(* ===== verification/Graphs.thy ===== *)
theory Graphs
  imports Tables "HOL-Library.Monad_Syntax" "HOL-Library.List_Lexorder" "HOL-Library.Product_Lexorder"
begin

text \<open>
  \<open>algorithms/graphs/graphs.cpp\<close>: the graph and grid problems and their program. \<open>None\<close> is the
  outcome of a run without a meaning (a read or write outside a vector or array, a shift out of
  range) and of one that does not end; the loops and recursions whose end depends on the data are
  \<open>partial_function\<close>s, and the theorems in \<open>Grids\<close>, \<open>Topological_Sort\<close> and \<open>Malware\<close> show that
  theirs end. A vertex is a natural number once it has been compared with the size of the
  arrays it indexes. Sums are integers: the model agrees with the code while they are in range.
\<close>

section \<open>Loops that may fail\<close>

fun fold_opt :: "('a \<Rightarrow> 's \<Rightarrow> 's option) \<Rightarrow> 'a list \<Rightarrow> 's \<Rightarrow> 's option" where
  "fold_opt f [] s = Some s"
| "fold_opt f (x # xs) s = f x s \<bind> fold_opt f xs"

lemma fold_opt_mono [partial_function_mono]:
  assumes "\<And>x s. mono_option (\<lambda>f. F f x s)"
  shows "mono_option (\<lambda>f. fold_opt (F f) xs s)"
proof (induction xs arbitrary: s)
  case Nil
  show ?case by (auto intro: partial_function_mono)
next
  case (Cons x xs)
  have "mono_option (\<lambda>f. F f x s \<bind> (\<lambda>s. fold_opt (F f) xs s))"
    by (rule bind_mono [OF assms Cons.IH])
  then show ?case by simp
qed

text \<open>A loop that never fails, by an invariant over the elements done so far.\<close>

lemma fold_opt_inv:
  assumes "P [] s" and "\<And>ys x zs s. xs = ys @ x # zs \<Longrightarrow> P ys s \<Longrightarrow> \<exists>s'. f x s = Some s' \<and> P (ys @ [x]) s'"
  shows "\<exists>s'. fold_opt f xs s = Some s' \<and> P xs s'"
proof -
  have "\<exists>s'. fold_opt f zs t = Some s' \<and> P (ys @ zs) s'" if "P ys t" "xs = ys @ zs" for ys zs t
    using that
  proof (induction zs arbitrary: ys t)
    case (Cons x zs)
    then obtain t' where "f x t = Some t'" "P (ys @ [x]) t'" using assms(2) by blast
    then show ?case using Cons.IH [of "ys @ [x]" t'] Cons.prems by simp
  qed simp
  from this [of "[]" s xs] assms(1) show ?thesis by simp
qed

datatype GRAPH_PROBLEM =
    SURROUNDING_XO | TOPOLOGICAL_SORT | LINE_CHART | WAYS_ARRIVE_DESTINATION | OBSTACLE_REMOVAL
  | INCREASING_PATHS | PARALLEL_COURSE2 | MINIMIZE_MALWARE_SPREAD | NUMBER_OF_GOOD_PATHS
  | FIND_EDGES_SHORTEST_PATH | SUDOKU_SOLVER

section \<open>Grids\<close>

text \<open>
  A grid has \<open>m\<close> rows and, as many columns as its first row; a shorter row is read past its end.
  The neighbours of a cell come in the order of the array \<open>dir\<close>.
\<close>

definition grid_ok :: "'a table \<Rightarrow> bool" where
  "grid_ok grid \<longleftrightarrow> grid \<noteq> [] \<and> (\<forall>row\<in>set grid. length (hd grid) \<le> length row)"

definition dirs :: "(int \<times> int) list" where
  "dirs = [(- 1, 0), (0, 1), (1, 0), (0, - 1)]"

definition in_grid :: "nat \<Rightarrow> nat \<Rightarrow> int \<Rightarrow> int \<Rightarrow> bool" where
  "in_grid m n x y \<longleftrightarrow> 0 \<le> x \<and> x < int m \<and> 0 \<le> y \<and> y < int n"

definition grid_nbrs :: "nat \<Rightarrow> nat \<Rightarrow> nat \<Rightarrow> nat \<Rightarrow> (nat \<times> nat) list" where
  "grid_nbrs m n i j =
     map (\<lambda>(x, y). (nat x, nat y))
       (filter (\<lambda>(x, y). in_grid m n x y) (map (\<lambda>(dx, dy). (int i + dx, int j + dy)) dirs))"

partial_function (option) fill_dfs :: "nat \<Rightarrow> nat \<Rightarrow> int \<Rightarrow> int \<Rightarrow> char table \<Rightarrow> char table option" where
  "fill_dfs m n i j grid =
     (if i < 0 \<or> int m \<le> i \<or> j < 0 \<or> int n \<le> j \<or> tab_get grid (nat i) (nat j) \<noteq> CHR ''O'' then Some grid
      else fold_opt (\<lambda>d grid. fill_dfs m n (i + fst d) (j + snd d) grid) dirs
        (tab_set (nat i) (nat j) CHR ''.'' grid))"

definition fill_char :: "char \<Rightarrow> char" where
  "fill_char c = (if c = CHR ''.'' then CHR ''O'' else if c = CHR ''O'' then CHR ''X'' else c)"

definition fill_grid :: "char table \<Rightarrow> char table option" where
  "fill_grid grid =
     (if \<not> grid_ok grid then None
      else
        let m = length grid; n = length (hd grid) in
        do {
          grid \<leftarrow> fold_opt (\<lambda>i grid. fill_dfs m n (int i) 0 grid \<bind> fill_dfs m n (int i) (int n - 1)) [0..<m] grid;
          grid \<leftarrow> fold_opt (\<lambda>j grid. fill_dfs m n 0 (int j) grid \<bind> fill_dfs m n (int m - 1) (int j)) [1..<m - 1] grid;
          Some (map (\<lambda>row. map fill_char (take n row) @ drop n row) grid)
        })"

text \<open>\<open>min_obstacles\<close>: a deque, to whose front the free cells go. The array \<open>vis\<close> has \<open>m * n\<close> elements.\<close>

definition obstacle_push ::
  "int table \<Rightarrow> int \<Rightarrow> nat \<times> nat \<Rightarrow> (nat \<times> nat \<times> int) list \<Rightarrow> (nat \<times> nat \<times> int) list" where
  "obstacle_push grid k = (\<lambda>(x, y) dq. if tab_get grid x y = 0 then (x, y, k) # dq else dq @ [(x, y, k + 1)])"

partial_function (option) obstacle_loop ::
  "int table \<Rightarrow> nat \<Rightarrow> nat \<Rightarrow> (nat \<times> nat \<times> int) list \<Rightarrow> bool table \<Rightarrow> int option" where
  "obstacle_loop grid m n dq vis =
     (case dq of
        [] \<Rightarrow> Some (- 1)
      | (i, j, k) # dq \<Rightarrow>
          if i = m - 1 \<and> j = n - 1 then Some k
          else if tab_get vis i j then obstacle_loop grid m n dq vis
          else obstacle_loop grid m n (fold (obstacle_push grid k) (grid_nbrs m n i j) dq)
            (tab_set i j True vis))"

definition min_obstacles :: "int table \<Rightarrow> int option" where
  "min_obstacles grid =
     (let m = length grid; n = length (hd grid) in
      if \<not> grid_ok grid \<or> n = 0 then None
      else obstacle_loop grid m n [(0, 0, 0)] (new_table m n False))"

text \<open>\<open>count_paths\<close>: paths along which the numbers increase; \<open>f\<close> is the memo, 0 for unknown.\<close>

abbreviation path_mod :: int where
  "path_mod \<equiv> 1000000007"

partial_function (option) inc_dfs ::
  "int table \<Rightarrow> nat \<Rightarrow> nat \<Rightarrow> nat \<Rightarrow> nat \<Rightarrow> int table \<Rightarrow> (int \<times> int table) option" where
  "inc_dfs grid m n i j f =
     (if tab_get f i j \<noteq> 0 then Some (tab_get f i j, f)
      else do {
        st \<leftarrow> fold_opt (\<lambda>c st.
          if tab_get grid i j < tab_get grid (fst c) (snd c) then do {
            r \<leftarrow> inc_dfs grid m n (fst c) (snd c) (snd st);
            Some ((fst st + fst r) mod path_mod, snd r)
          } else Some st) (grid_nbrs m n i j) (1, f);
        Some (fst st, tab_set i j (fst st) (snd st))
      })"

definition count_paths :: "int table \<Rightarrow> int option" where
  "count_paths grid =
     (let m = length grid; n = length (hd grid) in
      if \<not> grid_ok grid then None
      else map_option fst (fold_opt (\<lambda>i. fold_opt (\<lambda>j st. do {
             r \<leftarrow> inc_dfs grid m n i j (snd st);
             Some ((fst st + fst r) mod path_mod, snd r)
           }) [0..<n]) [0..<m] (0, new_table m n 0)))"

section \<open>Edges\<close>

definition vertex_of :: "nat \<Rightarrow> int \<Rightarrow> nat option" where
  "vertex_of n x = (if 0 \<le> x \<and> x < int n then Some (nat x) else None)"

fun edge2 :: "nat \<Rightarrow> int list \<Rightarrow> (nat \<times> nat) option" where
  "edge2 n (a # b # _) = do { a \<leftarrow> vertex_of n a; b \<leftarrow> vertex_of n b; Some (a, b) }"
| "edge2 n _ = None"

fun edge3 :: "nat \<Rightarrow> int list \<Rightarrow> (nat \<times> nat \<times> int) option" where
  "edge3 n (a # b # w # _) = do { a \<leftarrow> vertex_of n a; b \<leftarrow> vertex_of n b; Some (a, b, w) }"
| "edge3 n _ = None"

section \<open>Topological order\<close>

definition topo_graph :: "nat \<Rightarrow> (nat \<times> nat) list \<Rightarrow> nat list list \<times> int list" where
  "topo_graph V edges =
     fold (\<lambda>(a, b) (e, ins). (e[a := e ! a @ [b]], ins[b := ins ! b + 1])) edges
       (replicate V [], replicate V 0)"

definition topo_visit :: "nat \<Rightarrow> int list \<times> nat list \<Rightarrow> int list \<times> nat list" where
  "topo_visit u = (\<lambda>(ins, q).
     let ins = ins[u := ins ! u - 1] in (ins, if ins ! u = 0 then q @ [u] else q))"

partial_function (option) topo_loop ::
  "nat list list \<Rightarrow> int list \<Rightarrow> nat list \<Rightarrow> nat list \<Rightarrow> nat list option" where
  "topo_loop e ins q topo =
     (case q of
        [] \<Rightarrow> Some topo
      | v # q \<Rightarrow> (case fold topo_visit (e ! v) (ins, q) of
          (ins, q) \<Rightarrow> topo_loop e ins q (topo @ [v])))"

definition toposort :: "nat \<Rightarrow> int list list \<Rightarrow> nat list option" where
  "toposort V edges = do {
     es \<leftarrow> those (map (edge2 V) edges);
     let (e, ins) = topo_graph V es;
     topo_loop e ins (filter (\<lambda>v. ins ! v = 0) [0..<V]) []
   }"

section \<open>Lines\<close>

text \<open>\<open>minimum_lines\<close> sorts the points, compared as vectors, and counts the changes of the slope.\<close>

definition line_step :: "(int \<times> int) list \<Rightarrow> nat \<Rightarrow> int \<times> int \<times> int \<Rightarrow> int \<times> int \<times> int" where
  "line_step ps i = (\<lambda>(ans, dx, dy).
     let dx1 = fst (ps ! i) - fst (ps ! (i - 1)); dy1 = snd (ps ! i) - snd (ps ! (i - 1))
     in (if dy1 * dx \<noteq> dx1 * dy then ans + 1 else ans, dx1, dy1))"

definition minimum_lines :: "int list list \<Rightarrow> int option" where
  "minimum_lines stockPrices =
     (if length stockPrices \<le> 1 then Some 0
      else if \<exists>p\<in>set stockPrices. length p < 2 then None
      else
        let ps = map (\<lambda>p. (p ! 0, p ! 1)) (sort stockPrices)
        in Some (fst (fold (line_step ps) [1..<length ps] (0, 0, 1))))"

section \<open>Courses\<close>

text \<open>
  \<open>min_num_of_semesters\<close>: sets of courses are the bits of an \<open>int\<close>; \<open>(1 << (n + 1)) - 2\<close> is in range
  for \<open>n < 30\<close>.
\<close>

definition popcount :: "32 word \<Rightarrow> int" where
  "popcount w = int (length (filter (bit w) [0..<32]))"

definition course_masks :: "nat \<Rightarrow> int list list \<Rightarrow> 32 word list option" where
  "course_masks n relations =
     fold_opt (\<lambda>e d. case e of
         a # b # _ \<Rightarrow>
           if 0 \<le> a \<and> a < 32 \<and> 0 \<le> b \<and> b \<le> int n
           then Some (d[nat b := or (d ! nat b) (push_bit (nat a) 1)]) else None
       | _ \<Rightarrow> None) relations (replicate (n + 1) 0)"

definition semester_push ::
  "32 word \<Rightarrow> int \<Rightarrow> 32 word list \<times> (32 word \<times> int) list \<Rightarrow> 32 word list \<times> (32 word \<times> int) list" where
  "semester_push m t = (\<lambda>(vis, q). if m \<in> set vis then (vis, q) else (vis @ [m], q @ [(m, t + 1)]))"

function submask_loop ::
  "int \<Rightarrow> 32 word \<Rightarrow> int \<Rightarrow> 32 word \<Rightarrow> 32 word \<Rightarrow>
    32 word list \<times> (32 word \<times> int) list \<Rightarrow> 32 word list \<times> (32 word \<times> int) list" where
  "submask_loop k cur t x nxt st =
     (if nxt = 0 then st
      else submask_loop k cur t x (and (nxt - 1) x)
        (if popcount nxt = k then semester_push (or nxt cur) t st else st))"
  by pat_completeness auto
termination
proof (relation "measure (\<lambda>(k, cur, t, x, nxt, st). unat nxt)", goal_cases)
  case (2 k cur t x nxt st)
  have "and (nxt - 1) x \<le> nxt - 1" by (rule word_and_le2)
  moreover have "nxt - 1 < nxt" using 2 by (simp add: word_less_nat_alt unat_minus_one unat_gt_0)
  ultimately have "and (nxt - 1) x < nxt" by (rule le_less_trans)
  then show ?case by (simp add: word_less_nat_alt)
qed simp

declare submask_loop.simps [simp del]

partial_function (option) semester_loop ::
  "nat \<Rightarrow> int \<Rightarrow> 32 word list \<Rightarrow> (32 word \<times> int) list \<Rightarrow> 32 word list \<Rightarrow> int option" where
  "semester_loop n k d q vis =
     (case q of
        [] \<Rightarrow> Some 0
      | (cur, t) # q \<Rightarrow>
          if cur = push_bit (n + 1) 1 - 2 then Some t
          else
            let nxt = fold (\<lambda>i nxt. if and cur (d ! i) = d ! i then or nxt (push_bit i 1) else nxt) [1..<n + 1] 0;
                nxt = and nxt (not cur)
            in (case (if popcount nxt \<le> k then semester_push (or nxt cur) t (vis, q)
                      else submask_loop k cur t nxt nxt (vis, q)) of
                  (vis, q) \<Rightarrow> semester_loop n k d q vis))"

definition min_num_of_semesters :: "nat \<Rightarrow> int list list \<Rightarrow> int \<Rightarrow> int option" where
  "min_num_of_semesters n relations k =
     (if 30 \<le> n then None
      else do { d \<leftarrow> course_masks n relations; semester_loop n k d [(0, 0)] [0] })"

section \<open>Malware\<close>

text \<open>
  The disjoint sets \<open>dsu\<close>: \<open>e[x]\<close> is the parent of \<open>x\<close>, or, when it is negative, \<open>x\<close> is a root and
  \<open>-e[x]\<close> the size of its set. \<open>get\<close> compresses the path.
\<close>

definition dsu_init :: "nat \<Rightarrow> int list" where
  "dsu_init n = replicate n (- 1)"

partial_function (option) dsu_get :: "nat \<Rightarrow> int list \<Rightarrow> (nat \<times> int list) option" where
  "dsu_get x e =
     (if e ! x < 0 then Some (x, e)
      else do { r \<leftarrow> dsu_get (nat (e ! x)) e; Some (fst r, (snd r)[x := int (fst r)]) })"

definition dsu_same_set :: "nat \<Rightarrow> nat \<Rightarrow> int list \<Rightarrow> (bool \<times> int list) option" where
  "dsu_same_set x y e = do {
     (x, e) \<leftarrow> dsu_get x e; (y, e) \<leftarrow> dsu_get y e; Some (x = y, e)
   }"

definition dsu_size :: "nat \<Rightarrow> int list \<Rightarrow> (int \<times> int list) option" where
  "dsu_size x e = do { (x, e) \<leftarrow> dsu_get x e; Some (- (e ! x), e) }"

definition dsu_unite :: "nat \<Rightarrow> nat \<Rightarrow> int list \<Rightarrow> (bool \<times> int list) option" where
  "dsu_unite x y e = do {
     (x, e) \<leftarrow> dsu_get x e;
     (y, e) \<leftarrow> dsu_get y e;
     if x = y then Some (False, e)
     else
       let (x, y) = (if e ! x > e ! y then (y, x) else (x, y));
           e = e[x := e ! x + e ! y]
       in Some (True, e[y := int x])
   }"

definition malware_unite :: "int table \<Rightarrow> nat \<Rightarrow> nat \<Rightarrow> int list \<Rightarrow> int list option" where
  "malware_unite graph i j e =
     (if tab_get graph i j \<noteq> 0 then map_option snd (dsu_unite i j e) else Some e)"

definition malware_count :: "nat \<Rightarrow> int list \<times> int list \<Rightarrow> (int list \<times> int list) option" where
  "malware_count x = (\<lambda>(e, cnt). do {
     (root, e) \<leftarrow> dsu_get x e; Some (e, cnt[root := cnt ! root + 1])
   })"

definition malware_best :: "int list \<Rightarrow> nat \<Rightarrow> int list \<times> nat \<times> int \<Rightarrow> (int list \<times> nat \<times> int) option" where
  "malware_best cnt x = (\<lambda>(e, ans, mx). do {
     (root, e) \<leftarrow> dsu_get x e;
     if cnt ! root = 1 then do {
       (sz, e) \<leftarrow> dsu_size root e;
       Some (if sz > mx \<or> sz = mx \<and> ans > x then (e, x, sz) else (e, ans, mx))
     } else Some (e, ans, mx)
   })"

definition min_malware_spread :: "int table \<Rightarrow> int list \<Rightarrow> nat option" where
  "min_malware_spread graph initial =
     (let n = length graph in
      if \<exists>row\<in>set graph. length row < n then None
      else do {
        e \<leftarrow> fold_opt (\<lambda>i. fold_opt (malware_unite graph i) [0..<n]) [0..<n] (dsu_init n);
        init \<leftarrow> those (map (vertex_of n) initial);
        (e, cnt) \<leftarrow> fold_opt malware_count init (e, replicate n 0);
        (e, ans, mx) \<leftarrow> fold_opt (malware_best cnt) init (e, n, 0);
        if ans = n then (case init of [] \<Rightarrow> None | x # xs \<Rightarrow> Some (fold min xs x)) else Some ans
      })"

section \<open>Fees\<close>

abbreviation inf30 :: int where
  "inf30 \<equiv> 2 ^ 30"

definition fee_step :: "int list \<Rightarrow> nat \<Rightarrow> nat \<times> nat \<times> int \<Rightarrow> int table \<Rightarrow> int table" where
  "fee_step fees i = (\<lambda>(x, y, t) f.
     if t \<le> int i then
       let f = tab_set i x (min (tab_get f i x) (tab_get f (i - nat t) y + fees ! x)) f
       in tab_set i y (min (tab_get f i y) (tab_get f (i - nat t) x + fees ! y)) f
     else f)"

text \<open>A negative time indexes past the end of the table. The edges are not looked at when the time is 0.\<close>

definition min_cost_time :: "nat \<Rightarrow> int list list \<Rightarrow> int list \<Rightarrow> int option" where
  "min_cost_time maxTime edges fees =
     (let m = maxTime; n = length fees in
      if n = 0 then None
      else do {
        es \<leftarrow> (if m = 0 then Some [] else those (map (edge3 n) edges));
        if \<exists>e\<in>set es. snd (snd e) < 0 then None
        else
          let f = tab_set 0 0 (fees ! 0) (new_table (m + 1) n inf30);
              f = fold (\<lambda>i. fold (fee_step fees i) es) [1..<m + 1] f;
              ans = fold (\<lambda>i ans. min ans (tab_get f i (n - 1))) [1..<m + 1] inf30
          in Some (if ans = inf30 then - 1 else ans)
      })"

section \<open>Good paths\<close>

definition adjacent_to :: "nat \<Rightarrow> (nat \<times> nat) list \<Rightarrow> nat list list" where
  "adjacent_to n edges =
     fold (\<lambda>(a, b) g. let g = g[a := g ! a @ [b]] in g[b := g ! b @ [a]]) edges (replicate n [])"

partial_function (option) good_get :: "nat \<Rightarrow> nat list \<Rightarrow> (nat \<times> nat list) option" where
  "good_get x p =
     (if x = p ! x then Some (x, p)
      else do { r \<leftarrow> good_get (p ! x) p; Some (fst r, (snd r)[x := fst r]) })"

text \<open>
  One neighbour \<open>y\<close> of a vertex of value \<open>v\<close>. The loop variable \<open>x\<close> of the source, a reference into
  the sorted array, is overwritten with its root; \<open>size\<close> is a map of maps, 0 where nothing was put.
\<close>

definition good_step ::
  "int list \<Rightarrow> int \<Rightarrow> nat \<Rightarrow> nat \<times> nat list \<times> (nat \<Rightarrow> int \<Rightarrow> int) \<times> int \<Rightarrow>
    (nat \<times> nat list \<times> (nat \<Rightarrow> int \<Rightarrow> int) \<times> int) option" where
  "good_step vals v y = (\<lambda>(x, p, size, ans).
     if vals ! y > v then Some (x, p, size, ans)
     else do {
       (x, p) \<leftarrow> good_get x p;
       (y, p) \<leftarrow> good_get y p;
       if x = y then Some (x, p, size, ans)
       else
         let ans = ans + size x v * size y v
         in Some (x, p[y := x], size(x := (size x)(v := size x v + size y v)), ans)
     })"

definition num_of_good_paths :: "int list \<Rightarrow> int list list \<Rightarrow> int option" where
  "num_of_good_paths vals edges =
     (let n = length vals in do {
        es \<leftarrow> those (map (edge2 n) edges);
        let g = adjacent_to n es;
        let arr = sort (map (\<lambda>i. (vals ! i, i)) [0..<n]);
        let size = (\<lambda>i v. if i < n \<and> v = vals ! i then 1 else 0);
        (p, size, ans) \<leftarrow> fold_opt (\<lambda>(v, x) (p, size, ans). do {
          (x, p, size, ans) \<leftarrow> fold_opt (good_step vals v) (g ! x) (x, p, size, ans);
          Some (p, size, ans)
        }) arr ([0..<n], size, int n);
        Some ans
      })"

section \<open>Shortest paths\<close>

text \<open>
  \<open>find_shortese_edges\<close>: \<open>g\<close> lists the other end, the length and the number of each edge at a
  vertex. The priority queue, whose top is the least pair, is a sorted list.
\<close>

type_synonym weighted = "(nat \<times> int \<times> nat) list list"

definition weighted_graph :: "nat \<Rightarrow> (nat \<times> nat \<times> int) list \<Rightarrow> weighted" where
  "weighted_graph n edges =
     fold (\<lambda>i g. case edges ! i of (a, b, w) \<Rightarrow>
       let g = g[a := g ! a @ [(b, w, i)]] in g[b := g ! b @ [(a, w, i)]]) [0..<length edges] (replicate n [])"

definition relax :: "nat \<Rightarrow> nat \<times> int \<times> nat \<Rightarrow> int list \<times> (int \<times> nat) list \<Rightarrow> int list \<times> (int \<times> nat) list" where
  "relax from = (\<lambda>(to, w, _) (dist, pq).
     if dist ! from + w < dist ! to
     then (dist[to := dist ! from + w], insort (dist ! from + w, to) pq) else (dist, pq))"

partial_function (option) dijkstra_loop :: "weighted \<Rightarrow> int list \<Rightarrow> (int \<times> nat) list \<Rightarrow> int list option" where
  "dijkstra_loop g dist pq =
     (case pq of
        [] \<Rightarrow> Some dist
      | (d, from) # pq \<Rightarrow>
          if d \<noteq> dist ! from then dijkstra_loop g dist pq
          else (case fold (relax from) (g ! from) (dist, pq) of (dist, pq) \<Rightarrow> dijkstra_loop g dist pq))"

definition mark_edge ::
  "int list \<Rightarrow> nat \<Rightarrow> nat \<times> int \<times> nat \<Rightarrow> bool list \<times> bool list \<times> nat list \<Rightarrow> bool list \<times> bool list \<times> nat list" where
  "mark_edge dist to = (\<lambda>(from, w, i) (ans, vis, q).
     if dist ! to = dist ! from + w then
       (ans[i := True], if vis ! from then vis else vis[from := True], if vis ! from then q else q @ [from])
     else (ans, vis, q))"

partial_function (option) mark_loop ::
  "weighted \<Rightarrow> int list \<Rightarrow> bool list \<Rightarrow> bool list \<Rightarrow> nat list \<Rightarrow> bool list option" where
  "mark_loop g dist ans vis q =
     (case q of
        [] \<Rightarrow> Some ans
      | to # q \<Rightarrow> (case fold (mark_edge dist to) (g ! to) (ans, vis, q) of
          (ans, vis, q) \<Rightarrow> mark_loop g dist ans vis q))"

definition find_shortese_edges :: "nat \<Rightarrow> int list list \<Rightarrow> bool list option" where
  "find_shortese_edges n edges = do {
     es \<leftarrow> those (map (edge3 n) edges);
     if n = 0 then None
     else do {
       let g = weighted_graph n es;
       dist \<leftarrow> dijkstra_loop g ((replicate n inf30)[0 := 0]) [(0, 0)];
       let ans = replicate (length edges) False;
       if dist ! (n - 1) = inf30 then Some ans
       else mark_loop g dist ans ((replicate n False)[n - 1 := True]) [n - 1]
     }
   }"

section \<open>Ways to arrive\<close>

abbreviation inf18 :: int where
  "inf18 \<equiv> 10 ^ 18"

definition roads_graph :: "nat \<Rightarrow> (nat \<times> nat \<times> int) list \<Rightarrow> (nat \<times> int) list list" where
  "roads_graph n roads =
     fold (\<lambda>(a, b, w) g. let g = g[a := g ! a @ [(b, w)]] in g[b := g ! b @ [(a, w)]]) roads (replicate n [])"

definition nearest :: "nat \<Rightarrow> int list \<Rightarrow> bool list \<Rightarrow> nat option" where
  "nearest n d u =
     fold (\<lambda>j v. if \<not> u ! j \<and> (case v of None \<Rightarrow> True | Some v \<Rightarrow> d ! j < d ! v) then Some j else v) [0..<n] None"

definition arrive_step :: "nat \<Rightarrow> nat \<times> int \<Rightarrow> int list \<times> int list \<Rightarrow> int list \<times> int list" where
  "arrive_step v = (\<lambda>(to, len) (d, f).
     if d ! v + len < d ! to then (d[to := d ! v + len], f[to := f ! v])
     else if d ! to = d ! v + len then (d, f[to := (f ! to + f ! v) mod path_mod])
     else (d, f))"

definition count_path :: "nat \<Rightarrow> int list list \<Rightarrow> int option" where
  "count_path n roads = do {
     es \<leftarrow> those (map (edge3 n) roads);
     if n = 0 then None
     else do {
       let g = roads_graph n es;
       (d, u, f) \<leftarrow> fold_opt (\<lambda>i (d, u, f).
         case nearest n d u of
           None \<Rightarrow> None
         | Some v \<Rightarrow>
             if d ! v = inf18 then Some (d, u, f)
             else
               let u = u[v := True];
                   (d, f) = fold (arrive_step v) (g ! v) (d, f)
               in Some (d, u, f))
         [0..<n] ((replicate n inf18)[0 := 0], replicate n False, (replicate n 0)[0 := 1]);
       Some (f ! (n - 1))
     }
   }"

section \<open>Sudoku\<close>

text \<open>
  The arrays \<open>row\<close>, \<open>col\<close> and \<open>box\<close> are not initialised: their contents at the start are a
  parameter. They are tables of 9 by 9 truth values, \<open>box\<close> with the row \<open>3 * (i / 3) + j / 3\<close>. The
  board holds character codes; \<open>'.'\<close> is 46 and \<open>'1'\<close> is 49.
\<close>

type_synonym marks = "bool table \<times> bool table \<times> bool table"

definition set_marks :: "nat \<Rightarrow> nat \<Rightarrow> nat \<Rightarrow> bool \<Rightarrow> marks \<Rightarrow> marks" where
  "set_marks i j v b = (\<lambda>(row, col, box).
     (tab_set i v b row, tab_set j v b col, tab_set (3 * (i div 3) + j div 3) v b box))"

definition is_free :: "nat \<Rightarrow> nat \<Rightarrow> nat \<Rightarrow> marks \<Rightarrow> bool" where
  "is_free i j v = (\<lambda>(row, col, box).
     \<not> tab_get row i v \<and> \<not> tab_get col j v \<and> \<not> tab_get box (3 * (i div 3) + j div 3) v)"

fun sudoku_dfs :: "(nat \<times> nat) list \<Rightarrow> int table \<times> marks \<times> bool \<Rightarrow> int table \<times> marks \<times> bool" where
  "sudoku_dfs [] (board, mk, ok) = (board, mk, True)"
| "sudoku_dfs ((i, j) # e) st =
     fold (\<lambda>v st. case st of (board, mk, ok) \<Rightarrow>
       if ok then st
       else if is_free i j v mk then
         (case sudoku_dfs e (tab_set i j (int v + 49) board, set_marks i j v True mk, ok) of
            (board, mk, ok) \<Rightarrow> (board, set_marks i j v False mk, ok))
       else st) [0..<9] st"

definition sudoku_scan :: "int table \<Rightarrow> nat \<Rightarrow> nat \<Rightarrow> marks \<times> (nat \<times> nat) list \<Rightarrow> (marks \<times> (nat \<times> nat) list) option" where
  "sudoku_scan board i j = (\<lambda>(mk, e).
     if tab_get board i j = 46 then Some (mk, e @ [(i, j)])
     else
       let v = tab_get board i j - 49
       in if 0 \<le> v \<and> v < 9 then Some (set_marks i j (nat v) True mk, e) else None)"

definition solve_sudoku :: "marks \<Rightarrow> int table \<Rightarrow> int table option" where
  "solve_sudoku junk board =
     (if length board < 9 \<or> (\<exists>row\<in>set (take 9 board). length row < 9) then None
      else do {
        (mk, e) \<leftarrow> fold_opt (\<lambda>i. fold_opt (sudoku_scan board i) [0..<9]) [0..<9] (junk, []);
        Some (fst (sudoku_dfs e (board, mk, False)))
      })"

section \<open>The program\<close>

text \<open>
  \<open>main\<close> solves one problem. The case of the obstacles has no \<open>break\<close> and goes on to the increasing
  paths.
\<close>

definition paths_out :: "string option" where
  "paths_out = map_option (\<lambda>n. line_out (show_int n)) (count_paths [[1, 1], [3, 4]])"

fun graph_problem :: "GRAPH_PROBLEM \<Rightarrow> string option" where
  "graph_problem SURROUNDING_XO =
     map_option (\<lambda>grid. concat (map (\<lambda>row. line_out (concat (map (\<lambda>c. [c, CHR '' '']) row))) grid) @ line_out [])
       (fill_grid [''XOXOXX'', ''XOXXOX'', ''XXXOXX'', ''OXXXXX'', ''XXXOXO'', ''OOXOOO''])"
| "graph_problem TOPOLOGICAL_SORT =
     map_option (\<lambda>topo. line_out (concat (map (\<lambda>x. show_nat x @ '' '') topo)))
       (toposort 6 [[0, 1], [1, 2], [2, 3], [4, 5], [5, 1], [5, 2]])"
| "graph_problem LINE_CHART =
     map_option (\<lambda>n. line_out (show_int n))
       (minimum_lines [[1, 7], [2, 6], [3, 5], [4, 4], [5, 4], [6, 3], [7, 2], [8, 1]])"
| "graph_problem OBSTACLE_REMOVAL = do {
     a \<leftarrow> min_obstacles [[0, 1, 1], [1, 1, 0], [1, 1, 0]];
     b \<leftarrow> min_obstacles [[0, 1, 0, 0, 0], [0, 1, 0, 1, 0], [0, 0, 0, 1, 0]];
     c \<leftarrow> paths_out;
     Some (line_out (show_int a) @ line_out (show_int b) @ c)
   }"
| "graph_problem INCREASING_PATHS = paths_out"
| "graph_problem MINIMIZE_MALWARE_SPREAD =
     map_option (\<lambda>x. line_out (show_nat x)) (min_malware_spread [[1, 1, 0], [1, 1, 0], [0, 0, 1]] [0, 1])"
| "graph_problem _ = Some []"

definition graphs_main :: "string option" where
  "graphs_main = graph_problem MINIMIZE_MALWARE_SPREAD"

declare fill_dfs.simps [code] obstacle_loop.simps [code] inc_dfs.simps [code] topo_loop.simps [code]
  semester_loop.simps [code] dsu_get.simps [code] good_get.simps [code] dijkstra_loop.simps [code]
  mark_loop.simps [code]

end
