(* ===== verification/Topological_Sort.thy ===== *)
theory Topological_Sort
  imports Graphs
begin

text \<open>
  \<open>toposort\<close> of \<open>graphs.cpp\<close>: the invariant of its queue loop and its correctness. An in-degree
  counts the edges whose source has not been output yet, and the queue holds the vertices of
  in-degree 0 that have not been output.
\<close>

section \<open>The graph\<close>

definition in_degree :: "('a \<times> nat) list \<Rightarrow> 'a set \<Rightarrow> nat \<Rightarrow> int" where
  "in_degree es A b = int (length (filter (\<lambda>e. snd e = b \<and> fst e \<notin> A) es))"

definition targets :: "('a \<times> nat) list \<Rightarrow> 'a \<Rightarrow> nat list" where
  "targets es a = map snd (filter (\<lambda>e. fst e = a) es)"

lemma topo_graph_fold:
  assumes "\<forall>e\<in>set es. fst e < V \<and> snd e < V" and "length g = V" and "length ins = V"
  shows "case fold (\<lambda>(a, b) (e, ins). (e[a := e ! a @ [b]], ins[b := ins ! b + 1])) es (g, ins) of
    (g', ins') \<Rightarrow> length g' = V \<and> length ins' = V \<and>
      (\<forall>a<V. g' ! a = g ! a @ targets es a) \<and> (\<forall>b<V. ins' ! b = ins ! b + in_degree es {} b)"
  using assms
proof (induction es arbitrary: g ins)
  case Nil
  then show ?case by (simp add: targets_def in_degree_def)
next
  case (Cons e es)
  obtain a b where e: "e = (a, b)" by (cases e)
  have "length (g[a := g ! a @ [b]]) = V" "length (ins[b := ins ! b + 1]) = V" using Cons.prems by simp_all
  from Cons.IH [OF _ this] Cons.prems show ?case
    by (auto simp: e targets_def in_degree_def nth_list_update split: prod.splits)
qed

lemma topo_graph_eq:
  assumes "\<forall>e\<in>set es. fst e < V \<and> snd e < V" and "topo_graph V es = (g, ins)"
  shows "length g = V \<and> length ins = V \<and> (\<forall>a<V. g ! a = targets es a) \<and>
    (\<forall>b<V. ins ! b = in_degree es {} b)"
  using topo_graph_fold [OF assms(1), of "replicate V []" "replicate V 0"] assms(2)
  by (simp add: topo_graph_def)

lemma in_degree_insert:
  "v \<notin> A \<Longrightarrow> in_degree es A b = in_degree es (insert v A) b + int (count_list (targets es v) b)"
  by (induction es) (auto simp: in_degree_def targets_def)

lemma in_degree_0: "in_degree es A b = 0 \<longleftrightarrow> (\<forall>a. (a, b) \<in> set es \<longrightarrow> a \<in> A)"
  by (auto simp: in_degree_def filter_empty_conv)

lemma in_degree_nonneg: "0 \<le> in_degree es A b"
  by (simp add: in_degree_def)

section \<open>One vertex\<close>

lemma topo_visits:
  assumes "\<forall>u\<in>set us. u < length ins \<and> int (count_list us u) \<le> ins ! u"
  shows "\<exists>new. fold topo_visit us (ins, q) =
      (map (\<lambda>u. ins ! u - int (count_list us u)) [0..<length ins], q @ new) \<and>
    distinct new \<and> set new = {u \<in> set us. ins ! u = int (count_list us u)}"
  using assms
proof (induction us arbitrary: ins q)
  case Nil
  then show ?case by (simp add: map_nth)
next
  case (Cons u us)
  let ?ins = "ins[u := ins ! u - 1]" and ?q = "if ins ! u - 1 = 0 then q @ [u] else q"
  have u: "u < length ins" "int (count_list us u) + 1 \<le> ins ! u" using Cons.prems by auto
  have step: "topo_visit u (ins, q) = (?ins, ?q)" using u by (simp add: topo_visit_def Let_def)
  have pre: "\<forall>w\<in>set us. w < length ?ins \<and> int (count_list us w) \<le> ?ins ! w"
    using Cons.prems by (auto simp: nth_list_update)
  obtain new where new: "fold topo_visit us (?ins, ?q) =
      (map (\<lambda>w. ?ins ! w - int (count_list us w)) [0..<length ?ins], ?q @ new)" "distinct new"
      "set new = {w \<in> set us. ?ins ! w = int (count_list us w)}"
    using Cons.IH [OF pre, of ?q] by blast
  have vals: "map (\<lambda>w. ?ins ! w - int (count_list us w)) [0..<length ?ins] =
      map (\<lambda>w. ins ! w - int (count_list (u # us) w)) [0..<length ins]"
    by (auto simp: nth_list_update)
  show ?case
  proof (cases "ins ! u = 1")
    case True
    then have "u \<notin> set us" using u count_list_0_iff [of us u] by force
    moreover from this have "w \<noteq> u \<and> ?ins ! w = ins ! w" if "w \<in> set us" for w
      using that by (cases "w = u") simp_all
    ultimately have "distinct (u # new)" "set (u # new) = {w \<in> set (u # us). ins ! w = int (count_list (u # us) w)}"
      using new(2,3) True count_list_0_iff [of us u] by auto
    then show ?thesis using new(1) vals True
      by (intro exI [of _ "u # new"]) (simp add: step)
  next
    case False
    have "{w \<in> set us. ?ins ! w = int (count_list us w)} = {w \<in> set (u # us). ins ! w = int (count_list (u # us) w)}"
    proof (intro set_eqI)
      fix w
      show "w \<in> {w \<in> set us. ?ins ! w = int (count_list us w)} \<longleftrightarrow>
          w \<in> {w \<in> set (u # us). ins ! w = int (count_list (u # us) w)}"
      proof (cases "w = u")
        case True
        have "u \<in> set us" if "ins ! u = int (count_list us u) + 1"
          using that False count_list_0_iff [of us u] by force
        then show ?thesis using True u(1) by auto
      qed auto
    qed
    then show ?thesis using new vals False by (intro exI [of _ new]) (simp add: step)
  qed
qed

section \<open>The loop\<close>

definition in_order :: "(nat \<times> nat) list \<Rightarrow> nat list \<Rightarrow> bool" where
  "in_order es topo \<longleftrightarrow> (\<forall>i<length topo. \<forall>a. (a, topo ! i) \<in> set es \<longrightarrow> a \<in> set (take i topo))"

lemma in_order_snoc:
  "in_order es topo \<Longrightarrow> (\<And>a. (a, v) \<in> set es \<Longrightarrow> a \<in> set topo) \<Longrightarrow> in_order es (topo @ [v])"
  by (auto simp: in_order_def nth_append less_Suc_eq)

definition topo_inv :: "nat \<Rightarrow> (nat \<times> nat) list \<Rightarrow> int list \<Rightarrow> nat list \<Rightarrow> nat list \<Rightarrow> bool" where
  "topo_inv V es ins q topo \<longleftrightarrow> distinct (topo @ q) \<and> length ins = V \<and>
     (\<forall>v<V. ins ! v = in_degree es (set topo) v) \<and>
     set topo \<union> set q = {v. v < V \<and> in_degree es (set topo) v = 0} \<and> in_order es topo"

lemma topo_inv_step:
  assumes es: "\<forall>e\<in>set es. fst e < V \<and> snd e < V" and inv: "topo_inv V es ins (v # q) topo"
  shows "\<exists>ins' q'. fold topo_visit (targets es v) (ins, q) = (ins', q') \<and> topo_inv V es ins' q' (topo @ [v])"
proof -
  let ?T = "insert v (set topo)"
  have v: "v < V" "v \<notin> set topo" "in_degree es (set topo) v = 0" and len: "length ins = V"
    and ins: "\<And>u. u < V \<Longrightarrow> ins ! u = in_degree es (set topo) u"
    and set: "set topo \<union> set (v # q) = {v. v < V \<and> in_degree es (set topo) v = 0}"
    using inv by (auto simp: topo_inv_def)
  have targets: "\<forall>u\<in>set (targets es v). u < V" using es by (auto simp: targets_def)
  have deg: "in_degree es (set topo) u = in_degree es ?T u + int (count_list (targets es v) u)" for u
    by (rule in_degree_insert [OF v(2)])
  have pre: "\<forall>u\<in>set (targets es v). u < length ins \<and> int (count_list (targets es v) u) \<le> ins ! u"
    using targets len ins deg in_degree_nonneg [of es ?T] by auto
  obtain new where new: "fold topo_visit (targets es v) (ins, q) =
      (map (\<lambda>u. ins ! u - int (count_list (targets es v) u)) [0..<length ins], q @ new)"
      "distinct new" "set new = {u \<in> set (targets es v). ins ! u = int (count_list (targets es v) u)}"
    using topo_visits [OF pre, of q] by blast
  let ?ins = "map (\<lambda>u. ins ! u - int (count_list (targets es v) u)) [0..<length ins]"
  have newly: "set new = {u. u < V \<and> in_degree es ?T u = 0 \<and> in_degree es (set topo) u \<noteq> 0}"
    unfolding new(3) using targets ins deg count_list_0_iff [of "targets es v"] in_degree_nonneg [of es ?T]
    by (auto simp: set_eq_iff)
  have old: "u < V \<and> in_degree es (set topo) u = 0 \<Longrightarrow> in_degree es ?T u = 0" for u
    using deg [of u] in_degree_nonneg [of es ?T u] by linarith
  have "topo_inv V es ?ins (q @ new) (topo @ [v])"
    unfolding topo_inv_def
  proof (intro conjI allI impI)
    show "distinct ((topo @ [v]) @ q @ new)"
      using inv new(2) newly set unfolding topo_inv_def by auto
    show "?ins ! u = in_degree es (set (topo @ [v])) u" if "u < V" for u
      using that len ins deg [of u] by simp
    have "set topo \<union> set (v # q) \<union> set new = {u. u < V \<and> in_degree es ?T u = 0}"
      unfolding set newly using old by auto
    then show "set (topo @ [v]) \<union> set (q @ new) = {u. u < V \<and> in_degree es (set (topo @ [v])) u = 0}" by auto
    show "in_order es (topo @ [v])"
      using inv v(3) by (intro in_order_snoc) (auto simp: topo_inv_def in_degree_0)
  qed (use len in simp)
  then show ?thesis using new(1) by blast
qed

lemma topo_loop_ok:
  assumes es: "\<forall>e\<in>set es. fst e < V \<and> snd e < V" and g: "\<forall>a<V. g ! a = targets es a"
    and inv: "topo_inv V es ins q topo"
  shows "\<exists>ins' topo'. topo_loop g ins q topo = Some topo' \<and> topo_inv V es ins' [] topo'"
  using inv
proof (induction "V - length topo" arbitrary: ins q topo rule: less_induct)
  case less
  show ?case
  proof (cases q)
    case Nil
    then show ?thesis using less.prems by (subst topo_loop.simps) auto
  next
    case (Cons v q')
    have v: "v < V" using less.prems unfolding topo_inv_def Cons by auto
    obtain ins' q'' where step: "fold topo_visit (targets es v) (ins, q') = (ins', q'')"
        "topo_inv V es ins' q'' (topo @ [v])"
      using topo_inv_step [OF es less.prems [unfolded Cons]] by blast
    have "distinct (topo @ [v])" "set (topo @ [v]) \<subseteq> {..<V}" using step(2) by (auto simp: topo_inv_def)
    then have "length (topo @ [v]) \<le> V" by (metis card_lessThan card_mono distinct_card finite_lessThan)
    then have "V - length (topo @ [v]) < V - length topo" by simp
    from less.hyps [OF this step(2)] show ?thesis
      using step(1) g v Cons by (subst topo_loop.simps) simp
  qed
qed

section \<open>Correctness\<close>

lemma in_order_acyclic:
  assumes "in_order es topo" and "distinct topo" and "\<forall>e\<in>set es. snd e \<in> set topo"
  shows "acyclic (set es)"
proof -
  define pos where "pos v = (LEAST i. i < length topo \<and> topo ! i = v)" for v
  have pos: "pos (topo ! i) = i" if "i < length topo" for i
    unfolding pos_def using that assms(2) by (intro Least_equality) (auto simp: nth_eq_iff_index_eq)
  have "pos a < pos b" if ab: "(a, b) \<in> set es" for a b
  proof -
    have "b \<in> set topo" using assms(3) ab by fastforce
    then obtain i where i: "i < length topo" "b = topo ! i" unfolding in_set_conv_nth by blast
    then have "a \<in> set (take i topo)" using assms(1) ab unfolding in_order_def by blast
    then obtain k where "k < i" "a = topo ! k" unfolding in_set_conv_nth by auto
    then show ?thesis using i(1) pos [of i] pos [of k] unfolding i(2) by simp
  qed
  then have "set es \<subseteq> measure pos" by auto
  then show ?thesis by (meson acyclic_subset wf_acyclic wf_measure)
qed

lemma edges_in_range:
  "those (map (edge2 V) edges) = Some es \<Longrightarrow> \<forall>e\<in>set es. fst e < V \<and> snd e < V"
proof (induction edges arbitrary: es)
  case (Cons r edges)
  have "fst e < V \<and> snd e < V" if "edge2 V r = Some e" for e
    using that by (cases "(V, r)" rule: edge2.cases) (auto simp: vertex_of_def split: bind_splits if_splits)
  then show ?case using Cons by (fastforce split: option.splits)
qed simp

text \<open>
  C33: \<open>toposort\<close> ends; its result lists vertices without repetition, each after all its
  predecessors, and it lists all vertices exactly when the graph has no cycle.
\<close>

theorem toposort_correct:
  assumes "those (map (edge2 V) edges) = Some es"
  shows "\<exists>topo. toposort V edges = Some topo \<and> distinct topo \<and> set topo \<subseteq> {..<V} \<and>
    (\<forall>i<length topo. \<forall>a. (a, topo ! i) \<in> set es \<longrightarrow> a \<in> set (take i topo)) \<and>
    (set topo = {..<V} \<longleftrightarrow> acyclic (set es))"
proof -
  note es = edges_in_range [OF assms]
  obtain g ins where g: "topo_graph V es = (g, ins)" by fastforce
  note graph = topo_graph_eq [OF es g]
  have "topo_inv V es ins (filter (\<lambda>v. ins ! v = 0) [0..<V]) []"
    using graph by (auto simp: topo_inv_def in_order_def)
  from topo_loop_ok [OF es _ this, of g] graph obtain ins' topo where
    topo: "topo_loop g ins (filter (\<lambda>v. ins ! v = 0) [0..<V]) [] = Some topo" "topo_inv V es ins' [] topo"
    by blast
  have rest: "set topo = {v. v < V \<and> in_degree es (set topo) v = 0}" and ord: "in_order es topo"
    and dist: "distinct topo" using topo(2) by (auto simp: topo_inv_def)
  have "set topo = {..<V}" if "acyclic (set es)"
  proof (rule ccontr)
    assume "set topo \<noteq> {..<V}"
    then have "{..<V} - set topo \<noteq> {}" using rest by auto
    moreover have "wf (set es)" using that by (simp add: finite_acyclic_wf)
    ultimately obtain v where v: "v \<in> {..<V} - set topo" "\<And>a. (a, v) \<in> set es \<Longrightarrow> a \<notin> {..<V} - set topo"
      by (metis wf_eq_minimal ex_in_conv)
    then have "in_degree es (set topo) v = 0" using es by (force simp: in_degree_0)
    then show False using v(1) rest by auto
  qed
  moreover have "acyclic (set es)" if "set topo = {..<V}"
    using in_order_acyclic [OF ord dist] that es by auto
  moreover have "toposort V edges = Some topo" using topo(1) g assms by (simp add: toposort_def)
  ultimately show ?thesis using dist ord rest unfolding in_order_def by blast
qed

theorem toposort_correct_witness:
  "\<exists>topo. toposort 2 [[1, 0]] = Some topo \<and> distinct topo \<and> set topo \<subseteq> {..<2} \<and>
    set topo = {..<2} = acyclic {(1 :: nat, 0)}"
  using toposort_correct [of 2 "[[1, 0]]" "[(1, 0)]"] by (simp add: vertex_of_def) blast

end
