(* ===== verification/Malware.thy ===== *)
theory Malware
  imports Graphs
begin

text \<open>
  \<open>min_malware_spread\<close> of \<open>graphs.cpp\<close>, which the program runs: its disjoint sets represent the
  connected components (\<open>dsu_ok\<close>, with \<open>rep\<close> the roots and \<open>d\<close> the heights that make \<open>get\<close> end),
  and the node it returns is the one whose removal from the infected nodes leaves the fewest
  infected.
\<close>

section \<open>Disjoint sets\<close>

definition dsu_ok :: "nat \<Rightarrow> int list \<Rightarrow> (nat \<Rightarrow> nat) \<Rightarrow> (nat \<Rightarrow> nat) \<Rightarrow> bool" where
  "dsu_ok n e rep d \<longleftrightarrow> length e = n \<and>
     (\<forall>x<n. rep x < n \<and> e ! rep x < 0 \<and> (e ! x < 0 \<longrightarrow> rep x = x) \<and>
       (0 \<le> e ! x \<longrightarrow> nat (e ! x) < n \<and> rep (nat (e ! x)) = rep x \<and> d (nat (e ! x)) < d x)) \<and>
     (\<forall>x<n. e ! x < 0 \<longrightarrow> e ! x = - int (card {y. y < n \<and> rep y = x}))"

lemma dsu_ok_root: "dsu_ok n e rep d \<Longrightarrow> x < n \<Longrightarrow> 0 \<le> e ! x \<Longrightarrow> d (rep x) < d x"
proof (induction "d x" arbitrary: x rule: less_induct)
  case less
  let ?p = "nat (e ! x)"
  have p: "?p < n" "rep ?p = rep x" "d ?p < d x" using less.prems by (auto simp: dsu_ok_def)
  show ?case
  proof (cases "0 \<le> e ! ?p")
    case True
    from less.hyps [OF p(3) less.prems(1) p(1) True] show ?thesis using p by simp
  next
    case False
    then have "rep ?p = ?p" using less.prems(1) p(1) by (simp add: dsu_ok_def)
    then show ?thesis using p by simp
  qed
qed

lemma dsu_get_ok:
  "dsu_ok n e rep d \<Longrightarrow> x < n \<Longrightarrow> \<exists>e'. dsu_get x e = Some (rep x, e') \<and> dsu_ok n e' rep d"
proof (induction "d x" arbitrary: x rule: less_induct)
  case less
  show ?case
  proof (cases "e ! x < 0")
    case True
    then have "rep x = x" using less.prems by (simp add: dsu_ok_def)
    then show ?thesis using True less.prems by (subst dsu_get.simps) simp
  next
    case False
    let ?p = "nat (e ! x)"
    have p: "?p < n" "rep ?p = rep x" "d ?p < d x" using less.prems False by (auto simp: dsu_ok_def)
    obtain e' where e': "dsu_get ?p e = Some (rep x, e')" "dsu_ok n e' rep d"
      using less.hyps [OF p(3) less.prems(1) p(1)] p(2) by auto
    have "rep x \<noteq> x" using dsu_ok_root [OF less.prems] False by auto
    then have nonroot: "0 \<le> e' ! x" using e'(2) less.prems(2) unfolding dsu_ok_def by (meson not_less)
    have r: "rep x < n" "rep (rep x) = rep x" "d (rep x) < d x"
      using e'(2) less.prems(2) dsu_ok_root [OF e'(2) less.prems(2) nonroot] by (auto simp: dsu_ok_def)
    define e2 where "e2 = e'[x := int (rep x)]"
    have len: "length e' = n" using e'(2) by (simp add: dsu_ok_def)
    then have nth: "e2 ! y = (if y = x then int (rep x) else e' ! y)" for y
      using less.prems(2) by (auto simp: e2_def)
    have "dsu_ok n e2 rep d"
      unfolding dsu_ok_def
    proof (intro conjI allI impI)
      fix y assume y: "y < n"
      have root: "e' ! rep y < 0" using e'(2) y by (simp add: dsu_ok_def)
      then have "rep y \<noteq> x" using nonroot by auto
      then show "e2 ! rep y < 0" using root nth by simp
    qed (use e'(2) r nth len in \<open>auto simp: dsu_ok_def e2_def [THEN arg_cong [of _ _ length]] split: if_splits\<close>)
    then have "dsu_ok n (e'[x := int (rep x)]) rep d" by (simp add: e2_def)
    then show ?thesis using e'(1) False by (subst dsu_get.simps) simp
  qed
qed

text \<open>Linking the root \<open>b\<close> below the root \<open>a\<close>.\<close>

lemma dsu_link_ok:
  assumes ok: "dsu_ok n e rep d" and ab: "a < n" "b < n" "e ! a < 0" "e ! b < 0" "a \<noteq> b"
  shows "\<exists>d'. dsu_ok n (e[a := e ! a + e ! b, b := int a]) (\<lambda>z. if rep z = b then a else rep z) d'"
proof
  let ?rep = "\<lambda>z. if rep z = b then a else rep z"
  define e' where "e' = e[a := e ! a + e ! b, b := int a]"
  let ?d = "\<lambda>z. if rep z = b then d z + d a + 1 else d z"
  have len: "length e = n" and roots: "rep a = a" "rep b = b" using ok ab by (auto simp: dsu_ok_def)
  have nth: "e' ! z = (if z = b then int a else if z = a then e ! a + e ! b else e ! z)" if "z < n" for z
    using that len ab by (simp add: e'_def nth_list_update)
  have cards: "e ! a = - int (card {y. y < n \<and> rep y = a})" "e ! b = - int (card {y. y < n \<and> rep y = b})"
    using ok ab by (auto simp: dsu_ok_def)
  have "{y. y < n \<and> ?rep y = a} = {y. y < n \<and> rep y = a} \<union> {y. y < n \<and> rep y = b}" using ab(5) by auto
  moreover have "{y. y < n \<and> rep y = a} \<inter> {y. y < n \<and> rep y = b} = {}" using ab(5) by auto
  ultimately have merged: "card {y. y < n \<and> ?rep y = a} = card {y. y < n \<and> rep y = a} + card {y. y < n \<and> rep y = b}"
    by (simp add: card_Un_disjoint)
  have "dsu_ok n e' ?rep ?d"
    unfolding dsu_ok_def
  proof (intro conjI allI impI)
    fix x assume x: "x < n"
    have old: "rep x < n" "e ! rep x < 0" "e ! x < 0 \<Longrightarrow> rep x = x"
        "0 \<le> e ! x \<Longrightarrow> nat (e ! x) < n \<and> rep (nat (e ! x)) = rep x \<and> d (nat (e ! x)) < d x"
      using ok x by (auto simp: dsu_ok_def)
    show "?rep x < n" using old ab by simp
    show "e' ! ?rep x < 0" using old ab nth by auto
    show "?rep x = x" if "e' ! x < 0" using that nth [OF x] old(3) ab roots by (auto split: if_splits)
    show "nat (e' ! x) < n" "?rep (nat (e' ! x)) = ?rep x" "?d (nat (e' ! x)) < ?d x" if "0 \<le> e' ! x"
      using that nth [OF x] old(4) ab roots by (auto split: if_splits)
    show "e' ! x = - int (card {y. y < n \<and> ?rep y = x})" if neg: "e' ! x < 0"
    proof (cases "x = a")
      case True
      then show ?thesis using nth [OF x] ab(5) merged cards by simp
    next
      case False
      then have "x \<noteq> b" using nth [OF x] neg by auto
      then have "{y. y < n \<and> ?rep y = x} = {y. y < n \<and> rep y = x}" using False by auto
      then show ?thesis using ok x nth [OF x] neg False \<open>x \<noteq> b\<close> by (simp add: dsu_ok_def)
    qed
  qed (simp add: len e'_def)
  then show "dsu_ok n (e[a := e ! a + e ! b, b := int a]) ?rep ?d" by (simp add: e'_def)
qed

text \<open>The representatives after \<open>unite\<close>, up to the choice of the new root.\<close>

definition joined :: "(nat \<Rightarrow> nat) \<Rightarrow> nat \<Rightarrow> nat \<Rightarrow> (nat \<Rightarrow> nat) \<Rightarrow> bool" where
  "joined rep x y rep' \<longleftrightarrow> (\<forall>u v. rep' u = rep' v \<longleftrightarrow>
     rep u = rep v \<or> rep u = rep x \<and> rep v = rep y \<or> rep u = rep y \<and> rep v = rep x)"

lemma dsu_unite_ok:
  assumes ok: "dsu_ok n e rep d" and xy: "x < n" "y < n"
  shows "\<exists>b e' rep' d'. dsu_unite x y e = Some (b, e') \<and> dsu_ok n e' rep' d' \<and> joined rep x y rep'"
proof -
  obtain e1 where e1: "dsu_get x e = Some (rep x, e1)" "dsu_ok n e1 rep d" using dsu_get_ok [OF ok xy(1)] by blast
  obtain e2 where e2: "dsu_get y e1 = Some (rep y, e2)" "dsu_ok n e2 rep d"
    using dsu_get_ok [OF e1(2) xy(2)] by blast
  show ?thesis
  proof (cases "rep x = rep y")
    case True
    then have "dsu_unite x y e = Some (False, e2)" using e1(1) e2(1) by (simp add: dsu_unite_def)
    moreover have "joined rep x y rep" using True by (auto simp: joined_def)
    ultimately show ?thesis using e2(2) by blast
  next
    case False
    let ?swap = "e2 ! rep x > e2 ! rep y"
    define a b where ab: "a = (if ?swap then rep y else rep x)" "b = (if ?swap then rep x else rep y)"
    have roots: "a < n" "b < n" "e2 ! a < 0" "e2 ! b < 0" "a \<noteq> b"
      using e2(2) xy False by (auto simp: ab dsu_ok_def)
    obtain d' where d': "dsu_ok n (e2[a := e2 ! a + e2 ! b, b := int a]) (\<lambda>z. if rep z = b then a else rep z) d'"
      using dsu_link_ok [OF e2(2) roots] by blast
    have "dsu_unite x y e = Some (True, e2[a := e2 ! a + e2 ! b, b := int a])"
      using e1(1) e2(1) False by (simp add: dsu_unite_def ab)
    moreover have "joined rep x y (\<lambda>z. if rep z = b then a else rep z)"
      using False by (auto simp: joined_def ab)
    ultimately show ?thesis using d' by blast
  qed
qed

section \<open>Components\<close>

definition connected :: "(nat \<times> nat) set \<Rightarrow> nat \<Rightarrow> nat \<Rightarrow> bool" where
  "connected E x y \<longleftrightarrow> (x, y) \<in> (E \<union> E\<inverse>)\<^sup>*"

lemma connected_refl [simp]: "connected E x x"
  by (simp add: connected_def)

lemma connected_sym: "connected E x y \<Longrightarrow> connected E y x"
  unfolding connected_def by (metis converse_Un converse_converse rtrancl_converseI sup_commute)

lemma connected_trans: "connected E x y \<Longrightarrow> connected E y z \<Longrightarrow> connected E x z"
  unfolding connected_def by (rule rtrancl_trans)

lemma connected_mono: "connected E x y \<Longrightarrow> E \<subseteq> F \<Longrightarrow> connected F x y"
  unfolding connected_def by (meson Un_mono converse_mono rtrancl_mono subsetD)

lemma connected_edge: "(x, y) \<in> E \<Longrightarrow> connected E x y"
  by (auto simp: connected_def)

definition represents :: "nat \<Rightarrow> (nat \<times> nat) set \<Rightarrow> (nat \<Rightarrow> nat) \<Rightarrow> bool" where
  "represents n E rep \<longleftrightarrow> (\<forall>x<n. \<forall>y<n. rep x = rep y \<longleftrightarrow> connected E x y)"

lemma represents_insert:
  assumes rep: "represents n E rep" and E: "E \<subseteq> {..<n} \<times> {..<n}" and ij: "i < n" "j < n"
    and rep': "joined rep i j rep'"
  shows "represents n (insert (i, j) E) rep'"
  unfolding represents_def
proof (intro allI impI)
  let ?F = "insert (i, j) E"
  have J: "rep' u = rep' v \<longleftrightarrow> rep u = rep v \<or> rep u = rep i \<and> rep v = rep j \<or> rep u = rep j \<and> rep v = rep i" for u v
    using rep' by (simp add: joined_def)
  have old: "connected ?F u v" if "rep u = rep v" "u < n" "v < n" for u v
    using that rep connected_mono [of E u v ?F] by (auto simp: represents_def)
  have new: "connected ?F i j" "connected ?F j i" by (auto intro: connected_edge connected_sym)
  fix x y assume xy: "x < n" "y < n"
  show "rep' x = rep' y \<longleftrightarrow> connected ?F x y"
  proof
    assume "rep' x = rep' y"
    then show "connected ?F x y" unfolding J
    proof (elim disjE conjE)
      assume "rep x = rep i" "rep y = rep j"
      then show ?thesis using old [of x i] old [of j y] new xy ij by (metis connected_trans)
    next
      assume "rep x = rep j" "rep y = rep i"
      then show ?thesis using old [of x j] old [of i y] new xy ij by (metis connected_trans)
    qed (use old xy in simp)
  next
    assume "connected ?F x y"
    then have "(x, y) \<in> (?F \<union> ?F\<inverse>)\<^sup>*" by (simp add: connected_def)
    then show "rep' x = rep' y"
    proof (induction rule: rtrancl_induct)
      case (step u v)
      have "rep' u = rep' v"
      proof (cases "(u, v) \<in> E \<union> E\<inverse>")
        case True
        then have "u < n" "v < n" "connected E u v" using E by (auto simp: connected_def)
        then have "rep u = rep v" using rep by (simp add: represents_def)
        then show ?thesis by (simp add: J)
      next
        case False
        then show ?thesis using step.hyps by (auto simp: J)
      qed
      then show ?case using step.IH by simp
    qed simp
  qed
qed

definition graph_edges :: "int table \<Rightarrow> (nat \<times> nat) set" where
  "graph_edges graph = {(i, j). i < length graph \<and> j < length graph \<and> tab_get graph i j \<noteq> 0}"

definition malware_inv :: "int table \<Rightarrow> (nat \<times> nat) set \<Rightarrow> int list \<Rightarrow> bool" where
  "malware_inv graph C e \<longleftrightarrow> (\<exists>rep d. dsu_ok (length graph) e rep d \<and>
     represents (length graph) (graph_edges graph \<inter> C) rep)"

lemma malware_unite_ok:
  assumes inv: "malware_inv graph C e" and ij: "i < length graph" "j < length graph"
  shows "\<exists>e'. malware_unite graph i j e = Some e' \<and> malware_inv graph (insert (i, j) C) e'"
proof (cases "tab_get graph i j = 0")
  case True
  then have "graph_edges graph \<inter> insert (i, j) C = graph_edges graph \<inter> C" by (auto simp: graph_edges_def)
  then show ?thesis using inv True by (simp add: malware_unite_def malware_inv_def)
next
  case False
  obtain rep d where rep: "dsu_ok (length graph) e rep d" "represents (length graph) (graph_edges graph \<inter> C) rep"
    using inv by (auto simp: malware_inv_def)
  obtain b e' rep' d' where u: "dsu_unite i j e = Some (b, e')" "dsu_ok (length graph) e' rep' d'" "joined rep i j rep'"
    using dsu_unite_ok [OF rep(1) ij] by blast
  have "graph_edges graph \<inter> insert (i, j) C = insert (i, j) (graph_edges graph \<inter> C)"
    using False ij by (auto simp: graph_edges_def)
  then have "malware_inv graph (insert (i, j) C) e'"
    using represents_insert [OF rep(2) _ ij u(3)] u(2) by (auto simp: malware_inv_def graph_edges_def)
  then show ?thesis using u(1) False by (simp add: malware_unite_def)
qed

lemma malware_components:
  "\<exists>e. fold_opt (\<lambda>i. fold_opt (malware_unite graph i) [0..<length graph]) [0..<length graph]
      (dsu_init (length graph)) = Some e \<and> malware_inv graph UNIV e"
proof -
  let ?n = "length graph"
  have "\<exists>e. fold_opt (\<lambda>i. fold_opt (malware_unite graph i) [0..<?n]) [0..<?n] (dsu_init ?n) = Some e \<and>
      malware_inv graph (set [0..<?n] \<times> {..<?n}) e"
  proof (rule fold_opt_inv [where P = "\<lambda>is. malware_inv graph (set is \<times> {..<?n})"])
    have "dsu_ok ?n (dsu_init ?n) id (\<lambda>x. 0)"
      by (auto simp: dsu_ok_def dsu_init_def) (metis (mono_tags, lifting) Collect_cong card_1_singleton_iff singleton_conv)
    moreover have "represents ?n {} id" by (simp add: represents_def connected_def)
    ultimately show "malware_inv graph (set [] \<times> {..<?n}) (dsu_init ?n)" by (auto simp: malware_inv_def)
  next
    fix ys i zs e
    assume "[0..<?n] = ys @ i # zs" and inv: "malware_inv graph (set ys \<times> {..<?n}) e"
    then have i: "i < ?n" by (metis atLeast0LessThan atLeastLessThan_upt in_set_conv_decomp lessThan_iff)
    have "\<exists>e'. fold_opt (malware_unite graph i) [0..<?n] e = Some e' \<and>
        malware_inv graph (set ys \<times> {..<?n} \<union> {i} \<times> set [0..<?n]) e'"
    proof (rule fold_opt_inv [where P = "\<lambda>js. malware_inv graph (set ys \<times> {..<?n} \<union> {i} \<times> set js)"])
      show "malware_inv graph (set ys \<times> {..<?n} \<union> {i} \<times> set []) e" using inv by simp
    next
      fix us j vs e
      assume "[0..<?n] = us @ j # vs" and inv: "malware_inv graph (set ys \<times> {..<?n} \<union> {i} \<times> set us) e"
      then have "j < ?n" by (metis atLeast0LessThan atLeastLessThan_upt in_set_conv_decomp lessThan_iff)
      from malware_unite_ok [OF inv i this]
      show "\<exists>e'. malware_unite graph i j e = Some e' \<and>
          malware_inv graph (set ys \<times> {..<?n} \<union> {i} \<times> set (us @ [j])) e'" by (simp add: Sigma_Un_distrib2)
    qed
    moreover have "set ys \<times> {..<?n} \<union> {i} \<times> set [0..<?n] = set (ys @ [i]) \<times> {..<?n}" by auto
    ultimately show "\<exists>e'. fold_opt (malware_unite graph i) [0..<?n] e = Some e' \<and>
        malware_inv graph (set (ys @ [i]) \<times> {..<?n}) e'" by simp
  qed
  moreover have "graph_edges graph \<inter> set [0..<?n] \<times> {..<?n} = graph_edges graph \<inter> UNIV"
    by (auto simp: graph_edges_def)
  ultimately show ?thesis by (simp add: malware_inv_def)
qed

section \<open>The node to remove\<close>

definition component :: "int table \<Rightarrow> nat \<Rightarrow> nat set" where
  "component graph x = {y. y < length graph \<and> connected (graph_edges graph) x y}"

definition infected :: "int table \<Rightarrow> nat list \<Rightarrow> nat set" where
  "infected graph xs = (\<Union>x\<in>set xs. component graph x)"

text \<open>
  The representatives of the components, fixed for the rest of the run; \<open>alone\<close> are the nodes of
  \<open>ys\<close> that are the only one of \<open>init\<close> in their component.
\<close>

definition alone :: "(nat \<Rightarrow> nat) \<Rightarrow> nat list \<Rightarrow> nat list \<Rightarrow> nat set" where
  "alone rep init ys = {x \<in> set ys. length (filter (\<lambda>y. rep y = rep x) init) = 1}"

definition count_inv :: "nat \<Rightarrow> (nat \<Rightarrow> nat) \<Rightarrow> (nat \<Rightarrow> nat) \<Rightarrow> nat list \<Rightarrow> int list \<times> int list \<Rightarrow> bool" where
  "count_inv n rep d ys = (\<lambda>(e, cnt). dsu_ok n e rep d \<and> length cnt = n \<and>
     (\<forall>r<n. cnt ! r = int (length (filter (\<lambda>y. rep y = r) ys))))"

lemma malware_count_ok:
  "count_inv n rep d ys st \<Longrightarrow> x < n \<Longrightarrow> \<exists>st'. malware_count x st = Some st' \<and> count_inv n rep d (ys @ [x]) st'"
proof -
  assume a: "count_inv n rep d ys st" "x < n"
  obtain e cnt where st: "st = (e, cnt)" by (cases st)
  have "dsu_ok n e rep d" using a(1) by (simp add: count_inv_def st)
  then obtain e' where e': "dsu_get x e = Some (rep x, e')" "dsu_ok n e' rep d"
    using dsu_get_ok a(2) by blast
  have "rep x < n" using e'(2) a(2) by (simp add: dsu_ok_def)
  then have "count_inv n rep d (ys @ [x]) (e', cnt[rep x := cnt ! rep x + 1])"
    using a e'(2) by (auto simp: count_inv_def st nth_list_update)
  then show ?thesis using e'(1) by (simp add: malware_count_def st)
qed

definition best_inv ::
  "nat \<Rightarrow> (nat \<Rightarrow> nat) \<Rightarrow> (nat \<Rightarrow> nat) \<Rightarrow> nat list \<Rightarrow> nat list \<Rightarrow> int list \<times> nat \<times> int \<Rightarrow> bool" where
  "best_inv n rep d init ys = (\<lambda>(e, ans, mx). dsu_ok n e rep d \<and>
     (if alone rep init ys = {} then ans = n \<and> mx = 0
      else ans \<in> alone rep init ys \<and> mx = int (card {y. y < n \<and> rep y = rep ans}) \<and>
        (\<forall>x\<in>alone rep init ys. int (card {y. y < n \<and> rep y = rep x}) < mx \<or>
          int (card {y. y < n \<and> rep y = rep x}) = mx \<and> ans \<le> x)))"

lemma dsu_size_ok:
  assumes "dsu_ok n e rep d" and "x < n"
  shows "\<exists>e'. dsu_size (rep x) e = Some (int (card {y. y < n \<and> rep y = rep x}), e') \<and> dsu_ok n e' rep d"
proof -
  have r: "rep x < n" "rep (rep x) = rep x" using assms by (auto simp: dsu_ok_def)
  obtain e' where e': "dsu_get (rep x) e = Some (rep x, e')" "dsu_ok n e' rep d"
    using dsu_get_ok [OF assms(1) r(1)] r(2) by auto
  have "e' ! rep x = - int (card {y. y < n \<and> rep y = rep x})"
    using e'(2) assms(2) r(1) by (simp add: dsu_ok_def)
  then show ?thesis using e' by (simp add: dsu_size_def)
qed

lemma malware_best_ok:
  assumes inv: "best_inv n rep d init ys st" and x: "x < n"
    and cnt: "cnt ! rep x = int (length (filter (\<lambda>y. rep y = rep x) init))" and init: "set init \<subseteq> {..<n}"
  shows "\<exists>st'. malware_best cnt x st = Some st' \<and> best_inv n rep d init (ys @ [x]) st'"
proof -
  obtain e ans mx where st: "st = (e, ans, mx)" by (cases st)
  have ok: "dsu_ok n e rep d" using inv by (simp add: best_inv_def st)
  obtain e1 where e1: "dsu_get x e = Some (rep x, e1)" "dsu_ok n e1 rep d" using dsu_get_ok [OF ok x] by blast
  let ?size = "\<lambda>x. int (card {y. y < n \<and> rep y = rep x})"
  show ?thesis
  proof (cases "length (filter (\<lambda>y. rep y = rep x) init) = 1")
    case False
    then have al: "alone rep init (ys @ [x]) = alone rep init ys" by (auto simp: alone_def)
    have "best_inv n rep d init (ys @ [x]) (e1, ans, mx)"
      using inv e1(2) unfolding best_inv_def st prod.case al by blast
    then show ?thesis using e1(1) False cnt by (simp add: malware_best_def st)
  next
    case True
    obtain e2 where e2: "dsu_size (rep x) e1 = Some (?size x, e2)" "dsu_ok n e2 rep d"
      using dsu_size_ok [OF e1(2) x] by blast
    have al: "alone rep init (ys @ [x]) = insert x (alone rep init ys)" using True by (auto simp: alone_def)
    have pos: "0 < ?size x" using x by (auto simp: card_gt_0_iff)
    have "malware_best cnt x st =
        Some (if ?size x > mx \<or> ?size x = mx \<and> ans > x then (e2, x, ?size x) else (e2, ans, mx))"
      using e1(1) e2(1) True cnt by (simp add: malware_best_def st)
    moreover have "best_inv n rep d init (ys @ [x])
        (if ?size x > mx \<or> ?size x = mx \<and> ans > x then (e2, x, ?size x) else (e2, ans, mx))"
    proof (cases "alone rep init ys = {}")
      case True
      then show ?thesis using inv e2(2) pos al by (auto simp: best_inv_def st)
    next
      case False
      then show ?thesis using inv e2(2) al by (auto simp: best_inv_def st)
    qed
    ultimately show ?thesis by blast
  qed
qed

text \<open>Removing one node cures its component exactly when it is alone there.\<close>

lemma infected_remove:
  assumes rep: "represents (length graph) (graph_edges graph) rep" and dist: "distinct init"
    and range: "set init \<subseteq> {..<length graph}" and a: "a \<in> set init"
  shows "int (card (infected graph (remove1 a init))) = int (card (infected graph init)) -
    (if a \<in> alone rep init init then int (card {y. y < length graph \<and> rep y = rep a}) else 0)"
proof -
  let ?n = "length graph"
  have comp: "component graph x = {y. y < ?n \<and> rep y = rep x}" if "x < ?n" for x
    using rep that by (auto simp: component_def represents_def dest: connected_sym)
  have split: "infected graph init = component graph a \<union> infected graph (remove1 a init)"
    using a dist by (auto simp: infected_def)
  have fin: "finite (infected graph xs)" for xs by (auto simp: infected_def component_def)
  have len: "length (filter (\<lambda>y. rep y = rep a) init) = card {y \<in> set init. rep y = rep a}"
    using dist by (simp add: distinct_length_filter Collect_conj_eq Int_commute)
  show ?thesis
  proof (cases "a \<in> alone rep init init")
    case True
    then have "card {y \<in> set init. rep y = rep a} = 1" using len by (simp add: alone_def)
    then obtain z where "{y \<in> set init. rep y = rep a} = {z}" using card_1_singletonE by blast
    moreover have "a \<in> {y \<in> set init. rep y = rep a}" using a by simp
    ultimately have only: "{y \<in> set init. rep y = rep a} = {a}" by simp
    have "component graph a \<inter> infected graph (remove1 a init) = {}"
    proof (rule ccontr)
      assume "component graph a \<inter> infected graph (remove1 a init) \<noteq> {}"
      then obtain y x where "y \<in> component graph a" "x \<in> set (remove1 a init)" "y \<in> component graph x"
        by (auto simp: infected_def)
      moreover from this have "x \<in> set init" "x \<noteq> a" "x < ?n" using dist range by (auto simp: subset_iff)
      ultimately have "rep x = rep a" using comp a range by (auto simp: subset_iff)
      then show False using only \<open>x \<in> set init\<close> \<open>x \<noteq> a\<close> by auto
    qed
    moreover have "finite (component graph a)" by (simp add: component_def)
    ultimately have "card (infected graph init) = card (component graph a) + card (infected graph (remove1 a init))"
      unfolding split using fin by (rule card_Un_disjoint [rotated 2])
    then show ?thesis using True comp [of a] a range by auto
  next
    case False
    then have "{y \<in> set init. rep y = rep a} \<noteq> {a}" using len a by (auto simp: alone_def)
    then obtain b where b: "b \<in> set init" "rep b = rep a" "b \<noteq> a" using a by blast
    then have "component graph a = component graph b" using comp a range by (auto simp: subset_iff)
    moreover have "b \<in> set (remove1 a init)" using b dist by simp
    ultimately have "component graph a \<subseteq> infected graph (remove1 a init)" by (auto simp: infected_def)
    then have "infected graph init = infected graph (remove1 a init)" using split by blast
    then show ?thesis using False by simp
  qed
qed

lemma fold_min_list: "fold min xs (x :: nat) = Min (set (x # xs))"
  by (simp only: Min.set_eq_fold)

lemma vertices_in_range: "those (map (vertex_of n) xs) = Some ys \<Longrightarrow> set ys \<subseteq> {..<n}"
proof (induction xs arbitrary: ys)
  case (Cons x xs)
  then show ?case by (auto simp: vertex_of_def split: option.splits if_splits)
qed simp

definition best_removal :: "int table \<Rightarrow> nat list \<Rightarrow> nat \<Rightarrow> bool" where
  "best_removal graph init a \<longleftrightarrow> a \<in> set init \<and>
     (\<forall>x\<in>set init. card (infected graph (remove1 a init)) < card (infected graph (remove1 x init)) \<or>
       card (infected graph (remove1 a init)) = card (infected graph (remove1 x init)) \<and> a \<le> x)"

text \<open>
  C32: \<open>min_malware_spread\<close> ends and returns, of the initially infected nodes, the one whose removal
  leaves the fewest nodes infected, and the smallest such node when several do.
\<close>

theorem min_malware_spread_correct:
  assumes rows: "\<forall>row\<in>set graph. length graph \<le> length row"
    and init: "those (map (vertex_of (length graph)) initial) = Some init" "distinct init" "init \<noteq> []"
  shows "\<exists>a. min_malware_spread graph initial = Some a \<and> best_removal graph init a"
proof -
  let ?n = "length graph"
  have range: "set init \<subseteq> {..<?n}" by (rule vertices_in_range [OF init(1)])
  obtain e where e: "fold_opt (\<lambda>i. fold_opt (malware_unite graph i) [0..<?n]) [0..<?n] (dsu_init ?n) = Some e"
      "malware_inv graph UNIV e" using malware_components by blast
  obtain rep d where rep: "dsu_ok ?n e rep d" "represents ?n (graph_edges graph) rep"
    using e(2) by (auto simp: malware_inv_def)
  have "\<exists>st. fold_opt malware_count init (e, replicate ?n 0) = Some st \<and> count_inv ?n rep d init st"
    by (rule fold_opt_inv) (use rep(1) range malware_count_ok in \<open>auto simp: count_inv_def\<close>)
  then obtain e1 cnt where c: "fold_opt malware_count init (e, replicate ?n 0) = Some (e1, cnt)"
      "count_inv ?n rep d init (e1, cnt)" by auto
  have ok1: "dsu_ok ?n e1 rep d" using c(2) by (simp add: count_inv_def)
  have cnt: "cnt ! rep x = int (length (filter (\<lambda>y. rep y = rep x) init))" if "x < ?n" for x
    using c(2) rep(1) that by (auto simp: count_inv_def dsu_ok_def)
  have "\<exists>st. fold_opt (malware_best cnt) init (e1, ?n, 0) = Some st \<and> best_inv ?n rep d init init st"
  proof (rule fold_opt_inv [where P = "best_inv ?n rep d init"])
    show "best_inv ?n rep d init [] (e1, ?n, 0)" using ok1 by (simp add: best_inv_def alone_def)
    fix ys x zs st assume "init = ys @ x # zs" and inv: "best_inv ?n rep d init ys st"
    then have "x < ?n" using range by auto
    then show "\<exists>st'. malware_best cnt x st = Some st' \<and> best_inv ?n rep d init (ys @ [x]) st'"
      using malware_best_ok [OF inv _ cnt range] by blast
  qed
  then obtain e2 ans mx where b: "fold_opt (malware_best cnt) init (e1, ?n, 0) = Some (e2, ans, mx)"
      "best_inv ?n rep d init init (e2, ans, mx)" by auto
  have run: "min_malware_spread graph initial =
      (if ans = ?n then (case init of [] \<Rightarrow> None | x # xs \<Rightarrow> Some (fold min xs x)) else Some ans)"
    using rows e(1) init(1) c(1) b(1) by (auto simp: min_malware_spread_def Let_def not_le [symmetric])
  note left = infected_remove [OF rep(2) init(2) range]
  show ?thesis
  proof (cases "alone rep init init = {}")
    case True
    then have "min_malware_spread graph initial = Some (Min (set init))"
      using b(2) init(3) run by (cases init) (auto simp: best_inv_def fold_min_list)
    moreover have "best_removal graph init (Min (set init))"
      unfolding best_removal_def using left True init(3) by auto
    ultimately show ?thesis by blast
  next
    case False
    then have ans: "ans \<in> alone rep init init" "mx = int (card {y. y < ?n \<and> rep y = rep ans})"
        "\<forall>x\<in>alone rep init init. int (card {y. y < ?n \<and> rep y = rep x}) < mx \<or>
          int (card {y. y < ?n \<and> rep y = rep x}) = mx \<and> ans \<le> x"
      using b(2) by (auto simp: best_inv_def)
    have mem: "ans \<in> set init" using ans(1) by (simp add: alone_def)
    then have "ans < ?n" using range by auto
    then have "0 < mx" unfolding ans(2) by (auto simp: card_gt_0_iff)
    have la: "int (card (infected graph (remove1 ans init))) = int (card (infected graph init)) - mx"
      using left [OF mem] ans(1,2) by simp
    have "card (infected graph (remove1 ans init)) < card (infected graph (remove1 x init)) \<or>
        card (infected graph (remove1 ans init)) = card (infected graph (remove1 x init)) \<and> ans \<le> x"
      if x: "x \<in> set init" for x
    proof (cases "x \<in> alone rep init init")
      case True
      then show ?thesis using left [OF x] la ans(3) by force
    next
      case False
      then show ?thesis using left [OF x] la \<open>0 < mx\<close> by simp
    qed
    then have "best_removal graph init ans" unfolding best_removal_def using mem by blast
    then show ?thesis using run \<open>ans < ?n\<close> by auto
  qed
qed

theorem min_malware_spread_correct_witness:
  "\<exists>a. min_malware_spread [[1, 1, 0], [1, 1, 0], [0, 0, 1]] [0, 1] = Some a \<and>
    best_removal [[1, 1, 0], [1, 1, 0], [0, 0, 1]] [0, 1] a"
  by (rule min_malware_spread_correct) (simp_all add: vertex_of_def)

end

