(* ===== verification/Grids.thy ===== *)
theory Grids
  imports Graphs
begin

text \<open>
  The grid problems \<open>count_paths\<close> and \<open>fill\<close> of \<open>graphs.cpp\<close>: their recursions end and compute the
  number of increasing paths and the regions that reach the border.
\<close>

section \<open>Neighbours\<close>

definition adjacent :: "nat \<times> nat \<Rightarrow> nat \<times> nat \<Rightarrow> bool" where
  "adjacent c d \<longleftrightarrow> \<bar>int (fst c) - int (fst d)\<bar> + \<bar>int (snd c) - int (snd d)\<bar> = 1"

definition cells :: "nat \<Rightarrow> nat \<Rightarrow> (nat \<times> nat) set" where
  "cells m n = {..<m} \<times> {..<n}"

lemma finite_cells [simp]: "finite (cells m n)"
  by (simp add: cells_def)

lemma in_cells [simp]: "c \<in> cells m n \<longleftrightarrow> fst c < m \<and> snd c < n"
  by (auto simp: cells_def mem_Times_iff)

lemma grid_nbrs_dirs:
  "set (grid_nbrs m n i j) = (\<lambda>d. (nat (int i + fst d), nat (int j + snd d))) `
    {d \<in> set dirs. in_grid m n (int i + fst d) (int j + snd d)}"
proof -
  have "set (grid_nbrs m n i j) = (\<lambda>c. (nat (fst c), nat (snd c))) ` {c \<in> (\<lambda>d. (int i + fst d, int j + snd d)) ` set dirs.
      in_grid m n (fst c) (snd c)}"
    by (simp add: grid_nbrs_def split_def)
  also have "{c \<in> (\<lambda>d. (int i + fst d, int j + snd d)) ` set dirs. in_grid m n (fst c) (snd c)} =
      (\<lambda>d. (int i + fst d, int j + snd d)) ` {d \<in> set dirs. in_grid m n (int i + fst d) (int j + snd d)}" by auto
  finally show ?thesis by (simp add: image_image)
qed

lemma set_grid_nbrs: "set (grid_nbrs m n i j) = {c \<in> cells m n. adjacent (i, j) c}"
proof (intro set_eqI iffI)
  fix c assume "c \<in> set (grid_nbrs m n i j)"
  then obtain d where "d \<in> set dirs" "in_grid m n (int i + fst d) (int j + snd d)"
      "c = (nat (int i + fst d), nat (int j + snd d))"
    unfolding grid_nbrs_dirs by blast
  then show "c \<in> {c \<in> cells m n. adjacent (i, j) c}"
    by (auto simp: dirs_def in_grid_def adjacent_def)
next
  fix c assume c: "c \<in> {c \<in> cells m n. adjacent (i, j) c}"
  obtain x y where xy: "c = (x, y)" by (cases c)
  have "(int x - int i, int y - int j) \<in> set dirs" using c by (auto simp: xy adjacent_def dirs_def)
  then have "(int x, int y) \<in> set (map (\<lambda>(dx, dy). (int i + dx, int j + dy)) dirs)"
    by (force simp: image_iff)
  then have "(int x, int y) \<in> set (filter (\<lambda>(x, y). in_grid m n x y) (map (\<lambda>(dx, dy). (int i + dx, int j + dy)) dirs))"
    using c by (simp add: xy in_grid_def)
  then show "c \<in> set (grid_nbrs m n i j)" unfolding grid_nbrs_def xy by (force simp: image_iff)
qed

lemma distinct_grid_nbrs: "distinct (grid_nbrs m n i j)"
  by (auto simp: grid_nbrs_def dirs_def in_grid_def)

section \<open>Increasing paths\<close>

abbreviation height_at :: "int table \<Rightarrow> nat \<times> nat \<Rightarrow> int" where
  "height_at grid c \<equiv> tab_get grid (fst c) (snd c)"

definition increasing_path :: "int table \<Rightarrow> nat \<Rightarrow> nat \<Rightarrow> (nat \<times> nat) list \<Rightarrow> bool" where
  "increasing_path grid m n ps \<longleftrightarrow> ps \<noteq> [] \<and> set ps \<subseteq> cells m n \<and>
     successively (\<lambda>c d. adjacent c d \<and> height_at grid c < height_at grid d) ps"

definition paths_at :: "int table \<Rightarrow> nat \<Rightarrow> nat \<Rightarrow> nat \<times> nat \<Rightarrow> (nat \<times> nat) list set" where
  "paths_at grid m n c = {ps. increasing_path grid m n ps \<and> hd ps = c}"

definition uphill :: "int table \<Rightarrow> nat \<Rightarrow> nat \<Rightarrow> nat \<times> nat \<Rightarrow> (nat \<times> nat) list" where
  "uphill grid m n c = filter (\<lambda>d. height_at grid c < height_at grid d) (grid_nbrs m n (fst c) (snd c))"

lemma paths_at_unfold:
  assumes "c \<in> cells m n"
  shows "paths_at grid m n c = insert [c] (\<Union>d\<in>set (uphill grid m n c). (#) c ` paths_at grid m n d)"
proof (intro set_eqI iffI)
  fix ps assume ps: "ps \<in> paths_at grid m n c"
  then obtain qs where qs: "ps = c # qs" by (cases ps) (auto simp: paths_at_def increasing_path_def)
  show "ps \<in> insert [c] (\<Union>d\<in>set (uphill grid m n c). (#) c ` paths_at grid m n d)"
  proof (cases qs)
    case (Cons d rs)
    then have "d \<in> set (uphill grid m n c)" "qs \<in> paths_at grid m n d"
      using ps qs by (auto simp: paths_at_def increasing_path_def uphill_def set_grid_nbrs)
    then show ?thesis using qs by blast
  qed (use qs in simp)
next
  fix ps assume "ps \<in> insert [c] (\<Union>d\<in>set (uphill grid m n c). (#) c ` paths_at grid m n d)"
  then show "ps \<in> paths_at grid m n c"
    using assms by (auto simp: paths_at_def increasing_path_def uphill_def set_grid_nbrs successively_Cons
        simp del: in_cells)
qed

definition rank :: "int table \<Rightarrow> nat \<Rightarrow> nat \<Rightarrow> nat \<times> nat \<Rightarrow> nat" where
  "rank grid m n c = card {d \<in> cells m n. height_at grid c < height_at grid d}"

lemma rank_uphill: "d \<in> set (uphill grid m n c) \<Longrightarrow> rank grid m n d < rank grid m n c"
proof -
  assume d: "d \<in> set (uphill grid m n c)"
  then have "d \<in> cells m n" "height_at grid c < height_at grid d" by (auto simp: uphill_def set_grid_nbrs)
  then have "{e \<in> cells m n. height_at grid d < height_at grid e} \<subset> {e \<in> cells m n. height_at grid c < height_at grid e}"
    by (intro psubsetI) (auto intro: less_trans)
  then show ?thesis unfolding rank_def
    by (rule psubset_card_mono [rotated]) (rule finite_subset [of _ "cells m n"], auto)
qed

lemma uphill_cells: "d \<in> set (uphill grid m n c) \<Longrightarrow> d \<in> cells m n"
  by (auto simp: uphill_def set_grid_nbrs)

lemma finite_paths_at: "c \<in> cells m n \<Longrightarrow> finite (paths_at grid m n c)"
proof (induction "rank grid m n c" arbitrary: c rule: less_induct)
  case less
  have "finite (paths_at grid m n d)" if "d \<in> set (uphill grid m n c)" for d
    using less.hyps [OF rank_uphill [OF that] uphill_cells [OF that]] .
  then show ?case unfolding paths_at_unfold [OF less.prems] by simp
qed

definition path_count :: "int table \<Rightarrow> nat \<Rightarrow> nat \<Rightarrow> nat \<times> nat \<Rightarrow> int" where
  "path_count grid m n c = int (card (paths_at grid m n c))"

lemma path_count_unfold:
  assumes "c \<in> cells m n"
  shows "path_count grid m n c = 1 + (\<Sum>d\<leftarrow>uphill grid m n c. path_count grid m n d)"
proof -
  let ?U = "uphill grid m n c"
  have fin: "finite ((#) c ` paths_at grid m n d)" if "d \<in> set ?U" for d
    using finite_paths_at [OF uphill_cells [OF that]] by simp
  have disj: "(#) c ` paths_at grid m n d \<inter> (#) c ` paths_at grid m n e = {}" if "d \<noteq> e" for d e
    using that by (auto simp: paths_at_def)
  have "[c] \<notin> (\<Union>d\<in>set ?U. (#) c ` paths_at grid m n d)"
    by (auto simp: paths_at_def increasing_path_def)
  then have "card (paths_at grid m n c) = 1 + card (\<Union>d\<in>set ?U. (#) c ` paths_at grid m n d)"
    unfolding paths_at_unfold [OF assms] using fin by simp
  also have "card (\<Union>d\<in>set ?U. (#) c ` paths_at grid m n d) = (\<Sum>d\<in>set ?U. card ((#) c ` paths_at grid m n d))"
    using fin disj by (intro card_UN_disjoint) auto
  also have "\<dots> = (\<Sum>d\<in>set ?U. card (paths_at grid m n d))" by (simp add: card_image)
  finally have "path_count grid m n c = 1 + (\<Sum>d\<in>set ?U. path_count grid m n d)" by (simp add: path_count_def)
  moreover have "(\<Sum>d\<leftarrow>?U. path_count grid m n d) = (\<Sum>d\<in>set ?U. path_count grid m n d)"
    by (rule sum_list_distinct_conv_sum_set) (simp add: uphill_def distinct_grid_nbrs)
  ultimately show ?thesis by simp
qed

definition memo_paths :: "int table \<Rightarrow> nat \<Rightarrow> nat \<Rightarrow> int table \<Rightarrow> bool" where
  "memo_paths grid m n f \<longleftrightarrow> tab_dim m n f \<and>
     (\<forall>c\<in>cells m n. tab_get f (fst c) (snd c) \<noteq> 0 \<longrightarrow>
       tab_get f (fst c) (snd c) = path_count grid m n c mod path_mod)"

lemma inc_dfs_ok:
  "memo_paths grid m n f \<Longrightarrow> c \<in> cells m n \<Longrightarrow>
    \<exists>f'. inc_dfs grid m n (fst c) (snd c) f = Some (path_count grid m n c mod path_mod, f') \<and> memo_paths grid m n f'"
proof (induction "rank grid m n c" arbitrary: c f rule: less_induct)
  case less
  let ?N = "path_count grid m n" and ?up = "\<lambda>d. height_at grid c < height_at grid d"
  show ?case
  proof (cases "tab_get f (fst c) (snd c) = 0")
    case False
    then show ?thesis using less.prems by (subst inc_dfs.simps) (simp add: memo_paths_def)
  next
    case True
    define step where "step = (\<lambda>d st. if ?up d then do {
        r \<leftarrow> inc_dfs grid m n (fst d) (snd d) (snd st);
        Some ((fst st + fst r) mod path_mod, snd r)
      } else Some (st :: int \<times> int table))"
    let ?P = "\<lambda>ds st. fst st = (1 + (\<Sum>d\<leftarrow>filter ?up ds. ?N d)) mod path_mod \<and> memo_paths grid m n (snd st)"
    have "\<exists>st. fold_opt step (grid_nbrs m n (fst c) (snd c)) (1, f) = Some st \<and> ?P (grid_nbrs m n (fst c) (snd c)) st"
    proof (rule fold_opt_inv [where P = ?P])
      fix ys d zs st
      assume split: "grid_nbrs m n (fst c) (snd c) = ys @ d # zs" and P: "?P ys st"
      show "\<exists>st'. step d st = Some st' \<and> ?P (ys @ [d]) st'"
      proof (cases "?up d")
        case up: True
        then have "d \<in> set (uphill grid m n c)" by (simp add: uphill_def split)
        from less.hyps [OF rank_uphill [OF this] _ uphill_cells [OF this]] P obtain f' where
          "inc_dfs grid m n (fst d) (snd d) (snd st) = Some (?N d mod path_mod, f')" "memo_paths grid m n f'" by blast
        then show ?thesis using P up by (simp add: step_def mod_add_eq add.assoc)
      qed (use P in \<open>simp add: step_def\<close>)
    qed (use less.prems in simp)
    then obtain st where st: "fold_opt step (grid_nbrs m n (fst c) (snd c)) (1, f) = Some st"
        "fst st = (1 + (\<Sum>d\<leftarrow>uphill grid m n c. ?N d)) mod path_mod" "memo_paths grid m n (snd st)"
      by (auto simp: uphill_def)
    then have val: "fst st = ?N c mod path_mod" using path_count_unfold [OF less.prems(2)] by simp
    have "inc_dfs grid m n (fst c) (snd c) f = Some (fst st, tab_set (fst c) (snd c) (fst st) (snd st))"
      using True st(1) unfolding step_def by (subst inc_dfs.simps) simp
    moreover have "memo_paths grid m n (tab_set (fst c) (snd c) (fst st) (snd st))"
      using st(3) less.prems(2) val by (auto simp: memo_paths_def prod_eq_iff split: if_splits)
    ultimately show ?thesis using val by simp
  qed
qed

lemma all_paths:
  "int (card {ps. increasing_path grid m n ps}) = (\<Sum>i\<leftarrow>[0..<m]. \<Sum>j\<leftarrow>[0..<n]. path_count grid m n (i, j))"
proof -
  have "{ps. increasing_path grid m n ps} = (\<Union>c\<in>cells m n. paths_at grid m n c)"
  proof (intro set_eqI iffI)
    fix ps assume "ps \<in> {ps. increasing_path grid m n ps}"
    then have "hd ps \<in> cells m n" "ps \<in> paths_at grid m n (hd ps)"
      by (cases ps; auto simp: increasing_path_def paths_at_def)+
    then show "ps \<in> (\<Union>c\<in>cells m n. paths_at grid m n c)" by blast
  qed (auto simp: paths_at_def)
  moreover have "card (\<Union>c\<in>cells m n. paths_at grid m n c) = (\<Sum>c\<in>cells m n. card (paths_at grid m n c))"
  proof (rule card_UN_disjoint)
    show "\<forall>c\<in>cells m n. finite (paths_at grid m n c)" using finite_paths_at by blast
  qed (auto simp: paths_at_def)
  ultimately show ?thesis
    by (simp add: path_count_def cells_def sum.cartesian_product sum_list_distinct_conv_sum_set
        atLeast0LessThan split_def)
qed

text \<open>
  \<open>count_paths\<close> ends and returns the number of strictly increasing paths in the grid modulo
  1000000007, a path of one cell included.
\<close>

theorem count_paths_correct:
  assumes "grid_ok grid"
  shows "count_paths grid =
    Some (int (card {ps. increasing_path grid (length grid) (length (hd grid)) ps}) mod 1000000007)"
proof -
  let ?m = "length grid" and ?n = "length (hd grid)"
  let ?N = "path_count grid ?m ?n"
  define step where "step = (\<lambda>i j st. do {
      r \<leftarrow> inc_dfs grid ?m ?n i j (snd st); Some ((fst st + fst r) mod path_mod, snd r) })"
  let ?P = "\<lambda>is st. fst st = (\<Sum>i\<leftarrow>is. \<Sum>j\<leftarrow>[0..<?n]. ?N (i, j)) mod path_mod \<and> memo_paths grid ?m ?n (snd st)"
  have "\<exists>st. fold_opt (\<lambda>i. fold_opt (step i) [0..<?n]) [0..<?m] (0, new_table ?m ?n 0) = Some st \<and> ?P [0..<?m] st"
  proof (rule fold_opt_inv [where P = ?P])
    fix ys i zs st
    assume i: "[0..<?m] = ys @ i # zs" and P: "?P ys st"
    have "i \<in> set [0..<?m]" unfolding i by simp
    then have im: "i < ?m" by simp
    let ?Q = "\<lambda>js st'. fst st' = (fst st + (\<Sum>j\<leftarrow>js. ?N (i, j))) mod path_mod \<and> memo_paths grid ?m ?n (snd st')"
    have "\<exists>st'. fold_opt (step i) [0..<?n] st = Some st' \<and> ?Q [0..<?n] st'"
    proof (rule fold_opt_inv [where P = ?Q])
      fix us j vs st'
      assume j: "[0..<?n] = us @ j # vs" and Q: "?Q us st'"
      have "j \<in> set [0..<?n]" unfolding j by simp
      then have "(i, j) \<in> cells ?m ?n" using im by simp
      from inc_dfs_ok [OF conjunct2 [OF Q] this] obtain f' where
        "inc_dfs grid ?m ?n i j (snd st') = Some (?N (i, j) mod path_mod, f')" "memo_paths grid ?m ?n f'" by auto
      then show "\<exists>st''. step i j st' = Some st'' \<and> ?Q (us @ [j]) st''"
        using Q by (simp add: step_def mod_add_eq add.assoc)
    qed (use P in \<open>auto simp: mod_simps\<close>)
    then obtain st' where "fold_opt (step i) [0..<?n] st = Some st'" "?Q [0..<?n] st'" by blast
    then show "\<exists>st'. fold_opt (step i) [0..<?n] st = Some st' \<and> ?P (ys @ [i]) st'"
      using P by (simp add: mod_simps)
  qed (simp add: memo_paths_def)
  then show ?thesis using assms all_paths [of grid ?m ?n] unfolding step_def
    by (auto simp: count_paths_def Let_def)
qed

theorem count_paths_correct_witness:
  "count_paths [[1, 1], [3, 4]] = Some (int (card {ps. increasing_path [[1, 1], [3, 4]] 2 2 ps}) mod 1000000007)"
  using count_paths_correct [of "[[1, 1], [3, 4]]"] by (simp add: grid_ok_def numeral_2_eq_2)

section \<open>Surrounded regions\<close>

text \<open>
  The cells that hold \<open>'O'\<close> and how they are connected; \<open>marked g M h\<close>: \<open>h\<close> is \<open>g\<close> with \<open>'.'\<close> in
  the cells of \<open>M\<close>.
\<close>

definition open_cells :: "char table \<Rightarrow> nat \<Rightarrow> nat \<Rightarrow> (nat \<times> nat) set" where
  "open_cells g m n = {c \<in> cells m n. tab_get g (fst c) (snd c) = CHR ''O''}"

definition open_links :: "char table \<Rightarrow> nat \<Rightarrow> nat \<Rightarrow> ((nat \<times> nat) \<times> (nat \<times> nat)) set" where
  "open_links g m n = {(c, d). c \<in> open_cells g m n \<and> d \<in> open_cells g m n \<and> adjacent c d}"

definition marked :: "char table \<Rightarrow> nat \<Rightarrow> nat \<Rightarrow> (nat \<times> nat) set \<Rightarrow> char table \<Rightarrow> bool" where
  "marked g m n M h \<longleftrightarrow> M \<subseteq> open_cells g m n \<and> tab_dim m n h \<and>
     (\<forall>c\<in>cells m n. tab_get h (fst c) (snd c) = (if c \<in> M then CHR ''.'' else tab_get g (fst c) (snd c)))"

text \<open>What a search from \<open>S\<close> adds to \<open>M\<close>: cells reachable from \<open>S\<close>, with all their open neighbours.\<close>

definition search_adds :: "char table \<Rightarrow> nat \<Rightarrow> nat \<Rightarrow> (nat \<times> nat) set \<Rightarrow> (nat \<times> nat) set \<Rightarrow> (nat \<times> nat) set \<Rightarrow> bool" where
  "search_adds g m n S M M' \<longleftrightarrow> M \<subseteq> M' \<and> S \<inter> open_cells g m n \<subseteq> M' \<and>
     (\<forall>x\<in>M' - M. \<exists>s\<in>S \<inter> open_cells g m n. (s, x) \<in> (open_links g m n)\<^sup>*) \<and>
     (\<forall>x\<in>M' - M. \<forall>y. (x, y) \<in> open_links g m n \<longrightarrow> y \<in> M')"

lemma search_adds_none: "S \<inter> open_cells g m n \<subseteq> M \<Longrightarrow> search_adds g m n S M M"
  by (auto simp: search_adds_def)

lemma search_adds_trans:
  assumes "search_adds g m n S M M1" and "search_adds g m n T M1 M2"
  shows "search_adds g m n (S \<union> T) M M2"
  unfolding search_adds_def
proof (intro conjI ballI allI impI)
  show "M \<subseteq> M2" "(S \<union> T) \<inter> open_cells g m n \<subseteq> M2" using assms by (auto simp: search_adds_def)
  fix x assume x: "x \<in> M2 - M"
  show "\<exists>s\<in>(S \<union> T) \<inter> open_cells g m n. (s, x) \<in> (open_links g m n)\<^sup>*"
    using assms x unfolding search_adds_def by (cases "x \<in> M1") blast+
  fix y assume "(x, y) \<in> open_links g m n"
  then show "y \<in> M2" using assms x unfolding search_adds_def by (cases "x \<in> M1") blast+
qed

lemma finite_open_cells [simp]: "finite (open_cells g m n)"
  unfolding open_cells_def by (rule finite_subset [of _ "cells m n"]) auto

lemma fill_dfs_outside: "\<not> in_grid m n i j \<Longrightarrow> fill_dfs m n i j h = Some h"
  by (subst fill_dfs.simps) (auto simp: in_grid_def)

lemma fill_dfs_ok:
  assumes "marked g m n M h" and "c \<in> cells m n"
  shows "\<exists>M' h'. fill_dfs m n (int (fst c)) (int (snd c)) h = Some h' \<and> marked g m n M' h' \<and>
    search_adds g m n {c} M M'"
  using assms
proof (induction "card (open_cells g m n - M)" arbitrary: c M h rule: less_induct)
  case less
  let ?O = "open_cells g m n" and ?i = "fst c" and ?j = "snd c"
  have in_c: "0 \<le> int ?i" "int ?i < int m" "0 \<le> int ?j" "int ?j < int n" using less.prems(2) by auto
  have val: "tab_get h ?i ?j = (if c \<in> M then CHR ''.'' else tab_get g ?i ?j)"
    using less.prems by (simp add: marked_def)
  show ?case
  proof (cases "c \<in> ?O \<and> c \<notin> M")
    case False
    then have "tab_get h ?i ?j \<noteq> CHR ''O''" using val less.prems(2) by (auto simp: open_cells_def)
    then have "fill_dfs m n (int ?i) (int ?j) h = Some h" by (subst fill_dfs.simps) simp
    moreover have "search_adds g m n {c} M M" using False by (intro search_adds_none) auto
    ultimately show ?thesis using less.prems(1) by blast
  next
    case True
    let ?M = "insert c M" and ?h = "tab_set ?i ?j CHR ''.'' h"
    have mk: "marked g m n ?M ?h"
      using less.prems True by (auto simp: marked_def prod_eq_iff)
    have smaller: "card (?O - M1) < card (?O - M)" if "?M \<subseteq> M1" for M1
      using that True by (intro psubset_card_mono) auto
    define target where "target d = (nat (int ?i + fst d), nat (int ?j + snd d))" for d :: "int \<times> int"
    define inside where "inside d = in_grid m n (int ?i + fst d) (int ?j + snd d)" for d
    let ?T = "\<lambda>ds. target ` {d \<in> set ds. inside d}"
    let ?P = "\<lambda>ds h'. \<exists>M'. marked g m n M' h' \<and> ?M \<subseteq> M' \<and> search_adds g m n (?T ds) ?M M'"
    have "\<exists>h'. fold_opt (\<lambda>d h. fill_dfs m n (int ?i + fst d) (int ?j + snd d) h) dirs ?h = Some h' \<and> ?P dirs h'"
    proof (rule fold_opt_inv [where P = ?P])
      show "?P [] ?h" using mk search_adds_none [of "{}" g m n ?M] by auto
    next
      fix ys d zs h1
      assume "dirs = ys @ d # zs" and "?P ys h1"
      then obtain M1 where M1: "marked g m n M1 h1" "?M \<subseteq> M1" "search_adds g m n (?T ys) ?M M1" by blast
      show "\<exists>h2. fill_dfs m n (int ?i + fst d) (int ?j + snd d) h1 = Some h2 \<and> ?P (ys @ [d]) h2"
      proof (cases "inside d")
        case False
        then have "{x \<in> set (ys @ [d]). inside x} = {x \<in> set ys. inside x}" by auto
        moreover have "fill_dfs m n (int ?i + fst d) (int ?j + snd d) h1 = Some h1"
          using False by (simp add: fill_dfs_outside inside_def)
        ultimately show ?thesis using M1 by auto
      next
        case True
        then have pos: "int (fst (target d)) = int ?i + fst d" "int (snd (target d)) = int ?j + snd d"
          and cell: "target d \<in> cells m n" by (auto simp: inside_def target_def in_grid_def)
        from less.hyps [OF smaller [OF M1(2)] M1(1) cell] obtain M2 h2 where
          M2: "fill_dfs m n (int ?i + fst d) (int ?j + snd d) h1 = Some h2" "marked g m n M2 h2"
          "search_adds g m n {target d} M1 M2"
          unfolding pos by blast
        have "search_adds g m n (?T ys \<union> {target d}) ?M M2" by (rule search_adds_trans [OF M1(3) M2(3)])
        moreover have "?M \<subseteq> M2" using M1(2) M2(3) unfolding search_adds_def by blast
        moreover have "{x \<in> set (ys @ [d]). inside x} = insert d {x \<in> set ys. inside x}" using True by auto
        ultimately show ?thesis using M2(1,2) by (auto simp: Un_commute)
      qed
    qed
    then obtain h' M' where res: "fold_opt (\<lambda>d h. fill_dfs m n (int ?i + fst d) (int ?j + snd d) h) dirs ?h = Some h'"
        "marked g m n M' h'" "?M \<subseteq> M'" "search_adds g m n (?T dirs) ?M M'" by blast
    have T: "?T dirs = {d \<in> cells m n. adjacent c d}"
    proof -
      have "?T dirs = set (grid_nbrs m n ?i ?j)" by (simp add: grid_nbrs_dirs target_def inside_def)
      then show ?thesis using set_grid_nbrs [of m n ?i ?j] by simp
    qed
    have links: "(c, y) \<in> open_links g m n \<longleftrightarrow> y \<in> ?T dirs \<inter> ?O" for y
      unfolding T using True by (auto simp: open_links_def open_cells_def)
    have sub: "?T dirs \<inter> ?O \<subseteq> M'" and closed: "\<forall>x\<in>M' - ?M. \<forall>y. (x, y) \<in> open_links g m n \<longrightarrow> y \<in> M'"
      using res(4) unfolding search_adds_def by blast+
    have "search_adds g m n {c} M M'"
      unfolding search_adds_def
    proof (intro conjI ballI allI impI)
      show "M \<subseteq> M'" "{c} \<inter> ?O \<subseteq> M'" using res(3) by auto
      fix x assume x: "x \<in> M' - M"
      show "\<exists>s\<in>{c} \<inter> ?O. (s, x) \<in> (open_links g m n)\<^sup>*"
      proof (cases "x = c")
        case False
        then obtain s where "s \<in> ?T dirs \<inter> ?O" "(s, x) \<in> (open_links g m n)\<^sup>*"
          using res(4) x unfolding search_adds_def by blast
        then have "(c, x) \<in> (open_links g m n)\<^sup>*" using links by (meson converse_rtrancl_into_rtrancl)
        then show ?thesis using True by blast
      qed (use True in auto)
      fix y assume y: "(x, y) \<in> open_links g m n"
      show "y \<in> M'"
      proof (cases "x = c")
        case True
        then have "y \<in> ?T dirs \<inter> ?O" using y links [of y] by simp
        then show ?thesis using sub by (rule subsetD [rotated])
      next
        case False
        then show ?thesis using y x closed by blast
      qed
    qed
    moreover have "fill_dfs m n (int ?i) (int ?j) h = Some h'"
    proof -
      have "tab_get h ?i ?j = CHR ''O''" using val True by (simp add: open_cells_def)
      then show ?thesis using res(1) in_c by (subst fill_dfs.simps) simp
    qed
    ultimately show ?thesis using res(2) by blast
  qed
qed


text \<open>A call at a start position, inside the grid or not.\<close>

definition start_cells :: "nat \<Rightarrow> nat \<Rightarrow> (int \<times> int) set \<Rightarrow> (nat \<times> nat) set" where
  "start_cells m n S = (\<lambda>d. (nat (fst d), nat (snd d))) ` {d \<in> S. in_grid m n (fst d) (snd d)}"

lemma start_cells_Un: "start_cells m n (S \<union> T) = start_cells m n S \<union> start_cells m n T"
  by (auto simp: start_cells_def)

definition searched :: "char table \<Rightarrow> nat \<Rightarrow> nat \<Rightarrow> (int \<times> int) set \<Rightarrow> char table \<Rightarrow> bool" where
  "searched g m n S h \<longleftrightarrow> (\<exists>M. marked g m n M h \<and> search_adds g m n (start_cells m n S) {} M)"

lemma fill_call:
  assumes "searched g m n S h"
  shows "\<exists>h'. fill_dfs m n i j h = Some h' \<and> searched g m n (S \<union> {(i, j)}) h'"
proof -
  obtain M where M: "marked g m n M h" "search_adds g m n (start_cells m n S) {} M"
    using assms by (auto simp: searched_def)
  show ?thesis
  proof (cases "in_grid m n i j")
    case False
    then have "start_cells m n (S \<union> {(i, j)}) = start_cells m n S" by (auto simp: start_cells_def)
    then show ?thesis using M False by (auto simp: fill_dfs_outside searched_def)
  next
    case True
    then have "start_cells m n {(i, j)} = {(nat i, nat j)}" by (auto simp: start_cells_def)
    moreover have "(nat i, nat j) \<in> cells m n" "int (nat i) = i" "int (nat j) = j"
      using True by (auto simp: in_grid_def)
    moreover obtain M' h' where "fill_dfs m n i j h = Some h'" "marked g m n M' h'"
        "search_adds g m n {(nat i, nat j)} M M'"
      using fill_dfs_ok [OF M(1) calculation(2)] calculation(3,4) by auto
    ultimately show ?thesis
      using search_adds_trans [OF M(2)] unfolding searched_def start_cells_Un by metis
  qed
qed

lemma fill_calls:
  assumes "searched g m n S h"
  shows "\<exists>h'. fold_opt (\<lambda>i h. fill_dfs m n (fst (p i)) (snd (p i)) h \<bind> fill_dfs m n (fst (q i)) (snd (q i))) xs h =
      Some h' \<and> searched g m n (S \<union> p ` set xs \<union> q ` set xs) h'"
proof (rule fold_opt_inv [where P = "\<lambda>is. searched g m n (S \<union> p ` set is \<union> q ` set is)"])
  fix ys i zs h1
  assume "searched g m n (S \<union> p ` set ys \<union> q ` set ys) h1"
  from fill_call [OF this, of "fst (p i)" "snd (p i)"] obtain h2 where
    h2: "fill_dfs m n (fst (p i)) (snd (p i)) h1 = Some h2"
    "searched g m n (S \<union> p ` set ys \<union> q ` set ys \<union> {p i}) h2" by auto
  from fill_call [OF h2(2), of "fst (q i)" "snd (q i)"] obtain h3 where
    "fill_dfs m n (fst (q i)) (snd (q i)) h2 = Some h3"
    "searched g m n (S \<union> p ` set ys \<union> q ` set ys \<union> {p i} \<union> {q i}) h3" by auto
  moreover have "S \<union> p ` set ys \<union> q ` set ys \<union> {p i} \<union> {q i} = S \<union> p ` set (ys @ [i]) \<union> q ` set (ys @ [i])"
    by auto
  ultimately show "\<exists>h'. fill_dfs m n (fst (p i)) (snd (p i)) h1 \<bind> fill_dfs m n (fst (q i)) (snd (q i)) = Some h' \<and>
      searched g m n (S \<union> p ` set (ys @ [i]) \<union> q ` set (ys @ [i])) h'"
    using h2(1) by simp
qed (use assms in simp)

lemma search_all:
  assumes "search_adds g m n S {} M" and "M \<subseteq> open_cells g m n"
  shows "x \<in> M \<longleftrightarrow> (\<exists>s\<in>S \<inter> open_cells g m n. (s, x) \<in> (open_links g m n)\<^sup>*)"
proof
  assume "\<exists>s\<in>S \<inter> open_cells g m n. (s, x) \<in> (open_links g m n)\<^sup>*"
  then obtain s where s: "s \<in> S \<inter> open_cells g m n" "(s, x) \<in> (open_links g m n)\<^sup>*" by blast
  from s(2) show "x \<in> M"
    by (induction rule: rtrancl_induct) (use s(1) assms(1) in \<open>auto simp: search_adds_def\<close>)
qed (use assms(1) in \<open>auto simp: search_adds_def\<close>)

definition on_border :: "nat \<Rightarrow> nat \<Rightarrow> nat \<times> nat \<Rightarrow> bool" where
  "on_border m n c \<longleftrightarrow> c \<in> cells m n \<and> (fst c = 0 \<or> fst c = m - 1 \<or> snd c = 0 \<or> snd c = n - 1)"

text \<open>On a board that is at least as high as it is wide the two loops visit the whole border.\<close>

lemma border_starts:
  assumes "0 < n" and "n \<le> m"
  shows "start_cells m n ((\<lambda>i. (int i, 0)) ` set [0..<m] \<union> (\<lambda>i. (int i, int n - 1)) ` set [0..<m] \<union>
      (\<lambda>j. (0, int j)) ` set [1..<m - 1] \<union> (\<lambda>j. (int m - 1, int j)) ` set [1..<m - 1]) = {c. on_border m n c}"
    (is "start_cells m n ?S = _")
proof (intro set_eqI iffI)
  fix c assume "c \<in> start_cells m n ?S"
  then obtain d where "d \<in> ?S" "in_grid m n (fst d) (snd d)" "c = (nat (fst d), nat (snd d))"
    unfolding start_cells_def by blast
  then show "c \<in> {c. on_border m n c}" using assms by (auto simp: on_border_def in_grid_def)
next
  fix c assume "c \<in> {c. on_border m n c}"
  then have c: "fst c < m" "snd c < n" "fst c = 0 \<or> fst c = m - 1 \<or> snd c = 0 \<or> snd c = n - 1"
    by (auto simp: on_border_def)
  have "(int (fst c), int (snd c)) \<in> ?S"
  proof (cases "snd c = 0 \<or> snd c = n - 1")
    case True
    then show ?thesis using c(1) assms by (auto simp: image_iff)
  next
    case False
    then have "snd c \<in> set [1..<m - 1]" "fst c = 0 \<or> fst c = m - 1" using c assms by auto
    then show ?thesis using assms by (auto simp: image_iff)
  qed
  moreover have "in_grid m n (int (fst c)) (int (snd c))" using c by (simp add: in_grid_def)
  ultimately have "(int (fst c), int (snd c)) \<in> {d \<in> ?S. in_grid m n (fst d) (snd d)}"
    unfolding mem_Collect_eq fst_conv snd_conv by (rule conjI)
  from imageI [OF this, of "\<lambda>d. (nat (fst d), nat (snd d))"] show "c \<in> start_cells m n ?S"
    unfolding start_cells_def by (simp only: fst_conv snd_conv nat_int prod.collapse)
qed

text \<open>
  C34: On a board of \<open>'X'\<close> and \<open>'O'\<close> that is at least as high as it is wide, \<open>fill\<close> ends and keeps
  exactly the \<open>'O'\<close>s that are connected to one on the border; all others become \<open>'X'\<close>.
\<close>

theorem fill_grid_correct:
  assumes dim: "tab_dim m n grid" and n: "0 < n" "n \<le> m"
    and chars: "\<forall>c\<in>cells m n. tab_get grid (fst c) (snd c) \<in> {CHR ''X'', CHR ''O''}"
  shows "\<exists>g. fill_grid grid = Some g \<and> tab_dim m n g \<and>
    (\<forall>c\<in>cells m n. tab_get g (fst c) (snd c) =
      (if \<exists>b. on_border m n b \<and> b \<in> open_cells grid m n \<and> (b, c) \<in> (open_links grid m n)\<^sup>*
       then CHR ''O'' else CHR ''X''))"
proof -
  have len: "length grid = m" "\<And>i. i < m \<Longrightarrow> length (grid ! i) = n" using dim by (auto simp: tab_dim_def)
  then have hd: "length (hd grid) = n" using n by (cases grid) force+
  have ok: "grid_ok grid" using len n hd by (auto simp: grid_ok_def in_set_conv_nth)
  have "searched grid m n {} grid"
    using dim search_adds_none [of "{}" grid m n "{}"] by (auto simp: searched_def marked_def start_cells_def)
  from fill_calls [OF this, of "\<lambda>i. (int i, 0)" "\<lambda>i. (int i, int n - 1)" "[0..<m]"] obtain h1 where
    h1: "fold_opt (\<lambda>i h. fill_dfs m n (int i) 0 h \<bind> fill_dfs m n (int i) (int n - 1)) [0..<m] grid = Some h1"
    "searched grid m n ((\<lambda>i. (int i, 0)) ` set [0..<m] \<union> (\<lambda>i. (int i, int n - 1)) ` set [0..<m]) h1" by auto
  from fill_calls [OF h1(2), of "\<lambda>j. (0, int j)" "\<lambda>j. (int m - 1, int j)" "[1..<m - 1]"] obtain h2 where
    h2: "fold_opt (\<lambda>j h. fill_dfs m n 0 (int j) h \<bind> fill_dfs m n (int m - 1) (int j)) [1..<m - 1] h1 = Some h2"
    "searched grid m n ((\<lambda>i. (int i, 0)) ` set [0..<m] \<union> (\<lambda>i. (int i, int n - 1)) ` set [0..<m] \<union>
      (\<lambda>j. (0, int j)) ` set [1..<m - 1] \<union> (\<lambda>j. (int m - 1, int j)) ` set [1..<m - 1]) h2" by auto
  obtain M where M: "marked grid m n M h2" "search_adds grid m n {c. on_border m n c} {} M"
    using h2(2) unfolding searched_def border_starts [OF n] by blast
  have mem: "c \<in> M \<longleftrightarrow> (\<exists>b. on_border m n b \<and> b \<in> open_cells grid m n \<and> (b, c) \<in> (open_links grid m n)\<^sup>*)" for c
    using search_all [OF M(2), of c] M(1) by (auto simp: marked_def)
  let ?g = "map (\<lambda>row. map fill_char (take n row) @ drop n row) h2"
  have dim2: "length h2 = m" "\<And>i. i < m \<Longrightarrow> length (h2 ! i) = n" using M(1) by (auto simp: marked_def tab_dim_def)
  have get: "tab_get ?g (fst c) (snd c) = fill_char (tab_get h2 (fst c) (snd c))" if "c \<in> cells m n" for c
    using that dim2 by (simp add: tab_get_def nth_append)
  have "tab_get ?g (fst c) (snd c) = (if c \<in> M then CHR ''O'' else CHR ''X'')" if c: "c \<in> cells m n" for c
  proof -
    have "tab_get h2 (fst c) (snd c) = (if c \<in> M then CHR ''.'' else tab_get grid (fst c) (snd c))"
      using M(1) c by (simp add: marked_def)
    moreover have "tab_get grid (fst c) (snd c) \<in> {CHR ''X'', CHR ''O''}" using chars c by blast
    ultimately show ?thesis unfolding get [OF c] by (auto simp: fill_char_def)
  qed
  moreover have "tab_dim m n ?g" using dim2 by (simp add: tab_dim_def)
  moreover have "fill_grid grid = Some ?g"
    using ok h1(1) h2(1) len(1) hd by (simp add: fill_grid_def Let_def)
  ultimately show ?thesis unfolding mem by blast
qed

theorem fill_grid_correct_witness:
  "\<exists>g. fill_grid [''XX'', ''OX''] = Some g \<and> tab_dim 2 2 g"
proof -
  have "tab_dim 2 2 [''XX'', ''OX'']" by (auto simp: tab_dim_def less_2_cases_iff)
  moreover have "\<forall>c\<in>cells 2 2. tab_get [''XX'', ''OX''] (fst c) (snd c) \<in> {CHR ''X'', CHR ''O''}"
    by (auto simp: tab_get_def less_2_cases_iff)
  ultimately show ?thesis using fill_grid_correct [of 2 2 "[''XX'', ''OX'']"] by auto
qed

text \<open>On a wide board a region at the top border is lost.\<close>

lemma fill_grid_wide: "fill_grid [''XXOXX'', ''XXXXX'', ''XXXXX''] = Some [''XXXXX'', ''XXXXX'', ''XXXXX'']"
  by code_simp

end
