(* ===== verification/Array_Problems.thy ===== *)
theory Array_Problems
  imports Graphs
begin

text \<open>
  \<open>algorithms/array/array.cpp\<close>, \<open>algorithms/binary_search/binary_search.cpp\<close> and
  \<open>algorithms/bits/bits.cpp\<close> with their programs. As in \<open>Graphs\<close>, \<open>None\<close> is a run without a meaning
  or without an end. Sums are integers: the model agrees with the code while they are in range.
\<close>

section \<open>Sums of three\<close>

datatype ARRAY_PROBLEMS =
    THREE_SUM | ARRAY_CHANGE | KTH_LARGEST | COUNT_SMALLER_NUM | INSERT_INTERVAL | TRAPPING_RAIN_WATER_II

function skip_up :: "int list \<Rightarrow> nat \<Rightarrow> nat \<Rightarrow> nat" where
  "skip_up a j k = (if j < k \<and> a ! j = a ! (j - 1) then skip_up a (j + 1) k else j)"
  by pat_completeness auto
termination by (relation "measure (\<lambda>(a, j, k). k - j)") auto

fun skip_down :: "int list \<Rightarrow> nat \<Rightarrow> nat \<Rightarrow> nat" where
  "skip_down a j k = (if j < k \<and> a ! k = a ! (k + 1) then skip_down a j (k - 1) else k)"

declare skip_up.simps [simp del] skip_down.simps [simp del]

lemma skip_up_ge: "j \<le> skip_up a j k"
  by (induction a j k rule: skip_up.induct) (subst skip_up.simps, auto)

lemma skip_down_le: "skip_down a j k \<le> k"
  by (induction a j k rule: skip_down.induct) (subst skip_down.simps, auto)

function threesum_scan :: "int list \<Rightarrow> nat \<Rightarrow> nat \<Rightarrow> nat \<Rightarrow> int list list \<Rightarrow> int list list" where
  "threesum_scan a i j k ans =
     (if j < k then
        let x = a ! i + a ! j + a ! k in
        if x < 0 then threesum_scan a i (j + 1) k ans
        else if x > 0 then threesum_scan a i j (k - 1) ans
        else
          let ans = ans @ [[a ! i, a ! j, a ! k]];
              j = skip_up a (j + 1) (k - 1);
              k = skip_down a j (k - 1)
          in threesum_scan a i j k ans
      else ans)"
  by pat_completeness auto
termination
proof (relation "measure (\<lambda>(a, i, j, k, ans). k - j)", goal_cases)
  case (4 a i j k ans x ans' j' k')
  then have "j + 1 \<le> j'" "k' \<le> k - 1" using skip_up_ge [of "j + 1"] skip_down_le [of a j' "k - 1"] by simp_all
  then have "k' - j' < k - j" using 4(1) by linarith
  then show ?case by simp
qed auto

declare threesum_scan.simps [simp del]

definition threesum :: "int list \<Rightarrow> int list list" where
  "threesum arr =
     (let n = length arr; a = sort arr in
      fold (\<lambda>i ans. if i \<noteq> 0 \<and> a ! i = a ! (i - 1) then ans else threesum_scan a i (i + 1) (n - 1) ans)
        (takeWhile (\<lambda>i. a ! i \<le> 0) [0..<n - 2]) [])"

function two_sum :: "int list \<Rightarrow> int \<Rightarrow> nat \<Rightarrow> nat \<Rightarrow> bool" where
  "two_sum a x j k =
     (if j < k then
        let y = a ! j + a ! k in
        if y < x then two_sum a x (j + 1) k else if y > x then two_sum a x j (k - 1) else True
      else False)"
  by pat_completeness auto
termination by (relation "measure (\<lambda>(a, x, j, k). k - j)") auto

declare two_sum.simps [simp del]

definition trheesum_target :: "int list \<Rightarrow> int \<Rightarrow> bool" where
  "trheesum_target a target =
     (let n = length a; a = sort a in
      list_ex (\<lambda>i. two_sum a (target - a ! i) (i + 1) (n - 1)) [0..<n - 2])"

section \<open>Replacing elements\<close>

text \<open>\<open>mp\<close> is an \<open>unordered_map\<close>, whose \<open>mp[x]\<close> is 0 for a key that is not in it.\<close>

fun change_step :: "int list \<Rightarrow> (int \<Rightarrow> nat) \<times> int list \<Rightarrow> ((int \<Rightarrow> nat) \<times> int list) option" where
  "change_step (x # y # _) (mp, arr) =
     (if mp x < length arr then Some (mp(y := mp x), arr[mp x := y]) else None)"
| "change_step _ _ = None"

definition array_change :: "int list \<Rightarrow> int list list \<Rightarrow> int list option" where
  "array_change arr operations =
     (let mp = fold (\<lambda>i mp. mp(arr ! i := i)) [0..<length arr] (\<lambda>_. 0)
      in map_option snd (fold_opt change_step operations (mp, arr)))"

section \<open>Smaller numbers to the right\<close>

text \<open>The Fenwick tree \<open>bit\<close>: \<open>data\<close> has the elements 1 to \<open>n\<close>; \<open>k & -k\<close> is the lowest bit of \<open>k\<close>.\<close>

definition lowbit :: "int \<Rightarrow> int" where
  "lowbit k = and k (- k)"

partial_function (option) bit_update :: "int \<Rightarrow> int \<Rightarrow> int list \<Rightarrow> int list option" where
  "bit_update n k data =
     (if k \<le> n then do {
        v \<leftarrow> elem_at_int data k;
        bit_update n (k + lowbit k) (data[nat k := v + 1])
      } else Some data)"

partial_function (option) bit_query :: "int list \<Rightarrow> int \<Rightarrow> int \<Rightarrow> int option" where
  "bit_query data k acc =
     (if k > 0 then do { v \<leftarrow> elem_at_int data k; bit_query data (k - lowbit k) (acc + v) } else Some acc)"

definition count_step :: "nat \<Rightarrow> (int \<Rightarrow> int) \<Rightarrow> int list \<Rightarrow> nat \<Rightarrow> int list \<times> int list \<Rightarrow> (int list \<times> int list) option" where
  "count_step n m a i = (\<lambda>(data, ans). do {
     let x = m (a ! i);
     data \<leftarrow> bit_update (int n) x data;
     c \<leftarrow> bit_query data (x - 1) 0;
     Some (data, ans[i := c])
   })"

definition count_smaller :: "int list \<Rightarrow> int list option" where
  "count_smaller a =
     (let all = sort (remdups a); n = length all;
          m = fold (\<lambda>i m. m(all ! i := int i + 1)) [0..<n] (\<lambda>_. 0)
      in map_option snd (fold_opt (count_step n m a) (rev [0..<length a]) (replicate (n + 1) 0, replicate (length a) 0)))"

section \<open>Intervals\<close>

text \<open>
  \<open>run_loop\<close> is not called; its second loop does not move \<open>i\<close>. \<open>insert_interval\<close> runs the loop
  \<open>insert_loop\<close>, whose step is \<open>merge_interval\<close>.
\<close>

partial_function (option) run_first :: "int list list \<Rightarrow> int list \<Rightarrow> nat \<Rightarrow> int list list \<Rightarrow> (nat \<times> int list list) option" where
  "run_first ii ni i ans =
     (if i < length ii then do {
        e \<leftarrow> elem_at (ii ! i) 1;
        s \<leftarrow> elem_at ni 0;
        if e < s then run_first ii ni (i + 1) (ans @ [ii ! i]) else Some (i, ans)
      } else Some (i, ans))"

partial_function (option) run_second :: "int list list \<Rightarrow> nat \<Rightarrow> int list \<Rightarrow> int list option" where
  "run_second ii i ni =
     (if i < length ii then do {
        e \<leftarrow> elem_at ni 1;
        s \<leftarrow> elem_at (ii ! i) 0;
        if e \<ge> s then do {
          s0 \<leftarrow> elem_at ni 0;
          e1 \<leftarrow> elem_at (ii ! i) 1;
          run_second ii i (ni[0 := min s0 s, 1 := max e e1])
        } else Some ni
      } else Some ni)"

definition run_loop :: "int list list \<Rightarrow> int list \<Rightarrow> int list list option" where
  "run_loop ii ni = do {
     (i, ans) \<leftarrow> run_first ii ni 0 [];
     ni \<leftarrow> run_second ii i ni;
     Some (ans @ [ni] @ drop i ii)
   }"

definition merge_interval :: "int list \<Rightarrow> int list list \<Rightarrow> int list list option" where
  "merge_interval r ans = do {
     b \<leftarrow> elem_at (last ans) 1;
     x \<leftarrow> elem_at r 0;
     if b < x then Some (ans @ [r])
     else do { y \<leftarrow> elem_at r 1; Some (butlast ans @ [(last ans)[1 := max b y]]) }
   }"

definition insert_interval :: "int list list \<Rightarrow> int list \<Rightarrow> int list list option" where
  "insert_interval ii ni =
     (case sort (ii @ [ni]) of [] \<Rightarrow> None | r # rs \<Rightarrow> fold_opt merge_interval rs [r])"

section \<open>Rain water\<close>

text \<open>The priority queue, whose top is the least triple, is a sorted list.\<close>

definition rain_push :: "int table \<Rightarrow> int \<Rightarrow> nat \<times> nat \<Rightarrow>
    (int \<times> nat \<times> nat) list \<times> bool table \<times> int \<Rightarrow> (int \<times> nat \<times> nat) list \<times> bool table \<times> int" where
  "rain_push H h = (\<lambda>(x, y) (pq, vis, ans).
     if tab_get vis x y then (pq, vis, ans)
     else (insort (max h (tab_get H x y), x, y) pq, tab_set x y True vis, ans + max 0 (h - tab_get H x y)))"

partial_function (option) rain_loop ::
  "int table \<Rightarrow> nat \<Rightarrow> nat \<Rightarrow> (int \<times> nat \<times> nat) list \<Rightarrow> bool table \<Rightarrow> int \<Rightarrow> int option" where
  "rain_loop H m n pq vis ans =
     (case pq of
        [] \<Rightarrow> Some ans
      | (h, i, j) # pq \<Rightarrow>
          (case fold (rain_push H h) (grid_nbrs m n i j) (pq, vis, ans) of
             (pq, vis, ans) \<Rightarrow> rain_loop H m n pq vis ans))"

definition trap_rain_water :: "int table \<Rightarrow> int option" where
  "trap_rain_water H =
     (let m = length H; n = length (hd H) in
      if \<not> grid_ok H then None
      else case fold (\<lambda>i. fold (\<lambda>j (pq, vis).
             if i = 0 \<or> i = m - 1 \<or> j = 0 \<or> j = n - 1
             then (insort (tab_get H i j, i, j) pq, tab_set i j True vis) else (pq, vis)) [0..<n]) [0..<m]
             ([], new_table m n False) of
           (pq, vis) \<Rightarrow> rain_loop H m n pq vis 0)"

section \<open>Selection\<close>

text \<open>\<open>while (A[++i] < x)\<close> and \<open>while (A[--j] > x)\<close>; both start at the incremented index.\<close>

partial_function (option) scan_up :: "int list \<Rightarrow> int \<Rightarrow> int \<Rightarrow> int option" where
  "scan_up A x i = do { v \<leftarrow> elem_at_int A i; if v < x then scan_up A x (i + 1) else Some i }"

partial_function (option) scan_down :: "int list \<Rightarrow> int \<Rightarrow> int \<Rightarrow> int option" where
  "scan_down A x j = do { v \<leftarrow> elem_at_int A j; if v > x then scan_down A x (j - 1) else Some j }"

definition swap_elems :: "nat \<Rightarrow> nat \<Rightarrow> 'a list \<Rightarrow> 'a list" where
  "swap_elems i j A = A[i := A ! j, j := A ! i]"

partial_function (option) partition_loop :: "int \<Rightarrow> int list \<Rightarrow> int \<Rightarrow> int \<Rightarrow> (int list \<times> int) option" where
  "partition_loop x A i j =
     (if i < j then do {
        i \<leftarrow> scan_up A x (i + 1);
        j \<leftarrow> scan_down A x (j - 1);
        partition_loop x (if i < j then swap_elems (nat i) (nat j) A else A) i j
      } else Some (A, j))"

partial_function (option) quickselect :: "int \<Rightarrow> int list \<Rightarrow> int \<Rightarrow> int \<Rightarrow> int option" where
  "quickselect k A l r =
     (if l = r then elem_at_int A l
      else do {
        x \<leftarrow> elem_at_int A ((l + r) div 2);
        p \<leftarrow> partition_loop x A (l - 1) (r + 1);
        if snd p < k then quickselect k (fst p) (snd p + 1) r else quickselect k (fst p) l (snd p)
      })"

definition find_kth_largest :: "int list \<Rightarrow> int \<Rightarrow> int option" where
  "find_kth_largest A k = quickselect (int (length A) - k) A 0 (int (length A) - 1)"

section \<open>The program of \<open>array.cpp\<close>\<close>

fun array_problem :: "ARRAY_PROBLEMS \<Rightarrow> string option" where
  "array_problem THREE_SUM = Some (
     concat (map (\<lambda>b. line_out (concat (map (\<lambda>x. show_int x @ '' '') b))) (threesum [- 1, 0, 1, 2, - 1, - 4])) @
     line_out (if trheesum_target [1, 4, 45, 6, 10, 8] 13 then ''true'' else ''false''))"
| "array_problem ARRAY_CHANGE =
     map_option (\<lambda>ans. line_out (concat (map (\<lambda>x. show_int x @ '' '') ans)))
       (array_change [1, 2, 4, 6] [[1, 3], [4, 7], [6, 1]])"
| "array_problem _ = Some []"

definition array_main :: "string option" where
  "array_main = array_problem ARRAY_CHANGE"

section \<open>Binary search\<close>

text \<open>\<open>lower_bound\<close> of a sorted vector.\<close>

definition lower_bound :: "int list \<Rightarrow> int \<Rightarrow> nat" where
  "lower_bound xs t = length (takeWhile (\<lambda>x. x < t) xs)"

definition pairs_within :: "int list \<Rightarrow> int \<Rightarrow> int" where
  "pairs_within arr dist =
     fold (\<lambda>i cnt. let t = arr ! i - dist; j = lower_bound arr t in cnt + (int i - int j)) [0..<length arr] 0"

function dist_search :: "int list \<Rightarrow> int \<Rightarrow> int \<Rightarrow> int \<Rightarrow> int" where
  "dist_search arr k l r =
     (if l < r then
        let mid = (l + r) div 2 in
        if pairs_within arr mid \<ge> k then dist_search arr k l mid else dist_search arr k (mid + 1) r
      else l)"
  by pat_completeness auto
termination by (relation "measure (\<lambda>(arr, k, l, r). nat (r - l))") auto

declare dist_search.simps [simp del]

definition smallest_dist_pair :: "int list \<Rightarrow> int \<Rightarrow> int option" where
  "smallest_dist_pair arr k =
     (if arr = [] then None
      else let arr = sort arr in Some (dist_search arr k 0 (last arr - hd arr)))"

text \<open>\<open>n\<close> is the size of \<open>arr1\<close> before the sentinels are added.\<close>

definition increasing_step :: "int list \<Rightarrow> int list \<Rightarrow> nat \<Rightarrow> int list \<Rightarrow> int list" where
  "increasing_step arr1 arr2 i f =
     (let f = (if arr1 ! (i - 1) < arr1 ! i then f[i := f ! (i - 1)] else f);
          j = lower_bound arr2 (arr1 ! i)
      in fold (\<lambda>k f. if arr1 ! (i - k - 1) < arr2 ! (j - k)
           then f[i := min (f ! i) (f ! (i - k - 1) + int k)] else f) [1..<min (i - 1) j + 1] f)"

definition make_array_increasing :: "int list \<Rightarrow> int list \<Rightarrow> int option" where
  "make_array_increasing arr1 arr2 =
     (let arr2 = remdups (sort arr2); n = length arr1; arr1 = [- inf30] @ arr1 @ [inf30] in
      if n = 0 then None
      else
        let f = fold (increasing_step arr1 arr2) [1..<n] ((replicate n inf30)[0 := 0])
        in Some (if f ! (n - 1) \<ge> inf30 then - 1 else f ! (n - 1)))"

section \<open>Bits\<close>

text \<open>\<open>n & 1\<close> and \<open>n >> 1\<close> of an \<open>int\<close>, which is shifted with its sign.\<close>

function alt_bits_loop :: "int \<Rightarrow> int \<Rightarrow> bool" where
  "alt_bits_loop n prev =
     (if n = 0 then True
      else let cur = n mod 2 in if prev = cur then False else alt_bits_loop (n div 2) cur)"
  by pat_completeness auto
termination
proof (relation "measure (\<lambda>(n, prev). 2 * nat \<bar>n\<bar> + (if prev = 1 then 0 else 1))", goal_cases)
  case (2 n prev cur)
  then show ?case by (cases "n = - 1") auto
qed simp

declare alt_bits_loop.simps [simp del]

definition has_alt_bits :: "int \<Rightarrow> bool" where
  "has_alt_bits n = alt_bits_loop n (- 1)"

declare bit_update.simps [code] bit_query.simps [code] run_first.simps [code] run_second.simps [code]
  rain_loop.simps [code] scan_up.simps [code] scan_down.simps [code] partition_loop.simps [code]
  quickselect.simps [code]

end
