(* ===== verification/Array_Results.thy ===== *)
theory Array_Results
  imports Array_Problems
begin

text \<open>
  \<open>insert_interval\<close>, \<open>array_change\<close> (\<open>algorithms/array/array.cpp\<close>) and \<open>has_alt_bits\<close>
  (\<open>algorithms/bits/bits.cpp\<close>) against what they are for.
\<close>

section \<open>Intervals\<close>

definition is_interval :: "int list \<Rightarrow> bool" where
  "is_interval r \<longleftrightarrow> length r = 2 \<and> r ! 0 \<le> r ! 1"

lemma elem_at_interval [simp]:
  "is_interval r \<Longrightarrow> elem_at r 0 = Some (r ! 0)" "is_interval r \<Longrightarrow> elem_at r 1 = Some (r ! 1)"
  "is_interval r \<Longrightarrow> elem_at r (Suc 0) = Some (r ! Suc 0)"
  by (auto simp: is_interval_def elem_at_def)

definition points :: "int list list \<Rightarrow> int set" where
  "points rs = (\<Union>r\<in>set rs. {r ! 0..r ! 1})"

definition disjoint_sorted :: "int list list \<Rightarrow> bool" where
  "disjoint_sorted = sorted_wrt (\<lambda>r s. r ! 1 < s ! 0)"

lemma points_append [simp]: "points (rs @ ss) = points rs \<union> points ss"
  by (auto simp: points_def)

lemma points_Cons [simp]: "points (r # rs) = {r ! 0..r ! 1} \<union> points rs" "points [] = {}"
  by (auto simp: points_def)

lemma sorted_first:
  assumes "sorted (r # rs)" "s \<in> set rs" "is_interval r" "is_interval s"
  shows "r ! 0 \<le> s ! 0"
proof -
  have "r \<le> s" using assms(1,2) by simp
  then show ?thesis using assms(3,4)
    by (auto simp: is_interval_def numeral_2_eq_2 length_Suc_conv)
qed

lemma merge_interval_step:
  assumes "\<forall>s\<in>set (bs @ [b, r]). is_interval s" and "disjoint_sorted (bs @ [b])" and "b ! 0 \<le> r ! 0"
  shows "\<exists>cs c. merge_interval r (bs @ [b]) = Some (cs @ [c]) \<and> (\<forall>s\<in>set (cs @ [c]). is_interval s) \<and>
    disjoint_sorted (cs @ [c]) \<and> points (cs @ [c]) = points (bs @ [b]) \<union> {r ! 0..r ! 1} \<and> c ! 0 \<le> r ! 0"
proof (cases "b ! 1 < r ! 0")
  case True
  have "s ! 1 < r ! 0" if "s \<in> set bs" for s
    using assms(1,2) that True by (fastforce simp: disjoint_sorted_def sorted_wrt_append is_interval_def)
  then show ?thesis using assms True
    by (intro exI [of _ "bs @ [b]"] exI [of _ r])
       (auto simp: merge_interval_def elem_at_def is_interval_def disjoint_sorted_def sorted_wrt_append)
next
  case False
  let ?c = "b[1 := max (b ! 1) (r ! 1)]"
  have "merge_interval r (bs @ [b]) = Some (bs @ [?c])"
    using assms(1) False by (simp add: merge_interval_def elem_at_def is_interval_def)
  moreover have "?c ! 0 = b ! 0" "?c ! 1 = max (b ! 1) (r ! 1)" "is_interval ?c"
    using assms(1) by (auto simp: is_interval_def)
  moreover have "{b ! 0..max (b ! 1) (r ! 1)} = {b ! 0..b ! 1} \<union> {r ! 0..r ! 1}"
    using assms(1,3) False by (auto simp: is_interval_def)
  ultimately show ?thesis using assms
    by (intro exI [of _ bs] exI [of _ ?c]) (auto simp: disjoint_sorted_def sorted_wrt_append)
qed

lemma merge_intervals:
  assumes "\<forall>s\<in>set (bs @ [b] @ rs). is_interval s" and "disjoint_sorted (bs @ [b])" and "sorted rs"
    and "\<forall>s\<in>set rs. b ! 0 \<le> s ! 0"
  shows "\<exists>ans. fold_opt merge_interval rs (bs @ [b]) = Some ans \<and> (\<forall>s\<in>set ans. is_interval s) \<and>
    disjoint_sorted ans \<and> points ans = points (bs @ [b]) \<union> points rs"
  using assms
proof (induction rs arbitrary: bs b)
  case (Cons r rs)
  from Cons.prems obtain cs c where
    *: "merge_interval r (bs @ [b]) = Some (cs @ [c])" "\<forall>s\<in>set (cs @ [c]). is_interval s"
      "disjoint_sorted (cs @ [c])" "points (cs @ [c]) = points (bs @ [b]) \<union> {r ! 0..r ! 1}" "c ! 0 \<le> r ! 0"
    using merge_interval_step [of bs b r] by auto
  have "\<forall>s\<in>set rs. c ! 0 \<le> s ! 0"
    using sorted_first [OF Cons.prems(3)] Cons.prems(1) *(5) by (fastforce intro: order_trans)
  moreover have "\<forall>s\<in>set (cs @ [c] @ rs). is_interval s" using Cons.prems(1) *(2) by auto
  moreover have "sorted rs" using Cons.prems(3) by simp
  ultimately obtain ans where "fold_opt merge_interval rs (cs @ [c]) = Some ans" "\<forall>s\<in>set ans. is_interval s"
    "disjoint_sorted ans" "points ans = points (cs @ [c]) \<union> points rs"
    using Cons.IH [of cs c] *(3) by blast
  moreover from this *(4) have "points ans = points (bs @ [b]) \<union> points (r # rs)"
    by (simp only: points_Cons Un_assoc)
  ultimately show ?case using *(1) by (simp del: points_append points_Cons)
qed auto

text \<open>
  \<open>insert_interval\<close> returns sorted intervals that have no point in common and together cover
  exactly the points of the given intervals and the new one, whatever order they come in.
\<close>

theorem insert_interval_correct:
  assumes "\<forall>r\<in>set (ni # ii). is_interval r"
  shows "\<exists>ans. insert_interval ii ni = Some ans \<and> (\<forall>r\<in>set ans. is_interval r) \<and> disjoint_sorted ans \<and>
    points ans = points (ni # ii)"
proof -
  have set: "set (sort (ii @ [ni])) = set (ni # ii)" by simp
  obtain r rs where s: "sort (ii @ [ni]) = r # rs" by (cases "sort (ii @ [ni])") (metis set list.set_intros(1) list.set(1) empty_iff, blast)
  have iv: "\<forall>s\<in>set (r # rs). is_interval s" using assms set s by simp
  have sorted: "sorted (r # rs)" by (metis s sorted_sort)
  have "\<forall>s\<in>set rs. r ! 0 \<le> s ! 0" using sorted_first [OF sorted] iv by simp
  moreover have "points (r # rs) = points (ni # ii)" using set unfolding s points_def by simp
  ultimately show ?thesis
    using merge_intervals [of "[]" r rs] iv sorted s by (simp add: insert_interval_def disjoint_sorted_def)
qed

theorem insert_interval_correct_witness:
  "insert_interval [[1, 3], [6, 9]] [2, 5] = Some [[1, 5], [6, 9]] \<and> points [[1, 5], [6, 9]] = points [[2, 5], [1, 3], [6, 9]]"
proof -
  have "\<forall>r\<in>set [[2, 5], [1, 3], [6, 9 :: int]]. is_interval r" by (simp add: is_interval_def)
  moreover have "insert_interval [[1, 3], [6, 9]] [2, 5] = Some [[1, 5], [6, 9]]" by code_simp
  ultimately show ?thesis using insert_interval_correct [of "[2, 5]" "[[1, 3], [6, 9]]"] by simp
qed

text \<open>The unused \<open>run_loop\<close> does not come back from an interval that overlaps the new one.\<close>

lemma run_second_overlap:
  assumes "run_second ii i ni = Some r" "i < length ii" "is_interval (ii ! i)" "is_interval ni"
  shows "ni ! 1 < ii ! i ! 0"
proof -
  have "i < length ii \<and> is_interval (ii ! i) \<and> is_interval ni \<longrightarrow> ni ! 1 < ii ! i ! 0"
    using assms(1)
  proof (rule run_second.raw_induct
      [where P = "\<lambda>ii i ni r. i < length ii \<and> is_interval (ii ! i) \<and> is_interval ni \<longrightarrow> ni ! 1 < ii ! i ! 0", rotated])
    fix f :: "int list list \<Rightarrow> nat \<Rightarrow> int list \<Rightarrow> int list option" and ii i ni r
    assume IH: "\<And>ii i ni r. f ii i ni = Some r \<Longrightarrow> i < length ii \<and> is_interval (ii ! i) \<and> is_interval ni \<longrightarrow> ni ! 1 < ii ! i ! 0"
      and r: "(if i < length ii then do {
          e \<leftarrow> elem_at ni 1;
          s \<leftarrow> elem_at (ii ! i) 0;
          if e \<ge> s then do {
            s0 \<leftarrow> elem_at ni 0;
            e1 \<leftarrow> elem_at (ii ! i) 1;
            f ii i (ni[0 := min s0 s, 1 := max e e1])
          } else Some ni
        } else Some ni) = Some r"
    show "i < length ii \<and> is_interval (ii ! i) \<and> is_interval ni \<longrightarrow> ni ! 1 < ii ! i ! 0"
    proof (rule impI, rule ccontr)
      assume *: "i < length ii \<and> is_interval (ii ! i) \<and> is_interval ni" "\<not> ni ! 1 < ii ! i ! 0"
      let ?ni = "ni[0 := min (ni ! 0) (ii ! i ! 0), 1 := max (ni ! 1) (ii ! i ! 1)]"
      have "f ii i ?ni = Some r" using r * by simp
      moreover have "is_interval ?ni" "ni ! 1 \<le> ?ni ! 1" using * by (auto simp: is_interval_def)
      ultimately show False using IH * by fastforce
    qed
  qed
  then show ?thesis using assms by blast
qed

lemma run_loop_overlap:
  assumes "is_interval r" "is_interval ni" "r ! 0 \<le> ni ! 1" "ni ! 0 \<le> r ! 1"
  shows "run_loop (r # rs) ni = None"
proof -
  have "run_first (r # rs) ni 0 [] = Some (0, [])"
    using assms by (subst run_first.simps) (simp add: elem_at_def is_interval_def)
  moreover have "run_second (r # rs) 0 ni = None"
    using run_second_overlap [of "r # rs" 0 ni] assms by (cases "run_second (r # rs) 0 ni") auto
  ultimately show ?thesis by (simp add: run_loop_def)
qed

section \<open>Replacing elements\<close>

definition replace_one :: "int list \<Rightarrow> int list \<Rightarrow> int list" where
  "replace_one op arr = map (\<lambda>z. if z = op ! 0 then op ! 1 else z) arr"

text \<open>The operations the problem allows: one element is replaced by a number that is not there.\<close>

fun replaceable :: "int list list \<Rightarrow> int list \<Rightarrow> bool" where
  "replaceable [] arr \<longleftrightarrow> True"
| "replaceable (op # ops) arr \<longleftrightarrow>
     length op = 2 \<and> op ! 0 \<in> set arr \<and> op ! 1 \<notin> set arr \<and> replaceable ops (replace_one op arr)"

definition indexed :: "(int \<Rightarrow> nat) \<Rightarrow> int list \<Rightarrow> bool" where
  "indexed mp arr \<longleftrightarrow> distinct arr \<and> (\<forall>i<length arr. mp (arr ! i) = i)"

lemma change_step_replaces:
  assumes "indexed mp arr" "length op = 2" "op ! 0 \<in> set arr" "op ! 1 \<notin> set arr"
  shows "\<exists>mp'. change_step op (mp, arr) = Some (mp', replace_one op arr) \<and> indexed mp' (replace_one op arr)"
proof -
  from assms(2) obtain x y where op: "op = [x, y]" by (auto simp: numeral_2_eq_2 length_Suc_conv)
  from assms(3) op obtain i where i: "i < length arr" "x = arr ! i" by (auto simp: in_set_conv_nth)
  then have "mp x = i" using assms(1) by (simp add: indexed_def)
  moreover have "replace_one op arr = arr[i := y]"
    using assms(1) i op by (intro nth_equalityI) (auto simp: replace_one_def indexed_def nth_eq_iff_index_eq nth_list_update)
  moreover have "indexed (mp(y := i)) (arr[i := y])"
    using assms(1,4) i op nth_mem by (auto simp: indexed_def nth_list_update intro!: distinct_list_update)
  ultimately show ?thesis using i op by simp
qed

lemma indexed_init:
  assumes "distinct arr"
  shows "indexed (fold (\<lambda>i mp. mp(arr ! i := i)) [0..<length arr] (\<lambda>_. 0)) arr"
proof -
  have "\<forall>i<length arr. fold (\<lambda>i mp. mp(arr ! i := i)) [0..<length arr] (\<lambda>_. 0) (arr ! i) = i"
    by (rule loop_up [where P = "\<lambda>n mp. \<forall>i<n. mp (arr ! i) = i"])
       (use assms in \<open>auto simp: nth_eq_iff_index_eq less_Suc_eq\<close>)
  then show ?thesis using assms by (simp add: indexed_def)
qed

text \<open>
  On an array of different numbers \<open>array_change\<close> carries out the operations one after the other,
  each as the replacement of every occurrence of its first number: the positions it keeps in the map
  stay those of the elements.
\<close>

theorem array_change_correct:
  assumes "distinct arr" and "replaceable operations arr"
  shows "array_change arr operations = Some (fold replace_one operations arr)"
proof -
  have "\<exists>mp'. fold_opt change_step operations (mp, arr) = Some (mp', fold replace_one operations arr)"
    if "indexed mp arr" "replaceable operations arr" for mp arr operations
    using that
  proof (induction operations arbitrary: mp arr)
    case (Cons op ops)
    then obtain mp' where *: "change_step op (mp, arr) = Some (mp', replace_one op arr)" "indexed mp' (replace_one op arr)"
      using change_step_replaces [of mp arr op] by auto
    then show ?case using Cons by simp
  qed simp
  from this [OF indexed_init [OF assms(1)] assms(2)] show ?thesis by (auto simp: array_change_def)
qed

theorem array_change_correct_witness:
  "array_change [1, 2, 4, 6] [[1, 3], [4, 7], [6, 1]] = Some [3, 2, 7, 1]"
  using array_change_correct [of "[1, 2, 4, 6]" "[[1, 3], [4, 7], [6, 1]]"] by (simp add: replace_one_def)

section \<open>Alternating bits\<close>

lemma all_nat_split: "(\<forall>i. P i) \<longleftrightarrow> P 0 \<and> (\<forall>i. P (Suc i))"
  by (metis not0_implies_Suc)

lemma alt_bits_loop_iff:
  assumes "0 \<le> n"
  shows "alt_bits_loop n prev \<longleftrightarrow>
    (n = 0 \<or> n mod 2 \<noteq> prev) \<and> (\<forall>i. 2 ^ Suc i \<le> n \<longrightarrow> bit n i \<noteq> bit n (Suc i))"
  using assms
proof (induction n prev rule: alt_bits_loop.induct)
  case (1 n prev)
  have small: "\<not> (2 :: int) ^ Suc i \<le> 0" for i by (simp add: not_le)
  have half: "2 ^ Suc (Suc i) \<le> n \<longleftrightarrow> 2 ^ Suc i \<le> n div 2" for i :: nat
    by simp linarith
  have tail: "(\<forall>i. 2 ^ Suc i \<le> n \<longrightarrow> bit n i \<noteq> bit n (Suc i)) \<longleftrightarrow>
      (n div 2 = 0 \<or> n div 2 mod 2 \<noteq> n mod 2) \<and>
      (\<forall>i. 2 ^ Suc i \<le> n div 2 \<longrightarrow> bit (n div 2) i \<noteq> bit (n div 2) (Suc i))" (is "(\<forall>i. ?A i) \<longleftrightarrow> ?B \<and> ?C")
  proof -
    have "bit n 0 = odd n" "bit n (Suc 0) = odd (n div 2)" by (simp_all add: bit_0 bit_Suc)
    moreover have "2 \<le> n \<longleftrightarrow> n div 2 \<noteq> 0" using 1(2) by linarith
    then have "(2 \<le> n \<longrightarrow> odd n \<noteq> odd (n div 2)) \<longleftrightarrow> ?B" by (auto simp: mod2_eq_if)
    moreover have "(2 :: int) ^ Suc 0 = 2" by (rule power_one_right [unfolded One_nat_def])
    ultimately have "?A 0 \<longleftrightarrow> ?B" by (simp only:)
    moreover have "?A (Suc i) \<longleftrightarrow> (2 ^ Suc i \<le> n div 2 \<longrightarrow> bit (n div 2) i \<noteq> bit (n div 2) (Suc i))" for i
      unfolding half by (simp only: bit_Suc)
    moreover have "(\<forall>i. ?A i) \<longleftrightarrow> ?A 0 \<and> (\<forall>i. ?A (Suc i))" by (rule all_nat_split)
    ultimately show ?thesis by (simp only:)
  qed
  show ?case
  proof (cases "n = 0 \<or> n mod 2 = prev")
    case True
    then show ?thesis using small by (subst alt_bits_loop.simps) auto
  next
    case False
    then have "alt_bits_loop n prev \<longleftrightarrow> alt_bits_loop (n div 2) (n mod 2)"
      by (subst alt_bits_loop.simps) auto
    then show ?thesis using 1 False unfolding tail by auto
  qed
qed

text \<open>The shift of a negative number ends in ones for ever, of which the second one is found.\<close>

lemma alt_bits_loop_negative: "n < 0 \<Longrightarrow> \<not> alt_bits_loop n prev"
proof (induction n prev rule: alt_bits_loop.induct)
  case (1 n prev)
  then show ?case by (subst alt_bits_loop.simps) (auto simp: Let_def)
qed

text \<open>Exactly the numbers pass that are not negative and whose neighbouring bits differ.\<close>

lemma has_alt_bits_correct:
  "has_alt_bits n \<longleftrightarrow> 0 \<le> n \<and> (\<forall>i. 2 ^ Suc i \<le> n \<longrightarrow> bit n i \<noteq> bit n (Suc i))"
proof (cases "0 \<le> n")
  case True
  then have "n mod 2 \<noteq> - 1" by presburger
  then show ?thesis using True alt_bits_loop_iff [of n "- 1"] by (simp add: has_alt_bits_def)
next
  case False
  then show ?thesis using alt_bits_loop_negative [of n] by (simp add: has_alt_bits_def)
qed

end
