(* ===== verification/Fenwick.thy ===== *)
theory Fenwick
  imports Array_Problems
begin

text \<open>
  The Fenwick tree of \<open>count_smaller\<close> in \<open>algorithms/array/array.cpp\<close>. Element \<open>j\<close> holds the sum of
  the counts of the numbers it covers, those from \<open>j - lowbit j + 1\<close> to \<open>j\<close>.
\<close>

section \<open>The lowest bit\<close>

lemma lowbit_even: "lowbit (2 * k) = 2 * lowbit k"
proof -
  have "- (2 * k) div 2 = - k" by presburger
  then show ?thesis by (simp add: lowbit_def and_int_rec [of "2 * k"])
qed

lemma lowbit_odd: "odd k \<Longrightarrow> lowbit k = 1"
proof (elim oddE)
  fix b assume k: "k = 2 * b + 1"
  have "- k div 2 = not b" "k div 2 = b" unfolding k not_int_def by presburger+
  moreover have "lowbit k = of_bool (odd k \<and> odd (- k)) + 2 * and (k div 2) (- k div 2)"
    unfolding lowbit_def by (rule and_int_rec)
  ultimately show "lowbit k = 1" using k by simp
qed

lemma lowbit_pow2_odd: "odd m \<Longrightarrow> lowbit (2 ^ a * m) = 2 ^ a"
proof (induction a)
  case (Suc a)
  then show ?case using lowbit_even [of "2 ^ a * m"] by (simp add: mult.assoc)
qed (simp add: lowbit_odd)

lemma pow2_odd_ex: "0 < (k :: int) \<Longrightarrow> \<exists>a m. k = 2 ^ a * m \<and> odd m"
proof (induction "nat k" arbitrary: k rule: less_induct)
  case less
  show ?case
  proof (cases "even k")
    case True
    then obtain b where b: "k = 2 * b" by (elim evenE)
    then obtain a m where "b = 2 ^ a * m" "odd m" using less.hyps [of b] less.prems by auto
    then have "k = 2 ^ Suc a * m" using b by simp
    then show ?thesis using \<open>odd m\<close> by blast
  qed (auto intro: exI [of _ 0])
qed

lemma lowbit_form:
  assumes "0 < k"
  obtains a m where "k = 2 ^ a * m" "odd m" "lowbit k = 2 ^ a" "2 ^ a \<le> k"
proof -
  from pow2_odd_ex [OF assms] obtain a m where km: "k = 2 ^ a * m" "odd m" by blast
  then have "0 < m" using assms by (simp add: zero_less_mult_iff)
  then have "2 ^ a * 1 \<le> k" unfolding km(1) by (intro mult_left_mono) auto
  then show thesis using that km lowbit_pow2_odd by simp
qed

lemma lowbit_bounds: "0 < k \<Longrightarrow> 0 < lowbit k \<and> lowbit k \<le> k"
  by (elim lowbit_form) simp

lemma lowbit_0 [simp]: "lowbit 0 = 0"
  by (simp add: lowbit_def)

text \<open>A multiple of \<open>d\<close> that is less than one \<open>d\<close> above another is the same.\<close>

lemma multiple_unique: "(d :: int) dvd a \<Longrightarrow> d dvd b \<Longrightarrow> a \<le> b \<Longrightarrow> b < a + d \<Longrightarrow> a = b"
  using zdvd_imp_le [of d "b - a"] by (cases "a = b") auto

text \<open>The elements that cover \<open>k\<close> are \<open>k\<close> and those that cover \<open>k + lowbit k\<close>.\<close>

definition covers :: "int \<Rightarrow> int \<Rightarrow> bool" where
  "covers j k \<longleftrightarrow> j - lowbit j < k \<and> k \<le> j"

lemma covers_next:
  assumes "0 < k" "0 < j"
  shows "covers j k \<longleftrightarrow> j = k \<or> covers j (k + lowbit k)"
proof -
  obtain a m where k: "k = 2 ^ a * m" "odd m" "lowbit k = 2 ^ a" using lowbit_form [OF assms(1)] .
  obtain b n where j: "j = 2 ^ b * n" "odd n" "lowbit j = 2 ^ b" using lowbit_form [OF assms(2)] .
  have mult: "2 ^ c dvd (2 :: int) ^ d" if "c \<le> d" for c d using that by (simp add: le_imp_power_dvd)
  have ka: "2 ^ a dvd k" "2 ^ Suc a dvd k + 2 ^ a" "\<not> 2 ^ Suc a dvd k"
    using k by (auto simp: algebra_simps elim!: oddE)
  have jb: "2 ^ b dvd j" "2 ^ Suc b dvd j - 2 ^ b" "\<not> 2 ^ Suc b dvd j"
    using j by (auto simp: algebra_simps elim!: oddE)
  have "k + 2 ^ a \<le> j" if "j - 2 ^ b < k" "k < j"
  proof -
    have "a < b"
    proof (rule ccontr)
      assume "\<not> a < b"
      then have "2 ^ b dvd k" using mult [of b a] ka(1) by auto
      then show False using multiple_unique [of "2 ^ b" k j] jb(1) that by simp
    qed
    then have "2 ^ a dvd j" using mult [of a b] jb(1) by auto
    then show ?thesis using multiple_unique [of "2 ^ a" k j] ka(1) that by fastforce
  qed
  moreover have "j - 2 ^ b < k" if "k + 2 ^ a \<le> j" "j - 2 ^ b < k + 2 ^ a"
  proof (rule ccontr)
    assume *: "\<not> j - 2 ^ b < k"
    show False
    proof (cases "a \<le> b")
      case True
      have "2 ^ Suc a dvd j - 2 ^ b" using mult [of "Suc a" "Suc b"] True jb(2) by auto
      moreover from this have "2 ^ a dvd j - 2 ^ b" by (rule power_le_dvd) simp
      ultimately show False using multiple_unique [of "2 ^ a" k "j - 2 ^ b"] ka * that by simp
    next
      case False
      have "2 ^ Suc b dvd k + 2 ^ a" using mult [of "Suc b" "Suc a"] False ka(2) by auto
      moreover from this have "2 ^ b dvd k + 2 ^ a" by (rule power_le_dvd) simp
      ultimately show False using multiple_unique [of "2 ^ b" "k + 2 ^ a" j] jb that by simp
    qed
  qed
  moreover have "(0 :: int) < 2 ^ a" "(0 :: int) < 2 ^ b" by simp_all
  ultimately show ?thesis unfolding covers_def k(3) j(3) by linarith
qed

section \<open>Update and query\<close>

definition fenwick :: "(int \<Rightarrow> int) \<Rightarrow> nat \<Rightarrow> int list" where
  "fenwick cnt n = map (\<lambda>j. \<Sum>v\<in>{int j - lowbit (int j)<..int j}. cnt v) [0..<n + 1]"

lemma bit_update_covers:
  assumes "0 < k" "length data = n + 1"
  shows "bit_update (int n) k data =
    Some (map (\<lambda>j. data ! j + (if 0 < j \<and> covers (int j) k then 1 else 0)) [0..<n + 1])"
  using assms
proof (induction "nat (int n + 1 - k)" arbitrary: k data rule: less_induct)
  case less
  show ?case
  proof (cases "k \<le> int n")
    case True
    let ?data = "data[nat k := data ! nat k + 1]"
    have "nat (int n + 1 - (k + lowbit k)) < nat (int n + 1 - k)" "0 < k + lowbit k"
      using lowbit_bounds [of k] less.prems True by auto
    then have "bit_update (int n) (k + lowbit k) ?data =
        Some (map (\<lambda>j. ?data ! j + (if 0 < j \<and> covers (int j) (k + lowbit k) then 1 else 0)) [0..<n + 1])"
      using less.hyps [of "k + lowbit k" ?data] less.prems by simp
    moreover have "?data ! j + (if 0 < j \<and> covers (int j) (k + lowbit k) then 1 else 0) =
        data ! j + (if 0 < j \<and> covers (int j) k then 1 else 0)" if "j < n + 1" for j
    proof (cases "int j = k")
      case True
      have "\<not> covers k (k + lowbit k)" "covers k k" using lowbit_bounds [of k] less.prems by (auto simp: covers_def)
      then show ?thesis using True that less.prems by auto
    next
      case False
      then show ?thesis using covers_next [of k "int j"] less.prems by (auto simp: nth_list_update)
    qed
    ultimately show ?thesis
      using True less.prems by (subst bit_update.simps) (simp add: elem_at_int_def elem_at_def nat_less_iff cong: map_cong del: upt_Suc)
  next
    case False
    then have "\<not> covers (int j) k" if "j < n + 1" for j using that by (simp add: covers_def)
    then have "map (\<lambda>j. data ! j + (if 0 < j \<and> covers (int j) k then 1 else 0)) [0..<n + 1] = data"
      using less.prems by (intro nth_equalityI) (simp_all del: upt_Suc)
    then show ?thesis using False by (subst bit_update.simps) simp
  qed
qed

lemma bit_update_fenwick:
  assumes "0 < k"
  shows "bit_update (int n) k (fenwick cnt n) = Some (fenwick (cnt(k := cnt k + 1)) n)"
proof -
  have "(\<Sum>v\<in>{j - lowbit j<..j}. (cnt(k := cnt k + 1)) v) = (\<Sum>v\<in>{j - lowbit j<..j}. cnt v) + (if covers j k then 1 else 0)" for j
  proof -
    have "(cnt(k := cnt k + 1)) v = cnt v + (if v = k then 1 else 0)" for v by simp
    then show ?thesis by (simp add: sum.distrib covers_def)
  qed
  moreover have "\<not> covers 0 k" using assms by (simp add: covers_def)
  ultimately show ?thesis
    using assms by (subst bit_update_covers) (auto simp: fenwick_def intro!: map_cong simp del: upt_Suc)
qed

lemma bit_query_fenwick:
  assumes "0 \<le> k" "k \<le> int n"
  shows "bit_query (fenwick cnt n) k acc = Some (acc + (\<Sum>v\<in>{0<..k}. cnt v))"
  using assms
proof (induction "nat k" arbitrary: k acc rule: less_induct)
  case less
  show ?case
  proof (cases "0 < k")
    case True
    have low: "0 < lowbit k" "lowbit k \<le> k" using lowbit_bounds True by auto
    have "{0<..k} = {0<..k - lowbit k} \<union> {k - lowbit k<..k}" using low by auto
    then have "(\<Sum>v\<in>{0<..k}. cnt v) = (\<Sum>v\<in>{0<..k - lowbit k}. cnt v) + (\<Sum>v\<in>{k - lowbit k<..k}. cnt v)"
      using low by (simp add: sum.union_disjoint)
    moreover have "elem_at_int (fenwick cnt n) k = Some (\<Sum>v\<in>{k - lowbit k<..k}. cnt v)"
      using less.prems by (simp add: elem_at_int_def elem_at_def fenwick_def nat_less_iff del: upt_Suc)
    ultimately show ?thesis
      using True less.hyps [of "k - lowbit k"] less.prems low by (subst bit_query.simps) simp
  next
    case False
    then show ?thesis using less.prems by (subst bit_query.simps) simp
  qed
qed

section \<open>Counting\<close>

lemma fold_opt_snoc: "fold_opt f (xs @ [x]) s = fold_opt f xs s \<bind> f x"
proof (induction xs arbitrary: s)
  case Nil
  show ?case by (cases "f x s") simp_all
next
  case (Cons y ys)
  then show ?case by (cases "f y s") simp_all
qed

text \<open>The ranks of the different values of an array.\<close>

definition ranks :: "int list \<Rightarrow> int \<Rightarrow> int" where
  "ranks all = fold (\<lambda>i m. m(all ! i := int i + 1)) [0..<length all] (\<lambda>_. 0)"

lemma ranks_nth:
  assumes "distinct all" "i < length all"
  shows "ranks all (all ! i) = int i + 1"
proof -
  have "\<forall>i<length all. ranks all (all ! i) = int i + 1"
    unfolding ranks_def
    by (rule loop_up [where P = "\<lambda>n m. \<forall>i<n. m (all ! i) = int i + 1"])
       (use assms(1) in \<open>auto simp: nth_eq_iff_index_eq less_Suc_eq\<close>)
  then show ?thesis using assms(2) by blast
qed

lemma ranks_less:
  assumes "sorted all" "distinct all" "x \<in> set all" "y \<in> set all"
  shows "ranks all x < ranks all y \<longleftrightarrow> x < y"
proof -
  from assms(3,4) obtain i j where "i < length all" "x = all ! i" "j < length all" "y = all ! j"
    by (auto simp: in_set_conv_nth)
  moreover have "i < j \<longleftrightarrow> all ! i < all ! j" if "i < length all" "j < length all" for i j
  proof
    show "i < j \<Longrightarrow> all ! i < all ! j"
      using that assms(1,2) sorted_wrt_nth_less [of "(<)" all i j] by (simp add: strict_sorted_iff)
    show "all ! i < all ! j \<Longrightarrow> i < j"
      using that assms(1) sorted_nth_mono [of all j i] by (metis leI linorder_not_le)
  qed
  ultimately show ?thesis using assms(2) unfolding ranks_nth by (metis add_less_cancel_right of_nat_less_iff ranks_nth)
qed

lemma ranks_bounds:
  assumes "distinct all" "x \<in> set all"
  shows "0 < ranks all x \<and> ranks all x \<le> int (length all)"
  using assms by (auto simp: in_set_conv_nth ranks_nth)

text \<open>How often a rank occurs, and how many elements have a rank up to \<open>k\<close>.\<close>

definition rank_count :: "int list \<Rightarrow> int list \<Rightarrow> int \<Rightarrow> int" where
  "rank_count all xs v = int (length (filter (\<lambda>y. ranks all y = v) xs))"

lemma rank_count_Cons: "rank_count all (x # xs) = (rank_count all xs)(ranks all x := rank_count all xs (ranks all x) + 1)"
  by (auto simp: rank_count_def)

lemma sum_rank_count:
  assumes "distinct all" "set xs \<subseteq> set all"
  shows "(\<Sum>v\<in>{0<..k}. rank_count all xs v) = int (length (filter (\<lambda>y. ranks all y \<le> k) xs))"
  using assms(2)
proof (induction xs)
  case (Cons x xs)
  have "rank_count all (x # xs) v = rank_count all xs v + (if v = ranks all x then 1 else 0)" for v
    by (simp add: rank_count_def)
  then show ?case using Cons ranks_bounds [OF assms(1), of x] by (simp add: sum.distrib)
qed (simp add: rank_count_def)

definition smaller_right :: "int list \<Rightarrow> nat \<Rightarrow> int" where
  "smaller_right a i = int (length (filter (\<lambda>y. y < a ! i) (drop (Suc i) a)))"

lemma count_step_fenwick:
  assumes "i < length a" and all: "sorted all" "distinct all" "set all = set a" and "length ans = length a"
  shows "count_step (length all) (ranks all) a i (fenwick (rank_count all (drop (Suc i) a)) (length all), ans) =
    Some (fenwick (rank_count all (drop i a)) (length all), ans[i := smaller_right a i])"
proof -
  have drop: "drop i a = a ! i # drop (Suc i) a" using assms(1) by (simp add: Cons_nth_drop_Suc)
  have in_all: "a ! i \<in> set all" "set (drop i a) \<subseteq> set all" using assms(1) all(3) set_drop_subset [of i a] by auto
  have rank: "0 < ranks all (a ! i)" "ranks all (a ! i) \<le> int (length all)"
    using ranks_bounds [OF all(2) in_all(1)] by simp_all
  have "(ranks all y \<le> ranks all (a ! i) - 1) = (y < a ! i)" if "y \<in> set (drop i a)" for y
    using ranks_less [OF all(1,2), of y "a ! i"] in_all that by auto
  then have "filter (\<lambda>y. ranks all y \<le> ranks all (a ! i) - 1) (drop i a) = filter (\<lambda>y. y < a ! i) (drop i a)"
    by (rule filter_cong [OF refl])
  then have "bit_query (fenwick (rank_count all (drop i a)) (length all)) (ranks all (a ! i) - 1) 0 = Some (smaller_right a i)"
    using rank sum_rank_count [OF all(2) in_all(2)] by (simp add: bit_query_fenwick smaller_right_def drop)
  moreover have "bit_update (int (length all)) (ranks all (a ! i)) (fenwick (rank_count all (drop (Suc i) a)) (length all)) =
      Some (fenwick (rank_count all (drop i a)) (length all))"
    using rank(1) by (simp add: bit_update_fenwick drop rank_count_Cons)
  ultimately show ?thesis by (simp add: count_step_def)
qed

lemma count_loop_fenwick:
  assumes "i \<le> length a" and all: "sorted all" "distinct all" "set all = set a"
  shows "fold_opt (count_step (length all) (ranks all) a) (rev [i..<length a])
      (fenwick (rank_count all []) (length all), replicate (length a) 0) =
    Some (fenwick (rank_count all (drop i a)) (length all),
      map (\<lambda>j. if i \<le> j then smaller_right a j else 0) [0..<length a])"
  using assms(1)
proof (induction i rule: inc_induct)
  case base
  show ?case by (auto simp: map_replicate_trivial intro!: nth_equalityI)
next
  case (step i)
  then have "rev [i..<length a] = rev [Suc i..<length a] @ [i]" by (simp add: upt_conv_Cons)
  moreover have "(map (\<lambda>j. if Suc i \<le> j then smaller_right a j else 0) [0..<length a])[i := smaller_right a i] =
      map (\<lambda>j. if i \<le> j then smaller_right a j else 0) [0..<length a]"
    by (auto intro!: nth_equalityI simp: nth_list_update)
  ultimately show ?case using step all by (simp add: fold_opt_snoc count_step_fenwick)
qed

text \<open>
  \<open>count_smaller\<close> counts, for every element, the smaller ones to its right. The Fenwick tree holds
  the counts of the elements done so far: an update reaches exactly the elements that cover a rank
  and a query sums disjoint parts, so neither reads or writes outside of the tree.
\<close>

theorem count_smaller_correct:
  "count_smaller a = Some (map (\<lambda>i. int (length (filter (\<lambda>y. y < a ! i) (drop (Suc i) a)))) [0..<length a])"
proof -
  let ?all = "sort (remdups a)"
  have "fenwick (rank_count ?all []) (length ?all) = replicate (length ?all + 1) 0"
    by (auto simp: fenwick_def rank_count_def map_replicate_trivial intro!: nth_equalityI simp del: upt_Suc)
  then show ?thesis
    using count_loop_fenwick [of 0 a ?all]
    by (simp add: count_smaller_def Let_def ranks_def smaller_right_def)
qed

end
