(* ===== verification/Pair_Search.thy ===== *)
theory Pair_Search
  imports Array_Problems "HOL-Library.Multiset" "HOL-Library.Sublist"
begin

text \<open>
  The two-pointer search of \<open>trheesum_target\<close> (\<open>algorithms/array/array.cpp\<close>) and the binary search
  for the \<open>k\<close>-th smallest distance (\<open>algorithms/binary_search/binary_search.cpp\<close>), against all pairs
  and triples of elements.
\<close>

section \<open>Sums of three\<close>

lemma two_sum_iff:
  assumes "sorted a" "k < length a"
  shows "two_sum a x j k \<longleftrightarrow> (\<exists>p q. j \<le> p \<and> p < q \<and> q \<le> k \<and> a ! p + a ! q = x)"
  using assms
proof (induction a x j k rule: two_sum.induct)
  case (1 a x j k)
  note mono = sorted_nth_mono [OF 1(3)]
  show ?case
  proof (cases "j < k")
    case True
    consider "a ! j + a ! k < x" | "x < a ! j + a ! k" | "a ! j + a ! k = x" by linarith
    then show ?thesis
    proof cases
      case l: 1
      have ne: "p \<noteq> j" if "p < q" "q \<le> k" "a ! p + a ! q = x" for p q
        using mono [of q k] that l 1(4) by auto
      have "j \<le> p \<longleftrightarrow> j + 1 \<le> p" if "p < q" "q \<le> k" "a ! p + a ! q = x" for p q
        using ne [OF that] by auto
      then show ?thesis using True l 1(1) [OF True refl l 1(3,4)] by (subst two_sum.simps) auto
    next
      case g: 2
      have ne: "q \<noteq> k" if "j \<le> p" "p < q" "q \<le> k" "a ! p + a ! q = x" for p q
        using mono [of j p] that g 1(4) by auto
      have "q \<le> k \<longleftrightarrow> q \<le> k - 1" if "j \<le> p" "p < q" "a ! p + a ! q = x" for p q
        using ne [OF that(1,2) _ that(3)] by (cases "q \<le> k") auto
      moreover have "k - 1 < length a" "\<not> a ! j + a ! k < x" using 1(4) g by simp_all
      ultimately show ?thesis using True g 1(2) [OF True refl _ g 1(3)] by (subst two_sum.simps) auto
    next
      case 3
      then show ?thesis using True by (subst two_sum.simps) auto
    qed
  next
    case False
    then show ?thesis by (subst two_sum.simps) auto
  qed
qed

lemma submset_subseq: "M \<subseteq># mset xs \<Longrightarrow> \<exists>ys. subseq ys xs \<and> mset ys = M"
proof (induction xs arbitrary: M)
  case (Cons x xs)
  show ?case
  proof (cases "x \<in># M")
    case True
    then have "M - {#x#} \<subseteq># mset xs" using Cons.prems by (simp add: subset_eq_diff_conv)
    with Cons.IH obtain ys where "subseq ys xs" "mset ys = M - {#x#}" by blast
    then show ?thesis using True by (intro exI [of _ "x # ys"]) simp
  next
    case False
    then have "M \<subseteq># mset xs" using Cons.prems by (simp add: inter_add_right1 subset_mset.le_iff_inf)
    then show ?thesis using Cons.IH by (metis list_emb_Cons)
  qed
qed simp

lemma subseq_ConsE:
  assumes "subseq (x # ys) xs"
  obtains us vs where "xs = us @ x # vs" "subseq ys vs"
  using list_emb_ConsD [OF assms] by blast

lemma subseq_3_nth:
  assumes "subseq [x, y, z] xs"
  obtains i j k where "i < j" "j < k" "k < length xs" "xs ! i = x" "xs ! j = y" "xs ! k = z"
proof -
  obtain us vs where 1: "xs = us @ x # vs" "subseq [y, z] vs" using subseq_ConsE [OF assms] .
  obtain us' vs' where 2: "vs = us' @ y # vs'" "subseq [z] vs'" using subseq_ConsE [OF 1(2)] .
  obtain us'' vs'' where 3: "vs' = us'' @ z # vs''" using subseq_ConsE [OF 2(2)] .
  let ?j = "length us + 1 + length us'"
  show thesis
    by (rule that [of "length us" ?j "?j + 1 + length us''"]) (simp_all add: 1 2 3 nth_append)
qed

lemma nth_3_submset:
  assumes "i < j" "j < k" "k < length xs"
  shows "{#xs ! i, xs ! j, xs ! k#} \<subseteq># mset xs"
proof -
  have "mset_set {i, j, k} \<subseteq># mset_set {..<length xs}" using assms by (intro subset_imp_msubset_mset_set) auto
  then have "image_mset ((!) xs) (mset_set {i, j, k}) \<subseteq># image_mset ((!) xs) (mset_set {..<length xs})"
    by (rule image_mset_subseteq_mono)
  moreover have "image_mset ((!) xs) (mset_set {..<length xs}) = mset xs"
    by (metis map_nth mset_map mset_upt lessThan_atLeast0)
  ultimately show ?thesis using assms by simp
qed

text \<open>
  \<open>trheesum_target\<close> answers whether three elements of the array, at different positions, have the
  given sum: the two pointers that close in on the sorted array skip no pair that could fit.
\<close>

theorem trheesum_target_correct:
  "trheesum_target a target \<longleftrightarrow> (\<exists>x y z. {#x, y, z#} \<subseteq># mset a \<and> x + y + z = target)"
proof
  let ?s = "sort a"
  assume "trheesum_target a target"
  then obtain i where "i < length a - 2" "two_sum ?s (target - ?s ! i) (i + 1) (length a - 1)"
    by (auto simp: trheesum_target_def list_ex_iff Let_def)
  then obtain p q where "i < p" "p < q" "q < length ?s" "?s ! p + ?s ! q = target - ?s ! i"
    by (subst (asm) two_sum_iff) (auto simp: Suc_le_eq less_diff_conv)
  then show "\<exists>x y z. {#x, y, z#} \<subseteq># mset a \<and> x + y + z = target"
    using nth_3_submset [of i p q ?s] by (metis add.commute add.assoc diff_add_cancel mset_sort)
next
  let ?s = "sort a"
  assume "\<exists>x y z. {#x, y, z#} \<subseteq># mset a \<and> x + y + z = target"
  then obtain x y z where M: "{#x, y, z#} \<subseteq># mset ?s" "x + y + z = target" by auto
  from submset_subseq [OF M(1)] obtain ys where ys: "subseq ys ?s" "mset ys = {#x, y, z#}" by blast
  then have "length ys = 3" by (metis size_mset size_add_mset size_empty numeral_3_eq_3)
  then obtain u v w where uvw: "ys = [u, v, w]" by (auto simp: numeral_3_eq_3 length_Suc_conv)
  have "sum_list ys = target" using M(2) ys(2) by (metis sum_mset_sum_list sum_mset.add_mset sum_mset.empty add.assoc add.right_neutral)
  moreover obtain i j k where "i < j" "j < k" "k < length ?s" "?s ! i = u" "?s ! j = v" "?s ! k = w"
    using subseq_3_nth ys(1) uvw by metis
  ultimately have ijk: "i < j" "j < k" "k < length a" "?s ! j + ?s ! k = target - ?s ! i" using uvw by auto
  then have "\<exists>p q. i + 1 \<le> p \<and> p < q \<and> q \<le> length a - 1 \<and> ?s ! p + ?s ! q = target - ?s ! i"
    by (intro exI [of _ j] exI [of _ k]) simp
  then have "i < length a - 2" "two_sum ?s (target - ?s ! i) (i + 1) (length a - 1)"
    using ijk by (auto simp: two_sum_iff)
  then show "trheesum_target a target" by (auto simp: trheesum_target_def list_ex_iff Let_def)
qed

section \<open>The k-th smallest distance\<close>

fun pair_dists :: "int list \<Rightarrow> int list" where
  "pair_dists [] = []"
| "pair_dists (x # xs) = map (\<lambda>y. \<bar>x - y\<bar>) xs @ pair_dists xs"

lemma mset_pair_dists_insert: "mset (pair_dists (us @ x # vs)) = mset (pair_dists (x # us @ vs))"
proof (induction us)
  case (Cons u us)
  have "\<bar>u - x\<bar> = \<bar>x - u\<bar>" by (rule abs_minus_commute)
  then show ?case using Cons by (simp add: ac_simps)
qed simp

lemma mset_pair_dists: "mset xs = mset ys \<Longrightarrow> mset (pair_dists xs) = mset (pair_dists ys)"
proof (induction xs arbitrary: ys)
  case (Cons x xs)
  then have "x \<in> set ys" by (metis list.set_intros(1) mset_eq_setD)
  then obtain us vs where ys: "ys = us @ x # vs" by (metis split_list)
  then have "mset xs = mset (us @ vs)" using Cons.prems by simp
  then have "mset (pair_dists xs) = mset (pair_dists (us @ vs))" "mset (map f xs) = mset (map f (us @ vs))" for f :: "int \<Rightarrow> int"
    using Cons.IH by (simp, metis mset_map)
  then show ?case unfolding ys mset_pair_dists_insert by simp
qed simp

text \<open>Each pair is counted at its later element.\<close>

lemma count_pair_dists:
  "length (filter P (pair_dists xs)) = (\<Sum>i<length xs. length (filter (\<lambda>y. P \<bar>xs ! i - y\<bar>) (take i xs)))"
proof (induction xs rule: rev_induct)
  case (snoc x xs)
  have "mset (pair_dists (xs @ [x])) = mset (pair_dists (x # xs))" using mset_pair_dists_insert [of xs x "[]"] by simp
  then have "length (filter P (pair_dists (xs @ [x]))) = length (filter P (pair_dists (x # xs)))"
    by (metis mset_filter size_mset)
  also have "\<dots> = length (filter (\<lambda>y. P \<bar>x - y\<bar>) xs) + length (filter P (pair_dists xs))"
    by (simp add: filter_map comp_def)
  also note snoc
  finally show ?case by (simp add: nth_append)
qed simp

lemma lower_bound_filter: "sorted xs \<Longrightarrow> lower_bound xs t = length (filter (\<lambda>x. x < t) xs)"
proof (induction xs)
  case (Cons x xs)
  then have "filter (\<lambda>y. y < t) xs = []" if "\<not> x < t" using that by (force simp: filter_empty_conv)
  then show ?case using Cons by (simp add: lower_bound_def)
qed (simp add: lower_bound_def)

lemma lower_bound_dist:
  assumes "sorted xs" "0 \<le> d" "i < length xs"
  shows "int i - int (lower_bound xs (xs ! i - d)) = int (length (filter (\<lambda>y. \<bar>xs ! i - y\<bar> \<le> d) (take i xs)))"
proof -
  let ?t = "xs ! i - d"
  have le: "xs ! i \<le> y" if "y \<in> set (drop i xs)" for y
    using that sorted_nth_mono [OF assms(1)] by (auto simp: in_set_conv_nth)
  have ge: "y \<le> xs ! i" if "y \<in> set (take i xs)" for y
    using that sorted_nth_mono [OF assms(1)] assms(3) by (auto simp: in_set_conv_nth)
  have "filter (\<lambda>y. y < ?t) (drop i xs) = []" using le assms(2) by (fastforce simp: filter_empty_conv)
  then have "filter (\<lambda>y. y < ?t) xs = filter (\<lambda>y. y < ?t) (take i xs)"
    by (metis append.right_neutral append_take_drop_id filter_append)
  moreover have "filter (\<lambda>y. \<not> y < ?t) (take i xs) = filter (\<lambda>y. \<bar>xs ! i - y\<bar> \<le> d) (take i xs)"
    using ge by (intro filter_cong) auto
  moreover have "length (filter (\<lambda>y. y < ?t) (take i xs)) + length (filter (\<lambda>y. \<not> y < ?t) (take i xs)) = i"
    using sum_length_filter_compl [of "\<lambda>y. y < ?t" "take i xs"] assms(3) by simp
  ultimately show ?thesis using lower_bound_filter [OF assms(1)] by simp
qed

lemma pairs_within_count:
  assumes "sorted xs" "0 \<le> d"
  shows "pairs_within xs d = int (length (filter (\<lambda>x. x \<le> d) (pair_dists xs)))"
proof -
  have fold: "fold (\<lambda>i cnt. cnt + f i) [0..<n] c = c + (\<Sum>i<n. f i)" for f :: "nat \<Rightarrow> int" and n c
    by (induction n) simp_all
  have "pairs_within xs d = (\<Sum>i<length xs. int i - int (lower_bound xs (xs ! i - d)))"
    by (simp add: pairs_within_def Let_def fold)
  then show ?thesis using lower_bound_dist [OF assms] by (simp add: count_pair_dists)
qed

lemma dist_search_least:
  assumes "l \<le> r" "pairs_within arr r \<ge> k"
    and "\<And>d e. l \<le> d \<Longrightarrow> d \<le> e \<Longrightarrow> pairs_within arr d \<le> pairs_within arr e"
  defines "d \<equiv> dist_search arr k l r"
  shows "l \<le> d \<and> pairs_within arr d \<ge> k \<and> (\<forall>e. l \<le> e \<and> e < d \<longrightarrow> pairs_within arr e < k)"
  using assms(1-3) unfolding d_def
proof (induction arr k l r rule: dist_search.induct)
  case (1 arr k l r)
  let ?m = "(l + r) div 2"
  show ?case
  proof (cases "l < r")
    case True
    then have m: "l \<le> ?m" "?m + 1 \<le> r" by auto
    show ?thesis
    proof (cases "pairs_within arr ?m \<ge> k")
      case ge: True
      then show ?thesis using 1(1) [OF True refl ge] m 1(5) True by (subst (1 2 3) dist_search.simps) simp
    next
      case False
      have "pairs_within arr e < k" if "l \<le> e" "e < ?m + 1" for e using 1(5) [of e ?m] that False by simp
      moreover note 1(2) [OF True refl False m(2) 1(4) 1(5)]
      moreover have "dist_search arr k l r = dist_search arr k (?m + 1) r"
        using True False by (subst dist_search.simps) simp
      ultimately show ?thesis using m(1) linorder_not_less [of _ "?m + 1"] by auto
    qed
  next
    case False
    then show ?thesis using 1 by (subst (1 2 3) dist_search.simps) simp
  qed
qed

lemma lower_bound_nth:
  assumes "sorted xs" "j < length xs"
  shows "j < lower_bound xs t \<longleftrightarrow> xs ! j < t"
proof
  assume "j < lower_bound xs t"
  then show "xs ! j < t" unfolding lower_bound_def by (metis nth_mem set_takeWhileD takeWhile_nth)
next
  assume less: "xs ! j < t"
  show "j < lower_bound xs t"
  proof (rule ccontr)
    let ?m = "lower_bound xs t"
    assume "\<not> j < ?m"
    then have m: "?m \<le> j" by simp
    then have "\<not> xs ! ?m < t" unfolding lower_bound_def using assms(2) by (intro nth_length_takeWhile) simp
    then show False using sorted_nth_mono [OF assms(1) m assms(2)] less by simp
  qed
qed

lemma sorted_nth_le_iff:
  fixes xs :: "int list"
  assumes "sorted xs" "j < length xs"
  shows "xs ! j \<le> t \<longleftrightarrow> j < length (filter (\<lambda>x. x \<le> t) xs)"
proof -
  have "(\<lambda>x :: int. x \<le> t) = (\<lambda>x. x < t + 1)" by auto
  then show ?thesis using lower_bound_nth [OF assms, of "t + 1"] lower_bound_filter [OF assms(1), of "t + 1"] by simp
qed

lemma sorted_ends: "sorted xs \<Longrightarrow> x \<in> set xs \<Longrightarrow> hd xs \<le> x \<and> x \<le> last xs"
  by (cases xs rule: rev_cases) (auto simp: sorted_append hd_append neq_Nil_conv)

lemma pair_dists_bounds:
  assumes "\<forall>x\<in>set xs. l \<le> x \<and> x \<le> r" "d \<in> set (pair_dists xs)"
  shows "0 \<le> d \<and> d \<le> r - l"
  using assms by (induction xs) auto

text \<open>
  \<open>smallest_dist_pair\<close> returns the \<open>k\<close>-th smallest of the distances of all pairs of elements: the
  binary search over distances finds the least one within which there are \<open>k\<close> pairs.
\<close>

theorem smallest_dist_pair_correct:
  assumes "1 \<le> k" and "k \<le> int (length (pair_dists arr))"
  shows "smallest_dist_pair arr k = Some (sort (pair_dists arr) ! nat (k - 1))"
proof -
  let ?s = "sort arr" and ?ds = "sort (pair_dists arr)" and ?j = "nat (k - 1)"
  define r where "r = last ?s - hd ?s"
  define d where "d = dist_search ?s k 0 r"
  have ne: "arr \<noteq> []" using assms by auto
  have ends: "\<forall>x\<in>set ?s. hd ?s \<le> x \<and> x \<le> last ?s" using sorted_ends [of ?s] by simp
  have "?s \<noteq> []" using ne by (metis length_0_conv length_sort)
  then have r: "0 \<le> r" using bspec [OF ends, of "hd ?s"] hd_in_set [of ?s] by (simp add: r_def)
  have ds: "mset ?ds = mset (pair_dists ?s)" using mset_pair_dists [of arr ?s] by simp
  have all: "0 \<le> x \<and> x \<le> r" if "x \<in> set ?ds" for x
    using pair_dists_bounds [OF ends, of x] that ds by (metis mset_eq_setD r_def)
  have "length (filter (\<lambda>x. x \<le> e) ?ds) = length (filter (\<lambda>x. x \<le> e) (pair_dists ?s))" for e
    using ds by (metis mset_filter size_mset)
  then have count: "pairs_within ?s e = int (length (filter (\<lambda>x. x \<le> e) ?ds))" if "0 \<le> e" for e
    using pairs_within_count [of ?s e] that by simp
  have j: "?j < length ?ds" using assms by simp
  have at: "?ds ! ?j \<le> e \<longleftrightarrow> k \<le> pairs_within ?s e" if "0 \<le> e" for e
    using sorted_nth_le_iff [of ?ds ?j e] count [OF that] j assms(1) by simp linarith
  have mono: "pairs_within ?s e \<le> pairs_within ?s f" if "0 \<le> e" "e \<le> f" for e f
  proof -
    have "filter (\<lambda>x. x \<le> e) ?ds = filter (\<lambda>x. x \<le> e) (filter (\<lambda>x. x \<le> f) ?ds)"
      using that by (auto intro!: filter_cong)
    then show ?thesis using that count length_filter_le [of "\<lambda>x. x \<le> e" "filter (\<lambda>x. x \<le> f) ?ds"] by simp
  qed
  have "k \<le> pairs_within ?s r" using at [OF r] all [OF nth_mem [OF j]] by simp
  from dist_search_least [OF r this mono]
  have least: "0 \<le> d" "k \<le> pairs_within ?s d" "\<forall>e. 0 \<le> e \<and> e < d \<longrightarrow> pairs_within ?s e < k" by (simp_all add: d_def)
  have "?ds ! ?j \<le> d" using at least(1,2) by simp
  moreover have "d \<le> ?ds ! ?j" using at [of "?ds ! ?j"] least(3) all [OF nth_mem [OF j]] by (metis not_le order_refl)
  ultimately show ?thesis using ne by (simp add: smallest_dist_pair_def Let_def d_def r_def)
qed

theorem smallest_dist_pair_correct_witness: "smallest_dist_pair [1, 6, 1, 3] 2 = Some 2"
proof -
  have "sort (pair_dists [1, 6, 1, 3]) ! nat (2 - 1) = 2" by simp
  then show ?thesis using smallest_dist_pair_correct [of 2 "[1, 6, 1, 3]"] by simp
qed

end
