(* ===== verification/Quickselect.thy ===== *)
theory Quickselect
  imports Array_Problems "HOL-Library.Multiset"
begin

text \<open>
  Hoare's partition and the selection of \<open>find_kth_largest\<close> in \<open>algorithms/array/array.cpp\<close>. The
  code has no bounds in the two scanning loops: they stop at sentinels, an element that is not
  smaller than the pivot and one that is not larger, which the partition leaves behind itself.
\<close>

section \<open>The scans\<close>

lemma elem_at_int_Some: "0 \<le> i \<Longrightarrow> i < int (length A) \<Longrightarrow> elem_at_int A i = Some (A ! nat i)"
  by (simp add: elem_at_int_def elem_at_def nat_less_iff)

lemma scan_up_stops:
  assumes "i \<le> u" and "0 \<le> i" and "u < int (length A)" and "x \<le> A ! nat u"
  shows "\<exists>i'. scan_up A x i = Some i' \<and> i \<le> i' \<and> i' \<le> u \<and> x \<le> A ! nat i' \<and>
    (\<forall>p. i \<le> p \<and> p < i' \<longrightarrow> A ! nat p < x)"
  using assms
proof (induction "nat (u - i)" arbitrary: i rule: less_induct)
  case less
  have at: "elem_at_int A i = Some (A ! nat i)" using less.prems by (simp add: elem_at_int_Some)
  show ?case
  proof (cases "A ! nat i < x")
    case True
    with less.prems have "i < u" by (cases "i = u") auto
    with less.hyps [of "i + 1"] less.prems obtain i' where
      *: "scan_up A x (i + 1) = Some i'" "i + 1 \<le> i'" "i' \<le> u" "x \<le> A ! nat i'"
        "\<forall>p. i + 1 \<le> p \<and> p < i' \<longrightarrow> A ! nat p < x" by auto
    have "\<forall>p. i \<le> p \<and> p < i' \<longrightarrow> A ! nat p < x"
      using *(5) True by (metis add1_zle_eq order_le_less)
    then show ?thesis using * True at by (intro exI [of _ i']) (subst scan_up.simps, simp)
  next
    case False
    then show ?thesis using less.prems at by (intro exI [of _ i]) (subst scan_up.simps, auto)
  qed
qed

lemma scan_down_stops:
  assumes "d \<le> j" and "0 \<le> d" and "j < int (length A)" and "A ! nat d \<le> x"
  shows "\<exists>j'. scan_down A x j = Some j' \<and> d \<le> j' \<and> j' \<le> j \<and> A ! nat j' \<le> x \<and>
    (\<forall>p. j' < p \<and> p \<le> j \<longrightarrow> x < A ! nat p)"
  using assms
proof (induction "nat (j - d)" arbitrary: j rule: less_induct)
  case less
  have at: "elem_at_int A j = Some (A ! nat j)" using less.prems by (simp add: elem_at_int_Some)
  show ?case
  proof (cases "x < A ! nat j")
    case True
    with less.prems have "d < j" by (cases "d = j") auto
    with less.hyps [of "j - 1"] less.prems obtain j' where
      *: "scan_down A x (j - 1) = Some j'" "d \<le> j'" "j' \<le> j - 1" "A ! nat j' \<le> x"
        "\<forall>p. j' < p \<and> p \<le> j - 1 \<longrightarrow> x < A ! nat p" by auto
    have "\<forall>p. j' < p \<and> p \<le> j \<longrightarrow> x < A ! nat p"
      using *(5) True by (metis zle_diff1_eq order_le_less)
    then show ?thesis using * True at by (intro exI [of _ j']) (subst scan_down.simps, simp)
  next
    case False
    then show ?thesis using less.prems at by (intro exI [of _ j]) (subst scan_down.simps, auto)
  qed
qed

section \<open>Cuts\<close>

text \<open>A cut of an array: what is left of it is at most what is right of it.\<close>

definition cut :: "int list \<Rightarrow> int \<Rightarrow> bool" where
  "cut A c \<longleftrightarrow> (\<forall>p q. 0 \<le> p \<and> p < c \<and> c \<le> q \<and> q < int (length A) \<longrightarrow> A ! nat p \<le> A ! nat q)"

lemma nth_swap_elems:
  assumes "0 \<le> i" "i < int (length A)" "0 \<le> j" "j < int (length A)" "0 \<le> p" "p < int (length A)"
  shows "swap_elems (nat i) (nat j) A ! nat p = (if p = i then A ! nat j else if p = j then A ! nat i else A ! nat p)"
  using assms by (auto simp: swap_elems_def nth_list_update nat_eq_iff)

lemma length_swap_elems [simp]: "length (swap_elems i j A) = length A"
  by (simp add: swap_elems_def)

lemma mset_swap_elems: "i < length A \<Longrightarrow> j < length A \<Longrightarrow> mset (swap_elems i j A) = mset A"
  by (simp add: swap_elems_def mset_swap)

lemma cut_swap:
  assumes "cut A c" and "i < c \<and> j < c \<or> c \<le> i \<and> c \<le> j" and "0 \<le> i" "i < int (length A)" "0 \<le> j" "j < int (length A)"
  shows "cut (swap_elems (nat i) (nat j) A) c"
  unfolding cut_def
proof (intro allI impI)
  fix p q
  assume pq: "0 \<le> p \<and> p < c \<and> c \<le> q \<and> q < int (length (swap_elems (nat i) (nat j) A))"
  define t where "t p = (if p = i then j else if p = j then i else p)" for p
  have "0 \<le> t p \<and> t p < c \<and> c \<le> t q \<and> t q < int (length A)"
    using pq assms(2-) unfolding t_def length_swap_elems by (intro conjI; cases "p = i"; cases "p = j"; cases "q = i"; cases "q = j") simp_all
  then have "A ! nat (t p) \<le> A ! nat (t q)" using assms(1) unfolding cut_def by blast
  moreover have "swap_elems (nat i) (nat j) A ! nat r = A ! nat (t r)" if "0 \<le> r" "r < int (length A)" for r
    using that assms(3-) by (simp add: nth_swap_elems t_def)
  ultimately show "swap_elems (nat i) (nat j) A ! nat p \<le> swap_elems (nat i) (nat j) A ! nat q"
    using pq assms(2) by simp
qed

lemma cut_sort_nth:
  assumes "cut A (int k)" and "cut A (int k + 1)" and "k < length A"
  shows "A ! k = sort A ! k"
proof -
  let ?s = "sort (take k A) @ [A ! k] @ sort (drop (Suc k) A)"
  have left: "x \<le> A ! q" if "x \<in> set (take k A)" "k \<le> q" "q < length A" for x q
  proof -
    from that obtain p where "p < k" "x = A ! p" by (auto simp: in_set_conv_nth)
    then show ?thesis
      using assms(1) [unfolded cut_def, rule_format, of "int p" "int q"] that by simp
  qed
  have right: "A ! p \<le> x" if "x \<in> set (drop (Suc k) A)" "p \<le> k" for x p
  proof -
    from that obtain m where "m < length (drop (Suc k) A)" "x = drop (Suc k) A ! m"
      by (metis in_set_conv_nth)
    then obtain q where "k < q" "q < length A" "x = A ! q"
      by (intro that [of "Suc k + m"]) auto
    then show ?thesis
      using assms(2) [unfolded cut_def, rule_format, of "int p" "int q"] that assms(3) by simp
  qed
  have "x \<le> y" if "x \<in> set (take k A)" "y \<in> set (drop (Suc k) A)" for x y
    using left [OF that(1), of k] right [OF that(2), of k] assms(3) by simp
  then have "sorted ?s" using left [of _ k] right [of _ k] assms(3) by (simp add: sorted_append)
  moreover have "mset ?s = mset A"
    using arg_cong [OF id_take_nth_drop [OF assms(3)], of mset] by simp
  ultimately have "sort A = ?s" by (rule properties_for_sort [rotated])
  moreover have "?s ! k = A ! k" using assms(3) by (simp add: nth_append)
  ultimately show ?thesis by simp
qed

section \<open>The partition\<close>

text \<open>
  At the head of the loop the elements of \<open>[l, i]\<close> are at most the pivot and those of \<open>[j, r]\<close> at
  least; \<open>u\<close> and \<open>d\<close> are the sentinels of the next two scans. In the first round both are the pivot
  itself, which is not the last element, and later they are \<open>j\<close> and \<open>i\<close>.
\<close>

definition partitioned :: "int \<Rightarrow> int list \<Rightarrow> int \<Rightarrow> int \<Rightarrow> int \<Rightarrow> int \<Rightarrow> bool" where
  "partitioned x A l r i j \<longleftrightarrow>
     (\<forall>p. l \<le> p \<and> p \<le> i \<longrightarrow> A ! nat p \<le> x) \<and> (\<forall>p. j \<le> p \<and> p \<le> r \<longrightarrow> x \<le> A ! nat p)"

definition same_outside :: "int list \<Rightarrow> int list \<Rightarrow> int \<Rightarrow> int \<Rightarrow> bool" where
  "same_outside A B l r \<longleftrightarrow> mset B = mset A \<and> (\<forall>c. c \<le> l \<or> r < c \<longrightarrow> cut A c \<longrightarrow> cut B c)"

lemma same_outside_refl: "same_outside A A l r"
  by (simp add: same_outside_def)

lemma same_outside_swap:
  assumes "0 \<le> l" "r < int (length A)" "l \<le> i" "i \<le> r" "l \<le> j" "j \<le> r" "same_outside (swap_elems (nat i) (nat j) A) B l r"
  shows "same_outside A B l r"
proof -
  have "mset (swap_elems (nat i) (nat j) A) = mset A" using assms by (intro mset_swap_elems) auto
  moreover have "cut (swap_elems (nat i) (nat j) A) c" if "c \<le> l \<or> r < c" "cut A c" for c
    using that assms by (intro cut_swap) auto
  ultimately show ?thesis using assms(7) by (auto simp: same_outside_def)
qed

lemma same_outside_length: "same_outside A B l r \<Longrightarrow> length B = length A"
  unfolding same_outside_def by (metis size_mset)

lemma partitioned_swap:
  assumes "partitioned x A l r (i - 1) (j + 1)" and "A ! nat j \<le> x" "x \<le> A ! nat i"
    and "0 \<le> l" "r < int (length A)" "l \<le> i" "i < j" "j \<le> r"
  shows "partitioned x (swap_elems (nat i) (nat j) A) l r i j"
  using assms unfolding partitioned_def by (auto simp: nth_swap_elems)

lemma partition_loop_correct:
  assumes "partitioned x A l r i j" and "0 \<le> l" "r < int (length A)" "l - 1 \<le> i" "i < j" "j \<le> r + 1"
    and "i < u" "u \<le> r" "x \<le> A ! nat u" and "l \<le> d" "d < j" "A ! nat d \<le> x" and "u < r \<or> j \<le> r"
  shows "\<exists>B k. partition_loop x A i j = Some (B, k) \<and> l \<le> k \<and> k < r \<and> partitioned x B l r k (k + 1) \<and>
    same_outside A B l r"
  using assms
proof (induction "nat (j - i)" arbitrary: A i j u d rule: less_induct)
  case less
  obtain i' where up: "scan_up A x (i + 1) = Some i'" "i + 1 \<le> i'" "i' \<le> u" "x \<le> A ! nat i'"
    "\<forall>p. i + 1 \<le> p \<and> p < i' \<longrightarrow> A ! nat p < x"
    using scan_up_stops [of "i + 1" u A x] less.prems by auto
  obtain j' where down: "scan_down A x (j - 1) = Some j'" "d \<le> j'" "j' \<le> j - 1" "A ! nat j' \<le> x"
    "\<forall>p. j' < p \<and> p \<le> j - 1 \<longrightarrow> x < A ! nat p"
    using scan_down_stops [of d "j - 1" A x] less.prems by auto
  have le: "A ! nat p \<le> x" if "l \<le> p" "p \<le> i' - 1" for p
    using that less.prems(1) up(5) unfolding partitioned_def by (cases "p \<le> i") (auto simp: less_imp_le)
  have ge: "x \<le> A ! nat p" if "j' + 1 \<le> p" "p \<le> r" for p
    using that less.prems(1) down(5) unfolding partitioned_def by (cases "j \<le> p") (auto simp: less_imp_le)
  show ?case
  proof (cases "i' < j'")
    case True
    let ?A = "swap_elems (nat i') (nat j') A"
    have p: "partitioned x ?A l r i' j'"
      using le ge up down less.prems True by (intro partitioned_swap) (auto simp: partitioned_def)
    have at: "?A ! nat i' \<le> x" "x \<le> ?A ! nat j'" using p True up(2) down(3) less.prems by (auto simp: partitioned_def)
    obtain B k where "partition_loop x ?A i' j' = Some (B, k)" "l \<le> k" "k < r" "partitioned x B l r k (k + 1)"
      "same_outside ?A B l r"
      using less.hyps [of j' i' ?A j' i'] p at True up down less.prems by auto
    then show ?thesis
      using same_outside_swap [of l r A i' j' B] True up(1,2) down(1,3) less.prems
      by (intro exI [of _ B] exI [of _ k]) (subst partition_loop.simps, simp)
  next
    case False
    have "partition_loop x A i' j' = Some (A, j')" using False by (subst partition_loop.simps) simp
    moreover have "A ! nat p \<le> x" if "l \<le> p" "p \<le> j'" for p
      using le [of p] that down(4) False by (cases "p = j'") simp_all
    then have "partitioned x A l r j' (j' + 1)" using ge by (simp add: partitioned_def)
    moreover have "l \<le> j'" "j' < r" using False up down less.prems by auto
    ultimately show ?thesis
      using up(1) down(1) less.prems(5) False
      by (intro exI [of _ A] exI [of _ j']) (subst partition_loop.simps, simp add: same_outside_refl)
  qed
qed

section \<open>The selection\<close>

lemma cut_partitioned:
  assumes "cut A l" "cut A (r + 1)" "partitioned x A l r k (k + 1)" "l \<le> k" "k < r"
  shows "cut A (k + 1)"
  unfolding cut_def
proof (intro allI impI)
  fix p q
  assume pq: "0 \<le> p \<and> p < k + 1 \<and> k + 1 \<le> q \<and> q < int (length A)"
  consider "p < l" | "r < q" | "l \<le> p" "q \<le> r" by linarith
  then show "A ! nat p \<le> A ! nat q"
  proof cases
    case 1
    then show ?thesis using assms(1) [unfolded cut_def, rule_format, of p q] pq assms(4) by simp
  next
    case 2
    then show ?thesis using assms(2) [unfolded cut_def, rule_format, of p q] pq assms(5) by simp
  next
    case 3
    then have "A ! nat p \<le> x" "x \<le> A ! nat q" using assms(3) pq unfolding partitioned_def by auto
    then show ?thesis by simp
  qed
qed

lemma quickselect_correct:
  assumes "0 \<le> l" "l \<le> k" "k \<le> r" "r < int (length A)" "cut A l" "cut A (r + 1)"
  shows "quickselect k A l r = Some (sort A ! nat k)"
  using assms
proof (induction "nat (r - l)" arbitrary: A l r rule: less_induct)
  case less
  show ?case
  proof (cases "l = r")
    case True
    then have "quickselect k A l r = Some (A ! nat k)"
      using less.prems by (subst quickselect.simps) (simp add: elem_at_int_Some)
    then show ?thesis using cut_sort_nth [of A "nat k"] less.prems True by simp
  next
    case False
    define m where "m = (l + r) div 2"
    have m: "l \<le> m" "m < r" using False less.prems by (auto simp: m_def)
    obtain B j where part: "partition_loop (A ! nat m) A (l - 1) (r + 1) = Some (B, j)" "l \<le> j" "j < r"
      "partitioned (A ! nat m) B l r j (j + 1)" "same_outside A B l r"
      using partition_loop_correct [of "A ! nat m" A l r "l - 1" "r + 1" m m] m less.prems
      by (auto simp: partitioned_def)
    have len: "length B = length A" using part(5) by (rule same_outside_length)
    have cuts: "cut B l" "cut B (r + 1)" using part(5) less.prems by (auto simp: same_outside_def)
    have "cut B (j + 1)" using cut_partitioned [OF cuts part(4) part(2,3)] .
    moreover have "sort B = sort A" using part(5) by (metis same_outside_def sorted_list_of_multiset_mset)
    ultimately have "(if j < k then quickselect k B (j + 1) r else quickselect k B l j) = Some (sort A ! nat k)"
      using less.hyps [of r "j + 1" B] less.hyps [of j l B] less.prems part(2,3) cuts len by auto
    then show ?thesis
      using False part(1) m less.prems by (subst quickselect.simps) (simp add: elem_at_int_Some split: if_splits flip: m_def)
  qed
qed

text \<open>
  \<open>find_kth_largest\<close> returns, for every array and every \<open>k\<close> from 1 to its length, the \<open>k\<close>-th
  largest element, that is the element at \<open>length A - k\<close> of the sorted array: the scans of Hoare's
  partition never leave the array and the recursion ends.
\<close>

theorem find_kth_largest_correct:
  assumes "1 \<le> k" and "k \<le> int (length A)"
  shows "find_kth_largest A k = Some (sort A ! (length A - nat k))"
proof -
  have "nat (int (length A) - k) = length A - nat k" using assms by simp
  then show ?thesis
    using quickselect_correct [of 0 "int (length A) - k" "int (length A) - 1" A] assms
    by (simp add: find_kth_largest_def cut_def)
qed

theorem find_kth_largest_correct_witness: "find_kth_largest [3, 1, 4, 1, 5, 9, 2, 6] 3 = Some 5"
  using find_kth_largest_correct [of 3 "[3, 1, 4, 1, 5, 9, 2, 6]"] by simp

end
