(* ===== verification/Task_Manager.thy ===== *)
theory Task_Manager
  imports Tables "HOL-Library.Product_Lexorder" "HOL-Library.Monad_Syntax"
begin

text \<open>
  \<open>algorithms/design/design.cpp\<close>: tasks with priorities in an \<open>unordered_map\<close>, from task to user and
  priority, and a \<open>set\<close> of negated priorities and tasks, whose first element is the next task. The set
  is a strictly sorted list, \<open>None\<close> is a row of the constructor's argument that is too short.
\<close>

section \<open>The class\<close>

record task_manager =
  tm_mp :: "int \<Rightarrow> (int \<times> int) option"
  tm_st :: "(int \<times> int) list"

text \<open>\<open>mp[taskId]\<close> inserts \<open>(0, 0)\<close> for a task that is not there; the callers overwrite or erase it.\<close>

definition tm_at :: "task_manager \<Rightarrow> int \<Rightarrow> int \<times> int" where
  "tm_at m taskId = (case tm_mp m taskId of None \<Rightarrow> (0, 0) | Some up \<Rightarrow> up)"

definition st_erase :: "int \<times> int \<Rightarrow> (int \<times> int) list \<Rightarrow> (int \<times> int) list" where
  "st_erase e st = filter (\<lambda>x. x \<noteq> e) st"

definition tm_add :: "int \<Rightarrow> int \<Rightarrow> int \<Rightarrow> task_manager \<Rightarrow> task_manager" where
  "tm_add userId taskId priority m =
     m\<lparr>tm_mp := (tm_mp m)(taskId \<mapsto> (userId, priority)), tm_st := insort_insert (- priority, - taskId) (tm_st m)\<rparr>"

definition tm_edit :: "int \<Rightarrow> int \<Rightarrow> task_manager \<Rightarrow> task_manager" where
  "tm_edit taskId newPriority m =
     (case tm_at m taskId of (userId, priority) \<Rightarrow>
        m\<lparr>tm_st := insort_insert (- newPriority, - taskId) (st_erase (- priority, - taskId) (tm_st m)),
          tm_mp := (tm_mp m)(taskId \<mapsto> (userId, newPriority))\<rparr>)"

definition tm_rmv :: "int \<Rightarrow> task_manager \<Rightarrow> task_manager" where
  "tm_rmv taskId m =
     (case tm_at m taskId of (userId, priority) \<Rightarrow>
        m\<lparr>tm_st := st_erase (- priority, - taskId) (tm_st m), tm_mp := (tm_mp m)(taskId := None)\<rparr>)"

definition tm_exec_top :: "task_manager \<Rightarrow> int \<times> task_manager" where
  "tm_exec_top m =
     (case tm_st m of
        [] \<Rightarrow> (- 1, m)
      | e # st \<Rightarrow>
          let taskId = - snd e; userId = fst (tm_at m taskId) in
          (userId, m\<lparr>tm_st := st, tm_mp := (tm_mp m)(taskId := None)\<rparr>))"

fun tm_tasks :: "int list list \<Rightarrow> task_manager \<Rightarrow> task_manager option" where
  "tm_tasks [] m = Some m"
| "tm_tasks (t # ts) m = do {
     userId \<leftarrow> elem_at t 0;
     taskId \<leftarrow> elem_at t 1;
     priority \<leftarrow> elem_at t 2;
     tm_tasks ts (tm_add userId taskId priority m)
   }"

definition TaskManager :: "int list list \<Rightarrow> task_manager option" where
  "TaskManager tasks = tm_tasks tasks \<lparr>tm_mp = (\<lambda>_. None), tm_st = []\<rparr>"

section \<open>The program\<close>

datatype task_op = Add int int int | Edit int int | Rmv int | ExecTop

fun task_do :: "task_op \<Rightarrow> task_manager \<Rightarrow> int option \<times> task_manager" where
  "task_do (Add u t p) m = (None, tm_add u t p m)"
| "task_do (Edit t p) m = (None, tm_edit t p m)"
| "task_do (Rmv t) m = (None, tm_rmv t m)"
| "task_do ExecTop m = (case tm_exec_top m of (r, m) \<Rightarrow> (Some r, m))"

fun task_run :: "task_op list \<Rightarrow> task_manager \<Rightarrow> int option list \<times> task_manager" where
  "task_run [] m = ([], m)"
| "task_run (x # xs) m =
     (case task_do x m of (r, m) \<Rightarrow> case task_run xs m of (rs, m) \<Rightarrow> (r # rs, m))"

fun task_result :: "int option \<Rightarrow> string" where
  "task_result None = ''null''"
| "task_result (Some i) = show_int i"

definition task_main :: "string option" where
  "task_main = map_option (\<lambda>m.
     let output = ''null'' # map task_result (fst (task_run
           [Add 4 104 5, Edit 102 8, ExecTop, Rmv 101, Add 5 105 15, ExecTop] m))
     in ''['' @ concat (map (\<lambda>i. (if i > 0 then '', '' else []) @ output ! i) [0..<length output]) @ line_out '']'')
     (TaskManager [[1, 101, 10], [2, 102, 20], [3, 103, 15]])"

section \<open>The invariant\<close>

text \<open>The set has exactly one element for every task of the map.\<close>

definition tm_ok :: "task_manager \<Rightarrow> bool" where
  "tm_ok m \<longleftrightarrow> sorted (tm_st m) \<and> distinct (tm_st m) \<and>
     set (tm_st m) = {(- p, - t) | u p t. tm_mp m t = Some (u, p)}"

lemma tm_ok_mem:
  assumes "tm_ok m"
  shows "(a, b) \<in> set (tm_st m) \<longleftrightarrow> (\<exists>u. tm_mp m (- b) = Some (u, - a))"
  using assms by (force simp: tm_ok_def)

lemma tm_ok_iff:
  "tm_ok m \<longleftrightarrow> sorted (tm_st m) \<and> distinct (tm_st m) \<and>
    (\<forall>a b. (a, b) \<in> set (tm_st m) \<longleftrightarrow> (\<exists>u. tm_mp m (- b) = Some (u, - a)))"
  by (auto simp: tm_ok_def) (metis add.inverse_inverse)+

lemma st_erase_simps [simp]:
  "set (st_erase e st) = set st - {e}" "sorted st \<Longrightarrow> sorted (st_erase e st)" "distinct st \<Longrightarrow> distinct (st_erase e st)"
  by (auto simp: st_erase_def sorted_filter [of id, simplified])

lemma sorted_insort_insert_id [simp]: "sorted st \<Longrightarrow> sorted (insort_insert e st)"
  by (rule sorted_insort_insert)

text \<open>
  \<open>add\<close> keeps the two in step when the number is not in use, or in use with the same priority. It does not take the old
  entry of a number that is in use out of the set.
\<close>

definition may_add :: "int \<Rightarrow> int \<Rightarrow> task_manager \<Rightarrow> bool" where
  "may_add taskId priority m \<longleftrightarrow> (case tm_mp m taskId of None \<Rightarrow> True | Some (_, p) \<Rightarrow> p = priority)"

lemma tm_add_ok_iff:
  assumes "tm_ok m"
  shows "tm_ok (tm_add u t p m) \<longleftrightarrow> may_add t p m"
proof
  assume ok: "tm_ok (tm_add u t p m)"
  have "q = p" if "tm_mp m t = Some (v, q)" for v q
  proof -
    have "(- q, - t) \<in> set (tm_st m)" using tm_ok_mem [OF assms, of "- q" "- t"] that by simp
    then have "(- q, - t) \<in> set (tm_st (tm_add u t p m))" by (simp add: tm_add_def set_insort_insert)
    then show ?thesis using tm_ok_mem [OF ok, of "- q" "- t"] by (simp add: tm_add_def)
  qed
  then show "may_add t p m" by (auto simp: may_add_def split: option.splits)
next
  assume "may_add t p m"
  then show "tm_ok (tm_add u t p m)" using assms unfolding tm_ok_iff
    by (auto simp: may_add_def tm_add_def set_insort_insert distinct_insort_insert split: option.splits)
qed

lemma tm_add_ok: "tm_ok m \<Longrightarrow> may_add t p m \<Longrightarrow> tm_ok (tm_add u t p m)"
  by (simp add: tm_add_ok_iff)

lemma tm_edit_ok: "tm_ok m \<Longrightarrow> tm_ok (tm_edit t p m)"
  unfolding tm_ok_iff
  by (auto simp: tm_edit_def tm_at_def set_insort_insert distinct_insort_insert split: option.splits prod.splits)

lemma tm_rmv_ok: "tm_ok m \<Longrightarrow> tm_ok (tm_rmv t m)"
  unfolding tm_ok_iff by (auto simp: tm_rmv_def tm_at_def split: option.splits prod.splits)

text \<open>The first element of the set is the task with the highest priority, the largest of these.\<close>

definition is_top :: "(int \<Rightarrow> (int \<times> int) option) \<Rightarrow> int \<Rightarrow> int \<Rightarrow> int \<Rightarrow> bool" where
  "is_top T t u p \<longleftrightarrow> T t = Some (u, p) \<and>
     (\<forall>t' u' p'. T t' = Some (u', p') \<longrightarrow> p' < p \<or> p' = p \<and> t' \<le> t)"

lemma tm_first_top:
  assumes "tm_ok m" "tm_st m = (a, b) # st"
  shows "\<exists>u. is_top (tm_mp m) (- b) u (- a)"
proof -
  obtain u where u: "tm_mp m (- b) = Some (u, - a)" using tm_ok_mem [OF assms(1), of a b] assms(2) by auto
  have "p < - a \<or> p = - a \<and> t \<le> - b" if "tm_mp m t = Some (v, p)" for t v p
  proof -
    have "(- p, - t) \<in> set (tm_st m)" using tm_ok_mem [OF assms(1), of "- p" "- t"] that by simp
    then have "(a, b) \<le> (- p, - t)" using assms by (auto simp: tm_ok_def)
    then show ?thesis by auto
  qed
  then show ?thesis using u by (auto simp: is_top_def)
qed

lemma tm_exec_top_ok:
  assumes "tm_ok m"
  shows "tm_ok (snd (tm_exec_top m))"
proof (cases "tm_st m")
  case (Cons e st)
  obtain a b where e: "e = (a, b)" by fastforce
  have "(c, d) \<in> set st \<longleftrightarrow> d \<noteq> b \<and> (c, d) \<in> set (tm_st m)" for c d
  proof
    assume "(c, d) \<in> set st"
    moreover have "(a, b) \<notin> set st" using assms Cons e by (simp add: tm_ok_def)
    ultimately show "d \<noteq> b \<and> (c, d) \<in> set (tm_st m)"
      using tm_ok_mem [OF assms, of c d] tm_ok_mem [OF assms, of a b] Cons e by auto
  qed (use Cons e in auto)
  then show ?thesis using assms Cons e unfolding tm_ok_iff by (auto simp: tm_exec_top_def Let_def)
qed (use assms in \<open>simp add: tm_exec_top_def\<close>)

section \<open>Refinement\<close>

text \<open>
  The contract: the tasks are a map, and \<open>execTop\<close> removes the task with the highest priority, the
  one with the largest number among several, and returns its user, or -1 if there is no task.
\<close>

fun task_spec :: "task_op \<Rightarrow> (int \<Rightarrow> (int \<times> int) option) \<Rightarrow> int option \<Rightarrow> (int \<Rightarrow> (int \<times> int) option) \<Rightarrow> bool" where
  "task_spec (Add u t p) T r T' \<longleftrightarrow> r = None \<and> T' = T(t \<mapsto> (u, p))"
| "task_spec (Edit t p) T r T' \<longleftrightarrow> r = None \<and> T' = T(t \<mapsto> (case T t of None \<Rightarrow> 0 | Some (u, _) \<Rightarrow> u, p))"
| "task_spec (Rmv t) T r T' \<longleftrightarrow> r = None \<and> T' = T(t := None)"
| "task_spec ExecTop T r T' \<longleftrightarrow>
     (if T = Map.empty then r = Some (- 1) \<and> T' = T
      else \<exists>t u p. is_top T t u p \<and> r = Some u \<and> T' = T(t := None))"

inductive task_specs :: "task_op list \<Rightarrow> (int \<Rightarrow> (int \<times> int) option) \<Rightarrow> int option list \<Rightarrow> (int \<Rightarrow> (int \<times> int) option) \<Rightarrow> bool" where
  specs_nil: "task_specs [] T [] T"
| specs_cons: "task_spec x T r T' \<Longrightarrow> task_specs xs T' rs T'' \<Longrightarrow> task_specs (x # xs) T (r # rs) T''"

lemma tm_exec_top_spec:
  assumes "tm_ok m"
  shows "task_spec ExecTop (tm_mp m) (Some (fst (tm_exec_top m))) (tm_mp (snd (tm_exec_top m)))"
proof (cases "tm_st m")
  case Nil
  have "tm_mp m t = None" for t
    using tm_ok_mem [OF assms, of "- snd (the (tm_mp m t))" "- t"] Nil by (cases "tm_mp m t") auto
  then have "tm_mp m = Map.empty" by auto
  then show ?thesis using Nil by (simp add: tm_exec_top_def)
next
  case (Cons e st)
  obtain a b where e: "e = (a, b)" by fastforce
  obtain u where u: "is_top (tm_mp m) (- b) u (- a)" using tm_first_top [OF assms] Cons e by blast
  then have "tm_mp m (- b) = Some (u, - a)" by (simp add: is_top_def)
  moreover from this have "tm_mp m \<noteq> Map.empty" by auto
  ultimately show ?thesis using Cons e u by (auto simp: tm_exec_top_def tm_at_def)
qed

text \<open>Whenever the operations add a task, its number is not in use, or has the same priority already.\<close>

fun fresh_ops :: "task_op list \<Rightarrow> task_manager \<Rightarrow> bool" where
  "fresh_ops [] m \<longleftrightarrow> True"
| "fresh_ops (x # xs) m \<longleftrightarrow>
     (case x of Add u t p \<Rightarrow> may_add t p m | _ \<Rightarrow> True) \<and> fresh_ops xs (snd (task_do x m))"

lemma task_do_refines:
  assumes "tm_ok m" "fresh_ops [x] m"
  shows "task_spec x (tm_mp m) (fst (task_do x m)) (tm_mp (snd (task_do x m))) \<and> tm_ok (snd (task_do x m))"
proof (cases x)
  case ExecTop
  then show ?thesis using tm_exec_top_spec [OF assms(1)] tm_exec_top_ok [OF assms(1)] by (simp add: split_beta)
qed (use assms tm_add_ok tm_edit_ok tm_rmv_ok in
  \<open>auto simp: tm_add_def tm_edit_def tm_rmv_def tm_at_def split: prod.splits option.splits\<close>)

lemma task_run_refines:
  assumes "tm_ok m" "fresh_ops xs m"
  shows "task_specs xs (tm_mp m) (fst (task_run xs m)) (tm_mp (snd (task_run xs m))) \<and> tm_ok (snd (task_run xs m))"
  using assms
proof (induction xs arbitrary: m)
  case (Cons x xs)
  then show ?case using task_do_refines [of m x] by (auto simp: split_beta intro: specs_cons)
qed (simp add: specs_nil)

lemma tm_tasks_ok:
  assumes "\<forall>t\<in>set tasks. 3 \<le> length t" "distinct (map (\<lambda>t. t ! 1) tasks)" "tm_ok m"
    and "\<forall>t\<in>set tasks. tm_mp m (t ! 1) = None"
  shows "\<exists>m'. tm_tasks tasks m = Some m' \<and> tm_ok m' \<and>
    tm_mp m' = tm_mp m ++ map_of (map (\<lambda>t. (t ! 1, t ! 0, t ! 2)) tasks)"
  using assms
proof (induction tasks arbitrary: m)
  case (Cons t ts)
  let ?m = "tm_add (t ! 0) (t ! 1) (t ! 2) m"
  have mp: "tm_mp ?m = (tm_mp m)(t ! 1 \<mapsto> (t ! 0, t ! 2))" by (simp add: tm_add_def)
  have "\<forall>s\<in>set ts. tm_mp ?m (s ! 1) = None" unfolding mp using Cons.prems(2,4) by (force simp: image_iff)
  moreover have "tm_ok ?m" using Cons.prems(3,4) by (intro tm_add_ok) (simp_all add: may_add_def)
  moreover have "\<forall>s\<in>set ts. 3 \<le> length s" "distinct (map (\<lambda>t. t ! 1) ts)" using Cons.prems(1,2) by simp_all
  ultimately obtain m' where m': "tm_tasks ts ?m = Some m'" "tm_ok m'"
    "tm_mp m' = tm_mp ?m ++ map_of (map (\<lambda>t. (t ! 1, t ! 0, t ! 2)) ts)"
    using Cons.IH [of ?m] by blast
  have "map_of (map (\<lambda>t. (t ! 1, t ! 0, t ! 2)) ts) (t ! 1) = None"
    using Cons.prems(2) by (auto simp: map_of_eq_None_iff comp_def image_image)
  then have "tm_mp m' = tm_mp m ++ map_of (map (\<lambda>t. (t ! 1, t ! 0, t ! 2)) (t # ts))"
    unfolding m'(3) mp by (auto simp: map_add_def split: option.splits)
  moreover have "0 < length t" "1 < length t" "2 < length t" using Cons.prems(1) by auto
  then have "tm_tasks (t # ts) m = Some m'" using m'(1) by (simp add: elem_at_def)
  ultimately show ?case using m'(2) by blast
qed simp

text \<open>
  C36: A \<open>TaskManager\<close> made from tasks with different numbers behaves as a map of tasks from which \<open>execTop\<close> takes the
  task with the highest priority, for every sequence of operations in which \<open>add\<close> is never called with a number that is in use
  with another priority: the map and the ordered set of the class never get out of step. Without this restriction it
  is false (\<open>tm_add_ok_iff\<close>, \<open>task_manager_readd\<close>).
\<close>

theorem task_manager_refines:
  assumes "\<forall>t\<in>set tasks. 3 \<le> length t" "distinct (map (\<lambda>t. t ! 1) tasks)"
  shows "\<exists>m. TaskManager tasks = Some m \<and> (\<forall>xs. fresh_ops xs m \<longrightarrow>
    task_specs xs (map_of (map (\<lambda>t. (t ! 1, t ! 0, t ! 2)) tasks)) (fst (task_run xs m)) (tm_mp (snd (task_run xs m))))"
proof -
  let ?m = "\<lparr>tm_mp = Map.empty, tm_st = []\<rparr>"
  have "tm_ok ?m" by (simp add: tm_ok_def)
  from tm_tasks_ok [OF assms this] have
    "\<exists>m'. tm_tasks tasks ?m = Some m' \<and> tm_ok m' \<and> tm_mp m' = tm_mp ?m ++ map_of (map (\<lambda>t. (t ! 1, t ! 0, t ! 2)) tasks)"
    by simp
  then obtain m where "TaskManager tasks = Some m" "tm_ok m"
    "tm_mp m = map_of (map (\<lambda>t. (t ! 1, t ! 0, t ! 2)) tasks)"
    unfolding TaskManager_def by (metis task_manager.select_convs(1) empty_map_add)
  then show ?thesis using task_run_refines [of m] by auto
qed

theorem task_manager_refines_witness:
  "\<exists>m T. TaskManager [[1, 101, 10], [2, 102, 20]] = Some m \<and>
    task_specs [Add 4 104 5, Edit 102 8, ExecTop] [101 \<mapsto> (1, 10), 102 \<mapsto> (2, 20)] [None, None, Some 1] T"
proof -
  let ?tasks = "[[1, 101, 10], [2, 102, 20]] :: int list list" and ?ops = "[Add 4 104 5, Edit 102 8, ExecTop]"
  obtain m where m: "TaskManager ?tasks = Some m"
    and specs: "\<And>xs. fresh_ops xs m \<Longrightarrow> task_specs xs (map_of (map (\<lambda>t. (t ! 1, t ! 0, t ! 2)) ?tasks)) (fst (task_run xs m)) (tm_mp (snd (task_run xs m)))"
    using task_manager_refines [of ?tasks] by auto
  then have m_def: "m = \<lparr>tm_mp = [101 \<mapsto> (1, 10), 102 \<mapsto> (2, 20)], tm_st = [(- 20, - 102), (- 10, - 101)]\<rparr>"
    by (simp add: TaskManager_def tm_add_def elem_at_def insort_insert_key_def)
  have "fresh_ops ?ops m" "fst (task_run ?ops m) = [None, None, Some 1]"
    by (simp_all add: m_def may_add_def tm_add_def tm_edit_def tm_exec_top_def tm_at_def st_erase_def insort_insert_key_def)
  moreover have "map_of (map (\<lambda>t. (t ! 1, t ! 0, t ! 2)) ?tasks) = [101 \<mapsto> (1, 10), 102 \<mapsto> (2, 20)]"
    by (auto simp: fun_eq_iff)
  ultimately show ?thesis using m specs [of ?ops] by auto
qed

text \<open>
  A task that is added again with a lower priority is still found under the old one, and the entry of the new one remains when it
  is done: \<open>execTop\<close> then returns a user 0 that no task has, where it should return -1.
\<close>

lemma task_manager_readd:
  "map_option (\<lambda>m. fst (task_run [Add 2 101 5, ExecTop, ExecTop] m)) (TaskManager [[1, 101, 10]]) = Some [None, Some 2, Some 0]"
  by (simp add: TaskManager_def tm_add_def elem_at_def insort_insert_key_def tm_exec_top_def tm_at_def)

lemma task_main_output: "task_main = Some (line_out ''[null, null, null, 3, null, null, 5]'')"
  by code_simp

end
