(* ===== verification/Linearizability.thy ===== *)
theory Linearizability
  imports Main
begin

text \<open>
  Histories of concurrent objects. A history is what a client sees: the calls of the threads, with their
  arguments, and the returns, with their results, in the order in which they happen. It is linearizable for a
  sequential object if a moment can be found for every operation, between its call and its return, such that the
  operations at these moments, one after the other, are a run of the sequential object with the same results.
\<close>

datatype ('o, 'r) history_event = Call nat 'o | Effect nat 'o 'r | Return nat 'r

fun visible :: "('o, 'r) history_event \<Rightarrow> bool" where
  "visible (Effect i op r) \<longleftrightarrow> False"
| "visible _ \<longleftrightarrow> True"

text \<open>The effects as a run of the sequential object: \<open>f st op r\<close> is the next state, and \<open>None\<close> if \<open>op\<close> cannot return \<open>r\<close>.\<close>

fun object_run :: "('s \<Rightarrow> 'o \<Rightarrow> 'r \<Rightarrow> 's option) \<Rightarrow> 's \<Rightarrow> ('o, 'r) history_event list \<Rightarrow> 's option" where
  "object_run f st [] = Some st"
| "object_run f st (Effect i op r # es) = (case f st op r of None \<Rightarrow> None | Some st' \<Rightarrow> object_run f st' es)"
| "object_run f st (e # es) = object_run f st es"

text \<open>A thread calls an operation, this takes effect with a result, and returns that result.\<close>

datatype ('o, 'r) phase = Idle | Called 'o | Done 'r

fun phase_step :: "nat \<Rightarrow> ('o, 'r) history_event \<Rightarrow> ('o, 'r) phase \<Rightarrow> ('o, 'r) phase option" where
  "phase_step i (Call j op) p = (if j \<noteq> i then Some p else if p = Idle then Some (Called op) else None)"
| "phase_step i (Effect j op r) p = (if j \<noteq> i then Some p else if p = Called op then Some (Done r) else None)"
| "phase_step i (Return j r) p = (if j \<noteq> i then Some p else if p = Done r then Some Idle else None)"

fun thread_run :: "nat \<Rightarrow> ('o, 'r) history_event list \<Rightarrow> ('o, 'r) phase \<Rightarrow> ('o, 'r) phase option" where
  "thread_run i [] p = Some p"
| "thread_run i (e # es) p = (case phase_step i e p of None \<Rightarrow> None | Some p' \<Rightarrow> thread_run i es p')"

text \<open>\<open>E\<close> is the history \<open>H\<close> with the moments of the effects, which lead the object from \<open>st0\<close> to \<open>st\<close> and thread \<open>i\<close> to \<open>A i\<close>.\<close>

definition linearizes :: "('s \<Rightarrow> 'o \<Rightarrow> 'r \<Rightarrow> 's option) \<Rightarrow> 's \<Rightarrow> ('o, 'r) history_event list \<Rightarrow> ('o, 'r) history_event list \<Rightarrow>
    's \<Rightarrow> (nat \<Rightarrow> ('o, 'r) phase) \<Rightarrow> bool" where
  "linearizes f st0 H E st A \<longleftrightarrow>
     filter visible E = H \<and> object_run f st0 E = Some st \<and> (\<forall>i. thread_run i E Idle = Some (A i))"

section \<open>Extending a linearization\<close>

lemma object_run_append: "object_run f st (es @ es') = (case object_run f st es of None \<Rightarrow> None | Some st' \<Rightarrow> object_run f st' es')"
  by (induction f st es rule: object_run.induct) (auto split: option.splits)

lemma thread_run_append: "thread_run i (es @ es') p = (case thread_run i es p of None \<Rightarrow> None | Some p' \<Rightarrow> thread_run i es' p')"
  by (induction i es p rule: thread_run.induct) (auto split: option.splits)

lemma linearizes_init: "linearizes f st0 [] [] st0 (\<lambda>_. Idle)"
  by (simp add: linearizes_def)

lemma linearizes_call: "linearizes f st0 H E st A \<Longrightarrow> A i = Idle \<Longrightarrow> linearizes f st0 (H @ [Call i op]) (E @ [Call i op]) st (A(i := Called op))"
  by (simp add: linearizes_def object_run_append thread_run_append)

lemma linearizes_effect: "linearizes f st0 H E st A \<Longrightarrow> A i = Called op \<Longrightarrow> f st op r = Some st' \<Longrightarrow>
    linearizes f st0 H (E @ [Effect i op r]) st' (A(i := Done r))"
  by (simp add: linearizes_def object_run_append thread_run_append)

lemma linearizes_return: "linearizes f st0 H E st A \<Longrightarrow> A i = Done r \<Longrightarrow> linearizes f st0 (H @ [Return i r]) (E @ [Return i r]) st (A(i := Idle))"
  by (simp add: linearizes_def object_run_append thread_run_append)

text \<open>What a step of a thread may do to the object and to the phase of its operation, apart from a call.\<close>

inductive object_do :: "('s \<Rightarrow> 'o \<Rightarrow> 'r \<Rightarrow> 's option) \<Rightarrow> 's \<Rightarrow> ('o, 'r) phase \<Rightarrow> 's \<Rightarrow> ('o, 'r) phase \<Rightarrow> bool" for f where
  object_effect: "f st op r = Some st' \<Longrightarrow> object_do f st (Called op) st' (Done r)"
| object_return: "object_do f st (Done r) st Idle"

section \<open>Two sequential objects\<close>

datatype 'a container_op = Put 'a | Get bool \<comment> \<open>whether it waits for a value\<close>

text \<open>The result of a put is \<open>None\<close>. A get returns \<open>None\<close> only from an empty container, and only if it does not wait.\<close>

fun stack_object :: "'a list \<Rightarrow> 'a container_op \<Rightarrow> 'a option \<Rightarrow> 'a list option" where
  "stack_object st (Put x) r = (if r = None then Some (x # st) else None)"
| "stack_object [] (Get waits) r = (if r = None \<and> \<not> waits then Some [] else None)"
| "stack_object (x # st) (Get waits) r = (if r = Some x then Some st else None)"

fun queue_object :: "'a list \<Rightarrow> 'a container_op \<Rightarrow> 'a option \<Rightarrow> 'a list option" where
  "queue_object q (Put x) r = (if r = None then Some (q @ [x]) else None)"
| "queue_object [] (Get waits) r = (if r = None \<and> \<not> waits then Some [] else None)"
| "queue_object (x # q) (Get waits) r = (if r = Some x then Some q else None)"

text \<open>What a linearizable history cannot have: a value that is got without having been put.\<close>

lemma return_has_effect:
  "thread_run i es p = Some q \<Longrightarrow> Return i r \<in> set es \<Longrightarrow> p \<noteq> Done r \<Longrightarrow> \<exists>op. Effect i op r \<in> set es"
proof (induction es arbitrary: p)
  case (Cons e es)
  then obtain p' where p': "phase_step i e p = Some p'" "thread_run i es p' = Some q" by (auto split: option.splits)
  show ?case
  proof (cases "p' = Done r")
    case True
    then show ?thesis using p'(1) Cons.prems(3) by (cases e) (auto split: if_splits)
  next
    case False
    moreover have "Return i r \<in> set es" using Cons.prems(2,3) p'(1) by (auto split: if_splits)
    ultimately show ?thesis using Cons.IH [OF p'(2)] by auto
  qed
qed simp

lemma effect_has_call:
  "thread_run i es p = Some q \<Longrightarrow> Effect i op r \<in> set es \<Longrightarrow> p \<noteq> Called op \<Longrightarrow> Call i op \<in> set es"
proof (induction es arbitrary: p)
  case (Cons e es)
  then obtain p' where p': "phase_step i e p = Some p'" "thread_run i es p' = Some q" by (auto split: option.splits)
  show ?case
  proof (cases "p' = Called op")
    case True
    then show ?thesis using p'(1) Cons.prems(3) by (cases e) (auto split: if_splits)
  next
    case False
    moreover have "Effect i op r \<in> set es" using Cons.prems(2,3) p'(1) by (auto split: if_splits)
    ultimately show ?thesis using Cons.IH [OF p'(2)] by auto
  qed
qed simp

lemma got_was_put:
  assumes step: "\<And>st op r st' x. f st op r = Some st' \<Longrightarrow> (r = Some x \<longrightarrow> x \<in> set st) \<and> set st' \<subseteq> set st \<union> {x. op = Put x}"
  shows "object_run f st es = Some st' \<Longrightarrow> Effect i op (Some x) \<in> set es \<Longrightarrow> x \<in> set st \<or> (\<exists>j r. Effect j (Put x) r \<in> set es)"
proof (induction es arbitrary: st)
  case (Cons e es)
  show ?case
  proof (cases e)
    case (Effect j op' r')
    then obtain st1 where st1: "f st op' r' = Some st1" "object_run f st1 es = Some st'"
      using Cons.prems(1) by (auto split: option.splits)
    have one: "(r' = Some x \<longrightarrow> x \<in> set st) \<and> set st1 \<subseteq> set st \<union> {x. op' = Put x}" using step [OF st1(1)] .
    show ?thesis
    proof (cases "e = Effect i op (Some x)")
      case True
      then show ?thesis using one Effect by simp
    next
      case False
      then have "x \<in> set st1 \<or> (\<exists>j r. Effect j (Put x) r \<in> set es)" using Cons.IH [OF st1(2)] Cons.prems(2) by auto
      then show ?thesis using one Effect by auto
    qed
  qed (use Cons in auto)
qed simp

lemma linearizes_got_was_put:
  assumes lin: "linearizes f [] H E st A"
    and step: "\<And>st op r st' x. f st op r = Some st' \<Longrightarrow> (r = Some x \<longrightarrow> x \<in> set st) \<and> set st' \<subseteq> set st \<union> {x. op = Put x}"
    and ret: "Return i (Some x) \<in> set H"
  shows "\<exists>j. Call j (Put x) \<in> set H"
proof -
  have E: "filter visible E = H" "object_run f [] E = Some st" "\<And>i. thread_run i E Idle = Some (A i)"
    using lin by (simp_all add: linearizes_def)
  have "Return i (Some x) \<in> set E" using ret E(1) by auto
  then obtain op where "Effect i op (Some x) \<in> set E" using return_has_effect [OF E(3)] by blast
  then obtain j r where "Effect j (Put x) r \<in> set E" using got_was_put [OF step E(2), of i op x] by auto
  then have "Call j (Put x) \<in> set E" using effect_has_call [OF E(3)] by blast
  then show ?thesis using E(1) by auto
qed

lemma stack_object_values: "stack_object st op r = Some st' \<Longrightarrow> (r = Some x \<longrightarrow> x \<in> set st) \<and> set st' \<subseteq> set st \<union> {x. op = Put x}"
  by (cases "(st, op, r)" rule: stack_object.cases) (auto split: if_splits)

lemma queue_object_values: "queue_object q op r = Some q' \<Longrightarrow> (r = Some x \<longrightarrow> x \<in> set q) \<and> set q' \<subseteq> set q \<union> {x. op = Put x}"
  by (cases "(q, op, r)" rule: queue_object.cases) (auto split: if_splits)

lemma stack_got_was_put: "linearizes stack_object [] H E st A \<Longrightarrow> Return i (Some x) \<in> set H \<Longrightarrow> \<exists>j. Call j (Put x) \<in> set H"
  by (erule linearizes_got_was_put) (rule stack_object_values)

lemma queue_got_was_put: "linearizes queue_object [] H E q A \<Longrightarrow> Return i (Some x) \<in> set H \<Longrightarrow> \<exists>j. Call j (Put x) \<in> set H"
  by (erule linearizes_got_was_put) (rule queue_object_values)

end
