(* ===== verification/Lock_Free_Stack.thy ===== *)
theory Lock_Free_Stack
  imports Cpp_Prelude Linearizability "HOL-Library.Multiset"
begin

text \<open>
  \<open>concurrency/lock_free_stack.cpp\<close>: a stack shared by any number of threads without a lock, whose
  nodes are reclaimed with two reference counts. \<open>lf_exec\<close> is one step of a thread, up to and with its
  next access to memory that other threads may use: a load, a compare-exchange, a fetch-add or an
  access to a node. The steps of the threads are interleaved in every way (\<open>lf_step\<close>).

  The model is sequentially consistent: an access sees all earlier ones, which is more than the
  acquire, release and relaxed orderings of the code promise. The allocator may give out any address
  that is not in use, also one that a thread still remembers from a deleted node; it does not fail.
  Access to a deleted node is \<open>Inl Undefined_Behaviour\<close>.
\<close>

section \<open>The class\<close>

record counted_node_ptr =
  external_count :: int
  cn_ptr :: "nat option"

record 'a lf_node =
  lf_data :: "'a option"
  internal_count :: int
  lf_next :: counted_node_ptr

record 'a lock_free_stack =
  lf_head :: counted_node_ptr
  lf_nodes :: "nat \<Rightarrow> 'a lf_node option"

abbreviation cnp :: "int \<Rightarrow> nat option \<Rightarrow> counted_node_ptr" where
  "cnp c p \<equiv> \<lparr>external_count = c, cn_ptr = p\<rparr>"

definition lock_free_stack :: "'a lock_free_stack" where
  "lock_free_stack = \<lparr>lf_head = cnp 0 None, lf_nodes = (\<lambda>_. None)\<rparr>"

text \<open>
  Where a thread is. \<open>Lf_Reserved c a\<close> to \<open>Lf_Cas c a nxt\<close> have \<open>old_head = {c, a}\<close> and hold a reference
  to \<open>a\<close>; \<open>Lf_Release\<close> and \<open>Lf_Drop\<close> follow a failed exchange, with the new \<open>old_head\<close>.
\<close>

datatype 'a lf_pc =
    Lf_Idle
  | Lf_Emplace 'a
  | Lf_Emplace_Load nat
  | Lf_Emplace_Cas nat
  | Lf_Pop
  | Lf_Increase counted_node_ptr
  | Lf_Reserved int nat
  | Lf_Cas int nat counted_node_ptr
  | Lf_Take int nat
  | Lf_Add int nat "'a option"
  | Lf_Delete nat "'a option"
  | Lf_Release nat counted_node_ptr
  | Lf_Drop nat counted_node_ptr
  | Lf_Returned "'a option"

definition lf_access :: "nat \<Rightarrow> 'a lock_free_stack \<Rightarrow> ('a lf_node \<Rightarrow> 'b result) \<Rightarrow> 'b result" where
  "lf_access a s f = (case lf_nodes s a of None \<Rightarrow> Inl Undefined_Behaviour | Some n \<Rightarrow> f n)"

definition lf_store :: "nat \<Rightarrow> 'a lf_node option \<Rightarrow> 'a lock_free_stack \<Rightarrow> 'a lock_free_stack" where
  "lf_store a n s = s\<lparr>lf_nodes := (lf_nodes s)(a := n)\<rparr>"

definition increase_head_count :: "counted_node_ptr \<Rightarrow> 'a lock_free_stack \<Rightarrow> ('a lf_pc \<times> 'a lock_free_stack) result" where
  [simp]: "increase_head_count old_head s =
     (case cn_ptr old_head of
        None \<Rightarrow> Inr (Lf_Returned None, s)
      | Some a \<Rightarrow>
          let c = external_count old_head + 1 in
          if lf_head s = old_head then Inr (Lf_Reserved c a, s\<lparr>lf_head := cnp c (Some a)\<rparr>)
          else Inr (Lf_Increase (lf_head s), s))"

text \<open>\<open>new\<close> gives \<open>fresh\<close>; \<open>spurious\<close> is a weak exchange that fails although the values agree.\<close>

fun lf_exec :: "nat \<Rightarrow> bool \<Rightarrow> 'a lf_pc \<Rightarrow> 'a lock_free_stack \<Rightarrow> ('a lf_pc \<times> 'a lock_free_stack) result" where
  "lf_exec fresh spurious (Lf_Emplace x) s =
     Inr (Lf_Emplace_Load fresh,
       lf_store fresh (Some \<lparr>lf_data = Some x, internal_count = 0, lf_next = cnp 0 None\<rparr>) s)"
| "lf_exec fresh spurious (Lf_Emplace_Load a) s = lf_access a s (\<lambda>n.
     Inr (Lf_Emplace_Cas a, lf_store a (Some (n\<lparr>lf_next := lf_head s\<rparr>)) s))"
| "lf_exec fresh spurious (Lf_Emplace_Cas a) s = lf_access a s (\<lambda>n.
     if lf_head s = lf_next n \<and> \<not> spurious then Inr (Lf_Idle, s\<lparr>lf_head := cnp 1 (Some a)\<rparr>)
     else Inr (Lf_Emplace_Cas a, lf_store a (Some (n\<lparr>lf_next := lf_head s\<rparr>)) s))"
| "lf_exec fresh spurious Lf_Pop s = Inr (Lf_Increase (lf_head s), s)"
| "lf_exec fresh spurious (Lf_Increase old_head) s = increase_head_count old_head s"
| "lf_exec fresh spurious (Lf_Reserved c a) s = lf_access a s (\<lambda>n. Inr (Lf_Cas c a (lf_next n), s))"
| "lf_exec fresh spurious (Lf_Cas c a nxt) s =
     (if lf_head s = cnp c (Some a) then Inr (Lf_Take c a, s\<lparr>lf_head := nxt\<rparr>)
      else Inr (Lf_Release a (lf_head s), s))"
| "lf_exec fresh spurious (Lf_Take c a) s = lf_access a s (\<lambda>n.
     Inr (Lf_Add c a (lf_data n), lf_store a (Some (n\<lparr>lf_data := None\<rparr>)) s))"
| "lf_exec fresh spurious (Lf_Add c a res) s = lf_access a s (\<lambda>n.
     let count_increase = c - 2 in
     Inr (if internal_count n = - count_increase then Lf_Delete a res else Lf_Returned res,
       lf_store a (Some (n\<lparr>internal_count := internal_count n + count_increase\<rparr>)) s))"
| "lf_exec fresh spurious (Lf_Delete a res) s = lf_access a s (\<lambda>n. Inr (Lf_Returned res, lf_store a None s))"
| "lf_exec fresh spurious (Lf_Release a old_head) s = lf_access a s (\<lambda>n.
     Inr (if internal_count n = 1 then Lf_Drop a old_head else Lf_Increase old_head,
       lf_store a (Some (n\<lparr>internal_count := internal_count n - 1\<rparr>)) s))"
| "lf_exec fresh spurious (Lf_Drop a old_head) s = lf_access a s (\<lambda>n. Inr (Lf_Increase old_head, lf_store a None s))"
| "lf_exec fresh spurious (Lf_Returned res) s = Inr (Lf_Idle, s)"
| "lf_exec fresh spurious Lf_Idle s = Inr (Lf_Idle, s)"

section \<open>Threads\<close>

type_synonym 'a lf_config = "'a lock_free_stack \<times> 'a lf_pc list"

inductive lf_step :: "'a lf_config \<Rightarrow> 'a lf_config \<Rightarrow> bool" where
  lf_call_emplace: "i < length pcs \<Longrightarrow> pcs ! i = Lf_Idle \<Longrightarrow> lf_step (s, pcs) (s, pcs[i := Lf_Emplace x])"
| lf_call_pop: "i < length pcs \<Longrightarrow> pcs ! i = Lf_Idle \<Longrightarrow> lf_step (s, pcs) (s, pcs[i := Lf_Pop])"
| lf_run: "i < length pcs \<Longrightarrow> lf_nodes s fresh = None \<Longrightarrow> lf_exec fresh spurious (pcs ! i) s = Inr (pc, s') \<Longrightarrow>
    lf_step (s, pcs) (s', pcs[i := pc])"

inductive lf_reach :: "nat \<Rightarrow> 'a lf_config \<Rightarrow> bool" for n where
  lf_init: "lf_reach n (lock_free_stack, replicate n Lf_Idle)"
| lf_more: "lf_reach n c \<Longrightarrow> lf_step c d \<Longrightarrow> lf_reach n d"

text \<open>
  The same with the history of the calls and returns. A thread that becomes idle returns: \<open>emplace\<close> nothing, \<open>pop\<close>
  the pointer it has, which is \<open>Some x\<close> or null.
\<close>

definition lf_returns :: "nat \<Rightarrow> 'a lf_pc \<Rightarrow> 'a lf_pc \<Rightarrow> ('a container_op, 'a option) history_event list" where
  "lf_returns i pc pc' =
     (if pc \<noteq> Lf_Idle \<and> pc' = Lf_Idle then [Return i (case pc of Lf_Returned res \<Rightarrow> res | _ \<Rightarrow> None)] else [])"

inductive lf_history :: "nat \<Rightarrow> ('a container_op, 'a option) history_event list \<Rightarrow> 'a lf_config \<Rightarrow> bool" for n where
  lf_history_init: "lf_history n [] (lock_free_stack, replicate n Lf_Idle)"
| lf_history_emplace: "lf_history n H (s, pcs) \<Longrightarrow> i < n \<Longrightarrow> pcs ! i = Lf_Idle \<Longrightarrow>
    lf_history n (H @ [Call i (Put x)]) (s, pcs[i := Lf_Emplace x])"
| lf_history_pop: "lf_history n H (s, pcs) \<Longrightarrow> i < n \<Longrightarrow> pcs ! i = Lf_Idle \<Longrightarrow>
    lf_history n (H @ [Call i (Get False)]) (s, pcs[i := Lf_Pop])"
| lf_history_run: "lf_history n H (s, pcs) \<Longrightarrow> i < n \<Longrightarrow> lf_nodes s fresh = None \<Longrightarrow>
    lf_exec fresh spurious (pcs ! i) s = Inr (pc, s') \<Longrightarrow> lf_history n (H @ lf_returns i (pcs ! i) pc) (s', pcs[i := pc])"

lemma lf_step_length: "lf_step c d \<Longrightarrow> length (snd d) = length (snd c)"
  by (cases rule: lf_step.cases) auto

lemma lf_reach_length: "lf_reach n c \<Longrightarrow> length (snd c) = n"
  by (induction rule: lf_reach.induct) (simp_all add: lf_step_length)

lemma lf_history_length: "lf_history n H c \<Longrightarrow> length (snd c) = n"
  by (induction rule: lf_history.induct) simp_all

text \<open>The states that are reached are those of the histories.\<close>

lemma lf_history_reach: "lf_reach n c \<longleftrightarrow> (\<exists>H. lf_history n H c)"
proof
  show "\<exists>H. lf_history n H c" if "lf_reach n c"
    using that
  proof (induction rule: lf_reach.induct)
    case (lf_more c d)
    then obtain H where H: "lf_history n H c" by blast
    have n: "length (snd c) = n" by (rule lf_reach_length [OF lf_more(1)])
    show ?case using lf_more(2) H n
      by (cases rule: lf_step.cases) (auto intro: lf_history_emplace lf_history_pop lf_history_run)
  qed (auto intro: lf_history_init)
  show "lf_reach n c" if some: "\<exists>H. lf_history n H c"
  proof -
    obtain H where "lf_history n H c" using some by blast
    then show ?thesis
    proof (induction rule: lf_history.induct)
      case (lf_history_emplace H s pcs i x)
      then show ?case using lf_history_length [OF lf_history_emplace(1)] by (auto intro: lf_more lf_call_emplace)
    next
      case (lf_history_pop H s pcs i)
      then show ?case using lf_history_length [OF lf_history_pop(1)] by (auto intro: lf_more lf_call_pop)
    next
      case (lf_history_run H s pcs i fresh spurious pc s')
      then show ?case using lf_history_length [OF lf_history_run(1)] by (auto intro: lf_more lf_run)
    qed (rule lf_init)
  qed
qed

section \<open>The invariant\<close>

text \<open>
  \<open>chain m p xs\<close>: from \<open>p\<close> the links lead through the nodes \<open>xs\<close>, each with the external count of the
  pointer to it.
\<close>

fun chain :: "(nat \<Rightarrow> 'a lf_node option) \<Rightarrow> counted_node_ptr \<Rightarrow> (int \<times> nat) list \<Rightarrow> bool" where
  "chain m p [] \<longleftrightarrow> cn_ptr p = None"
| "chain m p ((c, a) # xs) \<longleftrightarrow> p = cnp c (Some a) \<and> (\<exists>n. m a = Some n \<and> chain m (lf_next n) xs)"

definition in_chain :: "(int \<times> nat) list \<Rightarrow> nat \<Rightarrow> bool" where
  "in_chain xs a \<longleftrightarrow> a \<in> set (map snd xs)"

lemma in_chain_simps [simp]: "in_chain [] a = False" "in_chain ((c, b) # xs) a \<longleftrightarrow> a = b \<or> in_chain xs a"
  by (auto simp: in_chain_def)

text \<open>The node a thread holds a reference to, and the one only it may use.\<close>

fun held :: "'a lf_pc \<Rightarrow> nat option" where
  "held (Lf_Reserved c a) = Some a"
| "held (Lf_Cas c a nxt) = Some a"
| "held (Lf_Release a p) = Some a"
| "held _ = None"

fun owned :: "'a lf_pc \<Rightarrow> nat option" where
  "owned (Lf_Emplace_Load a) = Some a"
| "owned (Lf_Emplace_Cas a) = Some a"
| "owned (Lf_Take c a) = Some a"
| "owned (Lf_Add c a res) = Some a"
| "owned (Lf_Delete a res) = Some a"
| "owned (Lf_Drop a p) = Some a"
| "owned _ = None"

definition refs :: "'a lf_pc multiset \<Rightarrow> nat \<Rightarrow> int" where
  "refs P a = int (size {#pc \<in># P. held pc = Some a#})"

definition owners :: "'a lf_pc multiset \<Rightarrow> nat \<Rightarrow> 'a lf_pc multiset" where
  "owners P a = {#pc \<in># P. owned pc = Some a#}"

fun hold_ok :: "'a lf_pc \<Rightarrow> 'a lf_node \<Rightarrow> bool" where
  "hold_ok (Lf_Cas c a nxt) n \<longleftrightarrow> nxt = lf_next n"
| "hold_ok _ n \<longleftrightarrow> True"

fun own_ok :: "'a lf_pc \<Rightarrow> 'a lf_node \<Rightarrow> int \<Rightarrow> bool" where
  "own_ok (Lf_Emplace_Load a) n r \<longleftrightarrow> lf_data n \<noteq> None \<and> internal_count n = 0 \<and> r = 0"
| "own_ok (Lf_Emplace_Cas a) n r \<longleftrightarrow> lf_data n \<noteq> None \<and> internal_count n = 0 \<and> r = 0"
| "own_ok (Lf_Take c a) n r \<longleftrightarrow> lf_data n \<noteq> None \<and> internal_count n \<le> 0 \<and> r = c - 2 + internal_count n"
| "own_ok (Lf_Add c a res) n r \<longleftrightarrow> internal_count n \<le> 0 \<and> r = c - 2 + internal_count n"
| "own_ok (Lf_Delete a res) n r \<longleftrightarrow> r = 0"
| "own_ok (Lf_Drop a p) n r \<longleftrightarrow> r = 0"
| "own_ok _ n r \<longleftrightarrow> False"

text \<open>
  A node in the stack has no owner and its two counts balance the references to it. A node that was
  taken out is owned until its external count is added to its internal one; from then on the latter
  is the number of references, and the thread that drops the last one owns the node again.
\<close>

definition node_inv :: "'a lock_free_stack \<Rightarrow> 'a lf_pc multiset \<Rightarrow> (int \<times> nat) list \<Rightarrow> nat \<Rightarrow> bool" where
  "node_inv s P xs a =
     (case lf_nodes s a of
        None \<Rightarrow> owners P a = {#} \<and> refs P a = 0 \<and> \<not> in_chain xs a
      | Some n \<Rightarrow>
          (\<forall>pc\<in>#P. held pc = Some a \<longrightarrow> hold_ok pc n) \<and>
          (if in_chain xs a
           then owners P a = {#} \<and> lf_data n \<noteq> None \<and> internal_count n \<le> 0 \<and>
             (\<forall>c. (c, a) \<in> set xs \<longrightarrow> refs P a = c - 1 + internal_count n)
           else owners P a = {#} \<and> refs P a = internal_count n \<and> 0 < refs P a \<or>
             (\<exists>pc. owners P a = {#pc#} \<and> own_ok pc n (refs P a))))"

definition lf_inv :: "'a lock_free_stack \<Rightarrow> 'a lf_pc multiset \<Rightarrow> (int \<times> nat) list \<Rightarrow> bool" where
  "lf_inv s P xs \<longleftrightarrow> chain (lf_nodes s) (lf_head s) xs \<and> distinct (map snd xs) \<and> (\<forall>a. node_inv s P xs a)"

lemma refs_add [simp]: "refs (add_mset pc P) a = (if held pc = Some a then 1 else 0) + refs P a"
  by (simp add: refs_def)

lemma owners_add [simp]: "owners (add_mset pc P) a = (if owned pc = Some a then add_mset pc (owners P a) else owners P a)"
  by (simp add: owners_def)

lemma refs_nonneg: "0 \<le> refs P a"
  by (simp add: refs_def)

lemma refs_pos: "pc \<in># P \<Longrightarrow> held pc = Some a \<Longrightarrow> 0 < refs P a"
proof -
  assume "pc \<in># P" "held pc = Some a"
  then obtain Q where "P = add_mset pc Q" by (auto dest: multi_member_split)
  then show "0 < refs P a" using \<open>held pc = Some a\<close> refs_nonneg [of Q a] by simp
qed

text \<open>A step concerns the node it touches.\<close>

lemma node_inv_frame:
  assumes "node_inv s (add_mset pc P) xs b" and "lf_nodes s' b = lf_nodes s b"
    and "held pc \<noteq> Some b" "held pc' \<noteq> Some b" "owned pc \<noteq> Some b" "owned pc' \<noteq> Some b"
    and "\<And>c. (c, b) \<in> set ys \<longleftrightarrow> (c, b) \<in> set xs"
  shows "node_inv s' (add_mset pc' P) ys b"
proof -
  have "in_chain ys b \<longleftrightarrow> in_chain xs b" using assms(7) by (force simp: in_chain_def)
  then show ?thesis using assms by (auto simp: node_inv_def split: option.splits if_splits)
qed

lemma chain_store:
  assumes "\<not> in_chain xs a"
  shows "chain (m(a := n)) p xs = chain m p xs"
  using assms by (induction xs arbitrary: p) auto

lemma chain_same_next:
  assumes "m a = Some n" "lf_next n' = lf_next n"
  shows "chain (m(a \<mapsto> n')) p xs = chain m p xs"
  using assms by (induction m p xs rule: chain.induct) auto

lemma chain_in:
  assumes "chain m p xs" "in_chain xs a"
  shows "\<exists>n. m a = Some n"
  using assms by (induction m p xs rule: chain.induct) auto

definition touches :: "'a lf_pc \<Rightarrow> nat \<Rightarrow> bool" where
  "touches pc a \<longleftrightarrow> (held pc = None \<or> held pc = Some a) \<and> (owned pc = None \<or> owned pc = Some a)"

lemma touches_other: "touches pc a \<Longrightarrow> b \<noteq> a \<Longrightarrow> held pc \<noteq> Some b \<and> owned pc \<noteq> Some b"
  by (auto simp: touches_def)

lemma lf_inv_store:
  assumes inv: "lf_inv s (add_mset pc P) xs" and "touches pc a" "touches pc' a"
    and chain: "in_chain xs a \<Longrightarrow> \<exists>n n'. lf_nodes s a = Some n \<and> N = Some n' \<and> lf_next n' = lf_next n"
    and here: "node_inv (lf_store a N s) (add_mset pc' P) xs a"
  shows "lf_inv (lf_store a N s) (add_mset pc' P) xs"
proof -
  have "node_inv (lf_store a N s) (add_mset pc' P) xs b" for b
  proof (cases "b = a")
    case False
    have "node_inv s (add_mset pc P) xs b" using inv by (simp add: lf_inv_def)
    then show ?thesis
      using False touches_other [OF assms(2) False] touches_other [OF assms(3) False] assms(4-)
      by (elim node_inv_frame) (simp_all add: lf_store_def)
  qed (use here in simp)
  moreover have "chain ((lf_nodes s)(a := N)) (lf_head s) xs"
  proof (cases "in_chain xs a")
    case True
    then show ?thesis using chain [OF True] inv chain_same_next [of "lf_nodes s" a] by (auto simp: lf_inv_def)
  next
    case False
    then show ?thesis using inv chain_store [of xs a "lf_nodes s"] by (simp add: lf_inv_def)
  qed
  ultimately show ?thesis using inv by (simp add: lf_inv_def lf_store_def)
qed

text \<open>A step that changes the head to a pointer with another count, or only moves the thread on.\<close>

lemma lf_inv_head:
  assumes inv: "lf_inv s (add_mset pc P) xs" and "touches pc a" "touches pc' a"
    and "lf_nodes s' = lf_nodes s" "chain (lf_nodes s) (lf_head s') ys" "distinct (map snd ys)"
    and "\<And>b c. b \<noteq> a \<Longrightarrow> (c, b) \<in> set ys \<longleftrightarrow> (c, b) \<in> set xs"
    and here: "node_inv s' (add_mset pc' P) ys a"
  shows "lf_inv s' (add_mset pc' P) ys"
proof -
  have "node_inv s' (add_mset pc' P) ys b" for b
  proof (cases "b = a")
    case False
    have "node_inv s (add_mset pc P) xs b" using inv by (simp add: lf_inv_def)
    then show ?thesis
      using False touches_other [OF assms(2) False] touches_other [OF assms(3) False] assms(4-)
      by (elim node_inv_frame) (simp_all add: lf_store_def)
  qed (use here in simp)
  then show ?thesis using assms(4-6) by (simp add: lf_inv_def)
qed

lemma lf_inv_move:
  assumes inv: "lf_inv s (add_mset pc P) xs" and "touches pc a" "touches pc' a"
    and here: "node_inv s (add_mset pc' P) xs a"
  shows "lf_inv s (add_mset pc' P) xs"
  using assms by (intro lf_inv_head [OF inv assms(2,3)]) (simp_all add: lf_inv_def)

lemma owned_not_held: "owned pc = Some a \<Longrightarrow> held pc = None"
  by (cases pc) auto

lemma held_not_owned: "held pc = Some a \<Longrightarrow> owned pc = None"
  by (cases pc) auto

lemma lf_owned:
  assumes "lf_inv s (add_mset pc P) xs" "owned pc = Some a"
  shows "\<exists>n. lf_nodes s a = Some n \<and> \<not> in_chain xs a \<and> owners P a = {#} \<and> own_ok pc n (refs P a) \<and>
    (\<forall>pc\<in>#P. held pc = Some a \<longrightarrow> hold_ok pc n)"
proof -
  have "node_inv s (add_mset pc P) xs a" using assms(1) by (simp add: lf_inv_def)
  then show ?thesis using assms(2) owned_not_held [OF assms(2)]
    by (auto simp: node_inv_def split: option.splits if_splits)
qed

lemma lf_held:
  assumes "lf_inv s (add_mset pc P) xs" "held pc = Some a"
  shows "\<exists>n. lf_nodes s a = Some n \<and> hold_ok pc n"
proof -
  have "node_inv s (add_mset pc P) xs a" using assms(1) by (simp add: lf_inv_def)
  then show ?thesis using assms(2) refs_nonneg [of P a]
    by (auto simp: node_inv_def split: option.splits)
qed

section \<open>Every step keeps the invariant\<close>

lemmas touch_simps = touches_def lf_store_def lf_access_def

lemma inv_emplace:
  assumes "lf_inv s (add_mset (Lf_Emplace x) P) xs" "lf_nodes s fresh = None"
  shows "lf_inv (lf_store fresh (Some \<lparr>lf_data = Some x, internal_count = 0, lf_next = p\<rparr>) s) (add_mset (Lf_Emplace_Load fresh) P) xs"
proof -
  have old: "node_inv s (add_mset (Lf_Emplace x) P) xs fresh" using assms(1) by (simp add: lf_inv_def)
  then have free: "\<not> in_chain xs fresh" "owners P fresh = {#}" "refs P fresh = 0" using assms(2) by (simp_all add: node_inv_def)
  then have "held pc \<noteq> Some fresh" if "pc \<in># P" for pc
    using that refs_pos by fastforce
  then show ?thesis using free
    by (intro lf_inv_store [OF assms(1)]) (auto simp: touches_def node_inv_def lf_store_def)
qed

lemma inv_owner_writes:
  assumes inv: "lf_inv s (add_mset pc P) xs" and own: "owned pc = Some a" "owned pc' = Some a"
    and "lf_nodes s a = Some n" and "own_ok pc' n' (refs P a)" and "lf_next n' = lf_next n \<or> refs P a = 0"
  shows "lf_inv (lf_store a (Some n') s) (add_mset pc' P) xs"
proof -
  have o: "\<not> in_chain xs a" "owners P a = {#}" and hold: "\<forall>pc\<in>#P. held pc = Some a \<longrightarrow> hold_ok pc n"
    using lf_owned [OF inv own(1)] assms(4) by auto
  have "hold_ok pc n'" if "pc \<in># P" "held pc = Some a" for pc
  proof -
    have "refs P a \<noteq> 0" using that refs_pos by fastforce
    then show ?thesis using assms(6) hold that by (cases pc) auto
  qed
  moreover note owned_not_held [OF own(1)] owned_not_held [OF own(2)]
  ultimately show ?thesis using o own assms(5)
    by (intro lf_inv_store [OF inv]) (auto simp: touches_def node_inv_def lf_store_def)
qed

lemma inv_delete:
  assumes inv: "lf_inv s (add_mset pc P) xs" and own: "owned pc = Some a" "owned pc' = None" "held pc' = None"
    and "refs P a = 0"
  shows "lf_inv (lf_store a None s) (add_mset pc' P) xs"
proof -
  have "\<not> in_chain xs a" "owners P a = {#}" using lf_owned [OF inv own(1)] by auto
  moreover note owned_not_held [OF own(1)]
  ultimately show ?thesis using own assms(5)
    by (intro lf_inv_store [OF inv]) (auto simp: touches_def node_inv_def lf_store_def)
qed

text \<open>\<open>fetch_add\<close> of the external count: the node is now shared by the references, or ready to be deleted.\<close>

lemma inv_add:
  assumes inv: "lf_inv s (add_mset (Lf_Add c a res) P) xs" and n: "lf_nodes s a = Some n"
  shows "lf_inv (lf_store a (Some (n\<lparr>internal_count := internal_count n + (c - 2)\<rparr>)) s)
    (add_mset (if internal_count n = - (c - 2) then Lf_Delete a res else Lf_Returned res) P) xs"
proof -
  let ?pc = "if internal_count n = - (c - 2) then Lf_Delete a res else Lf_Returned res"
  have o: "\<not> in_chain xs a" "owners P a = {#}" "refs P a = c - 2 + internal_count n"
    and hold: "\<forall>pc\<in>#P. held pc = Some a \<longrightarrow> hold_ok pc n"
    using lf_owned [OF inv, of a] n by auto
  have "hold_ok pc (n\<lparr>internal_count := k\<rparr>)" if "pc \<in># P" "held pc = Some a" for pc k
    using hold that by (cases pc) auto
  moreover have "0 < refs P a" if "internal_count n \<noteq> - (c - 2)" using o(3) that refs_nonneg [of P a] by linarith
  ultimately show ?thesis using o
    by (intro lf_inv_store [OF inv]) (auto simp: touches_def node_inv_def lf_store_def)
qed

text \<open>\<open>fetch_sub\<close> of a reference that is given up.\<close>

lemma inv_release:
  assumes inv: "lf_inv s (add_mset (Lf_Release a p) P) xs" and n: "lf_nodes s a = Some n"
  shows "lf_inv (lf_store a (Some (n\<lparr>internal_count := internal_count n - 1\<rparr>)) s)
    (add_mset (if internal_count n = 1 then Lf_Drop a p else Lf_Increase p) P) xs"
proof -
  have old: "node_inv s (add_mset (Lf_Release a p) P) xs a" using inv by (simp add: lf_inv_def)
  then have hold: "hold_ok pc n" if "pc \<in># P" "held pc = Some a" for pc using n that by (simp add: node_inv_def)
  have "hold_ok pc (n\<lparr>internal_count := k\<rparr>)" if "pc \<in># P" "held pc = Some a" for pc k
    using hold [OF that] by (cases pc) auto
  moreover have "own_ok pc (n\<lparr>internal_count := internal_count n - 1\<rparr>) (refs P a) \<and> internal_count n \<noteq> 1"
    if "own_ok pc n (1 + refs P a)" for pc using that refs_nonneg [of P a] by (cases pc) auto
  ultimately show ?thesis using old n refs_nonneg [of P a]
    by (intro lf_inv_store [OF inv]) (fastforce simp: touches_def node_inv_def lf_store_def split: if_splits)+
qed

lemma inv_push:
  assumes inv: "lf_inv s (add_mset (Lf_Emplace_Cas a) P) xs" and n: "lf_nodes s a = Some n" "lf_head s = lf_next n"
  shows "lf_inv (s\<lparr>lf_head := cnp 1 (Some a)\<rparr>) (add_mset Lf_Idle P) ((1, a) # xs)"
proof -
  have o: "\<not> in_chain xs a" "owners P a = {#}" "lf_data n \<noteq> None" "internal_count n = 0" "refs P a = 0"
    and hold: "\<forall>pc\<in>#P. held pc = Some a \<longrightarrow> hold_ok pc n"
    using lf_owned [OF inv, of a] n by auto
  have "(c, a) \<notin> set xs" for c using o(1) by (force simp: in_chain_def)
  then have "node_inv (s\<lparr>lf_head := cnp 1 (Some a)\<rparr>) (add_mset Lf_Idle P) ((1, a) # xs) a"
    using o hold n by (auto simp: node_inv_def)
  then show ?thesis using inv n o(1)
    by (intro lf_inv_head [OF inv, of a]) (auto simp: touches_def lf_inv_def in_chain_def)
qed

lemma chain_head:
  assumes "lf_inv s P xs" "lf_head s = cnp c (Some a)"
  shows "\<exists>n zs. xs = (c, a) # zs \<and> lf_nodes s a = Some n \<and> chain (lf_nodes s) (lf_next n) zs \<and>
    \<not> in_chain zs a \<and> (\<forall>c. (c, a) \<notin> set zs)"
proof -
  obtain zs n where zs: "xs = (c, a) # zs" "lf_nodes s a = Some n" "chain (lf_nodes s) (lf_next n) zs"
    using assms by (cases xs) (auto simp: lf_inv_def)
  moreover have "\<not> in_chain zs a" using assms(1) zs(1) by (simp add: lf_inv_def in_chain_def)
  moreover from this have "(c, a) \<notin> set zs" for c by (force simp: in_chain_def)
  ultimately show ?thesis by blast
qed

lemma inv_increase:
  assumes inv: "lf_inv s (add_mset (Lf_Increase p) P) xs" and h: "lf_head s = cnp c (Some a)"
  shows "\<exists>zs. xs = (c, a) # zs \<and>
    lf_inv (s\<lparr>lf_head := cnp (c + 1) (Some a)\<rparr>) (add_mset (Lf_Reserved (c + 1) a) P) ((c + 1, a) # zs)"
proof -
  obtain n zs where zs: "xs = (c, a) # zs" "lf_nodes s a = Some n"
    "chain (lf_nodes s) (lf_next n) zs" "\<not> in_chain zs a" "\<forall>c. (c, a) \<notin> set zs"
    using chain_head [OF inv h] by blast
  have d: "distinct (map snd xs)" using inv by (simp add: lf_inv_def)
  have "node_inv s (add_mset (Lf_Increase p) P) xs a" using inv by (simp add: lf_inv_def)
  then have "node_inv (s\<lparr>lf_head := cnp (c + 1) (Some a)\<rparr>) (add_mset (Lf_Reserved (c + 1) a) P) ((c + 1, a) # zs) a"
    using zs by (auto simp: node_inv_def)
  then have "lf_inv (s\<lparr>lf_head := cnp (c + 1) (Some a)\<rparr>) (add_mset (Lf_Reserved (c + 1) a) P) ((c + 1, a) # zs)"
    using d zs(1-4) by (intro lf_inv_head [OF inv, of a]) (auto simp: touches_def)
  then show ?thesis using zs(1) by blast
qed

lemma inv_cas:
  assumes inv: "lf_inv s (add_mset (Lf_Cas c a nxt) P) xs" and h: "lf_head s = cnp c (Some a)"
  shows "\<exists>zs. xs = (c, a) # zs \<and> lf_inv (s\<lparr>lf_head := nxt\<rparr>) (add_mset (Lf_Take c a) P) zs"
proof -
  obtain n zs where zs: "xs = (c, a) # zs" "lf_nodes s a = Some n"
    "chain (lf_nodes s) (lf_next n) zs" "\<not> in_chain zs a" "\<forall>c. (c, a) \<notin> set zs"
    using chain_head [OF inv h] by blast
  have d: "distinct (map snd xs)" using inv by (simp add: lf_inv_def)
  have old: "node_inv s (add_mset (Lf_Cas c a nxt) P) xs a" using inv by (simp add: lf_inv_def)
  then have "nxt = lf_next n" using zs by (simp add: node_inv_def)
  moreover have "node_inv (s\<lparr>lf_head := nxt\<rparr>) (add_mset (Lf_Take c a) P) zs a"
    using old zs by (auto simp: node_inv_def)
  ultimately have "lf_inv (s\<lparr>lf_head := nxt\<rparr>) (add_mset (Lf_Take c a) P) zs"
    using d zs(1-4) by (intro lf_inv_head [OF inv, of a]) (auto simp: touches_def)
  then show ?thesis using zs(1) by blast
qed

lemma inv_move_free:
  assumes inv: "lf_inv s (add_mset pc P) xs" and "held pc = None" "owned pc = None" "held pc' = None" "owned pc' = None"
  shows "lf_inv s (add_mset pc' P) xs"
proof -
  have "node_inv s (add_mset pc P) xs 0" using inv by (simp add: lf_inv_def)
  then have "node_inv s (add_mset pc' P) xs 0" using assms(2-) by (elim node_inv_frame) simp_all
  then show ?thesis using assms by (intro lf_inv_move [OF inv, of 0]) (simp_all add: touches_def)
qed

lemma inv_move_held:
  assumes inv: "lf_inv s (add_mset pc P) xs" and "held pc = Some a" "held pc' = Some a"
    and "\<And>n. lf_nodes s a = Some n \<Longrightarrow> hold_ok pc' n"
  shows "lf_inv s (add_mset pc' P) xs"
proof -
  have "node_inv s (add_mset pc P) xs a" using inv by (simp add: lf_inv_def)
  then have "node_inv s (add_mset pc' P) xs a"
    using assms(2-) held_not_owned [OF assms(2)] held_not_owned [OF assms(3)] refs_nonneg [of P a]
    by (auto simp: node_inv_def split: option.splits if_splits)
  then show ?thesis using assms held_not_owned [OF assms(2)] held_not_owned [OF assms(3)]
    by (intro lf_inv_move [OF inv, of a]) (simp_all add: touches_def)
qed

section \<open>The stack the threads see\<close>

text \<open>
  What a step of a thread may do to the stack that the others see, and to the phase its operation is in:
  nothing, the push with its return, the moment of a pop, or the return of a pop.
\<close>

type_synonym 'a stack_phase = "('a container_op, 'a option) phase"

inductive atomic_do :: "'a list \<Rightarrow> 'a stack_phase \<Rightarrow> 'a list \<Rightarrow> 'a stack_phase \<Rightarrow> bool" where
  atomic_none: "atomic_do st p st p"
| atomic_push: "atomic_do st (Called (Put x)) (x # st) Idle"
| atomic_pop: "atomic_do (x # st) (Called (Get False)) st (Done (Some x))"
| atomic_pop_empty: "atomic_do [] (Called (Get False)) [] (Done None)"
| atomic_return: "atomic_do st (Done r) st Idle"

definition data_at :: "'a lock_free_stack \<Rightarrow> nat \<Rightarrow> 'a option" where
  "data_at s a = (case lf_nodes s a of None \<Rightarrow> None | Some n \<Rightarrow> lf_data n)"

definition contents :: "'a lock_free_stack \<Rightarrow> (int \<times> nat) list \<Rightarrow> 'a list" where
  "contents s xs = map (\<lambda>(c, a). the (data_at s a)) xs"

fun popping :: "counted_node_ptr \<Rightarrow> 'a stack_phase" where
  "popping p = (if cn_ptr p = None then Done None else Called (Get False))"

fun abs_pc :: "'a lock_free_stack \<Rightarrow> 'a lf_pc \<Rightarrow> 'a stack_phase" where
  "abs_pc s Lf_Idle = Idle"
| "abs_pc s (Lf_Emplace x) = Called (Put x)"
| "abs_pc s (Lf_Emplace_Load a) = Called (Put (the (data_at s a)))"
| "abs_pc s (Lf_Emplace_Cas a) = Called (Put (the (data_at s a)))"
| "abs_pc s Lf_Pop = Called (Get False)"
| "abs_pc s (Lf_Increase p) = popping p"
| "abs_pc s (Lf_Reserved c a) = Called (Get False)"
| "abs_pc s (Lf_Cas c a nxt) = Called (Get False)"
| "abs_pc s (Lf_Take c a) = Done (data_at s a)"
| "abs_pc s (Lf_Add c a res) = Done res"
| "abs_pc s (Lf_Delete a res) = Done res"
| "abs_pc s (Lf_Release a p) = popping p"
| "abs_pc s (Lf_Drop a p) = popping p"
| "abs_pc s (Lf_Returned res) = Done res"

lemma abs_pc_other:
  assumes "owned q = None \<or> (\<exists>a. owned q = Some a \<and> data_at s' a = data_at s a)"
  shows "abs_pc s' q = abs_pc s q"
  using assms by (cases q) auto

lemma data_at_store [simp]: "data_at (lf_store a n s) b = (if b = a then Option.bind n lf_data else data_at s b)"
  by (auto simp: data_at_def lf_store_def split: option.splits)

lemma data_at_head [simp]: "data_at (s\<lparr>lf_head := p\<rparr>) b = data_at s b"
  by (simp add: data_at_def)

lemma contents_head [simp]: "contents (s\<lparr>lf_head := p\<rparr>) xs = contents s xs"
  by (simp add: contents_def)

lemma contents_store:
  assumes "\<not> in_chain xs a \<or> Option.bind n lf_data = data_at s a"
  shows "contents (lf_store a n s) xs = contents s xs"
  using assms by (force simp: contents_def in_chain_def)

text \<open>The simulation: a step of a thread, as the others see it.\<close>

definition simulates :: "'a lock_free_stack \<Rightarrow> 'a lf_pc \<Rightarrow> 'a lock_free_stack \<Rightarrow> 'a lf_pc \<Rightarrow> 'a lf_pc multiset \<Rightarrow> (int \<times> nat) list \<Rightarrow> bool" where
  "simulates s pc s' pc' P xs \<longleftrightarrow> (\<exists>ys. lf_inv s' (add_mset pc' P) ys \<and>
     atomic_do (contents s xs) (abs_pc s pc) (contents s' ys) (abs_pc s' pc') \<and>
     (\<forall>q\<in>#P. abs_pc s' q = abs_pc s q))"

lemma simulates_head:
  assumes "lf_inv (s\<lparr>lf_head := p\<rparr>) (add_mset pc' P) ys"
    and "atomic_do (contents s xs) (abs_pc s pc) (contents s ys) (abs_pc s pc')"
  shows "simulates s pc (s\<lparr>lf_head := p\<rparr>) pc' P xs"
proof -
  have "abs_pc (s\<lparr>lf_head := p\<rparr>) q = abs_pc s q" for q by (rule abs_pc_other) auto
  then show ?thesis using assms unfolding simulates_def by (metis contents_head)
qed

lemma simulates_move:
  assumes "lf_inv s (add_mset pc' P) xs" and "atomic_do (contents s xs) (abs_pc s pc) (contents s xs) (abs_pc s pc')"
  shows "simulates s pc s pc' P xs"
  using assms unfolding simulates_def by blast

text \<open>A store that keeps the data of the node, or to a node no other thread owns and outside of the stack.\<close>

lemma simulates_store:
  assumes "lf_inv (lf_store a n s) (add_mset pc' P) xs"
    and "\<not> in_chain xs a \<and> owners P a = {#} \<or> Option.bind n lf_data = data_at s a"
    and "atomic_do (contents s xs) (abs_pc s pc) (contents s xs) (abs_pc (lf_store a n s) pc')"
  shows "simulates s pc (lf_store a n s) pc' P xs"
proof -
  have "contents (lf_store a n s) xs = contents s xs" using assms(2) by (intro contents_store) blast
  moreover have "abs_pc (lf_store a n s) q = abs_pc s q" if "q \<in># P" for q
  proof (rule abs_pc_other)
    have "owned q = Some a \<Longrightarrow> owners P a \<noteq> {#}" using that by (auto simp: owners_def dest!: multi_member_split)
    then show "owned q = None \<or> (\<exists>b. owned q = Some b \<and> data_at (lf_store a n s) b = data_at s b)"
      using assms(2) by (cases "owned q") auto
  qed
  ultimately show ?thesis using assms(1,3) unfolding simulates_def by metis
qed

lemma data_at_node [simp]: "lf_nodes s a = Some n \<Longrightarrow> data_at s a = lf_data n"
  by (simp add: data_at_def)

lemma exec_owner:
  assumes inv: "lf_inv s (add_mset pc P) xs" and own: "owned pc = Some a"
    and exec: "lf_exec fresh spurious pc s = Inr (pc', s')"
  shows "simulates s pc s' pc' P xs"
proof -
  obtain n where n: "lf_nodes s a = Some n" "\<not> in_chain xs a" "owners P a = {#}" "own_ok pc n (refs P a)"
    using lf_owned [OF inv own] by blast
  show ?thesis
  proof (cases pc)
    case (Lf_Emplace_Load b)
    then have exec': "pc' = Lf_Emplace_Cas a" "s' = lf_store a (Some (n\<lparr>lf_next := lf_head s\<rparr>)) s"
      using exec own n(1) by (auto simp: lf_access_def)
    then show ?thesis using inv_owner_writes [OF inv own _ n(1)] n Lf_Emplace_Load own
      by (auto intro!: simulates_store atomic_none)
  next
    case (Lf_Emplace_Cas b)
    show ?thesis
    proof (cases "lf_head s = lf_next n \<and> \<not> spurious")
      case True
      then have "pc' = Lf_Idle" "s' = s\<lparr>lf_head := cnp 1 (Some a)\<rparr>"
        using exec own n(1) Lf_Emplace_Cas by (auto simp: lf_access_def)
      moreover have "atomic_do (contents s xs) (Called (Put (the (lf_data n)))) (contents s ((1, a) # xs)) Idle"
        using atomic_push n(1) by (simp add: contents_def)
      ultimately show ?thesis using inv_push [of s a P xs n] inv n(1) True Lf_Emplace_Cas own
        by (auto intro!: simulates_head)
    next
      case False
      then have "pc' = Lf_Emplace_Cas a" "s' = lf_store a (Some (n\<lparr>lf_next := lf_head s\<rparr>)) s"
        using exec own n(1) Lf_Emplace_Cas by (auto simp: lf_access_def)
      then show ?thesis using inv_owner_writes [OF inv own _ n(1)] n Lf_Emplace_Cas own
        by (auto intro!: simulates_store atomic_none)
    qed
  next
    case (Lf_Take c b)
    then have "pc' = Lf_Add c a (lf_data n)" "s' = lf_store a (Some (n\<lparr>lf_data := None\<rparr>)) s"
      using exec own n(1) by (auto simp: lf_access_def)
    then show ?thesis using inv_owner_writes [OF inv own _ n(1)] n Lf_Take own
      by (auto intro!: simulates_store atomic_none)
  next
    case (Lf_Add c b res)
    then have "pc' = (if internal_count n = - (c - 2) then Lf_Delete a res else Lf_Returned res)"
      "s' = lf_store a (Some (n\<lparr>internal_count := internal_count n + (c - 2)\<rparr>)) s"
      using exec own n(1) by (auto simp: lf_access_def Let_def)
    moreover have "abs_pc t (if internal_count n = - (c - 2) then Lf_Delete a res else Lf_Returned res) = Done res" for t
      by simp
    ultimately show ?thesis using inv_add [of s c a res P xs n] inv n Lf_Add own
      by (auto intro!: simulates_store atomic_none simp del: abs_pc.simps(11,14) split del: if_split simp: abs_pc.simps(10))
  next
    case (Lf_Delete b res)
    then have "pc' = Lf_Returned res" "s' = lf_store a None s" using exec own n(1) by (auto simp: lf_access_def)
    then show ?thesis using inv_delete [OF inv own] n Lf_Delete by (auto intro!: simulates_store atomic_none)
  next
    case (Lf_Drop b p)
    then have "pc' = Lf_Increase p" "s' = lf_store a None s" using exec own n(1) by (auto simp: lf_access_def)
    then show ?thesis using inv_delete [OF inv own] n Lf_Drop
      by (auto intro!: simulates_store atomic_none simp del: popping.simps)
  qed (use own in auto)
qed

lemma inv_head_null: "lf_inv s P xs \<Longrightarrow> cn_ptr (lf_head s) = None \<Longrightarrow> xs = []"
  by (cases xs) (auto simp: lf_inv_def)

lemma loaded_head:
  assumes "lf_inv s P xs"
  shows "atomic_do (contents s xs) (Called (Get False)) (contents s xs) (popping (lf_head s))"
proof (cases "cn_ptr (lf_head s)")
  case None
  then have "xs = []" using inv_head_null assms by blast
  then show ?thesis using atomic_pop_empty None by (simp add: contents_def)
qed (simp add: atomic_none)

lemma exec_holder:
  assumes inv: "lf_inv s (add_mset pc P) xs" and held: "held pc = Some a"
    and exec: "lf_exec fresh spurious pc s = Inr (pc', s')"
  shows "simulates s pc s' pc' P xs"
proof -
  obtain n where n: "lf_nodes s a = Some n" "hold_ok pc n" using lf_held [OF inv held] by blast
  show ?thesis
  proof (cases pc)
    case (Lf_Reserved c b)
    then have "pc' = Lf_Cas c a (lf_next n)" "s' = s" using exec held n(1) by (auto simp: lf_access_def)
    moreover have "lf_inv s (add_mset (Lf_Cas c a (lf_next n)) P) xs"
      using inv_move_held [OF inv held, of "Lf_Cas c a (lf_next n)"] n(1) by simp
    ultimately show ?thesis using Lf_Reserved by (auto intro!: simulates_move atomic_none)
  next
    case (Lf_Cas c b nxt)
    show ?thesis
    proof (cases "lf_head s = cnp c (Some a)")
      case True
      then have "pc' = Lf_Take c a" "s' = s\<lparr>lf_head := nxt\<rparr>" using exec held Lf_Cas by auto
      moreover obtain zs where zs: "xs = (c, a) # zs" "lf_inv (s\<lparr>lf_head := nxt\<rparr>) (add_mset (Lf_Take c a) P) zs"
        using inv_cas True inv Lf_Cas held by fastforce
      moreover obtain x where "lf_data n = Some x" using lf_owned [OF zs(2), of a] n(1) by auto
      then have "atomic_do (contents s xs) (Called (Get False)) (contents s zs) (Done (lf_data n))"
        using atomic_pop n(1) zs(1) by (simp add: contents_def)
      ultimately show ?thesis using Lf_Cas n(1) by (auto intro!: simulates_head)
    next
      case False
      then have "pc' = Lf_Release a (lf_head s)" "s' = s" using exec held Lf_Cas by auto
      then show ?thesis
        using inv_move_held [OF inv held, of pc'] Lf_Cas loaded_head [OF inv]
        by (auto intro!: simulates_move simp del: popping.simps)
    qed
  next
    case (Lf_Release b p)
    let ?n = "n\<lparr>internal_count := internal_count n - 1\<rparr>"
    have pc: "pc' = (if internal_count n = 1 then Lf_Drop a p else Lf_Increase p)" "s' = lf_store a (Some ?n) s"
      using exec held n(1) Lf_Release by (auto simp: lf_access_def)
    then have "abs_pc t pc' = popping p" for t by simp
    moreover have "lf_inv s' (add_mset pc' P) xs" using inv_release [of s a p P xs n] inv n(1) Lf_Release held pc by simp
    ultimately show ?thesis using n(1) Lf_Release unfolding pc(2)
      by (intro simulates_store) (simp_all add: atomic_none del: popping.simps)
  qed (use held in auto)
qed

lemma exec_free:
  assumes inv: "lf_inv s (add_mset pc P) xs" and "held pc = None" "owned pc = None"
    and exec: "lf_exec fresh spurious pc s = Inr (pc', s')" and fresh: "lf_nodes s fresh = None"
  shows "simulates s pc s' pc' P xs"
proof (cases pc)
  case (Lf_Emplace x)
  have "owners P fresh = {#}" "\<not> in_chain xs fresh"
    using inv fresh Lf_Emplace by (auto simp: lf_inv_def node_inv_def split: option.splits dest: spec [of _ fresh])
  then show ?thesis using exec inv_emplace [of s x P xs fresh] inv fresh Lf_Emplace
    by (auto intro!: simulates_store atomic_none)
next
  case Lf_Pop
  then have "pc' = Lf_Increase (lf_head s)" "s' = s" using exec by auto
  then show ?thesis using inv_move_free [OF inv assms(2,3), of pc'] loaded_head [OF inv] Lf_Pop
    by (auto intro!: simulates_move simp del: popping.simps)
next
  case (Lf_Increase p)
  show ?thesis
  proof (cases "cn_ptr p")
    case None
    then have "pc' = Lf_Returned None" "s' = s" using exec Lf_Increase by auto
    then show ?thesis using inv_move_free [OF inv assms(2,3), of pc'] None Lf_Increase
      by (auto intro!: simulates_move atomic_none)
  next
    case (Some a)
    show ?thesis
    proof (cases "lf_head s = p")
      case True
      obtain c where c: "lf_head s = cnp c (Some a)" using True Some by (cases p) auto
      then have pc: "pc' = Lf_Reserved (c + 1) a" "s' = s\<lparr>lf_head := cnp (c + 1) (Some a)\<rparr>"
        using exec Lf_Increase True Some by (auto simp: Let_def)
      obtain zs where "xs = (c, a) # zs"
        "lf_inv (s\<lparr>lf_head := cnp (c + 1) (Some a)\<rparr>) (add_mset (Lf_Reserved (c + 1) a) P) ((c + 1, a) # zs)"
        using inv_increase [of s p P xs c a] inv c Lf_Increase by blast
      then show ?thesis using pc Lf_Increase Some
        by (auto intro!: simulates_head atomic_none simp: contents_def)
    next
      case False
      then have "pc' = Lf_Increase (lf_head s)" "s' = s" using exec Lf_Increase Some by (auto simp: Let_def)
      moreover have "Called (Get False) = popping p" using Some by simp
      ultimately show ?thesis
        using inv_move_free [OF inv assms(2,3), of pc'] loaded_head [OF inv, unfolded \<open>Called (Get False) = popping p\<close>] Lf_Increase
        by (auto intro!: simulates_move simp del: popping.simps)
    qed
  qed
next
  case (Lf_Returned r)
  then show ?thesis using exec inv_move_free [OF inv assms(2,3), of Lf_Idle] by (auto intro!: simulates_move atomic_return)
next
  case Lf_Idle
  then show ?thesis using exec inv by (auto intro!: simulates_move atomic_none)
qed (use assms in auto)

lemma exec_simulates:
  assumes "lf_inv s (add_mset pc P) xs" "lf_nodes s fresh = None" "lf_exec fresh spurious pc s = Inr (pc', s')"
  shows "simulates s pc s' pc' P xs"
  using exec_owner [OF assms(1) _ assms(3)] exec_holder [OF assms(1) _ assms(3)] exec_free [OF assms(1) _ _ assms(3,2)]
  by (cases "owned pc"; cases "held pc") auto

text \<open>No thread ever touches a deleted node.\<close>

lemma exec_defined:
  assumes "lf_inv s (add_mset pc P) xs"
  shows "lf_exec fresh spurious pc s \<noteq> Inl e"
proof -
  have "\<exists>n. lf_nodes s a = Some n" if "owned pc = Some a \<or> held pc = Some a" for a
    using that lf_owned [OF assms] lf_held [OF assms] by blast
  then show ?thesis by (cases pc) (auto simp: lf_access_def Let_def split: option.splits)
qed

section \<open>Reachable states\<close>

lemma mset_step: "i < length pcs \<Longrightarrow> \<exists>P. mset pcs = add_mset (pcs ! i) P \<and> (\<forall>pc. mset (pcs[i := pc]) = add_mset pc P)"
  by (intro exI [of _ "mset pcs - {#pcs ! i#}"]) (simp add: mset_update)

lemma simulates_list:
  assumes "\<exists>P. mset pcs = add_mset (pcs ! i) P \<and> (\<forall>pc. mset (pcs[i := pc]) = add_mset pc P) \<and> simulates s (pcs ! i) s' pc' P xs"
    and i: "i < length pcs"
  shows "\<exists>ys. lf_inv s' (mset (pcs[i := pc'])) ys \<and>
    atomic_do (contents s xs) (map (abs_pc s) pcs ! i) (contents s' ys) (abs_pc s' pc') \<and>
    map (abs_pc s') (pcs[i := pc']) = (map (abs_pc s) pcs)[i := abs_pc s' pc']"
proof -
  obtain P ys where P: "mset pcs = add_mset (pcs ! i) P" "mset (pcs[i := pc']) = add_mset pc' P"
    and ys: "lf_inv s' (add_mset pc' P) ys" "atomic_do (contents s xs) (abs_pc s (pcs ! i)) (contents s' ys) (abs_pc s' pc')"
      "\<forall>q\<in>#P. abs_pc s' q = abs_pc s q"
    using assms(1) unfolding simulates_def by blast
  have "abs_pc s' (pcs ! j) = abs_pc s (pcs ! j)" if "j < length pcs" "j \<noteq> i" for j
  proof -
    have "P = mset pcs - {#pcs ! i#}" using P(1) by simp
    also have "\<dots> = mset (take i pcs @ drop (Suc i) pcs)"
      using arg_cong [OF id_take_nth_drop [OF i], of mset] by simp
    finally have "set_mset P = set (take i pcs) \<union> set (drop (Suc i) pcs)" by simp
    moreover have "pcs ! j \<in> set (take i pcs) \<union> set (drop (Suc i) pcs)"
    proof (cases "j < i")
      case True
      then show ?thesis using that by (auto simp: in_set_conv_nth intro!: exI [of _ j])
    next
      case False
      then have "drop (Suc i) pcs ! (j - Suc i) = pcs ! j" "j - Suc i < length (drop (Suc i) pcs)" using that i by auto
      then show ?thesis by (metis UnI2 nth_mem)
    qed
    ultimately show ?thesis using ys(3) by blast
  qed
  then have "map (abs_pc s') (pcs[i := pc']) ! j = (map (abs_pc s) pcs)[i := abs_pc s' pc'] ! j" if "j < length pcs" for j
    using that i by (cases "j = i") auto
  then have "map (abs_pc s') (pcs[i := pc']) = (map (abs_pc s) pcs)[i := abs_pc s' pc']"
    by (intro nth_equalityI) simp_all
  then show ?thesis using P(2) ys(1,2) i by auto
qed

lemma lf_inv_init: "lf_inv (lock_free_stack :: 'a lock_free_stack) (mset (replicate n Lf_Idle)) []"
proof -
  have "refs (mset (replicate n (Lf_Idle :: 'a lf_pc))) a = 0" "owners (mset (replicate n (Lf_Idle :: 'a lf_pc))) a = {#}" for a
    by (induction n) (simp_all add: refs_def owners_def)
  then show ?thesis by (simp add: lf_inv_def node_inv_def lock_free_stack_def)
qed

lemma step_refines:
  assumes "lf_step c d" and "lf_inv (fst c) (mset (snd c)) xs"
  shows "\<exists>ys. lf_inv (fst d) (mset (snd d)) ys"
  using assms
proof (induction rule: lf_step.induct)
  case (lf_call_emplace i pcs s x)
  obtain P where "mset pcs = add_mset (pcs ! i) P" "\<forall>pc. mset (pcs[i := pc]) = add_mset pc P"
    using mset_step lf_call_emplace(1) by blast
  then have "lf_inv s (mset (pcs[i := Lf_Emplace x])) xs"
    using lf_call_emplace inv_move_free [of s Lf_Idle P xs "Lf_Emplace x"] by simp
  then show ?case by auto
next
  case (lf_call_pop i pcs s)
  obtain P where "mset pcs = add_mset (pcs ! i) P" "\<forall>pc. mset (pcs[i := pc]) = add_mset pc P"
    using mset_step lf_call_pop(1) by blast
  then have "lf_inv s (mset (pcs[i := Lf_Pop])) xs"
    using lf_call_pop inv_move_free [of s Lf_Idle P xs "Lf_Pop"] by simp
  then show ?case by auto
next
  case (lf_run i pcs s fresh spurious pc s')
  obtain P where P: "mset pcs = add_mset (pcs ! i) P" "\<forall>pc. mset (pcs[i := pc]) = add_mset pc P"
    using mset_step lf_run(1) by blast
  then have "simulates s (pcs ! i) s' pc P xs" using lf_run exec_simulates [of s "pcs ! i" P xs fresh spurious pc s'] by simp
  then show ?case using P by (auto simp: simulates_def)
qed

lemma lf_reach_inv: "lf_reach n c \<Longrightarrow> \<exists>xs. lf_inv (fst c) (mset (snd c)) xs"
proof (induction rule: lf_reach.induct)
  case lf_init
  show ?case using lf_inv_init [of n] by auto
next
  case (lf_more c d)
  then show ?case using step_refines by blast
qed

section \<open>Linearizability\<close>

lemma abs_pc_idle: "abs_pc s pc = Idle \<longleftrightarrow> pc = Lf_Idle"
  by (cases pc) auto

lemma exec_to_idle:
  assumes "lf_exec fresh spurious pc s = Inr (Lf_Idle, s')"
  shows "pc = Lf_Idle \<or> (\<exists>r. pc = Lf_Returned r) \<or> (\<exists>a. pc = Lf_Emplace_Cas a)"
  using assms by (cases pc) (auto simp: lf_access_def Let_def split: option.splits if_splits)

lemma returns_none: "pc' \<noteq> Lf_Idle \<or> pc = Lf_Idle \<Longrightarrow> lf_returns i pc pc' = []"
  by (auto simp: lf_returns_def)

text \<open>What a thread does to the atomic stack agrees with what it returns.\<close>

lemma atomic_do_linearizes:
  assumes lin: "linearizes stack_object [] H E st A" and i: "A i = abs_pc s pc"
    and step: "atomic_do st (abs_pc s pc) st' (abs_pc s' pc')"
    and exec: "lf_exec fresh spurious pc s = Inr (pc', s')"
  shows "\<exists>E'. linearizes stack_object [] (H @ lf_returns i pc pc') E' st' (A(i := abs_pc s' pc'))"
proof -
  have idle: "abs_pc s' pc' = Idle \<Longrightarrow> pc' = Lf_Idle" by (simp add: abs_pc_idle)
  have busy: "abs_pc s' pc' \<noteq> Idle \<Longrightarrow> lf_returns i pc pc' = []" by (rule returns_none) auto
  show ?thesis
    using step
  proof (cases rule: atomic_do.cases)
    case atomic_none
    have "lf_returns i pc pc' = []" using atomic_none(2) idle abs_pc_idle [of s pc] by (intro returns_none) auto
    moreover have "A(i := abs_pc s' pc') = A" using i atomic_none(2) by auto
    ultimately show ?thesis using lin atomic_none(1) by auto
  next
    case (atomic_push x)
    then have "pc' = Lf_Idle" by (simp add: abs_pc_idle)
    moreover from this have "\<exists>a. pc = Lf_Emplace_Cas a" using exec_to_idle [of fresh spurious pc s s'] exec atomic_push(1) by auto
    ultimately have ret: "lf_returns i pc pc' = [Return i None]" by (auto simp: lf_returns_def)
    have "A i = Called (Put x)" using i atomic_push(1) by simp
    from linearizes_effect [OF lin this, of None "x # st"]
    have "linearizes stack_object [] H (E @ [Effect i (Put x) None]) st' (A(i := Done None))" using atomic_push(2) by simp
    from linearizes_return [OF this, of i None] show ?thesis unfolding ret atomic_push(3) by auto
  next
    case (atomic_pop x)
    have "A i = Called (Get False)" using i atomic_pop by simp
    from linearizes_effect [OF lin this, of "Some x" st'] show ?thesis using busy atomic_pop by auto
  next
    case atomic_pop_empty
    have "A i = Called (Get False)" using i atomic_pop_empty by simp
    from linearizes_effect [OF lin this, of None "[]"] show ?thesis using busy atomic_pop_empty by auto
  next
    case (atomic_return r)
    then have "pc' = Lf_Idle" by (simp add: abs_pc_idle)
    moreover from this have "pc = Lf_Returned r" using exec_to_idle [of fresh spurious pc s s'] exec atomic_return(1) by auto
    ultimately have ret: "lf_returns i pc pc' = [Return i r]" by (simp add: lf_returns_def)
    have "A i = Done r" using i atomic_return(1) by simp
    from linearizes_return [OF lin this] show ?thesis unfolding ret atomic_return(2,3) by auto
  qed
qed

definition lf_linear :: "('a container_op, 'a option) history_event list \<Rightarrow> 'a lf_config \<Rightarrow> (int \<times> nat) list \<Rightarrow> bool" where
  "lf_linear H c xs \<longleftrightarrow> lf_inv (fst c) (mset (snd c)) xs \<and> (\<exists>E A. linearizes stack_object [] H E (contents (fst c) xs) A \<and>
     (\<forall>i<length (snd c). A i = abs_pc (fst c) (snd c ! i)))"

lemma lf_linear_call:
  assumes lin: "lf_linear H (s, pcs) xs" and i: "i < length pcs" "pcs ! i = Lf_Idle"
    and pc: "held pc = None" "owned pc = None" "abs_pc s pc = Called op"
  shows "lf_linear (H @ [Call i op]) (s, pcs[i := pc]) xs"
proof -
  obtain P where "mset pcs = add_mset (pcs ! i) P" "\<forall>pc. mset (pcs[i := pc]) = add_mset pc P" using mset_step i(1) by blast
  then have inv: "lf_inv s (mset (pcs[i := pc])) xs"
    using lin i(2) pc inv_move_free [of s Lf_Idle P xs pc] by (simp add: lf_linear_def)
  obtain E A where E: "linearizes stack_object [] H E (contents s xs) A" "\<forall>i<length pcs. A i = abs_pc s (pcs ! i)"
    using lin by (auto simp: lf_linear_def)
  have "A i = Idle" using E(2) i by auto
  from linearizes_call [OF E(1) this, of op] have
    "linearizes stack_object [] (H @ [Call i op]) (E @ [Call i op]) (contents s xs) (A(i := Called op))" .
  moreover have "\<forall>j<length (pcs[i := pc]). (A(i := Called op)) j = abs_pc s (pcs[i := pc] ! j)" using E(2) pc(3) by (simp add: nth_list_update)
  ultimately show ?thesis using inv unfolding lf_linear_def fst_conv snd_conv by blast
qed

lemma lf_history_linear: "lf_history n H c \<Longrightarrow> \<exists>xs. lf_linear H c xs"
proof (induction rule: lf_history.induct)
  case lf_history_init
  have "lf_linear [] (lock_free_stack :: 'a lock_free_stack, replicate n Lf_Idle) []"
    using lf_inv_init [of n, where 'a = 'a] linearizes_init [of "stack_object :: 'a list \<Rightarrow> _" "[]"]
    by (auto simp: lf_linear_def contents_def intro!: exI [of _ "[]"] exI [of _ "\<lambda>_. Idle"])
  then show ?case ..
next
  case (lf_history_emplace H s pcs i x)
  then obtain xs where "lf_linear H (s, pcs) xs" by blast
  then show ?case using lf_history_emplace lf_history_length [OF lf_history_emplace(1)]
    by (intro exI [of _ xs] lf_linear_call) simp_all
next
  case (lf_history_pop H s pcs i)
  then obtain xs where "lf_linear H (s, pcs) xs" by blast
  then show ?case using lf_history_pop lf_history_length [OF lf_history_pop(1)]
    by (intro exI [of _ xs] lf_linear_call) simp_all
next
  case (lf_history_run H s pcs i fresh spurious pc s')
  have i: "i < length pcs" using lf_history_run(2) lf_history_length [OF lf_history_run(1)] by simp
  obtain xs E A where inv: "lf_inv s (mset pcs) xs" and E: "linearizes stack_object [] H E (contents s xs) A"
    "\<forall>i<length pcs. A i = abs_pc s (pcs ! i)"
    using lf_history_run.IH by (auto simp: lf_linear_def)
  obtain P where P: "mset pcs = add_mset (pcs ! i) P" "\<forall>pc. mset (pcs[i := pc]) = add_mset pc P" using mset_step i by blast
  then have "simulates s (pcs ! i) s' pc P xs"
    using inv lf_history_run exec_simulates [of s "pcs ! i" P xs fresh spurious pc s'] by simp
  then obtain ys where ys: "lf_inv s' (mset (pcs[i := pc])) ys"
    "atomic_do (contents s xs) (abs_pc s (pcs ! i)) (contents s' ys) (abs_pc s' pc)"
    "map (abs_pc s') (pcs[i := pc]) = (map (abs_pc s) pcs)[i := abs_pc s' pc]"
    using simulates_list [of pcs i s s' pc xs] P i by auto
  have "A i = abs_pc s (pcs ! i)" using E(2) i by blast
  from atomic_do_linearizes [OF E(1) this ys(2) lf_history_run(4)] obtain E' where
    E': "linearizes stack_object [] (H @ lf_returns i (pcs ! i) pc) E' (contents s' ys) (A(i := abs_pc s' pc))" by blast
  have "(A(i := abs_pc s' pc)) j = abs_pc s' (pcs[i := pc] ! j)" if j: "j < length pcs" for j
  proof -
    have "map (abs_pc s') (pcs[i := pc]) ! j = (map (abs_pc s) pcs)[i := abs_pc s' pc] ! j" using ys(3) by simp
    then show ?thesis using E(2) j by (cases "j = i") auto
  qed
  then show ?case using ys(1) E' unfolding lf_linear_def fst_conv snd_conv by (metis length_list_update)
qed

definition holds_stack :: "'a lock_free_stack \<Rightarrow> 'a list \<Rightarrow> bool" where
  "holds_stack s st \<longleftrightarrow> (\<exists>xs. chain (lf_nodes s) (lf_head s) xs \<and> st = contents s xs)"

text \<open>
  C3: However the threads are interleaved, the lock-free stack is linearizable. For the history of the calls and returns
  of any run there is a moment for each operation, between its call and its return, such that the operations at these
  moments are a run of a sequential stack with the same results: a value is popped once, last in first out,
  and a pop comes back empty only if the stack was empty at that moment. The nodes from the head hold the
  values of that stack, and a thread is idle exactly if its last operation has returned.
\<close>

theorem lf_linearizable:
  assumes "lf_history n H (s, pcs)"
  shows "\<exists>E st A. linearizes stack_object [] H E st A \<and> holds_stack s st \<and> (\<forall>i<n. A i = Idle \<longleftrightarrow> pcs ! i = Lf_Idle)"
proof -
  obtain xs E A where inv: "lf_inv s (mset pcs) xs" and E: "linearizes stack_object [] H E (contents s xs) A"
    "\<forall>i<length pcs. A i = abs_pc s (pcs ! i)"
    using lf_history_linear [OF assms] by (auto simp: lf_linear_def)
  have "length pcs = n" using lf_history_length [OF assms] by simp
  moreover have "holds_stack s (contents s xs)" using inv by (auto simp: holds_stack_def lf_inv_def)
  ultimately show ?thesis by (intro exI [of _ E] exI [of _ "contents s xs"] exI [of _ A]) (simp add: E abs_pc_idle)
qed

text \<open>A thread that emplaces a value, alone.\<close>

definition lf_one :: "nat lock_free_stack" where
  "lf_one = \<lparr>lf_head = cnp 1 (Some 7),
     lf_nodes = [7 \<mapsto> \<lparr>lf_data = Some 5, internal_count = 0, lf_next = cnp 0 None\<rparr>]\<rparr>"

lemma lf_history_one: "lf_history 2 [Call 0 (Put 5), Return 0 None] (lf_one, [Lf_Idle, Lf_Idle])"
proof -
  let ?s = "lock_free_stack :: nat lock_free_stack" and ?H = "[Call 0 (Put (5 :: nat))] :: (nat container_op, nat option) history_event list"
  have 0: "lf_history 2 [] (?s, [Lf_Idle, Lf_Idle])"
    using lf_history_init [of 2] by (simp add: numeral_2_eq_2)
  have 1: "lf_history 2 ?H (?s, [Lf_Emplace 5, Lf_Idle])"
    using lf_history_emplace [OF 0, of 0 5] by simp
  let ?t = "lf_store 7 (Some \<lparr>lf_data = Some 5, internal_count = 0, lf_next = cnp 0 None\<rparr>) ?s"
  have 2: "lf_history 2 ?H (?t, [Lf_Emplace_Load 7, Lf_Idle])"
    using lf_history_run [OF 1, of 0 7 False "Lf_Emplace_Load 7" ?t] by (simp add: lf_returns_def lock_free_stack_def)
  have 3: "lf_history 2 ?H (?t, [Lf_Emplace_Cas 7, Lf_Idle])"
    using lf_history_run [OF 2, of 0 0 False "Lf_Emplace_Cas 7" ?t]
    by (simp add: lf_returns_def lock_free_stack_def lf_access_def lf_store_def)
  show ?thesis
    using lf_history_run [OF 3, of 0 0 False Lf_Idle lf_one]
    by (simp add: lf_returns_def lock_free_stack_def lf_access_def lf_store_def lf_one_def)
qed

lemma lf_reach_one: "lf_reach 2 (lf_one, [Lf_Idle, Lf_Idle])"
  using lf_history_one lf_history_reach by blast

theorem lf_linearizable_witness:
  "\<exists>E st A. linearizes stack_object [] [Call 0 (Put 5), Return 0 None] E st A \<and> holds_stack lf_one st \<and>
    (\<forall>i<2. A i = Idle \<longleftrightarrow> [Lf_Idle, Lf_Idle] ! i = (Lf_Idle :: nat lf_pc))"
  by (rule lf_linearizable [OF lf_history_one])

text \<open>So a value that a thread pops was pushed.\<close>

lemma lf_popped_was_pushed:
  assumes "lf_history n H c" "Return i (Some x) \<in> set H"
  shows "\<exists>j. Call j (Put x) \<in> set H"
proof -
  obtain xs E A where "linearizes stack_object [] H E (contents (fst c) xs) A"
    using lf_history_linear [OF assms(1)] by (auto simp: lf_linear_def)
  from stack_got_was_put [OF this assms(2)] show ?thesis .
qed

text \<open>
  C4: No interleaving makes a thread touch a node that was deleted: a step of a thread of a reachable
  state is never undefined behaviour, although nodes are deleted while other threads remember their
  addresses and the allocator gives these out again.
\<close>

theorem lf_no_use_after_free:
  assumes "lf_reach n (s, pcs)" and "i < n"
  shows "lf_exec fresh spurious (pcs ! i) s \<noteq> Inl e"
proof -
  obtain xs where xs: "length pcs = n" "lf_inv s (mset pcs) xs" using lf_reach_inv [OF assms(1)] lf_reach_length [OF assms(1)] by auto
  then obtain P where "mset pcs = add_mset (pcs ! i) P" using mset_step assms(2) by blast
  then show ?thesis using exec_defined xs(2) by metis
qed

theorem lf_no_use_after_free_witness: "lf_exec 3 True ([Lf_Idle, Lf_Idle] ! 1) lf_one \<noteq> Inl Undefined_Behaviour"
  using lf_no_use_after_free [OF lf_reach_one, of 1 3 True Undefined_Behaviour] by simp

section \<open>The destructor\<close>

text \<open>\<open>while (pop()) {}\<close> of the only thread.\<close>

partial_function (option) lf_alone :: "'a lf_pc \<Rightarrow> 'a lock_free_stack \<Rightarrow> ('a option \<times> 'a lock_free_stack) result option" where
  "lf_alone pc s =
     (case pc of
        Lf_Returned r \<Rightarrow> Some (Inr (r, s))
      | _ \<Rightarrow> (case lf_exec 0 False pc s of Inl e \<Rightarrow> Some (Inl e) | Inr (pc', s') \<Rightarrow> lf_alone pc' s'))"

partial_function (option) lf_destroy :: "'a lock_free_stack \<Rightarrow> 'a lock_free_stack result option" where
  "lf_destroy s =
     (case lf_alone Lf_Pop s of
        None \<Rightarrow> None
      | Some (Inl e) \<Rightarrow> Some (Inl e)
      | Some (Inr (None, s')) \<Rightarrow> Some (Inr s')
      | Some (Inr (Some x, s')) \<Rightarrow> lf_destroy s')"

declare lf_alone.simps [code] lf_destroy.simps [code]

definition quiescent :: "'a lock_free_stack \<Rightarrow> (int \<times> nat) list \<Rightarrow> bool" where
  "quiescent s xs \<longleftrightarrow> chain (lf_nodes s) (lf_head s) xs \<and> distinct (map snd xs) \<and>
     (\<forall>(c, a)\<in>set xs. \<exists>n. lf_nodes s a = Some n \<and> lf_data n \<noteq> None \<and> internal_count n = 1 - c) \<and>
     (\<forall>a. lf_nodes s a \<noteq> None \<longleftrightarrow> in_chain xs a)"

lemma pop_alone_empty: "quiescent s [] \<Longrightarrow> lf_alone Lf_Pop s = Some (Inr (None, s))"
  by (subst lf_alone.simps, simp, subst lf_alone.simps, simp add: quiescent_def, subst lf_alone.simps, simp)

lemma pop_alone:
  assumes "quiescent s ((c, a) # xs)"
  shows "\<exists>x t. lf_alone Lf_Pop s = Some (Inr (Some x, t)) \<and> quiescent t xs"
proof -
  obtain n where n: "lf_head s = cnp c (Some a)" "lf_nodes s a = Some n" "internal_count n = 1 - c"
    using assms by (auto simp: quiescent_def)
  obtain x where x: "lf_data n = Some x" using assms n(2) by (auto simp: quiescent_def)
  let ?t = "\<lparr>lf_head = lf_next n, lf_nodes = (lf_nodes s)(a := None)\<rparr>"
  have "lf_alone Lf_Pop s = Some (Inr (Some x, ?t))"
    using n x by (simp add: lf_alone.simps [of Lf_Pop] lf_alone.simps [of "Lf_Increase _"] lf_alone.simps [of "Lf_Reserved _ _"]
        lf_alone.simps [of "Lf_Cas _ _ _"] lf_alone.simps [of "Lf_Take _ _"] lf_alone.simps [of "Lf_Add _ _ _"]
        lf_alone.simps [of "Lf_Delete _ _"] lf_alone.simps [of "Lf_Returned _"] lf_access_def lf_store_def Let_def)
  moreover have "\<not> in_chain xs a" using assms by (simp add: quiescent_def in_chain_def)
  then have "chain ((lf_nodes s)(a := None)) (lf_next n) xs" "(d, a) \<notin> set xs" for d
    using assms n(2) chain_store [of xs a "lf_nodes s"] by (auto simp: quiescent_def in_chain_def image_iff)
  then have "quiescent ?t xs" using assms \<open>\<not> in_chain xs a\<close> by (fastforce simp: quiescent_def)
  ultimately show ?thesis by blast
qed

lemma destroy_quiescent: "quiescent s xs \<Longrightarrow> \<exists>t. lf_destroy s = Some (Inr t) \<and> lf_nodes t = (\<lambda>_. None)"
proof (induction xs arbitrary: s)
  case Nil
  then show ?case using pop_alone_empty [of s] by (subst lf_destroy.simps) (auto simp: quiescent_def)
next
  case (Cons y xs)
  obtain c a where y: "y = (c, a)" by fastforce
  then obtain x t where "lf_alone Lf_Pop s = Some (Inr (Some x, t))" "quiescent t xs"
    using pop_alone [of s c a xs] Cons.prems by blast
  then show ?case using Cons.IH [of t] by (subst lf_destroy.simps) simp
qed

lemma idle_quiescent:
  assumes "lf_inv s P xs" "\<forall>pc\<in>#P. pc = Lf_Idle"
  shows "quiescent s xs"
proof -
  have "{#pc \<in># P. held pc = Some a#} = {#pc \<in># P. False#}" "{#pc \<in># P. owned pc = Some a#} = {#pc \<in># P. False#}" for a
    using assms(2) by (auto intro!: filter_mset_cong)
  then have none: "refs P a = 0" "owners P a = {#}" for a by (simp_all add: refs_def owners_def)
  have all: "node_inv s P xs a" for a using assms(1) by (simp add: lf_inv_def)
  have node: "case lf_nodes s a of None \<Rightarrow> \<not> in_chain xs a
      | Some n \<Rightarrow> in_chain xs a \<and> lf_data n \<noteq> None \<and> (\<forall>c. (c, a) \<in> set xs \<longrightarrow> internal_count n = 1 - c)" for a
    using all [of a] by (cases "lf_nodes s a") (auto simp: node_inv_def none split: if_splits)
  have "\<exists>n. lf_nodes s a = Some n \<and> lf_data n \<noteq> None \<and> internal_count n = 1 - c" if "(c, a) \<in> set xs" for c a
    using node [of a] that by (auto simp: in_chain_def image_iff split: option.splits)
  moreover have "lf_nodes s a \<noteq> None \<longleftrightarrow> in_chain xs a" for a using node [of a] by (auto split: option.splits)
  ultimately show ?thesis using assms(1) by (auto simp: quiescent_def lf_inv_def)
qed

text \<open>
  C5: Nothing leaks: when no operation is under way there are exactly as many nodes as values in the
  stack, every other one has been deleted, and the destructor then ends and deletes these.
\<close>

theorem lf_no_leak:
  assumes "lf_reach n (s, pcs)" and "\<forall>pc\<in>set pcs. pc = Lf_Idle"
  shows "(\<exists>st. holds_stack s st \<and> card {a. lf_nodes s a \<noteq> None} = length st) \<and>
    (\<exists>t. lf_destroy s = Some (Inr t) \<and> lf_nodes t = (\<lambda>_. None))"
proof -
  obtain xs where "lf_inv s (mset pcs) xs" using lf_reach_inv [OF assms(1)] by auto
  then have q: "quiescent s xs" using idle_quiescent assms(2) by fastforce
  then have "{a. lf_nodes s a \<noteq> None} = set (map snd xs)" "distinct (map snd xs)"
    by (auto simp: quiescent_def in_chain_def)
  then have "card {a. lf_nodes s a \<noteq> None} = length xs" by (metis distinct_card length_map)
  moreover have "holds_stack s (contents s xs)" "length (contents s xs) = length xs"
    using q by (auto simp: holds_stack_def quiescent_def contents_def)
  ultimately show ?thesis using destroy_quiescent [OF q] by metis
qed

theorem lf_no_leak_witness:
  "\<exists>t. lf_destroy lf_one = Some (Inr t) \<and> lf_nodes t = (\<lambda>_. None)"
  using lf_no_leak [OF lf_reach_one] by simp

end
