(* ===== verification/Sentinel_List.thy ===== *)
theory Sentinel_List
  imports Cpp_Prelude
begin

text \<open>
  \<open>algorithms/linked_list/link.hpp\<close>: \<open>ds::List<T, Allocator>\<close>, a circular doubly linked list whose
  sentinel is a member of the list object. Several list objects live in one memory: a link is the
  sentinel of an object or a node from an allocator.

  A member is a function of the memory that returns or throws: \<open>L_Undefined\<close> stands for access to an
  object that is not there, to the value of a sentinel, or for memory given back to an allocator it
  does not come from, \<open>L_Abort\<close> for a failed assertion; both cannot be caught. \<open>None\<close> is a loop that
  does not end. Whether an allocation or the construction of an element throws is decided by a list
  of outcomes in the memory; after its last one everything succeeds.
\<close>

section \<open>Memory\<close>

datatype link = Sentinel nat | Node nat

datatype list_exn = L_Undefined | L_Abort | L_Out_Of_Range string | L_Bad_Alloc | L_Thrown

datatype outcome = Created | Allocation_Throws | Construction_Throws

record ('a, 'al) list_node =
  ln_prev :: link
  ln_next :: link
  ln_value :: "'a option"
  ln_alloc :: "'al option"

record 'al list_object =
  lo_size :: nat
  lo_alloc :: 'al

record ('a, 'al) list_memory =
  lm_nodes :: "link \<Rightarrow> ('a, 'al) list_node option"
  lm_objects :: "nat \<Rightarrow> 'al list_object option"
  lm_fresh :: nat
  lm_plan :: "outcome list"

text \<open>
  \<open>allocator_traits\<close>: what is propagated, whether all allocators are equal, the allocator of a copy;
  \<open>lt_moved\<close> is the value of an element that was moved from.
\<close>

record ('a, 'al) list_traits =
  lt_copy_assignment :: bool
  lt_move_assignment :: bool
  lt_swap :: bool
  lt_always_equal :: bool
  lt_select :: "'al \<Rightarrow> 'al"
  lt_moved :: "'a \<Rightarrow> 'a"

definition alloc_eq :: "('a, 'al) list_traits \<Rightarrow> 'al \<Rightarrow> 'al \<Rightarrow> bool" where
  "alloc_eq T a b \<longleftrightarrow> lt_always_equal T \<or> a = b"

type_synonym ('r, 'w) member = "'w \<Rightarrow> ((list_exn + 'r) \<times> 'w) option"

definition l_return :: "'r \<Rightarrow> ('r, 'w) member" where
  "l_return r w = Some (Inr r, w)"

definition l_throw :: "list_exn \<Rightarrow> ('r, 'w) member" where
  "l_throw e w = Some (Inl e, w)"

definition l_bind :: "('r, 'w) member \<Rightarrow> ('r \<Rightarrow> ('s, 'w) member) \<Rightarrow> ('s, 'w) member" where
  "l_bind m f w = Option.bind (m w) (\<lambda>p. case p of (Inl e, w) \<Rightarrow> Some (Inl e, w) | (Inr x, w) \<Rightarrow> f x w)"

definition l_then :: "(unit, 'w) member \<Rightarrow> ('s, 'w) member \<Rightarrow> ('s, 'w) member" where
  "l_then m n = l_bind m (\<lambda>_. n)"

text \<open>\<open>try { m } catch (...) { h; throw; }\<close> and the destructors that run when \<open>m\<close> throws.\<close>

definition l_cleanup :: "('r, 'w) member \<Rightarrow> (unit, 'w) member \<Rightarrow> ('r, 'w) member" where
  "l_cleanup m h w = Option.bind (m w) (\<lambda>(r, w).
     case r of
       Inl e \<Rightarrow> if e = L_Undefined \<or> e = L_Abort then Some (Inl e, w) else l_then h (l_throw e) w
     | Inr x \<Rightarrow> Some (Inr x, w))"

lemma l_bind_mono [partial_function_mono]:
  assumes "mono_option (\<lambda>f. m f w)" "\<And>x w. mono_option (\<lambda>f. g f x w)"
  shows "mono_option (\<lambda>f. l_bind (m f) (g f) w)"
  unfolding l_bind_def
proof (rule bind_mono [OF assms(1)])
  show "mono_option (\<lambda>f. case p of (Inl e, w) \<Rightarrow> Some (Inl e, w) | (Inr x, w) \<Rightarrow> g f x w)" for p
    using assms(2) by (cases p; cases "fst p") (auto intro: option.const_mono)
qed

lemma l_then_mono [partial_function_mono]:
  assumes "mono_option (\<lambda>f. m f w)" "\<And>w. mono_option (\<lambda>f. n f w)"
  shows "mono_option (\<lambda>f. l_then (m f) (n f) w)"
  unfolding l_then_def using assms by (rule l_bind_mono)

lemma l_bind_simps [simp]:
  "m w = Some (Inr x, w') \<Longrightarrow> l_bind m f w = f x w'"
  "m w = Some (Inl e, w') \<Longrightarrow> l_bind m f w = Some (Inl e, w')"
  "m w = Some (Inr u, w') \<Longrightarrow> l_then m n w = n w'" for u :: unit
  by (simp_all add: l_bind_def l_then_def)

lemma l_then_throws [simp]: "m w = Some (Inl e, w') \<Longrightarrow> l_then m n w = Some (Inl e, w')"
  by (simp add: l_then_def)

section \<open>Access\<close>

definition l_node :: "link \<Rightarrow> (('a, 'al) list_node, ('a, 'al) list_memory) member" where
  "l_node x w = (case lm_nodes w x of None \<Rightarrow> l_throw L_Undefined w | Some n \<Rightarrow> l_return n w)"

definition l_update :: "link \<Rightarrow> (('a, 'al) list_node \<Rightarrow> ('a, 'al) list_node) \<Rightarrow> (unit, ('a, 'al) list_memory) member" where
  "l_update x f w =
     (case lm_nodes w x of
        None \<Rightarrow> l_throw L_Undefined w
      | Some n \<Rightarrow> l_return () (w\<lparr>lm_nodes := (lm_nodes w)(x \<mapsto> f n)\<rparr>))"

definition set_prev :: "link \<Rightarrow> link \<Rightarrow> (unit, ('a, 'al) list_memory) member" where
  "set_prev x y = l_update x (\<lambda>n. n\<lparr>ln_prev := y\<rparr>)"

definition set_next :: "link \<Rightarrow> link \<Rightarrow> (unit, ('a, 'al) list_memory) member" where
  "set_next x y = l_update x (\<lambda>n. n\<lparr>ln_next := y\<rparr>)"

definition l_object :: "nat \<Rightarrow> ('al list_object, ('a, 'al) list_memory) member" where
  "l_object i w = (case lm_objects w i of None \<Rightarrow> l_throw L_Undefined w | Some n \<Rightarrow> l_return n w)"

definition set_object :: "nat \<Rightarrow> ('al list_object \<Rightarrow> 'al list_object) \<Rightarrow> (unit, ('a, 'al) list_memory) member" where
  "set_object i f w =
     (case lm_objects w i of
        None \<Rightarrow> l_throw L_Undefined w
      | Some n \<Rightarrow> l_return () (w\<lparr>lm_objects := (lm_objects w)(i \<mapsto> f n)\<rparr>))"

definition set_size :: "nat \<Rightarrow> nat \<Rightarrow> (unit, ('a, 'al) list_memory) member" where
  "set_size i n = set_object i (\<lambda>b. b\<lparr>lo_size := n\<rparr>)"

section \<open>Iterators\<close>

definition li_begin :: "nat \<Rightarrow> (link, ('a, 'al) list_memory) member" where
  "li_begin i = l_bind (l_node (Sentinel i)) (\<lambda>n. l_return (ln_next n))"

definition li_end :: "nat \<Rightarrow> link" where
  "li_end i = Sentinel i"

definition it_next :: "link \<Rightarrow> (link, ('a, 'al) list_memory) member" where
  "it_next x = l_bind (l_node x) (\<lambda>n. l_return (ln_next n))"

definition it_prev :: "link \<Rightarrow> (link, ('a, 'al) list_memory) member" where
  "it_prev x = l_bind (l_node x) (\<lambda>n. l_return (ln_prev n))"

definition it_value :: "link \<Rightarrow> ('a, ('a, 'al) list_memory) member" where
  "it_value x = l_bind (l_node x) (\<lambda>n. case ln_value n of None \<Rightarrow> l_throw L_Undefined | Some v \<Rightarrow> l_return v)"

section \<open>Nodes\<close>

definition l_outcome :: "(outcome, ('a, 'al) list_memory) member" where
  "l_outcome w =
     (case lm_plan w of [] \<Rightarrow> l_return Created w | d # ds \<Rightarrow> l_return d (w\<lparr>lm_plan := ds\<rparr>))"

definition allocate :: "nat \<Rightarrow> (nat, ('a, 'al) list_memory) member" where
  "allocate i = l_bind (l_object i) (\<lambda>b w.
     l_return (lm_fresh w)
       (w\<lparr>lm_fresh := Suc (lm_fresh w),
          lm_nodes := (lm_nodes w)(Node (lm_fresh w) \<mapsto>
            \<lparr>ln_prev = Node (lm_fresh w), ln_next = Node (lm_fresh w), ln_value = None, ln_alloc = Some (lo_alloc b)\<rparr>)\<rparr>))"

definition deallocate :: "('a, 'al) list_traits \<Rightarrow> nat \<Rightarrow> link \<Rightarrow> (unit, ('a, 'al) list_memory) member" where
  "deallocate T i x = l_bind (l_object i) (\<lambda>b. l_bind (l_node x) (\<lambda>n w.
     case ln_alloc n of
       None \<Rightarrow> l_throw L_Undefined w
     | Some al \<Rightarrow>
         if alloc_eq T al (lo_alloc b) \<and> ln_value n = None
         then l_return () (w\<lparr>lm_nodes := (lm_nodes w)(x := None)\<rparr>)
         else l_throw L_Undefined w))"

definition create_node :: "('a, 'al) list_traits \<Rightarrow> nat \<Rightarrow> 'a \<Rightarrow> (link, ('a, 'al) list_memory) member" where
  "create_node T i v = l_bind l_outcome (\<lambda>d.
     if d = Allocation_Throws then l_throw L_Bad_Alloc
     else l_bind (allocate i) (\<lambda>a.
       l_cleanup
         (if d = Construction_Throws then l_throw L_Thrown
          else l_then (l_update (Node a) (\<lambda>n. n\<lparr>ln_prev := Node a, ln_next := Node a, ln_value := Some v\<rparr>))
            (l_return (Node a)))
         (deallocate T i (Node a))))"

definition destroy_node :: "('a, 'al) list_traits \<Rightarrow> nat \<Rightarrow> link \<Rightarrow> (unit, ('a, 'al) list_memory) member" where
  "destroy_node T i x =
     l_bind (it_value x) (\<lambda>_. l_then (l_update x (\<lambda>n. n\<lparr>ln_value := None\<rparr>)) (deallocate T i x))"

definition link_before :: "nat \<Rightarrow> link \<Rightarrow> link \<Rightarrow> (unit, ('a, 'al) list_memory) member" where
  "link_before i position node =
     l_then (set_next node position)
     (l_bind (it_prev position) (\<lambda>p. l_then (set_prev node p)
     (l_bind (it_prev position) (\<lambda>p. l_then (set_next p node)
     (l_then (set_prev position node)
     (set_object i (\<lambda>b. b\<lparr>lo_size := lo_size b + 1\<rparr>)))))))"

definition unlink :: "link \<Rightarrow> (unit, ('a, 'al) list_memory) member" where
  "unlink node =
     l_bind (l_node node) (\<lambda>n. l_then (set_next (ln_prev n) (ln_next n))
     (l_bind (l_node node) (\<lambda>n. set_prev (ln_next n) (ln_prev n))))"

definition reset_empty :: "nat \<Rightarrow> (unit, ('a, 'al) list_memory) member" where
  "reset_empty i = l_then (set_next (Sentinel i) (Sentinel i)) (set_prev (Sentinel i) (Sentinel i))"

section \<open>The class\<close>

definition li_new :: "nat \<Rightarrow> 'al \<Rightarrow> (unit, ('a, 'al) list_memory) member" where
  "li_new i al w =
     (if lm_objects w i \<noteq> None then l_throw L_Undefined w
      else l_return () (w\<lparr>lm_objects := (lm_objects w)(i \<mapsto> \<lparr>lo_size = 0, lo_alloc = al\<rparr>),
        lm_nodes := (lm_nodes w)(Sentinel i \<mapsto>
          \<lparr>ln_prev = Sentinel i, ln_next = Sentinel i, ln_value = None, ln_alloc = None\<rparr>)\<rparr>))"

text \<open>The storage of the object ends.\<close>

definition li_drop :: "nat \<Rightarrow> (unit, ('a, 'al) list_memory) member" where
  "li_drop i w = l_return () (w\<lparr>lm_objects := (lm_objects w)(i := None), lm_nodes := (lm_nodes w)(Sentinel i := None)\<rparr>)"

definition li_size :: "nat \<Rightarrow> (nat, ('a, 'al) list_memory) member" where
  "li_size i = l_bind (l_object i) (\<lambda>b. l_return (lo_size b))"

definition li_empty :: "nat \<Rightarrow> (bool, ('a, 'al) list_memory) member" where
  "li_empty i = l_bind (li_size i) (\<lambda>n. l_return (n = 0))"

definition get_allocator :: "nat \<Rightarrow> ('al, ('a, 'al) list_memory) member" where
  "get_allocator i = l_bind (l_object i) (\<lambda>b. l_return (lo_alloc b))"

definition throw_if_empty :: "nat \<Rightarrow> string \<Rightarrow> (unit, ('a, 'al) list_memory) member" where
  "throw_if_empty i operation = l_bind (li_empty i) (\<lambda>e.
     if e then l_throw (L_Out_Of_Range (''List::'' @ operation @ '' on empty list'')) else l_return ())"

definition li_front :: "nat \<Rightarrow> ('a, ('a, 'al) list_memory) member" where
  "li_front i = l_then (throw_if_empty i ''front'') (l_bind (li_begin i) it_value)"

definition li_back :: "nat \<Rightarrow> ('a, ('a, 'al) list_memory) member" where
  "li_back i = l_then (throw_if_empty i ''back'') (l_bind (it_prev (li_end i)) it_value)"

definition li_emplace :: "('a, 'al) list_traits \<Rightarrow> nat \<Rightarrow> link \<Rightarrow> 'a \<Rightarrow> (link, ('a, 'al) list_memory) member" where
  "li_emplace T i position v = l_bind (create_node T i v) (\<lambda>node. l_then (link_before i position node) (l_return node))"

definition li_insert :: "('a, 'al) list_traits \<Rightarrow> nat \<Rightarrow> link \<Rightarrow> 'a \<Rightarrow> (link, ('a, 'al) list_memory) member" where
  "li_insert = li_emplace"

definition li_push_front :: "('a, 'al) list_traits \<Rightarrow> nat \<Rightarrow> 'a \<Rightarrow> (unit, ('a, 'al) list_memory) member" where
  "li_push_front T i v = l_bind (li_begin i) (\<lambda>p. l_bind (li_insert T i p v) (\<lambda>_. l_return ()))"

definition li_push_back :: "('a, 'al) list_traits \<Rightarrow> nat \<Rightarrow> 'a \<Rightarrow> (unit, ('a, 'al) list_memory) member" where
  "li_push_back T i v = l_bind (li_insert T i (li_end i) v) (\<lambda>_. l_return ())"

definition li_emplace_front :: "('a, 'al) list_traits \<Rightarrow> nat \<Rightarrow> 'a \<Rightarrow> ('a, ('a, 'al) list_memory) member" where
  "li_emplace_front T i v = l_bind (li_begin i) (\<lambda>p. l_bind (li_emplace T i p v) it_value)"

definition li_emplace_back :: "('a, 'al) list_traits \<Rightarrow> nat \<Rightarrow> 'a \<Rightarrow> ('a, ('a, 'al) list_memory) member" where
  "li_emplace_back T i v = l_bind (li_emplace T i (li_end i) v) it_value"

definition li_erase :: "('a, 'al) list_traits \<Rightarrow> nat \<Rightarrow> link \<Rightarrow> (link, ('a, 'al) list_memory) member" where
  "li_erase T i position =
     (if position = Sentinel i then l_throw (L_Out_Of_Range ''List::erase cannot erase end()'')
      else l_bind (it_next position) (\<lambda>next.
        l_then (unlink position)
        (l_then (destroy_node T i position)
        (l_then (set_object i (\<lambda>b. b\<lparr>lo_size := lo_size b - 1\<rparr>))
        (l_return next)))))"

partial_function (option) li_erase_range :: "('a, 'al) list_traits \<Rightarrow> nat \<Rightarrow> link \<Rightarrow> link \<Rightarrow>
    ('a, 'al) list_memory \<Rightarrow> ((list_exn + link) \<times> ('a, 'al) list_memory) option" where
  "li_erase_range T i first end w =
     (if first = end then l_return end w
      else l_bind (li_erase T i first) (\<lambda>first. li_erase_range T i first end) w)"

definition li_pop_front :: "('a, 'al) list_traits \<Rightarrow> nat \<Rightarrow> (unit, ('a, 'al) list_memory) member" where
  "li_pop_front T i = l_then (throw_if_empty i ''pop_front'')
     (l_bind (li_begin i) (\<lambda>p. l_bind (li_erase T i p) (\<lambda>_. l_return ())))"

definition li_pop_back :: "('a, 'al) list_traits \<Rightarrow> nat \<Rightarrow> (unit, ('a, 'al) list_memory) member" where
  "li_pop_back T i = l_then (throw_if_empty i ''pop_back'')
     (l_bind (it_prev (li_end i)) (\<lambda>p. l_bind (li_erase T i p) (\<lambda>_. l_return ())))"

partial_function (option) clear_loop :: "('a, 'al) list_traits \<Rightarrow> nat \<Rightarrow> link \<Rightarrow>
    ('a, 'al) list_memory \<Rightarrow> ((list_exn + unit) \<times> ('a, 'al) list_memory) option" where
  "clear_loop T i current w =
     (if current = Sentinel i then l_return () w
      else l_bind (it_next current) (\<lambda>next. l_then (destroy_node T i current) (clear_loop T i next)) w)"

definition li_clear :: "('a, 'al) list_traits \<Rightarrow> nat \<Rightarrow> (unit, ('a, 'al) list_memory) member" where
  "li_clear T i = l_bind (li_begin i) (\<lambda>current.
     l_then (clear_loop T i current) (l_then (reset_empty i) (set_size i 0)))"

definition li_destroy :: "('a, 'al) list_traits \<Rightarrow> nat \<Rightarrow> (unit, ('a, 'al) list_memory) member" where
  "li_destroy T i = l_then (li_clear T i) (li_drop i)"

fun push_values :: "('a, 'al) list_traits \<Rightarrow> nat \<Rightarrow> 'a list \<Rightarrow> (unit, ('a, 'al) list_memory) member" where
  "push_values T i [] = l_return ()"
| "push_values T i (v # vs) = l_then (li_push_back T i v) (push_values T i vs)"

text \<open>
  The constructor from values delegates to \<open>List(allocator)\<close>: the object exists when the body throws,
  so that its destructor runs after the handler. The copy constructor does not delegate.
\<close>

definition li_from_values :: "('a, 'al) list_traits \<Rightarrow> nat \<Rightarrow> 'a list \<Rightarrow> 'al \<Rightarrow> (unit, ('a, 'al) list_memory) member" where
  "li_from_values T i vs al = l_then (li_new i al)
     (l_cleanup (l_cleanup (push_values T i vs) (li_clear T i)) (li_destroy T i))"

partial_function (option) copy_loop :: "('a, 'al) list_traits \<Rightarrow> nat \<Rightarrow> nat \<Rightarrow> link \<Rightarrow>
    ('a, 'al) list_memory \<Rightarrow> ((list_exn + unit) \<times> ('a, 'al) list_memory) option" where
  "copy_loop T i j it w =
     (if it = li_end j then l_return () w
      else l_bind (it_value it) (\<lambda>v.
        l_then (li_push_back T i v) (l_bind (it_next it) (\<lambda>it. copy_loop T i j it))) w)"

definition li_copy :: "('a, 'al) list_traits \<Rightarrow> nat \<Rightarrow> nat \<Rightarrow> (unit, ('a, 'al) list_memory) member" where
  "li_copy T i j = l_bind (get_allocator j) (\<lambda>al. l_then (li_new i (lt_select T al))
     (l_cleanup (l_cleanup (l_bind (li_begin j) (copy_loop T i j)) (li_clear T i)) (li_drop i)))"

definition steal_nodes_from :: "nat \<Rightarrow> nat \<Rightarrow> (unit, ('a, 'al) list_memory) member" where
  "steal_nodes_from i j = l_bind (li_empty j) (\<lambda>e.
     if e then l_then (reset_empty i) (set_size i 0)
     else
       l_bind (l_node (Sentinel j)) (\<lambda>s.
       l_then (set_next (Sentinel i) (ln_next s))
       (l_then (set_prev (Sentinel i) (ln_prev s))
       (l_bind (li_size j) (\<lambda>n. l_then (set_size i n)
       (l_then (set_prev (ln_next s) (Sentinel i))
       (l_then (set_next (ln_prev s) (Sentinel i))
       (l_then (reset_empty j)
       (set_size j 0)))))))))"

definition li_move :: "nat \<Rightarrow> nat \<Rightarrow> (unit, ('a, 'al) list_memory) member" where
  "li_move i j = l_bind (get_allocator j) (\<lambda>al. l_then (li_new i al) (steal_nodes_from i j))"

definition set_allocator :: "nat \<Rightarrow> 'al \<Rightarrow> (unit, ('a, 'al) list_memory) member" where
  "set_allocator i al = set_object i (\<lambda>b. b\<lparr>lo_alloc := al\<rparr>)"

text \<open>\<open>t\<close> is the object \<open>temp\<close>, which is destroyed at the end of the function and when it throws.\<close>

definition li_copy_assign :: "('a, 'al) list_traits \<Rightarrow> nat \<Rightarrow> nat \<Rightarrow> nat \<Rightarrow> (unit, ('a, 'al) list_memory) member" where
  "li_copy_assign T t i j =
     (if i = j then l_return ()
      else
        l_bind (get_allocator (if lt_copy_assignment T then j else i)) (\<lambda>target_alloc.
        l_then (li_new t target_alloc)
        (l_then (l_cleanup (l_bind (li_begin j) (copy_loop T t j)) (li_destroy T t))
        (l_then (li_clear T i)
        (l_then (if lt_copy_assignment T then l_bind (get_allocator j) (set_allocator i) else l_return ())
        (l_then (steal_nodes_from i t)
        (li_destroy T t)))))))"

partial_function (option) move_loop :: "('a, 'al) list_traits \<Rightarrow> nat \<Rightarrow> nat \<Rightarrow> link \<Rightarrow>
    ('a, 'al) list_memory \<Rightarrow> ((list_exn + unit) \<times> ('a, 'al) list_memory) option" where
  "move_loop T i j it w =
     (if it = li_end j then l_return () w
      else l_bind (it_value it) (\<lambda>v.
        l_then (li_push_back T i v)
        (l_then (l_update it (\<lambda>n. n\<lparr>ln_value := Some (lt_moved T v)\<rparr>))
        (l_bind (it_next it) (\<lambda>it. move_loop T i j it)))) w)"

definition li_move_assign :: "('a, 'al) list_traits \<Rightarrow> nat \<Rightarrow> nat \<Rightarrow> (unit, ('a, 'al) list_memory) member" where
  "li_move_assign T i j =
     (if i = j then l_return ()
      else l_then (li_clear T i)
        (if lt_move_assignment T
         then l_then (l_bind (get_allocator j) (set_allocator i)) (steal_nodes_from i j)
         else if lt_always_equal T then steal_nodes_from i j
         else l_bind (get_allocator i) (\<lambda>a. l_bind (get_allocator j) (\<lambda>b.
           if alloc_eq T a b then steal_nodes_from i j
           else l_then (l_bind (li_begin j) (move_loop T i j)) (li_clear T j)))))"

definition repair_sentinel_links :: "nat \<Rightarrow> (unit, ('a, 'al) list_memory) member" where
  "repair_sentinel_links i = l_bind (li_size i) (\<lambda>n.
     if n = 0 then reset_empty i
     else l_bind (l_node (Sentinel i)) (\<lambda>s. l_then (set_prev (ln_next s) (Sentinel i))
       (l_bind (l_node (Sentinel i)) (\<lambda>s. set_next (ln_prev s) (Sentinel i)))))"

definition li_swap :: "('a, 'al) list_traits \<Rightarrow> nat \<Rightarrow> nat \<Rightarrow> (unit, ('a, 'al) list_memory) member" where
  "li_swap T i j =
     (if i = j then l_return ()
      else l_bind (l_object i) (\<lambda>a. l_bind (l_object j) (\<lambda>b.
        l_then
          (if lt_swap T then l_then (set_allocator i (lo_alloc b)) (set_allocator j (lo_alloc a))
           else if alloc_eq T (lo_alloc a) (lo_alloc b) then l_return () else l_throw L_Abort)
        (l_bind (l_node (Sentinel i)) (\<lambda>s. l_bind (l_node (Sentinel j)) (\<lambda>t.
          l_then (set_next (Sentinel i) (ln_next t))
          (l_then (set_next (Sentinel j) (ln_next s))
          (l_then (set_prev (Sentinel i) (ln_prev t))
          (l_then (set_prev (Sentinel j) (ln_prev s))
          (l_then (set_size i (lo_size b))
          (l_then (set_size j (lo_size a))
          (l_then (repair_sentinel_links i)
          (repair_sentinel_links j)))))))))))))"

partial_function (option) equal_loop :: "nat \<Rightarrow> link \<Rightarrow> link \<Rightarrow>
    ('a, 'al) list_memory \<Rightarrow> ((list_exn + bool) \<times> ('a, 'al) list_memory) option" where
  "equal_loop i p q w =
     (if p = li_end i then l_return True w
      else l_bind (it_value p) (\<lambda>x. l_bind (it_value q) (\<lambda>y w.
        if x \<noteq> y then l_return False w
        else l_bind (it_next p) (\<lambda>p. l_bind (it_next q) (\<lambda>q. equal_loop i p q)) w)) w)"

definition li_equal :: "nat \<Rightarrow> nat \<Rightarrow> (bool, ('a, 'al) list_memory) member" where
  "li_equal i j = l_bind (li_size i) (\<lambda>m. l_bind (li_size j) (\<lambda>n.
     if m \<noteq> n then l_return False
     else l_bind (li_begin i) (\<lambda>p. l_bind (li_begin j) (\<lambda>q. equal_loop i p q))))"

declare li_erase_range.simps [code] clear_loop.simps [code] copy_loop.simps [code] move_loop.simps [code] equal_loop.simps [code]

end
