(* ===== verification/Sentinel_Links.thy ===== *)
theory Sentinel_Links
  imports Sentinel_List
begin

text \<open>
  The memory of \<open>Sentinel_List\<close>: links, paths and the invariant. \<open>l_spec m w Q E\<close> says that the member \<open>m\<close>
  ends, with \<open>Q\<close> if it returns and with \<open>E\<close> if it throws; its equations turn a member into a
  condition on the memory. \<open>mem_ok T w C\<close> is the invariant of a memory \<open>w\<close> whose objects have the
  allocators and elements (node and value) of \<open>C\<close>.
\<close>

section \<open>What a member does\<close>

definition l_spec :: "('r, 'w) member \<Rightarrow> 'w \<Rightarrow> ('r \<Rightarrow> 'w \<Rightarrow> bool) \<Rightarrow> (list_exn \<Rightarrow> 'w \<Rightarrow> bool) \<Rightarrow> bool" where
  "l_spec m w Q E \<longleftrightarrow>
     (case m w of None \<Rightarrow> False | Some (Inl e, w') \<Rightarrow> E e w' | Some (Inr x, w') \<Rightarrow> Q x w')"

lemma spec_return [simp]: "l_spec (l_return r) w Q E \<longleftrightarrow> Q r w"
  by (simp add: l_spec_def l_return_def)

lemma spec_throw [simp]: "l_spec (l_throw e) w Q E \<longleftrightarrow> E e w"
  by (simp add: l_spec_def l_throw_def)

lemma spec_bind [simp]: "l_spec (l_bind m f) w Q E \<longleftrightarrow> l_spec m w (\<lambda>x w. l_spec (f x) w Q E) E"
  by (cases "m w") (auto simp: l_spec_def l_bind_def split: sum.split)

lemma spec_then [simp]: "l_spec (l_then m n) w Q E \<longleftrightarrow> l_spec m w (\<lambda>_ w. l_spec n w Q E) E"
  by (simp add: l_then_def)

lemma spec_cleanup [simp]:
  fixes m :: "('r, 'w) member"
  shows
  "l_spec (l_cleanup m h) w Q E \<longleftrightarrow>
    l_spec m w Q (\<lambda>e w. if e = L_Undefined \<or> e = L_Abort then E e w else l_spec h w (\<lambda>_ w. E e w) E)"
proof -
  have eq: "l_spec m w Q E \<longleftrightarrow> l_spec n w' Q E" if "m w = n w'" for m n :: "('r, 'w) member" and w w' Q E
    using that by (simp add: l_spec_def)
  show ?thesis
  proof (cases "m w")
    case None
    then show ?thesis by (simp add: l_spec_def l_cleanup_def)
  next
    case (Some p)
    obtain r w' where p: "p = (r, w')" by fastforce
    show ?thesis
    proof (cases r)
      case (Inl e)
      show ?thesis
      proof (cases "e = L_Undefined \<or> e = L_Abort")
        case False
        then have "l_spec (l_cleanup m h) w Q E \<longleftrightarrow> l_spec (l_then h (l_throw e)) w' Q E"
          using Some p Inl by (intro eq) (auto simp: l_cleanup_def)
        then show ?thesis using Some p Inl False by (simp add: l_spec_def [of m])
      qed (use Some p Inl in \<open>auto simp: l_spec_def l_cleanup_def\<close>)
    qed (use Some p in \<open>simp add: l_spec_def l_cleanup_def\<close>)
  qed
qed

lemma spec_mono: "l_spec m w Q E \<Longrightarrow> (\<And>r w. Q r w \<Longrightarrow> Q' r w) \<Longrightarrow> (\<And>e w. E e w \<Longrightarrow> E' e w) \<Longrightarrow> l_spec m w Q' E'"
  by (auto simp: l_spec_def split: option.splits sum.splits)

lemma cleanup_rule:
  assumes "l_spec m w Q F" "\<And>e w. F e w \<Longrightarrow> e \<noteq> L_Undefined \<and> e \<noteq> L_Abort \<and> l_spec h w (\<lambda>_ w. E e w) E"
  shows "l_spec (l_cleanup m h) w Q E"
  unfolding spec_cleanup using assms(1) by (rule spec_mono) (use assms(2) in auto)

lemma spec_if [simp]: "l_spec (if b then m else n) w Q E \<longleftrightarrow> (if b then l_spec m w Q E else l_spec n w Q E)"
  by simp

section \<open>Links and values\<close>

definition nxt :: "('a, 'al) list_memory \<Rightarrow> link \<Rightarrow> link option" where
  "nxt w x = map_option ln_next (lm_nodes w x)"

definition prv :: "('a, 'al) list_memory \<Rightarrow> link \<Rightarrow> link option" where
  "prv w x = map_option ln_prev (lm_nodes w x)"

definition val :: "('a, 'al) list_memory \<Rightarrow> link \<Rightarrow> ('a option \<times> 'al option) option" where
  "val w x = map_option (\<lambda>n. (ln_value n, ln_alloc n)) (lm_nodes w x)"

definition live :: "('a, 'al) list_memory \<Rightarrow> link \<Rightarrow> bool" where
  "live w x \<longleftrightarrow> val w x \<noteq> None"

definition upd :: "link \<Rightarrow> (('a, 'al) list_node \<Rightarrow> ('a, 'al) list_node) \<Rightarrow> ('a, 'al) list_memory \<Rightarrow> ('a, 'al) list_memory" where
  "upd x f w = w\<lparr>lm_nodes := (lm_nodes w)(x := map_option f (lm_nodes w x))\<rparr>"

abbreviation upd_next :: "link \<Rightarrow> link \<Rightarrow> ('a, 'al) list_memory \<Rightarrow> ('a, 'al) list_memory" where
  "upd_next x y \<equiv> upd x (\<lambda>n. n\<lparr>ln_next := y\<rparr>)"

abbreviation upd_prev :: "link \<Rightarrow> link \<Rightarrow> ('a, 'al) list_memory \<Rightarrow> ('a, 'al) list_memory" where
  "upd_prev x y \<equiv> upd x (\<lambda>n. n\<lparr>ln_prev := y\<rparr>)"

abbreviation upd_value :: "link \<Rightarrow> 'a option \<Rightarrow> ('a, 'al) list_memory \<Rightarrow> ('a, 'al) list_memory" where
  "upd_value x v \<equiv> upd x (\<lambda>n. n\<lparr>ln_value := v\<rparr>)"

definition upd_object :: "nat \<Rightarrow> ('al list_object \<Rightarrow> 'al list_object) \<Rightarrow> ('a, 'al) list_memory \<Rightarrow> ('a, 'al) list_memory" where
  "upd_object i f w = w\<lparr>lm_objects := (lm_objects w)(i := map_option f (lm_objects w i))\<rparr>"

definition free_link :: "link \<Rightarrow> ('a, 'al) list_memory \<Rightarrow> ('a, 'al) list_memory" where
  "free_link x w = w\<lparr>lm_nodes := (lm_nodes w)(x := None)\<rparr>"

lemma upd_simps [simp]:
  "nxt (upd_next x y w) z = (if z = x \<and> live w x then Some y else nxt w z)"
  "nxt (upd_prev x y w) = nxt w"
  "nxt (upd_value x v w) = nxt w"
  "prv (upd_prev x y w) z = (if z = x \<and> live w x then Some y else prv w z)"
  "prv (upd_next x y w) = prv w"
  "prv (upd_value x v w) = prv w"
  "val (upd_next x y w) = val w"
  "val (upd_prev x y w) = val w"
  "val (upd_value x v w) z = (if z = x then map_option (\<lambda>(u, al). (v, al)) (val w z) else val w z)"
  "lm_objects (upd x f w) = lm_objects w"
  "lm_fresh (upd x f w) = lm_fresh w"
  "live (upd x f w) z = live w z"
  by (auto simp: nxt_def prv_def val_def upd_def live_def fun_eq_iff option.map_comp comp_def)

lemma upd_object_simps [simp]:
  "nxt (upd_object i f w) = nxt w" "prv (upd_object i f w) = prv w" "val (upd_object i f w) = val w"
  "live (upd_object i f w) = live w" "lm_fresh (upd_object i f w) = lm_fresh w"
  "lm_objects (upd_object i f w) j = (if j = i then map_option f (lm_objects w i) else lm_objects w j)"
  by (simp_all add: nxt_def prv_def val_def live_def upd_object_def fun_eq_iff)

lemma free_simps [simp]:
  "nxt (free_link x w) z = (if z = x then None else nxt w z)"
  "prv (free_link x w) z = (if z = x then None else prv w z)"
  "val (free_link x w) z = (if z = x then None else val w z)"
  "live (free_link x w) z \<longleftrightarrow> z \<noteq> x \<and> live w z"
  "lm_objects (free_link x w) = lm_objects w" "lm_fresh (free_link x w) = lm_fresh w"
  by (simp_all add: nxt_def prv_def val_def live_def free_link_def)

lemma live_nxt: "live w x \<longleftrightarrow> (\<exists>y. nxt w x = Some y)"
  by (auto simp: live_def nxt_def val_def)

lemma live_prv: "live w x \<longleftrightarrow> (\<exists>y. prv w x = Some y)"
  by (auto simp: live_def prv_def val_def)

lemma nxt_live: "nxt w x = Some y \<Longrightarrow> live w x"
  by (auto simp: live_nxt)

lemma prv_live: "prv w x = Some y \<Longrightarrow> live w x"
  by (auto simp: live_prv)

lemma val_live: "val w x = Some v \<Longrightarrow> live w x"
  by (simp add: live_def)

lemma spec_update [simp]: "l_spec (l_update x f) w Q E \<longleftrightarrow> (if live w x then Q () (upd x f w) else E L_Undefined w)"
  by (auto simp: l_spec_def l_update_def live_def val_def upd_def l_return_def l_throw_def split: option.splits)

lemma spec_set [simp]:
  "l_spec (set_next x y) w Q E \<longleftrightarrow> (if live w x then Q () (upd_next x y w) else E L_Undefined w)"
  "l_spec (set_prev x y) w Q E \<longleftrightarrow> (if live w x then Q () (upd_prev x y w) else E L_Undefined w)"
  by (simp_all add: set_next_def set_prev_def)

lemma spec_it [simp]:
  "l_spec (it_next x) w Q E \<longleftrightarrow> (case nxt w x of None \<Rightarrow> E L_Undefined w | Some y \<Rightarrow> Q y w)"
  "l_spec (it_prev x) w Q E \<longleftrightarrow> (case prv w x of None \<Rightarrow> E L_Undefined w | Some y \<Rightarrow> Q y w)"
  "l_spec (it_value x) w R E \<longleftrightarrow> (case val w x of Some (Some v, al) \<Rightarrow> R v w | _ \<Rightarrow> E L_Undefined w)"
  by (auto simp: l_spec_def it_next_def it_prev_def it_value_def l_bind_def l_node_def l_return_def l_throw_def
      nxt_def prv_def val_def split: option.splits)

lemma li_begin_next: "li_begin i = it_next (Sentinel i)"
  by (simp add: li_begin_def it_next_def)

lemma spec_node: "live w x \<Longrightarrow> l_spec (l_node x) w Q E \<longleftrightarrow> (\<exists>n. lm_nodes w x = Some n \<and> Q n w)"
  by (auto simp: l_spec_def l_node_def l_return_def live_def val_def)

lemma spec_object [simp]:
  "l_spec (l_object i) w Q E \<longleftrightarrow> (case lm_objects w i of None \<Rightarrow> E L_Undefined w | Some b \<Rightarrow> Q b w)"
  by (auto simp: l_spec_def l_object_def l_return_def l_throw_def split: option.splits)

lemma spec_set_object [simp]:
  "l_spec (set_object i f) w Q E \<longleftrightarrow>
    (case lm_objects w i of None \<Rightarrow> E L_Undefined w | Some b \<Rightarrow> Q () (upd_object i f w))"
  by (auto simp: l_spec_def set_object_def l_return_def l_throw_def upd_object_def split: option.splits)

section \<open>Paths\<close>

fun path :: "('a, 'al) list_memory \<Rightarrow> link list \<Rightarrow> bool" where
  "path w (x # y # zs) \<longleftrightarrow> nxt w x = Some y \<and> prv w y = Some x \<and> path w (y # zs)"
| "path w _ \<longleftrightarrow> True"

lemma path_append: "path w (xs @ y # zs) \<longleftrightarrow> path w (xs @ [y]) \<and> path w (y # zs)"
proof (induction xs)
  case (Cons x xs)
  then show ?case by (cases xs) auto
qed simp

lemma path_cong:
  assumes "\<forall>x\<in>set (butlast xs). nxt w' x = nxt w x" "\<forall>x\<in>set (tl xs). prv w' x = prv w x"
  shows "path w' xs \<longleftrightarrow> path w xs"
  using assms by (induction w xs rule: path.induct) auto

lemma path_insert:
  assumes p: "path w (xs @ p # q # zs)" and d: "distinct (butlast (xs @ p # q # zs))" "distinct (tl (xs @ p # q # zs))"
    and c: "c \<notin> set (xs @ p # q # zs)"
    and n: "\<And>x. nxt w' x = (if x = p then Some c else if x = c then Some q else nxt w x)"
    and v: "\<And>x. prv w' x = (if x = q then Some c else if x = c then Some p else prv w x)"
  shows "path w' (xs @ p # c # q # zs)"
proof -
  have left: "path w (xs @ [p])" and right: "path w (q # zs)"
    using p path_append [of w xs p "q # zs"] path_append [of w "xs @ [p]" q zs] by simp_all
  have "butlast (xs @ p # q # zs) = xs @ p # butlast (q # zs)" by (simp add: butlast_append)
  then have out: "p \<notin> set xs" "p \<notin> set (butlast (q # zs))" using d(1) by auto
  have "tl (xs @ p # q # zs) = tl (xs @ [p]) @ q # zs" by (cases xs) auto
  then have into: "q \<notin> set (tl (xs @ [p]))" "q \<notin> set zs" using d(2) by auto
  have "c \<notin> set (tl (xs @ [p]))" using c by (cases xs) auto
  then have "path w' (xs @ [p])"
    using left out into c n v by (subst path_cong [of _ w' w]) (auto simp: butlast_append dest: list.set_sel(2))
  moreover have "path w' (q # zs)"
    using right out into c n v by (subst path_cong [of _ w' w]) (auto dest: in_set_butlastD split: if_splits)
  ultimately show ?thesis using c n v by (subst path_append) simp
qed

lemma path_remove:
  assumes p: "path w (xs @ p # c # q # zs)" and d: "distinct (butlast (xs @ p # c # q # zs))" "distinct (tl (xs @ p # c # q # zs))"
    and n: "\<And>x. x \<noteq> c \<Longrightarrow> nxt w' x = (if x = p then Some q else nxt w x)"
    and v: "\<And>x. x \<noteq> c \<Longrightarrow> prv w' x = (if x = q then Some p else prv w x)"
    and c: "c \<noteq> p" "c \<noteq> q" "c \<notin> set xs" "c \<notin> set zs"
  shows "path w' (xs @ p # q # zs)"
proof -
  have left: "path w (xs @ [p])" and right: "path w (q # zs)"
    using p path_append [of w xs p "c # q # zs"] path_append [of w "xs @ [p, c]" q zs] by simp_all
  have "butlast (xs @ p # c # q # zs) = xs @ p # c # butlast (q # zs)" by (simp add: butlast_append)
  then have out: "p \<notin> set xs" "p \<notin> set (butlast (q # zs))" using d(1) by auto
  have "tl (xs @ p # c # q # zs) = tl (xs @ [p]) @ c # q # zs" by (cases xs) auto
  then have into: "q \<notin> set (tl (xs @ [p]))" "q \<notin> set zs" using d(2) by auto
  have ctl: "c \<notin> set (tl (xs @ [p]))" using c by (cases xs) auto
  have "nxt w' x = nxt w x" if "x \<in> set xs \<union> set (butlast (q # zs))" for x
  proof -
    have "x \<noteq> c" "x \<noteq> p" using that out c by (auto dest: in_set_butlastD split: if_splits)
    then show ?thesis using n by simp
  qed
  moreover have "prv w' x = prv w x" if "x \<in> set (tl (xs @ [p])) \<union> set zs" for x
  proof -
    have "x \<noteq> c" "x \<noteq> q" using that into c ctl by auto
    then show ?thesis using v by simp
  qed
  ultimately have "path w' (xs @ [p])" "path w' (q # zs)"
    using left right by (simp_all add: path_cong [of _ w' w] butlast_append)
  then show ?thesis using c n [of p] v [of q] by (subst path_append) simp
qed

section \<open>The invariant\<close>

type_synonym ('a, 'al) contents = "nat \<Rightarrow> ('al \<times> (nat \<times> 'a) list) option"

definition ring :: "nat \<Rightarrow> nat list \<Rightarrow> link list" where
  "ring i as = Sentinel i # map Node as @ [Sentinel i]"

definition vals_ok :: "('a, 'al) list_traits \<Rightarrow> ('a, 'al) list_memory \<Rightarrow> 'al \<Rightarrow> (nat \<times> 'a) list \<Rightarrow> bool" where
  "vals_ok T w al xs \<longleftrightarrow> (\<forall>(a, v)\<in>set xs. \<exists>bl. val w (Node a) = Some (Some v, Some bl) \<and> alloc_eq T bl al)"

definition list_ok :: "('a, 'al) list_traits \<Rightarrow> ('a, 'al) list_memory \<Rightarrow> nat \<Rightarrow> ('al \<times> (nat \<times> 'a) list) option \<Rightarrow> bool" where
  "list_ok T w i X \<longleftrightarrow>
     (case X of
        None \<Rightarrow> lm_objects w i = None \<and> val w (Sentinel i) = None
      | Some (al, xs) \<Rightarrow>
          lm_objects w i = Some \<lparr>lo_size = length xs, lo_alloc = al\<rparr> \<and>
          path w (ring i (map fst xs)) \<and> distinct (map fst xs) \<and>
          val w (Sentinel i) = Some (None, None) \<and> vals_ok T w al xs)"

definition owned :: "('a, 'al) contents \<Rightarrow> nat \<Rightarrow> nat \<Rightarrow> bool" where
  "owned C i a \<longleftrightarrow> (\<exists>al xs. C i = Some (al, xs) \<and> a \<in> fst ` set xs)"

definition mem_ok :: "('a, 'al) list_traits \<Rightarrow> ('a, 'al) list_memory \<Rightarrow> ('a, 'al) contents \<Rightarrow> bool" where
  "mem_ok T w C \<longleftrightarrow> (\<forall>i. list_ok T w i (C i)) \<and> (\<forall>i j a. owned C i a \<and> owned C j a \<longrightarrow> i = j) \<and>
     (\<forall>a. live w (Node a) \<longrightarrow> (\<exists>i. owned C i a)) \<and> (\<forall>a. lm_fresh w \<le> a \<longrightarrow> \<not> live w (Node a))"

definition same_at :: "('a, 'al) list_memory \<Rightarrow> ('a, 'al) list_memory \<Rightarrow> link \<Rightarrow> bool" where
  "same_at w w' x \<longleftrightarrow> nxt w' x = nxt w x \<and> prv w' x = prv w x \<and> val w' x = val w x"

lemma set_ring [simp]: "set (ring i as) = insert (Sentinel i) (Node ` set as)"
  by (auto simp: ring_def)

lemma vals_cong:
  assumes "\<And>a. a \<in> fst ` set xs \<Longrightarrow> val w' (Node a) = val w (Node a)"
  shows "vals_ok T w' al xs = vals_ok T w al xs"
proof -
  have "val w' (Node (fst p)) = val w (Node (fst p))" if "p \<in> set xs" for p using assms that by blast
  then show ?thesis unfolding vals_ok_def by (intro ball_cong) (auto split: prod.splits)
qed

lemma list_ok_frame:
  assumes "list_ok T w i X" and "lm_objects w' i = lm_objects w i" and "same_at w w' (Sentinel i)"
    and "\<And>al xs a. X = Some (al, xs) \<Longrightarrow> a \<in> fst ` set xs \<Longrightarrow> same_at w w' (Node a)"
  shows "list_ok T w' i X"
proof (cases X)
  case None
  then show ?thesis using assms by (auto simp: list_ok_def same_at_def)
next
  case (Some p)
  obtain al xs where X: "X = Some (al, xs)" using Some by (cases p) auto
  have same: "same_at w w' x" if "x \<in> set (ring i (map fst xs))" for x
    using that assms(3) assms(4) [OF X] by auto
  then have "path w' (ring i (map fst xs)) = path w (ring i (map fst xs))"
    by (intro path_cong) (auto simp: same_at_def ring_def butlast_append)
  moreover have "vals_ok T w' al xs = vals_ok T w al xs"
    using same by (intro vals_cong) (simp add: same_at_def)
  ultimately show ?thesis using assms X same [of "Sentinel i"] by (simp add: list_ok_def same_at_def)
qed

lemma owned_live:
  assumes "mem_ok T w C" "owned C i a"
  shows "live w (Node a)" and "a < lm_fresh w"
proof -
  obtain al xs where "C i = Some (al, xs)" "a \<in> fst ` set xs" using assms(2) by (auto simp: owned_def)
  moreover from this have "vals_ok T w al xs" using assms(1) unfolding mem_ok_def list_ok_def by (metis (no_types, lifting) case_prod_conv option.simps(5))
  ultimately show "live w (Node a)" by (force simp: vals_ok_def intro: val_live)
  then show "a < lm_fresh w" using assms(1) by (meson linorder_not_le mem_ok_def)
qed

text \<open>A change of the lists \<open>I\<close>, of the nodes they had and of new ones.\<close>

lemma mem_ok_change:
  assumes ok: "mem_ok T w C"
    and out: "\<And>j. j \<notin> I \<Longrightarrow> lm_objects w' j = lm_objects w j \<and> C' j = C j \<and> same_at w w' (Sentinel j)"
    and same: "\<And>a. a < lm_fresh w \<Longrightarrow> \<forall>i\<in>I. \<not> owned C i a \<Longrightarrow> same_at w w' (Node a)"
    and lists: "\<And>i. i \<in> I \<Longrightarrow> list_ok T w' i (C' i)"
    and addrs: "\<And>i a. i \<in> I \<Longrightarrow> owned C' i a \<Longrightarrow> lm_fresh w \<le> a \<or> (\<exists>j\<in>I. owned C j a)"
    and disj: "\<And>i j a. i \<in> I \<Longrightarrow> j \<in> I \<Longrightarrow> owned C' i a \<Longrightarrow> owned C' j a \<Longrightarrow> i = j"
    and cov: "\<And>a. live w' (Node a) \<Longrightarrow> lm_fresh w \<le> a \<or> (\<exists>j\<in>I. owned C j a) \<Longrightarrow> \<exists>i\<in>I. owned C' i a"
    and fresh: "\<And>a. lm_fresh w' \<le> a \<Longrightarrow> \<not> live w' (Node a)"
  shows "mem_ok T w' C'"
proof -
  have old: "owned C j a" if "owned C' j a" "j \<notin> I" for j a using that out [of j] by (simp add: owned_def)
  have uniq: "i = j" if "owned C i a" "owned C j a" for i j a using ok that by (auto simp: mem_ok_def)
  have "list_ok T w' j (C' j)" for j
  proof (cases "j \<in> I")
    case False
    have "same_at w w' (Node a)" if "C j = Some (al, xs)" "a \<in> fst ` set xs" for al xs a
    proof -
      have "owned C j a" using that by (auto simp: owned_def)
      then show ?thesis using same owned_live(2) [OF ok] uniq False by blast
    qed
    moreover have "list_ok T w j (C j)" using ok by (simp add: mem_ok_def)
    ultimately have "list_ok T w' j (C j)" using out [OF False] by (elim list_ok_frame) simp_all
    then show ?thesis using out [OF False] by simp
  qed (rule lists)
  moreover have "i = j" if "owned C' i a" "owned C' j a" for i j a
  proof -
    consider "i \<in> I" "j \<in> I" | "i \<in> I" "j \<notin> I" | "i \<notin> I" "j \<in> I" | "i \<notin> I" "j \<notin> I" by blast
    then show ?thesis
      by cases (use that disj old uniq addrs owned_live(2) [OF ok] linorder_not_le in metis)+
  qed
  moreover have "\<exists>i. owned C' i a" if "live w' (Node a)" for a
  proof (cases "lm_fresh w \<le> a \<or> (\<exists>j\<in>I. owned C j a)")
    case False
    then have "live w (Node a)" using same [of a] that by (auto simp: same_at_def live_def)
    then obtain i where i: "owned C i a" using ok by (auto simp: mem_ok_def)
    then have "i \<notin> I" using False by blast
    then have "owned C' i a" using i out [of i] by (simp add: owned_def)
    then show ?thesis by blast
  qed (use cov that in blast)
  ultimately show ?thesis using fresh unfolding mem_ok_def by blast
qed

lemma mem_ok_list: "mem_ok T w C \<Longrightarrow> C i = Some (al, xs) \<Longrightarrow> list_ok T w i (Some (al, xs))"
  unfolding mem_ok_def by metis

lemma mem_ok_none:
  assumes "mem_ok T w C" "C i = None"
  shows "lm_objects w i = None \<and> val w (Sentinel i) = None"
proof -
  have "list_ok T w i (C i)" using assms(1) by (simp only: mem_ok_def)
  then show ?thesis using assms(2) by (simp add: list_ok_def)
qed

lemma mem_ok_fresh: "mem_ok T w C \<Longrightarrow> lm_fresh w \<le> a \<Longrightarrow> \<not> live w (Node a) \<and> \<not> owned C i a"
  using owned_live(2) by (metis linorder_not_le mem_ok_def)

section \<open>A new node\<close>

definition list_throws :: "list_exn \<Rightarrow> bool" where
  "list_throws e \<longleftrightarrow> e = L_Bad_Alloc \<or> e = L_Thrown"

lemma plan_simps [simp]:
  "nxt (w\<lparr>lm_plan := p\<rparr>) = nxt w" "prv (w\<lparr>lm_plan := p\<rparr>) = prv w" "val (w\<lparr>lm_plan := p\<rparr>) = val w"
  "live (w\<lparr>lm_plan := p\<rparr>) = live w"
  by (simp_all add: nxt_def prv_def val_def live_def fun_eq_iff)

lemma spec_outcome:
  assumes "\<And>d p. Q d (w\<lparr>lm_plan := p\<rparr>)"
  shows "l_spec l_outcome w Q E"
proof (cases "lm_plan w")
  case Nil
  have "w\<lparr>lm_plan := []\<rparr> = w" using Nil by (cases w) simp
  then have "Q Created w" using assms [of Created "[]"] by (simp only:)
  then show ?thesis using Nil by (simp add: l_spec_def l_outcome_def l_return_def)
qed (use assms in \<open>simp add: l_spec_def l_outcome_def l_return_def\<close>)

text \<open>Two memories that a reader of links, values and objects cannot tell apart, but for the nodes of \<open>A\<close>.\<close>

definition same_but :: "link set \<Rightarrow> ('a, 'al) list_memory \<Rightarrow> ('a, 'al) list_memory \<Rightarrow> bool" where
  "same_but A w w' \<longleftrightarrow> (\<forall>x. x \<notin> A \<longrightarrow> same_at w w' x)"

lemma same_but_trans: "same_but A w v \<Longrightarrow> same_but A v u \<Longrightarrow> same_but A w u"
  by (simp add: same_but_def same_at_def)

lemma mem_ok_same:
  assumes "mem_ok T w C" "lm_objects w' = lm_objects w" "lm_fresh w \<le> lm_fresh w'" "\<And>x. same_at w w' x"
  shows "mem_ok T w' C"
proof (rule mem_ok_change [OF assms(1), of "{}"])
  show "\<not> live w' (Node a)" if "lm_fresh w' \<le> a" for a
    using mem_ok_fresh [OF assms(1), of a] assms(3,4) that by (simp add: live_def same_at_def)
  show "\<exists>i\<in>{}. owned C i a" if "live w' (Node a)" "lm_fresh w \<le> a \<or> (\<exists>j\<in>{}. owned C j a)" for a
    using mem_ok_fresh [OF assms(1), of a] assms(4) that by (simp add: live_def same_at_def)
qed (use assms in auto)

definition created :: "nat \<Rightarrow> 'a \<Rightarrow> 'al \<Rightarrow> ('a, 'al) list_memory \<Rightarrow> ('a, 'al) list_memory \<Rightarrow> bool" where
  "created a v al w w' \<longleftrightarrow> a = lm_fresh w \<and> same_but {Node a} w w' \<and> live w' (Node a) \<and>
     val w' (Node a) = Some (Some v, Some al) \<and> lm_objects w' = lm_objects w \<and> lm_fresh w' = Suc a"

lemma create_node_spec:
  assumes ok: "mem_ok T w C" and C: "C i = Some (al, xs)"
  shows "l_spec (create_node T i v) w (\<lambda>r w'. r = Node (lm_fresh w) \<and> created (lm_fresh w) v al w w')
    (\<lambda>e w'. list_throws e \<and> mem_ok T w' C)"
proof -
  have ob: "lm_objects w i = Some \<lparr>lo_size = length xs, lo_alloc = al\<rparr>"
    using mem_ok_list [OF ok C] by (simp add: list_ok_def)
  define a where "a = lm_fresh w"
  define new where "new p = w\<lparr>lm_plan := p, lm_fresh := Suc a, lm_nodes := (lm_nodes w)(Node a \<mapsto>
    \<lparr>ln_prev = Node a, ln_next = Node a, ln_value = None, ln_alloc = Some al\<rparr>)\<rparr>" for p
  have alloc: "l_spec (allocate i) (w\<lparr>lm_plan := p\<rparr>) Q E \<longleftrightarrow> Q a (new p)" for p Q E
    using ob by (simp add: allocate_def) (simp add: l_spec_def l_return_def new_def a_def)
  have fresh: "\<not> live w (Node a)" using mem_ok_fresh [OF ok, of a] by (simp add: a_def)
  have new: "live (new p) (Node a)" "val (new p) (Node a) = Some (None, Some al)" "lm_objects (new p) = lm_objects w"
    "lm_fresh (new p) = Suc a" "lm_objects (new p) i = Some \<lparr>lo_size = length xs, lo_alloc = al\<rparr>"
    "\<And>x. x \<noteq> Node a \<Longrightarrow> same_at w (new p) x" for p
    using ob by (auto simp: new_def live_def val_def same_at_def nxt_def prv_def)
  have gone: "nxt w (Node a) = None" "prv w (Node a) = None" "val w (Node a) = None"
    using fresh by (auto simp: live_def val_def nxt_def prv_def)
  have undo: "mem_ok T (free_link (Node a) (new p)) C" for p
  proof (rule mem_ok_same [OF ok])
    show "same_at w (free_link (Node a) (new p)) x" for x
      using new(6) [of x] gone by (cases "x = Node a") (simp_all add: same_at_def)
  qed (simp_all add: new a_def)
  have dealloc: "l_spec (deallocate T i (Node a)) (new p) Q E \<longleftrightarrow> Q () (free_link (Node a) (new p))" for p Q E
    using new(5) [of p] by (simp add: deallocate_def spec_node new)
      (auto simp: new_def l_spec_def l_return_def free_link_def alloc_eq_def)
  have build: "created a v al w (upd (Node a) (\<lambda>n. n\<lparr>ln_prev := Node a, ln_next := Node a, ln_value := Some v\<rparr>) (new p))" for p
  proof -
    have "same_at w (upd (Node a) f (new p)) x" if "x \<noteq> Node a" for f x
      using new(6) [OF that, of p] that by (auto simp: same_at_def upd_def nxt_def prv_def val_def)
    moreover have "val (upd (Node a) (\<lambda>n. n\<lparr>ln_prev := Node a, ln_next := Node a, ln_value := Some v\<rparr>) (new p)) (Node a) = Some (Some v, Some al)"
      by (simp add: new_def upd_def val_def)
    ultimately show ?thesis using new by (simp add: created_def same_but_def a_def)
  qed
  show ?thesis
    unfolding create_node_def spec_bind a_def [symmetric]
    by (rule spec_outcome) (auto simp: alloc dealloc new build undo list_throws_def intro: mem_ok_same [OF ok] simp: same_at_def)
qed

section \<open>Positions\<close>

definition at :: "nat \<Rightarrow> (nat \<times> 'a) list \<Rightarrow> link" where
  "at i ys = hd (map (\<lambda>p. Node (fst p)) ys @ [Sentinel i])"

definition before :: "nat \<Rightarrow> (nat \<times> 'a) list \<Rightarrow> link" where
  "before i xs = last (Sentinel i # map (\<lambda>p. Node (fst p)) xs)"

lemma at_simps [simp]: "at i [] = Sentinel i" "at i (p # ys) = Node (fst p)"
  by (simp_all add: at_def)

lemma before_simps [simp]: "before i [] = Sentinel i" "before i (xs @ [p]) = Node (fst p)"
  by (simp_all add: before_def)

lemma at_iff: "at i ys = Sentinel i \<longleftrightarrow> ys = []"
  by (cases ys) simp_all

lemma at_cases: "at i ys = Sentinel i \<or> (\<exists>a\<in>fst ` set ys. at i ys = Node a)"
  by (cases ys) auto

lemma before_cases: "before i xs = Sentinel i \<or> (\<exists>a\<in>fst ` set xs. before i xs = Node a)"
  by (cases xs rule: rev_cases) auto

lemma at_not: "c \<notin> fst ` set ys \<Longrightarrow> at i ys \<noteq> Node c"
  by (cases ys) auto

lemma before_not: "c \<notin> fst ` set xs \<Longrightarrow> before i xs \<noteq> Node c"
  by (cases xs rule: rev_cases) auto

lemma ring_split:
  "ring i (map fst (xs @ ys)) = butlast (Sentinel i # map Node (map fst xs)) @
     before i xs # at i ys # tl (map Node (map fst ys) @ [Sentinel i])"
  by (cases xs rule: rev_cases; cases ys) (auto simp: ring_def butlast_append)

lemma ring_distinct: "distinct as \<Longrightarrow> distinct (butlast (ring i as)) \<and> distinct (tl (ring i as))"
  by (auto simp: ring_def butlast_append distinct_map inj_on_def)

lemma path_mid:
  assumes "path w (ls @ p # q # rs)"
  shows "nxt w p = Some q" "prv w q = Some p"
  using assms path_append [of w ls p "q # rs"] by simp_all

lemma list_ok_mid:
  assumes "list_ok T w i (Some (al, xs @ ys))"
  shows "nxt w (before i xs) = Some (at i ys)" "prv w (at i ys) = Some (before i xs)"
proof -
  have "path w (ring i (map fst (xs @ ys)))" using assms by (simp only: list_ok_def option.case prod.case)
  from this [unfolded ring_split] show "nxt w (before i xs) = Some (at i ys)" "prv w (at i ys) = Some (before i xs)"
    by (rule path_mid)+
qed

lemma list_ok_begin: "list_ok T w i (Some (al, xs)) \<Longrightarrow> nxt w (Sentinel i) = Some (at i xs)"
  using list_ok_mid(1) [of T w i al "[]" xs] by simp

lemma list_ok_last: "list_ok T w i (Some (al, xs)) \<Longrightarrow> prv w (Sentinel i) = Some (before i xs)"
  using list_ok_mid(2) [of T w i al xs "[]"] by simp

lemma list_ok_next: "list_ok T w i (Some (al, xs @ p # ys)) \<Longrightarrow> nxt w (Node (fst p)) = Some (at i ys)"
  using list_ok_mid(1) [of T w i al "xs @ [p]" ys] by simp

lemma list_ok_object: "list_ok T w i (Some (al, xs)) \<Longrightarrow> lm_objects w i = Some \<lparr>lo_size = length xs, lo_alloc = al\<rparr>"
  by (simp add: list_ok_def)

lemma list_ok_val:
  assumes "list_ok T w i (Some (al, xs))" "p \<in> set xs"
  shows "\<exists>bl. val w (Node (fst p)) = Some (Some (snd p), Some bl) \<and> alloc_eq T bl al"
  using assms by (auto simp: list_ok_def vals_ok_def)

text \<open>A node put between two others: the links of the list, in a memory that has the node.\<close>

lemma link_list_ok:
  assumes ok: "list_ok T w i (Some (al, xs @ ys))" and c: "c \<notin> fst ` set (xs @ ys)" "live w (Node c)"
    "val w (Node c) = Some (Some v, Some al)"
    and w': "w' = upd_object i (\<lambda>b. b\<lparr>lo_size := lo_size b + 1\<rparr>) (upd_prev (at i ys) (Node c)
      (upd_next (before i xs) (Node c) (upd_prev (Node c) (before i xs) (upd_next (Node c) (at i ys) w))))"
  shows "list_ok T w' i (Some (al, xs @ (c, v) # ys))"
proof -
  define ls where "ls = butlast (Sentinel i # map Node (map fst xs))"
  define rs where "rs = tl (map Node (map fst ys) @ [Sentinel i])"
  have r: "ring i (map fst (xs @ ys)) = ls @ before i xs # at i ys # rs" by (simp only: ring_split ls_def rs_def)
  have r': "ring i (map fst (xs @ (c, v) # ys)) = ls @ before i xs # Node c # at i ys # rs"
    using ring_split [of i xs "(c, v) # ys"] by (cases ys) (simp_all add: ls_def rs_def)
  have d: "distinct (map fst (xs @ ys))" and p: "path w (ls @ before i xs # at i ys # rs)"
    using ok by (simp_all only: list_ok_def option.case prod.case r)
  have alive: "live w (before i xs)" "live w (at i ys)"
    using list_ok_mid [OF ok] by (blast intro: nxt_live prv_live)+
  have out: "Node c \<noteq> before i xs" "Node c \<noteq> at i ys"
    using before_not [of c xs i] at_not [of c ys i] c(1) unfolding set_append image_Un Un_iff by metis+
  have "path w' (ls @ before i xs # Node c # at i ys # rs)"
  proof (rule path_insert [OF p])
    show "distinct (butlast (ls @ before i xs # at i ys # rs))" "distinct (tl (ls @ before i xs # at i ys # rs))"
      using ring_distinct [OF d, of i] by (simp_all only: r)
    have "Node c \<notin> set (ring i (map fst (xs @ ys)))" using c(1) by auto
    then show "Node c \<notin> set (ls @ before i xs # at i ys # rs)" unfolding r .
  qed (use alive c out in \<open>auto simp: w'\<close>)
  moreover have "vals_ok T w' al (xs @ (c, v) # ys)" "val w' (Sentinel i) = Some (None, None)"
    using ok c by (auto simp: list_ok_def vals_ok_def w' alloc_eq_def)
  moreover have "distinct (map fst (xs @ (c, v) # ys))" using d c(1) by auto
  moreover have "lm_objects w' i = Some \<lparr>lo_size = length (xs @ (c, v) # ys), lo_alloc = al\<rparr>"
    using ok by (simp add: list_ok_def w')
  ultimately show ?thesis by (simp only: list_ok_def option.case prod.case r' simp_thms)
qed

end
