(* ===== verification/Sentinel_List_Correct.thy ===== *)
theory Sentinel_List_Correct
  imports Sentinel_Links
begin

text \<open>
  What every operation of \<open>ds::List\<close> does to the lists of values of a memory, in terms of the invariant
  \<open>mem_ok\<close> of \<open>Sentinel_Links\<close>: the \<open>_spec\<close> lemmas give the lists after a return and after an exception.
\<close>

section \<open>Insertion\<close>

lemma list_ok_created:
  assumes ok: "mem_ok T w C" and C: "C i = Some (al, xs)" and new: "created (lm_fresh w) v bl w w'"
  shows "list_ok T w' i (Some (al, xs))"
proof (rule list_ok_frame [OF mem_ok_list [OF ok C]])
  show "same_at w w' (Node a)" if "Some (al, xs) = Some (bl, ys)" "a \<in> fst ` set ys" for a bl and ys :: "(nat \<times> 'a) list"
  proof -
    have "owned C i a" using C that by (auto simp: owned_def)
    then have "a \<noteq> lm_fresh w" using owned_live(2) [OF ok] by force
    then show ?thesis using new by (simp add: created_def same_but_def)
  qed
qed (use new in \<open>simp_all add: created_def same_but_def\<close>)

lemma link_before_spec:
  assumes ok: "list_ok T w i (Some (al, xs @ ys))" and c: "c \<notin> fst ` set (xs @ ys)" "live w (Node c)"
  shows "l_spec (link_before i (at i ys) (Node c)) w Q E \<longleftrightarrow>
    Q () (upd_object i (\<lambda>b. b\<lparr>lo_size := lo_size b + 1\<rparr>) (upd_prev (at i ys) (Node c)
      (upd_next (before i xs) (Node c) (upd_prev (Node c) (before i xs) (upd_next (Node c) (at i ys) w)))))"
proof -
  have alive: "live w (before i xs)" "live w (at i ys)"
    using list_ok_mid [OF ok] by (blast intro: nxt_live prv_live)+
  have out: "at i ys \<noteq> Node c"
    using at_not [of c ys i] c(1) unfolding set_append image_Un Un_iff by metis
  have ob: "lm_objects w i = Some \<lparr>lo_size = length (xs @ ys), lo_alloc = al\<rparr>" using list_ok_object [OF ok] .
  show ?thesis
    using alive out c list_ok_mid(2) [OF ok] ob by (simp add: link_before_def)
qed

lemma list_emplace_spec:
  assumes ok: "mem_ok T w C" and C: "C i = Some (al, xs @ ys)"
  shows "l_spec (li_emplace T i (at i ys) v) w
    (\<lambda>r w'. r = Node (lm_fresh w) \<and> mem_ok T w' (C(i \<mapsto> (al, xs @ (lm_fresh w, v) # ys))))
    (\<lambda>e w'. list_throws e \<and> mem_ok T w' C)"
proof -
  define a where "a = lm_fresh w"
  have a: "a \<notin> fst ` set (xs @ ys)" using mem_ok_fresh [OF ok, of a i] C by (auto simp: owned_def a_def)
  have "l_spec (link_before i (at i ys) (Node a)) w'
      (\<lambda>_ u. mem_ok T u (C(i \<mapsto> (al, xs @ (a, v) # ys)))) E" if new: "created a v al w w'" for w' E
  proof -
    have list: "list_ok T w' i (Some (al, xs @ ys))" using list_ok_created [OF ok C] new by (simp add: a_def)
    have node: "live w' (Node a)" "val w' (Node a) = Some (Some v, Some al)" "lm_objects w' = lm_objects w"
      "lm_fresh w' = Suc a" and same: "\<And>x. x \<noteq> Node a \<Longrightarrow> same_at w w' x"
      using new by (auto simp: created_def same_but_def)
    define u where "u = upd_object i (\<lambda>b. b\<lparr>lo_size := lo_size b + 1\<rparr>) (upd_prev (at i ys) (Node a)
      (upd_next (before i xs) (Node a) (upd_prev (Node a) (before i xs) (upd_next (Node a) (at i ys) w'))))"
    have touched: "z = Node a \<or> z = Sentinel i \<or> (\<exists>b. owned C i b \<and> z = Node b)"
      if "\<not> same_at w u z" for z
    proof (rule ccontr)
      assume no: "\<not> ?thesis"
      then have "z \<noteq> at i ys" "z \<noteq> before i xs"
        using at_cases [of i ys] before_cases [of i xs] C by (auto simp: owned_def image_Un)
      then show False using that no same [of z] by (simp add: u_def same_at_def)
    qed
    have "mem_ok T u (C(i \<mapsto> (al, xs @ (a, v) # ys)))"
    proof (rule mem_ok_change [OF ok, of "{i}"])
      show "lm_objects u j = lm_objects w j \<and> (C(i \<mapsto> (al, xs @ (a, v) # ys))) j = C j \<and> same_at w u (Sentinel j)"
        if "j \<notin> {i}" for j using that touched [of "Sentinel j"] node by (auto simp: u_def)
      show "same_at w u (Node b)" if "b < lm_fresh w" "\<forall>k\<in>{i}. \<not> owned C k b" for b
        using that touched [of "Node b"] by (auto simp: a_def)
      show "list_ok T u j ((C(i \<mapsto> (al, xs @ (a, v) # ys))) j)" if "j \<in> {i}" for j
        using that link_list_ok [OF list a node(1,2) u_def] by simp
      show "lm_fresh w \<le> b \<or> (\<exists>j\<in>{i}. owned C j b)" if "j \<in> {i}" "owned (C(i \<mapsto> (al, xs @ (a, v) # ys))) j b" for j b
        using that C by (auto simp: owned_def a_def)
      show "\<exists>j\<in>{i}. owned (C(i \<mapsto> (al, xs @ (a, v) # ys))) j b"
        if "live u (Node b)" "lm_fresh w \<le> b \<or> (\<exists>j\<in>{i}. owned C j b)" for b
      proof (cases "b = a")
        case False
        then have "live w (Node b)" using that(1) same [of "Node b"] by (simp add: u_def live_def same_at_def)
        then have "owned C i b" using that(2) mem_ok_fresh [OF ok] by blast
        then show ?thesis using C by (auto simp: owned_def)
      qed (auto simp: owned_def)
      show "\<not> live u (Node b)" if "lm_fresh u \<le> b" for b
        using that mem_ok_fresh [OF ok, of b] same [of "Node b"] node(4) by (auto simp: u_def a_def live_def same_at_def)
    qed auto
    then show ?thesis by (simp add: link_before_spec [OF list a node(1)] u_def)
  qed
  then show ?thesis
    unfolding li_emplace_def spec_bind by (intro spec_mono [OF create_node_spec [OF ok C]]) (simp_all add: a_def)
qed

section \<open>Removal\<close>

lemma unlink_spec:
  assumes "nxt w x = Some q" "prv w x = Some p" "live w p" "live w q" "x \<noteq> p" "x \<noteq> q"
  shows "l_spec (unlink x) w Q E \<longleftrightarrow> Q () (upd_prev q p (upd_next p q w))"
proof -
  obtain n where n: "lm_nodes w x = Some n" "ln_next n = q" "ln_prev n = p"
    using assms(1,2) by (auto simp: nxt_def prv_def)
  moreover have "lm_nodes (upd_next p q w) x = Some n" using assms n by (simp add: upd_def)
  ultimately show ?thesis
    using assms n by (simp add: unlink_def spec_node nxt_live)
qed

lemma destroy_spec:
  assumes "lm_objects w i = Some b" "val w x = Some (Some v, Some bl)" "alloc_eq T bl (lo_alloc b)"
  shows "l_spec (destroy_node T i x) w Q E \<longleftrightarrow> Q () (free_link x w)"
proof -
  obtain n where n: "lm_nodes w x = Some n" "ln_value n = Some v" "ln_alloc n = Some bl"
    using assms(2) by (auto simp: val_def)
  have "l_spec (deallocate T i x) (upd_value x None w) Q E \<longleftrightarrow> Q () (free_link x w)"
    using n assms(1,3) by (auto simp: deallocate_def l_spec_def l_bind_def l_object_def l_node_def l_return_def upd_def free_link_def)
  then show ?thesis using assms(2) by (simp add: destroy_node_def val_live)
qed

lemma list_ok_remove:
  assumes ok: "list_ok T w i (Some (al, xs @ (c, v) # ys))"
    and w': "w' = upd_object i (\<lambda>b. b\<lparr>lo_size := lo_size b - 1\<rparr>) (free_link (Node c)
      (upd_prev (at i ys) (before i xs) (upd_next (before i xs) (at i ys) w)))"
  shows "list_ok T w' i (Some (al, xs @ ys))"
proof -
  define ls where "ls = butlast (Sentinel i # map Node (map fst xs))"
  define rs where "rs = tl (map Node (map fst ys) @ [Sentinel i])"
  have r': "ring i (map fst (xs @ ys)) = ls @ before i xs # at i ys # rs" by (simp only: ring_split ls_def rs_def)
  have r: "ring i (map fst (xs @ (c, v) # ys)) = ls @ before i xs # Node c # at i ys # rs"
    using ring_split [of i xs "(c, v) # ys"] by (cases ys) (simp_all add: ls_def rs_def)
  have d: "distinct (map fst (xs @ (c, v) # ys))" and p: "path w (ls @ before i xs # Node c # at i ys # rs)"
    using ok by (simp_all only: list_ok_def option.case prod.case r)
  have c: "c \<notin> fst ` set xs" "c \<notin> fst ` set ys" using d by auto
  have alive: "live w (before i xs)" "live w (at i ys)"
    using list_ok_mid(1) [of T w i al xs "(c, v) # ys"] list_ok_mid(2) [of T w i al "xs @ [(c, v)]" ys] ok
    by (auto intro: nxt_live prv_live)
  have "path w' (ls @ before i xs # at i ys # rs)"
  proof (rule path_remove [OF p])
    show "distinct (butlast (ls @ before i xs # Node c # at i ys # rs))" "distinct (tl (ls @ before i xs # Node c # at i ys # rs))"
      using ring_distinct [OF d, of i] by (simp_all only: r)
    have "set ls \<subseteq> set (Sentinel i # map Node (map fst xs))" unfolding ls_def by (meson in_set_butlastD subsetI)
    moreover have "set rs \<subseteq> set (map Node (map fst ys) @ [Sentinel i])" unfolding rs_def by (cases ys) auto
    ultimately show "Node c \<notin> set ls" "Node c \<notin> set rs" using c by auto
  qed (use alive before_not [OF c(1), of i] at_not [OF c(2), of i] in \<open>auto simp: w'\<close>)
  moreover have "vals_ok T w' al (xs @ ys) = vals_ok T w al (xs @ ys)" using c by (intro vals_cong) (auto simp: w')
  then have "vals_ok T w' al (xs @ ys)" using ok by (simp add: list_ok_def vals_ok_def)
  moreover have "val w' (Sentinel i) = Some (None, None)" using ok by (simp add: list_ok_def w')
  moreover have "distinct (map fst (xs @ ys))" using d by auto
  moreover have "lm_objects w' i = Some \<lparr>lo_size = length (xs @ ys), lo_alloc = al\<rparr>"
    using ok by (simp add: list_ok_def w')
  ultimately show ?thesis by (simp only: list_ok_def option.case prod.case r' simp_thms)
qed

text \<open>A change of one list that takes no node from elsewhere.\<close>

lemma mem_ok_shrink:
  assumes ok: "mem_ok T w C" and C: "C i = Some (al, xs)"
    and touched: "\<And>z. z \<noteq> Sentinel i \<Longrightarrow> z \<notin> Node ` fst ` set xs \<Longrightarrow> same_at w u z"
    and obj: "\<And>j. j \<noteq> i \<Longrightarrow> lm_objects u j = lm_objects w j" and fresh: "lm_fresh u = lm_fresh w"
    and list: "list_ok T u i (Some (bl, ys))" and sub: "fst ` set ys \<subseteq> fst ` set xs"
    and gone: "\<And>b. b \<in> fst ` set xs \<Longrightarrow> live u (Node b) \<Longrightarrow> b \<in> fst ` set ys"
  shows "mem_ok T u (C(i \<mapsto> (bl, ys)))"
proof (rule mem_ok_change [OF ok, of "{i}"])
  have own: "owned C i b \<longleftrightarrow> b \<in> fst ` set xs" "owned (C(i \<mapsto> (bl, ys))) i b \<longleftrightarrow> b \<in> fst ` set ys" for b
    using C by (simp_all add: owned_def)
  show "lm_objects u j = lm_objects w j \<and> (C(i \<mapsto> (bl, ys))) j = C j \<and> same_at w u (Sentinel j)" if "j \<notin> {i}" for j
    using that obj touched [of "Sentinel j"] by auto
  show "same_at w u (Node b)" if "\<forall>k\<in>{i}. \<not> owned C k b" for b
    using that own touched [of "Node b"] by auto
  show "list_ok T u j ((C(i \<mapsto> (bl, ys))) j)" if "j \<in> {i}" for j using that list by simp
  show "lm_fresh w \<le> b \<or> (\<exists>k\<in>{i}. owned C k b)" if "j \<in> {i}" "owned (C(i \<mapsto> (bl, ys))) j b" for j b
    using that own sub by auto
  show "\<exists>j\<in>{i}. owned (C(i \<mapsto> (bl, ys))) j b" if "live u (Node b)" "lm_fresh w \<le> b \<or> (\<exists>j\<in>{i}. owned C j b)" for b
  proof (cases "b \<in> fst ` set xs")
    case False
    then have "same_at w u (Node b)" using touched [of "Node b"] by blast
    then have "live w (Node b)" using that(1) by (simp add: live_def same_at_def)
    then show ?thesis using that(2) False own mem_ok_fresh [OF ok] by blast
  qed (use that(1) gone own in blast)
  show "\<not> live u (Node b)" if "lm_fresh u \<le> b" for b
  proof -
    have "b \<notin> fst ` set xs" using mem_ok_fresh [OF ok, of b i] that own fresh by simp
    then have "same_at w u (Node b)" using touched [of "Node b"] by blast
    then show ?thesis using mem_ok_fresh [OF ok, of b i] that fresh by (simp add: live_def same_at_def)
  qed
qed simp

lemma erase_spec:
  assumes ok: "mem_ok T w C" and C: "C i = Some (al, xs @ (c, v) # ys)"
  shows "l_spec (li_erase T i (Node c)) w
    (\<lambda>r w'. r = at i ys \<and> mem_ok T w' (C(i \<mapsto> (al, xs @ ys)))) (\<lambda>_ _. False)"
proof -
  note list = mem_ok_list [OF ok C]
  have p: "prv w (Node c) = Some (before i xs)" "nxt w (before i xs) = Some (Node c)"
    using list_ok_mid [OF list] by simp_all
  have q: "nxt w (Node c) = Some (at i ys)" "prv w (at i ys) = Some (Node c)"
    using list_ok_mid [of T w i al "xs @ [(c, v)]" ys] list by simp_all
  have d: "c \<notin> fst ` set xs" "c \<notin> fst ` set ys" using list by (auto simp: list_ok_def)
  obtain bl where bl: "val w (Node c) = Some (Some v, Some bl)" "alloc_eq T bl al"
    using list_ok_val [OF list, of "(c, v)"] by auto
  define u where "u = upd_object i (\<lambda>b. b\<lparr>lo_size := lo_size b - 1\<rparr>) (free_link (Node c)
      (upd_prev (at i ys) (before i xs) (upd_next (before i xs) (at i ys) w)))"
  have "mem_ok T u (C(i \<mapsto> (al, xs @ ys)))"
  proof (rule mem_ok_shrink [OF ok C])
    show "list_ok T u i (Some (al, xs @ ys))" using list_ok_remove [OF list u_def] .
    show "same_at w u z" if "z \<noteq> Sentinel i" "z \<notin> Node ` fst ` set (xs @ (c, v) # ys)" for z
    proof -
      have "z \<noteq> at i ys" "z \<noteq> before i xs" "z \<noteq> Node c"
        using that at_cases [of i ys] before_cases [of i xs] by auto
      then show ?thesis by (simp add: u_def same_at_def)
    qed
  qed (auto simp: u_def)
  then show ?thesis
    using p q d bl list_ok_object [OF list] before_not [OF d(1), of i] at_not [OF d(2), of i]
    by (simp add: li_erase_def unlink_spec destroy_spec nxt_live prv_live u_def)
qed

section \<open>Clearing\<close>

lemma spec_cong: "m w = n w \<Longrightarrow> l_spec m w Q E \<longleftrightarrow> l_spec n w Q E"
  by (simp add: l_spec_def)

definition free_all :: "(nat \<times> 'a) list \<Rightarrow> ('a, 'al) list_memory \<Rightarrow> ('a, 'al) list_memory" where
  "free_all ys = fold (\<lambda>p. free_link (Node (fst p))) ys"

lemma free_all_simps [simp]:
  "nxt (free_all ys w) z = (if z \<in> Node ` fst ` set ys then None else nxt w z)"
  "prv (free_all ys w) z = (if z \<in> Node ` fst ` set ys then None else prv w z)"
  "val (free_all ys w) z = (if z \<in> Node ` fst ` set ys then None else val w z)"
  "live (free_all ys w) z \<longleftrightarrow> z \<notin> Node ` fst ` set ys \<and> live w z"
  "lm_objects (free_all ys w) = lm_objects w" "lm_fresh (free_all ys w) = lm_fresh w"
  by (induction ys arbitrary: w) (auto simp: free_all_def)

lemma clear_loop_spec:
  assumes "path w (map (\<lambda>p. Node (fst p)) ys @ [Sentinel i])" "vals_ok T w (lo_alloc b) ys" "distinct (map fst ys)"
    "lm_objects w i = Some b"
  shows "l_spec (clear_loop T i (at i ys)) w Q E \<longleftrightarrow> Q () (free_all ys w)"
  using assms
proof (induction ys arbitrary: w)
  case Nil
  have "l_spec (clear_loop T i (Sentinel i)) w Q E \<longleftrightarrow> l_spec (l_return ()) w Q E"
    by (rule spec_cong) (simp add: clear_loop.simps)
  then show ?case by (simp add: free_all_def)
next
  case (Cons p ys)
  obtain a v where p: "p = (a, v)" by fastforce
  obtain bl where bl: "val w (Node a) = Some (Some v, Some bl)" "alloc_eq T bl (lo_alloc b)"
    using Cons.prems(2) p by (auto simp: vals_ok_def)
  have nx: "nxt w (Node a) = Some (at i ys)" using Cons.prems(1) p by (cases ys) auto
  let ?u = "free_link (Node a) w"
  have out: "a \<notin> fst ` set ys" using Cons.prems(3) p by auto
  have "path w (map (\<lambda>p. Node (fst p)) ys @ [Sentinel i])" using Cons.prems(1) p by (cases ys) auto
  moreover have "path ?u (map (\<lambda>p. Node (fst p)) ys @ [Sentinel i]) = path w (map (\<lambda>p. Node (fst p)) ys @ [Sentinel i])"
    using out by (intro path_cong) (auto simp: butlast_append dest!: list.set_sel(2) [rotated] split: if_splits)
  moreover have "vals_ok T ?u (lo_alloc b) ys = vals_ok T w (lo_alloc b) ys" using out by (intro vals_cong) auto
  then have "vals_ok T ?u (lo_alloc b) ys" using Cons.prems(2) by (simp add: vals_ok_def)
  ultimately have IH: "l_spec (clear_loop T i (at i ys)) ?u Q E \<longleftrightarrow> Q () (free_all ys ?u)"
    using Cons.prems by (intro Cons.IH) auto
  have "l_spec (clear_loop T i (at i (p # ys))) w Q E \<longleftrightarrow>
      l_spec (l_bind (it_next (Node a)) (\<lambda>next. l_then (destroy_node T i (Node a)) (clear_loop T i next))) w Q E"
    using p by (intro spec_cong) (subst clear_loop.simps, simp)
  also have "\<dots> \<longleftrightarrow> Q () (free_all ys ?u)"
    using nx Cons.prems(4) bl by (simp add: destroy_spec IH)
  finally show ?case using p by (simp add: free_all_def)
qed

lemma list_clear_spec:
  assumes ok: "mem_ok T w C" and C: "C i = Some (al, xs)"
  shows "l_spec (li_clear T i) w (\<lambda>_ w'. mem_ok T w' (C(i \<mapsto> (al, [])))) (\<lambda>_ _. False)"
proof -
  note list = mem_ok_list [OF ok C]
  define u where "u = upd_object i (\<lambda>b. b\<lparr>lo_size := 0\<rparr>) (upd_prev (Sentinel i) (Sentinel i)
    (upd_next (Sentinel i) (Sentinel i) (free_all xs w)))"
  have alive: "live w (Sentinel i)" using list_ok_begin [OF list] by (rule nxt_live)
  have s: "Sentinel i \<notin> Node ` fst ` set xs" by auto
  have "path w (ring i (map fst xs))" using list by (simp add: list_ok_def)
  then have "path w (map (\<lambda>p. Node (fst p)) xs @ [Sentinel i])" by (cases xs) (simp_all add: ring_def comp_def)
  then have loop: "l_spec (clear_loop T i (at i xs)) w Q E \<longleftrightarrow> Q () (free_all xs w)" for Q E
    using list by (intro clear_loop_spec) (auto simp: list_ok_def)
  have "mem_ok T u (C(i \<mapsto> (al, [])))"
  proof (rule mem_ok_shrink [OF ok C])
    show "list_ok T u i (Some (al, []))"
      using list alive s by (simp add: list_ok_def ring_def vals_ok_def u_def)
  qed (auto simp: u_def same_at_def)
  then show ?thesis
    using list_ok_begin [OF list] alive list_ok_object [OF list] s
    by (simp add: li_clear_def li_begin_next reset_empty_def set_size_def loop u_def)
qed

section \<open>The operations on one list\<close>

lemma push_back_spec:
  assumes ok: "mem_ok T w C" and C: "C i = Some (al, xs)"
  shows "l_spec (li_push_back T i v) w (\<lambda>_ w'. mem_ok T w' (C(i \<mapsto> (al, xs @ [(lm_fresh w, v)]))))
    (\<lambda>e w'. list_throws e \<and> mem_ok T w' C)"
  using list_emplace_spec [of T w C i al xs "[]" v] assms
  by (auto simp: li_push_back_def li_insert_def li_end_def elim!: spec_mono)

lemma push_front_spec:
  assumes ok: "mem_ok T w C" and C: "C i = Some (al, xs)"
  shows "l_spec (li_push_front T i v) w (\<lambda>_ w'. mem_ok T w' (C(i \<mapsto> (al, (lm_fresh w, v) # xs))))
    (\<lambda>e w'. list_throws e \<and> mem_ok T w' C)"
  using list_emplace_spec [of T w C i al "[]" xs v] assms list_ok_begin [OF mem_ok_list [OF ok C]]
  by (auto simp: li_push_front_def li_insert_def li_begin_next elim!: spec_mono)

lemma emplace_back_spec:
  assumes ok: "mem_ok T w C" and C: "C i = Some (al, xs)"
  shows "l_spec (li_emplace_back T i v) w (\<lambda>r w'. r = v \<and> mem_ok T w' (C(i \<mapsto> (al, xs @ [(lm_fresh w, v)]))))
    (\<lambda>e w'. list_throws e \<and> mem_ok T w' C)"
proof -
  have "l_spec (li_emplace T i (Sentinel i) v) w
      (\<lambda>r w'. r = Node (lm_fresh w) \<and> mem_ok T w' (C(i \<mapsto> (al, xs @ [(lm_fresh w, v)])))) (\<lambda>e w'. list_throws e \<and> mem_ok T w' C)"
    using list_emplace_spec [of T w C i al xs "[]" v] assms by simp
  then show ?thesis
    unfolding li_emplace_back_def spec_bind li_end_def
  proof (rule spec_mono)
    show "l_spec (it_value r) w' (\<lambda>r w'. r = v \<and> mem_ok T w' (C(i \<mapsto> (al, xs @ [(lm_fresh w, v)]))))
        (\<lambda>e w'. list_throws e \<and> mem_ok T w' C)"
      if r: "r = Node (lm_fresh w) \<and> mem_ok T w' (C(i \<mapsto> (al, xs @ [(lm_fresh w, v)])))" for r w'
    proof -
      have "list_ok T w' i (Some (al, xs @ [(lm_fresh w, v)]))" 
        using r by (intro mem_ok_list [where C = "C(i \<mapsto> (al, xs @ [(lm_fresh w, v)]))"]) auto
      from list_ok_val [OF this, of "(lm_fresh w, v)"] show ?thesis using r by auto
    qed
  qed
qed

lemma front_spec:
  assumes ok: "mem_ok T w C" and C: "C i = Some (al, xs)"
  shows "l_spec (li_front i) w (\<lambda>r w'. w' = w \<and> (\<exists>p ps. xs = p # ps \<and> r = snd p))
    (\<lambda>e w'. w' = w \<and> xs = [] \<and> e = L_Out_Of_Range ''List::front on empty list'')"
proof (cases xs)
  case (Cons p ps)
  then show ?thesis
    using list_ok_val [OF mem_ok_list [OF ok C], of p] list_ok_begin [OF mem_ok_list [OF ok C]]
      list_ok_object [OF mem_ok_list [OF ok C]]
    by (auto simp: li_front_def throw_if_empty_def li_empty_def li_size_def li_begin_next)
qed (use list_ok_object [OF mem_ok_list [OF ok C]] in \<open>simp add: li_front_def throw_if_empty_def li_empty_def li_size_def\<close>)

lemma back_spec:
  assumes ok: "mem_ok T w C" and C: "C i = Some (al, xs)"
  shows "l_spec (li_back i) w (\<lambda>r w'. w' = w \<and> (\<exists>p ps. xs = ps @ [p] \<and> r = snd p))
    (\<lambda>e w'. w' = w \<and> xs = [] \<and> e = L_Out_Of_Range ''List::back on empty list'')"
proof (cases xs rule: rev_cases)
  case (snoc ps p)
  then show ?thesis
    using list_ok_val [OF mem_ok_list [OF ok C], of p] list_ok_last [OF mem_ok_list [OF ok C]]
      list_ok_object [OF mem_ok_list [OF ok C]]
    by (auto simp: li_back_def throw_if_empty_def li_empty_def li_size_def li_end_def)
qed (use list_ok_object [OF mem_ok_list [OF ok C]] in \<open>simp add: li_back_def throw_if_empty_def li_empty_def li_size_def\<close>)

lemma pop_front_spec:
  assumes ok: "mem_ok T w C" and C: "C i = Some (al, xs)"
  shows "l_spec (li_pop_front T i) w (\<lambda>_ w'. xs \<noteq> [] \<and> mem_ok T w' (C(i \<mapsto> (al, tl xs))))
    (\<lambda>e w'. w' = w \<and> xs = [] \<and> e = L_Out_Of_Range ''List::pop_front on empty list'')"
proof (cases xs)
  case (Cons p ps)
  show ?thesis
    using erase_spec [of T w C i al "[]" "fst p" "snd p" ps] ok C Cons list_ok_begin [OF mem_ok_list [OF ok C]]
      list_ok_object [OF mem_ok_list [OF ok C]]
    by (auto simp: li_pop_front_def throw_if_empty_def li_empty_def li_size_def li_begin_next elim!: spec_mono)
qed (use list_ok_object [OF mem_ok_list [OF ok C]] in \<open>simp add: li_pop_front_def throw_if_empty_def li_empty_def li_size_def\<close>)

lemma list_pop_back_spec:
  assumes ok: "mem_ok T w C" and C: "C i = Some (al, xs)"
  shows "l_spec (li_pop_back T i) w (\<lambda>_ w'. xs \<noteq> [] \<and> mem_ok T w' (C(i \<mapsto> (al, butlast xs))))
    (\<lambda>e w'. w' = w \<and> xs = [] \<and> e = L_Out_Of_Range ''List::pop_back on empty list'')"
proof (cases xs rule: rev_cases)
  case (snoc ps p)
  show ?thesis
    using erase_spec [of T w C i al ps "fst p" "snd p" "[]"] ok C snoc list_ok_last [OF mem_ok_list [OF ok C]]
      list_ok_object [OF mem_ok_list [OF ok C]]
    by (auto simp: li_pop_back_def throw_if_empty_def li_empty_def li_size_def li_end_def elim!: spec_mono)
qed (use list_ok_object [OF mem_ok_list [OF ok C]] in \<open>simp add: li_pop_back_def throw_if_empty_def li_empty_def li_size_def\<close>)

lemma erase_range_spec:
  assumes "mem_ok T w C" "C i = Some (al, xs @ ms @ ys)"
  shows "l_spec (li_erase_range T i (at i (ms @ ys)) (at i ys)) w
    (\<lambda>r w'. r = at i ys \<and> mem_ok T w' (C(i \<mapsto> (al, xs @ ys)))) (\<lambda>_ _. False)"
  using assms
proof (induction ms arbitrary: w C)
  case Nil
  have "l_spec (li_erase_range T i (at i ys) (at i ys)) w Q E \<longleftrightarrow> Q (at i ys) w" for Q E
    by (subst spec_cong [of _ _ "l_return (at i ys)"]) (simp_all add: li_erase_range.simps)
  moreover have "C(i \<mapsto> (al, xs @ ys)) = C" using Nil by (auto simp: fun_eq_iff)
  ultimately show ?case using Nil by (simp only: append_Nil)
next
  case (Cons p ms)
  have "distinct (map fst (xs @ (p # ms) @ ys))" using mem_ok_list [OF Cons.prems] by (simp add: list_ok_def)
  then have ne: "at i ys \<noteq> Node (fst p)" by (intro at_not) auto
  have e: "l_spec (li_erase_range T i (at i ((p # ms) @ ys)) (at i ys)) w Q E \<longleftrightarrow>
      l_spec (l_bind (li_erase T i (Node (fst p))) (\<lambda>f. li_erase_range T i f (at i ys))) w Q E" for Q E
    using ne by (intro spec_cong) (subst li_erase_range.simps, auto)
  have "l_spec (li_erase T i (Node (fst p))) w
      (\<lambda>r w'. r = at i (ms @ ys) \<and> mem_ok T w' (C(i \<mapsto> (al, xs @ ms @ ys)))) (\<lambda>_ _. False)"
    using erase_spec [of T w C i al xs "fst p" "snd p" "ms @ ys"] Cons.prems by simp
  then show ?case
    unfolding e spec_bind
  proof (rule spec_mono)
    fix r w' assume r: "r = at i (ms @ ys) \<and> mem_ok T w' (C(i \<mapsto> (al, xs @ ms @ ys)))"
    show "l_spec (li_erase_range T i r (at i ys)) w' (\<lambda>r w'. r = at i ys \<and> mem_ok T w' (C(i \<mapsto> (al, xs @ ys)))) (\<lambda>_ _. False)"
      unfolding conjunct1 [OF r] by (rule Cons.IH [OF conjunct2 [OF r], unfolded fun_upd_upd]) simp
  qed
qed

lemma grow_step:
  assumes "\<exists>zs. P zs \<and> mem_ok T u (C(i \<mapsto> (al, xs @ [p]), i \<mapsto> (al, (xs @ [p]) @ zs)))"
  shows "\<exists>zs. zs \<noteq> [] \<and> P (tl zs) \<and> hd zs = p \<and> mem_ok T u (C(i \<mapsto> (al, xs @ zs)))"
  using assms unfolding fun_upd_upd by (metis append_Cons append_Nil append_assoc list.distinct(1) list.sel(1,3))

lemma grow_any:
  assumes "\<exists>zs. mem_ok T u (C(i \<mapsto> (al, xs @ [p]), i \<mapsto> (al, (xs @ [p]) @ zs)))"
  shows "\<exists>zs. mem_ok T u (C(i \<mapsto> (al, xs @ zs)))"
  using assms unfolding fun_upd_upd by (metis append_assoc)

lemma push_values_spec:
  assumes "mem_ok T w C" "C i = Some (al, xs)"
  shows "l_spec (push_values T i vs) w
    (\<lambda>_ w'. \<exists>zs. map snd zs = vs \<and> mem_ok T w' (C(i \<mapsto> (al, xs @ zs))))
    (\<lambda>e w'. list_throws e \<and> (\<exists>zs. mem_ok T w' (C(i \<mapsto> (al, xs @ zs)))))"
  using assms
proof (induction vs arbitrary: w C xs)
  case Nil
  moreover have "C(i \<mapsto> (al, xs @ [])) = C" using Nil by (auto simp: fun_eq_iff)
  ultimately have "mem_ok T w (C(i \<mapsto> (al, xs @ [])))" by (simp only:)
  then show ?case unfolding push_values.simps spec_return by (intro exI [of _ "[]"]) simp
next
  case (Cons v vs)
  have same: "C(i \<mapsto> (al, xs @ [])) = C" using Cons.prems by (auto simp: fun_eq_iff)
  show ?case
    unfolding push_values.simps spec_then
  proof (rule spec_mono [OF push_back_spec [OF Cons.prems]])
    show "l_spec (push_values T i vs) w' (\<lambda>_ u. \<exists>zs. map snd zs = v # vs \<and> mem_ok T u (C(i \<mapsto> (al, xs @ zs))))
        (\<lambda>e u. list_throws e \<and> (\<exists>zs. mem_ok T u (C(i \<mapsto> (al, xs @ zs)))))"
      if "mem_ok T w' (C(i \<mapsto> (al, xs @ [(lm_fresh w, v)])))" for w'
    proof -
      show ?thesis
      proof (rule spec_mono [OF Cons.IH [OF that, of "xs @ [(lm_fresh w, v)]"]])
        fix u assume "\<exists>zs. map snd zs = vs \<and> mem_ok T u (C(i \<mapsto> (al, xs @ [(lm_fresh w, v)]), i \<mapsto> (al, (xs @ [(lm_fresh w, v)]) @ zs)))"
        from grow_step [OF this] show "\<exists>zs. map snd zs = v # vs \<and> mem_ok T u (C(i \<mapsto> (al, xs @ zs)))"
          by (metis list.collapse list.simps(9) snd_conv)
      next
        fix e u assume "list_throws e \<and> (\<exists>zs. mem_ok T u (C(i \<mapsto> (al, xs @ [(lm_fresh w, v)]), i \<mapsto> (al, (xs @ [(lm_fresh w, v)]) @ zs))))"
        then show "list_throws e \<and> (\<exists>zs. mem_ok T u (C(i \<mapsto> (al, xs @ zs))))"
          by (intro conjI grow_any) (erule conjunct1, erule conjunct2)
      qed simp
    qed
    show "list_throws e \<and> (\<exists>zs. mem_ok T w' (C(i \<mapsto> (al, xs @ zs))))" if "list_throws e \<and> mem_ok T w' C" for e w'
      using that same by metis
  qed
qed

section \<open>Making and dropping a list\<close>

lemma new_spec:
  assumes ok: "mem_ok T w C" and C: "C i = None"
  shows "l_spec (li_new i al) w (\<lambda>_ w'. mem_ok T w' (C(i \<mapsto> (al, [])))) (\<lambda>_ _. False)"
proof -
  define u where "u = w\<lparr>lm_objects := (lm_objects w)(i \<mapsto> \<lparr>lo_size = 0, lo_alloc = al\<rparr>),
    lm_nodes := (lm_nodes w)(Sentinel i \<mapsto> \<lparr>ln_prev = Sentinel i, ln_next = Sentinel i, ln_value = None, ln_alloc = None\<rparr>)\<rparr>"
  have none: "lm_objects w i = None" using mem_ok_none [OF ok C] by simp
  have node: "same_at w u (Node a)" for a by (simp add: u_def same_at_def nxt_def prv_def val_def)
  have alive: "live u (Node a) \<longleftrightarrow> live w (Node a)" for a using node by (simp add: live_def same_at_def)
  have fresh: "lm_fresh u = lm_fresh w" by (simp add: u_def)
  have "mem_ok T u (C(i \<mapsto> (al, [])))"
  proof (rule mem_ok_change [OF ok, of "{i}"])
    show "lm_objects u j = lm_objects w j \<and> (C(i \<mapsto> (al, []))) j = C j \<and> same_at w u (Sentinel j)" if "j \<notin> {i}" for j
      using that by (simp add: u_def same_at_def nxt_def prv_def val_def)
    show "list_ok T u j ((C(i \<mapsto> (al, []))) j)" if "j \<in> {i}" for j
      using that by (simp add: u_def list_ok_def ring_def nxt_def prv_def val_def vals_ok_def)
    show "\<exists>j\<in>{i}. owned (C(i \<mapsto> (al, []))) j a" if "live u (Node a)" "lm_fresh w \<le> a \<or> (\<exists>j\<in>{i}. owned C j a)" for a
      using that mem_ok_fresh [OF ok, of a] C by (auto simp: alive owned_def)
    show "\<not> live u (Node a)" if "lm_fresh u \<le> a" for a
      using that fresh alive mem_ok_fresh [OF ok, of a] by simp
  qed (use node in \<open>auto simp: owned_def\<close>)
  then show ?thesis using none by (simp add: l_spec_def li_new_def l_return_def u_def)
qed

lemma drop_spec:
  assumes ok: "mem_ok T w C" and C: "C i = Some (al, [])"
  shows "l_spec (li_drop i) w (\<lambda>_ w'. mem_ok T w' (C(i := None))) (\<lambda>_ _. False)"
proof -
  define u where "u = w\<lparr>lm_objects := (lm_objects w)(i := None), lm_nodes := (lm_nodes w)(Sentinel i := None)\<rparr>"
  have node: "same_at w u (Node a)" for a by (simp add: u_def same_at_def nxt_def prv_def val_def)
  have alive: "live u (Node a) \<longleftrightarrow> live w (Node a)" for a using node by (simp add: live_def same_at_def)
  have fresh: "lm_fresh u = lm_fresh w" by (simp add: u_def)
  have "mem_ok T u (C(i := None))"
  proof (rule mem_ok_change [OF ok, of "{i}"])
    show "lm_objects u j = lm_objects w j \<and> (C(i := None)) j = C j \<and> same_at w u (Sentinel j)" if "j \<notin> {i}" for j
      using that by (simp add: u_def same_at_def nxt_def prv_def val_def)
    show "list_ok T u j ((C(i := None)) j)" if "j \<in> {i}" for j
      using that by (simp add: u_def list_ok_def val_def)
    show "\<exists>j\<in>{i}. owned (C(i := None)) j a" if "live u (Node a)" "lm_fresh w \<le> a \<or> (\<exists>j\<in>{i}. owned C j a)" for a
      using that mem_ok_fresh [OF ok, of a] C by (auto simp: alive owned_def)
    show "\<not> live u (Node a)" if "lm_fresh u \<le> a" for a
      using that fresh alive mem_ok_fresh [OF ok, of a] by simp
  qed (use node in \<open>auto simp: owned_def\<close>)
  then show ?thesis by (simp add: l_spec_def li_drop_def l_return_def u_def)
qed

lemma destroy_list_spec:
  assumes ok: "mem_ok T w C" and C: "C i = Some (al, xs)"
  shows "l_spec (li_destroy T i) w (\<lambda>_ w'. mem_ok T w' (C(i := None))) (\<lambda>_ _. False)"
  unfolding li_destroy_def spec_then
proof (rule spec_mono [OF list_clear_spec [OF ok C]])
  show "l_spec (li_drop i) w' (\<lambda>_ w'. mem_ok T w' (C(i := None))) (\<lambda>_ _. False)"
    if "mem_ok T w' (C(i \<mapsto> (al, [])))" for w'
    using drop_spec [OF that, of i al] unfolding fun_upd_upd by simp
qed

lemma from_values_spec:
  assumes ok: "mem_ok T w C" and C: "C i = None"
  shows "l_spec (li_from_values T i vs al) w
    (\<lambda>_ w'. \<exists>xs. map snd xs = vs \<and> mem_ok T w' (C(i \<mapsto> (al, xs)))) (\<lambda>e w'. list_throws e \<and> mem_ok T w' C)"
  unfolding li_from_values_def spec_then
proof (rule spec_mono [OF new_spec [OF ok C]])
  let ?Q = "\<lambda>_ w'. \<exists>xs. map snd xs = vs \<and> mem_ok T w' (C(i \<mapsto> (al, xs)))"
  fix w1 assume w1: "mem_ok T w1 (C(i \<mapsto> (al, [])))"
  have push: "l_spec (push_values T i vs) w1 ?Q (\<lambda>e w. list_throws e \<and> (\<exists>zs. mem_ok T w (C(i \<mapsto> (al, zs)))))"
    using push_values_spec [OF w1, of i al "[]" vs] unfolding fun_upd_upd by simp
  have clear: "l_spec (l_cleanup (push_values T i vs) (li_clear T i)) w1 ?Q (\<lambda>e w. list_throws e \<and> mem_ok T w (C(i \<mapsto> (al, []))))"
  proof (rule cleanup_rule [OF push])
    fix e w2 assume e: "list_throws e \<and> (\<exists>zs. mem_ok T w2 (C(i \<mapsto> (al, zs))))"
    then obtain zs where zs: "mem_ok T w2 (C(i \<mapsto> (al, zs)))" by blast
    show "e \<noteq> L_Undefined \<and> e \<noteq> L_Abort \<and> l_spec (li_clear T i) w2
        (\<lambda>_ w. list_throws e \<and> mem_ok T w (C(i \<mapsto> (al, [])))) (\<lambda>e w. list_throws e \<and> mem_ok T w (C(i \<mapsto> (al, []))))"
      using spec_mono [OF list_clear_spec [OF zs, of i al zs, unfolded fun_upd_upd]] e by (auto simp: list_throws_def)
  qed
  show "l_spec (l_cleanup (l_cleanup (push_values T i vs) (li_clear T i)) (li_destroy T i)) w1 ?Q
      (\<lambda>e w'. list_throws e \<and> mem_ok T w' C)"
  proof (rule cleanup_rule [OF clear])
    fix e w2 assume e: "list_throws e \<and> mem_ok T w2 (C(i \<mapsto> (al, [])))"
    then show "e \<noteq> L_Undefined \<and> e \<noteq> L_Abort \<and> l_spec (li_destroy T i) w2
        (\<lambda>_ w. list_throws e \<and> mem_ok T w C) (\<lambda>e w. list_throws e \<and> mem_ok T w C)"
      using spec_mono [OF destroy_list_spec [OF conjunct2 [OF e], of i al "[]", unfolded fun_upd_upd fun_upd_idem [of C i None, OF C]]]
      by (auto simp: list_throws_def)
  qed
qed simp

section \<open>Reading another list\<close>

lemma list_ok_here:
  assumes "list_ok T w j (Some (bl, ys0 @ p # ys))"
  shows "\<exists>cl. val w (Node (fst p)) = Some (Some (snd p), Some cl)" and "nxt w (Node (fst p)) = Some (at j ys)"
  using list_ok_val [OF assms, of p] list_ok_next [OF assms] by auto

lemma copy_loop_spec:
  assumes "mem_ok T w C" "C j = Some (bl, ys0 @ ys)" "C i = Some (al, xs)" "i \<noteq> j"
  shows "l_spec (copy_loop T i j (at j ys)) w
    (\<lambda>_ w'. \<exists>zs. map snd zs = map snd ys \<and> mem_ok T w' (C(i \<mapsto> (al, xs @ zs))))
    (\<lambda>e w'. list_throws e \<and> (\<exists>zs. mem_ok T w' (C(i \<mapsto> (al, xs @ zs)))))"
  using assms
proof (induction ys arbitrary: w C xs ys0)
  case Nil
  have e: "l_spec (copy_loop T i j (at j [])) w Q E \<longleftrightarrow> Q () w" for Q E
    by (subst spec_cong [of _ _ "l_return ()"]) (simp_all add: copy_loop.simps li_end_def)
  have "C(i \<mapsto> (al, xs @ [])) = C" using Nil by (auto simp: fun_eq_iff)
  then have "\<exists>zs. map snd zs = map snd ([] :: (nat \<times> 'a) list) \<and> mem_ok T w (C(i \<mapsto> (al, xs @ zs)))"
    using Nil by (intro exI [of _ "[]"]) (simp only: simp_thms)
  then show ?case by (simp only: e)
next
  case (Cons p ys)
  have same: "C(i \<mapsto> (al, xs @ [])) = C" using Cons.prems by (auto simp: fun_eq_iff)
  have unfold: "copy_loop T i j (at j (p # ys)) w = l_bind (it_value (Node (fst p))) (\<lambda>v.
      l_then (li_push_back T i v) (l_bind (it_next (Node (fst p))) (\<lambda>it. copy_loop T i j it))) w"
    by (subst copy_loop.simps) (simp add: li_end_def)
  obtain cl where cl: "val w (Node (fst p)) = Some (Some (snd p), Some cl)"
    using list_ok_here(1) [OF mem_ok_list [OF Cons.prems(1,2)]] by blast
  have e: "l_spec (copy_loop T i j (at j (p # ys))) w Q E \<longleftrightarrow>
      l_spec (l_then (li_push_back T i (snd p)) (l_bind (it_next (Node (fst p))) (\<lambda>it. copy_loop T i j it))) w Q E" for Q E
  proof -
    have "l_spec (copy_loop T i j (at j (p # ys))) w Q E \<longleftrightarrow> l_spec (l_bind (it_value (Node (fst p))) (\<lambda>v.
        l_then (li_push_back T i v) (l_bind (it_next (Node (fst p))) (\<lambda>it. copy_loop T i j it)))) w Q E"
      by (simp only: l_spec_def unfold)
    then show ?thesis using cl by simp
  qed
  let ?Q = "\<lambda>_ w'. \<exists>zs. map snd zs = map snd (p # ys) \<and> mem_ok T w' (C(i \<mapsto> (al, xs @ zs)))"
  let ?E = "\<lambda>e w'. list_throws e \<and> (\<exists>zs. mem_ok T w' (C(i \<mapsto> (al, xs @ zs))))"
  have step: "l_spec (l_then (li_push_back T i (snd p)) (l_bind (it_next (Node (fst p))) (\<lambda>it. copy_loop T i j it))) w ?Q ?E"
    unfolding spec_then
  proof (rule spec_mono [OF push_back_spec [OF Cons.prems(1,3)]])
    let ?a = "(lm_fresh w, snd p)"
    fix w' assume w': "mem_ok T w' (C(i \<mapsto> (al, xs @ [?a])))"
    have j: "(C(i \<mapsto> (al, xs @ [?a]))) j = Some (bl, ys0 @ p # ys)" using Cons.prems by simp
    have "l_spec (copy_loop T i j (at j ys)) w' ?Q ?E"
    proof (rule spec_mono [OF Cons.IH [OF w', of "ys0 @ [p]" "xs @ [?a]"]])
      fix u assume "\<exists>zs. map snd zs = map snd ys \<and> mem_ok T u (C(i \<mapsto> (al, xs @ [?a]), i \<mapsto> (al, (xs @ [?a]) @ zs)))"
      from grow_step [OF this] show "\<exists>zs. map snd zs = map snd (p # ys) \<and> mem_ok T u (C(i \<mapsto> (al, xs @ zs)))"
        by (metis list.collapse list.simps(9) snd_conv)
    next
      fix e u assume "list_throws e \<and> (\<exists>zs. mem_ok T u (C(i \<mapsto> (al, xs @ [?a]), i \<mapsto> (al, (xs @ [?a]) @ zs))))"
      then show "?E e u"
          by (intro conjI grow_any) (erule conjunct1, erule conjunct2)
    qed (use j Cons.prems in simp_all)
    then show "l_spec (l_bind (it_next (Node (fst p))) (\<lambda>it. copy_loop T i j it)) w' ?Q ?E"
      using list_ok_here(2) [OF mem_ok_list [OF w' j]] by simp
  qed (metis same)
  show ?case unfolding e by (rule step)
qed

lemma equal_loop_spec:
  assumes ok: "mem_ok T w C" and "C i = Some (al, xs0 @ xs)" "C j = Some (bl, ys0 @ ys)" "length xs = length ys"
  shows "l_spec (equal_loop i (at i xs) (at j ys)) w (\<lambda>r w'. w' = w \<and> r = (map snd xs = map snd ys)) (\<lambda>_ _. False)"
  using assms(4,2,3)
proof (induction xs ys arbitrary: xs0 ys0 rule: list_induct2)
  case Nil
  have "l_spec (equal_loop i (at i []) (at j [])) w Q E \<longleftrightarrow> l_spec (l_return True) w Q E" for Q E
    by (intro spec_cong) (simp add: equal_loop.simps li_end_def)
  then show ?case by simp
next
  case (Cons p xs q ys)
  note i = mem_ok_list [OF ok Cons.prems(1)] and j = mem_ok_list [OF ok Cons.prems(2)]
  have IH: "l_spec (equal_loop i (at i xs) (at j ys)) w (\<lambda>r w'. w' = w \<and> r = (map snd xs = map snd ys)) (\<lambda>_ _. False)"
    using Cons.IH [of "xs0 @ [p]" "ys0 @ [q]"] Cons.prems by simp
  obtain cl dl where v: "val w (Node (fst p)) = Some (Some (snd p), Some cl)" "val w (Node (fst q)) = Some (Some (snd q), Some dl)"
    using list_ok_here(1) [OF i] list_ok_here(1) [OF j] by blast
  have "l_spec (equal_loop i (Node (fst p)) (Node (fst q))) w Q E \<longleftrightarrow>
      (if snd p \<noteq> snd q then Q False w else l_spec (equal_loop i (at i xs) (at j ys)) w Q E)" for Q E
  proof -
    have "equal_loop i (Node (fst p)) (Node (fst q)) w =
        (if snd p \<noteq> snd q then l_return False w else equal_loop i (at i xs) (at j ys) w)"
      using v list_ok_here(2) [OF i] list_ok_here(2) [OF j]
      by (subst equal_loop.simps)
        (auto simp: li_end_def it_value_def it_next_def l_bind_def l_node_def l_return_def val_def nxt_def split: option.splits)
    then show ?thesis by (simp add: l_spec_def l_return_def)
  qed
  then show ?case using IH by (auto elim!: spec_mono)
qed

lemma equal_spec:
  assumes ok: "mem_ok T w C" and i: "C i = Some (al, xs)" and j: "C j = Some (bl, ys)"
  shows "l_spec (li_equal i j) w (\<lambda>r w'. w' = w \<and> r = (map snd xs = map snd ys)) (\<lambda>_ _. False)"
proof (cases "length xs = length ys")
  case True
  then show ?thesis
    using equal_loop_spec [OF ok, of i al "[]" xs j bl "[]" ys] i j
      list_ok_begin [OF mem_ok_list [OF ok i]] list_ok_begin [OF mem_ok_list [OF ok j]]
      list_ok_object [OF mem_ok_list [OF ok i]] list_ok_object [OF mem_ok_list [OF ok j]]
    by (simp add: li_equal_def li_size_def li_begin_next)
next
  case False
  then have "map snd xs \<noteq> map snd ys" by (metis length_map)
  then show ?thesis
    using False list_ok_object [OF mem_ok_list [OF ok i]] list_ok_object [OF mem_ok_list [OF ok j]]
    by (simp add: li_equal_def li_size_def)
qed

section \<open>Moving a chain between sentinels\<close>

lemma path_ring:
  assumes "as \<noteq> []"
  shows "path w (ring i as) \<longleftrightarrow> nxt w (Sentinel i) = Some (Node (hd as)) \<and> prv w (Node (hd as)) = Some (Sentinel i) \<and>
    path w (map Node as) \<and> nxt w (Node (last as)) = Some (Sentinel i) \<and> prv w (Sentinel i) = Some (Node (last as))"
proof -
  obtain b bs where as: "as = bs @ [b]" using assms by (cases as rule: rev_cases) auto
  obtain c cs where as': "as = c # cs" using assms by (cases as) auto
  have "path w (ring i as) \<longleftrightarrow> path w (map Node as @ [Sentinel i]) \<and> nxt w (Sentinel i) = Some (Node (hd as)) \<and>
      prv w (Node (hd as)) = Some (Sentinel i)"
    by (auto simp: ring_def as')
  moreover have "path w (map Node as @ [Sentinel i]) \<longleftrightarrow> path w (map Node as) \<and> nxt w (Node (last as)) = Some (Sentinel i) \<and>
      prv w (Sentinel i) = Some (Node (last as))"
    using path_append [of w "map Node bs" "Node b" "[Sentinel i]"] by (simp add: as)
  ultimately show ?thesis by blast
qed

lemma list_ok_transfer:
  assumes ok: "list_ok T w j (Some (bl, xs))" and ne: "xs \<noteq> []"
    and al: "\<And>cl. alloc_eq T cl bl \<Longrightarrow> alloc_eq T cl al"
    and obj: "lm_objects u i = Some \<lparr>lo_size = length xs, lo_alloc = al\<rparr>"
    and s: "val u (Sentinel i) = Some (None, None)" "nxt u (Sentinel i) = Some (at j xs)" "prv u (Sentinel i) = Some (before j xs)"
    and v: "\<And>a. a \<in> fst ` set xs \<Longrightarrow> val u (Node a) = val w (Node a)"
    and n: "\<And>a. a \<in> fst ` set xs \<Longrightarrow> nxt u (Node a) = (if Node a = before j xs then Some (Sentinel i) else nxt w (Node a))"
    and p: "\<And>a. a \<in> fst ` set xs \<Longrightarrow> prv u (Node a) = (if Node a = at j xs then Some (Sentinel i) else prv w (Node a))"
  shows "list_ok T u i (Some (al, xs))"
proof -
  let ?as = "map fst xs"
  have hd: "at j xs = Node (hd ?as)" and last: "before j xs = Node (last ?as)"
    using ne by (cases xs, simp_all, cases xs rule: rev_cases, simp_all)
  have d: "distinct ?as" and path: "path w (map Node ?as)"
    using ok ne path_ring [of ?as w j] by (simp_all add: list_ok_def)
  have "path u (map Node ?as) = path w (map Node ?as)"
  proof (intro path_cong ballI)
    fix x assume "x \<in> set (butlast (map Node ?as))"
    then have "x \<in> Node ` set (butlast ?as)" by (simp only: map_butlast [symmetric] set_map)
    then obtain a where a: "x = Node a" "a \<in> set (butlast ?as)" by blast
    have "a \<noteq> last ?as" using a(2) d ne by (cases xs rule: rev_cases) (force simp: butlast_append)+
    then show "nxt u x = nxt w x" using a n [of a] last in_set_butlastD [OF a(2)] by simp
  next
    fix x assume "x \<in> set (tl (map Node ?as))"
    then obtain a where a: "x = Node a" "a \<in> set (tl ?as)" by (auto simp only: map_tl [symmetric] set_map)
    have "a \<noteq> hd ?as" using a(2) d ne by (cases xs) force+
    then show "prv u x = prv w x" using a p [of a] hd list.set_sel(2) [of ?as a] ne by simp
  qed
  moreover have "hd ?as \<in> fst ` set xs" "last ?as \<in> fst ` set xs" using ne hd_in_set [of ?as] last_in_set [of ?as] by auto
  ultimately have "path u (ring i ?as)"
    using path s n [of "last ?as"] p [of "hd ?as"] hd last path_ring [of ?as u i] ne by simp
  moreover have "vals_ok T u bl xs = vals_ok T w bl xs" by (intro vals_cong v)
  then have "vals_ok T u al xs" using ok al by (fastforce simp: list_ok_def vals_ok_def)
  ultimately show ?thesis using d obj s by (simp add: list_ok_def)
qed

lemma spec_sentinel:
  assumes "nxt w x = Some n" "prv w x = Some p" "val w x = Some (v, al)"
  shows "l_spec (l_node x) w Q E \<longleftrightarrow> Q \<lparr>ln_prev = p, ln_next = n, ln_value = v, ln_alloc = al\<rparr> w"
proof -
  have "lm_nodes w x = Some \<lparr>ln_prev = p, ln_next = n, ln_value = v, ln_alloc = al\<rparr>"
    using assms by (cases "lm_nodes w x") (auto simp: nxt_def prv_def val_def)
  then show ?thesis by (simp add: l_spec_def l_node_def l_return_def)
qed

text \<open>The links of two lists change.\<close>

lemma mem_ok_change2:
  assumes ok: "mem_ok T w C" and C: "C i = Some (al, xs)" "C j = Some (bl, ys)" "i \<noteq> j"
    and touched: "\<And>z. z \<noteq> Sentinel i \<Longrightarrow> z \<noteq> Sentinel j \<Longrightarrow> z \<notin> Node ` fst ` set (xs @ ys) \<Longrightarrow> same_at w u z"
    and obj: "\<And>k. k \<noteq> i \<Longrightarrow> k \<noteq> j \<Longrightarrow> lm_objects u k = lm_objects w k" and fresh: "lm_fresh u = lm_fresh w"
    and alive: "\<And>a. live u (Node a) = live w (Node a)"
    and lists: "list_ok T u i (Some (al', xs'))" "list_ok T u j (Some (bl', ys'))"
    and same: "set xs' \<union> set ys' = set xs \<union> set ys" "fst ` set xs' \<inter> fst ` set ys' = {}"
  shows "mem_ok T u (C(i \<mapsto> (al', xs'), j \<mapsto> (bl', ys')))"
proof (rule mem_ok_change [OF ok, of "{i, j}"])
  let ?C = "C(i \<mapsto> (al', xs'), j \<mapsto> (bl', ys'))"
  have own: "owned C i a \<or> owned C j a \<longleftrightarrow> a \<in> fst ` (set xs \<union> set ys)"
    "owned ?C i a \<longleftrightarrow> a \<in> fst ` set xs'" "owned ?C j a \<longleftrightarrow> a \<in> fst ` set ys'" for a
    using C by (auto simp: owned_def)
  have own': "owned ?C i a \<or> owned ?C j a \<longleftrightarrow> owned C i a \<or> owned C j a" for a
    unfolding own same(1) [symmetric] by (simp add: image_Un)
  show "lm_objects u k = lm_objects w k \<and> ?C k = C k \<and> same_at w u (Sentinel k)" if "k \<notin> {i, j}" for k
    using that obj touched [of "Sentinel k"] by auto
  show "same_at w u (Node a)" if "\<forall>k\<in>{i, j}. \<not> owned C k a" for a
  proof -
    have "a \<notin> fst ` (set xs \<union> set ys)" using that own(1) [of a] by blast
    then show ?thesis using touched [of "Node a"] by auto
  qed
  show "list_ok T u k (?C k)" if "k \<in> {i, j}" for k using that lists C(3) by auto
  show "lm_fresh w \<le> a \<or> (\<exists>k\<in>{i, j}. owned C k a)" if "k \<in> {i, j}" "owned ?C k a" for k a
    using that own' by blast
  show "k = l" if "k \<in> {i, j}" "l \<in> {i, j}" "owned ?C k a" "owned ?C l a" for k l a
    using that own(2,3) [of a] same(2) by blast
  show "\<exists>k\<in>{i, j}. owned ?C k a" if "live u (Node a)" "lm_fresh w \<le> a \<or> (\<exists>k\<in>{i, j}. owned C k a)" for a
    using that own' [of a] mem_ok_fresh [OF ok, of a] alive by blast
  show "\<not> live u (Node a)" if "lm_fresh u \<le> a" for a using that fresh alive mem_ok_fresh [OF ok, of a] by simp
qed

lemma mem_ok_disjoint:
  assumes "mem_ok T w C" "C i = Some (al, xs)" "C j = Some (bl, ys)" "i \<noteq> j"
  shows "fst ` set xs \<inter> fst ` set ys = {}"
proof (rule ccontr)
  assume "\<not> ?thesis"
  then obtain a where "owned C i a" "owned C j a" using assms(2,3) by (auto simp: owned_def)
  then show False using assms(1,4) unfolding mem_ok_def by blast
qed

lemma steal_spec:
  assumes ok: "mem_ok T w C" and C: "C i = Some (al, [])" "C j = Some (bl, xs)" "i \<noteq> j"
    and al: "\<And>cl. alloc_eq T cl bl \<Longrightarrow> alloc_eq T cl al"
  shows "l_spec (steal_nodes_from i j) w (\<lambda>_ w'. mem_ok T w' (C(i \<mapsto> (al, xs), j \<mapsto> (bl, [])))) (\<lambda>_ _. False)"
proof -
  note i = mem_ok_list [OF ok C(1)] and j = mem_ok_list [OF ok C(2)]
  have ob: "lm_objects w i = Some \<lparr>lo_size = 0, lo_alloc = al\<rparr>" "lm_objects w j = Some \<lparr>lo_size = length xs, lo_alloc = bl\<rparr>"
    using list_ok_object [OF i] list_ok_object [OF j] by simp_all
  have s: "nxt w (Sentinel j) = Some (at j xs)" "prv w (Sentinel j) = Some (before j xs)" "val w (Sentinel j) = Some (None, None)"
    "val w (Sentinel i) = Some (None, None)"
    using list_ok_begin [OF j] list_ok_last [OF j] i j by (simp_all add: list_ok_def)
  have alive: "live w (Sentinel i)" "live w (Sentinel j)" using s by (simp_all add: live_def)
  show ?thesis
  proof (cases "xs = []")
    case True
    define u where "u = upd_object i (\<lambda>b. b\<lparr>lo_size := 0\<rparr>) (upd_prev (Sentinel i) (Sentinel i) (upd_next (Sentinel i) (Sentinel i) w))"
    have "mem_ok T u (C(i \<mapsto> (al, xs), j \<mapsto> (bl, [])))"
    proof (rule mem_ok_change2 [OF ok C])
      show "list_ok T u i (Some (al, xs))"
        using True ob s alive by (simp add: u_def list_ok_def ring_def vals_ok_def)
      show "list_ok T u j (Some (bl, []))"
        by (rule list_ok_frame [OF j [unfolded True]]) (use C in \<open>auto simp: u_def same_at_def\<close>)
    qed (use True in \<open>auto simp: u_def same_at_def\<close>)
    then show ?thesis using ob alive True by (simp add: steal_nodes_from_def li_empty_def li_size_def reset_empty_def set_size_def u_def)
  next
    case False
    define u where "u = upd_object j (\<lambda>b. b\<lparr>lo_size := 0\<rparr>) (upd_prev (Sentinel j) (Sentinel j) (upd_next (Sentinel j) (Sentinel j)
      (upd_next (before j xs) (Sentinel i) (upd_prev (at j xs) (Sentinel i) (upd_object i (\<lambda>b. b\<lparr>lo_size := length xs\<rparr>)
        (upd_prev (Sentinel i) (before j xs) (upd_next (Sentinel i) (at j xs) w)))))))"
    have e: "\<exists>a\<in>fst ` set xs. at j xs = Node a" "\<exists>a\<in>fst ` set xs. before j xs = Node a"
      using False by (cases xs, simp_all, cases xs rule: rev_cases, simp_all)
    have ends: "live w (at j xs)" "live w (before j xs)"
      using list_ok_mid [of T w j bl "[]" xs] list_ok_mid [of T w j bl xs "[]"] j by (auto intro: nxt_live prv_live)
    have "mem_ok T u (C(i \<mapsto> (al, xs), j \<mapsto> (bl, [])))"
    proof (rule mem_ok_change2 [OF ok C])
      show "list_ok T u i (Some (al, xs))"
        by (rule list_ok_transfer [OF j False al])
          (use C(3) ob s e ends alive in \<open>auto simp: u_def\<close>)
      show "list_ok T u j (Some (bl, []))"
        using C(3) ob s e alive by (auto simp: u_def list_ok_def ring_def vals_ok_def)
    qed (use e C(3) in \<open>auto simp: u_def same_at_def\<close>)
    then show ?thesis using C(3) ob alive False ends s e
      by (auto simp: steal_nodes_from_def li_empty_def li_size_def reset_empty_def set_size_def u_def spec_sentinel)
  qed
qed

definition repaired :: "nat \<Rightarrow> (nat \<times> 'a) list \<Rightarrow> ('a, 'al) list_memory \<Rightarrow> ('a, 'al) list_memory" where
  "repaired i xs w =
     (if xs = [] then upd_prev (Sentinel i) (Sentinel i) (upd_next (Sentinel i) (Sentinel i) w)
      else upd_next (before i xs) (Sentinel i) (upd_prev (at i xs) (Sentinel i) w))"

lemma ends_nodes:
  assumes "xs \<noteq> []"
  shows "\<exists>a\<in>fst ` set xs. at i xs = Node a \<and> at j xs = Node a" "\<exists>a\<in>fst ` set xs. before i xs = Node a \<and> before j xs = Node a"
  using assms by (cases xs, simp_all, cases xs rule: rev_cases, simp_all)

lemma repair_spec:
  assumes "lm_objects w i = Some \<lparr>lo_size = length xs, lo_alloc = al\<rparr>" "live w (Sentinel i)"
    and "xs \<noteq> [] \<Longrightarrow> nxt w (Sentinel i) = Some (at i xs) \<and> prv w (Sentinel i) = Some (before i xs) \<and>
      live w (at i xs) \<and> live w (before i xs)"
  shows "l_spec (repair_sentinel_links i) w Q E \<longleftrightarrow> Q () (repaired i xs w)"
proof (cases "xs = []")
  case True
  then show ?thesis using assms by (simp add: repair_sentinel_links_def li_size_def reset_empty_def repaired_def)
next
  case False
  obtain v al where v: "val w (Sentinel i) = Some (v, al)" using assms(2) by (auto simp: live_def)
  have "at i xs \<noteq> Sentinel i" using ends_nodes(1) [OF False, of i i] by auto
  then show ?thesis
    using assms v False by (simp add: repair_sentinel_links_def li_size_def spec_sentinel repaired_def)
qed

definition crossed :: "nat \<Rightarrow> nat \<Rightarrow> (nat \<times> 'a) list \<Rightarrow> (nat \<times> 'a) list \<Rightarrow> ('a, 'al) list_memory \<Rightarrow> ('a, 'al) list_memory" where
  "crossed i j xs ys w = upd_object j (\<lambda>b. b\<lparr>lo_size := length xs\<rparr>) (upd_object i (\<lambda>b. b\<lparr>lo_size := length ys\<rparr>)
     (upd_prev (Sentinel j) (before i xs) (upd_prev (Sentinel i) (before j ys)
     (upd_next (Sentinel j) (at i xs) (upd_next (Sentinel i) (at j ys) w)))))"

lemma ends_same:
  assumes "xs \<noteq> []"
  shows "at i xs = at j xs" "before i xs = before j xs"
  using ends_nodes [OF assms, of i j] by auto

lemma repaired_simps [simp]:
  "val (repaired i xs w) = val w" "lm_objects (repaired i xs w) = lm_objects w" "live (repaired i xs w) = live w"
  "lm_fresh (repaired i xs w) = lm_fresh w"
  by (auto simp: repaired_def fun_eq_iff)

lemma repaired_sentinel [simp]:
  assumes "live w (Sentinel i)"
  shows "nxt (repaired i xs w) (Sentinel k) = (if k = i \<and> xs = [] then Some (Sentinel i) else nxt w (Sentinel k))"
    "prv (repaired i xs w) (Sentinel k) = (if k = i \<and> xs = [] then Some (Sentinel i) else prv w (Sentinel k))"
  using assms ends_nodes [of xs i i] by (cases "xs = []"; force simp: repaired_def)+

lemma repaired_elsewhere:
  assumes "a \<notin> fst ` set xs"
  shows "nxt (repaired i xs w) (Node a) = nxt w (Node a)" "prv (repaired i xs w) (Node a) = prv w (Node a)"
  using at_not [OF assms, of i] before_not [OF assms, of i] by (simp_all add: repaired_def)

lemma repaired_here:
  assumes "a \<in> fst ` set xs" "live w (Node a)"
  shows "nxt (repaired i xs w) (Node a) = (if Node a = before i xs then Some (Sentinel i) else nxt w (Node a))"
    "prv (repaired i xs w) (Node a) = (if Node a = at i xs then Some (Sentinel i) else prv w (Node a))"
  using assms by (auto simp: repaired_def)

lemma crossed_simps [simp]:
  "val (crossed i j xs ys w) = val w" "live (crossed i j xs ys w) = live w" "lm_fresh (crossed i j xs ys w) = lm_fresh w"
  "nxt (crossed i j xs ys w) (Node a) = nxt w (Node a)" "prv (crossed i j xs ys w) (Node a) = prv w (Node a)"
  "k \<noteq> i \<Longrightarrow> k \<noteq> j \<Longrightarrow> nxt (crossed i j xs ys w) (Sentinel k) = nxt w (Sentinel k)"
  "k \<noteq> i \<Longrightarrow> k \<noteq> j \<Longrightarrow> prv (crossed i j xs ys w) (Sentinel k) = prv w (Sentinel k)"
  by (auto simp: crossed_def fun_eq_iff)

lemma crossed_sentinels:
  assumes "i \<noteq> j" "live w (Sentinel i)" "live w (Sentinel j)"
  shows "nxt (crossed i j xs ys w) (Sentinel i) = Some (at j ys)" "prv (crossed i j xs ys w) (Sentinel i) = Some (before j ys)"
    "nxt (crossed i j xs ys w) (Sentinel j) = Some (at i xs)" "prv (crossed i j xs ys w) (Sentinel j) = Some (before i xs)"
  using assms by (simp_all add: crossed_def)

text \<open>The half of a swap that concerns one of the lists, which now has the elements of the other.\<close>

lemma swap_half:
  assumes j: "list_ok T w j (Some (bl, ys))" and "i \<noteq> j" and al: "\<And>cl. alloc_eq T cl bl \<Longrightarrow> alloc_eq T cl al"
    and obj: "lm_objects u i = Some \<lparr>lo_size = length ys, lo_alloc = al\<rparr>" and s: "val u (Sentinel i) = Some (None, None)"
    and links: "nxt u (Sentinel i) = Some (at i ys)" "prv u (Sentinel i) = Some (before i ys)"
    and nodes: "\<And>a. a \<in> fst ` set ys \<Longrightarrow> val u (Node a) = val w (Node a) \<and>
      nxt u (Node a) = (if Node a = before j ys then Some (Sentinel i) else nxt w (Node a)) \<and>
      prv u (Node a) = (if Node a = at j ys then Some (Sentinel i) else prv w (Node a))"
  shows "list_ok T u i (Some (al, ys))"
proof (cases "ys = []")
  case True
  then show ?thesis using obj s links by (simp add: list_ok_def ring_def vals_ok_def)
next
  case False
  then have "at i ys = at j ys" "before i ys = before j ys" by (rule ends_same)+
  then show ?thesis
    using links nodes by (intro list_ok_transfer [OF j False al obj s]) simp_all
qed

lemma swap_links:
  assumes ok: "mem_ok T w C" and C: "C i = Some (al, xs)" "C j = Some (bl, ys)" "i \<noteq> j"
    and al: "\<And>cl. alloc_eq T cl bl \<Longrightarrow> alloc_eq T cl al'" and bl: "\<And>cl. alloc_eq T cl al \<Longrightarrow> alloc_eq T cl bl'"
    and v: "v = upd_object j (\<lambda>b. b\<lparr>lo_alloc := bl'\<rparr>) (upd_object i (\<lambda>b. b\<lparr>lo_alloc := al'\<rparr>) w)"
    and u: "u = repaired j xs (repaired i ys (crossed i j xs ys v))"
  shows "mem_ok T u (C(i \<mapsto> (al', ys), j \<mapsto> (bl', xs)))"
proof -
  note i = mem_ok_list [OF ok C(1)] and j = mem_ok_list [OF ok C(2)]
  have s: "val w (Sentinel i) = Some (None, None)" "val w (Sentinel j) = Some (None, None)"
    using i j by (simp_all add: list_ok_def)
  have alive: "live w (Sentinel i)" "live w (Sentinel j)" using s by (simp_all add: live_def)
  have ob: "lm_objects u i = Some \<lparr>lo_size = length ys, lo_alloc = al'\<rparr>" "lm_objects u j = Some \<lparr>lo_size = length xs, lo_alloc = bl'\<rparr>"
    using list_ok_object [OF i] list_ok_object [OF j] C(3) by (simp_all add: u v repaired_def crossed_def)
  have d: "fst ` set xs \<inter> fst ` set ys = {}" using mem_ok_disjoint [OF ok C] .
  have own: "live w (Node a)" if "a \<in> fst ` set xs \<or> a \<in> fst ` set ys" for a
  proof -
    have "owned C i a \<or> owned C j a" using that C by (simp add: owned_def)
    then show ?thesis using owned_live(1) [OF ok] by blast
  qed
  have other: "a \<notin> fst ` set ys" if "a \<in> fst ` set xs" for a using that d by blast
  have other': "a \<notin> fst ` set xs" if "a \<in> fst ` set ys" for a using that d by blast
  have views: "live v = live w" "nxt v = nxt w" "prv v = prv w" "val v = val w" by (simp_all add: v)
  show ?thesis
  proof (rule mem_ok_change2 [OF ok C])
    show "list_ok T u i (Some (al', ys))"
    proof (rule swap_half [OF j C(3) al ob(1)])
      show "val u (Sentinel i) = Some (None, None)" by (simp add: u views s)
      show "nxt u (Sentinel i) = Some (at i ys)" "prv u (Sentinel i) = Some (before i ys)"
        using C(3) alive ends_same [of ys i j] by (auto simp: u views crossed_sentinels)
      show "val u (Node a) = val w (Node a) \<and>
          nxt u (Node a) = (if Node a = before j ys then Some (Sentinel i) else nxt w (Node a)) \<and>
          prv u (Node a) = (if Node a = at j ys then Some (Sentinel i) else prv w (Node a))" if "a \<in> fst ` set ys" for a
      proof -
        have "ys \<noteq> []" using that by auto
        from ends_nodes [OF this, of i j] obtain b c where
          "b \<in> fst ` set ys" "c \<in> fst ` set ys" "at i ys = Node b" "at j ys = Node b" "before i ys = Node c" "before j ys = Node c" by blast
        then show ?thesis
          using that own [of a] by (simp add: u views repaired_elsewhere other' repaired_here)
      qed
    qed
    show "list_ok T u j (Some (bl', xs))"
    proof (rule swap_half [OF i C(3) [symmetric] bl ob(2)])
      show "val u (Sentinel j) = Some (None, None)" by (simp add: u views s)
      show "nxt u (Sentinel j) = Some (at j xs)" "prv u (Sentinel j) = Some (before j xs)"
        using C(3) alive ends_same [of xs i j] by (auto simp: u views crossed_sentinels)
      show "val u (Node a) = val w (Node a) \<and>
          nxt u (Node a) = (if Node a = before i xs then Some (Sentinel j) else nxt w (Node a)) \<and>
          prv u (Node a) = (if Node a = at i xs then Some (Sentinel j) else prv w (Node a))" if "a \<in> fst ` set xs" for a
      proof -
        have "xs \<noteq> []" using that by auto
        from ends_nodes [OF this, of i j] obtain b c where
          "b \<in> fst ` set xs" "c \<in> fst ` set xs" "at i xs = Node b" "at j xs = Node b" "before i xs = Node c" "before j xs = Node c" by blast
        then show ?thesis
          using that own [of a] by (simp add: u views repaired_elsewhere other repaired_here)
      qed
    qed
    show "same_at w u z" if z: "z \<noteq> Sentinel i" "z \<noteq> Sentinel j" "z \<notin> Node ` fst ` set (xs @ ys)" for z
    proof (cases z)
      case (Node a)
      then have "a \<notin> fst ` set xs" "a \<notin> fst ` set ys" using z(3) by (auto simp: image_Un)
      then show ?thesis using Node by (simp add: u views same_at_def repaired_elsewhere)
    qed (use z alive in \<open>auto simp: u views same_at_def\<close>)
  qed (use d in \<open>auto simp: u v crossed_def\<close>)
qed

lemma upd_alloc_same:
  assumes "lm_objects w i = Some b"
  shows "upd_object i (\<lambda>b'. b'\<lparr>lo_alloc := lo_alloc b\<rparr>) w = w"
proof -
  have "(lm_objects w)(i \<mapsto> b) = lm_objects w" using assms by auto
  then show ?thesis using assms by (simp add: upd_object_def)
qed

lemma swap_spec:
  assumes ok: "mem_ok T w C" and C: "C i = Some (al, xs)" "C j = Some (bl, ys)" "i \<noteq> j"
    and t: "lt_swap T \<or> alloc_eq T al bl"
  shows "l_spec (li_swap T i j) w (\<lambda>_ w'. mem_ok T w'
    (C(i \<mapsto> (if lt_swap T then bl else al, ys), j \<mapsto> (if lt_swap T then al else bl, xs)))) (\<lambda>_ _. False)"
proof -
  note i = mem_ok_list [OF ok C(1)] and j = mem_ok_list [OF ok C(2)]
  define al' where "al' = (if lt_swap T then bl else al)"
  define bl' where "bl' = (if lt_swap T then al else bl)"
  define v where "v = upd_object j (\<lambda>b. b\<lparr>lo_alloc := bl'\<rparr>) (upd_object i (\<lambda>b. b\<lparr>lo_alloc := al'\<rparr>) w)"
  define z where "z = crossed i j xs ys v"
  have ob: "lm_objects w i = Some \<lparr>lo_size = length xs, lo_alloc = al\<rparr>" "lm_objects w j = Some \<lparr>lo_size = length ys, lo_alloc = bl\<rparr>"
    using list_ok_object [OF i] list_ok_object [OF j] .
  have keep: "v = w" if "\<not> lt_swap T"
    using that upd_alloc_same [OF ob(1)] upd_alloc_same [OF ob(2)] by (simp add: v_def al'_def bl'_def)
  have sw: "nxt w (Sentinel i) = Some (at i xs)" "prv w (Sentinel i) = Some (before i xs)" "val w (Sentinel i) = Some (None, None)"
    "nxt w (Sentinel j) = Some (at j ys)" "prv w (Sentinel j) = Some (before j ys)" "val w (Sentinel j) = Some (None, None)"
    using i j list_ok_begin [OF i] list_ok_last [OF i] list_ok_begin [OF j] list_ok_last [OF j] by (simp_all add: list_ok_def)
  then have s: "nxt v (Sentinel i) = Some (at i xs)" "prv v (Sentinel i) = Some (before i xs)" "val v (Sentinel i) = Some (None, None)"
    "nxt v (Sentinel j) = Some (at j ys)" "prv v (Sentinel j) = Some (before j ys)" "val v (Sentinel j) = Some (None, None)"
    by (simp_all add: v_def)
  have alive: "live v (Sentinel i)" "live v (Sentinel j)" using s by (simp_all add: live_def)
  have ends: "live v (at i xs)" "live v (before i xs)" "live v (at j ys)" "live v (before j ys)"
    using list_ok_mid [of T w i al "[]" xs] list_ok_mid [of T w i al xs "[]"] i
      list_ok_mid [of T w j bl "[]" ys] list_ok_mid [of T w j bl ys "[]"] j by (auto simp: v_def intro: nxt_live prv_live)
  have vo: "lm_objects v i = Some \<lparr>lo_size = length xs, lo_alloc = al'\<rparr>" "lm_objects v j = Some \<lparr>lo_size = length ys, lo_alloc = bl'\<rparr>"
    using ob C(3) by (simp_all add: v_def)
  have xe: "xs \<noteq> [] \<Longrightarrow> at j xs = at i xs \<and> before j xs = before i xs \<and> at i xs \<noteq> Sentinel i \<and> before i xs \<noteq> Sentinel i \<and> at i xs \<noteq> Sentinel j \<and> before i xs \<noteq> Sentinel j"
    and ye: "ys \<noteq> [] \<Longrightarrow> at i ys = at j ys \<and> before i ys = before j ys \<and> at j ys \<noteq> Sentinel i \<and> before j ys \<noteq> Sentinel i \<and> at j ys \<noteq> Sentinel j \<and> before j ys \<noteq> Sentinel j"
    using ends_nodes [of xs i j] ends_nodes [of ys i j] by auto
  have r1: "l_spec (repair_sentinel_links i) z Q E \<longleftrightarrow> Q () (repaired i ys z)" for Q E
    by (rule repair_spec) (use C(3) vo alive ends s ye in \<open>auto simp: z_def crossed_def\<close>)
  have r2: "l_spec (repair_sentinel_links j) (repaired i ys z) Q E \<longleftrightarrow> Q () (repaired j xs (repaired i ys z))" for Q E
    by (rule repair_spec) (use C(3) vo alive ends s xe ye in \<open>auto simp: z_def crossed_def repaired_def\<close>)
  have r3: "mem_ok T (repaired j xs (repaired i ys z)) (C(i \<mapsto> (al', ys), j \<mapsto> (bl', xs)))"
    unfolding z_def
    by (rule swap_links [OF ok C _ _ v_def refl]) (use t in \<open>auto simp: al'_def bl'_def alloc_eq_def\<close>)
  have v': "upd_object j (\<lambda>b. b\<lparr>lo_alloc := al\<rparr>) (upd_object i (\<lambda>b. b\<lparr>lo_alloc := bl\<rparr>) w) = v" if "lt_swap T"
    using that by (simp add: v_def al'_def bl'_def)
  have z': "upd_object j (\<lambda>b. b\<lparr>lo_size := length xs\<rparr>) (upd_object i (\<lambda>b. b\<lparr>lo_size := length ys\<rparr>)
     (upd_prev (Sentinel j) (before i xs) (upd_prev (Sentinel i) (before j ys)
     (upd_next (Sentinel j) (at i xs) (upd_next (Sentinel i) (at j ys) v))))) = z"
    by (simp add: z_def crossed_def)
  note simps = li_swap_def set_allocator_def set_size_def z' r1 r2
  show ?thesis
  proof (cases "lt_swap T")
    case True
    then show ?thesis
      using C(3) ob alive vo v' [OF True] r3
      by (simp add: simps spec_sentinel [OF s(1,2,3)] spec_sentinel [OF s(4,5,6)] al'_def bl'_def)
  next
    case False
    then show ?thesis
      using C(3) ob alive vo t z' keep [OF False] r3 sw
      by (simp add: simps spec_sentinel [OF sw(1,2,3)] spec_sentinel [OF sw(4,5,6)] al'_def bl'_def)
  qed
qed

section \<open>Copies and moves\<close>

lemma begin_is_at:
  "mem_ok T w C \<Longrightarrow> C i = Some (al, xs) \<Longrightarrow> l_spec (li_begin i) w Q E \<longleftrightarrow> Q (at i xs) w"
  using list_ok_begin [OF mem_ok_list, of T w C i al xs] by (simp add: li_begin_next)

lemma allocator_is:
  "mem_ok T w C \<Longrightarrow> C i = Some (al, xs) \<Longrightarrow> l_spec (get_allocator i) w Q E \<longleftrightarrow> Q al w"
  using list_ok_object [OF mem_ok_list, of T w C i al xs] by (simp add: get_allocator_def)

lemma copy_from_begin:
  assumes "mem_ok T w (C(i \<mapsto> (al, [])))" "C j = Some (bl, ys)" "i \<noteq> j"
  shows "l_spec (l_bind (li_begin j) (copy_loop T i j)) w
    (\<lambda>_ w'. \<exists>zs. map snd zs = map snd ys \<and> mem_ok T w' (C(i \<mapsto> (al, zs))))
    (\<lambda>e w'. list_throws e \<and> (\<exists>zs. mem_ok T w' (C(i \<mapsto> (al, zs)))))"
proof -
  have j: "(C(i \<mapsto> (al, []))) j = Some (bl, ys)" using assms by simp
  show ?thesis
    using copy_loop_spec [OF assms(1), of j bl "[]" ys i al "[]"] assms
    unfolding fun_upd_upd spec_bind begin_is_at [OF assms(1) j] by simp
qed

lemma clear_upd:
  assumes "mem_ok T w (C(i \<mapsto> (al, zs)))"
  shows "l_spec (li_clear T i) w (\<lambda>_ w'. mem_ok T w' (C(i \<mapsto> (al, [])))) (\<lambda>_ _. False)"
  using list_clear_spec [OF assms, of i al zs] unfolding fun_upd_upd by simp

lemma drop_upd:
  assumes "mem_ok T w (C(i \<mapsto> (al, [])))" "C i = None"
  shows "l_spec (li_drop i) w (\<lambda>_ w'. mem_ok T w' C) (\<lambda>_ _. False)"
  using drop_spec [OF assms(1), of i al] unfolding fun_upd_upd fun_upd_idem [of C i None, OF assms(2)] by simp

lemma destroy_upd:
  assumes "mem_ok T w (C(i \<mapsto> (al, zs)))" "C i = None"
  shows "l_spec (li_destroy T i) w (\<lambda>_ w'. mem_ok T w' C) (\<lambda>_ _. False)"
  using destroy_list_spec [OF assms(1), of i al zs] unfolding fun_upd_upd fun_upd_idem [of C i None, OF assms(2)] by simp

lemma copy_spec:
  assumes ok: "mem_ok T w C" and C: "C i = None" "C j = Some (bl, ys)"
  shows "l_spec (li_copy T i j) w
    (\<lambda>_ w'. \<exists>zs. map snd zs = map snd ys \<and> mem_ok T w' (C(i \<mapsto> (lt_select T bl, zs))))
    (\<lambda>e w'. list_throws e \<and> mem_ok T w' C)"
  unfolding li_copy_def spec_bind allocator_is [OF ok C(2)] spec_then
proof (rule spec_mono [OF new_spec [OF ok C(1)]])
  let ?al = "lt_select T bl"
  let ?Q = "\<lambda>_ w'. \<exists>zs. map snd zs = map snd ys \<and> mem_ok T w' (C(i \<mapsto> (?al, zs)))"
  fix w1 assume w1: "mem_ok T w1 (C(i \<mapsto> (?al, [])))"
  have "i \<noteq> j" using C by auto
  note loop = copy_from_begin [OF w1 C(2) this]
  have clear: "l_spec (l_cleanup (l_bind (li_begin j) (copy_loop T i j)) (li_clear T i)) w1 ?Q
      (\<lambda>e w. list_throws e \<and> mem_ok T w (C(i \<mapsto> (?al, []))))"
  proof (rule cleanup_rule [OF loop])
    fix e w2 assume e: "list_throws e \<and> (\<exists>zs. mem_ok T w2 (C(i \<mapsto> (?al, zs))))"
    then obtain zs where zs: "mem_ok T w2 (C(i \<mapsto> (?al, zs)))" by blast
    show "e \<noteq> L_Undefined \<and> e \<noteq> L_Abort \<and> l_spec (li_clear T i) w2
        (\<lambda>_ w. list_throws e \<and> mem_ok T w (C(i \<mapsto> (?al, [])))) (\<lambda>e w. list_throws e \<and> mem_ok T w (C(i \<mapsto> (?al, []))))"
      using spec_mono [OF clear_upd [OF zs]] e by (auto simp: list_throws_def)
  qed
  show "l_spec (l_cleanup (l_cleanup (l_bind (li_begin j) (copy_loop T i j)) (li_clear T i)) (li_drop i)) w1 ?Q
      (\<lambda>e w'. list_throws e \<and> mem_ok T w' C)"
  proof (rule cleanup_rule [OF clear])
    fix e w2 assume e: "list_throws e \<and> mem_ok T w2 (C(i \<mapsto> (?al, [])))"
    then show "e \<noteq> L_Undefined \<and> e \<noteq> L_Abort \<and> l_spec (li_drop i) w2
        (\<lambda>_ w. list_throws e \<and> mem_ok T w C) (\<lambda>e w. list_throws e \<and> mem_ok T w C)"
      using spec_mono [OF drop_upd [OF conjunct2 [OF e] C(1)]] by (auto simp: list_throws_def)
  qed
qed simp

lemma move_spec:
  assumes ok: "mem_ok T w C" and C: "C i = None" "C j = Some (bl, ys)"
  shows "l_spec (li_move i j) w (\<lambda>_ w'. mem_ok T w' (C(i \<mapsto> (bl, ys), j \<mapsto> (bl, [])))) (\<lambda>_ _. False)"
  unfolding li_move_def spec_bind allocator_is [OF ok C(2)] spec_then
proof (rule spec_mono [OF new_spec [OF ok C(1)]])
  fix w1 assume w1: "mem_ok T w1 (C(i \<mapsto> (bl, [])))"
  have "i \<noteq> j" using C by auto
  then show "l_spec (steal_nodes_from i j) w1 (\<lambda>_ w'. mem_ok T w' (C(i \<mapsto> (bl, ys), j \<mapsto> (bl, [])))) (\<lambda>_ _. False)"
    using steal_spec [OF w1, of i bl j bl ys] C unfolding fun_upd_upd by simp
qed simp

lemma set_allocator_spec:
  assumes ok: "mem_ok T w (C(i \<mapsto> (al, [])))"
  shows "l_spec (set_allocator i bl) w (\<lambda>_ w'. mem_ok T w' (C(i \<mapsto> (bl, [])))) (\<lambda>_ _. False)"
proof -
  have i: "list_ok T w i (Some (al, []))" using mem_ok_list [OF ok, of i al "[]"] by simp
  have "mem_ok T (upd_object i (\<lambda>b. b\<lparr>lo_alloc := bl\<rparr>) w) (C(i \<mapsto> (al, []), i \<mapsto> (bl, [])))"
    by (rule mem_ok_shrink [OF ok, of i al "[]"])
      (use i in \<open>auto simp: same_at_def list_ok_def ring_def vals_ok_def\<close>)
  then show ?thesis unfolding fun_upd_upd using list_ok_object [OF i] by (simp add: set_allocator_def)
qed

text \<open>The body of copy assignment after the copy is made: nothing can throw any more.\<close>

lemma copy_assign_commit:
  assumes ok: "mem_ok T w (C(t \<mapsto> (cl, zs)))" and C: "C i = Some (al, xs)" "C j = Some (bl, ys)" "C t = None" "i \<noteq> j"
    and cl: "cl = (if lt_copy_assignment T then bl else al)"
  shows "l_spec (l_then (li_clear T i)
      (l_then (if lt_copy_assignment T then l_bind (get_allocator j) (set_allocator i) else l_return ())
      (l_then (steal_nodes_from i t) (li_destroy T t)))) w
    (\<lambda>_ w'. mem_ok T w' (C(i \<mapsto> (cl, zs)))) (\<lambda>_ _. False)"
proof -
  have ne: "t \<noteq> i" "t \<noteq> j" using C by auto
  let ?D = "C(t \<mapsto> (cl, zs))"
  have last: "l_spec (l_then (steal_nodes_from i t) (li_destroy T t)) w1
      (\<lambda>_ w'. mem_ok T w' (C(i \<mapsto> (cl, zs)))) (\<lambda>_ _. False)" if w1: "mem_ok T w1 (?D(i \<mapsto> (cl, [])))" for w1
    unfolding spec_then
  proof (rule spec_mono)
    show "l_spec (steal_nodes_from i t) w1 (\<lambda>_ w'. mem_ok T w' (?D(i \<mapsto> (cl, []), i \<mapsto> (cl, zs), t \<mapsto> (cl, [])))) (\<lambda>_ _. False)"
      by (rule steal_spec [OF w1]) (use ne in auto)
    fix w2 assume "mem_ok T w2 (?D(i \<mapsto> (cl, []), i \<mapsto> (cl, zs), t \<mapsto> (cl, [])))"
    moreover have "?D(i \<mapsto> (cl, []), i \<mapsto> (cl, zs), t \<mapsto> (cl, [])) = (C(i \<mapsto> (cl, zs)))(t \<mapsto> (cl, []))"
      using ne by (auto simp: fun_eq_iff)
    ultimately have w2: "mem_ok T w2 ((C(i \<mapsto> (cl, zs)))(t \<mapsto> (cl, [])))" by (simp only:)
    show "l_spec (li_destroy T t) w2 (\<lambda>_ w'. mem_ok T w' (C(i \<mapsto> (cl, zs)))) (\<lambda>_ _. False)"
      by (rule destroy_upd [OF w2]) (use C ne in simp)
  qed
  have i: "?D i = Some (al, xs)" using C ne by simp
  show ?thesis
    unfolding spec_then
  proof (rule spec_mono [OF list_clear_spec [OF ok i]])
    fix w1 assume w1: "mem_ok T w1 (?D(i \<mapsto> (al, [])))"
    have j: "(?D(i \<mapsto> (al, []))) j = Some (bl, ys)" using C ne by simp
    have "l_spec (if lt_copy_assignment T then l_bind (get_allocator j) (set_allocator i) else l_return ()) w1
        (\<lambda>_ w'. mem_ok T w' (?D(i \<mapsto> (cl, [])))) (\<lambda>_ _. False)"
      using set_allocator_spec [OF w1, of bl] w1 cl unfolding spec_if spec_bind allocator_is [OF w1 j] spec_return
      by (cases "lt_copy_assignment T") simp_all
    then show "l_spec (if lt_copy_assignment T then l_bind (get_allocator j) (set_allocator i) else l_return ()) w1
        (\<lambda>_ w. l_spec (steal_nodes_from i t) w (\<lambda>_ w. l_spec (li_destroy T t) w
          (\<lambda>_ w'. mem_ok T w' (C(i \<mapsto> (cl, zs)))) (\<lambda>_ _. False)) (\<lambda>_ _. False)) (\<lambda>_ _. False)"
      by (rule spec_mono) (use last in simp_all)
  qed simp
qed

lemma copy_assign_spec:
  assumes ok: "mem_ok T w C" and C: "C i = Some (al, xs)" "C j = Some (bl, ys)" "C t = None" "i \<noteq> j"
    and cl: "cl = (if lt_copy_assignment T then bl else al)"
  shows "l_spec (li_copy_assign T t i j) w
    (\<lambda>_ w'. \<exists>zs. map snd zs = map snd ys \<and> mem_ok T w' (C(i \<mapsto> (cl, zs)))) (\<lambda>e w'. list_throws e \<and> mem_ok T w' C)"
proof -
  let ?rest = "l_then (li_clear T i)
      (l_then (if lt_copy_assignment T then l_bind (get_allocator j) (set_allocator i) else l_return ())
      (l_then (steal_nodes_from i t) (li_destroy T t)))"
  have ne: "t \<noteq> j" using C by auto
  have copy: "l_spec (l_cleanup (l_bind (li_begin j) (copy_loop T t j)) (li_destroy T t)) w1
      (\<lambda>_ w'. \<exists>zs. map snd zs = map snd ys \<and> mem_ok T w' (C(t \<mapsto> (cl, zs)))) (\<lambda>e w'. list_throws e \<and> mem_ok T w' C)"
    if w1: "mem_ok T w1 (C(t \<mapsto> (cl, [])))" for w1
  proof (rule cleanup_rule [OF copy_from_begin [OF w1 C(2) ne]])
    fix e w2 assume e: "list_throws e \<and> (\<exists>zs. mem_ok T w2 (C(t \<mapsto> (cl, zs))))"
    then obtain zs where zs: "mem_ok T w2 (C(t \<mapsto> (cl, zs)))" by blast
    show "e \<noteq> L_Undefined \<and> e \<noteq> L_Abort \<and> l_spec (li_destroy T t) w2
        (\<lambda>_ w. list_throws e \<and> mem_ok T w C) (\<lambda>e w. list_throws e \<and> mem_ok T w C)"
      using spec_mono [OF destroy_upd [OF zs C(3)]] e by (auto simp: list_throws_def)
  qed
  have rest: "l_spec ?rest w2 (\<lambda>_ w'. \<exists>zs. map snd zs = map snd ys \<and> mem_ok T w' (C(i \<mapsto> (cl, zs))))
      (\<lambda>e w'. list_throws e \<and> mem_ok T w' C)"
    if made: "\<exists>zs. map snd zs = map snd ys \<and> mem_ok T w2 (C(t \<mapsto> (cl, zs)))" for w2
  proof -
    obtain zs where zs: "map snd zs = map snd ys" "mem_ok T w2 (C(t \<mapsto> (cl, zs)))" using made by blast
    show ?thesis
    proof (rule spec_mono [OF copy_assign_commit [OF zs(2) C cl]])
      show "\<exists>zs. map snd zs = map snd ys \<and> mem_ok T w3 (C(i \<mapsto> (cl, zs)))" if "mem_ok T w3 (C(i \<mapsto> (cl, zs)))" for w3
        using that zs(1) by blast
    qed simp
  qed
  have body: "l_spec (l_then (l_cleanup (l_bind (li_begin j) (copy_loop T t j)) (li_destroy T t)) ?rest) w1
      (\<lambda>_ w'. \<exists>zs. map snd zs = map snd ys \<and> mem_ok T w' (C(i \<mapsto> (cl, zs)))) (\<lambda>e w'. list_throws e \<and> mem_ok T w' C)"
    if "mem_ok T w1 (C(t \<mapsto> (cl, [])))" for w1
    unfolding spec_then [of "l_cleanup _ _"] by (rule spec_mono [OF copy [OF that]]) (rule rest, assumption)
  have alloc: "l_spec (get_allocator (if lt_copy_assignment T then j else i)) w Q E \<longleftrightarrow> Q cl w" for Q E
    using allocator_is [OF ok C(1)] allocator_is [OF ok C(2)] cl by simp
  show ?thesis
    unfolding li_copy_assign_def if_not_P [OF C(4)] spec_bind alloc spec_then [of "li_new t cl"]
    by (rule spec_mono [OF new_spec [OF ok C(3)]]) (rule body, assumption, simp)
qed

lemma set_value_spec:
  assumes ok: "mem_ok T w C" and C: "C j = Some (bl, ys0 @ p # ys)"
  shows "l_spec (l_update (Node (fst p)) (\<lambda>n. n\<lparr>ln_value := Some v\<rparr>)) w
    (\<lambda>_ w'. mem_ok T w' (C(j \<mapsto> (bl, ys0 @ (fst p, v) # ys)))) (\<lambda>_ _. False)"
proof -
  note j = mem_ok_list [OF ok C]
  let ?u = "upd_value (Node (fst p)) (Some v) w"
  obtain cl where cl: "val w (Node (fst p)) = Some (Some (snd p), Some cl)" "alloc_eq T cl bl"
    using list_ok_val [OF j, of p] by auto
  have "mem_ok T ?u (C(j \<mapsto> (bl, ys0 @ (fst p, v) # ys)))"
  proof (rule mem_ok_shrink [OF ok C])
    have d: "distinct (map fst (ys0 @ p # ys))" and r: "path w (ring j (map fst (ys0 @ p # ys)))"
      using j by (simp_all only: list_ok_def option.case prod.case)
    have path: "path ?u as = path w as" for as by (rule path_cong) simp_all
    have out: "fst p \<notin> fst ` set ys0" "fst p \<notin> fst ` set ys" using d by auto
    have "vals_ok T ?u bl ys0 = vals_ok T w bl ys0" "vals_ok T ?u bl ys = vals_ok T w bl ys"
      using out by (intro vals_cong; metis upd_simps(9) link.inject(2))+
    then have "vals_ok T ?u bl (ys0 @ (fst p, v) # ys)" using j cl by (auto simp: list_ok_def vals_ok_def)
    then show "list_ok T ?u j (Some (bl, ys0 @ (fst p, v) # ys))" using j d r path by (simp add: list_ok_def)
  qed (auto simp: same_at_def)
  then show ?thesis using cl by (simp add: val_live)
qed

lemma move_loop_spec:
  assumes "mem_ok T w C" "C j = Some (bl, ys0 @ ys)" "C i = Some (al, xs)" "i \<noteq> j"
  shows "l_spec (move_loop T i j (at j ys)) w
    (\<lambda>_ w'. \<exists>zs vs. map snd zs = map snd ys \<and> mem_ok T w' (C(i \<mapsto> (al, xs @ zs), j \<mapsto> (bl, vs))))
    (\<lambda>e w'. list_throws e \<and> (\<exists>zs vs. length vs = length (ys0 @ ys) \<and> mem_ok T w' (C(i \<mapsto> (al, xs @ zs), j \<mapsto> (bl, vs)))))"
  using assms
proof (induction ys arbitrary: w C xs ys0)
  case Nil
  have e: "l_spec (move_loop T i j (at j [])) w Q E \<longleftrightarrow> Q () w" for Q E
    by (subst spec_cong [of _ _ "l_return ()"]) (simp_all add: move_loop.simps li_end_def)
  have "C(i \<mapsto> (al, xs @ []), j \<mapsto> (bl, ys0)) = C" using Nil by (auto simp: fun_eq_iff)
  then have "\<exists>zs vs. map snd zs = map snd ([] :: (nat \<times> 'a) list) \<and> mem_ok T w (C(i \<mapsto> (al, xs @ zs), j \<mapsto> (bl, vs)))"
    using Nil by (intro exI [of _ "[]"] exI [of _ ys0]) (simp only: simp_thms)
  then show ?case by (simp only: e)
next
  case (Cons p ys)
  have same: "C(i \<mapsto> (al, xs @ []), j \<mapsto> (bl, ys0 @ p # ys)) = C" using Cons.prems by (auto simp: fun_eq_iff)
  let ?x = "Node (fst p)"
  let ?Q = "\<lambda>_ w'. \<exists>zs vs. map snd zs = map snd (p # ys) \<and> mem_ok T w' (C(i \<mapsto> (al, xs @ zs), j \<mapsto> (bl, vs)))"
  let ?E = "\<lambda>e w'. list_throws e \<and> (\<exists>zs vs. length vs = length (ys0 @ p # ys) \<and> mem_ok T w' (C(i \<mapsto> (al, xs @ zs), j \<mapsto> (bl, vs))))"
  let ?tail = "l_then (l_update ?x (\<lambda>n. n\<lparr>ln_value := Some (lt_moved T (snd p))\<rparr>)) (l_bind (it_next ?x) (\<lambda>it. move_loop T i j it))"
  have unfold: "move_loop T i j (at j (p # ys)) w = l_bind (it_value ?x) (\<lambda>v. l_then (li_push_back T i v)
      (l_then (l_update ?x (\<lambda>n. n\<lparr>ln_value := Some (lt_moved T v)\<rparr>)) (l_bind (it_next ?x) (\<lambda>it. move_loop T i j it)))) w"
    by (subst move_loop.simps) (simp add: li_end_def)
  obtain cl where cl: "val w ?x = Some (Some (snd p), Some cl)"
    using list_ok_here(1) [OF mem_ok_list [OF Cons.prems(1,2)]] by blast
  have e: "l_spec (move_loop T i j (at j (p # ys))) w Q E \<longleftrightarrow> l_spec (l_then (li_push_back T i (snd p)) ?tail) w Q E" for Q E
  proof -
    have "l_spec (move_loop T i j (at j (p # ys))) w Q E \<longleftrightarrow> l_spec (l_bind (it_value ?x) (\<lambda>v. l_then (li_push_back T i v)
        (l_then (l_update ?x (\<lambda>n. n\<lparr>ln_value := Some (lt_moved T v)\<rparr>)) (l_bind (it_next ?x) (\<lambda>it. move_loop T i j it))))) w Q E"
      by (simp only: l_spec_def unfold)
    then show ?thesis using cl by simp
  qed
  let ?a = "(lm_fresh w, snd p)"
  have cont: "l_spec (l_bind (it_next ?x) (\<lambda>it. move_loop T i j it)) w' ?Q ?E"
    if w': "mem_ok T w' (C(i \<mapsto> (al, xs @ [?a]), j \<mapsto> (bl, ys0 @ (fst p, v) # ys)))" for w' v
  proof -
    let ?D = "C(i \<mapsto> (al, xs @ [?a]), j \<mapsto> (bl, ys0 @ (fst p, v) # ys))"
    have D: "?D j = Some (bl, ys0 @ (fst p, v) # ys)" by simp
    have twist: "?D(i \<mapsto> (al, (xs @ [?a]) @ zs), j \<mapsto> (bl, vs)) = C(i \<mapsto> (al, xs @ ?a # zs), j \<mapsto> (bl, vs))" for zs vs
      using Cons.prems(4) by (auto simp: fun_eq_iff)
    have "l_spec (move_loop T i j (at j ys)) w' ?Q ?E"
    proof (rule spec_mono [OF Cons.IH [OF w', of "ys0 @ [(fst p, v)]" "xs @ [?a]"]])
      fix u assume "\<exists>zs vs. map snd zs = map snd ys \<and> mem_ok T u (?D(i \<mapsto> (al, (xs @ [?a]) @ zs), j \<mapsto> (bl, vs)))"
      then obtain zs vs where z: "map snd zs = map snd ys" "mem_ok T u (C(i \<mapsto> (al, xs @ ?a # zs), j \<mapsto> (bl, vs)))"
        unfolding twist by blast
      show "?Q () u" by (rule exI [of _ "?a # zs"], rule exI [of _ vs]) (use z in simp)
    next
      fix e u assume "list_throws e \<and> (\<exists>zs vs. length vs = length ((ys0 @ [(fst p, v)]) @ ys) \<and>
        mem_ok T u (?D(i \<mapsto> (al, (xs @ [?a]) @ zs), j \<mapsto> (bl, vs))))"
      then obtain zs vs where z: "list_throws e" "length vs = length (ys0 @ p # ys)" "mem_ok T u (C(i \<mapsto> (al, xs @ ?a # zs), j \<mapsto> (bl, vs)))"
        unfolding twist by auto
      show "?E e u" by (rule conjI [OF z(1)], rule exI [of _ "?a # zs"], rule exI [of _ vs]) (use z in simp)
    qed (use Cons.prems in simp_all)
    then show ?thesis using list_ok_here(2) [OF mem_ok_list [OF w' D]] by simp
  qed
  have "l_spec ?tail w1 ?Q ?E" if w1: "mem_ok T w1 (C(i \<mapsto> (al, xs @ [?a])))" for w1
    unfolding spec_then
  proof (rule spec_mono [OF set_value_spec [OF w1]])
    show "(C(i \<mapsto> (al, xs @ [?a]))) j = Some (bl, ys0 @ p # ys)" using Cons.prems by simp
  qed (rule cont, assumption, simp)
  note tail = this
  have "l_spec (l_then (li_push_back T i (snd p)) ?tail) w ?Q ?E"
    unfolding spec_then [of "li_push_back _ _ _"]
  proof (rule spec_mono [OF push_back_spec [OF Cons.prems(1,3)]])
    show "l_spec ?tail w1 ?Q ?E" if "mem_ok T w1 (C(i \<mapsto> (al, xs @ [?a])))" for w1 using that by (rule tail)
    fix e u assume "list_throws e \<and> mem_ok T u C"
    then have "list_throws e" "mem_ok T u (C(i \<mapsto> (al, xs @ []), j \<mapsto> (bl, ys0 @ p # ys)))" by (simp_all only: same)
    then show "?E e u" by blast
  qed
  then show ?case unfolding e .
qed

lemma move_assign_spec:
  assumes ok: "mem_ok T w C" and C: "C i = Some (al, xs)" "C j = Some (bl, ys)" "i \<noteq> j"
    and cl: "cl = (if lt_move_assignment T then bl else al)"
  shows "l_spec (li_move_assign T i j) w
    (\<lambda>_ w'. \<exists>zs. map snd zs = map snd ys \<and> mem_ok T w' (C(i \<mapsto> (cl, zs), j \<mapsto> (bl, []))))
    (\<lambda>e w'. list_throws e \<and> \<not> lt_move_assignment T \<and> \<not> alloc_eq T al bl \<and>
      (\<exists>zs vs. length vs = length ys \<and> mem_ok T w' (C(i \<mapsto> (al, zs), j \<mapsto> (bl, vs)))))"
  unfolding li_move_assign_def if_not_P [OF C(3)] spec_then [of "li_clear T i"]
proof (rule spec_mono [OF list_clear_spec [OF ok C(1)]])
  let ?Q = "\<lambda>_ w'. \<exists>zs. map snd zs = map snd ys \<and> mem_ok T w' (C(i \<mapsto> (cl, zs), j \<mapsto> (bl, [])))"
  let ?E = "\<lambda>e w'. list_throws e \<and> \<not> lt_move_assignment T \<and> \<not> alloc_eq T al bl \<and>
      (\<exists>zs vs. length vs = length ys \<and> mem_ok T w' (C(i \<mapsto> (al, zs), j \<mapsto> (bl, vs))))"
  fix w1 assume w1: "mem_ok T w1 (C(i \<mapsto> (al, [])))"
  have i: "(C(i \<mapsto> (al, []))) i = Some (al, [])" and j: "(C(i \<mapsto> (al, []))) j = Some (bl, ys)" using C by simp_all
  have steal: "l_spec (steal_nodes_from i j) w2 ?Q ?E"
    if w2: "mem_ok T w2 (C(i \<mapsto> (cl, [])))" and e: "\<And>dl. alloc_eq T dl bl \<Longrightarrow> alloc_eq T dl cl" for w2
  proof (rule spec_mono)
    show "l_spec (steal_nodes_from i j) w2 (\<lambda>_ w'. mem_ok T w' (C(i \<mapsto> (cl, []), i \<mapsto> (cl, ys), j \<mapsto> (bl, [])))) (\<lambda>_ _. False)"
      by (rule steal_spec [OF w2 _ _ C(3) e]) (use C in simp_all)
    show "?Q () w3" if "mem_ok T w3 (C(i \<mapsto> (cl, []), i \<mapsto> (cl, ys), j \<mapsto> (bl, [])))" for w3
      using that unfolding fun_upd_upd by blast
  qed simp
  consider "lt_move_assignment T" | "\<not> lt_move_assignment T" "alloc_eq T al bl" | "\<not> lt_move_assignment T" "\<not> alloc_eq T al bl" by blast
  then show "l_spec (if lt_move_assignment T
         then l_then (l_bind (get_allocator j) (set_allocator i)) (steal_nodes_from i j)
         else if lt_always_equal T then steal_nodes_from i j
         else l_bind (get_allocator i) (\<lambda>a. l_bind (get_allocator j) (\<lambda>b.
           if alloc_eq T a b then steal_nodes_from i j
           else l_then (l_bind (li_begin j) (move_loop T i j)) (li_clear T j)))) w1 ?Q ?E"
  proof cases
    case 1
    have "l_spec (set_allocator i bl) w1 (\<lambda>_ w2. l_spec (steal_nodes_from i j) w2 ?Q ?E) ?E"
      by (rule spec_mono [OF set_allocator_spec [OF w1]]) (use 1 cl steal in auto)
    then show ?thesis unfolding if_P [OF 1] spec_then spec_bind allocator_is [OF w1 j] .
  next
    case 2
    then have "l_spec (steal_nodes_from i j) w1 ?Q ?E"
      using w1 cl by (intro steal) (auto simp: alloc_eq_def)
    then show ?thesis
      unfolding spec_if spec_bind allocator_is [OF w1 j] allocator_is [OF w1 i] if_not_P [OF 2(1)] if_P [OF 2(2)] if_cancel .
  next
    case 3
    have "l_spec (l_then (move_loop T i j (at j ys)) (li_clear T j)) w1 ?Q ?E"
      unfolding spec_then
    proof (rule spec_mono)
      let ?D = "C(i \<mapsto> (al, []))"
      show "l_spec (move_loop T i j (at j ys)) w1
          (\<lambda>_ w'. \<exists>zs vs. map snd zs = map snd ys \<and> mem_ok T w' (?D(i \<mapsto> (al, [] @ zs), j \<mapsto> (bl, vs))))
          (\<lambda>e w'. list_throws e \<and> (\<exists>zs vs. length vs = length ([] @ ys) \<and> mem_ok T w' (?D(i \<mapsto> (al, [] @ zs), j \<mapsto> (bl, vs)))))"
        by (rule move_loop_spec [OF w1 _ i C(3)]) (use j in simp)
      show "l_spec (li_clear T j) w2 ?Q ?E"
        if moved: "\<exists>zs vs. map snd zs = map snd ys \<and> mem_ok T w2 (?D(i \<mapsto> (al, [] @ zs), j \<mapsto> (bl, vs)))" for w2
      proof -
        obtain zs vs where z: "map snd zs = map snd ys" "mem_ok T w2 (C(i \<mapsto> (al, zs), j \<mapsto> (bl, vs)))"
          using moved unfolding append_Nil fun_upd_upd by blast
        show ?thesis by (rule spec_mono [OF clear_upd [OF z(2)]]) (use z(1) cl 3 in auto)
      qed
      show "?E e u" if thrown: "list_throws e \<and> (\<exists>zs vs. length vs = length ([] @ ys) \<and> mem_ok T u (?D(i \<mapsto> (al, [] @ zs), j \<mapsto> (bl, vs))))" for e u
        using thrown 3 unfolding append_Nil fun_upd_upd by blast
    qed
    moreover have "\<not> lt_always_equal T" using 3 by (simp add: alloc_eq_def)
    ultimately show ?thesis
      unfolding spec_if spec_bind spec_then allocator_is [OF w1 j] allocator_is [OF w1 i] begin_is_at [OF w1 j]
      by (simp only: 3 if_False)
  qed
qed simp

end
