(* ===== verification/Sentinel_Program.thy ===== *)
theory Sentinel_Program
  imports Sentinel_List_Correct
begin

text \<open>
  Programs over several \<open>ds::List\<close> objects, and their specification by lists of values: a command has
  a precondition on the values and a relation between the values before, the result and the values after. What a program does next
  depends on the result or the exception of its last command, so that it can leave an object alone whose
  constructor threw.
\<close>

section \<open>Commands\<close>

datatype ('a, 'al) list_command =
  LC_New nat 'al
| LC_From nat "'a list" 'al
| LC_Copy nat nat
| LC_Move nat nat
| LC_Destroy nat
| LC_Assign nat nat nat
| LC_Move_Assign nat nat
| LC_Swap nat nat
| LC_Push_Front nat 'a
| LC_Push_Back nat 'a
| LC_Emplace_Front nat 'a
| LC_Emplace_Back nat 'a
| LC_Insert nat nat 'a
| LC_Erase nat nat
| LC_Erase_Range nat nat nat
| LC_Pop_Front nat
| LC_Pop_Back nat
| LC_Clear nat
| LC_Front nat
| LC_Back nat
| LC_Size nat
| LC_Equal nat nat

datatype 'a list_result = LR_Done | LR_Value 'a | LR_Number nat | LR_Truth bool

fun advance :: "nat \<Rightarrow> link \<Rightarrow> (link, ('a, 'al) list_memory) member" where
  "advance 0 x = l_return x"
| "advance (Suc n) x = l_bind (it_next x) (advance n)"

definition li_iterator :: "nat \<Rightarrow> nat \<Rightarrow> (link, ('a, 'al) list_memory) member" where
  "li_iterator i n = l_bind (li_begin i) (advance n)"

definition l_done :: "(unit, 'w) member \<Rightarrow> ('a list_result, 'w) member" where
  "l_done m = l_bind m (\<lambda>_. l_return LR_Done)"

definition l_value :: "('a, 'w) member \<Rightarrow> ('a list_result, 'w) member" where
  "l_value m = l_bind m (\<lambda>v. l_return (LR_Value v))"

fun run_command :: "('a, 'al) list_traits \<Rightarrow> ('a, 'al) list_command \<Rightarrow> ('a list_result, ('a, 'al) list_memory) member" where
  "run_command T (LC_New i al) = l_done (li_new i al)"
| "run_command T (LC_From i vs al) = l_done (li_from_values T i vs al)"
| "run_command T (LC_Copy i j) = l_done (li_copy T i j)"
| "run_command T (LC_Move i j) = l_done (li_move i j)"
| "run_command T (LC_Destroy i) = l_done (li_destroy T i)"
| "run_command T (LC_Assign t i j) = l_done (li_copy_assign T t i j)"
| "run_command T (LC_Move_Assign i j) = l_done (li_move_assign T i j)"
| "run_command T (LC_Swap i j) = l_done (li_swap T i j)"
| "run_command T (LC_Push_Front i v) = l_done (li_push_front T i v)"
| "run_command T (LC_Push_Back i v) = l_done (li_push_back T i v)"
| "run_command T (LC_Emplace_Front i v) = l_value (li_emplace_front T i v)"
| "run_command T (LC_Emplace_Back i v) = l_value (li_emplace_back T i v)"
| "run_command T (LC_Insert i n v) = l_value (l_bind (li_iterator i n) (\<lambda>p. l_bind (li_insert T i p v) it_value))"
| "run_command T (LC_Erase i n) = l_done (l_bind (li_iterator i n) (\<lambda>p. l_bind (li_erase T i p) (\<lambda>_. l_return ())))"
| "run_command T (LC_Erase_Range i m n) = l_done (l_bind (li_iterator i m) (\<lambda>p. l_bind (li_iterator i n) (\<lambda>q.
     l_bind (li_erase_range T i p q) (\<lambda>_. l_return ()))))"
| "run_command T (LC_Pop_Front i) = l_done (li_pop_front T i)"
| "run_command T (LC_Pop_Back i) = l_done (li_pop_back T i)"
| "run_command T (LC_Clear i) = l_done (li_clear T i)"
| "run_command T (LC_Front i) = l_value (li_front i)"
| "run_command T (LC_Back i) = l_value (li_back i)"
| "run_command T (LC_Size i) = l_bind (li_size i) (\<lambda>n. l_return (LR_Number n))"
| "run_command T (LC_Equal i j) = l_bind (li_equal i j) (\<lambda>b. l_return (LR_Truth b))"

text \<open>
  A program looks at the result of a command, a value or an exception, before it goes on: where a
  constructor threw there is no object that could be used or destroyed.
\<close>

datatype ('a, 'al) list_program =
  Stop
| Do "('a, 'al) list_command" "list_exn + 'a list_result \<Rightarrow> ('a, 'al) list_program"

primrec run_list_program :: "('a, 'al) list_traits \<Rightarrow> ('a, 'al) list_program \<Rightarrow> ('a, 'al) list_memory \<Rightarrow>
    ((list_exn + 'a list_result) list \<times> ('a, 'al) list_memory) option" where
  "run_list_program T Stop w = Some ([], w)"
| "run_list_program T (Do c k) w = Option.bind (run_command T c w) (\<lambda>(r, w).
     Option.bind (run_list_program T (k r) w) (\<lambda>(rs, w). Some (r # rs, w)))"

definition then_do :: "('a, 'al) list_command \<Rightarrow> ('a, 'al) list_program \<Rightarrow> ('a, 'al) list_program" where
  "then_do c p = Do c (\<lambda>_. p)"

text \<open>\<open>try\<close> and \<open>catch\<close> around one command.\<close>

definition try_catch :: "('a, 'al) list_command \<Rightarrow> ('a, 'al) list_program \<Rightarrow> ('a, 'al) list_program \<Rightarrow> ('a, 'al) list_program" where
  "try_catch c p q = Do c (\<lambda>r. if isl r then q else p)"

text \<open>A sequence of commands that goes on after every exception.\<close>

primrec straight :: "('a, 'al) list_command list \<Rightarrow> ('a, 'al) list_program" where
  "straight [] = Stop"
| "straight (c # cs) = then_do c (straight cs)"

definition empty_memory :: "outcome list \<Rightarrow> ('a, 'al) list_memory" where
  "empty_memory plan = \<lparr>lm_nodes = (\<lambda>_. None), lm_objects = (\<lambda>_. None), lm_fresh = 0, lm_plan = plan\<rparr>"

section \<open>The specification\<close>

type_synonym ('a, 'al) list_values = "nat \<Rightarrow> ('al \<times> 'a list) option"

fun list_pre :: "('a, 'al) list_traits \<Rightarrow> ('a, 'al) list_values \<Rightarrow> ('a, 'al) list_command \<Rightarrow> bool" where
  "list_pre T A (LC_New i al) \<longleftrightarrow> A i = None"
| "list_pre T A (LC_From i vs al) \<longleftrightarrow> A i = None"
| "list_pre T A (LC_Copy i j) \<longleftrightarrow> A i = None \<and> A j \<noteq> None"
| "list_pre T A (LC_Move i j) \<longleftrightarrow> A i = None \<and> A j \<noteq> None"
| "list_pre T A (LC_Assign t i j) \<longleftrightarrow> A t = None \<and> A i \<noteq> None \<and> A j \<noteq> None"
| "list_pre T A (LC_Move_Assign i j) \<longleftrightarrow> A i \<noteq> None \<and> A j \<noteq> None"
| "list_pre T A (LC_Swap i j) \<longleftrightarrow> A i \<noteq> None \<and> A j \<noteq> None \<and> (lt_swap T \<or> alloc_eq T (fst (the (A i))) (fst (the (A j))))"
| "list_pre T A (LC_Insert i n v) \<longleftrightarrow> A i \<noteq> None \<and> n \<le> length (snd (the (A i)))"
| "list_pre T A (LC_Erase i n) \<longleftrightarrow> A i \<noteq> None \<and> n \<le> length (snd (the (A i)))"
| "list_pre T A (LC_Erase_Range i m n) \<longleftrightarrow> A i \<noteq> None \<and> m \<le> n \<and> n \<le> length (snd (the (A i)))"
| "list_pre T A (LC_Equal i j) \<longleftrightarrow> A i \<noteq> None \<and> A j \<noteq> None"
| "list_pre T A (LC_Destroy i) \<longleftrightarrow> A i \<noteq> None"
| "list_pre T A (LC_Push_Front i v) \<longleftrightarrow> A i \<noteq> None"
| "list_pre T A (LC_Push_Back i v) \<longleftrightarrow> A i \<noteq> None"
| "list_pre T A (LC_Emplace_Front i v) \<longleftrightarrow> A i \<noteq> None"
| "list_pre T A (LC_Emplace_Back i v) \<longleftrightarrow> A i \<noteq> None"
| "list_pre T A (LC_Pop_Front i) \<longleftrightarrow> A i \<noteq> None"
| "list_pre T A (LC_Pop_Back i) \<longleftrightarrow> A i \<noteq> None"
| "list_pre T A (LC_Clear i) \<longleftrightarrow> A i \<noteq> None"
| "list_pre T A (LC_Front i) \<longleftrightarrow> A i \<noteq> None"
| "list_pre T A (LC_Back i) \<longleftrightarrow> A i \<noteq> None"
| "list_pre T A (LC_Size i) \<longleftrightarrow> A i \<noteq> None"

text \<open>\<open>strong A r A' x B\<close>: the result is \<open>x\<close> and the values are \<open>B\<close>, or there was an exception and nothing changed.\<close>

definition strong :: "('a, 'al) list_values \<Rightarrow> list_exn + 'a list_result \<Rightarrow> ('a, 'al) list_values \<Rightarrow>
    'a list_result \<Rightarrow> ('a, 'al) list_values \<Rightarrow> bool" where
  "strong A r A' x B \<longleftrightarrow> r = Inr x \<and> A' = B \<or> (\<exists>e. list_throws e \<and> r = Inl e) \<and> A' = A"

definition out_of_range :: "string \<Rightarrow> list_exn + 'a list_result" where
  "out_of_range s = Inl (L_Out_Of_Range s)"

fun list_outcome :: "('a, 'al) list_traits \<Rightarrow> ('a, 'al) list_values \<Rightarrow> ('a, 'al) list_command \<Rightarrow>
    list_exn + 'a list_result \<Rightarrow> ('a, 'al) list_values \<Rightarrow> bool" where
  "list_outcome T A (LC_New i al) r A' \<longleftrightarrow> r = Inr LR_Done \<and> A' = A(i \<mapsto> (al, []))"
| "list_outcome T A (LC_From i vs al) r A' \<longleftrightarrow> strong A r A' LR_Done (A(i \<mapsto> (al, vs)))"
| "list_outcome T A (LC_Copy i j) r A' \<longleftrightarrow> (case the (A j) of (bl, ys) \<Rightarrow> strong A r A' LR_Done (A(i \<mapsto> (lt_select T bl, ys))))"
| "list_outcome T A (LC_Move i j) r A' \<longleftrightarrow> (case the (A j) of (bl, ys) \<Rightarrow>
     r = Inr LR_Done \<and> A' = A(i \<mapsto> (bl, ys), j \<mapsto> (bl, [])))"
| "list_outcome T A (LC_Destroy i) r A' \<longleftrightarrow> r = Inr LR_Done \<and> A' = A(i := None)"
| "list_outcome T A (LC_Assign t i j) r A' \<longleftrightarrow> (case (the (A i), the (A j)) of ((al, xs), (bl, ys)) \<Rightarrow>
     if i = j then r = Inr LR_Done \<and> A' = A
     else strong A r A' LR_Done (A(i \<mapsto> (if lt_copy_assignment T then bl else al, ys))))"
| "list_outcome T A (LC_Move_Assign i j) r A' \<longleftrightarrow> (case (the (A i), the (A j)) of ((al, xs), (bl, ys)) \<Rightarrow>
     if i = j then r = Inr LR_Done \<and> A' = A
     else r = Inr LR_Done \<and> A' = A(i \<mapsto> (if lt_move_assignment T then bl else al, ys), j \<mapsto> (bl, [])) \<or>
       \<not> lt_move_assignment T \<and> \<not> alloc_eq T al bl \<and> (\<exists>e. list_throws e \<and> r = Inl e) \<and>
       (\<exists>zs vs. length vs = length ys \<and> A' = A(i \<mapsto> (al, zs), j \<mapsto> (bl, vs))))"
| "list_outcome T A (LC_Swap i j) r A' \<longleftrightarrow> (case (the (A i), the (A j)) of ((al, xs), (bl, ys)) \<Rightarrow>
     r = Inr LR_Done \<and> A' = (if i = j then A else if lt_swap T then A(i \<mapsto> (bl, ys), j \<mapsto> (al, xs)) else A(i \<mapsto> (al, ys), j \<mapsto> (bl, xs))))"
| "list_outcome T A (LC_Push_Front i v) r A' \<longleftrightarrow> (case the (A i) of (al, xs) \<Rightarrow> strong A r A' LR_Done (A(i \<mapsto> (al, v # xs))))"
| "list_outcome T A (LC_Push_Back i v) r A' \<longleftrightarrow> (case the (A i) of (al, xs) \<Rightarrow> strong A r A' LR_Done (A(i \<mapsto> (al, xs @ [v]))))"
| "list_outcome T A (LC_Emplace_Front i v) r A' \<longleftrightarrow> (case the (A i) of (al, xs) \<Rightarrow> strong A r A' (LR_Value v) (A(i \<mapsto> (al, v # xs))))"
| "list_outcome T A (LC_Emplace_Back i v) r A' \<longleftrightarrow> (case the (A i) of (al, xs) \<Rightarrow> strong A r A' (LR_Value v) (A(i \<mapsto> (al, xs @ [v]))))"
| "list_outcome T A (LC_Insert i n v) r A' \<longleftrightarrow> (case the (A i) of (al, xs) \<Rightarrow>
     strong A r A' (LR_Value v) (A(i \<mapsto> (al, take n xs @ v # drop n xs))))"
| "list_outcome T A (LC_Erase i n) r A' \<longleftrightarrow> (case the (A i) of (al, xs) \<Rightarrow>
     if n < length xs then r = Inr LR_Done \<and> A' = A(i \<mapsto> (al, take n xs @ drop (Suc n) xs))
     else r = out_of_range ''List::erase cannot erase end()'' \<and> A' = A)"
| "list_outcome T A (LC_Erase_Range i m n) r A' \<longleftrightarrow> (case the (A i) of (al, xs) \<Rightarrow>
     r = Inr LR_Done \<and> A' = A(i \<mapsto> (al, take m xs @ drop n xs)))"
| "list_outcome T A (LC_Pop_Front i) r A' \<longleftrightarrow> (case the (A i) of (al, xs) \<Rightarrow>
     if xs = [] then r = out_of_range ''List::pop_front on empty list'' \<and> A' = A
     else r = Inr LR_Done \<and> A' = A(i \<mapsto> (al, tl xs)))"
| "list_outcome T A (LC_Pop_Back i) r A' \<longleftrightarrow> (case the (A i) of (al, xs) \<Rightarrow>
     if xs = [] then r = out_of_range ''List::pop_back on empty list'' \<and> A' = A
     else r = Inr LR_Done \<and> A' = A(i \<mapsto> (al, butlast xs)))"
| "list_outcome T A (LC_Clear i) r A' \<longleftrightarrow> (case the (A i) of (al, xs) \<Rightarrow> r = Inr LR_Done \<and> A' = A(i \<mapsto> (al, [])))"
| "list_outcome T A (LC_Front i) r A' \<longleftrightarrow> (case the (A i) of (al, xs) \<Rightarrow>
     r = (if xs = [] then out_of_range ''List::front on empty list'' else Inr (LR_Value (hd xs))) \<and> A' = A)"
| "list_outcome T A (LC_Back i) r A' \<longleftrightarrow> (case the (A i) of (al, xs) \<Rightarrow>
     r = (if xs = [] then out_of_range ''List::back on empty list'' else Inr (LR_Value (last xs))) \<and> A' = A)"
| "list_outcome T A (LC_Size i) r A' \<longleftrightarrow> r = Inr (LR_Number (length (snd (the (A i))))) \<and> A' = A"
| "list_outcome T A (LC_Equal i j) r A' \<longleftrightarrow> r = Inr (LR_Truth (snd (the (A i)) = snd (the (A j)))) \<and> A' = A"

text \<open>
  Every command that the program comes to has its precondition, whatever the outcomes of those before it that the
  specification allows.
\<close>

primrec list_safe :: "('a, 'al) list_traits \<Rightarrow> ('a, 'al) list_program \<Rightarrow> ('a, 'al) list_values \<Rightarrow> bool" where
  "list_safe T Stop A \<longleftrightarrow> True"
| "list_safe T (Do c k) A \<longleftrightarrow> list_pre T A c \<and> (\<forall>r A'. list_outcome T A c r A' \<longrightarrow> list_safe T (k r) A')"

primrec list_trace :: "('a, 'al) list_traits \<Rightarrow> ('a, 'al) list_program \<Rightarrow> ('a, 'al) list_values \<Rightarrow>
    (list_exn + 'a list_result) list \<Rightarrow> ('a, 'al) list_values \<Rightarrow> bool" where
  "list_trace T Stop A rs A' \<longleftrightarrow> rs = [] \<and> A' = A"
| "list_trace T (Do c k) A rs A' \<longleftrightarrow>
     (case rs of [] \<Rightarrow> False | r # rs \<Rightarrow> \<exists>B. list_outcome T A c r B \<and> list_trace T (k r) B rs A')"

lemma list_trace_do: "list_trace T (Do c k) A rs A' \<longleftrightarrow>
    (\<exists>r rs' B. rs = r # rs' \<and> list_outcome T A c r B \<and> list_trace T (k r) B rs' A')"
  by (cases rs) auto

section \<open>One command\<close>

definition values_of :: "('a, 'al) contents \<Rightarrow> ('a, 'al) list_values" where
  "values_of C i = map_option (\<lambda>(al, xs). (al, map snd xs)) (C i)"

lemma values_of_upd [simp]:
  "values_of (C(i \<mapsto> (al, xs))) = (values_of C)(i \<mapsto> (al, map snd xs))"
  "values_of (C(i := None)) = (values_of C)(i := None)"
  by (auto simp: values_of_def fun_eq_iff)

lemma values_of_none: "values_of C i = None \<longleftrightarrow> C i = None"
  by (simp add: values_of_def)

lemma values_of_some: "C i = Some (al, xs) \<Longrightarrow> values_of C i = Some (al, map snd xs)"
  by (simp add: values_of_def)

lemma contents_some: "values_of C i \<noteq> None \<Longrightarrow> \<exists>al xs. C i = Some (al, xs)"
  by (auto simp: values_of_def)

lemma iterator_spec:
  assumes ok: "mem_ok T w C" and C: "C i = Some (al, xs)" and n: "n \<le> length xs"
  shows "l_spec (li_iterator i n) w Q E \<longleftrightarrow> Q (at i (drop n xs)) w"
proof -
  note list = mem_ok_list [OF ok C]
  have adv: "l_spec (advance k (at i (drop m xs))) w Q E \<longleftrightarrow> Q (at i (drop (k + m) xs)) w" if "k + m \<le> length xs" for k m
    using that
  proof (induction k arbitrary: m)
    case (Suc k)
    then have d: "drop m xs = xs ! m # drop (Suc m) xs" by (simp add: Cons_nth_drop_Suc)
    have "xs = take m xs @ xs ! m # drop (Suc m) xs" using d append_take_drop_id [of m xs] by simp
    then have "nxt w (Node (fst (xs ! m))) = Some (at i (drop (Suc m) xs))" using list_ok_next list by metis
    then show ?case using Suc.IH [of "Suc m"] Suc.prems d by simp
  qed simp
  show ?thesis
    using adv [of n 0] n unfolding li_iterator_def spec_bind begin_is_at [OF ok C] by simp
qed

lemma emplace_front_spec:
  assumes ok: "mem_ok T w C" and C: "C i = Some (al, xs)"
  shows "l_spec (li_emplace_front T i v) w (\<lambda>r w'. r = v \<and> mem_ok T w' (C(i \<mapsto> (al, (lm_fresh w, v) # xs))))
    (\<lambda>e w'. list_throws e \<and> mem_ok T w' C)"
  unfolding li_emplace_front_def spec_bind begin_is_at [OF ok C]
proof (rule spec_mono)
  show "l_spec (li_emplace T i (at i xs) v) w
      (\<lambda>r w'. r = Node (lm_fresh w) \<and> mem_ok T w' (C(i \<mapsto> (al, [] @ (lm_fresh w, v) # xs)))) (\<lambda>e w'. list_throws e \<and> mem_ok T w' C)"
    by (rule list_emplace_spec [OF ok]) (simp add: C)
  fix r w' assume r: "r = Node (lm_fresh w) \<and> mem_ok T w' (C(i \<mapsto> (al, [] @ (lm_fresh w, v) # xs)))"
  then have "list_ok T w' i (Some (al, (lm_fresh w, v) # xs))"
    by (intro mem_ok_list [where C = "C(i \<mapsto> (al, [] @ (lm_fresh w, v) # xs))"]) auto
  from list_ok_val [OF this, of "(lm_fresh w, v)"] r
  show "l_spec (it_value r) w' (\<lambda>r w'. r = v \<and> mem_ok T w' (C(i \<mapsto> (al, (lm_fresh w, v) # xs)))) (\<lambda>e w'. list_throws e \<and> mem_ok T w' C)"
    by auto
qed

lemma insert_value_spec:
  assumes ok: "mem_ok T w C" and C: "C i = Some (al, xs @ ys)"
  shows "l_spec (l_bind (li_insert T i (at i ys) v) it_value) w
    (\<lambda>r w'. r = v \<and> mem_ok T w' (C(i \<mapsto> (al, xs @ (lm_fresh w, v) # ys)))) (\<lambda>e w'. list_throws e \<and> mem_ok T w' C)"
  unfolding li_insert_def spec_bind
proof (rule spec_mono [OF list_emplace_spec [OF ok C]])
  fix r w' assume r: "r = Node (lm_fresh w) \<and> mem_ok T w' (C(i \<mapsto> (al, xs @ (lm_fresh w, v) # ys)))"
  then have "list_ok T w' i (Some (al, xs @ (lm_fresh w, v) # ys))"
    by (intro mem_ok_list [where C = "C(i \<mapsto> (al, xs @ (lm_fresh w, v) # ys))"]) auto
  from list_ok_val [OF this, of "(lm_fresh w, v)"] r
  show "l_spec (it_value r) w' (\<lambda>r w'. r = v \<and> mem_ok T w' (C(i \<mapsto> (al, xs @ (lm_fresh w, v) # ys)))) (\<lambda>e w'. list_throws e \<and> mem_ok T w' C)"
    by auto
qed

text \<open>The command \<open>c\<close>, run by \<open>m\<close>, keeps the invariant and does what its specification says.\<close>

definition refines :: "('a, 'al) list_traits \<Rightarrow> ('a, 'al) contents \<Rightarrow> ('a, 'al) list_command \<Rightarrow>
    ('a list_result, ('a, 'al) list_memory) member \<Rightarrow> ('a, 'al) list_memory \<Rightarrow> bool" where
  "refines T C c m w \<longleftrightarrow> l_spec m w
     (\<lambda>x w'. \<exists>C'. mem_ok T w' C' \<and> list_outcome T (values_of C) c (Inr x) (values_of C'))
     (\<lambda>e w'. \<exists>C'. mem_ok T w' C' \<and> list_outcome T (values_of C) c (Inl e) (values_of C'))"

lemma refines_done:
  assumes "l_spec m w Q E"
    and "\<And>x w'. Q x w' \<Longrightarrow> \<exists>C'. mem_ok T w' C' \<and> list_outcome T (values_of C) c (Inr LR_Done) (values_of C')"
    and "\<And>e w'. E e w' \<Longrightarrow> \<exists>C'. mem_ok T w' C' \<and> list_outcome T (values_of C) c (Inl e) (values_of C')"
  shows "refines T C c (l_done m) w"
  unfolding refines_def l_done_def spec_bind spec_return using assms by (rule spec_mono)

lemma refines_value:
  assumes "l_spec m w Q E"
    and "\<And>x w'. Q x w' \<Longrightarrow> \<exists>C'. mem_ok T w' C' \<and> list_outcome T (values_of C) c (Inr (LR_Value x)) (values_of C')"
    and "\<And>e w'. E e w' \<Longrightarrow> \<exists>C'. mem_ok T w' C' \<and> list_outcome T (values_of C) c (Inl e) (values_of C')"
  shows "refines T C c (l_value m) w"
  unfolding refines_def l_value_def spec_bind spec_return using assms by (rule spec_mono)

lemma refines_done_at:
  assumes "l_spec m w Q E"
    and "\<And>x w'. Q x w' \<Longrightarrow> mem_ok T w' D \<and> list_outcome T (values_of C) c (Inr LR_Done) (values_of D)"
    and "\<And>e w'. E e w' \<Longrightarrow> mem_ok T w' C \<and> list_outcome T (values_of C) c (Inl e) (values_of C)"
  shows "refines T C c (l_done m) w"
  using assms by (intro refines_done) blast+

lemma refines_value_at:
  assumes "l_spec m w Q E"
    and "\<And>x w'. Q x w' \<Longrightarrow> mem_ok T w' D \<and> list_outcome T (values_of C) c (Inr (LR_Value x)) (values_of D)"
    and "\<And>e w'. E e w' \<Longrightarrow> mem_ok T w' C \<and> list_outcome T (values_of C) c (Inl e) (values_of C)"
  shows "refines T C c (l_value m) w"
  using assms by (intro refines_value) blast+

lemma strong_simps [simp]:
  "strong A (Inr y) B x D \<longleftrightarrow> y = x \<and> B = D" "strong A (Inl e) B x D \<longleftrightarrow> list_throws e \<and> B = A"
  by (auto simp: strong_def)

lemma refine_constructors:
  assumes ok: "mem_ok T w C"
  shows "C i = None \<Longrightarrow> refines T C (LC_New i al) (run_command T (LC_New i al)) w"
    and "C i = None \<Longrightarrow> refines T C (LC_From i vs al) (run_command T (LC_From i vs al)) w"
    and "C i = None \<Longrightarrow> C j = Some (bl, ys) \<Longrightarrow> refines T C (LC_Copy i j) (run_command T (LC_Copy i j)) w"
    and "C i = None \<Longrightarrow> C j = Some (bl, ys) \<Longrightarrow> refines T C (LC_Move i j) (run_command T (LC_Move i j)) w"
    and "C i = Some (al, xs) \<Longrightarrow> refines T C (LC_Destroy i) (run_command T (LC_Destroy i)) w"
proof -
  show "C i = None \<Longrightarrow> refines T C (LC_New i al) (run_command T (LC_New i al)) w"
    unfolding run_command.simps
    by (rule refines_done [OF new_spec [OF ok]]) (auto intro!: exI [of _ "C(i \<mapsto> (al, []))"])
  show "refines T C (LC_From i vs al) (run_command T (LC_From i vs al)) w" if "C i = None"
    unfolding run_command.simps
  proof (rule refines_done [OF from_values_spec [OF ok that]])
    show "\<exists>C'. mem_ok T w' C' \<and> list_outcome T (values_of C) (LC_From i vs al) (Inr LR_Done) (values_of C')"
      if "\<exists>xs. map snd xs = vs \<and> mem_ok T w' (C(i \<mapsto> (al, xs)))" for w'
    proof -
      obtain xs where "map snd xs = vs \<and> mem_ok T w' (C(i \<mapsto> (al, xs)))" using \<open>\<exists>xs. _\<close> by blast
      then show ?thesis by (intro exI [of _ "C(i \<mapsto> (al, xs))"]) simp
    qed
  qed auto
  show "refines T C (LC_Copy i j) (run_command T (LC_Copy i j)) w" if i: "C i = None" and j: "C j = Some (bl, ys)"
    unfolding run_command.simps
  proof (rule refines_done [OF copy_spec [OF ok i j]])
    show "\<exists>C'. mem_ok T w' C' \<and> list_outcome T (values_of C) (LC_Copy i j) (Inr LR_Done) (values_of C')"
      if ex: "\<exists>zs. map snd zs = map snd ys \<and> mem_ok T w' (C(i \<mapsto> (lt_select T bl, zs)))" for w'
    proof -
      obtain zs where "map snd zs = map snd ys \<and> mem_ok T w' (C(i \<mapsto> (lt_select T bl, zs)))" using ex by blast
      then show ?thesis by (intro exI [of _ "C(i \<mapsto> (lt_select T bl, zs))"]) (simp add: values_of_some [of C j bl ys] j)
    qed
  qed (use j in \<open>auto simp: values_of_some\<close>)
  show "refines T C (LC_Move i j) (run_command T (LC_Move i j)) w" if i: "C i = None" and j: "C j = Some (bl, ys)"
    unfolding run_command.simps
    by (rule refines_done [OF move_spec [OF ok i j]])
      (auto intro!: exI [of _ "C(i \<mapsto> (bl, ys), j \<mapsto> (bl, []))"] simp: values_of_some [of C j bl ys] j)
  show "refines T C (LC_Destroy i) (run_command T (LC_Destroy i)) w" if i: "C i = Some (al, xs)"
    unfolding run_command.simps
    by (rule refines_done [OF destroy_list_spec [OF ok i]]) (auto intro!: exI [of _ "C(i := None)"])
qed

lemma refine_insertions:
  assumes ok: "mem_ok T w C" and C: "C i = Some (al, xs)"
  shows "refines T C (LC_Push_Front i v) (run_command T (LC_Push_Front i v)) w"
    and "refines T C (LC_Push_Back i v) (run_command T (LC_Push_Back i v)) w"
    and "refines T C (LC_Emplace_Front i v) (run_command T (LC_Emplace_Front i v)) w"
    and "refines T C (LC_Emplace_Back i v) (run_command T (LC_Emplace_Back i v)) w"
    and "n \<le> length xs \<Longrightarrow> refines T C (LC_Insert i n v) (run_command T (LC_Insert i n v)) w"
proof -
  note i = values_of_some [of C i al xs]
  show "refines T C (LC_Push_Front i v) (run_command T (LC_Push_Front i v)) w"
    unfolding run_command.simps
    by (rule refines_done_at [OF push_front_spec [OF ok C]]) (auto simp: i C)
  show "refines T C (LC_Push_Back i v) (run_command T (LC_Push_Back i v)) w"
    unfolding run_command.simps
    by (rule refines_done_at [OF push_back_spec [OF ok C]]) (auto simp: i C)
  show "refines T C (LC_Emplace_Front i v) (run_command T (LC_Emplace_Front i v)) w"
    unfolding run_command.simps
    by (rule refines_value_at [OF emplace_front_spec [OF ok C]]) (auto simp: i C)
  show "refines T C (LC_Emplace_Back i v) (run_command T (LC_Emplace_Back i v)) w"
    unfolding run_command.simps
    by (rule refines_value_at [OF emplace_back_spec [OF ok C]]) (auto simp: i C)
  show "refines T C (LC_Insert i n v) (run_command T (LC_Insert i n v)) w" if n: "n \<le> length xs"
  proof -
    have split: "C i = Some (al, take n xs @ drop n xs)" using C by simp
    let ?C = "C(i \<mapsto> (al, take n xs @ (lm_fresh w, v) # drop n xs))"
    have "l_spec (l_bind (li_iterator i n) (\<lambda>p. l_bind (li_insert T i p v) it_value)) w
        (\<lambda>r w'. r = v \<and> mem_ok T w' ?C) (\<lambda>e w'. list_throws e \<and> mem_ok T w' C)"
      unfolding spec_bind [of "li_iterator i n"] iterator_spec [OF ok C n] by (rule insert_value_spec [OF ok split])
    then show ?thesis
      unfolding run_command.simps
      by (rule refines_value_at [where D = ?C]) (auto simp: i C take_map drop_map)
  qed
qed

lemma refine_erase:
  assumes ok: "mem_ok T w C" and C: "C i = Some (al, xs)" and n: "n \<le> length xs"
  shows "refines T C (LC_Erase i n) (run_command T (LC_Erase i n)) w"
proof (cases "n < length xs")
  case True
  obtain a v where p: "xs ! n = (a, v)" by fastforce
  have d: "drop n xs = (a, v) # drop (Suc n) xs" using True p by (metis Cons_nth_drop_Suc)
  have split: "C i = Some (al, take n xs @ (a, v) # drop (Suc n) xs)" using C d by (metis append_take_drop_id)
  let ?C = "C(i \<mapsto> (al, take n xs @ drop (Suc n) xs))"
  have "l_spec (l_bind (li_iterator i n) (\<lambda>p. l_bind (li_erase T i p) (\<lambda>_. l_return ()))) w (\<lambda>_ w'. mem_ok T w' ?C) (\<lambda>_ _. False)"
    unfolding spec_bind spec_return iterator_spec [OF ok C n] d at_simps fst_conv
    by (rule spec_mono [OF erase_spec [OF ok split]]) auto
  then show ?thesis
    unfolding run_command.simps
    by (rule refines_done) (use True in \<open>auto intro!: exI [of _ ?C] simp: values_of_some [of C i al xs] C take_map drop_map\<close>)
next
  case False
  then have "n = length xs" using n by simp
  then have "l_spec (l_bind (li_iterator i n) (\<lambda>p. l_bind (li_erase T i p) (\<lambda>_. l_return ()))) w
      (\<lambda>_ w'. False) (\<lambda>e w'. w' = w \<and> e = L_Out_Of_Range ''List::erase cannot erase end()'')"
    unfolding spec_bind spec_return iterator_spec [OF ok C n] by (simp add: li_erase_def)
  then show ?thesis
    unfolding run_command.simps
    by (rule refines_done) (use ok False in \<open>auto intro!: exI [of _ C] simp: values_of_some [of C i al xs] C out_of_range_def\<close>)
qed

lemma refine_erase_range:
  assumes ok: "mem_ok T w C" and C: "C i = Some (al, xs)" and mn: "m \<le> n" "n \<le> length xs"
  shows "refines T C (LC_Erase_Range i m n) (run_command T (LC_Erase_Range i m n)) w"
proof -
  let ?ms = "take (n - m) (drop m xs)"
  have d: "drop m xs = ?ms @ drop n xs" using mn append_take_drop_id [of "n - m" "drop m xs"] by simp
  have split: "C i = Some (al, take m xs @ ?ms @ drop n xs)" using C d by (metis append_take_drop_id)
  let ?C = "C(i \<mapsto> (al, take m xs @ drop n xs))"
  have m: "m \<le> length xs" using mn by simp
  have "l_spec (li_erase_range T i (at i (?ms @ drop n xs)) (at i (drop n xs))) w (\<lambda>_ w'. mem_ok T w' ?C) (\<lambda>_ _. False)"
    by (rule spec_mono [OF erase_range_spec [OF ok split]]) auto
  then have "l_spec (li_erase_range T i (at i (drop m xs)) (at i (drop n xs))) w (\<lambda>_ w'. mem_ok T w' ?C) (\<lambda>_ _. False)"
    by (simp only: d [symmetric])
  then have "l_spec (l_bind (li_iterator i m) (\<lambda>p. l_bind (li_iterator i n) (\<lambda>q. l_bind (li_erase_range T i p q) (\<lambda>_. l_return ())))) w
      (\<lambda>_ w'. mem_ok T w' ?C) (\<lambda>_ _. False)"
    unfolding spec_bind spec_return iterator_spec [OF ok C mn(2)] iterator_spec [OF ok C m] .
  then show ?thesis
    unfolding run_command.simps
    by (rule refines_done) (auto intro!: exI [of _ ?C] simp: values_of_some [of C i al xs] C take_map drop_map)
qed

lemma refine_removals:
  assumes ok: "mem_ok T w C" and C: "C i = Some (al, xs)"
  shows "refines T C (LC_Pop_Front i) (run_command T (LC_Pop_Front i)) w"
    and "refines T C (LC_Pop_Back i) (run_command T (LC_Pop_Back i)) w"
    and "refines T C (LC_Clear i) (run_command T (LC_Clear i)) w"
proof -
  note i = values_of_some [of C i al xs]
  show "refines T C (LC_Pop_Front i) (run_command T (LC_Pop_Front i)) w"
    unfolding run_command.simps
    by (rule refines_done_at [OF pop_front_spec [OF ok C], where D = "C(i \<mapsto> (al, tl xs))"])
      (auto simp: i C ok out_of_range_def map_tl)
  show "refines T C (LC_Pop_Back i) (run_command T (LC_Pop_Back i)) w"
    unfolding run_command.simps
    by (rule refines_done_at [OF list_pop_back_spec [OF ok C], where D = "C(i \<mapsto> (al, butlast xs))"])
      (auto simp: i C ok out_of_range_def map_butlast)
  show "refines T C (LC_Clear i) (run_command T (LC_Clear i)) w"
    unfolding run_command.simps
    by (rule refines_done_at [OF list_clear_spec [OF ok C], where D = "C(i \<mapsto> (al, []))"]) (auto simp: i C)
qed

lemma refine_observers:
  assumes ok: "mem_ok T w C" and C: "C i = Some (al, xs)"
  shows "refines T C (LC_Front i) (run_command T (LC_Front i)) w"
    and "refines T C (LC_Back i) (run_command T (LC_Back i)) w"
    and "refines T C (LC_Size i) (run_command T (LC_Size i)) w"
    and "C j = Some (bl, ys) \<Longrightarrow> refines T C (LC_Equal i j) (run_command T (LC_Equal i j)) w"
proof -
  note i = values_of_some [of C i al xs]
  show "refines T C (LC_Front i) (run_command T (LC_Front i)) w"
    unfolding run_command.simps
    by (rule refines_value_at [OF front_spec [OF ok C], where D = C]) (auto simp: i C ok out_of_range_def)
  show "refines T C (LC_Back i) (run_command T (LC_Back i)) w"
    unfolding run_command.simps
    by (rule refines_value_at [OF back_spec [OF ok C], where D = C]) (auto simp: i C ok out_of_range_def)
  show "refines T C (LC_Size i) (run_command T (LC_Size i)) w"
    using ok list_ok_object [OF mem_ok_list [OF ok C]] by (auto simp: refines_def li_size_def i C)
  show "refines T C (LC_Equal i j) (run_command T (LC_Equal i j)) w" if j: "C j = Some (bl, ys)"
    unfolding refines_def run_command.simps spec_bind spec_return
    by (rule spec_mono [OF equal_spec [OF ok C j]]) (use ok in \<open>auto simp: i C values_of_some [of C j bl ys] j\<close>)
qed

lemma refine_assignments:
  assumes ok: "mem_ok T w C" and C: "C i = Some (al, xs)" and j: "C j = Some (bl, ys)"
  shows "C t = None \<Longrightarrow> refines T C (LC_Assign t i j) (run_command T (LC_Assign t i j)) w"
    and "refines T C (LC_Move_Assign i j) (run_command T (LC_Move_Assign i j)) w"
    and "lt_swap T \<or> alloc_eq T al bl \<Longrightarrow> refines T C (LC_Swap i j) (run_command T (LC_Swap i j)) w"
proof -
  note vi = values_of_some [of C i al xs] and vj = values_of_some [of C j bl ys]
  let ?copy = "if lt_copy_assignment T then bl else al" and ?move = "if lt_move_assignment T then bl else al"
  show "refines T C (LC_Assign t i j) (run_command T (LC_Assign t i j)) w" if t: "C t = None"
  proof (cases "i = j")
    case False
    show ?thesis
      unfolding run_command.simps
    proof (rule refines_done [OF copy_assign_spec [OF ok C j t False refl]])
      show "\<exists>C'. mem_ok T w' C' \<and> list_outcome T (values_of C) (LC_Assign t i j) (Inr LR_Done) (values_of C')"
        if ex: "\<exists>zs. map snd zs = map snd ys \<and> mem_ok T w' (C(i \<mapsto> (?copy, zs)))" for w'
      proof -
        obtain zs where "map snd zs = map snd ys \<and> mem_ok T w' (C(i \<mapsto> (?copy, zs)))" using ex by blast
        then show ?thesis by (intro exI [of _ "C(i \<mapsto> (?copy, zs))"]) (simp add: vi vj C j False)
      qed
    qed (use False C j in \<open>auto simp: vi vj\<close>)
  qed (use ok C j in \<open>auto simp: refines_def li_copy_assign_def l_done_def vi vj\<close>)
  show "refines T C (LC_Move_Assign i j) (run_command T (LC_Move_Assign i j)) w"
  proof (cases "i = j")
    case False
    show ?thesis
      unfolding run_command.simps
    proof (rule refines_done [OF move_assign_spec [OF ok C j False refl]])
      show "\<exists>C'. mem_ok T w' C' \<and> list_outcome T (values_of C) (LC_Move_Assign i j) (Inr LR_Done) (values_of C')"
        if ex: "\<exists>zs. map snd zs = map snd ys \<and> mem_ok T w' (C(i \<mapsto> (?move, zs), j \<mapsto> (bl, [])))" for w'
      proof -
        obtain zs where "map snd zs = map snd ys \<and> mem_ok T w' (C(i \<mapsto> (?move, zs), j \<mapsto> (bl, [])))" using ex by blast
        then show ?thesis by (intro exI [of _ "C(i \<mapsto> (?move, zs), j \<mapsto> (bl, []))"]) (simp add: vi vj C j False)
      qed
      show "\<exists>C'. mem_ok T w' C' \<and> list_outcome T (values_of C) (LC_Move_Assign i j) (Inl e) (values_of C')"
        if th: "list_throws e \<and> \<not> lt_move_assignment T \<and> \<not> alloc_eq T al bl \<and>
          (\<exists>zs vs. length vs = length ys \<and> mem_ok T w' (C(i \<mapsto> (al, zs), j \<mapsto> (bl, vs))))" for e w'
      proof -
        obtain zs vs where z: "length vs = length ys" "mem_ok T w' (C(i \<mapsto> (al, zs), j \<mapsto> (bl, vs)))" using th by blast
        then have "\<exists>zs' vs'. length vs' = length (map snd ys) \<and>
            (values_of C)(i \<mapsto> (al, map snd zs), j \<mapsto> (bl, map snd vs)) = (values_of C)(i \<mapsto> (al, zs'), j \<mapsto> (bl, vs'))"
          by (intro exI [of _ "map snd zs"] exI [of _ "map snd vs"]) simp
        then show ?thesis using z th by (intro exI [of _ "C(i \<mapsto> (al, zs), j \<mapsto> (bl, vs))"]) (simp add: vi vj C j False)
      qed
    qed
  qed (use ok C j in \<open>auto simp: refines_def li_move_assign_def l_done_def vi vj\<close>)
  show "refines T C (LC_Swap i j) (run_command T (LC_Swap i j)) w" if t: "lt_swap T \<or> alloc_eq T al bl"
  proof (cases "i = j")
    case False
    show ?thesis
      unfolding run_command.simps
      by (rule refines_done_at [OF swap_spec [OF ok C j False t]]) (auto simp: vi vj C j False)
  qed (use ok C j in \<open>auto simp: refines_def li_swap_def l_done_def vi vj\<close>)
qed

lemma command_refines:
  assumes ok: "mem_ok T w C" and pre: "list_pre T (values_of C) c"
  shows "refines T C c (run_command T c) w"
proof -
  have some: "\<exists>al xs. C i = Some (al, xs)" if "values_of C i \<noteq> None" for i using that by (rule contents_some)
  note rules = refine_constructors [OF ok] refine_insertions [OF ok] refine_erase [OF ok] refine_erase_range [OF ok]
    refine_removals [OF ok] refine_observers [OF ok] refine_assignments [OF ok]
  show ?thesis
    using pre by (cases c) (auto simp: values_of_none values_of_some dest!: some intro: rules simp del: run_command.simps)
qed

section \<open>Programs\<close>

lemma empty_memory_ok: "mem_ok T (empty_memory plan) (\<lambda>_. None)"
  by (auto simp: mem_ok_def empty_memory_def list_ok_def val_def live_def owned_def)

lemma values_of_empty [simp]: "values_of (\<lambda>_. None) = (\<lambda>_. None)"
  by (simp add: values_of_def fun_eq_iff)

lemma program_refines:
  assumes "mem_ok T w C" "list_safe T p (values_of C)"
  shows "\<exists>rs w' C'. run_list_program T p w = Some (rs, w') \<and> mem_ok T w' C' \<and> list_trace T p (values_of C) rs (values_of C')"
  using assms
proof (induction p arbitrary: w C)
  case (Do c k)
  then have "refines T C c (run_command T c) w" by (intro command_refines) auto
  then have "\<exists>r w1 C1. run_command T c w = Some (r, w1) \<and> mem_ok T w1 C1 \<and> list_outcome T (values_of C) c r (values_of C1)"
    unfolding refines_def l_spec_def
    by (cases "run_command T c w"; cases "fst (the (run_command T c w))") auto
  then obtain r w1 C1 where run: "run_command T c w = Some (r, w1)" and one: "mem_ok T w1 C1"
    "list_outcome T (values_of C) c r (values_of C1)" by blast
  then have "list_safe T (k r) (values_of C1)" using Do.prems by auto
  from Do.IH [OF rangeI one(1) this] obtain rs w' C' where rest: "run_list_program T (k r) w1 = Some (rs, w')" "mem_ok T w' C'"
    "list_trace T (k r) (values_of C1) rs (values_of C')" by blast
  have "list_trace T (Do c k) (values_of C) (r # rs) (values_of C')" using one(2) rest(3) by auto
  then show ?case using run rest(1,2) by (auto intro!: exI [of _ "r # rs"] exI [of _ w'] exI [of _ C'])
qed auto

lemma no_lists_no_nodes:
  assumes "mem_ok T w C" "values_of C = (\<lambda>_. None)"
  shows "lm_nodes w x = None"
proof -
  have C: "C i = None" for i using fun_cong [OF assms(2), of i] by (simp add: values_of_none)
  have "val w x = None"
  proof (cases x)
    case (Sentinel i)
    then show ?thesis using mem_ok_none [OF assms(1) C] by simp
  next
    case (Node a)
    then show ?thesis using assms(1) C by (cases "val w (Node a)") (auto simp: mem_ok_def owned_def live_def)
  qed
  then show ?thesis by (simp add: val_def)
qed

text \<open>
  C1: programs over any number of \<open>ds::List\<close> objects behave as programs over lists of values. A program may depend on
  the results and exceptions it sees. If the specification gives every command that it comes to its precondition,
  then for every allocator behaviour and every
  plan of allocations and constructions that throw, the run on an empty memory ends, the results of its
  commands are results of the specification, and the memory it leaves satisfies the invariant for the lists
  the specification leaves. Results of the specification are never undefined behaviour or a failed
  assertion; a push, an insertion, a construction and a copy assignment that throw leave every list
  as it was.
\<close>
theorem list_programs_refine:
  assumes "list_safe T p (\<lambda>_. None)"
  shows "\<exists>rs w C. run_list_program T p (empty_memory plan) = Some (rs, w) \<and> mem_ok T w C \<and>
    list_trace T p (\<lambda>_. None) rs (values_of C)"
  using program_refines [OF empty_memory_ok, of T p plan] assms by simp

definition int_traits :: "(int, nat) list_traits" where
  "int_traits = \<lparr>lt_copy_assignment = False, lt_move_assignment = False, lt_swap = False, lt_always_equal = False,
     lt_select = (\<lambda>al. al), lt_moved = (\<lambda>_. 0)\<rparr>"

text \<open>Two lists, of which the second is a copy that is changed; each is destroyed where it was constructed.\<close>

definition copy_program :: "(int, nat) list_program" where
  "copy_program =
     try_catch (LC_From 0 [3, 4] 7)
       (try_catch (LC_Copy 1 0)
          (then_do (LC_Push_Back 1 5) (then_do (LC_Equal 0 1) (then_do (LC_Destroy 1) (then_do (LC_Destroy 0) Stop))))
          (then_do (LC_Destroy 0) Stop))
       Stop"

lemma copy_program_safe: "list_safe int_traits copy_program (\<lambda>_. None)"
  by (auto simp: copy_program_def try_catch_def then_do_def strong_def)

lemma copy_program_trace: "list_trace int_traits copy_program (\<lambda>_. None) rs A \<Longrightarrow> A = (\<lambda>_. None)"
  by (auto simp: copy_program_def then_do_def strong_def try_catch_def list_trace_do simp del: list_trace.simps(2) split: if_splits)

lemma list_programs_refine_witness:
  "\<exists>rs w C. run_list_program int_traits copy_program (empty_memory [Created, Created, Created, Construction_Throws]) = Some (rs, w) \<and>
    mem_ok int_traits w C \<and> list_trace int_traits copy_program (\<lambda>_. None) rs (values_of C)"
  by (rule list_programs_refine [OF copy_program_safe])

text \<open>
  C2: no node is leaked or freed twice. If a program whose commands have their preconditions destroys every list that it
  constructed, on every path that the exceptions may make it take, then the memory it leaves holds no node and no list, wherever
  an allocation or the construction of an element threw on the way, in a constructor too.
\<close>
theorem list_programs_leak_nothing:
  assumes "list_safe T p (\<lambda>_. None)" and "\<And>rs A. list_trace T p (\<lambda>_. None) rs A \<Longrightarrow> A = (\<lambda>_. None)"
  shows "\<exists>rs w. run_list_program T p (empty_memory plan) = Some (rs, w) \<and> (\<forall>x. lm_nodes w x = None) \<and>
    (\<forall>i. lm_objects w i = None)"
proof -
  obtain rs w C where run: "run_list_program T p (empty_memory plan) = Some (rs, w)" "mem_ok T w C"
    "list_trace T p (\<lambda>_. None) rs (values_of C)"
    using program_refines [OF empty_memory_ok, of T p plan] assms(1) by auto
  have none: "values_of C = (\<lambda>_. None)" using assms(2) [OF run(3)] .
  then have "C i = None" for i by (metis values_of_none)
  then have "lm_objects w i = None" for i using mem_ok_none [OF run(2)] by blast
  then show ?thesis using run(1) no_lists_no_nodes [OF run(2) none] by blast
qed

lemma list_programs_leak_nothing_witness:
  "\<exists>rs w. run_list_program int_traits copy_program (empty_memory [Created, Created, Created, Allocation_Throws]) = Some (rs, w) \<and>
    (\<forall>x. lm_nodes w x = None) \<and> (\<forall>i. lm_objects w i = None)"
  by (rule list_programs_leak_nothing [OF copy_program_safe copy_program_trace])

text \<open>The run in which the copy constructor throws, and one in which nothing does.\<close>

lemma copy_program_runs:
  "map_option fst (run_list_program int_traits copy_program (empty_memory [Created, Created, Created, Construction_Throws])) =
     Some [Inr LR_Done, Inl L_Thrown, Inr LR_Done]"
  "map_option fst (run_list_program int_traits copy_program (empty_memory [])) =
     Some [Inr LR_Done, Inr LR_Done, Inr LR_Done, Inr (LR_Truth False), Inr LR_Done, Inr LR_Done]"
  by code_simp+

end
