(* ===== verification/Treap.thy ===== *)
theory Treap
  imports Cpp_Prelude "HOL-Library.Multiset"
begin

text \<open>
  \<open>algorithms/data/treap.hpp\<close>. A \<open>pitem\<close> is a tree of the items it reaches, each with its address: the
  functions relink items and create none. A reference parameter is a result. \<open>None\<close> is the access
  to a null pointer in \<open>erase\<close> of a key that is not there.
\<close>

section \<open>The functions\<close>

datatype pitem = Nullptr | Item (it_addr: nat) (it_key: int) (it_prior: int) (it_l: pitem) (it_r: pitem)

fun t_split :: "pitem \<Rightarrow> int \<Rightarrow> pitem \<times> pitem" where
  "t_split Nullptr key = (Nullptr, Nullptr)"
| "t_split (Item a k p ta tb) key =
     (if k \<le> key then let (l, r) = t_split tb key in (Item a k p ta l, r)
      else let (l, r) = t_split ta key in (l, Item a k p r tb))"

fun t_insert :: "pitem \<Rightarrow> nat \<times> int \<times> int \<Rightarrow> pitem" where
  "t_insert Nullptr (a, k, p) = Item a k p Nullptr Nullptr"
| "t_insert (Item b j q l r) (a, k, p) =
     (if p > q then let (il, ir) = t_split (Item b j q l r) k in Item a k p il ir
      else if j \<le> k then Item b j q l (t_insert r (a, k, p))
      else Item b j q (t_insert l (a, k, p)) r)"

fun t_merge :: "pitem \<Rightarrow> pitem \<Rightarrow> pitem" where
  "t_merge Nullptr r = r"
| "t_merge l Nullptr = l"
| "t_merge (Item a j p ll lr) (Item b k q rl rr) =
     (if p > q then Item a j p ll (t_merge lr (Item b k q rl rr))
      else Item b k q (t_merge (Item a j p ll lr) rl) rr)"

text \<open>The tree that is left and the item that is deleted.\<close>

fun t_erase :: "pitem \<Rightarrow> int \<Rightarrow> (pitem \<times> nat) option" where
  "t_erase Nullptr key = None"
| "t_erase (Item a k p l r) key =
     (if k = key then Some (t_merge l r, a)
      else if key < k then map_option (\<lambda>(l, d). (Item a k p l r, d)) (t_erase l key)
      else map_option (\<lambda>(r, d). (Item a k p l r, d)) (t_erase r key))"

lemma t_split_size: "size (fst (t_split t key)) \<le> size t" "size (snd (t_split t key)) \<le> size t"
  by (induction t) (auto simp: Let_def split: prod.splits)

function t_unite :: "pitem \<Rightarrow> pitem \<Rightarrow> pitem" where
  "t_unite Nullptr r = r"
| "t_unite (Item a j p ll lr) Nullptr = Item a j p ll lr"
| "t_unite (Item a j p ll lr) (Item b k q rl rr) =
     (if p < q then
        let (lt, rt) = t_split (Item a j p ll lr) k in Item b k q (t_unite rl lt) (t_unite rr rt)
      else
        let (lt, rt) = t_split (Item b k q rl rr) j in Item a j p (t_unite ll lt) (t_unite lr rt))"
  by pat_completeness auto

termination
proof (relation "measure (\<lambda>(l, r). size l + size r)", goal_cases)
  case (2 a j p ll lr b k q rl rr x lt rt)
  then have "lt = fst (t_split (Item a j p ll lr) k)" by (metis fst_conv)
  then show ?case using t_split_size(1) [of "Item a j p ll lr" k] by (simp del: t_split.simps)
next
  case (3 a j p ll lr b k q rl rr x lt rt)
  then have "rt = snd (t_split (Item a j p ll lr) k)" by (metis snd_conv)
  then show ?case using t_split_size(2) [of "Item a j p ll lr" k] by (simp del: t_split.simps)
next
  case (4 a j p ll lr b k q rl rr x lt rt)
  then have "lt = fst (t_split (Item b k q rl rr) j)" by (metis fst_conv)
  then show ?case using t_split_size(1) [of "Item b k q rl rr" j] by (simp del: t_split.simps)
next
  case (5 a j p ll lr b k q rl rr x lt rt)
  then have "rt = snd (t_split (Item b k q rl rr) j)" by (metis snd_conv)
  then show ?case using t_split_size(2) [of "Item b k q rl rr" j] by (simp del: t_split.simps)
qed simp

section \<open>The invariant\<close>

fun t_items :: "pitem \<Rightarrow> (nat \<times> int \<times> int) list" where
  "t_items Nullptr = []"
| "t_items (Item a k p l r) = t_items l @ (a, k, p) # t_items r"

definition t_keys :: "pitem \<Rightarrow> int list" where
  "t_keys t = map (fst \<circ> snd) (t_items t)"

definition t_priors :: "pitem \<Rightarrow> int set" where
  "t_priors t = (snd \<circ> snd) ` set (t_items t)"

fun t_heap :: "pitem \<Rightarrow> bool" where
  "t_heap Nullptr \<longleftrightarrow> True"
| "t_heap (Item a k p l r) \<longleftrightarrow> (\<forall>q\<in>t_priors l \<union> t_priors r. q \<le> p) \<and> t_heap l \<and> t_heap r"

definition treap :: "pitem \<Rightarrow> bool" where
  "treap t \<longleftrightarrow> sorted (t_keys t) \<and> t_heap t"

lemma t_keys_simps [simp]:
  "t_keys Nullptr = []" "t_keys (Item a k p l r) = t_keys l @ k # t_keys r"
  by (simp_all add: t_keys_def)

lemma t_priors_simps [simp]:
  "t_priors Nullptr = {}" "t_priors (Item a k p l r) = insert p (t_priors l \<union> t_priors r)"
  by (auto simp: t_priors_def)

lemma t_priors_items: "mset (t_items t) = mset (t_items l) + mset (t_items r) \<Longrightarrow> t_priors t = t_priors l \<union> t_priors r"
  by (metis image_Un set_mset_mset set_mset_union t_priors_def)

lemma priors_le: "t_heap (Item a k p l r) \<Longrightarrow> \<forall>q\<in>t_priors (Item a k p l r). q \<le> p"
  by auto

section \<open>Splitting and merging\<close>

lemma split_items: "t_split t key = (l, r) \<Longrightarrow> t_items l @ t_items r = t_items t"
  by (induction t arbitrary: l r) (auto split: if_splits prod.splits)

lemma split_keys: "t_split t key = (l, r) \<Longrightarrow> t_keys t = t_keys l @ t_keys r"
  using split_items [of t key l r] by (metis map_append t_keys_def)

lemma split_priors: "t_split t key = (l, r) \<Longrightarrow> t_priors t = t_priors l \<union> t_priors r"
  using split_items [of t key l r] by (intro t_priors_items) (metis mset_append)

lemma split_heap: "t_split t key = (l, r) \<Longrightarrow> t_heap t \<Longrightarrow> t_heap l \<and> t_heap r"
  by (induction t arbitrary: l r) (auto split: if_splits prod.splits dest!: split_priors)

lemma split_sides:
  "t_split t key = (l, r) \<Longrightarrow> sorted (t_keys t) \<Longrightarrow> (\<forall>k\<in>set (t_keys l). k \<le> key) \<and> (\<forall>k\<in>set (t_keys r). key < k)"
  by (induction t arbitrary: l r) ((auto simp: sorted_append split: if_splits prod.splits dest: split_keys), fastforce+)

lemma merge_items [simp]: "t_items (t_merge l r) = t_items l @ t_items r"
  by (induction l r rule: t_merge.induct) auto

lemma merge_keys [simp]: "t_keys (t_merge l r) = t_keys l @ t_keys r"
  by (simp add: t_keys_def)

lemma merge_priors [simp]: "t_priors (t_merge l r) = t_priors l \<union> t_priors r"
  by (auto simp: t_priors_def)

lemma merge_heap: "t_heap l \<Longrightarrow> t_heap r \<Longrightarrow> t_heap (t_merge l r)"
proof (induction l r rule: t_merge.induct)
  case (3 a j p ll lr b k q rl rr)
  note le = priors_le [OF 3(3)] priors_le [OF 3(4)]
  show ?case
  proof (cases "p > q")
    case True
    then have "\<forall>x\<in>t_priors (Item b k q rl rr). x \<le> p" using le(2) by fastforce
    then show ?thesis using 3 True by auto
  next
    case False
    then have "\<forall>x\<in>t_priors (Item a j p ll lr). x \<le> q" using le(1) by fastforce
    then show ?thesis using 3 False by auto
  qed
qed auto

text \<open>Two treaps under an item of a priority that is not smaller, on the sides of its key.\<close>

lemma treap_node:
  assumes "treap l" "treap r" "\<forall>x\<in>set (t_keys l). x \<le> k" "\<forall>x\<in>set (t_keys r). k \<le> x" "\<forall>q\<in>t_priors l \<union> t_priors r. q \<le> p"
  shows "treap (Item a k p l r)"
  using assms by (auto simp: treap_def sorted_append intro: order_trans)

lemma treap_parts:
  assumes "treap (Item a k p l r)"
  shows "treap l" "treap r" "\<forall>x\<in>set (t_keys l). x \<le> k" "\<forall>x\<in>set (t_keys r). k \<le> x" "\<forall>q\<in>t_priors l \<union> t_priors r. q \<le> p"
  using assms by (auto simp: treap_def sorted_append)

section \<open>Insertion, removal and union\<close>

lemma insert_items: "mset (t_items (t_insert t x)) = add_mset x (mset (t_items t))"
proof (induction t)
  case (Item b j q l r)
  obtain a k p where x: "x = (a, k, p)" by (cases x)
  show ?case
  proof (cases "p > q")
    case True
    obtain il ir where s: "t_split (Item b j q l r) k = (il, ir)" by fastforce
    have "mset (t_items il) + mset (t_items ir) = mset (t_items (Item b j q l r))"
      using split_items [OF s] by (metis mset_append)
    then show ?thesis using True s x by (simp del: t_split.simps)
  qed (use Item x in auto)
qed (cases x, simp)

lemma insert_priors: "t_priors (t_insert t (a, k, p)) = insert p (t_priors t)"
  unfolding t_priors_def using insert_items [of t "(a, k, p)"] by (metis (no_types, lifting) comp_apply image_insert set_mset_add_mset_insert set_mset_mset snd_conv)

lemma insert_key_set: "set (t_keys (t_insert t (a, k, p))) = insert k (set (t_keys t))"
  unfolding t_keys_def set_map using insert_items [of t "(a, k, p)"]
  by (metis (no_types, lifting) comp_apply fst_conv image_insert set_mset_add_mset_insert set_mset_mset snd_conv)

lemma insert_treap: "treap t \<Longrightarrow> treap (t_insert t (a, k, p))"
proof (induction t)
  case (Item b j q l r)
  show ?case
  proof (cases "p > q")
    case True
    obtain il ir where s: "t_split (Item b j q l r) k = (il, ir)" by fastforce
    have old: "sorted (t_keys (Item b j q l r))" "t_heap (Item b j q l r)" using Item.prems by (simp_all add: treap_def)
    have "sorted (t_keys il @ t_keys ir)" using old(1) split_keys [OF s] by simp
    moreover have "\<forall>y\<in>t_priors il \<union> t_priors ir. y \<le> p"
      using split_priors [OF s] priors_le [OF old(2)] True by fastforce
    ultimately have "treap (Item a k p il ir)"
      using split_sides [OF s old(1)] split_heap [OF s old(2)] by (auto simp: treap_def sorted_append)
    then show ?thesis using True s by (simp del: t_split.simps)
  qed (use Item in \<open>auto simp: treap_def sorted_append insert_priors insert_key_set\<close>)
qed (simp add: treap_def)

lemma erase_items: "t_erase t key = Some (u, d) \<Longrightarrow> \<exists>p. mset (t_items t) = add_mset (d, key, p) (mset (t_items u))"
proof (induction t arbitrary: u)
  case (Item a k p l r)
  consider "k = key" | "key < k" | "k < key" by linarith
  then show ?case
  proof cases
    case 2
    then obtain l' where "t_erase l key = Some (l', d)" "u = Item a k p l' r" using Item.prems by auto
    then show ?thesis using Item.IH(1) by fastforce
  next
    case 3
    then obtain r' where "t_erase r key = Some (r', d)" "u = Item a k p l r'" using Item.prems by auto
    then show ?thesis using Item.IH(2) by fastforce
  qed (use Item.prems in auto)
qed simp

lemma erase_subset: "t_erase t key = Some (u, d) \<Longrightarrow> set (t_items u) \<subseteq> set (t_items t)"
  using erase_items by (metis set_mset_add_mset_insert set_mset_mset subset_insertI)

lemma erase_treap: "t_erase t key = Some (u, d) \<Longrightarrow> treap t \<Longrightarrow> treap u"
proof (induction t arbitrary: u)
  case (Item a k p l r)
  note parts = treap_parts [OF Item.prems(2)]
  have sub: "set (t_keys v) \<subseteq> set (t_keys t)" "t_priors v \<subseteq> t_priors t" if "t_erase t key = Some (v, d)" for t v
    using erase_subset [OF that] by (auto simp: t_keys_def t_priors_def)
  consider "k = key" | "k \<noteq> key" "key < k" | "k \<noteq> key" "\<not> key < k" by blast
  then show ?case
  proof cases
    case 1
    then have "u = t_merge l r" using Item.prems(1) by simp
    then show ?thesis using Item.prems(2) by (auto simp: treap_def sorted_append merge_heap)
  next
    case 2
    then obtain l' where l': "t_erase l key = Some (l', d)" "u = Item a k p l' r" using Item.prems(1) by auto
    show ?thesis using treap_node [OF Item.IH(1) [OF l'(1) parts(1)] parts(2)] parts sub [OF l'(1)] l'(2) by blast
  next
    case 3
    then obtain r' where r': "t_erase r key = Some (r', d)" "u = Item a k p l r'" using Item.prems(1) by auto
    show ?thesis using treap_node [OF parts(1) Item.IH(2) [OF r'(1) parts(2)]] parts sub [OF r'(1)] r'(2) by blast
  qed
qed simp

lemma erase_found: "sorted (t_keys t) \<Longrightarrow> t_erase t key \<noteq> None \<longleftrightarrow> key \<in> set (t_keys t)"
proof (induction t)
  case (Item a k p l r)
  have IH: "t_erase l key \<noteq> None \<longleftrightarrow> key \<in> set (t_keys l)" "t_erase r key \<noteq> None \<longleftrightarrow> key \<in> set (t_keys r)"
    using Item by (simp_all add: sorted_append)
  have sides: "\<forall>x\<in>set (t_keys l). x \<le> k" "\<forall>x\<in>set (t_keys r). k \<le> x" using Item.prems by (auto simp: sorted_append)
  consider "k = key" | "k \<noteq> key" "key < k" | "k \<noteq> key" "\<not> key < k" by blast
  then show ?case
  proof cases
    case 2
    then have "key \<notin> set (t_keys r)" using sides by fastforce
    then show ?thesis using 2 IH by simp
  next
    case 3
    then have "key \<notin> set (t_keys l)" using sides by fastforce
    then show ?thesis using 3 IH by simp
  qed simp
qed simp

lemma split_mset: "t_split t key = (l, r) \<Longrightarrow> mset (t_items t) = mset (t_items l) + mset (t_items r)"
  using split_items [of t key l r] by (metis mset_append)

lemma unite_items: "mset (t_items (t_unite l r)) = mset (t_items l) + mset (t_items r)"
proof (induction l r rule: t_unite.induct)
  case (3 a j p ll lr b k q rl rr)
  let ?l = "Item a j p ll lr" and ?r = "Item b k q rl rr"
  show ?case
  proof (cases "p < q")
    case True
    obtain lt rt where s: "t_split ?l k = (lt, rt)" by (meson surj_pair)
    show ?thesis using True 3(1,2) [OF True s [symmetric] refl] split_mset [OF s] s by (simp del: t_split.simps)
  next
    case False
    obtain lt rt where s: "t_split ?r j = (lt, rt)" by (meson surj_pair)
    show ?thesis using False 3(3,4) [OF False s [symmetric] refl] split_mset [OF s] s by (simp del: t_split.simps)
  qed
qed simp_all

lemma unite_priors: "t_priors (t_unite l r) = t_priors l \<union> t_priors r"
  using unite_items by (rule t_priors_items)

lemma unite_key_set: "set (t_keys (t_unite l r)) = set (t_keys l) \<union> set (t_keys r)"
  unfolding t_keys_def set_map using unite_items [of l r] by (metis image_Un set_mset_mset set_mset_union)

lemma split_treap: "t_split t key = (l, r) \<Longrightarrow> treap t \<Longrightarrow> treap l \<and> treap r"
  using split_heap [of t key l r] split_keys [of t key l r] by (auto simp: treap_def sorted_append)

lemma unite_node:
  assumes t: "treap (Item a k p l r)" and u: "treap u" and s: "t_split u k = (lt, rt)"
    and up: "\<forall>q\<in>t_priors u. q \<le> p"
    and l: "treap (t_unite l lt)" and r: "treap (t_unite r rt)"
  shows "treap (Item a k p (t_unite l lt) (t_unite r rt))"
proof (rule treap_node [OF l r])
  have "\<forall>x\<in>set (t_keys lt). x \<le> k" "\<forall>x\<in>set (t_keys rt). k < x" using split_sides [OF s] u by (auto simp: treap_def)
  then show "\<forall>x\<in>set (t_keys (t_unite l lt)). x \<le> k" "\<forall>x\<in>set (t_keys (t_unite r rt)). k \<le> x"
    using t by (auto simp: unite_key_set treap_def sorted_append)
  show "\<forall>q\<in>t_priors (t_unite l lt) \<union> t_priors (t_unite r rt). q \<le> p"
    using t up split_priors [OF s] by (auto simp: unite_priors treap_def)
qed

lemma unite_treap: "treap l \<Longrightarrow> treap r \<Longrightarrow> treap (t_unite l r)"
proof (induction l r rule: t_unite.induct)
  case (3 a j p ll lr b k q rl rr)
  let ?l = "Item a j p ll lr" and ?r = "Item b k q rl rr"
  have sub: "treap ll" "treap lr" "treap rl" "treap rr" using 3(5,6) by (auto simp: treap_def sorted_append)
  have ub: "\<forall>x\<in>t_priors ?l. x \<le> p" "\<forall>x\<in>t_priors ?r. x \<le> q" using 3(5,6) by (auto simp: treap_def)
  show ?case
  proof (cases "p < q")
    case True
    obtain lt rt where s: "t_split ?l k = (lt, rt)" by (meson surj_pair)
    have "\<forall>x\<in>t_priors ?l. x \<le> q" using ub(1) True by fastforce
    then have "treap (Item b k q (t_unite rl lt) (t_unite rr rt))"
      using 3(1,2) [OF True s [symmetric] refl] split_treap [OF s 3(5)] sub by (intro unite_node [OF 3(6,5) s]) auto
    then show ?thesis using True s by (simp del: t_split.simps)
  next
    case False
    obtain lt rt where s: "t_split ?r j = (lt, rt)" by (meson surj_pair)
    have "\<forall>x\<in>t_priors ?r. x \<le> p" using ub(2) False by fastforce
    then have "treap (Item a j p (t_unite ll lt) (t_unite lr rt))"
      using 3(3,4) [OF False s [symmetric] refl] split_treap [OF s 3(6)] sub by (intro unite_node [OF 3(5,6) s]) auto
    then show ?thesis using False s by (simp del: t_split.simps)
  qed
qed simp_all

section \<open>Programs\<close>

text \<open>
  A program over one treap; \<open>T_Unite\<close> builds a second one by insertion and unites it with the first.
  The state has the next address and the items that were deleted.
\<close>

datatype treap_op = T_Insert int int | T_Erase int | T_Unite "(int \<times> int) list"

type_synonym treap_state = "pitem \<times> nat \<times> nat list"

fun build_treap :: "(int \<times> int) list \<Rightarrow> pitem \<times> nat \<Rightarrow> pitem \<times> nat" where
  "build_treap [] s = s"
| "build_treap ((k, p) # kps) (t, n) = build_treap kps (t_insert t (n, k, p), Suc n)"

fun treap_do :: "treap_op \<Rightarrow> treap_state \<Rightarrow> treap_state option" where
  "treap_do (T_Insert k p) (t, n, ds) = Some (t_insert t (n, k, p), Suc n, ds)"
| "treap_do (T_Erase k) (t, n, ds) = map_option (\<lambda>(t, d). (t, n, d # ds)) (t_erase t k)"
| "treap_do (T_Unite kps) (t, n, ds) = (let (u, n) = build_treap kps (Nullptr, n) in Some (t_unite t u, n, ds))"

fun treap_run :: "treap_op list \<Rightarrow> treap_state \<Rightarrow> treap_state option" where
  "treap_run [] s = Some s"
| "treap_run (x # xs) s = Option.bind (treap_do x s) (treap_run xs)"

text \<open>The multiset of keys; \<open>None\<close> when a key is erased that is not there.\<close>

fun keys_do :: "treap_op \<Rightarrow> int multiset \<Rightarrow> int multiset option" where
  "keys_do (T_Insert k p) M = Some (add_mset k M)"
| "keys_do (T_Erase k) M = (if k \<in># M then Some (M - {#k#}) else None)"
| "keys_do (T_Unite kps) M = Some (M + mset (map fst kps))"

fun keys_run :: "treap_op list \<Rightarrow> int multiset \<Rightarrow> int multiset option" where
  "keys_run [] M = Some M"
| "keys_run (x # xs) M = Option.bind (keys_do x M) (keys_run xs)"

definition t_addrs :: "pitem \<Rightarrow> nat list" where
  "t_addrs t = map fst (t_items t)"

definition treap_state_ok :: "treap_state \<Rightarrow> bool" where
  "treap_state_ok s \<longleftrightarrow> (case s of (t, n, ds) \<Rightarrow> treap t \<and> mset (t_addrs t) + mset ds = mset [0..<n])"

lemma keys_mset: "mset (t_keys t) = image_mset (\<lambda>x. fst (snd x)) (mset (t_items t))"
  by (simp add: t_keys_def comp_def)

lemma addrs_mset: "mset (t_addrs t) = image_mset fst (mset (t_items t))"
  by (simp add: t_addrs_def)

lemma build_treap_ok:
  "build_treap kps (t, n) = (u, m) \<Longrightarrow> treap t \<Longrightarrow> treap u \<and> mset (t_keys u) = mset (t_keys t) + mset (map fst kps) \<and>
    mset (t_addrs u) = mset (t_addrs t) + mset [n..<m] \<and> n \<le> m"
proof (induction kps arbitrary: t n)
  case (Cons kp kps)
  obtain k p where kp: "kp = (k, p)" by fastforce
  have "treap u \<and> mset (t_keys u) = mset (t_keys (t_insert t (n, k, p))) + mset (map fst kps) \<and>
      mset (t_addrs u) = mset (t_addrs (t_insert t (n, k, p))) + mset [Suc n..<m] \<and> Suc n \<le> m"
    using Cons.IH Cons.prems insert_treap kp by simp
  then show ?case
    by (simp add: kp keys_mset addrs_mset insert_items upt_conv_Cons del: mset_upt)
qed simp

lemma treap_do_ok:
  assumes "treap_state_ok (t, n, ds)"
  shows "case treap_do x (t, n, ds) of
      None \<Rightarrow> keys_do x (mset (t_keys t)) = None
    | Some (u, m, es) \<Rightarrow> treap_state_ok (u, m, es) \<and> keys_do x (mset (t_keys t)) = Some (mset (t_keys u))"
proof (cases x)
  case (T_Insert k p)
  then show ?thesis
    using assms by (simp add: treap_state_ok_def insert_treap addrs_mset keys_mset insert_items del: mset_upt)
next
  case (T_Erase k)
  have t: "treap t" using assms by (simp add: treap_state_ok_def)
  then have found: "t_erase t k \<noteq> None \<longleftrightarrow> k \<in># mset (t_keys t)"
    using erase_found [of t k] by (simp add: treap_def)
  show ?thesis
  proof (cases "t_erase t k")
    case None
    then show ?thesis using found T_Erase by simp
  next
    case (Some s)
    obtain u d where s: "s = (u, d)" by fastforce
    obtain p where "mset (t_items t) = add_mset (d, k, p) (mset (t_items u))"
      using erase_items Some s by blast
    then have "mset (t_keys t) = add_mset k (mset (t_keys u))" "mset (t_addrs t) = add_mset d (mset (t_addrs u))"
      by (simp_all add: keys_mset addrs_mset)
    then show ?thesis
      using assms erase_treap t Some s T_Erase by (simp add: treap_state_ok_def del: mset_upt)
  qed
next
  case (T_Unite kps)
  obtain u m where b: "build_treap kps (Nullptr, n) = (u, m)" by fastforce
  have u: "treap u" "mset (t_keys u) = mset (map fst kps)" "mset (t_addrs u) = mset [n..<m]" "n \<le> m"
    using build_treap_ok [OF b] by (simp_all add: treap_def t_addrs_def)
  have "mset [0..<n] + mset [n..<m] = mset [0..<m]" using upt_add_eq_append [of 0 n "m - n"] u(4) by (metis le_add_diff_inverse mset_append zero_le)
  then have "mset (t_addrs t) + mset ds + mset [n..<m] = mset [0..<m]" using assms by (simp add: treap_state_ok_def del: mset_upt)
  then show ?thesis
    using assms b u T_Unite
    by (simp add: treap_state_ok_def unite_treap keys_mset addrs_mset unite_items ac_simps del: mset_upt)
qed

lemma treap_run_ok:
  assumes "treap_state_ok (t, n, ds)"
  shows "case treap_run xs (t, n, ds) of
      None \<Rightarrow> keys_run xs (mset (t_keys t)) = None
    | Some (u, m, es) \<Rightarrow> treap_state_ok (u, m, es) \<and> keys_run xs (mset (t_keys t)) = Some (mset (t_keys u))"
  using assms
proof (induction xs arbitrary: t n ds)
  case (Cons x xs)
  show ?case
  proof (cases "treap_do x (t, n, ds)")
    case None
    then show ?thesis using treap_do_ok [OF Cons.prems, of x] by simp
  next
    case (Some s)
    obtain u m es where s: "s = (u, m, es)" by (metis prod_cases3)
    then show ?thesis using treap_do_ok [OF Cons.prems, of x] Cons.IH [of u m es] Some
      by (auto split: option.splits)
  qed
qed simp

text \<open>
  C37: a treap is always a search tree on its keys and a heap on its priorities, whatever priorities
  the random generator draws, and its operations are those of a sorted multiset. A program dereferences
  a null pointer exactly when it erases a key that is not there; otherwise it ends with a treap
  whose keys in order are the sorted keys that were inserted and not erased, and every
  item that was created is in the treap or deleted, exactly once.
\<close>
theorem treap_programs:
  "case treap_run xs (Nullptr, 0, []) of
      None \<Rightarrow> keys_run xs {#} = None
    | Some (t, n, ds) \<Rightarrow> treap t \<and> keys_run xs {#} = Some (mset (t_keys t)) \<and>
        t_keys t = sorted_list_of_multiset (mset (t_keys t)) \<and> mset (t_addrs t) + mset ds = mset [0..<n]"
proof -
  have "treap_state_ok (Nullptr, 0, [])" by (simp add: treap_state_ok_def treap_def t_addrs_def)
  from treap_run_ok [OF this, of xs] show ?thesis
    by (auto simp: treap_state_ok_def treap_def sorted_sort_id split: option.splits)
qed

text \<open>
  With distinct keys and priorities there is only one treap of a set of items: its shape does not
  depend on the operations that built it.
\<close>
theorem treap_canonical:
  assumes "treap t" "treap u" "mset (t_items t) = mset (t_items u)"
    and "distinct (t_keys t)" "distinct (map (\<lambda>x. snd (snd x)) (t_items t))"
  shows "t = u"
proof -
  have keys: "mset (t_keys t) = mset (t_keys u)" using assms(3) by (simp add: keys_mset)
  have "inj_on (fst \<circ> snd) (set (t_items t) \<union> set (t_items u))"
    using assms(3,4) by (metis Un_absorb distinct_map set_mset_mset t_keys_def)
  moreover have "distinct (t_keys u)" using assms(4) keys by (metis distinct_count_atmost_1 set_mset_mset)
  ultimately have "t_items t = t_items u"
    using assms by (intro map_sorted_distinct_set_unique) (auto simp: treap_def t_keys_def dest: mset_eq_setD)
  then show ?thesis using assms(1,2,4,5)
  proof (induction t arbitrary: u)
    case Nullptr
    then show ?case by (cases u) auto
  next
    case (Item a k p l r)
    then obtain b j q l' r' where u: "u = Item b j q l' r'" by (cases u) auto
    have items: "t_items l @ (a, k, p) # t_items r = t_items l' @ (b, j, q) # t_items r'" using Item.prems(1) u by simp
    have d: "distinct (map (\<lambda>x. snd (snd x)) (t_items l @ (a, k, p) # t_items r))" using Item.prems(5) by simp
    have in1: "(b, j, q) \<in> set (t_items (Item a k p l r))" unfolding t_items.simps items by simp
    have in2: "(a, k, p) \<in> set (t_items u)" unfolding u t_items.simps items [symmetric] by simp
    have "q \<in> t_priors (Item a k p l r)" unfolding t_priors_def using in1 by (rule rev_image_eqI) simp
    then have "q \<le> p" using priors_le [of a k p l r] Item.prems(2) unfolding treap_def by blast
    have "p \<in> t_priors u" unfolding t_priors_def using in2 by (rule rev_image_eqI) simp
    then have "p \<le> q" using priors_le [of b j q l' r'] Item.prems(3) unfolding treap_def u by blast
    with \<open>q \<le> p\<close> have "q = p" by simp
    then have "(b, j, q) = (a, k, p)"
      using d in1 unfolding distinct_map inj_on_def t_items.simps by (metis in_set_conv_decomp snd_conv)
    moreover have "(a, k, p) \<notin> set (t_items l)" "(a, k, p) \<notin> set (t_items r)" using d by (force simp: distinct_map)+
    ultimately have sides: "t_items l = t_items l'" "t_items r = t_items r'"
      using items by (auto simp: append_eq_append_conv2 append_eq_Cons_conv Cons_eq_append_conv)
    have parts: "treap l" "treap r" "treap l'" "treap r'"
      using treap_parts(1,2) [of a k p l r] treap_parts(1,2) [of b j q l' r'] Item.prems(2,3) u by blast+
    have "l = l'" by (rule Item.IH(1) [OF sides(1) parts(1,3)]) (use Item.prems(4) d in simp_all)
    moreover have "r = r'" by (rule Item.IH(2) [OF sides(2) parts(2,4)]) (use Item.prems(4) d in simp_all)
    ultimately show ?case using u \<open>(b, j, q) = (a, k, p)\<close> by simp
  qed
qed

lemma treap_canonical_witness:
  "t_insert (t_insert Nullptr (0, 5, 9)) (1, 3, 4) = t_merge (t_insert Nullptr (1, 3, 4)) (t_insert Nullptr (0, 5, 9))"
  by (rule treap_canonical) (simp_all add: treap_def)

end
