(* ===== verification/Range_Minimum.thy ===== *)
theory Range_Minimum
  imports Cpp_Prelude
begin

text \<open>
  \<open>algorithms/data/rmq.hpp\<close>: the sparse table \<open>RMQ<T>\<close> of positions of minima. \<open>None\<close> is a
  failed assertion or an access outside of a vector.
\<close>

section \<open>The class\<close>

record 'a rmq =
  rmq_v :: "'a list"
  rmq_jmp :: "nat list list"

text \<open>\<open>31 - __builtin_clz(x)\<close> for a positive \<open>x\<close>.\<close>

fun level :: "nat \<Rightarrow> nat" where
  "level x = (if x < 2 then 0 else Suc (level (x div 2)))"

definition cmb :: "'a::linorder list \<Rightarrow> nat \<Rightarrow> nat \<Rightarrow> nat" where
  "cmb v a b = (if v ! a = v ! b then min a b else if v ! a < v ! b then a else b)"

definition rmq_row :: "'a::linorder list \<Rightarrow> nat list list \<Rightarrow> nat \<Rightarrow> nat list" where
  "rmq_row v jmp j = map (\<lambda>i. cmb v (jmp ! (j - 1) ! i) (jmp ! (j - 1) ! (i + 2 ^ (j - 1)))) [0..<length v - 2 ^ j + 1]"

function rmq_levels :: "'a::linorder list \<Rightarrow> nat list list \<Rightarrow> nat \<Rightarrow> nat list list" where
  "rmq_levels v jmp j = (if 2 ^ j \<le> length v then rmq_levels v (jmp @ [rmq_row v jmp j]) (j + 1) else jmp)"
  by pat_completeness auto

termination
proof (relation "measure (\<lambda>(v, jmp, j). Suc (length v) - j)", goal_cases)
  case (2 v jmp j)
  then have "j \<le> length v" using less_exp [of j] by linarith
  then show ?case by simp
qed simp

declare rmq_levels.simps [simp del] level.simps [simp del]

definition rmq_init :: "'a::linorder list \<Rightarrow> 'a rmq" where
  "rmq_init v = \<lparr>rmq_v = v, rmq_jmp = rmq_levels v [[0..<length v]] 1\<rparr>"

definition at_table :: "nat list list \<Rightarrow> nat \<Rightarrow> nat \<Rightarrow> nat option" where
  "at_table jmp d i = (if d < length jmp \<and> i < length (jmp ! d) then Some (jmp ! d ! i) else None)"

definition rmq_index :: "'a::linorder rmq \<Rightarrow> nat \<Rightarrow> nat \<Rightarrow> nat option" where
  "rmq_index q l r =
     (if l \<le> r then
        let d = level (r - l + 1) in
        Option.bind (at_table (rmq_jmp q) d l) (\<lambda>a. Option.bind (at_table (rmq_jmp q) d (r + 1 - 2 ^ d)) (\<lambda>b.
          if a < length (rmq_v q) \<and> b < length (rmq_v q) then Some (cmb (rmq_v q) a b) else None))
      else None)"

definition rmq_query :: "'a::linorder rmq \<Rightarrow> nat \<Rightarrow> nat \<Rightarrow> 'a option" where
  "rmq_query q l r = Option.bind (rmq_index q l r) (\<lambda>i. if i < length (rmq_v q) then Some (rmq_v q ! i) else None)"

section \<open>The leftmost minimum\<close>

definition leftmost_min :: "'a::linorder list \<Rightarrow> nat \<Rightarrow> nat \<Rightarrow> nat \<Rightarrow> bool" where
  "leftmost_min v l r i \<longleftrightarrow> l \<le> i \<and> i \<le> r \<and> (\<forall>k. l \<le> k \<and> k \<le> r \<longrightarrow> v ! i \<le> v ! k) \<and> (\<forall>k. l \<le> k \<and> k < i \<longrightarrow> v ! i < v ! k)"

lemma cmb_leftmost:
  assumes a: "leftmost_min v l m a" and b: "leftmost_min v n r b" and "l \<le> n" "n \<le> Suc m" "m \<le> r"
  shows "leftmost_min v l r (cmb v a b)"
proof -
  have cover: "k \<le> m \<or> n \<le> k" for k using assms(4) by linarith
  have av: "v ! a \<le> v ! k" if "l \<le> k" "k \<le> m" for k using a that by (simp add: leftmost_min_def)
  have bv: "v ! b \<le> v ! k" if "n \<le> k" "k \<le> r" for k using b that by (simp add: leftmost_min_def)
  have al: "v ! a < v ! k" if "l \<le> k" "k < a" for k using a that by (simp add: leftmost_min_def)
  have bl: "v ! b < v ! k" if "n \<le> k" "k < b" for k using b that by (simp add: leftmost_min_def)
  have ab: "l \<le> a" "a \<le> m" "n \<le> b" "b \<le> r" using a b by (simp_all add: leftmost_min_def)
  consider "v ! a = v ! b" "a \<le> b" | "v ! a = v ! b" "b < a" | "v ! a < v ! b" | "v ! b < v ! a" by (meson leI linorder_neqE)
  then show ?thesis
  proof cases
    case 1
    then have "cmb v a b = a" by (simp add: cmb_def)
    moreover have "v ! a \<le> v ! k" if "l \<le> k" "k \<le> r" for k using cover [of k] av bv 1 that by fastforce
    ultimately show ?thesis using ab al assms(3,5) by (auto simp: leftmost_min_def)
  next
    case 2
    then have c: "cmb v a b = b" by (simp add: cmb_def)
    have "v ! b \<le> v ! k" if "l \<le> k" "k \<le> r" for k using cover [of k] av bv 2 that by fastforce
    moreover have "v ! b < v ! k" if "l \<le> k" "k < b" for k using al [of k] 2 that by simp
    ultimately show ?thesis using c ab assms(3,5) by (auto simp: leftmost_min_def)
  next
    case 3
    then have "cmb v a b = a" by (simp add: cmb_def)
    moreover have "v ! a \<le> v ! k" if "l \<le> k" "k \<le> r" for k using cover [of k] av bv [of k] 3 that by fastforce
    ultimately show ?thesis using ab al assms(3,5) by (auto simp: leftmost_min_def)
  next
    case 4
    then have c: "cmb v a b = b" by (auto simp: cmb_def)
    have "v ! b \<le> v ! k" if "l \<le> k" "k \<le> r" for k using cover [of k] av [of k] bv 4 that by fastforce
    moreover have "v ! b < v ! k" if "l \<le> k" "k < b" for k
      using cover [of k] av [of k] bl [of k] 4 that by fastforce
    ultimately show ?thesis using c ab assms(3,5) by (auto simp: leftmost_min_def)
  qed
qed

section \<open>The table\<close>

definition table_ok :: "'a::linorder list \<Rightarrow> nat list list \<Rightarrow> bool" where
  "table_ok v jmp \<longleftrightarrow> jmp \<noteq> [] \<and> (\<forall>j<length jmp. length (jmp ! j) = length v + 1 - 2 ^ j \<and>
     (\<forall>i<length (jmp ! j). leftmost_min v i (i + 2 ^ j - 1) (jmp ! j ! i)))"

lemma row_ok:
  assumes ok: "table_ok v jmp" and j: "length jmp = j" "2 ^ j \<le> length v"
  shows "table_ok v (jmp @ [rmq_row v jmp j])"
proof -
  have jpos: "0 < j" using ok j by (auto simp: table_ok_def)
  let ?w = "2 ^ (j - 1) :: nat"
  have pow: "2 ^ j = 2 * ?w" using jpos by (metis Suc_diff_1 power_Suc)
  have prev: "length (jmp ! (j - 1)) = length v + 1 - ?w"
    "i < length v + 1 - ?w \<Longrightarrow> leftmost_min v i (i + ?w - 1) (jmp ! (j - 1) ! i)" for i
    using ok jpos j(1) by (auto simp: table_ok_def)
  have len: "length (rmq_row v jmp j) = length v + 1 - 2 ^ j" using j(2) by (simp add: rmq_row_def Suc_diff_le)
  have "leftmost_min v i (i + 2 ^ j - 1) (rmq_row v jmp j ! i)" if i: "i < length (rmq_row v jmp j)" for i
  proof -
    have w: "0 < ?w" by simp
    have i': "i < length v + 1 - 2 ^ j" using i len by simp
    then have "leftmost_min v i (i + ?w - 1) (jmp ! (j - 1) ! i)"
      "leftmost_min v (i + ?w) (i + ?w + ?w - 1) (jmp ! (j - 1) ! (i + ?w))"
      using pow by (intro prev(2); linarith)+
    then have "leftmost_min v i (i + ?w + ?w - 1) (cmb v (jmp ! (j - 1) ! i) (jmp ! (j - 1) ! (i + ?w)))"
      by (rule cmb_leftmost) (use w in linarith)+
    moreover have "i + ?w + ?w - 1 = i + 2 ^ j - 1" using pow by simp
    moreover have "rmq_row v jmp j ! i = cmb v (jmp ! (j - 1) ! i) (jmp ! (j - 1) ! (i + ?w))"
    proof -
      have "i < length v - 2 ^ j + 1" using i' j(2) by linarith
      then show ?thesis by (simp add: rmq_row_def del: upt_Suc One_nat_def)
    qed
    ultimately show ?thesis by (simp only:)
  qed
  then show ?thesis
    using ok len j(1) by (auto simp: table_ok_def nth_append less_Suc_eq)
qed

lemma levels_ok:
  assumes "table_ok v jmp" "length jmp = j" "j = 0 \<or> 2 ^ (j - 1) \<le> length v \<or> j = 1"
  shows "table_ok v (rmq_levels v jmp j) \<and> length v < 2 ^ length (rmq_levels v jmp j) \<and> j \<le> length (rmq_levels v jmp j)"
  using assms
proof (induction v jmp j rule: rmq_levels.induct)
  case (1 v jmp j)
  show ?case
  proof (cases "2 ^ j \<le> length v")
    case True
    then have "table_ok v (jmp @ [rmq_row v jmp j])" using row_ok 1 by blast
    then show ?thesis using 1(1) [OF True] 1(3) True by (simp add: rmq_levels.simps [of v jmp])
  next
    case False
    then show ?thesis using 1(2,3) by (simp add: rmq_levels.simps [of v jmp])
  qed
qed

lemma level_bounds: "0 < x \<Longrightarrow> 2 ^ level x \<le> x \<and> x < 2 * 2 ^ level x"
proof (induction x rule: level.induct)
  case (1 x)
  show ?case
  proof (cases "x < 2")
    case False
    then have "2 ^ level (x div 2) \<le> x div 2 \<and> x div 2 < 2 * 2 ^ level (x div 2)" using 1 by simp
    then show ?thesis using False by (simp add: level.simps [of x]) linarith
  qed (use 1 in \<open>simp add: level.simps [of x]\<close>)
qed

lemma table_init: "table_ok v [[0..<length v]]"
  by (auto simp: table_ok_def leftmost_min_def)

lemma rmq_index_ok:
  assumes "l \<le> r" "r < length v"
  shows "\<exists>i. rmq_index (rmq_init v) l r = Some i \<and> leftmost_min v l r i"
proof -
  let ?jmp = "rmq_levels v [[0..<length v]] 1"
  have ok: "table_ok v ?jmp" "length v < 2 ^ length ?jmp"
    using levels_ok [OF table_init [of v], of 1] by simp_all
  define d where "d = level (r - l + 1)"
  have d: "2 ^ d \<le> r - l + 1" "r - l + 1 < 2 * 2 ^ d" using level_bounds [of "r - l + 1"] by (simp_all add: d_def)
  have "(2::nat) ^ d < 2 ^ length ?jmp" using d(1) ok(2) assms by linarith
  then have dl: "d < length ?jmp" by simp
  have row: "length (?jmp ! d) = length v + 1 - 2 ^ d"
    "i < length v + 1 - 2 ^ d \<Longrightarrow> leftmost_min v i (i + 2 ^ d - 1) (?jmp ! d ! i)" for i
    using ok(1) dl by (auto simp: table_ok_def)
  let ?s = "r + 1 - 2 ^ d"
  have b: "l < length v + 1 - 2 ^ d" "?s < length v + 1 - 2 ^ d" using d assms by linarith+
  have m: "leftmost_min v l (l + 2 ^ d - 1) (?jmp ! d ! l)" "leftmost_min v ?s (?s + 2 ^ d - 1) (?jmp ! d ! ?s)"
    using row(2) b by blast+
  have e: "?s + 2 ^ d - 1 = r" using d assms(1) by linarith
  have "leftmost_min v l r (cmb v (?jmp ! d ! l) (?jmp ! d ! ?s))"
    by (rule cmb_leftmost [OF m(1) m(2) [unfolded e]]) (use d assms(1) in linarith)+
  moreover have "?jmp ! d ! l < length v" "?jmp ! d ! ?s < length v"
    using m d assms by (auto simp: leftmost_min_def)
  moreover have "at_table ?jmp d l = Some (?jmp ! d ! l)" "at_table ?jmp d ?s = Some (?jmp ! d ! ?s)"
    using dl b row(1) by (simp_all add: at_table_def)
  ultimately show ?thesis
    using assms(1) unfolding rmq_index_def rmq_init_def Let_def d_def [symmetric] by simp
qed

text \<open>
  a query of the sparse table on a range inside of the vector finds the minimum of the range, and
  \<open>index\<close> the leftmost position that has it, without leaving the table.
\<close>
theorem rmq_query_minimum:
  assumes "l \<le> r" "r < length v"
  shows "\<exists>i. rmq_index (rmq_init v) l r = Some i \<and> leftmost_min v l r i \<and>
    rmq_query (rmq_init v) l r = Some (Min (set (take (r - l + 1) (drop l v))))"
proof -
  obtain i where i: "rmq_index (rmq_init v) l r = Some i" "leftmost_min v l r i" using rmq_index_ok [OF assms] by blast
  have range: "set (take (r - l + 1) (drop l v)) = (\<lambda>k. v ! k) ` {l..r}"
  proof -
    have "take (r - l + 1) (drop l v) = map (\<lambda>k. v ! k) [l..<r + 1]"
      using assms by (intro nth_equalityI) (auto simp del: upt_Suc)
    then show ?thesis by (auto simp del: upt_Suc)
  qed
  have "Min ((\<lambda>k. v ! k) ` {l..r}) = v ! i"
    using i(2) by (intro Min_eqI) (auto simp: leftmost_min_def)
  moreover have "i < length v" using i(2) assms by (auto simp: leftmost_min_def)
  ultimately show ?thesis using i unfolding rmq_query_def range by (simp add: rmq_init_def)
qed

lemma rmq_query_minimum_witness:
  "\<exists>i. rmq_index (rmq_init [4, 2, 7, 2, 9 :: int]) 1 4 = Some i \<and> leftmost_min [4, 2, 7, 2, 9 :: int] 1 4 i \<and>
    rmq_query (rmq_init [4, 2, 7, 2, 9 :: int]) 1 4 = Some (Min (set (take (4 - 1 + 1) (drop 1 [4, 2, 7, 2, 9 :: int]))))"
  by (rule rmq_query_minimum) simp_all

end
