(* ===== verification/Heap_Sort.thy ===== *)
theory Heap_Sort
  imports Cpp_Prelude "HOL-Library.Multiset"
begin

text \<open>
  \<open>data/heapsort.hpp\<close>: \<open>__heapsort\<close>, which copies a vector and sorts the copy, and the program of
  \<open>data/test_heap.cpp\<close>. Positions are those the loops visit: a loop down to 0 is a fold over the
  reversed range.
\<close>

section \<open>The class\<close>

definition heap_swap :: "'a list \<Rightarrow> nat \<Rightarrow> nat \<Rightarrow> 'a list" where
  "heap_swap A i j = A[i := A ! j, j := A ! i]"

definition big_child :: "'a::linorder list \<Rightarrow> nat \<Rightarrow> nat \<Rightarrow> nat" where
  "big_child A i mx =
     (let c1 = 2 * i + 1; c2 = c1 + 1;
          i_big = (if c1 < mx \<and> A ! c1 > A ! i then c1 else i)
      in if c2 < mx \<and> A ! c2 > A ! i_big then c2 else i_big)"

lemma big_child_cases: "big_child A i mx = i \<or> i < big_child A i mx \<and> big_child A i mx < mx"
  by (auto simp: big_child_def Let_def)

function shift_down :: "'a::linorder list \<Rightarrow> nat \<Rightarrow> nat \<Rightarrow> 'a list" where
  "shift_down A i mx =
     (if i < mx then
        let i_big = big_child A i mx in
        if i_big = i then A else shift_down (heap_swap A i i_big) i_big mx
      else A)"
  by pat_completeness auto

termination
proof (relation "measure (\<lambda>(A, i, mx). mx - i)", goal_cases)
  case (2 A i mx b)
  then show ?case using big_child_cases [of A i mx] by auto
qed simp

declare shift_down.simps [simp del]

definition to_heap :: "'a::linorder list \<Rightarrow> 'a list" where
  "to_heap A = fold (\<lambda>i A. shift_down A i (length A)) (rev [0..<length A div 2]) A"

definition heap_sort :: "'a::linorder list \<Rightarrow> 'a list" where
  "heap_sort A = (let A = to_heap A in
     fold (\<lambda>end A. shift_down (heap_swap A 0 end) 0 end) (rev [1..<length A]) A)"

definition heapsort_main :: string where
  "heapsort_main = concat (map (\<lambda>i. show_int i @ '' '')
     (heap_sort [12, 11, 15, 10, 9, 1, 2, 3, 13, 14, 4, 5, 6, 7, 8])) @ newline"

section \<open>Permutations\<close>

lemma length_heap_swap [simp]: "length (heap_swap A i j) = length A"
  by (simp add: heap_swap_def)

lemma nth_heap_swap:
  "i < length A \<Longrightarrow> j < length A \<Longrightarrow> heap_swap A i j ! k = (if k = j then A ! i else if k = i then A ! j else A ! k)"
  by (auto simp: heap_swap_def nth_list_update)

lemma mset_heap_swap: "i < length A \<Longrightarrow> j < length A \<Longrightarrow> mset (heap_swap A i j) = mset A"
  by (simp add: heap_swap_def mset_swap)

text \<open>\<open>B\<close> is \<open>A\<close> with the first \<open>n\<close> elements permuted.\<close>

definition permuted :: "nat \<Rightarrow> 'a list \<Rightarrow> 'a list \<Rightarrow> bool" where
  "permuted n A B \<longleftrightarrow> length B = length A \<and> mset (take n B) = mset (take n A) \<and> drop n B = drop n A"

lemma permuted_refl [simp]: "permuted n A A"
  by (simp add: permuted_def)

lemma permuted_trans: "permuted n A B \<Longrightarrow> permuted n B C \<Longrightarrow> permuted n A C"
  by (simp add: permuted_def)

lemma permuted_swap:
  assumes "i < n" "j < n" "n \<le> length A"
  shows "permuted n A (heap_swap A i j)"
proof -
  have "take n (heap_swap A i j) = heap_swap (take n A) i j"
    using assms by (intro nth_equalityI) (auto simp: nth_heap_swap)
  moreover have "drop n (heap_swap A i j) = drop n A"
    using assms by (intro nth_equalityI) (auto simp: nth_heap_swap)
  ultimately show ?thesis using assms by (simp add: permuted_def mset_heap_swap)
qed

lemma permuted_mset: "permuted n A B \<Longrightarrow> mset B = mset A"
  unfolding permuted_def by (metis append_take_drop_id mset_append)

lemma shift_down_permuted: "mx \<le> length A \<Longrightarrow> permuted mx A (shift_down A i mx)"
proof (induction A i mx rule: shift_down.induct)
  case (1 A i mx)
  let ?b = "big_child A i mx"
  show ?case
  proof (cases "i < mx \<and> ?b \<noteq> i")
    case True
    then have b: "?b < mx" using big_child_cases [of A i mx] by auto
    have "permuted mx (heap_swap A i ?b) (shift_down (heap_swap A i ?b) ?b mx)"
      using 1 True by simp
    then show ?thesis
      using True permuted_swap [of i mx ?b A] b 1(2) by (subst shift_down.simps) (auto simp: Let_def elim: permuted_trans)
  qed (subst shift_down.simps, auto simp: Let_def)
qed

section \<open>Heaps\<close>

definition heap_at :: "'a::linorder list \<Rightarrow> nat \<Rightarrow> nat \<Rightarrow> bool" where
  "heap_at A mx k \<longleftrightarrow> (\<forall>c. (c = 2 * k + 1 \<or> c = 2 * k + 2) \<and> c < mx \<longrightarrow> A ! c \<le> A ! k)"

definition heap_from :: "'a::linorder list \<Rightarrow> nat \<Rightarrow> nat \<Rightarrow> bool" where
  "heap_from A lo mx \<longleftrightarrow> (\<forall>k\<ge>lo. heap_at A mx k)"

lemma big_child_max:
  assumes "c = 2 * i + 1 \<or> c = 2 * i + 2" "c < mx"
  shows "A ! c \<le> A ! big_child A i mx"
  using assms by (auto simp: big_child_def Let_def)

lemma big_child_ge: "A ! i \<le> A ! big_child A i mx"
  by (auto simp: big_child_def Let_def)

lemma big_child_is_child: "big_child A i mx \<noteq> i \<Longrightarrow> big_child A i mx = 2 * i + 1 \<or> big_child A i mx = 2 * i + 2"
  by (auto simp: big_child_def Let_def split: if_splits)

text \<open>
  The loop repairs a heap that is wrong at \<open>i\<close> only: the children of \<open>i\<close> are not bigger than the
  parent of \<open>i\<close>.
\<close>

lemma shift_down_heap:
  assumes "mx \<le> length A" "lo \<le> i" "\<And>k. lo \<le> k \<Longrightarrow> k \<noteq> i \<Longrightarrow> heap_at A mx k"
    and "\<And>k c. lo \<le> k \<Longrightarrow> i = 2 * k + 1 \<or> i = 2 * k + 2 \<Longrightarrow> c = 2 * i + 1 \<or> c = 2 * i + 2 \<Longrightarrow> c < mx \<Longrightarrow> A ! c \<le> A ! k"
  shows "heap_from (shift_down A i mx) lo mx"
  using assms
proof (induction A i mx rule: shift_down.induct)
  case (1 A i mx)
  let ?b = "big_child A i mx"
  have unfold: "shift_down A i mx = (if i < mx \<and> ?b \<noteq> i then shift_down (heap_swap A i ?b) ?b mx else A)"
    by (subst shift_down.simps) (simp add: Let_def)
  show ?case
  proof (cases "i < mx \<and> ?b \<noteq> i")
    case False
    have "heap_at A mx i"
    proof (cases "i < mx")
      case True
      then show ?thesis using False big_child_max [of _ i mx A] by (auto simp: heap_at_def)
    qed (auto simp: heap_at_def)
    then show ?thesis using False 1(4) by (auto simp: unfold heap_from_def)
  next
    case True
    let ?A = "heap_swap A i ?b"
    have b: "?b = 2 * i + 1 \<or> ?b = 2 * i + 2" "?b < mx" "i < ?b"
      using True big_child_is_child [of A i mx] big_child_cases [of A i mx] by auto
    then have len: "i < length A" "?b < length A" using True 1(2) by auto
    note nth = nth_heap_swap [OF len]
    have "heap_from (shift_down ?A ?b mx) lo mx"
    proof (rule 1(1))
      show "heap_at ?A mx k" if k: "lo \<le> k" "k \<noteq> ?b" for k
      proof (cases "k = i")
        case True
        have "?A ! c \<le> ?A ! i" if c: "c = 2 * i + 1 \<or> c = 2 * i + 2" "c < mx" for c
          using big_child_max [OF c, of A] big_child_ge [of A i mx] c by (auto simp: nth)
        then show ?thesis by (simp add: heap_at_def True)
      next
        case False
        have "?A ! c \<le> ?A ! k" if c: "c = 2 * k + 1 \<or> c = 2 * k + 2" "c < mx" for c
        proof (cases "c = i")
          case True
          then have "A ! ?b \<le> A ! k" using 1(5) [of k ?b] k(1) c b by blast
          then show ?thesis using True False k(2) b(3) by (simp add: nth)
        next
          case ci: False
          have "c \<noteq> ?b" using c(1) b(1) False by auto
          then show ?thesis using 1(4) [OF k(1) False] c ci False k(2) by (auto simp: nth heap_at_def)
        qed
        then show ?thesis by (simp add: heap_at_def)
      qed
      show "?A ! c \<le> ?A ! k" if c: "lo \<le> k" "?b = 2 * k + 1 \<or> ?b = 2 * k + 2" "c = 2 * ?b + 1 \<or> c = 2 * ?b + 2" "c < mx" for k c
      proof -
        have "k = i" using c(2) b(1) by auto
        moreover have "A ! c \<le> A ! ?b" using 1(4) [of ?b] 1(3) b(3) c(3,4) by (auto simp: heap_at_def)
        ultimately show ?thesis using c(3) b(3) by (auto simp: nth)
      qed
    qed (use True 1(2,3) b in auto)
    then show ?thesis using True by (simp add: unfold)
  qed
qed

lemma to_heap_ok:
  assumes "m \<le> length A div 2" "heap_from A m (length A)"
  shows "let B = fold (\<lambda>i A. shift_down A i (length A)) (rev [0..<m]) A in
    heap_from B 0 (length A) \<and> permuted (length A) A B"
  using assms
proof (induction m arbitrary: A)
  case (Suc m)
  let ?B = "shift_down A m (length A)"
  have p: "permuted (length A) A ?B" by (rule shift_down_permuted) simp
  then have len: "length ?B = length A" by (simp add: permuted_def)
  have "heap_from ?B m (length A)"
    using Suc.prems(2) by (intro shift_down_heap) (auto simp: heap_from_def)
  then show ?case
    using Suc.IH [of ?B] Suc.prems(1) p by (auto simp: len Let_def elim: permuted_trans)
qed simp

lemma heap_root:
  assumes "heap_from A 0 mx" "k < mx"
  shows "A ! k \<le> A ! 0"
  using assms(2)
proof (induction k rule: less_induct)
  case (less k)
  show ?case
  proof (cases "k = 0")
    case False
    let ?p = "(k - 1) div 2"
    have "k = 2 * ?p + 1 \<or> k = 2 * ?p + 2" using False by presburger
    then have "A ! k \<le> A ! ?p" using assms(1) less.prems by (auto simp: heap_from_def heap_at_def)
    also have "A ! ?p \<le> A ! 0" using less False by (intro less.IH) auto
    finally show ?thesis .
  qed simp
qed

section \<open>Sorting\<close>

text \<open>The elements from \<open>n\<close> on are sorted and not smaller than the others.\<close>

definition sorted_from :: "'a::linorder list \<Rightarrow> nat \<Rightarrow> bool" where
  "sorted_from A n \<longleftrightarrow> sorted (drop n A) \<and> (\<forall>x\<in>set (take n A). \<forall>y\<in>set (drop n A). x \<le> y)"

lemma sort_step:
  assumes n: "Suc n \<le> length A" and heap: "heap_from A 0 (Suc n)" and sorted: "sorted_from A (Suc n)"
  shows "let B = shift_down (heap_swap A 0 n) 0 n in
    heap_from B 0 n \<and> sorted_from B n \<and> mset B = mset A \<and> length B = length A"
proof -
  let ?A = "heap_swap A 0 n" and ?B = "shift_down (heap_swap A 0 n) 0 n"
  have nth: "?A ! k = (if k = n then A ! 0 else if k = 0 then A ! n else A ! k)" for k
    using n by (intro nth_heap_swap) auto
  have p: "permuted n ?A ?B" using n by (intro shift_down_permuted) simp
  have "heap_from ?B 0 n"
    using heap n by (intro shift_down_heap) (auto simp: heap_from_def heap_at_def nth)
  moreover have "mset ?B = mset A" using permuted_mset [OF p] n mset_heap_swap [of 0 A n] by fastforce
  moreover have "sorted_from ?B n"
  proof -
    have d: "drop n ?B = A ! 0 # drop (Suc n) A"
    proof -
      have "drop n ?A = ?A ! n # drop (Suc n) ?A" using n by (simp add: Cons_nth_drop_Suc)
      moreover have "drop (Suc n) ?A = drop (Suc n) A" using n by (intro nth_equalityI) (auto simp: nth)
      ultimately show ?thesis using p by (simp add: permuted_def nth)
    qed
    have t: "set (take n ?B) \<subseteq> set (take (Suc n) A)"
    proof -
      have "set (take n ?B) = set (take n ?A)" using p unfolding permuted_def by (metis mset_eq_setD)
      moreover have "x \<in> set (take (Suc n) A)" if x: "x \<in> set (take n ?A)" for x
      proof -
        obtain i where i: "i < n" "x = ?A ! i" using x n by (auto simp: in_set_conv_nth)
        then have "x = take (Suc n) A ! (if i = 0 then n else i)" using n by (simp add: nth)
        moreover have "(if i = 0 then n else i) < length (take (Suc n) A)" using i n by simp
        ultimately show ?thesis using nth_mem by metis
      qed
      ultimately show ?thesis by blast
    qed
    have "x \<le> A ! 0" if "x \<in> set (take (Suc n) A)" for x
      using that heap_root [OF heap] n by (auto simp: in_set_conv_nth)
    moreover have "A ! 0 \<in> set (take (Suc n) A)" using n by (auto simp: in_set_conv_nth intro!: exI [of _ 0])
    ultimately show ?thesis using sorted t by (auto simp: sorted_from_def d)
  qed
  ultimately show ?thesis using p by (simp add: permuted_def)
qed

lemma sort_loop:
  assumes "n \<le> length A" "heap_from A 0 n" "sorted_from A n"
  shows "let B = fold (\<lambda>end A. shift_down (heap_swap A 0 end) 0 end) (rev [1..<n]) A in sorted B \<and> mset B = mset A"
  using assms
proof (induction n arbitrary: A)
  case 0
  then show ?case by (simp add: sorted_from_def)
next
  case (Suc n)
  show ?case
  proof (cases "n = 0")
    case True
    then obtain x xs where "A = x # xs" using Suc.prems(1) by (cases A) auto
    then show ?thesis using Suc.prems(3) True by (simp add: sorted_from_def)
  next
    case False
    then have r: "rev [1..<Suc n] = n # rev [1..<n]" by simp
    let ?B = "shift_down (heap_swap A 0 n) 0 n"
    have "heap_from ?B 0 n" "sorted_from ?B n" "mset ?B = mset A" "length ?B = length A"
      using sort_step [OF Suc.prems] by (simp_all add: Let_def)
    then show ?thesis using Suc.IH [of ?B] Suc.prems(1) unfolding r by (simp add: Let_def)
  qed
qed

lemma heap_sort_is_sort: "heap_sort A = sort A"
proof -
  have "heap_from A (length A div 2) (length A)" by (auto simp: heap_from_def heap_at_def)
  from to_heap_ok [OF order_refl this] have h: "heap_from (to_heap A) 0 (length A)" "permuted (length A) A (to_heap A)"
    by (simp_all add: to_heap_def Let_def)
  then have len: "length (to_heap A) = length A" by (simp add: permuted_def)
  have "sorted (heap_sort A) \<and> mset (heap_sort A) = mset (to_heap A)"
    using sort_loop [of "length (to_heap A)" "to_heap A"] h by (simp add: heap_sort_def Let_def len sorted_from_def)
  then show ?thesis using permuted_mset [OF h(2)] properties_for_sort [of "heap_sort A" A] by simp
qed

text \<open>
  the heap sort of \<open>data/heapsort.hpp\<close> sorts every vector: the loops end, and the vector they leave is
  a sorted permutation of the one that was copied. The program prints its fifteen numbers in order.
\<close>
theorem heap_sort_sorts:
  "sorted (heap_sort A) \<and> mset (heap_sort A) = mset A \<and>
    heapsort_main = ''1 2 3 4 5 6 7 8 9 10 11 12 13 14 15 '' @ newline"
  unfolding heapsort_main_def heap_sort_is_sort by (simp add: show_simps)

end
