(* ===== verification/Bit_Vector.thy ===== *)
theory Bit_Vector
  imports Cpp_Prelude
begin

text \<open>
  \<open>pearls/one.cpp\<close> and \<open>pearls/sort_bitmap.cpp\<close>: the class \<open>bit_vector\<close>, the bitmap sort, and what
  the two programs do with the numbers of their input. The bounds \<open>MAXV\<close> and \<open>MAX_VALUE\<close>, both 10000000,
  are an argument, since nothing depends on their value. \<open>set\<close> does not check its index, so that the access
  to a word that is not there is undefined behaviour.
\<close>

unbundle bit_operations_syntax

section \<open>The class\<close>

record bit_vector =
  bv_nbits :: nat
  bv_v :: "64 word list"

definition bit_vector :: "nat \<Rightarrow> bit_vector" where
  "bit_vector n = \<lparr>bv_nbits = n, bv_v = replicate ((n + 63) div 64) 0\<rparr>"

definition bit_mask :: "nat \<Rightarrow> 64 word" where
  "bit_mask i = push_bit (i mod 64) 1"

definition check_index :: "bit_vector \<Rightarrow> nat \<Rightarrow> unit result" where
  "check_index b i = (if i \<ge> bv_nbits b then Inl (Out_Of_Range ''bit index out of range.'') else Inr ())"

definition bv_word :: "bit_vector \<Rightarrow> nat \<Rightarrow> 64 word result" where
  "bv_word b i = (if i div 64 < length (bv_v b) then Inr (bv_v b ! (i div 64)) else Inl Undefined_Behaviour)"

definition bv_set :: "bit_vector \<Rightarrow> nat \<Rightarrow> bit_vector result" where
  "bv_set b i = bind_result (bv_word b i) (\<lambda>w. Inr (b\<lparr>bv_v := (bv_v b)[i div 64 := w OR bit_mask i]\<rparr>))"

definition bv_clear :: "bit_vector \<Rightarrow> nat \<Rightarrow> bit_vector result" where
  "bv_clear b i = bind_result (check_index b i) (\<lambda>_. bind_result (bv_word b i) (\<lambda>w.
     Inr (b\<lparr>bv_v := (bv_v b)[i div 64 := w AND NOT (bit_mask i)]\<rparr>)))"

definition bv_test :: "bit_vector \<Rightarrow> nat \<Rightarrow> bool result" where
  "bv_test b i = bind_result (check_index b i) (\<lambda>_. bind_result (bv_word b i) (\<lambda>w. Inr (w AND bit_mask i \<noteq> 0)))"

definition bv_size :: "bit_vector \<Rightarrow> nat" where
  "bv_size b = bv_nbits b"

section \<open>The programs\<close>

fun set_all :: "nat list \<Rightarrow> bit_vector \<Rightarrow> bit_vector result" where
  "set_all [] b = Inr b"
| "set_all (x # xs) b = bind_result (bv_set b x) (set_all xs)"

fun collect :: "bit_vector \<Rightarrow> nat list \<Rightarrow> nat list result" where
  "collect b [] = Inr []"
| "collect b (i # is) = bind_result (bv_test b i) (\<lambda>t. bind_result (collect b is) (\<lambda>out. Inr (if t then i # out else out)))"

definition bitmap_sort :: "nat \<Rightarrow> nat list \<Rightarrow> nat list result" where
  "bitmap_sort max_value input = bind_result (set_all input (bit_vector max_value)) (\<lambda>bv. collect bv [0..<max_value])"

definition std_sort_v :: "nat list \<Rightarrow> nat list" where
  "std_sort_v input = sort input"

definition my_sort :: "nat \<Rightarrow> nat list \<Rightarrow> nat list result" where
  "my_sort max_value input = bitmap_sort max_value input"

text \<open>The numbers of the input file.\<close>

fun read_input :: "nat \<Rightarrow> nat list \<Rightarrow> nat list result" where
  "read_input max_value [] = Inr []"
| "read_input max_value (x # xs) =
     (if x \<ge> max_value then Inl (Runtime_Error (''Input value out of range: '' @ show_nat x))
      else bind_result (read_input max_value xs) (\<lambda>data. Inr (x # data)))"

definition output_file :: "nat list \<Rightarrow> string" where
  "output_file data = concat (map (\<lambda>x. line_out (show_nat x)) data)"

text \<open>\<open>--bench\<close>: the contents of the three output files, without the times.\<close>

definition bench :: "nat \<Rightarrow> nat list \<Rightarrow> (string \<times> string \<times> string) result" where
  "bench max_value input = bind_result (read_input max_value input) (\<lambda>data.
     bind_result (bitmap_sort max_value data) (\<lambda>bitmap_result.
     let std_result = std_sort_v data in
     bind_result (my_sort max_value data) (\<lambda>p1_result.
     if bitmap_result \<noteq> std_result then Inl (Runtime_Error ''bitmap_sort output does not match std::sort output'')
     else if p1_result \<noteq> std_result then Inl (Runtime_Error ''Problem 1 sort output does not match std::sort output'')
     else Inr (output_file bitmap_result, output_file std_result, output_file p1_result))))"

text \<open>\<open>one.cpp\<close>: the text on \<open>std::cout\<close> and on \<open>std::cerr\<close>.\<close>

fun read_numbers :: "nat \<Rightarrow> int list \<Rightarrow> bit_vector \<Rightarrow> (bit_vector \<times> string) result" where
  "read_numbers maxv [] bv = Inr (bv, [])"
| "read_numbers maxv (x # xs) bv =
     (if x < 0 \<or> x > int maxv
      then bind_result (read_numbers maxv xs bv) (\<lambda>(bv, err). Inr (bv, line_out (''value out of range: '' @ show_int x) @ err))
      else bind_result (bv_set bv (nat x)) (read_numbers maxv xs))"

definition one_main :: "nat \<Rightarrow> int list \<Rightarrow> (string \<times> string) result" where
  "one_main maxv input = bind_result (read_numbers maxv input (bit_vector (maxv + 1))) (\<lambda>(bv, err).
     bind_result (collect bv [0..<maxv + 1]) (\<lambda>out. Inr (concat (map (\<lambda>i. show_nat i @ '' '') out), err)))"

section \<open>The set of a bit vector\<close>

definition bv_bits :: "bit_vector \<Rightarrow> nat set" where
  "bv_bits b = {i. i div 64 < length (bv_v b) \<and> bit (bv_v b ! (i div 64)) (i mod 64)}"

lemma bit_bit_mask: "bit (bit_mask i) k \<longleftrightarrow> k = i mod 64"
  by (auto simp: bit_mask_def bit_push_bit_iff bit_1_iff possible_bit_def simp del: push_bit_of_1)

lemma and_bit_mask: "w AND bit_mask i \<noteq> 0 \<longleftrightarrow> bit w (i mod 64)"
proof -
  have zero: "x = 0 \<longleftrightarrow> (\<forall>k. \<not> bit x k)" for x :: "64 word"
  proof
    show "x = 0" if "\<forall>k. \<not> bit x k" using that by (intro bit_eqI) simp
  qed simp
  show ?thesis unfolding zero by (auto simp: bit_and_iff bit_bit_mask)
qed

lemma same_bit: "i div 64 = j div 64 \<Longrightarrow> i mod 64 = j mod 64 \<Longrightarrow> i = j" for i j :: nat
  by (metis div_mult_mod_eq)

lemma bv_bits_update:
  assumes "i div 64 < length (bv_v b)"
    and "\<And>k. bit w k \<longleftrightarrow> (if k = i mod 64 then v else bit (bv_v b ! (i div 64)) k)"
  shows "bv_bits (b\<lparr>bv_v := (bv_v b)[i div 64 := w]\<rparr>) = (if v then insert i (bv_bits b) else bv_bits b - {i})"
  using assms by (auto simp: bv_bits_def nth_list_update dest: same_bit split: if_splits)

lemma bv_set_ok:
  assumes "i div 64 < length (bv_v b)"
  shows "\<exists>c. bv_set b i = Inr c \<and> bv_bits c = insert i (bv_bits b) \<and> length (bv_v c) = length (bv_v b) \<and> bv_nbits c = bv_nbits b"
  using assms bv_bits_update [of i b "bv_v b ! (i div 64) OR bit_mask i" True]
  by (simp add: bv_set_def bv_word_def bit_or_iff bit_bit_mask)

lemma bv_clear_ok:
  assumes "i div 64 < length (bv_v b)" "i < bv_nbits b"
  shows "\<exists>c. bv_clear b i = Inr c \<and> bv_bits c = bv_bits b - {i} \<and> length (bv_v c) = length (bv_v b) \<and> bv_nbits c = bv_nbits b"
proof -
  let ?w = "bv_v b ! (i div 64) AND NOT (bit_mask i)"
  have "bit ?w k \<longleftrightarrow> (if k = i mod 64 then False else bit (bv_v b ! (i div 64)) k)" for k
    using bit_imp_le_length [of "bv_v b ! (i div 64)" k]
    by (auto simp: bit_and_iff bit_not_iff bit_bit_mask possible_bit_def)
  from bv_bits_update [OF assms(1) this] show ?thesis
    using assms by (simp add: bv_clear_def check_index_def bv_word_def)
qed

lemma bv_test_ok: "i < bv_nbits b \<Longrightarrow> i div 64 < length (bv_v b) \<Longrightarrow> bv_test b i = Inr (i \<in> bv_bits b)"
  by (simp add: bv_test_def check_index_def bv_word_def and_bit_mask bv_bits_def)

lemma bit_vector_new: "bv_bits (bit_vector n) = {}" "bv_nbits (bit_vector n) = n" "length (bv_v (bit_vector n)) = (n + 63) div 64"
  by (auto simp: bv_bits_def bit_vector_def)

lemma word_there: "i < n \<Longrightarrow> i div 64 < (n + 63) div 64" for i n :: nat
  using div_le_mono [of "i + 64" "n + 63" 64] by simp

lemma set_all_ok:
  assumes "\<forall>x\<in>set xs. x div 64 < length (bv_v b)"
  shows "\<exists>c. set_all xs b = Inr c \<and> bv_bits c = set xs \<union> bv_bits b \<and> length (bv_v c) = length (bv_v b) \<and> bv_nbits c = bv_nbits b"
  using assms
proof (induction xs arbitrary: b)
  case (Cons x xs)
  obtain c where c: "bv_set b x = Inr c" "bv_bits c = insert x (bv_bits b)" "length (bv_v c) = length (bv_v b)" "bv_nbits c = bv_nbits b"
    using bv_set_ok [of x b] Cons.prems by auto
  then show ?case using Cons.IH [of c] Cons.prems by auto
qed simp

lemma collect_ok:
  assumes "\<forall>i\<in>set is. i < bv_nbits b \<and> i div 64 < length (bv_v b)"
  shows "collect b is = Inr (filter (\<lambda>i. i \<in> bv_bits b) is)"
  using assms by (induction "is") (auto simp: bv_test_ok)

lemma filter_upto: "filter (\<lambda>i. i \<in> A) [0..<n] = sorted_list_of_set (A \<inter> {..<n})"
proof -
  have "set (filter (\<lambda>i. i \<in> A) [0..<n]) = A \<inter> {..<n}" by auto
  then show ?thesis by (metis distinct_filter distinct_upt sorted_wrt_filter sorted_upt sorted_list_of_set.idem_if_sorted_distinct)
qed

lemma bitmap_sort_set:
  assumes "\<forall>x\<in>set xs. x < n"
  shows "bitmap_sort n xs = Inr (sorted_list_of_set (set xs))"
proof -
  let ?b = "bit_vector n"
  obtain c where c: "set_all xs ?b = Inr c" "bv_bits c = set xs" "length (bv_v c) = (n + 63) div 64" "bv_nbits c = n"
    using set_all_ok [of xs ?b] assms word_there [of _ n] by (auto simp: bit_vector_new)
  have "collect c [0..<n] = Inr (filter (\<lambda>i. i \<in> set xs) [0..<n])"
    using collect_ok [of "[0..<n]" c] c word_there [of _ n] by simp
  moreover have "set xs \<inter> {..<n} = set xs" using assms by auto
  ultimately show ?thesis using c(1) by (simp add: bitmap_sort_def filter_upto)
qed

lemma sorted_set_sort: "sorted_list_of_set (set xs) = sort xs \<longleftrightarrow> distinct xs" for xs :: "nat list"
  by (metis distinct_sort distinct_sorted_list_of_set sorted_list_of_set_sort_remdups distinct_remdups_id)

lemma read_input_ok: "\<forall>x\<in>set xs. x < n \<Longrightarrow> read_input n xs = Inr xs"
  by (induction xs) auto

text \<open>
  the bitmap sort returns the set of its input in order, so that it agrees with \<open>std::sort\<close> exactly
  on inputs without duplicates; the benchmark, which compares the two, then writes the sorted numbers
  to its three files, and throws when a number occurs twice.
\<close>
theorem bitmap_sort_correct:
  assumes "\<forall>x\<in>set xs. x < n"
  shows "bitmap_sort n xs = Inr (sorted_list_of_set (set xs)) \<and> (bitmap_sort n xs = Inr (std_sort_v xs)) = distinct xs \<and>
    bench n xs = (if distinct xs then Inr (output_file (sort xs), output_file (sort xs), output_file (sort xs))
      else Inl (Runtime_Error ''bitmap_sort output does not match std::sort output''))"
  using bitmap_sort_set [OF assms] sorted_set_sort [of xs]
  by (auto simp: std_sort_v_def bench_def my_sort_def read_input_ok [OF assms])

lemma bitmap_sort_correct_witness:
  "bitmap_sort 100 [70, 3, 64] = Inr (sorted_list_of_set (set [70, 3, 64]))"
  using bitmap_sort_correct [of "[70, 3, 64]" 100] by simp

text \<open>\<open>set\<close> accepts an index past the end of the vector that falls in the last word, where \<open>clear\<close> and \<open>test\<close> throw.\<close>

lemma set_past_the_end: "(\<exists>b. bv_set (bit_vector 10) 20 = Inr b) \<and> bv_clear (bit_vector 10) 20 = Inl (Out_Of_Range ''bit index out of range.'')"
  by (simp add: bv_set_def bv_clear_def bv_word_def check_index_def bit_vector_def)

lemma read_numbers_ok:
  assumes "bv_nbits b = maxv + 1" "length (bv_v b) = (64 + maxv) div 64"
  shows "\<exists>c. read_numbers maxv xs b = Inr (c, concat (map (\<lambda>x. line_out (''value out of range: '' @ show_int x))
      (filter (\<lambda>x. x < 0 \<or> x > int maxv) xs))) \<and> bv_nbits c = maxv + 1 \<and> length (bv_v c) = (64 + maxv) div 64 \<and>
    bv_bits c = bv_bits b \<union> nat ` {x\<in>set xs. 0 \<le> x \<and> x \<le> int maxv}"
  using assms
proof (induction xs arbitrary: b)
  case (Cons x xs)
  show ?case
  proof (cases "x < 0 \<or> x > int maxv")
    case True
    then have "{y\<in>set (x # xs). 0 \<le> y \<and> y \<le> int maxv} = {y\<in>set xs. 0 \<le> y \<and> y \<le> int maxv}" by auto
    moreover obtain c where "read_numbers maxv xs b = Inr (c, concat (map (\<lambda>x. line_out (''value out of range: '' @ show_int x))
      (filter (\<lambda>x. x < 0 \<or> x > int maxv) xs)))" "bv_nbits c = maxv + 1" "length (bv_v c) = (64 + maxv) div 64"
      "bv_bits c = bv_bits b \<union> nat ` {x\<in>set xs. 0 \<le> x \<and> x \<le> int maxv}"
      using Cons.IH [OF Cons.prems] by blast
    ultimately show ?thesis using True by simp
  next
    case False
    then have "nat x < maxv + 1" by linarith
    then have "nat x div 64 < length (bv_v b)" using word_there [of "nat x" "maxv + 1"] Cons.prems by simp
    then obtain c where c: "bv_set b (nat x) = Inr c" "bv_bits c = insert (nat x) (bv_bits b)" "length (bv_v c) = length (bv_v b)"
      "bv_nbits c = bv_nbits b" using bv_set_ok by blast
    have "{y\<in>set (x # xs). 0 \<le> y \<and> y \<le> int maxv} = insert x {y\<in>set xs. 0 \<le> y \<and> y \<le> int maxv}" using False by auto
    then show ?thesis using Cons.IH [of c] Cons.prems c False by simp
  qed
qed simp

text \<open>The program of \<open>one.cpp\<close> prints the numbers in range in order, each once, and reports the others.\<close>

theorem one_main_sorts:
  "one_main maxv xs = Inr
     (concat (map (\<lambda>i. show_nat i @ '' '') (sorted_list_of_set (nat ` {x\<in>set xs. 0 \<le> x \<and> x \<le> int maxv}))),
      concat (map (\<lambda>x. line_out (''value out of range: '' @ show_int x)) (filter (\<lambda>x. x < 0 \<or> x > int maxv) xs)))"
proof -
  let ?b = "bit_vector (maxv + 1)" and ?A = "nat ` {x\<in>set xs. 0 \<le> x \<and> x \<le> int maxv}"
  obtain c where c: "read_numbers maxv xs ?b = Inr (c, concat (map (\<lambda>x. line_out (''value out of range: '' @ show_int x))
      (filter (\<lambda>x. x < 0 \<or> x > int maxv) xs)))" "bv_nbits c = maxv + 1" "length (bv_v c) = (64 + maxv) div 64" "bv_bits c = ?A"
    using read_numbers_ok [of ?b maxv xs] by (auto simp: bit_vector_new)
  have "collect c [0..<maxv + 1] = Inr (filter (\<lambda>i. i \<in> ?A) [0..<maxv + 1])"
    using collect_ok [of "[0..<maxv + 1]" c] c word_there [of _ "maxv + 1"] by (simp del: upt_Suc)
  moreover have "?A \<inter> {..<maxv + 1} = ?A" by auto
  ultimately show ?thesis using c(1) by (simp add: one_main_def filter_upto del: upt_Suc)
qed

end
