(* ===== verification/String_Hashing.thy ===== *)
theory String_Hashing
  imports Cpp_Prelude Tables "HOL-Library.Signed_Division" "HOL-Library.Multiset" "HOL-Library.Product_Lexorder"
begin

text \<open>
  \<open>data/string_hasing.hpp\<close>: the polynomial hash, grouping of equal strings by it and the number of
  different substrings. A \<open>char\<close> is signed, \<open>%\<close> truncates. The \<open>int64_t\<close> values are integers: the section on
  bounds shows that no intermediate result leaves the range. \<open>None\<close> is the write to an empty vector.
\<close>

section \<open>The functions\<close>

definition hash_p :: int where "hash_p = 31"

definition hash_m :: int where "hash_m = 1000000009"

definition letter_value :: "char \<Rightarrow> int" where
  "letter_value c = (let n = of_char c in if n < 128 then n else n - 256) - 97 + 1"

definition hash_step :: "char \<Rightarrow> int \<times> int \<Rightarrow> int \<times> int" where
  "hash_step c s = (case s of (hash_value, p_pow) \<Rightarrow>
     ((hash_value + letter_value c * p_pow) smod hash_m, (p_pow * hash_p) smod hash_m))"

definition compute_hash :: "string \<Rightarrow> int" where
  "compute_hash s = fst (fold hash_step s (0, 1))"

fun group_step :: "(int \<times> nat) list \<Rightarrow> nat \<Rightarrow> nat list list \<Rightarrow> nat list list" where
  "group_step hashes i groups =
     (let groups = (if i = 0 \<or> fst (hashes ! i) \<noteq> fst (hashes ! (i - 1)) then groups @ [[]] else groups)
      in butlast groups @ [last groups @ [snd (hashes ! i)]])"

declare group_step.simps [simp del]

definition group_identical_strings :: "string list \<Rightarrow> nat list list" where
  "group_identical_strings s =
     (let hashes = sort (map (\<lambda>i. (compute_hash (s ! i), i)) [0..<length s])
      in fold (group_step hashes) [0..<length s] [])"

definition hash_powers :: "nat \<Rightarrow> int list" where
  "hash_powers n = fold (\<lambda>i p. p[i := (p ! (i - 1) * hash_p) smod hash_m]) [1..<n] ((replicate n 0)[0 := 1])"

definition prefix_hashes :: "string \<Rightarrow> int list \<Rightarrow> int list" where
  "prefix_hashes s p_pow = fold (\<lambda>i h. h[i + 1 := (h ! i + letter_value (s ! i) * p_pow ! i) smod hash_m])
     [0..<length s] (replicate (length s + 1) 0)"

definition window_hash :: "int list \<Rightarrow> int list \<Rightarrow> nat \<Rightarrow> nat \<Rightarrow> nat \<Rightarrow> int" where
  "window_hash p_pow h n l i =
     (let cur_h = (h ! (i + l) + hash_m - h ! i) smod hash_m in (cur_h * p_pow ! (n - i - 1)) smod hash_m)"

definition count_unique_substrings :: "string \<Rightarrow> nat option" where
  "count_unique_substrings s =
     (let n = length s; p_pow = hash_powers n; h = prefix_hashes s p_pow
      in if n = 0 then None
         else Some (\<Sum>l\<leftarrow>[1..<n + 1]. card (set (map (window_hash p_pow h n l) [0..<n - l + 1]))))"

section \<open>The hash is a polynomial\<close>

definition poly_hash :: "string \<Rightarrow> int" where
  "poly_hash s = (\<Sum>i<length s. letter_value (s ! i) * hash_p ^ i)"

definition lowercase :: "string \<Rightarrow> bool" where
  "lowercase s \<longleftrightarrow> (\<forall>c\<in>set s. 1 \<le> letter_value c \<and> letter_value c \<le> 26)"

lemma smod_pos: "0 \<le> k \<Longrightarrow> k smod hash_m = k mod hash_m"
  by (cases "k = 0") (simp_all add: signed_modulo_int_def hash_m_def)

lemma hash_m_pos [simp]: "0 < hash_m" "0 \<le> hash_m"
  by (simp_all add: hash_m_def)

lemma poly_hash_snoc: "poly_hash (s @ [c]) = poly_hash s + letter_value c * hash_p ^ length s"
  by (simp add: poly_hash_def nth_append)

lemma poly_hash_empty [simp]: "poly_hash [] = 0"
  by (simp add: poly_hash_def)

lemma hash_state:
  assumes "lowercase s"
  shows "fold hash_step s (0, 1) = (poly_hash s mod hash_m, hash_p ^ length s mod hash_m)"
  using assms
proof (induction s rule: rev_induct)
  case (snoc c s)
  then have "fold hash_step s (0, 1) = (poly_hash s mod hash_m, hash_p ^ length s mod hash_m)" "1 \<le> letter_value c"
    by (simp_all add: lowercase_def)
  moreover have "0 \<le> letter_value c * (hash_p ^ length s mod hash_m)" using calculation(2) by simp
  then have "(poly_hash s mod hash_m + letter_value c * (hash_p ^ length s mod hash_m)) smod hash_m = poly_hash (s @ [c]) mod hash_m"
    by (simp add: smod_pos poly_hash_snoc) (intro mod_add_cong mod_mult_cong; simp)
  moreover have "(hash_p ^ length s mod hash_m * hash_p) smod hash_m = hash_p ^ Suc (length s) mod hash_m"
    by (subst smod_pos) (simp_all add: hash_p_def mod_simps mult.commute)
  ultimately show ?case by (simp add: hash_step_def [of c])
qed (simp add: hash_m_def)

lemma compute_hash_poly: "lowercase s \<Longrightarrow> compute_hash s = poly_hash s mod hash_m"
  by (simp add: compute_hash_def hash_state)

section \<open>Groups\<close>

text \<open>The groups are the runs of equal hashes of the sorted vector.\<close>

definition runs :: "(int \<times> nat) list list \<Rightarrow> (int \<times> nat) list \<Rightarrow> bool" where
  "runs gs hs \<longleftrightarrow> concat gs = hs \<and> (\<forall>g\<in>set gs. fst ` set g = {fst (last g)}) \<and>
     sorted_wrt (\<lambda>g h. fst (last g) < fst (last h)) gs"

lemma runs_last:
  assumes "runs gs hs" "gs \<noteq> []"
  shows "hs \<noteq> [] \<and> last (last gs) = last hs"
proof -
  have "fst ` set (last gs) = {fst (last (last gs))}" using assms by (simp add: runs_def)
  then have g: "last gs \<noteq> []" by auto
  have "hs = concat (butlast gs) @ last gs"
    using assms by (metis append_butlast_last_id concat.simps(1,2) concat_append append_Nil2 runs_def)
  then show ?thesis using g by simp
qed

lemma runs_new:
  assumes "runs gs hs" "\<forall>y\<in>set hs. fst y < fst x"
  shows "runs (gs @ [[x]]) (hs @ [x])"
proof -
  have "fst (last g) < fst x" if "g \<in> set gs" for g
  proof -
    have "fst ` set g = {fst (last g)}" "set g \<subseteq> set hs" using that assms(1) by (auto simp: runs_def)
    then have "last g \<in> set hs" by (cases g rule: rev_cases) auto
    then show ?thesis using assms(2) by blast
  qed
  then show ?thesis using assms(1) by (auto simp: runs_def sorted_wrt_append)
qed

lemma runs_extend:
  assumes "runs (gs @ [g]) hs" "fst x = fst (last hs)"
  shows "runs (gs @ [g @ [x]]) (hs @ [x])"
proof -
  have "fst (last g) = fst x" using runs_last [OF assms(1)] assms(2) by simp
  then show ?thesis using assms(1) by (auto simp: runs_def sorted_wrt_append)
qed

lemma group_loop:
  assumes sorted: "sorted (map fst hashes)" and "k \<le> length hashes"
  shows "\<exists>gs. fold (group_step hashes) [0..<k] [] = map (map snd) gs \<and> runs gs (take k hashes)"
  using assms(2)
proof (induction k)
  case (Suc k)
  then obtain gs where gs: "fold (group_step hashes) [0..<k] [] = map (map snd) gs" "runs gs (take k hashes)" by auto
  let ?x = "hashes ! k"
  have t: "take (Suc k) hashes = take k hashes @ [?x]" using Suc.prems by (simp add: take_Suc_conv_app_nth)
  show ?case
  proof (cases "k = 0 \<or> fst ?x \<noteq> fst (hashes ! (k - 1))")
    case True
    have "fst y < fst ?x" if y: "y \<in> set (take k hashes)" for y
    proof -
      obtain i where i: "i < k" "y = hashes ! i" using y Suc.prems by (auto simp: in_set_conv_nth)
      have "map fst hashes ! i \<le> map fst hashes ! (k - 1)" "map fst hashes ! (k - 1) \<le> map fst hashes ! k"
        using i Suc.prems by (intro sorted_nth_mono [OF sorted]; simp)+
      then show ?thesis using i Suc.prems True by simp
    qed
    then have "runs (gs @ [[?x]]) (take (Suc k) hashes)" unfolding t by (intro runs_new [OF gs(2)]) blast
    then show ?thesis using gs(1) True by (intro exI [of _ "gs @ [[?x]]"]) (simp add: group_step.simps [of hashes k])
  next
    case False
    have "gs \<noteq> []" using gs(2) False Suc.prems by (auto simp: runs_def)
    then obtain hs g where hg: "gs = hs @ [g]" by (cases gs rule: rev_cases) auto
    have "last (take k hashes) = hashes ! (k - 1)" using False Suc.prems by (subst last_conv_nth) auto
    then have "runs (hs @ [g @ [?x]]) (take (Suc k) hashes)"
      unfolding t using runs_extend [of hs g "take k hashes" ?x] gs(2) False hg by simp
    then show ?thesis using gs(1) False hg by (intro exI [of _ "hs @ [g @ [?x]]"]) (simp add: group_step.simps [of hashes k])
  qed
qed (auto simp: runs_def)

lemma runs_fst: "runs gs hs \<Longrightarrow> g \<in> set gs \<Longrightarrow> x \<in> set g \<Longrightarrow> fst x = fst (last g)"
  unfolding runs_def by blast

lemma runs_same:
  assumes "runs gs hs" "x \<in> set hs" "y \<in> set hs"
  shows "fst x = fst y \<longleftrightarrow> (\<exists>g\<in>set gs. x \<in> set g \<and> y \<in> set g)"
proof
  assume e: "fst x = fst y"
  obtain g h where g: "g \<in> set gs" "x \<in> set g" "h \<in> set gs" "y \<in> set h" using assms by (auto simp: runs_def)
  then have "fst (last g) = fst (last h)" using runs_fst [OF assms(1)] e by metis
  moreover obtain i j where ij: "i < length gs" "g = gs ! i" "j < length gs" "h = gs ! j" using g(1,3) by (metis in_set_conv_nth)
  moreover have "fst (last (gs ! a)) < fst (last (gs ! b))" if "a < b" "b < length gs" for a b
    using assms(1) that by (simp add: runs_def sorted_wrt_iff_nth_less)
  ultimately have "i = j" by (metis less_irrefl linorder_neqE_nat)
  then show "\<exists>g\<in>set gs. x \<in> set g \<and> y \<in> set g" using g ij by blast
qed (use runs_fst [OF assms(1)] in metis)

text \<open>
  The groups are a permutation of the indices, none is empty, and two strings are in the same group
  exactly when they have the same hash; so equal strings are always in the same group.
\<close>

theorem groups_by_hash:
  fixes s defines "groups \<equiv> group_identical_strings s"
  shows "mset (concat groups) = mset [0..<length s]" and "[] \<notin> set groups"
    and "i < length s \<Longrightarrow> j < length s \<Longrightarrow>
      (\<exists>g\<in>set groups. i \<in> set g \<and> j \<in> set g) \<longleftrightarrow> compute_hash (s ! i) = compute_hash (s ! j)"
proof -
  let ?h = "map (\<lambda>i. (compute_hash (s ! i), i)) [0..<length s]"
  have "sorted (map fst (sort ?h))"
    using sorted_sort [of ?h] unfolding sorted_wrt_map by (rule sorted_wrt_mono_rel [rotated]) (auto simp: less_eq_prod_def)
  from group_loop [OF this, of "length s"] obtain gs where gs: "groups = map (map snd) gs" "runs gs (sort ?h)"
    by (auto simp: groups_def group_identical_strings_def Let_def)
  have c: "concat gs = sort ?h" using gs(2) by (simp add: runs_def)
  have "mset (concat groups) = image_mset snd (mset (concat gs))" unfolding gs(1) by (metis map_concat mset_map)
  also have "\<dots> = image_mset snd (mset ?h)" by (simp only: c mset_sort)
  also have "\<dots> = mset (map snd ?h)" by (simp only: mset_map)
  also have "map snd ?h = [0..<length s]" by (simp add: comp_def)
  finally show "mset (concat groups) = mset [0..<length s]" .
  show "[] \<notin> set groups" using gs by (auto simp: runs_def)
  assume i: "i < length s" and j: "j < length s"
  have own: "(compute_hash (s ! k), k) \<in> set g" if k: "k \<in> set (map snd g)" "g \<in> set gs" for k g
  proof -
    obtain x where x: "(x, k) \<in> set g" using k(1) by auto
    then have "(x, k) \<in> set (concat gs)" using k(2) by auto
    then show ?thesis using x unfolding c by auto
  qed
  have "(\<exists>g\<in>set groups. i \<in> set g \<and> j \<in> set g) \<longleftrightarrow>
      (\<exists>g\<in>set gs. (compute_hash (s ! i), i) \<in> set g \<and> (compute_hash (s ! j), j) \<in> set g)"
  proof
    assume "\<exists>g\<in>set groups. i \<in> set g \<and> j \<in> set g"
    then obtain g where "g \<in> set gs" "i \<in> set (map snd g)" "j \<in> set (map snd g)" unfolding gs(1) by auto
    then show "\<exists>g\<in>set gs. (compute_hash (s ! i), i) \<in> set g \<and> (compute_hash (s ! j), j) \<in> set g" using own by blast
  next
    assume "\<exists>g\<in>set gs. (compute_hash (s ! i), i) \<in> set g \<and> (compute_hash (s ! j), j) \<in> set g"
    then obtain g where "g \<in> set gs" "i \<in> set (map snd g)" "j \<in> set (map snd g)" by force
    then show "\<exists>g\<in>set groups. i \<in> set g \<and> j \<in> set g" unfolding gs(1) by auto
  qed
  also have "\<dots> \<longleftrightarrow> compute_hash (s ! i) = compute_hash (s ! j)"
    using runs_same [OF gs(2), of "(compute_hash (s ! i), i)" "(compute_hash (s ! j), j)"] i j by auto
  finally show "(\<exists>g\<in>set groups. i \<in> set g \<and> j \<in> set g) \<longleftrightarrow> compute_hash (s ! i) = compute_hash (s ! j)" .
qed

section \<open>Substrings\<close>

definition prefix_poly :: "string \<Rightarrow> nat \<Rightarrow> int" where
  "prefix_poly s i = (\<Sum>k<i. letter_value (s ! k) * hash_p ^ k)"

lemma hash_powers_ok: "0 < n \<Longrightarrow> length (hash_powers n) = n \<and> (\<forall>k<n. hash_powers n ! k = hash_p ^ k mod hash_m)"
  unfolding hash_powers_def
proof (rule fill_row)
  show "p[i := (p ! (i - 1) * hash_p) smod hash_m] = p[i := hash_p ^ i mod hash_m]"
    if "1 \<le> i" "\<forall>k<i. p ! k = hash_p ^ k mod hash_m" for p :: "int list" and i
  proof -
    have "p ! (i - 1) = hash_p ^ (i - 1) mod hash_m" using that by simp
    then have "(p ! (i - 1) * hash_p) smod hash_m = (hash_p ^ (i - 1) * hash_p) mod hash_m"
      by (simp add: smod_pos hash_p_def mod_simps)
    moreover have "hash_p ^ (i - 1) * hash_p = hash_p ^ i" using that(1) by (cases i) simp_all
    ultimately show ?thesis by simp
  qed
qed (auto simp: hash_m_def)

lemma prefix_hashes_ok:
  assumes low: "lowercase s" and p: "length p = length s" "\<forall>k<length s. p ! k = hash_p ^ k mod hash_m"
  shows "\<forall>i\<le>length s. prefix_hashes s p ! i = prefix_poly s i mod hash_m"
proof -
  let ?ok = "\<lambda>n h. length h = length s + 1 \<and> (\<forall>i\<le>n. h ! i = prefix_poly s i mod hash_m)"
  have "?ok (length s) (prefix_hashes s p)"
    unfolding prefix_hashes_def
  proof (rule loop_up [where P = ?ok])
    fix i and h :: "int list" assume i: "i < length s" and h: "?ok i h"
    have "1 \<le> letter_value (s ! i)" using low i by (simp add: lowercase_def)
    then have "0 \<le> prefix_poly s i mod hash_m + letter_value (s ! i) * (hash_p ^ i mod hash_m)" by simp
    then have "(h ! i + letter_value (s ! i) * p ! i) smod hash_m = (prefix_poly s i + letter_value (s ! i) * hash_p ^ i) mod hash_m"
      using h p i by (simp add: smod_pos) (intro mod_add_cong mod_mult_cong; simp)
    then show "?ok (Suc i) (h[i + 1 := (h ! i + letter_value (s ! i) * p ! i) smod hash_m])"
      using h i by (auto simp: nth_list_update le_Suc_eq prefix_poly_def)
  qed (auto simp: prefix_poly_def hash_m_def)
  then show ?thesis by blast
qed

definition substring :: "string \<Rightarrow> nat \<Rightarrow> nat \<Rightarrow> string" where
  "substring s i l = take l (drop i s)"

lemma prefix_poly_split:
  assumes "i + l \<le> length s"
  shows "prefix_poly s (i + l) = prefix_poly s i + hash_p ^ i * poly_hash (substring s i l)"
proof -
  have "prefix_poly s (i + l) = prefix_poly s i + (\<Sum>k<l. letter_value (s ! (i + k)) * hash_p ^ (i + k))"
    unfolding prefix_poly_def by (induction l) simp_all
  moreover have "(\<Sum>k<l. letter_value (s ! (i + k)) * hash_p ^ (i + k)) = hash_p ^ i * poly_hash (substring s i l)"
    using assms unfolding poly_hash_def substring_def sum_distrib_left
    by (intro sum.cong) (auto simp: power_add)
  ultimately show ?thesis by simp
qed

lemma window_hash_ok:
  assumes low: "lowercase s" and n: "n = length s" "0 < n" and i: "i + l \<le> n" "0 < l"
  shows "window_hash (hash_powers n) (prefix_hashes s (hash_powers n)) n l i = (hash_p ^ (n - 1) * poly_hash (substring s i l)) mod hash_m"
proof -
  let ?p = "hash_powers n" and ?h = "prefix_hashes s (hash_powers n)"
  have p: "length ?p = length s" "\<forall>k<length s. ?p ! k = hash_p ^ k mod hash_m" using hash_powers_ok [OF n(2)] n(1) by simp_all
  have h: "?h ! j = prefix_poly s j mod hash_m" if "j \<le> n" for j using prefix_hashes_ok [OF low p] that n(1) by blast
  have range: "0 \<le> ?h ! j \<and> ?h ! j < hash_m" if "j \<le> n" for j using h [OF that] by simp
  have "0 \<le> ?h ! (i + l) + hash_m - ?h ! i" using range [of "i + l"] range [of i] i by linarith
  then have "(?h ! (i + l) + hash_m - ?h ! i) smod hash_m = (?h ! (i + l) - ?h ! i) mod hash_m"
    by (simp add: smod_pos) (metis add.commute add_diff_eq mod_add_self1)
  also have "\<dots> = (prefix_poly s (i + l) - prefix_poly s i) mod hash_m" using h i by (simp add: mod_diff_eq)
  also have "\<dots> = (hash_p ^ i * poly_hash (substring s i l)) mod hash_m" using prefix_poly_split [of i l s] i(1) n(1) by simp
  finally have cur: "(?h ! (i + l) + hash_m - ?h ! i) smod hash_m = (hash_p ^ i * poly_hash (substring s i l)) mod hash_m" .
  have "?p ! (n - i - 1) = hash_p ^ (n - i - 1) mod hash_m" using p i n by simp
  then have "window_hash ?p ?h n l i = (hash_p ^ i * poly_hash (substring s i l)) * hash_p ^ (n - i - 1) mod hash_m"
    unfolding window_hash_def Let_def cur by (simp add: smod_pos mod_mult_eq)
  moreover have "hash_p ^ i * hash_p ^ (n - i - 1) = hash_p ^ (n - 1)" using i by (simp flip: power_add)
  ultimately show ?thesis by (metis mult.assoc mult.commute)
qed

lemma hash_p_coprime: "coprime (hash_p ^ k) hash_m"
proof -
  have "coprime (31 :: int) 1000000009"
  proof (rule coprimeI)
    fix c :: int assume "c dvd 31" "c dvd 1000000009"
    then have "c dvd 5 * 1000000009 - 161290324 * 31" by (intro dvd_diff dvd_mult)
    then show "is_unit c" by simp
  qed
  then show ?thesis by (simp add: hash_p_def hash_m_def)
qed

lemma shifted_hash_inj: "inj_on (\<lambda>h. (hash_p ^ k * h) mod hash_m) {0..<hash_m}"
proof (rule inj_onI)
  fix x y assume xy: "x \<in> {0..<hash_m}" "y \<in> {0..<hash_m}" "(hash_p ^ k * x) mod hash_m = (hash_p ^ k * y) mod hash_m"
  then have "hash_m dvd hash_p ^ k * (x - y)" by (simp add: mod_eq_dvd_iff right_diff_distrib)
  then have "hash_m dvd x - y" using hash_p_coprime [of k] by (metis coprime_commute coprime_dvd_mult_right_iff)
  then show "x = y" using xy(1,2) by (simp add: mod_eq_dvd_iff [symmetric])
qed

definition substrings_of_length :: "string \<Rightarrow> nat \<Rightarrow> string set" where
  "substrings_of_length s l = {substring s i l |i. i + l \<le> length s}"

lemma lowercase_substring: "lowercase s \<Longrightarrow> lowercase (substring s i l)"
  by (auto simp: lowercase_def substring_def dest: in_set_takeD in_set_dropD)

lemma window_hashes:
  assumes low: "lowercase s" and l: "0 < l" "l \<le> length s"
  shows "card (set (map (window_hash (hash_powers (length s)) (prefix_hashes s (hash_powers (length s))) (length s) l) [0..<length s - l + 1])) =
    card (compute_hash ` substrings_of_length s l)"
proof -
  let ?n = "length s"
  have poly: "compute_hash (substring s i l) = poly_hash (substring s i l) mod hash_m" for i
    using compute_hash_poly lowercase_substring [OF low] by blast
  have windows: "window_hash (hash_powers ?n) (prefix_hashes s (hash_powers ?n)) ?n l i = (hash_p ^ (?n - 1) * compute_hash (substring s i l)) mod hash_m"
    if "i + l \<le> ?n" for i
  proof -
    have "s \<noteq> []" using l by auto
    then show ?thesis using window_hash_ok [OF low refl _ that l(1)] by (simp add: poly mod_mult_right_eq)
  qed
  have "set (map (window_hash (hash_powers ?n) (prefix_hashes s (hash_powers ?n)) ?n l) [0..<?n - l + 1]) =
      (\<lambda>h. (hash_p ^ (?n - 1) * h) mod hash_m) ` compute_hash ` substrings_of_length s l"
  proof -
    have "set [0..<?n - l + 1] = {i. i + l \<le> ?n}" using l(2) by auto
    moreover have "substrings_of_length s l = (\<lambda>i. substring s i l) ` {i. i + l \<le> ?n}" by (auto simp: substrings_of_length_def)
    ultimately show ?thesis using windows by (simp only: set_map image_image) (rule image_cong, rule refl, simp)
  qed
  moreover have "compute_hash ` substrings_of_length s l \<subseteq> {0..<hash_m}"
    using compute_hash_poly lowercase_substring [OF low] by (fastforce simp: substrings_of_length_def)
  ultimately show ?thesis using card_image [OF inj_on_subset [OF shifted_hash_inj]] by metis
qed

lemma finite_substrings: "finite (substrings_of_length s l)"
proof -
  have "substrings_of_length s l \<subseteq> (\<lambda>i. substring s i l) ` {..length s}" by (auto simp: substrings_of_length_def)
  then show ?thesis by (rule finite_subset) simp
qed

text \<open>
  on a string of lower case letters that is not empty the counter returns, summed over the lengths,
  the number of different hashes of the substrings of that length. So it is never more than the number
  of different substrings, and equal to it if \<open>compute_hash\<close> tells the substrings of
  every length apart. On the empty string it writes outside of a vector.
\<close>
theorem count_unique_substrings_correct:
  assumes "lowercase s" and "s \<noteq> []"
  shows "count_unique_substrings s = Some (\<Sum>l\<leftarrow>[1..<length s + 1]. card (compute_hash ` substrings_of_length s l)) \<and>
    (\<Sum>l\<leftarrow>[1..<length s + 1]. card (compute_hash ` substrings_of_length s l)) \<le> (\<Sum>l\<leftarrow>[1..<length s + 1]. card (substrings_of_length s l)) \<and>
    ((\<forall>l. inj_on compute_hash (substrings_of_length s l)) \<longrightarrow>
      count_unique_substrings s = Some (\<Sum>l\<leftarrow>[1..<length s + 1]. card (substrings_of_length s l)))"
proof -
  have "(\<Sum>l\<leftarrow>[1..<length s + 1]. card (set (map (window_hash (hash_powers (length s)) (prefix_hashes s (hash_powers (length s))) (length s) l) [0..<length s - l + 1]))) =
      (\<Sum>l\<leftarrow>[1..<length s + 1]. card (compute_hash ` substrings_of_length s l))"
    using window_hashes [OF assms(1)] by (intro arg_cong [where f = sum_list] map_cong) (auto simp del: set_map upt_Suc)
  then have "count_unique_substrings s = Some (\<Sum>l\<leftarrow>[1..<length s + 1]. card (compute_hash ` substrings_of_length s l))"
    using assms(2) by (simp add: count_unique_substrings_def Let_def del: set_map upt_Suc)
  moreover have "(\<Sum>l\<leftarrow>[1..<length s + 1]. card (compute_hash ` substrings_of_length s l)) \<le> (\<Sum>l\<leftarrow>[1..<length s + 1]. card (substrings_of_length s l))"
    by (intro sum_list_mono card_image_le finite_substrings)
  ultimately show ?thesis by (simp add: card_image)
qed

lemma count_unique_substrings_empty: "count_unique_substrings [] = None"
  by (simp add: count_unique_substrings_def)

lemma count_unique_substrings_correct_witness:
  "count_unique_substrings ''aba'' = Some (\<Sum>l\<leftarrow>[1..<length ''aba'' + 1]. card (compute_hash ` substrings_of_length ''aba'' l))"
  using count_unique_substrings_correct [of "''aba''"] by (simp add: lowercase_def letter_value_def Let_def)

section \<open>Bounds\<close>

text \<open>No intermediate result leaves the range of \<open>int64_t\<close>, whatever the characters are.\<close>

lemma letter_bounds: "\<bar>letter_value c\<bar> \<le> 224"
proof -
  have "of_char c mod (256 :: int) = of_char c" by (rule of_char_mod_256)
  then have "0 \<le> (of_char c :: int)" "of_char c < (256 :: int)"
    using pos_mod_bound [of 256 "of_char c :: int"] pos_mod_sign [of 256 "of_char c :: int"] by linarith+
  then show ?thesis by (auto simp: letter_value_def Let_def)
qed

lemma abs_smod: "\<bar>k smod hash_m\<bar> < hash_m"
proof -
  have "\<bar>k smod hash_m\<bar> \<le> \<bar>k\<bar> mod hash_m" by (simp add: signed_modulo_int_def abs_mult hash_m_def)
  also have "\<dots> < hash_m" by simp
  finally show ?thesis .
qed

theorem hash_no_overflow:
  assumes "fold hash_step s (0, 1) = (hash_value, p_pow)"
  shows "\<bar>hash_value\<bar> < hash_m \<and> \<bar>p_pow\<bar> < hash_m \<and> \<bar>hash_value + letter_value c * p_pow\<bar> < 2 ^ 63 \<and> \<bar>p_pow * hash_p\<bar> < 2 ^ 63"
proof -
  have state: "\<bar>hash_value\<bar> < hash_m \<and> \<bar>p_pow\<bar> < hash_m"
    using assms by (cases s rule: rev_cases) (auto simp: hash_step_def abs_smod split: prod.splits, simp_all add: hash_m_def)
  have "\<bar>letter_value c * p_pow\<bar> \<le> 224 * hash_m" unfolding abs_mult
    using letter_bounds [of c] state by (intro mult_mono) auto
  moreover have "\<bar>p_pow * hash_p\<bar> = \<bar>p_pow\<bar> * 31" by (simp add: abs_mult hash_p_def)
  ultimately show ?thesis using state by (auto simp: hash_m_def)
qed

end
