(* ===== verification/Bipartite.thy ===== *)
theory Bipartite
  imports Cpp_Prelude
begin

text \<open>
  \<open>data/bipartite.hpp\<close>: a breadth-first search colours every component of a graph and prints
  whether the colouring is proper. \<open>None\<close> is an access outside of a vector or a search that does not end.
\<close>

unbundle bit_operations_syntax

section \<open>The function\<close>

type_synonym bip_state = "nat list \<times> int list \<times> bool"

text \<open>The loop over the neighbours \<open>y\<close> of \<open>x\<close>: the queue, the sides and the flag.\<close>

fun bip_edges :: "nat \<Rightarrow> nat list \<Rightarrow> bip_state \<Rightarrow> bip_state option" where
  "bip_edges x [] s = Some s"
| "bip_edges x (y # ys) (q, side, is_bipartite) =
     (if x < length side \<and> y < length side
      then bip_edges x ys
        (if side ! y = -1 then (q @ [y], side[y := side ! x XOR 1], is_bipartite)
         else (q, side, is_bipartite \<and> side ! y \<noteq> side ! x))
      else None)"

partial_function (option) bip_search :: "nat list list \<Rightarrow> bip_state \<Rightarrow> (int list \<times> bool) option" where
  "bip_search adj s = (case s of (q, side, is_bipartite) \<Rightarrow>
     (case q of [] \<Rightarrow> Some (side, is_bipartite)
      | x # q \<Rightarrow> if x < length adj then Option.bind (bip_edges x (adj ! x) (q, side, is_bipartite)) (bip_search adj) else None))"

definition bip_line :: "bool \<Rightarrow> string" where
  "bip_line is_bipartite = line_out (if is_bipartite then ''this component is bipartite'' else ''this component is not bipartie'')"

definition bip_start :: "nat list list \<Rightarrow> nat \<Rightarrow> int list \<times> string \<Rightarrow> (int list \<times> string) option" where
  "bip_start adj st s = (case s of (side, out) \<Rightarrow>
     if side ! st = -1
     then map_option (\<lambda>(side, b). (side, out @ bip_line b)) (bip_search adj ([st], side[st := 0], True))
     else Some (side, out))"

fun bip_starts :: "nat list list \<Rightarrow> nat list \<Rightarrow> int list \<times> string \<Rightarrow> (int list \<times> string) option" where
  "bip_starts adj [] s = Some s"
| "bip_starts adj (st # sts) s = Option.bind (bip_start adj st s) (bip_starts adj sts)"

definition graph_is_bipartite :: "nat list list \<Rightarrow> string option" where
  "graph_is_bipartite adj = map_option snd (bip_starts adj [0..<length adj] (replicate (length adj) (-1), []))"

declare bip_search.simps [code]

section \<open>Components and colourings\<close>

definition undirected :: "nat list list \<Rightarrow> bool" where
  "undirected adj \<longleftrightarrow> (\<forall>x<length adj. \<forall>y\<in>set (adj ! x). y < length adj \<and> x \<in> set (adj ! y))"

inductive linked :: "nat list list \<Rightarrow> nat \<Rightarrow> nat \<Rightarrow> bool" for adj where
  linked_refl: "linked adj x x"
| linked_step: "linked adj x y \<Longrightarrow> y < length adj \<Longrightarrow> z \<in> set (adj ! y) \<Longrightarrow> linked adj x z"

definition proper_on :: "nat list list \<Rightarrow> (nat \<Rightarrow> bool) \<Rightarrow> nat set \<Rightarrow> bool" where
  "proper_on adj f S \<longleftrightarrow> (\<forall>x\<in>S. \<forall>y\<in>set (adj ! x). f x \<noteq> f y)"

definition component_bipartite :: "nat list list \<Rightarrow> nat \<Rightarrow> bool" where
  "component_bipartite adj st \<longleftrightarrow> (\<exists>f. proper_on adj f {x. linked adj st x})"

lemma linked_range: "linked adj st x \<Longrightarrow> undirected adj \<Longrightarrow> st < length adj \<Longrightarrow> x < length adj"
  by (induction rule: linked.induct) (simp, unfold undirected_def, blast)

lemma linked_trans: "linked adj y z \<Longrightarrow> linked adj x y \<Longrightarrow> linked adj x z"
  by (induction rule: linked.induct) (auto intro: linked_step)

lemma linked_sym:
  assumes "undirected adj" "linked adj x y" "x < length adj"
  shows "linked adj y x"
  using assms(2,1,3)
proof (induction rule: linked.induct)
  case (linked_step x y z)
  then have "z < length adj" "y \<in> set (adj ! z)" unfolding undirected_def by blast+
  then have "linked adj z y" by (metis linked.intros)
  moreover have "linked adj y x" using linked_step by simp
  ultimately show ?case using linked_trans [of adj y x z] by simp
qed (rule linked_refl)

section \<open>The search of a component\<close>

definition sides :: "int list \<Rightarrow> bool" where
  "sides side \<longleftrightarrow> (\<forall>i<length side. side ! i = -1 \<or> side ! i = 0 \<or> side ! i = 1)"

definition seen :: "int list \<Rightarrow> nat set" where
  "seen side = {i. i < length side \<and> side ! i \<noteq> -1}"

lemma edges_ok:
  assumes "\<forall>y\<in>set ys. y < length side" "x < length side" "side ! x = 0 \<or> side ! x = 1" "sides side"
  shows "\<exists>new side'. bip_edges x ys (q, side, b) = Some (q @ new, side', b \<and> (\<forall>y\<in>set ys. side' ! y \<noteq> side ! x)) \<and>
    length side' = length side \<and> (\<forall>i<length side. side' ! i = (if i \<in> set new then 1 - side ! x else side ! i)) \<and>
    distinct new \<and> set new = {y\<in>set ys. side ! y = -1}"
  using assms
proof (induction ys arbitrary: q side b)
  case (Cons y ys)
  show ?case
  proof (cases "side ! y = -1")
    case True
    let ?side = "side[y := side ! x XOR 1]"
    have flip: "side ! x XOR 1 = 1 - side ! x" using Cons.prems(3) by auto
    have xy: "x \<noteq> y" using True Cons.prems(3) by auto
    have "?side ! i = -1 \<or> ?side ! i = 0 \<or> ?side ! i = 1" if "i < length side" for i
      using that Cons.prems(3,4) flip by (cases "i = y") (auto simp: sides_def)
    then have "sides ?side" by (simp add: sides_def)
    then obtain new side' where ih: "bip_edges x ys (q @ [y], ?side, b) =
        Some ((q @ [y]) @ new, side', b \<and> (\<forall>z\<in>set ys. side' ! z \<noteq> ?side ! x))" "length side' = length side"
      "\<forall>i<length side. side' ! i = (if i \<in> set new then 1 - ?side ! x else ?side ! i)"
      "distinct new" "set new = {z\<in>set ys. ?side ! z = -1}"
      using Cons.IH [of ?side "q @ [y]" b] Cons.prems(1-3) xy by auto
    have y: "y \<notin> set new" using ih(5) Cons.prems(1,3) flip by auto
    have "side' ! y = 1 - side ! x" using ih(3) y Cons.prems(1) flip by simp
    then have "side' ! y \<noteq> side ! x" using Cons.prems(3) by auto
    moreover have "bip_edges x (y # ys) (q, side, b) = Some (q @ y # new, side', b \<and> (\<forall>z\<in>set ys. side' ! z \<noteq> side ! x))"
      using ih(1) True xy Cons.prems(1,2) by simp
    moreover have "set (y # new) = {z\<in>set (y # ys). side ! z = -1}"
      using ih(5) True Cons.prems(1,3) flip by (auto simp: nth_list_update split: if_splits)
    ultimately show ?thesis
      using ih(2-4) y xy flip Cons.prems(1) by (intro exI [of _ "y # new"] exI [of _ side']) (auto simp: nth_list_update)
  next
    case False
    obtain new side' where ih: "bip_edges x ys (q, side, b \<and> side ! y \<noteq> side ! x) =
        Some (q @ new, side', (b \<and> side ! y \<noteq> side ! x) \<and> (\<forall>z\<in>set ys. side' ! z \<noteq> side ! x))" "length side' = length side"
      "\<forall>i<length side. side' ! i = (if i \<in> set new then 1 - side ! x else side ! i)"
      "distinct new" "set new = {z\<in>set ys. side ! z = -1}"
      using Cons.IH [of side q "b \<and> side ! y \<noteq> side ! x"] Cons.prems by auto
    have "side' ! y = side ! y" using ih(3,5) False Cons.prems(1) by auto
    then show ?thesis using ih False Cons.prems(1,2) by (intro exI [of _ new] exI [of _ side']) auto
  qed
qed simp

text \<open>
  The invariant of a search that started at \<open>st\<close> when \<open>V\<close> had been seen: what has been taken from the queue is
  properly coloured unless the flag is cleared, and every proper colouring is the one of the sides.
\<close>

definition search_inv :: "nat list list \<Rightarrow> nat set \<Rightarrow> nat \<Rightarrow> bip_state \<Rightarrow> bool" where
  "search_inv adj V st s \<longleftrightarrow> (case s of (q, side, b) \<Rightarrow>
     length side = length adj \<and> sides side \<and> st \<in> seen side \<and> V \<subseteq> seen side \<and>
     (\<forall>x\<in>seen side - V. linked adj st x) \<and> set q \<subseteq> seen side - V \<and>
     (\<forall>x\<in>seen side - V - set q. \<forall>y\<in>set (adj ! x). y \<in> seen side \<and> (b \<longrightarrow> side ! x \<noteq> side ! y)) \<and>
     (\<forall>f. proper_on adj f {x. linked adj st x} \<longrightarrow> b \<and> (\<forall>x\<in>seen side - V. side ! x = side ! st \<longleftrightarrow> f x = f st)))"

lemma search_invD:
  assumes "search_inv adj V st (q, side, b)"
  shows "length side = length adj" "sides side" "st \<in> seen side" "V \<subseteq> seen side" "set q \<subseteq> seen side - V"
  using assms unfolding search_inv_def prod.case by simp_all

lemma two_sides:
  fixes a c s :: int and fx fy fs :: bool
  shows "(c = s) = (fy = fs) \<Longrightarrow> (a = s) = (fx = fs) \<Longrightarrow> fx \<noteq> fy \<Longrightarrow> a = 0 \<or> a = 1 \<Longrightarrow>
    c = 0 \<or> c = 1 \<Longrightarrow> s = 0 \<or> s = 1 \<Longrightarrow> c \<noteq> a"
  by auto

lemma colour_step:
  fixes side side' :: "nat \<Rightarrow> int" and f :: "nat \<Rightarrow> bool"
  assumes new: "\<forall>i\<in>N. i \<in> A \<and> side' i = 1 - side x" and old: "\<forall>i\<in>S. side' i = side i"
    and two: "\<forall>i\<in>S. side i = 0 \<or> side i = 1" and edge: "\<forall>y\<in>A. f x \<noteq> f y" and nbr: "A \<subseteq> S \<union> N"
    and agree: "\<forall>i\<in>S. side i = side st \<longleftrightarrow> f i = f st" and x: "x \<in> S" "st \<in> S"
  shows "(\<forall>i\<in>S \<union> N. side' i = side' st \<longleftrightarrow> f i = f st) \<and> (\<forall>y\<in>A. side' y \<noteq> side x)"
proof -
  have st: "side' st = side st" "side st = 0 \<or> side st = 1" and sx: "side x = 0 \<or> side x = 1" "side x = side st \<longleftrightarrow> f x = f st"
    using old two agree x by blast+
  have all: "side' i = side st \<longleftrightarrow> f i = f st" "side' i = 0 \<or> side' i = 1" if "i \<in> S \<union> N" for i
  proof -
    have "(side' i = side st \<longleftrightarrow> f i = f st) \<and> (side' i = 0 \<or> side' i = 1)"
    proof (cases "i \<in> N")
      case True
      then have "f x \<noteq> f i" "side' i = 1 - side x" using new edge by blast+
      then show ?thesis using sx st(2) by (cases "f st"; cases "f x"; auto; presburger)
    next
      case False
      then show ?thesis using that old two agree by force
    qed
    then show "side' i = side st \<longleftrightarrow> f i = f st" "side' i = 0 \<or> side' i = 1" by blast+
  qed
  have "side' y \<noteq> side x" if "y \<in> A" for y
    using two_sides [of "side' y" "side st" "f y" "f st" "side x" "f x"] all [of y] sx st(2) edge nbr that by blast
  then show ?thesis using all(1) st(1) by simp
qed

lemma search_step:
  assumes adj: "undirected adj" and closed: "\<forall>x\<in>V. \<forall>y\<in>set (adj ! x). y \<in> V" "st \<notin> V"
    and inv: "search_inv adj V st (x # q, side, b)"
  shows "\<exists>q' side' b'. bip_edges x (adj ! x) (q, side, b) = Some (q', side', b') \<and> search_inv adj V st (q', side', b') \<and>
    x < length adj \<and> 2 * card {i. i < length adj \<and> side' ! i = -1} + length q' < 2 * card {i. i < length adj \<and> side ! i = -1} + length (x # q)"
proof -
  have len: "length side = length adj" and sd: "sides side" and x: "x \<in> seen side" "x \<notin> V" "linked adj st x"
    using inv by (auto simp: search_inv_def)
  have xs: "x < length adj" "side ! x = 0 \<or> side ! x = 1" using x(1) sd len by (auto simp: seen_def sides_def)
  have nbrs: "\<forall>y\<in>set (adj ! x). y < length side" using adj xs(1) unfolding undirected_def len by blast
  obtain new side' where e: "bip_edges x (adj ! x) (q, side, b) = Some (q @ new, side', b \<and> (\<forall>y\<in>set (adj ! x). side' ! y \<noteq> side ! x))"
    "length side' = length side" "\<forall>i<length side. side' ! i = (if i \<in> set new then 1 - side ! x else side ! i)"
    "distinct new" "set new = {y\<in>set (adj ! x). side ! y = -1}"
    using edges_ok [OF nbrs _ xs(2) sd, of q b] xs(1) len by auto
  have old: "side' ! i = side ! i" if "i \<in> seen side" for i using that e(3,5) by (auto simp: seen_def)
  have new: "i < length adj" "side ! i = -1" "side' ! i = 1 - side ! x" "i \<in> set (adj ! x)" if "i \<in> set new" for i
    using that e(3,5) nbrs len by auto
  have seen': "seen side' = seen side \<union> set new"
    using e(2,3,5) nbrs xs(2) by (auto simp: seen_def split: if_splits)
  have notV: "y \<notin> V" if "y \<in> set (adj ! x)" for y
  proof
    assume "y \<in> V"
    moreover have "x \<in> set (adj ! y)" using adj that xs(1) unfolding undirected_def by blast
    ultimately show False using closed(1) x(2) by blast
  qed
  have fresh: "seen side' - V = (seen side - V) \<union> set new" using seen' notV new(4) by auto
  let ?b = "b \<and> (\<forall>y\<in>set (adj ! x). side' ! y \<noteq> side ! x)"
  have "search_inv adj V st (q @ new, side', ?b)"
  proof -
    have inv1: "sides side'" using sd e(2,3) xs(2) by (auto simp: sides_def)
    have inv2: "linked adj st i" if "i \<in> seen side' - V" for i
      using that inv x(3) xs(1) new(4) unfolding fresh by (auto simp: search_inv_def intro: linked_step)
    have inv3: "y \<in> seen side' \<and> (?b \<longrightarrow> side' ! i \<noteq> side' ! y)"
      if i: "i \<in> seen side' - V - set (q @ new)" and y: "y \<in> set (adj ! i)" for i y
    proof (cases "i = x")
      case True
      have "y < length side" using nbrs y True by blast
      then have "y \<in> seen side'" using y True e(5) unfolding seen' by (auto simp: seen_def)
      then show ?thesis using y True old [OF x(1)] by auto
    next
      case False
      then have i': "i \<in> seen side - V - set (x # q)" using i seen' by auto
      then have "y \<in> seen side" "b \<longrightarrow> side ! i \<noteq> side ! y" using inv y by (auto simp: search_inv_def)
      then show ?thesis using old [of y] old [of i] i' seen' by auto
    qed
    have inv4: "?b \<and> (\<forall>i\<in>seen side' - V. side' ! i = side' ! st \<longleftrightarrow> f i = f st)"
      if f: "proper_on adj f {x. linked adj st x}" for f
    proof -
      have b: b and agree: "\<forall>i\<in>seen side - V. side ! i = side ! st \<longleftrightarrow> f i = f st"
        using inv f by (auto simp: search_inv_def)
      have edge: "\<forall>y\<in>set (adj ! x). f x \<noteq> f y" using f x(3) by (auto simp: proper_on_def)
      have nbr: "set (adj ! x) \<subseteq> (seen side - V) \<union> set new" using notV nbrs e(5) by (auto simp: seen_def)
      have two: "\<forall>i\<in>seen side - V. side ! i = 0 \<or> side ! i = 1" using sd by (auto simp: sides_def seen_def)
      have old': "\<forall>i\<in>seen side - V. side' ! i = side ! i" and new': "\<forall>i\<in>set new. i \<in> set (adj ! x) \<and> side' ! i = 1 - side ! x"
        and sx: "x \<in> seen side - V" "st \<in> seen side - V"
        using old new x search_invD(3) [OF inv] closed(2) by blast+
      from colour_step [OF new' old' two edge nbr agree sx] show ?thesis using b unfolding fresh by blast
    qed
    have inv5: "length side' = length adj" "st \<in> seen side'" "V \<subseteq> seen side'" "set (q @ new) \<subseteq> seen side' - V"
      using search_invD(3-5) [OF inv] seen' fresh e(2) len by auto
    have "\<forall>i\<in>seen side' - V. linked adj st i"
      "\<forall>i\<in>seen side' - V - set (q @ new). \<forall>y\<in>set (adj ! i). y \<in> seen side' \<and> (?b \<longrightarrow> side' ! i \<noteq> side' ! y)"
      "\<forall>f. proper_on adj f {x. linked adj st x} \<longrightarrow> ?b \<and> (\<forall>i\<in>seen side' - V. side' ! i = side' ! st \<longleftrightarrow> f i = f st)"
      by (intro ballI inv2, assumption) (intro ballI inv3, assumption+, intro allI impI inv4, assumption)
    then show ?thesis unfolding search_inv_def prod.case by (intro conjI inv1 inv5)
  qed
  moreover have "{i. i < length adj \<and> side ! i = -1} = {i. i < length adj \<and> side' ! i = -1} \<union> set new"
    "{i. i < length adj \<and> side' ! i = -1} \<inter> set new = {}"
    using e(3) new xs(2) len by (auto split: if_splits)
  then have "card {i. i < length adj \<and> side ! i = -1} = card {i. i < length adj \<and> side' ! i = -1} + length new"
    using distinct_card [OF e(4)] by (simp add: card_Un_disjoint)
  ultimately show ?thesis using e(1) xs(1) by auto
qed

lemma search_result:
  assumes "undirected adj" "\<forall>x\<in>V. \<forall>y\<in>set (adj ! x). y \<in> V" "st \<notin> V"
  shows "search_inv adj V st (q, side, b) \<Longrightarrow>
    \<exists>side' b'. bip_search adj (q, side, b) = Some (side', b') \<and> search_inv adj V st ([], side', b')"
proof (induction "2 * card {i. i < length adj \<and> side ! i = -1} + length q" arbitrary: q side b rule: less_induct)
  case less
  show ?case
  proof (cases q)
    case Nil
    then show ?thesis using less.prems by (simp add: bip_search.simps)
  next
    case (Cons x q0)
    from search_step [OF assms less.prems [unfolded Cons]] obtain q' side' b' where step:
      "bip_edges x (adj ! x) (q0, side, b) = Some (q', side', b')" "search_inv adj V st (q', side', b')" "x < length adj"
      "2 * card {i. i < length adj \<and> side' ! i = -1} + length q' < 2 * card {i. i < length adj \<and> side ! i = -1} + length (x # q0)"
      by blast
    have "bip_search adj (q, side, b) = bip_search adj (q', side', b')"
      using step(1,3) Cons by (subst bip_search.simps) simp
    then show ?thesis using less.hyps [OF step(4) [folded Cons] step(2)] by simp
  qed
qed

lemma away:
  assumes "undirected adj" "\<forall>x\<in>V. \<forall>y\<in>set (adj ! x). y \<in> V" "x \<notin> V" "x < length adj" "y \<in> set (adj ! x)"
  shows "y \<notin> V"
  using assms unfolding undirected_def by blast

lemma search_component:
  assumes adj: "undirected adj" and closed: "\<forall>x\<in>V. \<forall>y\<in>set (adj ! x). y \<in> V" "st \<notin> V"
    and inv: "search_inv adj V st ([], side, b)"
  shows "seen side = V \<union> {x. linked adj st x}" "b \<longleftrightarrow> component_bipartite adj st"
proof -
  have len: "length side = length adj" and sd: "sides side" and sub: "V \<subseteq> seen side" "\<forall>x\<in>seen side - V. linked adj st x"
    and edges: "\<And>x y. x \<in> seen side - V \<Longrightarrow> y \<in> set (adj ! x) \<Longrightarrow> y \<in> seen side \<and> (b \<longrightarrow> side ! x \<noteq> side ! y)"
    and col: "\<And>f. proper_on adj f {x. linked adj st x} \<Longrightarrow> b" and st: "st \<in> seen side - V"
    using inv closed(2) by (auto simp: search_inv_def)
  have "x \<in> seen side - V" if "linked adj st x" for x
    using that st
  proof (induction rule: linked.induct)
    case (linked_step x y z)
    then show ?case using edges [of y z] away [OF adj closed(1), of y z] by auto
  qed
  then have comp: "seen side - V = {x. linked adj st x}" using sub(2) by blast
  then show "seen side = V \<union> {x. linked adj st x}" using sub(1) by blast
  have two: "side ! x = 0 \<or> side ! x = 1" if "x \<in> seen side" for x using sd that by (auto simp: sides_def seen_def)
  have "proper_on adj (\<lambda>x. side ! x = 0) {x. linked adj st x}" if b
    unfolding proper_on_def
  proof (intro ballI)
    fix x y assume x: "x \<in> {x. linked adj st x}" and y: "y \<in> set (adj ! x)"
    then have "y \<in> seen side" "side ! x \<noteq> side ! y" "x \<in> seen side" using edges [of x y] comp that by auto
    then show "(side ! x = 0) \<noteq> (side ! y = 0)" using two [of x] two [of y] by auto
  qed
  then show "b \<longleftrightarrow> component_bipartite adj st" using col unfolding component_bipartite_def by blast
qed

section \<open>The loop over the starts\<close>

definition starts_of :: "nat list list \<Rightarrow> nat \<Rightarrow> nat list" where
  "starts_of adj k = filter (\<lambda>st. \<forall>j < st. \<not> linked adj j st) [0..<k]"

definition bip_report :: "nat list list \<Rightarrow> nat \<Rightarrow> string" where
  "bip_report adj k = concat (map (\<lambda>st. bip_line (component_bipartite adj st)) (starts_of adj k))"

definition starts_inv :: "nat list list \<Rightarrow> nat \<Rightarrow> int list \<times> string \<Rightarrow> bool" where
  "starts_inv adj k s \<longleftrightarrow> length (fst s) = length adj \<and> sides (fst s) \<and>
     seen (fst s) = {x. \<exists>j<k. linked adj j x} \<and> snd s = bip_report adj k"

lemma start_step:
  assumes adj: "undirected adj" and k: "k < length adj" and inv: "starts_inv adj k (side, out)"
  shows "\<exists>s'. bip_start adj k (side, out) = Some s' \<and> starts_inv adj (Suc k) s'"
proof (cases "side ! k = -1")
  case True
  let ?V = "seen side"
  have len: "length side = length adj" "sides side" "?V = {x. \<exists>j<k. linked adj j x}" and out: "out = bip_report adj k"
    using inv by (auto simp: starts_inv_def)
  have unlinked: "\<forall>j<k. \<not> linked adj j k" using True len(3) k unfolding seen_def by auto
  have closed: "\<forall>x\<in>?V. \<forall>y\<in>set (adj ! x). y \<in> ?V"
  proof (intro ballI)
    fix x y assume xy: "x \<in> ?V" "y \<in> set (adj ! x)"
    then obtain j where "j < k" "linked adj j x" using len(3) by auto
    then have "linked adj j y" using linked_step linked_range [OF _ adj, of j x] k xy(2) by auto
    then show "y \<in> ?V" using \<open>j < k\<close> len(3) by auto
  qed
  have notV: "k \<notin> ?V" using True by (simp add: seen_def)
  have seen0: "seen (side[k := 0]) = insert k ?V" using k len(1) True by (auto simp: seen_def nth_list_update)
  have "sides (side[k := 0])" using len(2) unfolding sides_def by (metis length_list_update nth_list_update_eq nth_list_update_neq)
  then have "search_inv adj ?V k ([k], side[k := 0], True)"
    unfolding search_inv_def prod.case seen0 using len(1) notV by (auto intro: linked_refl)
  from search_result [OF adj closed notV this] obtain side' b' where
    run: "bip_search adj ([k], side[k := 0], True) = Some (side', b')" and fin: "search_inv adj ?V k ([], side', b')" by blast
  have "seen side' = {x. \<exists>j<Suc k. linked adj j x}"
    using search_component(1) [OF adj closed notV fin] len(3) by (auto simp: less_Suc_eq)
  moreover have "starts_of adj (Suc k) = starts_of adj k @ [k]" using unlinked by (simp add: starts_of_def)
  then have "out @ bip_line b' = bip_report adj (Suc k)"
    using search_component(2) [OF adj closed notV fin] out by (simp add: bip_report_def)
  ultimately show ?thesis using run True search_invD(1,2) [OF fin] by (simp add: bip_start_def starts_inv_def)
next
  case False
  then have "k \<in> seen side" using k inv by (auto simp: seen_def starts_inv_def)
  then obtain j where j: "j < k" "linked adj j k" using inv by (auto simp: starts_inv_def)
  then have "starts_of adj (Suc k) = starts_of adj k" by (auto simp: starts_of_def)
  moreover have "{x. \<exists>i<Suc k. linked adj i x} = {x. \<exists>i<k. linked adj i x}"
    using linked_trans [OF _ j(2)] j(1) by (auto simp: less_Suc_eq)
  ultimately show ?thesis using inv False by (auto simp: bip_start_def starts_inv_def bip_report_def)
qed

lemma starts_run:
  assumes adj: "undirected adj"
  shows "k \<le> length adj \<Longrightarrow> starts_inv adj k s \<Longrightarrow>
    \<exists>s'. bip_starts adj [k..<length adj] s = Some s' \<and> starts_inv adj (length adj) s'"
proof (induction "length adj - k" arbitrary: k s)
  case (Suc m)
  then have k: "k < length adj" by simp
  obtain s' where "bip_start adj k s = Some s'" "starts_inv adj (Suc k) s'"
    using start_step [OF adj k, of "fst s" "snd s"] Suc.prems(2) by auto
  then show ?case using Suc.hyps(1) [of "Suc k" s'] Suc.hyps(2) k by (simp add: upt_conv_Cons)
qed simp

text \<open>
  on an undirected graph \<open>graph_is_bipartite\<close> returns, and prints one line for every connected component, in the
  order of the components' least vertices, that says whether the component has a proper colouring with two colours.
\<close>
theorem graph_is_bipartite_correct:
  assumes "undirected adj"
  shows "graph_is_bipartite adj = Some (concat (map (\<lambda>st. bip_line (component_bipartite adj st))
    (filter (\<lambda>st. \<forall>j < st. \<not> linked adj j st) [0..<length adj])))"
proof -
  have "starts_inv adj 0 (replicate (length adj) (-1), [])"
    by (simp add: starts_inv_def sides_def seen_def bip_report_def starts_of_def)
  from starts_run [OF assms _ this] show ?thesis
    by (auto simp: graph_is_bipartite_def starts_inv_def bip_report_def starts_of_def)
qed

theorem graph_is_bipartite_correct_witness:
  "graph_is_bipartite [[1], [0], [3, 4], [2, 4], [2, 3]] = Some (concat (map (\<lambda>st. bip_line (component_bipartite [[1], [0], [3, 4], [2, 4], [2, 3]] st))
    (filter (\<lambda>st. \<forall>j < st. \<not> linked [[1], [0], [3, 4], [2, 4], [2, 3]] j st) [0..<length [[1], [0], [3, 4], [2, 4], [2, 3::nat]]])))"
proof (rule graph_is_bipartite_correct)
  show "undirected [[1], [0], [3, 4], [2, 4], [2, 3]]" by (simp add: undirected_def All_less_Suc numeral_eq_Suc)
qed

lemma graph_is_bipartite_lines:
  "graph_is_bipartite [[1], [0], [3, 4], [2, 4], [2, 3]] = Some (bip_line True @ bip_line False)"
  by (simp add: graph_is_bipartite_def bip_start_def bip_search.simps numeral_eq_Suc upt_rec)

end
