(* ===== verification/Compact_String.thy ===== *)
theory Compact_String
  imports Cpp_Prelude "HOL-Library.List_Lexorder"
begin

text \<open>
  \<open>strings/compact.hpp\<close>: \<open>CompactString\<close>, a string that keeps up to 128 characters in the object and
  longer ones in an array on the heap. A character that was never written is \<open>None\<close>. An object is a
  variable of the program or the local object (\<open>tmp\<close>, \<open>res\<close>) of a member function.

  A member function is a function of the memory that returns or throws. \<open>CS_Undefined\<close> stands for
  access outside of an array, to an object or array that is not there, or to a character never written.
  Whether an allocation fails is decided by a list of outcomes in the memory, after whose end it
  succeeds, and by the limit of the implementation on the size of an array.
\<close>

section \<open>Memory\<close>

datatype cs_exn = CS_Undefined | CS_Invalid_Argument string | CS_Out_Of_Range string | CS_Bad_Alloc

datatype cs_name = Var nat | Local

type_synonym cells = "char option list"

record compact_string =
  cs_buffer :: cells
  cs_length :: size_t
  cs_heap_ptr :: "nat option"

record cs_memory =
  cm_objects :: "cs_name \<Rightarrow> compact_string option"
  cm_arrays :: "nat \<Rightarrow> cells option"
  cm_fresh :: nat
  cm_plan :: "bool list"
  cm_limit :: nat

type_synonym 'r cs_member = "cs_memory \<Rightarrow> (cs_exn + 'r) \<times> cs_memory"

definition c_return :: "'r \<Rightarrow> 'r cs_member" where
  "c_return r m = (Inr r, m)"

definition c_throw :: "cs_exn \<Rightarrow> 'r cs_member" where
  "c_throw e m = (Inl e, m)"

definition c_bind :: "'r cs_member \<Rightarrow> ('r \<Rightarrow> 's cs_member) \<Rightarrow> 's cs_member" where
  "c_bind f g m = (case f m of (Inl e, m) \<Rightarrow> (Inl e, m) | (Inr r, m) \<Rightarrow> g r m)"

definition c_then :: "unit cs_member \<Rightarrow> 's cs_member \<Rightarrow> 's cs_member" where
  "c_then f g = c_bind f (\<lambda>_. g)"

definition c_object :: "cs_name \<Rightarrow> compact_string cs_member" where
  "c_object x m = (case cm_objects m x of None \<Rightarrow> (Inl CS_Undefined, m) | Some c \<Rightarrow> (Inr c, m))"

definition set_object_at :: "cs_name \<Rightarrow> compact_string option \<Rightarrow> unit cs_member" where
  "set_object_at x c m = (Inr (), m\<lparr>cm_objects := (cm_objects m)(x := c)\<rparr>)"

definition new_array :: "nat \<Rightarrow> nat cs_member" where
  "new_array n m =
     (let ok = (case cm_plan m of [] \<Rightarrow> True | b # _ \<Rightarrow> b); m = m\<lparr>cm_plan := tl (cm_plan m)\<rparr> in
      if ok \<and> n \<le> cm_limit m
      then (Inr (cm_fresh m), m\<lparr>cm_fresh := Suc (cm_fresh m), cm_arrays := (cm_arrays m)(cm_fresh m \<mapsto> replicate n None)\<rparr>)
      else (Inl CS_Bad_Alloc, m))"

definition delete_array :: "nat option \<Rightarrow> unit cs_member" where
  "delete_array p m =
     (case p of
        None \<Rightarrow> (Inr (), m)
      | Some a \<Rightarrow> if cm_arrays m a = None then (Inl CS_Undefined, m) else (Inr (), m\<lparr>cm_arrays := (cm_arrays m)(a := None)\<rparr>))"

section \<open>The characters of an object\<close>

definition buffer_size :: nat where
  "buffer_size = 128"

definition is_small :: "compact_string \<Rightarrow> bool" where
  "is_small c \<longleftrightarrow> cs_length c \<le> of_nat buffer_size"

text \<open>The array that \<open>data()\<close> points to, and the memory after it was changed.\<close>

definition cs_data :: "cs_name \<Rightarrow> cells cs_member" where
  "cs_data x = c_bind (c_object x) (\<lambda>c m.
     if is_small c then (Inr (cs_buffer c), m)
     else (case cs_heap_ptr c of
         None \<Rightarrow> (Inl CS_Undefined, m)
       | Some a \<Rightarrow> (case cm_arrays m a of None \<Rightarrow> (Inl CS_Undefined, m) | Some v \<Rightarrow> (Inr v, m))))"

definition set_data :: "cs_name \<Rightarrow> cells \<Rightarrow> unit cs_member" where
  "set_data x v = c_bind (c_object x) (\<lambda>c m.
     if is_small c then set_object_at x (Some (c\<lparr>cs_buffer := v\<rparr>)) m
     else (case cs_heap_ptr c of
         None \<Rightarrow> (Inl CS_Undefined, m)
       | Some a \<Rightarrow> (Inr (), m\<lparr>cm_arrays := (cm_arrays m)(a \<mapsto> v)\<rparr>)))"

text \<open>\<open>memcpy(x.data() + pos, src, n)\<close>, where \<open>src\<close> points into an array with the characters \<open>from\<close> behind it.\<close>

definition memcpy_to :: "cs_name \<Rightarrow> nat \<Rightarrow> cells \<Rightarrow> nat \<Rightarrow> unit cs_member" where
  "memcpy_to x pos from n = c_bind (cs_data x) (\<lambda>v.
     if n \<le> length from \<and> pos + n \<le> length v then set_data x (take pos v @ take n from @ drop (pos + n) v)
     else c_throw CS_Undefined)"

text \<open>\<open>memcmp\<close> compares unsigned characters; of its result only the sign is specified.\<close>

fun memcmp :: "cells \<Rightarrow> cells \<Rightarrow> nat \<Rightarrow> int option" where
  "memcmp v w 0 = Some 0"
| "memcmp (Some c # v) (Some d # w) (Suc n) =
     (if (of_char c :: nat) < of_char d then Some (-1) else if (of_char d :: nat) < of_char c then Some 1 else memcmp v w n)"
| "memcmp v w (Suc n) = None"

section \<open>The class\<close>

definition uninitialised :: cells where
  "uninitialised = replicate buffer_size None"

text \<open>The initialisation that the constructors share: \<open>length(len), heap_ptr(nullptr)\<close>, and the array of a long string.\<close>

definition cs_alloc :: "cs_name \<Rightarrow> size_t \<Rightarrow> unit cs_member" where
  "cs_alloc x len =
     (let c = \<lparr>cs_buffer = uninitialised, cs_length = len, cs_heap_ptr = None\<rparr> in
      if \<not> is_small c then c_bind (new_array (unat len)) (\<lambda>a. set_object_at x (Some (c\<lparr>cs_heap_ptr := Some a\<rparr>)))
      else set_object_at x (Some c))"

definition cs_from :: "cs_name \<Rightarrow> string option \<Rightarrow> size_t \<Rightarrow> unit cs_member" where
  "cs_from x src len =
     (if len > 0 \<and> src = None then c_throw (CS_Invalid_Argument ''src is null'')
      else c_then (cs_alloc x len)
        (if len > 0 then memcpy_to x 0 (map Some (the src)) (unat len) else c_return ()))"

definition cs_copy :: "cs_name \<Rightarrow> cs_name \<Rightarrow> unit cs_member" where
  "cs_copy x y = c_bind (c_object y) (\<lambda>other. c_then (cs_alloc x (cs_length other))
     (if cs_length other > 0 then c_bind (cs_data y) (\<lambda>v. memcpy_to x 0 v (unat (cs_length other))) else c_return ()))"

text \<open>
  What the move constructor and the move assignment share: \<open>c\<close>, whose length is already that of \<open>y\<close>, takes the
  characters of \<open>y\<close>.
\<close>

definition take_over :: "cs_name \<Rightarrow> compact_string \<Rightarrow> cs_name \<Rightarrow> unit cs_member" where
  "take_over x c y = c_bind (c_object y) (\<lambda>other.
     c_then (if is_small other
        then c_then (set_object_at x (Some c))
          (if cs_length c > 0 then memcpy_to x 0 (cs_buffer other) (unat (cs_length c)) else c_return ())
        else c_then (set_object_at x (Some (c\<lparr>cs_heap_ptr := cs_heap_ptr other\<rparr>)))
          (set_object_at y (Some (other\<lparr>cs_heap_ptr := None\<rparr>))))
       (c_bind (c_object y) (\<lambda>other. set_object_at y (Some (other\<lparr>cs_length := 0\<rparr>)))))"

definition cs_move :: "cs_name \<Rightarrow> cs_name \<Rightarrow> unit cs_member" where
  "cs_move x y = c_bind (c_object y) (\<lambda>other.
     take_over x \<lparr>cs_buffer = uninitialised, cs_length = cs_length other, cs_heap_ptr = None\<rparr> y)"

definition cs_move_assign :: "cs_name \<Rightarrow> cs_name \<Rightarrow> unit cs_member" where
  "cs_move_assign x y = c_bind (c_object x) (\<lambda>self.
     if x = y then c_return ()
     else c_then (delete_array (cs_heap_ptr self))
       (c_bind (c_object y) (\<lambda>other. take_over x (self\<lparr>cs_heap_ptr := None, cs_length := cs_length other\<rparr>) y)))"

definition cs_destroy :: "cs_name \<Rightarrow> unit cs_member" where
  "cs_destroy x = c_bind (c_object x) (\<lambda>c. c_then (delete_array (cs_heap_ptr c)) (set_object_at x None))"

definition cs_assign :: "cs_name \<Rightarrow> cs_name \<Rightarrow> unit cs_member" where
  "cs_assign x y = c_bind (c_object x) (\<lambda>self.
     if x = y then c_return ()
     else c_then (cs_copy Local y) (c_then (cs_move_assign x Local) (cs_destroy Local)))"

definition cs_size :: "cs_name \<Rightarrow> size_t cs_member" where
  "cs_size x = c_bind (c_object x) (\<lambda>c. c_return (cs_length c))"

definition cs_compare :: "cs_name \<Rightarrow> cs_name \<Rightarrow> int cs_member" where
  "cs_compare x y = c_bind (c_object x) (\<lambda>c. c_bind (c_object y) (\<lambda>d. c_bind (cs_data x) (\<lambda>v. c_bind (cs_data y) (\<lambda>w.
     let common = min (cs_length c) (cs_length d) in
     case memcmp v w (unat common) of
       None \<Rightarrow> c_throw CS_Undefined
     | Some res \<Rightarrow> c_return
         (if res \<noteq> 0 then res
          else if cs_length c < cs_length d then -1
          else if cs_length c > cs_length d then 1
          else 0)))))"

text \<open>A member function that returns the local object \<open>res\<close>: the caller's object is initialised from it by a move.\<close>

definition return_local :: "cs_name \<Rightarrow> unit cs_member" where
  "return_local z = c_then (cs_move z Local) (cs_destroy Local)"

definition cs_concat :: "cs_name \<Rightarrow> cs_name \<Rightarrow> cs_name \<Rightarrow> unit cs_member" where
  "cs_concat z x y = c_bind (c_object x) (\<lambda>c. c_bind (c_object y) (\<lambda>d.
     c_then (cs_alloc Local (cs_length c + cs_length d))
     (c_then (if cs_length c > 0 then c_bind (cs_data x) (\<lambda>v. memcpy_to Local 0 v (unat (cs_length c))) else c_return ())
     (c_then (if cs_length d > 0 then c_bind (cs_data y) (\<lambda>w. memcpy_to Local (unat (cs_length c)) w (unat (cs_length d))) else c_return ())
     (return_local z)))))"

definition cs_substr :: "cs_name \<Rightarrow> cs_name \<Rightarrow> size_t \<Rightarrow> size_t \<Rightarrow> unit cs_member" where
  "cs_substr z x pos cnt = c_bind (c_object x) (\<lambda>c.
     if pos > cs_length c \<or> cnt > cs_length c - pos then c_throw (CS_Out_Of_Range ''substring'')
     else c_then (cs_alloc Local cnt)
       (c_then (if cnt > 0 then c_bind (cs_data x) (\<lambda>v. memcpy_to Local 0 (drop (unat pos) v) (unat cnt)) else c_return ())
       (return_local z)))"


section \<open>What the memory holds\<close>

text \<open>
  \<open>cs_ok m S\<close>: the objects of the memory are those of \<open>S\<close>, with the characters \<open>S\<close> gives; every array belongs to one object.
\<close>

type_synonym values_at = "cs_name \<Rightarrow> cells option"

definition ptr :: "cs_memory \<Rightarrow> cs_name \<Rightarrow> nat option" where
  "ptr m x = Option.bind (cm_objects m x) cs_heap_ptr"

definition shows_cells :: "(nat \<Rightarrow> cells option) \<Rightarrow> compact_string \<Rightarrow> cells \<Rightarrow> bool" where
  "shows_cells A c v \<longleftrightarrow> length (cs_buffer c) = buffer_size \<and> unat (cs_length c) = length v \<and>
     (if length v \<le> buffer_size then cs_heap_ptr c = None \<and> take (length v) (cs_buffer c) = v
      else \<exists>a. cs_heap_ptr c = Some a \<and> A a = Some v)"

definition object_ok :: "cs_memory \<Rightarrow> compact_string option \<Rightarrow> cells option \<Rightarrow> bool" where
  "object_ok m c v \<longleftrightarrow> (case (c, v) of
     (None, None) \<Rightarrow> True
   | (Some c, Some v) \<Rightarrow> shows_cells (cm_arrays m) c v \<and> length v \<le> max buffer_size (cm_limit m)
   | _ \<Rightarrow> False)"

definition arrays_ok :: "cs_memory \<Rightarrow> bool" where
  "arrays_ok m \<longleftrightarrow> (\<forall>x y a. ptr m x = Some a \<longrightarrow> ptr m y = Some a \<longrightarrow> x = y) \<and>
     (\<forall>a. cm_arrays m a \<noteq> None \<longrightarrow> a < cm_fresh m \<and> (\<exists>x. ptr m x = Some a)) \<and> cm_limit m < 2 ^ 63"

definition cs_ok :: "cs_memory \<Rightarrow> values_at \<Rightarrow> bool" where
  "cs_ok m S \<longleftrightarrow> (\<forall>x. object_ok m (cm_objects m x) (S x)) \<and> arrays_ok m"

lemma is_small_length: "shows_cells A c v \<Longrightarrow> is_small c \<longleftrightarrow> length v \<le> buffer_size"
  by (auto simp: shows_cells_def is_small_def buffer_size_def word_le_nat_alt)

lemma cs_okE:
  assumes "cs_ok m S" "S x = Some v"
  obtains c where "cm_objects m x = Some c" "shows_cells (cm_arrays m) c v" "length v \<le> max buffer_size (cm_limit m)"
proof -
  have "object_ok m (cm_objects m x) (Some v)" using assms unfolding cs_ok_def by metis
  then show ?thesis using that by (cases "cm_objects m x") (auto simp: object_ok_def)
qed

lemma cs_ok_none: "cs_ok m S \<Longrightarrow> S x = None \<Longrightarrow> cm_objects m x = None"
proof -
  assume "cs_ok m S" "S x = None"
  then have "object_ok m (cm_objects m x) None" unfolding cs_ok_def by metis
  then show ?thesis by (cases "cm_objects m x") (auto simp: object_ok_def)
qed

text \<open>An operation changes the objects in \<open>X\<close> and no array of another object.\<close>

lemma cs_ok_frame:
  assumes ok: "cs_ok m S" and other: "\<forall>y. y \<notin> X \<longrightarrow> cm_objects m' y = cm_objects m y \<and> S' y = S y"
    and arrays: "\<forall>y a. y \<notin> X \<longrightarrow> ptr m y = Some a \<longrightarrow> cm_arrays m' a = cm_arrays m a"
    and changed: "\<forall>y\<in>X. object_ok m' (cm_objects m' y) (S' y)"
    and "arrays_ok m'" and limit: "cm_limit m' = cm_limit m"
  shows "cs_ok m' S'"
  unfolding cs_ok_def
proof (intro conjI allI)
  fix y
  show "object_ok m' (cm_objects m' y) (S' y)"
  proof (cases "y \<in> X")
    case False
    have "object_ok m (cm_objects m y) (S y)" using ok by (simp add: cs_ok_def)
    then have "object_ok m' (cm_objects m y) (S y)"
      using arrays False limit by (auto simp: object_ok_def shows_cells_def ptr_def split: option.splits if_splits)
    then show ?thesis using other False by simp
  qed (use changed in blast)
qed fact

lemma ptr_array:
  assumes "cs_ok m S" "ptr m y = Some a"
  shows "\<exists>v. cm_arrays m a = Some v \<and> S y = Some v \<and> buffer_size < length v"
proof -
  obtain c where c: "cm_objects m y = Some c" "cs_heap_ptr c = Some a" using assms(2) by (auto simp: ptr_def bind_eq_Some_conv)
  then obtain v where v: "S y = Some v" using cs_ok_none [OF assms(1), of y] by (cases "S y") auto
  show ?thesis by (rule cs_okE [OF assms(1) v]) (use c v in \<open>auto simp: shows_cells_def split: if_splits\<close>)
qed

lemma c_object_Some [simp]: "cm_objects m x = Some c \<Longrightarrow> c_object x m = (Inr c, m)"
  by (simp add: c_object_def)

lemma c_object_None [simp]: "cm_objects m x = None \<Longrightarrow> c_object x m = (Inl CS_Undefined, m)"
  by (simp add: c_object_def)

lemma c_bind_simps [simp]:
  "f m = (Inr r, m') \<Longrightarrow> c_bind f g m = g r m'"
  "f m = (Inl e, m') \<Longrightarrow> c_bind f g m = (Inl e, m')"
  by (simp_all add: c_bind_def)

lemma c_then_simps [simp]:
  "f m = (Inr u, m') \<Longrightarrow> c_then f g m = g m'"
  "f m = (Inl e, m') \<Longrightarrow> c_then f g m = (Inl e, m')"
  by (simp_all add: c_then_def)

lemma c_return_simps [simp]: "c_return r m = (Inr r, m)" "c_throw e m = (Inl e, m)"
  by (simp_all add: c_return_def c_throw_def)

section \<open>Reading and writing\<close>

lemma cs_data_ok:
  assumes "cs_ok m S" "S x = Some v"
  shows "\<exists>w. cs_data x m = (Inr w, m) \<and> length v \<le> length w \<and> take (length v) w = v"
proof (rule cs_okE [OF assms])
  fix c assume c: "cm_objects m x = Some c" "shows_cells (cm_arrays m) c v"
  show ?thesis using c(1) is_small_length [OF c(2)] c(2)
    by (auto simp: cs_data_def shows_cells_def split: if_splits)
qed

lemma same_pointers: "\<forall>y. ptr m' y = ptr m y \<Longrightarrow> \<forall>a. cm_arrays m' a = None \<longleftrightarrow> cm_arrays m a = None \<Longrightarrow>
    cm_fresh m' = cm_fresh m \<Longrightarrow> cm_limit m' = cm_limit m \<Longrightarrow> arrays_ok m \<Longrightarrow> arrays_ok m'"
  unfolding arrays_ok_def by simp

lemma set_data_ok:
  assumes ok: "cs_ok m S" "S x = Some v" and d: "cs_data x m = (Inr w, m)"
    and w': "length w' = length w" "take (length v) w' = v'" "length v' = length v"
  shows "\<exists>m'. set_data x w' m = (Inr (), m') \<and> cs_ok m' (S(x \<mapsto> v'))"
proof (rule cs_okE [OF ok])
  fix c assume c: "cm_objects m x = Some c" "shows_cells (cm_arrays m) c v" "length v \<le> max buffer_size (cm_limit m)"
  have arrays: "arrays_ok m" using ok(1) by (simp add: cs_ok_def)
  show ?thesis
  proof (cases "is_small c")
    case True
    let ?m = "m\<lparr>cm_objects := (cm_objects m)(x \<mapsto> c\<lparr>cs_buffer := w'\<rparr>)\<rparr>"
    have small: "length v \<le> buffer_size" using is_small_length [OF c(2)] True by blast
    have "w = cs_buffer c" using d c(1) True by (simp add: cs_data_def)
    then have "shows_cells (cm_arrays m) (c\<lparr>cs_buffer := w'\<rparr>) v'" using c(2) small w' by (simp add: shows_cells_def)
    moreover have "arrays_ok ?m" by (rule same_pointers [OF _ _ _ _ arrays]) (auto simp: ptr_def c(1))
    ultimately have "cs_ok ?m (S(x \<mapsto> v'))"
      using c(3) w'(3) by (intro cs_ok_frame [OF ok(1), where X = "{x}"]) (auto simp: object_ok_def)
    then show ?thesis using c(1) True by (simp add: set_data_def set_object_at_def)
  next
    case False
    then have big: "buffer_size < length v" using is_small_length [OF c(2)] by simp
    then obtain a where a: "cs_heap_ptr c = Some a" "cm_arrays m a = Some v" using c(2) by (auto simp: shows_cells_def)
    let ?m = "m\<lparr>cm_arrays := (cm_arrays m)(a \<mapsto> v')\<rparr>"
    have "w = v" using d c(1) False a by (simp add: cs_data_def)
    then have "w' = v'" using w' by simp
    have "arrays_ok ?m" by (rule same_pointers [OF _ _ _ _ arrays]) (auto simp: ptr_def a)
    moreover have "ptr m y \<noteq> Some a" if "y \<noteq> x" for y
      using that arrays a(1) c(1) unfolding arrays_ok_def ptr_def by (metis bind.bind_lunit)
    ultimately have "cs_ok ?m (S(x \<mapsto> v'))"
      using c a big w'(3) by (intro cs_ok_frame [OF ok(1), where X = "{x}"]) (auto simp: object_ok_def shows_cells_def)
    then show ?thesis using c(1) False a \<open>w' = v'\<close> by (auto simp: set_data_def)
  qed
qed

lemma memcpy_to_ok:
  assumes ok: "cs_ok m S" "S x = Some v" and n: "n \<le> length from" "pos + n \<le> length v"
  shows "\<exists>m'. memcpy_to x pos from n m = (Inr (), m') \<and> cs_ok m' (S(x \<mapsto> take pos v @ take n from @ drop (pos + n) v))"
proof -
  obtain w where w: "cs_data x m = (Inr w, m)" "length v \<le> length w" "take (length v) w = v" using cs_data_ok [OF ok] by blast
  let ?w = "take pos w @ take n from @ drop (pos + n) w"
  have "take pos v = take pos w" using n by (subst w(3) [symmetric]) (simp add: min_def)
  moreover have "drop (pos + n) v = take (length v - (pos + n)) (drop (pos + n) w)" by (subst w(3) [symmetric]) (simp add: drop_take)
  moreover obtain k where "length v = pos + n + k" using n(2) le_Suc_ex by blast
  moreover have "length (take pos w) = pos" using n w(2) by simp
  ultimately have "take (length v) ?w = take pos v @ take n from @ drop (pos + n) v" using n(1) by simp
  then show ?thesis using set_data_ok [OF ok w(1), of ?w "take pos v @ take n from @ drop (pos + n) v"] n w
    by (auto simp: memcpy_to_def)
qed


section \<open>The members\<close>

lemma arrays_ok_new:
  assumes ok: "arrays_ok m" and old: "\<forall>y a. ptr m y = Some a \<longrightarrow> a < cm_fresh m" and "ptr m x = None"
    and ptrs: "\<forall>y. ptr m' y = (if y = x then Some (cm_fresh m) else ptr m y)"
    and arrays: "cm_arrays m' = (cm_arrays m)(cm_fresh m \<mapsto> v)" and "cm_fresh m' = Suc (cm_fresh m)" "cm_limit m' = cm_limit m"
  shows "arrays_ok m'"
  unfolding arrays_ok_def
proof (intro conjI allI impI)
  fix y z a assume "ptr m' y = Some a" "ptr m' z = Some a"
  then show "y = z" using ptrs old ok unfolding arrays_ok_def by (metis less_irrefl option.inject)
next
  fix a assume a: "cm_arrays m' a \<noteq> None"
  show "\<exists>z. ptr m' z = Some a"
  proof (cases "a = cm_fresh m")
    case True
    then show ?thesis using ptrs by auto
  next
    case False
    then obtain z where "ptr m z = Some a" using a arrays ok unfolding arrays_ok_def by auto
    then have "ptr m' z = Some a" using ptrs assms(3) by auto
    then show ?thesis ..
  qed
  show "a < cm_fresh m'" using a arrays ok assms(6) unfolding arrays_ok_def by (metis fun_upd_apply less_Suc_eq)
qed (use assms(7) ok in \<open>simp add: arrays_ok_def\<close>)

lemma cs_alloc_ok:
  assumes ok: "cs_ok m S" and x: "S x = None"
  shows "\<exists>m'. (cs_alloc x len m = (Inl CS_Bad_Alloc, m') \<and> buffer_size < unat len \<and> cs_ok m' S) \<or>
    (cs_alloc x len m = (Inr (), m') \<and> cs_ok m' (S(x \<mapsto> replicate (unat len) None)))"
proof -
  have none: "cm_objects m x = None" using cs_ok_none [OF ok x] .
  have arrays: "arrays_ok m" using ok by (simp add: cs_ok_def)
  define c where "c = \<lparr>cs_buffer = uninitialised, cs_length = len, cs_heap_ptr = None\<rparr>"
  have small: "is_small c \<longleftrightarrow> unat len \<le> buffer_size" by (simp add: c_def is_small_def buffer_size_def word_le_nat_alt)
  show ?thesis
  proof (cases "is_small c")
    case True
    let ?m = "m\<lparr>cm_objects := (cm_objects m)(x \<mapsto> c)\<rparr>"
    have "arrays_ok ?m" by (rule same_pointers [OF _ _ _ _ arrays]) (auto simp: ptr_def none c_def)
    moreover have "shows_cells (cm_arrays m) c (replicate (unat len) None)"
      using True small by (simp add: shows_cells_def c_def uninitialised_def min_def)
    ultimately have "cs_ok ?m (S(x \<mapsto> replicate (unat len) None))"
      using True small by (intro cs_ok_frame [OF ok, where X = "{x}"]) (auto simp: object_ok_def)
    then show ?thesis using True by (simp add: cs_alloc_def Let_def c_def [symmetric] set_object_at_def)
  next
    case False
    let ?p = "m\<lparr>cm_plan := tl (cm_plan m)\<rparr>"
    have okp: "cs_ok ?p S"
      by (rule cs_ok_frame [OF ok, where X = "{}"]) (auto intro!: same_pointers [OF _ _ _ _ arrays] simp: ptr_def)
    show ?thesis
    proof (cases "new_array (unat len) m")
      case (Pair r m')
      then consider "r = Inl CS_Bad_Alloc" "m' = ?p"
        | "r = Inr (cm_fresh m)" "unat len \<le> cm_limit m" "m' = ?p\<lparr>cm_fresh := Suc (cm_fresh m), cm_arrays := (cm_arrays m)(cm_fresh m \<mapsto> replicate (unat len) None)\<rparr>"
        by (auto simp: new_array_def Let_def split: if_splits)
      then show ?thesis
      proof cases
        case 1
        then show ?thesis using Pair okp False small by (auto simp: cs_alloc_def Let_def c_def [symmetric])
      next
        case 2
        let ?c = "c\<lparr>cs_heap_ptr := Some (cm_fresh m)\<rparr>"
        let ?m = "m'\<lparr>cm_objects := (cm_objects m')(x \<mapsto> ?c)\<rparr>"
        have "shows_cells (cm_arrays ?m) ?c (replicate (unat len) None)"
          using False small 2 by (simp add: shows_cells_def c_def uninitialised_def)
        moreover have fresh: "cm_arrays m a = None" if "a \<ge> cm_fresh m" for a using that arrays unfolding arrays_ok_def by (metis not_less)
        have ptrs: "ptr ?m y = (if y = x then Some (cm_fresh m) else ptr m y)" for y using 2 by (simp add: ptr_def)
        have px: "ptr m x = None" using none by (simp add: ptr_def)
        have old: "a < cm_fresh m" if "ptr m y = Some a" for y a
          using ptr_array [OF ok that] fresh [of a] by (metis not_less option.distinct(1))
        have "arrays_ok ?m" using arrays_ok_new [OF arrays _ px, of ?m] old ptrs 2 by simp
        ultimately have "cs_ok ?m (S(x \<mapsto> replicate (unat len) None))"
          using 2 old by (intro cs_ok_frame [OF ok, where X = "{x}"]) (auto simp: object_ok_def)
        then show ?thesis using Pair False 2 by (auto simp: cs_alloc_def Let_def c_def [symmetric] set_object_at_def)
      qed
    qed
  qed
qed


text \<open>\<open>f\<close> returns and leaves \<open>S\<close>; for a string of \<open>n\<close> characters that does not fit into the buffer it may also throw \<open>bad_alloc\<close> and leave \<open>S0\<close>.\<close>

definition leaves :: "unit cs_member \<Rightarrow> cs_memory \<Rightarrow> values_at \<Rightarrow> bool" where
  "leaves f m S \<longleftrightarrow> (\<exists>m'. f m = (Inr (), m') \<and> cs_ok m' S)"

definition may_leave :: "nat \<Rightarrow> unit cs_member \<Rightarrow> cs_memory \<Rightarrow> values_at \<Rightarrow> values_at \<Rightarrow> bool" where
  "may_leave n f m S0 S \<longleftrightarrow> (\<exists>m'. f m = (Inl CS_Bad_Alloc, m') \<and> buffer_size < n \<and> cs_ok m' S0) \<or> leaves f m S"

lemma leaves_then: "leaves f m S \<Longrightarrow> (\<And>m'. cs_ok m' S \<Longrightarrow> leaves g m' S') \<Longrightarrow> leaves (c_then f g) m S'"
  unfolding leaves_def by force

lemma may_leave_then: "may_leave n f m S0 S \<Longrightarrow> (\<And>m'. cs_ok m' S \<Longrightarrow> leaves g m' S') \<Longrightarrow> may_leave n (c_then f g) m S0 S'"
  unfolding may_leave_def leaves_def by force

lemma leaves_return: "cs_ok m S \<Longrightarrow> leaves (c_return ()) m S"
  by (simp add: leaves_def)

lemma memcpy_leaves: "cs_ok m S \<Longrightarrow> S x = Some v \<Longrightarrow> n \<le> length from \<Longrightarrow> pos + n \<le> length v \<Longrightarrow>
    S' = S(x \<mapsto> take pos v @ take n from @ drop (pos + n) v) \<Longrightarrow> leaves (memcpy_to x pos from n) m S'"
  using memcpy_to_ok [of m S x v n "from" pos] unfolding leaves_def by blast

lemma length_zero: "shows_cells A c v \<Longrightarrow> 0 < cs_length c \<longleftrightarrow> v \<noteq> []"
  by (auto simp: shows_cells_def word_neq_0_conv [symmetric] unat_eq_zero)

lemma cs_from_ok:
  assumes ok: "cs_ok m S" "S x = None" and src: "unat len = 0 \<or> src = Some s" "unat len \<le> length s"
  shows "may_leave (unat len) (cs_from x src len) m S (S(x \<mapsto> map Some (take (unat len) s)))"
proof -
  have len: "0 < len \<longleftrightarrow> unat len \<noteq> 0" by (metis unat_eq_zero word_neq_0_conv)
  let ?S = "S(x \<mapsto> replicate (unat len) None)"
  have "may_leave (unat len) (cs_alloc x len) m S ?S"
    using cs_alloc_ok [OF ok, of len] unfolding may_leave_def leaves_def by blast
  moreover have "leaves (if len > 0 then memcpy_to x 0 (map Some (the src)) (unat len) else c_return ()) m' (S(x \<mapsto> map Some (take (unat len) s)))"
    if m': "cs_ok m' ?S" for m'
    using src len m' by (cases "unat len = 0") (auto intro!: memcpy_leaves [OF m'] leaves_return simp: take_map)
  ultimately show ?thesis using src(1) len unfolding cs_from_def by (auto intro!: may_leave_then)
qed

text \<open>Copying the characters of \<open>y\<close> from \<open>from\<close> on into \<open>x\<close> at \<open>pos\<close>.\<close>

lemma copy_data:
  assumes ok: "cs_ok m S" and y: "S y = Some v" "start + n \<le> length v" and x: "S x = Some w" "pos + n \<le> length w"
    and S': "S' = S(x \<mapsto> take pos w @ take n (drop start v) @ drop (pos + n) w)"
  shows "leaves (c_bind (cs_data y) (\<lambda>u. memcpy_to x pos (drop start u) n)) m S'"
proof -
  obtain u where u: "cs_data y m = (Inr u, m)" "length v \<le> length u" "take (length v) u = v" using cs_data_ok [OF ok y(1)] by blast
  have "take n (drop start v) = take n (drop start u)" using y(2) by (subst u(3) [symmetric]) (simp add: drop_take min_def)
  then have "leaves (memcpy_to x pos (drop start u) n) m S'"
    using u(2) y(2) x(2) S' by (intro memcpy_leaves [OF ok x(1)]) auto
  then show ?thesis using u(1) by (simp add: leaves_def)
qed

lemma cs_copy_ok:
  assumes ok: "cs_ok m S" and x: "S x = None" and y: "S y = Some v"
  shows "may_leave (length v) (cs_copy x y) m S (S(x \<mapsto> v))"
proof (rule cs_okE [OF ok y])
  fix c assume c: "cm_objects m y = Some c" "shows_cells (cm_arrays m) c v"
  have len: "unat (cs_length c) = length v" using c(2) by (simp add: shows_cells_def)
  let ?S = "S(x \<mapsto> replicate (length v) None)"
  have "may_leave (length v) (cs_alloc x (cs_length c)) m S ?S"
    using cs_alloc_ok [OF ok x, of "cs_length c"] len unfolding may_leave_def leaves_def by auto
  moreover have "leaves (if cs_length c > 0 then c_bind (cs_data y) (\<lambda>v. memcpy_to x 0 v (unat (cs_length c))) else c_return ()) m' (S(x \<mapsto> v))"
    if m': "cs_ok m' ?S" for m'
  proof (cases "v = []")
    case True
    then show ?thesis using m' length_zero [OF c(2)] by (simp add: leaves_return)
  next
    case False
    have "leaves (c_bind (cs_data y) (\<lambda>u. memcpy_to x 0 (drop 0 u) (length v))) m' (S(x \<mapsto> v))"
      using x y by (intro copy_data [OF m', where v = v and w = "replicate (length v) None"]) auto
    then show ?thesis using False length_zero [OF c(2)] len by simp
  qed
  ultimately have "may_leave (length v) (c_then (cs_alloc x (cs_length c)) (if cs_length c > 0 then c_bind (cs_data y) (\<lambda>v. memcpy_to x 0 v (unat (cs_length c))) else c_return ())) m S (S(x \<mapsto> v))"
    by (rule may_leave_then)
  then show ?thesis using c(1) by (simp add: cs_copy_def may_leave_def leaves_def)
qed

lemma arrays_ok_drop:
  assumes ok: "arrays_ok m" and px: "ptr m x = Some a" and ptrs: "\<forall>y. ptr m' y = (if y = x then None else ptr m y)"
    and arrays: "cm_arrays m' = (cm_arrays m)(a := None)" and "cm_fresh m' = cm_fresh m" "cm_limit m' = cm_limit m"
  shows "arrays_ok m'"
  unfolding arrays_ok_def
proof (intro conjI allI impI)
  fix y z b assume "ptr m' y = Some b" "ptr m' z = Some b"
  then show "y = z" using ptrs ok unfolding arrays_ok_def by (metis option.distinct(1))
next
  fix b assume "cm_arrays m' b \<noteq> None"
  then have b: "b \<noteq> a" "cm_arrays m b \<noteq> None" using arrays by (auto split: if_splits)
  then obtain z where z: "b < cm_fresh m" "ptr m z = Some b" using ok unfolding arrays_ok_def by blast
  then have "z \<noteq> x" using b px by auto
  then show "b < cm_fresh m'" "\<exists>z. ptr m' z = Some b" using z ptrs assms(5) by auto
qed (use assms(6) ok in \<open>simp add: arrays_ok_def\<close>)

lemma cs_destroy_ok:
  assumes ok: "cs_ok m S" and x: "S x = Some v"
  shows "leaves (cs_destroy x) m (S(x := None))"
proof (rule cs_okE [OF ok x])
  fix c assume c: "cm_objects m x = Some c" "shows_cells (cm_arrays m) c v"
  have arrays: "arrays_ok m" using ok by (simp add: cs_ok_def)
  show ?thesis
  proof (cases "cs_heap_ptr c")
    case None
    let ?m = "m\<lparr>cm_objects := (cm_objects m)(x := None)\<rparr>"
    have "arrays_ok ?m" by (rule same_pointers [OF _ _ _ _ arrays]) (auto simp: ptr_def c None)
    then have "cs_ok ?m (S(x := None))" by (intro cs_ok_frame [OF ok, where X = "{x}"]) (auto simp: object_ok_def)
    then show ?thesis using c(1) None by (simp add: cs_destroy_def delete_array_def set_object_at_def leaves_def)
  next
    case (Some a)
    let ?m = "m\<lparr>cm_arrays := (cm_arrays m)(a := None), cm_objects := (cm_objects m)(x := None)\<rparr>"
    have px: "ptr m x = Some a" using c(1) Some by (simp add: ptr_def)
    have ptrs: "ptr ?m y = (if y = x then None else ptr m y)" for y by (simp add: ptr_def)
    have other: "ptr m y \<noteq> Some a" if "y \<noteq> x" for y using that arrays px unfolding arrays_ok_def by metis
    have "arrays_ok ?m" by (rule arrays_ok_drop [OF arrays px]) (simp_all add: ptrs)
    then have "cs_ok ?m (S(x := None))" using other by (intro cs_ok_frame [OF ok, where X = "{x}"]) (auto simp: object_ok_def)
    moreover have "cm_arrays m a \<noteq> None" using ptr_array [OF ok px] by auto
    ultimately show ?thesis using c(1) Some by (simp add: cs_destroy_def delete_array_def set_object_at_def leaves_def)
  qed
qed


lemma arrays_ok_move:
  assumes ok: "arrays_ok m" and px: "ptr m x = None" and py: "ptr m y = Some a"
    and ptrs: "\<forall>z. ptr m' z = (if z = x then Some a else if z = y then None else ptr m z)"
    and same: "cm_arrays m' = cm_arrays m" "cm_fresh m' = cm_fresh m" "cm_limit m' = cm_limit m"
  shows "arrays_ok m'"
  unfolding arrays_ok_def
proof (intro conjI allI impI)
  fix z u b assume "ptr m' z = Some b" "ptr m' u = Some b"
  then show "z = u" using ptrs py ok unfolding arrays_ok_def by (metis option.distinct(1) option.inject)
next
  fix b assume "cm_arrays m' b \<noteq> None"
  then obtain z where z: "b < cm_fresh m" "ptr m z = Some b" using ok same unfolding arrays_ok_def by auto
  then show "b < cm_fresh m'" using same by simp
  show "\<exists>z. ptr m' z = Some b"
  proof (cases "z = y")
    case True
    then have "ptr m' x = Some b" using z py ptrs by simp
    then show ?thesis ..
  next
    case False
    then have "ptr m' z = Some b" using z px ptrs by auto
    then show ?thesis ..
  qed
qed (use same ok in \<open>simp add: arrays_ok_def\<close>)

lemma shrink_ok:
  assumes ok: "cs_ok m S" and y: "S y = Some v" "length v \<le> buffer_size" and d: "cm_objects m y = Some d"
  shows "leaves (set_object_at y (Some (d\<lparr>cs_length := 0\<rparr>))) m (S(y \<mapsto> []))"
proof (rule cs_okE [OF ok y(1)])
  fix c assume c: "cm_objects m y = Some c" "shows_cells (cm_arrays m) c v"
  then have d: "c = d" "cs_heap_ptr d = None" using d y(2) by (auto simp: shows_cells_def)
  let ?m = "m\<lparr>cm_objects := (cm_objects m)(y \<mapsto> d\<lparr>cs_length := 0\<rparr>)\<rparr>"
  have arrays: "arrays_ok m" using ok by (simp add: cs_ok_def)
  have "arrays_ok ?m" by (rule same_pointers [OF _ _ _ _ arrays]) (use c(1) d in \<open>auto simp: ptr_def\<close>)
  then have "cs_ok ?m (S(y \<mapsto> []))"
    using c d by (intro cs_ok_frame [OF ok, where X = "{y}"]) (auto simp: object_ok_def shows_cells_def)
  then show ?thesis by (simp add: leaves_def set_object_at_def)
qed

definition fresh_for :: "compact_string \<Rightarrow> cs_memory \<Rightarrow> cs_name \<Rightarrow> bool" where
  "fresh_for c m y \<longleftrightarrow> length (cs_buffer c) = buffer_size \<and> cs_heap_ptr c = None \<and> (\<exists>d. cm_objects m y = Some d \<and> cs_length c = cs_length d)"

lemma take_over_small:
  assumes ok: "cs_ok m S" and x: "S x = None" and y: "S y = Some v" "length v \<le> buffer_size" and c: "fresh_for c m y"
  shows "leaves (take_over x c y) m (S(x \<mapsto> v, y \<mapsto> []))"
proof (rule cs_okE [OF ok y(1)])
  fix d assume d: "cm_objects m y = Some d" "shows_cells (cm_arrays m) d v" "length v \<le> max buffer_size (cm_limit m)"
  have xy: "x \<noteq> y" using x y by auto
  have arrays: "arrays_ok m" using ok by (simp add: cs_ok_def)
  have cl: "length (cs_buffer c) = buffer_size" "cs_heap_ptr c = None" "cs_length c = cs_length d" using c d(1) by (auto simp: fresh_for_def)
  then have len: "unat (cs_length c) = length v" "0 < cs_length c \<longleftrightarrow> v \<noteq> []" using d(2) length_zero [OF d(2)] by (auto simp: shows_cells_def)
  let ?m = "m\<lparr>cm_objects := (cm_objects m)(x \<mapsto> c)\<rparr>"
  let ?v = "take (length v) (cs_buffer c)"
  have px: "cm_objects m x = None" using cs_ok_none [OF ok x] .
  have "arrays_ok ?m" by (rule same_pointers [OF _ _ _ _ arrays]) (auto simp: ptr_def px cl)
  then have okm: "cs_ok ?m (S(x \<mapsto> ?v))"
    using cl len y(2) by (intro cs_ok_frame [OF ok, where X = "{x}"]) (auto simp: object_ok_def shows_cells_def)
  have "leaves (if cs_length c > 0 then memcpy_to x 0 (cs_buffer d) (unat (cs_length c)) else c_return ()) ?m (S(x \<mapsto> v))"
  proof (cases "v = []")
    case True
    then show ?thesis using okm len by (simp add: leaves_return)
  next
    case False
    then show ?thesis using len y(2) d(2) cl(1) by (auto intro!: memcpy_leaves [OF okm] simp: shows_cells_def)
  qed
  then obtain m2 where m2: "(if cs_length c > 0 then memcpy_to x 0 (cs_buffer d) (unat (cs_length c)) else c_return ()) ?m = (Inr (), m2)"
    "cs_ok m2 (S(x \<mapsto> v))" unfolding leaves_def by blast
  have "is_small d" using is_small_length [OF d(2)] y(2) by simp
  obtain d2 where d2: "cm_objects m2 y = Some d2" using cs_okE [OF m2(2), of y v] xy y by auto
  have "leaves (set_object_at y (Some (d2\<lparr>cs_length := 0\<rparr>))) m2 (S(x \<mapsto> v, y \<mapsto> []))"
    by (rule shrink_ok [OF m2(2) _ y(2) d2]) (use xy y in simp)
  moreover have "take_over x c y m = set_object_at y (Some (d2\<lparr>cs_length := 0\<rparr>)) m2"
    using d(1) \<open>is_small d\<close> m2(1) d2 by (simp add: take_over_def set_object_at_def c_then_def c_bind_def)
  ultimately show ?thesis by (simp add: leaves_def)
qed

lemma take_over_big:
  assumes ok: "cs_ok m S" and x: "S x = None" and y: "S y = Some v" "buffer_size < length v" and c: "fresh_for c m y"
  shows "leaves (take_over x c y) m (S(x \<mapsto> v, y \<mapsto> []))"
proof (rule cs_okE [OF ok y(1)])
  fix d assume d: "cm_objects m y = Some d" "shows_cells (cm_arrays m) d v" "length v \<le> max buffer_size (cm_limit m)"
  have xy: "x \<noteq> y" using x y by auto
  have arrays: "arrays_ok m" using ok by (simp add: cs_ok_def)
  have cl: "length (cs_buffer c) = buffer_size" "cs_heap_ptr c = None" "cs_length c = cs_length d" using c d(1) by (auto simp: fresh_for_def)
  obtain a where a: "cs_heap_ptr d = Some a" "cm_arrays m a = Some v" using d(2) y(2) by (auto simp: shows_cells_def)
  let ?d = "d\<lparr>cs_heap_ptr := None, cs_length := 0\<rparr>"
  let ?m = "m\<lparr>cm_objects := (cm_objects m)(x \<mapsto> c\<lparr>cs_heap_ptr := Some a\<rparr>, y \<mapsto> ?d)\<rparr>"
  have px: "ptr m x = None" using cs_ok_none [OF ok x] by (simp add: ptr_def)
  have py: "ptr m y = Some a" using d(1) a by (simp add: ptr_def)
  have ptrs: "ptr ?m z = (if z = x then Some a else if z = y then None else ptr m z)" for z using xy by (simp add: ptr_def)
  have "arrays_ok ?m"
    by (rule arrays_ok_move [OF arrays px py]) (simp_all add: ptrs)
  then have "cs_ok ?m (S(x \<mapsto> v, y \<mapsto> []))"
    using cl d a xy y(2) by (intro cs_ok_frame [OF ok, where X = "{x, y}"]) (auto simp: object_ok_def shows_cells_def)
  moreover have "\<not> is_small d" using is_small_length [OF d(2)] y(2) by simp
  then have "take_over x c y m = (Inr (), ?m)"
    using d(1) a xy by (simp add: take_over_def set_object_at_def c_then_def c_bind_def)
  ultimately show ?thesis by (simp add: leaves_def)
qed


lemma take_over_ok:
  "cs_ok m S \<Longrightarrow> S x = None \<Longrightarrow> S y = Some v \<Longrightarrow> fresh_for c m y \<Longrightarrow> leaves (take_over x c y) m (S(x \<mapsto> v, y \<mapsto> []))"
  using take_over_small take_over_big by (cases "length v \<le> buffer_size") auto

lemma cs_move_ok:
  assumes ok: "cs_ok m S" and x: "S x = None" and y: "S y = Some v"
  shows "leaves (cs_move x y) m (S(x \<mapsto> v, y \<mapsto> []))"
proof (rule cs_okE [OF ok y])
  fix d assume d: "cm_objects m y = Some d"
  then show ?thesis using take_over_ok [OF ok x y, of "\<lparr>cs_buffer = uninitialised, cs_length = cs_length d, cs_heap_ptr = None\<rparr>"]
    by (simp add: cs_move_def leaves_def fresh_for_def uninitialised_def)
qed

text \<open>The object that \<open>take_over\<close> writes is not read before.\<close>

lemma take_over_any:
  "x \<noteq> y \<Longrightarrow> cm_objects m y = Some d \<Longrightarrow>
    take_over x c y (m\<lparr>cm_objects := (cm_objects m)(x := z)\<rparr>) = take_over x c y m"
  by (simp add: take_over_def set_object_at_def c_then_def c_bind_def c_object_def)

lemma cs_move_assign_ok:
  assumes ok: "cs_ok m S" and x: "S x = Some w" and y: "S y = Some v"
  shows "leaves (cs_move_assign x y) m (if x = y then S else S(x \<mapsto> v, y \<mapsto> []))"
proof (rule cs_okE [OF ok x], rule cs_okE [OF ok y])
  fix c d assume c: "cm_objects m x = Some c" "shows_cells (cm_arrays m) c w" and d: "cm_objects m y = Some d"
  show ?thesis
  proof (cases "x = y")
    case True
    then show ?thesis using ok c by (simp add: cs_move_assign_def leaves_def)
  next
    case False
    obtain m1 where m1: "cs_destroy x m = (Inr (), m1)" "cs_ok m1 (S(x := None))"
      using cs_destroy_ok [OF ok x] by (auto simp: leaves_def)
    then obtain m0 where m0: "delete_array (cs_heap_ptr c) m = (Inr (), m0)" "m1 = m0\<lparr>cm_objects := (cm_objects m0)(x := None)\<rparr>"
      using c(1) by (cases "delete_array (cs_heap_ptr c) m"; cases "fst (delete_array (cs_heap_ptr c) m)")
        (auto simp: cs_destroy_def set_object_at_def)
    have objs: "cm_objects m0 = cm_objects m" using m0(1) by (auto simp: delete_array_def split: option.splits if_splits)
    let ?c = "c\<lparr>cs_heap_ptr := None, cs_length := cs_length d\<rparr>"
    have "fresh_for ?c m1 y" using d m0 objs False c(2) by (simp add: fresh_for_def shows_cells_def)
    then have "leaves (take_over x ?c y) m1 (S(x := None, x \<mapsto> v, y \<mapsto> []))"
      using y False by (intro take_over_ok [OF m1(2)]) auto
    moreover have "take_over x ?c y m1 = take_over x ?c y m0" unfolding m0(2) using take_over_any False d objs by metis
    moreover have "cs_move_assign x y m = take_over x ?c y m0"
      using c(1) False m0(1) d objs by (simp add: cs_move_assign_def)
    ultimately show ?thesis using False by (simp add: leaves_def)
  qed
qed

lemma cs_assign_ok:
  assumes ok: "cs_ok m S" and x: "S x = Some w" and y: "S y = Some v" and l: "S Local = None"
  shows "(if x = y then leaves (cs_assign x y) m else may_leave (length v) (cs_assign x y) m S) (S(x \<mapsto> v))"
proof (rule cs_okE [OF ok x])
  fix c assume c: "cm_objects m x = Some c"
  have xl: "x \<noteq> Local" using x l by auto
  show ?thesis
  proof (cases "x = y")
    case True
    then have "S(x \<mapsto> v) = S" using y by (auto simp: fun_eq_iff)
    then show ?thesis using ok c True by (simp add: cs_assign_def leaves_def)
  next
    case False
    have "may_leave (length v) (c_then (cs_copy Local y) (c_then (cs_move_assign x Local) (cs_destroy Local))) m S (S(x \<mapsto> v))"
    proof (rule may_leave_then [OF cs_copy_ok [OF ok l y]], rule leaves_then)
      fix m1 assume m1: "cs_ok m1 (S(Local \<mapsto> v))"
      show "leaves (cs_move_assign x Local) m1 (S(Local \<mapsto> v, x \<mapsto> v, Local \<mapsto> []))"
        using cs_move_assign_ok [OF m1, of x w Local v] x xl by simp
    next
      fix m2 assume m2: "cs_ok m2 (S(Local \<mapsto> v, x \<mapsto> v, Local \<mapsto> []))"
      have "(S(Local \<mapsto> v, x \<mapsto> v, Local \<mapsto> []))(Local := None) = S(x \<mapsto> v)" using l xl by auto
      then show "leaves (cs_destroy Local) m2 (S(x \<mapsto> v))" using cs_destroy_ok [OF m2, of Local "[]"] by simp
    qed
    then show ?thesis using c False by (simp add: cs_assign_def may_leave_def leaves_def)
  qed
qed

lemma return_local_ok:
  assumes ok: "cs_ok m (S(Local \<mapsto> v))" and z: "S z = None" "z \<noteq> Local" and l: "S Local = None"
  shows "leaves (return_local z) m (S(z \<mapsto> v))"
  unfolding return_local_def
proof (rule leaves_then)
  show "leaves (cs_move z Local) m (S(Local \<mapsto> v, z \<mapsto> v, Local \<mapsto> []))" using z by (intro cs_move_ok [OF ok]) auto
next
  fix m2 assume m2: "cs_ok m2 (S(Local \<mapsto> v, z \<mapsto> v, Local \<mapsto> []))"
  have "(S(Local \<mapsto> v, z \<mapsto> v, Local \<mapsto> []))(Local := None) = S(z \<mapsto> v)" using l z by auto
  then show "leaves (cs_destroy Local) m2 (S(z \<mapsto> v))" using cs_destroy_ok [OF m2, of Local "[]"] by simp
qed

text \<open>An allocation of the local object followed by two optional copies into it.\<close>

lemma copy_part:
  assumes ok: "cs_ok m (S(Local \<mapsto> w))" and x: "S x = Some v" "x \<noteq> Local" "start + n \<le> length v" and w: "pos + n \<le> length w"
    and n: "b \<longleftrightarrow> 0 < n"
  shows "leaves (if b then c_bind (cs_data x) (\<lambda>u. memcpy_to Local pos (drop start u) n) else c_return ()) m
    (S(Local \<mapsto> take pos w @ take n (drop start v) @ drop (pos + n) w))"
proof (cases b)
  case True
  then show ?thesis using x w by (auto intro!: copy_data [OF ok, where v = v])
qed (use ok n in \<open>simp add: leaves_return\<close>)

lemma cs_substr_ok:
  assumes ok: "cs_ok m S" and x: "S x = Some v" and z: "S z = None" "z \<noteq> Local" and l: "S Local = None"
  shows "if unat pos > length v \<or> unat cnt > length v - unat pos then cs_substr z x pos cnt m = (Inl (CS_Out_Of_Range ''substring''), m)
    else may_leave (unat cnt) (cs_substr z x pos cnt) m S (S(z \<mapsto> take (unat cnt) (drop (unat pos) v)))"
proof (rule cs_okE [OF ok x])
  fix c assume c: "cm_objects m x = Some c" "shows_cells (cm_arrays m) c v"
  have len: "unat (cs_length c) = length v" using c(2) by (simp add: shows_cells_def)
  have test: "pos > cs_length c \<or> cnt > cs_length c - pos \<longleftrightarrow> unat pos > length v \<or> unat cnt > length v - unat pos"
  proof (cases "unat pos \<le> length v")
    case True
    then have "unat (cs_length c - pos) = length v - unat pos" using len by (simp add: unat_sub word_le_nat_alt)
    then show ?thesis using True len by (simp add: word_less_nat_alt)
  qed (use len in \<open>simp add: word_less_nat_alt\<close>)
  show ?thesis
  proof (cases "unat pos > length v \<or> unat cnt > length v - unat pos")
    case True
    then show ?thesis using c(1) test by (simp add: cs_substr_def)
  next
    case False
    have range: "unat pos + unat cnt \<le> length v" using False by linarith
    have cnt: "0 < cnt \<longleftrightarrow> 0 < unat cnt" by (simp add: word_less_nat_alt)
    have xl: "x \<noteq> Local" using x l by auto
    let ?w = "replicate (unat cnt) None"
    let ?f = "if cnt > 0 then c_bind (cs_data x) (\<lambda>v. memcpy_to Local 0 (drop (unat pos) v) (unat cnt)) else c_return ()"
    have "may_leave (unat cnt) (c_then (cs_alloc Local cnt) (c_then ?f (return_local z))) m S (S(z \<mapsto> take (unat cnt) (drop (unat pos) v)))"
    proof (rule may_leave_then)
      show "may_leave (unat cnt) (cs_alloc Local cnt) m S (S(Local \<mapsto> ?w))"
        using cs_alloc_ok [OF ok l, of cnt] by (auto simp: may_leave_def leaves_def)
      fix m1 assume m1: "cs_ok m1 (S(Local \<mapsto> ?w))"
      show "leaves (c_then ?f (return_local z)) m1 (S(z \<mapsto> take (unat cnt) (drop (unat pos) v)))"
      proof (rule leaves_then)
        show "leaves ?f m1 (S(Local \<mapsto> take (unat cnt) (drop (unat pos) v)))"
          using copy_part [OF m1 x xl range, of 0 "0 < cnt"] cnt by (simp cong: if_cong)
        fix m2 assume m2: "cs_ok m2 (S(Local \<mapsto> take (unat cnt) (drop (unat pos) v)))"
        show "leaves (return_local z) m2 (S(z \<mapsto> take (unat cnt) (drop (unat pos) v)))" by (rule return_local_ok [OF m2 z l])
      qed
    qed
    then show ?thesis using c(1) False test by (simp add: cs_substr_def may_leave_def leaves_def)
  qed
qed


lemma length_sum:
  assumes ok: "cs_ok m S" and x: "S x = Some v" "cm_objects m x = Some c" and y: "S y = Some w" "cm_objects m y = Some d"
  shows "unat (cs_length c + cs_length d) = length v + length w"
proof -
  have c: "unat (cs_length c) = length v" "length v \<le> max buffer_size (cm_limit m)" using x by (auto elim!: cs_okE [OF ok] simp: shows_cells_def)
  have d: "unat (cs_length d) = length w" "length w \<le> max buffer_size (cm_limit m)" using y by (auto elim!: cs_okE [OF ok] simp: shows_cells_def)
  have "cm_limit m < 2 ^ 63" using ok by (simp add: cs_ok_def arrays_ok_def)
  then have "length v + length w < 2 ^ 64" using c(2) d(2) by (simp add: buffer_size_def)
  then show ?thesis using c(1) d(1) by (simp add: unat_word_ariths)
qed

lemma cs_concat_ok:
  assumes ok: "cs_ok m S" and x: "S x = Some v" and y: "S y = Some w" and z: "S z = None" "z \<noteq> Local" and l: "S Local = None"
  shows "may_leave (length v + length w) (cs_concat z x y) m S (S(z \<mapsto> v @ w))"
proof (rule cs_okE [OF ok x], rule cs_okE [OF ok y])
  fix c d assume c: "cm_objects m x = Some c" "shows_cells (cm_arrays m) c v" and d: "cm_objects m y = Some d" "shows_cells (cm_arrays m) d w"
  have len: "unat (cs_length c) = length v" "unat (cs_length d) = length w" using c(2) d(2) by (simp_all add: shows_cells_def)
  have sum: "unat (cs_length c + cs_length d) = length v + length w" by (rule length_sum [OF ok x c(1) y d(1)])
  have local: "x \<noteq> Local" "y \<noteq> Local" using x y l by auto
  let ?f = "if cs_length c > 0 then c_bind (cs_data x) (\<lambda>v. memcpy_to Local 0 v (unat (cs_length c))) else c_return ()"
  let ?g = "if cs_length d > 0 then c_bind (cs_data y) (\<lambda>w. memcpy_to Local (unat (cs_length c)) w (unat (cs_length d))) else c_return ()"
  have pos: "0 < cs_length c \<longleftrightarrow> 0 < length v" "0 < cs_length d \<longleftrightarrow> 0 < length w" using length_zero c(2) d(2) by auto
  have "may_leave (length v + length w) (c_then (cs_alloc Local (cs_length c + cs_length d)) (c_then ?f (c_then ?g (return_local z)))) m S (S(z \<mapsto> v @ w))"
  proof (rule may_leave_then)
    show "may_leave (length v + length w) (cs_alloc Local (cs_length c + cs_length d)) m S (S(Local \<mapsto> replicate (length v + length w) None))"
      using cs_alloc_ok [OF ok l, of "cs_length c + cs_length d"] sum by (auto simp: may_leave_def leaves_def)
    fix m1 assume m1: "cs_ok m1 (S(Local \<mapsto> replicate (length v + length w) None))"
    show "leaves (c_then ?f (c_then ?g (return_local z))) m1 (S(z \<mapsto> v @ w))"
    proof (rule leaves_then)
      show "leaves ?f m1 (S(Local \<mapsto> v @ replicate (length w) None))"
        using copy_part [OF m1 x local(1), of 0 "length v" 0 "0 < cs_length c"] pos(1) len by (simp cong: if_cong)
      fix m2 assume m2: "cs_ok m2 (S(Local \<mapsto> v @ replicate (length w) None))"
      show "leaves (c_then ?g (return_local z)) m2 (S(z \<mapsto> v @ w))"
      proof (rule leaves_then)
        show "leaves ?g m2 (S(Local \<mapsto> v @ w))"
          using copy_part [OF m2 y local(2), of 0 "length w" "length v" "0 < cs_length d"] pos(2) len by (simp cong: if_cong)
        fix m3 assume m3: "cs_ok m3 (S(Local \<mapsto> v @ w))"
        show "leaves (return_local z) m3 (S(z \<mapsto> v @ w))" by (rule return_local_ok [OF m3 z l])
      qed
    qed
  qed
  then show ?thesis using c(1) d(1) by (simp add: cs_concat_def may_leave_def leaves_def)
qed

section \<open>Comparison\<close>

definition byte_order :: "string \<Rightarrow> string \<Rightarrow> int" where
  "byte_order s t = (let a = map of_char s :: nat list; b = map of_char t :: nat list in if a < b then -1 else if b < a then 1 else 0)"

lemma byte_order_Cons: "byte_order (a # s) (b # t) =
    (if (of_char a :: nat) < of_char b then -1 else if (of_char b :: nat) < of_char a then 1 else byte_order s t)"
  by (auto simp: byte_order_def Let_def)

lemma memcmp_prefix:
  "n \<le> length s \<Longrightarrow> n \<le> length t \<Longrightarrow> take (length s) v = map Some s \<Longrightarrow> take (length t) w = map Some t \<Longrightarrow>
    memcmp v w n = Some (byte_order (take n s) (take n t))"
proof (induction n arbitrary: s t v w)
  case (Suc n)
  then obtain a s' b t' where st: "s = a # s'" "t = b # t'" by (auto simp: Suc_le_length_iff)
  then obtain v' w' where vw: "v = Some a # v'" "w = Some b # w'" using Suc.prems by (cases v; cases w) auto
  have ih: "memcmp v' w' n = Some (byte_order (take n s') (take n t'))" using Suc.prems st vw by (intro Suc.IH) auto
  show ?case
  proof (cases "a = b")
    case True
    then show ?thesis using ih st vw by (simp add: byte_order_def Let_def)
  next
    case False
    then have "(of_char a :: nat) \<noteq> of_char b" by simp
    then show ?thesis using st vw by (auto simp: byte_order_def Let_def)
  qed
qed (simp add: byte_order_def)

lemma byte_order_take:
  "(if byte_order (take n s) (take n t) \<noteq> 0 then byte_order (take n s) (take n t)
    else if length s < length t then -1 else if length s > length t then 1 else 0) = byte_order s t"
  if "n = min (length s) (length t)"
  using that
proof (induction s arbitrary: n t)
  case (Cons a s)
  show ?case
  proof (cases t)
    case (Cons b t')
    define k where "k = min (length s) (length t')"
    have "n = Suc k" using Cons.prems Cons by (simp add: k_def)
    then show ?thesis using Cons.IH [OF k_def] Cons by (simp add: byte_order_Cons split del: if_split cong: if_cong) auto
  qed (use Cons.prems in \<open>simp add: byte_order_def\<close>)
qed (simp add: byte_order_def Let_def, metis Nil_less_Cons list.exhaust list.simps(9))

lemma cs_compare_ok:
  assumes ok: "cs_ok m S" and x: "S x = Some (map Some s)" and y: "S y = Some (map Some t)"
  shows "cs_compare x y m = (Inr (byte_order s t), m)"
proof (rule cs_okE [OF ok x], rule cs_okE [OF ok y])
  fix c d assume c: "cm_objects m x = Some c" "shows_cells (cm_arrays m) c (map Some s)"
    and d: "cm_objects m y = Some d" "shows_cells (cm_arrays m) d (map Some t)"
  have len: "unat (cs_length c) = length s" "unat (cs_length d) = length t" using c(2) d(2) by (simp_all add: shows_cells_def)
  obtain v where v: "cs_data x m = (Inr v, m)" "take (length s) v = map Some s" using cs_data_ok [OF ok x] by auto
  obtain w where w: "cs_data y m = (Inr w, m)" "take (length t) w = map Some t" using cs_data_ok [OF ok y] by auto
  define k where k: "k = min (length s) (length t)"
  have n: "unat (min (cs_length c) (cs_length d)) = k"
    using len by (auto simp: k min_def word_le_nat_alt)
  have less: "cs_length c < cs_length d \<longleftrightarrow> length s < length t" "cs_length d < cs_length c \<longleftrightarrow> length t < length s"
    using len by (simp_all add: word_less_nat_alt)
  have "memcmp v w k = Some (byte_order (take k s) (take k t))"
    using v(2) w(2) k by (intro memcmp_prefix) auto
  then show ?thesis using c(1) d(1) v(1) w(1) n less byte_order_take [OF k]
    by (simp add: cs_compare_def Let_def split del: if_split cong: if_cong)
qed

end
