(* ===== verification/Compact_Programs.thy ===== *)
theory Compact_Programs
  imports Compact_String
begin

text \<open>
  Programs over \<open>CompactString\<close> variables, and their specification as programs over strings. What a program does next
  depends on the result or the exception of its last command.
\<close>

section \<open>Programs\<close>

datatype cs_command =
    CS_New nat "string option" size_t
  | CS_Copy nat nat
  | CS_Move nat nat
  | CS_Assign nat nat
  | CS_Move_Assign nat nat
  | CS_Size nat
  | CS_Compare nat nat
  | CS_Concat nat nat nat
  | CS_Substr nat nat size_t size_t
  | CS_Destroy nat

datatype cs_value = CS_Done | CS_Number nat | CS_Order int

definition cs_done :: "unit cs_member \<Rightarrow> cs_value cs_member" where
  "cs_done f = c_bind f (\<lambda>_. c_return CS_Done)"

text \<open>A variable is declared once; a second object in its place has no meaning.\<close>

definition declares :: "nat \<Rightarrow> unit cs_member \<Rightarrow> unit cs_member" where
  "declares i f m = (if cm_objects m (Var i) = None then f m else (Inl CS_Undefined, m))"

fun cs_run_command :: "cs_command \<Rightarrow> cs_value cs_member" where
  "cs_run_command (CS_New i src len) = cs_done (declares i (cs_from (Var i) src len))"
| "cs_run_command (CS_Copy i j) = cs_done (declares i (cs_copy (Var i) (Var j)))"
| "cs_run_command (CS_Move i j) = cs_done (declares i (cs_move (Var i) (Var j)))"
| "cs_run_command (CS_Assign i j) = cs_done (cs_assign (Var i) (Var j))"
| "cs_run_command (CS_Move_Assign i j) = cs_done (cs_move_assign (Var i) (Var j))"
| "cs_run_command (CS_Size i) = c_bind (cs_size (Var i)) (\<lambda>n. c_return (CS_Number (unat n)))"
| "cs_run_command (CS_Compare i j) = c_bind (cs_compare (Var i) (Var j)) (\<lambda>n. c_return (CS_Order n))"
| "cs_run_command (CS_Concat k i j) = cs_done (declares k (cs_concat (Var k) (Var i) (Var j)))"
| "cs_run_command (CS_Substr k i pos n) = cs_done (declares k (cs_substr (Var k) (Var i) pos n))"
| "cs_run_command (CS_Destroy i) = cs_done (cs_destroy (Var i))"

text \<open>A program looks at the result of a command, a value or an exception, before it goes on.\<close>

datatype cs_program = CS_Stop | CS_Do cs_command "cs_exn + cs_value \<Rightarrow> cs_program"

primrec cs_run :: "cs_program \<Rightarrow> cs_memory \<Rightarrow> (cs_exn + cs_value) list \<times> cs_memory" where
  "cs_run CS_Stop m = ([], m)"
| "cs_run (CS_Do c k) m = (case cs_run_command c m of (r, m) \<Rightarrow> (case cs_run (k r) m of (rs, m) \<Rightarrow> (r # rs, m)))"

text \<open>\<open>try\<close> and \<open>catch\<close> around one command, and a command whose result does not matter.\<close>

definition cs_try :: "cs_command \<Rightarrow> cs_program \<Rightarrow> cs_program \<Rightarrow> cs_program" where
  "cs_try c p q = CS_Do c (\<lambda>r. if isl r then q else p)"

definition cs_seq :: "cs_command \<Rightarrow> cs_program \<Rightarrow> cs_program" where
  "cs_seq c p = CS_Do c (\<lambda>_. p)"

definition empty_cs_memory :: "bool list \<Rightarrow> nat \<Rightarrow> cs_memory" where
  "empty_cs_memory plan limit =
     \<lparr>cm_objects = (\<lambda>_. None), cm_arrays = (\<lambda>_. None), cm_fresh = 0, cm_plan = plan, cm_limit = limit\<rparr>"

text \<open>
  The specification: variables hold strings. \<open>str_pre\<close> is what a command asks for: the variables it reads are
  there, the one it declares is not, and a constructor is given as many characters as it reads.
\<close>

type_synonym strings = "nat \<Rightarrow> string option"

fun str_pre :: "cs_command \<Rightarrow> strings \<Rightarrow> bool" where
  "str_pre (CS_New i src len) S \<longleftrightarrow> S i = None \<and> (\<forall>s. src = Some s \<longrightarrow> unat len \<le> length s)"
| "str_pre (CS_Copy i j) S \<longleftrightarrow> S i = None \<and> S j \<noteq> None"
| "str_pre (CS_Move i j) S \<longleftrightarrow> S i = None \<and> S j \<noteq> None"
| "str_pre (CS_Assign i j) S \<longleftrightarrow> S i \<noteq> None \<and> S j \<noteq> None"
| "str_pre (CS_Move_Assign i j) S \<longleftrightarrow> S i \<noteq> None \<and> S j \<noteq> None"
| "str_pre (CS_Size i) S \<longleftrightarrow> S i \<noteq> None"
| "str_pre (CS_Compare i j) S \<longleftrightarrow> S i \<noteq> None \<and> S j \<noteq> None"
| "str_pre (CS_Concat k i j) S \<longleftrightarrow> S k = None \<and> S i \<noteq> None \<and> S j \<noteq> None"
| "str_pre (CS_Substr k i pos n) S \<longleftrightarrow> S k = None \<and> S i \<noteq> None"
| "str_pre (CS_Destroy i) S \<longleftrightarrow> S i \<noteq> None"

fun str_do :: "cs_command \<Rightarrow> strings \<Rightarrow> (cs_exn + cs_value) \<times> strings" where
  "str_do (CS_New i src len) S =
     (if src = None \<and> len \<noteq> 0 then (Inl (CS_Invalid_Argument ''src is null''), S)
      else (Inr CS_Done, S(i \<mapsto> (if len = 0 then [] else take (unat len) (the src)))))"
| "str_do (CS_Copy i j) S = (Inr CS_Done, S(i := S j))"
| "str_do (CS_Move i j) S = (Inr CS_Done, S(i := S j, j \<mapsto> []))"
| "str_do (CS_Assign i j) S = (Inr CS_Done, S(i := S j))"
| "str_do (CS_Move_Assign i j) S = (Inr CS_Done, if i = j then S else S(i := S j, j \<mapsto> []))"
| "str_do (CS_Size i) S = (Inr (CS_Number (length (the (S i)))), S)"
| "str_do (CS_Compare i j) S = (Inr (CS_Order (byte_order (the (S i)) (the (S j)))), S)"
| "str_do (CS_Concat k i j) S = (Inr CS_Done, S(k \<mapsto> the (S i) @ the (S j)))"
| "str_do (CS_Substr k i pos n) S =
     (let s = the (S i) in
      if unat pos > length s \<or> unat n > length s - unat pos then (Inl (CS_Out_Of_Range ''substring''), S)
      else (Inr CS_Done, S(k \<mapsto> take (unat n) (drop (unat pos) s))))"
| "str_do (CS_Destroy i) S = (Inr CS_Done, S(i := None))"

text \<open>The number of characters that a command may need an array for.\<close>

fun str_needs :: "cs_command \<Rightarrow> strings \<Rightarrow> nat" where
  "str_needs (CS_New i src len) S = unat len"
| "str_needs (CS_Copy i j) S = length (the (S j))"
| "str_needs (CS_Assign i j) S = (if i = j then 0 else length (the (S j)))"
| "str_needs (CS_Concat k i j) S = length (the (S i)) + length (the (S j))"
| "str_needs (CS_Substr k i pos n) S = unat n"
| "str_needs _ S = 0"

definition throws_bad_alloc :: "cs_command \<Rightarrow> strings \<Rightarrow> bool" where
  "throws_bad_alloc c S \<longleftrightarrow> buffer_size < str_needs c S"

text \<open>The results of a program, and the strings it leaves. A \<open>bad_alloc\<close> changes nothing.\<close>

primrec str_trace :: "cs_program \<Rightarrow> strings \<Rightarrow> (cs_exn + cs_value) list \<Rightarrow> strings \<Rightarrow> bool" where
  "str_trace CS_Stop S rs S' \<longleftrightarrow> rs = [] \<and> S' = S"
| "str_trace (CS_Do c k) S rs S' \<longleftrightarrow> (case rs of [] \<Rightarrow> False | r # rs \<Rightarrow>
     r = Inl CS_Bad_Alloc \<and> throws_bad_alloc c S \<and> str_trace (k r) S rs S' \<or>
     r = fst (str_do c S) \<and> str_trace (k r) (snd (str_do c S)) rs S')"

text \<open>Every command that the program comes to has what it asks for, whether allocations before it failed or not.\<close>

primrec str_safe :: "cs_program \<Rightarrow> strings \<Rightarrow> bool" where
  "str_safe CS_Stop S \<longleftrightarrow> True"
| "str_safe (CS_Do c k) S \<longleftrightarrow> str_pre c S \<and> str_safe (k (fst (str_do c S))) (snd (str_do c S)) \<and>
     (throws_bad_alloc c S \<longrightarrow> str_safe (k (Inl CS_Bad_Alloc)) S)"

definition cells_at :: "strings \<Rightarrow> values_at" where
  "cells_at S x = (case x of Local \<Rightarrow> None | Var i \<Rightarrow> map_option (map Some) (S i))"

lemma cells_at_simps [simp]: "cells_at S Local = None" "cells_at S (Var i) = map_option (map Some) (S i)"
  by (simp_all add: cells_at_def)

lemma cells_at_update: "cells_at (S(i := s)) = (cells_at S)(Var i := map_option (map Some) s)"
  by (auto simp: fun_eq_iff cells_at_def split: cs_name.splits)

lemma assign_needs_copy: "cs_ok m S \<Longrightarrow> S x \<noteq> None \<Longrightarrow> cs_assign x x m = (Inr (), m)"
  by (auto simp: cs_assign_def elim!: cs_okE)

definition command_ok :: "cs_command \<Rightarrow> cs_memory \<Rightarrow> strings \<Rightarrow> bool" where
  "command_ok c m S \<longleftrightarrow> (\<exists>r m'. cs_run_command c m = (r, m') \<and>
     (r = Inl CS_Bad_Alloc \<and> throws_bad_alloc c S \<and> cs_ok m' (cells_at S) \<or> r = fst (str_do c S) \<and> cs_ok m' (cells_at (snd (str_do c S)))))"

lemma command_okI_leaves:
  "leaves f m (cells_at S') \<Longrightarrow> cs_run_command c = cs_done f \<Longrightarrow> str_do c S = (Inr CS_Done, S') \<Longrightarrow> command_ok c m S"
  by (auto simp: leaves_def command_ok_def cs_done_def)

lemma command_okI_may_leave:
  "may_leave n f m (cells_at S) (cells_at S') \<Longrightarrow> str_needs c S = n \<Longrightarrow> cs_run_command c = cs_done f \<Longrightarrow> str_do c S = (Inr CS_Done, S') \<Longrightarrow> command_ok c m S"
  by (auto simp: leaves_def may_leave_def command_ok_def cs_done_def throws_bad_alloc_def)

lemma declares_new: "cs_ok m (cells_at S) \<Longrightarrow> S i = None \<Longrightarrow> declares i f m = f m"
  using cs_ok_none [of m "cells_at S" "Var i"] by (simp add: declares_def)


lemma command_New:
  assumes ok: "cs_ok m (cells_at S)" and pre: "str_pre (CS_New i src len) S"
  shows "command_ok (CS_New i src len) m S"
proof (cases "src = None \<and> len \<noteq> 0")
  case True
  then have "cs_from (Var i) src len m = (Inl (CS_Invalid_Argument ''src is null''), m)"
    by (simp add: cs_from_def word_neq_0_conv)
  then show ?thesis using ok pre True by (auto simp: command_ok_def cs_done_def declares_new)
next
  case False
  define s where "s = (if len = 0 then [] else the src)"
  have "may_leave (unat len) (cs_from (Var i) src len) m (cells_at S) ((cells_at S)(Var i \<mapsto> map Some (take (unat len) s)))"
    using False pre by (intro cs_from_ok [OF ok]) (auto simp: s_def unat_eq_zero)
  moreover have "take (unat len) s = (if len = 0 then [] else take (unat len) (the src))" by (simp add: s_def)
  ultimately have "may_leave (unat len) (cs_from (Var i) src len) m (cells_at S) (cells_at (snd (str_do (CS_New i src len) S)))"
    using False by (auto simp: cells_at_update)
  then show ?thesis using pre False
    by (intro command_okI_may_leave [where f = "declares i (cs_from (Var i) src len)"]) (auto simp: may_leave_def leaves_def declares_new [OF ok])
qed

lemma command_Assign:
  assumes ok: "cs_ok m (cells_at S)" and pre: "str_pre (CS_Assign i j) S"
  shows "command_ok (CS_Assign i j) m S"
proof (cases "i = j")
  case True
  then have "leaves (cs_assign (Var i) (Var j)) m (cells_at (S(i := S j)))"
    using pre ok assign_needs_copy [OF ok, of "Var i"] by (auto simp: leaves_def)
  then show ?thesis by (rule command_okI_leaves) simp_all
next
  case False
  from pre obtain s t where st: "S i = Some s" "S j = Some t" by auto
  then have "may_leave (length t) (cs_assign (Var i) (Var j)) m (cells_at S) (cells_at (S(i := S j)))"
    unfolding cells_at_update using cs_assign_ok [OF ok, of "Var i" "map Some s" "Var j" "map Some t"] False by simp
  then show ?thesis using False st by (intro command_okI_may_leave) simp_all
qed

lemma command_Substr:
  assumes ok: "cs_ok m (cells_at S)" and pre: "str_pre (CS_Substr k i pos n) S"
  shows "command_ok (CS_Substr k i pos n) m S"
proof -
  from pre obtain s where s: "S i = Some s" "S k = None" by auto
  show ?thesis
  proof (cases "unat pos > length s \<or> unat n > length s - unat pos")
    case True
    then have "cs_substr (Var k) (Var i) pos n m = (Inl (CS_Out_Of_Range ''substring''), m)"
      using cs_substr_ok [OF ok, of "Var i" "map Some s" "Var k" pos n] s by simp
    then show ?thesis using ok s True by (auto simp: command_ok_def cs_done_def declares_new)
  next
    case False
    then have "may_leave (unat n) (cs_substr (Var k) (Var i) pos n) m (cells_at S) (cells_at (S(k \<mapsto> take (unat n) (drop (unat pos) s))))"
      unfolding cells_at_update using cs_substr_ok [OF ok, of "Var i" "map Some s" "Var k" pos n] s by (simp add: take_map drop_map)
    then show ?thesis using s False
      by (intro command_okI_may_leave [where f = "declares k (cs_substr (Var k) (Var i) pos n)"])
        (auto simp: may_leave_def leaves_def declares_new [OF ok])
  qed
qed

lemma command_moves:
  assumes ok: "cs_ok m (cells_at S)"
  shows "str_pre (CS_Copy i j) S \<Longrightarrow> command_ok (CS_Copy i j) m S"
    and "str_pre (CS_Move i j) S \<Longrightarrow> command_ok (CS_Move i j) m S"
    and "str_pre (CS_Move_Assign i j) S \<Longrightarrow> command_ok (CS_Move_Assign i j) m S"
    and "str_pre (CS_Destroy i) S \<Longrightarrow> command_ok (CS_Destroy i) m S"
proof -
  assume pre: "str_pre (CS_Copy i j) S"
  then have "may_leave (length (the (S j))) (declares i (cs_copy (Var i) (Var j))) m (cells_at S) (cells_at (S(i := S j)))"
    unfolding cells_at_update using cs_copy_ok [OF ok, of "Var i" "Var j"]
    by (auto simp: may_leave_def leaves_def declares_new [OF ok])
  then show "command_ok (CS_Copy i j) m S" by (rule command_okI_may_leave) simp_all
next
  assume pre: "str_pre (CS_Move i j) S"
  then have "leaves (declares i (cs_move (Var i) (Var j))) m (cells_at (S(i := S j, j \<mapsto> [])))"
    unfolding cells_at_update using cs_move_ok [OF ok, of "Var i" "Var j"]
    by (auto simp: leaves_def declares_new [OF ok])
  then show "command_ok (CS_Move i j) m S" by (rule command_okI_leaves) simp_all
next
  assume pre: "str_pre (CS_Move_Assign i j) S"
  then have "leaves (cs_move_assign (Var i) (Var j)) m (cells_at (if i = j then S else S(i := S j, j \<mapsto> [])))"
    using cs_move_assign_ok [OF ok, of "Var i" _ "Var j"] by (auto simp: cells_at_update)
  then show "command_ok (CS_Move_Assign i j) m S" by (rule command_okI_leaves) simp_all
next
  assume pre: "str_pre (CS_Destroy i) S"
  then have "leaves (cs_destroy (Var i)) m (cells_at (S(i := None)))"
    unfolding cells_at_update using cs_destroy_ok [OF ok, of "Var i"] by auto
  then show "command_ok (CS_Destroy i) m S" by (rule command_okI_leaves) simp_all
qed

lemma command_queries:
  assumes ok: "cs_ok m (cells_at S)"
  shows "str_pre (CS_Size i) S \<Longrightarrow> command_ok (CS_Size i) m S"
    and "str_pre (CS_Compare i j) S \<Longrightarrow> command_ok (CS_Compare i j) m S"
    and "str_pre (CS_Concat k i j) S \<Longrightarrow> command_ok (CS_Concat k i j) m S"
proof -
  assume "str_pre (CS_Size i) S"
  then obtain s where s: "S i = Some s" by auto
  obtain c where "cm_objects m (Var i) = Some c" "unat (cs_length c) = length s"
    using cs_okE [OF ok, of "Var i" "map Some s"] s by (auto simp: shows_cells_def)
  then show "command_ok (CS_Size i) m S" using ok s by (simp add: command_ok_def cs_size_def)
next
  assume "str_pre (CS_Compare i j) S"
  then obtain s t where "S i = Some s" "S j = Some t" by auto
  then show "command_ok (CS_Compare i j) m S"
    using cs_compare_ok [OF ok, of "Var i" s "Var j" t] ok by (simp add: command_ok_def)
next
  assume "str_pre (CS_Concat k i j) S"
  then obtain s t where st: "S k = None" "S i = Some s" "S j = Some t" by auto
  then have "may_leave (length s + length t) (declares k (cs_concat (Var k) (Var i) (Var j))) m (cells_at S) (cells_at (S(k \<mapsto> s @ t)))"
    unfolding cells_at_update using cs_concat_ok [OF ok, of "Var i" "map Some s" "Var j" "map Some t" "Var k"]
    by (auto simp: may_leave_def leaves_def declares_new [OF ok])
  then show "command_ok (CS_Concat k i j) m S" using st by (intro command_okI_may_leave) simp_all
qed

lemma cs_command_refines: "cs_ok m (cells_at S) \<Longrightarrow> str_pre c S \<Longrightarrow> command_ok c m S"
  by (cases c) (simp_all only: command_New command_Assign command_Substr command_moves command_queries)

lemma program_refines_strings:
  "cs_ok m (cells_at S) \<Longrightarrow> str_safe p S \<Longrightarrow> \<exists>rs m' S'. cs_run p m = (rs, m') \<and> str_trace p S rs S' \<and> cs_ok m' (cells_at S')"
proof (induction p arbitrary: m S)
  case (CS_Do c k)
  obtain r m1 where run: "cs_run_command c m = (r, m1)" and
    out: "r = Inl CS_Bad_Alloc \<and> throws_bad_alloc c S \<and> cs_ok m1 (cells_at S) \<or> r = fst (str_do c S) \<and> cs_ok m1 (cells_at (snd (str_do c S)))"
    using cs_command_refines [OF CS_Do.prems(1), of c] CS_Do.prems(2) by (auto simp: command_ok_def)
  have "\<exists>S1. cs_ok m1 (cells_at S1) \<and> str_safe (k r) S1 \<and>
      (r = Inl CS_Bad_Alloc \<and> throws_bad_alloc c S \<and> S1 = S \<or> r = fst (str_do c S) \<and> S1 = snd (str_do c S))"
    using out CS_Do.prems(2) by auto
  then obtain S1 where S1: "cs_ok m1 (cells_at S1)" "str_safe (k r) S1"
    "r = Inl CS_Bad_Alloc \<and> throws_bad_alloc c S \<and> S1 = S \<or> r = fst (str_do c S) \<and> S1 = snd (str_do c S)" by blast
  obtain rs m' S' where rest: "cs_run (k r) m1 = (rs, m')" "str_trace (k r) S1 rs S'" "cs_ok m' (cells_at S')"
    using CS_Do.IH [OF rangeI S1(1,2)] by blast
  have "str_trace (CS_Do c k) S (r # rs) S'" using rest(2) S1(3) by auto
  then show ?case using run rest(1,3) by (intro exI [of _ "r # rs"] exI [of _ m'] exI [of _ S']) simp
qed simp

lemma one_array_each:
  assumes ok: "cs_ok m (cells_at S)"
  shows "bij_betw (\<lambda>i. the (ptr m (Var i))) {i. \<exists>s. S i = Some s \<and> buffer_size < length s} (dom (cm_arrays m))"
proof -
  have arrays: "arrays_ok m" using ok by (simp add: cs_ok_def)
  have big: "\<exists>a. ptr m (Var i) = Some a \<and> cm_arrays m a \<noteq> None" if "S i = Some s" "buffer_size < length s" for i s
  proof -
    have "cells_at S (Var i) = Some (map Some s)" using that by simp
    then show ?thesis by (rule cs_okE [OF ok]) (use that in \<open>auto simp: shows_cells_def ptr_def\<close>)
  qed
  have owner: "\<exists>i s. S i = Some s \<and> buffer_size < length s \<and> ptr m (Var i) = Some a" if live: "cm_arrays m a \<noteq> None" for a
  proof -
    obtain x where x: "ptr m x = Some a" using live arrays unfolding arrays_ok_def by blast
    then obtain v where v: "cells_at S x = Some v" "buffer_size < length v" using ptr_array [OF ok] by blast
    then obtain i where i: "x = Var i" by (cases x) simp_all
    then obtain s where "S i = Some s" "v = map Some s" using v(1) by auto
    then show ?thesis using x v(2) i by (intro exI [of _ i] exI [of _ s]) simp
  qed
  have "inj_on (\<lambda>i. the (ptr m (Var i))) {i. \<exists>s. S i = Some s \<and> buffer_size < length s}"
  proof (rule inj_onI)
    fix i j assume "i \<in> {i. \<exists>s. S i = Some s \<and> buffer_size < length s}" "j \<in> {i. \<exists>s. S i = Some s \<and> buffer_size < length s}"
      and same: "the (ptr m (Var i)) = the (ptr m (Var j))"
    then obtain a b where "ptr m (Var i) = Some a" "ptr m (Var j) = Some b" using big by blast
    moreover from this same have "a = b" by simp
    ultimately show "i = j" using arrays unfolding arrays_ok_def by blast
  qed
  moreover have "(\<lambda>i. the (ptr m (Var i))) ` {i. \<exists>s. S i = Some s \<and> buffer_size < length s} = dom (cm_arrays m)"
  proof
    show "(\<lambda>i. the (ptr m (Var i))) ` {i. \<exists>s. S i = Some s \<and> buffer_size < length s} \<subseteq> dom (cm_arrays m)"
      using big by fastforce
    show "dom (cm_arrays m) \<subseteq> (\<lambda>i. the (ptr m (Var i))) ` {i. \<exists>s. S i = Some s \<and> buffer_size < length s}"
    proof
      fix a assume "a \<in> dom (cm_arrays m)"
      then obtain i s where "S i = Some s" "buffer_size < length s" "ptr m (Var i) = Some a" using owner [of a] by auto
      then show "a \<in> (\<lambda>i. the (ptr m (Var i))) ` {i. \<exists>s. S i = Some s \<and> buffer_size < length s}"
        by (intro image_eqI [of _ _ i]) auto
    qed
  qed
  ultimately show ?thesis by (simp add: bij_betw_def)
qed

text \<open>
  C10: programs over \<open>CompactString\<close> objects behave as programs over strings. A program may depend on the results and
  exceptions it sees. If the commands that it comes to have what they
  ask for, then for every plan of allocations that fail and every limit below \<open>2 ^ 63\<close> the results of a run are those
  of the specification, so that nothing is undefined: no access leaves the buffer or an array, no
  character is read that was not written, no array is deleted twice, self-assignment and moved-from
  objects included. An operation that throws leaves every string as it was, and the arrays of the memory are
  exactly one for every string longer than the buffer, so that nothing leaks.
\<close>
theorem compact_strings_refine:
  assumes "str_safe p (\<lambda>_. None)" and "limit < 2 ^ 63"
  shows "\<exists>rs m S. cs_run p (empty_cs_memory plan limit) = (rs, m) \<and> str_trace p (\<lambda>_. None) rs S \<and>
    bij_betw (\<lambda>i. the (ptr m (Var i))) {i. \<exists>s. S i = Some s \<and> buffer_size < length s} (dom (cm_arrays m))"
proof -
  have "cs_ok (empty_cs_memory plan limit) (cells_at (\<lambda>_. None))"
    using assms(2) by (auto simp: cs_ok_def object_ok_def arrays_ok_def empty_cs_memory_def ptr_def cells_at_def split: cs_name.splits)
  from program_refines_strings [OF this assms(1)] obtain rs m S where
    run: "cs_run p (empty_cs_memory plan limit) = (rs, m)" "str_trace p (\<lambda>_. None) rs S" and ok: "cs_ok m (cells_at S)" by blast
  show ?thesis using run one_array_each [OF ok] by blast
qed

text \<open>A string on the heap is copied, moved, concatenated, assigned to itself, compared and destroyed.\<close>

definition long_text :: string where
  "long_text = replicate 130 CHR ''a''"

definition heap_strings :: cs_program where
  "heap_strings =
     cs_try (CS_New 0 (Some long_text) 130)
       (cs_try (CS_Copy 1 0)
          (cs_seq (CS_Compare 0 1) (cs_seq (CS_Move 2 1) (cs_try (CS_Concat 3 2 0)
             (cs_seq (CS_Assign 3 3) (cs_seq (CS_Size 3) (cs_seq (CS_Destroy 3) (cs_seq (CS_Destroy 2) (cs_seq (CS_Destroy 1) (cs_seq (CS_Destroy 0) CS_Stop))))))
             (cs_seq (CS_Destroy 2) (cs_seq (CS_Destroy 1) (cs_seq (CS_Destroy 0) CS_Stop))))))
          (cs_seq (CS_Destroy 0) CS_Stop))
       CS_Stop"

lemma heap_strings_safe: "str_safe heap_strings (\<lambda>_. None)"
  by (simp add: heap_strings_def cs_try_def cs_seq_def long_text_def throws_bad_alloc_def)

lemma compact_strings_refine_witness:
  "\<exists>rs m S. cs_run heap_strings (empty_cs_memory [True, True, False] 1000) = (rs, m) \<and> str_trace heap_strings (\<lambda>_. None) rs S \<and>
    bij_betw (\<lambda>i. the (ptr m (Var i))) {i. \<exists>s. S i = Some s \<and> buffer_size < length s} (dom (cm_arrays m))"
  by (rule compact_strings_refine [OF heap_strings_safe]) simp

text \<open>Its results when no allocation fails, and when the one for the copy does.\<close>

lemma heap_strings_runs:
  "fst (cs_run heap_strings (empty_cs_memory [] 1000)) =
     [Inr CS_Done, Inr CS_Done, Inr (CS_Order 0), Inr CS_Done, Inr CS_Done, Inr CS_Done, Inr (CS_Number 260),
      Inr CS_Done, Inr CS_Done, Inr CS_Done, Inr CS_Done]"
  "fst (cs_run heap_strings (empty_cs_memory [True, False] 1000)) = [Inr CS_Done, Inl CS_Bad_Alloc, Inr CS_Done]"
  by code_simp+

end
