(* ===== verification/Fine_Grained_Queue.thy ===== *)
theory Fine_Grained_Queue
  imports Cpp_Prelude Linearizability
begin

text \<open>
  \<open>concurrency/single_thread_queue.cpp\<close>: \<open>threadsafe_queue\<close>, a linked queue with one mutex for its head and one for
  its tail. \<open>fq_exec\<close> is one step of a thread: a lock, an unlock or an
  access to a shared variable or node; the steps of any number of threads are interleaved in every way (\<open>fq_step\<close>).

  The code keeps the new tail in a \<open>const node*\<close>, which it then assigns to \<open>node* tail\<close>: that does not compile, and
  the model reads it without the \<open>const\<close>. \<open>empty\<close>, a \<open>void\<close> function that returns a value, is left out.
  The allocator gives out any address that is not in use and does not fail. Access to a deleted node or
  through a null pointer is \<open>Inl Undefined_Behaviour\<close>, as is the overwriting of a \<open>unique_ptr\<close> that still owns a node,
  which would delete nodes of the queue.
\<close>

section \<open>The class\<close>

record 'a fq_node =
  fq_data :: "'a option"
  fq_next :: "nat option"

record 'a threadsafe_queue =
  fq_head :: "nat option"
  fq_tail :: nat
  fq_head_mutex :: "nat option"
  fq_tail_mutex :: "nat option"
  fq_nodes :: "nat \<Rightarrow> 'a fq_node option"

abbreviation fqn :: "'a option \<Rightarrow> nat option \<Rightarrow> 'a fq_node" where
  "fqn d p \<equiv> \<lparr>fq_data = d, fq_next = p\<rparr>"

definition threadsafe_queue :: "nat \<Rightarrow> 'a threadsafe_queue" where
  "threadsafe_queue fresh = \<lparr>fq_head = Some fresh, fq_tail = fresh, fq_head_mutex = None, fq_tail_mutex = None,
     fq_nodes = [fresh \<mapsto> fqn None None]\<rparr>"

text \<open>The four ways to pop: with or without waiting, with the result as a \<open>shared_ptr\<close> or through a reference.\<close>

datatype fq_mode = Try | Try_Ref | Wait | Wait_Ref

definition by_ref :: "fq_mode \<Rightarrow> bool" where
  "by_ref m \<longleftrightarrow> m = Try_Ref \<or> m = Wait_Ref"

definition blocking :: "fq_mode \<Rightarrow> bool" where
  "blocking m \<longleftrightarrow> m = Wait \<or> m = Wait_Ref"

text \<open>Where a thread is, with its local variables.\<close>

datatype 'a fq_pc =
    FQ_Idle
  | FQ_Push 'a
  | FQ_Push_Lock 'a nat
  | FQ_Push_Data 'a nat
  | FQ_Push_Link 'a nat
  | FQ_Push_Tail 'a nat
  | FQ_Push_Unlock
  | FQ_Notify
  | FQ_Pop fq_mode
  | FQ_Get_Tail fq_mode
  | FQ_Read_Tail fq_mode
  | FQ_Unlock_Tail fq_mode nat
  | FQ_Test fq_mode nat
  | FQ_Block fq_mode
  | FQ_Sleep fq_mode
  | FQ_Value fq_mode
  | FQ_Take fq_mode "'a option"
  | FQ_Next fq_mode "'a option" nat
  | FQ_Unlock_Head fq_mode "(nat \<times> 'a option) option"
  | FQ_Result nat
  | FQ_Delete "nat option" "'a option"
  | FQ_Returned "'a option"

definition fq_access :: "nat option \<Rightarrow> 'a threadsafe_queue \<Rightarrow> ('a fq_node \<Rightarrow> 'b result) \<Rightarrow> 'b result" where
  "fq_access p s f = (case Option.bind p (fq_nodes s) of None \<Rightarrow> Inl Undefined_Behaviour | Some n \<Rightarrow> f n)"

definition fq_store :: "nat \<Rightarrow> 'a fq_node option \<Rightarrow> 'a threadsafe_queue \<Rightarrow> 'a threadsafe_queue" where
  "fq_store a n s = s\<lparr>fq_nodes := (fq_nodes s)(a := n)\<rparr>"

section \<open>The steps\<close>

text \<open>\<open>push\<close>; \<open>new\<close> gives \<open>fresh\<close>. \<open>None\<close> is a thread that waits for a mutex.\<close>

fun fq_push :: "nat \<Rightarrow> nat \<Rightarrow> 'a fq_pc \<Rightarrow> 'a threadsafe_queue \<Rightarrow> ('a fq_pc \<times> 'a threadsafe_queue) result option" where
  "fq_push i fresh (FQ_Push x) s = Some (Inr (FQ_Push_Lock x fresh, fq_store fresh (Some (fqn None None)) s))"
| "fq_push i fresh (FQ_Push_Lock x p) s =
     (if fq_tail_mutex s = None then Some (Inr (FQ_Push_Data x p, s\<lparr>fq_tail_mutex := Some i\<rparr>)) else None)"
| "fq_push i fresh (FQ_Push_Data x p) s = Some (fq_access (Some (fq_tail s)) s (\<lambda>n.
     Inr (FQ_Push_Link x p, fq_store (fq_tail s) (Some (n\<lparr>fq_data := Some x\<rparr>)) s)))"
| "fq_push i fresh (FQ_Push_Link x p) s = Some (fq_access (Some (fq_tail s)) s (\<lambda>n.
     if fq_next n = None then Inr (FQ_Push_Tail x p, fq_store (fq_tail s) (Some (n\<lparr>fq_next := Some p\<rparr>)) s)
     else Inl Undefined_Behaviour))"
| "fq_push i fresh (FQ_Push_Tail x p) s = Some (Inr (FQ_Push_Unlock, s\<lparr>fq_tail := p\<rparr>))"
| "fq_push i fresh FQ_Push_Unlock s = Some (Inr (FQ_Notify, s\<lparr>fq_tail_mutex := None\<rparr>))"
| "fq_push i fresh pc s = None"

text \<open>
  The pops: \<open>try_pop_head\<close> and \<open>wait_for_data\<close> lock the head and compare it with \<open>get_tail()\<close>;
  \<open>FQ_Block\<close> gives the lock back and sleeps in one step; \<open>FQ_Take\<close> and \<open>FQ_Next\<close> are \<open>pop_head\<close>; \<open>FQ_Delete\<close> is the
  destructor of \<open>old_head\<close> and of what it owns.
\<close>

fun fq_pop :: "nat \<Rightarrow> 'a fq_pc \<Rightarrow> 'a threadsafe_queue \<Rightarrow> ('a fq_pc \<times> 'a threadsafe_queue) result option" where
  "fq_pop i (FQ_Pop m) s =
     (if fq_head_mutex s = None then Some (Inr (FQ_Get_Tail m, s\<lparr>fq_head_mutex := Some i\<rparr>)) else None)"
| "fq_pop i (FQ_Get_Tail m) s =
     (if fq_tail_mutex s = None then Some (Inr (FQ_Read_Tail m, s\<lparr>fq_tail_mutex := Some i\<rparr>)) else None)"
| "fq_pop i (FQ_Read_Tail m) s = Some (Inr (FQ_Unlock_Tail m (fq_tail s), s))"
| "fq_pop i (FQ_Unlock_Tail m t) s = Some (Inr (FQ_Test m t, s\<lparr>fq_tail_mutex := None\<rparr>))"
| "fq_pop i (FQ_Test m t) s = Some (Inr
     (if fq_head s = Some t then (if blocking m then FQ_Block m else FQ_Unlock_Head m None)
      else if by_ref m then FQ_Value m else FQ_Take m None, s))"
| "fq_pop i (FQ_Block m) s = Some (Inr (FQ_Sleep m, s\<lparr>fq_head_mutex := None\<rparr>))"
| "fq_pop i (FQ_Value m) s = Some (fq_access (fq_head s) s (\<lambda>n.
     case fq_data n of None \<Rightarrow> Inl Undefined_Behaviour | Some x \<Rightarrow> Inr (FQ_Take m (Some x), s)))"
| "fq_pop i (FQ_Take m v) s = Some (case fq_head s of
     None \<Rightarrow> Inl Undefined_Behaviour
   | Some h \<Rightarrow> Inr (FQ_Next m v h, s\<lparr>fq_head := None\<rparr>))"
| "fq_pop i (FQ_Next m v h) s = Some (fq_access (Some h) s (\<lambda>n.
     if fq_head s = None then Inr (FQ_Unlock_Head m (Some (h, v)), fq_store h (Some (n\<lparr>fq_next := None\<rparr>)) (s\<lparr>fq_head := fq_next n\<rparr>))
     else Inl Undefined_Behaviour))"
| "fq_pop i (FQ_Unlock_Head m r) s = Some (Inr
     (case r of None \<Rightarrow> FQ_Returned None | Some (h, v) \<Rightarrow> if by_ref m then FQ_Delete (Some h) v else FQ_Result h,
      s\<lparr>fq_head_mutex := None\<rparr>))"
| "fq_pop i (FQ_Result h) s = Some (fq_access (Some h) s (\<lambda>n. Inr (FQ_Delete (Some h) (fq_data n), s)))"
| "fq_pop i (FQ_Delete (Some a) v) s = Some (fq_access (Some a) s (\<lambda>n. Inr (FQ_Delete (fq_next n) v, fq_store a None s)))"
| "fq_pop i (FQ_Delete None v) s = Some (Inr (FQ_Returned v, s))"
| "fq_pop i (FQ_Returned v) s = Some (Inr (FQ_Idle, s))"
| "fq_pop i pc s = None"

definition fq_exec :: "nat \<Rightarrow> nat \<Rightarrow> 'a fq_pc \<Rightarrow> 'a threadsafe_queue \<Rightarrow> ('a fq_pc \<times> 'a threadsafe_queue) result option" where
  "fq_exec i fresh pc s = (case fq_push i fresh pc s of None \<Rightarrow> fq_pop i pc s | Some r \<Rightarrow> Some r)"

section \<open>Threads\<close>

type_synonym 'a fq_config = "'a threadsafe_queue \<times> (nat \<Rightarrow> 'a fq_pc)"

text \<open>\<open>notify_one\<close> wakes one of the threads that sleep, if there is one; a thread that is woken tries to lock the head again.\<close>

inductive fq_step :: "'a fq_config \<Rightarrow> 'a fq_config \<Rightarrow> bool" where
  fq_call_push: "C i = FQ_Idle \<Longrightarrow> fq_step (s, C) (s, C(i := FQ_Push x))"
| fq_call_pop: "C i = FQ_Idle \<Longrightarrow> fq_step (s, C) (s, C(i := FQ_Pop m))"
| fq_run: "fq_nodes s fresh = None \<Longrightarrow> fq_exec i fresh (C i) s = Some (Inr (pc, s')) \<Longrightarrow> fq_step (s, C) (s', C(i := pc))"
| fq_notify: "C i = FQ_Notify \<Longrightarrow> C j = FQ_Sleep m \<Longrightarrow> fq_step (s, C) (s, C(i := FQ_Returned None, j := FQ_Pop m))"
| fq_notify_none: "C i = FQ_Notify \<Longrightarrow> (\<forall>j m. C j \<noteq> FQ_Sleep m) \<Longrightarrow> fq_step (s, C) (s, C(i := FQ_Returned None))"

text \<open>The states that are reached, with or without spurious wake-ups.\<close>

inductive fq_reach :: "bool \<Rightarrow> 'a fq_config \<Rightarrow> bool" for spurious where
  fq_init: "fq_reach spurious (threadsafe_queue a, \<lambda>_. FQ_Idle)"
| fq_more: "fq_reach spurious c \<Longrightarrow> fq_step c d \<Longrightarrow> fq_reach spurious d"
| fq_wake: "fq_reach spurious (s, C) \<Longrightarrow> spurious \<Longrightarrow> C j = FQ_Sleep m \<Longrightarrow> fq_reach spurious (s, C(j := FQ_Pop m))"

text \<open>The same with the history of the calls and returns: a thread that becomes idle returns what it holds.\<close>

definition fq_returns :: "nat \<Rightarrow> 'a fq_pc \<Rightarrow> 'a fq_pc \<Rightarrow> ('a container_op, 'a option) history_event list" where
  "fq_returns i pc pc' = (if pc' = FQ_Idle then [Return i (case pc of FQ_Returned v \<Rightarrow> v | _ \<Rightarrow> None)] else [])"

inductive fq_history :: "bool \<Rightarrow> ('a container_op, 'a option) history_event list \<Rightarrow> 'a fq_config \<Rightarrow> bool" for spurious where
  fq_history_init: "fq_history spurious [] (threadsafe_queue a, \<lambda>_. FQ_Idle)"
| fq_history_push: "fq_history spurious H (s, C) \<Longrightarrow> C i = FQ_Idle \<Longrightarrow> fq_history spurious (H @ [Call i (Put x)]) (s, C(i := FQ_Push x))"
| fq_history_pop: "fq_history spurious H (s, C) \<Longrightarrow> C i = FQ_Idle \<Longrightarrow>
    fq_history spurious (H @ [Call i (Get (blocking m))]) (s, C(i := FQ_Pop m))"
| fq_history_run: "fq_history spurious H (s, C) \<Longrightarrow> fq_nodes s fresh = None \<Longrightarrow> fq_exec i fresh (C i) s = Some (Inr (pc, s')) \<Longrightarrow>
    fq_history spurious (H @ fq_returns i (C i) pc) (s', C(i := pc))"
| fq_history_notify: "fq_history spurious H (s, C) \<Longrightarrow> C i = FQ_Notify \<Longrightarrow> C j = FQ_Sleep m \<Longrightarrow>
    fq_history spurious H (s, C(i := FQ_Returned None, j := FQ_Pop m))"
| fq_history_notify_none: "fq_history spurious H (s, C) \<Longrightarrow> C i = FQ_Notify \<Longrightarrow> (\<forall>j m. C j \<noteq> FQ_Sleep m) \<Longrightarrow>
    fq_history spurious H (s, C(i := FQ_Returned None))"
| fq_history_wake: "fq_history spurious H (s, C) \<Longrightarrow> spurious \<Longrightarrow> C j = FQ_Sleep m \<Longrightarrow> fq_history spurious H (s, C(j := FQ_Pop m))"

text \<open>The states that are reached are those of the histories.\<close>

lemma fq_history_reach: "fq_reach spurious c \<longleftrightarrow> (\<exists>H. fq_history spurious H c)"
proof
  show "\<exists>H. fq_history spurious H c" if "fq_reach spurious c"
    using that
  proof (induction rule: fq_reach.induct)
    case (fq_more c d)
    then obtain H where H: "fq_history spurious H c" by blast
    show ?case using fq_more(2) H
      by (cases rule: fq_step.cases)
        (blast intro: fq_history_push fq_history_pop fq_history_run fq_history_notify fq_history_notify_none)+
  qed (blast intro: fq_history_init fq_history_wake)+
  show "fq_reach spurious c" if some: "\<exists>H. fq_history spurious H c"
  proof -
    obtain H where "fq_history spurious H c" using some by blast
    then show ?thesis
      by induction (blast intro: fq_init fq_more fq_wake fq_call_push fq_call_pop fq_run fq_notify fq_notify_none)+
  qed
qed

end
