(* ===== verification/Fine_Grained_Steps.thy ===== *)
theory Fine_Grained_Steps
  imports Fine_Grained_Queue
begin

text \<open>
  Every step of \<open>threadsafe_queue\<close> keeps an invariant on the nodes, the locks and the threads, and the effect on a sequential
  queue that the phases of the threads tell, or none.
\<close>

section \<open>The invariant\<close>

text \<open>\<open>fq_links m a xs t\<close>: from \<open>a\<close> the links lead through the nodes \<open>xs\<close>, which hold the values, to \<open>t\<close>.\<close>

fun fq_links :: "(nat \<Rightarrow> 'a fq_node option) \<Rightarrow> nat \<Rightarrow> (nat \<times> 'a) list \<Rightarrow> nat \<Rightarrow> bool" where
  "fq_links m a [] t \<longleftrightarrow> a = t"
| "fq_links m a ((b, x) # xs) t \<longleftrightarrow> a = b \<and> (\<exists>c. m b = Some (fqn (Some x) (Some c)) \<and> fq_links m c xs t)"

fun in_head :: "'a fq_pc \<Rightarrow> bool" where
  "in_head (FQ_Get_Tail m) = True"
| "in_head (FQ_Read_Tail m) = True"
| "in_head (FQ_Unlock_Tail m t) = True"
| "in_head (FQ_Test m t) = True"
| "in_head (FQ_Block m) = True"
| "in_head (FQ_Value m) = True"
| "in_head (FQ_Take m v) = True"
| "in_head (FQ_Next m v h) = True"
| "in_head (FQ_Unlock_Head m r) = True"
| "in_head _ = False"

fun in_tail :: "'a fq_pc \<Rightarrow> bool" where
  "in_tail (FQ_Push_Data x p) = True"
| "in_tail (FQ_Push_Link x p) = True"
| "in_tail (FQ_Push_Tail x p) = True"
| "in_tail FQ_Push_Unlock = True"
| "in_tail (FQ_Read_Tail m) = True"
| "in_tail (FQ_Unlock_Tail m t) = True"
| "in_tail _ = False"

text \<open>The node that only this thread may use, and what it holds.\<close>

fun own_node :: "'a fq_pc \<Rightarrow> nat option" where
  "own_node (FQ_Push_Lock x p) = Some p"
| "own_node (FQ_Push_Data x p) = Some p"
| "own_node (FQ_Push_Link x p) = Some p"
| "own_node (FQ_Push_Tail x p) = Some p"
| "own_node (FQ_Unlock_Head m r) = map_option fst r"
| "own_node (FQ_Result h) = Some h"
| "own_node (FQ_Delete p v) = p"
| "own_node _ = None"

fun own_good :: "'a fq_pc \<Rightarrow> 'a fq_node \<Rightarrow> bool" where
  "own_good (FQ_Unlock_Head m r) n \<longleftrightarrow> (\<exists>h v x. r = Some (h, v) \<and> n = fqn (Some x) None \<and> (by_ref m \<longrightarrow> v = Some x))"
| "own_good (FQ_Result h) n \<longleftrightarrow> (\<exists>x. n = fqn (Some x) None)"
| "own_good (FQ_Delete p v) n \<longleftrightarrow> (\<exists>x. n = fqn (Some x) None \<and> v = Some x)"
| "own_good _ n \<longleftrightarrow> n = fqn None None"

text \<open>What the holder of the head mutex knows, with the first node \<open>h0\<close> and the nodes \<open>xs\<close> with values.\<close>

fun head_good :: "nat \<Rightarrow> (nat \<times> 'a) list \<Rightarrow> 'a fq_pc \<Rightarrow> bool" where
  "head_good h0 xs (FQ_Unlock_Tail m t) \<longleftrightarrow> t \<noteq> h0 \<longrightarrow> xs \<noteq> []"
| "head_good h0 xs (FQ_Test m t) \<longleftrightarrow> t \<noteq> h0 \<longrightarrow> xs \<noteq> []"
| "head_good h0 xs (FQ_Value m) \<longleftrightarrow> xs \<noteq> [] \<and> by_ref m"
| "head_good h0 xs (FQ_Take m v) \<longleftrightarrow> xs \<noteq> [] \<and> (by_ref m \<longrightarrow> v = Some (snd (hd xs)))"
| "head_good h0 xs (FQ_Next m v h) \<longleftrightarrow> h = h0 \<and> xs \<noteq> [] \<and> (by_ref m \<longrightarrow> v = Some (snd (hd xs)))"
| "head_good h0 xs (FQ_Block m) \<longleftrightarrow> blocking m"
| "head_good h0 xs (FQ_Unlock_Head m r) \<longleftrightarrow> r = None \<longrightarrow> \<not> blocking m"
| "head_good h0 xs _ \<longleftrightarrow> True"

fun tail_node :: "'a fq_pc \<Rightarrow> 'a fq_node" where
  "tail_node (FQ_Push_Link x p) = fqn (Some x) None"
| "tail_node (FQ_Push_Tail x p) = fqn (Some x) (Some p)"
| "tail_node _ = fqn None None"

definition head_owner :: "'a threadsafe_queue \<Rightarrow> (nat \<Rightarrow> 'a fq_pc) \<Rightarrow> 'a fq_pc" where
  "head_owner s C = (case fq_head_mutex s of None \<Rightarrow> FQ_Idle | Some i \<Rightarrow> C i)"

definition tail_owner :: "'a threadsafe_queue \<Rightarrow> (nat \<Rightarrow> 'a fq_pc) \<Rightarrow> 'a fq_pc" where
  "tail_owner s C = (case fq_tail_mutex s of None \<Rightarrow> FQ_Idle | Some i \<Rightarrow> C i)"

definition head_value :: "nat \<Rightarrow> 'a fq_pc \<Rightarrow> nat option" where
  "head_value h0 pc = (case pc of FQ_Next m v h \<Rightarrow> None | _ \<Rightarrow> Some h0)"

definition fq_inv :: "'a threadsafe_queue \<Rightarrow> (nat \<Rightarrow> 'a fq_pc) \<Rightarrow> nat \<Rightarrow> (nat \<times> 'a) list \<Rightarrow> bool" where
  "fq_inv s C h0 xs \<longleftrightarrow>
     (\<forall>i. in_head (C i) \<longleftrightarrow> fq_head_mutex s = Some i) \<and> (\<forall>i. in_tail (C i) \<longleftrightarrow> fq_tail_mutex s = Some i) \<and>
     fq_links (fq_nodes s) h0 xs (fq_tail s) \<and> distinct (fq_tail s # map fst xs) \<and>
     fq_nodes s (fq_tail s) = Some (tail_node (tail_owner s C)) \<and>
     fq_head s = head_value h0 (head_owner s C) \<and> head_good h0 xs (head_owner s C) \<and>
     (\<forall>i a. own_node (C i) = Some a \<longrightarrow> (\<exists>n. fq_nodes s a = Some n \<and> own_good (C i) n) \<and> a \<notin> set (fq_tail s # map fst xs) \<and>
        (\<forall>j. own_node (C j) = Some a \<longrightarrow> j = i)) \<and>
     (\<forall>a. fq_nodes s a \<noteq> None \<longrightarrow> a \<in> set (fq_tail s # map fst xs) \<or> (\<exists>i. own_node (C i) = Some a))"


section \<open>Steps keep the invariant\<close>

lemma fq_invD:
  assumes "fq_inv s C h0 xs"
  shows "in_head (C i) \<longleftrightarrow> fq_head_mutex s = Some i" "in_tail (C i) \<longleftrightarrow> fq_tail_mutex s = Some i"
    "fq_links (fq_nodes s) h0 xs (fq_tail s)" "distinct (fq_tail s # map fst xs)"
    "fq_nodes s (fq_tail s) = Some (tail_node (tail_owner s C))"
    "fq_head s = head_value h0 (head_owner s C)" "head_good h0 xs (head_owner s C)"
    "own_node (C i) = Some a \<Longrightarrow> \<exists>n. fq_nodes s a = Some n \<and> own_good (C i) n"
    "own_node (C i) = Some a \<Longrightarrow> a \<notin> set (fq_tail s # map fst xs)"
    "own_node (C i) = Some a \<Longrightarrow> own_node (C j) = Some a \<Longrightarrow> j = i"
    "fq_nodes s a \<noteq> None \<Longrightarrow> a \<in> set (fq_tail s # map fst xs) \<or> (\<exists>i. own_node (C i) = Some a)"
  using assms unfolding fq_inv_def by blast+

text \<open>A step of thread \<open>i\<close> to \<open>pc\<close> takes and gives back only the locks that \<open>pc\<close> says.\<close>

definition mutex_step :: "'a threadsafe_queue \<Rightarrow> 'a fq_pc \<Rightarrow> nat \<Rightarrow> 'a fq_pc \<Rightarrow> 'a threadsafe_queue \<Rightarrow> bool" where
  "mutex_step s old i pc s' \<longleftrightarrow>
     fq_head_mutex s' = (if in_head pc then Some i else if in_head old then None else fq_head_mutex s) \<and>
     (in_head pc \<longrightarrow> in_head old \<or> fq_head_mutex s = None) \<and>
     fq_tail_mutex s' = (if in_tail pc then Some i else if in_tail old then None else fq_tail_mutex s) \<and>
     (in_tail pc \<longrightarrow> in_tail old \<or> fq_tail_mutex s = None)"

definition new_head_owner :: "'a threadsafe_queue \<Rightarrow> (nat \<Rightarrow> 'a fq_pc) \<Rightarrow> nat \<Rightarrow> 'a fq_pc \<Rightarrow> 'a fq_pc" where
  "new_head_owner s C i pc = (if in_head pc then pc else if in_head (C i) then FQ_Idle else head_owner s C)"

definition new_tail_owner :: "'a threadsafe_queue \<Rightarrow> (nat \<Rightarrow> 'a fq_pc) \<Rightarrow> nat \<Rightarrow> 'a fq_pc \<Rightarrow> 'a fq_pc" where
  "new_tail_owner s C i pc = (if in_tail pc then pc else if in_tail (C i) then FQ_Idle else tail_owner s C)"

lemma owners_step:
  assumes inv: "fq_inv s C h0 xs" and m: "mutex_step s (C i) i pc s'"
  shows "head_owner s' (C(i := pc)) = new_head_owner s C i pc" "tail_owner s' (C(i := pc)) = new_tail_owner s C i pc"
    "in_head ((C(i := pc)) j) \<longleftrightarrow> fq_head_mutex s' = Some j" "in_tail ((C(i := pc)) j) \<longleftrightarrow> fq_tail_mutex s' = Some j"
proof -
  have h: "\<And>j. in_head (C j) \<longleftrightarrow> fq_head_mutex s = Some j" and t: "\<And>j. in_tail (C j) \<longleftrightarrow> fq_tail_mutex s = Some j"
    using fq_invD(1,2) [OF inv] by blast+
  show "head_owner s' (C(i := pc)) = new_head_owner s C i pc"
    using m h [of i] by (auto simp: head_owner_def new_head_owner_def mutex_step_def split: option.splits)
  show "tail_owner s' (C(i := pc)) = new_tail_owner s C i pc"
    using m t [of i] by (auto simp: tail_owner_def new_tail_owner_def mutex_step_def split: option.splits)
  show "in_head ((C(i := pc)) j) \<longleftrightarrow> fq_head_mutex s' = Some j"
    using m h [of i] h [of j] by (auto simp: mutex_step_def)
  show "in_tail ((C(i := pc)) j) \<longleftrightarrow> fq_tail_mutex s' = Some j"
    using m t [of i] t [of j] by (auto simp: mutex_step_def)
qed

lemma inv_step:
  assumes inv: "fq_inv s C h0 xs" and m: "mutex_step s (C i) i pc s'"
    and links: "fq_links (fq_nodes s') h0' xs' (fq_tail s')" "distinct (fq_tail s' # map fst xs')"
    and tail: "fq_nodes s' (fq_tail s') = Some (tail_node (new_tail_owner s C i pc))"
    and head: "fq_head s' = head_value h0' (new_head_owner s C i pc)" "head_good h0' xs' (new_head_owner s C i pc)"
    and own: "\<And>a. own_node pc = Some a \<Longrightarrow> (\<exists>n. fq_nodes s' a = Some n \<and> own_good pc n) \<and> a \<notin> set (fq_tail s' # map fst xs') \<and>
      (\<forall>j. j \<noteq> i \<longrightarrow> own_node (C j) \<noteq> Some a)"
    and other: "\<And>j a. j \<noteq> i \<Longrightarrow> own_node (C j) = Some a \<Longrightarrow> fq_nodes s' a = fq_nodes s a \<and> a \<notin> set (fq_tail s' # map fst xs')"
    and leak: "\<And>a. fq_nodes s' a \<noteq> None \<Longrightarrow> a \<in> set (fq_tail s' # map fst xs') \<or> own_node pc = Some a \<or> (\<exists>j. j \<noteq> i \<and> own_node (C j) = Some a)"
  shows "fq_inv s' (C(i := pc)) h0' xs'"
  unfolding fq_inv_def owners_step [OF inv m]
proof (intro conjI allI impI links tail head)
  fix j a assume j: "own_node ((C(i := pc)) j) = Some a"
  have good: "(\<exists>n. fq_nodes s' a = Some n \<and> own_good ((C(i := pc)) j) n) \<and> a \<notin> set (fq_tail s' # map fst xs')"
  proof (cases "j = i")
    case True
    then show ?thesis using own [of a] j by simp
  next
    case False
    then show ?thesis using other [of j a] fq_invD(8) [OF inv, of j a] j by auto
  qed
  then show "\<exists>n. fq_nodes s' a = Some n \<and> own_good ((C(i := pc)) j) n" "a \<notin> set (fq_tail s' # map fst xs')" by blast+
  fix k assume "own_node ((C(i := pc)) k) = Some a"
  then show "k = j" using j own [of a] fq_invD(10) [OF inv, of j a k] by (auto split: if_splits)
next
  fix a assume "fq_nodes s' a \<noteq> None"
  then show "a \<in> set (fq_tail s' # map fst xs') \<or> (\<exists>k. own_node ((C(i := pc)) k) = Some a)"
    using leak [of a] by auto
qed (use owners_step [OF inv m] in auto)

text \<open>A step that changes no node.\<close>

lemma inv_local:
  assumes inv: "fq_inv s C h0 xs" and m: "mutex_step s (C i) i pc s'"
    and same: "fq_nodes s' = fq_nodes s" "fq_tail s' = fq_tail s"
    and tail: "tail_node (new_tail_owner s C i pc) = tail_node (tail_owner s C)"
    and head: "fq_head s' = head_value h0 (new_head_owner s C i pc)" "head_good h0 xs (new_head_owner s C i pc)"
    and own: "own_node pc = own_node (C i)" "\<And>n a. own_node pc = Some a \<Longrightarrow> fq_nodes s a = Some n \<Longrightarrow> own_good (C i) n \<Longrightarrow> own_good pc n"
  shows "fq_inv s' (C(i := pc)) h0 xs"
proof (rule inv_step [OF inv m _ _ _ head])
  show "fq_links (fq_nodes s') h0 xs (fq_tail s')" "distinct (fq_tail s' # map fst xs)"
    "fq_nodes s' (fq_tail s') = Some (tail_node (new_tail_owner s C i pc))"
    using fq_invD(3-5) [OF inv] same tail by simp_all
next
  fix a assume a: "own_node pc = Some a"
  then show "(\<exists>n. fq_nodes s' a = Some n \<and> own_good pc n) \<and> a \<notin> set (fq_tail s' # map fst xs) \<and> (\<forall>j. j \<noteq> i \<longrightarrow> own_node (C j) \<noteq> Some a)"
  proof -
    have i: "own_node (C i) = Some a" using a own(1) by simp
    then obtain n where "fq_nodes s a = Some n" "own_good (C i) n" using fq_invD(8) [OF inv] by blast
    then have "\<exists>n. fq_nodes s' a = Some n \<and> own_good pc n" using own(2) [OF a] same(1) by simp
    moreover have "a \<notin> set (fq_tail s' # map fst xs)" using fq_invD(9) [OF inv i] same(2) by simp
    moreover have "\<forall>j. j \<noteq> i \<longrightarrow> own_node (C j) \<noteq> Some a" using fq_invD(10) [OF inv i] by blast
    ultimately show ?thesis by blast
  qed
next
  fix j a assume "j \<noteq> i" "own_node (C j) = Some a"
  then show "fq_nodes s' a = fq_nodes s a \<and> a \<notin> set (fq_tail s' # map fst xs)" using fq_invD(9) [OF inv] same by simp
next
  fix a assume "fq_nodes s' a \<noteq> None"
  then show "a \<in> set (fq_tail s' # map fst xs) \<or> own_node pc = Some a \<or> (\<exists>j. j \<noteq> i \<and> own_node (C j) = Some a)"
  proof (cases "a \<in> set (fq_tail s' # map fst xs)")
    case False
    then obtain k where "own_node (C k) = Some a" using fq_invD(11) [OF inv, of a] \<open>fq_nodes s' a \<noteq> None\<close> same by auto
    then show ?thesis using own(1) by (cases "k = i") auto
  qed blast
qed


section \<open>The abstraction\<close>

fun abs_fq :: "'a threadsafe_queue \<Rightarrow> 'a fq_pc \<Rightarrow> ('a container_op, 'a option) phase" where
  "abs_fq s FQ_Idle = Idle"
| "abs_fq s (FQ_Push x) = Called (Put x)"
| "abs_fq s (FQ_Push_Lock x p) = Called (Put x)"
| "abs_fq s (FQ_Push_Data x p) = Called (Put x)"
| "abs_fq s (FQ_Push_Link x p) = Called (Put x)"
| "abs_fq s (FQ_Push_Tail x p) = Called (Put x)"
| "abs_fq s FQ_Push_Unlock = Done None"
| "abs_fq s FQ_Notify = Done None"
| "abs_fq s (FQ_Unlock_Tail m t) = (if \<not> blocking m \<and> fq_head s = Some t then Done None else Called (Get (blocking m)))"
| "abs_fq s (FQ_Test m t) = (if \<not> blocking m \<and> fq_head s = Some t then Done None else Called (Get (blocking m)))"
| "abs_fq s (FQ_Unlock_Head m r) = Done
     (case r of None \<Rightarrow> None | Some (h, v) \<Rightarrow> if by_ref m then v else Option.bind (fq_nodes s h) fq_data)"
| "abs_fq s (FQ_Result h) = Done (Option.bind (fq_nodes s h) fq_data)"
| "abs_fq s (FQ_Delete p v) = Done v"
| "abs_fq s (FQ_Returned v) = Done v"
| "abs_fq s (FQ_Pop m) = Called (Get (blocking m))"
| "abs_fq s (FQ_Get_Tail m) = Called (Get (blocking m))"
| "abs_fq s (FQ_Read_Tail m) = Called (Get (blocking m))"
| "abs_fq s (FQ_Block m) = Called (Get (blocking m))"
| "abs_fq s (FQ_Sleep m) = Called (Get (blocking m))"
| "abs_fq s (FQ_Value m) = Called (Get (blocking m))"
| "abs_fq s (FQ_Take m v) = Called (Get (blocking m))"
| "abs_fq s (FQ_Next m v h) = Called (Get (blocking m))"

lemma abs_fq_same:
  assumes "in_head pc \<Longrightarrow> fq_head s' = fq_head s" "\<And>a. own_node pc = Some a \<Longrightarrow> fq_nodes s' a = fq_nodes s a"
  shows "abs_fq s' pc = abs_fq s pc"
  using assms by (cases pc) (auto split: option.splits)

text \<open>Thread \<open>i\<close> does at most one thing to the atomic queue; nothing changes for the others.\<close>

definition fq_refines :: "nat \<Rightarrow> 'a threadsafe_queue \<Rightarrow> (nat \<Rightarrow> 'a fq_pc) \<Rightarrow> (nat \<times> 'a) list \<Rightarrow> 'a threadsafe_queue \<Rightarrow> (nat \<Rightarrow> 'a fq_pc) \<Rightarrow> (nat \<times> 'a) list \<Rightarrow> bool" where
  "fq_refines i s C xs s' C' xs' \<longleftrightarrow> (\<forall>j. j \<noteq> i \<longrightarrow> abs_fq s' (C' j) = abs_fq s (C j)) \<and>
     (map snd xs' = map snd xs \<and> abs_fq s' (C' i) = abs_fq s (C i) \<or>
      object_do queue_object (map snd xs) (abs_fq s (C i)) (map snd xs') (abs_fq s' (C' i)))"

definition exec_ok :: "'a threadsafe_queue \<Rightarrow> (nat \<Rightarrow> 'a fq_pc) \<Rightarrow> nat \<Rightarrow> (nat \<times> 'a) list \<Rightarrow> ('a fq_pc \<times> 'a threadsafe_queue) result \<Rightarrow> bool" where
  "exec_ok s C i xs r \<longleftrightarrow> (\<exists>pc s' h0' xs'. r = Inr (pc, s') \<and> fq_inv s' (C(i := pc)) h0' xs' \<and> fq_refines i s C xs s' (C(i := pc)) xs')"

lemma exec_okI:
  assumes "r = Inr (pc, s')" "fq_inv s' (C(i := pc)) h0' xs'"
    and other: "\<And>j. j \<noteq> i \<Longrightarrow> abs_fq s' (C j) = abs_fq s (C j)"
    and step: "map snd xs' = map snd xs \<and> abs_fq s' pc = abs_fq s (C i) \<or> object_do queue_object (map snd xs) (abs_fq s (C i)) (map snd xs') (abs_fq s' pc)"
  shows "exec_ok s C i xs r"
proof -
  have "fq_refines i s C xs s' (C(i := pc)) xs'" using other step by (auto simp: fq_refines_def)
  then show ?thesis using assms(1,2) unfolding exec_ok_def by blast
qed

lemma exec_mutex:
  assumes "fq_exec i fresh pc s = Some (Inr (pc', s'))" "in_head pc \<longleftrightarrow> fq_head_mutex s = Some i" "in_tail pc \<longleftrightarrow> fq_tail_mutex s = Some i"
  shows "mutex_step s pc i pc' s'"
proof (cases pc)
  case (FQ_Delete p v)
  then show ?thesis using assms
    by (cases p) (auto simp: fq_exec_def mutex_step_def fq_access_def fq_store_def split: option.splits)
qed (use assms in \<open>auto simp: fq_exec_def mutex_step_def fq_access_def fq_store_def split: option.splits if_splits\<close>)

lemma owner_here:
  assumes "fq_inv s C h0 xs"
  shows "in_head (C i) \<Longrightarrow> head_owner s C = C i" "in_tail (C i) \<Longrightarrow> tail_owner s C = C i"
    "fq_head_mutex s = None \<Longrightarrow> head_owner s C = FQ_Idle" "fq_tail_mutex s = None \<Longrightarrow> tail_owner s C = FQ_Idle"
  using fq_invD(1,2) [OF assms, of i] by (simp_all add: head_owner_def tail_owner_def)

text \<open>A step that changes no node and has no effect on the atomic queue.\<close>

lemma local_ok:
  assumes inv: "fq_inv s C h0 xs" and e: "fq_exec i fresh (C i) s = Some (Inr (pc, s'))"
    and same: "fq_nodes s' = fq_nodes s" "fq_tail s' = fq_tail s"
    and tail: "in_tail pc \<or> in_tail (C i) \<Longrightarrow> tail_node pc = fqn None None \<and> tail_node (C i) = fqn None None"
    and head: "fq_head s' = (if in_head pc then head_value h0 pc else fq_head s)" "in_head pc \<Longrightarrow> head_good h0 xs pc"
      "in_head (C i) \<Longrightarrow> \<not> in_head pc \<Longrightarrow> fq_head s = Some h0" "fq_head s' = fq_head s \<or> in_head (C i)"
    and own: "own_node pc = own_node (C i)" "\<And>n a. own_node pc = Some a \<Longrightarrow> fq_nodes s a = Some n \<Longrightarrow> own_good (C i) n \<Longrightarrow> own_good pc n"
    and abs: "abs_fq s' pc = abs_fq s (C i) \<or> object_do queue_object (map snd xs) (abs_fq s (C i)) (map snd xs) (abs_fq s' pc)"
  shows "exec_ok s C i xs (Inr (pc, s'))"
proof (rule exec_okI [OF refl])
  have m: "mutex_step s (C i) i pc s'" using exec_mutex [OF e] fq_invD(1,2) [OF inv] by blast
  have "tail_node (new_tail_owner s C i pc) = tail_node (tail_owner s C)"
  proof (cases "in_tail pc \<or> in_tail (C i)")
    case True
    have "tail_owner s C = (if in_tail (C i) then C i else FQ_Idle)"
      using True m owner_here(2,4) [OF inv] by (auto simp: mutex_step_def)
    then show ?thesis using True tail by (auto simp: new_tail_owner_def)
  qed (simp add: new_tail_owner_def)
  moreover have "fq_head s' = head_value h0 (new_head_owner s C i pc)"
    using head fq_invD(6) [OF inv] by (auto simp: new_head_owner_def head_value_def)
  moreover have "head_good h0 xs (new_head_owner s C i pc)"
    using head(2) fq_invD(7) [OF inv] by (auto simp: new_head_owner_def)
  ultimately show "fq_inv s' (C(i := pc)) h0 xs" using inv_local [OF inv m same] own by blast
  fix j assume j: "j \<noteq> i"
  have "fq_head s' = fq_head s" if "in_head (C j)"
    using head(4) fq_invD(1) [OF inv] that j by (metis option.inject)
  then show "abs_fq s' (C j) = abs_fq s (C j)" using same by (intro abs_fq_same) auto
qed (use abs in blast)


section \<open>The steps, one by one\<close>

lemma head_here:
  assumes "fq_inv s C h0 xs" "in_head (C i)"
  shows "fq_head s = head_value h0 (C i)" "head_good h0 xs (C i)"
  using fq_invD(6,7) [OF assms(1)] owner_here(1) [OF assms] by simp_all

lemma own_here:
  assumes "fq_inv s C h0 xs" "own_node (C i) = Some a"
  shows "\<exists>n. fq_nodes s a = Some n \<and> own_good (C i) n"
  using fq_invD(8) [OF assms] .

lemma first_node:
  assumes "fq_inv s C h0 xs" "xs \<noteq> []"
  obtains c x ys where "xs = (h0, x) # ys" "fq_nodes s h0 = Some (fqn (Some x) (Some c))" "fq_links (fq_nodes s) c ys (fq_tail s)"
  using fq_invD(3) [OF assms(1)] assms(2) by (cases xs) auto

lemma exec_locks:
  assumes inv: "fq_inv s C h0 xs" and e: "fq_exec i fresh (C i) s = Some r"
    and C: "C i = FQ_Push_Lock x p \<or> C i = FQ_Push_Unlock \<or> C i = FQ_Pop m \<or> C i = FQ_Get_Tail m \<or> C i = FQ_Unlock_Tail m t \<or> C i = FQ_Block m"
  shows "exec_ok s C i xs r"
proof -
  have h: "in_head (C i) \<Longrightarrow> fq_head s = head_value h0 (C i) \<and> head_good h0 xs (C i)" using head_here [OF inv] by blast
  have free: "fq_head s = Some h0" if "fq_head_mutex s = None"
    using fq_invD(6) [OF inv] owner_here(3) [OF inv that] by (simp add: head_value_def)
  obtain pc s' where r: "r = Inr (pc, s')" using C e by (auto simp: fq_exec_def split: if_splits)
  show ?thesis unfolding r
    by (rule local_ok [OF inv e [unfolded r]])
      (use C e h free in \<open>auto simp: r fq_exec_def head_value_def split: if_splits\<close>)
qed

lemma exec_read_tail:
  assumes inv: "fq_inv s C h0 xs" and e: "fq_exec i fresh (C i) s = Some r" and C: "C i = FQ_Read_Tail m"
  shows "exec_ok s C i xs r"
proof -
  have h: "fq_head s = Some h0" using head_here(1) [OF inv, of i] C by (simp add: head_value_def)
  have empty: "fq_tail s = h0 \<longleftrightarrow> xs = []" using fq_invD(3,4) [OF inv] by (cases xs) auto
  have r: "r = Inr (FQ_Unlock_Tail m (fq_tail s), s)" using C e by (simp add: fq_exec_def)
  have "abs_fq s (FQ_Unlock_Tail m (fq_tail s)) = abs_fq s (C i) \<or>
      object_do queue_object (map snd xs) (abs_fq s (C i)) (map snd xs) (abs_fq s (FQ_Unlock_Tail m (fq_tail s)))"
  proof (cases "\<not> blocking m \<and> xs = []")
    case True
    have "object_do queue_object ([]) (abs_fq s (C i)) ([]) (Done None)"
      using C True by (auto intro: object_effect)
    then show ?thesis using True h empty by simp
  qed (use C h empty in auto)
  then show ?thesis unfolding r
    by (intro local_ok [OF inv e [unfolded r]]) (use C h empty in \<open>auto simp: head_value_def\<close>)
qed

lemma exec_test:
  assumes inv: "fq_inv s C h0 xs" and e: "fq_exec i fresh (C i) s = Some r" and C: "C i = FQ_Test m t"
  shows "exec_ok s C i xs r"
proof -
  have h: "fq_head s = Some h0" "t \<noteq> h0 \<longrightarrow> xs \<noteq> []" using head_here [OF inv, of i] C by (auto simp: head_value_def)
  obtain pc where r: "r = Inr (pc, s)" and pc: "pc = (if h0 = t then (if blocking m then FQ_Block m else FQ_Unlock_Head m None) else if by_ref m then FQ_Value m else FQ_Take m None)"
    using C e h by (simp add: fq_exec_def)
  show ?thesis unfolding r
    by (rule local_ok [OF inv e [unfolded r]]) (use C h in \<open>auto simp: pc head_value_def\<close>)
qed

lemma exec_value_take:
  assumes inv: "fq_inv s C h0 xs" and e: "fq_exec i fresh (C i) s = Some r" and C: "C i = FQ_Value m \<or> C i = FQ_Take m v"
  shows "exec_ok s C i xs r"
proof -
  have h: "fq_head s = Some h0" "head_good h0 xs (C i)" using head_here [OF inv, of i] C by (auto simp: head_value_def)
  then have "xs \<noteq> []" using C by auto
  then obtain c x ys where xs: "xs = (h0, x) # ys" "fq_nodes s h0 = Some (fqn (Some x) (Some c))" by (rule first_node [OF inv])
  obtain pc s' where r: "r = Inr (pc, s')" using C e h xs by (auto simp: fq_exec_def fq_access_def)
  show ?thesis unfolding r
    by (rule local_ok [OF inv e [unfolded r]])
      (use C h xs e in \<open>auto simp: r fq_exec_def fq_access_def head_value_def\<close>)
qed

lemma exec_unlock_head:
  assumes inv: "fq_inv s C h0 xs" and e: "fq_exec i fresh (C i) s = Some r" and C: "C i = FQ_Unlock_Head m u"
  shows "exec_ok s C i xs r"
proof -
  have h: "fq_head s = Some h0" using head_here(1) [OF inv, of i] C by (simp add: head_value_def)
  show ?thesis
  proof (cases u)
    case None
    then have r: "r = Inr (FQ_Returned None, s\<lparr>fq_head_mutex := None\<rparr>)" using C e by (simp add: fq_exec_def)
    show ?thesis unfolding r by (rule local_ok [OF inv e [unfolded r]]) (use C h None in simp_all)
  next
    case (Some hv)
    obtain a v where u: "u = Some (a, v)" using Some by (cases hv) auto
    have "\<exists>n. fq_nodes s a = Some n \<and> own_good (C i) n" using own_here [OF inv, of i a] C u by simp
    then obtain x where x: "fq_nodes s a = Some (fqn (Some x) None)" "by_ref m \<longrightarrow> v = Some x" using C u by auto
    define pc where "pc = (if by_ref m then FQ_Delete (Some a) v else FQ_Result a)"
    have r: "r = Inr (pc, s\<lparr>fq_head_mutex := None\<rparr>)" using C e u by (simp add: fq_exec_def pc_def)
    show ?thesis unfolding r by (rule local_ok [OF inv e [unfolded r]]) (use C h u x in \<open>auto simp: pc_def\<close>)
  qed
qed

lemma exec_result:
  assumes inv: "fq_inv s C h0 xs" and e: "fq_exec i fresh (C i) s = Some r" and C: "C i = FQ_Result a"
  shows "exec_ok s C i xs r"
proof -
  have "\<exists>n. fq_nodes s a = Some n \<and> own_good (C i) n" using own_here [OF inv, of i a] C by simp
  then obtain x where x: "fq_nodes s a = Some (fqn (Some x) None)" using C by auto
  have r: "r = Inr (FQ_Delete (Some a) (Some x), s)" using C e x by (simp add: fq_exec_def fq_access_def)
  show ?thesis unfolding r
  proof (rule local_ok [OF inv e [unfolded r]])
    fix n b assume "own_node (FQ_Delete (Some a) (Some x)) = Some b" "fq_nodes s b = Some n"
    then show "own_good (FQ_Delete (Some a) (Some x)) n" using x by auto
  qed (use C x in simp_all)
qed

lemma exec_returns:
  assumes inv: "fq_inv s C h0 xs" and e: "fq_exec i fresh (C i) s = Some r" and C: "C i = FQ_Delete None v \<or> C i = FQ_Returned v"
  shows "exec_ok s C i xs r"
  using C
proof
  assume C: "C i = FQ_Delete None v"
  then have r: "r = Inr (FQ_Returned v, s)" using e by (simp add: fq_exec_def)
  show ?thesis unfolding r by (rule local_ok [OF inv e [unfolded r]]) (use C in simp_all)
next
  assume C: "C i = FQ_Returned v"
  then have r: "r = Inr (FQ_Idle, s)" using e by (simp add: fq_exec_def)
  have "object_do queue_object (map snd xs) (abs_fq s (C i)) (map snd xs) (Idle)"
    using C by (auto intro: object_return)
  then show ?thesis unfolding r by (intro local_ok [OF inv e [unfolded r]]) (use C in simp_all)
qed


subsection \<open>Steps that change the nodes\<close>

lemma links_store: "a \<notin> set (map fst xs) \<Longrightarrow> fq_links (m(a := n)) h0 xs t \<longleftrightarrow> fq_links m h0 xs t"
  by (induction m h0 xs t rule: fq_links.induct) auto

lemma links_snoc: "fq_links m h0 xs t \<Longrightarrow> m t = Some (fqn (Some x) (Some p)) \<Longrightarrow> fq_links m h0 (xs @ [(t, x)]) p"
  by (induction m h0 xs t rule: fq_links.induct) auto

lemma links_nodes: "fq_links m h0 xs t \<Longrightarrow> a \<in> set (map fst xs) \<Longrightarrow> m a \<noteq> None"
  by (induction m h0 xs t rule: fq_links.induct) auto

lemma in_queue_there: "fq_inv s C h0 xs \<Longrightarrow> a \<in> set (fq_tail s # map fst xs) \<Longrightarrow> fq_nodes s a \<noteq> None"
  using fq_invD(5) [of s C h0 xs] links_nodes [OF fq_invD(3), of s C h0 xs a] by auto

lemma exec_new:
  assumes inv: "fq_inv s C h0 xs" and e: "fq_exec i fresh (C i) s = Some r" and C: "C i = FQ_Push x" and fresh: "fq_nodes s fresh = None"
  shows "exec_ok s C i xs r"
proof -
  let ?s = "fq_store fresh (Some (fqn None None)) s"
  have r: "r = Inr (FQ_Push_Lock x fresh, ?s)" using C e by (simp add: fq_exec_def)
  have m: "mutex_step s (C i) i (FQ_Push_Lock x fresh) ?s" using exec_mutex [OF e [unfolded r]] fq_invD(1,2) [OF inv] by blast
  have out: "fresh \<notin> set (fq_tail s # map fst xs)" using in_queue_there [OF inv, of fresh] fresh by blast
  have unowned: "own_node (C j) \<noteq> Some fresh" for j using own_here [OF inv, of j fresh] fresh by auto
  show ?thesis
  proof (rule exec_okI [OF r])
    show "fq_inv ?s (C(i := FQ_Push_Lock x fresh)) h0 xs"
    proof (rule inv_step [OF inv m])
      show "fq_links (fq_nodes ?s) h0 xs (fq_tail ?s)" using fq_invD(3) [OF inv] out by (simp add: fq_store_def links_store)
      show "distinct (fq_tail ?s # map fst xs)" using fq_invD(4) [OF inv] by (simp add: fq_store_def)
      show "fq_nodes ?s (fq_tail ?s) = Some (tail_node (new_tail_owner s C i (FQ_Push_Lock x fresh)))"
        using fq_invD(5) [OF inv] out C by (simp add: fq_store_def new_tail_owner_def)
      show "fq_head ?s = head_value h0 (new_head_owner s C i (FQ_Push_Lock x fresh))" "head_good h0 xs (new_head_owner s C i (FQ_Push_Lock x fresh))"
        using fq_invD(6,7) [OF inv] C by (simp_all add: fq_store_def new_head_owner_def)
    next
      fix a assume "own_node (FQ_Push_Lock x fresh) = Some a"
      then show "(\<exists>n. fq_nodes ?s a = Some n \<and> own_good (FQ_Push_Lock x fresh) n) \<and> a \<notin> set (fq_tail ?s # map fst xs) \<and> (\<forall>j. j \<noteq> i \<longrightarrow> own_node (C j) \<noteq> Some a)"
        using out unowned by (simp add: fq_store_def)
    next
      fix j a assume "j \<noteq> i" "own_node (C j) = Some a"
      then show "fq_nodes ?s a = fq_nodes s a \<and> a \<notin> set (fq_tail ?s # map fst xs)"
        using unowned [of j] fq_invD(9) [OF inv] by (auto simp: fq_store_def)
    next
      fix a assume "fq_nodes ?s a \<noteq> None"
      then show "a \<in> set (fq_tail ?s # map fst xs) \<or> own_node (FQ_Push_Lock x fresh) = Some a \<or> (\<exists>j. j \<noteq> i \<and> own_node (C j) = Some a)"
        using fq_invD(11) [OF inv, of a] C by (cases "a = fresh") (auto simp: fq_store_def, metis option.distinct(1) own_node.simps(9))
    qed
    show "abs_fq ?s (C j) = abs_fq s (C j)" for j by (rule abs_fq_same) (use unowned [of j] in \<open>auto simp: fq_store_def\<close>)
  qed (use C in simp)
qed


lemma exec_tail_node:
  assumes inv: "fq_inv s C h0 xs" and e: "fq_exec i fresh (C i) s = Some (Inr (pc, s'))"
    and C: "C i = FQ_Push_Data x p \<and> pc = FQ_Push_Link x p \<or> C i = FQ_Push_Link x p \<and> pc = FQ_Push_Tail x p"
    and s': "s' = fq_store (fq_tail s) (Some (tail_node pc)) s"
  shows "exec_ok s C i xs (Inr (pc, s'))"
proof -
  have m: "mutex_step s (C i) i pc s'" using exec_mutex [OF e] fq_invD(1,2) [OF inv] by blast
  have unowned: "own_node (C j) \<noteq> Some (fq_tail s)" for j using fq_invD(9) [OF inv, of j "fq_tail s"] by auto
  have same: "own_node pc = own_node (C i)" "own_good pc = own_good (C i)" using C by auto
  show ?thesis
  proof (rule exec_okI [OF refl])
    show "fq_inv s' (C(i := pc)) h0 xs"
    proof (rule inv_step [OF inv m])
      show "fq_links (fq_nodes s') h0 xs (fq_tail s')" using fq_invD(3,4) [OF inv] by (simp add: s' fq_store_def links_store)
      show "distinct (fq_tail s' # map fst xs)" using fq_invD(4) [OF inv] by (simp add: s' fq_store_def)
      show "fq_nodes s' (fq_tail s') = Some (tail_node (new_tail_owner s C i pc))" using C by (auto simp: s' fq_store_def new_tail_owner_def)
      show "fq_head s' = head_value h0 (new_head_owner s C i pc)" "head_good h0 xs (new_head_owner s C i pc)"
        using fq_invD(6,7) [OF inv] C by (auto simp: s' fq_store_def new_head_owner_def)
    next
      fix a assume a: "own_node pc = Some a"
      then have a': "own_node (C i) = Some a" using same(1) by simp
      obtain n where "fq_nodes s a = Some n" "own_good pc n" using own_here [OF inv a'] same(2) by auto
      moreover have "a \<noteq> fq_tail s" using unowned [of i] a' by auto
      ultimately show "(\<exists>n. fq_nodes s' a = Some n \<and> own_good pc n) \<and> a \<notin> set (fq_tail s' # map fst xs) \<and> (\<forall>j. j \<noteq> i \<longrightarrow> own_node (C j) \<noteq> Some a)"
        using fq_invD(9,10) [OF inv a'] by (simp add: s' fq_store_def) blast
    next
      fix j a assume "j \<noteq> i" "own_node (C j) = Some a"
      then show "fq_nodes s' a = fq_nodes s a \<and> a \<notin> set (fq_tail s' # map fst xs)"
        using unowned [of j] fq_invD(9) [OF inv] by (auto simp: s' fq_store_def)
    next
      fix a assume a: "fq_nodes s' a \<noteq> None"
      show "a \<in> set (fq_tail s' # map fst xs) \<or> own_node pc = Some a \<or> (\<exists>j. j \<noteq> i \<and> own_node (C j) = Some a)"
      proof (cases "a \<in> set (fq_tail s # map fst xs)")
        case False
        then obtain k where "own_node (C k) = Some a" using fq_invD(11) [OF inv, of a] a by (auto simp: s' fq_store_def)
        then show ?thesis using same(1) by (cases "k = i") auto
      qed (simp add: s' fq_store_def)
    qed
    show "abs_fq s' (C j) = abs_fq s (C j)" for j by (rule abs_fq_same) (use unowned [of j] in \<open>auto simp: s' fq_store_def\<close>)
  qed (use C in auto)
qed

lemma exec_link:
  assumes inv: "fq_inv s C h0 xs" and e: "fq_exec i fresh (C i) s = Some r" and C: "C i = FQ_Push_Data x p \<or> C i = FQ_Push_Link x p"
  shows "exec_ok s C i xs r"
proof -
  have tail: "fq_nodes s (fq_tail s) = Some (tail_node (C i))"
    using fq_invD(5) [OF inv] owner_here(2) [OF inv, of i] C by auto
  define pc where "pc = (if C i = FQ_Push_Data x p then FQ_Push_Link x p else FQ_Push_Tail x p)"
  have r: "r = Inr (pc, fq_store (fq_tail s) (Some (tail_node pc)) s)"
    using C e tail by (auto simp: fq_exec_def fq_access_def pc_def)
  show ?thesis unfolding r by (rule exec_tail_node [OF inv e [unfolded r] _ refl]) (use C in \<open>auto simp: pc_def\<close>)
qed

lemma exec_new_tail:
  assumes inv: "fq_inv s C h0 xs" and e: "fq_exec i fresh (C i) s = Some r" and C: "C i = FQ_Push_Tail x p"
  shows "exec_ok s C i xs r"
proof -
  let ?s = "s\<lparr>fq_tail := p\<rparr>" and ?xs = "xs @ [(fq_tail s, x)]"
  have r: "r = Inr (FQ_Push_Unlock, ?s)" using C e by (simp add: fq_exec_def)
  have m: "mutex_step s (C i) i FQ_Push_Unlock ?s" using exec_mutex [OF e [unfolded r]] fq_invD(1,2) [OF inv] by blast
  have tail: "fq_nodes s (fq_tail s) = Some (fqn (Some x) (Some p))" using fq_invD(5) [OF inv] owner_here(2) [OF inv, of i] C by simp
  have p: "fq_nodes s p = Some (fqn None None)" "p \<notin> set (fq_tail s # map fst xs)" using own_here [OF inv, of i p] fq_invD(9) [OF inv, of i p] C by simp_all
  have unowned: "own_node (C j) \<noteq> Some p" if "j \<noteq> i" for j using fq_invD(10) [OF inv, of i p j] that C by auto
  show ?thesis
  proof (rule exec_okI [OF r])
    show "fq_inv ?s (C(i := FQ_Push_Unlock)) h0 ?xs"
    proof (rule inv_step [OF inv m])
      show "fq_links (fq_nodes ?s) h0 ?xs (fq_tail ?s)" using links_snoc [OF fq_invD(3) [OF inv] tail] by simp
      show "distinct (fq_tail ?s # map fst ?xs)" using fq_invD(4) [OF inv] p(2) by auto
      show "fq_nodes ?s (fq_tail ?s) = Some (tail_node (new_tail_owner s C i FQ_Push_Unlock))" using p(1) by (simp add: new_tail_owner_def)
      have "head_good h0 ?xs pc" if "head_good h0 xs pc" for pc using that by (cases pc) (auto simp: hd_append)
      then show "fq_head ?s = head_value h0 (new_head_owner s C i FQ_Push_Unlock)" "head_good h0 ?xs (new_head_owner s C i FQ_Push_Unlock)"
        using fq_invD(6,7) [OF inv] C by (auto simp: new_head_owner_def)
    next
      fix j a assume j: "j \<noteq> i" "own_node (C j) = Some a"
      then show "fq_nodes ?s a = fq_nodes s a \<and> a \<notin> set (fq_tail ?s # map fst ?xs)"
        using unowned [of j] fq_invD(9) [OF inv, of j a] by auto
    next
      fix a assume a: "fq_nodes ?s a \<noteq> None"
      show "a \<in> set (fq_tail ?s # map fst ?xs) \<or> own_node FQ_Push_Unlock = Some a \<or> (\<exists>j. j \<noteq> i \<and> own_node (C j) = Some a)"
      proof (cases "a \<in> set (fq_tail s # map fst xs)")
        case False
        then obtain k where "own_node (C k) = Some a" using fq_invD(11) [OF inv, of a] a by auto
        then show ?thesis using C by (cases "k = i") auto
      qed auto
    qed simp
    show "abs_fq ?s (C j) = abs_fq s (C j)" for j by (rule abs_fq_same) simp_all
    have "object_do queue_object (map snd xs) (abs_fq s (C i)) (map snd xs @ [x]) (Done None)"
      using C by (auto intro: object_effect)
    then show "map snd ?xs = map snd xs \<and> abs_fq ?s FQ_Push_Unlock = abs_fq s (C i) \<or>
        object_do queue_object (map snd xs) (abs_fq s (C i)) (map snd ?xs) (abs_fq ?s FQ_Push_Unlock)" by simp
  qed
qed

lemma exec_next:
  assumes inv: "fq_inv s C h0 xs" and e: "fq_exec i fresh (C i) s = Some r" and C: "C i = FQ_Next m v h"
  shows "exec_ok s C i xs r"
proof -
  have here: "h = h0" "xs \<noteq> []" "by_ref m \<longrightarrow> v = Some (snd (hd xs))" "fq_head s = None"
    using head_here [OF inv, of i] C by (auto simp: head_value_def)
  obtain c x ys where xs: "xs = (h0, x) # ys" and n: "fq_nodes s h0 = Some (fqn (Some x) (Some c))" and links: "fq_links (fq_nodes s) c ys (fq_tail s)"
    using here(2) by (rule first_node [OF inv])
  let ?pc = "FQ_Unlock_Head m (Some (h0, v))" and ?s = "fq_store h0 (Some (fqn (Some x) None)) (s\<lparr>fq_head := Some c\<rparr>)"
  have r: "r = Inr (?pc, ?s)" using C e here n by (simp add: fq_exec_def fq_access_def)
  have m: "mutex_step s (C i) i ?pc ?s" using exec_mutex [OF e [unfolded r]] fq_invD(1,2) [OF inv] by blast
  have out: "h0 \<notin> set (fq_tail s # map fst ys)" using fq_invD(4) [OF inv] xs by auto
  have unowned: "own_node (C j) \<noteq> Some h0" for j using fq_invD(9) [OF inv, of j h0] xs by auto
  show ?thesis
  proof (rule exec_okI [OF r])
    show "fq_inv ?s (C(i := ?pc)) c ys"
    proof (rule inv_step [OF inv m])
      show "fq_links (fq_nodes ?s) c ys (fq_tail ?s)" using links out by (simp add: fq_store_def links_store)
      show "distinct (fq_tail ?s # map fst ys)" using fq_invD(4) [OF inv] xs by (simp add: fq_store_def)
      show "fq_nodes ?s (fq_tail ?s) = Some (tail_node (new_tail_owner s C i ?pc))"
        using fq_invD(5) [OF inv] out C by (auto simp: fq_store_def new_tail_owner_def)
      show "fq_head ?s = head_value c (new_head_owner s C i ?pc)" "head_good c ys (new_head_owner s C i ?pc)"
        by (simp_all add: fq_store_def new_head_owner_def head_value_def)
    next
      fix a assume "own_node ?pc = Some a"
      then show "(\<exists>n. fq_nodes ?s a = Some n \<and> own_good ?pc n) \<and> a \<notin> set (fq_tail ?s # map fst ys) \<and> (\<forall>j. j \<noteq> i \<longrightarrow> own_node (C j) \<noteq> Some a)"
        using out unowned here(3) xs by (auto simp: fq_store_def)
    next
      fix j a assume "j \<noteq> i" "own_node (C j) = Some a"
      then show "fq_nodes ?s a = fq_nodes s a \<and> a \<notin> set (fq_tail ?s # map fst ys)"
        using unowned [of j] fq_invD(9) [OF inv, of j a] xs by (auto simp: fq_store_def)
    next
      fix a assume a: "fq_nodes ?s a \<noteq> None"
      show "a \<in> set (fq_tail ?s # map fst ys) \<or> own_node ?pc = Some a \<or> (\<exists>j. j \<noteq> i \<and> own_node (C j) = Some a)"
      proof (cases "a \<in> set (fq_tail s # map fst xs)")
        case False
        then obtain k where "own_node (C k) = Some a" using fq_invD(11) [OF inv, of a] a n by (auto simp: fq_store_def split: if_splits)
        then show ?thesis using C by (cases "k = i") auto
      qed (auto simp: fq_store_def xs)
    qed
    show "abs_fq ?s (C j) = abs_fq s (C j)" if j: "j \<noteq> i" for j
    proof (rule abs_fq_same)
      assume "in_head (C j)"
      then show "fq_head ?s = fq_head s" using fq_invD(1) [OF inv, of j] fq_invD(1) [OF inv, of i] C j by simp
    qed (use unowned [of j] in \<open>auto simp: fq_store_def\<close>)
    have "object_do queue_object (x # map snd ys) (abs_fq s (C i)) (map snd ys) (Done (Some x))"
      using C by (auto intro: object_effect)
    then show "map snd ys = map snd xs \<and> abs_fq ?s ?pc = abs_fq s (C i) \<or>
        object_do queue_object (map snd xs) (abs_fq s (C i)) (map snd ys) (abs_fq ?s ?pc)"
      using here(3) xs by (simp add: fq_store_def)
  qed
qed

lemma exec_delete:
  assumes inv: "fq_inv s C h0 xs" and e: "fq_exec i fresh (C i) s = Some r" and C: "C i = FQ_Delete (Some a) v"
  shows "exec_ok s C i xs r"
proof -
  have "\<exists>n. fq_nodes s a = Some n \<and> own_good (C i) n" using own_here [OF inv, of i a] C by simp
  then obtain x where n: "fq_nodes s a = Some (fqn (Some x) None)" "v = Some x" using C by auto
  let ?pc = "FQ_Delete None v" and ?s = "fq_store a None s"
  have r: "r = Inr (?pc, ?s)" using C e n by (simp add: fq_exec_def fq_access_def)
  have m: "mutex_step s (C i) i ?pc ?s" using exec_mutex [OF e [unfolded r]] fq_invD(1,2) [OF inv] by blast
  have out: "a \<notin> set (fq_tail s # map fst xs)" using fq_invD(9) [OF inv, of i a] C by simp
  have unowned: "own_node (C j) \<noteq> Some a" if "j \<noteq> i" for j using fq_invD(10) [OF inv, of i a j] that C by auto
  show ?thesis
  proof (rule exec_okI [OF r])
    show "fq_inv ?s (C(i := ?pc)) h0 xs"
    proof (rule inv_step [OF inv m])
      show "fq_links (fq_nodes ?s) h0 xs (fq_tail ?s)" using fq_invD(3) [OF inv] out by (simp add: fq_store_def links_store)
      show "distinct (fq_tail ?s # map fst xs)" using fq_invD(4) [OF inv] by (simp add: fq_store_def)
      show "fq_nodes ?s (fq_tail ?s) = Some (tail_node (new_tail_owner s C i ?pc))"
        using fq_invD(5) [OF inv] out C by (auto simp: fq_store_def new_tail_owner_def)
      show "fq_head ?s = head_value h0 (new_head_owner s C i ?pc)" "head_good h0 xs (new_head_owner s C i ?pc)"
        using fq_invD(6,7) [OF inv] C by (simp_all add: fq_store_def new_head_owner_def)
    next
      fix j b assume "j \<noteq> i" "own_node (C j) = Some b"
      then show "fq_nodes ?s b = fq_nodes s b \<and> b \<notin> set (fq_tail ?s # map fst xs)"
        using unowned [of j] fq_invD(9) [OF inv, of j b] by (auto simp: fq_store_def)
    next
      fix b assume b: "fq_nodes ?s b \<noteq> None"
      show "b \<in> set (fq_tail ?s # map fst xs) \<or> own_node ?pc = Some b \<or> (\<exists>j. j \<noteq> i \<and> own_node (C j) = Some b)"
      proof (cases "b \<in> set (fq_tail s # map fst xs)")
        case False
        then obtain k where "own_node (C k) = Some b" using fq_invD(11) [OF inv, of b] b by (auto simp: fq_store_def split: if_splits)
        then show ?thesis using C b by (cases "k = i") (auto simp: fq_store_def)
      qed (simp add: fq_store_def)
    qed simp
    show "abs_fq ?s (C j) = abs_fq s (C j)" if "j \<noteq> i" for j
      by (rule abs_fq_same) (use unowned [OF that] in \<open>auto simp: fq_store_def\<close>)
  qed (use C in simp)
qed


section \<open>All steps\<close>

lemma exec_refines:
  assumes inv: "fq_inv s C h0 xs" and e: "fq_exec i fresh (C i) s = Some r" and fresh: "fq_nodes s fresh = None"
  shows "exec_ok s C i xs r"
proof (cases "C i")
  case (FQ_Delete p v)
  then show ?thesis using exec_delete [OF inv e] exec_returns [OF inv e] by (cases p) blast+
qed (use e exec_new [OF inv e _ fresh] exec_link [OF inv e] exec_new_tail [OF inv e] exec_locks [OF inv e] exec_read_tail [OF inv e]
    exec_test [OF inv e] exec_value_take [OF inv e] exec_next [OF inv e] exec_unlock_head [OF inv e] exec_result [OF inv e]
    exec_returns [OF inv e] in \<open>blast | simp add: fq_exec_def\<close>)+

text \<open>A change of a thread's place that takes no lock and touches no node.\<close>

definition quiet :: "'a fq_pc \<Rightarrow> bool" where
  "quiet pc \<longleftrightarrow> \<not> in_head pc \<and> \<not> in_tail pc \<and> own_node pc = None"

lemma inv_quiet:
  assumes inv: "fq_inv s C h0 xs" and "quiet (C i)" "quiet pc"
  shows "fq_inv s (C(i := pc)) h0 xs"
  by (rule inv_local [OF inv]) (use assms fq_invD(6,7) [OF inv] in \<open>auto simp: quiet_def mutex_step_def new_head_owner_def new_tail_owner_def\<close>)

lemma inv_call:
  assumes "fq_inv s C h0 xs" "C i = FQ_Idle"
  shows "fq_inv s (C(i := FQ_Push x)) h0 xs" "fq_inv s (C(i := FQ_Pop m)) h0 xs"
  by (rule inv_quiet [OF assms(1)]; use assms(2) in \<open>simp add: quiet_def\<close>)+

lemma inv_notify:
  assumes "fq_inv s C h0 xs" "C i = FQ_Notify"
  shows "fq_inv s (C(i := FQ_Returned None)) h0 xs" "C j = FQ_Sleep m \<Longrightarrow> fq_inv s (C(i := FQ_Returned None, j := FQ_Pop m)) h0 xs"
proof -
  show inv: "fq_inv s (C(i := FQ_Returned None)) h0 xs" by (rule inv_quiet [OF assms(1)]) (use assms(2) in \<open>simp_all add: quiet_def\<close>)
  show "fq_inv s (C(i := FQ_Returned None, j := FQ_Pop m)) h0 xs" if "C j = FQ_Sleep m"
    by (rule inv_quiet [OF inv]) (use assms(2) that in \<open>auto simp: quiet_def\<close>)
qed

lemma inv_wake:
  assumes "fq_inv s C h0 xs" "C j = FQ_Sleep m"
  shows "fq_inv s (C(j := FQ_Pop m)) h0 xs"
  by (rule inv_quiet [OF assms(1)]) (use assms(2) in \<open>simp_all add: quiet_def\<close>)

lemma inv_init: "fq_inv (threadsafe_queue a) (\<lambda>_. FQ_Idle) a []"
  by (auto simp: fq_inv_def threadsafe_queue_def tail_owner_def head_owner_def head_value_def split: if_splits)

section \<open>Histories\<close>

lemma abs_fq_idle: "abs_fq s pc = Idle \<longleftrightarrow> pc = FQ_Idle"
  by (cases pc) auto

lemma fq_exec_to_idle:
  assumes "fq_exec i fresh pc s = Some (Inr (FQ_Idle, s'))"
  shows "\<exists>v. pc = FQ_Returned v"
proof (cases pc)
  case (FQ_Delete p v)
  then show ?thesis using assms by (cases p) (auto simp: fq_exec_def fq_access_def split: option.splits)
qed (use assms in \<open>auto simp: fq_exec_def fq_access_def split: option.splits if_splits prod.splits\<close>)

text \<open>The queue and the phases of the threads are those of a linearization of the history.\<close>

definition fq_linear :: "('a container_op, 'a option) history_event list \<Rightarrow> 'a fq_config \<Rightarrow> bool" where
  "fq_linear H c \<longleftrightarrow> (\<exists>h0 xs E. fq_inv (fst c) (snd c) h0 xs \<and> linearizes queue_object [] H E (map snd xs) (abs_fq (fst c) \<circ> snd c))"

lemma fq_linearI: "fq_inv s C h0 xs \<Longrightarrow> linearizes queue_object [] H E (map snd xs) (abs_fq s \<circ> C) \<Longrightarrow> fq_linear H (s, C)"
  by (auto simp: fq_linear_def)

lemma fq_linear_call:
  assumes E: "linearizes queue_object [] H E (map snd xs) (abs_fq s \<circ> C)" and "C i = FQ_Idle" and "abs_fq s pc = Called op"
    and inv: "fq_inv s (C(i := pc)) h0 xs"
  shows "fq_linear (H @ [Call i op]) (s, C(i := pc))"
proof -
  have "linearizes queue_object [] (H @ [Call i op]) (E @ [Call i op]) (map snd xs) ((abs_fq s \<circ> C)(i := Called op))"
    using linearizes_call [OF E] assms(2) by simp
  moreover have "(abs_fq s \<circ> C)(i := Called op) = abs_fq s \<circ> C(i := pc)" using assms(3) by (auto simp: fun_eq_iff)
  ultimately show ?thesis using fq_linearI [OF inv] by simp
qed

lemma fq_linear_run:
  assumes E: "linearizes queue_object [] H E (map snd xs) (abs_fq s \<circ> C)" and inv: "fq_inv s C h0 xs"
    and fresh: "fq_nodes s fresh = None" and e: "fq_exec i fresh (C i) s = Some (Inr (pc, s'))"
  shows "fq_linear (H @ fq_returns i (C i) pc) (s', C(i := pc))"
proof -
  obtain h0' xs' where inv': "fq_inv s' (C(i := pc)) h0' xs'" and ref: "fq_refines i s C xs s' (C(i := pc)) xs'"
    using exec_refines [OF inv e fresh] by (auto simp: exec_ok_def)
  have A: "abs_fq s' \<circ> C(i := pc) = (abs_fq s \<circ> C)(i := abs_fq s' pc)" using ref by (auto simp: fq_refines_def fun_eq_iff)
  have busy: "fq_returns i (C i) pc = []" if "pc \<noteq> FQ_Idle" using that by (simp add: fq_returns_def)
  from ref consider "map snd xs' = map snd xs" "abs_fq s' pc = abs_fq s (C i)"
    | "object_do queue_object (map snd xs) (abs_fq s (C i)) (map snd xs') (abs_fq s' pc)" by (auto simp: fq_refines_def)
  then show ?thesis
  proof cases
    case 1
    have "pc \<noteq> FQ_Idle"
    proof
      assume "pc = FQ_Idle"
      then show False using fq_exec_to_idle [of i fresh "C i" s s'] e 1(2) by auto
    qed
    moreover have "(abs_fq s \<circ> C)(i := abs_fq s' pc) = abs_fq s \<circ> C" using 1(2) by auto
    ultimately show ?thesis using E 1 busy A by (intro fq_linearI [OF inv', of _ E]) simp
  next
    case 2
    then show ?thesis
    proof (cases rule: object_do.cases)
      case (object_effect op r)
      have "(abs_fq s \<circ> C) i = Called op" using object_effect(1) by simp
      from linearizes_effect [OF E this object_effect(3)] have
        "linearizes queue_object [] H (E @ [Effect i op r]) (map snd xs') (abs_fq s' \<circ> C(i := pc))" unfolding A object_effect(2) .
      moreover have "pc \<noteq> FQ_Idle" using object_effect(2) by auto
      ultimately show ?thesis using busy fq_linearI [OF inv'] by simp
    next
      case (object_return r)
      then have pc: "pc = FQ_Idle" using abs_fq_idle by blast
      then have ret: "fq_returns i (C i) pc = [Return i r]"
        using fq_exec_to_idle [of i fresh "C i" s s'] e object_return by (auto simp: fq_returns_def)
      have "(abs_fq s \<circ> C) i = Done r" using object_return by simp
      from linearizes_return [OF E this] have
        "linearizes queue_object [] (H @ [Return i r]) (E @ [Return i r]) (map snd xs') (abs_fq s' \<circ> C(i := pc))" unfolding A object_return(2,3) .
      then show ?thesis unfolding ret by (rule fq_linearI [OF inv'])
    qed
  qed
qed

lemma fq_history_linear: "fq_history sp H c \<Longrightarrow> fq_linear H c"
proof (induction rule: fq_history.induct)
  case (fq_history_init a)
  have "abs_fq (threadsafe_queue a) \<circ> (\<lambda>_. FQ_Idle) = (\<lambda>_. Idle)" by auto
  then show ?case using linearizes_init [of queue_object "[]"] by (intro fq_linearI [OF inv_init, where E = "[]"]) (simp add: comp_def)
next
  case (fq_history_push H s C i x)
  then obtain h0 xs E where "fq_inv s C h0 xs" "linearizes queue_object [] H E (map snd xs) (abs_fq s \<circ> C)" by (auto simp: fq_linear_def)
  then show ?case using fq_history_push(2) inv_call(1) [of s C h0 xs i x] fq_linear_call [of H E xs s C i "FQ_Push x" "Put x"] by simp
next
  case (fq_history_pop H s C i m)
  then obtain h0 xs E where "fq_inv s C h0 xs" "linearizes queue_object [] H E (map snd xs) (abs_fq s \<circ> C)" by (auto simp: fq_linear_def)
  then show ?case using fq_history_pop(2) inv_call(2) [of s C h0 xs i m] fq_linear_call [of H E xs s C i "FQ_Pop m" "Get (blocking m)"] by simp
next
  case (fq_history_run H s C fresh i pc s')
  then obtain h0 xs E where "fq_inv s C h0 xs" "linearizes queue_object [] H E (map snd xs) (abs_fq s \<circ> C)" by (auto simp: fq_linear_def)
  then show ?case using fq_linear_run [of H E xs s C h0 fresh i pc s'] fq_history_run(2,3) by blast
next
  case (fq_history_notify H s C i j m)
  then obtain h0 xs E where c: "fq_inv s C h0 xs" "linearizes queue_object [] H E (map snd xs) (abs_fq s \<circ> C)" by (auto simp: fq_linear_def)
  have "abs_fq s \<circ> C(i := FQ_Returned None, j := FQ_Pop m) = abs_fq s \<circ> C" using fq_history_notify(2,3) by (auto simp: fun_eq_iff)
  then show ?case using c(2) inv_notify(2) [OF c(1) fq_history_notify(2,3)] by (intro fq_linearI [of _ _ h0 xs]) simp_all
next
  case (fq_history_notify_none H s C i)
  then obtain h0 xs E where c: "fq_inv s C h0 xs" "linearizes queue_object [] H E (map snd xs) (abs_fq s \<circ> C)" by (auto simp: fq_linear_def)
  have "abs_fq s \<circ> C(i := FQ_Returned None) = abs_fq s \<circ> C" using fq_history_notify_none(2) by (auto simp: fun_eq_iff)
  then show ?case using c(2) inv_notify(1) [OF c(1) fq_history_notify_none(2)] by (intro fq_linearI [of _ _ h0 xs]) simp_all
next
  case (fq_history_wake H s C j m)
  then obtain h0 xs E where c: "fq_inv s C h0 xs" "linearizes queue_object [] H E (map snd xs) (abs_fq s \<circ> C)" by (auto simp: fq_linear_def)
  have "abs_fq s \<circ> C(j := FQ_Pop m) = abs_fq s \<circ> C" using fq_history_wake(3) by (auto simp: fun_eq_iff)
  then show ?case using c(2) inv_wake [OF c(1) fq_history_wake(3)] by (intro fq_linearI [of _ _ h0 xs]) simp_all
qed

lemma fq_reach_inv: "fq_reach sp (s, C) \<Longrightarrow> \<exists>h0 xs. fq_inv s C h0 xs"
  using fq_history_linear fq_history_reach [of sp "(s, C)"] by (fastforce simp: fq_linear_def)

end
