(* ===== verification/Fine_Grained_Results.thy ===== *)
theory Fine_Grained_Results
  imports Fine_Grained_Steps
begin

text \<open>What holds of \<open>threadsafe_queue\<close> for any number of threads and every interleaving, and what goes wrong.\<close>

section \<open>Linearizability\<close>

definition holds_queue :: "'a threadsafe_queue \<Rightarrow> 'a list \<Rightarrow> bool" where
  "holds_queue s q \<longleftrightarrow> (\<exists>h xs. fq_links (fq_nodes s) h xs (fq_tail s) \<and> (fq_head s = Some h \<or> fq_head s = None) \<and> q = map snd xs)"

lemma inv_holds: "fq_inv s C h0 xs \<Longrightarrow> holds_queue s (map snd xs)"
  using fq_invD(3,6) [of s C h0 xs] unfolding holds_queue_def head_value_def by (auto split: fq_pc.splits)

text \<open>
  C8: however the threads are interleaved, and with spurious wake-ups, the fine-grained queue is linearizable. For the
  history of the calls and returns of any run there is a moment for each push and pop, between its call and its
  return, such that the operations at these moments are a run of a sequential queue with the same results:
  values are popped once and in FIFO order, a waiting pop returns only with a value and a trying one without only if
  the queue was empty at that moment. The nodes hold the values of that queue, and a thread is idle exactly if
  its last operation has returned.
\<close>
theorem fq_linearizable:
  assumes "fq_history sp H (s, C)"
  shows "\<exists>E q A. linearizes queue_object [] H E q A \<and> holds_queue s q \<and> (\<forall>i. A i = Idle \<longleftrightarrow> C i = FQ_Idle)"
proof -
  obtain h0 xs E where "fq_inv s C h0 xs" "linearizes queue_object [] H E (map snd xs) (abs_fq s \<circ> C)"
    using fq_history_linear [OF assms] by (auto simp: fq_linear_def)
  then show ?thesis using inv_holds
    by (intro exI [of _ E] exI [of _ "map snd xs"] exI [of _ "abs_fq s \<circ> C"]) (simp add: abs_fq_idle)
qed

text \<open>So a value that a thread pops was pushed.\<close>

lemma fq_popped_was_pushed:
  assumes "fq_history sp H c" "Return i (Some x) \<in> set H"
  shows "\<exists>j. Call j (Put x) \<in> set H"
proof -
  obtain h0 xs E where "fq_inv (fst c) (snd c) h0 xs" and E: "linearizes queue_object [] H E (map snd xs) (abs_fq (fst c) \<circ> snd c)"
    using fq_history_linear [OF assms(1)] by (auto simp: fq_linear_def)
  from queue_got_was_put [OF E assms(2)] show ?thesis .
qed

section \<open>Data races\<close>

datatype fq_location = L_Head | L_Tail | L_Data nat | L_Next nat

text \<open>The shared locations that the next step of a thread reads (\<open>False\<close>) or writes (\<open>True\<close>) outside of the mutexes.\<close>

fun fq_accesses :: "'a threadsafe_queue \<Rightarrow> 'a fq_pc \<Rightarrow> (fq_location \<times> bool) list" where
  "fq_accesses s (FQ_Push_Data x p) = [(L_Tail, False), (L_Data (fq_tail s), True)]"
| "fq_accesses s (FQ_Push_Link x p) = [(L_Tail, False), (L_Next (fq_tail s), True)]"
| "fq_accesses s (FQ_Push_Tail x p) = [(L_Tail, True)]"
| "fq_accesses s (FQ_Read_Tail m) = [(L_Tail, False)]"
| "fq_accesses s (FQ_Test m t) = [(L_Head, False)]"
| "fq_accesses s (FQ_Value m) = (L_Head, False) # (case fq_head s of None \<Rightarrow> [] | Some h \<Rightarrow> [(L_Data h, False)])"
| "fq_accesses s (FQ_Take m v) = [(L_Head, True)]"
| "fq_accesses s (FQ_Next m v h) = [(L_Head, True), (L_Next h, True)]"
| "fq_accesses s (FQ_Result h) = [(L_Data h, False)]"
| "fq_accesses s (FQ_Delete (Some h) v) = [(L_Data h, True), (L_Next h, True)]"
| "fq_accesses s _ = []"

text \<open>The nodes whose members the next step of a thread uses, as the invariant knows them.\<close>

lemma access_node:
  assumes inv: "fq_inv s C h0 xs" and l: "(L_Data a, w) \<in> set (fq_accesses s (C i)) \<or> (L_Next a, w) \<in> set (fq_accesses s (C i))"
  shows "in_tail (C i) \<and> a = fq_tail s \<or> in_head (C i) \<and> a \<in> set (map fst xs) \<or> own_node (C i) = Some a"
proof -
  have "h0 \<in> fst ` set xs" if "xs \<noteq> []" using fq_invD(3) [OF inv] that by (cases xs) auto
  moreover have "in_head (C i) \<Longrightarrow> head_good h0 xs (C i) \<and> fq_head s = head_value h0 (C i)" using head_here [OF inv] by blast
  ultimately show ?thesis using l
  proof (cases "C i")
    case (FQ_Delete p v)
    then show ?thesis using l by (cases p) auto
  qed (auto simp: head_value_def split: option.splits)
qed

lemma access_end:
  assumes "(L_Head, w) \<in> set (fq_accesses s pc)" shows "in_head pc"
proof (cases pc)
  case (FQ_Delete p v)
  then show ?thesis using assms by (cases p) auto
qed (use assms in auto)

lemma access_tail:
  assumes "(L_Tail, w) \<in> set (fq_accesses s pc)" shows "in_tail pc"
proof (cases pc)
  case (FQ_Delete p v)
  then show ?thesis using assms by (cases p) auto
next
  case (FQ_Value m)
  then show ?thesis using assms by (cases "fq_head s") auto
qed (use assms in auto)

text \<open>
  C9: the two locks suffice: no two threads are ever about to use the same location, not even to read it. So the first
  node and the last one are never confused, although \<open>push\<close> does not lock the head and a pop gives the lock of
  the tail back before it uses a node.
\<close>
theorem fq_no_data_race:
  assumes "fq_reach sp (s, C)" and "i \<noteq> j" and "(l, w) \<in> set (fq_accesses s (C i))"
  shows "(l, w') \<notin> set (fq_accesses s (C j))"
proof
  assume j: "(l, w') \<in> set (fq_accesses s (C j))"
  obtain h0 xs where inv: "fq_inv s C h0 xs" using fq_reach_inv [OF assms(1)] by auto
  have head: "\<not> (in_head (C i) \<and> in_head (C j))" using fq_invD(1) [OF inv, of i] fq_invD(1) [OF inv, of j] assms(2) by auto
  have tail: "\<not> (in_tail (C i) \<and> in_tail (C j))" using fq_invD(2) [OF inv, of i] fq_invD(2) [OF inv, of j] assms(2) by auto
  have node: False if "in_tail (C i) \<and> a = fq_tail s \<or> in_head (C i) \<and> a \<in> set (map fst xs) \<or> own_node (C i) = Some a"
    "in_tail (C j) \<and> a = fq_tail s \<or> in_head (C j) \<and> a \<in> set (map fst xs) \<or> own_node (C j) = Some a" for a
  proof -
    have "fq_tail s \<notin> set (map fst xs)" using fq_invD(4) [OF inv] by simp
    then show False
      using that head tail fq_invD(9) [OF inv, of i a] fq_invD(9) [OF inv, of j a] fq_invD(10) [OF inv, of i a j] assms(2)
      by auto
  qed
  show False
  proof (cases l)
    case L_Head
    then show ?thesis using access_end assms(3) j head by blast
  next
    case L_Tail
    then show ?thesis using access_tail assms(3) j tail by blast
  next
    case (L_Data a)
    then show ?thesis using access_node [OF inv, of a] assms(3) j node [of a] by blast
  next
    case (L_Next a)
    then show ?thesis using access_node [OF inv, of a] assms(3) j node [of a] by blast
  qed
qed

section \<open>Progress\<close>

text \<open>
  C15: no step of a thread is undefined: no null pointer is followed, no deleted node is used, no \<open>unique_ptr\<close> that owns a node is
  overwritten. And the threads do not block each other: if some thread is in an operation and does not
  sleep, some thread can run.
\<close>
theorem fq_defined_and_live:
  assumes "fq_reach sp (s, C)"
  shows "(\<forall>i fresh e. fq_nodes s fresh = None \<longrightarrow> fq_exec i fresh (C i) s \<noteq> Some (Inl e)) \<and>
    ((\<exists>i. C i \<noteq> FQ_Idle \<and> (\<forall>m. C i \<noteq> FQ_Sleep m)) \<longrightarrow> (\<exists>i. C i \<noteq> FQ_Idle \<and> (C i = FQ_Notify \<or> (\<forall>fresh. fq_exec i fresh (C i) s \<noteq> None))))"
proof -
  obtain h0 xs where inv: "fq_inv s C h0 xs" using fq_reach_inv [OF assms] by auto
  have "fq_exec i fresh (C i) s \<noteq> Some (Inl e)" if "fq_nodes s fresh = None" for i fresh e
  proof
    assume "fq_exec i fresh (C i) s = Some (Inl e)"
    from exec_refines [OF inv this that] show False by (auto simp: exec_ok_def)
  qed
  moreover have "\<exists>i. C i \<noteq> FQ_Idle \<and> (C i = FQ_Notify \<or> (\<forall>fresh. fq_exec i fresh (C i) s \<noteq> None))"
    if i: "C i \<noteq> FQ_Idle" "\<forall>m. C i \<noteq> FQ_Sleep m" for i
  proof -
    have tail: "\<exists>k. C k \<noteq> FQ_Idle \<and> (\<forall>fresh. fq_exec k fresh (C k) s \<noteq> None)" if "fq_tail_mutex s \<noteq> None"
    proof -
      have "\<exists>k. in_tail (C k)" using that fq_invD(2) [OF inv] by (cases "fq_tail_mutex s") auto
      then obtain k where "in_tail (C k)" ..
      then show ?thesis by (intro exI [of _ k]) (cases "C k"; simp add: fq_exec_def)
    qed
    have head: "\<exists>k. C k \<noteq> FQ_Idle \<and> (\<forall>fresh. fq_exec k fresh (C k) s \<noteq> None)" if "fq_head_mutex s \<noteq> None"
    proof -
      have "\<exists>k. in_head (C k)" using that fq_invD(1) [OF inv] by (cases "fq_head_mutex s") auto
      then obtain k where k: "in_head (C k)" ..
      show ?thesis
      proof (cases "\<exists>m. C k = FQ_Get_Tail m \<and> fq_tail_mutex s \<noteq> None")
        case False
        then show ?thesis using k by (intro exI [of _ k]) (cases "C k"; simp add: fq_exec_def)
      qed (use tail in blast)
    qed
    show ?thesis
    proof (cases "C i = FQ_Notify \<or> (\<forall>fresh. fq_exec i fresh (C i) s \<noteq> None)")
      case False
      then have "fq_tail_mutex s \<noteq> None \<or> fq_head_mutex s \<noteq> None"
      proof (cases "C i")
        case (FQ_Delete p v)
        then show ?thesis using False by (cases p) (auto simp: fq_exec_def)
      qed (use i False in \<open>auto simp: fq_exec_def split: if_splits\<close>)
      then show ?thesis using head tail by blast
    qed (use i in blast)
  qed
  ultimately show ?thesis by blast
qed

section \<open>Memory\<close>

lemma links_length: "fq_links m h xs t \<Longrightarrow> distinct (t # map fst xs) \<Longrightarrow> card (set (t # map fst xs)) = Suc (length xs)"
  by (metis distinct_card length_Cons length_map)

text \<open>
  Nothing leaks: when every thread is idle or asleep, there is one node for each element and the dummy node at the end.
\<close>
theorem fq_no_leak:
  assumes "fq_reach sp (s, C)" and "\<And>i. C i = FQ_Idle \<or> (\<exists>m. C i = FQ_Sleep m)"
  shows "\<exists>q. holds_queue s q \<and> card (dom (fq_nodes s)) = Suc (length q)"
proof -
  obtain h0 xs where inv: "fq_inv s C h0 xs" using fq_reach_inv [OF assms(1)] by auto
  have "own_node (C i) = None" for i using assms(2) [of i] by auto
  then have "dom (fq_nodes s) \<subseteq> set (fq_tail s # map fst xs)" using fq_invD(11) [OF inv] by fastforce
  moreover have "set (fq_tail s # map fst xs) \<subseteq> dom (fq_nodes s)" using links_nodes [OF fq_invD(3) [OF inv]] fq_invD(5) [OF inv] by auto
  ultimately have "card (dom (fq_nodes s)) = Suc (length xs)"
    using links_length fq_invD(3,4) [OF inv] by (metis subset_antisym)
  moreover have "holds_queue s (map snd xs)"
    using fq_invD(3,6) [OF inv] unfolding holds_queue_def head_value_def by (auto split: fq_pc.splits)
  ultimately show ?thesis by (metis length_map)
qed

section \<open>The lost wake-up\<close>

text \<open>The first two threads; the others are idle.\<close>

definition two :: "'a fq_pc \<Rightarrow> 'a fq_pc \<Rightarrow> nat \<Rightarrow> 'a fq_pc" where
  "two a b i = (if i = 0 then a else if i = 1 then b else FQ_Idle)"

lemma two_simps [simp]: "two a b 0 = a" "two a b (Suc 0) = b" "(two a b)(0 := c) = two c b" "(two a b)(Suc 0 := c) = two a c"
  by (auto simp: two_def fun_eq_iff)

lemma two_run:
  "fq_history sp H (s, two a b) \<Longrightarrow> fq_nodes s fresh = None \<Longrightarrow> fq_exec 0 fresh a s = Some (Inr (c, s')) \<Longrightarrow> c \<noteq> FQ_Idle \<Longrightarrow>
    fq_history sp H (s', two c b)"
  "fq_history sp H (s, two a b) \<Longrightarrow> fq_nodes s fresh = None \<Longrightarrow> fq_exec 1 fresh b s = Some (Inr (c, s')) \<Longrightarrow> c \<noteq> FQ_Idle \<Longrightarrow>
    fq_history sp H (s', two a c)"
  using fq_history_run [of sp H s "two a b" fresh 0 c s'] fq_history_run [of sp H s "two a b" fresh 1 c s']
  by (simp_all add: fq_returns_def)

text \<open>The queue with the elements \<open>q\<close> in the nodes 0, 1, ..., with given locks.\<close>

definition queue_of :: "nat option \<Rightarrow> nat option \<Rightarrow> nat \<Rightarrow> (nat \<Rightarrow> 'a fq_node option) \<Rightarrow> 'a threadsafe_queue" where
  "queue_of hm tm t m = \<lparr>fq_head = Some 0, fq_tail = t, fq_head_mutex = hm, fq_tail_mutex = tm, fq_nodes = m\<rparr>"

lemma queue_of_simps [simp]:
  "fq_head (queue_of hm tm t m) = Some 0" "fq_tail (queue_of hm tm t m) = t" "fq_head_mutex (queue_of hm tm t m) = hm"
  "fq_tail_mutex (queue_of hm tm t m) = tm" "fq_nodes (queue_of hm tm t m) = m"
  "(queue_of hm tm t m)\<lparr>fq_head_mutex := x\<rparr> = queue_of x tm t m" "(queue_of hm tm t m)\<lparr>fq_tail_mutex := y\<rparr> = queue_of hm y t m"
  "(queue_of hm tm t m)\<lparr>fq_tail := u\<rparr> = queue_of hm tm u m" "fq_store a n (queue_of hm tm t m) = queue_of hm tm t (m(a := n))"
  by (simp_all add: queue_of_def fq_store_def)

abbreviation empty_nodes :: "nat \<Rightarrow> nat fq_node option" where
  "empty_nodes \<equiv> [0 \<mapsto> fqn None None]"

text \<open>Thread 0 has found the queue empty and is about to sleep.\<close>

lemma two_idle: "(\<lambda>_. FQ_Idle) = two FQ_Idle FQ_Idle"
  by (auto simp: two_def fun_eq_iff)

lemma start_queue: "threadsafe_queue 0 = queue_of None None 0 empty_nodes"
  by (simp add: threadsafe_queue_def queue_of_def)

lemma history_read: "fq_history False [Call 0 (Get True)] (queue_of (Some 0) (Some 0) 0 empty_nodes, two (FQ_Read_Tail Wait) FQ_Idle)"
proof -
  have "fq_history False [] (queue_of None None 0 empty_nodes, two FQ_Idle FQ_Idle)"
    using fq_history_init [of False 0, where 'a = nat] unfolding start_queue two_idle .
  then have "fq_history False [Call 0 (Get True)] (queue_of None None 0 empty_nodes, two (FQ_Pop Wait) FQ_Idle)"
    using fq_history_pop [of False "[]" "queue_of None None 0 empty_nodes" "two FQ_Idle FQ_Idle" 0 Wait] by (simp add: blocking_def)
  then have "fq_history False [Call 0 (Get True)] (queue_of (Some 0) None 0 empty_nodes, two (FQ_Get_Tail Wait) FQ_Idle)"
    by (rule two_run(1) [of _ _ _ _ _ 5]) (simp_all add: fq_exec_def)
  then show ?thesis by (rule two_run(1) [of _ _ _ _ _ 5]) (simp_all add: fq_exec_def)
qed

lemma history_block: "fq_history False [Call 0 (Get True)] (queue_of (Some 0) None 0 empty_nodes, two (FQ_Block Wait) FQ_Idle)"
proof -
  have "fq_history False [Call 0 (Get True)] (queue_of (Some 0) (Some 0) 0 empty_nodes, two (FQ_Unlock_Tail Wait 0) FQ_Idle)"
    by (rule two_run(1) [OF history_read, of 5]) (simp_all add: fq_exec_def)
  then have "fq_history False [Call 0 (Get True)] (queue_of (Some 0) None 0 empty_nodes, two (FQ_Test Wait 0) FQ_Idle)"
    by (rule two_run(1) [of _ _ _ _ _ 5]) (simp_all add: fq_exec_def)
  then show ?thesis by (rule two_run(1) [of _ _ _ _ _ 5]) (simp_all add: fq_exec_def blocking_def)
qed

abbreviation new_nodes :: "nat \<Rightarrow> nat fq_node option" where
  "new_nodes \<equiv> [0 \<mapsto> fqn None None, 1 \<mapsto> fqn None None]"

abbreviation full_nodes :: "nat \<Rightarrow> nat fq_node option" where
  "full_nodes \<equiv> [1 \<mapsto> fqn None None, 0 \<mapsto> fqn (Some 7) (Some 1)]"

text \<open>Thread 1 pushes 7 in the meantime and notifies nobody.\<close>

lemma history_pushed: "fq_history False [Call 0 (Get True), Call 1 (Put 7)] (queue_of (Some 0) None 1 full_nodes, two (FQ_Block Wait) FQ_Notify)"
proof -
  have "fq_history False [Call 0 (Get True), Call 1 (Put 7)] (queue_of (Some 0) None 0 empty_nodes, two (FQ_Block Wait) (FQ_Push (7::nat)))"
    using fq_history_push [OF history_block, of 1 7] by simp
  then have "fq_history False [Call 0 (Get True), Call 1 (Put 7)] (queue_of (Some 0) None 0 new_nodes, two (FQ_Block Wait) (FQ_Push_Lock (7::nat) 1))"
    by (rule two_run(2) [of _ _ _ _ _ 1]) (simp_all add: fq_exec_def)
  then have "fq_history False [Call 0 (Get True), Call 1 (Put 7)] (queue_of (Some 0) (Some 1) 0 new_nodes, two (FQ_Block Wait) (FQ_Push_Data (7::nat) 1))"
    by (rule two_run(2) [of _ _ _ _ _ 5]) (simp_all add: fq_exec_def)
  then have "fq_history False [Call 0 (Get True), Call 1 (Put 7)] (queue_of (Some 0) (Some 1) 0 (new_nodes(0 \<mapsto> fqn (Some 7) None)), two (FQ_Block Wait) (FQ_Push_Link (7::nat) 1))"
    by (rule two_run(2) [of _ _ _ _ _ 5]) (simp_all add: fq_exec_def fq_access_def)
  then have "fq_history False [Call 0 (Get True), Call 1 (Put 7)] (queue_of (Some 0) (Some 1) 0 (new_nodes(0 \<mapsto> fqn (Some 7) (Some 1))), two (FQ_Block Wait) (FQ_Push_Tail (7::nat) 1))"
    by (rule two_run(2) [of _ _ _ _ _ 5]) (simp_all add: fq_exec_def fq_access_def)
  then have "fq_history False [Call 0 (Get True), Call 1 (Put 7)] (queue_of (Some 0) (Some 1) 0 full_nodes, two (FQ_Block Wait) (FQ_Push_Tail (7::nat) 1))"
    by (simp add: fun_upd_twist [of 0 1])
  then have "fq_history False [Call 0 (Get True), Call 1 (Put 7)] (queue_of (Some 0) (Some 1) 1 full_nodes, two (FQ_Block Wait) FQ_Push_Unlock)"
    by (rule two_run(2) [of _ _ _ _ _ 5]) (simp_all add: fq_exec_def)
  then show ?thesis by (rule two_run(2) [of _ _ _ _ _ 5]) (simp_all add: fq_exec_def)
qed

lemma history_lost: "fq_history False [Call 0 (Get True), Call 1 (Put 7), Return 1 None] (queue_of None None 1 full_nodes, two (FQ_Sleep Wait) FQ_Idle)"
proof -
  have "\<forall>j m. two (FQ_Block Wait) FQ_Notify j \<noteq> FQ_Sleep m" by (simp add: two_def)
  then have "fq_history False [Call 0 (Get True), Call 1 (Put 7)] (queue_of (Some 0) None 1 full_nodes, two (FQ_Block Wait) (FQ_Returned None))"
    using fq_history_notify_none [OF history_pushed, of 1] by simp
  then have "fq_history False [Call 0 (Get True), Call 1 (Put 7), Return 1 None] (queue_of (Some 0) None 1 full_nodes, two (FQ_Block Wait) FQ_Idle)"
    using fq_history_run [of False _ "queue_of (Some 0) None 1 full_nodes" "two (FQ_Block Wait) (FQ_Returned None)" 5 1 FQ_Idle]
    by (fastforce simp: fq_exec_def fq_returns_def)
  then show ?thesis by (rule two_run(1) [of _ _ _ _ _ 5]) (simp_all add: fq_exec_def)
qed

lemma reach_read: "fq_reach False (queue_of (Some 0) (Some 0) 0 empty_nodes, two (FQ_Read_Tail Wait) FQ_Idle)"
  using history_read fq_history_reach by blast

lemma reach_pushed: "fq_reach False (queue_of (Some 0) None 1 full_nodes, two (FQ_Block Wait) FQ_Notify)"
  using history_pushed fq_history_reach by blast

lemma reach_lost: "fq_reach False (queue_of None None 1 full_nodes, two (FQ_Sleep Wait) FQ_Idle)"
  using history_lost fq_history_reach by blast

text \<open>
  C16: \<open>push\<close> can notify between the moment a waiting pop finds the queue empty and the moment it sleeps, since it does not
  lock the head: the notification is lost. Without a spurious wake-up the thread then sleeps although the queue
  holds an element, both locks are free and no thread is in an operation that could wake it.
\<close>
theorem fq_lost_wakeup:
  "\<exists>(s :: nat threadsafe_queue) C. fq_reach False (s, C) \<and> holds_queue s [7] \<and> C = (\<lambda>_. FQ_Idle)(0 := FQ_Sleep Wait) \<and>
    fq_head_mutex s = None \<and> fq_tail_mutex s = None \<and> (\<forall>j fresh. fq_exec j fresh (C j) s = None)"
proof (intro exI conjI allI)
  show "fq_reach False (queue_of None None 1 full_nodes, two (FQ_Sleep Wait) FQ_Idle)" by (rule reach_lost)
  show "holds_queue (queue_of None None 1 full_nodes) [7]"
    unfolding holds_queue_def by (intro exI [of _ 0] exI [of _ "[(0, 7)]"]) simp
  show "fq_exec j fresh (two (FQ_Sleep Wait) FQ_Idle j) (queue_of None None 1 full_nodes) = None" for j fresh
    by (simp add: two_def fq_exec_def)
  show "two (FQ_Sleep Wait) FQ_Idle = (\<lambda>_. FQ_Idle)(0 := FQ_Sleep Wait)" by (auto simp: two_def fun_eq_iff)
qed simp_all

section \<open>Witnesses\<close>

lemma fq_linearizable_witness:
  "\<exists>E q A. linearizes queue_object [] [Call 0 (Get True), Call 1 (Put 7), Return 1 None] E q A \<and>
    holds_queue (queue_of None None 1 full_nodes) q \<and> (\<forall>i. A i = Idle \<longleftrightarrow> two (FQ_Sleep Wait) FQ_Idle i = (FQ_Idle :: nat fq_pc))"
  by (rule fq_linearizable [OF history_lost])

lemma fq_no_data_race_witness:
  "(L_Tail, True) \<notin> set (fq_accesses (queue_of (Some 0) (Some 0) 0 empty_nodes) (two (FQ_Read_Tail Wait) FQ_Idle 1))"
  by (rule fq_no_data_race [OF reach_read, of 0 _ _ False]) simp_all

lemma fq_no_leak_witness:
  "\<exists>q. holds_queue (queue_of None None 1 full_nodes) q \<and> card (dom (fq_nodes (queue_of None None 1 full_nodes))) = Suc (length q)"
  by (rule fq_no_leak [OF reach_lost]) (simp add: two_def)

lemma fq_defined_and_live_witness:
  "\<exists>i. (two (FQ_Block Wait) FQ_Notify :: nat \<Rightarrow> nat fq_pc) i \<noteq> FQ_Idle \<and> ((two (FQ_Block Wait) FQ_Notify :: nat \<Rightarrow> nat fq_pc) i = FQ_Notify \<or>
    (\<forall>fresh. fq_exec i fresh (two (FQ_Block Wait) FQ_Notify i) (queue_of (Some 0) None 1 full_nodes) \<noteq> None))"
  by (rule mp [OF conjunct2 [OF fq_defined_and_live [OF reach_pushed]]]) (rule exI [of _ 0], simp)

end
