(* ===== verification/Plain_Queue.thy ===== *)
theory Plain_Queue
  imports Cpp_Prelude
begin

text \<open>
  \<open>concurrency/single_thread_queue.cpp\<close>: \<open>queue\<close>, the linked queue for one thread. Its constructor leaves \<open>tail\<close>
  uninitialised, and \<open>try_pop\<close> does not reset it with the last node: the model says exactly when that
  matters. The allocator is a parameter that gives out any address that is not in use. The \<open>const\<close> of \<open>new_tail\<close>, with which
  \<open>push\<close> does not compile, is left out.
\<close>

section \<open>The class\<close>

record 'a pq_node =
  pq_data :: 'a
  pq_next :: "nat option"

datatype pq_pointer = Uninitialised | Nullptr | To nat

record 'a plain_queue =
  pq_head :: "nat option"
  pq_tail :: pq_pointer
  pq_nodes :: "nat \<Rightarrow> 'a pq_node option"

abbreviation pqn :: "'a \<Rightarrow> nat option \<Rightarrow> 'a pq_node" where
  "pqn x p \<equiv> \<lparr>pq_data = x, pq_next = p\<rparr>"

text \<open>
  A queue as a local variable (\<open>Uninitialised\<close>), or as one that lives as long as the program, whose memory is zero
  before the constructor runs (\<open>Nullptr\<close>).
\<close>

definition new_queue :: "pq_pointer \<Rightarrow> 'a plain_queue" where
  "new_queue t = \<lparr>pq_head = None, pq_tail = t, pq_nodes = Map.empty\<rparr>"

definition pq_try_pop :: "'a plain_queue \<Rightarrow> ('a option \<times> 'a plain_queue) result" where
  "pq_try_pop s = (case pq_head s of
     None \<Rightarrow> Inr (None, s)
   | Some h \<Rightarrow> (case pq_nodes s h of
       None \<Rightarrow> Inl Undefined_Behaviour
     | Some n \<Rightarrow> Inr (Some (pq_data n), s\<lparr>pq_head := pq_next n, pq_nodes := (pq_nodes s)(h := None)\<rparr>)))"

text \<open>Overwriting a \<open>unique_ptr\<close> that owns a node would delete nodes of the queue; it does not occur.\<close>

definition pq_push :: "nat \<Rightarrow> 'a \<Rightarrow> 'a plain_queue \<Rightarrow> 'a plain_queue result" where
  "pq_push p x s = (case pq_tail s of
     Uninitialised \<Rightarrow> Inl Undefined_Behaviour
   | Nullptr \<Rightarrow>
       if pq_head s = None then Inr (s\<lparr>pq_head := Some p, pq_tail := To p, pq_nodes := (pq_nodes s)(p \<mapsto> pqn x None)\<rparr>)
       else Inl Undefined_Behaviour
   | To t \<Rightarrow> (case pq_nodes s t of
       None \<Rightarrow> Inl Undefined_Behaviour
     | Some n \<Rightarrow>
         if pq_next n = None then Inr (s\<lparr>pq_tail := To p, pq_nodes := (pq_nodes s)(p \<mapsto> pqn x None, t \<mapsto> n\<lparr>pq_next := Some p\<rparr>)\<rparr>)
         else Inl Undefined_Behaviour))"

section \<open>Programs\<close>

datatype 'a queue_op = Q_Push 'a | Q_Try_Pop

text \<open>The results of the pops of a program.\<close>

fun run_queue :: "((nat \<Rightarrow> 'a pq_node option) \<Rightarrow> nat) \<Rightarrow> 'a queue_op list \<Rightarrow> 'a plain_queue \<Rightarrow> 'a option list result" where
  "run_queue new [] s = Inr []"
| "run_queue new (Q_Push x # ops) s = bind_result (pq_push (new (pq_nodes s)) x s) (run_queue new ops)"
| "run_queue new (Q_Try_Pop # ops) s =
     bind_result (pq_try_pop s) (\<lambda>(v, s'). bind_result (run_queue new ops s') (\<lambda>vs. Inr (v # vs)))"

text \<open>The same of a list of values, where \<open>drained\<close> says that the queue had elements and has none now.\<close>

fun fifo_until_drained :: "bool \<Rightarrow> 'a list \<Rightarrow> 'a queue_op list \<Rightarrow> 'a option list result" where
  "fifo_until_drained drained q [] = Inr []"
| "fifo_until_drained drained q (Q_Push x # ops) =
     (if drained then Inl Undefined_Behaviour else fifo_until_drained False (q @ [x]) ops)"
| "fifo_until_drained drained [] (Q_Try_Pop # ops) = bind_result (fifo_until_drained drained [] ops) (\<lambda>vs. Inr (None # vs))"
| "fifo_until_drained drained (x # q) (Q_Try_Pop # ops) =
     bind_result (fifo_until_drained (q = []) q ops) (\<lambda>vs. Inr (Some x # vs))"

section \<open>The links\<close>

fun pq_chain :: "(nat \<Rightarrow> 'a pq_node option) \<Rightarrow> (nat \<times> 'a) list \<Rightarrow> bool" where
  "pq_chain m [] \<longleftrightarrow> True"
| "pq_chain m ((a, x) # r) \<longleftrightarrow> m a = Some (pqn x (case r of [] \<Rightarrow> None | (b, y) # r' \<Rightarrow> Some b)) \<and> pq_chain m r"

lemma pq_chain_cong: "pq_chain m r \<Longrightarrow> (\<And>a. a \<in> set (map fst r) \<Longrightarrow> m' a = m a) \<Longrightarrow> pq_chain m' r"
  by (induction r) auto

lemma pq_chain_last: "pq_chain m (r @ [(t, y)]) \<Longrightarrow> m t = Some (pqn y None)"
  by (induction r) auto

lemma pq_chain_snoc:
  assumes "pq_chain m (r @ [(t, y)])" "distinct (map fst r @ [t, p])"
  shows "pq_chain (m(p \<mapsto> pqn x None, t \<mapsto> pqn y (Some p))) (r @ [(t, y), (p, x)])"
  using assms
proof (induction r)
  case (Cons b r)
  then show ?case by (cases b; cases r) auto
qed auto

definition pq_inv :: "'a plain_queue \<Rightarrow> bool \<Rightarrow> (nat \<times> 'a) list \<Rightarrow> bool" where
  "pq_inv s drained r \<longleftrightarrow> dom (pq_nodes s) = set (map fst r) \<and> distinct (map fst r) \<and> pq_chain (pq_nodes s) r \<and>
     (if r = [] then pq_head s = None \<and> (if drained then \<exists>t. pq_tail s = To t else pq_tail s = Nullptr)
      else \<not> drained \<and> pq_head s = Some (fst (hd r)) \<and> pq_tail s = To (fst (last r)))"

lemma pq_push_inv:
  assumes inv: "pq_inv s False r" and p: "pq_nodes s p = None"
  shows "\<exists>s'. pq_push p x s = Inr s' \<and> pq_inv s' False (r @ [(p, x)])"
proof (cases r rule: rev_cases)
  case Nil
  then show ?thesis using inv by (auto simp: pq_inv_def pq_push_def)
next
  case (snoc r' b)
  obtain t y where b: "b = (t, y)" by (cases b)
  have chain: "pq_chain (pq_nodes s) (r' @ [(t, y)])" and dist: "distinct (map fst r' @ [t])" and "dom (pq_nodes s) = insert t (fst ` set r')"
    using inv unfolding pq_inv_def snoc b by auto
  moreover from this have new: "p \<noteq> t" "p \<notin> fst ` set r'" using p by auto
  ultimately have "pq_chain ((pq_nodes s)(p \<mapsto> pqn x None, t \<mapsto> pqn y (Some p))) (r' @ [(t, y), (p, x)])"
    by (intro pq_chain_snoc) auto
  moreover have "pq_nodes s t = Some (pqn y None)" by (rule pq_chain_last [OF chain])
  ultimately show ?thesis using inv new dist unfolding pq_inv_def snoc b
    by (auto simp: pq_push_def hd_append)
qed

lemma pq_try_pop_inv:
  "pq_inv s d [] \<Longrightarrow> pq_try_pop s = Inr (None, s)"
  "pq_inv s d ((a, x) # r) \<Longrightarrow> \<exists>s'. pq_try_pop s = Inr (Some x, s') \<and> pq_inv s' (r = []) r"
proof -
  assume inv: "pq_inv s d ((a, x) # r)"
  have "pq_chain ((pq_nodes s)(a := None)) r"
    by (rule pq_chain_cong [of "pq_nodes s"]) (use inv in \<open>auto simp: pq_inv_def\<close>)
  then show "\<exists>s'. pq_try_pop s = Inr (Some x, s') \<and> pq_inv s' (r = []) r"
    using inv by (cases r) (auto simp: pq_inv_def pq_try_pop_def fun_eq_iff simp flip: dom_eq_empty_conv)
qed (simp add: pq_inv_def pq_try_pop_def)

lemma run_queue_inv:
  assumes new: "\<And>m. finite (dom m) \<Longrightarrow> m (new m) = None"
  shows "pq_inv s d r \<Longrightarrow> run_queue new ops s = fifo_until_drained d (map snd r) ops"
proof (induction ops arbitrary: s d r)
  case (Cons op ops)
  have "finite (dom (pq_nodes s))" using Cons.prems by (simp add: pq_inv_def)
  note fresh = new [OF this]
  show ?case
  proof (cases op)
    case (Q_Push x)
    show ?thesis
    proof (cases d)
      case True
      then obtain t where "pq_tail s = To t" "pq_nodes s = Map.empty" using Cons.prems by (auto simp: pq_inv_def split: if_splits)
      then show ?thesis using True Q_Push by (simp add: pq_push_def)
    next
      case False
      then obtain s' where s': "pq_push (new (pq_nodes s)) x s = Inr s'" "pq_inv s' False (r @ [(new (pq_nodes s), x)])"
        using pq_push_inv [of s r "new (pq_nodes s)" x] fresh Cons.prems by auto
      then show ?thesis using Cons.IH [OF s'(2)] False Q_Push by simp
    qed
  next
    case Q_Try_Pop
    show ?thesis
    proof (cases r)
      case Nil
      then show ?thesis using Cons.prems Cons.IH [OF Cons.prems] pq_try_pop_inv(1) [of s d] Q_Try_Pop by simp
    next
      case (Cons b r')
      obtain a x where b: "b = (a, x)" by (cases b)
      then obtain s' where s': "pq_try_pop s = Inr (Some x, s')" "pq_inv s' (r' = []) r'"
        using pq_try_pop_inv(2) [of s d a x r'] Cons.prems Cons by auto
      then show ?thesis using Cons.IH [OF s'(2)] Q_Try_Pop Cons b by simp
    qed
  qed
qed simp

text \<open>
  C40: a \<open>queue\<close> in static storage is a FIFO queue up to the first push after its last element has been popped: that push writes
  through \<open>tail\<close> into the deleted node. A \<open>queue\<close> that is a local variable does not survive its first push.
\<close>
theorem plain_queue_until_drained:
  assumes "\<And>m. finite (dom m) \<Longrightarrow> m (new m) = None"
  shows "run_queue new ops (new_queue Nullptr) = fifo_until_drained False [] ops \<and>
    pq_push p x (new_queue Uninitialised) = Inl Undefined_Behaviour"
proof -
  have "pq_inv (new_queue Nullptr) False []" by (simp add: pq_inv_def new_queue_def)
  from run_queue_inv [OF assms this] show ?thesis by (simp add: pq_push_def new_queue_def)
qed

lemma plain_queue_until_drained_witness:
  "run_queue (\<lambda>m. LEAST a. m a = None) [Q_Push 1, Q_Push 2, Q_Try_Pop, Q_Try_Pop, Q_Try_Pop] (new_queue Nullptr) =
     Inr [Some (1::nat), Some 2, None] \<and>
   run_queue (\<lambda>m. LEAST a. m a = None) [Q_Push 1, Q_Try_Pop, Q_Push (2::nat)] (new_queue Nullptr) = Inl Undefined_Behaviour"
proof -
  let ?new = "\<lambda>m :: nat \<Rightarrow> nat pq_node option. LEAST a. m a = None"
  have run: "run_queue ?new ops (new_queue Nullptr) = fifo_until_drained False [] ops" for ops
  proof (rule plain_queue_until_drained [THEN conjunct1])
    fix m :: "nat \<Rightarrow> nat pq_node option" assume fin: "finite (dom m)"
    have "\<exists>a. m a = None" using ex_new_if_finite [OF infinite_UNIV_nat fin] by (simp add: dom_def)
    then show "m (LEAST a. m a = None) = None" by (rule LeastI_ex)
  qed
  show ?thesis unfolding run by simp
qed

end
