(* ===== verification/Fourier.thy ===== *)
theory Fourier
  imports Cpp_Prelude Complex_Main
begin

text \<open>
  \<open>tensor/fft.hpp\<close>: the recursive fast Fourier transform and the multiplication of polynomials by it.
  \<open>cd\<close> is a complex number without rounding: the theorems are about the algorithm in exact arithmetic. The
  transform itself is defined over any field, with the numbers \<open>cd(cos(ang), sin(ang))\<close> that it computes as
  an argument, so that it can be evaluated. \<open>None\<close> is an access outside of a vector or a recursion that does not end.
\<close>

section \<open>The transform\<close>

definition evens :: "'a list \<Rightarrow> 'a list" where
  "evens a = map (\<lambda>i. a ! (2 * i)) [0..<length a div 2]"

definition odds :: "'a list \<Rightarrow> 'a list" where
  "odds a = map (\<lambda>i. a ! (2 * i + 1)) [0..<length a div 2]"

text \<open>One round of the loop that joins the two halves: \<open>a\<close> and \<open>w\<close>.\<close>

definition butterfly :: "bool \<Rightarrow> 'a::field \<Rightarrow> nat \<Rightarrow> 'a list \<Rightarrow> 'a list \<Rightarrow> nat \<Rightarrow> 'a list \<times> 'a \<Rightarrow> 'a list \<times> 'a" where
  "butterfly invert wn n a0 a1 i s = (case s of (a, w) \<Rightarrow>
     let a = a[i := a0 ! i + w * a1 ! i];
         a = a[i + n div 2 := a0 ! i - w * a1 ! i];
         a = (if invert then a[i := a ! i / 2] else a);
         a = (if invert then a[i + n div 2 := a ! (i + n div 2) / 2] else a)
     in (a, w * wn))"

text \<open>A vector of odd length other than 1 is read and written behind its end.\<close>

partial_function (option) fft :: "(nat \<Rightarrow> bool \<Rightarrow> 'a::field) \<Rightarrow> bool \<Rightarrow> 'a list \<Rightarrow> 'a list option" where
  "fft unity invert a = (let n = length a in
     if n = 1 then Some a
     else if odd n then None
     else Option.bind (fft unity invert (evens a)) (\<lambda>a0.
       Option.bind (fft unity invert (odds a)) (\<lambda>a1.
       Some (fst (fold (butterfly invert (unity n invert) n a0 a1) [0..<n div 2] (a, 1))))))"

declare fft.simps [code]

text \<open>\<open>ang\<close>, and \<open>wn\<close> for complex numbers.\<close>

definition complex_unity :: "nat \<Rightarrow> bool \<Rightarrow> complex" where
  "complex_unity n invert = (let ang = 2 * pi / real n * (if invert then -1 else 1) in Complex (cos ang) (sin ang))"

section \<open>Multiplication\<close>

function next_size :: "nat \<Rightarrow> nat \<Rightarrow> nat" where
  "next_size m n = (if n < m \<and> 0 < n then next_size m (2 * n) else n)"
  by pat_completeness auto
termination by (relation "measure (\<lambda>(m, n). m - n)") auto

declare next_size.simps [simp del]

definition resize :: "nat \<Rightarrow> 'a::zero list \<Rightarrow> 'a list" where
  "resize n a = take n a @ replicate (n - length a) 0"

text \<open>\<open>std::round\<close>: halves are rounded away from zero.\<close>

definition c_round :: "real \<Rightarrow> int" where
  "c_round x = (if 0 \<le> x then \<lfloor>x + 1 / 2\<rfloor> else \<lceil>x - 1 / 2\<rceil>)"

definition multiply_with :: "(nat \<Rightarrow> bool \<Rightarrow> 'a::field) \<Rightarrow> ('a \<Rightarrow> int) \<Rightarrow> int list \<Rightarrow> int list \<Rightarrow> int list option" where
  "multiply_with unity to_int a b = (let n = next_size (length a + length b) 1 in
     Option.bind (fft unity False (resize n (map of_int a))) (\<lambda>fa.
     Option.bind (fft unity False (resize n (map of_int b))) (\<lambda>fb.
     Option.bind (fft unity True (map2 (*) fa fb)) (\<lambda>fa.
     Some (map to_int fa)))))"

definition multiply :: "int list \<Rightarrow> int list \<Rightarrow> int list option" where
  "multiply = multiply_with complex_unity (\<lambda>z. c_round (Re z))"

section \<open>The loop\<close>

definition dft :: "'a::field \<Rightarrow> 'a list \<Rightarrow> nat \<Rightarrow> 'a" where
  "dft w a i = (\<Sum>j<length a. a ! j * w ^ (i * j))"

lemma length_halves [simp]: "length (evens a) = length a div 2" "length (odds a) = length a div 2"
  by (simp_all add: evens_def odds_def)

lemma loop_ok:
  assumes a: "length a = 2 * h" and k: "k \<le> h"
  shows "fold (butterfly invert wn (2 * h) a0 a1) [0..<k] (a, 1) =
    (map (\<lambda>i. if i < k then (a0 ! i + wn ^ i * a1 ! i) / (if invert then 2 else 1)
       else if h \<le> i \<and> i < h + k then (a0 ! (i - h) - wn ^ (i - h) * a1 ! (i - h)) / (if invert then 2 else 1)
       else a ! i) [0..<2 * h], wn ^ k)"
  using k
proof (induction k)
  case 0
  then show ?case using a by (auto intro!: nth_equalityI)
next
  case (Suc k)
  then show ?case
    by (auto simp: butterfly_def Let_def nth_list_update intro!: nth_equalityI)
qed

lemma sum_even_odd: "(\<Sum>j<2 * h. f j) = (\<Sum>j<h. f (2 * j)) + (\<Sum>j<h. f (2 * j + 1))" for f :: "nat \<Rightarrow> 'a::comm_monoid_add"
  by (induction h) (simp_all add: algebra_simps)

lemma dft_split:
  assumes "length a = 2 * h"
  shows "dft w a i = dft (w ^ 2) (evens a) i + w ^ i * dft (w ^ 2) (odds a) i"
proof -
  have "dft w a i = (\<Sum>j<h. a ! (2 * j) * w ^ (i * (2 * j))) + (\<Sum>j<h. a ! (2 * j + 1) * w ^ (i * (2 * j + 1)))"
    using assms by (simp add: dft_def sum_even_odd)
  also have "(\<Sum>j<h. a ! (2 * j) * w ^ (i * (2 * j))) = dft (w ^ 2) (evens a) i"
    using assms by (auto simp: dft_def evens_def power_mult [symmetric] ac_simps intro!: sum.cong)
  also have "(\<Sum>j<h. a ! (2 * j + 1) * w ^ (i * (2 * j + 1))) = w ^ i * dft (w ^ 2) (odds a) i"
    using assms unfolding dft_def sum_distrib_left
    by (auto simp: odds_def power_mult [symmetric] power_add algebra_simps intro!: sum.cong)
  finally show ?thesis .
qed


lemma dft_period:
  assumes "w ^ length a = 1"
  shows "dft w a (i + length a) = dft w a i"
proof -
  have "w ^ ((i + length a) * j) = w ^ (i * j)" for j
    using assms by (simp add: add_mult_distrib power_add power_mult)
  then show ?thesis by (simp add: dft_def)
qed

text \<open>The numbers \<open>u n\<close> are principal roots of unity for powers of two.\<close>

definition principal :: "(nat \<Rightarrow> 'a::field) \<Rightarrow> bool" where
  "principal u \<longleftrightarrow> (\<forall>k. u (2 ^ Suc k) ^ 2 = u (2 ^ k) \<and> u (2 ^ Suc k) ^ (2 ^ k) = -1)"

lemma principal_power: "principal u \<Longrightarrow> u (2 ^ k) ^ (2 ^ k) = 1"
proof (cases k)
  case 0
  assume u: "principal u"
  have "u (2 ^ Suc 0) ^ 2 = u (2 ^ 0)" "u (2 ^ Suc 0) ^ (2 ^ 0) = -1" using u unfolding principal_def by blast+
  then show ?thesis using 0 by simp
next
  case (Suc l)
  assume u: "principal u"
  have "u (2 ^ k) ^ (2 ^ k) = (u (2 ^ Suc l) ^ (2 ^ l)) ^ 2" unfolding Suc by (simp add: power_mult [symmetric] mult.commute)
  also have "u (2 ^ Suc l) ^ (2 ^ l) = -1" using u unfolding principal_def by blast
  finally show ?thesis by simp
qed

lemma fft_dft:
  assumes u: "principal (\<lambda>n. unity n invert)"
  shows "length a = 2 ^ k \<Longrightarrow> fft unity invert a =
    Some (map (\<lambda>i. dft (unity (2 ^ k) invert) a i / (if invert then 2 ^ k else 1)) [0..<2 ^ k])"
proof (induction k arbitrary: a)
  case 0
  then obtain x where "a = [x]" by (cases a) auto
  then show ?case by (simp add: fft.simps dft_def)
next
  case (Suc k)
  let ?h = "2 ^ k :: nat" and ?w = "unity (2 ^ Suc k) invert" and ?c = "if invert then 2 ^ k else (1::'a)"
  have w: "?w ^ 2 = unity ?h invert" "?w ^ ?h = -1" using u unfolding principal_def by blast+
  have period: "unity ?h invert ^ ?h = 1" using principal_power [OF u] .
  let ?E = "map (\<lambda>i. dft (unity ?h invert) (evens a) i / ?c) [0..<?h]"
  let ?O = "map (\<lambda>i. dft (unity ?h invert) (odds a) i / ?c) [0..<?h]"
  have "fft unity invert a = Some (fst (fold (butterfly invert ?w (2 * ?h) ?E ?O) [0..<?h] (a, 1)))"
    using Suc.prems by (subst fft.simps) (simp add: Let_def Suc.IH)
  also have "fst (fold (butterfly invert ?w (2 * ?h) ?E ?O) [0..<?h] (a, 1)) =
      map (\<lambda>i. dft ?w a i / (if invert then 2 ^ Suc k else 1)) [0..<2 ^ Suc k]"
  proof (rule nth_equalityI)
    fix i assume "i < length (fst (fold (butterfly invert ?w (2 * ?h) ?E ?O) [0..<?h] (a, 1)))"
    then have i: "i < 2 * ?h" using Suc.prems by (simp add: loop_ok)
    show "fst (fold (butterfly invert ?w (2 * ?h) ?E ?O) [0..<?h] (a, 1)) ! i =
        map (\<lambda>i. dft ?w a i / (if invert then 2 ^ Suc k else 1)) [0..<2 ^ Suc k] ! i"
    proof (cases "i < ?h")
      case True
      have "dft ?w a i = dft (unity ?h invert) (evens a) i + ?w ^ i * dft (unity ?h invert) (odds a) i"
        using dft_split [of a ?h ?w i] Suc.prems w(1) by simp
      then show ?thesis using True i Suc.prems by (simp add: loop_ok add_divide_distrib mult.commute [of _ 2])
    next
      case False
      then obtain d where d: "i = d + ?h" "d < ?h" using i by (metis add.commute add_less_cancel_left le_add_diff_inverse2 mult_2 not_le_imp_less less_imp_le_nat not_less)
      have "dft ?w a i = dft (unity ?h invert) (evens a) d - ?w ^ d * dft (unity ?h invert) (odds a) d"
        using dft_split [of a ?h ?w i] Suc.prems w dft_period [of "unity ?h invert" "evens a" d] dft_period [of "unity ?h invert" "odds a" d] period
        by (simp add: d(1) power_add)
      then show ?thesis using d i Suc.prems by (simp add: loop_ok diff_divide_distrib mult.commute [of _ 2])
    qed
  qed (use Suc.prems in \<open>simp add: loop_ok\<close>)
  finally show ?case .
qed


section \<open>Lengths that are no power of two\<close>

lemma fft_length: "fft unity invert a = Some b \<Longrightarrow> \<exists>k. length a = 2 ^ k"
proof (rule fft.raw_induct [where P = "\<lambda>unity invert a b. \<exists>k. length a = 2 ^ k", rotated])
  fix f :: "(nat \<Rightarrow> bool \<Rightarrow> 'a) \<Rightarrow> bool \<Rightarrow> 'a list \<Rightarrow> 'a list option" and unity invert a b
  assume IH: "\<And>unity invert a b. f unity invert a = Some b \<Longrightarrow> \<exists>k. length a = 2 ^ k"
    and run: "(let n = length a in
     if n = 1 then Some a
     else if odd n then None
     else Option.bind (f unity invert (evens a)) (\<lambda>a0.
       Option.bind (f unity invert (odds a)) (\<lambda>a1.
       Some (fst (fold (butterfly invert (unity n invert) n a0 a1) [0..<n div 2] (a, 1)))))) = Some b"
  show "\<exists>k. length a = 2 ^ k"
  proof (cases "length a = 1")
    case True
    then show ?thesis by (intro exI [of _ 0]) simp
  next
    case False
    then have "even (length a)" using run by (auto simp: Let_def split: if_splits)
    moreover from this obtain a0 where "f unity invert (evens a) = Some a0"
      using run False by (auto simp: Let_def bind_eq_Some_conv)
    then obtain k where "length (evens a) = 2 ^ k" using IH by blast
    ultimately show ?thesis by (intro exI [of _ "Suc k"]) auto
  qed
qed

section \<open>The inverse\<close>

lemma two_part: "0 < d \<Longrightarrow> \<exists>e m. d = 2 ^ e * m \<and> odd m" for d :: nat
proof (induction d rule: less_induct)
  case (less d)
  show ?case
  proof (cases "odd d")
    case True
    then show ?thesis by (intro exI [of _ 0] exI [of _ d]) simp
  next
    case False
    then obtain c where c: "d = 2 * c" by blast
    then obtain e m where "c = 2 ^ e * m" "odd m" using less.IH [of c] less.prems by auto
    then show ?thesis using c by (intro exI [of _ "Suc e"] exI [of _ m]) simp
  qed
qed

lemma principal_ne_1:
  fixes u :: "nat \<Rightarrow> 'a::field"
  assumes u: "principal u" and two: "(2::'a) \<noteq> 0" and d: "0 < d" "d < 2 ^ k"
  shows "u (2 ^ k) ^ d \<noteq> (1::'a)"
proof
  assume one: "u (2 ^ k) ^ d = 1"
  obtain e m where em: "d = 2 ^ e * m" "odd m" using two_part [OF d(1)] by blast
  have "(2::nat) ^ e \<le> d" using em by (cases m) auto
  then have "(2::nat) ^ e < 2 ^ k" using d(2) by linarith
  then have ek: "e < k" by (metis one_less_numeral_iff power_less_imp_less_exp semiring_norm(76))
  then obtain l where l: "k = Suc l" by (cases k) auto
  have "u (2 ^ k) ^ (2 ^ l * m) = (u (2 ^ k) ^ d) ^ (2 ^ (l - e))"
    using ek l by (simp add: em(1) power_mult [symmetric] power_add [symmetric] mult.assoc mult.left_commute mult.commute)
  then have "(u (2 ^ k) ^ (2 ^ l)) ^ m = 1" using one by (simp add: power_mult)
  moreover have "u (2 ^ k) ^ (2 ^ l) = -1" using u l unfolding principal_def by blast
  ultimately have "(-1::'a) = 1" using em(2) by simp
  then show False using two by (metis add.right_inverse one_add_one)
qed

lemma geometric_zero:
  assumes "x ^ n = 1" "x \<noteq> (1::'a::field)"
  shows "(\<Sum>j<n. x ^ j) = 0"
  using assms by (simp add: sum_gp_strict)

lemma power_cancel:
  fixes v w :: "'a::field"
  assumes vw: "v * w = 1" and one: "v ^ i * w ^ l = 1" and ne: "l \<noteq> i"
  shows "\<exists>d. 0 < d \<and> d \<le> max i l \<and> w ^ d = 1"
proof (cases "i < l")
  case True
  then obtain d where d: "l = i + d" using less_imp_add_positive by blast
  have "w ^ d = (v * w) ^ i * w ^ d" using vw by simp
  also have "\<dots> = v ^ i * w ^ l" by (simp add: d power_add power_mult_distrib)
  finally show ?thesis using one True d by (intro exI [of _ d]) auto
next
  case False
  then have "l < i" using ne by simp
  then obtain d where d: "i = l + d" using less_imp_add_positive by blast
  have "w ^ d * (v ^ i * w ^ l) = (v * w) ^ i" by (simp add: d power_add power_mult_distrib)
  then show ?thesis using one vw \<open>l < i\<close> d by (intro exI [of _ d]) auto
qed

lemma inverse_dft:
  fixes u :: "nat \<Rightarrow> 'a::field"
  assumes u: "principal u" and two: "(2::'a) \<noteq> 0" and v: "v * u (2 ^ k) = 1" and i: "i < 2 ^ k"
    and a: "length a = 2 ^ k"
  shows "dft v (map (dft (u (2 ^ k)) a) [0..<2 ^ k]) i = 2 ^ k * a ! i"
proof -
  let ?n = "2 ^ k :: nat" and ?w = "u (2 ^ k)"
  have one: "?w ^ ?n = 1" "v ^ ?n = 1" using principal_power [OF u] v by (simp_all, metis mult_1_right power_mult_distrib power_one)
  have wv: "?w ^ m * v ^ m = 1" for m using v by (metis mult.commute power_mult_distrib power_one)
  have orth: "(\<Sum>j<?n. v ^ (i * j) * ?w ^ (j * l)) = (if l = i then of_nat ?n else 0)" if l: "l < ?n" for l
  proof -
    have "(\<Sum>j<?n. v ^ (i * j) * ?w ^ (j * l)) = (\<Sum>j<?n. (v ^ i * ?w ^ l) ^ j)"
      by (simp add: power_mult [symmetric] power_mult_distrib mult.commute)
    moreover have "(v ^ i * ?w ^ l) ^ ?n = 1"
      using one by (simp add: power_mult_distrib power_mult [symmetric] mult.commute [of _ ?n] ) (simp add: power_mult)
    moreover have "v ^ i * ?w ^ l \<noteq> 1" if "l \<noteq> i"
    proof
      assume eq: "v ^ i * ?w ^ l = 1"
      then have "\<exists>d. 0 < d \<and> d \<le> max i l \<and> ?w ^ d = 1" using power_cancel [OF v _ that] by blast
      then have "\<exists>d. 0 < d \<and> d < ?n \<and> ?w ^ d = 1" using i l by auto
      then show False using principal_ne_1 [OF u two] by blast
    qed
    moreover have "(\<Sum>j<?n. (v ^ i * ?w ^ i) ^ j) = of_nat ?n" using wv [of i] by (simp add: mult.commute)
    ultimately show ?thesis using geometric_zero by auto
  qed
  have "dft v (map (dft ?w a) [0..<?n]) i = (\<Sum>j<?n. dft ?w a j * v ^ (i * j))" by (simp add: dft_def [of v])
  also have "\<dots> = (\<Sum>j<?n. \<Sum>l<?n. a ! l * (v ^ (i * j) * ?w ^ (j * l)))"
    by (intro sum.cong refl) (simp add: dft_def [of ?w] a sum_distrib_left ac_simps)
  also have "\<dots> = (\<Sum>l<?n. a ! l * (\<Sum>j<?n. v ^ (i * j) * ?w ^ (j * l)))"
    by (subst sum.swap) (simp add: sum_distrib_left)
  also have "\<dots> = (\<Sum>l<?n. if l = i then a ! l * of_nat ?n else 0)" using orth by (intro sum.cong) auto
  also have "\<dots> = a ! i * of_nat ?n" using i by simp
  finally show ?thesis by (simp add: mult.commute)
qed


section \<open>Complex numbers\<close>

lemma complex_unity_cis: "complex_unity n invert = cis (2 * pi / real n * (if invert then -1 else 1))"
  by (simp add: complex_unity_def cis.ctr Let_def)

lemma principal_complex: "principal (\<lambda>n. complex_unity n invert)"
  unfolding principal_def
proof (intro allI conjI)
  fix k :: nat
  let ?s = "if invert then -1 else (1::real)"
  show "complex_unity (2 ^ Suc k) invert ^ 2 = complex_unity (2 ^ k) invert"
    unfolding complex_unity_cis by (simp add: DeMoivre power2_eq_square cis_mult)
  have "complex_unity (2 ^ Suc k) invert ^ (2 ^ k) = cis (real (2 ^ k) * (2 * pi / real (2 ^ Suc k) * ?s))"
    unfolding complex_unity_cis by (rule DeMoivre)
  also have "real (2 ^ k) * (2 * pi / real (2 ^ Suc k) * ?s) = pi * ?s" by simp
  finally show "complex_unity (2 ^ Suc k) invert ^ (2 ^ k) = -1" by (simp add: cis.ctr complex_eq_iff)
qed

lemma complex_unity_inverse: "complex_unity n True * complex_unity n False = 1"
  by (simp add: complex_unity_cis cis_mult)

lemma fft_values:
  "length a = 2 ^ k \<Longrightarrow> fft complex_unity False a = Some (map (dft (complex_unity (2 ^ k) False) a) [0..<2 ^ k])"
  using fft_dft [of complex_unity False, OF principal_complex] by simp

lemma fft_inverse:
  assumes a: "length a = 2 ^ k"
  shows "fft complex_unity True (map (dft (complex_unity (2 ^ k) False) a) [0..<2 ^ k]) = Some a"
proof -
  let ?b = "map (dft (complex_unity (2 ^ k) False) a) [0..<2 ^ k]"
  have "fft complex_unity True ?b = Some (map (\<lambda>i. dft (complex_unity (2 ^ k) True) ?b i / 2 ^ k) [0..<2 ^ k])"
    using fft_dft [of complex_unity True, OF principal_complex, of ?b k] by simp
  moreover have "dft (complex_unity (2 ^ k) True) ?b i / 2 ^ k = a ! i" if "i < 2 ^ k" for i
    using inverse_dft [OF principal_complex [of False] _ complex_unity_inverse that a] by simp
  then have "map (\<lambda>i. dft (complex_unity (2 ^ k) True) ?b i / 2 ^ k) [0..<2 ^ k] = map (\<lambda>i. a ! i) [0..<2 ^ k]" by simp
  then have "map (\<lambda>i. dft (complex_unity (2 ^ k) True) ?b i / 2 ^ k) [0..<2 ^ k] = a" using a map_nth [of a] by metis
  ultimately show ?thesis by simp
qed

text \<open>
  C22: the transform returns exactly on vectors whose length is a power of two. It evaluates the polynomial with the
  elements as coefficients at the powers of the root of unity, and the inverse transform gives the elements back.
\<close>
theorem fft_transforms:
  "((\<exists>b. fft complex_unity invert a = Some b) \<longleftrightarrow> (\<exists>k. length a = 2 ^ k)) \<and>
   (\<forall>k. length a = 2 ^ k \<longrightarrow>
      fft complex_unity False a = Some (map (\<lambda>i. \<Sum>j<2 ^ k. a ! j * cis (2 * pi / 2 ^ k) ^ (i * j)) [0..<2 ^ k]) \<and>
      Option.bind (fft complex_unity False a) (fft complex_unity True) = Some a)"
  using fft_length [of complex_unity invert a] fft_dft [of complex_unity invert, OF principal_complex, of a] fft_inverse
  by (auto simp: fft_values dft_def complex_unity_cis)

lemma fft_transforms_witness:
  "Option.bind (fft complex_unity False [1, 2, 3, 4]) (fft complex_unity True) = Some [1, 2, 3, 4]"
proof -
  have "length [1, 2, 3, 4 :: complex] = 2 ^ 2" by simp
  then show ?thesis using fft_transforms [of False "[1, 2, 3, 4]"] by blast
qed

section \<open>The product\<close>

definition coefficient :: "int list \<Rightarrow> nat \<Rightarrow> int" where
  "coefficient a i = (if i < length a then a ! i else 0)"

definition product_coefficient :: "int list \<Rightarrow> int list \<Rightarrow> nat \<Rightarrow> int" where
  "product_coefficient a b k = (\<Sum>i\<le>k. coefficient a i * coefficient b (k - i))"

lemma next_size_power: "\<exists>k. next_size m (2 ^ j) = 2 ^ k"
proof (induction m "2 ^ j :: nat" arbitrary: j rule: next_size.induct)
  case (1 m)
  show ?case
  proof (cases "(2::nat) ^ j < m")
    case True
    then show ?thesis using 1 [of "Suc j"] by (subst next_size.simps) simp
  qed (subst next_size.simps, auto)
qed

lemma next_size_least: "0 < n \<Longrightarrow> m \<le> next_size m n"
  by (induction m n rule: next_size.induct) (subst next_size.simps, auto)

lemma resize_nth: "i < n \<Longrightarrow> resize n (map of_int a) ! i = (of_int (coefficient a i) :: complex)"
  by (auto simp: resize_def coefficient_def nth_append)

lemma length_resize [simp]: "length (resize n a) = n"
  by (auto simp: resize_def)

lemma sum_coefficient:
  assumes "length a \<le> n" "0 < n"
  shows "(\<Sum>j<n. of_int (coefficient a j) * x ^ j) = (\<Sum>j\<le>length a - 1. of_int (coefficient a j) * x ^ j :: complex)"
  by (rule sum.mono_neutral_right) (use assms in \<open>auto simp: coefficient_def\<close>)

lemma c_round_of_int: "c_round (real_of_int z) = z"
  unfolding c_round_def by (auto; linarith)

lemma dft_product:
  fixes w :: complex and i :: nat
  assumes n: "length a + length b \<le> n" "0 < n"
  shows "dft w (resize n (map of_int a)) i * dft w (resize n (map of_int b)) i =
    dft w (map (\<lambda>k. of_int (product_coefficient a b k)) [0..<n]) i"
proof -
  let ?x = "w ^ i"
  let ?c = "\<lambda>a j. of_int (coefficient a j) :: complex"
  have eval: "dft w (resize n (map of_int d)) i = (\<Sum>j\<le>length d - 1. ?c d j * ?x ^ j)" if "length d \<le> n" for d
    using sum_coefficient [OF that n(2), of ?x] by (simp add: dft_def resize_nth power_mult)
  have "dft w (resize n (map of_int a)) i * dft w (resize n (map of_int b)) i =
      (\<Sum>r\<le>(length a - 1) + (length b - 1). (\<Sum>k\<le>r. ?c a k * ?c b (r - k)) * ?x ^ r)"
    using n by (simp add: eval) (intro polynomial_product; auto simp: coefficient_def)
  also have "\<dots> = (\<Sum>r<n. (\<Sum>k\<le>r. ?c a k * ?c b (r - k)) * ?x ^ r)"
  proof (rule sum.mono_neutral_left)
    show "\<forall>r\<in>{..<n} - {..length a - 1 + (length b - 1)}. (\<Sum>k\<le>r. ?c a k * ?c b (r - k)) * ?x ^ r = 0"
    proof
      fix r assume r: "r \<in> {..<n} - {..length a - 1 + (length b - 1)}"
      have "coefficient a k = 0 \<or> coefficient b (r - k) = 0" if "k \<le> r" for k
        using r that by (auto simp: coefficient_def)
      then have "(\<Sum>k\<le>r. ?c a k * ?c b (r - k)) = 0" by (intro sum.neutral) auto
      then show "(\<Sum>k\<le>r. ?c a k * ?c b (r - k)) * ?x ^ r = 0" by simp
    qed
  qed (use n in auto)
  also have "\<dots> = dft w (map (\<lambda>k. of_int (product_coefficient a b k)) [0..<n]) i"
    by (simp add: dft_def product_coefficient_def power_mult)
  finally show ?thesis .
qed

text \<open>
  C23: in exact arithmetic \<open>multiply\<close> returns the coefficients of the product of the two polynomials, followed by zeros
  up to the next power of two.
\<close>
theorem multiply_correct:
  "multiply a b = Some (map (product_coefficient a b) [0..<next_size (length a + length b) 1])"
proof -
  define n where "n = next_size (length a + length b) 1"
  obtain k where k: "n = 2 ^ k" using next_size_power [of "length a + length b" 0] by (auto simp: n_def)
  have n: "length a + length b \<le> n" "0 < n" using next_size_least [of 1 "length a + length b"] k by (auto simp: n_def)
  let ?c = "map (\<lambda>k. of_int (product_coefficient a b k)) [0..<n] :: complex list"
  let ?u = "complex_unity n False"
  have "fft complex_unity False (resize n (map of_int d)) = Some (map (dft ?u (resize n (map of_int d))) [0..<n])" for d :: "int list"
    using fft_values [of "resize n (map of_int d)" k] k by simp
  moreover have "map2 (*) (map (dft ?u (resize n (map of_int a))) [0..<n]) (map (dft ?u (resize n (map of_int b))) [0..<n]) = map (dft ?u ?c) [0..<n]"
    by (rule nth_equalityI) (simp_all add: dft_product [OF n])
  moreover have "fft complex_unity True (map (dft ?u ?c) [0..<n]) = Some ?c" using fft_inverse [of ?c k] k by simp
  ultimately have "multiply a b = Some (map (\<lambda>z. c_round (Re z)) ?c)"
    unfolding multiply_def multiply_with_def Let_def n_def [symmetric] by simp
  then show ?thesis by (simp add: n_def comp_def c_round_of_int)
qed

end
