(* ===== verification/Text_Input.thy ===== *)
theory Text_Input
  imports Cpp_Prelude
begin

text \<open>
  Text as \<open>std::getline\<close> and \<open>operator>>\<close> into a string read it, for the programs that read words.
\<close>

definition white :: "char \<Rightarrow> bool" where
  "white c \<longleftrightarrow> c \<in> {CHR '' '', CHR 0x09, CHR 0x0A, CHR 0x0B, CHR 0x0C, CHR 0x0D}"

text \<open>The strings that repeated \<open>in >> s\<close> reads.\<close>

function words_of :: "string \<Rightarrow> string list" where
  "words_of input = (case dropWhile white input of
     [] \<Rightarrow> []
   | c # cs \<Rightarrow> takeWhile (\<lambda>d. \<not> white d) (c # cs) # words_of (dropWhile (\<lambda>d. \<not> white d) (c # cs)))"
  by pat_completeness auto
termination
proof (relation "measure length")
  fix input c cs assume start: "dropWhile white input = c # cs"
  then have "\<not> white c" by (metis hd_dropWhile list.distinct(1) list.sel(1))
  then have "length (dropWhile (\<lambda>d. \<not> white d) (c # cs)) \<le> length cs" by (simp add: length_dropWhile_le)
  moreover have "length (c # cs) \<le> length input" using start length_dropWhile_le by metis
  ultimately show "(dropWhile (\<lambda>d. \<not> white d) (c # cs), input) \<in> measure length" by simp
qed simp

declare words_of.simps [simp del]

text \<open>The lines that repeated \<open>getline(in, s)\<close> reads.\<close>

function lines_of :: "string \<Rightarrow> string list" where
  "lines_of input = (case input of
     [] \<Rightarrow> []
   | _ \<Rightarrow> takeWhile (\<lambda>d. [d] \<noteq> newline) input # lines_of (tl (dropWhile (\<lambda>d. [d] \<noteq> newline) input)))"
  by pat_completeness auto
termination
proof (relation "measure length")
  fix input c cs assume "input = c # (cs :: string)"
  then show "(tl (dropWhile (\<lambda>d. [d] \<noteq> newline) input), input) \<in> measure length"
    using length_dropWhile_le [of "\<lambda>d. [d] \<noteq> newline" input] by simp
qed simp

declare lines_of.simps [simp del]

definition is_word :: "string \<Rightarrow> bool" where
  "is_word w \<longleftrightarrow> w \<noteq> [] \<and> (\<forall>c\<in>set w. \<not> white c)"

lemma words_of_Nil [simp]: "words_of [] = []"
  by (simp add: words_of.simps)

lemma words_of_white [simp]: "white c \<Longrightarrow> words_of (c # input) = words_of input"
  by (simp add: words_of.simps [of "c # input"] words_of.simps [of input])

lemma words_of_word:
  assumes w: "is_word w" and c: "white c"
  shows "words_of (w @ c # input) = w # words_of input"
proof -
  obtain d ds where d: "w = d # ds" "\<not> white d" using w by (cases w) (auto simp: is_word_def)
  have "takeWhile (\<lambda>d. \<not> white d) (w @ c # input) = w" "dropWhile (\<lambda>d. \<not> white d) (w @ c # input) = c # input"
    using w c by (simp_all add: is_word_def takeWhile_append2 dropWhile_append2)
  then show ?thesis using d c by (subst words_of.simps) simp
qed

lemma words_are_words: "w \<in> set (words_of input) \<Longrightarrow> is_word w"
proof (induction input rule: words_of.induct)
  case (1 input)
  show ?case
  proof (cases "dropWhile white input")
    case Nil
    then have "words_of input = []" by (subst words_of.simps) (simp only: list.case)
    then show ?thesis using "1.prems" by simp
  next
    case (Cons c cs)
    then have "\<not> white c" by (metis hd_dropWhile list.distinct(1) list.sel(1))
    then have "is_word (takeWhile (\<lambda>d. \<not> white d) (c # cs))" by (auto simp: is_word_def dest: set_takeWhileD)
    moreover have "words_of input = takeWhile (\<lambda>d. \<not> white d) (c # cs) # words_of (dropWhile (\<lambda>d. \<not> white d) (c # cs))"
      using Cons by (subst words_of.simps) simp
    ultimately show ?thesis using "1.IH" [OF Cons] "1.prems" by auto
  qed
qed

lemma white_newline [simp]: "white CHR 0x0A" "white CHR '' ''"
  by (simp_all add: white_def)

end
