(* ===== verification/Word_Count.thy ===== *)
theory Word_Count
  imports Text_Input
begin

text \<open>
  \<open>strings/strings.cpp\<close> with \<open>Assoc\<close> of \<open>strings/string.hpp\<close>: an association list whose subscript adds a missing
  key, and a program that counts the words of its input with it.
\<close>

section \<open>The association list\<close>

type_synonym assoc = "(string \<times> int) list"

text \<open>\<open>operator[]\<close>: the position of the reference it returns.\<close>

fun assoc_find :: "assoc \<Rightarrow> nat \<Rightarrow> string \<Rightarrow> nat option" where
  "assoc_find [] i s = None"
| "assoc_find (x # xs) i s = (if s = fst x then Some i else assoc_find xs (i + 1) s)"

definition assoc_at :: "string \<Rightarrow> assoc \<Rightarrow> nat \<times> assoc" where
  "assoc_at s vec = (case assoc_find vec 0 s of
     Some i \<Rightarrow> (i, vec)
   | None \<Rightarrow> (let vec = vec @ [(s, 0)] in (length vec - 1, vec)))"

section \<open>The program\<close>

definition count_word :: "string \<Rightarrow> assoc \<Rightarrow> assoc" where
  "count_word buf values = (case assoc_at buf values of (i, values) \<Rightarrow> values[i := (fst (values ! i), snd (values ! i) + 1)])"

definition word_count_main :: "string \<Rightarrow> string" where
  "word_count_main input = (let values = fold count_word (words_of input) [] in
     concat (map (\<lambda>x. line_out (''{'' @ fst x @ '','' @ show_int (snd x) @ ''}'')) values))"

section \<open>Correctness\<close>

lemma assoc_find_Some: "assoc_find vec k s = Some i \<Longrightarrow> k \<le> i \<and> i < k + length vec \<and> fst (vec ! (i - k)) = s"
proof (induction vec k s rule: assoc_find.induct)
  case (2 x xs i' s)
  then show ?case by (auto simp: nth_Cons' split: if_splits)
qed simp

lemma assoc_find_None: "assoc_find vec k s = None \<longleftrightarrow> s \<notin> fst ` set vec"
  by (induction vec k s rule: assoc_find.induct) auto

text \<open>\<open>firsts ws\<close>: the words in the order in which they first appear.\<close>

definition firsts :: "string list \<Rightarrow> string list" where
  "firsts ws = rev (remdups (rev ws))"

lemma firsts_snoc: "firsts (ws @ [w]) = (if w \<in> set ws then firsts ws else firsts ws @ [w])"
  by (simp add: firsts_def)

lemma set_firsts [simp]: "set (firsts ws) = set ws"
  by (simp add: firsts_def)

lemma distinct_firsts: "distinct (firsts ws)"
  by (simp add: firsts_def)

lemma count_words: "fold count_word ws [] = map (\<lambda>w. (w, int (count_list ws w))) (firsts ws)"
proof (induction ws rule: rev_induct)
  case (snoc w ws)
  let ?vec = "map (\<lambda>w. (w, int (count_list ws w))) (firsts ws)"
  have "fold count_word (ws @ [w]) [] = count_word w ?vec" using snoc by simp
  also have "count_word w ?vec = map (\<lambda>v. (v, int (count_list (ws @ [w]) v))) (firsts (ws @ [w]))"
  proof (cases "w \<in> set ws")
    case True
    then obtain i where i: "assoc_find ?vec 0 w = Some i"
      using assoc_find_None [of ?vec 0 w] by (cases "assoc_find ?vec 0 w") (auto simp: image_iff)
    then have pos: "i < length (firsts ws)" "firsts ws ! i = w" using assoc_find_Some [OF i] by auto
    have other: "firsts ws ! j = w \<longleftrightarrow> j = i" if "j < length (firsts ws)" for j
      using that pos distinct_firsts [of ws] by (metis nth_eq_iff_index_eq)
    have "count_word w ?vec = ?vec[i := (w, int (count_list ws w) + 1)]"
      using i pos by (simp add: count_word_def assoc_at_def)
    also have "\<dots> = map (\<lambda>v. (v, int (count_list (ws @ [w]) v))) (firsts ws)"
    proof (rule nth_equalityI)
      fix j assume "j < length (?vec[i := (w, int (count_list ws w) + 1)])"
      then show "?vec[i := (w, int (count_list ws w) + 1)] ! j = map (\<lambda>v. (v, int (count_list (ws @ [w]) v))) (firsts ws) ! j"
        using other [of j] pos by (cases "j = i") auto
    qed simp
    finally show ?thesis using True by (simp add: firsts_snoc)
  next
    case False
    then have "assoc_find ?vec 0 w = None" by (simp add: assoc_find_None image_iff)
    moreover have "count_list ws w = 0" using False by simp
    ultimately show ?thesis using False
      by (auto simp: count_word_def assoc_at_def firsts_snoc nth_append list_update_append)
  qed
  finally show ?case .
qed (simp add: firsts_def)

text \<open>
  The program prints every word of its input once, in the order of the first occurrences, with the number of times it
  occurs.
\<close>
theorem word_count_correct:
  "word_count_main input = (let ws = words_of input in
     concat (map (\<lambda>w. line_out (''{'' @ w @ '','' @ show_int (int (count_list ws w)) @ ''}'')) (rev (remdups (rev ws)))))"
  by (simp add: word_count_main_def Let_def count_words comp_def firsts_def)

end
