(* ===== verification/Anagrams.thy ===== *)
theory Anagrams
  imports Text_Input "HOL-Library.Char_ord" "HOL-Library.List_Lexorder" "HOL-Library.Product_Lexorder"
begin

text \<open>
  \<open>pearls/anagram_program.cpp\<close>: the words of a file are signed with their sorted letters, sorted by signature, written to
  a second file, read back and printed, one class of anagrams on a line.

  \<open>char\<close> is signed when \<open>std::sort\<close> compares characters and unsigned when strings are compared, which is the
  order of \<open>List_Lexorder\<close> over \<open>Char_ord\<close>. \<open>tolower\<close> is that of the C locale.
\<close>

section \<open>The program\<close>

definition to_lower_char :: "char \<Rightarrow> char" where
  "to_lower_char c = (let n = of_char c :: nat in if 65 \<le> n \<and> n \<le> 90 then char_of (n + 32) else c)"

definition signed_char :: "char \<Rightarrow> int" where
  "signed_char c = (let n = of_char c in if n < 128 then n else n - 256)"

definition signature :: "string \<Rightarrow> string" where
  "signature word = sort_key signed_char word"

definition read_words :: "string \<Rightarrow> (string \<times> string) list" where
  "read_words file = map (\<lambda>line. let word = map to_lower_char line in (signature word, word)) (lines_of file)"

definition anagrams_file :: "(string \<times> string) list \<Rightarrow> string" where
  "anagrams_file words = concat (map (\<lambda>(sig, word). line_out (sig @ '' '' @ word)) words)"

text \<open>The last loop, on the strings that are left to read: \<open>first\<close>, \<open>old\<close> and the output.\<close>

fun show_classes :: "string list \<Rightarrow> bool \<Rightarrow> string \<Rightarrow> string" where
  "show_classes (sig # org # rest) first old =
     (if \<not> first \<and> sig \<noteq> old then newline else []) @ org @ '' '' @ show_classes rest False sig"
| "show_classes _ first old = newline"

text \<open>
  The exit status and what is written to \<open>cout\<close> and \<open>cerr\<close>. The arguments are the contents of \<open>words.txt\<close>, if it can be
  opened, and whether \<open>anagrams.txt\<close> can be opened for writing and for reading.
\<close>

definition anagram_main :: "string option \<Rightarrow> bool \<Rightarrow> bool \<Rightarrow> nat \<times> string \<times> string" where
  "anagram_main words_txt out in2 = (case words_txt of
     None \<Rightarrow> (1, [], line_out ''Could not open words.txt'')
   | Some file \<Rightarrow>
       let words = sort (read_words file) in
       if \<not> out then (1, [], line_out ''Could not open anagrams.txt'')
       else let anagrams_txt = anagrams_file words in
       if \<not> in2 then (1, [], line_out ''Could not open anagrams.txt'')
       else (0, show_classes (words_of anagrams_txt) True [], []))"

section \<open>Reading the second file\<close>

lemma mset_signature: "mset (signature w) = mset w"
  by (simp add: signature_def)

lemma is_word_signature: "is_word w \<Longrightarrow> is_word (signature w)"
  using mset_signature [of w] by (metis is_word_def mset_eq_setD mset_zero_iff)

lemma inj_signed_char: "inj signed_char"
proof (rule injI)
  fix c d :: char assume same: "signed_char c = signed_char d"
  have range: "0 \<le> (of_char c :: int) \<and> (of_char c :: int) < 256" for c :: char
    using of_char_mod_256 [of c, where 'a = int] by (metis pos_mod_bound pos_mod_sign zero_less_numeral)
  have "(of_char c :: int) = of_char d" using same range [of c] range [of d] by (auto simp: signed_char_def Let_def split: if_splits)
  then show "c = d" by simp
qed

lemma signature_anagrams: "signature u = signature v \<longleftrightarrow> mset u = mset v"
proof
  assume "mset u = mset v"
  then have "mset (map signed_char (signature u)) = mset (map signed_char (signature v))"
    by (simp add: mset_signature)
  moreover have "sorted (map signed_char (signature w))" for w by (simp add: signature_def)
  ultimately have "map signed_char (signature u) = map signed_char (signature v)"
    by (metis properties_for_sort)
  then show "signature u = signature v" using inj_signed_char by (metis inj_map_eq_map)
qed (metis mset_signature)

lemma words_of_file: "\<forall>(s, w)\<in>set ws. is_word s \<and> is_word w \<Longrightarrow>
    words_of (anagrams_file ws) = concat (map (\<lambda>(s, w). [s, w]) ws)"
proof (induction ws)
  case (Cons p ws)
  obtain s w where p: "p = (s, w)" by (cases p)
  have "anagrams_file (p # ws) = s @ CHR '' '' # (w @ CHR 0x0A # anagrams_file ws)"
    by (simp add: anagrams_file_def p line_out_def newline_def)
  then show ?case using Cons p by (simp add: words_of_word)
qed (simp add: anagrams_file_def)

section \<open>The classes\<close>

definition class_of :: "string list \<Rightarrow> string \<Rightarrow> string list" where
  "class_of ws s = sort (filter (\<lambda>w. signature w = s) ws)"

definition signatures :: "string list \<Rightarrow> string list" where
  "signatures ws = sorted_list_of_set (signature ` set ws)"

definition sorted_pairs :: "string list \<Rightarrow> string list \<Rightarrow> (string \<times> string) list" where
  "sorted_pairs ws sl = concat (map (\<lambda>s. map (Pair s) (class_of ws s)) sl)"

lemma mset_filter_insert: "s \<notin> A \<Longrightarrow>
    mset (filter (\<lambda>w. f w = s) ws) + mset (filter (\<lambda>w. f w \<in> A) ws) = mset (filter (\<lambda>w. f w = s \<or> f w \<in> A) ws)"
  by (induction ws) auto

lemma mset_class: "mset (map (Pair s) (class_of ws s)) = image_mset (\<lambda>w. (signature w, w)) (mset (filter (\<lambda>w. signature w = s) ws))"
  unfolding class_of_def mset_map mset_sort by (intro image_mset_cong) auto

lemma mset_sorted_pairs: "distinct sl \<Longrightarrow>
    mset (sorted_pairs ws sl) = image_mset (\<lambda>w. (signature w, w)) (mset (filter (\<lambda>w. signature w \<in> set sl) ws))"
proof (induction sl)
  case (Cons s sl)
  have "mset (sorted_pairs ws (s # sl)) = mset (map (Pair s) (class_of ws s)) + mset (sorted_pairs ws sl)"
    by (simp add: sorted_pairs_def)
  also have "\<dots> = image_mset (\<lambda>w. (signature w, w)) (mset (filter (\<lambda>w. signature w = s) ws) + mset (filter (\<lambda>w. signature w \<in> set sl) ws))"
    unfolding mset_class image_mset_union using Cons by simp
  finally show ?case using mset_filter_insert [of s "set sl" signature ws] Cons.prems by (simp flip: image_mset_union)
qed (simp add: sorted_pairs_def)

lemma sorted_sorted_pairs: "sorted_wrt (<) sl \<Longrightarrow> sorted (sorted_pairs ws sl)"
proof (induction sl)
  case (Cons s sl)
  have "sorted (map (Pair s) (class_of ws s))"
    by (simp add: class_of_def sorted_map less_eq_prod_def)
  moreover have "p \<le> q" if "p \<in> set (map (Pair s) (class_of ws s))" "q \<in> set (sorted_pairs ws sl)" for p q
    using that Cons.prems by (auto simp: sorted_pairs_def less_eq_prod_def)
  ultimately show ?case using Cons by (auto simp: sorted_pairs_def sorted_append)
qed (simp add: sorted_pairs_def)

lemma sort_pairs: "sort (map (\<lambda>w. (signature w, w)) ws) = sorted_pairs ws (signatures ws)"
proof (rule properties_for_sort)
  have "filter (\<lambda>w. signature w \<in> set (signatures ws)) ws = ws" by (simp add: signatures_def)
  then show "mset (sorted_pairs ws (signatures ws)) = mset (map (\<lambda>w. (signature w, w)) ws)"
    using mset_sorted_pairs [of "signatures ws" ws] by (simp add: signatures_def)
  show "sorted (sorted_pairs ws (signatures ws))"
    by (rule sorted_sorted_pairs) (simp add: signatures_def)
qed

section \<open>Printing\<close>

definition class_line :: "string list \<Rightarrow> string" where
  "class_line ws = concat (map (\<lambda>w. w @ '' '') ws)"

definition pair_words :: "(string \<times> string) list \<Rightarrow> string list" where
  "pair_words ps = concat (map (\<lambda>(s, w). [s, w]) ps)"

lemma show_same_class:
  "show_classes (pair_words (map (Pair s) ws) @ rest) False s = class_line ws @ show_classes rest False s"
  by (induction ws) (simp_all add: pair_words_def class_line_def)

lemma show_class:
  "ws \<noteq> [] \<Longrightarrow> show_classes (pair_words (map (Pair s) ws) @ rest) first old =
    (if \<not> first \<and> s \<noteq> old then newline else []) @ class_line ws @ show_classes rest False s"
  using show_same_class [of s "tl ws" rest] by (cases ws) (simp_all add: pair_words_def class_line_def)

lemma show_more_classes:
  "\<forall>s\<in>set sl. class_of ws s \<noteq> [] \<Longrightarrow> distinct (old # sl) \<Longrightarrow>
    show_classes (pair_words (sorted_pairs ws sl)) False old = concat (map (\<lambda>s. newline @ class_line (class_of ws s)) sl) @ newline"
proof (induction sl arbitrary: old)
  case (Cons s sl)
  have "pair_words (sorted_pairs ws (s # sl)) = pair_words (map (Pair s) (class_of ws s)) @ pair_words (sorted_pairs ws sl)"
    by (simp add: pair_words_def sorted_pairs_def)
  then show ?case using Cons show_class [of "class_of ws s" s "pair_words (sorted_pairs ws sl)" False old] by auto
qed (simp add: pair_words_def sorted_pairs_def)

lemma show_all_classes:
  assumes "\<forall>s\<in>set (s # sl). class_of ws s \<noteq> []" "distinct (s # sl)"
  shows "show_classes (pair_words (sorted_pairs ws (s # sl))) True old = concat (map (\<lambda>s. line_out (class_line (class_of ws s))) (s # sl))"
proof -
  have "pair_words (sorted_pairs ws (s # sl)) = pair_words (map (Pair s) (class_of ws s)) @ pair_words (sorted_pairs ws sl)"
    by (simp add: pair_words_def sorted_pairs_def)
  then have "show_classes (pair_words (sorted_pairs ws (s # sl))) True old =
      class_line (class_of ws s) @ concat (map (\<lambda>s. newline @ class_line (class_of ws s)) sl) @ newline"
    using assms show_class [of "class_of ws s" s "pair_words (sorted_pairs ws sl)" True old] show_more_classes [of sl ws s] by simp
  also have "\<dots> = concat (map (\<lambda>s. line_out (class_line (class_of ws s))) (s # sl))"
  proof -
    have "concat (map (\<lambda>s. newline @ class_line (class_of ws s)) sl) @ newline = newline @ concat (map (\<lambda>s. line_out (class_line (class_of ws s))) sl)"
      by (induction sl) (simp_all add: line_out_def)
    then show ?thesis by (simp add: line_out_def)
  qed
  finally show ?thesis .
qed

section \<open>The whole program\<close>

lemma to_lower_word: "is_word w \<Longrightarrow> is_word (map to_lower_char w)"
proof -
  have "\<not> white (to_lower_char c)" if "\<not> white c" for c
  proof (cases "65 \<le> (of_char c :: nat) \<and> (of_char c :: nat) \<le> 90")
    case True
    then have "(of_char (to_lower_char c) :: nat) = of_char c + 32" by (simp add: to_lower_char_def Let_def)
    then have "97 \<le> (of_char (to_lower_char c) :: nat)" using True by simp
    then show ?thesis by (auto simp: white_def)
  qed (use that in \<open>auto simp: to_lower_char_def Let_def\<close>)
  then show "is_word w \<Longrightarrow> is_word (map to_lower_char w)" by (auto simp: is_word_def)
qed

text \<open>
  C39: if the files can be opened and every line of the first is one word, the program prints the classes of anagrams: one line for every
  signature, in the order of the signatures, with the words that have it in lower case and sorted, repetitions included; two words are on the
  same line exactly when they have the same letters. What it wrote to the second file it reads back unchanged. If a file cannot be
  opened, it prints nothing but the name of that file on \<open>cerr\<close> and exits with status 1.
\<close>
theorem anagram_main_correct:
  assumes "\<forall>line\<in>set (lines_of words_txt). is_word line"
  shows "(let ws = map (map to_lower_char) (lines_of words_txt) in
    anagram_main (Some words_txt) True True = (0, if ws = [] then newline
      else concat (map (\<lambda>s. line_out (concat (map (\<lambda>w. w @ '' '') (sort (filter (\<lambda>w. signature w = s) ws)))))
        (sorted_list_of_set (signature ` set ws))), []) \<and>
    words_of (anagrams_file (sort (read_words words_txt))) = concat (map (\<lambda>(sig, w). [sig, w]) (sort (read_words words_txt)))) \<and>
    (\<forall>u v. signature u = signature v \<longleftrightarrow> mset u = mset v) \<and>
    anagram_main None out in2 = (1, [], line_out ''Could not open words.txt'') \<and>
    (\<not> (out \<and> in2) \<longrightarrow> anagram_main (Some words_txt) out in2 = (1, [], line_out ''Could not open anagrams.txt''))"
proof -
  define ws where "ws = map (map to_lower_char) (lines_of words_txt)"
  have words: "\<forall>w\<in>set ws. is_word w" using assms to_lower_word by (auto simp: ws_def)
  have "read_words words_txt = map (\<lambda>w. (signature w, w)) ws" by (simp add: read_words_def ws_def comp_def Let_def)
  then have sorted: "sort (read_words words_txt) = sorted_pairs ws (signatures ws)" by (simp add: sort_pairs)
  have "set (sorted_pairs ws (signatures ws)) \<subseteq> (\<lambda>w. (signature w, w)) ` set ws"
    by (auto simp: sorted_pairs_def class_of_def)
  then have "\<forall>(s, w)\<in>set (sorted_pairs ws (signatures ws)). is_word s \<and> is_word w" using words is_word_signature by blast
  from words_of_file [OF this] have reread: "words_of (anagrams_file (sorted_pairs ws (signatures ws))) = pair_words (sorted_pairs ws (signatures ws))"
    by (simp add: pair_words_def)
  have ne: "class_of ws s \<noteq> []" if s: "s \<in> set (signatures ws)" for s
  proof -
    obtain w where "w \<in> set ws" "signature w = s" using s by (auto simp: signatures_def)
    then have "w \<in> set (class_of ws s)" by (simp add: class_of_def)
    then show ?thesis by auto
  qed
  have main: "anagram_main (Some words_txt) True True =
      (0, if ws = [] then newline else concat (map (\<lambda>s. line_out (class_line (class_of ws s))) (signatures ws)), [])"
  proof (cases "signatures ws")
    case Nil
    then have "ws = []" by (simp add: signatures_def)
    then show ?thesis using sorted reread Nil by (simp add: anagram_main_def Let_def pair_words_def sorted_pairs_def)
  next
    case (Cons s sl)
    then have "ws \<noteq> []" "distinct (s # sl)" by (auto simp: signatures_def) (metis distinct.simps(2) distinct_sorted_list_of_set)+
    then show ?thesis using sorted reread ne show_all_classes [of s sl ws "[]"] Cons by (simp add: anagram_main_def Let_def)
  qed
  have closed: "anagram_main None out in2 = (1, [], line_out ''Could not open words.txt'')"
    "\<not> (out \<and> in2) \<longrightarrow> anagram_main (Some words_txt) out in2 = (1, [], line_out ''Could not open anagrams.txt'')"
    by (auto simp: anagram_main_def Let_def)
  show ?thesis
    using main reread signature_anagrams closed unfolding Let_def ws_def [symmetric] sorted
    by (simp add: class_line_def class_of_def signatures_def pair_words_def)
qed

lemma anagram_main_correct_witness:
  "words_of (anagrams_file (sort (read_words (''tar'' @ newline @ ''Rat'')))) =
    concat (map (\<lambda>(sig, w). [sig, w]) (sort (read_words (''tar'' @ newline @ ''Rat''))))"
proof -
  have "lines_of (''tar'' @ newline @ ''Rat'') = [''tar'', ''Rat'']"
    by (simp add: lines_of.simps newline_def)
  then have "\<forall>line\<in>set (lines_of (''tar'' @ newline @ ''Rat'')). is_word line"
    by (simp add: is_word_def white_def)
  from anagram_main_correct [OF this] show ?thesis by (simp only: Let_def)
qed

end
