(* ===== verification/Intrusive_Links.thy ===== *)
theory Intrusive_Links
  imports Cpp_Heap
begin

text \<open>
  \<open>data/list.hpp\<close>: \<open>__link<T>\<close>, the nodes of a doubly linked list that a program links itself, and the examples that
  \<open>data/test_data.cpp\<close> runs. The members do not use \<open>this\<close>: a pointer to a node is an address, \<open>None\<close> is \<open>nullptr\<close>, and
  \<open>Inl Undefined_Behaviour\<close> is an access through a pointer to no node. A \<open>partial_function\<close> is \<open>None\<close> if its loop does not
  end. \<open>__erase_\<close> assigns to \<open>p->succ-prev\<close>, which does not compile when it is used, and is left out.
  The programs never delete a node.
\<close>

section \<open>The nodes\<close>

record 'a il_node =
  il_value :: 'a
  il_prev :: "nat option"
  il_succ :: "nat option"

definition il_link :: "'a \<Rightarrow> nat option \<Rightarrow> nat option \<Rightarrow> 'a il_node heap \<Rightarrow> nat \<times> 'a il_node heap" where
  "il_link v p s h = new_object \<lparr>il_value = v, il_prev = p, il_succ = s\<rparr> h"

definition il_set_prev :: "nat option \<Rightarrow> nat option \<Rightarrow> 'a il_node heap \<Rightarrow> 'a il_node heap result" where
  "il_set_prev p q h = update_object p (\<lambda>x. x\<lparr>il_prev := q\<rparr>) h"

definition il_set_succ :: "nat option \<Rightarrow> nat option \<Rightarrow> 'a il_node heap \<Rightarrow> 'a il_node heap result" where
  "il_set_succ p q h = update_object p (\<lambda>x. x\<lparr>il_succ := q\<rparr>) h"

definition il_insert :: "nat option \<Rightarrow> nat option \<Rightarrow> 'a il_node heap \<Rightarrow> (nat option \<times> 'a il_node heap) result" where
  "il_insert p n h =
     (if n = None then Inr (p, h)
      else if p = None then Inr (n, h)
      else
        bind_result (il_set_succ n p h) (\<lambda>h.
        bind_result (read_object p h) (\<lambda>x.
        bind_result (if il_prev x = None then Inr h else il_set_succ (il_prev x) n h) (\<lambda>h.
        bind_result (il_set_prev n (il_prev x) h) (\<lambda>h.
        bind_result (il_set_prev p n h) (\<lambda>h. Inr (n, h)))))))"

definition il_add :: "nat option \<Rightarrow> nat option \<Rightarrow> 'a il_node heap \<Rightarrow> (nat option \<times> 'a il_node heap) result" where
  "il_add p n h =
     (if p = None then Inr (n, h)
      else if n = None then Inr (p, h)
      else
        bind_result (il_set_prev n p h) (\<lambda>h.
        bind_result (read_object p h) (\<lambda>x.
        bind_result (if il_succ x = None then Inr h else il_set_prev (il_succ x) n h) (\<lambda>h.
        bind_result (il_set_succ n (il_succ x) h) (\<lambda>h.
        bind_result (il_set_succ p n h) (\<lambda>h. Inr (n, h)))))))"

partial_function (option) il_find :: "nat option \<Rightarrow> 'a \<Rightarrow> 'a il_node heap \<Rightarrow> nat option result option" where
  "il_find p s h =
     (if p = None then Some (Inr None)
      else case read_object p h of
          Inl e \<Rightarrow> Some (Inl e)
        | Inr x \<Rightarrow> if il_value x = s then Some (Inr p) else il_find (il_succ x) s h)"

text \<open>The two loops of \<open>__advance_\<close>, which differ in the link they follow.\<close>

fun il_follow :: "('a il_node \<Rightarrow> nat option) \<Rightarrow> nat \<Rightarrow> nat option \<Rightarrow> 'a il_node heap \<Rightarrow> nat option result" where
  "il_follow link 0 p h = Inr p"
| "il_follow link (Suc n) p h =
     bind_result (read_object p h) (\<lambda>x. if link x = None then Inr None else il_follow link n (link x) h)"

definition il_advance :: "nat option \<Rightarrow> int \<Rightarrow> 'a il_node heap \<Rightarrow> nat option result" where
  "il_advance p n h =
     (if p = None then Inr None
      else if n > 0 then il_follow il_succ (nat n) p h
      else if n < 0 then il_follow il_prev (nat (- n)) p h
      else Inr p)"

partial_function (option) il_print :: "('a \<Rightarrow> string) \<Rightarrow> nat option \<Rightarrow> 'a il_node heap \<Rightarrow> string \<Rightarrow> string result option" where
  "il_print shw head h out =
     (if head = None then Some (Inr (out @ newline))
      else case read_object head h of
          Inl e \<Rightarrow> Some (Inl e)
        | Inr x \<Rightarrow> il_print shw (il_succ x) h (out @ shw (il_value x) @ '' ''))"

declare il_find.simps [code] il_print.simps [code]

section \<open>The examples\<close>

definition il_example :: "string result option" where
  "il_example = (case il_link ''Thor'' None None empty_heap of (thor, h) \<Rightarrow>
     case il_link ''Odin'' None (Some thor) h of (odin, h) \<Rightarrow>
     case bind_result (bind_result (read_object (Some odin) h) (\<lambda>x. il_set_prev (il_succ x) (Some odin) h)) (\<lambda>h.
       case il_link ''Freia'' None (Some odin) h of (freia, h) \<Rightarrow>
       bind_result (bind_result (read_object (Some freia) h) (\<lambda>x. il_set_prev (il_succ x) (Some freia) h)) (\<lambda>h.
       Inr (freia, h))) of
       Inl e \<Rightarrow> Some (Inl e)
     | Inr (p, h) \<Rightarrow> il_print (\<lambda>s. s) (Some p) h [])"

definition il_new_before :: "'a \<Rightarrow> nat option \<times> 'a il_node heap \<Rightarrow> (nat option \<times> 'a il_node heap) result" where
  "il_new_before v s = (case s of (p, h) \<Rightarrow> case il_link v None None h of (n, h) \<Rightarrow> il_insert p (Some n) h)"

definition il_example_insert :: "string result option" where
  "il_example_insert = (case il_link ''Thor'' None None empty_heap of (thor, h) \<Rightarrow>
     case bind_result (il_new_before ''Odin'' (Some thor, h)) (il_new_before ''Freia'') of
       Inl e \<Rightarrow> Some (Inl e)
     | Inr (p, h) \<Rightarrow> il_print (\<lambda>s. s) p h [])"

definition il_example_integers :: "string result option" where
  "il_example_integers = (case il_link 4 None None empty_heap of (v, h) \<Rightarrow>
     case fold (\<lambda>i r. bind_result r (il_new_before i)) ([6, 7] @ [1..10]) (Inr (Some v, h)) of
       Inl e \<Rightarrow> Some (Inl e)
     | Inr (p, h) \<Rightarrow>
         map_option (\<lambda>out. bind_result out (\<lambda>out. bind_result (il_advance p 4 h) (\<lambda>q.
           bind_result (read_object q h) (\<lambda>x. Inr (out @ show_int (il_value x) @ newline)))))
           (il_print show_int p h []))"

definition data_main :: "string result option list" where
  "data_main = [il_example, il_example_insert, il_example_integers]"

lemma data_main_output:
  "data_main = map (\<lambda>t. Some (Inr t)) [''Freia Odin Thor '' @ newline, ''Freia Odin Thor '' @ newline,
     ''10 9 8 7 6 5 4 3 2 1 7 6 4 '' @ newline @ ''6'' @ newline]"
  by code_simp


section \<open>The list a heap holds\<close>

definition il_first :: "nat option \<Rightarrow> (nat \<times> 'a) list \<Rightarrow> nat option" where
  "il_first q xs = (case xs of [] \<Rightarrow> q | x # r \<Rightarrow> Some (fst x))"

definition il_last :: "nat option \<Rightarrow> (nat \<times> 'a) list \<Rightarrow> nat option" where
  "il_last p xs = (if xs = [] then p else Some (fst (last xs)))"

lemma il_first_simps [simp]: "il_first q [] = q" "il_first q (x # r) = Some (fst x)"
  by (simp_all add: il_first_def)

lemma il_last_simps [simp]: "il_last p [] = p" "il_last p (x # r) = il_last (Some (fst x)) r" "il_last p (r @ x # r') = il_last (Some (fst x)) r'"
  by (simp_all add: il_last_def)

fun il_seg :: "(nat \<Rightarrow> 'a il_node option) \<Rightarrow> nat option \<Rightarrow> (nat \<times> 'a) list \<Rightarrow> nat option \<Rightarrow> bool" where
  "il_seg m p [] q \<longleftrightarrow> True"
| "il_seg m p ((a, v) # xs) q \<longleftrightarrow> m a = Some \<lparr>il_value = v, il_prev = p, il_succ = il_first q xs\<rparr> \<and> il_seg m (Some a) xs q"

definition il_list :: "'a il_node heap \<Rightarrow> (nat \<times> 'a) list \<Rightarrow> bool" where
  "il_list h xs \<longleftrightarrow> il_seg (h_objects h) None xs None \<and> distinct (map fst xs)"

lemma il_seg_cong: "il_seg m p xs q \<Longrightarrow> (\<And>a. a \<in> fst ` set xs \<Longrightarrow> m' a = m a) \<Longrightarrow> il_seg m' p xs q"
  by (induction xs arbitrary: p) auto

lemma il_seg_append: "il_seg m p (xs @ ys) q \<longleftrightarrow> il_seg m p xs (il_first q ys) \<and> il_seg m (il_last p xs) ys q"
proof (induction xs arbitrary: p)
  case (Cons x xs)
  obtain a v where x: "x = (a, v)" by (cases x)
  have "il_first q (xs @ ys) = il_first (il_first q ys) xs" by (cases xs) auto
  then show ?case by (simp add: x Cons.IH)
qed simp

lemma il_seg_other [simp]:
  assumes "a \<notin> fst ` set xs"
  shows "il_seg (m(a := y)) p xs q \<longleftrightarrow> il_seg m p xs q"
proof -
  have "il_seg m' p xs q" if "il_seg m'' p xs q" "\<And>b. b \<noteq> a \<Longrightarrow> m' b = m'' b" for m' m''
    by (rule il_seg_cong [OF that(1)], rule that(2)) (use assms in blast)
  from this [of m "m(a := y)"] this [of "m(a := y)" m] show ?thesis by auto
qed

lemma il_node_at: "il_seg m p (xs @ (a, v) # ys) q \<Longrightarrow> m a = Some \<lparr>il_value = v, il_prev = il_last p xs, il_succ = il_first q ys\<rparr>"
  by (simp add: il_seg_append)

section \<open>Insertion\<close>

definition same_room :: "'a il_node heap \<Rightarrow> 'a il_node heap \<Rightarrow> bool" where
  "same_room h h' \<longleftrightarrow> h_next h' = h_next h \<and> (\<forall>b. h_objects h' b = None \<longleftrightarrow> h_objects h b = None)"

lemma il_insert_list:
  assumes l: "il_list h (xs @ (a, x) # ys)" and n: "h_objects h n = Some \<lparr>il_value = v, il_prev = None, il_succ = None\<rparr>"
    and new: "n \<notin> fst ` set (xs @ (a, x) # ys)"
  shows "\<exists>h'. il_insert (Some a) (Some n) h = Inr (Some n, h') \<and> il_list h' (xs @ (n, v) # (a, x) # ys) \<and> same_room h h'"
proof (cases xs rule: rev_cases)
  case Nil
  then show ?thesis using assms by (auto simp: same_room_def il_insert_def il_list_def il_set_succ_def il_set_prev_def fun_upd_twist image_Un)
next
  case (snoc xs' b)
  obtain c w where b: "b = (c, w)" by (cases b)
  show ?thesis
    using assms unfolding snoc b
    by (auto simp: same_room_def il_insert_def il_list_def il_set_succ_def il_set_prev_def il_seg_append image_Un)
qed

lemma il_add_list:
  assumes l: "il_list h (xs @ (a, x) # ys)" and n: "h_objects h n = Some \<lparr>il_value = v, il_prev = None, il_succ = None\<rparr>"
    and new: "n \<notin> fst ` set (xs @ (a, x) # ys)"
  shows "\<exists>h'. il_add (Some a) (Some n) h = Inr (Some n, h') \<and> il_list h' (xs @ (a, x) # (n, v) # ys) \<and> same_room h h'"
proof (cases ys)
  case Nil
  then show ?thesis using assms by (auto simp: same_room_def il_add_def il_list_def il_set_succ_def il_set_prev_def il_seg_append image_Un)
next
  case (Cons b ys')
  obtain c w where b: "b = (c, w)" by (cases b)
  show ?thesis
    using assms unfolding Cons b
    by (auto simp: same_room_def il_add_def il_list_def il_set_succ_def il_set_prev_def il_seg_append image_Un)
qed


section \<open>Search, movement and output\<close>

lemma il_find_list:
  "il_seg (h_objects h) p ys None \<Longrightarrow> il_find (il_first None ys) s h = Some (Inr (map_option fst (find (\<lambda>b. snd b = s) ys)))"
  by (induction ys arbitrary: p) (auto simp: il_find.simps)

lemma il_print_list:
  "il_seg (h_objects h) p ys None \<Longrightarrow>
    il_print shw (il_first None ys) h out = Some (Inr (out @ concat (map (\<lambda>b. shw (snd b) @ '' '') ys) @ newline))"
  by (induction ys arbitrary: p out) (auto simp: il_print.simps)

lemma il_follow_succ:
  "il_seg (h_objects h) p ys None \<Longrightarrow> ys \<noteq> [] \<Longrightarrow>
    il_follow il_succ n (il_first None ys) h = Inr (if n < length ys then Some (fst (ys ! n)) else None)"
proof (induction ys arbitrary: p n)
  case (Cons b ys)
  then show ?case by (cases b; cases n; cases ys) auto
qed simp

lemma il_follow_prev:
  "il_seg (h_objects h) None xs q \<Longrightarrow> xs \<noteq> [] \<Longrightarrow>
    il_follow il_prev n (il_last None xs) h = Inr (if n < length xs then Some (fst (rev xs ! n)) else None)"
proof (induction xs arbitrary: q n rule: rev_induct)
  case (snoc b xs)
  then show ?case by (cases b; cases n; cases xs rule: rev_cases) (auto simp: il_seg_append)
qed simp

lemma il_advance_list:
  assumes "il_list h xs" "k < length xs"
  shows "il_advance (Some (fst (xs ! k))) n h =
    Inr (if 0 \<le> int k + n \<and> int k + n < int (length xs) then Some (fst (xs ! nat (int k + n))) else None)"
proof -
  have seg: "il_seg (h_objects h) None xs None" using assms(1) by (simp add: il_list_def)
  consider "n = 0" | "0 < n" | "n < 0" by linarith
  then show ?thesis
  proof cases
    case 2
    have "il_seg (h_objects h) None (take k xs @ drop k xs) None" using seg by simp
    then have "il_seg (h_objects h) (il_last None (take k xs)) (drop k xs) None" unfolding il_seg_append by blast
    moreover have "il_first None (drop k xs) = Some (fst (xs ! k))" using assms(2) by (simp flip: Cons_nth_drop_Suc)
    ultimately have "il_follow il_succ (nat n) (Some (fst (xs ! k))) h =
        Inr (if nat n < length xs - k then Some (fst (xs ! (k + nat n))) else None)"
      using il_follow_succ [of h _ "drop k xs" "nat n"] assms(2) by simp
    then show ?thesis using 2 assms(2) by (auto simp: il_advance_def nat_add_distrib)
  next
    case 3
    have "il_seg (h_objects h) None (take (Suc k) xs @ drop (Suc k) xs) None" using seg by simp
    then have "il_seg (h_objects h) None (take (Suc k) xs) (il_first None (drop (Suc k) xs))" unfolding il_seg_append by blast
    moreover have "take (Suc k) xs \<noteq> []" "il_last None (take (Suc k) xs) = Some (fst (xs ! k))" "length (take (Suc k) xs) = Suc k"
      using assms(2) by (auto simp: il_last_def take_Suc_conv_app_nth)
    moreover have "rev (take (Suc k) xs) ! m = xs ! (k - m)" if "m < Suc k" for m
      using that assms(2) by (subst rev_nth) simp_all
    ultimately have "il_follow il_prev (nat (- n)) (Some (fst (xs ! k))) h =
        Inr (if nat (- n) < Suc k then Some (fst (xs ! (k - nat (- n)))) else None)"
      using il_follow_prev [of h "take (Suc k) xs" _ "nat (- n)"] by auto
    moreover have "k - nat (- n) = nat (int k + n)" if "nat (- n) < Suc k" using that 3 by linarith
    ultimately show ?thesis using 3 assms(2) by (auto simp: il_advance_def)
  qed (use assms(2) in \<open>simp add: il_advance_def\<close>)
qed

section \<open>Programs\<close>

text \<open>A program links new nodes before or after its \<open>k\<close>-th node and keeps the pointers to all of them in order.\<close>

datatype 'a il_op = IL_Before nat 'a | IL_After nat 'a

fun il_do :: "'a il_op \<Rightarrow> nat list \<times> 'a il_node heap \<Rightarrow> (nat list \<times> 'a il_node heap) result" where
  "il_do (IL_Before k v) (as, h) = (case il_link v None None h of (n, h) \<Rightarrow>
     bind_result (il_insert (Some (as ! k)) (Some n) h) (\<lambda>(p, h). Inr (take k as @ the p # drop k as, h)))"
| "il_do (IL_After k v) (as, h) = (case il_link v None None h of (n, h) \<Rightarrow>
     bind_result (il_add (Some (as ! k)) (Some n) h) (\<lambda>(p, h). Inr (take (k + 1) as @ the p # drop (k + 1) as, h)))"

fun il_run :: "'a il_op list \<Rightarrow> nat list \<times> 'a il_node heap \<Rightarrow> (nat list \<times> 'a il_node heap) result" where
  "il_run [] s = Inr s"
| "il_run (op # ops) s = bind_result (il_do op s) (il_run ops)"

fun il_values :: "'a il_op \<Rightarrow> 'a list \<Rightarrow> 'a list" where
  "il_values (IL_Before k v) vs = take k vs @ v # drop k vs"
| "il_values (IL_After k v) vs = take (k + 1) vs @ v # drop (k + 1) vs"

fun il_index :: "'a il_op \<Rightarrow> nat" where
  "il_index (IL_Before k v) = k"
| "il_index (IL_After k v) = k"

fun il_valid :: "'a il_op list \<Rightarrow> nat \<Rightarrow> bool" where
  "il_valid [] n \<longleftrightarrow> True"
| "il_valid (op # ops) n \<longleftrightarrow> il_index op < n \<and> il_valid ops (n + 1)"

definition il_state :: "nat list \<times> 'a il_node heap \<Rightarrow> 'a list \<Rightarrow> bool" where
  "il_state s vs \<longleftrightarrow> length (fst s) = length vs \<and> il_list (snd s) (zip (fst s) vs) \<and> (\<forall>a\<ge>h_next (snd s). h_objects (snd s) a = None)"


lemma il_seg_objects: "il_seg m p xs q \<Longrightarrow> a \<in> fst ` set xs \<Longrightarrow> m a \<noteq> None"
proof (induction xs arbitrary: p)
  case (Cons b xs)
  then show ?case by (cases b) (simp, metis option.distinct(1))
qed simp

lemma il_link_state:
  assumes "il_state (as, h) vs"
  obtains n h' where "il_link v None None h = (n, h')" "h_objects h' n = Some \<lparr>il_value = v, il_prev = None, il_succ = None\<rparr>"
    "n \<notin> fst ` set (zip as vs)" "il_list h' (zip as vs)" "\<forall>a\<ge>h_next h'. h_objects h' a = None"
proof
  let ?n = "h_next h"
  let ?h = "snd (new_object \<lparr>il_value = v, il_prev = None, il_succ = None\<rparr> h)"
  have room: "\<forall>a\<ge>?n. h_objects h a = None" and l: "il_list h (zip as vs)" using assms by (auto simp: il_state_def)
  show new: "?n \<notin> fst ` set (zip as vs)" using l room il_seg_objects unfolding il_list_def by blast
  show "il_link v None None h = (?n, ?h)" by (simp add: il_link_def new_object_def)
  show "h_objects ?h ?n = Some \<lparr>il_value = v, il_prev = None, il_succ = None\<rparr>" by (simp add: new_object_def)
  show "il_list ?h (zip as vs)" using l new by (simp add: il_list_def new_object_def)
  show "\<forall>a\<ge>h_next ?h. h_objects ?h a = None" using room by (simp add: new_object_def)
qed

lemma il_do_state:
  assumes s: "il_state (as, h) vs" and k: "il_index op < length vs"
  shows "\<exists>s'. il_do op (as, h) = Inr s' \<and> il_state s' (il_values op vs)"
proof -
  define k where "k = il_index op"
  have l: "length as = length vs" "k < length vs" using s k by (auto simp: il_state_def k_def)
  obtain v where op: "op = IL_Before k v \<or> op = IL_After k v" by (cases op) (auto simp: k_def)
  obtain n h1 where h1: "il_link v None None h = (n, h1)" "h_objects h1 n = Some \<lparr>il_value = v, il_prev = None, il_succ = None\<rparr>"
    "n \<notin> fst ` set (zip as vs)" "il_list h1 (zip as vs)" "\<forall>a\<ge>h_next h1. h_objects h1 a = None"
    using il_link_state [OF s] by blast
  let ?l = "zip (take k as) (take k vs)" and ?r = "zip (drop (Suc k) as) (drop (Suc k) vs)"
  have split: "zip as vs = ?l @ (as ! k, vs ! k) # ?r"
    using l by (metis id_take_nth_drop length_zip min.idem nth_zip take_zip drop_zip)
  note shape = h1(4,2,3) [unfolded split]
  obtain h2 where h2: "il_insert (Some (as ! k)) (Some n) h1 = Inr (Some n, h2)" "il_list h2 (?l @ (n, v) # (as ! k, vs ! k) # ?r)" "same_room h1 h2"
    using il_insert_list [OF shape] by blast
  obtain h3 where h3: "il_add (Some (as ! k)) (Some n) h1 = Inr (Some n, h3)" "il_list h3 (?l @ (as ! k, vs ! k) # (n, v) # ?r)" "same_room h1 h3"
    using il_add_list [OF shape] by blast
  have before: "zip (take k as @ n # drop k as) (take k vs @ v # drop k vs) = ?l @ (n, v) # (as ! k, vs ! k) # ?r"
    using l by (simp add: Cons_nth_drop_Suc [symmetric])
  have after: "zip (take (k + 1) as @ n # drop (k + 1) as) (take (k + 1) vs @ v # drop (k + 1) vs) = ?l @ (as ! k, vs ! k) # (n, v) # ?r"
    using l by (simp add: take_Suc_conv_app_nth)
  show ?thesis
    using op
  proof
    assume "op = IL_Before k v"
    then show ?thesis using h1 h2 l before by (auto simp: il_state_def same_room_def)
  next
    assume "op = IL_After k v"
    then show ?thesis using h1 h3 l after by (auto simp: il_state_def same_room_def)
  qed
qed

lemma il_values_length: "il_index op < length vs \<Longrightarrow> length (il_values op vs) = length vs + 1"
  by (cases op) auto

lemma il_run_state:
  "il_state s vs \<Longrightarrow> il_valid ops (length vs) \<Longrightarrow> \<exists>s'. il_run ops s = Inr s' \<and> il_state s' (fold il_values ops vs)"
proof (induction ops arbitrary: s vs)
  case (Cons op ops)
  then obtain s' where "il_do op s = Inr s'" "il_state s' (il_values op vs)"
    using il_do_state [of "fst s" "snd s" vs op] by auto
  then show ?case using Cons.IH [of s' "il_values op vs"] Cons.prems il_values_length [of op vs] by auto
qed simp

text \<open>
  However a program links new nodes before and after nodes it has, no access is undefined, and the nodes hold the list that the
  same insertions make of values. From the \<open>k\<close>-th node, \<open>__find_\<close> ends at the first node with the value or at
  \<open>nullptr\<close>, \<open>__advance_\<close> goes to the node that many places on, in either direction, or to \<open>nullptr\<close> at the end,
  and \<open>__print_list_\<close> prints the values from there.
\<close>
theorem links_are_lists:
  assumes "il_valid ops 1"
  shows "case il_link v0 None None empty_heap of (p, h0) \<Rightarrow>
    (let vs = fold il_values ops [v0] in \<exists>as h. il_run ops ([p], h0) = Inr (as, h) \<and> length as = length vs \<and> distinct as \<and>
      (\<forall>k<length vs.
        (\<forall>x. il_find (Some (as ! k)) x h = Some (Inr (map_option fst (find (\<lambda>b. snd b = x) (drop k (zip as vs)))))) \<and>
        (\<forall>n. il_advance (Some (as ! k)) n h =
           Inr (if 0 \<le> int k + n \<and> int k + n < int (length vs) then Some (as ! nat (int k + n)) else None)) \<and>
        (\<forall>shw. il_print shw (Some (as ! k)) h [] = Some (Inr (concat (map (\<lambda>x. shw x @ '' '') (drop k vs)) @ newline)))))"
proof -
  obtain p h0 where start: "il_link v0 None None empty_heap = (p, h0)" by force
  then have "il_state ([p], h0) [v0]" by (auto simp: il_link_def new_object_def empty_heap_def il_state_def il_list_def)
  then obtain as h where run: "il_run ops ([p], h0) = Inr (as, h)" "il_state (as, h) (fold il_values ops [v0])"
    using il_run_state [of "([p], h0)" "[v0]" ops] assms by auto
  define vs where "vs = fold il_values ops [v0]"
  have l: "length as = length vs" and list: "il_list h (zip as vs)" using run(2) by (auto simp: il_state_def vs_def)
  have "distinct as" using list l by (simp add: il_list_def)
  moreover have "il_find (Some (as ! k)) x h = Some (Inr (map_option fst (find (\<lambda>b. snd b = x) (drop k (zip as vs)))))"
    "il_print shw (Some (as ! k)) h [] = Some (Inr (concat (map (\<lambda>x. shw x @ '' '') (drop k vs)) @ newline))" if "k < length vs" for k x shw
  proof -
    have "il_seg (h_objects h) None (take k (zip as vs) @ drop k (zip as vs)) None" using list by (simp add: il_list_def)
    then have seg: "il_seg (h_objects h) (il_last None (take k (zip as vs))) (drop k (zip as vs)) None" unfolding il_seg_append by blast
    have first: "il_first None (drop k (zip as vs)) = Some (as ! k)" using that l by (simp flip: Cons_nth_drop_Suc)
    have "map snd (drop k (zip as vs)) = drop k vs" using l by (simp add: drop_zip)
    then have "map (\<lambda>b. shw (snd b) @ '' '') (drop k (zip as vs)) = map (\<lambda>x. shw x @ '' '') (drop k vs)"
      by (metis (no_types, lifting) map_eq_conv map_map comp_apply)
    then show "il_find (Some (as ! k)) x h = Some (Inr (map_option fst (find (\<lambda>b. snd b = x) (drop k (zip as vs)))))"
      "il_print shw (Some (as ! k)) h [] = Some (Inr (concat (map (\<lambda>x. shw x @ '' '') (drop k vs)) @ newline))"
      using il_find_list [OF seg, of x] il_print_list [OF seg, of shw "[]"] first by simp_all
  qed
  moreover have "il_advance (Some (as ! k)) n h = Inr (if 0 \<le> int k + n \<and> int k + n < int (length vs) then Some (as ! nat (int k + n)) else None)"
    if "k < length vs" for k n
    using il_advance_list [OF list, of k n] that l by auto
  ultimately show ?thesis using run(1) l unfolding start Let_def vs_def [symmetric] by auto
qed

lemma links_are_lists_witness:
  "case il_link (5 :: int) None None empty_heap of (p, h0) \<Rightarrow>
    \<exists>as h. il_run [IL_Before 0 3, IL_After 1 8, IL_After 0 3] ([p], h0) = Inr (as, h) \<and> length as = 4 \<and>
      il_print show_int (Some (as ! 1)) h [] = Some (Inr (''3 5 8 '' @ newline))"
  using links_are_lists [of "[IL_Before 0 3, IL_After 1 8, IL_After 0 (3 :: int)]" 5]
  by (force simp: Let_def show_simps split: prod.splits)

end
