(* ===== verification/C_Strings.thy ===== *)
theory C_Strings
  imports Cpp_Heap "HOL-Library.Sublist"
begin

text \<open>
  \<open>algorithms/vec/vec.cpp\<close>: exercises with character arrays and \<open>new[]\<close>. A \<open>char*\<close> is \<open>None\<close> or an array with the
  characters from the pointer on; \<open>Inl Undefined_Behaviour\<close> is an access outside of the array. A character that was not written is
  \<open>None\<close> in an array of \<open>new char[n]\<close>. \<open>my_vector\<close> is over the heap, whose objects are the arrays; its copy constructor,
  which names a member that does not exist, is left out.
\<close>

section \<open>Character arrays\<close>

definition nul :: char where
  "nul = CHR 0x00"

function to_lower_loop :: "nat \<Rightarrow> string \<Rightarrow> string result" where
  "to_lower_loop i s =
     (if length s \<le> i then Inl Undefined_Behaviour
      else if s ! i = nul then Inr s
      else to_lower_loop (i + 1)
        (if of_char (s ! i) \<ge> (65 :: nat) \<and> of_char (s ! i) \<le> (90 :: nat) then s[i := char_of (of_char (s ! i) + (32 :: nat))] else s))"
  by pat_completeness auto
termination by (relation "measure (\<lambda>(i, s). length s - i)") auto

definition to_lower :: "string option \<Rightarrow> string option result" where
  "to_lower s = (case s of None \<Rightarrow> Inr None | Some s \<Rightarrow> bind_result (to_lower_loop 0 s) (\<lambda>s. Inr (Some s)))"

function c_length :: "nat \<Rightarrow> string \<Rightarrow> nat result" where
  "c_length len s =
     (if length s \<le> len then Inl Undefined_Behaviour
      else if s ! len = nul then Inr len
      else c_length (len + 1) s)"
  by pat_completeness auto
termination by (relation "measure (\<lambda>(len, s). length s - len)") auto

text \<open>The new array, with the characters that are written.\<close>

definition c_strdup :: "string option \<Rightarrow> char option list option result" where
  "c_strdup s = (case s of None \<Rightarrow> Inr None | Some s \<Rightarrow>
     bind_result (c_length 0 s) (\<lambda>len.
       let cpy = replicate (len + 1) None;
           cpy = fold (\<lambda>i cpy. cpy[i := Some (s ! i)]) [0..<len] cpy;
           cpy = cpy[len := Some nul]
       in Inr (Some cpy)))"

text \<open>\<open>findx\<close>: the inner loop returns \<open>j\<close>; the pointer that is returned is an offset into \<open>s\<close>.\<close>

function match_from :: "string \<Rightarrow> string \<Rightarrow> nat \<Rightarrow> nat \<Rightarrow> nat result" where
  "match_from s x i j =
     (if length s \<le> i + j \<or> length x \<le> j then Inl Undefined_Behaviour
      else if s ! (i + j) \<noteq> nul \<and> x ! j \<noteq> nul \<and> s ! (i + j) = x ! j then match_from s x i (j + 1)
      else Inr j)"
  by pat_completeness auto
termination by (relation "measure (\<lambda>(s, x, i, j). length x - j)") auto

function find_from :: "string \<Rightarrow> string \<Rightarrow> nat \<Rightarrow> nat option result" where
  "find_from s x i =
     (if length s \<le> i then Inl Undefined_Behaviour
      else if s ! i = nul then Inr None
      else bind_result (match_from s x i 0) (\<lambda>j. if x ! j = nul then Inr (Some i) else find_from s x (i + 1)))"
  by pat_completeness auto
termination by (relation "measure (\<lambda>(s, x, i). length s - i)") auto

definition findx :: "string option \<Rightarrow> string option \<Rightarrow> nat option result" where
  "findx s x = (case (s, x) of
     (Some s, Some x) \<Rightarrow>
       if length x = 0 then Inl Undefined_Behaviour
       else if x ! 0 = nul then Inr (Some 0) else find_from s x 0
   | _ \<Rightarrow> Inr None)"

text \<open>\<open>read_chars\<close>: \<open>cap\<close>, \<open>sz\<close> and \<open>buffer\<close> for the characters that are left to read.\<close>

fun read_chars_loop :: "string \<Rightarrow> nat \<times> nat \<times> char option list \<Rightarrow> nat \<times> nat \<times> char option list" where
  "read_chars_loop [] s = s"
| "read_chars_loop (ch # input) (cap, sz, buffer) =
     (if ch = CHR ''!'' then (cap, sz, buffer)
      else
        let (cap, buffer) = (if sz = cap
              then (cap * 2, fold (\<lambda>i more. more[i := buffer ! i]) [0..<sz] (replicate (cap * 2) None)) else (cap, buffer))
        in read_chars_loop input (cap, sz + 1, buffer[sz := Some ch]))"

definition read_chars :: "string \<Rightarrow> nat \<times> nat \<times> char option list" where
  "read_chars input = read_chars_loop input (8, 0, replicate 8 None)"

declare to_lower_loop.simps [simp del] c_length.simps [simp del] match_from.simps [simp del] find_from.simps [simp del]

section \<open>The program\<close>

definition size_lines :: string where
  "size_lines = concat (map (\<lambda>n. show_nat n @ newline) [1, 4, 8, 24])"

definition call17 :: string where
  "call17 = concat (map (\<lambda>i. show_int (replicate 10 0 ! i) @ '' '') [0..<10]) @ newline"

text \<open>Writing a \<open>char*\<close>: the characters before the first zero.\<close>

definition put_chars :: "string \<Rightarrow> string result" where
  "put_chars s = bind_result (c_length 0 s) (\<lambda>len. Inr (take len s))"

definition c_literal :: "string \<Rightarrow> string" where
  "c_literal s = s @ [nul]"

definition vec_main :: "string result" where
  "vec_main =
     bind_result (bind_result (to_lower (Some (c_literal ''Hello, World!''))) (\<lambda>t. put_chars (the t))) (\<lambda>t.
     bind_result (bind_result (c_strdup (Some (c_literal ''Hello, World!''))) (\<lambda>c. put_chars (map the (the c)))) (\<lambda>c.
       Inr (size_lines @ call17 @ t @ newline @ c @ newline)))"

lemma vec_main_output:
  "vec_main = Inr (''1'' @ newline @ ''4'' @ newline @ ''8'' @ newline @ ''24'' @ newline @
     ''0 0 0 0 0 0 0 0 0 0 '' @ newline @ ''hello, world!'' @ newline @ ''Hello, World!'' @ newline)"
  by code_simp

section \<open>Correctness\<close>

text \<open>\<open>c_string s t\<close>: the array \<open>s\<close> holds the text \<open>t\<close>, up to the first zero.\<close>

definition c_string :: "string \<Rightarrow> string \<Rightarrow> bool" where
  "c_string s t \<longleftrightarrow> nul \<notin> set t \<and> (\<exists>rest. s = t @ nul # rest)"

lemma c_stringD:
  assumes "c_string s t"
  shows "i < length t \<Longrightarrow> s ! i = t ! i \<and> t ! i \<noteq> nul" "s ! length t = nul" "length t < length s" "take (length t) s = t"
proof -
  obtain rest where s: "s = t @ nul # rest" "nul \<notin> set t" using assms by (auto simp: c_string_def)
  show "i < length t \<Longrightarrow> s ! i = t ! i \<and> t ! i \<noteq> nul" using s by (metis nth_append nth_mem)
  show "s ! length t = nul" "length t < length s" "take (length t) s = t" using s(1) by simp_all
qed

lemma c_length_text: "c_string s t \<Longrightarrow> len \<le> length t \<Longrightarrow> c_length len s = Inr (length t)"
proof (induction "length t - len" arbitrary: len)
  case 0
  then show ?case using c_stringD(2,3) [of s t] by (simp add: c_length.simps [of len])
next
  case (Suc k)
  then have "len < length t" by simp
  then show ?case using Suc c_stringD(1) [of s t len] c_stringD(3) [of s t] by (simp add: c_length.simps [of len])
qed

definition lower_text :: "string \<Rightarrow> string" where
  "lower_text = map (\<lambda>c. if of_char c \<ge> (65 :: nat) \<and> of_char c \<le> (90 :: nat) then char_of (of_char c + (32 :: nat)) else c)"

lemma to_lower_loop_text:
  "nul \<notin> set t \<Longrightarrow> to_lower_loop (length p) (p @ t @ nul # rest) = Inr (p @ lower_text t @ nul # rest)"
proof (induction t arbitrary: p)
  case Nil
  then show ?case by (subst to_lower_loop.simps) (simp add: lower_text_def)
next
  case (Cons c t)
  let ?c = "hd (lower_text [c])"
  have "to_lower_loop (length p) (p @ (c # t) @ nul # rest) = to_lower_loop (length (p @ [?c])) ((p @ [?c]) @ t @ nul # rest)"
    using Cons.prems by (subst to_lower_loop.simps) (auto simp: lower_text_def)
  also have "\<dots> = Inr ((p @ [?c]) @ lower_text t @ nul # rest)" by (rule Cons.IH) (use Cons.prems in simp)
  finally show ?case by (simp add: lower_text_def)
qed

lemma fold_writes: "n \<le> length xs \<Longrightarrow> fold (\<lambda>i xs. xs[i := f i]) [0..<n] xs = map f [0..<n] @ drop n xs"
  by (induction n) (auto simp: list_update_append upd_conv_take_nth_drop Cons_nth_drop_Suc [symmetric])

lemma c_strdup_text:
  assumes "c_string s t" shows "c_strdup (Some s) = Inr (Some (map Some (t @ [nul])))"
proof -
  have "map (\<lambda>i. Some (s ! i)) [0..<length t] = map Some t"
    by (rule nth_equalityI) (use c_stringD(1) [OF assms] in auto)
  moreover have "drop (length t) (replicate (length t + 1) None) = [None]" by (simp only: drop_replicate) simp
  ultimately have "fold (\<lambda>i cpy. cpy[i := Some (s ! i)]) [0..<length t] (replicate (length t + 1) None) = map Some t @ [None]"
    by (subst fold_writes) simp_all
  then show ?thesis using c_length_text [OF assms, of 0] by (simp add: c_strdup_def list_update_append)
qed

lemma match_from_text:
  assumes s: "c_string s t" and x: "c_string x u" and j: "take j (drop i t) = take j u" "j \<le> length u" "i + j \<le> length t"
  shows "\<exists>k. match_from s x i j = Inr k \<and> k \<le> length u \<and> (x ! k = nul \<longleftrightarrow> prefix u (drop i t))"
  using j
proof (induction "length u - j" arbitrary: j)
  case 0
  then have j: "j = length u" by simp
  have "match_from s x i j = Inr j"
    using c_stringD(2,3) [OF x] c_stringD(3) [OF s] 0(4) by (subst match_from.simps) (simp add: j)
  moreover have "prefix u (drop i t)" using 0(2) j by (metis take_all order_refl take_is_prefix)
  ultimately show ?case using c_stringD(2) [OF x] j by auto
next
  case (Suc m)
  then have j: "j < length u" by simp
  have xj: "x ! j = u ! j" "x ! j \<noteq> nul" "length u < length x" using c_stringD(1,3) [OF x] j by auto
  have si: "i + j < length s" using Suc.prems(3) c_stringD(3) [OF s] by simp
  show ?case
  proof (cases "i + j < length t \<and> t ! (i + j) = u ! j")
    case True
    then have sj: "s ! (i + j) = x ! j" using c_stringD(1) [OF s, of "i + j"] xj by simp
    have "j < length (drop i t)" "drop i t ! j = u ! j" using True by auto
    then have "take (Suc j) (drop i t) = take (Suc j) u" using Suc.prems(1) j by (simp only: take_Suc_conv_app_nth)
    then obtain k where "match_from s x i (Suc j) = Inr k" "k \<le> length u" "x ! k = nul \<longleftrightarrow> prefix u (drop i t)"
      using Suc.hyps(1) [of "Suc j"] Suc.hyps(2) True j by (metis Suc_diff_Suc Suc_inject Suc_leI add_Suc_right)
    then show ?thesis using xj si sj j by (subst match_from.simps) auto
  next
    case False
    have "s ! (i + j) = nul \<or> s ! (i + j) \<noteq> x ! j"
      using False Suc.prems(3) c_stringD(1) [OF s, of "i + j"] c_stringD(2) [OF s] xj by (cases "i + j < length t") (auto simp: nat_less_le)
    then have "match_from s x i j = Inr j" using si xj j by (subst match_from.simps) auto
    moreover have "\<not> prefix u (drop i t)"
    proof
      assume "prefix u (drop i t)"
      then obtain v where "drop i t = u @ v" by (auto simp: prefix_def)
      then have "drop i t ! j = u ! j" "j < length (drop i t)" using j by (auto simp: nth_append)
      then show False using False by (simp add: add.commute)
    qed
    ultimately show ?thesis using xj j by auto
  qed
qed

text \<open>The first place in \<open>t\<close> where \<open>u\<close> begins.\<close>

definition first_match :: "string \<Rightarrow> string \<Rightarrow> nat option" where
  "first_match t u = find (\<lambda>i. prefix u (drop i t)) [0..<Suc (length t)]"

lemma find_from_text:
  assumes s: "c_string s t" and x: "c_string x u" and "u \<noteq> []"
  shows "i \<le> length t \<Longrightarrow> find_from s x i = Inr (find (\<lambda>i. prefix u (drop i t)) [i..<Suc (length t)])"
proof (induction "length t - i" arbitrary: i)
  case 0
  then have "i = length t" by simp
  then show ?case using c_stringD(2,3) [OF s] \<open>u \<noteq> []\<close> by (subst find_from.simps) simp
next
  case (Suc m)
  then have i: "i < length t" by simp
  obtain k where k: "match_from s x i 0 = Inr k" "x ! k = nul \<longleftrightarrow> prefix u (drop i t)"
    using match_from_text [OF s x, of 0 i] Suc.prems by auto
  have "find (\<lambda>i. prefix u (drop i t)) [i..<Suc (length t)] =
      (if prefix u (drop i t) then Some i else find (\<lambda>i. prefix u (drop i t)) [Suc i..<Suc (length t)])"
    using i by (subst upt_conv_Cons) auto
  then show ?case
    using c_stringD(1) [OF s, of i] c_stringD(3) [OF s] i k Suc.hyps(1) [of "Suc i"] Suc.hyps(2) by (subst find_from.simps) auto
qed

lemma findx_text:
  assumes s: "c_string s t" and x: "c_string x u" shows "findx (Some s) (Some x) = Inr (first_match t u)"
proof (cases "u = []")
  case True
  have "first_match t u = Some 0" unfolding first_match_def using True by (subst upt_conv_Cons) auto
  then show ?thesis using c_stringD(2,3) [OF x] True by (auto simp: findx_def)
next
  case False
  then have "x ! 0 \<noteq> nul" "length x \<noteq> 0" using c_stringD(1) [OF x, of 0] c_stringD(3) [OF x] by auto
  then show ?thesis using find_from_text [OF s x False, of 0] by (simp add: findx_def first_match_def)
qed


text \<open>
  The buffer of \<open>read_chars\<close> holds what was read before the first exclamation mark, and its size is 8 times a power of two,
  less than twice of what is needed when it has grown.
\<close>

definition buffer_ok :: "nat \<times> nat \<times> char option list \<Rightarrow> string \<Rightarrow> bool" where
  "buffer_ok s t \<longleftrightarrow> (case s of (cap, sz, buffer) \<Rightarrow> sz = length t \<and> sz \<le> cap \<and> length buffer = cap \<and> take sz buffer = map Some t \<and>
     (\<exists>k. cap = 8 * 2 ^ k) \<and> (cap = 8 \<or> cap < 2 * sz))"

lemma read_chars_loop_ok:
  "buffer_ok s t \<Longrightarrow> buffer_ok (read_chars_loop input s) (t @ takeWhile (\<lambda>c. c \<noteq> CHR ''!'') input)"
proof (induction input arbitrary: s t)
  case (Cons ch input)
  obtain cap sz buffer where s: "s = (cap, sz, buffer)" by (cases s)
  have ok: "sz = length t" "sz \<le> cap" "length buffer = cap" "take sz buffer = map Some t" "cap = 8 \<or> cap < 2 * sz" "\<exists>k. cap = 8 * 2 ^ k"
    using Cons.prems by (auto simp: buffer_ok_def s)
  show ?case
  proof (cases "ch = CHR ''!''")
    case False
    define big where "big = (if sz = cap then (cap * 2, fold (\<lambda>i more. more[i := buffer ! i]) [0..<sz] (replicate (cap * 2) None)) else (cap, buffer))"
    have copied: "fold (\<lambda>i more. more[i := buffer ! i]) [0..<sz] (replicate (cap * 2) None) = map (\<lambda>i. buffer ! i) [0..<sz] @ replicate (cap * 2 - sz) None"
      using ok(2) by (subst fold_writes) (simp_all add: drop_replicate)
    have "map (\<lambda>i. buffer ! i) [0..<sz] = take sz buffer" using ok(2,3) by (intro nth_equalityI) simp_all
    then have "map (\<lambda>i. buffer ! i) [0..<sz] = map Some t" using ok(4) by simp
    then have grown: "snd big = (if sz = cap then map Some t @ replicate (cap * 2 - sz) None else buffer)" using copied by (auto simp: big_def)
    have cap: "fst big = (if sz = cap then cap * 2 else cap)" by (simp add: big_def)
    have pos: "0 < cap" using ok(6) by auto
    have big_ok: "sz < fst big" "length (snd big) = fst big" "take sz (snd big) = map Some t"
      using ok(1-4) pos by (auto simp: grown cap)
    have "\<exists>k. fst big = 8 * 2 ^ k" using ok(6) by (auto simp: cap intro: exI [of _ "Suc _"])
    moreover have "fst big = 8 \<or> fst big < 2 * (sz + 1)" using ok(1,2,5) by (auto simp: cap)
    moreover have "take (sz + 1) ((snd big)[sz := Some ch]) = map Some (t @ [ch])"
      using big_ok ok(1) by (simp add: take_Suc_conv_app_nth)
    ultimately have "buffer_ok (fst big, sz + 1, (snd big)[sz := Some ch]) (t @ [ch])"
      using big_ok ok(1) by (simp add: buffer_ok_def)
    from Cons.IH [OF this] show ?thesis using False by (auto simp: s big_def [symmetric] split: prod.split)
  qed (use Cons.prems in \<open>simp add: s\<close>)
qed simp

text \<open>
  On every C string \<open>to_lower\<close> changes exactly the capital letters, \<open>strdup\<close> returns a new array with the same text in which every
  character is written, and \<open>findx\<close> returns the first place of the second text in the first one or \<open>nullptr\<close>; none of them leaves
  an array. \<open>read_chars\<close> keeps what comes before the first exclamation mark.
\<close>
theorem c_strings_correct:
  assumes "c_string s t" and "c_string x u"
  shows "\<exists>rest sz cap buffer. to_lower (Some s) = Inr (Some (lower_text t @ nul # rest)) \<and> s = t @ nul # rest \<and>
    c_strdup (Some s) = Inr (Some (map Some (t @ [nul]))) \<and> findx (Some s) (Some x) = Inr (first_match t u) \<and>
    read_chars input = (cap, sz, buffer) \<and> take sz buffer = map Some (takeWhile (\<lambda>c. c \<noteq> CHR ''!'') input)"
proof -
  obtain rest where s: "s = t @ nul # rest" "nul \<notin> set t" using assms(1) by (auto simp: c_string_def)
  have "buffer_ok (8, 0, replicate 8 None) []" by (auto simp: buffer_ok_def intro: exI [of _ 0])
  then have "buffer_ok (read_chars input) (takeWhile (\<lambda>c. c \<noteq> CHR ''!'') input)"
    unfolding read_chars_def by (metis append_Nil read_chars_loop_ok)
  then obtain cap sz buffer where "read_chars input = (cap, sz, buffer)" "take sz buffer = map Some (takeWhile (\<lambda>c. c \<noteq> CHR ''!'') input)"
    by (auto simp: buffer_ok_def)
  then show ?thesis
    using to_lower_loop_text [OF s(2), of "[]" rest] c_strdup_text [OF assms(1)] findx_text [OF assms] s by (simp add: to_lower_def)
qed

lemma c_strings_correct_witness:
  "c_strdup (Some (c_literal ''abcab'')) = Inr (Some (map Some (''abcab'' @ [nul]))) \<and>
    findx (Some (c_literal ''abcab'')) (Some (c_literal ''ca'')) = Inr (Some 2)"
proof -
  have "c_string (c_literal ''abcab'') ''abcab''" "c_string (c_literal ''ca'') ''ca''" by (simp_all add: c_string_def c_literal_def nul_def)
  moreover have "first_match ''abcab'' ''ca'' = Some 2" by code_simp
  ultimately show ?thesis using c_strings_correct [of "c_literal ''abcab''" "''abcab''" "c_literal ''ca''" "''ca''" "[]"] by auto
qed

end
