(* ===== verification/Vector_Tests.thy ===== *)
theory Vector_Tests
  imports Vector_Model
begin

text \<open>
  The tests and the example of \<open>Vector\<close>: \<open>containers/vector_test.cpp\<close>, \<open>vector_growth_test.cpp\<close>,
  \<open>vector_reserve_test.cpp\<close> and \<open>vector_example.cpp\<close>, with the element types they define. A block of a test is a list of
  statements on one vector. The world of an element type are its static members. The tests also compare
  addresses of elements, which the model of \<open>Vector\<close> does not have.
\<close>

section \<open>Blocks of statements\<close>

datatype ('a, 'w, 'e) vt_stmt =
    VT_Do "('a, 'w, 'e) vec_op"
  | VT_Throws "'e vec_exn \<Rightarrow> bool" "('a, 'w, 'e) vec_op"
  | VT_World "'w \<Rightarrow> 'w"
  | VT_Set size_t 'a
  | VT_Assert "('a, 'w) vec \<Rightarrow> bool"

text \<open>\<open>None\<close>: an assertion fails, or an operation throws and should not, or the other way round.\<close>

fun vt_exec :: "('a, 'w, 'e) elem \<Rightarrow> ('a, 'w, 'e) vt_stmt \<Rightarrow> ('a, 'w) vec \<Rightarrow> ('a, 'w) vec option" where
  "vt_exec E (VT_Do op) v = (case vec_step E op v of (Inr _, v) \<Rightarrow> Some v | (Inl e, v) \<Rightarrow> None)"
| "vt_exec E (VT_Throws P op) v = (case vec_step E op v of (Inr _, v) \<Rightarrow> None | (Inl e, v) \<Rightarrow> if P e then Some v else None)"
| "vt_exec E (VT_World f) v = Some (v\<lparr>v_env := (v_env v)\<lparr>e_world := f (e_world (v_env v))\<rparr>\<rparr>)"
| "vt_exec E (VT_Set i x) v = Some (v\<lparr>v_data := map_option (\<lambda>xs. xs[unat i := Some x]) (v_data v)\<rparr>)"
| "vt_exec E (VT_Assert P) v = (if P v then Some v else None)"

fun vt_run :: "('a, 'w, 'e) elem \<Rightarrow> ('a, 'w, 'e) vt_stmt list \<Rightarrow> ('a, 'w) vec \<Rightarrow> ('a, 'w) vec option" where
  "vt_run E [] v = Some v"
| "vt_run E (s # ss) v = Option.bind (vt_exec E s v) (vt_run E ss)"

text \<open>A vector of capacity \<open>n\<close>, the statements, and the destructor, which must leave nothing undefined or allocated.\<close>

definition vt_block :: "('a, 'w, 'e) elem \<Rightarrow> size_t \<Rightarrow> ('a, 'w, 'e) vt_stmt list \<Rightarrow> 'w \<Rightarrow> 'w option" where
  "vt_block E n ss w = (case vec_new E n \<lparr>e_world = w, e_log = [], e_ub = False\<rparr> of
     Inl e \<Rightarrow> None
   | Inr v \<Rightarrow> Option.bind (vt_run E ss v) (\<lambda>v. let m = vec_destruct E v in
       if \<not> e_ub m \<and> length (constructed_in (e_log m)) = length (destroyed_in (e_log m)) \<and>
         mset (allocated_in (e_log m)) = mset (deallocated_in (e_log m)) then Some (e_world m) else None))"

fun is_length_error :: "'e vec_exn \<Rightarrow> bool" where
  "is_length_error (Vec_Length_Error t) = True" | "is_length_error e = False"

fun is_out_of_range :: "'e vec_exn \<Rightarrow> bool" where
  "is_out_of_range (Vec_Out_Of_Range t) = True" | "is_out_of_range e = False"

fun is_runtime_error :: "'e vec_exn \<Rightarrow> bool" where
  "is_runtime_error (Vec_Thrown e) = True" | "is_runtime_error e = False"

text \<open>The size and capacity, and an element.\<close>

definition has :: "nat \<Rightarrow> size_t \<Rightarrow> ('a, 'w) vec \<Rightarrow> bool" where
  "has n c v \<longleftrightarrow> unat (v_size v) = n \<and> v_capacity v = c"

definition at_is :: "size_t \<Rightarrow> 'a \<Rightarrow> ('a, 'w) vec \<Rightarrow> bool" where
  "at_is i x v \<longleftrightarrow> vec_at v i = Inr x"

definition world_is :: "('w \<Rightarrow> bool) \<Rightarrow> ('a, 'w) vec \<Rightarrow> bool" where
  "world_is P v \<longleftrightarrow> P (e_world (v_env v))"

text \<open>\<open>max_size()\<close> of the allocators, for elements of eight bytes.\<close>

definition vt_max :: size_t where
  "vt_max = 0x0FFFFFFFFFFFFFFF"

text \<open>Types whose members cannot throw, with what a move leaves behind; a constructor from a value.\<close>

definition simple_elem :: "('a \<Rightarrow> 'a) \<Rightarrow> ('a, 'w, 'e) elem" where
  "simple_elem moved = \<lparr>el_relocate = \<lambda>x w. (Inr x, moved x, w), el_copy = \<lambda>x w. (Inr x, w), el_destroy = \<lambda>x w. w,
     el_growable = True, el_max_size = vt_max, el_alloc_fails = \<lambda>n w. False\<rparr>"

definition from_value :: "'a \<Rightarrow> ('a, 'w, 'e) ctor" where
  "from_value x = (\<lambda>xs w. (Inr x, xs, w))"

section \<open>vector\_test.cpp\<close>

text \<open>\<open>Tracked\<close>: \<open>alive\<close> and \<open>last_destroyed\<close>; it cannot be copied or moved.\<close>

definition tracked :: "(int, int \<times> int, string) elem" where
  "tracked = \<lparr>el_relocate = \<lambda>x w. (Inr x, x, w), el_copy = \<lambda>x w. (Inr x, w),
     el_destroy = \<lambda>x (alive, last). (alive - 1, x), el_growable = False, el_max_size = vt_max, el_alloc_fails = \<lambda>n w. False\<rparr>"

definition new_tracked :: "int \<Rightarrow> (int, int \<times> int, string) ctor" where
  "new_tracked x = (\<lambda>xs (alive, last). if x < 0 then (Inl ''construction failed'', xs, (alive, last)) else (Inr x, xs, (alive + 1, last)))"

definition vector_test_1 :: "(int, int \<times> int, string) vt_stmt list" where
  "vector_test_1 =
    [VT_Assert (world_is (\<lambda>(alive, last). alive = 0)),
     VT_Do (V_Emplace (new_tracked 42)),
     VT_Set 0 43,
     VT_Throws is_runtime_error (V_Emplace (new_tracked (- 1))),
     VT_Assert (\<lambda>v. unat (v_size v) = 1 \<and> world_is (\<lambda>(alive, last). alive = 1) v),
     VT_Assert (at_is 0 43),
     VT_Do (V_Emplace (new_tracked 7)),
     VT_Do (V_Emplace (new_tracked 9)),
     VT_Assert (has 3 3),
     VT_Assert (\<lambda>v. at_is 1 7 v \<and> at_is 2 9 v),
     VT_Assert (world_is (\<lambda>(alive, last). alive = 3)),
     VT_Throws is_length_error (V_Emplace (new_tracked (- 1))),
     VT_Assert (\<lambda>v. unat (v_size v) = 3 \<and> world_is (\<lambda>(alive, last). alive = 3) v)]"

definition vector_test_2 :: "(int, int \<times> int, string) vt_stmt list" where
  "vector_test_2 = [VT_Do (V_Emplace (new_tracked 1))]"

definition vector_test_3 :: "(int, int \<times> int, string) vt_stmt list" where
  "vector_test_3 =
    [VT_Do (V_Emplace (new_tracked 10)),
     VT_Do (V_Emplace (new_tracked 20)),
     VT_Do V_Pop,
     VT_Assert (has 1 3),
     VT_Assert (world_is (\<lambda>(alive, last). alive = 1 \<and> last = 20)),
     VT_Assert (at_is 0 10),
     VT_Do (V_Emplace (new_tracked 30)),
     VT_Assert (\<lambda>v. at_is 1 30 v \<and> world_is (\<lambda>(alive, last). alive = 2) v),
     VT_Do V_Clear,
     VT_Assert (\<lambda>v. vec_empty v \<and> v_capacity v = 3),
     VT_Assert (world_is (\<lambda>(alive, last). alive = 0 \<and> last = 10)),
     VT_Do V_Clear,
     VT_Throws is_out_of_range V_Pop,
     VT_Assert (\<lambda>v. vec_empty v \<and> v_capacity v = 3 \<and> world_is (\<lambda>(alive, last). alive = 0) v),
     VT_Do (V_Emplace (new_tracked 40)),
     VT_Assert (\<lambda>v. at_is 0 40 v \<and> world_is (\<lambda>(alive, last). alive = 1) v),
     VT_Do V_Pop,
     VT_Assert (\<lambda>v. vec_empty v \<and> v_capacity v = 3 \<and> world_is (\<lambda>(alive, last). alive = 0) v),
     VT_Do (V_Emplace (new_tracked 50))]"

definition vector_test_4 :: "(int, int \<times> int, string) vt_stmt list" where
  "vector_test_4 =
    [VT_Throws is_length_error (V_Emplace (new_tracked 1)),
     VT_Do V_Clear,
     VT_Throws is_out_of_range V_Pop,
     VT_Assert (\<lambda>v. vec_empty v \<and> v_capacity v = 0 \<and> world_is (\<lambda>(alive, last). alive = 0) v)]"

text \<open>Elements that are \<open>std::unique_ptr<int>\<close>, and owners of \<open>Tracked\<close> objects.\<close>

definition pointer_elem :: "(int option, unit, string) elem" where
  "pointer_elem = simple_elem (\<lambda>x. None)"

definition move_element :: "nat \<Rightarrow> ('a option, 'w, 'e) ctor" where
  "move_element i = (\<lambda>xs w. (Inr (xs ! i), xs[i := None], w))"

definition vector_test_5 :: "(int option, unit, string) vt_stmt list" where
  "vector_test_5 =
    [VT_Do (V_Emplace (from_value (Some 99))),
     VT_Assert (at_is 0 (Some 99)),
     VT_Do (V_Emplace (move_element 0)),
     VT_Assert (has 2 2),
     VT_Assert (\<lambda>v. at_is 0 None v \<and> at_is 1 (Some 99) v)]"

definition owner_elem :: "(int option, int \<times> int, string) elem" where
  "owner_elem = (simple_elem (\<lambda>x. None))\<lparr>el_destroy := \<lambda>x (alive, last). case x of None \<Rightarrow> (alive, last) | Some n \<Rightarrow> (alive - 1, n)\<rparr>"

definition new_owner :: "int \<Rightarrow> (int option, int \<times> int, string) ctor" where
  "new_owner n = (\<lambda>xs (alive, last). (Inr (Some n), xs, (alive + 1, last)))"

definition vector_test_6 :: "(int option, int \<times> int, string) vt_stmt list" where
  "vector_test_6 =
    [VT_Do (V_Emplace (new_owner 1)),
     VT_Do (V_Emplace (new_owner 2)),
     VT_Do V_Pop,
     VT_Assert (world_is (\<lambda>(alive, last). alive = 1 \<and> last = 2)),
     VT_Do V_Clear,
     VT_Assert (world_is (\<lambda>(alive, last). alive = 0 \<and> last = 1))]"

definition none_alive :: "(int \<times> int) option \<Rightarrow> (int \<times> int) option" where
  "none_alive w = Option.bind w (\<lambda>(alive, last). if alive = 0 then Some (alive, last) else None)"

definition vector_test_main :: bool where
  "vector_test_main \<longleftrightarrow>
    (let w = none_alive (vt_block tracked 3 vector_test_1 (0, 0));
         w = none_alive (Option.bind w (vt_block tracked 3 vector_test_2));
         w = none_alive (Option.bind w (vt_block tracked 3 vector_test_3));
         w = none_alive (Option.bind w (vt_block tracked 0 vector_test_4))
     in vt_block pointer_elem 1 vector_test_5 () \<noteq> None \<and> Option.bind w (vt_block owner_elem 2 vector_test_6) \<noteq> None)"

lemma vector_test_passes: "vector_test_main"
  by code_simp


section \<open>vector\_growth\_test.cpp\<close>

definition int_elem :: "(int, unit, string) elem" where
  "int_elem = simple_elem (\<lambda>x. x)"

definition growth_test_1 :: "(int, unit, string) vt_stmt list" where
  "growth_test_1 =
    [VT_Do (V_Push 10), VT_Assert (has 1 1),
     VT_Do (V_Emplace (from_value 20)), VT_Assert (has 2 2),
     VT_Do (V_Push 30), VT_Assert (has 3 4),
     VT_Do (V_Push 40), VT_Assert (\<lambda>v. v_capacity v = 4),
     VT_Do (V_Emplace (from_value 50)), VT_Assert (has 5 8),
     VT_Assert (\<lambda>v. list_all (\<lambda>i. at_is (of_nat i) ((int i + 1) * 10) v) [0..<5])]"

definition growth_test_2 :: "(int, unit, string) vt_stmt list" where
  "growth_test_2 = map (\<lambda>i. VT_Do (V_Push i)) [0..3] @ [VT_Assert (has 4 6)]"

text \<open>A moved-from string or pair holds the empty text. \<open>copy_of i\<close> copies an element into a new one.\<close>

definition string_elem :: "(string, unit, string) elem" where
  "string_elem = simple_elem (\<lambda>x. [])"

definition copy_of :: "nat \<Rightarrow> ('a, 'w, 'e) ctor" where
  "copy_of i = (\<lambda>xs w. (Inr (xs ! i), xs, w))"

definition long_text :: string where
  "long_text = replicate 100 CHR ''x''"

definition growth_test_3 :: "(string, unit, string) vt_stmt list" where
  "growth_test_3 =
    [VT_Do (V_Push long_text),
     VT_Do (V_Emplace (copy_of 0)),
     VT_Assert (\<lambda>v. at_is 0 long_text v \<and> at_is 1 long_text v),
     VT_Do (V_Emplace (copy_of 0)),
     VT_Assert (at_is 2 long_text),
     VT_Assert (\<lambda>v. at_is 0 long_text v \<and> at_is 1 long_text v),
     VT_Do (V_Emplace (copy_of 1)),
     VT_Assert (\<lambda>v. unat (v_size v) = 4 \<and> at_is 3 long_text v)]"

definition pair_elem :: "(string \<times> int, unit, string) elem" where
  "pair_elem = simple_elem (\<lambda>(t, i). ([], i))"

definition growth_test_4 :: "(string \<times> int, unit, string) vt_stmt list" where
  "growth_test_4 =
    [VT_Do (V_Emplace (from_value (long_text, 7))),
     VT_Do (V_Emplace (\<lambda>xs w. (Inr (fst (xs ! 0), snd (xs ! 0)), xs, w))),
     VT_Assert (\<lambda>v. at_is 0 (long_text, 7) v \<and> at_is 1 (long_text, 7) v)]"

text \<open>\<open>Counted\<close>: the world is \<open>moves\<close>.\<close>

definition counted :: "(int, nat, string) elem" where
  "counted = \<lparr>el_relocate = \<lambda>x moves. (Inr x, - 1, moves + 1), el_copy = \<lambda>x moves. (Inr x, moves),
     el_destroy = \<lambda>x moves. moves, el_growable = True, el_max_size = vt_max, el_alloc_fails = \<lambda>n w. False\<rparr>"

definition growth_test_5 :: "nat \<Rightarrow> (int, nat, string) vt_stmt list" where
  "growth_test_5 cnt = map (\<lambda>i. VT_Do (V_Emplace (from_value (int i)))) [0..<cnt] @
    [VT_Assert (\<lambda>v. unat (v_size v) = cnt), VT_Assert (world_is (\<lambda>moves. moves < 2 * cnt)),
     VT_Assert (\<lambda>v. list_all (\<lambda>i. at_is (of_nat i) (int i) v) [0..<cnt])]"

definition growth_test_main :: bool where
  "growth_test_main \<longleftrightarrow> vt_block int_elem 0 growth_test_1 () \<noteq> None \<and> vt_block int_elem 3 growth_test_2 () \<noteq> None \<and>
    vt_block string_elem 1 growth_test_3 () \<noteq> None \<and> vt_block pair_elem 1 growth_test_4 () \<noteq> None \<and>
    vt_block counted 0 (growth_test_5 100) 0 \<noteq> None"

text \<open>
  The blocks do nothing but append: then a vector is known by its elements and its capacity, whatever its size. \<open>good E ss xs c\<close>: from
  every vector with the elements \<open>xs\<close> and the capacity \<open>c\<close> the statements run to their end.
\<close>

definition nothrow :: "('a, 'w, string) elem \<Rightarrow> bool" where
  "nothrow E \<longleftrightarrow> el_growable E \<and> el_max_size E = vt_max \<and> el_alloc_fails E = (\<lambda>n w. False) \<and> (\<forall>x w. fst (el_relocate E x w) = Inr x)"

definition shape :: "('a, 'w, 'e) elem \<Rightarrow> ('a, 'w) vec \<Rightarrow> 'a list \<Rightarrow> nat \<Rightarrow> bool" where
  "shape E v xs c \<longleftrightarrow> vec_ok E v \<and> v_elems v = xs \<and> unat (v_size v) = length xs \<and> unat (v_capacity v) = c"

definition next_capacity :: "nat \<Rightarrow> nat \<Rightarrow> nat" where
  "next_capacity n c = (if n = c then max 1 (2 * c) else c)"

lemma nothrow_relocates: "nothrow E \<Longrightarrow> relocate_loop E i k old new m = (r, i', old', new', m') \<Longrightarrow> r = Inr ()"
proof (induction k arbitrary: i old new m)
  case (Suc k)
  show ?case
  proof (cases "old ! i")
    case (Some x)
    obtain x' w where "el_relocate E x (e_world m) = (Inr x, x', w)"
      using Suc.prems(1) by (metis nothrow_def prod.collapse)
    then show ?thesis using Suc Some by (auto split: prod.splits)
  qed (use Suc.prems in auto)
qed simp

lemma grown_vt:
  assumes "unat c = n" "2 * Suc n \<le> unat vt_max"
  shows "unat (grown_capacity vt_max c) = max 1 (2 * n)" "grown_capacity vt_max c \<le> vt_max" "c \<noteq> vt_max"
proof -
  have "\<not> vt_max div 2 < c" using assms by (simp add: word_less_nat_alt unat_div2)
  moreover have "unat (c * 2) = n * 2" using assms unat_size_t_less [of vt_max] by (simp add: unat_word_ariths)
  moreover have "c \<noteq> 0 \<longleftrightarrow> 1 \<le> n" using assms(1) unat_gt_0 [of c] by linarith
  ultimately show "unat (grown_capacity vt_max c) = max 1 (2 * n)" "grown_capacity vt_max c \<le> vt_max" "c \<noteq> vt_max"
    using assms by (auto simp: grown_capacity_def word_le_nat_alt)
qed

text \<open>The new element is in place, or the elements were relocated to a larger allocation.\<close>

lemma nothrow_emplace:
  assumes E: "nothrow E" and v: "shape E v xs c" and f: "f xs (e_world (v_env v)) = (Inr y, zs, w)" "length zs = length xs"
    and room: "2 * Suc (length xs) \<le> unat vt_max"
  obtains v' where "vec_emplace_back E f v = (Inr (), v')" "shape E v' (zs @ [y]) (next_capacity (length xs) c)"
    "length xs \<noteq> c \<Longrightarrow> e_world (v_env v') = w"
    "length xs = c \<Longrightarrow> \<exists>new i old new' m m' sz cap. e_world m = w \<and> v' = vec_commit E old new' sz cap m' v \<and>
      relocate_loop E 0 c (write_elems zs (v_slots v)) new m = (Inr (), i, old, new', m')"
proof -
  let ?n = "length xs" and ?cap = "grown_capacity vt_max (v_capacity v)"
  have ok: "vec_ok E v" "v_elems v = xs" "unat (v_size v) = ?n" "unat (v_capacity v) = c" using v by (auto simp: shape_def)
  have full: "v_size v = v_capacity v \<longleftrightarrow> ?n = c" using ok(3,4) by (metis word_unat_eq_iff)
  have nE: "el_growable E" "el_max_size E = vt_max" "el_alloc_fails E = (\<lambda>n w. False)" using E by (auto simp: nothrow_def)
  have "relocates_equal E" using E unfolding nothrow_def relocates_equal_def by auto
  note spec = emplace_spec [where f = f, OF ok(1) f(1) [folded ok(2)]]
  have "\<exists>v'. vec_emplace_back E f v = (Inr (), v') \<and> (?n \<noteq> c \<longrightarrow> e_world (v_env v') = w) \<and>
    (?n = c \<longrightarrow> (\<exists>new i old new' m m' sz cap. e_world m = w \<and> v' = vec_commit E old new' sz cap m' v \<and>
      relocate_loop E 0 c (write_elems zs (v_slots v)) new m = (Inr (), i, old, new', m')))"
  proof (cases "?n = c")
    case True
    let ?m = "(emit (Allocated ?cap) (v_env v))\<lparr>e_world := w\<rparr>"
    note grown = grown_vt [of "v_capacity v" ?n, OF _ room]
    have cap: "unat (v_capacity v) = ?n" using ok(4) True by simp
    obtain new m where con: "construct_at ?n y (replicate (unat ?cap) None) ?m = (new, m)" by fastforce
    have w: "e_world m = w" using con by (auto simp: construct_at_def emit_def split: if_splits)
    obtain q i old new' m' where l: "relocate_loop E 0 ?n (write_elems zs (v_slots v)) new m = (q, i, old, new', m')"
      by (metis prod_cases5)
    have "\<not> alloc_throws E ?cap (e_world (v_env v))" using grown(2) [OF cap] nE by (simp add: alloc_throws_def not_less)
    then have "vec_emplace_back E f v = (Inr (), vec_commit E old new' (v_size v + 1) ?cap m' v)"
      using True full grown(3) [OF cap] nE ok(2,3) f(1) con l nothrow_relocates [OF E l]
      by (simp add: vec_emplace_back_def grow_and_emplace_def Let_def)
    then show ?thesis using True l nothrow_relocates [OF E l] w by blast
  next
    case False
    then show ?thesis using full ok(2) f(1)
      by (auto simp: vec_emplace_back_def construct_at_def emit_def split: prod.splits)
  qed
  then obtain v' where v': "vec_emplace_back E f v = (Inr (), v')" "?n \<noteq> c \<Longrightarrow> e_world (v_env v') = w"
    "?n = c \<Longrightarrow> \<exists>new i old new' m m' sz cap. e_world m = w \<and> v' = vec_commit E old new' sz cap m' v \<and>
      relocate_loop E 0 c (write_elems zs (v_slots v)) new m = (Inr (), i, old, new', m')" by blast
  have s: "vec_ok E v'" "v_size v' = v_size v + 1" "v_elems v' = zs @ [y]"
    "v_capacity v' = (if v_size v = v_capacity v then ?cap else v_capacity v)"
    using spec v'(1) f(2) ok(2) \<open>relocates_equal E\<close> nE(2) by auto
  have "unat (v_size v') = Suc ?n" using s(2) ok(3) room unat_Suc_size_t [of "v_size v" "unat vt_max"] unat_size_t_less [of vt_max] by simp
  then have "shape E v' (zs @ [y]) (next_capacity ?n c)"
    using s full f(2) ok(4) grown_vt(1) [of "v_capacity v" ?n, OF _ room] by (auto simp: shape_def next_capacity_def)
  from that [OF v'(1) this v'(2,3)] show ?thesis .
qed

definition good :: "('a, 'w, string) elem \<Rightarrow> ('a, 'w, string) vt_stmt list \<Rightarrow> 'a list \<Rightarrow> nat \<Rightarrow> bool" where
  "good E ss xs c \<longleftrightarrow> (\<forall>v. shape E v xs c \<longrightarrow> (\<exists>v'. vt_run E ss v = Some v' \<and> vec_ok E v'))"

lemma good_done: "good E [] xs c"
  by (simp add: good_def shape_def)

lemma good_emplace:
  assumes "nothrow E" "\<And>w. \<exists>w'. f xs w = (Inr y, zs, w')" "length zs = length xs" "2 * Suc (length xs) \<le> unat vt_max"
    and "good E ss (zs @ [y]) (next_capacity (length xs) c)"
  shows "good E (VT_Do (V_Emplace f) # ss) xs c"
  unfolding good_def
proof (intro allI impI)
  fix v assume v: "shape E v xs c"
  obtain w' where "f xs (e_world (v_env v)) = (Inr y, zs, w')" using assms(2) by blast
  then obtain v' where "vec_emplace_back E f v = (Inr (), v')" "shape E v' (zs @ [y]) (next_capacity (length xs) c)"
    using nothrow_emplace [where f = f, OF assms(1) v _ assms(3,4)] by blast
  then show "\<exists>v'. vt_run E (VT_Do (V_Emplace f) # ss) v = Some v' \<and> vec_ok E v'" using assms(5) by (auto simp: good_def)
qed

lemma good_assert: "(\<And>v. shape E v xs c \<Longrightarrow> P v) \<Longrightarrow> good E ss xs c \<Longrightarrow> good E (VT_Assert P # ss) xs c"
  by (simp add: good_def)

lemma good_block:
  assumes "good E ss [] (unat n)" "el_max_size E = vt_max" "n \<le> vt_max" "el_alloc_fails E = (\<lambda>n w. False)"
  shows "vt_block E n ss w \<noteq> None"
proof -
  obtain v where v: "vec_new E n \<lparr>e_world = w, e_log = [], e_ub = False\<rparr> = Inr v"
    using assms(2-4) by (cases "n = 0") (simp_all add: vec_new_def alloc_throws_def not_less)
  then have size: "v_size v = 0" "v_capacity v = n" by (auto simp: vec_new_def vec_default_def split: if_splits)
  then have "vec_ok E v" "v_elems v = []" "v_size v = 0" "v_capacity v = n" using new_ok [OF v] by (simp_all add: v_elems_def)
  then obtain v' where "vt_run E ss v = Some v'" "vec_ok E v'" using assms(1) by (auto simp: good_def shape_def)
  then show ?thesis using v destruct_spec [of E v'] by (simp add: vt_block_def Let_def balanced_def)
qed

lemma shape_at: "shape E v xs c \<Longrightarrow> unat i < length xs \<Longrightarrow> at_is i x v \<longleftrightarrow> x = xs ! unat i"
  by (auto simp: shape_def vec_ok_def vec_slots_ok_def at_is_def vec_at_def nth_append deref_optional_def)

lemma shape_has: "shape E v xs c \<Longrightarrow> has n d v \<longleftrightarrow> n = length xs \<and> unat d = c"
  by (auto simp: shape_def has_def word_unat_eq_iff)

lemma shape_sizes: "shape E v xs c \<Longrightarrow> v_capacity v = d \<longleftrightarrow> unat d = c" "shape E v xs c \<Longrightarrow> unat (v_size v) = length xs"
  by (auto simp: shape_def word_unat_eq_iff)

lemma simple_nothrow: "nothrow (simple_elem g)"
  by (simp add: nothrow_def simple_elem_def)

text \<open>The appends of the tests, for elements whose members do not throw.\<close>

definition fits :: "'a list \<Rightarrow> bool" where
  "fits xs \<longleftrightarrow> 2 * Suc (length xs) \<le> unat vt_max"

lemma good_appends:
  "fits xs \<Longrightarrow> good (simple_elem g) ss (xs @ [x]) (next_capacity (length xs) c) \<Longrightarrow> good (simple_elem g) (VT_Do (V_Push x) # ss) xs c"
  "fits xs \<Longrightarrow> good (simple_elem g) ss (xs @ [x]) (next_capacity (length xs) c) \<Longrightarrow>
    good (simple_elem g) (VT_Do (V_Emplace (from_value x)) # ss) xs c"
  "fits xs \<Longrightarrow> good (simple_elem g) ss (xs @ [xs ! i]) (next_capacity (length xs) c) \<Longrightarrow>
    good (simple_elem g) (VT_Do (V_Emplace (copy_of i)) # ss) xs c"
proof -
  have "good E (VT_Do (V_Push x) # ss) xs c \<longleftrightarrow> good E (VT_Do (V_Emplace (copy_ctor E x)) # ss) xs c" for E :: "('a, 'b, string) elem"
    by (simp add: good_def vec_push_back_def)
  then show "fits xs \<Longrightarrow> good (simple_elem g) ss (xs @ [x]) (next_capacity (length xs) c) \<Longrightarrow> good (simple_elem g) (VT_Do (V_Push x) # ss) xs c"
    using good_emplace [OF simple_nothrow, where f = "copy_ctor (simple_elem g) x" and xs = xs and zs = xs and y = x]
    by (simp add: copy_ctor_def simple_elem_def fits_def)
qed (rule good_emplace [OF simple_nothrow]; simp add: from_value_def copy_of_def fits_def)+

lemmas shape_facts = shape_has shape_at shape_sizes

lemma first_naturals: "[0..<5] = [0, 1, 2, 3, 4]" "[0..3 :: int] = [0, 1, 2, 3]"
  by code_simp+

lemma growth_test_1_passes: "vt_block int_elem 0 growth_test_1 () \<noteq> None"
proof (rule good_block)
  show "good int_elem growth_test_1 [] (unat (0 :: size_t))"
    unfolding growth_test_1_def int_elem_def first_naturals
    by (rule good_appends good_assert good_done | simp add: fits_def next_capacity_def vt_max_def shape_facts)+
qed (simp_all add: int_elem_def simple_elem_def)

lemma growth_test_2_passes: "vt_block int_elem 3 growth_test_2 () \<noteq> None"
proof (rule good_block)
  show "good int_elem growth_test_2 [] (unat (3 :: size_t))"
    unfolding growth_test_2_def int_elem_def first_naturals list.map append.simps
    by (rule good_appends good_assert good_done | simp add: fits_def next_capacity_def vt_max_def shape_facts)+
qed (simp_all add: int_elem_def simple_elem_def vt_max_def)

lemma growth_test_3_passes: "vt_block string_elem 1 growth_test_3 () \<noteq> None"
proof (rule good_block)
  show "good string_elem growth_test_3 [] (unat (1 :: size_t))"
    unfolding growth_test_3_def string_elem_def
    by (rule good_appends good_assert good_done | simp add: fits_def next_capacity_def vt_max_def shape_facts)+
qed (simp_all add: string_elem_def simple_elem_def vt_max_def)

lemma growth_test_4_passes: "vt_block pair_elem 1 growth_test_4 () \<noteq> None"
  by code_simp

text \<open>The last block for any number of appends: the moves stay below the capacity.\<close>

lemma counted_relocates:
  "relocate_loop counted i k old new m = (r, i', old', new', m') \<Longrightarrow> e_world m' \<le> e_world m + k"
proof (induction k arbitrary: i old new m)
  case (Suc k)
  show ?case
  proof (cases "old ! i")
    case (Some x)
    obtain n1 m1 where c: "construct_at i x new (m\<lparr>e_world := e_world m + 1\<rparr>) = (n1, m1)" by fastforce
    then have "e_world m1 = e_world m + 1" by (auto simp: construct_at_def emit_def split: if_splits)
    then show ?thesis using Suc.IH [of "Suc i" "old[i := Some (- 1)]" n1 m1] Suc.prems Some c by (auto simp: counted_def)
  qed (use Suc.prems in auto)
qed simp

lemma counted_pop_world: "e_world (v_env (snd (vec_pop_back counted v))) = e_world (v_env v)"
  by (auto simp: vec_pop_back_def destroy_at_def counted_def emit_def split: prod.splits option.splits)

lemma counted_commit_world: "e_world (v_env (vec_commit counted old new sz cap m v)) = e_world m"
proof -
  have "e_world (v_env (pop_times counted k v)) = e_world (v_env v)" for k and v :: "(int, nat) vec"
    by (induction k arbitrary: v) (auto simp: counted_pop_world)
  then show ?thesis by (simp add: vec_commit_def vec_dealloc_def vec_clear_def Let_def emit_def)
qed

definition counted_ok :: "nat \<Rightarrow> (int, nat) vec \<Rightarrow> bool" where
  "counted_ok n v \<longleftrightarrow> (\<exists>c. shape counted v (map int [0..<n]) c \<and> c \<le> 2 * n \<and>
     (if n = 0 then c = 0 \<and> e_world (v_env v) = 0 else e_world (v_env v) < c))"

lemma counted_append:
  assumes ok: "counted_ok n u" and room: "2 * Suc n \<le> unat vt_max"
  shows "\<exists>v'. vec_emplace_back counted (from_value (int n)) u = (Inr (), v') \<and> counted_ok (Suc n) v'"
proof -
  have E: "nothrow counted" by (simp add: nothrow_def counted_def)
  obtain c where c: "shape counted u (map int [0..<n]) c" "c \<le> 2 * n"
    "if n = 0 then c = 0 \<and> e_world (v_env u) = 0 else e_world (v_env u) < c" using ok by (auto simp: counted_ok_def)
  obtain v' where v': "vec_emplace_back counted (from_value (int n)) u = (Inr (), v')"
    "shape counted v' (map int [0..<n] @ [int n]) (next_capacity n c)"
    "n \<noteq> c \<Longrightarrow> e_world (v_env v') = e_world (v_env u)"
    "n = c \<Longrightarrow> \<exists>new i old new' m m' sz cap. e_world m = e_world (v_env u) \<and> v' = vec_commit counted old new' sz cap m' u \<and>
      relocate_loop counted 0 c (write_elems (map int [0..<n]) (v_slots u)) new m = (Inr (), i, old, new', m')"
  proof (rule nothrow_emplace [OF E c(1), of "from_value (int n)" "int n" "map int [0..<n]" "e_world (v_env u)"], goal_cases)
    case (4 v')
    then show ?case using that by simp
  qed (use room in \<open>simp_all add: from_value_def\<close>)
  have "e_world (v_env v') \<le> e_world (v_env u) + n" if "n = c"
    using v'(4) [OF that] counted_relocates that by (fastforce simp: counted_commit_world)
  then have "counted_ok (Suc n) v'"
    using v'(2,3) c(2,3) unfolding counted_ok_def by (intro exI [of _ "next_capacity n c"]) (auto simp: next_capacity_def split: if_splits)
  then show ?thesis using v'(1) by blast
qed

lemma vt_run_append: "vt_run E (ss @ ts) v = Option.bind (vt_run E ss v) (vt_run E ts)"
  by (induction ss arbitrary: v) (auto split: Option.bind_splits)

lemma counted_appends:
  assumes "2 * k \<le> unat vt_max" "counted_ok 0 v"
  shows "n \<le> k \<Longrightarrow> \<exists>v'. vt_run counted (map (\<lambda>i. VT_Do (V_Emplace (from_value (int i)))) [0..<n]) v = Some v' \<and> counted_ok n v'"
proof (induction n)
  case 0
  then show ?case using assms(2) by simp
next
  case (Suc n)
  then obtain u where u: "vt_run counted (map (\<lambda>i. VT_Do (V_Emplace (from_value (int i)))) [0..<n]) v = Some u" "counted_ok n u" by auto
  then obtain v' where "vec_emplace_back counted (from_value (int n)) u = (Inr (), v')" "counted_ok (Suc n) v'"
    using counted_append [of n u] Suc.prems assms(1) by auto
  then show ?case using u(1) by (simp add: vt_run_append)
qed

lemma growth_test_5_passes:
  assumes "0 < k" "2 * k \<le> unat vt_max"
  shows "vt_block counted 0 (growth_test_5 k) 0 \<noteq> None"
proof -
  let ?v = "vec_default \<lparr>e_world = 0, e_log = [], e_ub = False\<rparr> :: (int, nat) vec"
  have "vec_ok counted ?v" using new_ok [of counted 0 0 ?v] by (simp add: vec_new_def)
  then have "counted_ok 0 ?v" by (simp add: counted_ok_def shape_def vec_default_def v_elems_def)
  then obtain v where v: "vt_run counted (map (\<lambda>i. VT_Do (V_Emplace (from_value (int i)))) [0..<k]) ?v = Some v" "counted_ok k v"
    using counted_appends [OF assms(2)] by blast
  then obtain c where c: "shape counted v (map int [0..<k]) c" "c \<le> 2 * k" "e_world (v_env v) < c" using assms(1) by (auto simp: counted_ok_def)
  have "at_is (of_nat i) (int i) v" if "i < k" for i
  proof -
    have "unat (of_nat i :: size_t) = i" using that assms(2) unat_size_t_less [of vt_max] by (intro unat_of_nat_size_t) linarith
    then show ?thesis using that shape_at [OF c(1), of "of_nat i"] by simp
  qed
  then have "vt_run counted (growth_test_5 k) ?v = Some v"
    using v(1) c by (auto simp: growth_test_5_def vt_run_append world_is_def shape_sizes list_all_iff)
  moreover have "balanced (vec_destruct counted v) 0 {#}" using c(1) by (intro destruct_spec) (simp add: shape_def)
  ultimately show ?thesis by (simp add: vt_block_def vec_new_def Let_def balanced_def)
qed

lemma growth_test_passes: "growth_test_main"
  using growth_test_1_passes growth_test_2_passes growth_test_3_passes growth_test_4_passes growth_test_5_passes [of 100] by (simp add: growth_test_main_def vt_max_def)

section \<open>vector\_reserve\_test.cpp\<close>

text \<open>
  \<open>Copyable\<close>: the world is \<open>alive\<close> and \<open>copies_before_throw\<close>. Its move may throw, so that a relocation copies.
  \<open>ThrowingMoveOnly\<close>: \<open>alive\<close> and \<open>moves_before_throw\<close>; a move takes the value out of its source before it throws.
\<close>

definition copy_copyable :: "int \<Rightarrow> int \<times> int \<Rightarrow> (string + int) \<times> int \<times> int" where
  "copy_copyable x w = (case w of (alive, left) \<Rightarrow>
     if left = 0 then (Inl ''copy failed'', alive, left)
     else (Inr x, alive + 1, if left > 0 then left - 1 else left))"

definition copyable :: "(int, int \<times> int, string) elem" where
  "copyable = \<lparr>el_relocate = \<lambda>x w. (case copy_copyable x w of (r, w) \<Rightarrow> (r, x, w)), el_copy = copy_copyable,
     el_destroy = \<lambda>x (alive, left). (alive - 1, left), el_growable = True, el_max_size = vt_max, el_alloc_fails = \<lambda>n w. False\<rparr>"

definition new_alive :: "int \<Rightarrow> (int, int \<times> int, string) ctor" where
  "new_alive x = (\<lambda>xs (alive, left). (Inr x, xs, (alive + 1, left)))"

definition push_element :: "nat \<Rightarrow> (int, int \<times> int, string) vec_op" where
  "push_element i = V_Emplace (\<lambda>xs w. case copy_copyable (xs ! i) w of (r, w) \<Rightarrow> (r, xs, w))"

definition move_throwing :: "int \<Rightarrow> int \<times> int \<Rightarrow> (string + int) \<times> int \<times> int \<times> int" where
  "move_throwing x w = (case w of (alive, left) \<Rightarrow>
     if left = 0 then (Inl ''move failed'', - 1, alive, left)
     else (Inr x, - 1, alive + 1, if left > 0 then left - 1 else left))"

definition throwing_move_only :: "(int, int \<times> int, string) elem" where
  "throwing_move_only = \<lparr>el_relocate = move_throwing, el_copy = \<lambda>x w. (Inr x, w),
     el_destroy = \<lambda>x (alive, left). (alive - 1, left), el_growable = True, el_max_size = vt_max, el_alloc_fails = \<lambda>n w. False\<rparr>"

definition alive_is :: "int \<Rightarrow> (int, int \<times> int) vec \<Rightarrow> bool" where
  "alive_is n = world_is (\<lambda>(alive, left). alive = n)"

definition left_now :: "int \<Rightarrow> ('a, int \<times> int, string) vt_stmt" where
  "left_now k = VT_World (\<lambda>(alive, left). (alive, k))"

definition three :: "(int, int \<times> int, string) vt_stmt list" where
  "three = [VT_Do (V_Emplace (new_alive 10)), VT_Do (V_Emplace (new_alive 20)), VT_Do (V_Emplace (new_alive 30))]"

definition three_intact :: "(int, int \<times> int, string) vt_stmt list" where
  "three_intact = [VT_Assert (has 3 3), VT_Assert (alive_is 3), VT_Assert (\<lambda>v. at_is 0 10 v \<and> at_is 1 20 v), VT_Assert (at_is 2 30)]"

definition reserve_test_1 :: "(int, unit, string) vt_stmt list" where
  "reserve_test_1 =
    [VT_Do (V_Reserve 0), VT_Assert (\<lambda>v. vec_empty v \<and> v_capacity v = 0),
     VT_Do (V_Reserve 2), VT_Assert (\<lambda>v. vec_empty v \<and> v_capacity v = 2),
     VT_Do (V_Emplace (from_value 42)), VT_Assert (at_is 0 42),
     VT_Do V_Clear, VT_Do (V_Reserve 4), VT_Assert (\<lambda>v. vec_empty v \<and> v_capacity v = 4),
     VT_Do (V_Emplace (from_value 99)), VT_Assert (at_is 0 99)]"

definition reserve_test_2 :: "(int, int \<times> int, string) vt_stmt list" where
  "reserve_test_2 = three @
    [left_now 0, VT_Do (V_Reserve 0), VT_Do (V_Reserve 2), VT_Do (V_Reserve 3), VT_Assert (has 3 3), VT_Assert (alive_is 3)] @
    concat (map (\<lambda>successful_copies. [left_now successful_copies, VT_Throws is_runtime_error (V_Reserve 6)] @ three_intact) [0..2]) @
    [VT_Throws is_length_error (V_Reserve (- 1)), VT_Assert (has 3 3), VT_Assert (alive_is 3)] @
    concat (map (\<lambda>successful_copies. [left_now successful_copies, VT_Throws is_runtime_error (push_element 0)] @ three_intact) [0..3]) @
    [left_now (- 1), VT_Do (V_Reserve 6), VT_Assert (has 3 6), VT_Assert (alive_is 3), VT_Assert (\<lambda>v. at_is 0 10 v \<and> at_is 1 20 v),
     VT_Assert (at_is 2 30), VT_Do (V_Emplace (new_alive 40)), VT_Assert (\<lambda>v. unat (v_size v) = 4 \<and> at_is 3 40 v)]"

text \<open>With the local object \<open>source\<close>, whose lifetime is the block.\<close>

definition reserve_test_3 :: "(int, int \<times> int, string) vt_stmt list" where
  "reserve_test_3 =
    [VT_World (\<lambda>(alive, left). (alive + 1, left)), left_now 0,
     VT_Throws is_runtime_error (V_Push 5),
     VT_Assert (\<lambda>v. vec_empty v \<and> v_capacity v = 0 \<and> alive_is 1 v),
     left_now (- 1), VT_Do (V_Push 5), VT_Do (push_element 0),
     VT_Assert (has 2 2), VT_Assert (\<lambda>v. at_is 0 5 v \<and> at_is 1 5 v \<and> alive_is 3 v),
     VT_World (\<lambda>(alive, left). (alive - 1, left))]"

definition copyable_owner :: "(int option, int \<times> int, string) elem" where
  "copyable_owner = (simple_elem (\<lambda>x. None))\<lparr>el_destroy := \<lambda>x (alive, left). if x = None then (alive, left) else (alive - 1, left)\<rparr>"

definition reserve_test_4 :: "(int option, int \<times> int, string) vt_stmt list" where
  "reserve_test_4 =
    [VT_Do (V_Emplace (\<lambda>xs (alive, left). (Inr (Some 77), xs, (alive + 1, left)))),
     VT_Do (V_Reserve 4), VT_Assert (has 1 4), VT_Assert (at_is 0 (Some 77)), VT_Assert (world_is (\<lambda>(alive, left). alive = 1))]"

definition reserve_test_5 :: "(int, int \<times> int, string) vt_stmt list" where
  "reserve_test_5 = three @
    [left_now 1, VT_Throws is_runtime_error (V_Reserve 6), VT_Assert (has 3 3), VT_Assert (alive_is 3),
     VT_Assert (\<lambda>v. at_is 0 (- 1) v \<and> at_is 1 (- 1) v), VT_Assert (at_is 2 30),
     VT_Do V_Clear, VT_Assert (alive_is 0)] @ three @
    [left_now 0, VT_Throws is_runtime_error (V_Emplace (\<lambda>xs w. case move_throwing (xs ! 0) w of (r, x, w) \<Rightarrow> (r, xs[0 := x], w))),
     VT_Assert (has 3 3), VT_Assert (\<lambda>v. at_is 0 (- 1) v \<and> at_is 1 20 v), VT_Assert (\<lambda>v. at_is 2 30 v \<and> alive_is 3 v),
     left_now 1, VT_Throws is_runtime_error (V_Emplace (new_alive 40)), VT_Assert (has 3 3),
     VT_Assert (\<lambda>v. at_is 0 (- 1) v \<and> at_is 1 (- 1) v), VT_Assert (\<lambda>v. at_is 2 30 v \<and> alive_is 3 v),
     VT_Do V_Clear, VT_Assert (alive_is 0),
     VT_Do (V_Emplace (new_alive 50)), left_now (- 1), VT_Do (V_Reserve 6), VT_Assert (has 1 6), VT_Assert (\<lambda>v. at_is 0 50 v \<and> alive_is 1 v)]"

definition reserve_test_main :: bool where
  "reserve_test_main \<longleftrightarrow> vt_block int_elem 0 reserve_test_1 () \<noteq> None \<and>
    (let w = none_alive (vt_block copyable 3 reserve_test_2 (0, - 1));
         w = none_alive (Option.bind w (vt_block copyable 0 reserve_test_3))
     in none_alive (Option.bind w (vt_block copyable_owner 1 reserve_test_4)) \<noteq> None) \<and>
    none_alive (vt_block throwing_move_only 3 reserve_test_5 (0, - 1)) \<noteq> None"

lemma reserve_test_passes: "reserve_test_main"
  by code_simp

section \<open>vector\_example.cpp\<close>

text \<open>The lines of the example, for a vector of \<open>Item\<close>s, whose value is public.\<close>

definition show_bool :: "bool \<Rightarrow> string" where
  "show_bool b = (if b then ''true'' else ''false'')"

definition item_value :: "(int, unit) vec \<Rightarrow> size_t \<Rightarrow> string" where
  "item_value v i = (case vec_at v i of Inl e \<Rightarrow> ''?'' | Inr x \<Rightarrow> show_int x)"

definition show_size :: "string \<Rightarrow> (int, unit) vec \<Rightarrow> string" where
  "show_size t v = t @ '': size='' @ show_nat (unat (v_size v)) @ '', capacity='' @ show_nat (unat (v_capacity v))"

datatype item_stmt = Item_Op "(int, unit, string) vec_op" | Item_Set size_t int | Item_Print "(int, unit) vec \<Rightarrow> string"

fun item_run :: "item_stmt list \<Rightarrow> (int, unit) vec \<Rightarrow> string option" where
  "item_run [] v = Some []"
| "item_run (Item_Op op # ss) v = (case vec_step int_elem op v of (Inr _, v) \<Rightarrow> item_run ss v | (Inl e, v) \<Rightarrow> None)"
| "item_run (Item_Set i x # ss) v = item_run ss (v\<lparr>v_data := map_option (\<lambda>xs. xs[unat i := Some x]) (v_data v)\<rparr>)"
| "item_run (Item_Print f # ss) v = map_option (\<lambda>out. f v @ newline @ out) (item_run ss v)"

definition item_block :: "size_t \<Rightarrow> item_stmt list \<Rightarrow> string option" where
  "item_block n ss = (case vec_new int_elem n \<lparr>e_world = (), e_log = [], e_ub = False\<rparr> of Inl e \<Rightarrow> None | Inr v \<Rightarrow> item_run ss v)"

definition example_empty :: "item_stmt list" where
  "example_empty = [Item_Print (\<lambda>v. show_size ''default'' v @ '', empty='' @ show_bool (vec_empty v))]"

definition example_reserved :: "item_stmt list" where
  "example_reserved =
    [Item_Print (\<lambda>v. show_size ''reserved'' v @ '', empty='' @ show_bool (vec_empty v)),
     Item_Op (V_Emplace (from_value 42)), Item_Set 0 43, Item_Op (V_Emplace (from_value 7)),
     Item_Print (\<lambda>v. show_size ''after insertion'' v @ '', values='' @ item_value v 0 @ '', '' @ item_value v 1),
     Item_Op V_Pop, Item_Print (\<lambda>v. show_size ''after pop_back'' v @ '', first='' @ item_value v 0),
     Item_Op V_Clear, Item_Print (\<lambda>v. show_size ''after clear'' v @ '', empty='' @ show_bool (vec_empty v)),
     Item_Op (V_Emplace (from_value 99)), Item_Print (\<lambda>v. show_size ''after reuse'' v @ '', first='' @ item_value v 0),
     Item_Op (V_Reserve 8), Item_Print (\<lambda>v. show_size ''after reserve'' v @ '', first='' @ item_value v 0),
     Item_Op (V_Reserve 2), Item_Op (V_Emplace (from_value 100)),
     Item_Print (\<lambda>v. show_size ''after another insertion'' v @ '', values='' @ item_value v 0 @ '', '' @ item_value v 1)]"

definition example_growing :: "item_stmt list" where
  "example_growing =
    [Item_Op (V_Emplace (from_value 5)), Item_Op (V_Emplace (copy_of 0)), Item_Op (V_Emplace (from_value 7)),
     Item_Print (\<lambda>v. show_size ''automatic growth'' v @ '', values='' @ item_value v 0 @ '', '' @ item_value v 1 @ '', '' @ item_value v 2)]"

definition vector_example_main :: "string option list" where
  "vector_example_main = [item_block 0 example_empty, item_block 4 example_reserved, item_block 0 example_growing]"

lemma vector_example_output:
  "vector_example_main = map Some [''default: size=0, capacity=0, empty=true'' @ newline,
     ''reserved: size=0, capacity=4, empty=true'' @ newline @
     ''after insertion: size=2, capacity=4, values=43, 7'' @ newline @
     ''after pop_back: size=1, capacity=4, first=43'' @ newline @
     ''after clear: size=0, capacity=4, empty=true'' @ newline @
     ''after reuse: size=1, capacity=4, first=99'' @ newline @
     ''after reserve: size=1, capacity=8, first=99'' @ newline @
     ''after another insertion: size=2, capacity=8, values=99, 100'' @ newline,
     ''automatic growth: size=3, capacity=4, values=5, 5, 7'' @ newline]"
  by code_simp

text \<open>
  The programs of the repository that test \<open>Vector\<close> pass on the model: every assertion on sizes, capacities, values, exceptions and numbers of live
  objects holds, whichever construction fails, every vector is destroyed with nothing leaked, and 100 appends move
  fewer than 200 elements.
\<close>
theorem vector_tests_pass: "vector_test_main \<and> growth_test_main \<and> reserve_test_main"
  by (simp add: vector_test_passes growth_test_passes reserve_test_passes)

end
