(* ===== verification/Unique_Ptr_Tests.thy ===== *)
theory Unique_Ptr_Tests
  imports Unique_Ptr
begin

text \<open>
  \<open>containers/unique_ptr_test.cpp\<close> on the model of \<open>UniquePtr\<close>: the heap counts the \<open>Tracked\<close> objects, which are given by their value.
  The assertions about types hold when the program compiles and are left out.
\<close>

definition tracked_alive :: "int heap \<Rightarrow> int" where
  "tracked_alive h = int (length (created (h_events h))) - int (length (deleted (h_events h)))"

definition tracked_destroyed :: "int heap \<Rightarrow> nat" where
  "tracked_destroyed h = length (deleted (h_events h))"

text \<open>The blocks; the second component says whether the assertions hold.\<close>

definition empty_owners :: "int heap \<Rightarrow> int heap \<times> bool" where
  "empty_owners h = (let empty = uq_construct None; null = uq_construct None;
     ok = (\<not> uq_bool empty \<and> uq_get empty = None \<and> \<not> uq_bool null \<and> uq_get null = None);
     h = uq_destroy empty (uq_destroy null h)
   in (h, ok \<and> tracked_alive h = 0 \<and> tracked_destroyed h = 0))"

definition one_owner :: "int heap \<Rightarrow> int heap \<times> bool" where
  "one_owner h = (case new_object 42 h of (a, h) \<Rightarrow>
     let owner = uq_construct (Some a);
       ok = (uq_bool owner \<and> tracked_alive h = 1);
       h = uq_assign owner 43 h;
       borrowed = uq_get owner;
       ok = (ok \<and> read_object borrowed h = Inr 43 \<and> uq_deref owner h = Inr 43 \<and> tracked_destroyed h = 0);
       h = uq_destroy owner h
     in (h, ok \<and> tracked_alive h = 0 \<and> tracked_destroyed h = 1))"

text \<open>The exception leaves the scope of the owner, whose destructor runs before the handler.\<close>

definition owner_and_exception :: "int heap \<Rightarrow> int heap \<times> bool" where
  "owner_and_exception h = (case new_object 7 h of (a, h) \<Rightarrow>
     let h = uq_destroy (uq_construct (Some a)) h in (h, tracked_alive h = 0 \<and> tracked_destroyed h = 2))"

definition owner_of_const :: "int heap \<Rightarrow> int heap \<times> bool" where
  "owner_of_const h = (case new_object 99 h of (a, h) \<Rightarrow>
     let owner = uq_construct (Some a); ok = (uq_deref owner h = Inr 99 \<and> tracked_alive h = 1); h = uq_destroy owner h
     in (h, ok \<and> tracked_alive h = 0 \<and> tracked_destroyed h = 3))"

definition unique_ptr_test_main :: bool where
  "unique_ptr_test_main \<longleftrightarrow> (let (h, ok1) = empty_owners empty_heap; (h, ok2) = one_owner h; (h, ok3) = owner_and_exception h;
     (h, ok4) = owner_of_const h in ok1 \<and> ok2 \<and> ok3 \<and> ok4 \<and> \<not> h_ub h)"

lemma unique_ptr_test_passes: unique_ptr_test_main
  by code_simp

end
