(* ===== verification/Entry_IO.thy ===== *)
theory Entry_IO
  imports Text_Input
begin

text \<open>
  \<open>atorus/inout.cpp\<close>: reading integers from a stream up to a word that ends them, and the input and output of \<open>Entry\<close>. A stream is the
  text that is left, the text that was read (backwards, for \<open>unget\<close>) and its state bits. \<open>operator>>\<close> and \<open>get\<close> are those of
  the library in the C locale: they skip white space, an \<open>int\<close> is an optional sign and decimal digits, one that
  does not fit sets \<open>failbit\<close>.
\<close>

section \<open>Streams\<close>

record istream =
  is_rest :: string
  is_read :: string
  is_eof :: bool
  is_fail :: bool

definition open_stream :: "string \<Rightarrow> istream" where
  "open_stream text = \<lparr>is_rest = text, is_read = [], is_eof = False, is_fail = False\<rparr>"

definition set_fail :: "istream \<Rightarrow> istream" where
  "set_fail s = s\<lparr>is_fail := True\<rparr>"

definition at_end :: "istream \<Rightarrow> istream" where
  "at_end s = s\<lparr>is_eof := True, is_fail := True\<rparr>"

definition advance :: "nat \<Rightarrow> istream \<Rightarrow> istream" where
  "advance n s = s\<lparr>is_rest := drop n (is_rest s), is_read := rev (take n (is_rest s)) @ is_read s\<rparr>"

definition skip_white :: "istream \<Rightarrow> istream" where
  "skip_white s = advance (length (takeWhile white (is_rest s))) s"

text \<open>\<open>is >> c\<close> and \<open>is.get(c)\<close>; \<open>None\<close> leaves \<open>c\<close> as it was.\<close>

definition read_char :: "istream \<Rightarrow> char option \<times> istream" where
  "read_char s = (if is_eof s \<or> is_fail s then (None, set_fail s)
     else let s = skip_white s in
       case is_rest s of [] \<Rightarrow> (None, at_end s) | c # cs \<Rightarrow> (Some c, advance 1 s))"

definition get_char :: "istream \<Rightarrow> char option \<times> istream" where
  "get_char s = (if is_eof s \<or> is_fail s then (None, set_fail s)
     else case is_rest s of [] \<Rightarrow> (None, at_end s) | c # cs \<Rightarrow> (Some c, advance 1 s))"

definition is_digit :: "char \<Rightarrow> bool" where
  "is_digit c \<longleftrightarrow> (48 :: nat) \<le> of_char c \<and> of_char c \<le> (57 :: nat)"

definition digits_value :: "string \<Rightarrow> int" where
  "digits_value ds = fold (\<lambda>c v. v * 10 + (of_char c - 48)) ds 0"

text \<open>\<open>is >> i\<close>: the value that is stored, with \<open>None\<close> for a failure.\<close>

definition read_int :: "istream \<Rightarrow> int option \<times> istream" where
  "read_int s = (if is_eof s \<or> is_fail s then (None, set_fail s)
     else let s = skip_white s in
       if is_rest s = [] then (None, at_end s)
       else
         let sign = (if hd (is_rest s) = CHR ''-'' then - 1 else 1);
             s = (if hd (is_rest s) \<in> {CHR ''-'', CHR ''+''} then advance 1 s else s);
             ds = takeWhile is_digit (is_rest s);
             s = advance (length ds) s;
             s = (if is_rest s = [] then s\<lparr>is_eof := True\<rparr> else s);
             v = sign * digits_value ds
         in if ds = [] \<or> v < - (2 ^ 31) \<or> 2 ^ 31 \<le> v then (None, set_fail s) else (Some v, s))"

text \<open>\<open>is >> s\<close> for a string.\<close>

definition read_string :: "istream \<Rightarrow> string option \<times> istream" where
  "read_string s = (if is_eof s \<or> is_fail s then (None, set_fail s)
     else let s = skip_white s in
       if is_rest s = [] then (None, at_end s)
       else let w = takeWhile (\<lambda>c. \<not> white c) (is_rest s); s = advance (length w) s
         in (Some w, if is_rest s = [] then s\<lparr>is_eof := True\<rparr> else s))"

text \<open>\<open>is.clear(); is.unget();\<close>: without a character to give back the stream is bad, which is like \<open>is_fail\<close> for what follows.\<close>

definition clear_unget :: "istream \<Rightarrow> istream" where
  "clear_unget s = (case is_read s of
     [] \<Rightarrow> s\<lparr>is_eof := False, is_fail := True\<rparr>
   | c # cs \<Rightarrow> s\<lparr>is_rest := c # is_rest s, is_read := cs, is_eof := False, is_fail := False\<rparr>)"

section \<open>The functions\<close>

lemma length_skip: "length (is_rest (skip_white s)) \<le> length (is_rest s)"
  by (simp add: skip_white_def advance_def)

lemma read_int_shorter: "read_int s = (Some v, s') \<Longrightarrow> length (is_rest s') < length (is_rest s)"
  using length_skip [of s]
  by (auto simp: read_int_def Let_def advance_def length_greater_0_conv [symmetric] simp del: length_greater_0_conv split: if_splits)

function read_ints_loop :: "istream \<Rightarrow> int list \<Rightarrow> int list \<times> istream" where
  "read_ints_loop s res = (case read_int s of (None, s) \<Rightarrow> (res, s) | (Some i, s) \<Rightarrow> read_ints_loop s (res @ [i]))"
  by pat_completeness auto
termination
  by (relation "measure (\<lambda>(s, res). length (is_rest s))") (auto dest: read_int_shorter [OF sym])

declare read_ints_loop.simps [simp del]

definition read_ints :: "istream \<Rightarrow> int list \<times> istream" where
  "read_ints s = read_ints_loop s []"

text \<open>With a terminator, for the stream \<open>cin\<close>, which is the one that the program passes and the one that the function reads the word from.\<close>

definition read_ints_until :: "string \<Rightarrow> istream \<Rightarrow> int list \<times> istream" where
  "read_ints_until terminator s = (case read_ints_loop s [] of (res, s) \<Rightarrow>
     if is_eof s then (res, s)
     else case read_string (clear_unget s) of
         (Some w, s) \<Rightarrow> if w = terminator then (res, s) else (res, set_fail s)
       | (None, s) \<Rightarrow> (res, set_fail s))"

record entry =
  en_name :: string
  en_number :: int

definition write_entry :: "entry \<Rightarrow> string" where
  "write_entry e = ''{'' @ [CHR 0x22] @ en_name e @ [CHR 0x22] @ '', '' @ show_int (en_number e) @ ''}''"

text \<open>\<open>while (is.get(c) && c != '"') name += c;\<close>: also \<open>c\<close> at the end, which the next test reads.\<close>

function read_name :: "istream \<Rightarrow> string \<Rightarrow> string \<times> istream" where
  "read_name s name = (case get_char s of
     (None, s) \<Rightarrow> (name, s)
   | (Some c, s) \<Rightarrow> if c \<noteq> CHR 0x22 then read_name s (name @ [c]) else (name, s))"
  by pat_completeness auto
termination
  by (relation "measure (\<lambda>(s, name). length (is_rest s))") (auto simp: get_char_def advance_def split: if_splits list.splits)

declare read_name.simps [simp del]

definition read_entry :: "istream \<Rightarrow> entry option \<times> istream" where
  "read_entry s =
     (case read_char s of
        (Some c, s) \<Rightarrow> if c \<noteq> CHR ''{'' then (None, set_fail s) else
          (case read_char s of
             (Some c2, s) \<Rightarrow> if c2 \<noteq> CHR 0x22 then (None, set_fail s) else
               (case read_name s [] of (name, s) \<Rightarrow>
                  (case read_char s of
                     (Some c, s) \<Rightarrow> if c \<noteq> CHR '','' then (None, set_fail s) else
                       (case read_int s of
                          (Some number, s) \<Rightarrow>
                            (case read_char s of
                               (Some c, s) \<Rightarrow> if c = CHR ''}'' then (Some \<lparr>en_name = name, en_number = number\<rparr>, s) else (None, set_fail s)
                             | (None, s) \<Rightarrow> (None, set_fail s))
                        | (None, s) \<Rightarrow> (None, set_fail s))
                   | (None, s) \<Rightarrow> (None, set_fail s)))
           | (None, s) \<Rightarrow> (None, set_fail s))
      | (None, s) \<Rightarrow> (None, set_fail s))"

section \<open>What is written is read back\<close>

definition good_stream :: "string \<Rightarrow> istream \<Rightarrow> bool" where
  "good_stream t s \<longleftrightarrow> is_rest s = t \<and> \<not> is_eof s \<and> \<not> is_fail s"

lemma advance_good: "good_stream t s \<Longrightarrow> good_stream (drop n t) (advance n s)"
  by (simp add: good_stream_def advance_def)

lemma read_char_good: "good_stream (c # t) s \<Longrightarrow> \<not> white c \<Longrightarrow> \<exists>s'. read_char s = (Some c, s') \<and> good_stream t s'"
  by (simp add: read_char_def good_stream_def skip_white_def advance_def)

lemma skip_good: "good_stream t s \<Longrightarrow> good_stream (dropWhile white t) (skip_white s)"
  by (simp add: skip_white_def good_stream_def advance_def dropWhile_eq_drop)

lemma read_name_good: "good_stream (w @ CHR 0x22 # t) s \<Longrightarrow> CHR 0x22 \<notin> set w \<Longrightarrow> \<exists>s'. read_name s name = (name @ w, s') \<and> good_stream t s'"
proof (induction w arbitrary: s name)
  case Nil
  then show ?case by (simp add: read_name.simps [of s] get_char_def good_stream_def advance_def)
next
  case (Cons c w)
  have "good_stream (w @ CHR 0x22 # t) (advance 1 s)" using advance_good [OF Cons.prems(1), of 1] by simp
  from Cons.IH [OF this, of "name @ [c]"] Cons.prems show ?case by (auto simp: read_name.simps [of s name] get_char_def good_stream_def)
qed

lemma show_nat_digits: "\<forall>c\<in>set (show_nat n). is_digit c"
proof (induction n rule: show_nat.induct)
  case (1 n)
  have "is_digit (digit_char d)" if "d < 10" for d using that by (simp add: is_digit_def digit_char_def)
  then show ?case using 1 by (subst show_nat.simps) auto
qed

lemma show_nat_value: "digits_value (show_nat n) = int n"
proof (induction n rule: show_nat.induct)
  case (1 n)
  have digit: "of_char (digit_char d) = (48 + int d :: int)" if "d < 10" for d
  proof -
    have "(of_char (digit_char d) :: nat) = 48 + d" using that by (simp add: digit_char_def)
    then show ?thesis by (metis of_nat_add of_nat_numeral of_nat_of_char)
  qed
  show ?case
  proof (cases "n < 10")
    case True
    then show ?thesis by (subst show_nat.simps) (simp add: digits_value_def digit)
  next
    case False
    then have "digits_value (show_nat n) = digits_value (show_nat (n div 10)) * 10 + int (n mod 10)"
      by (subst show_nat.simps) (simp add: digits_value_def digit)
    moreover have "int n = int (n div 10) * 10 + int (n mod 10)" by (metis div_mult_mod_eq of_nat_add of_nat_mult of_nat_numeral)
    ultimately show ?thesis using 1 [OF False] by simp
  qed
qed

lemma not_digit: "\<not> is_digit CHR ''-''" "\<not> is_digit CHR '' ''" "\<not> is_digit CHR ''}''" "is_digit c \<Longrightarrow> \<not> white c \<and> c \<noteq> CHR ''-'' \<and> c \<noteq> CHR ''+''"
  by (auto simp: is_digit_def white_def)

text \<open>An integer that was written, in front of anything that does not begin with a digit.\<close>

lemma read_int_good:
  assumes s: "good_stream (show_int i @ c # t) s" and c: "\<not> is_digit c" and i: "- (2 ^ 31) \<le> i" "i < 2 ^ 31"
  shows "\<exists>s'. read_int s = (Some i, s') \<and> good_stream (c # t) s'"
proof -
  define ds where "ds = show_nat (nat \<bar>i\<bar>)"
  have ds: "\<forall>c\<in>set ds. is_digit c" "ds \<noteq> []" "digits_value ds = \<bar>i\<bar>"
    using show_nat_digits show_nat_nonempty show_nat_value by (simp_all add: ds_def)
  have shown: "show_int i = (if i < 0 then ''-'' @ ds else ds)" by (simp add: show_int_def ds_def)
  have take: "takeWhile is_digit (ds @ c # t) = ds" using ds(1) c by (simp add: takeWhile_append2)
  have first: "\<not> white (hd (show_int i))" using ds(1,2) not_digit(4) by (auto simp: shown white_def)
  have skip: "skip_white s = s"
    using s first shown ds(2) by (cases "show_int i") (auto simp: skip_white_def advance_def good_stream_def split: if_splits)
  show ?thesis
  proof (cases "i < 0")
    case True
    then show ?thesis using s i take ds
      by (auto simp: read_int_def Let_def skip shown good_stream_def advance_def)
  next
    case False
    then have "hd (ds @ c # t) \<noteq> CHR ''-''" "hd (ds @ c # t) \<noteq> CHR ''+''" using ds(1,2) not_digit(4) by (cases ds; auto)+
    then show ?thesis using False s i take ds
      by (auto simp: read_int_def Let_def skip shown good_stream_def advance_def)
  qed
qed

lemma read_entry_good:
  assumes s: "good_stream (write_entry e @ t) s" and e: "CHR 0x22 \<notin> set (en_name e)" "- (2 ^ 31) \<le> en_number e" "en_number e < 2 ^ 31"
  shows "\<exists>s'. read_entry s = (Some e, s') \<and> good_stream t s'"
proof -
  have s1: "good_stream (CHR ''{'' # CHR 0x22 # en_name e @ CHR 0x22 # CHR '','' # CHR '' '' # show_int (en_number e) @ CHR ''}'' # t) s"
    using s by (simp add: write_entry_def)
  obtain s2 where s2: "read_char s = (Some CHR ''{'', s2)"
    "good_stream (CHR 0x22 # en_name e @ CHR 0x22 # CHR '','' # CHR '' '' # show_int (en_number e) @ CHR ''}'' # t) s2"
    using read_char_good [OF s1] by (auto simp: white_def)
  obtain s3 where s3: "read_char s2 = (Some CHR 0x22, s3)"
    "good_stream (en_name e @ CHR 0x22 # CHR '','' # CHR '' '' # show_int (en_number e) @ CHR ''}'' # t) s3"
    using read_char_good [OF s2(2)] by (auto simp: white_def)
  obtain s4 where s4: "read_name s3 [] = (en_name e, s4)" "good_stream (CHR '','' # CHR '' '' # show_int (en_number e) @ CHR ''}'' # t) s4"
    using read_name_good [OF s3(2) e(1), of "[]"] by auto
  obtain s5 where s5: "read_char s4 = (Some CHR '','', s5)" "good_stream (CHR '' '' # show_int (en_number e) @ CHR ''}'' # t) s5"
    using read_char_good [OF s4(2)] by (auto simp: white_def)
  have skipped: "read_int s5 = read_int (advance 1 s5)"
    using s5(2) by (auto simp: read_int_def good_stream_def skip_white_def advance_def white_def)
  obtain s6 where s6: "read_int s5 = (Some (en_number e), s6)" "good_stream (CHR ''}'' # t) s6"
    using read_int_good [of "en_number e" "CHR ''}''" t "advance 1 s5"] advance_good [OF s5(2), of 1] not_digit(3) e(2,3)
    unfolding skipped by auto
  obtain s7 where "read_char s6 = (Some CHR ''}'', s7)" "good_stream t s7" using read_char_good [OF s6(2)] by (auto simp: white_def)
  then show ?thesis using s2(1) s3(1) s4(1) s5(1) s6(1) by (simp add: read_entry_def)
qed

text \<open>Reading entries one after the other, as long as that succeeds, for at most \<open>n\<close> entries.\<close>

fun read_entries :: "nat \<Rightarrow> istream \<Rightarrow> entry list \<times> istream" where
  "read_entries 0 s = ([], s)"
| "read_entries (Suc n) s = (case read_entry s of
     (None, s) \<Rightarrow> ([], s)
   | (Some e, s) \<Rightarrow> (case read_entries n s of (es, s) \<Rightarrow> (e # es, s)))"

definition readable :: "entry \<Rightarrow> bool" where
  "readable e \<longleftrightarrow> CHR 0x22 \<notin> set (en_name e) \<and> - (2 ^ 31) \<le> en_number e \<and> en_number e < 2 ^ 31"

lemma white_before_entry: "good_stream (c # t) s \<Longrightarrow> white c \<Longrightarrow> read_entry s = read_entry (advance 1 s)"
  by (simp add: read_entry_def read_char_def good_stream_def skip_white_def advance_def)

text \<open>
  C38: entries that were written in lines, whose names have no quotation mark and whose numbers fit an \<open>int\<close>, are read back
  as they were, spaces and line ends in the names included, and the stream is left good behind the last one.
\<close>
theorem entries_round_trip:
  assumes "\<forall>e\<in>set es. readable e"
  shows "fst (read_entries (length es) (open_stream (concat (map (\<lambda>e. write_entry e @ newline) es) @ rest))) = es \<and>
    \<not> is_fail (snd (read_entries (length es) (open_stream (concat (map (\<lambda>e. write_entry e @ newline) es) @ rest))))"
proof -
  have lead: "fst (read_entries (length es) s) = es \<and> \<not> is_fail (snd (read_entries (length es) s))"
    if "good_stream (newline @ concat (map (\<lambda>e. write_entry e @ newline) es) @ rest) s \<or>
      good_stream (concat (map (\<lambda>e. write_entry e @ newline) es) @ rest) s" for s
    using assms that
  proof (induction es arbitrary: s)
    case Nil
    then show ?case by (auto simp: good_stream_def)
  next
    case (Cons e es)
    let ?t = "newline @ concat (map (\<lambda>e. write_entry e @ newline) es) @ rest"
    obtain s0 where s0: "read_entry s = read_entry s0" "good_stream (write_entry e @ ?t) s0"
    proof (cases "good_stream (write_entry e @ ?t) s")
      case False
      then have start: "good_stream (CHR 0x0A # write_entry e @ ?t) s" using Cons.prems(2) by (simp add: newline_def)
      show ?thesis using that [OF white_before_entry [OF start]] advance_good [OF start, of 1] by simp
    qed (use that in blast)
    obtain s1 where "read_entry s = (Some e, s1)" "good_stream ?t s1"
      using read_entry_good [OF s0(2)] Cons.prems(1) s0(1) by (auto simp: readable_def)
    then show ?case using Cons.IH [of s1] Cons.prems(1) by (auto split: prod.split)
  qed
  show ?thesis by (rule lead) (simp add: good_stream_def open_stream_def)
qed

definition sample_entries :: "entry list" where
  "sample_entries = [\<lparr>en_name = ''John Marwood Cleese'', en_number = 123456\<rparr>, \<lparr>en_name = '''', en_number = - 7\<rparr>]"

lemma entries_round_trip_witness:
  "fst (read_entries (length sample_entries) (open_stream (concat (map (\<lambda>e. write_entry e @ newline) sample_entries) @ ''{''))) = sample_entries"
  by (rule conjunct1 [OF entries_round_trip]) (simp add: readable_def sample_entries_def)

section \<open>Reading up to a terminator\<close>

text \<open>
  The terminator is found behind white space only: the character that \<open>unget\<close> gives back is the one in front of the word, because
  the word was not read. After a digit it belongs to the word, and at the start of the stream there is none.
\<close>

lemma read_ints_until_examples:
  "fst (read_ints_until ''stop'' (open_stream ''1 2 stop 3'')) = [1, 2] \<and> \<not> is_fail (snd (read_ints_until ''stop'' (open_stream ''1 2 stop 3'')))"
  "is_fail (snd (read_ints_until ''stop'' (open_stream ''1 2stop'')))"
  "is_fail (snd (read_ints_until ''stop'' (open_stream ''stop'')))"
  by code_simp+

section \<open>The program\<close>

definition read_line :: "istream \<Rightarrow> string \<times> istream" where
  "read_line s = (if is_eof s \<or> is_fail s then ([], set_fail s)
     else if is_rest s = [] then ([], at_end s)
     else let line = takeWhile (\<lambda>c. [c] \<noteq> newline) (is_rest s) in
       if length line = length (is_rest s) then (line, (advance (length line) s)\<lparr>is_eof := True\<rparr>)
       else (line, advance (length line + 1) s))"

definition hello_line :: "istream \<Rightarrow> string \<times> istream" where
  "hello_line s = (case read_line s of (str, s) \<Rightarrow>
     (''Enter name: '' @ newline @ ''System display '' @ str @ newline, s))"

definition inout_main :: "string \<Rightarrow> string" where
  "inout_main input = (case hello_line (open_stream input) of (out, s) \<Rightarrow>
     case read_ints s of (values, s) \<Rightarrow>
       out @ ''Enter values of type integers: '' @ ''Read values in system: '' @ concat (map (\<lambda>x. show_int x @ '' '') values) @ newline)"

lemma inout_main_example:
  "inout_main (''Ada'' @ newline @ '' 4 -5 6 stop'') = ''Enter name: '' @ newline @ ''System display Ada'' @ newline @
     ''Enter values of type integers: Read values in system: 4 -5 6 '' @ newline"
  by code_simp

end
