(* ===== verification/Matrix_Ops.thy ===== *)
theory Matrix_Ops
  imports Cpp_Prelude "HOL-Library.Word"
begin

text \<open>
  \<open>tensor/matrix.hpp\<close>: descriptors, checked subscripting, the element-wise operators, the three products and
  the shape of initializer lists. The header does not compile, and the constructor \<open>Matrix_slice(Dims...)\<close> is
  declared but not defined: it is the argument \<open>mk\<close> of the definitions that build a matrix, and
  \<open>row_major mk\<close> is what its comments promise. Subscripts stay below the number of elements of a vector, so
  \<open>size_t\<close> is \<open>nat\<close> there; \<open>slice\<close>, whose default start is -1, is kept in 64 bits. An assertion that
  fails and an access outside of \<open>elems\<close> are values of \<open>matrix_error\<close>.
\<close>

section \<open>Errors and loops\<close>

datatype matrix_error = Assertion | Outside_Elems

fun mbind :: "matrix_error + 'a \<Rightarrow> ('a \<Rightarrow> matrix_error + 'b) \<Rightarrow> matrix_error + 'b" where
  "mbind (Inl e) f = Inl e"
| "mbind (Inr x) f = f x"

text \<open>\<open>for (size_t i = 0; i != n; i++)\<close>, from \<open>i\<close> with \<open>r\<close> rounds left.\<close>

primrec for_rounds :: "nat \<Rightarrow> nat \<Rightarrow> (nat \<Rightarrow> 's \<Rightarrow> matrix_error + 's) \<Rightarrow> 's \<Rightarrow> matrix_error + 's" where
  "for_rounds i 0 body s = Inr s"
| "for_rounds i (Suc r) body s = mbind (body i s) (for_rounds (Suc i) r body)"

section \<open>Descriptors and elements\<close>

record matrix_slice =
  ms_size :: nat
  ms_start :: nat
  extents :: "nat list"
  strides :: "nat list"

record 'a matrix =
  desc :: matrix_slice
  elems :: "'a list"

text \<open>\<open>Matrix_slice::operator()\<close>: the inner product of the subscripts and the strides.\<close>

definition slice_index :: "matrix_slice \<Rightarrow> nat list \<Rightarrow> nat" where
  "slice_index s args = foldl (\<lambda>acc (a, b). acc + a * b) 0 (zip args (strides s))"

definition check_bounds :: "matrix_slice \<Rightarrow> nat list \<Rightarrow> bool" where
  "check_bounds s dims = list_all2 (<) dims (extents s)"

definition extent :: "'a matrix \<Rightarrow> nat \<Rightarrow> nat" where
  "extent m n = extents (desc m) ! n"

text \<open>\<open>Matrix::operator()\<close> as the position it refers to.\<close>

definition element_pos :: "'a matrix \<Rightarrow> nat list \<Rightarrow> matrix_error + nat" where
  "element_pos m args =
     (if \<not> check_bounds (desc m) args then Inl Assertion
      else if slice_index (desc m) args < length (elems m) then Inr (slice_index (desc m) args)
      else Inl Outside_Elems)"

definition element_get :: "'a matrix \<Rightarrow> nat list \<Rightarrow> matrix_error + 'a" where
  "element_get m args = mbind (element_pos m args) (\<lambda>p. Inr (elems m ! p))"

definition element_set :: "nat list \<Rightarrow> 'a \<Rightarrow> 'a matrix \<Rightarrow> matrix_error + 'a matrix" where
  "element_set args v m = mbind (element_pos m args) (\<lambda>p. Inr (m\<lparr>elems := (elems m)[p := v]\<rparr>))"

text \<open>\<open>Matrix<T,1>::row\<close>, which is \<open>operator[]\<close> of a vector: no assertion.\<close>

definition row1 :: "'a matrix \<Rightarrow> nat \<Rightarrow> matrix_error + 'a" where
  "row1 m i = (if i < length (elems m) then Inr (elems m ! i) else Inl Outside_Elems)"

text \<open>\<open>Matrix(Exts... exts)\<close>: value-initialised elements.\<close>

definition matrix_of_extents :: "(nat list \<Rightarrow> matrix_slice) \<Rightarrow> nat list \<Rightarrow> 'a::zero matrix" where
  "matrix_of_extents mk exts = \<lparr>desc = mk exts, elems = replicate (ms_size (mk exts)) 0\<rparr>"

section \<open>Operators on the elements\<close>

definition apply_elems :: "('a \<Rightarrow> 'a) \<Rightarrow> 'a matrix \<Rightarrow> 'a matrix" where
  "apply_elems f m = m\<lparr>elems := map f (elems m)\<rparr>"

definition add_assign_scalar :: "'a::plus \<Rightarrow> 'a matrix \<Rightarrow> 'a matrix" where
  "add_assign_scalar val m = apply_elems (\<lambda>a. a + val) m"

definition add_scalar :: "'a::plus matrix \<Rightarrow> 'a \<Rightarrow> 'a matrix" where
  "add_scalar m val = (let res = m in add_assign_scalar val res)"

text \<open>The loop ends at \<open>end()\<close> of the left operand; the other one may be shorter than that.\<close>

definition apply_pair :: "('a \<Rightarrow> 'b \<Rightarrow> 'a) \<Rightarrow> 'b matrix \<Rightarrow> 'a matrix \<Rightarrow> matrix_error + 'a matrix" where
  "apply_pair f m a =
     (if extents (desc a) \<noteq> extents (desc m) then Inl Assertion
      else if length (elems m) < length (elems a) then Inl Outside_Elems
      else Inr (a\<lparr>elems := map2 f (elems a) (elems m)\<rparr>))"

definition add_assign :: "'a::plus matrix \<Rightarrow> 'a matrix \<Rightarrow> matrix_error + 'a matrix" where
  "add_assign m a =
     (if extents (desc a) \<noteq> extents (desc m) then Inl Assertion else apply_pair (\<lambda>x y. x + y) m a)"

definition add_matrices :: "'a::plus matrix \<Rightarrow> 'a matrix \<Rightarrow> matrix_error + 'a matrix" where
  "add_matrices a b = (let res = a in add_assign b res)"

section \<open>Products\<close>

definition outer_product :: "(nat list \<Rightarrow> matrix_slice) \<Rightarrow> 'a::{zero, times} matrix \<Rightarrow> 'a matrix \<Rightarrow> matrix_error + 'a matrix" where
  "outer_product mk u v = (let n = extent u 0; m = extent v 0 in
     for_rounds 0 n (\<lambda>i. for_rounds 0 m (\<lambda>j res.
         mbind (row1 u i) (\<lambda>x. mbind (row1 v j) (\<lambda>y. element_set [i, j] (x * y) res))))
       (matrix_of_extents mk [n, m]))"

text \<open>The inner loop has the bound of the outer one.\<close>

definition matrix_vector :: "(nat list \<Rightarrow> matrix_slice) \<Rightarrow> 'a::{zero, plus, times} matrix \<Rightarrow> 'a matrix \<Rightarrow> matrix_error + 'a matrix" where
  "matrix_vector mk m v =
     (if extent m 1 \<noteq> extent v 0 then Inl Assertion
      else let n = extent m 0 in
        for_rounds 0 n (\<lambda>i. for_rounds 0 n (\<lambda>j res.
            mbind (element_get m [i, j]) (\<lambda>x. mbind (element_get v [j]) (\<lambda>y.
            mbind (element_get res [i]) (\<lambda>r. element_set [i] (r + x * y) res)))))
          (matrix_of_extents mk [n]))"

text \<open>The element is assigned in every round of the loop over \<open>k\<close>.\<close>

definition matrix_matrix :: "(nat list \<Rightarrow> matrix_slice) \<Rightarrow> 'a::{zero, times} matrix \<Rightarrow> 'a matrix \<Rightarrow> matrix_error + 'a matrix" where
  "matrix_matrix mk m1 m2 = (let n = extent m1 0; m = extent m1 1 in
     if m \<noteq> extent m2 0 then Inl Assertion
     else let p = extent m2 1 in
       for_rounds 0 n (\<lambda>i. for_rounds 0 m (\<lambda>j. for_rounds 0 p (\<lambda>k res.
           mbind (element_get m1 [i, k]) (\<lambda>x. mbind (element_get m2 [k, j]) (\<lambda>y.
             element_set [i, j] (x * y) res)))))
         (matrix_of_extents mk [n, p]))"

section \<open>Slices and initializer lists\<close>

record slice =
  sl_start :: "64 word"
  sl_length :: "64 word"
  sl_stride :: "64 word"

definition slice_default :: slice where
  "slice_default = \<lparr>sl_start = -1, sl_length = -1, sl_stride = 1\<rparr>"

definition slice_from :: "64 word \<Rightarrow> slice" where
  "slice_from s = \<lparr>sl_start = s, sl_length = -1, sl_stride = 1\<rparr>"

definition slice_of :: "64 word \<Rightarrow> 64 word \<Rightarrow> 64 word \<Rightarrow> slice" where
  "slice_of s l n = \<lparr>sl_start = s, sl_length = l, sl_stride = n\<rparr>"

definition slice_at :: "slice \<Rightarrow> 64 word \<Rightarrow> 64 word" where
  "slice_at s i = sl_start s + i * sl_stride s"

text \<open>A nested initializer list: \<open>Row\<close> of numbers is \<open>Matrix_init<T,1>\<close>.\<close>

datatype 'a init = Row "'a list" | Rows "'a init list"

primrec init_size :: "'a init \<Rightarrow> nat" where
  "init_size (Row xs) = length xs"
| "init_size (Rows ls) = length ls"

text \<open>\<open>None\<close> is the pointer \<open>begin() + 1\<close> behind the end of an empty list.\<close>

fun check_non_jagged :: "'a init list \<Rightarrow> bool option" where
  "check_non_jagged [] = None"
| "check_non_jagged (i # js) = Some (list_all (\<lambda>j. init_size i = init_size j) js)"

text \<open>\<open>add_extents\<close> with the assertion as the header means it.\<close>

fun add_extents :: "'a init \<Rightarrow> nat list option" where
  "add_extents (Row xs) = Some [length xs]"
| "add_extents (Rows ls) = (case ls of
     [] \<Rightarrow> None
   | l # _ \<Rightarrow> if check_non_jagged ls = Some True
       then map_option ((#) (length ls)) (add_extents l) else None)"

fun add_list :: "'a init \<Rightarrow> 'a list \<Rightarrow> 'a list" where
  "add_list (Row xs) vec = vec @ xs"
| "add_list (Rows ls) vec = fold add_list ls vec"

section \<open>Loops with an invariant\<close>

lemma mbind_Inr: "mbind m f = Inr y \<longleftrightarrow> (\<exists>x. m = Inr x \<and> f x = Inr y)"
  by (cases m) auto

lemma for_rounds_invariant:
  assumes "P i s"
    and "\<And>k s. i \<le> k \<Longrightarrow> k < i + r \<Longrightarrow> P k s \<Longrightarrow> \<exists>s'. body k s = Inr s' \<and> P (Suc k) s'"
  shows "\<exists>s'. for_rounds i r body s = Inr s' \<and> P (i + r) s'"
  using assms
proof (induction r arbitrary: i s)
  case (Suc r)
  obtain s' where s': "body i s = Inr s'" "P (Suc i) s'" using Suc.prems(2) [of i s] Suc.prems(1) by auto
  have "\<exists>s''. for_rounds (Suc i) r body s' = Inr s'' \<and> P (Suc i + r) s''"
    using s'(2) by (rule Suc.IH) (use Suc.prems(2) in auto)
  then show ?case using s'(1) by simp
qed simp

lemma for_rounds_fails:
  assumes "P i s" "i \<le> k" "k < i + r"
    and "\<And>j s. i \<le> j \<Longrightarrow> j < k \<Longrightarrow> P j s \<Longrightarrow> \<exists>s'. body j s = Inr s' \<and> P (Suc j) s'"
    and "\<And>s. P k s \<Longrightarrow> body k s = Inl e"
  shows "for_rounds i r body s = Inl e"
  using assms
proof (induction r arbitrary: i s)
  case (Suc r)
  show ?case
  proof (cases "i = k")
    case True
    then show ?thesis using Suc.prems(1,5) by simp
  next
    case False
    then obtain s' where s': "body i s = Inr s'" "P (Suc i) s'" using Suc.prems by force
    have "for_rounds (Suc i) r body s' = Inl e"
      using s'(2) by (rule Suc.IH) (use False Suc.prems in auto)
    then show ?thesis using s'(1) by simp
  qed
qed simp

section \<open>Row-major matrices\<close>

definition is_vector :: "nat \<Rightarrow> 'a matrix \<Rightarrow> bool" where
  "is_vector n v \<longleftrightarrow> extents (desc v) = [n] \<and> strides (desc v) = [1] \<and> length (elems v) = n"

definition is_matrix :: "nat \<Rightarrow> nat \<Rightarrow> 'a matrix \<Rightarrow> bool" where
  "is_matrix n p m \<longleftrightarrow> extents (desc m) = [n, p] \<and> strides (desc m) = [p, 1] \<and> length (elems m) = n * p"

definition vec_at :: "'a matrix \<Rightarrow> nat \<Rightarrow> 'a" where
  "vec_at v i = elems v ! i"

definition mat_at :: "'a matrix \<Rightarrow> nat \<Rightarrow> nat \<Rightarrow> 'a" where
  "mat_at m i j = elems m ! (i * (extents (desc m) ! 1) + j)"

definition row_major :: "(nat list \<Rightarrow> matrix_slice) \<Rightarrow> bool" where
  "row_major mk \<longleftrightarrow>
     (\<forall>n. ms_size (mk [n]) = n \<and> extents (mk [n]) = [n] \<and> strides (mk [n]) = [1]) \<and>
     (\<forall>n p. ms_size (mk [n, p]) = n * p \<and> extents (mk [n, p]) = [n, p] \<and> strides (mk [n, p]) = [p, 1])"

lemma pos_less: "i < n \<Longrightarrow> j < p \<Longrightarrow> i * p + j < n * p" for i n j p :: nat
proof -
  assume "i < n" "j < p"
  then have "i * p + j < Suc i * p" by simp
  also have "\<dots> \<le> n * p" using \<open>i < n\<close> by (intro mult_le_mono1) simp
  finally show ?thesis .
qed

lemma pos_inject: "j < p \<Longrightarrow> j' < p \<Longrightarrow> i * p + j = i' * p + j' \<longleftrightarrow> i = i' \<and> j = j'" for i i' j p :: nat
proof -
  assume j: "j < p" "j' < p"
  have "i = i' \<and> j = j'" if "i * p + j = i' * p + j'"
  proof -
    have "(i * p + j) div p = (i' * p + j') div p" using that by simp
    then have "i = i'" using j by simp
    then show ?thesis using that by simp
  qed
  then show ?thesis by blast
qed

lemma vec_get: "is_vector n v \<Longrightarrow> element_get v [i] = (if i < n then Inr (vec_at v i) else Inl Assertion)"
  by (auto simp: is_vector_def element_get_def element_pos_def check_bounds_def slice_index_def vec_at_def)

lemma vec_row1: "is_vector n v \<Longrightarrow> i < n \<Longrightarrow> row1 v i = Inr (vec_at v i)"
  by (simp add: is_vector_def row1_def vec_at_def)

lemma vec_set: "is_vector n v \<Longrightarrow> i < n \<Longrightarrow> \<exists>v'. element_set [i] x v = Inr v' \<and> is_vector n v' \<and>
    desc v' = desc v \<and> (\<forall>k<n. vec_at v' k = (if k = i then x else vec_at v k))"
  by (auto simp: is_vector_def element_set_def element_pos_def check_bounds_def slice_index_def vec_at_def)

lemma mat_get: "is_matrix n p m \<Longrightarrow>
    element_get m [i, j] = (if i < n \<and> j < p then Inr (mat_at m i j) else Inl Assertion)"
  by (auto simp: is_matrix_def element_get_def element_pos_def check_bounds_def slice_index_def mat_at_def pos_less)

lemma mat_set: "is_matrix n p m \<Longrightarrow> i < n \<Longrightarrow> j < p \<Longrightarrow> \<exists>m'. element_set [i, j] x m = Inr m' \<and> is_matrix n p m' \<and>
    (\<forall>i'<n. \<forall>j'<p. mat_at m' i' j' = (if i' = i \<and> j' = j then x else mat_at m i' j'))"
  by (auto simp: is_matrix_def element_set_def element_pos_def check_bounds_def slice_index_def mat_at_def
      pos_less pos_inject nth_list_update)

lemma extent_vector [simp]: "is_vector n v \<Longrightarrow> extent v 0 = n"
  by (simp add: is_vector_def extent_def)

lemma extent_matrix [simp]: "is_matrix n p m \<Longrightarrow> extent m 0 = n" "is_matrix n p m \<Longrightarrow> extent m (Suc 0) = p"
  by (simp_all add: is_matrix_def extent_def)

lemma new_vector: "row_major mk \<Longrightarrow> is_vector n (matrix_of_extents mk [n])"
    "row_major mk \<Longrightarrow> i < n \<Longrightarrow> vec_at (matrix_of_extents mk [n]) i = 0"
  by (simp_all add: row_major_def is_vector_def matrix_of_extents_def vec_at_def)

lemma new_matrix: "row_major mk \<Longrightarrow> is_matrix n p (matrix_of_extents mk [n, p])"
    "row_major mk \<Longrightarrow> i < n \<Longrightarrow> j < p \<Longrightarrow> mat_at (matrix_of_extents mk [n, p]) i j = 0"
  by (simp_all add: row_major_def is_matrix_def matrix_of_extents_def mat_at_def pos_less)

section \<open>Element-wise operators\<close>

lemma add_scalar_matrix: "is_matrix n p m \<Longrightarrow> is_matrix n p (add_scalar m c)"
    "is_matrix n p m \<Longrightarrow> i < n \<Longrightarrow> j < p \<Longrightarrow> mat_at (add_scalar m c) i j = mat_at m i j + c"
  by (simp_all add: is_matrix_def add_scalar_def add_assign_scalar_def apply_elems_def mat_at_def pos_less)

lemma add_matrices_matrix:
  assumes "is_matrix n p a" "is_matrix n p b"
  shows "\<exists>r. add_matrices a b = Inr r \<and> is_matrix n p r \<and> (\<forall>i<n. \<forall>j<p. mat_at r i j = mat_at a i j + mat_at b i j)"
  using assms by (auto simp: is_matrix_def add_matrices_def add_assign_def apply_pair_def mat_at_def pos_less)

lemma add_matrices_mismatch: "is_matrix n p a \<Longrightarrow> is_matrix n' p' b \<Longrightarrow> (n, p) \<noteq> (n', p') \<Longrightarrow>
    add_matrices a b = Inl Assertion"
  by (auto simp: is_matrix_def add_matrices_def add_assign_def)

section \<open>The outer product\<close>

definition outer_done :: "nat \<Rightarrow> nat \<Rightarrow> (nat \<Rightarrow> nat \<Rightarrow> 'a) \<Rightarrow> nat \<Rightarrow> nat \<Rightarrow> 'a matrix \<Rightarrow> bool" where
  "outer_done n p f i j r \<longleftrightarrow> is_matrix n p r \<and> (\<forall>i'<n. \<forall>j'<p. i' < i \<or> i' = i \<and> j' < j \<longrightarrow> mat_at r i' j' = f i' j')"

text \<open>Filling a matrix row by row, for the two products that assign to each element.\<close>

lemma fill_matrix:
  assumes start: "is_matrix n p r0"
    and body: "\<And>i j r. i < n \<Longrightarrow> j < p \<Longrightarrow> is_matrix n p r \<Longrightarrow> \<exists>r'. body i j r = Inr r' \<and> is_matrix n p r' \<and>
      (\<forall>i'<n. \<forall>j'<p. mat_at r' i' j' = (if i' = i \<and> j' = j then f i j else mat_at r i' j'))"
  shows "\<exists>r. for_rounds 0 n (\<lambda>i. for_rounds 0 p (body i)) r0 = Inr r \<and> is_matrix n p r \<and>
    (\<forall>i<n. \<forall>j<p. mat_at r i j = f i j)"
proof -
  have row: "\<exists>r'. for_rounds 0 p (body i) r = Inr r' \<and> outer_done n p f (Suc i) 0 r'"
    if i: "i < n" and r: "outer_done n p f i 0 r" for i r
  proof -
    have "\<exists>r'. for_rounds 0 p (body i) r = Inr r' \<and> outer_done n p f i (0 + p) r'"
    proof (rule for_rounds_invariant [where P = "outer_done n p f i"])
      show "outer_done n p f i 0 r" by (rule r)
    next
      fix j s assume j: "j < 0 + p" and s: "outer_done n p f i j s"
      then obtain s' where "body i j s = Inr s'" "is_matrix n p s'"
        "\<forall>i'<n. \<forall>j'<p. mat_at s' i' j' = (if i' = i \<and> j' = j then f i j else mat_at s i' j')"
        using body [of i j s] i by (auto simp: outer_done_def)
      then show "\<exists>s'. body i j s = Inr s' \<and> outer_done n p f i (Suc j) s'"
        using s by (auto simp: outer_done_def less_Suc_eq)
    qed
    then show ?thesis by (auto simp: outer_done_def less_Suc_eq)
  qed
  have "\<exists>r. for_rounds 0 n (\<lambda>i. for_rounds 0 p (body i)) r0 = Inr r \<and> outer_done n p f (0 + n) 0 r"
    by (rule for_rounds_invariant [where P = "\<lambda>i. outer_done n p f i 0"])
      (use start row in \<open>auto simp: outer_done_def\<close>)
  then show ?thesis by (auto simp: outer_done_def)
qed

lemma outer_product_correct:
  assumes mk: "row_major mk" and u: "is_vector n u" and v: "is_vector p v"
  shows "\<exists>r. outer_product mk u v = Inr r \<and> is_matrix n p r \<and>
    (\<forall>i<n. \<forall>j<p. mat_at r i j = vec_at u i * vec_at v j)"
  unfolding outer_product_def Let_def extent_vector [OF u] extent_vector [OF v]
proof (rule fill_matrix [OF new_matrix(1) [OF mk]])
  fix i j and r :: "'a matrix" assume i: "i < n" and j: "j < p" and r: "is_matrix n p r"
  show "\<exists>r'. mbind (row1 u i) (\<lambda>x. mbind (row1 v j) (\<lambda>y. element_set [i, j] (x * y) r)) = Inr r' \<and> is_matrix n p r' \<and>
      (\<forall>i'<n. \<forall>j'<p. mat_at r' i' j' = (if i' = i \<and> j' = j then vec_at u i * vec_at v j else mat_at r i' j'))"
    unfolding vec_row1 [OF u i] vec_row1 [OF v j] mbind.simps by (rule mat_set [OF r i j])
qed

section \<open>Matrix times vector\<close>

definition partial_dot :: "'a::comm_semiring_0 matrix \<Rightarrow> 'a matrix \<Rightarrow> nat \<Rightarrow> nat \<Rightarrow> 'a" where
  "partial_dot m v i j = (\<Sum>k<j. mat_at m i k * vec_at v k)"

definition mv_done :: "'a::comm_semiring_0 matrix \<Rightarrow> 'a matrix \<Rightarrow> nat \<Rightarrow> nat \<Rightarrow> nat \<Rightarrow> 'a matrix \<Rightarrow> bool" where
  "mv_done m v n i j r \<longleftrightarrow> is_vector n r \<and>
     (\<forall>k<n. vec_at r k = (if k < i then partial_dot m v k n else if k = i then partial_dot m v i j else 0))"

lemma mv_step:
  assumes m: "is_matrix n p m" and v: "is_vector p v" and i: "i < n" and j: "j < p" and r: "mv_done m v n i j r"
  shows "\<exists>r'. mbind (element_get m [i, j]) (\<lambda>x. mbind (element_get v [j]) (\<lambda>y.
      mbind (element_get r [i]) (\<lambda>z. element_set [i] (z + x * y) r))) = Inr r' \<and> mv_done m v n i (Suc j) r'"
proof -
  have w: "is_vector n r" using r by (simp add: mv_done_def)
  obtain r' where r': "element_set [i] (vec_at r i + mat_at m i j * vec_at v j) r = Inr r'" "is_vector n r'"
    "\<forall>k<n. vec_at r' k = (if k = i then vec_at r i + mat_at m i j * vec_at v j else vec_at r k)"
    using vec_set [OF w i] by blast
  have "mv_done m v n i (Suc j) r'" using r r' i by (auto simp: mv_done_def partial_dot_def)
  then show ?thesis using r'(1) i j by (simp add: mat_get [OF m] vec_get [OF v] vec_get [OF w])
qed

lemma mv_start: "row_major mk \<Longrightarrow> mv_done m v n 0 0 (matrix_of_extents mk [n])"
  by (simp add: mv_done_def new_vector partial_dot_def)

text \<open>With at most as many rows as columns, the columns behind the number of rows are left out.\<close>

lemma matrix_vector_wide:
  assumes mk: "row_major mk" and m: "is_matrix n p m" and v: "is_vector p v" and np: "n \<le> p"
  shows "\<exists>r. matrix_vector mk m v = Inr r \<and> is_vector n r \<and> (\<forall>i<n. vec_at r i = partial_dot m v i n)"
proof -
  let ?b = "\<lambda>i j r. mbind (element_get m [i, j]) (\<lambda>x. mbind (element_get v [j]) (\<lambda>y.
      mbind (element_get r [i]) (\<lambda>z. element_set [i] (z + x * y) r)))"
  have row: "\<exists>r'. for_rounds 0 n (?b i) r = Inr r' \<and> mv_done m v n (Suc i) 0 r'"
    if i: "i < n" and r: "mv_done m v n i 0 r" for i r
  proof -
    have "\<exists>r'. for_rounds 0 n (?b i) r = Inr r' \<and> mv_done m v n i (0 + n) r'"
      using r by (rule for_rounds_invariant [where P = "mv_done m v n i"]) (use mv_step [OF m v i] np in auto)
    then show ?thesis using i by (fastforce simp: mv_done_def less_Suc_eq partial_dot_def)
  qed
  have "\<exists>r. for_rounds 0 n (\<lambda>i. for_rounds 0 n (?b i)) (matrix_of_extents mk [n]) = Inr r \<and> mv_done m v n (0 + n) 0 r"
    by (rule for_rounds_invariant [where P = "\<lambda>i. mv_done m v n i 0"]) (use mv_start [OF mk] row in auto)
  then show ?thesis using m v by (auto simp: matrix_vector_def mv_done_def)
qed

lemma matrix_vector_square:
  fixes m :: "'a::comm_semiring_0 matrix"
  assumes "row_major mk" "is_matrix n n m" "is_vector n v"
  shows "\<exists>r. matrix_vector mk m v = Inr r \<and> is_vector n r \<and> (\<forall>i<n. vec_at r i = (\<Sum>k<n. mat_at m i k * vec_at v k))"
  using matrix_vector_wide [OF assms order_refl] by (simp add: partial_dot_def)

text \<open>With more rows than columns, the assertion of the subscript fails.\<close>

lemma matrix_vector_tall:
  fixes m :: "'a::comm_semiring_0 matrix"
  assumes mk: "row_major mk" and m: "is_matrix n p m" and v: "is_vector p v" and np: "p < n"
  shows "matrix_vector mk m v = Inl Assertion"
proof -
  let ?b = "\<lambda>i j r. mbind (element_get m [i, j]) (\<lambda>x. mbind (element_get v [j]) (\<lambda>y.
      mbind (element_get r [i]) (\<lambda>z. element_set [i] (z + x * y) r)))"
  have n0: "0 < n" using np by simp
  have row: "for_rounds 0 n (?b 0) r = Inl Assertion" if r: "mv_done m v n 0 0 r" for r
    using r by (rule for_rounds_fails [where k = p and P = "mv_done m v n 0"]) (use np mv_step [OF m v n0] in \<open>auto simp: mat_get [OF m]\<close>)
  have "for_rounds 0 n (\<lambda>i. for_rounds 0 n (?b i)) (matrix_of_extents mk [n]) = Inl Assertion"
    using mv_start [OF mk] by (rule for_rounds_fails [where k = 0 and P = "\<lambda>i. mv_done m v n i 0"]) (use n0 row in auto)
  then show ?thesis using m v by (simp add: matrix_vector_def)
qed

section \<open>Matrix times matrix\<close>

lemma mm_last:
  assumes m1: "is_matrix n m m1" and m2: "is_matrix m p m2" and pm: "p \<le> m"
    and i: "i < n" and j: "j < p" and r: "is_matrix n p r"
  shows "\<exists>r'. for_rounds 0 p (\<lambda>k res. mbind (element_get m1 [i, k]) (\<lambda>x. mbind (element_get m2 [k, j]) (\<lambda>y.
      element_set [i, j] (x * y) res))) r = Inr r' \<and> is_matrix n p r' \<and>
    (\<forall>i'<n. \<forall>j'<p. mat_at r' i' j' = (if i' = i \<and> j' = j then mat_at m1 i (p - 1) * mat_at m2 (p - 1) j else mat_at r i' j'))"
proof -
  let ?P = "\<lambda>k s. is_matrix n p s \<and> (\<forall>i'<n. \<forall>j'<p. mat_at s i' j' =
    (if i' = i \<and> j' = j \<and> 0 < k then mat_at m1 i (k - 1) * mat_at m2 (k - 1) j else mat_at r i' j'))"
  have "\<exists>r'. for_rounds 0 p (\<lambda>k res. mbind (element_get m1 [i, k]) (\<lambda>x. mbind (element_get m2 [k, j]) (\<lambda>y.
      element_set [i, j] (x * y) res))) r = Inr r' \<and> ?P (0 + p) r'"
  proof (rule for_rounds_invariant)
    show "?P 0 r" using r by simp
  next
    fix k s assume k: "k < 0 + p" and s: "?P k s"
    then obtain s' where s': "element_set [i, j] (mat_at m1 i k * mat_at m2 k j) s = Inr s'" "is_matrix n p s'"
      "\<forall>i'<n. \<forall>j'<p. mat_at s' i' j' = (if i' = i \<and> j' = j then mat_at m1 i k * mat_at m2 k j else mat_at s i' j')"
      using mat_set [OF conjunct1 [OF s] i j, of "mat_at m1 i k * mat_at m2 k j"] by metis
    show "\<exists>s'. mbind (element_get m1 [i, k]) (\<lambda>x. mbind (element_get m2 [k, j]) (\<lambda>y.
        element_set [i, j] (x * y) s)) = Inr s' \<and> ?P (Suc k) s'"
      using s' s k i j pm by (simp add: mat_get [OF m1] mat_get [OF m2])
  qed
  moreover have "0 < p" using j by simp
  ultimately show ?thesis by (simp only: add_0 simp_thms)
qed

text \<open>Where the product of an n-by-p and a p-by-p matrix is defined, the last summand alone is the element.\<close>

lemma matrix_matrix_square:
  assumes mk: "row_major mk" and m1: "is_matrix n p m1" and m2: "is_matrix p p m2"
  shows "\<exists>r. matrix_matrix mk m1 m2 = Inr r \<and> is_matrix n p r \<and>
    (\<forall>i<n. \<forall>j<p. mat_at r i j = mat_at m1 i (p - 1) * mat_at m2 (p - 1) j)"
proof -
  have "\<exists>r. for_rounds 0 n (\<lambda>i. for_rounds 0 p (\<lambda>j. for_rounds 0 p (\<lambda>k res.
      mbind (element_get m1 [i, k]) (\<lambda>x. mbind (element_get m2 [k, j]) (\<lambda>y. element_set [i, j] (x * y) res)))))
      (matrix_of_extents mk [n, p]) = Inr r \<and> is_matrix n p r \<and>
    (\<forall>i<n. \<forall>j<p. mat_at r i j = mat_at m1 i (p - 1) * mat_at m2 (p - 1) j)"
    by (rule fill_matrix [OF new_matrix(1) [OF mk]]) (rule mm_last [OF m1 m2 order_refl])
  then show ?thesis using m1 m2 by (simp add: matrix_matrix_def)
qed

text \<open>Every other product of matrices that are not empty ends in the assertion of a subscript.\<close>

lemma matrix_matrix_rectangular:
  fixes m1 :: "'a::comm_semiring_0 matrix"
  assumes mk: "row_major mk" and m1: "is_matrix n m m1" and m2: "is_matrix m p m2"
    and pos: "0 < n" "0 < m" "0 < p" and ne: "m \<noteq> p"
  shows "matrix_matrix mk m1 m2 = Inl Assertion"
proof -
  let ?b = "\<lambda>i j k res. mbind (element_get m1 [i, k]) (\<lambda>x. mbind (element_get m2 [k, j]) (\<lambda>y.
      element_set [i, j] (x * y) res))"
  have row: "for_rounds 0 m (\<lambda>j. for_rounds 0 p (?b 0 j)) r = Inl Assertion" if r: "is_matrix n p r" for r
  proof (cases "p < m")
    case True
    have "for_rounds 0 p (?b 0 p) s = Inl Assertion" for s
      by (rule for_rounds_fails [where k = 0 and P = "\<lambda>_ _. True"]) (use pos in \<open>auto simp: mat_get [OF m1] mat_get [OF m2]\<close>)
    moreover have "\<exists>s'. for_rounds 0 p (?b 0 j) s = Inr s' \<and> is_matrix n p s'" if "j < p" "is_matrix n p s" for j s
      using mm_last [OF m1 m2 less_imp_le [OF True] pos(1) that] by metis
    ultimately show ?thesis
      by - (rule for_rounds_fails [where k = p and P = "\<lambda>_. is_matrix n p"], use True r in auto)
  next
    case False
    have step: "\<exists>s'. ?b 0 0 k s = Inr s' \<and> is_matrix n p s'" if "k < m" "is_matrix n p s" for k s
      using mat_set [OF that(2) pos(1,3), of "mat_at m1 0 k * mat_at m2 k 0"] that(1) pos
      by (auto simp: mat_get [OF m1] mat_get [OF m2])
    have "for_rounds 0 p (?b 0 0) s = Inl Assertion" if "is_matrix n p s" for s
      by (rule for_rounds_fails [where k = m and P = "\<lambda>_. is_matrix n p"])
        (use that step False ne in \<open>auto simp: mat_get [OF m1]\<close>)
    then show ?thesis
      by - (rule for_rounds_fails [where k = 0 and P = "\<lambda>_. is_matrix n p"], use pos r in auto)
  qed
  have "for_rounds 0 n (\<lambda>i. for_rounds 0 m (\<lambda>j. for_rounds 0 p (?b i j))) (matrix_of_extents mk [n, p]) = Inl Assertion"
    by (rule for_rounds_fails [where k = 0 and P = "\<lambda>_. is_matrix n p"])
      (use new_matrix(1) [OF mk] pos row in auto)
  then show ?thesis using m1 m2 by (simp add: matrix_matrix_def)
qed

section \<open>Slices and lists\<close>

lemma slice_from_at: "slice_at (slice_from s) i = s + i" "slice_at slice_default i = i - 1"
  by (simp_all add: slice_at_def slice_from_def slice_default_def)

lemma slice_of_at: "unat s + unat i * unat n < 2 ^ 64 \<Longrightarrow> unat (slice_at (slice_of s l n) i) = unat s + unat i * unat n"
proof -
  assume a: "unat s + unat i * unat n < 2 ^ 64"
  then have "unat (i * n) = unat i * unat n" by (subst unat_mult_lem [THEN iffD1]) simp_all
  then show ?thesis using a by (simp add: slice_at_def slice_of_def unat_add_lem [THEN iffD1])
qed

text \<open>A list of lists of numbers: the shape is the right one, and the number of elements its product.\<close>

lemma fold_add_rows: "fold add_list (map Row xss) vec = vec @ concat xss"
  by (induction xss arbitrary: vec) simp_all

lemma add_extents_rows: "add_extents (Rows (map Row xss)) = Some es \<Longrightarrow>
    es = [length xss, length (hd xss)] \<and> length (add_list (Rows (map Row xss)) []) = prod_list es"
proof -
  assume "add_extents (Rows (map Row xss)) = Some es"
  then obtain ys yss where x: "xss = ys # yss" "es = [Suc (length yss), length ys]" "\<forall>zs\<in>set yss. length zs = length ys"
    by (cases xss) (auto simp: list_all_iff split: if_splits)
  have "sum_list (map length yss) = length yss * length ys" using x(3) by (induction yss) auto
  then show ?thesis using x by (simp add: fold_add_rows length_concat)
qed

text \<open>Deeper lists are looked at in the first branch only; the assertion of the constructor is left to catch them.\<close>

lemma add_extents_jagged:
  "let l = Rows [Rows [Row [1], Row [2]], Rows [Row [3], Row [4, 5::int]]] in
    add_extents l = Some [2, 2, 1] \<and> length (add_list l []) = 5"
  by simp

lemma matrix_matrix_differs:
  "\<exists>(m1 :: int matrix) m2 r. is_matrix 2 2 m1 \<and> is_matrix 2 2 m2 \<and>
     matrix_matrix (\<lambda>es. \<lparr>ms_size = prod_list es, ms_start = 0, extents = es,
       strides = (if length es = 2 then [es ! 1, 1] else [1])\<rparr>) m1 m2 = Inr r \<and>
     mat_at r 0 0 \<noteq> (\<Sum>k<2. mat_at m1 0 k * mat_at m2 k 0)"
proof -
  let ?mk = "\<lambda>es. \<lparr>ms_size = prod_list es, ms_start = 0, extents = es,
       strides = (if length es = 2 then [es ! 1, 1] else [1])\<rparr>"
  let ?m = "\<lparr>desc = ?mk [2, 2], elems = [1, 1, 1, 1 :: int]\<rparr>"
  have m: "is_matrix 2 2 ?m" and mk: "row_major ?mk" by (simp_all add: is_matrix_def row_major_def)
  obtain r where r: "matrix_matrix ?mk ?m ?m = Inr r" "\<forall>i<2. \<forall>j<2. mat_at r i j = mat_at ?m i 1 * mat_at ?m 1 j"
    using matrix_matrix_square [OF mk m m] by auto
  have "mat_at r 0 0 \<noteq> (\<Sum>k<2. mat_at ?m 0 k * mat_at ?m k 0)"
    using r(2) [rule_format, of 0 0] by (simp add: mat_at_def numeral_2_eq_2)
  then show ?thesis using m r(1) by blast
qed

end
