(* ===== verification/Spec2Isabelle.thy ===== *)
theory Spec2Isabelle
  imports
    Circular_Buffer Conflating_Queue Vector_Model Threadsafe_Stack Threadsafe_Queue
    Dns Lookup_Table Chat_Protocol Chat_Server Chat_Client Chat_Lines Accumulate Unique_Ptr Trees Tree_Distances Doubly_Linked Linked_List Tree_Lists
    Dp String_Search String_Problems Substrings
    Graphs Topological_Sort Malware Grids
    Array_Problems Array_Results Fenwick Pair_Search Quickselect Task_Manager
    Linearizability Lock_Free_Stack
    Sentinel_List Sentinel_Links Sentinel_List_Correct Sentinel_Program
    Treap Range_Minimum Heap_Sort Bit_Vector String_Hashing Bipartite
    Compact_String Compact_Programs
    Fine_Grained_Queue Fine_Grained_Steps Fine_Grained_Results Plain_Queue
    Fourier Text_Input Word_Count Anagrams
    Intrusive_Links C_Strings Vector_Tests Unique_Ptr_Tests Entry_IO Matrix_Ops
begin

text \<open>
  A verification library for the \<open>morecpp\<close> programs: containers, concurrent data structures, a chat
  server and client, and collections of algorithm problems, each a small C++ program of its own.
  The programs share no code with each other, so the theories follow the source files; what they
  share here is the prelude, the interfaces, the heap and the tables.

  \<^bold>\<open>Foundations.\<close>
  \<^item> \<open>Cpp_Prelude\<close>: machine types, exceptions and undefined behaviour as values (\<open>'a result\<close>), text
    output of numbers, lemmas on lists, words and interleavings.
  \<^item> \<open>Cpp_Interfaces\<close>: the interfaces as locales: \<open>fifo_pop\<close> and \<open>fifo_queue\<close> (a queue and its client
    loops), \<open>lifo_stack\<close>, \<open>keyed_store\<close> and \<open>removable_store\<close>. \<open>Worker_Pool\<close> adds \<open>blocking_queue\<close>, a
    step relation of one producer and any number of workers over a closable queue, whose invariant,
    deadlock freedom and termination are proved once. Every locale is interpreted on the operations
    of the containers that provide it.
  \<^item> \<open>Cpp_Heap\<close>: objects at addresses with a log of what is created, deleted and printed; using or
    deleting a dead object is recorded as undefined behaviour. An address is never given out twice,
    which these programs cannot observe.
  \<^item> \<open>Tables\<close>: one- and two-dimensional tables and the loops that fill them, with the lemmas that a
    loop computes the recursive function its assignments follow.
  \<^item> \<open>Std_Map\<close>: \<open>std::map\<close> as a sorted association list.

  \<^bold>\<open>Containers.\<close>
  \<^item> \<open>Circular_Buffer\<close> (\<open>impl/circular_buffer.cpp\<close>) refines a bounded queue; \<open>Conflating_Queue\<close>
    (\<open>impl/conflating_queue.cpp\<close>) refines conflation on an association list for every sequence of its members, with list
    iterators as node identities.
  \<^item> \<open>Vector_Model\<close> (\<open>containers/vector.hpp\<close>): raw storage, element lifetimes and exceptions at every
    constructor call; no leak, the strong guarantee for elements and capacity, amortized cost. \<open>Vector_Tests\<close>: the element types and the programs of
    \<open>vector_test.cpp\<close>, \<open>vector_growth_test.cpp\<close>, \<open>vector_reserve_test.cpp\<close> and \<open>vector_example.cpp\<close>; their
    assertions hold of the model.
  \<^item> \<open>Unique_Ptr\<close> (\<open>containers/unique_ptr.hpp\<close>, \<open>impl/simple_unique_ptr.cpp\<close>): ownership over the heap;
    \<open>Unique_Ptr_Tests\<close> (\<open>containers/unique_ptr_test.cpp\<close>).
  \<^item> \<open>Doubly_Linked\<close> (\<open>algorithms/linked_list/doubly.cpp\<close>): the class refines lists, and deletes every
    node exactly once.
  \<^item> \<open>Sentinel_List\<close> (\<open>algorithms/linked_list/link.hpp\<close>): \<open>ds::List\<close>, circular lists with the sentinel in
    the object, several objects in one memory, allocators that may differ, allocations and constructors
    that may throw. \<open>Sentinel_Links\<close> has the conditions under which a member ends (\<open>l_spec\<close>) and the
    invariant \<open>mem_ok\<close>; \<open>Sentinel_List_Correct\<close> the effect of each member on the lists of values;
    \<open>Sentinel_Program\<close> programs of commands, which choose the next command by the result or exception of the last, so
    that an object is used where its constructor returned and not where it threw: they refine lists of values and leak nothing.
  \<^item> \<open>Compact_String\<close> (\<open>strings/compact.hpp\<close>): the string with a buffer for short contents, in a memory of
    objects and arrays of characters that may be unwritten; allocations may fail. \<open>Compact_Programs\<close>: its
    programs, which react to exceptions in the same way, refine programs over strings and leak nothing.

  \<^bold>\<open>Concurrency.\<close>
  \<^item> \<open>Threadsafe_Stack\<close> (\<open>concurrency/my_stack.cpp\<close>, \<open>lock_base_stack.cpp\<close>), \<open>Threadsafe_Queue\<close>
    (\<open>thread_queue.cpp\<close>), \<open>Dns\<close> (\<open>dns.cpp\<close>), \<open>Lookup_Table\<close> (\<open>threadsafe_lookup_table.cpp\<close>),
    \<open>Accumulate\<close> (\<open>accumulate.cpp\<close>). An operation that holds its mutex from start to end is one step;
    threads are interleavings of such steps, either as sequences or as the step relation of
    \<open>Worker_Pool\<close>. The theorems hold for every schedule.
  \<^item> \<open>Linearizability\<close>: histories of calls and returns, and what it means that they are those of a sequential object whose
    operations take effect between the two.
  \<^item> \<open>Lock_Free_Stack\<close> (\<open>concurrency/lock_free_stack.cpp\<close>): one step per atomic operation of a thread, in
    a sequentially consistent memory whose addresses are given out again. The invariant accounts for every
    split reference; it gives linearizability of the histories \<open>lf_history\<close>, no use after deletion and no leak.
  \<^item> \<open>Fine_Grained_Queue\<close> (\<open>threadsafe_queue\<close> of \<open>concurrency/single_thread_queue.cpp\<close>): one step per lock,
    unlock and access, with a condition variable that may wake threads spuriously. \<open>Fine_Grained_Steps\<close>
    has the invariant and the effect that each step has on a sequential queue; \<open>Fine_Grained_Results\<close>
    linearizability of the histories \<open>fq_history\<close>, freedom from races, definedness, progress, memory, and the wake-up that \<open>push\<close> can lose.
    \<open>Plain_Queue\<close>: the queue for one thread of the same file, FIFO until it is drained.
  \<^item> \<open>Chat_Protocol\<close>, \<open>Chat_Server\<close>, \<open>Chat_Client\<close> (\<open>runboost/\<close>): the handlers Boost.Asio would run are
    operations on the state, posted handlers are queues of the state, and what the sockets deliver
    is the sequence of events. \<open>Chat_Lines\<close> follows a typed line through client, session and client, where the pieces in
    which the bytes arrive are cut anywhere; that the library finds the newlines in them is its hypothesis \<open>reads_lines\<close>.

  \<^bold>\<open>Algorithms.\<close>
  \<^item> \<open>Trees\<close> and \<open>Tree_Distances\<close> (\<open>algorithms/trees/trees.cpp\<close>: binary trees, and the sums of distances
    in a general tree given by its edges), \<open>Linked_List\<close> and \<open>Tree_Lists\<close>
    (\<open>algorithms/linked_list/linked_list.cpp\<close>, over the heap: Floyd's cycle detection, Morris and
    stack conversion of a tree into a list).
  \<^item> \<open>Dp\<close> (\<open>algorithms/dp/dp.cpp\<close>) with the specifications of \<open>Subsequences\<close>.
  \<^item> \<open>String_Search\<close> (the Knuth-Morris-Pratt search), \<open>String_Problems\<close> and \<open>Substrings\<close>
    (\<open>algorithms/strings/strings.cpp\<close>).
  \<^item> \<open>Graphs\<close> (\<open>algorithms/graphs/graphs.cpp\<close>, all definitions), \<open>Topological_Sort\<close>, \<open>Grids\<close> and
    \<open>Malware\<close> (their correctness).
  \<^item> \<open>Array_Problems\<close> (\<open>algorithms/array\<close>, \<open>binary_search\<close>, \<open>bits\<close>, all definitions) with \<open>Array_Results\<close>,
    \<open>Fenwick\<close>, \<open>Pair_Search\<close> and \<open>Quickselect\<close> (their correctness); \<open>Task_Manager\<close> (\<open>algorithms/design\<close>).
  \<^item> \<open>Treap\<close> and \<open>Range_Minimum\<close> (\<open>algorithms/data\<close>): the treap as a sorted multiset, with the
    priorities as arguments; the sparse table.
  \<^item> \<open>Heap_Sort\<close>, \<open>Bipartite\<close> and \<open>String_Hashing\<close> (\<open>data/\<close>), \<open>Bit_Vector\<close> (\<open>pearls/sort_bitmap.cpp\<close>,
    \<open>pearls/one.cpp\<close>): each algorithm with its program and its correctness.
  \<^item> \<open>Fourier\<close> (\<open>tensor/fft.hpp\<close>): the transform over any field, evaluated at complex roots of unity, and the
    product of polynomials. \<open>Matrix_Ops\<close> (\<open>tensor/matrix.hpp\<close>): checked subscripts, element-wise operators and the
    three products, as the templates are written. \<open>Text_Input\<close> has the words and lines that \<open>operator>>\<close> and \<open>getline\<close> read, for
    \<open>Word_Count\<close> (\<open>strings/strings.cpp\<close>, \<open>strings/string.hpp\<close>), \<open>Anagrams\<close>
    (\<open>pearls/anagram_program.cpp\<close>) and \<open>Entry_IO\<close> (\<open>atorus/inout.cpp\<close>: streams with their state bits, and
    entries that are written and read back).
  \<^item> \<open>Intrusive_Links\<close> (\<open>data/list.hpp\<close>, \<open>data/test_data.cpp\<close>): nodes that a program links itself hold the list of the same
    insertions. \<open>C_Strings\<close> (\<open>algorithms/vec/vec.cpp\<close>): character arrays up to the first zero.

  \<^bold>\<open>How the model corresponds to the code.\<close> Definitions keep the names of the source, prefixed where
  two classes use the same name. A class is a record of its data members, a member function takes
  and returns it. Loops are folds over the index range or recursive functions. A loop whose end
  depends on the data is a \<open>partial_function\<close> into \<open>option\<close>, and the properties show that it returns
  \<open>Some\<close>; the only fuel is that of the client loops \<open>drain\<close>, which succeed with one unit more than
  the queue has elements, and of the schedules, which are arbitrary sequences. \<open>size_t\<close> is a 64-bit
  word and bit masks are 32-bit words. An \<open>int\<close> that is only counted or summed is an unbounded
  integer: the model agrees with the code while the values are in range. \<open>std::complex<double>\<close> is
  a complex number: the theorems on the transform are about exact arithmetic. Reads outside an array and
  other operations without a meaning are \<open>Inl Undefined_Behaviour\<close> or \<open>None\<close>.

  \<^bold>\<open>Kinds of properties.\<close> Refinements of an abstract type for every sequence of operations (queues,
  stacks, tables, lists, pointers); invariants of reachable states (print shop, chat sessions and
  client, ownership); safety and error behaviour (leaks, exceptions, undefined behaviour);
  termination and deadlock freedom; agreement of optimised algorithms with their specification.

  \<^bold>\<open>Parameters.\<close> Hash functions, the number of hardware threads, schedules, the traversal order of
  unordered containers, the contents of uninitialised arrays and the library's splitting of a stream into lines are
  arguments of the definitions.

  \<^bold>\<open>Not modelled.\<close> Socket set-up and option parsing of the chat programs; what does not compile: the move assignment of \<open>SimpleUniquePtr\<close>, \<open>empty\<close> of the fine-grained queue,
  \<open>__erase_\<close> of \<open>data/list.hpp\<close>, \<open>data/vec.hpp\<close>, rows, slices and the eliminations of \<open>tensor/matrix.hpp\<close>, \<open>my_vector\<close> of \<open>algorithms/vec/vec.cpp\<close>, which
  nothing uses; \<open>String\<close> of \<open>strings/string.hpp\<close>, whose destructor is declared and not defined;
  files, clock and generator of the bitmap sort; weak memory orderings;
  snippets of single language features and the Boost samples, which are input and output.
\<close>

end
